(* ===== verification/Prelude.thy ===== *)
theory Prelude
  imports Main "HOL-Library.Word"
begin

text \<open>
  Shared vocabulary of the development: names for the machine types of the C code, the
  64-bit \<open>size_t\<close> arithmetic written out on natural numbers, big- and little-endian byte
  strings, and the lemmas on bytes, words and lists that several components use.

  \<^item> \<open>u8\<close>, \<open>u16\<close>, \<open>u32\<close>, \<open>u64\<close> are \<open>uint8_t\<close> \dots \<open>uint64_t\<close>.
  \<^item> A \<open>size_t\<close> is a natural number below \<open>size_mod\<close>; \<open>size_add\<close>, \<open>size_mul\<close> wrap as C does.
  \<^item> A C function that returns 0/1 and fills out-parameters is a function that returns
    \<open>'a option\<close> (\<open>None\<close> for 0, \<open>Some out\<close> for 1) together with the updated state, so
    that the state a failing call leaves behind is kept.
\<close>

unbundle bit_operations_syntax

type_synonym u8 = "8 word"
type_synonym u16 = "16 word"
type_synonym u32 = "32 word"
type_synonym u64 = "64 word"
type_synonym size_t = nat

named_theorems byte_simps \<open>evaluation of byte-level operations\<close>

section \<open>size\_t arithmetic\<close>

abbreviation (input) size_mod :: nat where
  "size_mod \<equiv> 18446744073709551616"

definition size_add :: "size_t \<Rightarrow> size_t \<Rightarrow> size_t" where
  "size_add a b = (a + b) mod size_mod"

definition size_mul :: "size_t \<Rightarrow> size_t \<Rightarrow> size_t" where
  "size_mul a b = (a * b) mod size_mod"

definition size_sub :: "size_t \<Rightarrow> size_t \<Rightarrow> size_t" where
  "size_sub a b = (if b \<le> a then a - b else a + size_mod - b)"

lemma size_mod_eq: "size_mod = 2 ^ 64"
  by simp

lemma size_add_small [simp]: "a + b < size_mod \<Longrightarrow> size_add a b = a + b"
  by (simp add: size_add_def)

lemma size_add_lt [simp]: "size_add a b < size_mod"
  by (simp add: size_add_def)

lemma size_add_wraps:
  assumes "a < size_mod" "b < size_mod"
  shows "size_add a b < a \<longleftrightarrow> size_mod \<le> a + b"
proof (cases "a + b < size_mod")
  case True
  then show ?thesis by simp
next
  case False
  then have "(a + b) mod size_mod = a + b - size_mod"
    using assms by (simp add: mod_if)
  with False assms show ?thesis by (simp add: size_add_def)
qed

lemma size_mul_small [simp]: "a * b < size_mod \<Longrightarrow> size_mul a b = a * b"
  by (simp add: size_mul_def)

lemma size_sub_small [simp]: "b \<le> a \<Longrightarrow> size_sub a b = a - b"
  by (simp add: size_sub_def)

section \<open>Bytes and words\<close>

lemma unat_u8_lt [simp]: "unat (b :: u8) < 256"
  using unsigned_less [of b, where ?'a = nat] by simp

lemma unat_u16_lt [simp]: "unat (w :: u16) < 65536"
  using unsigned_less [of w, where ?'a = nat] by simp

lemma unat_u32_lt [simp]: "unat (w :: u32) < 4294967296"
  using unsigned_less [of w, where ?'a = nat] by simp

lemma unat_u64_lt [simp]: "unat (w :: u64) < size_mod"
  using unsigned_less [of w, where ?'a = nat] by simp

lemma unat_and_mask: "unat (w AND mask n) = unat w mod 2 ^ n"
  by (simp only: take_bit_eq_mask [symmetric] unsigned_take_bit_eq
    take_bit_eq_mod [where ?'a = nat])

lemma unat_drop_bit: "unat (drop_bit n w) = unat w div 2 ^ n"
  by (simp only: unat_drop_bit_eq drop_bit_eq_div [where ?'a = nat])

lemma and_7F: "(w :: 'a::len word) AND 0x7F = take_bit 7 w"
  by (simp add: take_bit_eq_mask mask_eq_exp_minus_1)

lemma and_FF: "(w :: 'a::len word) AND 0xFF = take_bit 8 w"
  by (simp add: take_bit_eq_mask mask_eq_exp_minus_1)

lemma bit_80 [byte_simps]:
  "bit (0x80 :: int) n \<longleftrightarrow> n = 7" "bit (0x80 :: u8) n \<longleftrightarrow> n = 7"
  "bit (0x80 :: u32) n \<longleftrightarrow> n = 7" "bit (0x80 :: u64) n \<longleftrightarrow> n = 7"
  using bit_exp_iff [of 7 n, where 'a = int] bit_exp_iff [of 7 n, where 'a = u8]
    bit_exp_iff [of 7 n, where 'a = u32] bit_exp_iff [of 7 n, where 'a = u64]
  by auto

lemma drop_bit_0_bitD: "drop_bit k (w :: 'a::len word) = 0 \<Longrightarrow> bit w n \<Longrightarrow> n < k"
proof (rule ccontr)
  assume z: "drop_bit k w = 0" and b: "bit w n" and k: "\<not> n < k"
  from b k have "bit (drop_bit k w) (n - k)" by (simp add: bit_drop_bit_eq)
  then have "bit (0 :: 'a word) (n - k)" by (simp only: z)
  then show False by simp
qed

lemma and_80_iff_bit: "(b :: u8) AND 0x80 = 0 \<longleftrightarrow> \<not> bit b 7"
proof
  assume "b AND 0x80 = 0"
  then have "\<not> bit (b AND 0x80) 7" by simp
  then show "\<not> bit b 7" by (simp add: bit_and_iff bit_80)
next
  assume "\<not> bit b 7"
  then show "b AND 0x80 = 0"
    by (intro bit_word_eqI) (auto simp: bit_simps bit_80)
qed

text \<open>Reassembling a word from a low part and the bits above it.\<close>

lemma take_bit_or_push:
  "take_bit k v OR push_bit k (take_bit m (drop_bit k v)) = take_bit (k + m) (v :: 'a::len word)"
  by (rule bit_word_eqI) (auto simp: bit_simps)

lemma take_bit_all:
  "drop_bit k (v :: 'a::len word) = 0 \<Longrightarrow> take_bit k v = v"
  by (rule bit_word_eqI) (auto simp: bit_simps dest: drop_bit_0_bitD)

lemma unat_ucast_32_64 [simp]: "unat (ucast (v :: u32) :: u64) = unat v"
  using less_trans [OF unat_u32_lt [of v], of size_mod]
  by (simp add: unsigned_ucast_eq take_bit_nat_eq_self_iff)

lemma u8_low7: "\<not> bit b 7 \<Longrightarrow> take_bit 7 (b :: u8) = b"
  by (rule bit_word_eqI) (auto simp: bit_simps less_Suc_eq numeral_eq_Suc)

section \<open>Byte memory\<close>

definition mem_bytes :: "(nat \<Rightarrow> u8) \<Rightarrow> nat \<Rightarrow> nat \<Rightarrow> u8 list" where
  "mem_bytes mem p n = map mem [p..<p + n]"

fun store_bytes :: "(nat \<Rightarrow> u8) \<Rightarrow> nat \<Rightarrow> u8 list \<Rightarrow> (nat \<Rightarrow> u8)" where
  "store_bytes mem dest [] = mem"
| "store_bytes mem dest (b # bs) = store_bytes (mem(dest := b)) (Suc dest) bs"

lemma length_mem_bytes [simp]: "length (mem_bytes mem p n) = n"
  by (simp add: mem_bytes_def)

lemma store_bytes_frame:
  "q < p \<or> p + length bs \<le> q \<Longrightarrow> store_bytes mem p bs q = mem q"
  by (induction bs arbitrary: mem p) auto

lemma store_bytes_nth:
  "i < length bs \<Longrightarrow> store_bytes mem p bs (p + i) = bs ! i"
proof (induction bs arbitrary: i mem p)
  case (Cons b bs)
  show ?case
  proof (cases i)
    case 0
    then show ?thesis by (simp add: store_bytes_frame)
  next
    case (Suc j)
    with Cons.IH [of j "mem(p := b)" "Suc p"] Cons.prems show ?thesis by (simp add: fun_upd_def)
  qed
qed simp

lemma store_bytes_append:
  "store_bytes mem p (xs @ ys) = store_bytes (store_bytes mem p xs) (p + length xs) ys"
  by (induction xs arbitrary: mem p) auto

lemma mem_bytes_store [simp]: "mem_bytes (store_bytes mem p bs) p (length bs) = bs"
  by (rule nth_equalityI) (simp_all add: mem_bytes_def store_bytes_nth)

lemma mem_bytes_frame:
  "p + n \<le> q \<or> q + length bs \<le> p \<Longrightarrow> mem_bytes (store_bytes mem q bs) p n = mem_bytes mem p n"
  by (auto simp: mem_bytes_def store_bytes_frame)

section \<open>Big-endian byte strings\<close>

fun be_bytes :: "nat \<Rightarrow> nat \<Rightarrow> u8 list" where
  "be_bytes 0 n = []"
| "be_bytes (Suc k) n = be_bytes k (n div 256) @ [of_nat n]"

definition be_value :: "u8 list \<Rightarrow> nat" where
  "be_value bs = foldl (\<lambda>r b. r * 256 + unat b) 0 bs"

lemma length_be_bytes [simp]: "length (be_bytes k n) = k"
  by (induction k arbitrary: n) auto

lemma be_value_Nil [simp]: "be_value [] = 0"
  by (simp add: be_value_def)

lemma be_value_snoc [simp]: "be_value (bs @ [b]) = be_value bs * 256 + unat b"
  by (simp add: be_value_def)

lemma be_value_be_bytes: "be_value (be_bytes k n) = n mod 256 ^ k"
proof (induction k arbitrary: n)
  case (Suc k)
  have "n mod 256 ^ Suc k = 256 * (n div 256 mod 256 ^ k) + n mod 256"
    by (simp add: mod_mult2_eq)
  then show ?case using Suc by (simp add: unat_of_nat)
qed simp

lemma be_bytes_be_value: "be_bytes (length bs) (be_value bs) = bs"
proof (induction bs rule: rev_induct)
  case (snoc b bs)
  have "(be_value bs * 256 + unat b) div 256 = be_value bs" using unat_u8_lt [of b] by simp
  moreover have "(of_nat (be_value bs * 256 + unat b) :: u8) = b"
    by (rule word_unat_eq_iff [THEN iffD2]) (simp add: unat_of_nat del: of_nat_add of_nat_mult)
  ultimately show ?case using snoc by (simp del: of_nat_add of_nat_mult)
qed simp

lemma be_value_lt: "be_value bs < 256 ^ length bs"
proof (induction bs rule: rev_induct)
  case (snoc b bs)
  have "be_value bs * 256 + unat b < (be_value bs + 1) * 256" using unat_u8_lt [of b] by simp
  also have "\<dots> \<le> 256 ^ length bs * 256" using snoc by (intro mult_right_mono) simp_all
  finally show ?case by simp
qed simp

lemma be_bytes_inj:
  assumes "be_bytes k m = be_bytes k n" "m < 256 ^ k" "n < 256 ^ k"
  shows "m = n"
  using arg_cong [OF assms(1), of be_value] assms(2,3) by (simp add: be_value_be_bytes)

lemma and_80_unat: "(b :: u8) AND 0x80 = 0 \<longleftrightarrow> unat b < 128"
proof -
  have "bit b 7 \<longleftrightarrow> odd (unat b div 128)"
    using bit_unsigned_iff [where ?'a = nat, of b 7] by (simp add: bit_iff_odd [of "unat b"])
  moreover have "unat b div 128 = 0 \<or> unat b div 128 = 1" using unat_u8_lt [of b] by linarith
  ultimately show ?thesis by (auto simp: and_80_iff_bit)
qed

lemma unat_and_7F: "unat ((b :: u8) AND 0x7F) = unat b mod 128"
  using unat_and_mask [of b 7] by (simp add: mask_eq_exp_minus_1)

end
