(* ===== verification/Pb_Stream.thy ===== *)
theory Pb_Stream
  imports Prelude
begin

text \<open>
  The stream layer of nanopb (\<open>pb_encode.c\<close>, \<open>pb_decode.c\<close>, \<open>pb.h\<close>) in the configuration the
  project builds it with: custom streams and error messages enabled, \<open>PB_FIELD_32BIT\<close> set,
  no malloc.

  A stream record has one field per C member. The C member \<open>callback\<close> is a function pointer
  that the library compares with NULL and with its own \<open>buf_read\<close>: it is a datatype with one
  constructor for each pointer the code distinguishes and one for the user's callbacks, which
  carry their function. The C member \<open>state\<close> is a \<open>void *\<close> that \<open>buf_read\<close> and \<open>buf_write\<close>
  read as a pointer into a byte buffer and a user callback as it likes: it is split into the
  buffer part and a part of any type \<open>'st\<close>. A user callback sees and changes the latter.
\<close>

section \<open>Output streams\<close>

datatype 'st ocallback =
  Null_callback                                       \<comment> \<open>the sizing stream: \<open>callback == NULL\<close>\<close>
| Buf_write
| User_write "'st \<Rightarrow> u8 list \<Rightarrow> bool \<times> 'st"

record 'st pb_ostream =
  os_callback :: "'st ocallback"
  os_mem :: "nat \<Rightarrow> u8"                                \<comment> \<open>the memory the state points into\<close>
  os_state :: nat                                     \<comment> \<open>the state as a byte pointer\<close>
  os_ustate :: 'st
  os_max_size :: size_t
  os_bytes_written :: size_t
  os_errmsg :: "string option"

definition os_set_error :: "string \<Rightarrow> 'st pb_ostream \<Rightarrow> 'st pb_ostream" where
  "os_set_error msg s =
     s\<lparr>os_errmsg := (case os_errmsg s of None \<Rightarrow> Some msg | Some m \<Rightarrow> Some m)\<rparr>"

definition PB_OSTREAM_SIZING :: "'st \<Rightarrow> 'st pb_ostream" where
  "PB_OSTREAM_SIZING st =
     \<lparr>os_callback = Null_callback, os_mem = (\<lambda>_. 0), os_state = 0, os_ustate = st,
      os_max_size = 0, os_bytes_written = 0, os_errmsg = None\<rparr>"

definition buf_write :: "'st pb_ostream \<Rightarrow> u8 list \<Rightarrow> nat \<Rightarrow> bool \<times> 'st pb_ostream" where
  "buf_write s buf count =
     (True, s\<lparr>os_state := os_state s + count,
              os_mem := store_bytes (os_mem s) (os_state s) (take count buf)\<rparr>)"

definition ostream_callback :: "'st pb_ostream \<Rightarrow> u8 list \<Rightarrow> nat \<Rightarrow> bool \<times> 'st pb_ostream" where
  "ostream_callback s buf count =
     (case os_callback s of
        Null_callback \<Rightarrow> (True, s)
      | Buf_write \<Rightarrow> buf_write s buf count
      | User_write f \<Rightarrow>
          (case f (os_ustate s) (take count buf) of (ok, st) \<Rightarrow> (ok, s\<lparr>os_ustate := st\<rparr>)))"

definition pb_ostream_from_buffer ::
  "(nat \<Rightarrow> u8) \<Rightarrow> 'st \<Rightarrow> nat \<Rightarrow> size_t \<Rightarrow> 'st pb_ostream" where
  "pb_ostream_from_buffer mem st buf bufsize =
     \<lparr>os_callback = Buf_write, os_mem = mem, os_state = buf, os_ustate = st,
      os_max_size = bufsize, os_bytes_written = 0, os_errmsg = None\<rparr>"

definition pb_write :: "'st pb_ostream \<Rightarrow> u8 list \<Rightarrow> size_t \<Rightarrow> bool \<times> 'st pb_ostream" where
  "pb_write s buf count =
     (case os_callback s of
        Null_callback \<Rightarrow> (True, s\<lparr>os_bytes_written := size_add (os_bytes_written s) count\<rparr>)
      | _ \<Rightarrow>
          if size_add (os_bytes_written s) count > os_max_size s
          then (False, os_set_error ''stream full'' s)
          else (case ostream_callback s buf count of
                  (False, s') \<Rightarrow> (False, os_set_error ''io error'' s')
                | (True, s') \<Rightarrow>
                    (True, s'\<lparr>os_bytes_written := size_add (os_bytes_written s') count\<rparr>)))"

section \<open>Input streams\<close>

datatype 'st icallback =
  Buf_read
| User_read "'st \<Rightarrow> nat \<Rightarrow> bool \<times> u8 list \<times> 'st"

record 'st pb_istream =
  is_callback :: "'st icallback"
  is_ptr :: "u8 list"                                 \<comment> \<open>the bytes from the state pointer on\<close>
  is_ustate :: 'st
  is_bytes_left :: size_t
  is_errmsg :: "string option"

definition is_set_error :: "string \<Rightarrow> 'st pb_istream \<Rightarrow> 'st pb_istream" where
  "is_set_error msg s =
     s\<lparr>is_errmsg := (case is_errmsg s of None \<Rightarrow> Some msg | Some m \<Rightarrow> Some m)\<rparr>"

definition buf_read :: "'st pb_istream \<Rightarrow> nat \<Rightarrow> bool \<times> u8 list \<times> 'st pb_istream" where
  "buf_read s count = (True, take count (is_ptr s), s\<lparr>is_ptr := drop count (is_ptr s)\<rparr>)"

definition istream_callback :: "'st pb_istream \<Rightarrow> nat \<Rightarrow> bool \<times> u8 list \<times> 'st pb_istream" where
  "istream_callback s count =
     (case is_callback s of
        Buf_read \<Rightarrow> buf_read s count
      | User_read f \<Rightarrow>
          (case f (is_ustate s) count of (ok, bs, st) \<Rightarrow> (ok, bs, s\<lparr>is_ustate := st\<rparr>)))"

text \<open>
  \<open>pb_read\<close> with a buffer. The bytes read are the result; \<open>pb_read_skip\<close> below is the branch
  for \<open>buf == NULL\<close> on a stream that is not a memory buffer, which reads through a 16-byte
  scratch array.
\<close>

definition pb_read_buf :: "'st pb_istream \<Rightarrow> size_t \<Rightarrow> u8 list option \<times> 'st pb_istream" where
  "pb_read_buf s count =
     (if is_bytes_left s < count then (None, is_set_error ''end-of-stream'' s)
      else (case istream_callback s count of
              (False, _, s') \<Rightarrow> (None, is_set_error ''io error'' s')
            | (True, bs, s') \<Rightarrow>
                (Some bs, s'\<lparr>is_bytes_left := size_sub (is_bytes_left s') count\<rparr>)))"

fun pb_read_skip :: "'st pb_istream \<Rightarrow> size_t \<Rightarrow> u8 list option \<times> 'st pb_istream" where
  "pb_read_skip s count =
     (if 16 < count
      then (case pb_read_buf s 16 of
              (None, s') \<Rightarrow> (None, s')
            | (Some _, s') \<Rightarrow> pb_read_skip s' (count - 16))
      else pb_read_buf s count)"

declare pb_read_skip.simps [simp del]

definition pb_read :: "'st pb_istream \<Rightarrow> bool \<Rightarrow> size_t \<Rightarrow> u8 list option \<times> 'st pb_istream" where
  "pb_read s buf_is_null count =
     (case is_callback s of
        Buf_read \<Rightarrow> pb_read_buf s count
      | User_read _ \<Rightarrow>
          if buf_is_null then pb_read_skip s count else pb_read_buf s count)"

definition pb_readbyte :: "'st pb_istream \<Rightarrow> u8 option \<times> 'st pb_istream" where
  "pb_readbyte s =
     (if is_bytes_left s = 0 then (None, is_set_error ''end-of-stream'' s)
      else (case istream_callback s 1 of
              (False, _, s') \<Rightarrow> (None, is_set_error ''io error'' s')
            | (True, bs, s') \<Rightarrow>
                (Some (case bs of [] \<Rightarrow> 0 | b # _ \<Rightarrow> b),
                 s'\<lparr>is_bytes_left := size_sub (is_bytes_left s') 1\<rparr>)))"

definition pb_istream_from_buffer :: "'st \<Rightarrow> u8 list \<Rightarrow> size_t \<Rightarrow> 'st pb_istream" where
  "pb_istream_from_buffer st buf bufsize =
     \<lparr>is_callback = Buf_read, is_ptr = buf, is_ustate = st,
      is_bytes_left = bufsize, is_errmsg = None\<rparr>"

section \<open>What an output stream accepts\<close>

text \<open>
  \<open>os_room s n\<close>: the stream has room for \<open>n\<close> more bytes, and is a sizing stream or a memory
  buffer. \<open>os_emit s bs\<close> is the stream after the bytes \<open>bs\<close> have gone out. Every encoder below
  is characterised by the bytes it emits.
\<close>

definition os_room :: "'st pb_ostream \<Rightarrow> nat \<Rightarrow> bool" where
  "os_room s n \<longleftrightarrow>
     (case os_callback s of
        Null_callback \<Rightarrow> os_bytes_written s + n < size_mod
      | Buf_write \<Rightarrow> os_bytes_written s + n \<le> os_max_size s \<and> os_max_size s < size_mod
      | User_write _ \<Rightarrow> False)"

definition os_emit :: "'st pb_ostream \<Rightarrow> u8 list \<Rightarrow> 'st pb_ostream" where
  "os_emit s bs =
     (case os_callback s of
        Buf_write \<Rightarrow>
          s\<lparr>os_state := os_state s + length bs,
            os_mem := store_bytes (os_mem s) (os_state s) bs,
            os_bytes_written := os_bytes_written s + length bs\<rparr>
      | _ \<Rightarrow> s\<lparr>os_bytes_written := os_bytes_written s + length bs\<rparr>)"

lemma os_emit_simps [simp]:
  "os_callback (os_emit s bs) = os_callback s"
  "os_max_size (os_emit s bs) = os_max_size s"
  "os_errmsg (os_emit s bs) = os_errmsg s"
  "os_ustate (os_emit s bs) = os_ustate s"
  "os_bytes_written (os_emit s bs) = os_bytes_written s + length bs"
  by (simp_all add: os_emit_def split: ocallback.split)

lemma os_emit_Nil [simp]: "os_emit s [] = s"
  by (simp add: os_emit_def split: ocallback.split)

lemma os_emit_emit [simp]: "os_emit (os_emit s xs) ys = os_emit s (xs @ ys)"
  by (cases "os_callback s") (simp_all add: os_emit_def store_bytes_append add.assoc)

lemma os_room_emit [simp]: "os_room (os_emit s bs) n = os_room s (length bs + n)"
  by (simp add: os_room_def add.assoc split: ocallback.split)

lemma os_room_mono: "os_room s n \<Longrightarrow> m \<le> n \<Longrightarrow> os_room s m"
  by (auto simp: os_room_def split: ocallback.splits)

lemma pb_write_room:
  assumes "os_room s n" "n = length bs"
  shows "pb_write s bs n = (True, os_emit s bs)"
  using assms
  by (cases "os_callback s")
    (auto simp: pb_write_def os_room_def os_emit_def ostream_callback_def buf_write_def)

text \<open>
  A write to a memory buffer that does not fit is refused with the state unchanged but for the
  error message.
\<close>

lemma pb_write_full:
  assumes "os_callback s = Buf_write" "os_max_size s < os_bytes_written s + n"
    "os_bytes_written s + n < size_mod"
  shows "pb_write s bs n = (False, os_set_error ''stream full'' s)"
  using assms by (simp add: pb_write_def)

section \<open>What an input stream delivers\<close>

text \<open>
  The source of an input stream: everything but the byte budget and the error message.
  \<open>is_consume adv s n\<close> is the stream after \<open>n\<close> bytes, when \<open>adv\<close> moves its source.
\<close>

type_synonym 'st isrc = "'st icallback \<times> u8 list \<times> 'st"

definition is_src :: "'st pb_istream \<Rightarrow> 'st isrc" where
  "is_src s = (is_callback s, is_ptr s, is_ustate s)"

definition is_set_src :: "'st isrc \<Rightarrow> 'st pb_istream \<Rightarrow> 'st pb_istream" where
  "is_set_src x s =
     s\<lparr>is_callback := fst x, is_ptr := fst (snd x), is_ustate := snd (snd x)\<rparr>"

definition is_consume :: "('st isrc \<Rightarrow> nat \<Rightarrow> 'st isrc) \<Rightarrow> 'st pb_istream \<Rightarrow> nat \<Rightarrow> 'st pb_istream" where
  "is_consume adv s n =
     (is_set_src (adv (is_src s) n) s)\<lparr>is_bytes_left := is_bytes_left s - n\<rparr>"

lemma is_src_simps [simp]:
  "is_src (s\<lparr>is_bytes_left := n\<rparr>) = is_src s"
  "is_src (s\<lparr>is_errmsg := e\<rparr>) = is_src s"
  "is_src (is_set_error msg s) = is_src s"
  "is_src (is_set_src x s) = x"
  "is_src (is_consume adv s n) = adv (is_src s) n"
  by (simp_all add: is_src_def is_set_error_def is_set_src_def is_consume_def)

lemma is_set_src_simps [simp]:
  "is_bytes_left (is_set_src x s) = is_bytes_left s"
  "is_errmsg (is_set_src x s) = is_errmsg s"
  "is_set_src x (is_set_src y s) = is_set_src x s"
  "is_set_src x (s\<lparr>is_bytes_left := n\<rparr>) = (is_set_src x s)\<lparr>is_bytes_left := n\<rparr>"
  "is_set_src (is_src s) s = s"
  by (simp_all add: is_set_src_def is_src_def)

lemma is_consume_simps [simp]:
  "is_bytes_left (is_consume adv s n) = is_bytes_left s - n"
  "is_errmsg (is_consume adv s n) = is_errmsg s"
  by (simp_all add: is_consume_def)

text \<open>
  The documented contract of a read callback: asked for no more than the source holds, it
  succeeds, delivers the next bytes and moves the source past them; two reads in a row do
  what one read of both does.
\<close>

locale pb_source =
  fixes inv :: "'st isrc \<Rightarrow> bool"
    and rest :: "'st isrc \<Rightarrow> u8 list"
    and adv :: "'st isrc \<Rightarrow> nat \<Rightarrow> 'st isrc"
  assumes callback_law:
    "inv (is_src s) \<Longrightarrow> n \<le> length (rest (is_src s)) \<Longrightarrow>
     istream_callback s n = (True, take n (rest (is_src s)), is_set_src (adv (is_src s) n) s)"
  and inv_adv: "inv x \<Longrightarrow> n \<le> length (rest x) \<Longrightarrow> inv (adv x n)"
  and rest_adv: "inv x \<Longrightarrow> n \<le> length (rest x) \<Longrightarrow> rest (adv x n) = drop n (rest x)"
  and adv_callback: "fst (adv x n) = fst x"
  and adv_0: "adv x 0 = x"
  and adv_add: "adv (adv x m) n = adv x (m + n)"
begin

definition good :: "'st pb_istream \<Rightarrow> bool" where
  "good s \<longleftrightarrow> inv (is_src s) \<and> is_bytes_left s \<le> length (rest (is_src s))"

definition avail :: "'st pb_istream \<Rightarrow> u8 list" where
  "avail s = take (is_bytes_left s) (rest (is_src s))"

lemma length_avail [simp]: "good s \<Longrightarrow> length (avail s) = is_bytes_left s"
  by (simp add: good_def avail_def)

lemma good_consume [simp]: "good s \<Longrightarrow> n \<le> is_bytes_left s \<Longrightarrow> good (is_consume adv s n)"
  by (auto simp: good_def inv_adv rest_adv)

lemma avail_consume [simp]:
  "good s \<Longrightarrow> n \<le> is_bytes_left s \<Longrightarrow> avail (is_consume adv s n) = drop n (avail s)"
  by (simp add: good_def avail_def rest_adv drop_take)

lemma consume_0 [simp]: "is_consume adv s 0 = s"
  by (simp add: is_consume_def adv_0)

lemma consume_consume [simp]: "is_consume adv (is_consume adv s m) n = is_consume adv s (m + n)"
  by (simp add: is_consume_def adv_add)

lemma pb_read_buf_good:
  assumes "good s" "n \<le> is_bytes_left s"
  shows "pb_read_buf s n = (Some (take n (avail s)), is_consume adv s n)"
  using assms
  by (simp add: pb_read_buf_def good_def avail_def callback_law min_absorb1 is_consume_def)

lemma pb_read_skip_good:
  "good s \<Longrightarrow> n \<le> is_bytes_left s \<Longrightarrow>
   \<exists>bs. pb_read_skip s n = (Some bs, is_consume adv s n)"
proof (induction s n rule: pb_read_skip.induct)
  case (1 s n)
  show ?case
  proof (cases "16 < n")
    case True
    from "1.IH" [OF True, of "Some (take 16 (avail s))" "is_consume adv s 16" "take 16 (avail s)"]
      "1.prems" True obtain bs where
      "pb_read_skip (is_consume adv s 16) (n - 16) = (Some bs, is_consume adv s n)"
      by (auto simp: pb_read_buf_good diff_le_mono)
    with True "1.prems" show ?thesis
      by (simp add: pb_read_skip.simps [of s n] pb_read_buf_good)
  next
    case False
    with "1.prems" show ?thesis
      by (simp add: pb_read_skip.simps [of s n] pb_read_buf_good)
  qed
qed

lemma pb_read_good:
  assumes "good s" "n \<le> is_bytes_left s"
  shows "pb_read s False n = (Some (take n (avail s)), is_consume adv s n)"
    and "\<exists>bs. pb_read s True n = (Some bs, is_consume adv s n)"
  using assms pb_read_skip_good [of s n]
  by (auto simp: pb_read_def pb_read_buf_good split: icallback.split)

lemma pb_readbyte_good:
  assumes "good s" "avail s = b # bs"
  shows "pb_readbyte s = (Some b, is_consume adv s 1)"
proof -
  have left: "1 \<le> is_bytes_left s"
    using length_avail [OF assms(1)] assms(2) by simp
  then have "take 1 (rest (is_src s)) = [b]"
    using assms(2) by (cases "rest (is_src s)"; cases "is_bytes_left s") (auto simp: avail_def)
  with assms(1) left show ?thesis
    by (simp add: pb_readbyte_def good_def callback_law is_consume_def)
qed

end

text \<open>Memory buffers, the streams of \<open>pb_istream_from_buffer\<close>.\<close>

definition buf_inv :: "'st isrc \<Rightarrow> bool" where
  "buf_inv x \<longleftrightarrow> (case x of (Buf_read, _, _) \<Rightarrow> True | _ \<Rightarrow> False)"

definition buf_rest :: "'st isrc \<Rightarrow> u8 list" where
  "buf_rest x = fst (snd x)"

definition buf_adv :: "'st isrc \<Rightarrow> nat \<Rightarrow> 'st isrc" where
  "buf_adv x n = (fst x, drop n (fst (snd x)), snd (snd x))"

definition is_advance :: "'st pb_istream \<Rightarrow> nat \<Rightarrow> 'st pb_istream" where
  "is_advance s n = s\<lparr>is_ptr := drop n (is_ptr s), is_bytes_left := is_bytes_left s - n\<rparr>"

interpretation buf: pb_source buf_inv buf_rest buf_adv
proof unfold_locales
  fix s :: "'st pb_istream" and n
  assume "buf_inv (is_src s)"
  then show "istream_callback s n
      = (True, take n (buf_rest (is_src s)), is_set_src (buf_adv (is_src s) n) s)"
    by (cases "is_callback s")
      (auto simp: buf_inv_def buf_rest_def buf_adv_def is_src_def is_set_src_def
        istream_callback_def buf_read_def)
qed (auto simp: buf_inv_def buf_rest_def buf_adv_def add.commute split: icallback.splits)

definition is_buffer :: "'st pb_istream \<Rightarrow> bool" where
  "is_buffer s \<longleftrightarrow>
     (case is_callback s of Buf_read \<Rightarrow> is_bytes_left s \<le> length (is_ptr s) | _ \<Rightarrow> False)"

lemma is_buffer_iff: "is_buffer s \<longleftrightarrow> buf.good s"
  by (cases "is_callback s")
    (auto simp: is_buffer_def buf.good_def buf_inv_def buf_rest_def is_src_def)

lemma buf_avail: "buf.avail s = take (is_bytes_left s) (is_ptr s)"
  by (simp add: buf.avail_def buf_rest_def is_src_def)

lemma buf_consume: "is_consume buf_adv s n = is_advance s n"
  by (simp add: is_consume_def is_advance_def buf_adv_def is_src_def is_set_src_def)

lemma is_buffer_from_buffer [simp]:
  "is_buffer (pb_istream_from_buffer st bs n) \<longleftrightarrow> n \<le> length bs"
  by (simp add: is_buffer_def pb_istream_from_buffer_def)

end
