(* ===== verification/Pb_Varint.thy ===== *)
theory Pb_Varint
  imports Pb_Stream
begin

text \<open>
  The scalar codecs of nanopb: base-128 varints, zig-zag integers, fixed-width integers, field
  tags, length-prefixed strings and substreams, and the skipping of unknown fields
  (\<open>pb_encode.c\<close> lines 543-690, \<open>pb_decode.c\<close> lines 167-378 and 1079-1140). The reference
  definition \<open>varint_bytes\<close> is the base-128 encoding of a 64-bit value; every encoder is
  shown to emit it and every decoder to read it back, over any stream that meets the read
  contract \<open>pb_source\<close>.
\<close>

section \<open>Encoders\<close>

function varint_loop :: "u64 \<Rightarrow> u8 list \<Rightarrow> u8 list" where
  "varint_loop value buffer =
     (if value = 0 then buffer
      else varint_loop (drop_bit 7 value) (buffer @ [ucast ((value AND 0x7F) OR 0x80)]))"
  by pat_completeness auto
termination
  by (relation "measure (\<lambda>(v, _). unat v)")
    (auto simp: unat_drop_bit unat_gt_0 intro!: div_less_dividend)

declare varint_loop.simps [simp del]

definition pb_encode_varint :: "'st pb_ostream \<Rightarrow> u64 \<Rightarrow> bool \<times> 'st pb_ostream" where
  "pb_encode_varint s value =
     (if value \<le> 0x7F then pb_write s [ucast value] 1
      else let buffer = varint_loop value [];
               i = length buffer;
               buffer = buffer[i - 1 := (buffer ! (i - 1)) AND 0x7F]
           in pb_write s buffer i)"

definition pb_encode_svarint :: "'st pb_ostream \<Rightarrow> u64 \<Rightarrow> bool \<times> 'st pb_ostream" where
  \<comment> \<open>\<open>value\<close> is the two's complement representation of the \<open>int64_t\<close>\<close>
  "pb_encode_svarint s value =
     (let zigzagged = (if sint value < 0 then NOT (push_bit 1 value) else push_bit 1 value)
      in pb_encode_varint s zigzagged)"

definition pb_encode_fixed32 :: "'st pb_ostream \<Rightarrow> u32 \<Rightarrow> bool \<times> 'st pb_ostream" where
  "pb_encode_fixed32 s val =
     (let bytes = [ucast (val AND 0xFF), ucast (drop_bit 8 val AND 0xFF),
                   ucast (drop_bit 16 val AND 0xFF), ucast (drop_bit 24 val AND 0xFF)]
      in pb_write s bytes 4)"

definition pb_encode_fixed64 :: "'st pb_ostream \<Rightarrow> u64 \<Rightarrow> bool \<times> 'st pb_ostream" where
  "pb_encode_fixed64 s val =
     (let bytes = [ucast (val AND 0xFF), ucast (drop_bit 8 val AND 0xFF),
                   ucast (drop_bit 16 val AND 0xFF), ucast (drop_bit 24 val AND 0xFF),
                   ucast (drop_bit 32 val AND 0xFF), ucast (drop_bit 40 val AND 0xFF),
                   ucast (drop_bit 48 val AND 0xFF), ucast (drop_bit 56 val AND 0xFF)]
      in pb_write s bytes 8)"

type_synonym pb_wire_type_t = u32

definition PB_WT_VARINT :: pb_wire_type_t where [simp]: "PB_WT_VARINT = 0"
definition PB_WT_64BIT :: pb_wire_type_t where [simp]: "PB_WT_64BIT = 1"
definition PB_WT_STRING :: pb_wire_type_t where [simp]: "PB_WT_STRING = 2"
definition PB_WT_32BIT :: pb_wire_type_t where [simp]: "PB_WT_32BIT = 5"

definition pb_encode_tag :: "'st pb_ostream \<Rightarrow> pb_wire_type_t \<Rightarrow> u32 \<Rightarrow> bool \<times> 'st pb_ostream" where
  "pb_encode_tag s wiretype field_number =
     (let tag = push_bit 3 (ucast field_number :: u64) OR ucast wiretype
      in pb_encode_varint s tag)"

definition pb_encode_string :: "'st pb_ostream \<Rightarrow> u8 list \<Rightarrow> size_t \<Rightarrow> bool \<times> 'st pb_ostream" where
  "pb_encode_string s buffer sz =
     (case pb_encode_varint s (of_nat sz) of
        (False, s') \<Rightarrow> (False, s')
      | (True, s') \<Rightarrow> pb_write s' buffer sz)"

section \<open>Decoders\<close>

text \<open>
  The \<open>do ... while (byte & 0x80)\<close> loops. \<open>bitpos\<close> is a \<open>uint_fast8_t\<close>.
\<close>

function varint_decode_loop ::
  "'st pb_istream \<Rightarrow> nat \<Rightarrow> u64 \<Rightarrow> u64 option \<times> 'st pb_istream" where
  "varint_decode_loop s bitpos result =
     (if 64 \<le> bitpos then (None, is_set_error ''varint overflow'' s)
      else (case pb_readbyte s of
              (None, s') \<Rightarrow> (None, s')
            | (Some byte, s') \<Rightarrow>
                let result = result OR push_bit bitpos (ucast (byte AND 0x7F));
                    bitpos = (bitpos + 7) mod 256
                in if byte AND 0x80 \<noteq> 0 then varint_decode_loop s' bitpos result
                   else (Some result, s')))"
  by pat_completeness auto
termination
  by (relation "measure (\<lambda>(s, bitpos, r). 71 - bitpos)") auto

declare varint_decode_loop.simps [simp del]

definition pb_decode_varint :: "'st pb_istream \<Rightarrow> u64 option \<times> 'st pb_istream" where
  "pb_decode_varint s = varint_decode_loop s 0 0"

function varint32_decode_loop ::
  "'st pb_istream \<Rightarrow> nat \<Rightarrow> u32 \<Rightarrow> u32 option \<times> 'st pb_istream" where
  "varint32_decode_loop s bitpos result =
     (if 32 \<le> bitpos then (None, is_set_error ''varint overflow'' s)
      else (case pb_readbyte s of
              (None, s') \<Rightarrow> (None, s')
            | (Some byte, s') \<Rightarrow>
                let result = result OR push_bit bitpos (ucast (byte AND 0x7F));
                    bitpos = (bitpos + 7) mod 256
                in if byte AND 0x80 \<noteq> 0 then varint32_decode_loop s' bitpos result
                   else (Some result, s')))"
  by pat_completeness auto
termination
  by (relation "measure (\<lambda>(s, bitpos, r). 39 - bitpos)") auto

declare varint32_decode_loop.simps [simp del]

definition pb_decode_varint32 :: "'st pb_istream \<Rightarrow> u32 option \<times> 'st pb_istream" where
  "pb_decode_varint32 s =
     (case pb_readbyte s of
        (None, s') \<Rightarrow> (None, s')
      | (Some byte, s') \<Rightarrow>
          if byte AND 0x80 = 0 then (Some (ucast byte), s')
          else varint32_decode_loop s' 7 (ucast (byte AND 0x7F)))"

definition pb_decode_svarint :: "'st pb_istream \<Rightarrow> u64 option \<times> 'st pb_istream" where
  "pb_decode_svarint s =
     (case pb_decode_varint s of
        (None, s') \<Rightarrow> (None, s')
      | (Some value, s') \<Rightarrow>
          (Some (if value AND 1 \<noteq> 0 then NOT (drop_bit 1 value) else drop_bit 1 value), s'))"

definition pb_decode_fixed32 :: "'st pb_istream \<Rightarrow> u32 option \<times> 'st pb_istream" where
  "pb_decode_fixed32 s =
     (case pb_read s False 4 of
        (None, s') \<Rightarrow> (None, s')
      | (Some bytes, s') \<Rightarrow>
          (Some (push_bit 0 (ucast (bytes ! 0)) OR push_bit 8 (ucast (bytes ! 1))
              OR push_bit 16 (ucast (bytes ! 2)) OR push_bit 24 (ucast (bytes ! 3))), s'))"

definition pb_decode_fixed64 :: "'st pb_istream \<Rightarrow> u64 option \<times> 'st pb_istream" where
  "pb_decode_fixed64 s =
     (case pb_read s False 8 of
        (None, s') \<Rightarrow> (None, s')
      | (Some bytes, s') \<Rightarrow>
          (Some (push_bit 0 (ucast (bytes ! 0)) OR push_bit 8 (ucast (bytes ! 1))
              OR push_bit 16 (ucast (bytes ! 2)) OR push_bit 24 (ucast (bytes ! 3))
              OR push_bit 32 (ucast (bytes ! 4)) OR push_bit 40 (ucast (bytes ! 5))
              OR push_bit 48 (ucast (bytes ! 6)) OR push_bit 56 (ucast (bytes ! 7))), s'))"

text \<open>
  Skipping a varint: the loop reads until a byte has its top bit clear, however many there
  are. Each turn uses up one of the stream's remaining bytes, so it ends.
\<close>

lemma pb_read_buf_left:
  assumes "pb_read_buf s n = (Some bs, s')" "is_bytes_left s < size_mod"
  shows "is_bytes_left s' = is_bytes_left s - n \<and> n \<le> is_bytes_left s"
proof -
  have keep: "is_bytes_left t = is_bytes_left s" if "istream_callback s n = (ok, xs, t)" for ok xs t
    using that
    by (auto simp: istream_callback_def buf_read_def split: icallback.splits prod.splits)
  show ?thesis
    using assms keep
    by (auto simp: pb_read_buf_def split: if_splits prod.splits bool.splits)
qed

lemma pb_read_1_left:
  assumes "pb_read s False 1 = (Some bs, s')"
  shows "is_bytes_left s' < is_bytes_left s"
proof -
  have keep: "is_bytes_left t = is_bytes_left s" if "istream_callback s 1 = (ok, xs, t)" for ok xs t
    using that
    by (auto simp: istream_callback_def buf_read_def split: icallback.splits prod.splits)
  have "pb_read_buf s 1 = (Some bs, s')"
    using assms by (auto simp: pb_read_def split: icallback.splits)
  then show ?thesis
    using keep by (auto simp: pb_read_buf_def size_sub_def split: if_splits prod.splits bool.splits)
qed

function pb_skip_varint :: "'st pb_istream \<Rightarrow> bool \<times> 'st pb_istream" where
  "pb_skip_varint s =
     (case pb_read s False 1 of
        (None, s') \<Rightarrow> (False, s')
      | (Some bytes, s') \<Rightarrow>
          if (case bytes of [] \<Rightarrow> 0 | b # _ \<Rightarrow> b) AND 0x80 \<noteq> 0 then pb_skip_varint s' else (True, s'))"
  by pat_completeness auto
termination
  by (relation "measure is_bytes_left") (auto dest: pb_read_1_left [unfolded One_nat_def, OF sym])

declare pb_skip_varint.simps [simp del]

definition pb_skip_string :: "'st pb_istream \<Rightarrow> bool \<times> 'st pb_istream" where
  "pb_skip_string s =
     (case pb_decode_varint32 s of
        (None, s') \<Rightarrow> (False, s')
      | (Some len, s') \<Rightarrow>
          (case pb_read s' True (unat len) of (r, s'') \<Rightarrow> (r \<noteq> None, s'')))"

text \<open>\<open>pb_decode_tag\<close> sets its three out-parameters on every path.\<close>

definition pb_decode_tag ::
  "'st pb_istream \<Rightarrow> bool \<times> pb_wire_type_t \<times> u32 \<times> bool \<times> 'st pb_istream" where
  "pb_decode_tag s =
     (case pb_decode_varint32 s of
        (None, s') \<Rightarrow> (False, 0, 0, is_bytes_left s' = 0, s')
      | (Some temp, s') \<Rightarrow>
          if temp = 0 then (False, 0, 0, True, s')
          else (True, temp AND 7, drop_bit 3 temp, False, s'))"

definition pb_skip_field :: "'st pb_istream \<Rightarrow> pb_wire_type_t \<Rightarrow> bool \<times> 'st pb_istream" where
  "pb_skip_field s wire_type =
     (if wire_type = PB_WT_VARINT then pb_skip_varint s
      else if wire_type = PB_WT_64BIT then (case pb_read s True 8 of (r, s') \<Rightarrow> (r \<noteq> None, s'))
      else if wire_type = PB_WT_STRING then pb_skip_string s
      else if wire_type = PB_WT_32BIT then (case pb_read s True 4 of (r, s') \<Rightarrow> (r \<noteq> None, s'))
      else (False, is_set_error ''invalid wire_type'' s))"

text \<open>\<open>read_raw_value\<close> copies the payload of a scalar field, at most \<open>max_size\<close> bytes.\<close>

function raw_varint_loop ::
  "'st pb_istream \<Rightarrow> nat \<Rightarrow> u8 list \<Rightarrow> u8 list option \<times> 'st pb_istream" where
  "raw_varint_loop s max_size buf =
     (if max_size < length buf + 1 then (None, s)
      else (case pb_read s False 1 of
              (None, s') \<Rightarrow> (None, s')
            | (Some bytes, s') \<Rightarrow>
                let b = (case bytes of [] \<Rightarrow> 0 | b # _ \<Rightarrow> b)
                in if b AND 0x80 \<noteq> 0 then raw_varint_loop s' max_size (buf @ [b])
                   else (Some (buf @ [b]), s')))"
  by pat_completeness auto
termination
  by (relation "measure (\<lambda>(s, m, buf). Suc m - length buf)") auto

declare raw_varint_loop.simps [simp del]

definition read_raw_value ::
  "'st pb_istream \<Rightarrow> pb_wire_type_t \<Rightarrow> nat \<Rightarrow> u8 list option \<times> 'st pb_istream" where
  "read_raw_value s wire_type max_size =
     (if wire_type = PB_WT_VARINT then raw_varint_loop s max_size []
      else if wire_type = PB_WT_64BIT then pb_read s False 8
      else if wire_type = PB_WT_32BIT then pb_read s False 4
      else (None, is_set_error ''invalid wire_type'' s))"

definition pb_make_string_substream ::
  "'st pb_istream \<Rightarrow> 'st pb_istream option \<times> 'st pb_istream" where
  \<comment> \<open>the substream on success, and the parent\<close>
  "pb_make_string_substream s =
     (case pb_decode_varint32 s of
        (None, s') \<Rightarrow> (None, s')
      | (Some sz, s') \<Rightarrow>
          if is_bytes_left s' < unat sz
          then (None, is_set_error ''parent stream too short'' s')
          else (Some (s'\<lparr>is_bytes_left := unat sz\<rparr>),
                s'\<lparr>is_bytes_left := is_bytes_left s' - unat sz\<rparr>))"

definition pb_close_string_substream ::
  "'st pb_istream \<Rightarrow> 'st pb_istream \<Rightarrow> bool \<times> 'st pb_istream" where
  "pb_close_string_substream s sub =
     (case (if is_bytes_left sub \<noteq> 0 then pb_read sub True (is_bytes_left sub) else (Some [], sub)) of
        (None, _) \<Rightarrow> (False, s)
      | (Some _, sub') \<Rightarrow>
          (True, s\<lparr>is_ptr := is_ptr sub', is_ustate := is_ustate sub', is_errmsg := is_errmsg sub'\<rparr>))"

section \<open>The base-128 encoding\<close>

function varint_bytes :: "u64 \<Rightarrow> u8 list" where
  "varint_bytes v =
     (if drop_bit 7 v = 0 then [ucast v]
      else ucast ((v AND 0x7F) OR 0x80) # varint_bytes (drop_bit 7 v))"
  by pat_completeness auto
termination
proof (relation "measure unat")
  fix v :: u64
  assume "drop_bit 7 v \<noteq> 0"
  then have "v \<noteq> 0" by auto
  then show "(drop_bit 7 v, v) \<in> measure unat"
    by (simp add: unat_drop_bit unat_gt_0 div_less_dividend)
qed simp

declare varint_bytes.simps [simp del]

lemma varint_bytes_nonempty [simp]: "varint_bytes v \<noteq> []"
  by (subst varint_bytes.simps) simp

text \<open>The bytes of the encoding: the continuation bit, and the seven bits of payload.\<close>

lemma varint_byte_more: "((ucast (((w :: u64) AND 0x7F) OR 0x80)) :: u8) AND 0x80 \<noteq> 0"
  unfolding and_80_iff_bit by (simp add: bit_simps bit_80)

lemma varint_byte_last: "drop_bit 7 w = 0 \<Longrightarrow> ((ucast (w :: u64)) :: u8) AND 0x80 = 0"
  unfolding and_80_iff_bit by (auto simp: bit_simps dest: drop_bit_0_bitD)

lemma varint_byte_payload:
  "ucast (((ucast ((w AND 0x7F) OR 0x80)) :: u8) AND 0x7F) = take_bit 7 (w :: u64)"
  "ucast (((ucast w) :: u8) AND 0x7F) = take_bit 7 (w :: u64)"
  unfolding and_7F by (rule bit_word_eqI; auto simp: bit_simps bit_80)+

lemma varint_byte_clear:
  "(((ucast ((w AND 0x7F) OR 0x80)) :: u8) AND 0x7F) = ucast (take_bit 7 (w :: u64))"
  unfolding and_7F by (rule bit_word_eqI) (auto simp: bit_simps bit_80)

lemma varint_loop_append: "varint_loop v buf = buf @ varint_loop v []"
proof (induction v arbitrary: buf rule: measure_induct_rule [of unat])
  case (less v)
  show ?case
  proof (cases "v = 0")
    case True
    then show ?thesis by (simp add: varint_loop.simps)
  next
    case False
    then have "unat (drop_bit 7 v) < unat v"
      by (simp add: unat_drop_bit unat_gt_0 div_less_dividend)
    note IH = less.IH [OF this]
    from False show ?thesis
      using IH [of "buf @ [ucast ((v AND 0x7F) OR 0x80)]"] IH [of "[ucast ((v AND 0x7F) OR 0x80)]"]
      by (simp add: varint_loop.simps [of v])
  qed
qed

lemma varint_loop_Cons:
  "v \<noteq> 0 \<Longrightarrow> varint_loop v [] = ucast ((v AND 0x7F) OR 0x80) # varint_loop (drop_bit 7 v) []"
  by (subst varint_loop.simps) (simp add: varint_loop_append [of _ "[_]"])

lemma varint_loop_0 [simp]: "varint_loop 0 buf = buf"
  by (simp add: varint_loop.simps)

text \<open>The loop, with the top bit of its last byte cleared, computes the reference encoding.\<close>

lemma varint_loop_bytes:
  "v \<noteq> 0 \<Longrightarrow>
   (let buffer = varint_loop v []
    in buffer[length buffer - 1 := (buffer ! (length buffer - 1)) AND 0x7F]) = varint_bytes v"
proof (induction v rule: varint_bytes.induct)
  case (1 v)
  show ?case
  proof (cases "drop_bit 7 v = 0")
    case True
    with "1.prems" show ?thesis
      by (simp add: varint_loop_Cons varint_bytes.simps [of v] varint_byte_clear take_bit_all)
  next
    case False
    let ?rest = "varint_loop (drop_bit 7 v) []"
    have ne: "?rest \<noteq> []"
      using False by (simp add: varint_loop_Cons)
    with "1.IH" [OF False False] "1.prems" False show ?thesis
      by (cases "length ?rest")
        (simp_all add: varint_loop_Cons [of v] varint_bytes.simps [of v] Let_def)
  qed
qed

lemma length_varint_bytes_le: "drop_bit (7 * n) v = 0 \<Longrightarrow> 0 < n \<Longrightarrow> length (varint_bytes v) \<le> n"
proof (induction n arbitrary: v)
  case (Suc n)
  show ?case
  proof (cases "drop_bit 7 v = 0")
    case True
    then show ?thesis by (simp add: varint_bytes.simps [of v])
  next
    case False
    then have "n \<noteq> 0" using Suc.prems by (cases n) auto
    moreover have "drop_bit (7 * n) (drop_bit 7 v) = 0"
      using Suc.prems by (simp add: add.commute)
    ultimately have "length (varint_bytes (drop_bit 7 v)) \<le> n"
      by (intro Suc.IH) auto
    with False show ?thesis by (simp add: varint_bytes.simps [of v])
  qed
qed simp

lemma length_varint_bytes: "length (varint_bytes v) \<le> 10"
proof (rule length_varint_bytes_le)
  show "drop_bit (7 * 10) v = 0"
    by (rule bit_word_eqI) (simp add: bit_simps)
qed simp

lemma pb_encode_varint_emit:
  assumes "os_room s (length (varint_bytes v))"
  shows "pb_encode_varint s v = (True, os_emit s (varint_bytes v))"
proof (cases "v \<le> 0x7F")
  case True
  then have "drop_bit 7 v = 0"
    by (simp add: word_le_nat_alt word_unat_eq_iff unat_drop_bit)
  then have "varint_bytes v = [ucast v]"
    by (simp add: varint_bytes.simps)
  with True assms show ?thesis
    by (simp add: pb_encode_varint_def pb_write_room)
next
  case False
  then have "v \<noteq> 0" by auto
  then have "(varint_loop v [])[length (varint_loop v []) - 1 :=
      (varint_loop v [] ! (length (varint_loop v []) - 1)) AND 0x7F] = varint_bytes v"
    using varint_loop_bytes by (simp add: Let_def)
  moreover from this have "length (varint_loop v []) = length (varint_bytes v)"
    by (metis length_list_update)
  ultimately show ?thesis
    using False assms by (simp add: pb_encode_varint_def Let_def pb_write_room)
qed

lemma varint_bytes_more:
  assumes "drop_bit 7 (w :: u64) \<noteq> 0"
  obtains b where "varint_bytes w = b # varint_bytes (drop_bit 7 w)" "b AND 0x80 \<noteq> 0"
    "ucast (b AND 0x7F) = take_bit 7 w"
  using assms varint_byte_more varint_byte_payload(1) that
  by (simp add: varint_bytes.simps [of w])

lemma varint_bytes_last:
  assumes "drop_bit 7 (w :: u64) = 0"
  obtains b where "varint_bytes w = [b]" "b AND 0x80 = 0" "ucast (b AND 0x7F) = take_bit 7 w"
  using assms varint_byte_last varint_byte_payload(2) that
  by (simp add: varint_bytes.simps [of w])

context pb_source begin

lemma varint_decode_loop_good:
  "good s \<Longrightarrow> avail s = varint_bytes (drop_bit k v) @ r \<Longrightarrow> k < 64 \<Longrightarrow>
   varint_decode_loop s k (take_bit k v)
     = (Some v, is_consume adv s (length (varint_bytes (drop_bit k v))))"
proof (induction "drop_bit k v" arbitrary: k s rule: varint_bytes.induct)
  case (1 k)
  let ?w = "drop_bit k v"
  have left: "1 \<le> is_bytes_left s"
    using length_avail [OF "1.prems"(1)] "1.prems"(2) by (cases "varint_bytes ?w") auto
  have acc: "take_bit k v OR push_bit k (take_bit 7 ?w) = take_bit (k + 7) v"
    by (rule take_bit_or_push)
  show ?case
  proof (cases "drop_bit 7 ?w = 0")
    case True
    then obtain b where b: "varint_bytes ?w = [b]" "b AND 0x80 = 0" "ucast (b AND 0x7F) = take_bit 7 ?w"
      by (rule varint_bytes_last)
    then have "pb_readbyte s = (Some b, is_consume adv s 1)"
      using "1.prems" by (intro pb_readbyte_good) auto
    moreover have "take_bit (k + 7) v = v"
      using True by (intro take_bit_all) (simp add: add.commute)
    ultimately show ?thesis
      using b "1.prems"(3) acc by (simp add: varint_decode_loop.simps [of s] Let_def)
  next
    case False
    then obtain b where b: "varint_bytes ?w = b # varint_bytes (drop_bit 7 ?w)" "b AND 0x80 \<noteq> 0"
      "ucast (b AND 0x7F) = take_bit 7 ?w"
      by (rule varint_bytes_more)
    have k: "k + 7 < 64"
    proof (rule ccontr)
      assume "\<not> k + 7 < 64"
      then have "drop_bit 7 ?w = 0" by (intro bit_word_eqI) (simp add: bit_simps)
      with False show False by simp
    qed
    have rb: "pb_readbyte s = (Some b, is_consume adv s 1)"
      using "1.prems" b by (intro pb_readbyte_good) auto
    have "varint_decode_loop (is_consume adv s 1) (k + 7) (take_bit (k + 7) v)
        = (Some v, is_consume adv (is_consume adv s 1) (length (varint_bytes (drop_bit (k + 7) v))))"
      using "1.prems" b left k False
      by (intro "1.hyps") (simp_all add: add.commute)
    with rb b k acc show ?thesis
      by (simp add: varint_decode_loop.simps [of s k] Let_def add.commute)
  qed
qed

lemma pb_decode_varint_good:
  assumes "good s" "avail s = varint_bytes v @ r"
  shows "pb_decode_varint s = (Some v, is_consume adv s (length (varint_bytes v)))"
  using varint_decode_loop_good [of s 0 v r] assms by (simp add: pb_decode_varint_def)

end

lemma varint_payload32:
  "ucast (((ucast ((ucast w AND 0x7F) OR 0x80 :: u64)) :: u8) AND 0x7F) = take_bit 7 (w :: u32)"
  "ucast (((ucast (ucast w :: u64)) :: u8) AND 0x7F) = take_bit 7 (w :: u32)"
  unfolding and_7F by (rule bit_word_eqI; auto simp: bit_simps bit_80)+

lemma ucast_drop_bit_32: "drop_bit k (ucast (v :: u32) :: u64) = ucast (drop_bit k v)"
  by (rule bit_word_eqI) (auto simp: bit_simps dest: bit_imp_le_length)

lemma ucast_0_iff_32: "(ucast (v :: u32) :: u64) = 0 \<longleftrightarrow> v = 0"
  by (simp add: word_unat_eq_iff unat_ucast_32_64)

lemma varint_bytes_more32:
  assumes "drop_bit 7 (w :: u32) \<noteq> 0"
  obtains b where "varint_bytes (ucast w) = b # varint_bytes (ucast (drop_bit 7 w))" "b AND 0x80 \<noteq> 0"
    "ucast (b AND 0x7F) = take_bit 7 w"
proof -
  have "drop_bit 7 (ucast w :: u64) \<noteq> 0"
    using assms by (simp only: ucast_drop_bit_32 ucast_0_iff_32) simp
  then show ?thesis
    by (intro that [OF _ varint_byte_more varint_payload32(1)])
      (simp add: varint_bytes.simps [of "ucast w"] ucast_drop_bit_32)
qed

lemma varint_bytes_last32:
  assumes "drop_bit 7 (w :: u32) = 0"
  obtains b where "varint_bytes (ucast w) = [b]" "b AND 0x80 = 0" "ucast (b AND 0x7F) = take_bit 7 w"
proof -
  have "drop_bit 7 (ucast w :: u64) = 0"
    using assms by (simp only: ucast_drop_bit_32 ucast_0_iff_32)
  then show ?thesis
    by (intro that [OF _ varint_byte_last varint_payload32(2)])
      (simp_all add: varint_bytes.simps [of "ucast w"])
qed

context pb_source begin

lemma varint32_decode_loop_good:
  "good s \<Longrightarrow> avail s = varint_bytes (ucast (drop_bit k v)) @ r \<Longrightarrow> k < 32 \<Longrightarrow>
   varint32_decode_loop s k (take_bit k v)
     = (Some v, is_consume adv s (length (varint_bytes (ucast (drop_bit k v)))))"
proof (induction "ucast (drop_bit k v) :: u64" arbitrary: k s rule: varint_bytes.induct)
  case (1 k)
  let ?w = "drop_bit k v"
  have left: "1 \<le> is_bytes_left s"
    using length_avail [OF "1.prems"(1)] "1.prems"(2) by (cases "varint_bytes (ucast ?w)") auto
  have acc: "take_bit k v OR push_bit k (take_bit 7 ?w) = take_bit (k + 7) v"
    by (rule take_bit_or_push)
  show ?case
  proof (cases "drop_bit 7 ?w = 0")
    case True
    then obtain b where b: "varint_bytes (ucast ?w) = [b]" "b AND 0x80 = 0" "ucast (b AND 0x7F) = take_bit 7 ?w"
      by (rule varint_bytes_last32)
    then have "pb_readbyte s = (Some b, is_consume adv s 1)"
      using "1.prems" by (intro pb_readbyte_good) auto
    moreover have "take_bit (k + 7) v = v"
      using True by (intro take_bit_all) (simp add: add.commute)
    ultimately show ?thesis
      using b "1.prems"(3) acc by (simp add: varint32_decode_loop.simps [of s] Let_def)
  next
    case False
    then obtain b where b: "varint_bytes (ucast ?w) = b # varint_bytes (ucast (drop_bit 7 ?w))" "b AND 0x80 \<noteq> 0"
      "ucast (b AND 0x7F) = take_bit 7 ?w"
      by (rule varint_bytes_more32)
    have k: "k + 7 < 32"
    proof (rule ccontr)
      assume "\<not> k + 7 < 32"
      then have "drop_bit 7 ?w = 0" by (intro bit_word_eqI) (simp add: bit_simps)
      with False show False by simp
    qed
    have nz: "drop_bit 7 (ucast ?w :: u64) \<noteq> 0"
      using False by (simp only: ucast_drop_bit_32 ucast_0_iff_32) simp
    have rb: "pb_readbyte s = (Some b, is_consume adv s 1)"
      using "1.prems" b by (intro pb_readbyte_good) auto
    have "varint32_decode_loop (is_consume adv s 1) (k + 7) (take_bit (k + 7) v)
        = (Some v, is_consume adv (is_consume adv s 1)
             (length (varint_bytes (ucast (drop_bit (k + 7) v)))))"
      using "1.prems" b left k nz
      by (intro "1.hyps") (simp_all add: ucast_drop_bit_32 add.commute)
    with rb b k acc show ?thesis
      by (simp add: varint32_decode_loop.simps [of s k] Let_def add.commute)
  qed
qed

lemma pb_decode_varint32_good:
  assumes "good s" "avail s = varint_bytes (ucast v) @ r"
  shows "pb_decode_varint32 s = (Some v, is_consume adv s (length (varint_bytes (ucast v))))"
proof -
  have "pb_decode_varint32 s = varint32_decode_loop s 0 0"
  proof (cases "avail s")
    case Nil
    with assms(2) show ?thesis by simp
  next
    case (Cons b bs)
    then have "pb_readbyte s = (Some b, is_consume adv s 1)"
      using assms(1) by (intro pb_readbyte_good)
    then show ?thesis
      by (simp add: pb_decode_varint32_def varint32_decode_loop.simps [of s] Let_def and_80_iff_bit
          and_7F u8_low7)
  qed
  then show ?thesis
    using varint32_decode_loop_good [of s 0 v r] assms by simp
qed

end

section \<open>Zig-zag and fixed-width integers\<close>

lemma sint_neg_iff: "sint (v::u64) < 0 \<longleftrightarrow> bit v 63"
  by (simp add: sint_uint signed_take_bit_negative_iff bit_unsigned_iff)
lemma and_1_iff: "(w::u64) AND 1 \<noteq> 0 \<longleftrightarrow> bit w 0"
  by (simp add: and_one_eq odd_iff_mod_2_eq_one bit_0)
lemma drop_push: "(\<And>n. bit v n \<Longrightarrow> k + n < LENGTH('a)) \<Longrightarrow> drop_bit k (push_bit k v) = (v :: 'a::len word)"
  by (rule bit_word_eqI) (auto simp: bit_simps)
lemma drop_push_not: "(\<And>n. n < LENGTH('a) \<Longrightarrow> \<not> bit v n \<Longrightarrow> k + n < LENGTH('a))
  \<Longrightarrow> NOT (drop_bit k (NOT (push_bit k v))) = (v :: 'a::len word)"
  by (rule bit_word_eqI) (auto simp: bit_simps)
lemma bit63: "bit (v::u64) n \<Longrightarrow> \<not> bit v 63 \<Longrightarrow> 1 + n < 64"
  using bit_imp_le_length [of v n] by (cases "n = 63") auto

lemma zigzag: "(let z = (if sint v < 0 then NOT (push_bit 1 v) else push_bit 1 (v::u64)) in
   (if z AND 1 \<noteq> 0 then NOT (drop_bit 1 z) else drop_bit 1 z)) = v"
proof (cases "bit v 63")
  case True
  then have "NOT (drop_bit 1 (NOT (push_bit 1 v))) = v"
    using bit63 [of "NOT v"] by (intro drop_push_not) (auto simp: bit_simps)
  moreover have "bit (NOT (push_bit 1 v)) 0"
    by (simp only: bit_not_iff_eq bit_push_bit_iff) simp
  ultimately show ?thesis using True by (simp only: sint_neg_iff and_1_iff Let_def if_True)
next
  case False
  then have "drop_bit 1 (push_bit 1 v) = v"
    using bit63 [of v] by (intro drop_push) auto
  moreover have "\<not> bit (push_bit 1 v) 0"
    by (simp only: bit_push_bit_iff) simp
  ultimately show ?thesis using False by (simp only: sint_neg_iff and_1_iff Let_def if_False)
qed

lemma take_bit_or_push': "j = k + m \<Longrightarrow>
  take_bit k v OR push_bit k (take_bit m (drop_bit k v)) = take_bit j (v :: 'a::len word)"
  by (simp add: take_bit_or_push)
lemma byte_of_word: "ucast (ucast (take_bit 8 w :: 'a::len word) :: u8) = take_bit 8 w"
  by (rule bit_word_eqI) (auto simp: bit_simps)

lemma fixed32_bytes: "push_bit 0 (ucast (ucast (val AND 0xFF) :: u8)) OR push_bit 8 (ucast (ucast (drop_bit 8 val AND 0xFF):: u8))
              OR push_bit 16 (ucast (ucast (drop_bit 16 val AND 0xFF):: u8)) OR push_bit 24 (ucast (ucast (drop_bit 24 val AND 0xFF):: u8)) = (val::u32)"
  unfolding and_FF byte_of_word or.assoc [symmetric] push_bit_0_id id_apply
  by (simp add: take_bit_or_push' take_bit_word_eq_self)
lemma fixed64_bytes: "push_bit 0 (ucast (ucast (val AND 0xFF) :: u8)) OR push_bit 8 (ucast (ucast (drop_bit 8 val AND 0xFF):: u8))
              OR push_bit 16 (ucast (ucast (drop_bit 16 val AND 0xFF):: u8)) OR push_bit 24 (ucast (ucast (drop_bit 24 val AND 0xFF):: u8))
              OR push_bit 32 (ucast (ucast (drop_bit 32 val AND 0xFF):: u8)) OR push_bit 40 (ucast (ucast (drop_bit 40 val AND 0xFF):: u8))
              OR push_bit 48 (ucast (ucast (drop_bit 48 val AND 0xFF):: u8)) OR push_bit 56 (ucast (ucast (drop_bit 56 val AND 0xFF):: u8)) = (val::u64)"
  unfolding and_FF byte_of_word or.assoc [symmetric] push_bit_0_id id_apply
  by (simp add: take_bit_or_push' take_bit_word_eq_self)

definition zigzag_enc :: "u64 \<Rightarrow> u64" where
  "zigzag_enc v = (if sint v < 0 then NOT (push_bit 1 v) else push_bit 1 v)"

definition le_bytes32 :: "u32 \<Rightarrow> u8 list" where
  "le_bytes32 v = map (\<lambda>i. ucast (drop_bit (8 * i) v)) [0..<4]"

definition le_bytes64 :: "u64 \<Rightarrow> u8 list" where
  "le_bytes64 v = map (\<lambda>i. ucast (drop_bit (8 * i) v)) [0..<8]"

lemma unat_of_nat_32: "n < 2 ^ 32 \<Longrightarrow> unat (of_nat n :: u32) = n"
  by (simp add: unat_of_nat)

lemma ucast_of_nat_32_64: "n < 2 ^ 32 \<Longrightarrow> (ucast (of_nat n :: u32) :: u64) = of_nat n"
  by (simp add: word_unat_eq_iff unat_of_nat)

lemma ucast_low8: "ucast (w AND 0xFF) = (ucast (w :: 'a::len word) :: u8)"
  unfolding and_FF by (rule bit_word_eqI) (auto simp: bit_simps)

lemma pb_encode_svarint_emit:
  "os_room s (length (varint_bytes (zigzag_enc v))) \<Longrightarrow>
   pb_encode_svarint s v = (True, os_emit s (varint_bytes (zigzag_enc v)))"
  by (simp only: pb_encode_svarint_def zigzag_enc_def [symmetric] Let_def pb_encode_varint_emit)

lemma pb_encode_fixed32_emit:
  "os_room s 4 \<Longrightarrow> pb_encode_fixed32 s v = (True, os_emit s (le_bytes32 v))"
  by (simp add: pb_encode_fixed32_def le_bytes32_def pb_write_room ucast_low8 upt_rec)

lemma pb_encode_fixed64_emit:
  "os_room s 8 \<Longrightarrow> pb_encode_fixed64 s v = (True, os_emit s (le_bytes64 v))"
  by (simp add: pb_encode_fixed64_def le_bytes64_def pb_write_room ucast_low8 upt_rec)

lemma pb_encode_tag_emit:
  "os_room s (length (varint_bytes (push_bit 3 (ucast n) OR ucast wt))) \<Longrightarrow>
   pb_encode_tag s wt n = (True, os_emit s (varint_bytes (push_bit 3 (ucast n) OR ucast wt)))"
  by (simp add: pb_encode_tag_def Let_def pb_encode_varint_emit)

definition string_bytes :: "u8 list \<Rightarrow> u8 list" where
  "string_bytes bs = varint_bytes (of_nat (length bs)) @ bs"

lemma pb_encode_string_emit:
  assumes "os_room s (length (string_bytes bs))" "n = length bs"
  shows "pb_encode_string s bs n = (True, os_emit s (string_bytes bs))"
proof -
  have "os_room s (length (varint_bytes (of_nat (length bs))))"
    using assms by (auto simp: string_bytes_def elim: os_room_mono)
  with assms show ?thesis
    by (simp add: pb_encode_string_def pb_encode_varint_emit pb_write_room string_bytes_def)
qed

context pb_source begin

lemma pb_decode_svarint_good:
  assumes "good s" "avail s = varint_bytes (zigzag_enc v) @ r"
  shows "pb_decode_svarint s = (Some v, is_consume adv s (length (varint_bytes (zigzag_enc v))))"
  using pb_decode_varint_good [OF assms] zigzag [of v]
  by (simp add: pb_decode_svarint_def zigzag_enc_def Let_def)

lemma pb_decode_fixed32_good:
  assumes "good s" "avail s = le_bytes32 v @ r"
  shows "pb_decode_fixed32 s = (Some v, is_consume adv s 4)"
proof -
  have "4 \<le> is_bytes_left s"
    using length_avail [OF assms(1)] assms(2) by (simp add: le_bytes32_def)
  with assms have "pb_read s False 4 = (Some (le_bytes32 v), is_consume adv s 4)"
    by (simp add: pb_read_good le_bytes32_def)
  with fixed32_bytes [of v] show ?thesis
    by (simp add: pb_decode_fixed32_def le_bytes32_def upt_rec ucast_low8)
qed

lemma pb_decode_fixed64_good:
  assumes "good s" "avail s = le_bytes64 v @ r"
  shows "pb_decode_fixed64 s = (Some v, is_consume adv s 8)"
proof -
  have "8 \<le> is_bytes_left s"
    using length_avail [OF assms(1)] assms(2) by (simp add: le_bytes64_def)
  with assms have "pb_read s False 8 = (Some (le_bytes64 v), is_consume adv s 8)"
    by (simp add: pb_read_good le_bytes64_def)
  with fixed64_bytes [of v] show ?thesis
    by (simp add: pb_decode_fixed64_def le_bytes64_def upt_rec ucast_low8)
qed

lemma pb_skip_varint_good:
  "good s \<Longrightarrow> avail s = varint_bytes v @ r \<Longrightarrow>
   pb_skip_varint s = (True, is_consume adv s (length (varint_bytes v)))"
proof (induction v arbitrary: s rule: varint_bytes.induct)
  case (1 v)
  have left: "1 \<le> is_bytes_left s"
    using length_avail [OF "1.prems"(1)] "1.prems"(2) by (cases "varint_bytes v") auto
  have rd: "pb_read s False 1 = (Some (take 1 (avail s)), is_consume adv s 1)"
    using "1.prems" left by (simp add: pb_read_good)
  show ?case
  proof (cases "drop_bit 7 v = 0")
    case True
    then obtain b where "varint_bytes v = [b]" "b AND 0x80 = 0"
      using varint_bytes_last by metis
    with rd "1.prems" show ?thesis
      by (simp add: pb_skip_varint.simps [of s])
  next
    case False
    then obtain b where b: "varint_bytes v = b # varint_bytes (drop_bit 7 v)" "b AND 0x80 \<noteq> 0"
      using varint_bytes_more by metis
    have "pb_skip_varint (is_consume adv s 1)
        = (True, is_consume adv (is_consume adv s 1) (length (varint_bytes (drop_bit 7 v))))"
      using "1.prems" b left False by (intro "1.IH") simp_all
    with rd b "1.prems" show ?thesis
      by (simp add: pb_skip_varint.simps [of s])
  qed
qed

lemma pb_make_string_substream_good:
  assumes "good s" "avail s = string_bytes bs @ r" "length bs < 2 ^ 32"
  defines "n \<equiv> length (varint_bytes (of_nat (length bs)))"
  shows "pb_make_string_substream s
    = (Some ((is_consume adv s n)\<lparr>is_bytes_left := length bs\<rparr>),
       (is_consume adv s n)\<lparr>is_bytes_left := is_bytes_left s - n - length bs\<rparr>)"
proof -
  have len: "is_bytes_left s = n + length bs + length r"
    using length_avail [OF assms(1)] assms(2) by (simp add: string_bytes_def n_def)
  have "pb_decode_varint32 s = (Some (of_nat (length bs)), is_consume adv s n)"
    using assms(1-3) pb_decode_varint32_good [of s "of_nat (length bs)" "bs @ r"]
    by (simp add: string_bytes_def n_def ucast_of_nat_32_64)
  with len assms(3) show ?thesis
    by (simp add: pb_make_string_substream_def unat_of_nat_32)
qed

end

lemma and_7: "(w :: 'a::len word) AND 7 = take_bit 3 w"
  by (simp add: take_bit_eq_mask mask_eq_exp_minus_1)

lemma bit_unat_lt:
  assumes "unat (w :: 'a::len word) < 2 ^ k" "bit w i"
  shows "i < k"
proof -
  have "bit (take_bit k (unat w)) i"
    using assms by (simp add: take_bit_nat_eq_self bit_unsigned_iff)
  then show ?thesis by (simp add: bit_take_bit_iff)
qed

context pb_source begin

lemma pb_close_string_substream_good:
  assumes "good s" "avail s = string_bytes bs @ r" "k \<le> length bs"
  defines "n \<equiv> length (varint_bytes (of_nat (length bs)))"
  defines "sub \<equiv> (is_consume adv s n)\<lparr>is_bytes_left := length bs\<rparr>"
  shows "pb_close_string_substream
      ((is_consume adv s n)\<lparr>is_bytes_left := is_bytes_left s - n - length bs\<rparr>) (is_consume adv sub k)
    = (True, is_consume adv s (n + length bs))"
proof -
  have len: "is_bytes_left s = n + length bs + length r"
    using length_avail [OF assms(1)] assms(2) by (simp add: string_bytes_def n_def)
  have gs: "good sub"
    using assms(1) good_consume [OF assms(1), of n] len by (auto simp: good_def sub_def rest_adv)
  then have "good (is_consume adv sub k)"
    using assms(3) by (intro good_consume) (simp_all add: sub_def)
  then have "\<exists>x. pb_read (is_consume adv sub k) True (length bs - k)
      = (Some x, is_consume adv (is_consume adv sub k) (length bs - k))"
    by (intro pb_read_good(2)) (simp_all add: sub_def)
  then obtain x where
    rd: "pb_read (is_consume adv sub k) True (length bs - k) = (Some x, is_consume adv sub (length bs))"
    using assms(3) by auto
  have e: "is_consume adv sub (length bs) = (is_consume adv s (n + length bs))\<lparr>is_bytes_left := 0\<rparr>"
    by (simp add: sub_def is_consume_def adv_add)
  have cb: "is_callback (is_consume adv s m) = is_callback s" for m
    using adv_callback [of "is_src s" m] by (simp add: is_consume_def is_set_src_def is_src_def)
  have close: "(is_consume adv s n)\<lparr>is_bytes_left := is_bytes_left s - n - length bs,
        is_ptr := is_ptr (is_consume adv sub (length bs)),
        is_ustate := is_ustate (is_consume adv sub (length bs)),
        is_errmsg := is_errmsg (is_consume adv sub (length bs))\<rparr> = is_consume adv s (n + length bs)"
    unfolding e using cb [of n] cb [of "n + length bs"]
    by (simp add: is_consume_def is_set_src_def)
  show ?thesis
  proof (cases "k = length bs")
    case True
    then show ?thesis using close
      by (simp add: pb_close_string_substream_def) (simp add: sub_def)
  next
    case False
    then have "is_bytes_left (is_consume adv sub k) = length bs - k \<and> length bs - k \<noteq> 0"
      using assms(3) by (simp add: sub_def)
    with rd close show ?thesis
      by (simp add: pb_close_string_substream_def)
  qed
qed

lemma pb_skip_string_good:
  assumes "good s" "avail s = string_bytes bs @ r" "length bs < 2 ^ 32"
  shows "pb_skip_string s = (True, is_consume adv s (length (string_bytes bs)))"
proof -
  let ?n = "length (varint_bytes (of_nat (length bs)))"
  have len: "is_bytes_left s = ?n + length bs + length r"
    using length_avail [OF assms(1)] assms(2) by (simp add: string_bytes_def)
  have "pb_decode_varint32 s = (Some (of_nat (length bs)), is_consume adv s ?n)"
    using assms(1-3) pb_decode_varint32_good [of s "of_nat (length bs)" "bs @ r"]
    by (simp add: string_bytes_def ucast_of_nat_32_64)
  moreover have "\<exists>x. pb_read (is_consume adv s ?n) True (length bs)
      = (Some x, is_consume adv (is_consume adv s ?n) (length bs))"
    using assms(1) len by (intro pb_read_good(2)) simp_all
  ultimately show ?thesis
    using assms(3) by (auto simp: pb_skip_string_def unat_of_nat_32 string_bytes_def)
qed

lemma pb_decode_tag_good:
  assumes "good s" "avail s = varint_bytes (push_bit 3 (ucast n) OR ucast wt) @ r"
    "n < 2 ^ 29" "n \<noteq> 0" "wt < 8"
  shows "pb_decode_tag s = (True, wt, n, False,
      is_consume adv s (length (varint_bytes (push_bit 3 (ucast n) OR ucast wt))))"
proof -
  let ?t = "push_bit 3 n OR wt"
  have "unat n < 2 ^ 29" "unat wt < 2 ^ 3"
    using assms(3,5) by (simp_all add: word_less_nat_alt)
  note n29 = bit_unat_lt [OF this(1)] and w3 = bit_unat_lt [OF this(2)]
  have t: "ucast ?t = (push_bit 3 (ucast n) OR ucast wt :: u64)"
  proof (rule bit_word_eqI)
    fix i
    assume "i < LENGTH(64)"
    then show "bit (ucast ?t :: u64) i = bit (push_bit 3 (ucast n) OR ucast wt :: u64) i"
      using n29 [of "i - 3"] w3 [of i] by (auto simp: bit_simps)
  qed
  have "drop_bit 3 ?t = n"
  proof (rule bit_word_eqI)
    fix i
    assume "i < LENGTH(32)"
    then show "bit (drop_bit 3 ?t) i = bit n i"
      using n29 [of i] w3 [of "3 + i"] by (auto simp: bit_simps)
  qed
  moreover have "?t AND 7 = wt"
  proof (unfold and_7, rule bit_word_eqI)
    fix i
    assume "i < LENGTH(32)"
    then show "bit (take_bit 3 ?t) i = bit wt i"
      using w3 [of i] by (auto simp: bit_simps)
  qed
  moreover have "?t \<noteq> 0"
    using \<open>drop_bit 3 ?t = n\<close> assms(4) by (metis drop_bit_of_0)
  moreover have "pb_decode_varint32 s = (Some ?t, is_consume adv s (length (varint_bytes (ucast ?t))))"
    using assms(1,2) by (intro pb_decode_varint32_good) (auto simp: t)
  ultimately show ?thesis
    by (simp add: pb_decode_tag_def t)
qed

end

section \<open>Properties\<close>

lemma os_room_from_buffer [simp]:
  "cap < size_mod \<Longrightarrow> os_room (pb_ostream_from_buffer mem st p cap) n \<longleftrightarrow> n \<le> cap"
  by (simp add: os_room_def pb_ostream_from_buffer_def)

lemma from_buffer_emit [simp]:
  "os_bytes_written (os_emit (pb_ostream_from_buffer mem st p cap) bs) = length bs"
  "mem_bytes (os_mem (os_emit (pb_ostream_from_buffer mem st p cap) bs)) p (length bs) = bs"
  by (simp_all add: os_emit_def pb_ostream_from_buffer_def)

lemma advance_from_buffer [simp]:
  "is_consume buf_adv (pb_istream_from_buffer st (bs @ r) (length bs + length r)) (length bs)
     = pb_istream_from_buffer st r (length r)"
  by (simp add: buf_consume is_advance_def pb_istream_from_buffer_def)

lemma good_from_buffer [simp]:
  "buf.good (pb_istream_from_buffer st bs n) \<longleftrightarrow> n \<le> length bs"
  by (simp flip: is_buffer_iff)

lemma avail_from_buffer [simp]:
  "buf.avail (pb_istream_from_buffer st bs n) = take n bs"
  by (simp add: buf_avail pb_istream_from_buffer_def)

lemma from_buffer_written [simp]: "os_bytes_written (pb_ostream_from_buffer mem st p cap) = 0"
  by (simp add: pb_ostream_from_buffer_def)

text \<open>Whatever an encoder emitted into a fresh buffer can be read back from that buffer.\<close>

lemma from_buffer_roundtrip:
  assumes "enc (pb_ostream_from_buffer mem st p cap)
      = (True, os_emit (pb_ostream_from_buffer mem st p cap) bs)"
    and "dec (pb_istream_from_buffer st' (bs @ r) (length bs + length r)) = res"
  shows "\<exists>s'. enc (pb_ostream_from_buffer mem st p cap) = (True, s') \<and> os_bytes_written s' = length bs
    \<and> dec (pb_istream_from_buffer st' (mem_bytes (os_mem s') p (os_bytes_written s') @ r)
            (os_bytes_written s' + length r)) = res"
  using assms by simp

text \<open>C35: a 64-bit value encoded as a varint into a memory buffer with room for ten bytes takes
  at most ten bytes, and decoding the bytes that were written, with anything behind them, gives
  the value back and leaves the stream exactly behind the encoding.\<close>
theorem pb_varint_roundtrip:
  assumes "10 \<le> cap" "cap < size_mod"
  shows "\<exists>s'. pb_encode_varint (pb_ostream_from_buffer mem st p cap) v = (True, s')
    \<and> os_bytes_written s' \<le> 10
    \<and> pb_decode_varint (pb_istream_from_buffer st'
          (mem_bytes (os_mem s') p (os_bytes_written s') @ r) (os_bytes_written s' + length r))
      = (Some v, pb_istream_from_buffer st' r (length r))"
  using from_buffer_roundtrip [of "\<lambda>s. pb_encode_varint s v" mem st p cap "varint_bytes v"
      pb_decode_varint st' r, OF _ refl] assms length_varint_bytes [of v]
  by (auto simp: pb_encode_varint_emit buf.pb_decode_varint_good)

theorem pb_varint_roundtrip_witness:
  "\<exists>s'. pb_encode_varint (pb_ostream_from_buffer (\<lambda>_. 0) () 100 16) 300 = (True, s')
    \<and> os_bytes_written s' \<le> 10
    \<and> pb_decode_varint (pb_istream_from_buffer ()
          (mem_bytes (os_mem s') 100 (os_bytes_written s') @ [7]) (os_bytes_written s' + length [7 :: u8]))
      = (Some 300, pb_istream_from_buffer () [7] (length [7 :: u8]))"
  by (rule pb_varint_roundtrip) simp_all

text \<open>A signed 64-bit value survives the zig-zag encoding and decoding through a buffer.\<close>
theorem pb_svarint_roundtrip:
  assumes "10 \<le> cap" "cap < size_mod"
  shows "\<exists>s'. pb_encode_svarint (pb_ostream_from_buffer mem st p cap) v = (True, s')
    \<and> os_bytes_written s' \<le> 10
    \<and> pb_decode_svarint (pb_istream_from_buffer st'
          (mem_bytes (os_mem s') p (os_bytes_written s') @ r) (os_bytes_written s' + length r))
      = (Some v, pb_istream_from_buffer st' r (length r))"
  using from_buffer_roundtrip [of "\<lambda>s. pb_encode_svarint s v" mem st p cap
      "varint_bytes (zigzag_enc v)" pb_decode_svarint st' r, OF _ refl]
    assms length_varint_bytes [of "zigzag_enc v"]
  by (auto simp: pb_encode_svarint_emit buf.pb_decode_svarint_good)

theorem pb_svarint_roundtrip_witness:
  "\<exists>s'. pb_encode_svarint (pb_ostream_from_buffer (\<lambda>_. 0) () 100 16) (- 3) = (True, s')
    \<and> os_bytes_written s' \<le> 10
    \<and> pb_decode_svarint (pb_istream_from_buffer ()
          (mem_bytes (os_mem s') 100 (os_bytes_written s') @ [7]) (os_bytes_written s' + length [7 :: u8]))
      = (Some (- 3), pb_istream_from_buffer () [7] (length [7 :: u8]))"
  by (rule pb_svarint_roundtrip) simp_all

lemma length_le_bytes_fixed [simp]: "length (le_bytes32 v) = 4" "length (le_bytes64 w) = 8"
  by (simp_all add: le_bytes32_def le_bytes64_def)

text \<open>32- and 64-bit fixed-width values take four and eight bytes and are read back.\<close>
theorem pb_fixed_roundtrip:
  assumes "8 \<le> cap" "cap < size_mod"
  shows "(\<exists>s'. pb_encode_fixed32 (pb_ostream_from_buffer mem st p cap) v = (True, s')
      \<and> os_bytes_written s' = 4
      \<and> pb_decode_fixed32 (pb_istream_from_buffer st'
            (mem_bytes (os_mem s') p (os_bytes_written s') @ r) (os_bytes_written s' + length r))
        = (Some v, pb_istream_from_buffer st' r (length r)))
    \<and> (\<exists>s'. pb_encode_fixed64 (pb_ostream_from_buffer mem st p cap) w = (True, s')
      \<and> os_bytes_written s' = 8
      \<and> pb_decode_fixed64 (pb_istream_from_buffer st'
            (mem_bytes (os_mem s') p (os_bytes_written s') @ r) (os_bytes_written s' + length r))
        = (Some w, pb_istream_from_buffer st' r (length r)))"
  using from_buffer_roundtrip [of "\<lambda>s. pb_encode_fixed32 s v" mem st p cap
      "le_bytes32 v" pb_decode_fixed32 st' r, OF _ refl]
    from_buffer_roundtrip [of "\<lambda>s. pb_encode_fixed64 s w" mem st p cap
      "le_bytes64 w" pb_decode_fixed64 st' r, OF _ refl]
    advance_from_buffer [of st' "le_bytes32 v" r] advance_from_buffer [of st' "le_bytes64 w" r] assms
  by (simp add: pb_encode_fixed32_emit buf.pb_decode_fixed32_good pb_encode_fixed64_emit
      buf.pb_decode_fixed64_good)

theorem pb_fixed_roundtrip_witness:
  "(\<exists>s'. pb_encode_fixed32 (pb_ostream_from_buffer (\<lambda>_. 0) () 100 16) 0xDEADBEEF = (True, s')
      \<and> os_bytes_written s' = 4
      \<and> pb_decode_fixed32 (pb_istream_from_buffer ()
            (mem_bytes (os_mem s') 100 (os_bytes_written s') @ [7]) (os_bytes_written s' + length [7 :: u8]))
        = (Some 0xDEADBEEF, pb_istream_from_buffer () [7] (length [7 :: u8])))
    \<and> (\<exists>s'. pb_encode_fixed64 (pb_ostream_from_buffer (\<lambda>_. 0) () 100 16) 5 = (True, s')
      \<and> os_bytes_written s' = 8
      \<and> pb_decode_fixed64 (pb_istream_from_buffer ()
            (mem_bytes (os_mem s') 100 (os_bytes_written s') @ [7]) (os_bytes_written s' + length [7 :: u8]))
        = (Some 5, pb_istream_from_buffer () [7] (length [7 :: u8])))"
  by (rule pb_fixed_roundtrip) simp_all

text \<open>The tag of a field with a legal number (1 to \<open>2 ^ 29 - 1\<close>) and wire type is decoded to
  the same number and wire type, and is not taken for the end of the message.\<close>
theorem pb_tag_roundtrip:
  assumes "10 \<le> cap" "cap < size_mod" "0 < n" "n < 2 ^ 29" "wt < 8"
  shows "\<exists>s'. pb_encode_tag (pb_ostream_from_buffer mem st p cap) wt n = (True, s')
    \<and> pb_decode_tag (pb_istream_from_buffer st'
          (mem_bytes (os_mem s') p (os_bytes_written s') @ r) (os_bytes_written s' + length r))
      = (True, wt, n, False, pb_istream_from_buffer st' r (length r))"
  using from_buffer_roundtrip [of "\<lambda>s. pb_encode_tag s wt n" mem st p cap
      "varint_bytes (push_bit 3 (ucast n) OR ucast wt)" pb_decode_tag st' r, OF _ refl]
    assms length_varint_bytes [of "push_bit 3 (ucast n) OR ucast wt"]
  by (auto simp: pb_encode_tag_emit buf.pb_decode_tag_good word_gt_0)

theorem pb_tag_roundtrip_witness:
  "\<exists>s'. pb_encode_tag (pb_ostream_from_buffer (\<lambda>_. 0) () 100 16) PB_WT_STRING 1000 = (True, s')
    \<and> pb_decode_tag (pb_istream_from_buffer ()
          (mem_bytes (os_mem s') 100 (os_bytes_written s') @ [7]) (os_bytes_written s' + length [7 :: u8]))
      = (True, PB_WT_STRING, 1000, False, pb_istream_from_buffer () [7] (length [7 :: u8]))"
  by (rule pb_tag_roundtrip) simp_all

text \<open>A length-prefixed string is read back through a substream: the substream holds exactly
  the string's bytes, whatever is read of it, and closing it leaves the parent stream exactly
  behind the string.\<close>
theorem pb_string_substream_roundtrip:
  assumes "length (string_bytes bs) \<le> cap" "cap < size_mod" "length bs < 2 ^ 32"
    and "k \<le> length bs"
  shows "\<exists>s'. pb_encode_string (pb_ostream_from_buffer mem st p cap) bs (length bs) = (True, s')
    \<and> (\<exists>sub par. pb_make_string_substream (pb_istream_from_buffer st'
            (mem_bytes (os_mem s') p (os_bytes_written s') @ r) (os_bytes_written s' + length r))
          = (Some sub, par)
        \<and> sub = pb_istream_from_buffer st' (bs @ r) (length bs)
        \<and> pb_read sub False k = (Some (take k bs), is_advance sub k)
        \<and> pb_close_string_substream par (is_advance sub k)
          = (True, pb_istream_from_buffer st' r (length r)))"
proof -
  let ?o = "pb_ostream_from_buffer mem st p cap"
  let ?v = "varint_bytes (of_nat (length bs))"
  let ?i = "pb_istream_from_buffer st' (string_bytes bs @ r) (length (string_bytes bs) + length r)"
  let ?sub = "(is_consume buf_adv ?i (length ?v))\<lparr>is_bytes_left := length bs\<rparr>"
  let ?par = "(is_consume buf_adv ?i (length ?v))\<lparr>is_bytes_left := is_bytes_left ?i - length ?v - length bs\<rparr>"
  have enc: "pb_encode_string ?o bs (length bs) = (True, os_emit ?o (string_bytes bs))"
    using assms by (intro pb_encode_string_emit) simp_all
  have sub: "?sub = pb_istream_from_buffer st' (bs @ r) (length bs)"
    by (simp add: buf_consume is_advance_def pb_istream_from_buffer_def string_bytes_def)
  have mk: "pb_make_string_substream ?i = (Some ?sub, ?par)"
    using assms by (intro buf.pb_make_string_substream_good [where r = r]) simp_all
  have rd: "pb_read ?sub False k = (Some (take k bs), is_advance ?sub k)"
    using assms unfolding sub by (subst buf.pb_read_good(1))
      (simp_all add: buf_consume, simp add: pb_istream_from_buffer_def)
  have "pb_close_string_substream ?par (is_consume buf_adv ?sub k)
      = (True, is_consume buf_adv ?i (length ?v + length bs))"
    using assms by (intro buf.pb_close_string_substream_good [where r = r]) simp_all
  also have "is_consume buf_adv ?i (length ?v + length bs) = pb_istream_from_buffer st' r (length r)"
    using advance_from_buffer [of st' "string_bytes bs" r] by (simp add: string_bytes_def)
  finally have cl: "pb_close_string_substream ?par (is_advance ?sub k)
      = (True, pb_istream_from_buffer st' r (length r))"
    by (simp add: buf_consume)
  show ?thesis
    using enc mk rd cl unfolding sub by simp
qed

theorem pb_string_substream_roundtrip_witness:
  "\<exists>s'. pb_encode_string (pb_ostream_from_buffer (\<lambda>_. 0) () 100 16) [1, 2, 3] (length [1, 2, 3 :: u8])
      = (True, s')
    \<and> (\<exists>sub par. pb_make_string_substream (pb_istream_from_buffer ()
            (mem_bytes (os_mem s') 100 (os_bytes_written s') @ [7]) (os_bytes_written s' + length [7 :: u8]))
          = (Some sub, par)
        \<and> sub = pb_istream_from_buffer () ([1, 2, 3] @ [7]) (length [1, 2, 3 :: u8])
        \<and> pb_read sub False 2 = (Some (take 2 [1, 2, 3]), is_advance sub 2)
        \<and> pb_close_string_substream par (is_advance sub 2)
          = (True, pb_istream_from_buffer () [7] (length [7 :: u8])))"
  by (rule pb_string_substream_roundtrip) (simp_all add: string_bytes_def varint_bytes.simps)

inductive wire_payload :: "pb_wire_type_t \<Rightarrow> u8 list \<Rightarrow> bool" where
  payload_varint: "wire_payload PB_WT_VARINT (varint_bytes v)"
| payload_64bit: "length bs = 8 \<Longrightarrow> wire_payload PB_WT_64BIT bs"
| payload_string: "length bs < 2 ^ 32 \<Longrightarrow> wire_payload PB_WT_STRING (string_bytes bs)"
| payload_32bit: "length bs = 4 \<Longrightarrow> wire_payload PB_WT_32BIT bs"

lemma pb_read_null_from_buffer:
  "n = length bs \<Longrightarrow>
   \<exists>x. pb_read (pb_istream_from_buffer st (bs @ r) (length bs + length r)) True n
     = (Some x, pb_istream_from_buffer st r (length r))"
  using buf.pb_read_good(2) [of "pb_istream_from_buffer st (bs @ r) (length bs + length r)" n]
  by (simp, simp add: pb_istream_from_buffer_def)

text \<open>Skipping an unknown field moves the stream exactly past its payload, for a payload of
  each of the four wire types and whatever follows it.\<close>
theorem pb_skip_field_exact:
  assumes "wire_payload wt bs"
  shows "pb_skip_field (pb_istream_from_buffer st (bs @ r) (length bs + length r)) wt
    = (True, pb_istream_from_buffer st r (length r))"
  using assms
proof cases
  case (payload_varint v)
  then show ?thesis
    by (simp add: pb_skip_field_def buf.pb_skip_varint_good)
next
  case payload_64bit
  with pb_read_null_from_buffer [of 8 bs st r] show ?thesis
    by (auto simp: pb_skip_field_def)
next
  case (payload_string xs)
  then show ?thesis
    using advance_from_buffer [of st "string_bytes xs" r]
    by (simp add: pb_skip_field_def buf.pb_skip_string_good)
next
  case payload_32bit
  with pb_read_null_from_buffer [of 4 bs st r] show ?thesis
    by (auto simp: pb_skip_field_def)
qed

theorem pb_skip_field_exact_witness:
  "pb_skip_field (pb_istream_from_buffer () ([1, 2, 3, 4] @ [9]) (length [1, 2, 3, 4 :: u8] + length [9 :: u8]))
      PB_WT_32BIT = (True, pb_istream_from_buffer () [9] (length [9 :: u8]))"
  by (rule pb_skip_field_exact, rule payload_32bit) simp

lemma size_add_wrap:
  "a < size_mod \<Longrightarrow> b < size_mod \<Longrightarrow>
    size_add a b = (if a + b < size_mod then a + b else a + b - size_mod)"
  by (simp add: size_add_def mod_if [of "a + b"])

text \<open>C36: what a write to a memory buffer checks.  As long as the sum \<open>bytes_written + count\<close>
  does not wrap around \<open>size_t\<close>, the write never touches memory outside what is left of the buffer,
  never counts more bytes than the buffer holds, and succeeds exactly when the bytes fit.  When the
  sum wraps, the check is made on the wrapped sum: the write is accepted if that is small enough,
  although the bytes do not fit, and stores all of them.  A refused write leaves the memory alone.\<close>
theorem pb_write_bounds:
  assumes "os_callback s = Buf_write" "os_bytes_written s \<le> os_max_size s"
    "os_max_size s < size_mod" "count < size_mod" "pb_write s buf count = (ok, s')"
  shows "os_max_size s' = os_max_size s \<and> (\<not> ok \<longrightarrow> os_mem s' = os_mem s) \<and>
    (if os_bytes_written s + count < size_mod
     then os_bytes_written s' \<le> os_max_size s'
       \<and> (ok \<longleftrightarrow> os_bytes_written s + count \<le> os_max_size s)
       \<and> (\<forall>q. q < os_state s \<or> os_state s + (os_max_size s - os_bytes_written s) \<le> q \<longrightarrow>
             os_mem s' q = os_mem s q)
     else os_max_size s < os_bytes_written s + count
       \<and> (ok \<longleftrightarrow> os_bytes_written s + count - size_mod \<le> os_max_size s)
       \<and> (ok \<longrightarrow> os_mem s' = store_bytes (os_mem s) (os_state s) (take count buf)))"
proof (cases "size_add (os_bytes_written s) count \<le> os_max_size s")
  case True
  with assms have w: "ok \<and> s' = s\<lparr>os_state := os_state s + count,
      os_mem := store_bytes (os_mem s) (os_state s) (take count buf),
      os_bytes_written := size_add (os_bytes_written s) count\<rparr>"
    by (auto simp: pb_write_def ostream_callback_def buf_write_def)
  have "store_bytes (os_mem s) (os_state s) (take count buf) q = os_mem s q"
    if "q < os_state s \<or> os_state s + (os_max_size s - os_bytes_written s) \<le> q"
      "os_bytes_written s + count \<le> os_max_size s" for q
    using that by (intro store_bytes_frame) auto
  with True w size_add_wrap [of "os_bytes_written s" count] assms(2-4) show ?thesis by auto
next
  case False
  with assms have "\<not> ok \<and> s' = os_set_error ''stream full'' s"
    by (auto simp: pb_write_def)
  with False size_add_wrap [of "os_bytes_written s" count] assms(2-4) show ?thesis
    by (auto simp: os_set_error_def)
qed

theorem pb_write_bounds_witness:
  "(let s = pb_ostream_from_buffer (\<lambda>_. 0) () 100 2; s' = snd (pb_write s [1, 2, 3] 3) in
      os_mem s' = os_mem s \<and> os_bytes_written s' \<le> 2) \<and>
   (let s = (pb_ostream_from_buffer (\<lambda>_. 0) () 100 4)\<lparr>os_bytes_written := 1\<rparr> in
      fst (pb_write s [1, 2, 3] (size_mod - 1)))"
proof -
  let ?s = "pb_ostream_from_buffer (\<lambda>_. 0) () 100 2" and ?t = "(pb_ostream_from_buffer (\<lambda>_. 0) () 100 4)\<lparr>os_bytes_written := 1\<rparr>"
  have s: "os_callback ?s = Buf_write" "os_bytes_written ?s = 0" "os_max_size ?s = 2"
    and t: "os_callback ?t = Buf_write" "os_bytes_written ?t = 1" "os_max_size ?t = 4"
    by (simp_all add: pb_ostream_from_buffer_def)
  have "os_mem (snd (pb_write ?s [1, 2, 3] 3)) = os_mem ?s \<and> os_bytes_written (snd (pb_write ?s [1, 2, 3] 3)) \<le> 2"
    using pb_write_bounds [OF s(1) _ _ _ prod.collapse [symmetric], of 3 "[1, 2, 3]"] s by simp
  moreover have "fst (pb_write ?t [1, 2, 3] (size_mod - 1))"
    using pb_write_bounds [OF t(1) _ _ _ prod.collapse [symmetric], of "size_mod - 1" "[1, 2, 3]"] t by simp
  ultimately show ?thesis by simp
qed

text \<open>
  So the check is fooled by a large count: the sum \<open>bytes_written + count\<close> is
  computed modulo \<open>2 ^ 64\<close>, so a count that wraps it to zero is accepted however small the
  buffer is.
\<close>

lemma pb_write_wraps:
  assumes "os_callback s = Buf_write" "0 < os_bytes_written s" "os_bytes_written s < size_mod"
  shows "fst (pb_write s buf (size_mod - os_bytes_written s))"
  using assms by (simp add: pb_write_def size_add_def ostream_callback_def buf_write_def)

lemma pb_write_wraps_example:
  "let s = (pb_ostream_from_buffer mem st p 4)\<lparr>os_bytes_written := 1\<rparr>;
       r = pb_write s buf (size_mod - 1)
   in fst r \<and> os_state (snd r) = p + (size_mod - 1)"
  by (simp add: pb_write_def size_add_def ostream_callback_def buf_write_def
      pb_ostream_from_buffer_def)

context pb_source begin

lemma varint32_decode_loop_cut:
  "good s \<Longrightarrow> (\<And>b. b \<in> set (avail s) \<Longrightarrow> b AND 0x80 \<noteq> 0) \<Longrightarrow>
   k + 7 * is_bytes_left s < 32 \<Longrightarrow>
   \<exists>s'. varint32_decode_loop s k res = (None, s') \<and> is_bytes_left s' = 0"
proof (induction s k res rule: varint32_decode_loop.induct)
  case (1 s k res)
  show ?case
  proof (cases "avail s")
    case Nil
    then have "is_bytes_left s = 0"
      using length_avail [OF "1.prems"(1)] by simp
    with "1.prems" show ?thesis
      by (simp add: varint32_decode_loop.simps [of s] pb_readbyte_def is_set_error_def)
  next
    case (Cons b bs)
    then have left: "1 \<le> is_bytes_left s" and b: "b AND 0x80 \<noteq> 0"
      using length_avail [OF "1.prems"(1)] "1.prems"(2) by auto
    have rb: "pb_readbyte s = (Some b, is_consume adv s 1)"
      using "1.prems"(1) Cons by (rule pb_readbyte_good)
    have "\<exists>s'. varint32_decode_loop (is_consume adv s 1) ((k + 7) mod 256)
        (res OR push_bit k (ucast (b AND 0x7F))) = (None, s') \<and> is_bytes_left s' = 0"
      using "1.prems" left b Cons rb by (intro "1.IH") (auto simp: set_drop_subset)
    with rb b "1.prems" left show ?thesis
      by (simp add: varint32_decode_loop.simps [of s k] Let_def)
  qed
qed

end

lemma left_from_buffer [simp]: "is_bytes_left (pb_istream_from_buffer st bs n) = n"
  by (simp add: pb_istream_from_buffer_def)

text \<open>C39: a field tag that is cut short by the end of the input is reported as the end of the
  message, not as an error.\<close>
theorem pb_decode_tag_truncated:
  assumes "length bs \<le> 4" "\<And>b. b \<in> set bs \<Longrightarrow> b AND 0x80 \<noteq> 0"
  shows "\<exists>s'. pb_decode_tag (pb_istream_from_buffer st bs (length bs)) = (False, 0, 0, True, s')"
proof (cases bs)
  case Nil
  then show ?thesis
    by (simp add: pb_decode_tag_def pb_decode_varint32_def pb_readbyte_def is_set_error_def
        pb_istream_from_buffer_def)
next
  case (Cons b xs)
  let ?s = "pb_istream_from_buffer st bs (length bs)"
  have rb: "pb_readbyte ?s = (Some b, is_consume buf_adv ?s 1)"
    using Cons by (intro buf.pb_readbyte_good) simp_all
  have "\<exists>s'. varint32_decode_loop (is_consume buf_adv ?s 1) 7 (ucast (b AND 0x7F))
      = (None, s') \<and> is_bytes_left s' = 0"
    using assms Cons by (intro buf.varint32_decode_loop_cut) auto
  with rb assms Cons show ?thesis
    by (auto simp: pb_decode_tag_def pb_decode_varint32_def)
qed

theorem pb_decode_tag_truncated_witness:
  "\<exists>s'. pb_decode_tag (pb_istream_from_buffer () [0x88, 0x80] (length [0x88, 0x80 :: u8]))
     = (False, 0, 0, True, s')"
  by (rule pb_decode_tag_truncated) auto

lemma unat_ucast_u64: "unat (ucast b :: u64) = unat (b :: u8)"
proof -
  have "unat b mod 2 ^ 64 = unat b" by (rule mod_less, rule order.strict_trans2 [OF unsigned_less]) simp
  then show ?thesis by (simp add: unsigned_ucast_eq take_bit_eq_mod)
qed

lemma low_32_eq: "unat (ucast v :: u32) = unat v \<longleftrightarrow> drop_bit 32 v = 0" for v :: u64
proof -
  have "unat (ucast v :: u32) = unat v mod 2 ^ 32" by (simp add: unsigned_ucast_eq take_bit_eq_mod)
  moreover have "drop_bit 32 v = 0 \<longleftrightarrow> unat v div 2 ^ 32 = 0"
    using unat_drop_bit [of 32 v] by (simp only: unat_eq_0 [symmetric])
  ultimately show ?thesis by (metis div_eq_0_iff mod_eq_self_iff_div_eq_0)
qed

text \<open>A 32-bit varint of five bytes, whatever they are, decodes without an error to the low 32
  bits of the value that the 64-bit decoder reads from the same bytes: the overflow check does not
  see the payload bits beyond bit 31.  The value survives only if the last byte is below 16.\<close>
theorem pb_decode_varint32_drops_bits:
  assumes "b0 AND 0x80 \<noteq> 0" "b1 AND 0x80 \<noteq> 0" "b2 AND 0x80 \<noteq> 0" "b3 AND 0x80 \<noteq> 0" "b4 AND 0x80 = 0"
    and s_def: "s = pb_istream_from_buffer st ([b0, b1, b2, b3, b4] @ r) (5 + n)"
  shows "\<exists>v :: u64. pb_decode_varint s = (Some v, pb_istream_from_buffer st r n)
    \<and> pb_decode_varint32 s = (Some (ucast v), pb_istream_from_buffer st r n)
    \<and> v = ucast (b0 AND 0x7F) OR push_bit 7 (ucast (b1 AND 0x7F)) OR push_bit 14 (ucast (b2 AND 0x7F))
        OR push_bit 21 (ucast (b3 AND 0x7F)) OR push_bit 28 (ucast (b4 AND 0x7F))
    \<and> (unat (ucast v :: u32) = unat v \<longleftrightarrow> b4 < 0x10)"
proof -
  define v :: u64 where "v = ucast (b0 AND 0x7F) OR push_bit 7 (ucast (b1 AND 0x7F)) OR push_bit 14 (ucast (b2 AND 0x7F))
    OR push_bit 21 (ucast (b3 AND 0x7F)) OR push_bit 28 (ucast (b4 AND 0x7F))"
  have "pb_decode_varint s = (Some v, pb_istream_from_buffer st r n)"
    using assms(1-5) by (simp add: s_def v_def or.assoc pb_decode_varint_def varint_decode_loop.simps pb_readbyte_def
        istream_callback_def buf_read_def pb_istream_from_buffer_def)
  moreover have "pb_decode_varint32 s = (Some (ucast v), pb_istream_from_buffer st r n)"
  proof -
    have "(ucast v :: u32) = ucast (b0 AND 0x7F) OR push_bit 7 (ucast (b1 AND 0x7F)) OR push_bit 14 (ucast (b2 AND 0x7F))
      OR push_bit 21 (ucast (b3 AND 0x7F)) OR push_bit 28 (ucast (b4 AND 0x7F))"
      unfolding v_def and_7F by (rule bit_word_eqI) (auto simp: bit_simps)
    then show ?thesis
      using assms(1-5) by (simp add: s_def or.assoc pb_decode_varint32_def varint32_decode_loop.simps pb_readbyte_def
          istream_callback_def buf_read_def pb_istream_from_buffer_def)
  qed
  moreover have "drop_bit 32 v = 0 \<longleftrightarrow> b4 < 0x10"
  proof -
    have top: "i < 3" if "bit b4 (4 + i)" for i
      using assms(5) bit_imp_le_length [OF that] that by (cases "i = 3") (auto simp: and_80_iff_bit)
    have "drop_bit 32 v = ucast (drop_bit 4 b4)"
      unfolding v_def and_7F by (intro bit_word_eqI) (auto simp: bit_simps dest: top)
    moreover have "unat (ucast (drop_bit 4 b4) :: u64) = unat b4 div 2 ^ 4"
      by (simp only: unat_ucast_u64 unat_drop_bit)
    ultimately show ?thesis by (simp only: unat_eq_0 [symmetric] word_less_nat_alt) (simp add: div_eq_0_iff)
  qed
  ultimately show ?thesis unfolding v_def low_32_eq by blast
qed

theorem pb_decode_varint32_drops_bits_witness:
  "let s = pb_istream_from_buffer () ([0x81, 0x82, 0xFF, 0x80, 0x7F] @ [1]) (5 + 1) in
     pb_decode_varint s = (Some 0x7F01FC101, pb_istream_from_buffer () [1] 1) \<and>
     pb_decode_varint32 s = (Some 0xF01FC101, pb_istream_from_buffer () [1] 1)"
  using pb_decode_varint32_drops_bits [of "0x81" "0x82" "0xFF" "0x80" "0x7F" _ "()" "[1]" 1, OF _ _ _ _ _ refl] by auto

end
