(* ===== verification/Mem.thy ===== *)
theory Mem
  imports Prelude
begin

text \<open>
  Memory helpers of BoringSSL (\<open>crypto/mem.c\<close>).  The C heap is a map from the address that
  \<open>malloc\<close> returned to the bytes of the block; what \<open>free\<close> receives is logged in
  \<open>hp_released\<close>, so that clearing memory before release can be stated.  The result of the
  \<open>malloc\<close> call inside an operation is an argument (\<open>None\<close> when it fails, else the
  address and the indeterminate contents of the block); \<open>malloc_ok\<close> is the contract of the C
  library for it.  An access outside a block is the value \<open>Inl\<close>.
\<close>

section \<open>The heap behind malloc and free\<close>

datatype mem_fault = Invalid_pointer | Out_of_bounds

record c_heap =
  hp_blocks :: "nat \<Rightarrow> u8 list option"
  hp_released :: "u8 list list"

type_synonym malloc_result = "(nat \<times> u8 list) option"

definition malloc_ok :: "c_heap \<Rightarrow> size_t \<Rightarrow> malloc_result \<Rightarrow> bool" where
  "malloc_ok h n r \<longleftrightarrow> (case r of None \<Rightarrow> True
     | Some (p, bs) \<Rightarrow> 0 < p \<and> hp_blocks h p = None \<and> length bs = n)"

definition OPENSSL_MALLOC_PREFIX :: nat where
  "OPENSSL_MALLOC_PREFIX = 8"

definition le_bytes :: "nat \<Rightarrow> nat \<Rightarrow> u8 list" where
  "le_bytes k n = map (\<lambda>i. of_nat (n div 256 ^ i)) [0..<k]"

fun le_value :: "u8 list \<Rightarrow> nat" where
  "le_value [] = 0"
| "le_value (b # bs) = unat b + 256 * le_value bs"

text \<open>Storing and loading the \<open>size_t\<close> that precedes the memory handed out.\<close>

definition store_size :: "u8 list \<Rightarrow> size_t \<Rightarrow> mem_fault + u8 list" where
  "store_size bs n = (if length bs < OPENSSL_MALLOC_PREFIX then Inl Out_of_bounds
     else Inr (le_bytes OPENSSL_MALLOC_PREFIX n @ drop OPENSSL_MALLOC_PREFIX bs))"

definition load_size :: "u8 list \<Rightarrow> mem_fault + size_t" where
  "load_size bs = (if length bs < OPENSSL_MALLOC_PREFIX then Inl Out_of_bounds
     else Inr (le_value (take OPENSSL_MALLOC_PREFIX bs)))"

definition OPENSSL_malloc ::
  "malloc_result \<Rightarrow> size_t \<Rightarrow> c_heap \<Rightarrow> mem_fault + (nat \<times> c_heap)" where
  "OPENSSL_malloc r sz h = (case r of
     None \<Rightarrow> Inr (0, h)
   | Some (ptr, bs) \<Rightarrow>
       (case store_size bs sz of
          Inl e \<Rightarrow> Inl e
        | Inr blk \<Rightarrow> Inr (ptr + OPENSSL_MALLOC_PREFIX,
            h\<lparr>hp_blocks := (hp_blocks h)(ptr \<mapsto> blk)\<rparr>)))"

text \<open>\<open>OPENSSL_cleanse\<close> zeroes \<open>len\<close> bytes from the start of a block.\<close>

definition OPENSSL_cleanse :: "nat \<Rightarrow> size_t \<Rightarrow> c_heap \<Rightarrow> mem_fault + c_heap" where
  "OPENSSL_cleanse ptr len h = (case hp_blocks h ptr of
     None \<Rightarrow> Inl Invalid_pointer
   | Some blk \<Rightarrow> if length blk < len then Inl Out_of_bounds
       else Inr (h\<lparr>hp_blocks := (hp_blocks h)(ptr \<mapsto> replicate len 0 @ drop len blk)\<rparr>))"

text \<open>The C library's \<open>free\<close>.\<close>

definition c_free :: "nat \<Rightarrow> c_heap \<Rightarrow> mem_fault + c_heap" where
  "c_free ptr h = (case hp_blocks h ptr of
     None \<Rightarrow> Inl Invalid_pointer
   | Some blk \<Rightarrow> Inr \<lparr>hp_blocks = (hp_blocks h)(ptr := None),
                       hp_released = blk # hp_released h\<rparr>)"

definition OPENSSL_free :: "nat \<Rightarrow> c_heap \<Rightarrow> mem_fault + c_heap" where
  "OPENSSL_free orig_ptr h = (if orig_ptr = 0 then Inr h
   else let ptr = orig_ptr - OPENSSL_MALLOC_PREFIX in
     (case hp_blocks h ptr of
        None \<Rightarrow> Inl Invalid_pointer
      | Some blk \<Rightarrow>
          (case load_size blk of
             Inl e \<Rightarrow> Inl e
           | Inr sz \<Rightarrow>
               (case OPENSSL_cleanse ptr (size_add sz OPENSSL_MALLOC_PREFIX) h of
                  Inl e \<Rightarrow> Inl e
                | Inr h' \<Rightarrow> c_free ptr h'))))"

text \<open>\<open>memcpy\<close> between the user parts of two blocks.\<close>

definition copy_user :: "nat \<Rightarrow> nat \<Rightarrow> size_t \<Rightarrow> c_heap \<Rightarrow> mem_fault + c_heap" where
  "copy_user dst src n h =
    (case (hp_blocks h (dst - OPENSSL_MALLOC_PREFIX), hp_blocks h (src - OPENSSL_MALLOC_PREFIX)) of
       (Some d, Some s) \<Rightarrow>
         if length d < OPENSSL_MALLOC_PREFIX + n \<or> length s < OPENSSL_MALLOC_PREFIX + n
         then Inl Out_of_bounds
         else Inr (h\<lparr>hp_blocks := (hp_blocks h)(dst - OPENSSL_MALLOC_PREFIX \<mapsto>
                take OPENSSL_MALLOC_PREFIX d @ take n (drop OPENSSL_MALLOC_PREFIX s)
                @ drop (OPENSSL_MALLOC_PREFIX + n) d)\<rparr>)
     | _ \<Rightarrow> Inl Invalid_pointer)"

definition OPENSSL_realloc ::
  "malloc_result \<Rightarrow> nat \<Rightarrow> size_t \<Rightarrow> c_heap \<Rightarrow> mem_fault + (nat \<times> c_heap)" where
  "OPENSSL_realloc r orig_ptr new_size h = (if orig_ptr = 0 then OPENSSL_malloc r new_size h
   else (case hp_blocks h (orig_ptr - OPENSSL_MALLOC_PREFIX) of
     None \<Rightarrow> Inl Invalid_pointer
   | Some blk \<Rightarrow>
     (case load_size blk of Inl e \<Rightarrow> Inl e | Inr old_size \<Rightarrow>
     (case OPENSSL_malloc r new_size h of Inl e \<Rightarrow> Inl e | Inr (ret, h1) \<Rightarrow>
        if ret = 0 then Inr (0, h1)
        else
          let to_copy = (if old_size < new_size then old_size else new_size) in
          (case copy_user ret orig_ptr to_copy h1 of Inl e \<Rightarrow> Inl e | Inr h2 \<Rightarrow>
          (case OPENSSL_free orig_ptr h2 of Inl e \<Rightarrow> Inl e | Inr h3 \<Rightarrow> Inr (ret, h3)))))))"

section \<open>Comparing and hashing\<close>

definition CRYPTO_memcmp :: "u8 list \<Rightarrow> u8 list \<Rightarrow> size_t \<Rightarrow> int" where
  "CRYPTO_memcmp a b len = uint (fold (\<lambda>i x. x OR (a ! i XOR b ! i)) [0..<len] (0 :: u8))"

definition OPENSSL_hash32 :: "u8 list \<Rightarrow> size_t \<Rightarrow> u32" where
  "OPENSSL_hash32 inp len =
    fold (\<lambda>i h. (h XOR ucast (inp ! i)) * 16777619) [0..<len] 2166136261"

section \<open>C strings\<close>

text \<open>
  A \<open>char *\<close> is the bytes from the pointer to the end of its object; reading past it is
  \<open>None\<close>.  \<open>char\<close> is signed, as on the platforms the application is built for.
\<close>

fun c_strlen :: "u8 list \<Rightarrow> nat option" where
  "c_strlen [] = None"
| "c_strlen (c # s) = (if c = 0 then Some 0 else map_option Suc (c_strlen s))"

fun OPENSSL_strnlen :: "u8 list \<Rightarrow> size_t \<Rightarrow> nat option" where
  "OPENSSL_strnlen s 0 = Some 0"
| "OPENSSL_strnlen [] (Suc n) = None"
| "OPENSSL_strnlen (c # s) (Suc n) =
    (if c = 0 then Some 0 else map_option Suc (OPENSSL_strnlen s n))"

definition OPENSSL_strdup ::
  "malloc_result \<Rightarrow> u8 list \<Rightarrow> c_heap \<Rightarrow> mem_fault + (nat \<times> c_heap)" where
  "OPENSSL_strdup r s h = (case c_strlen s of
     None \<Rightarrow> Inl Out_of_bounds
   | Some n \<Rightarrow>
       let len = size_add n 1 in
       (case OPENSSL_malloc r len h of
          Inl e \<Rightarrow> Inl e
        | Inr (ret, h1) \<Rightarrow>
            if ret = 0 then Inr (0, h1)
            else (case hp_blocks h1 (ret - OPENSSL_MALLOC_PREFIX) of
                None \<Rightarrow> Inl Invalid_pointer
              | Some d \<Rightarrow>
                  if length d < OPENSSL_MALLOC_PREFIX + len \<or> length s < len then Inl Out_of_bounds
                  else Inr (ret, h1\<lparr>hp_blocks := (hp_blocks h1)(ret - OPENSSL_MALLOC_PREFIX \<mapsto>
                    take OPENSSL_MALLOC_PREFIX d @ take len s
                    @ drop (OPENSSL_MALLOC_PREFIX + len) d)\<rparr>))))"

definition OPENSSL_tolower :: "int \<Rightarrow> int" where
  "OPENSSL_tolower c = (if 65 \<le> c \<and> c \<le> 90 then c + (97 - 65) else c)"

fun OPENSSL_strcasecmp :: "u8 list \<Rightarrow> u8 list \<Rightarrow> int option" where
  "OPENSSL_strcasecmp (a # as) (b # bs) =
    (let aa = OPENSSL_tolower (sint a); bb = OPENSSL_tolower (sint b) in
     if aa < bb then Some (- 1)
     else if bb < aa then Some 1
     else if aa = 0 then Some 0
     else OPENSSL_strcasecmp as bs)"
| "OPENSSL_strcasecmp _ _ = None"

fun OPENSSL_strncasecmp :: "u8 list \<Rightarrow> u8 list \<Rightarrow> size_t \<Rightarrow> int option" where
  "OPENSSL_strncasecmp _ _ 0 = Some 0"
| "OPENSSL_strncasecmp (a # as) (b # bs) (Suc n) =
    (let aa = OPENSSL_tolower (sint a); bb = OPENSSL_tolower (sint b) in
     if aa < bb then Some (- 1)
     else if bb < aa then Some 1
     else if aa = 0 then Some 0
     else OPENSSL_strncasecmp as bs n)"
| "OPENSSL_strncasecmp _ _ (Suc n) = None"


section \<open>Well-formed heaps\<close>

lemma length_le_bytes [simp]: "length (le_bytes k n) = k"
  by (simp add: le_bytes_def)

lemma le_value_le_bytes: "le_value (le_bytes k n) = n mod 256 ^ k"
proof (induction k arbitrary: n)
  case 0
  then show ?case by (simp add: le_bytes_def)
next
  case (Suc k)
  have "le_bytes (Suc k) n = of_nat n # le_bytes k (n div 256)"
    by (simp add: le_bytes_def upt_rec [of 0] map_Suc_upt [symmetric] div_mult2_eq
        del: upt_Suc)
  then have "le_value (le_bytes (Suc k) n) = n mod 256 + 256 * (n div 256 mod 256 ^ k)"
    using Suc by (simp add: unat_of_nat)
  then show ?case by (simp add: mod_mult2_eq)
qed

lemma le_value_le_bytes_size [simp]:
  "n < size_mod \<Longrightarrow> le_value (le_bytes OPENSSL_MALLOC_PREFIX n) = n"
  by (simp add: le_value_le_bytes OPENSSL_MALLOC_PREFIX_def)

definition block_wf :: "u8 list \<Rightarrow> bool" where
  "block_wf blk \<longleftrightarrow> OPENSSL_MALLOC_PREFIX \<le> length blk \<and> length blk < size_mod \<and>
     length blk = OPENSSL_MALLOC_PREFIX + le_value (take OPENSSL_MALLOC_PREFIX blk)"

definition heap_wf :: "c_heap \<Rightarrow> bool" where
  "heap_wf h \<longleftrightarrow> (\<forall>p blk. hp_blocks h p = Some blk \<longrightarrow> 0 < p \<and> block_wf blk)"

text \<open>The memory a client sees behind the pointer \<open>p\<close> it got from \<open>OPENSSL_malloc\<close>.\<close>

definition user_bytes :: "c_heap \<Rightarrow> nat \<Rightarrow> u8 list option" where
  "user_bytes h p = (if p < OPENSSL_MALLOC_PREFIX then None else
     map_option (drop OPENSSL_MALLOC_PREFIX) (hp_blocks h (p - OPENSSL_MALLOC_PREFIX)))"

lemma user_bytesE:
  assumes "heap_wf h" "user_bytes h p = Some bs"
  obtains blk where "hp_blocks h (p - OPENSSL_MALLOC_PREFIX) = Some blk" "block_wf blk"
    "drop OPENSSL_MALLOC_PREFIX blk = bs" "OPENSSL_MALLOC_PREFIX \<le> p" "p \<noteq> 0"
    "load_size blk = Inr (length bs)" "length blk = OPENSSL_MALLOC_PREFIX + length bs"
    "OPENSSL_MALLOC_PREFIX + length bs < size_mod"
  using assms by (fastforce simp: user_bytes_def heap_wf_def block_wf_def load_size_def
      OPENSSL_MALLOC_PREFIX_def split: if_splits)

lemma OPENSSL_malloc_fails: "OPENSSL_malloc None sz h = Inr (0, h)"
  by (simp add: OPENSSL_malloc_def)

lemma OPENSSL_malloc_some:
  assumes wf: "heap_wf h" and small: "sz + OPENSSL_MALLOC_PREFIX < size_mod"
    and ok: "malloc_ok h (size_add sz OPENSSL_MALLOC_PREFIX) (Some (p, bs))"
  obtains blk h' where
    "OPENSSL_malloc (Some (p, bs)) sz h = Inr (p + OPENSSL_MALLOC_PREFIX, h')"
    "h' = h\<lparr>hp_blocks := (hp_blocks h)(p \<mapsto> blk)\<rparr>"
    "heap_wf h'" "block_wf blk" "length blk = OPENSSL_MALLOC_PREFIX + sz"
    "hp_blocks h p = None" "0 < p"
proof -
  let ?blk = "le_bytes OPENSSL_MALLOC_PREFIX sz @ drop OPENSSL_MALLOC_PREFIX bs"
  let ?h = "h\<lparr>hp_blocks := (hp_blocks h)(p \<mapsto> ?blk)\<rparr>"
  have len: "length bs = sz + OPENSSL_MALLOC_PREFIX" "0 < p" "hp_blocks h p = None"
    using ok small by (simp_all add: malloc_ok_def)
  have blk: "block_wf ?blk" "length ?blk = OPENSSL_MALLOC_PREFIX + sz"
    using len small by (simp_all add: block_wf_def)
  have "OPENSSL_malloc (Some (p, bs)) sz h = Inr (p + OPENSSL_MALLOC_PREFIX, ?h)"
    using len by (simp add: OPENSSL_malloc_def store_size_def)
  moreover have "heap_wf ?h" using wf len blk by (simp add: heap_wf_def)
  ultimately show thesis using that blk len by blast
qed

lemma OPENSSL_free_ok:
  assumes wf: "heap_wf h" and live: "user_bytes h p = Some bs"
  obtains h' where "OPENSSL_free p h = Inr h'" "heap_wf h'"
    "hp_released h' = replicate (OPENSSL_MALLOC_PREFIX + length bs) 0 # hp_released h"
    "hp_blocks h' = (hp_blocks h)(p - OPENSSL_MALLOC_PREFIX := None)"
proof -
  obtain blk where b: "hp_blocks h (p - OPENSSL_MALLOC_PREFIX) = Some blk" "p \<noteq> 0"
    "load_size blk = Inr (length bs)" "length blk = OPENSSL_MALLOC_PREFIX + length bs"
    "OPENSSL_MALLOC_PREFIX + length bs < size_mod"
    using user_bytesE [OF wf live] by metis
  let ?h = "\<lparr>hp_blocks = (hp_blocks h)(p - OPENSSL_MALLOC_PREFIX := None),
    hp_released = replicate (OPENSSL_MALLOC_PREFIX + length bs) 0 # hp_released h\<rparr>"
  have "OPENSSL_free p h = Inr ?h"
    using b by (simp add: OPENSSL_free_def OPENSSL_cleanse_def c_free_def add.commute)
  moreover have "heap_wf ?h" using wf by (simp add: heap_wf_def)
  ultimately show thesis using that by force
qed

lemmas user_bytesE8 = user_bytesE [unfolded OPENSSL_MALLOC_PREFIX_def]
lemmas OPENSSL_malloc_some8 = OPENSSL_malloc_some [unfolded OPENSSL_MALLOC_PREFIX_def]
lemmas OPENSSL_free_ok8 = OPENSSL_free_ok [unfolded OPENSSL_MALLOC_PREFIX_def]

text \<open>
  Freeing never hands a block back to the C library before its whole contents, the
  size word included, are zero: secrets do not survive in released memory.  The call never
  touches memory outside the block.
\<close>

theorem OPENSSL_free_cleanses:
  assumes "heap_wf h" "user_bytes h p = Some bs"
  shows "\<exists>h'. OPENSSL_free p h = Inr h' \<and> heap_wf h' \<and> user_bytes h' p = None \<and>
    hp_released h' = replicate (8 + length bs) 0 # hp_released h \<and>
    (\<forall>q. 8 \<le> q \<longrightarrow> q \<noteq> p \<longrightarrow> user_bytes h' q = user_bytes h q)"
proof -
  obtain h' where h': "OPENSSL_free p h = Inr h'" "heap_wf h'"
    "hp_released h' = replicate (OPENSSL_MALLOC_PREFIX + length bs) 0 # hp_released h"
    "hp_blocks h' = (hp_blocks h)(p - OPENSSL_MALLOC_PREFIX := None)"
    using OPENSSL_free_ok [OF assms] .
  moreover have "8 \<le> p" using user_bytesE [OF assms] by (metis OPENSSL_MALLOC_PREFIX_def)
  ultimately show ?thesis by (auto simp: user_bytes_def OPENSSL_MALLOC_PREFIX_def)
qed

lemma OPENSSL_free_cleanses_witness:
  "\<exists>h'. OPENSSL_free 108 \<lparr>hp_blocks = [100 \<mapsto> le_bytes 8 2 @ [7, 9]], hp_released = []\<rparr> = Inr h'
     \<and> hp_released h' = [replicate 10 0]"
proof -
  let ?h = "\<lparr>hp_blocks = [100 \<mapsto> le_bytes 8 2 @ [7, 9]], hp_released = []\<rparr> :: c_heap"
  have "heap_wf ?h"
    by (simp add: heap_wf_def block_wf_def OPENSSL_MALLOC_PREFIX_def le_value_le_bytes)
  moreover have "user_bytes ?h 108 = Some [7, 9]"
    by (simp add: user_bytes_def OPENSSL_MALLOC_PREFIX_def)
  ultimately show ?thesis
    using OPENSSL_free_cleanses [of ?h 108 "[7, 9]"] by auto
qed

lemma OPENSSL_realloc_spec:
  assumes wf: "heap_wf h" and live: "user_bytes h p = Some bs"
    and small: "n + 8 < size_mod" and ok: "malloc_ok h (n + 8) r"
  shows "case r of None \<Rightarrow> OPENSSL_realloc r p n h = Inr (0, h)
    | Some (q, _) \<Rightarrow> \<exists>h' bs'. OPENSSL_realloc r p n h = Inr (q + 8, h') \<and> heap_wf h' \<and>
        user_bytes h' (q + 8) = Some bs' \<and> length bs' = n \<and>
        take (min n (length bs)) bs' = take (min n (length bs)) bs \<and>
        user_bytes h' p = None \<and>
        hp_released h' = replicate (8 + length bs) 0 # hp_released h"
proof -
  note pre [simp] = OPENSSL_MALLOC_PREFIX_def
  obtain blk where b: "hp_blocks h (p - 8) = Some blk" "8 \<le> p" "p \<noteq> 0" "block_wf blk"
    "load_size blk = Inr (length bs)" "length blk = 8 + length bs" "drop 8 blk = bs"
    by (rule user_bytesE8 [OF wf live]) (rule that)
  show ?thesis
  proof (cases r)
    case None
    then show ?thesis
      by (simp add: OPENSSL_realloc_def OPENSSL_malloc_fails b(1-3) b(5) split del: if_split)
  next
    case (Some qc)
    obtain q c where r: "r = Some (q, c)" using Some by (cases qc) auto
    obtain new h1 where m: "OPENSSL_malloc r n h = Inr (q + 8, h1)"
      "h1 = h\<lparr>hp_blocks := (hp_blocks h)(q \<mapsto> new)\<rparr>" "heap_wf h1" "block_wf new"
      "length new = 8 + n" "hp_blocks h q = None" "0 < q"
    proof (rule OPENSSL_malloc_some8 [OF wf, of n q c])
      show "n + 8 < size_mod" "malloc_ok h (size_add n 8) (Some (q, c))" using small ok r by simp_all
    qed (rule that, simp_all add: r)
    have ne: "q \<noteq> p - 8" using m(6) b(1) by auto
    let ?k = "min n (length bs)"
    have k: "(if length bs < n then length bs else n) = ?k" by simp
    let ?new = "take 8 new @ take ?k bs @ drop (8 + ?k) new"
    let ?h2 = "h1\<lparr>hp_blocks := (hp_blocks h1)(q \<mapsto> ?new)\<rparr>"
    have copy: "copy_user (q + 8) p ?k h1 = Inr ?h2"
      using m(2,5) b(1,2) ne unfolding b(7) [symmetric] by (simp add: copy_user_def b(6))
    have new: "length ?new = 8 + n" "take 8 ?new = take 8 new" using m(5) by simp_all
    have "block_wf ?new" using m(4,5) new by (simp add: block_wf_def)
    then have wf2: "heap_wf ?h2" using m(3,7) by (simp add: heap_wf_def)
    have "user_bytes ?h2 p = Some bs" using m(2) b(1,2,7) ne by (simp add: user_bytes_def)
    then obtain h' where f: "OPENSSL_free p ?h2 = Inr h'" "heap_wf h'"
      "hp_released h' = replicate (8 + length bs) 0 # hp_released ?h2"
      "hp_blocks h' = (hp_blocks ?h2)(p - 8 := None)"
      by (rule OPENSSL_free_ok8 [OF wf2]) (rule that)
    have "OPENSSL_realloc r p n h = Inr (q + 8, h')"
      using copy f(1) k by (simp add: OPENSSL_realloc_def b(1,3,5) m(1,7) del: if_split)
    moreover have "user_bytes h' (q + 8) = Some (take ?k bs @ drop (8 + ?k) new)"
      using f(4) m(2,5) ne by (simp add: user_bytes_def)
    moreover have "user_bytes h' p = None" using f(4) by (simp add: user_bytes_def)
    ultimately show ?thesis using f(2,3) m(2,5) by (simp add: r)
  qed
qed

text \<open>
  C34: reallocation keeps the common prefix of the old and the new block, gives a block of
  the requested size, erases the old one, and leaves every other block alone; when
  \<open>malloc\<close> fails the old block survives untouched.
\<close>

theorem OPENSSL_realloc_preserves:
  assumes wf: "heap_wf h" and live: "user_bytes h p = Some bs"
    and small: "n + 8 < size_mod" and ok: "malloc_ok h (n + 8) r"
  shows "case r of None \<Rightarrow> OPENSSL_realloc r p n h = Inr (0, h)
    | Some (q, _) \<Rightarrow> \<exists>h' bs'. OPENSSL_realloc r p n h = Inr (q + 8, h') \<and> heap_wf h' \<and>
        user_bytes h' (q + 8) = Some bs' \<and> length bs' = n \<and>
        take (min n (length bs)) bs' = take (min n (length bs)) bs \<and>
        user_bytes h' p = None \<and>
        hp_released h' = replicate (8 + length bs) 0 # hp_released h"
  using OPENSSL_realloc_spec [OF assms] .

lemma OPENSSL_realloc_preserves_witness:
  "\<exists>h' bs'. OPENSSL_realloc (Some (200, replicate 11 1)) 108 3
       \<lparr>hp_blocks = [100 \<mapsto> le_bytes 8 2 @ [7, 9]], hp_released = []\<rparr> = Inr (208, h') \<and>
     user_bytes h' 208 = Some bs' \<and> take 2 bs' = [7, 9]"
proof -
  let ?h = "\<lparr>hp_blocks = [100 \<mapsto> le_bytes 8 2 @ [7, 9]], hp_released = []\<rparr> :: c_heap"
  have "heap_wf ?h"
    by (simp add: heap_wf_def block_wf_def OPENSSL_MALLOC_PREFIX_def le_value_le_bytes)
  moreover have "user_bytes ?h 108 = Some [7, 9]"
    by (simp add: user_bytes_def OPENSSL_MALLOC_PREFIX_def)
  ultimately show ?thesis
    using OPENSSL_realloc_preserves [of ?h 108 "[7, 9]" 3 "Some (200, replicate 11 1)"]
    by (auto simp: malloc_ok_def numeral_2_eq_2)
qed

text \<open>
  The prefix is added with \<open>size_t\<close> arithmetic: for the largest sizes it wraps, \<open>malloc\<close> is
  asked for fewer than eight bytes, and storing the size writes past the block.
\<close>

lemma OPENSSL_malloc_wraps:
  assumes "size_mod \<le> sz + 8" "sz < size_mod"
    and "malloc_ok h (size_add sz OPENSSL_MALLOC_PREFIX) (Some (p, bs))"
  shows "OPENSSL_malloc (Some (p, bs)) sz h = Inl Out_of_bounds"
proof -
  have "size_add sz 8 = sz + 8 - size_mod"
    using assms by (simp add: size_add_def mod_if)
  then have "length bs < 8" using assms by (simp add: malloc_ok_def OPENSSL_MALLOC_PREFIX_def)
  then show ?thesis
    by (simp add: OPENSSL_malloc_def store_size_def OPENSSL_MALLOC_PREFIX_def)
qed


section \<open>Comparison and hashing\<close>

lemma fold_or_eq_0:
  "fold (\<lambda>i x. x OR f i) is (x :: u8) = 0 \<longleftrightarrow> x = 0 \<and> (\<forall>i \<in> set is. f i = 0)"
proof (induction "is" arbitrary: x)
  case (Cons i "is")
  have "x OR f i = 0 \<longleftrightarrow> x = 0 \<and> f i = 0" by (fact or_eq_0_iff)
  with Cons show ?case by auto
qed simp

lemma xor_u8_eq_0_iff: "a XOR b = 0 \<longleftrightarrow> a = (b :: u8)"
proof
  assume "a XOR b = 0"
  then have "(a XOR b) XOR b = b" by simp
  then show "a = b" by (simp add: xor.assoc)
qed simp

text \<open>
  The constant-time comparison decides equality: it visits every byte and returns
  zero exactly when the two buffers agree on their first \<open>len\<close> bytes, and a byte value
  otherwise.
\<close>

theorem CRYPTO_memcmp_correct:
  assumes "len \<le> length a" "len \<le> length b"
  shows "(CRYPTO_memcmp a b len = 0 \<longleftrightarrow> take len a = take len b) \<and>
    0 \<le> CRYPTO_memcmp a b len \<and> CRYPTO_memcmp a b len < 256"
proof (intro conjI)
  have "CRYPTO_memcmp a b len = 0 \<longleftrightarrow> (\<forall>i < len. a ! i XOR b ! i = 0)"
    by (simp add: CRYPTO_memcmp_def uint_0_iff fold_or_eq_0 Ball_def)
  also have "\<dots> \<longleftrightarrow> (\<forall>i < len. a ! i = b ! i)"
    by (simp add: xor_u8_eq_0_iff)
  also have "\<dots> \<longleftrightarrow> take len a = take len b"
    using assms by (simp add: list_eq_iff_nth_eq)
  finally show "CRYPTO_memcmp a b len = 0 \<longleftrightarrow> take len a = take len b" .
  show "0 \<le> CRYPTO_memcmp a b len" "CRYPTO_memcmp a b len < 256"
    using unsigned_less [where ?'a = int and ?'b = 8] by (simp_all add: CRYPTO_memcmp_def)
qed

lemma CRYPTO_memcmp_correct_witness:
  "CRYPTO_memcmp [1, 2, 3] [1, 2, 4] 2 = 0"
  using CRYPTO_memcmp_correct [of 2 "[1, 2, 3]" "[1, 2, 4]"] by simp

lemma OPENSSL_hash32_cong:
  assumes "len \<le> length a" "len \<le> length b" "take len a = take len b"
  shows "OPENSSL_hash32 a len = OPENSSL_hash32 b len"
  using assms
  by (auto simp: OPENSSL_hash32_def list_eq_iff_nth_eq intro!: fold_cong)

section \<open>C strings\<close>

lemma c_strlen_Some_iff:
  "c_strlen s = Some n \<longleftrightarrow> n < length s \<and> s ! n = 0 \<and> (\<forall>i < n. s ! i \<noteq> 0)"
proof (induction s arbitrary: n)
  case (Cons c s)
  then show ?case by (cases n) (auto simp: nth_Cons' less_Suc_eq_0_disj)
qed simp

lemma c_strlen_total: "0 \<in> set s \<Longrightarrow> \<exists>n. c_strlen s = Some n"
  by (induction s) auto

lemma OPENSSL_strnlen_correct:
  assumes "c_strlen s = Some k"
  shows "OPENSSL_strnlen s n = Some (min n k)"
  using assms by (induction s n arbitrary: k rule: OPENSSL_strnlen.induct) (auto split: if_splits)

lemma OPENSSL_strnlen_unterminated:
  "0 \<notin> set (take n s) \<Longrightarrow> n \<le> length s \<Longrightarrow> OPENSSL_strnlen s n = Some n"
  by (induction s n rule: OPENSSL_strnlen.induct) auto

lemma OPENSSL_tolower_0 [simp]: "OPENSSL_tolower c = 0 \<longleftrightarrow> c = 0"
  by (auto simp: OPENSSL_tolower_def)

lemma OPENSSL_tolower_idem: "OPENSSL_tolower (OPENSSL_tolower c) = OPENSSL_tolower c"
  by (auto simp: OPENSSL_tolower_def)

definition folded :: "u8 list \<Rightarrow> int list" where
  "folded s = map (\<lambda>c. OPENSSL_tolower (sint c)) (takeWhile (\<lambda>c. c \<noteq> 0) s)"

lemma sint_u8_0_iff [simp]: "sint (c :: u8) = 0 \<longleftrightarrow> c = 0"
  by (metis signed_0 signed_word_eqI)

text \<open>
  \<open>OPENSSL_strcasecmp\<close> reads no byte beyond the terminators of its arguments, always
  returns, answers 0 exactly for strings that agree up to ASCII case, and swapping the
  arguments negates the answer.
\<close>

theorem OPENSSL_strcasecmp_correct:
  assumes "0 \<in> set a" "0 \<in> set b"
  shows "\<exists>r. OPENSSL_strcasecmp a b = Some r \<and> OPENSSL_strcasecmp b a = Some (- r) \<and>
    (r = 0 \<longleftrightarrow> folded a = folded b)"
  using assms
proof (induction a b rule: OPENSSL_strcasecmp.induct)
  case (1 a as b bs)
  let ?a = "OPENSSL_tolower (sint a)" and ?b = "OPENSSL_tolower (sint b)"
  show ?case
  proof (cases "?a = ?b \<and> ?a \<noteq> 0")
    case True
    then have "a \<noteq> 0" "b \<noteq> 0" by (metis OPENSSL_tolower_0 sint_u8_0_iff)+
    with True 1 show ?thesis by (auto simp: folded_def)
  next
    case False
    then consider "?a < ?b" | "?b < ?a" | "?a = ?b" "a = 0" "b = 0"
      by (metis OPENSSL_tolower_0 linorder_neqE_linordered_idom sint_u8_0_iff)
    then show ?thesis by cases (auto simp: folded_def)
  qed
qed auto

lemma OPENSSL_strcasecmp_correct_witness:
  "OPENSSL_strcasecmp [72, 105, 0, 9] [104, 73, 0] = Some 0"
  using OPENSSL_strcasecmp_correct [of "[72, 105, 0, 9]" "[104, 73, 0]"]
  by (auto simp: folded_def OPENSSL_tolower_def)

lemma OPENSSL_strncasecmp_prefix:
  "OPENSSL_strcasecmp a b = Some r \<Longrightarrow> length a \<le> n \<Longrightarrow> OPENSSL_strncasecmp a b n = Some r"
proof (induction a b arbitrary: n rule: OPENSSL_strcasecmp.induct)
  case (1 a as b bs)
  note IH = "1.IH" [OF refl refl]
  from "1.prems" IH show ?case by (cases n) (auto simp: Let_def split: if_splits)
qed auto

end
