(* ===== verification/Pb_Fields.thy ===== *)
theory Pb_Fields
  imports Pb_Varint Mem
begin

text \<open>
  Field descriptors and the field iterator of nanopb (\<open>pb.h\<close>, \<open>pb_common.c\<close>).

  A message structure is a range of byte memory; pointers into it are addresses.  An array of
  descriptors is the list of its entries up to the \<open>PB_LAST_FIELD\<close> terminator, which is what is
  read at the index behind the last entry.  The pointer member of a descriptor is NULL, points
  to a default value or to the descriptors of a submessage; a message cannot contain itself
  (its structure would), so descriptors are trees.
\<close>

datatype pb_field = Pb_field
    (pf_tag: u32) (pf_type: u8) (pf_data_offset: u32) (pf_size_offset: u32)
    (pf_data_size: u32) (pf_array_size: u32) (pf_ptr: pb_ptr)
  and pb_ptr = Null_ptr | Default_value "u8 list" | Submsg_fields "pb_field list"

abbreviation PB_LTYPE_VARINT :: u8 where "PB_LTYPE_VARINT \<equiv> 0x00"
abbreviation PB_LTYPE_UVARINT :: u8 where "PB_LTYPE_UVARINT \<equiv> 0x01"
abbreviation PB_LTYPE_SVARINT :: u8 where "PB_LTYPE_SVARINT \<equiv> 0x02"
abbreviation PB_LTYPE_FIXED32 :: u8 where "PB_LTYPE_FIXED32 \<equiv> 0x03"
abbreviation PB_LTYPE_FIXED64 :: u8 where "PB_LTYPE_FIXED64 \<equiv> 0x04"
abbreviation PB_LTYPE_LAST_PACKABLE :: u8 where "PB_LTYPE_LAST_PACKABLE \<equiv> 0x04"
abbreviation PB_LTYPE_BYTES :: u8 where "PB_LTYPE_BYTES \<equiv> 0x05"
abbreviation PB_LTYPE_STRING :: u8 where "PB_LTYPE_STRING \<equiv> 0x06"
abbreviation PB_LTYPE_SUBMESSAGE :: u8 where "PB_LTYPE_SUBMESSAGE \<equiv> 0x07"
abbreviation PB_LTYPE_EXTENSION :: u8 where "PB_LTYPE_EXTENSION \<equiv> 0x08"
abbreviation PB_LTYPE_FIXED_LENGTH_BYTES :: u8 where "PB_LTYPE_FIXED_LENGTH_BYTES \<equiv> 0x09"

abbreviation PB_HTYPE_REQUIRED :: u8 where "PB_HTYPE_REQUIRED \<equiv> 0x00"
abbreviation PB_HTYPE_OPTIONAL :: u8 where "PB_HTYPE_OPTIONAL \<equiv> 0x10"
abbreviation PB_HTYPE_REPEATED :: u8 where "PB_HTYPE_REPEATED \<equiv> 0x20"
abbreviation PB_HTYPE_ONEOF :: u8 where "PB_HTYPE_ONEOF \<equiv> 0x30"

abbreviation PB_ATYPE_STATIC :: u8 where "PB_ATYPE_STATIC \<equiv> 0x00"
abbreviation PB_ATYPE_POINTER :: u8 where "PB_ATYPE_POINTER \<equiv> 0x80"
abbreviation PB_ATYPE_CALLBACK :: u8 where "PB_ATYPE_CALLBACK \<equiv> 0x40"

definition PB_ATYPE :: "u8 \<Rightarrow> u8" where "PB_ATYPE x = x AND 0xC0"
definition PB_HTYPE :: "u8 \<Rightarrow> u8" where "PB_HTYPE x = x AND 0x30"
definition PB_LTYPE :: "u8 \<Rightarrow> u8" where "PB_LTYPE x = x AND 0x0F"

abbreviation PB_SIZE_MAX :: u32 where "PB_SIZE_MAX \<equiv> - 1"

definition PB_LAST_FIELD :: pb_field where
  "PB_LAST_FIELD = Pb_field 0 0 0 0 0 0 Null_ptr"

definition field_at :: "pb_field list \<Rightarrow> nat \<Rightarrow> pb_field" where
  "field_at fs i = (if i < length fs then fs ! i else PB_LAST_FIELD)"

text \<open>A \<open>pb_ssize_t\<close> offset is its two's complement.\<close>

definition addr_add :: "nat \<Rightarrow> u32 \<Rightarrow> nat" where
  "addr_add p off = nat (int p + sint off)"

section \<open>The iterator\<close>

record pb_field_iter =
  it_start :: "pb_field list"
  it_pos :: nat
  it_required_field_index :: nat
  it_dest_struct :: nat
  it_pData :: nat
  it_pSize :: nat

definition iter_field :: "pb_field_iter \<Rightarrow> pb_field" where
  "iter_field iter = field_at (it_start iter) (it_pos iter)"

definition pb_field_iter_begin :: "pb_field list \<Rightarrow> nat \<Rightarrow> bool \<times> pb_field_iter" where
  "pb_field_iter_begin fs dest_struct =
    (let pos = field_at fs 0; pData = dest_struct + unat (pf_data_offset pos) in
     (pf_tag pos \<noteq> 0,
      \<lparr>it_start = fs, it_pos = 0, it_required_field_index = 0, it_dest_struct = dest_struct,
       it_pData = pData, it_pSize = addr_add pData (pf_size_offset pos)\<rparr>))"

definition pb_field_iter_next :: "pb_field_iter \<Rightarrow> bool \<times> pb_field_iter" where
  "pb_field_iter_next iter =
    (let prev_field = iter_field iter in
     if pf_tag prev_field = 0 then (False, iter)
     else
       let iter1 = iter\<lparr>it_pos := it_pos iter + 1\<rparr>; pos = iter_field iter1 in
       if pf_tag pos = 0 then (False, snd (pb_field_iter_begin (it_start iter) (it_dest_struct iter)))
       else if PB_HTYPE (pf_type prev_field) = PB_HTYPE_ONEOF \<and> PB_HTYPE (pf_type pos) = PB_HTYPE_ONEOF
         \<and> pf_data_offset pos = PB_SIZE_MAX
       then (True, iter1)
       else
         let prev_size = unat (pf_data_size prev_field);
             prev_size =
               (if PB_ATYPE (pf_type prev_field) = PB_ATYPE_STATIC \<and> PB_HTYPE (pf_type prev_field) = PB_HTYPE_REPEATED
                then size_mul prev_size (unat (pf_array_size prev_field))
                else if PB_ATYPE (pf_type prev_field) = PB_ATYPE_POINTER then 8
                else prev_size);
             required = (if PB_HTYPE (pf_type prev_field) = PB_HTYPE_REQUIRED
               then (it_required_field_index iter + 1) mod 2 ^ 32 else it_required_field_index iter);
             pData = it_pData iter + prev_size + unat (pf_data_offset pos) in
         (True, iter1\<lparr>it_required_field_index := required, it_pData := pData,
                      it_pSize := addr_add pData (pf_size_offset pos)\<rparr>))"

text \<open>The loop of \<open>pb_field_iter_find\<close>; \<open>None\<close> if it does not end.\<close>

partial_function (option) find_loop ::
  "nat \<Rightarrow> (pb_field \<Rightarrow> bool) \<Rightarrow> pb_field_iter \<Rightarrow> (bool \<times> pb_field_iter) option" where
  "find_loop start found iter =
    (if found (iter_field iter) then Some (True, iter)
     else
       let iter' = snd (pb_field_iter_next iter) in
       if it_pos iter' = start then Some (False, iter') else find_loop start found iter')"

definition pb_field_iter_find :: "pb_field_iter \<Rightarrow> u32 \<Rightarrow> (bool \<times> pb_field_iter) option" where
  "pb_field_iter_find iter tag =
    find_loop (it_pos iter) (\<lambda>pos. pf_tag pos = tag \<and> PB_LTYPE (pf_type pos) \<noteq> PB_LTYPE_EXTENSION) iter"

section \<open>Where the iterator points\<close>

text \<open>Generated descriptors have tags other than 0.\<close>

definition tags_ok :: "pb_field list \<Rightarrow> bool" where
  "tags_ok fs \<longleftrightarrow> (\<forall>f \<in> set fs. pf_tag f \<noteq> 0)"

text \<open>The iterator at field \<open>i\<close>: what stepping from the first field on arrives at.\<close>

primrec iter_at :: "pb_field list \<Rightarrow> nat \<Rightarrow> nat \<Rightarrow> pb_field_iter" where
  "iter_at fs dest 0 = snd (pb_field_iter_begin fs dest)"
| "iter_at fs dest (Suc i) = snd (pb_field_iter_next (iter_at fs dest i))"

lemma iter_next_keeps:
  "it_start (snd (pb_field_iter_next it)) = it_start it"
  "it_dest_struct (snd (pb_field_iter_next it)) = it_dest_struct it"
  by (simp_all add: pb_field_iter_next_def pb_field_iter_begin_def Let_def)

lemma iter_at_start [simp]: "it_start (iter_at fs dest i) = fs"
  "it_dest_struct (iter_at fs dest i) = dest"
  by (induction i) (simp_all add: pb_field_iter_begin_def iter_next_keeps Let_def)

lemma field_at_tag:
  "tags_ok fs \<Longrightarrow> pf_tag (field_at fs i) = 0 \<longleftrightarrow> length fs \<le> i"
  by (auto simp: tags_ok_def field_at_def PB_LAST_FIELD_def)

lemma iter_at_pos: "tags_ok fs \<Longrightarrow> i < length fs \<Longrightarrow> it_pos (iter_at fs dest i) = i"
proof (induction i)
  case (Suc i)
  then have "it_pos (iter_at fs dest i) = i" by simp
  then show ?case
    using Suc.prems by (simp add: pb_field_iter_next_def iter_field_def field_at_tag Let_def)
qed (simp add: pb_field_iter_begin_def Let_def)

lemma iter_field_at:
  "tags_ok fs \<Longrightarrow> i < length fs \<Longrightarrow> iter_field (iter_at fs dest i) = fs ! i"
  by (simp add: iter_field_def iter_at_pos field_at_def)

lemma iter_next_at:
  assumes "tags_ok fs" "i < length fs"
  shows "pb_field_iter_next (iter_at fs dest i) =
    (Suc i < length fs, iter_at fs dest (Suc i mod length fs))"
proof -
  have p: "it_pos (iter_at fs dest i) = i" by (rule iter_at_pos [OF assms])
  show ?thesis
  proof (cases "Suc i < length fs")
    case True
    then have "fst (pb_field_iter_next (iter_at fs dest i))"
      using assms p by (simp add: pb_field_iter_next_def iter_field_def field_at_tag Let_def)
    then show ?thesis using True by (simp add: prod_eq_iff)
  next
    case False
    then have "Suc i = length fs" using assms(2) by simp
    then show ?thesis
      using assms p by (simp add: pb_field_iter_next_def iter_field_def field_at_tag Let_def)
  qed
qed

text \<open>The search goes once around from \<open>i\<close>.\<close>

lemma find_loop_from:
  assumes ok: "tags_ok fs" and i: "i < length fs" and k: "k < length fs"
    and no: "\<And>j. j < k \<Longrightarrow> \<not> P (fs ! ((i + j) mod length fs))"
  shows "find_loop i P (iter_at fs dest ((i + k) mod length fs)) =
    (if \<exists>j \<ge> k. j < length fs \<and> P (fs ! ((i + j) mod length fs))
     then Some (True, iter_at fs dest
       ((i + (LEAST j. P (fs ! ((i + j) mod length fs)))) mod length fs))
     else Some (False, iter_at fs dest i))"
  using k no
proof (induction "length fs - k" arbitrary: k rule: less_induct)
  case less
  let ?n = "length fs" and ?Q = "\<lambda>j. P (fs ! ((i + j) mod length fs))"
  have m: "(i + j) mod ?n < ?n" for j using i by (intro mod_less_divisor) auto
  note f = iter_field_at [OF ok m, of dest]
  show ?case
  proof (cases "?Q k")
    case True
    have "(LEAST j. ?Q j) = k" using True less.prems(2) by (metis (no_types, lifting) LeastI Least_le linorder_neqE_nat not_less_Least)
    then show ?thesis
      using True less.prems(1) by (subst find_loop.simps) (auto simp: f)
  next
    case False
    have nxt: "snd (pb_field_iter_next (iter_at fs dest ((i + k) mod ?n))) = iter_at fs dest (Suc (i + k) mod ?n)"
      using iter_next_at [OF ok m, of dest] by (simp add: mod_Suc_eq)
    have pos: "it_pos (iter_at fs dest (Suc (i + k) mod ?n)) = Suc (i + k) mod ?n"
      using m [of "Suc k"] by (intro iter_at_pos [OF ok]) simp
    show ?thesis
    proof (cases "Suc k < ?n")
      case True
      have "Suc (i + k) mod ?n \<noteq> i" using i True by (cases "Suc (i + k) < ?n") (auto simp: mod_if)
      then have "find_loop i P (iter_at fs dest ((i + k) mod ?n)) = find_loop i P (iter_at fs dest (Suc (i + k) mod ?n))"
        using False by (subst find_loop.simps) (simp add: f nxt pos Let_def)
      also have "\<dots> = (if \<exists>j \<ge> Suc k. j < ?n \<and> ?Q j then Some (True, iter_at fs dest ((i + (LEAST j. ?Q j)) mod ?n))
          else Some (False, iter_at fs dest i))"
      proof -
        have "\<not> ?Q j" if "j < Suc k" for j using that less.prems(2) False by (cases "j = k") auto
        then show ?thesis using less.hyps [of "Suc k"] True by (simp del: if_split)
      qed
      also have "(\<exists>j \<ge> Suc k. j < ?n \<and> ?Q j) \<longleftrightarrow> (\<exists>j \<ge> k. j < ?n \<and> ?Q j)"
        using False by (metis Suc_leD le_eq_less_or_eq less_eq_Suc_le)
      finally show ?thesis .
    next
      case last: False
      then have "Suc k = ?n" using less.prems(1) by simp
      then have "Suc (i + k) = i + ?n" by simp
      then have w: "Suc (i + k) mod ?n = i" using i by (simp only: mod_add_self2 mod_less)
      have "\<not> (\<exists>j \<ge> k. j < ?n \<and> ?Q j)" 
      proof
        assume "\<exists>j \<ge> k. j < ?n \<and> ?Q j"
        then obtain j where j: "k \<le> j" "j < ?n" "?Q j" by blast
        then have "j = k" using last by linarith
        with j(3) False show False by simp
      qed
      then show ?thesis
        using False pos by (subst find_loop.simps) (simp add: f nxt w Let_def)
    qed
  qed
qed


section \<open>Loops over the fields\<close>

text \<open>
  A loop \<open>do body while (pb_field_iter_next(&iter))\<close>.  The body returns from the function with
  \<open>Inl\<close> or goes on with the state \<open>Inr\<close>; the loop that runs to its end leaves the iterator at
  the beginning again.
\<close>

lemma iter_next_True:
  "pb_field_iter_next it = (True, it') \<Longrightarrow> it_start it' = it_start it \<and> it_pos it < it_pos it' \<and> it_pos it' < length (it_start it)"
  by (auto simp: pb_field_iter_next_def iter_field_def field_at_def PB_LAST_FIELD_def Let_def split: if_splits)

function iter_loop ::
  "(pb_field_iter \<Rightarrow> 'a \<Rightarrow> ('r + 'a) option) \<Rightarrow> pb_field_iter \<Rightarrow> 'a \<Rightarrow> ('r + (pb_field_iter \<times> 'a)) option" where
  "iter_loop body it a = (case body it a of
     None \<Rightarrow> None
   | Some (Inl r) \<Rightarrow> Some (Inl r)
   | Some (Inr a') \<Rightarrow>
       (case pb_field_iter_next it of
          (False, it') \<Rightarrow> Some (Inr (it', a'))
        | (True, it') \<Rightarrow> iter_loop body it' a'))"
  by pat_completeness auto
termination
  by (relation "measure (\<lambda>(_, it, _). length (it_start it) - it_pos it)") (auto dest!: iter_next_True [OF sym])

declare iter_loop.simps [simp del]

text \<open>On a message with fields, the loop visits them from first to last.\<close>

lemma iter_loop_at:
  assumes ok: "tags_ok fs" and i: "i < length fs"
    and step: "\<And>j a. i \<le> j \<Longrightarrow> j < length fs \<Longrightarrow> body (iter_at fs dest j) a = g j a"
  shows "iter_loop body (iter_at fs dest i) a =
    (case fold (\<lambda>j r. case r of Some (Inr a) \<Rightarrow> g j a | _ \<Rightarrow> r) [i..<length fs] (Some (Inr a)) of
       None \<Rightarrow> None | Some (Inl r) \<Rightarrow> Some (Inl r) | Some (Inr a') \<Rightarrow> Some (Inr (iter_at fs dest 0, a')))"
  using i step
proof (induction "length fs - i" arbitrary: i a)
  case (Suc k)
  have stop: "fold (\<lambda>j r. case r of Some (Inr a) \<Rightarrow> g j a | _ \<Rightarrow> r) xs r = r" if "\<forall>a. r \<noteq> Some (Inr a)" for xs r
    using that by (induction xs) (auto split: option.splits sum.splits)
  have b: "body (iter_at fs dest i) a = g i a" using Suc.prems by simp
  have u: "[i..<length fs] = i # [Suc i..<length fs]" using Suc.prems(1) by (simp add: upt_rec)
  show ?case
  proof (cases "g i a")
    case None
    then show ?thesis using stop [of None] unfolding u iter_loop.simps [of body "iter_at fs dest i"] b by simp
  next
    case (Some x)
    show ?thesis
    proof (cases x)
      case (Inl r)
      then show ?thesis using Some stop [of "Some (Inl r)"]
          unfolding u iter_loop.simps [of body "iter_at fs dest i"] b by simp
    next
      case (Inr a')
      show ?thesis
      proof (cases "Suc i < length fs")
        case True
        then have "iter_loop body (iter_at fs dest (Suc i)) a' =
          (case fold (\<lambda>j r. case r of Some (Inr a) \<Rightarrow> g j a | _ \<Rightarrow> r) [Suc i..<length fs] (Some (Inr a')) of
             None \<Rightarrow> None | Some (Inl r) \<Rightarrow> Some (Inl r) | Some (Inr a') \<Rightarrow> Some (Inr (iter_at fs dest 0, a')))"
          using Suc by (intro Suc.hyps(1)) auto
        then show ?thesis
          using Some Inr True iter_next_at [OF ok Suc.prems(1), of dest]
          unfolding u iter_loop.simps [of body "iter_at fs dest i"] b by (simp del: iter_at.simps)
      next
        case False
        then have e: "[Suc i..<length fs] = []" "Suc i mod length fs = 0" using Suc.prems(1)
          by (simp, metis Suc_lessI mod_self)
        then have "pb_field_iter_next (iter_at fs dest i) = (False, iter_at fs dest 0)"
          using iter_next_at [OF ok Suc.prems(1), of dest] False by (simp del: iter_at.simps)
        then show ?thesis
          using Some Inr unfolding u e(1) iter_loop.simps [of body "iter_at fs dest i"] b
          by (simp del: iter_at.simps)
      qed
    qed
  qed
qed simp

text \<open>The \<open>j\<close>-th field from \<open>i\<close> on, cyclically, is one to decode \<open>tag\<close> into.\<close>

definition tag_hit :: "pb_field list \<Rightarrow> u32 \<Rightarrow> nat \<Rightarrow> nat \<Rightarrow> bool" where
  "tag_hit fs tag i j \<longleftrightarrow> pf_tag (fs ! ((i + j) mod length fs)) = tag \<and>
     PB_LTYPE (pf_type (fs ! ((i + j) mod length fs))) \<noteq> PB_LTYPE_EXTENSION"

lemma pb_field_iter_find_spec:
  assumes "tags_ok fs" "i < length fs"
  shows "pb_field_iter_find (iter_at fs dest i) tag =
    (if \<exists>j < length fs. tag_hit fs tag i j
     then Some (True, iter_at fs dest ((i + (LEAST j. tag_hit fs tag i j)) mod length fs))
     else Some (False, iter_at fs dest i))"
proof -
  have "0 < length fs" using assms(2) by (cases fs) auto
  from find_loop_from [OF assms(1,2) this, of "\<lambda>pos. pf_tag pos = tag \<and> PB_LTYPE (pf_type pos) \<noteq> PB_LTYPE_EXTENSION" dest]
  show ?thesis
    using assms(2) unfolding pb_field_iter_find_def iter_at_pos [OF assms(1,2)] tag_hit_def by (auto split: if_splits)
qed

text \<open>
  C37: from any field of a message, \<open>pb_field_iter_find\<close> returns after at most one turn.  It
  finds the first field with the tag in cyclic order that is not an extension, with the data
  and size pointers that stepping from the start of the message gives, or reports that there
  is none and leaves the iterator where it was.
\<close>

theorem pb_field_iter_find_correct:
  assumes "tags_ok fs" "i < length fs"
  shows "pb_field_iter_find (iter_at fs dest i) tag =
    (if \<exists>j < length fs. tag_hit fs tag i j
     then Some (True, iter_at fs dest ((i + (LEAST j. tag_hit fs tag i j)) mod length fs))
     else Some (False, iter_at fs dest i))"
  by (rule pb_field_iter_find_spec [OF assms])

text \<open>Two required 4-byte fields with tags 1 and 2.\<close>

definition sample_fields :: "pb_field list" where
  "sample_fields = [Pb_field 1 (PB_HTYPE_REQUIRED OR PB_LTYPE_FIXED32) 0 0 4 0 Null_ptr,
     Pb_field 2 (PB_HTYPE_REQUIRED OR PB_LTYPE_FIXED32) 0 0 4 0 Null_ptr]"

lemma pb_field_iter_find_correct_witness:
  "\<exists>it. pb_field_iter_find (iter_at sample_fields 100 1) 1 = Some (True, it) \<and> it_pos it = 0 \<and> it_pData it = 100"
proof -
  have ok: "tags_ok sample_fields" "1 < length sample_fields" by (simp_all add: tags_ok_def sample_fields_def)
  let ?hit = "tag_hit sample_fields 1 1"
  have h: "?hit 1" "\<not> ?hit 0" by (simp_all add: tag_hit_def sample_fields_def PB_LTYPE_def)
  then have "(LEAST j. ?hit j) = 1"
    by (intro Least_equality) (auto simp: Suc_le_eq intro: gr0I)
  moreover have "\<exists>j < length sample_fields. ?hit j" using h(1) ok(2) by blast
  ultimately have "pb_field_iter_find (iter_at sample_fields 100 1) 1 =
      Some (True, iter_at sample_fields 100 ((1 + 1) mod length sample_fields))"
    using pb_field_iter_find_correct [OF ok, of 100 1] by simp
  then show ?thesis by (simp add: sample_fields_def pb_field_iter_begin_def field_at_def Let_def)
qed

end
