(* ===== verification/Pb_Encode.thy ===== *)
theory Pb_Encode
  imports Pb_Fields "HOL-Library.Monad_Syntax"
begin

text \<open>
  Encoding messages (\<open>pb_encode.c\<close>).  The message is read from a memory of its own (nothing
  the encoder writes can change it); a stream's output goes to the stream's memory.  User code
  that the library calls through pointers is a parameter: encode callbacks and extension
  handlers by the address of the function, extension descriptors by theirs.  A result \<open>None\<close>
  is undefined behaviour, or that the nesting is deeper than the fuel, a bound on the nesting
  of messages.
\<close>

record 'st encode_env =
  ee_mem :: "nat \<Rightarrow> u8"
  ee_callback :: "nat \<Rightarrow> 'st pb_ostream \<Rightarrow> pb_field \<Rightarrow> nat \<Rightarrow> bool \<times> 'st pb_ostream"
  ee_ext_encode :: "nat \<Rightarrow> 'st pb_ostream \<Rightarrow> nat \<Rightarrow> bool \<times> 'st pb_ostream"
  ee_ext_field :: "nat \<Rightarrow> pb_field"

type_synonym 'st enc_result = "(bool \<times> 'st pb_ostream) option"

definition load_le :: "(nat \<Rightarrow> u8) \<Rightarrow> nat \<Rightarrow> nat \<Rightarrow> nat" where
  "load_le mem p n = le_value (mem_bytes mem p n)"

definition os_error :: "string \<Rightarrow> 'st pb_ostream \<Rightarrow> 'st enc_result" where
  "os_error msg s = Some (False, os_set_error msg s)"

text \<open>Run the next step if the last one returned true.\<close>

definition and_then :: "'st enc_result \<Rightarrow> ('st pb_ostream \<Rightarrow> 'st enc_result) \<Rightarrow> 'st enc_result" where
  "and_then r f = (case r of None \<Rightarrow> None | Some (False, s) \<Rightarrow> Some (False, s) | Some (True, s) \<Rightarrow> f s)"

section \<open>Field encoders\<close>

text \<open>The loads that widen a signed or unsigned member of \<open>data_size\<close> bytes to 64 bits.\<close>

definition load_signed :: "(nat \<Rightarrow> u8) \<Rightarrow> nat \<Rightarrow> u32 \<Rightarrow> u64 option" where
  "load_signed mem src data_size =
    (if data_size = 1 then Some (scast (of_nat (load_le mem src 1) :: u8))
     else if data_size = 2 then Some (scast (of_nat (load_le mem src 2) :: u16))
     else if data_size = 4 then Some (scast (of_nat (load_le mem src 4) :: u32))
     else if data_size = 8 then Some (of_nat (load_le mem src 8))
     else None)"

definition load_unsigned :: "(nat \<Rightarrow> u8) \<Rightarrow> nat \<Rightarrow> u32 \<Rightarrow> u64 option" where
  "load_unsigned mem src data_size =
    (if data_size \<in> {1, 2, 4, 8} then Some (of_nat (load_le mem src (unat data_size))) else None)"

definition pb_enc_varint :: "'st encode_env \<Rightarrow> pb_field \<Rightarrow> nat \<Rightarrow> 'st pb_ostream \<Rightarrow> 'st enc_result" where
  "pb_enc_varint E field src s = (case load_signed (ee_mem E) src (pf_data_size field) of
     None \<Rightarrow> os_error ''invalid data_size'' s | Some v \<Rightarrow> Some (pb_encode_varint s v))"

definition pb_enc_uvarint :: "'st encode_env \<Rightarrow> pb_field \<Rightarrow> nat \<Rightarrow> 'st pb_ostream \<Rightarrow> 'st enc_result" where
  "pb_enc_uvarint E field src s = (case load_unsigned (ee_mem E) src (pf_data_size field) of
     None \<Rightarrow> os_error ''invalid data_size'' s | Some v \<Rightarrow> Some (pb_encode_varint s v))"

definition pb_enc_svarint :: "'st encode_env \<Rightarrow> pb_field \<Rightarrow> nat \<Rightarrow> 'st pb_ostream \<Rightarrow> 'st enc_result" where
  "pb_enc_svarint E field src s = (case load_signed (ee_mem E) src (pf_data_size field) of
     None \<Rightarrow> os_error ''invalid data_size'' s | Some v \<Rightarrow> Some (pb_encode_svarint s v))"

definition pb_enc_fixed64 :: "'st encode_env \<Rightarrow> pb_field \<Rightarrow> nat \<Rightarrow> 'st pb_ostream \<Rightarrow> 'st enc_result" where
  "pb_enc_fixed64 E field src s = Some (pb_encode_fixed64 s (of_nat (load_le (ee_mem E) src 8)))"

definition pb_enc_fixed32 :: "'st encode_env \<Rightarrow> pb_field \<Rightarrow> nat \<Rightarrow> 'st pb_ostream \<Rightarrow> 'st enc_result" where
  "pb_enc_fixed32 E field src s = Some (pb_encode_fixed32 s (of_nat (load_le (ee_mem E) src 4)))"

definition PB_BYTES_ARRAY_T_ALLOCSIZE :: "size_t \<Rightarrow> size_t" where
  "PB_BYTES_ARRAY_T_ALLOCSIZE n = size_add n 4"

definition pb_enc_bytes :: "'st encode_env \<Rightarrow> pb_field \<Rightarrow> nat \<Rightarrow> 'st pb_ostream \<Rightarrow> 'st enc_result" where
  "pb_enc_bytes E field src s =
    (if src = 0 then Some (pb_encode_string s [] 0)
     else
       let size = load_le (ee_mem E) src 4 in
       if PB_ATYPE (pf_type field) = PB_ATYPE_STATIC \<and> unat (pf_data_size field) < PB_BYTES_ARRAY_T_ALLOCSIZE size
       then os_error ''bytes size exceeded'' s
       else Some (pb_encode_string s (mem_bytes (ee_mem E) (src + 4) size) size))"

text \<open>The loop of \<open>pb_enc_string\<close>: the length of the string at \<open>p\<close>, at most \<open>max\<close>.\<close>

fun strnlen_mem :: "(nat \<Rightarrow> u8) \<Rightarrow> nat \<Rightarrow> nat \<Rightarrow> nat" where
  "strnlen_mem mem p 0 = 0"
| "strnlen_mem mem p (Suc n) = (if mem p = 0 then 0 else Suc (strnlen_mem mem (Suc p) n))"

definition pb_enc_string :: "'st encode_env \<Rightarrow> pb_field \<Rightarrow> nat \<Rightarrow> 'st pb_ostream \<Rightarrow> 'st enc_result" where
  "pb_enc_string E field src s =
    (let max_size = (if PB_ATYPE (pf_type field) = PB_ATYPE_POINTER then size_mod - 1 else unat (pf_data_size field));
         size = (if src = 0 then 0 else strnlen_mem (ee_mem E) src max_size) in
     Some (pb_encode_string s (mem_bytes (ee_mem E) src size) size))"

definition pb_enc_fixed_length_bytes :: "'st encode_env \<Rightarrow> pb_field \<Rightarrow> nat \<Rightarrow> 'st pb_ostream \<Rightarrow> 'st enc_result" where
  "pb_enc_fixed_length_bytes E field src s =
    (let n = unat (pf_data_size field) in Some (pb_encode_string s (mem_bytes (ee_mem E) src n) n))"

definition pb_encode_tag_for_field :: "pb_field \<Rightarrow> 'st pb_ostream \<Rightarrow> 'st enc_result" where
  "pb_encode_tag_for_field field s =
    (let l = PB_LTYPE (pf_type field) in
     if l \<in> {PB_LTYPE_VARINT, PB_LTYPE_UVARINT, PB_LTYPE_SVARINT} then Some (pb_encode_tag s PB_WT_VARINT (pf_tag field))
     else if l = PB_LTYPE_FIXED32 then Some (pb_encode_tag s PB_WT_32BIT (pf_tag field))
     else if l = PB_LTYPE_FIXED64 then Some (pb_encode_tag s PB_WT_64BIT (pf_tag field))
     else if l \<in> {PB_LTYPE_BYTES, PB_LTYPE_STRING, PB_LTYPE_SUBMESSAGE, PB_LTYPE_FIXED_LENGTH_BYTES}
     then Some (pb_encode_tag s PB_WT_STRING (pf_tag field))
     else os_error ''invalid field type'' s)"

text \<open>
  In the following \<open>enc\<close> is \<open>pb_encode\<close> for the messages one level down.  The effects of user
  callbacks on the user's state during the sizing pass stay.
\<close>

type_synonym 'st enc_fun = "pb_field list \<Rightarrow> nat \<Rightarrow> 'st pb_ostream \<Rightarrow> 'st enc_result"

definition pb_encode_submessage :: "'st enc_fun \<Rightarrow> pb_field list \<Rightarrow> nat \<Rightarrow> 'st pb_ostream \<Rightarrow> 'st enc_result" where
  "pb_encode_submessage enc fs src s = Option.bind (enc fs src (PB_OSTREAM_SIZING (os_ustate s))) (\<lambda>(ok, sub).
     let s = s\<lparr>os_ustate := os_ustate sub\<rparr>; size = os_bytes_written sub in
     if \<not> ok then Some (False, s\<lparr>os_errmsg := os_errmsg sub\<rparr>)
     else
       and_then (Some (pb_encode_varint s (of_nat size))) (\<lambda>s1.
         if (case os_callback s1 of Null_callback \<Rightarrow> True | _ \<Rightarrow> False) then Some (pb_write s1 [] size)
         else if os_max_size s1 < size_add (os_bytes_written s1) size then os_error ''stream full'' s1
         else
           let sub1 = sub\<lparr>os_callback := os_callback s1, os_mem := os_mem s1, os_state := os_state s1,
                          os_ustate := os_ustate s1, os_max_size := size, os_bytes_written := 0,
                          os_errmsg := None\<rparr> in
           Option.bind (enc fs src sub1) (\<lambda>(status, sub2).
             let s2 = s1\<lparr>os_bytes_written := size_add (os_bytes_written s1) (os_bytes_written sub2),
                         os_mem := os_mem sub2, os_state := os_state sub2, os_ustate := os_ustate sub2,
                         os_errmsg := os_errmsg sub2\<rparr> in
             if os_bytes_written sub2 \<noteq> size then os_error ''submsg size changed'' s2
             else Some (status, s2))))"

definition pb_enc_submessage ::
  "'st encode_env \<Rightarrow> 'st enc_fun \<Rightarrow> pb_field \<Rightarrow> nat \<Rightarrow> 'st pb_ostream \<Rightarrow> 'st enc_result" where
  "pb_enc_submessage E enc field src s = (case pf_ptr field of
     Null_ptr \<Rightarrow> os_error ''invalid field descriptor'' s
   | Submsg_fields fs \<Rightarrow> pb_encode_submessage enc fs src s
   | Default_value _ \<Rightarrow> None)"

text \<open>The call through the table \<open>PB_ENCODERS\<close>; the entry for extensions is NULL.\<close>

definition PB_ENCODERS ::
  "'st encode_env \<Rightarrow> 'st enc_fun \<Rightarrow> u8 \<Rightarrow> pb_field \<Rightarrow> nat \<Rightarrow> 'st pb_ostream \<Rightarrow> 'st enc_result" where
  "PB_ENCODERS E enc ltype field src s =
    (if ltype = PB_LTYPE_VARINT then pb_enc_varint E field src s
     else if ltype = PB_LTYPE_UVARINT then pb_enc_uvarint E field src s
     else if ltype = PB_LTYPE_SVARINT then pb_enc_svarint E field src s
     else if ltype = PB_LTYPE_FIXED32 then pb_enc_fixed32 E field src s
     else if ltype = PB_LTYPE_FIXED64 then pb_enc_fixed64 E field src s
     else if ltype = PB_LTYPE_BYTES then pb_enc_bytes E field src s
     else if ltype = PB_LTYPE_STRING then pb_enc_string E field src s
     else if ltype = PB_LTYPE_SUBMESSAGE then pb_enc_submessage E enc field src s
     else if ltype = PB_LTYPE_FIXED_LENGTH_BYTES then pb_enc_fixed_length_bytes E field src s
     else None)"

section \<open>Fields\<close>

text \<open>The loops of \<open>encode_array\<close>: \<open>f\<close> encodes the entry at an address.\<close>

fun array_loop :: "(nat \<Rightarrow> 'st pb_ostream \<Rightarrow> 'st enc_result) \<Rightarrow> nat \<Rightarrow> nat \<Rightarrow> nat \<Rightarrow> 'st pb_ostream \<Rightarrow> 'st enc_result" where
  "array_loop f 0 p data_size s = Some (True, s)"
| "array_loop f (Suc n) p data_size s = and_then (f p s) (array_loop f n (p + data_size) data_size)"

definition encode_array ::
  "'st encode_env \<Rightarrow> 'st enc_fun \<Rightarrow> pb_field \<Rightarrow> nat \<Rightarrow> nat \<Rightarrow> 'st pb_ostream \<Rightarrow> 'st enc_result" where
  "encode_array E enc field pData count s =
    (let ty = pf_type field; func = PB_ENCODERS E enc (PB_LTYPE ty) field; data_size = unat (pf_data_size field) in
     if count = 0 then Some (True, s)
     else if PB_ATYPE ty \<noteq> PB_ATYPE_POINTER \<and> unat (pf_array_size field) < count
     then os_error ''array max size exceeded'' s
     else if PB_LTYPE ty \<le> PB_LTYPE_LAST_PACKABLE then
       and_then (Some (pb_encode_tag s PB_WT_STRING (pf_tag field))) (\<lambda>s1.
         Option.bind
           (if PB_LTYPE ty = PB_LTYPE_FIXED32 then Some (True, size_mul 4 count)
            else if PB_LTYPE ty = PB_LTYPE_FIXED64 then Some (True, size_mul 8 count)
            else map_option (\<lambda>(ok, sizestream). (ok, os_bytes_written sizestream))
              (array_loop func count pData data_size (PB_OSTREAM_SIZING (os_ustate s1))))
           (\<lambda>(ok, size).
             if \<not> ok then Some (False, s1)
             else and_then (Some (pb_encode_varint s1 (of_nat size))) (\<lambda>s2.
               if (case os_callback s2 of Null_callback \<Rightarrow> True | _ \<Rightarrow> False) then Some (pb_write s2 [] size)
               else array_loop func count pData data_size s2)))
     else
       array_loop (\<lambda>p s1. and_then (pb_encode_tag_for_field field s1)
           (func (if PB_ATYPE ty = PB_ATYPE_POINTER \<and> PB_LTYPE ty \<in> {PB_LTYPE_STRING, PB_LTYPE_BYTES}
                  then load_le (ee_mem E) p 8 else p)))
         count pData data_size s)"

text \<open>The first argument is the fuel for nested messages.\<close>

fun pb_check_proto3_default_value :: "nat \<Rightarrow> (nat \<Rightarrow> u8) \<Rightarrow> pb_field \<Rightarrow> nat \<Rightarrow> bool option" where
  "pb_check_proto3_default_value 0 mem field pData = None"
| "pb_check_proto3_default_value (Suc n) mem field pData =
    (let ty = pf_type field; all_zero = Some (\<forall>b \<in> set (mem_bytes mem pData (unat (pf_data_size field))). b = 0) in
     if PB_ATYPE ty = PB_ATYPE_STATIC then
       if PB_LTYPE ty = PB_LTYPE_BYTES then Some (load_le mem pData 4 = 0)
       else if PB_LTYPE ty = PB_LTYPE_STRING then Some (mem pData = 0)
       else if PB_LTYPE ty = PB_LTYPE_FIXED_LENGTH_BYTES then Some (pf_data_size field = 0)
       else if PB_LTYPE ty = PB_LTYPE_SUBMESSAGE then
         (case pf_ptr field of
            Submsg_fields fs \<Rightarrow>
              (case pb_field_iter_begin fs pData of
                 (False, _) \<Rightarrow> Some True
               | (True, iter) \<Rightarrow>
                   (case iter_loop (\<lambda>iter _. case pb_check_proto3_default_value n mem (iter_field iter) (it_pData iter) of
                         None \<Rightarrow> None | Some ok \<Rightarrow> Some (if \<not> ok then Inl False else Inr ())) iter () of
                      None \<Rightarrow> None | Some (Inl r) \<Rightarrow> Some r | Some (Inr _) \<Rightarrow> Some True))
          | _ \<Rightarrow> None)
       else all_zero
     else all_zero)"


text \<open>\<open>pSize\<close> points to a member of the message (\<open>Inl\<close>) or to the local \<open>implicit_has\<close>
  (\<open>Inr\<close>), which is one byte long.\<close>

definition encode_basic_field ::
  "'st encode_env \<Rightarrow> 'st enc_fun \<Rightarrow> nat \<Rightarrow> pb_field \<Rightarrow> nat \<Rightarrow> 'st pb_ostream \<Rightarrow> 'st enc_result" where
  "encode_basic_field E enc n field pData s = (let ty = pf_type field; mem = ee_mem E in do {
     pSize \<leftarrow> (if pf_size_offset field \<noteq> 0 then Some (Inl (addr_add pData (pf_size_offset field)))
       else if PB_HTYPE ty = PB_HTYPE_OPTIONAL
       then map_option (\<lambda>d. Inr (\<not> d)) (pb_check_proto3_default_value n mem field pData)
       else Some (Inr True));
     let pData' = (if PB_ATYPE ty = PB_ATYPE_POINTER then load_le mem pData 8 else pData);
     let pSize = (case pSize of Inl a \<Rightarrow> Inl a
       | Inr has \<Rightarrow> Inr (if PB_ATYPE ty = PB_ATYPE_POINTER then pData' \<noteq> 0 else has));
     let put = (\<lambda>s. and_then (pb_encode_tag_for_field field s) (PB_ENCODERS E enc (PB_LTYPE ty) field pData'));
     (if PB_HTYPE ty = PB_HTYPE_REQUIRED then
        if pData' = 0 then os_error ''missing required field'' s else put s
      else if PB_HTYPE ty = PB_HTYPE_OPTIONAL then
        if (case pSize of Inl a \<Rightarrow> mem a \<noteq> 0 | Inr has \<Rightarrow> has) then put s else Some (True, s)
      else (case pSize of
          Inr _ \<Rightarrow> None
        | Inl a \<Rightarrow>
            if PB_HTYPE ty = PB_HTYPE_REPEATED then encode_array E enc field pData' (load_le mem a 4) s
            else if load_le mem a 4 = unat (pf_tag field) then put s else Some (True, s)))
   })"

text \<open>\<open>pb_callback_t\<close> is the address of the function followed by the argument.\<close>

definition encode_callback_field ::
  "'st encode_env \<Rightarrow> pb_field \<Rightarrow> nat \<Rightarrow> 'st pb_ostream \<Rightarrow> 'st enc_result" where
  "encode_callback_field E field pData s =
    (let f = load_le (ee_mem E) pData 8 in
     if f \<noteq> 0 then
       (case ee_callback E f s field (pData + 8) of
          (False, s') \<Rightarrow> os_error ''callback error'' s'
        | (True, s') \<Rightarrow> Some (True, s'))
     else Some (True, s))"

definition encode_field ::
  "'st encode_env \<Rightarrow> 'st enc_fun \<Rightarrow> nat \<Rightarrow> pb_field \<Rightarrow> nat \<Rightarrow> 'st pb_ostream \<Rightarrow> 'st enc_result" where
  "encode_field E enc n field pData s =
    (let a = PB_ATYPE (pf_type field) in
     if a = PB_ATYPE_STATIC \<or> a = PB_ATYPE_POINTER then encode_basic_field E enc n field pData s
     else if a = PB_ATYPE_CALLBACK then encode_callback_field E field pData s
     else os_error ''invalid field type'' s)"

text \<open>
  Extensions.  A \<open>pb_extension_t\<close> has the pointers \<open>type\<close>, \<open>dest\<close> and \<open>next\<close> and the flag
  \<open>found\<close>, its type the pointers \<open>decode\<close>, \<open>encode\<close> and \<open>arg\<close>.
\<close>

definition default_extension_encoder ::
  "'st encode_env \<Rightarrow> 'st enc_fun \<Rightarrow> nat \<Rightarrow> nat \<Rightarrow> 'st pb_ostream \<Rightarrow> 'st enc_result" where
  "default_extension_encoder E enc n extension s =
    (let mem = ee_mem E; field = ee_ext_field E (load_le mem (load_le mem extension 8 + 16) 8) in
     if PB_ATYPE (pf_type field) = PB_ATYPE_POINTER then encode_field E enc n field (extension + 8) s
     else encode_field E enc n field (load_le mem (extension + 8) 8) s)"

partial_function (option) extension_loop ::
  "(nat \<Rightarrow> 'st pb_ostream \<Rightarrow> 'st enc_result) \<Rightarrow> (nat \<Rightarrow> u8) \<Rightarrow> nat \<Rightarrow> 'st pb_ostream \<Rightarrow> 'st enc_result" where
  "extension_loop f mem extension s =
    (if extension = 0 then Some (True, s)
     else Option.bind (f extension s) (\<lambda>(status, s1).
       if \<not> status then Some (False, s1) else extension_loop f mem (load_le mem (extension + 16) 8) s1))"

definition encode_extension_field ::
  "'st encode_env \<Rightarrow> 'st enc_fun \<Rightarrow> nat \<Rightarrow> pb_field \<Rightarrow> nat \<Rightarrow> 'st pb_ostream \<Rightarrow> 'st enc_result" where
  "encode_extension_field E enc n field pData s =
    (let mem = ee_mem E in
     extension_loop (\<lambda>extension s.
         let f = load_le mem (load_le mem extension 8 + 8) 8 in
         if f \<noteq> 0 then Some (ee_ext_encode E f s extension)
         else default_extension_encoder E enc n extension s)
       mem (load_le mem pData 8) s)"

section \<open>Messages\<close>

fun pb_encode :: "nat \<Rightarrow> 'st encode_env \<Rightarrow> pb_field list \<Rightarrow> nat \<Rightarrow> 'st pb_ostream \<Rightarrow> 'st enc_result" where
  "pb_encode 0 E fs src_struct s = None"
| "pb_encode (Suc n) E fs src_struct s =
    (case pb_field_iter_begin fs src_struct of
       (False, _) \<Rightarrow> Some (True, s)
     | (True, iter) \<Rightarrow>
         (case iter_loop (\<lambda>iter s.
               let field = iter_field iter; pData = it_pData iter in
               (case (if PB_LTYPE (pf_type field) = PB_LTYPE_EXTENSION
                      then encode_extension_field E (\<lambda>fs p s. pb_encode n E fs p s) n field pData s
                      else encode_field E (\<lambda>fs p s. pb_encode n E fs p s) n field pData s) of
                  None \<Rightarrow> None
                | Some (False, s') \<Rightarrow> Some (Inl s')
                | Some (True, s') \<Rightarrow> Some (Inr s'))) iter s of
            None \<Rightarrow> None
          | Some (Inl s') \<Rightarrow> Some (False, s')
          | Some (Inr (_, s')) \<Rightarrow> Some (True, s')))"

definition pb_encode_delimited ::
  "nat \<Rightarrow> 'st encode_env \<Rightarrow> pb_field list \<Rightarrow> nat \<Rightarrow> 'st pb_ostream \<Rightarrow> 'st enc_result" where
  "pb_encode_delimited n E fs src_struct s = pb_encode_submessage (pb_encode n E) fs src_struct s"

text \<open>\<open>Some None\<close> stands for the return value false.\<close>

definition pb_get_encoded_size ::
  "nat \<Rightarrow> 'st encode_env \<Rightarrow> 'st \<Rightarrow> pb_field list \<Rightarrow> nat \<Rightarrow> size_t option option" where
  "pb_get_encoded_size n E st fs src_struct =
    map_option (\<lambda>(ok, s). if ok then Some (os_bytes_written s) else None)
      (pb_encode n E fs src_struct (PB_OSTREAM_SIZING st))"


section \<open>The wire format\<close>

text \<open>
  A reference encoder without streams: the bytes of a value, a field and a message with
  statically allocated fields.  It is \<open>None\<close> for descriptors that the encoder refuses and for
  callback, pointer and extension fields.
\<close>

definition wire_tag :: "pb_field \<Rightarrow> u8 list option" where
  "wire_tag field = (let l = PB_LTYPE (pf_type field) in
     map_option (\<lambda>wt. varint_bytes (push_bit 3 (ucast (pf_tag field)) OR ucast (wt :: u32)))
       (if l \<in> {PB_LTYPE_VARINT, PB_LTYPE_UVARINT, PB_LTYPE_SVARINT} then Some PB_WT_VARINT
        else if l = PB_LTYPE_FIXED32 then Some PB_WT_32BIT
        else if l = PB_LTYPE_FIXED64 then Some PB_WT_64BIT
        else if l \<in> {PB_LTYPE_BYTES, PB_LTYPE_STRING, PB_LTYPE_SUBMESSAGE, PB_LTYPE_FIXED_LENGTH_BYTES}
        then Some PB_WT_STRING else None))"

type_synonym wire_fun = "pb_field list \<Rightarrow> nat \<Rightarrow> u8 list option"

definition wire_value :: "(nat \<Rightarrow> u8) \<Rightarrow> wire_fun \<Rightarrow> pb_field \<Rightarrow> nat \<Rightarrow> u8 list option" where
  "wire_value mem sub field src =
    (let l = PB_LTYPE (pf_type field); n = unat (pf_data_size field) in
     if l = PB_LTYPE_VARINT then map_option varint_bytes (load_signed mem src (pf_data_size field))
     else if l = PB_LTYPE_UVARINT then map_option varint_bytes (load_unsigned mem src (pf_data_size field))
     else if l = PB_LTYPE_SVARINT then map_option (\<lambda>v. varint_bytes (zigzag_enc v)) (load_signed mem src (pf_data_size field))
     else if l = PB_LTYPE_FIXED32 then Some (le_bytes32 (of_nat (load_le mem src 4)))
     else if l = PB_LTYPE_FIXED64 then Some (le_bytes64 (of_nat (load_le mem src 8)))
     else if l = PB_LTYPE_BYTES then
       (let size = load_le mem src 4 in if src = 0 then Some (string_bytes [])
        else if n < size + 4 then None else Some (string_bytes (mem_bytes mem (src + 4) size)))
     else if l = PB_LTYPE_STRING then
       Some (string_bytes (mem_bytes mem src (if src = 0 then 0 else strnlen_mem mem src n)))
     else if l = PB_LTYPE_SUBMESSAGE then
       (case pf_ptr field of Submsg_fields fs \<Rightarrow> map_option string_bytes (sub fs src) | _ \<Rightarrow> None)
     else if l = PB_LTYPE_FIXED_LENGTH_BYTES then Some (string_bytes (mem_bytes mem src n))
     else None)"

definition concat_opt :: "'a list option list \<Rightarrow> 'a list option" where
  "concat_opt xs = map_option concat (those xs)"

definition wire_array :: "(nat \<Rightarrow> u8) \<Rightarrow> wire_fun \<Rightarrow> pb_field \<Rightarrow> nat \<Rightarrow> nat \<Rightarrow> u8 list option" where
  "wire_array mem sub field p count =
    (let entry = (\<lambda>i. wire_value mem sub field (p + i * unat (pf_data_size field))) in
     if count = 0 then Some []
     else if unat (pf_array_size field) < count then None
     else if PB_LTYPE (pf_type field) \<le> PB_LTYPE_LAST_PACKABLE then
       map_option (\<lambda>bs. varint_bytes (push_bit 3 (ucast (pf_tag field)) OR ucast PB_WT_STRING) @ string_bytes bs)
         (concat_opt (map entry [0..<count]))
     else
       Option.bind (wire_tag field) (\<lambda>t. concat_opt (map (\<lambda>i. map_option ((@) t) (entry i)) [0..<count])))"

definition wire_single :: "(nat \<Rightarrow> u8) \<Rightarrow> wire_fun \<Rightarrow> pb_field \<Rightarrow> nat \<Rightarrow> u8 list option" where
  "wire_single mem sub field p =
    Option.bind (wire_tag field) (\<lambda>t. map_option ((@) t) (wire_value mem sub field p))"

definition wire_field :: "(nat \<Rightarrow> u8) \<Rightarrow> wire_fun \<Rightarrow> nat \<Rightarrow> pb_field \<Rightarrow> nat \<Rightarrow> u8 list option" where
  "wire_field mem sub n field pData =
    (let ty = pf_type field; a = addr_add pData (pf_size_offset field) in
     if PB_ATYPE ty \<noteq> PB_ATYPE_STATIC \<or> PB_LTYPE ty = PB_LTYPE_EXTENSION then None
     else if PB_HTYPE ty = PB_HTYPE_REQUIRED then
       if pData = 0 then None else wire_single mem sub field pData
     else if PB_HTYPE ty = PB_HTYPE_OPTIONAL then
       Option.bind (if pf_size_offset field \<noteq> 0 then Some (mem a \<noteq> 0)
           else map_option Not (pb_check_proto3_default_value n mem field pData))
         (\<lambda>has. if has then wire_single mem sub field pData else Some [])
     else if pf_size_offset field = 0 then None
     else if PB_HTYPE ty = PB_HTYPE_REPEATED then wire_array mem sub field pData (load_le mem a 4)
     else if load_le mem a 4 = unat (pf_tag field) then wire_single mem sub field pData else Some [])"

fun wire_message :: "nat \<Rightarrow> (nat \<Rightarrow> u8) \<Rightarrow> pb_field list \<Rightarrow> nat \<Rightarrow> u8 list option" where
  "wire_message 0 mem fs src = None"
| "wire_message (Suc n) mem fs src =
    (if tags_ok fs then
       concat_opt (map (\<lambda>i. wire_field mem (\<lambda>fs p. wire_message n mem fs p) n (fs ! i) (it_pData (iter_at fs src i)))
         [0..<length fs])
     else None)"

section \<open>Encoders that emit known bytes\<close>

definition emits :: "('st pb_ostream \<Rightarrow> 'st enc_result) \<Rightarrow> u8 list \<Rightarrow> bool" where
  "emits f bs \<longleftrightarrow> (\<forall>s. os_room s (length bs) \<longrightarrow> os_errmsg s = None \<longrightarrow> f s = Some (True, os_emit s bs))"

lemma emitsI: "(\<And>s. os_room s (length bs) \<Longrightarrow> os_errmsg s = None \<Longrightarrow> f s = Some (True, os_emit s bs)) \<Longrightarrow> emits f bs"
  by (simp add: emits_def)

lemma emitsD: "emits f bs \<Longrightarrow> os_room s (length bs) \<Longrightarrow> os_errmsg s = None \<Longrightarrow> f s = Some (True, os_emit s bs)"
  by (simp add: emits_def)

lemma emits_nothing: "emits (\<lambda>s. Some (True, s)) []"
  by (simp add: emits_def)

lemma emits_then:
  assumes "emits f a" "emits g b"
  shows "emits (\<lambda>s. and_then (f s) g) (a @ b)"
proof (rule emitsI)
  fix s :: "'a pb_ostream" assume s: "os_room s (length (a @ b))" "os_errmsg s = None"
  then have "os_room s (length a)" by (auto elim: os_room_mono)
  then show "and_then (f s) g = Some (True, os_emit s (a @ b))"
    using emitsD [OF assms(1)] emitsD [OF assms(2), of "os_emit s a"] s by (simp add: and_then_def)
qed

lemma emits_varint: "emits (\<lambda>s. Some (pb_encode_varint s v)) (varint_bytes v)"
  by (simp add: emits_def pb_encode_varint_emit)

lemma emits_tag: "emits (\<lambda>s. Some (pb_encode_tag s wt n)) (varint_bytes (push_bit 3 (ucast n) OR ucast wt))"
  by (simp add: emits_def pb_encode_tag_emit)

lemma emits_string: "n = length bs \<Longrightarrow> emits (\<lambda>s. Some (pb_encode_string s bs n)) (string_bytes bs)"
  by (simp add: emits_def pb_encode_string_emit)

lemma emits_tag_for_field: "wire_tag field = Some t \<Longrightarrow> emits (pb_encode_tag_for_field field) t"
  unfolding wire_tag_def pb_encode_tag_for_field_def Let_def emits_def
  by (auto simp: pb_encode_tag_emit simp del: PB_WT_VARINT_def PB_WT_32BIT_def PB_WT_64BIT_def PB_WT_STRING_def
      split: if_splits)

lemma emits_fixed: "emits (\<lambda>s. Some (pb_encode_fixed32 s v)) (le_bytes32 v)"
    "emits (\<lambda>s. Some (pb_encode_fixed64 s w)) (le_bytes64 w)"
  by (simp_all add: emits_def pb_encode_fixed32_emit pb_encode_fixed64_emit)

lemma emits_svarint: "emits (\<lambda>s. Some (pb_encode_svarint s v)) (varint_bytes (zigzag_enc v))"
  by (simp add: emits_def pb_encode_svarint_emit)

lemma os_room_size: "os_room s n \<Longrightarrow> n < size_mod"
  by (auto simp: os_room_def split: ocallback.splits)

lemma sizing_room [simp]: "os_room (PB_OSTREAM_SIZING st) n \<longleftrightarrow> n < size_mod" "os_errmsg (PB_OSTREAM_SIZING st) = None"
    "os_bytes_written (PB_OSTREAM_SIZING st) = 0" "os_ustate (PB_OSTREAM_SIZING st) = st"
  by (simp_all add: os_room_def PB_OSTREAM_SIZING_def)

lemma write_null:
  "os_callback s = Null_callback \<Longrightarrow> os_room s (length bs) \<Longrightarrow> pb_write s [] (length bs) = (True, os_emit s bs)"
  by (simp add: pb_write_def os_emit_def os_room_def)

lemma os_room_cases: "os_room s n \<Longrightarrow> (os_callback s = Null_callback \<Longrightarrow> P) \<Longrightarrow> (os_callback s = Buf_write \<Longrightarrow> P) \<Longrightarrow> P"
  by (cases "os_callback s") (auto simp: os_room_def)

lemma emits_submessage:
  assumes "emits (enc fs src) bs"
  shows "emits (pb_encode_submessage enc fs src) (string_bytes bs)"
proof (rule emitsI)
  fix s :: "'a pb_ostream" assume s: "os_room s (length (string_bytes bs))" "os_errmsg s = None"
  let ?v = "varint_bytes (of_nat (length bs))"
  have len: "length bs < size_mod" using os_room_size [OF s(1)] by (simp add: string_bytes_def)
  have sub: "enc fs src (PB_OSTREAM_SIZING (os_ustate s)) = Some (True, os_emit (PB_OSTREAM_SIZING (os_ustate s)) bs)"
    using len by (intro emitsD [OF assms]) simp_all
  have rv: "os_room s (length ?v)" using s(1) by (auto simp: string_bytes_def elim: os_room_mono)
  let ?s1 = "os_emit s ?v"
  have r1: "os_room ?s1 (length bs)" using s(1) by (simp add: string_bytes_def)
  have same: "s\<lparr>os_ustate := os_ustate s\<rparr> = s" by simp
  from s(1) show "pb_encode_submessage enc fs src s = Some (True, os_emit s (string_bytes bs))"
  proof (rule os_room_cases)
    assume n: "os_callback s = Null_callback"
    have "pb_write ?s1 [] (length bs) = (True, os_emit ?s1 bs)" using n r1 by (intro write_null) simp_all
    then show ?thesis
      using n sub rv by (simp add: pb_encode_submessage_def pb_encode_varint_emit and_then_def string_bytes_def same Let_def)
  next
    assume b: "os_callback s = Buf_write"
    let ?sub1 = "os_emit (PB_OSTREAM_SIZING (os_ustate s)) bs
      \<lparr>os_callback := os_callback ?s1, os_mem := os_mem ?s1, os_state := os_state ?s1, os_ustate := os_ustate ?s1,
       os_max_size := length bs, os_bytes_written := 0, os_errmsg := None\<rparr>"
    have "enc fs src ?sub1 = Some (True, os_emit ?sub1 bs)"
      using len b by (intro emitsD [OF assms]) (simp_all add: os_room_def)
    moreover have "os_bytes_written ?s1 + length bs \<le> os_max_size ?s1" "os_bytes_written ?s1 + length bs < size_mod"
      using r1 b by (simp_all add: os_room_def)
    moreover have "?s1\<lparr>os_bytes_written := os_bytes_written ?s1 + length bs, os_mem := os_mem (os_emit ?sub1 bs),
        os_state := os_state (os_emit ?sub1 bs), os_ustate := os_ustate (os_emit ?sub1 bs),
        os_errmsg := os_errmsg (os_emit ?sub1 bs)\<rparr> = os_emit ?s1 bs"
      using b s(2) by (cases s) (simp add: os_emit_def)
    ultimately show ?thesis
      using b sub rv by (simp add: pb_encode_submessage_def pb_encode_varint_emit and_then_def string_bytes_def same Let_def)
  qed
qed

lemma le_value_less: "le_value bs < 256 ^ length bs"
proof (induction bs)
  case (Cons b bs)
  have "unat b < 256" using unsigned_less [of b] by simp
  with Cons.IH show ?case by (simp only: le_value.simps list.size power_Suc add_Suc_right add_0_right)
qed simp

lemma load_le_32: "load_le mem p 4 < 2 ^ 32"
  using le_value_less [of "mem_bytes mem p 4"] by (simp add: load_le_def)

lemma strnlen_mem_le: "strnlen_mem mem p n \<le> n"
  by (induction mem p n rule: strnlen_mem.induct) simp_all

lemma emits_value:
  assumes sub: "\<And>fs p bs. sub fs p = Some bs \<Longrightarrow> emits (enc fs p) bs"
    and static: "PB_ATYPE (pf_type field) = PB_ATYPE_STATIC"
    and w: "wire_value (ee_mem E) sub field src = Some bs"
  shows "emits (PB_ENCODERS E enc (PB_LTYPE (pf_type field)) field src) bs"
proof -
  have alloc: "PB_BYTES_ARRAY_T_ALLOCSIZE (load_le (ee_mem E) src 4) = load_le (ee_mem E) src 4 + 4"
    using load_le_32 [of "ee_mem E" src] by (simp add: PB_BYTES_ARRAY_T_ALLOCSIZE_def size_add_def)
  show ?thesis
    using w static unfolding wire_value_def Let_def
    by (auto split: if_splits pb_ptr.splits simp: PB_ENCODERS_def [abs_def] pb_enc_varint_def [abs_def]
        pb_enc_uvarint_def [abs_def] pb_enc_svarint_def [abs_def] pb_enc_fixed32_def [abs_def] pb_enc_fixed64_def [abs_def]
        pb_enc_bytes_def [abs_def] pb_enc_string_def [abs_def] pb_enc_submessage_def [abs_def]
        pb_enc_fixed_length_bytes_def [abs_def] Let_def alloc
        intro!: emits_varint emits_svarint emits_fixed emits_string emits_submessage sub)
qed


lemma those_Some: "those xs = Some ys \<longleftrightarrow> xs = map Some ys"
  by (induction xs arbitrary: ys) (auto split: option.splits)

lemma concat_optE:
  assumes "concat_opt (map f xs) = Some bs"
  obtains bss where "bs = concat bss" "length bss = length xs" "\<And>i. i < length xs \<Longrightarrow> f (xs ! i) = Some (bss ! i)"
proof -
  from assms obtain bss where "map f xs = map Some bss" "bs = concat bss"
    by (auto simp: concat_opt_def those_Some)
  moreover from this(1) have "length bss = length xs" by (metis length_map)
  moreover have "f (xs ! i) = Some (bss ! i)" if "i < length xs" for i
    using calculation(1,3) that by (metis nth_map)
  ultimately show thesis using that by blast
qed

lemma emits_array_loop:
  "length bss = n \<Longrightarrow> (\<And>i. i < n \<Longrightarrow> emits (f (p + i * d)) (bss ! i)) \<Longrightarrow> emits (array_loop f n p d) (concat bss)"
proof (induction n arbitrary: p bss)
  case (Suc n)
  then obtain b bss' where b: "bss = b # bss'" "length bss' = n" by (cases bss) auto
  have "emits (f p) b" using Suc.prems(2) [of 0] b by simp
  moreover have "emits (array_loop f n (p + d) d) (concat bss')"
    using Suc.prems(2) [of "Suc _"] b by (intro Suc.IH) (simp_all add: add.assoc)
  ultimately show ?case using emits_then b by (simp add: fun_eq_iff [symmetric])
qed (simp add: emits_def)


lemma concat_size: "(\<And>i. i < length xs \<Longrightarrow> length (xs ! i) = k) \<Longrightarrow> length (concat xs) = k * length xs"
proof (induction xs)
  case (Cons x xs)
  have "length x = k" using Cons.prems [of 0] by simp
  moreover have "length (concat xs) = k * length xs" using Cons.prems [of "Suc _"] by (intro Cons.IH) simp
  ultimately show ?case by simp
qed simp

lemma emits_packed:
  assumes vals: "emits (array_loop f n p d) bs"
    and sz: "\<And>s. length bs < size_mod \<Longrightarrow> sz s = Some (True, length bs)"
  shows "emits (\<lambda>s. Option.bind (sz s) (\<lambda>(ok, size).
             if \<not> ok then Some (False, s)
             else and_then (Some (pb_encode_varint s (of_nat size))) (\<lambda>s2.
               if (case os_callback s2 of Null_callback \<Rightarrow> True | _ \<Rightarrow> False) then Some (pb_write s2 [] size)
               else array_loop f n p d s2))) (string_bytes bs)"
proof (rule emitsI)
  fix s :: "'a pb_ostream" assume s: "os_room s (length (string_bytes bs))" "os_errmsg s = None"
  let ?v = "varint_bytes (of_nat (length bs))"
  have sz_eq: "sz s = Some (True, length bs)" using os_room_size [OF s(1)] by (intro sz) (simp add: string_bytes_def)
  have rv: "os_room s (length ?v)" using s(1) by (auto simp: string_bytes_def elim: os_room_mono)
  have r1: "os_room (os_emit s ?v) (length bs)" using s(1) by (simp add: string_bytes_def)
  show "Option.bind (sz s) (\<lambda>(ok, size).
             if \<not> ok then Some (False, s)
             else and_then (Some (pb_encode_varint s (of_nat size))) (\<lambda>s2.
               if (case os_callback s2 of Null_callback \<Rightarrow> True | _ \<Rightarrow> False) then Some (pb_write s2 [] size)
               else array_loop f n p d s2)) = Some (True, os_emit s (string_bytes bs))"
    using s rv r1 emitsD [OF vals r1] write_null [OF _ r1]
    by (cases "os_callback s") (simp_all add: sz_eq pb_encode_varint_emit and_then_def string_bytes_def)
qed

lemma wire_value_fixed:
  "PB_LTYPE (pf_type field) = PB_LTYPE_FIXED32 \<Longrightarrow> wire_value mem sub field p = Some bs \<Longrightarrow> length bs = 4"
  "PB_LTYPE (pf_type field) = PB_LTYPE_FIXED64 \<Longrightarrow> wire_value mem sub field p = Some bs \<Longrightarrow> length bs = 8"
  by (auto simp: wire_value_def)

lemma emits_array:
  assumes sub: "\<And>fs p bs. sub fs p = Some bs \<Longrightarrow> emits (enc fs p) bs"
    and static: "PB_ATYPE (pf_type field) = PB_ATYPE_STATIC"
    and w: "wire_array (ee_mem E) sub field p count = Some bs"
  shows "emits (encode_array E enc field p count) bs"
proof (cases "count = 0")
  case True
  with w show ?thesis by (simp add: encode_array_def wire_array_def emits_def)
next
  case False
  let ?l = "PB_LTYPE (pf_type field)" and ?d = "unat (pf_data_size field)"
  let ?f = "PB_ENCODERS E enc ?l field"
  let ?entry = "\<lambda>i. wire_value (ee_mem E) sub field (p + i * ?d)"
  have cnt: "\<not> unat (pf_array_size field) < count" using w False by (auto simp: wire_array_def)
  show ?thesis
  proof (cases "?l \<le> PB_LTYPE_LAST_PACKABLE")
    case True
    from w False cnt True obtain vs where vs: "concat_opt (map ?entry [0..<count]) = Some vs"
      and bs: "bs = varint_bytes (push_bit 3 (ucast (pf_tag field)) OR ucast PB_WT_STRING) @ string_bytes vs"
      by (auto simp: wire_array_def Let_def simp del: PB_WT_STRING_def)
    from vs obtain bss where bss: "vs = concat bss" "length bss = count" "\<And>i. i < count \<Longrightarrow> ?entry i = Some (bss ! i)"
      by (rule concat_optE) auto
    have loop: "emits (array_loop ?f count p ?d) vs"
      unfolding bss(1) using emits_value [OF sub static bss(3)] by (intro emits_array_loop bss(2)) simp_all
    have sz: "(if ?l = PB_LTYPE_FIXED32 then Some (True, size_mul 4 count)
            else if ?l = PB_LTYPE_FIXED64 then Some (True, size_mul 8 count)
            else map_option (\<lambda>(ok, sizestream). (ok, os_bytes_written sizestream))
              (array_loop ?f count p ?d (PB_OSTREAM_SIZING (os_ustate s)))) = Some (True, length vs)"
      if "length vs < size_mod" for s
    proof -
      have "length vs = 4 * count" if "?l = PB_LTYPE_FIXED32"
        unfolding bss(1) using concat_size [of bss 4] wire_value_fixed(1) [OF that bss(3)] bss(2) by simp
      moreover have "length vs = 8 * count" if "?l = PB_LTYPE_FIXED64"
        unfolding bss(1) using concat_size [of bss 8] wire_value_fixed(2) [OF that bss(3)] bss(2) by simp
      ultimately show ?thesis using that emitsD [OF loop] by (auto simp: size_mul_def)
    qed
    show ?thesis
      unfolding encode_array_def Let_def bs
      using emits_then [OF emits_tag emits_packed [OF loop sz]] False cnt True
      by (simp add: static del: PB_WT_STRING_def)
  next
    case l: False
    from w False cnt l obtain t where t: "wire_tag field = Some t"
      and c: "concat_opt (map (\<lambda>i. map_option ((@) t) (?entry i)) [0..<count]) = Some bs"
      by (auto simp: wire_array_def Let_def split: bind_splits)
    from c obtain bss where bss: "bs = concat bss" "length bss = count"
      "\<And>i. i < count \<Longrightarrow> map_option ((@) t) (?entry i) = Some (bss ! i)"
      by (rule concat_optE) auto
    have "emits (\<lambda>s1. and_then (pb_encode_tag_for_field field s1) (?f (p + i * ?d))) (bss ! i)" if i: "i < count" for i
    proof -
      from bss(3) [OF i] obtain v where "?entry i = Some v" "bss ! i = t @ v" by auto
      then show ?thesis using emits_then [OF emits_tag_for_field [OF t] emits_value [OF sub static]] by simp
    qed
    then show ?thesis
      unfolding encode_array_def Let_def bss(1) using False cnt l bss(2)
      by (simp add: static emits_array_loop)
  qed
qed


lemma emits_single:
  assumes sub: "\<And>fs p bs. sub fs p = Some bs \<Longrightarrow> emits (enc fs p) bs"
    and static: "PB_ATYPE (pf_type field) = PB_ATYPE_STATIC"
    and w: "wire_single (ee_mem E) sub field p = Some bs"
  shows "emits (\<lambda>s. and_then (pb_encode_tag_for_field field s) (PB_ENCODERS E enc (PB_LTYPE (pf_type field)) field p)) bs"
proof -
  from w obtain t v where "wire_tag field = Some t" "wire_value (ee_mem E) sub field p = Some v" "bs = t @ v"
    by (auto simp: wire_single_def split: bind_splits)
  then show ?thesis using emits_then [OF emits_tag_for_field emits_value [OF sub static]] by simp
qed

lemma emits_field:
  assumes sub: "\<And>fs p bs. sub fs p = Some bs \<Longrightarrow> emits (enc fs p) bs"
    and w: "wire_field (ee_mem E) sub n field pData = Some bs"
  shows "emits (encode_field E enc n field pData) bs" "PB_LTYPE (pf_type field) \<noteq> PB_LTYPE_EXTENSION"
proof -
  let ?h = "PB_HTYPE (pf_type field)" and ?a = "addr_add pData (pf_size_offset field)" and ?mem = "ee_mem E"
  have static: "PB_ATYPE (pf_type field) = PB_ATYPE_STATIC" and ext: "PB_LTYPE (pf_type field) \<noteq> PB_LTYPE_EXTENSION"
    using w by (auto simp: wire_field_def Let_def split: if_splits)
  note defs = encode_field_def [abs_def] encode_basic_field_def [abs_def] Let_def static
  note w = w [unfolded wire_field_def Let_def, simplified static ext]
  note single = emits_single [where E = E, OF sub static] and array = emits_array [where E = E, OF sub static]
  show "emits (encode_field E enc n field pData) bs"
  proof (cases "?h = PB_HTYPE_REQUIRED")
    case True
    then show ?thesis using w by (auto simp: defs split: if_splits intro!: single)
  next
    case req: False
    show ?thesis
    proof (cases "?h = PB_HTYPE_OPTIONAL")
      case True
      then show ?thesis using w req
        by (auto simp: defs emits_nothing split: if_splits bind_splits intro!: single)
    next
      case False
      then show ?thesis using w req
        by (auto simp: defs emits_nothing split: if_splits intro!: single array)
    qed
  qed
  show "PB_LTYPE (pf_type field) \<noteq> PB_LTYPE_EXTENSION" by (fact ext)
qed

text \<open>A loop whose steps emit their bytes emits all of them.\<close>

lemma fold_emits:
  "length bss = length xs \<Longrightarrow> (\<And>i. i < length xs \<Longrightarrow> emits (f (xs ! i)) (bss ! i)) \<Longrightarrow>
   os_room s (length (concat bss)) \<Longrightarrow> os_errmsg s = None \<Longrightarrow>
   fold (\<lambda>j r. case r of Some (Inr s) \<Rightarrow> (case f j s of None \<Rightarrow> None | Some (False, s') \<Rightarrow> Some (Inl s')
       | Some (True, s') \<Rightarrow> Some (Inr s')) | _ \<Rightarrow> r) xs (Some (Inr s))
     = Some (Inr (os_emit s (concat bss)))"
proof (induction xs arbitrary: bss s)
  case (Cons x xs)
  then obtain b bss' where b: "bss = b # bss'" "length bss' = length xs" by (cases bss) auto
  have "f x s = Some (True, os_emit s b)"
    using Cons.prems(2) [of 0] Cons.prems(3,4) b by (intro emitsD) (auto elim: os_room_mono)
  moreover have "emits (f (xs ! i)) (bss' ! i)" if "i < length xs" for i
    using Cons.prems(2) [of "Suc i"] b that by simp
  ultimately show ?case using Cons.IH [of bss' "os_emit s b"] Cons.prems(3,4) b by simp
qed simp

lemma pb_encode_emits:
  "wire_message n (ee_mem E) fs src = Some bs \<Longrightarrow> emits (pb_encode n E fs src) bs"
proof (induction n arbitrary: fs src bs)
  case (Suc n)
  let ?sub = "\<lambda>fs p. wire_message n (ee_mem E) fs p" and ?enc = "\<lambda>fs p s. pb_encode n E fs p s"
  let ?f = "\<lambda>i. encode_field E ?enc n (fs ! i) (it_pData (iter_at fs src i))"
  from Suc.prems have ok: "tags_ok fs"
    and c: "concat_opt (map (\<lambda>i. wire_field (ee_mem E) ?sub n (fs ! i) (it_pData (iter_at fs src i))) [0..<length fs]) = Some bs"
    by (auto split: if_splits)
  from c obtain bss where bss: "bs = concat bss" "length bss = length fs"
    "\<And>i. i < length fs \<Longrightarrow> wire_field (ee_mem E) ?sub n (fs ! i) (it_pData (iter_at fs src i)) = Some (bss ! i)"
    by (rule concat_optE) auto
  note fld = emits_field [OF _ bss(3), of ?enc, OF Suc.IH]
  show ?case
  proof (rule emitsI)
    fix s :: "'a pb_ostream" assume s: "os_room s (length bs)" "os_errmsg s = None"
    show "pb_encode (Suc n) E fs src s = Some (True, os_emit s bs)"
    proof (cases "fs = []")
      case True
      then show ?thesis using bss(1,2) by (simp add: pb_field_iter_begin_def field_at_def PB_LAST_FIELD_def Let_def)
    next
      case False
      then have b: "pb_field_iter_begin fs src = (True, iter_at fs src 0)"
        using ok by (auto simp: pb_field_iter_begin_def Let_def field_at_tag)
      let ?body = "\<lambda>iter s. let field = iter_field iter; pData = it_pData iter in
               (case (if PB_LTYPE (pf_type field) = PB_LTYPE_EXTENSION
                      then encode_extension_field E ?enc n field pData s
                      else encode_field E ?enc n field pData s) of
                  None \<Rightarrow> None
                | Some (False, s') \<Rightarrow> Some (Inl s')
                | Some (True, s') \<Rightarrow> Some (Inr s'))"
      have "iter_loop ?body (iter_at fs src 0) s =
        (case fold (\<lambda>j r. case r of Some (Inr s) \<Rightarrow> (case ?f j s of None \<Rightarrow> None | Some (False, s') \<Rightarrow> Some (Inl s')
            | Some (True, s') \<Rightarrow> Some (Inr s')) | _ \<Rightarrow> r) [0..<length fs] (Some (Inr s)) of
           None \<Rightarrow> None | Some (Inl r) \<Rightarrow> Some (Inl r) | Some (Inr a') \<Rightarrow> Some (Inr (iter_at fs src 0, a')))"
        using False by (intro iter_loop_at [OF ok]) (simp_all add: iter_field_at [OF ok] fld(2) Let_def)
      also have "\<dots> = Some (Inr (iter_at fs src 0, os_emit s bs))"
        using fold_emits [of bss "[0..<length fs]" ?f s] fld(1) bss(1,2) s by simp
      finally show ?thesis by (simp add: b del: iter_at.simps)
    qed
  qed
qed simp

text \<open>
  C2: whenever the reference encoder gives bytes for a message, \<open>pb_encode\<close> writes exactly
  these bytes to a stream that has room for them, and \<open>pb_get_encoded_size\<close>, which runs the
  same code on a sizing stream, returns their number.
\<close>

theorem pb_encode_refines_wire:
  assumes "wire_message n (ee_mem E) fs src = Some bs" "os_room s (length bs)" "os_errmsg s = None"
  shows "pb_encode n E fs src s = Some (True, os_emit s bs) \<and>
    pb_get_encoded_size n E st fs src = Some (Some (length bs))"
  using emitsD [OF pb_encode_emits [OF assms(1)]] assms(2,3) os_room_size [OF assms(2)]
  by (simp add: pb_get_encoded_size_def)

text \<open>A message with fields 1 and 2 of type fixed32 at address 100.\<close>

definition sample_env :: "unit encode_env" where
  "sample_env = \<lparr>ee_mem = (\<lambda>a. if 100 \<le> a then of_nat (a - 99) else 0),
     ee_callback = (\<lambda>_ s _ _. (False, s)), ee_ext_encode = (\<lambda>_ s _. (False, s)), ee_ext_field = (\<lambda>_. PB_LAST_FIELD)\<rparr>"

theorem pb_encode_refines_wire_witness:
  "pb_get_encoded_size 1 sample_env () sample_fields 100 = Some (Some 10) \<and>
   pb_encode 1 sample_env sample_fields 100 (pb_ostream_from_buffer (\<lambda>_. 0) () 0 16) =
     Some (True, os_emit (pb_ostream_from_buffer (\<lambda>_. 0) () 0 16) [0x0D, 1, 2, 3, 4, 0x15, 5, 6, 7, 8])"
proof -
  have w: "wire_message 1 (ee_mem sample_env) sample_fields 100 = Some [0x0D, 1, 2, 3, 4, 0x15, 5, 6, 7, 8]"
    by (simp add: sample_env_def sample_fields_def tags_ok_def concat_opt_def wire_field_def wire_single_def wire_tag_def
        wire_value_def load_le_def mem_bytes_def le_bytes32_def upt_rec varint_bytes.simps pb_field_iter_begin_def
        pb_field_iter_next_def iter_field_def field_at_def PB_LTYPE_def PB_HTYPE_def PB_ATYPE_def Let_def)
  have "os_room (pb_ostream_from_buffer (\<lambda>_. 0) () 0 16) (length [0x0D, 1, 2, 3, 4, 0x15, 5, 6, 7, 8 :: u8])"
    by (simp add: pb_ostream_from_buffer_def os_room_def)
  from pb_encode_refines_wire [OF w this] show ?thesis by (simp add: pb_ostream_from_buffer_def)
qed

end
