(* ===== verification/Pb_Decode.thy ===== *)
theory Pb_Decode
  imports Pb_Encode
begin

text \<open>
  Decoding messages (\<open>pb_decode.c\<close>, built without malloc).  The state is the memory with the
  message and the input stream.  User code that the library calls through pointers is a
  parameter, as in the encoder.  \<open>None\<close> is undefined behaviour, a loop of user code that does
  not end, or that the nesting is deeper than the fuel.  A read that fails stores nothing.
\<close>

type_synonym memory = "nat \<Rightarrow> u8"

record 'st dec_state =
  ds_mem :: memory
  ds_stream :: "'st pb_istream"

record 'st decode_env =
  de_callback :: "nat \<Rightarrow> pb_field \<Rightarrow> nat \<Rightarrow> 'st dec_state \<Rightarrow> bool \<times> 'st dec_state"
  de_ext_decode :: "nat \<Rightarrow> nat \<Rightarrow> u32 \<Rightarrow> pb_wire_type_t \<Rightarrow> 'st dec_state \<Rightarrow> bool \<times> 'st dec_state"
  de_ext_field :: "nat \<Rightarrow> pb_field"

type_synonym 'st dec_result = "(bool \<times> 'st dec_state) option"

definition ds_fail :: "string \<Rightarrow> 'st dec_state \<Rightarrow> bool \<times> 'st dec_state" where
  "ds_fail msg d = (False, d\<lparr>ds_stream := is_set_error msg (ds_stream d)\<rparr>)"

text \<open>Store what was read, if the read succeeded.\<close>

definition ds_put :: "nat \<Rightarrow> u8 list option \<times> 'st pb_istream \<Rightarrow> 'st dec_state \<Rightarrow> bool \<times> 'st dec_state" where
  "ds_put p r d = (case r of
     (None, s) \<Rightarrow> (False, d\<lparr>ds_stream := s\<rparr>)
   | (Some bs, s) \<Rightarrow> (True, d\<lparr>ds_mem := store_bytes (ds_mem d) p bs, ds_stream := s\<rparr>))"

section \<open>Field decoders\<close>

text \<open>What is left of a value in a signed or unsigned member of \<open>data_size\<close> bytes.\<close>

definition clamp_signed :: "u32 \<Rightarrow> u64 \<Rightarrow> u64 option" where
  "clamp_signed data_size v =
    (if data_size = 8 then Some v
     else if data_size = 4 then Some (scast (ucast v :: u32))
     else if data_size = 2 then Some (scast (ucast v :: u16))
     else if data_size = 1 then Some (scast (ucast v :: u8))
     else None)"

definition clamp_unsigned :: "u32 \<Rightarrow> u64 \<Rightarrow> u64 option" where
  "clamp_unsigned data_size v =
    (if data_size = 8 then Some v
     else if data_size = 4 then Some (ucast (ucast v :: u32))
     else if data_size = 2 then Some (ucast (ucast v :: u16))
     else if data_size = 1 then Some (ucast (ucast v :: u8))
     else None)"

definition store_clamped ::
  "(u32 \<Rightarrow> u64 \<Rightarrow> u64 option) \<Rightarrow> pb_field \<Rightarrow> nat \<Rightarrow> u64 \<Rightarrow> 'st dec_state \<Rightarrow> bool \<times> 'st dec_state" where
  "store_clamped clamp field dest v d = (case clamp (pf_data_size field) v of
     None \<Rightarrow> ds_fail ''invalid data_size'' d
   | Some clamped \<Rightarrow>
       let d = d\<lparr>ds_mem := store_bytes (ds_mem d) dest (le_bytes (unat (pf_data_size field)) (unat v))\<rparr> in
       if clamped \<noteq> v then ds_fail ''integer too large'' d else (True, d))"

definition pb_dec_varint :: "pb_field \<Rightarrow> nat \<Rightarrow> 'st dec_state \<Rightarrow> bool \<times> 'st dec_state" where
  "pb_dec_varint field dest d = (case pb_decode_varint (ds_stream d) of
     (None, s) \<Rightarrow> (False, d\<lparr>ds_stream := s\<rparr>)
   | (Some value, s) \<Rightarrow>
       let svalue = (if pf_data_size field = 8 then value else scast (ucast value :: u32)) in
       store_clamped clamp_signed field dest svalue (d\<lparr>ds_stream := s\<rparr>))"

definition pb_dec_uvarint :: "pb_field \<Rightarrow> nat \<Rightarrow> 'st dec_state \<Rightarrow> bool \<times> 'st dec_state" where
  "pb_dec_uvarint field dest d = (case pb_decode_varint (ds_stream d) of
     (None, s) \<Rightarrow> (False, d\<lparr>ds_stream := s\<rparr>)
   | (Some value, s) \<Rightarrow> store_clamped clamp_unsigned field dest value (d\<lparr>ds_stream := s\<rparr>))"

definition pb_dec_svarint :: "pb_field \<Rightarrow> nat \<Rightarrow> 'st dec_state \<Rightarrow> bool \<times> 'st dec_state" where
  "pb_dec_svarint field dest d = (case pb_decode_svarint (ds_stream d) of
     (None, s) \<Rightarrow> (False, d\<lparr>ds_stream := s\<rparr>)
   | (Some value, s) \<Rightarrow> store_clamped clamp_signed field dest value (d\<lparr>ds_stream := s\<rparr>))"

definition pb_dec_fixed32 :: "pb_field \<Rightarrow> nat \<Rightarrow> 'st dec_state \<Rightarrow> bool \<times> 'st dec_state" where
  "pb_dec_fixed32 field dest d = (case pb_decode_fixed32 (ds_stream d) of
     (None, s) \<Rightarrow> (False, d\<lparr>ds_stream := s\<rparr>)
   | (Some v, s) \<Rightarrow> (True, d\<lparr>ds_mem := store_bytes (ds_mem d) dest (le_bytes 4 (unat v)), ds_stream := s\<rparr>))"

definition pb_dec_fixed64 :: "pb_field \<Rightarrow> nat \<Rightarrow> 'st dec_state \<Rightarrow> bool \<times> 'st dec_state" where
  "pb_dec_fixed64 field dest d = (case pb_decode_fixed64 (ds_stream d) of
     (None, s) \<Rightarrow> (False, d\<lparr>ds_stream := s\<rparr>)
   | (Some v, s) \<Rightarrow> (True, d\<lparr>ds_mem := store_bytes (ds_mem d) dest (le_bytes 8 (unat v)), ds_stream := s\<rparr>))"

definition pb_dec_bytes :: "pb_field \<Rightarrow> nat \<Rightarrow> 'st dec_state \<Rightarrow> bool \<times> 'st dec_state" where
  "pb_dec_bytes field dest d = (case pb_decode_varint32 (ds_stream d) of
     (None, s) \<Rightarrow> (False, d\<lparr>ds_stream := s\<rparr>)
   | (Some sz, s) \<Rightarrow>
       let d = d\<lparr>ds_stream := s\<rparr>; alloc_size = PB_BYTES_ARRAY_T_ALLOCSIZE (unat sz) in
       if PB_SIZE_MAX < sz then ds_fail ''bytes overflow'' d
       else if alloc_size < unat sz then ds_fail ''size too large'' d
       else if PB_ATYPE (pf_type field) = PB_ATYPE_POINTER then ds_fail ''no malloc support'' d
       else if unat (pf_data_size field) < alloc_size then ds_fail ''bytes overflow'' d
       else ds_put (dest + 4) (pb_read s False (unat sz))
         (d\<lparr>ds_mem := store_bytes (ds_mem d) dest (le_bytes 4 (unat sz))\<rparr>))"

text \<open>\<open>size + 1\<close> is computed in 32 bits.\<close>

definition pb_dec_string :: "pb_field \<Rightarrow> nat \<Rightarrow> 'st dec_state \<Rightarrow> bool \<times> 'st dec_state" where
  "pb_dec_string field dest d = (case pb_decode_varint32 (ds_stream d) of
     (None, s) \<Rightarrow> (False, d\<lparr>ds_stream := s\<rparr>)
   | (Some sz, s) \<Rightarrow>
       let d = d\<lparr>ds_stream := s\<rparr>; alloc_size = sz + 1 in
       if alloc_size < sz then ds_fail ''size too large'' d
       else if PB_ATYPE (pf_type field) = PB_ATYPE_POINTER then ds_fail ''no malloc support'' d
       else if pf_data_size field < alloc_size then ds_fail ''string overflow'' d
       else (case ds_put dest (pb_read s False (unat sz)) d of
         (status, d) \<Rightarrow> (status, d\<lparr>ds_mem := (ds_mem d)(dest + unat sz := 0)\<rparr>)))"

definition pb_dec_fixed_length_bytes :: "pb_field \<Rightarrow> nat \<Rightarrow> 'st dec_state \<Rightarrow> bool \<times> 'st dec_state" where
  "pb_dec_fixed_length_bytes field dest d = (case pb_decode_varint32 (ds_stream d) of
     (None, s) \<Rightarrow> (False, d\<lparr>ds_stream := s\<rparr>)
   | (Some sz, s) \<Rightarrow>
       let d = d\<lparr>ds_stream := s\<rparr>; n = unat (pf_data_size field) in
       if PB_SIZE_MAX < sz then ds_fail ''bytes overflow'' d
       else if sz = 0 then (True, d\<lparr>ds_mem := store_bytes (ds_mem d) dest (replicate n 0)\<rparr>)
       else if sz \<noteq> pf_data_size field then ds_fail ''incorrect fixed length bytes size'' d
       else ds_put dest (pb_read s False n) d)"

text \<open>
  A step on a substream of the string that follows in the stream; a step that returns false
  leaves the parent stream behind the string's length.
\<close>

definition on_substream :: "('st dec_state \<Rightarrow> 'st dec_result) \<Rightarrow> 'st dec_state \<Rightarrow> 'st pb_istream \<Rightarrow> 'st dec_result" where
  "on_substream f d substream = Option.bind (f (d\<lparr>ds_stream := substream\<rparr>)) (\<lambda>(status, d').
     case pb_close_string_substream (ds_stream d) (ds_stream d') of
       (ok, s) \<Rightarrow> Some (ok \<and> status, d'\<lparr>ds_stream := s\<rparr>))"

text \<open>In the following \<open>dec init\<close> is \<open>pb_decode\<close> or \<open>pb_decode_noinit\<close> for the messages one
  level down.\<close>

type_synonym 'st dec_fun = "bool \<Rightarrow> pb_field list \<Rightarrow> nat \<Rightarrow> 'st dec_state \<Rightarrow> 'st dec_result"

definition pb_dec_submessage :: "'st dec_fun \<Rightarrow> pb_field \<Rightarrow> nat \<Rightarrow> 'st dec_state \<Rightarrow> 'st dec_result" where
  "pb_dec_submessage dec field dest d = (case pb_make_string_substream (ds_stream d) of
     (None, s) \<Rightarrow> Some (False, d\<lparr>ds_stream := s\<rparr>)
   | (Some substream, s) \<Rightarrow>
       let d = d\<lparr>ds_stream := s\<rparr> in
       (case pf_ptr field of
          Null_ptr \<Rightarrow> Some (ds_fail ''invalid field descriptor'' d)
        | Submsg_fields fs \<Rightarrow> on_substream (dec (PB_HTYPE (pf_type field) = PB_HTYPE_REPEATED) fs dest) d substream
        | Default_value _ \<Rightarrow> None))"

text \<open>The call through the table \<open>PB_DECODERS\<close>; the entry for extensions is NULL.\<close>

definition PB_DECODERS :: "'st dec_fun \<Rightarrow> u8 \<Rightarrow> pb_field \<Rightarrow> nat \<Rightarrow> 'st dec_state \<Rightarrow> 'st dec_result" where
  "PB_DECODERS dec ltype field dest d =
    (if ltype = PB_LTYPE_VARINT then Some (pb_dec_varint field dest d)
     else if ltype = PB_LTYPE_UVARINT then Some (pb_dec_uvarint field dest d)
     else if ltype = PB_LTYPE_SVARINT then Some (pb_dec_svarint field dest d)
     else if ltype = PB_LTYPE_FIXED32 then Some (pb_dec_fixed32 field dest d)
     else if ltype = PB_LTYPE_FIXED64 then Some (pb_dec_fixed64 field dest d)
     else if ltype = PB_LTYPE_BYTES then Some (pb_dec_bytes field dest d)
     else if ltype = PB_LTYPE_STRING then Some (pb_dec_string field dest d)
     else if ltype = PB_LTYPE_SUBMESSAGE then pb_dec_submessage dec field dest d
     else if ltype = PB_LTYPE_FIXED_LENGTH_BYTES then Some (pb_dec_fixed_length_bytes field dest d)
     else None)"

section \<open>Default values\<close>

text \<open>
  A \<open>pb_extension_t\<close> has the pointers \<open>type\<close>, \<open>dest\<close> and \<open>next\<close> and the flag \<open>found\<close>, its
  type the pointers \<open>decode\<close>, \<open>encode\<close> and \<open>arg\<close>.
\<close>

definition iter_from_extension :: "'st decode_env \<Rightarrow> memory \<Rightarrow> nat \<Rightarrow> pb_field_iter" where
  "iter_from_extension E mem extension =
    (let field = de_ext_field E (load_le mem (load_le mem extension 8 + 16) 8);
         iter = snd (pb_field_iter_begin [field] (load_le mem (extension + 8) 8)) in
     iter\<lparr>it_pData := (if PB_ATYPE (pf_type field) = PB_ATYPE_POINTER then extension + 8
                       else load_le mem (extension + 8) 8),
          it_pSize := extension + 24\<rparr>)"

text \<open>The loop over the extensions of a field.\<close>

partial_function (option) ext_default_loop :: "(nat \<Rightarrow> memory \<Rightarrow> memory option) \<Rightarrow> nat \<Rightarrow> memory \<Rightarrow> memory option" where
  "ext_default_loop f ext mem =
    (if ext = 0 then Some mem
     else Option.bind (f ext mem) (\<lambda>mem'. ext_default_loop f (load_le mem' (ext + 16) 8) mem'))"

definition set_all_to_default ::
  "(pb_field_iter \<Rightarrow> memory \<Rightarrow> memory option) \<Rightarrow> pb_field list \<Rightarrow> nat \<Rightarrow> memory \<Rightarrow> memory option" where
  "set_all_to_default f fs dest_struct mem = (case pb_field_iter_begin fs dest_struct of
     (False, _) \<Rightarrow> Some mem
   | (True, iter) \<Rightarrow>
       (case iter_loop (\<lambda>iter mem. map_option Inr (f iter mem)) iter mem of
          None \<Rightarrow> None | Some (Inl ()) \<Rightarrow> None | Some (Inr (_, mem')) \<Rightarrow> Some mem'))"

fun pb_field_set_to_default :: "nat \<Rightarrow> 'st decode_env \<Rightarrow> pb_field_iter \<Rightarrow> memory \<Rightarrow> memory option" where
  "pb_field_set_to_default 0 E iter mem = None"
| "pb_field_set_to_default (Suc n) E iter mem =
    (let field = iter_field iter; ty = pf_type field; data_size = unat (pf_data_size field);
         pData = it_pData iter; pSize = it_pSize iter in
     if PB_LTYPE ty = PB_LTYPE_EXTENSION then
       ext_default_loop (\<lambda>ext mem. let mem = mem(ext + 24 := 0) in
           pb_field_set_to_default n E (iter_from_extension E mem ext) mem)
         (load_le mem pData 8) mem
     else if PB_ATYPE ty = PB_ATYPE_STATIC then
       (let optional = PB_HTYPE ty = PB_HTYPE_OPTIONAL \<and> pSize \<noteq> pData;
            mem = (if optional then mem(pSize := 0) else mem) in
        if PB_HTYPE ty = PB_HTYPE_REPEATED \<or> PB_HTYPE ty = PB_HTYPE_ONEOF
        then Some (store_bytes mem pSize (le_bytes 4 0))
        else if PB_LTYPE ty = PB_LTYPE_SUBMESSAGE then
          (case pf_ptr field of
             Submsg_fields fs \<Rightarrow> set_all_to_default (\<lambda>iter mem. pb_field_set_to_default n E iter mem) fs pData mem
           | _ \<Rightarrow> None)
        else (case pf_ptr field of
            Default_value bs \<Rightarrow>
              if length bs < data_size then None else Some (store_bytes mem pData (take data_size bs))
          | Null_ptr \<Rightarrow> Some (store_bytes mem pData (replicate data_size 0))
          | Submsg_fields _ \<Rightarrow> None))
     else if PB_ATYPE ty = PB_ATYPE_POINTER then
       let mem = store_bytes mem pData (replicate 8 0) in
       Some (if PB_HTYPE ty = PB_HTYPE_REPEATED \<or> PB_HTYPE ty = PB_HTYPE_ONEOF
             then store_bytes mem pSize (le_bytes 4 0) else mem)
     else Some mem)"

definition pb_message_set_to_defaults ::
  "nat \<Rightarrow> 'st decode_env \<Rightarrow> pb_field list \<Rightarrow> nat \<Rightarrow> memory \<Rightarrow> memory option" where
  "pb_message_set_to_defaults n E fs dest_struct mem = set_all_to_default (pb_field_set_to_default n E) fs dest_struct mem"

section \<open>Fields\<close>

text \<open>
  The loop over a packed array; \<open>f\<close> decodes an entry.  The address of an entry is computed
  with a 32-bit product.
\<close>

definition pItem :: "pb_field \<Rightarrow> nat \<Rightarrow> nat \<Rightarrow> nat" where
  "pItem field pData n = pData + unat (pf_data_size field * of_nat n)"

partial_function (option) packed_loop ::
  "(nat \<Rightarrow> 'st dec_state \<Rightarrow> 'st dec_result) \<Rightarrow> pb_field \<Rightarrow> nat \<Rightarrow> nat \<Rightarrow> 'st dec_state \<Rightarrow> 'st dec_result" where
  "packed_loop f field pData pSize d =
    (let n = load_le (ds_mem d) pSize 4 in
     if is_bytes_left (ds_stream d) = 0 \<or> unat (pf_array_size field) \<le> n then Some (True, d)
     else Option.bind (f (pItem field pData n) d) (\<lambda>(ok, d).
       if \<not> ok then Some (False, d)
       else
         let n = load_le (ds_mem d) pSize 4 in
         packed_loop f field pData pSize
           (d\<lparr>ds_mem := store_bytes (ds_mem d) pSize (le_bytes 4 (n + 1))\<rparr>)))"

definition decode_static_field ::
  "'st decode_env \<Rightarrow> 'st dec_fun \<Rightarrow> nat \<Rightarrow> pb_wire_type_t \<Rightarrow> pb_field_iter \<Rightarrow> 'st dec_state \<Rightarrow> 'st dec_result" where
  "decode_static_field E dec n wire_type iter d =
    (let field = iter_field iter; ty = pf_type field; func = PB_DECODERS dec (PB_LTYPE ty) field;
         pData = it_pData iter; pSize = it_pSize iter; mem = ds_mem d in
     if PB_HTYPE ty = PB_HTYPE_REQUIRED then func pData d
     else if PB_HTYPE ty = PB_HTYPE_OPTIONAL then
       func pData (if pSize \<noteq> pData then d\<lparr>ds_mem := mem(pSize := 1)\<rparr> else d)
     else if PB_HTYPE ty = PB_HTYPE_REPEATED then
       if wire_type = PB_WT_STRING \<and> PB_LTYPE ty \<le> PB_LTYPE_LAST_PACKABLE then
         (case pb_make_string_substream (ds_stream d) of
            (None, s) \<Rightarrow> Some (False, d\<lparr>ds_stream := s\<rparr>)
          | (Some substream, s) \<Rightarrow>
              Option.bind (packed_loop func field pData pSize (d\<lparr>ds_stream := substream\<rparr>)) (\<lambda>(status, d').
                if is_bytes_left (ds_stream d') \<noteq> 0 then Some (ds_fail ''array overflow'' (d'\<lparr>ds_stream := s\<rparr>))
                else (case pb_close_string_substream s (ds_stream d') of
                    (ok, s) \<Rightarrow> Some (ok \<and> status, d'\<lparr>ds_stream := s\<rparr>))))
       else
         (let count = load_le mem pSize 4 in
          if unat (pf_array_size field) \<le> count then Some (ds_fail ''array overflow'' d)
          else func (pItem field pData count) (d\<lparr>ds_mem := store_bytes mem pSize (le_bytes 4 (count + 1))\<rparr>))
     else
       let mem = store_bytes mem pSize (le_bytes 4 (unat (pf_tag field))) in
       if PB_LTYPE ty = PB_LTYPE_SUBMESSAGE then
         (case pf_ptr field of
            Submsg_fields fs \<Rightarrow>
              Option.bind (pb_message_set_to_defaults n E fs pData
                  (store_bytes mem pData (replicate (unat (pf_data_size field)) 0)))
                (\<lambda>mem. func pData (d\<lparr>ds_mem := mem\<rparr>))
          | _ \<Rightarrow> None)
       else func pData (d\<lparr>ds_mem := mem\<rparr>))"

definition decode_pointer_field :: "'st dec_state \<Rightarrow> bool \<times> 'st dec_state" where
  "decode_pointer_field d = ds_fail ''no malloc support'' d"

text \<open>The \<open>do ... while (substream.bytes_left)\<close> loop around the user's function.\<close>

partial_function (option) callback_loop ::
  "('st dec_state \<Rightarrow> bool \<times> 'st dec_state) \<Rightarrow> 'st dec_state \<Rightarrow> 'st dec_result" where
  "callback_loop f d = (case f d of (ok, d') \<Rightarrow>
     if \<not> ok then Some (False, d')
     else if is_bytes_left (ds_stream d') \<noteq> 0 then callback_loop f d' else Some (True, d'))"

definition decode_callback_field ::
  "'st decode_env \<Rightarrow> pb_wire_type_t \<Rightarrow> pb_field_iter \<Rightarrow> 'st dec_state \<Rightarrow> 'st dec_result" where
  "decode_callback_field E wire_type iter d =
    (let pCallback = it_pData iter; f = load_le (ds_mem d) pCallback 8;
         call = de_callback E f (iter_field iter) (pCallback + 8) in
     if f = 0 then (case pb_skip_field (ds_stream d) wire_type of (ok, s) \<Rightarrow> Some (ok, d\<lparr>ds_stream := s\<rparr>))
     else if wire_type = PB_WT_STRING then
       (case pb_make_string_substream (ds_stream d) of
          (None, s) \<Rightarrow> Some (False, d\<lparr>ds_stream := s\<rparr>)
        | (Some substream, s) \<Rightarrow>
            Option.bind (callback_loop call (d\<lparr>ds_stream := substream\<rparr>)) (\<lambda>(ok, d').
              if \<not> ok then Some (ds_fail ''callback failed'' (d'\<lparr>ds_stream := s\<rparr>))
              else (case pb_close_string_substream s (ds_stream d') of (ok, s) \<Rightarrow> Some (ok, d'\<lparr>ds_stream := s\<rparr>))))
     else
       (case read_raw_value (ds_stream d) wire_type 10 of
          (None, s) \<Rightarrow> Some (False, d\<lparr>ds_stream := s\<rparr>)
        | (Some buffer, s) \<Rightarrow>
            (case call (d\<lparr>ds_stream := pb_istream_from_buffer (is_ustate s) buffer (length buffer)\<rparr>) of
               (ok, d') \<Rightarrow> Some (ok, d'\<lparr>ds_stream := s\<rparr>))))"

definition decode_field ::
  "'st decode_env \<Rightarrow> 'st dec_fun \<Rightarrow> nat \<Rightarrow> pb_wire_type_t \<Rightarrow> pb_field_iter \<Rightarrow> 'st dec_state \<Rightarrow> 'st dec_result" where
  "decode_field E dec n wire_type iter d =
    (let a = PB_ATYPE (pf_type (iter_field iter)) in
     if a = PB_ATYPE_STATIC then decode_static_field E dec n wire_type iter d
     else if a = PB_ATYPE_POINTER then Some (decode_pointer_field d)
     else if a = PB_ATYPE_CALLBACK then decode_callback_field E wire_type iter d
     else Some (ds_fail ''invalid field type'' d))"

definition default_extension_decoder ::
  "'st decode_env \<Rightarrow> 'st dec_fun \<Rightarrow> nat \<Rightarrow> nat \<Rightarrow> u32 \<Rightarrow> pb_wire_type_t \<Rightarrow> 'st dec_state \<Rightarrow> 'st dec_result" where
  "default_extension_decoder E dec n extension tag wire_type d =
    (let mem = ds_mem d; field = de_ext_field E (load_le mem (load_le mem extension 8 + 16) 8) in
     if pf_tag field \<noteq> tag then Some (True, d)
     else decode_field E dec n wire_type (iter_from_extension E mem extension)
       (d\<lparr>ds_mem := mem(extension + 24 := 1)\<rparr>))"

partial_function (option) extension_decode_loop ::
  "(nat \<Rightarrow> 'st dec_state \<Rightarrow> 'st dec_result) \<Rightarrow> size_t \<Rightarrow> nat \<Rightarrow> 'st dec_state \<Rightarrow> 'st dec_result" where
  "extension_decode_loop f pos extension d =
    (if extension = 0 \<or> pos \<noteq> is_bytes_left (ds_stream d) then Some (True, d)
     else Option.bind (f extension d) (\<lambda>(status, d').
       if \<not> status then Some (False, d')
       else extension_decode_loop f pos (load_le (ds_mem d') (extension + 16) 8) d'))"

definition decode_extension ::
  "'st decode_env \<Rightarrow> 'st dec_fun \<Rightarrow> nat \<Rightarrow> u32 \<Rightarrow> pb_wire_type_t \<Rightarrow> pb_field_iter \<Rightarrow> 'st dec_state \<Rightarrow> 'st dec_result" where
  "decode_extension E dec n tag wire_type iter d =
    extension_decode_loop (\<lambda>extension d.
        let f = load_le (ds_mem d) (load_le (ds_mem d) extension 8) 8 in
        if f \<noteq> 0 then Some (de_ext_decode E f extension tag wire_type d)
        else default_extension_decoder E dec n extension tag wire_type d)
      (is_bytes_left (ds_stream d)) (load_le (ds_mem d) (it_pData iter) 8) d"

definition find_extension_field :: "pb_field_iter \<Rightarrow> (bool \<times> pb_field_iter) option" where
  "find_extension_field iter =
    find_loop (it_pos iter) (\<lambda>pos. PB_LTYPE (pf_type pos) = PB_LTYPE_EXTENSION) iter"

section \<open>Messages\<close>

abbreviation PB_MAX_REQUIRED_FIELDS :: nat where "PB_MAX_REQUIRED_FIELDS \<equiv> 64"

text \<open>
  What the loop of \<open>pb_decode_noinit\<close> carries: the iterator, the tag from which on a field may
  be an extension, and the bits of the required fields seen.
\<close>

record scan =
  sc_iter :: pb_field_iter
  sc_extension_range_start :: u32
  sc_fields_seen :: "u32 list"

definition mark_seen :: "pb_field_iter \<Rightarrow> u32 list \<Rightarrow> u32 list" where
  "mark_seen iter seen =
    (let i = it_required_field_index iter in
     if PB_HTYPE (pf_type (iter_field iter)) = PB_HTYPE_REQUIRED \<and> i < PB_MAX_REQUIRED_FIELDS
     then seen[i div 32 := seen ! (i div 32) OR push_bit (i mod 32) 1] else seen)"

definition skip_unknown :: "pb_wire_type_t \<Rightarrow> scan \<Rightarrow> 'st dec_state \<Rightarrow> (bool \<times> scan \<times> 'st dec_state) option" where
  "skip_unknown wire_type c d =
    (case pb_skip_field (ds_stream d) wire_type of (ok, s) \<Rightarrow> Some (ok, c, d\<lparr>ds_stream := s\<rparr>))"

definition decode_unknown ::
  "'st decode_env \<Rightarrow> 'st dec_fun \<Rightarrow> nat \<Rightarrow> u32 \<Rightarrow> pb_wire_type_t \<Rightarrow> scan \<Rightarrow> 'st dec_state \<Rightarrow>
   (bool \<times> scan \<times> 'st dec_state) option" where
  "decode_unknown E dec n tag wire_type c d =
    (if tag < sc_extension_range_start c then skip_unknown wire_type c d
     else Option.bind (find_extension_field (sc_iter c)) (\<lambda>(found, iter).
       let start = (if found then pf_tag (iter_field iter) else - 1);
           c = c\<lparr>sc_iter := iter, sc_extension_range_start := start\<rparr> in
       if tag < start then skip_unknown wire_type c d
       else Option.bind (decode_extension E dec n tag wire_type iter d) (\<lambda>(ok, d').
         if \<not> ok then Some (False, c, d')
         else if is_bytes_left (ds_stream d) \<noteq> is_bytes_left (ds_stream d') then Some (True, c, d')
         else skip_unknown wire_type c d')))"

text \<open>One turn of the loop with a tag that was read.\<close>

definition decode_tagged ::
  "'st decode_env \<Rightarrow> 'st dec_fun \<Rightarrow> nat \<Rightarrow> u32 \<Rightarrow> pb_wire_type_t \<Rightarrow> scan \<Rightarrow> 'st dec_state \<Rightarrow>
   (bool \<times> scan \<times> 'st dec_state) option" where
  "decode_tagged E dec n tag wire_type c d = Option.bind (pb_field_iter_find (sc_iter c) tag) (\<lambda>(found, iter).
     if \<not> found then decode_unknown E dec n tag wire_type (c\<lparr>sc_iter := iter\<rparr>) d
     else
       let c = c\<lparr>sc_iter := iter, sc_fields_seen := mark_seen iter (sc_fields_seen c)\<rparr> in
       map_option (\<lambda>(ok, d'). (ok, c, d')) (decode_field E dec n wire_type iter d))"

partial_function (option) decode_loop ::
  "(u32 \<Rightarrow> pb_wire_type_t \<Rightarrow> scan \<Rightarrow> 'st dec_state \<Rightarrow> (bool \<times> scan \<times> 'st dec_state) option) \<Rightarrow>
   scan \<Rightarrow> 'st dec_state \<Rightarrow> (bool \<times> scan \<times> 'st dec_state) option" where
  "decode_loop turn c d =
    (if is_bytes_left (ds_stream d) = 0 then Some (True, c, d)
     else (case pb_decode_tag (ds_stream d) of (ok, wire_type, tag, eof, s) \<Rightarrow>
         if \<not> ok then Some (eof, c, d\<lparr>ds_stream := s\<rparr>)
         else Option.bind (turn tag wire_type c (d\<lparr>ds_stream := s\<rparr>)) (\<lambda>(ok, c, d).
           if \<not> ok then Some (False, c, d) else decode_loop turn c d)))"

text \<open>The number of required fields: the loop that seeks to the end of the fields.\<close>

definition req_field_count :: "pb_field_iter \<Rightarrow> nat option" where
  "req_field_count iter =
    (case iter_loop (\<lambda>iter _. Some (Inr (it_required_field_index iter, pf_type (iter_field iter)))) iter (0, 0) of
       Some (Inr (iter, n, last_type)) \<Rightarrow>
         Some (if PB_HTYPE last_type = PB_HTYPE_REQUIRED \<and> pf_tag (iter_field iter) \<noteq> 0 then (n + 1) mod 2 ^ 32 else n)
     | Some (Inl ()) \<Rightarrow> None
     | None \<Rightarrow> None)"

text \<open>
  The check of the required fields.  The array has two words; reading behind it and shifting
  by 32 are undefined.
\<close>

definition required_seen :: "nat \<Rightarrow> u32 list \<Rightarrow> bool option" where
  "required_seen n seen =
    (if n = 0 then Some True
     else if \<exists>i < min (n div 32) (length seen). seen ! i \<noteq> - 1 then Some False
     else if length seen \<le> n div 32 \<or> n mod 32 = 0 then None
     else Some (seen ! (n div 32) = drop_bit (32 - n mod 32) (- 1)))"

text \<open>The first argument is the fuel for nested messages.\<close>

fun pb_decode_noinit ::
  "nat \<Rightarrow> 'st decode_env \<Rightarrow> pb_field list \<Rightarrow> nat \<Rightarrow> 'st dec_state \<Rightarrow> 'st dec_result" where
  "pb_decode_noinit 0 E fs dest_struct d = None"
| "pb_decode_noinit (Suc n) E fs dest_struct d =
    (let dec = (\<lambda>init fs p d. Option.bind
           (if init then pb_message_set_to_defaults n E fs p (ds_mem d) else Some (ds_mem d))
           (\<lambda>mem. pb_decode_noinit n E fs p (d\<lparr>ds_mem := mem\<rparr>)));
         iter = snd (pb_field_iter_begin fs dest_struct) in
     Option.bind (decode_loop (decode_tagged E dec n)
         \<lparr>sc_iter = iter, sc_extension_range_start = 0, sc_fields_seen = [0, 0]\<rparr> d)
       (\<lambda>(ok, c, d).
         if \<not> ok then Some (False, d)
         else Option.bind (req_field_count (sc_iter c)) (\<lambda>count.
           map_option (\<lambda>seen. if seen then (True, d) else ds_fail ''missing required field'' d)
             (required_seen count (sc_fields_seen c)))))"

definition pb_decode ::
  "nat \<Rightarrow> 'st decode_env \<Rightarrow> pb_field list \<Rightarrow> nat \<Rightarrow> 'st dec_state \<Rightarrow> 'st dec_result" where
  "pb_decode n E fs dest_struct d = Option.bind (pb_message_set_to_defaults n E fs dest_struct (ds_mem d))
     (\<lambda>mem. pb_decode_noinit n E fs dest_struct (d\<lparr>ds_mem := mem\<rparr>))"

definition pb_decode_delimited ::
  "nat \<Rightarrow> 'st decode_env \<Rightarrow> pb_field list \<Rightarrow> nat \<Rightarrow> 'st dec_state \<Rightarrow> 'st dec_result" where
  "pb_decode_delimited n E fs dest_struct d = (case pb_make_string_substream (ds_stream d) of
     (None, s) \<Rightarrow> Some (False, d\<lparr>ds_stream := s\<rparr>)
   | (Some substream, s) \<Rightarrow> on_substream (pb_decode n E fs dest_struct) (d\<lparr>ds_stream := s\<rparr>) substream)"


section \<open>Values are read back\<close>

lemma le_bytes_Suc: "le_bytes (Suc k) n = of_nat n # le_bytes k (n div 256)"
  by (simp add: le_bytes_def upt_rec [of 0] map_Suc_upt [symmetric] div_mult2_eq del: upt_Suc)

lemma le_bytes_value [simp]: "le_bytes (length bs) (le_value bs) = bs"
proof (induction bs)
  case (Cons b bs)
  have "unat b < 256" using unsigned_less [of b] by simp
  then have "(unat b + 256 * le_value bs) div 256 = le_value bs" by linarith
  moreover have "(of_nat (unat b + 256 * le_value bs) :: u8) = b"
    by (rule word_unat_eq_iff [THEN iffD2]) (simp add: unat_of_nat del: of_nat_add of_nat_mult)
  ultimately show ?case using Cons by (simp add: le_bytes_Suc del: of_nat_add of_nat_mult)
qed (simp add: le_bytes_def)

lemma le_bytes_load [simp]: "le_bytes k (load_le mem p k) = mem_bytes mem p k"
  using le_bytes_value [of "mem_bytes mem p k"] by (simp add: load_le_def)

lemma le_bytes_mod: "m mod 256 ^ k = n mod 256 ^ k \<Longrightarrow> le_bytes k m = le_bytes k n"
  using le_bytes_value [of "le_bytes k m"] le_bytes_value [of "le_bytes k n"]
  by (simp add: le_value_le_bytes)

lemma load_le_less: "load_le mem p k < 256 ^ k"
  using le_value_less [of "mem_bytes mem p k"] by (simp add: load_le_def)

text \<open>A member widened to 64 bits is stored back as the bytes it was loaded from.\<close>

lemma unat_ucast_mod: "LENGTH('b) = 8 * k \<Longrightarrow> unat (v :: u64) mod 256 ^ k = unat (ucast v :: 'b::len word)"
  by (simp add: unsigned_ucast_eq take_bit_eq_mod power_mult)

lemma sign_back:
  "scast (ucast (scast (a :: u8) :: u64) :: u32) = (scast a :: u64)" "scast (ucast (scast a :: u64) :: u8) = (scast a :: u64)"
  "scast (ucast (scast (b :: u16) :: u64) :: u32) = (scast b :: u64)" "scast (ucast (scast b :: u64) :: u16) = (scast b :: u64)"
  "scast (ucast (scast (c :: u32) :: u64) :: u32) = (scast c :: u64)"
  by (rule bit_word_eqI, auto simp: bit_simps min_def not_less)+

lemma low_back:
  "ucast (scast (a :: u8) :: u64) = a" "ucast (scast (b :: u16) :: u64) = b" "ucast (scast (c :: u32) :: u64) = c"
  by (rule bit_word_eqI, auto simp: bit_simps)+

lemma load_signed_back:
  assumes "load_signed mem src sz = Some v"
  shows "clamp_signed sz v = Some v" "le_bytes (unat sz) (unat v) = mem_bytes mem src (unat sz)"
    "sz \<noteq> 8 \<Longrightarrow> scast (ucast v :: u32) = v"
proof -
  have b: "load_le mem src 1 < 2 ^ 8" "load_le mem src 2 < 2 ^ 16" "load_le mem src 4 < 2 ^ 32" "load_le mem src 8 < 2 ^ 64"
    using load_le_less [of mem src 1] load_le_less [of mem src 2] load_le_less [of mem src 4] load_le_less [of mem src 8]
    by simp_all
  from assms consider "sz = 1" "v = scast (of_nat (load_le mem src 1) :: u8)" | "sz = 2" "v = scast (of_nat (load_le mem src 2) :: u16)"
    | "sz = 4" "v = scast (of_nat (load_le mem src 4) :: u32)" | "sz = 8" "v = of_nat (load_le mem src 8)"
    by (auto simp: load_signed_def split: if_splits)
  note c = this
  show "clamp_signed sz v = Some v"
    using c by cases (simp_all add: clamp_signed_def sign_back)
  show "sz \<noteq> 8 \<Longrightarrow> scast (ucast v :: u32) = v"
    using c by cases (simp_all add: sign_back)
  have bk: "le_bytes k (unat v) = mem_bytes mem src k" if "unat v mod 256 ^ k = load_le mem src k" for k
    using le_bytes_mod [of "unat v" k "load_le mem src k"] load_le_less [of mem src k] that by simp
  show "le_bytes (unat sz) (unat v) = mem_bytes mem src (unat sz)"
    using c
  proof cases
    case 1 then show ?thesis using unat_ucast_mod [where 'b = 8 and v = v and k = 1] b bk [of 1] by (simp add: unat_of_nat low_back)
  next
    case 2 then show ?thesis using unat_ucast_mod [where 'b = 16 and v = v and k = 2] b bk [of 2] by (simp add: unat_of_nat low_back)
  next
    case 3 then show ?thesis using unat_ucast_mod [where 'b = 32 and v = v and k = 4] b bk [of 4] by (simp add: unat_of_nat low_back)
  next
    case 4 then show ?thesis using b bk [of 8] by (simp add: unat_of_nat)
  qed
qed

lemma load_unsigned_back:
  assumes "load_unsigned mem src sz = Some v"
  shows "clamp_unsigned sz v = Some v" "le_bytes (unat sz) (unat v) = mem_bytes mem src (unat sz)"
proof -
  have sz: "sz \<in> {1, 2, 4, 8}" "v = of_nat (load_le mem src (unat sz))"
    using assms by (auto simp: load_unsigned_def split: if_splits)
  have k: "unat sz \<le> 8" using sz(1) by auto
  have "load_le mem src (unat sz) < 2 ^ 64"
    using load_le_less [of mem src "unat sz"] power_increasing [OF k, of "256 :: nat"] by simp
  then have v: "unat v = load_le mem src (unat sz)" by (simp add: sz(2) unat_of_nat)
  then show "le_bytes (unat sz) (unat v) = mem_bytes mem src (unat sz)" by simp
  have b: "load_le mem src 1 < 2 ^ 8" "load_le mem src 2 < 2 ^ 16" "load_le mem src 4 < 2 ^ 32"
    using load_le_less [of mem src 1] load_le_less [of mem src 2] load_le_less [of mem src 4] by simp_all
  show "clamp_unsigned sz v = Some v"
    using sz(1) v b by (auto simp: clamp_unsigned_def word_unat_eq_iff unsigned_ucast_eq take_bit_eq_mod unat_mod_distrib)
qed

text \<open>The bytes of memory that hold a value.\<close>

definition value_size :: "memory \<Rightarrow> pb_field \<Rightarrow> nat \<Rightarrow> nat" where
  "value_size mem field src =
    (let l = PB_LTYPE (pf_type field); n = unat (pf_data_size field) in
     if l = PB_LTYPE_FIXED32 then 4
     else if l = PB_LTYPE_FIXED64 then 8
     else if l = PB_LTYPE_BYTES then 4 + load_le mem src 4
     else if l = PB_LTYPE_STRING then strnlen_mem mem src n + 1
     else n)"

text \<open>A string must end within its array.\<close>

definition value_ok :: "memory \<Rightarrow> pb_field \<Rightarrow> nat \<Rightarrow> bool" where
  "value_ok mem field src \<longleftrightarrow>
    (let n = unat (pf_data_size field) in
     src \<noteq> 0 \<and> (PB_LTYPE (pf_type field) = PB_LTYPE_STRING \<longrightarrow> strnlen_mem mem src n < n))"

lemma strnlen_mem_end: "strnlen_mem mem p n < n \<Longrightarrow> mem (p + strnlen_mem mem p n) = 0"
  by (induction mem p n rule: strnlen_mem.induct) (auto split: if_splits)

lemma mem_bytes_add: "mem_bytes mem p (m + n) = mem_bytes mem p m @ mem_bytes mem (p + m) n"
  using upt_add_eq_append [of p "p + m" n] by (simp add: mem_bytes_def add.assoc)

lemma unat_u32_less: "unat (w :: u32) < 4294967296"
  using unsigned_less [of w, where ?'a = nat] by simp

lemma not_size_max_less: "\<not> PB_SIZE_MAX < (w :: u32)"
  by (simp add: not_less word_order.extremum)

lemma varint32_bytes: "n < 2 ^ 32 \<Longrightarrow> varint_bytes (of_nat n) = varint_bytes (ucast (of_nat n :: u32))"
  by (simp add: ucast_of_nat_32_64)

context pb_source begin

text \<open>
  \<open>reads P f bs g\<close>: on a stream that has \<open>bs\<close> next and a memory with \<open>P\<close>, the step \<open>f\<close>
  succeeds, takes \<open>bs\<close> and changes the memory by \<open>g\<close>.
\<close>

definition reads ::
  "(memory \<Rightarrow> bool) \<Rightarrow> ('st dec_state \<Rightarrow> 'st dec_result) \<Rightarrow> u8 list \<Rightarrow> (memory \<Rightarrow> memory) \<Rightarrow> bool" where
  "reads P f bs g \<longleftrightarrow> (\<forall>d r. good (ds_stream d) \<longrightarrow> avail (ds_stream d) = bs @ r \<longrightarrow> P (ds_mem d) \<longrightarrow>
     f d = Some (True, d\<lparr>ds_mem := g (ds_mem d), ds_stream := is_consume adv (ds_stream d) (length bs)\<rparr>))"

lemma readsI:
  "(\<And>d r. good (ds_stream d) \<Longrightarrow> avail (ds_stream d) = bs @ r \<Longrightarrow> P (ds_mem d) \<Longrightarrow>
     f d = Some (True, d\<lparr>ds_mem := g (ds_mem d), ds_stream := is_consume adv (ds_stream d) (length bs)\<rparr>)) \<Longrightarrow>
   reads P f bs g"
  by (simp add: reads_def)

lemma readsD:
  "reads P f bs g \<Longrightarrow> good (ds_stream d) \<Longrightarrow> avail (ds_stream d) = bs @ r \<Longrightarrow> P (ds_mem d) \<Longrightarrow>
     f d = Some (True, d\<lparr>ds_mem := g (ds_mem d), ds_stream := is_consume adv (ds_stream d) (length bs)\<rparr>)"
  by (simp add: reads_def)

lemma reads_signed:
  assumes v: "load_signed mem src (pf_data_size field) = Some v"
  shows "reads P (\<lambda>d. Some (pb_dec_varint field dest d)) (varint_bytes v)
      (\<lambda>m. store_bytes m dest (mem_bytes mem src (unat (pf_data_size field))))"
    and "reads P (\<lambda>d. Some (pb_dec_svarint field dest d)) (varint_bytes (zigzag_enc v))
      (\<lambda>m. store_bytes m dest (mem_bytes mem src (unat (pf_data_size field))))"
  using load_signed_back [OF v]
  by (auto intro!: readsI simp: pb_dec_varint_def pb_dec_svarint_def store_clamped_def pb_decode_varint_good
      pb_decode_svarint_good)

lemma reads_unsigned:
  assumes v: "load_unsigned mem src (pf_data_size field) = Some v"
  shows "reads P (\<lambda>d. Some (pb_dec_uvarint field dest d)) (varint_bytes v)
    (\<lambda>m. store_bytes m dest (mem_bytes mem src (unat (pf_data_size field))))"
  using load_unsigned_back [OF v]
  by (auto intro!: readsI simp: pb_dec_uvarint_def store_clamped_def pb_decode_varint_good)

lemma reads_fixed:
  "reads P (\<lambda>d. Some (pb_dec_fixed32 field dest d)) (le_bytes32 (of_nat (load_le mem src 4)))
    (\<lambda>m. store_bytes m dest (mem_bytes mem src 4))"
  "reads P (\<lambda>d. Some (pb_dec_fixed64 field dest d)) (le_bytes64 (of_nat (load_le mem src 8)))
    (\<lambda>m. store_bytes m dest (mem_bytes mem src 8))"
  using load_le_less [of mem src 4] load_le_less [of mem src 8]
  by (auto intro!: readsI simp: pb_dec_fixed32_def pb_dec_fixed64_def pb_decode_fixed32_good pb_decode_fixed64_good unat_of_nat)

lemma reads_header:
  assumes "good s" "avail s = string_bytes bs @ r" "length bs < 2 ^ 32"
  defines "n \<equiv> length (varint_bytes (of_nat (length bs)))"
  shows "pb_decode_varint32 s = (Some (of_nat (length bs)), is_consume adv s n)"
    and "pb_read (is_consume adv s n) False (length bs) = (Some bs, is_consume adv s (n + length bs))"
    and "length (string_bytes bs) = n + length bs"
proof -
  have n: "n \<le> is_bytes_left s" "length bs \<le> is_bytes_left s - n"
    using length_avail [OF assms(1)] assms(2) by (simp_all add: n_def string_bytes_def)
  show "pb_decode_varint32 s = (Some (of_nat (length bs)), is_consume adv s n)"
    using pb_decode_varint32_good [OF assms(1), of "of_nat (length bs)" "bs @ r"] assms(2,3)
    by (simp add: n_def string_bytes_def ucast_of_nat_32_64)
  show "pb_read (is_consume adv s n) False (length bs) = (Some bs, is_consume adv s (n + length bs))"
    using pb_read_good(1) [of "is_consume adv s n" "length bs"] assms(1,2) n
    by (simp add: n_def string_bytes_def)
qed (simp add: string_bytes_def n_def)

lemma reads_bytes:
  assumes size: "length bs < 2 ^ 32 - 4" "length bs + 4 \<le> unat (pf_data_size field)"
    and static: "PB_ATYPE (pf_type field) = PB_ATYPE_STATIC"
  shows "reads P (\<lambda>d. Some (pb_dec_bytes field dest d)) (string_bytes bs)
    (\<lambda>m. store_bytes m dest (le_bytes 4 (length bs) @ bs))"
proof (rule readsI)
  fix d :: "'st dec_state" and r assume d: "good (ds_stream d)" "avail (ds_stream d) = string_bytes bs @ r"
  have l: "length bs < 2 ^ 32" "unat (of_nat (length bs) :: u32) = length bs" using size by (simp_all add: unat_of_nat)
  have a: "PB_BYTES_ARRAY_T_ALLOCSIZE (length bs) = length bs + 4"
    using size by (simp add: PB_BYTES_ARRAY_T_ALLOCSIZE_def size_add_def)
  show "Some (pb_dec_bytes field dest d) = Some (True, d\<lparr>ds_mem := store_bytes (ds_mem d) dest (le_bytes 4 (length bs) @ bs),
     ds_stream := is_consume adv (ds_stream d) (length (string_bytes bs))\<rparr>)"
    using reads_header [OF d l(1)] size(2)
    by (simp add: pb_dec_bytes_def l(2) a static ds_put_def store_bytes_append not_size_max_less Let_def)
qed

lemma reads_string:
  assumes size: "length bs < unat (pf_data_size field)"
    and static: "PB_ATYPE (pf_type field) = PB_ATYPE_STATIC"
  shows "reads P (\<lambda>d. Some (pb_dec_string field dest d)) (string_bytes bs) (\<lambda>m. store_bytes m dest (bs @ [0]))"
proof (rule readsI)
  fix d :: "'st dec_state" and r assume d: "good (ds_stream d)" "avail (ds_stream d) = string_bytes bs @ r"
  have l: "length bs + 1 < 2 ^ 32" using size unat_u32_less [of "pf_data_size field"] by (simp, linarith)
  have w: "unat (of_nat (length bs) :: u32) = length bs" "unat (of_nat (length bs) + 1 :: u32) = length bs + 1"
    using l by (simp_all add: unat_of_nat unat_word_ariths)
  have "\<not> of_nat (length bs) + 1 < (of_nat (length bs) :: u32)" "\<not> pf_data_size field < of_nat (length bs) + 1"
    unfolding word_less_nat_alt w using size by simp_all
  then show "Some (pb_dec_string field dest d) = Some (True, d\<lparr>ds_mem := store_bytes (ds_mem d) dest (bs @ [0]),
     ds_stream := is_consume adv (ds_stream d) (length (string_bytes bs))\<rparr>)"
    using reads_header [OF d] l w(1)
    by (simp add: pb_dec_string_def static ds_put_def store_bytes_append Let_def)
qed

lemma reads_fixed_length:
  assumes size: "length bs = unat (pf_data_size field)"
  shows "reads P (\<lambda>d. Some (pb_dec_fixed_length_bytes field dest d)) (string_bytes bs) (\<lambda>m. store_bytes m dest bs)"
proof (rule readsI)
  fix d :: "'st dec_state" and r assume d: "good (ds_stream d)" "avail (ds_stream d) = string_bytes bs @ r"
  have l: "length bs < 2 ^ 32" using size unat_u32_less [of "pf_data_size field"] by simp
  have w: "of_nat (length bs) = pf_data_size field" by (simp add: size)
  show "Some (pb_dec_fixed_length_bytes field dest d) = Some (True, d\<lparr>ds_mem := store_bytes (ds_mem d) dest bs,
     ds_stream := is_consume adv (ds_stream d) (length (string_bytes bs))\<rparr>)"
  proof (cases "bs = []")
    case True
    then show ?thesis using reads_header [OF d l] w size by (simp add: pb_dec_fixed_length_bytes_def not_size_max_less Let_def)
  next
    case False
    then have "pf_data_size field \<noteq> 0" using size by auto
    then show ?thesis using reads_header [OF d l] w size
      by (simp add: pb_dec_fixed_length_bytes_def ds_put_def not_size_max_less Let_def)
  qed
qed

lemma reads_value:
  assumes w: "wire_value mem sub field src = Some bs" and ok: "value_ok mem field src"
    and static: "PB_ATYPE (pf_type field) = PB_ATYPE_STATIC"
    and l: "PB_LTYPE (pf_type field) \<noteq> PB_LTYPE_SUBMESSAGE"
  shows "reads P (PB_DECODERS dec (PB_LTYPE (pf_type field)) field dest) bs
    (\<lambda>m. store_bytes m dest (mem_bytes mem src (value_size mem field src)))"
proof -
  have bytes: "load_le mem src 4 < 2 ^ 32 - 4" "mem_bytes mem src (4 + load_le mem src 4) = 
      le_bytes 4 (load_le mem src 4) @ mem_bytes mem (src + 4) (load_le mem src 4)"
    if "\<not> unat (pf_data_size field) < load_le mem src 4 + 4"
    using that unat_u32_less [of "pf_data_size field"] by (simp_all add: mem_bytes_add, linarith)
  let ?k = "strnlen_mem mem src (unat (pf_data_size field))"
  have str: "mem_bytes mem src (?k + 1) = mem_bytes mem src ?k @ [0]"
    if "PB_LTYPE (pf_type field) = PB_LTYPE_STRING"
    using ok that strnlen_mem_end [of mem src "unat (pf_data_size field)"] mem_bytes_add [of mem src ?k 1]
    by (simp add: value_ok_def Let_def mem_bytes_def)
  consider "PB_LTYPE (pf_type field) = PB_LTYPE_BYTES" | "PB_LTYPE (pf_type field) = PB_LTYPE_STRING"
    | "PB_LTYPE (pf_type field) \<noteq> PB_LTYPE_BYTES" "PB_LTYPE (pf_type field) \<noteq> PB_LTYPE_STRING" by blast
  then show ?thesis
  proof cases
    case 1
    with w ok have b: "bs = string_bytes (mem_bytes mem (src + 4) (load_le mem src 4))"
      and size: "\<not> unat (pf_data_size field) < load_le mem src 4 + 4"
      by (auto simp: wire_value_def value_ok_def Let_def split: if_splits)
    show ?thesis
      using reads_bytes [of "mem_bytes mem (src + 4) (load_le mem src 4)" field P dest, OF _ _ static] bytes [OF size] size 1
      by (simp add: b PB_DECODERS_def [abs_def] value_size_def Let_def)
  next
    case 2
    with w ok have b: "bs = string_bytes (mem_bytes mem src ?k)" and size: "?k < unat (pf_data_size field)"
      by (auto simp: wire_value_def value_ok_def Let_def split: if_splits)
    show ?thesis
      using reads_string [of "mem_bytes mem src ?k" field P dest, OF _ static] str [OF 2] size 2
      by (simp add: b PB_DECODERS_def [abs_def] value_size_def Let_def)
  next
    case 3
    with w ok l show ?thesis
      unfolding wire_value_def Let_def
      by (auto split: if_splits simp: PB_DECODERS_def [abs_def] value_size_def value_ok_def Let_def
          intro!: reads_signed reads_unsigned reads_fixed reads_fixed_length)
  qed
qed

end


section \<open>The check of the required fields\<close>

abbreviation field_seen :: "u32 list \<Rightarrow> nat \<Rightarrow> bool" where
  "field_seen seen i \<equiv> bit (seen ! (i div 32)) (i mod 32)"

lemma mark_seen_spec:
  assumes "length seen = 2" "i < 64"
  shows "length (mark_seen iter seen) = 2" and
    "field_seen (mark_seen iter seen) i \<longleftrightarrow> field_seen seen i \<or>
      PB_HTYPE (pf_type (iter_field iter)) = PB_HTYPE_REQUIRED \<and> i = it_required_field_index iter"
proof -
  let ?k = "it_required_field_index iter"
  show "length (mark_seen iter seen) = 2" using assms by (simp add: mark_seen_def Let_def)
  have d: "i div 32 = ?k div 32 \<Longrightarrow> i mod 32 = ?k mod 32 \<Longrightarrow> i = ?k" by (metis div_mult_mod_eq)
  have l: "?k < 64 \<Longrightarrow> ?k div 32 < length seen" "i div 32 < length seen" using assms by simp_all
  show "field_seen (mark_seen iter seen) i \<longleftrightarrow> field_seen seen i \<or>
      PB_HTYPE (pf_type (iter_field iter)) = PB_HTYPE_REQUIRED \<and> i = ?k"
    using assms(2) l d by (auto simp: mark_seen_def Let_def bit_or_iff bit_push_bit_iff nth_list_update bit_1_iff bit_exp_iff)
qed

lemma all_less_64: "(\<forall>i < 64. P i) \<longleftrightarrow> (\<forall>i < 32. P i) \<and> (\<forall>i < 32. P (i + 32))" for P :: "nat \<Rightarrow> bool"
proof safe
  fix i :: nat assume a: "\<forall>i < 32. P i" "\<forall>i < 32. P (i + 32)" "i < 64"
  show "P i"
  proof (cases "i < 32")
    case False
    with a(3) have "i - 32 < 32" by arith
    with a(2) have "P (i - 32 + 32)" by blast
    with False show ?thesis by simp
  qed (use a(1) in blast)
qed auto

lemma word32_eq_iff: "v = w \<longleftrightarrow> (\<forall>i < 32. bit v i = bit w i)" for v w :: u32
  by (auto intro: bit_word_eqI)

text \<open>
  C38: the check at the end of a message accepts exactly when every required field was seen and
  rejects it exactly when one was not, for any number of required fields of which the first 64 are
  tracked, with these exceptions: when all tracked fields were seen, it is undefined if their
  number is 32 (a shift of a 32-bit word by 32) and if it is 64 or more (it reads behind the two
  words of \<open>fields_seen\<close>).
\<close>

theorem required_seen_correct:
  assumes "length seen = 2" "\<forall>i < 64. field_seen seen i \<longrightarrow> i < n"
  shows "required_seen n seen =
    (if (n = 32 \<or> PB_MAX_REQUIRED_FIELDS \<le> n) \<and> (\<forall>i < min n PB_MAX_REQUIRED_FIELDS. field_seen seen i) then None
     else Some (\<forall>i < min n PB_MAX_REQUIRED_FIELDS. field_seen seen i))"
proof -
  obtain v w where s: "seen = [v, w]" using assms(1) by (auto simp: numeral_2_eq_2 length_Suc_conv)
  have top: "\<forall>i < 32. bit v i \<longrightarrow> i < n" "\<forall>i < 32. bit w i \<longrightarrow> i + 32 < n"
    using assms(2) unfolding all_less_64 s by simp_all
  have v: "v = - 1 \<longleftrightarrow> (\<forall>i < 32. bit v i)" and w: "w = - 1 \<longleftrightarrow> (\<forall>i < 32. bit w i)"
    unfolding word32_eq_iff by simp_all
  consider "n = 0" | "0 < n" "n < 32" | "n = 32" | "32 < n" "n < 64" | "64 \<le> n" by linarith
  then show ?thesis
  proof cases
    case 2
    have "v = drop_bit (32 - n) (- 1) \<longleftrightarrow> (\<forall>i < n. bit v i)"
      unfolding word32_eq_iff using top(1) 2 by (auto simp: bit_simps)
    moreover have "(\<forall>i < n. field_seen seen i) \<longleftrightarrow> (\<forall>i < n. bit v i)" using 2 s by auto
    ultimately show ?thesis using 2 by (simp add: required_seen_def s)
  next
    case 3
    have "(\<forall>i < n. field_seen seen i) \<longleftrightarrow> (\<forall>i < 32. bit v i)" using 3 s by auto
    then show ?thesis using 3 v by (auto simp: required_seen_def s)
  next
    case 4
    have n: "n div 32 = 1" "n mod 32 = n - 32" using 4 by (simp_all add: le_div_geq le_mod_geq)
    have wn: "w = drop_bit (32 - (n - 32)) (- 1) \<longleftrightarrow> (\<forall>i < n - 32. bit w i)"
      unfolding word32_eq_iff using top(2) 4 by (auto simp: bit_simps)
    have "(\<forall>i < n. field_seen seen i) \<longleftrightarrow> (\<forall>i < 64. i < n \<longrightarrow> field_seen seen i)" using 4 by auto
    also have "\<dots> \<longleftrightarrow> v = - 1 \<and> w = drop_bit (32 - (n - 32)) (- 1)"
      unfolding all_less_64 v wn using 4 s by auto
    finally show ?thesis using 4 n by (auto simp: required_seen_def s)
  next
    case 5
    then have n: "min (n div 32) 2 = 2" "2 \<le> n div 32" by (simp_all add: less_eq_div_iff_mult_less_eq)
    have "(\<exists>i < 2. seen ! i \<noteq> - 1) \<longleftrightarrow> v \<noteq> - 1 \<or> w \<noteq> - 1" by (auto simp: s less_2_cases_iff)
    moreover have "(\<forall>i < 64. field_seen seen i) \<longleftrightarrow> v = - 1 \<and> w = - 1"
      unfolding all_less_64 v w s by auto
    ultimately show ?thesis using 5 n assms(1) by (simp add: required_seen_def)
  qed (simp add: required_seen_def)
qed

theorem required_seen_correct_witness:
  "required_seen 32 [- 1, 0] = None \<and> required_seen 64 [- 1, - 1] = None \<and> required_seen 65 [- 1, 3] = Some False \<and>
    required_seen 3 [7, 0] = Some True \<and> required_seen 3 [5, 0] = Some False"
proof -
  have b: "bit (7 :: u32) i \<longleftrightarrow> i < 3" "bit (5 :: u32) i \<longleftrightarrow> i = 0 \<or> i = 2" if "i < 32" for i
  proof -
    have e: "(7 :: u32) = mask 3" "(5 :: u32) = 1 OR push_bit 2 1" by (simp_all add: mask_eq_exp_minus_1)
    show "bit (7 :: u32) i \<longleftrightarrow> i < 3" unfolding e(1) bit_mask_iff using that by auto
    show "bit (5 :: u32) i \<longleftrightarrow> i = 0 \<or> i = 2"
      unfolding e(2) bit_or_iff bit_push_bit_iff bit_1_iff using that by auto
  qed
  have three: "i < 3 \<longleftrightarrow> i = 0 \<or> i = 1 \<or> i = 2" for i :: nat by arith
  have t: "\<not> bit (3 :: u32) 2"
  proof -
    have e: "(3 :: u32) = mask 2" by (simp add: mask_eq_exp_minus_1)
    show ?thesis unfolding e bit_mask_iff by simp
  qed
  then have "\<not> (\<forall>i < 64. field_seen [- 1, 3 :: u32] i)" by (auto intro!: exI [of _ 34])
  then have "required_seen 65 [- 1, 3] = Some False"
    using required_seen_correct [of "[- 1, 3]" 65] by simp
  moreover have "\<forall>i < 64. field_seen [- 1, - 1 :: u32] i" unfolding all_less_64 by simp
  then have "required_seen 64 [- 1, - 1] = None" using required_seen_correct [of "[- 1, - 1]" 64] by simp
  moreover from required_seen_correct [of "[- 1, 0]" 32] required_seen_correct [of "[7, 0]" 3] required_seen_correct [of "[5, 0]" 3]
  have "required_seen 32 [- 1, 0] = None \<and> required_seen 3 [7, 0] = Some True \<and> required_seen 3 [5, 0] = Some False"
    unfolding all_less_64 using b by (auto simp: three)
  ultimately show ?thesis by blast
qed

end
