(* ===== verification/Pb_Roundtrip.thy ===== *)
theory Pb_Roundtrip
  imports Pb_Decode
begin

text \<open>
  A message that is encoded and decoded again.  The first part says which descriptors and
  structure layouts are meant, and that the encoding of a message depends on the bytes of its
  structure only.  The second part follows the decoder through the encoder's output.
\<close>

section \<open>Layouts\<close>

abbreviation field_pos :: "pb_field list \<Rightarrow> nat \<Rightarrow> nat \<Rightarrow> nat" where
  "field_pos fs p i \<equiv> it_pData (iter_at fs p i)"

abbreviation size_pos :: "pb_field \<Rightarrow> nat \<Rightarrow> nat" where
  "size_pos f p \<equiv> addr_add p (pf_size_offset f)"

definition data_len :: "pb_field \<Rightarrow> nat" where
  "data_len f = unat (pf_data_size f) *
     (if PB_HTYPE (pf_type f) = PB_HTYPE_REPEATED then unat (pf_array_size f) else 1)"

definition size_len :: "pb_field \<Rightarrow> nat" where
  "size_len f = (if PB_HTYPE (pf_type f) = PB_HTYPE_OPTIONAL then 1
     else if PB_HTYPE (pf_type f) = PB_HTYPE_REPEATED then 4 else 0)"

text \<open>The bytes that hold a field at \<open>p\<close>: its data, and its has flag or count.\<close>

definition data_cells :: "pb_field \<Rightarrow> nat \<Rightarrow> nat set" where
  "data_cells f p = {p ..< p + data_len f}"

definition size_cells :: "pb_field \<Rightarrow> nat \<Rightarrow> nat set" where
  "size_cells f p = {size_pos f p ..< size_pos f p + size_len f}"

definition cells :: "pb_field \<Rightarrow> nat \<Rightarrow> nat set" where
  "cells f p = data_cells f p \<union> size_cells f p"

definition place_ok :: "pb_field list \<Rightarrow> nat \<Rightarrow> bool" where
  "place_ok fs len \<longleftrightarrow> (\<forall>i < length fs.
     0 \<le> int (field_pos fs 0 i) + sint (pf_size_offset (fs ! i)) \<and>
     cells (fs ! i) (field_pos fs 0 i) \<subseteq> {0..<len} \<and>
     data_cells (fs ! i) (field_pos fs 0 i) \<inter> size_cells (fs ! i) (field_pos fs 0 i) = {} \<and>
     (\<forall>j < length fs. i \<noteq> j \<longrightarrow> cells (fs ! i) (field_pos fs 0 i) \<inter> cells (fs ! j) (field_pos fs 0 j) = {}))"

definition num_required :: "pb_field list \<Rightarrow> nat" where
  "num_required fs = length (filter (\<lambda>f. PB_HTYPE (pf_type f) = PB_HTYPE_REQUIRED) fs)"

text \<open>
  Static required, optional and repeated fields of a size that fits their type.
\<close>

definition field_ok :: "(pb_field list \<Rightarrow> nat \<Rightarrow> bool) \<Rightarrow> pb_field \<Rightarrow> bool" where
  "field_ok sub_ok f \<longleftrightarrow> pf_tag f < 2 ^ 29 \<and> PB_ATYPE (pf_type f) = PB_ATYPE_STATIC \<and>
     PB_HTYPE (pf_type f) \<in> {PB_HTYPE_REQUIRED, PB_HTYPE_OPTIONAL, PB_HTYPE_REPEATED} \<and>
     PB_LTYPE (pf_type f) \<noteq> PB_LTYPE_EXTENSION \<and>
     (PB_HTYPE (pf_type f) = PB_HTYPE_REQUIRED \<longleftrightarrow> pf_size_offset f = 0) \<and> data_len f < 2 ^ 32 \<and>
     (PB_LTYPE (pf_type f) = PB_LTYPE_FIXED32 \<longrightarrow> unat (pf_data_size f) = 4) \<and>
     (PB_LTYPE (pf_type f) = PB_LTYPE_FIXED64 \<longrightarrow> unat (pf_data_size f) = 8) \<and>
     (PB_LTYPE (pf_type f) = PB_LTYPE_BYTES \<longrightarrow> 4 \<le> unat (pf_data_size f)) \<and>
     (case pf_ptr f of
        Submsg_fields sub \<Rightarrow> PB_LTYPE (pf_type f) = PB_LTYPE_SUBMESSAGE \<and> sub_ok sub (unat (pf_data_size f))
      | Default_value bs \<Rightarrow> PB_LTYPE (pf_type f) \<noteq> PB_LTYPE_SUBMESSAGE \<and> unat (pf_data_size f) \<le> length bs
      | Null_ptr \<Rightarrow> PB_LTYPE (pf_type f) \<noteq> PB_LTYPE_SUBMESSAGE)"

text \<open>
  Messages with distinct tags and fields that do not overlap.  The number of required fields
  is one that the decoder's check can handle.  The first argument bounds the nesting.
\<close>

fun msg_ok :: "nat \<Rightarrow> pb_field list \<Rightarrow> nat \<Rightarrow> bool" where
  "msg_ok 0 fs len \<longleftrightarrow> False"
| "msg_ok (Suc n) fs len \<longleftrightarrow> tags_ok fs \<and> distinct (map pf_tag fs) \<and> place_ok fs len \<and>
     num_required fs < 64 \<and> (num_required fs mod 32 \<noteq> 0 \<or> num_required fs = 0) \<and>
     (\<forall>i < length fs. field_ok (\<lambda>sub len. msg_ok n sub len) (fs ! i))"

lemma msg_okD:
  assumes "msg_ok (Suc n) fs len"
  shows "tags_ok fs" "distinct (map pf_tag fs)" "place_ok fs len"
    "num_required fs < 64" "num_required fs mod 32 \<noteq> 0 \<or> num_required fs = 0"
    "\<And>i. i < length fs \<Longrightarrow> field_ok (msg_ok n) (fs ! i)"
  using assms by simp_all

lemma field_pos_shift:
  assumes "tags_ok fs" "i < length fs" 
  shows "field_pos fs (p + q) i = p + field_pos fs q i"
  using assms(2)
proof (induction i)
  case (Suc i)
  have pos: "it_pos (iter_at fs r i) = i" for r using Suc.prems by (intro iter_at_pos [OF assms(1)]) simp
  have "field_pos fs (p + q) i = p + field_pos fs q i" using Suc by simp
  then show ?case
    using Suc.prems by (simp add: pb_field_iter_next_def iter_field_def pos field_at_tag [OF assms(1)] Let_def)
qed (simp add: pb_field_iter_begin_def Let_def)

lemma size_pos_shift:
  "0 \<le> int q + sint (pf_size_offset f) \<Longrightarrow> size_pos f (p + q) = p + size_pos f q"
  by (simp add: addr_add_def nat_add_distrib add.assoc)

lemma cells_shift:
  assumes "0 \<le> int q + sint (pf_size_offset f)"
  shows "data_cells f (p + q) = (+) p ` data_cells f q" "size_cells f (p + q) = (+) p ` size_cells f q"
    "cells f (p + q) = (+) p ` cells f q"
  unfolding cells_def data_cells_def size_cells_def size_pos_shift [OF assms]
  by (simp_all add: image_Un ac_simps)

text \<open>The layout of a message at \<open>p\<close>.\<close>

lemma place_at:
  assumes "tags_ok fs" "place_ok fs len" "i < length fs"
  shows "cells (fs ! i) (field_pos fs p i) \<subseteq> {p..<p + len}"
    "data_cells (fs ! i) (field_pos fs p i) \<inter> size_cells (fs ! i) (field_pos fs p i) = {}"
    "j < length fs \<Longrightarrow> i \<noteq> j \<Longrightarrow> cells (fs ! i) (field_pos fs p i) \<inter> cells (fs ! j) (field_pos fs p j) = {}"
proof -
  have pos: "field_pos fs p k = p + field_pos fs 0 k" if "k < length fs" for k
    using field_pos_shift [OF assms(1) that, of p 0] by simp
  have nn: "0 \<le> int (field_pos fs 0 k) + sint (pf_size_offset (fs ! k))" if "k < length fs" for k
    using assms(2) that by (simp add: place_ok_def)
  note sh = cells_shift [OF nn]
  have inj: "(+) p ` A \<inter> (+) p ` B = {}" if "A \<inter> B = {}" for A B :: "nat set" using that by auto
  have ok: "cells (fs ! i) (field_pos fs 0 i) \<subseteq> {0..<len}"
    "data_cells (fs ! i) (field_pos fs 0 i) \<inter> size_cells (fs ! i) (field_pos fs 0 i) = {}"
    "j < length fs \<Longrightarrow> i \<noteq> j \<Longrightarrow> cells (fs ! i) (field_pos fs 0 i) \<inter> cells (fs ! j) (field_pos fs 0 j) = {}"
    using assms(2,3) by (auto simp: place_ok_def)
  show "cells (fs ! i) (field_pos fs p i) \<subseteq> {p..<p + len}"
    using ok(1) unfolding pos [OF assms(3)] sh(3) [OF assms(3)] by auto
  show "data_cells (fs ! i) (field_pos fs p i) \<inter> size_cells (fs ! i) (field_pos fs p i) = {}"
    unfolding pos [OF assms(3)] sh(1,2) [OF assms(3)] by (rule inj [OF ok(2)])
  assume j: "j < length fs" "i \<noteq> j"
  show "cells (fs ! i) (field_pos fs p i) \<inter> cells (fs ! j) (field_pos fs p j) = {}"
    unfolding pos [OF assms(3)] pos [OF j(1)] sh(3) [OF assms(3)] sh(3) [OF j(1)] by (rule inj [OF ok(3) [OF j]])
qed

section \<open>What an encoding depends on\<close>

definition same_on :: "nat set \<Rightarrow> memory \<Rightarrow> memory \<Rightarrow> bool" where
  "same_on A m m' \<longleftrightarrow> (\<forall>a \<in> A. m a = m' a)"

lemma same_on_mono: "same_on A m m' \<Longrightarrow> B \<subseteq> A \<Longrightarrow> same_on B m m'"
  by (auto simp: same_on_def)

lemma same_on_trans [trans]: "same_on A m m' \<Longrightarrow> same_on A m' m'' \<Longrightarrow> same_on A m m''"
  by (simp add: same_on_def)

lemma same_on_sym: "same_on A m m' \<Longrightarrow> same_on A m' m"
  by (simp add: same_on_def)

lemma same_on_refl [simp]: "same_on A m m"
  by (simp add: same_on_def)

lemma mem_bytes_eq: "(\<And>k. k < n \<Longrightarrow> m' (q + k) = m (p + k)) \<Longrightarrow> mem_bytes m' q n = mem_bytes m p n"
  by (rule nth_equalityI) (simp_all add: mem_bytes_def)

lemma mem_bytes_same: "same_on {p..<p + n} m m' \<Longrightarrow> mem_bytes m p n = mem_bytes m' p n"
  by (rule mem_bytes_eq) (simp add: same_on_def)

lemma load_le_same: "same_on {p..<p + n} m m' \<Longrightarrow> load_le m p n = load_le m' p n"
  by (simp add: load_le_def mem_bytes_same)

lemma strnlen_same: "same_on {p..<p + n} m m' \<Longrightarrow> strnlen_mem m p n = strnlen_mem m' p n"
  by (induction m p n rule: strnlen_mem.induct) (auto simp: same_on_def)

lemma strnlen_eq:
  "(\<And>k. k \<le> strnlen_mem m p n \<Longrightarrow> m' (q + k) = m (p + k)) \<Longrightarrow> strnlen_mem m' q n = strnlen_mem m p n"
proof (induction m p n arbitrary: q rule: strnlen_mem.induct)
  case (2 m p n)
  have h: "m' q = m p" using "2.prems" [of 0] by simp
  show ?case
  proof (cases "m p = 0")
    case False
    have "strnlen_mem m' (Suc q) n = strnlen_mem m (Suc p) n"
      using "2.prems" [of "Suc _"] False by (intro "2.IH") simp_all
    then show ?thesis using h False by simp
  qed (simp add: h)
qed simp

lemma same_sub: "same_on {p..<p + n} m m' \<Longrightarrow> p \<le> q \<Longrightarrow> q + k \<le> p + n \<Longrightarrow> same_on {q..<q + k} m m'"
  by (auto simp: same_on_def)

lemma wire_value_same:
  assumes ok: "field_ok sub_ok f" and same: "same_on {p..<p + unat (pf_data_size f)} m m'"
    and sub: "\<And>s len. sub_ok s len \<Longrightarrow> same_on {p..<p + len} m m' \<Longrightarrow> sub1 s p = sub2 s p"
  shows "wire_value m sub1 f p = wire_value m' sub2 f p"
proof -
  let ?n = "unat (pf_data_size f)"
  have ld: "load_le m p k = load_le m' p k" "mem_bytes m p k = mem_bytes m' p k" if "k \<le> ?n" for k
    using same_sub [OF same, of p k] that by (simp_all add: load_le_same mem_bytes_same)
  have u: "load_signed m p (pf_data_size f) = load_signed m' p (pf_data_size f)"
    "load_unsigned m p (pf_data_size f) = load_unsigned m' p (pf_data_size f)"
    by (auto simp: load_signed_def load_unsigned_def ld)
  consider "PB_LTYPE (pf_type f) = PB_LTYPE_BYTES" | "PB_LTYPE (pf_type f) = PB_LTYPE_STRING"
    | "PB_LTYPE (pf_type f) = PB_LTYPE_SUBMESSAGE"
    | "PB_LTYPE (pf_type f) \<noteq> PB_LTYPE_BYTES" "PB_LTYPE (pf_type f) \<noteq> PB_LTYPE_STRING"
      "PB_LTYPE (pf_type f) \<noteq> PB_LTYPE_SUBMESSAGE" by blast
  then show ?thesis
  proof cases
    case 1
    then have "load_le m p 4 = load_le m' p 4" using ok by (intro ld) (simp add: field_ok_def)
    moreover have "mem_bytes m (p + 4) k = mem_bytes m' (p + 4) k" if "k + 4 \<le> ?n" for k
      using same_sub [OF same, of "p + 4" k] that by (simp add: mem_bytes_same)
    ultimately show ?thesis using 1 by (simp add: wire_value_def Let_def)
  next
    case 2
    have "strnlen_mem m p ?n = strnlen_mem m' p ?n" by (rule strnlen_same [OF same])
    then show ?thesis using 2 by (simp add: wire_value_def Let_def ld(2) strnlen_mem_le)
  next
    case 3
    then obtain s where "pf_ptr f = Submsg_fields s" "sub_ok s ?n"
      using ok by (auto simp: field_ok_def split: pb_ptr.splits)
    then show ?thesis using 3 sub [OF _ same] by (simp add: wire_value_def Let_def)
  next
    case 4
    then show ?thesis using ok ld u by (simp add: wire_value_def field_ok_def Let_def)
  qed
qed

lemma item_bounds:
  assumes "i < n" "n \<le> unat (pf_array_size f)" "PB_HTYPE (pf_type f) = PB_HTYPE_REPEATED"
  shows "p + i * unat (pf_data_size f) + unat (pf_data_size f) \<le> p + data_len f"
proof -
  have "Suc i * unat (pf_data_size f) \<le> unat (pf_array_size f) * unat (pf_data_size f)"
    using assms(1,2) by (intro mult_right_mono) simp_all
  then show ?thesis using assms(3) by (simp add: data_len_def mult.commute)
qed

lemma concat_opt_cong: "(\<And>x. x \<in> set xs \<Longrightarrow> f x = g x) \<Longrightarrow> concat_opt (map f xs) = concat_opt (map g xs)"
  by (simp add: concat_opt_def cong: map_cong)

lemma wire_field_same:
  assumes ok: "field_ok sub_ok f" and same: "same_on (cells f p) m m'"
    and sub: "\<And>s len q. sub_ok s len \<Longrightarrow> same_on {q..<q + len} m m' \<Longrightarrow> sub1 s q = sub2 s q"
  shows "wire_field m sub1 k f p = wire_field m' sub2 k f p"
proof -
  let ?d = "unat (pf_data_size f)" and ?h = "PB_HTYPE (pf_type f)"
  have data: "same_on {p..<p + data_len f} m m'" and sz: "same_on {size_pos f p..<size_pos f p + size_len f} m m'"
    using same by (auto simp: cells_def data_cells_def size_cells_def same_on_def)
  have val: "wire_value m sub1 f q = wire_value m' sub2 f q" if "same_on {q..<q + ?d} m m'" for q
    by (rule wire_value_same [OF ok that sub])
  have one: "wire_single m sub1 f p = wire_single m' sub2 f p" if "?h \<noteq> PB_HTYPE_REPEATED"
    using val [of p] data that by (simp add: wire_single_def data_len_def)
  have item: "wire_value m sub1 f (p + i * ?d) = wire_value m' sub2 f (p + i * ?d)"
    if "?h = PB_HTYPE_REPEATED" "i < n" "n \<le> unat (pf_array_size f)" for i n
    using item_bounds [OF that(2,3,1), of p] by (intro val same_sub [OF data]) simp_all
  have arr: "wire_array m sub1 f p n = wire_array m' sub2 f p n" if "?h = PB_HTYPE_REPEATED" for n
  proof (cases "unat (pf_array_size f) < n")
    case False
    then have "concat_opt (map (\<lambda>i. g (wire_value m sub1 f (p + i * ?d))) [0..<n]) =
        concat_opt (map (\<lambda>i. g (wire_value m' sub2 f (p + i * ?d))) [0..<n])" for g :: "u8 list option \<Rightarrow> u8 list option"
      using item [OF that, of _ n] by (intro concat_opt_cong) simp
    from this [of "\<lambda>x. x"] this [of "map_option ((@) _)"] show ?thesis by (simp add: wire_array_def Let_def)
  qed (simp add: wire_array_def Let_def)
  consider "?h = PB_HTYPE_REQUIRED" | "?h = PB_HTYPE_OPTIONAL" "pf_size_offset f \<noteq> 0" "m (size_pos f p) = m' (size_pos f p)"
    | "?h = PB_HTYPE_REPEATED" "pf_size_offset f \<noteq> 0" "load_le m (size_pos f p) 4 = load_le m' (size_pos f p) 4"
    using ok sz load_le_same [of "size_pos f p" 4 m m'] by (auto simp: field_ok_def size_len_def same_on_def)
  then show ?thesis
    using ok one arr by cases (simp_all add: wire_field_def field_ok_def Let_def)
qed

lemma wire_message_same:
  "msg_ok n fs len \<Longrightarrow> same_on {p..<p + len} m m' \<Longrightarrow> wire_message n m fs p = wire_message n m' fs p"
proof (induction n arbitrary: fs len p)
  case (Suc n)
  note ok = msg_okD [OF Suc.prems(1)]
  have "wire_field m (\<lambda>fs p. wire_message n m fs p) n (fs ! i) (field_pos fs p i) =
      wire_field m' (\<lambda>fs p. wire_message n m' fs p) n (fs ! i) (field_pos fs p i)" if "i < length fs" for i
    using place_at(1) [OF ok(1,3) that, of p]
    by (intro wire_field_same [OF ok(6) [OF that]] same_on_mono [OF Suc.prems(2)]) (auto intro: Suc.IH)
  then show ?case by (auto intro!: concat_opt_cong)
qed simp

section \<open>A value at another place\<close>

lemma wire_value_moved:
  assumes eq: "\<And>k. k < value_size m f p \<Longrightarrow> m' (q + k) = m (p + k)" and ok: "value_ok m f p" and q: "q \<noteq> 0"
    and l: "PB_LTYPE (pf_type f) \<noteq> PB_LTYPE_SUBMESSAGE"
  shows "wire_value m' sub' f q = wire_value m sub f p"
proof -
  have ld: "load_le m' q k = load_le m p k" "mem_bytes m' q k = mem_bytes m p k" if "k \<le> value_size m f p" for k
    using mem_bytes_eq [of k m' q m p] eq that by (simp_all add: load_le_def)
  consider "PB_LTYPE (pf_type f) = PB_LTYPE_BYTES" | "PB_LTYPE (pf_type f) = PB_LTYPE_STRING"
    | "PB_LTYPE (pf_type f) \<noteq> PB_LTYPE_BYTES" "PB_LTYPE (pf_type f) \<noteq> PB_LTYPE_STRING" by blast
  then show ?thesis
  proof cases
    case 1
    then have vs: "value_size m f p = 4 + load_le m p 4" by (simp add: value_size_def Let_def)
    have "mem_bytes m' (q + 4) (load_le m p 4) = mem_bytes m (p + 4) (load_le m p 4)"
      using eq [of "4 + _"] by (intro mem_bytes_eq) (simp add: vs add.assoc)
    then show ?thesis using 1 ld(1) [of 4] ok q by (simp add: vs wire_value_def value_ok_def Let_def)
  next
    case 2
    then have vs: "value_size m f p = strnlen_mem m p (unat (pf_data_size f)) + 1" by (simp add: value_size_def Let_def)
    have "strnlen_mem m' q (unat (pf_data_size f)) = strnlen_mem m p (unat (pf_data_size f))"
      using eq by (intro strnlen_eq) (simp add: vs)
    then show ?thesis using 2 ld(2) ok q by (simp add: vs wire_value_def value_ok_def Let_def)
  next
    case 3
    then show ?thesis using l ld ok q
      by (auto simp: wire_value_def value_ok_def value_size_def load_signed_def load_unsigned_def Let_def)
  qed
qed

lemma value_size_le:
  assumes "field_ok sub_ok f" "wire_value m sub f p = Some bs" "value_ok m f p"
  shows "value_size m f p \<le> unat (pf_data_size f)"
  using assms by (auto simp: field_ok_def wire_value_def value_size_def value_ok_def Let_def split: if_splits)

lemma store_bytes_other: "a \<notin> {p..<p + length bs} \<Longrightarrow> store_bytes m p bs a = m a"
  by (rule store_bytes_frame) auto


section \<open>Default values\<close>

text \<open>
  A structure in which every optional field is absent and every repeated field empty, in
  the submessages that are not entries of arrays as well.
\<close>

definition blank_field :: "(pb_field list \<Rightarrow> nat \<Rightarrow> memory \<Rightarrow> bool) \<Rightarrow> pb_field \<Rightarrow> nat \<Rightarrow> memory \<Rightarrow> bool" where
  "blank_field sub_blank f p m \<longleftrightarrow>
     (PB_HTYPE (pf_type f) = PB_HTYPE_OPTIONAL \<longrightarrow> m (size_pos f p) = 0) \<and>
     (PB_HTYPE (pf_type f) = PB_HTYPE_REPEATED \<longrightarrow> load_le m (size_pos f p) 4 = 0) \<and>
     (PB_HTYPE (pf_type f) \<noteq> PB_HTYPE_REPEATED \<longrightarrow>
        (case pf_ptr f of Submsg_fields sub \<Rightarrow> sub_blank sub p m | _ \<Rightarrow> True))"

fun blank :: "nat \<Rightarrow> pb_field list \<Rightarrow> nat \<Rightarrow> memory \<Rightarrow> bool" where
  "blank 0 fs p m \<longleftrightarrow> True"
| "blank (Suc n) fs p m \<longleftrightarrow>
     (\<forall>i < length fs. blank_field (\<lambda>sub p m. blank n sub p m) (fs ! i) (field_pos fs p i) m)"

lemma blank_field_same:
  assumes ok: "field_ok sub_ok f" and same: "same_on (cells f p) m m'"
    and sub: "\<And>s len. sub_ok s len \<Longrightarrow> same_on {p..<p + len} m m' \<Longrightarrow> sub_blank s p m = sub_blank s p m'"
  shows "blank_field sub_blank f p m = blank_field sub_blank f p m'"
proof -
  have data: "same_on {p..<p + data_len f} m m'" and sz: "same_on {size_pos f p..<size_pos f p + size_len f} m m'"
    using same by (auto simp: cells_def data_cells_def size_cells_def same_on_def)
  have "PB_HTYPE (pf_type f) = PB_HTYPE_OPTIONAL \<Longrightarrow> m (size_pos f p) = m' (size_pos f p)"
    "PB_HTYPE (pf_type f) = PB_HTYPE_REPEATED \<Longrightarrow> load_le m (size_pos f p) 4 = load_le m' (size_pos f p) 4"
    using sz load_le_same [of "size_pos f p" 4 m m'] by (auto simp: size_len_def same_on_def)
  moreover have "sub_blank s p m = sub_blank s p m'"
    if "PB_HTYPE (pf_type f) \<noteq> PB_HTYPE_REPEATED" "pf_ptr f = Submsg_fields s" for s
    using ok data that by (intro sub [of s "unat (pf_data_size f)"]) (simp_all add: field_ok_def data_len_def)
  ultimately show ?thesis by (auto simp: blank_field_def split: pb_ptr.splits)
qed

lemma blank_same: "msg_ok n fs len \<Longrightarrow> same_on {p..<p + len} m m' \<Longrightarrow> blank n fs p m = blank n fs p m'"
proof (induction n arbitrary: fs len p)
  case (Suc n)
  note ok = msg_okD [OF Suc.prems(1)]
  have "blank_field (blank n) (fs ! i) (field_pos fs p i) m = blank_field (blank n) (fs ! i) (field_pos fs p i) m'"
    if "i < length fs" for i
    by (rule blank_field_same [OF ok(6) [OF that] same_on_mono [OF Suc.prems(2) place_at(1) [OF ok(1,3) that]] Suc.IH])
  then show ?case by simp
qed simp

text \<open>Steps that each change cells of their own establish what they establish together.\<close>

lemma fold_cells:
  assumes step: "\<And>j m. j < n \<Longrightarrow> \<exists>m'. g j m = Some m' \<and> P j m' \<and> same_on (- C j) m m'"
    and stable: "\<And>j m m'. j < n \<Longrightarrow> P j m \<Longrightarrow> same_on (C j) m m' \<Longrightarrow> P j m'"
    and disj: "\<And>i j. i < n \<Longrightarrow> j < n \<Longrightarrow> i \<noteq> j \<Longrightarrow> C i \<inter> C j = {}"
  shows "k \<le> n \<Longrightarrow> \<exists>m'. fold (\<lambda>j r. case r of Some (Inr m) \<Rightarrow> map_option Inr (g j m) | _ \<Rightarrow> r) [0..<k] (Some (Inr m))
      = (Some (Inr m') :: (unit + memory) option) \<and> (\<forall>j < k. P j m') \<and> same_on (- (\<Union>j < n. C j)) m m'"
proof (induction k)
  case (Suc k)
  then obtain m1 where m1: "fold (\<lambda>j r. case r of Some (Inr m) \<Rightarrow> map_option Inr (g j m) | _ \<Rightarrow> r) [0..<k] (Some (Inr m))
      = (Some (Inr m1) :: (unit + memory) option)" "\<forall>j < k. P j m1" "same_on (- (\<Union>j < n. C j)) m m1" by auto
  from step [of k m1] Suc.prems obtain m2 where m2: "g k m1 = Some m2" "P k m2" "same_on (- C k) m1 m2" by auto
  have "P j m2" if "j < k" for j
  proof (rule stable)
    show "same_on (C j) m1 m2"
      using disj [of j k] that Suc.prems by (intro same_on_mono [OF m2(3)]) auto
  qed (use m1(2) that Suc.prems in auto)
  then have "\<forall>j < Suc k. P j m2" using m2(2) by (auto simp: less_Suc_eq)
  moreover have "same_on (- (\<Union>j < n. C j)) m1 m2"
    using Suc.prems by (intro same_on_mono [OF m2(3)]) (auto simp: Suc_le_eq)
  ultimately show ?case using m1(1,3) m2(1) by (auto intro: same_on_trans)
qed simp

text \<open>Without oneof fields the size pointer of the iterator is always up to date.\<close>

lemma iter_size_pos:
  assumes "tags_ok fs" "\<And>j. j < length fs \<Longrightarrow> PB_HTYPE (pf_type (fs ! j)) \<noteq> PB_HTYPE_ONEOF" "i < length fs"
  shows "it_pSize (iter_at fs p i) = size_pos (fs ! i) (field_pos fs p i)"
  using assms(3)
proof (cases i)
  case 0
  then show ?thesis using assms(3) by (simp add: pb_field_iter_begin_def field_at_def Let_def)
next
  case (Suc k)
  have k: "it_pos (iter_at fs p k) = k" using assms(3) Suc by (intro iter_at_pos [OF assms(1)]) simp
  then have "iter_field (iter_at fs p k) = fs ! k" using assms(3) Suc by (simp add: iter_field_def field_at_def)
  moreover have "field_at fs (Suc k) = fs ! Suc k" "pf_tag (fs ! k) \<noteq> 0" "pf_tag (fs ! Suc k) \<noteq> 0"
    using assms Suc by (auto simp: field_at_def tags_ok_def)
  ultimately show ?thesis
    using assms(2) [of k] assms(2) [of "Suc k"] assms(3) Suc k
    by (simp add: pb_field_iter_next_def iter_field_def Let_def)
qed

lemma size_pos_ne:
  assumes "tags_ok fs" "place_ok fs len" "i < length fs" "pf_size_offset (fs ! i) \<noteq> 0"
  shows "size_pos (fs ! i) (field_pos fs p i) \<noteq> field_pos fs p i"
proof -
  have "0 \<le> int (field_pos fs 0 i) + sint (pf_size_offset (fs ! i))" using assms by (simp add: place_ok_def)
  then have "int (size_pos (fs ! i) (field_pos fs p i)) = int (field_pos fs p i) + sint (pf_size_offset (fs ! i))"
    using field_pos_shift [OF assms(1,3), of p 0] by (simp add: addr_add_def)
  moreover have "sint (pf_size_offset (fs ! i)) \<noteq> 0" using assms(4) by (simp add: signed_eq_0_iff)
  ultimately show ?thesis by linarith
qed

lemma le_value_zero [simp]: "le_value (le_bytes k 0) = 0"
  by (simp add: le_value_le_bytes)

lemma load_stored [simp]: "length bs = k \<Longrightarrow> load_le (store_bytes m p bs) p k = le_value bs"
  using mem_bytes_store [of m p bs] by (simp add: load_le_def)

lemma same_on_store: "same_on (- {p..<p + length bs}) m (store_bytes m p bs)"
  using store_bytes_other by (fastforce simp: same_on_def)

lemma defaults_all:
  assumes tags: "tags_ok fs" and disj: "\<And>i j. i < length fs \<Longrightarrow> j < length fs \<Longrightarrow> i \<noteq> j \<Longrightarrow> C i \<inter> C j = {}"
    and step: "\<And>j m. j < length fs \<Longrightarrow> \<exists>m'. F (iter_at fs p j) m = Some m' \<and> P j m' \<and> same_on (- C j) m m'"
    and stable: "\<And>j m m'. j < length fs \<Longrightarrow> P j m \<Longrightarrow> same_on (C j) m m' \<Longrightarrow> P j m'"
  shows "\<exists>m'. set_all_to_default F fs p m = Some m' \<and> (\<forall>j < length fs. P j m') \<and> same_on (- (\<Union>j < length fs. C j)) m m'"
proof (cases "fs = []")
  case True
  then show ?thesis
    by (simp add: set_all_to_default_def pb_field_iter_begin_def field_at_def PB_LAST_FIELD_def Let_def)
next
  case False
  then have b: "pb_field_iter_begin fs p = (True, iter_at fs p 0)"
    using tags by (auto simp: pb_field_iter_begin_def Let_def field_at_tag)
  have "\<exists>m'. fold (\<lambda>j r. case r of Some (Inr m) \<Rightarrow> map_option Inr (F (iter_at fs p j) m) | _ \<Rightarrow> r) [0..<length fs] (Some (Inr m))
      = (Some (Inr m') :: (unit + memory) option) \<and> (\<forall>j < length fs. P j m') \<and> same_on (- (\<Union>j < length fs. C j)) m m'"
    by (rule fold_cells [where C = C, OF step stable disj]) simp_all
  then obtain m' where m': "fold (\<lambda>j r. case r of Some (Inr m) \<Rightarrow> map_option Inr (F (iter_at fs p j) m) | _ \<Rightarrow> r) [0..<length fs] (Some (Inr m))
      = (Some (Inr m') :: (unit + memory) option)" "\<forall>j < length fs. P j m'" "same_on (- (\<Union>j < length fs. C j)) m m'" by blast
  have "iter_loop (\<lambda>iter mem. map_option Inr (F iter mem)) (iter_at fs p 0) m =
      (Some (Inr (iter_at fs p 0, m')) :: (unit + _) option)"
    using iter_loop_at [OF tags, of 0 "\<lambda>iter mem. map_option Inr (F iter mem) :: (unit + memory) option" p
        "\<lambda>j mem. map_option Inr (F (iter_at fs p j) mem)" m] False m'(1) by simp
  then show ?thesis using m'(2,3) by (simp add: set_all_to_default_def b del: iter_at.simps)
qed

lemma pb_message_set_to_defaults_blank:
  "msg_ok n fs len \<Longrightarrow> \<exists>m'. pb_message_set_to_defaults n E fs p m = Some m' \<and> blank n fs p m' \<and>
     same_on (- {p..<p + len}) m m'"
proof (induction n arbitrary: fs len p m)
  case (Suc n)
  note ok = msg_okD [OF Suc.prems]
  let ?C = "\<lambda>i. cells (fs ! i) (field_pos fs p i)"
  let ?P = "\<lambda>i. blank_field (blank n) (fs ! i) (field_pos fs p i)"
  have ht: "PB_HTYPE (pf_type (fs ! j)) \<noteq> PB_HTYPE_ONEOF" if "j < length fs" for j
    using ok(6) [OF that] by (auto simp: field_ok_def)
  have step: "\<exists>m'. pb_field_set_to_default (Suc n) E (iter_at fs p i) m = Some m' \<and> ?P i m' \<and> same_on (- ?C i) m m'"
    if i: "i < length fs" for i m
  proof -
    let ?f = "fs ! i" and ?a = "field_pos fs p i" let ?s = "size_pos ?f ?a"
    have fok: "field_ok (msg_ok n) ?f" by (rule ok(6) [OF i])
    have it: "iter_field (iter_at fs p i) = ?f" "it_pSize (iter_at fs p i) = ?s"
      using iter_field_at [OF ok(1) i] iter_size_pos [OF ok(1) ht i] by simp_all
    have disj: "data_cells ?f ?a \<inter> size_cells ?f ?a = {}" by (rule place_at(2) [OF ok(1,3) i])
    note defs = it pb_field_set_to_default.simps fok [unfolded field_ok_def]
    show ?thesis
    proof (cases "PB_HTYPE (pf_type ?f) = PB_HTYPE_REPEATED")
      case True
      have "same_on (- ?C i) m (store_bytes m ?s (le_bytes 4 0))"
        using True by (intro same_on_mono [OF same_on_store]) (auto simp: cells_def size_cells_def size_len_def)
      moreover have "?P i (store_bytes m ?s (le_bytes 4 0))" using True by (simp add: blank_field_def)
      ultimately show ?thesis using True fok by (simp add: it field_ok_def Let_def)
    next
      case False
      let ?opt = "PB_HTYPE (pf_type ?f) = PB_HTYPE_OPTIONAL"
      let ?m = "if ?opt then m(?s := 0) else m"
      have dc: "data_cells ?f ?a = {?a..<?a + unat (pf_data_size ?f)}" using False by (simp add: data_cells_def data_len_def)
      have opt: "?opt \<Longrightarrow> ?s \<noteq> ?a" using size_pos_ne [OF ok(1,3) i] fok by (auto simp: field_ok_def)
      have "\<exists>m'. pb_field_set_to_default (Suc n) E (iter_at fs p i) m = Some m' \<and> same_on (- data_cells ?f ?a) ?m m' \<and>
          (case pf_ptr ?f of Submsg_fields sub \<Rightarrow> blank n sub ?a m' | _ \<Rightarrow> True)"
      proof (cases "pf_ptr ?f")
        case (Submsg_fields sub)
        then obtain m' where "pb_message_set_to_defaults n E sub ?a ?m = Some m'" "blank n sub ?a m'" "same_on (- data_cells ?f ?a) ?m m'"
          using Suc.IH [of sub "unat (pf_data_size ?f)" ?a ?m] fok unfolding dc by (auto simp: field_ok_def)
        then show ?thesis
          using Submsg_fields False fok opt ht [OF i]
          by (cases ?opt) (simp_all add: it field_ok_def pb_message_set_to_defaults_def Let_def)
      next
        case Null_ptr
        then show ?thesis
          using False fok opt ht [OF i] same_on_store [of ?a "replicate (unat (pf_data_size ?f)) 0" ?m]
          by (cases ?opt) (simp_all add: it field_ok_def dc Let_def)
      next
        case (Default_value bs)
        then show ?thesis
          using False fok opt ht [OF i] same_on_store [of ?a "take (unat (pf_data_size ?f)) bs" ?m]
          by (cases ?opt) (simp_all add: it field_ok_def dc min_absorb2 Let_def)
      qed
      then obtain m' where m': "pb_field_set_to_default (Suc n) E (iter_at fs p i) m = Some m'"
        "same_on (- data_cells ?f ?a) ?m m'" "case pf_ptr ?f of Submsg_fields sub \<Rightarrow> blank n sub ?a m' | _ \<Rightarrow> True" by blast
      have "m' ?s = 0" if ?opt
        using bspec [OF m'(2) [unfolded same_on_def], of ?s] disj that by (auto simp: size_cells_def size_len_def)
      then have "?P i m'" using m'(3) False by (simp add: blank_field_def)
      moreover have "same_on (- ?C i) m m'"
      proof (rule same_on_trans)
        show "same_on (- ?C i) m ?m" by (auto simp: same_on_def cells_def size_cells_def size_len_def)
        show "same_on (- ?C i) ?m m'" by (rule same_on_mono [OF m'(2)]) (auto simp: cells_def)
      qed
      ultimately show ?thesis using m'(1) by blast
    qed
  qed
  have stable: "?P j m'" if "j < length fs" "?P j m" "same_on (?C j) m m'" for j m m'
  proof -
    have "?P j m = ?P j m'" by (rule blank_field_same [OF ok(6) [OF that(1)] that(3)]) (rule blank_same)
    then show ?thesis using that(2) by simp
  qed
  have "\<exists>m'. set_all_to_default (pb_field_set_to_default (Suc n) E) fs p m = Some m' \<and> (\<forall>j < length fs. ?P j m') \<and>
      same_on (- (\<Union>j < length fs. ?C j)) m m'"
    by (rule defaults_all [OF ok(1)])
      (rule step, assumption | rule stable, assumption+ | rule place_at(3) [OF ok(1,3)], assumption+)+
  then obtain m' where m': "set_all_to_default (pb_field_set_to_default (Suc n) E) fs p m = Some m'" "\<forall>j < length fs. ?P j m'"
      "same_on (- (\<Union>j < length fs. ?C j)) m m'" by blast
  have "same_on (- {p..<p + len}) m m'"
    using place_at(1) [OF ok(1,3)] by (intro same_on_mono [OF m'(3)]) blast
  then show ?case using m'(1,2) by (simp add: pb_message_set_to_defaults_def)
qed simp


section \<open>Decoding a value\<close>

text \<open>The addresses of the encoded entries of a field, and when an entry can be decoded.\<close>

definition entries :: "memory \<Rightarrow> pb_field \<Rightarrow> nat \<Rightarrow> nat list" where
  "entries m f p =
    (if PB_HTYPE (pf_type f) = PB_HTYPE_REPEATED
     then map (\<lambda>i. p + i * unat (pf_data_size f)) [0..<load_le m (size_pos f p) 4]
     else if PB_HTYPE (pf_type f) = PB_HTYPE_OPTIONAL \<and> m (size_pos f p) = 0 then [] else [p])"

definition entry_ok :: "(pb_field list \<Rightarrow> nat \<Rightarrow> bool) \<Rightarrow> memory \<Rightarrow> pb_field \<Rightarrow> nat \<Rightarrow> bool" where
  "entry_ok sub_ok m f q \<longleftrightarrow> q \<noteq> 0 \<and>
     (case pf_ptr f of Submsg_fields sub \<Rightarrow> sub_ok sub q | _ \<Rightarrow> value_ok m f q)"

fun vals_ok :: "nat \<Rightarrow> memory \<Rightarrow> pb_field list \<Rightarrow> nat \<Rightarrow> bool" where
  "vals_ok 0 m fs p \<longleftrightarrow> True"
| "vals_ok (Suc n) m fs p \<longleftrightarrow>
     (\<forall>i < length fs. \<forall>q \<in> set (entries m (fs ! i) (field_pos fs p i)).
        entry_ok (\<lambda>sub q. vals_ok n m sub q) m (fs ! i) q)"

context pb_source begin

text \<open>
  \<open>decodes end P f bs Q\<close>: on a stream that has \<open>bs\<close> next (and ends there, if \<open>end\<close>) and a memory
  with \<open>P\<close>, the step \<open>f\<close> succeeds, takes \<open>bs\<close> and relates the memories by \<open>Q\<close>.
\<close>

definition decodes ::
  "bool \<Rightarrow> (memory \<Rightarrow> bool) \<Rightarrow> ('st dec_state \<Rightarrow> 'st dec_result) \<Rightarrow> u8 list \<Rightarrow> (memory \<Rightarrow> memory \<Rightarrow> bool) \<Rightarrow> bool" where
  "decodes e P f bs Q \<longleftrightarrow> (\<forall>d r. good (ds_stream d) \<longrightarrow> avail (ds_stream d) = bs @ r \<longrightarrow> (e \<longrightarrow> r = []) \<longrightarrow>
     P (ds_mem d) \<longrightarrow> (\<exists>m'. f d = Some (True, d\<lparr>ds_mem := m', ds_stream := is_consume adv (ds_stream d) (length bs)\<rparr>) \<and>
       Q (ds_mem d) m'))"

lemma decodesI:
  "(\<And>d r. good (ds_stream d) \<Longrightarrow> avail (ds_stream d) = bs @ r \<Longrightarrow> (e \<Longrightarrow> r = []) \<Longrightarrow> P (ds_mem d) \<Longrightarrow>
     \<exists>m'. f d = Some (True, d\<lparr>ds_mem := m', ds_stream := is_consume adv (ds_stream d) (length bs)\<rparr>) \<and> Q (ds_mem d) m') \<Longrightarrow>
   decodes e P f bs Q"
  by (simp add: decodes_def)

lemma decodesD:
  "decodes e P f bs Q \<Longrightarrow> good (ds_stream d) \<Longrightarrow> avail (ds_stream d) = bs @ r \<Longrightarrow> (e \<Longrightarrow> r = []) \<Longrightarrow> P (ds_mem d) \<Longrightarrow>
   \<exists>m'. f d = Some (True, d\<lparr>ds_mem := m', ds_stream := is_consume adv (ds_stream d) (length bs)\<rparr>) \<and> Q (ds_mem d) m'"
  by (simp add: decodes_def)

lemma decodes_reads: "reads P f bs g \<Longrightarrow> (\<And>m. P m \<Longrightarrow> Q m (g m)) \<Longrightarrow> decodes e P f bs Q"
  by (auto intro!: decodesI dest: readsD)

lemma good_left: "good s \<Longrightarrow> k \<le> is_bytes_left s \<Longrightarrow> good (s\<lparr>is_bytes_left := k\<rparr>)"
  "k \<le> is_bytes_left s \<Longrightarrow> avail (s\<lparr>is_bytes_left := k\<rparr>) = take k (avail s)"
  by (simp_all add: good_def avail_def min_absorb1)

lemma substream_reads:
  assumes "good s" "avail s = string_bytes bs @ r" "length bs < 2 ^ 32"
  obtains sub s' where "pb_make_string_substream s = (Some sub, s')" "good sub" "avail sub = bs"
    "pb_close_string_substream s' (is_consume adv sub (length bs)) = (True, is_consume adv s (length (string_bytes bs)))"
proof
  let ?n = "length (varint_bytes (of_nat (length bs)))"
  let ?sub = "(is_consume adv s ?n)\<lparr>is_bytes_left := length bs\<rparr>"
  have l: "?n \<le> is_bytes_left s" "length bs \<le> is_bytes_left s - ?n"
    using length_avail [OF assms(1)] assms(2) by (simp_all add: string_bytes_def)
  show "pb_make_string_substream s = (Some ?sub, (is_consume adv s ?n)\<lparr>is_bytes_left := is_bytes_left s - ?n - length bs\<rparr>)"
    by (rule pb_make_string_substream_good [OF assms])
  show "good ?sub" "avail ?sub = bs"
    using assms(1,2) l by (simp_all add: good_left string_bytes_def)
  show "pb_close_string_substream ((is_consume adv s ?n)\<lparr>is_bytes_left := is_bytes_left s - ?n - length bs\<rparr>)
      (is_consume adv ?sub (length bs)) = (True, is_consume adv s (length (string_bytes bs)))"
    using pb_close_string_substream_good [OF assms(1,2), of "length bs"] by (simp add: string_bytes_def)
qed

text \<open>What the decoder of submessages must do for a message from memory \<open>m0\<close>.\<close>

definition sub_decodes :: "nat \<Rightarrow> memory \<Rightarrow> 'st dec_fun \<Rightarrow> bool" where
  "sub_decodes n m0 dec \<longleftrightarrow> (\<forall>init fs len p q bs. msg_ok n fs len \<longrightarrow> wire_message n m0 fs p = Some bs \<longrightarrow>
     vals_ok n m0 fs p \<longrightarrow> q \<noteq> 0 \<longrightarrow> length bs < 2 ^ 32 \<longrightarrow>
     decodes True (\<lambda>m. init \<or> blank n fs q m) (dec init fs q) bs
       (\<lambda>m m'. same_on (- {q..<q + len}) m m' \<and> wire_message n m' fs q = Some bs))"

lemma decodes_value:
  assumes ok: "field_ok (msg_ok n) f" and dec: "sub_decodes n m0 dec"
    and w: "wire_value m0 (wire_message n m0) f p = Some v" and val: "entry_ok (vals_ok n m0) m0 f p"
    and q: "q \<noteq> 0" and len: "length v < 2 ^ 32"
  shows "decodes e (\<lambda>m. PB_HTYPE (pf_type f) \<noteq> PB_HTYPE_REPEATED \<longrightarrow>
       (case pf_ptr f of Submsg_fields sub \<Rightarrow> blank n sub q m | _ \<Rightarrow> True))
     (PB_DECODERS dec (PB_LTYPE (pf_type f)) f q) v
     (\<lambda>m m'. same_on (- {q..<q + unat (pf_data_size f)}) m m' \<and> wire_value m' (wire_message n m') f q = Some v)"
proof (cases "PB_LTYPE (pf_type f) = PB_LTYPE_SUBMESSAGE")
  case l: True
  then obtain sub where Submsg_fields: "pf_ptr f = Submsg_fields sub" and sub: "msg_ok n sub (unat (pf_data_size f))"
    using ok by (auto simp: field_ok_def split: pb_ptr.splits)
  from w l Submsg_fields obtain bs where bs: "wire_message n m0 sub p = Some bs" "v = string_bytes bs"
    by (auto simp: wire_value_def Let_def)
  have blen: "length bs < 2 ^ 32" using len bs(2) by (simp add: string_bytes_def)
  have D: "decodes True (\<lambda>m. init \<or> blank n sub q m) (dec init sub q) bs
      (\<lambda>m m'. same_on (- {q..<q + unat (pf_data_size f)}) m m' \<and> wire_message n m' sub q = Some bs)" for init
    using dec sub bs(1) val q blen Submsg_fields by (simp add: sub_decodes_def entry_ok_def)
  show ?thesis
  proof (rule decodesI)
    fix d :: "'st dec_state" and r
    assume d: "good (ds_stream d)" "avail (ds_stream d) = v @ r"
      "PB_HTYPE (pf_type f) \<noteq> PB_HTYPE_REPEATED \<longrightarrow> (case pf_ptr f of Submsg_fields sub \<Rightarrow> blank n sub q (ds_mem d) | _ \<Rightarrow> True)"
    from substream_reads [OF d(1) d(2) [unfolded bs(2)] blen] obtain ss s' where ss:
      "pb_make_string_substream (ds_stream d) = (Some ss, s')" "good ss" "avail ss = bs"
      "pb_close_string_substream s' (is_consume adv ss (length bs)) = (True, is_consume adv (ds_stream d) (length (string_bytes bs)))" .
    let ?init = "PB_HTYPE (pf_type f) = PB_HTYPE_REPEATED"
    obtain m' where m': "dec ?init sub q (d\<lparr>ds_stream := ss\<rparr>)
        = Some (True, d\<lparr>ds_mem := m', ds_stream := is_consume adv ss (length bs)\<rparr>)"
      "same_on (- {q..<q + unat (pf_data_size f)}) (ds_mem d) m'" "wire_message n m' sub q = Some bs"
      using decodesD [OF D [of ?init], of "d\<lparr>ds_stream := ss\<rparr>" "[]"] ss(2,3) d(3) Submsg_fields by auto
    show "\<exists>m'. PB_DECODERS dec (PB_LTYPE (pf_type f)) f q d =
        Some (True, d\<lparr>ds_mem := m', ds_stream := is_consume adv (ds_stream d) (length v)\<rparr>) \<and>
        same_on (- {q..<q + unat (pf_data_size f)}) (ds_mem d) m' \<and> wire_value m' (wire_message n m') f q = Some v"
      using m' ss(1,4) l bs(2) Submsg_fields
      by (intro exI [of _ m']) (simp add: PB_DECODERS_def pb_dec_submessage_def on_substream_def wire_value_def Let_def)
  qed
next
  case l: False
  then have vok: "value_ok m0 f p" and ptr: "(case pf_ptr f of Submsg_fields sub \<Rightarrow> x sub | _ \<Rightarrow> y) = y" for x :: "_ \<Rightarrow> bool" and y
    using ok val by (auto simp: field_ok_def entry_ok_def split: pb_ptr.splits)
  let ?bs = "mem_bytes m0 p (value_size m0 f p)"
  have st: "PB_ATYPE (pf_type f) = PB_ATYPE_STATIC" using ok by (simp add: field_ok_def)
  show ?thesis
  proof (rule decodes_reads [OF reads_value [OF w vok st l]], rule conjI)
    fix m
    show "same_on (- {q..<q + unat (pf_data_size f)}) m (store_bytes m q ?bs)"
      using value_size_le [OF ok w vok] by (intro same_on_mono [OF same_on_store]) auto
    have "store_bytes m q ?bs (q + k) = m0 (p + k)" if "k < value_size m0 f p" for k
      using store_bytes_nth [of k ?bs m q] that by (simp add: mem_bytes_def)
    from wire_value_moved [OF this vok q l, of "wire_message n (store_bytes m q ?bs)" "wire_message n m0"]
    show "wire_value (store_bytes m q ?bs) (wire_message n (store_bytes m q ?bs)) f q = Some v" using w by simp
  qed
qed

end

section \<open>Decoding a field\<close>

text \<open>The first \<open>k\<close> entries of a repeated field at \<open>a\<close> have the encodings \<open>vs\<close>.\<close>

definition holds :: "nat \<Rightarrow> pb_field \<Rightarrow> nat \<Rightarrow> u8 list list \<Rightarrow> nat \<Rightarrow> memory \<Rightarrow> bool" where
  "holds n f a vs k m \<longleftrightarrow>
     (\<forall>j < k. wire_value m (wire_message n m) f (a + j * unat (pf_data_size f)) = Some (vs ! j))"

lemma value_stable:
  assumes "field_ok (msg_ok n) f" "same_on {q..<q + unat (pf_data_size f)} m m'"
  shows "wire_value m (wire_message n m) f q = wire_value m' (wire_message n m') f q"
  by (rule wire_value_same [OF assms]) (rule wire_message_same)

lemma item_in:
  assumes "j < unat (pf_array_size f)" "PB_HTYPE (pf_type f) = PB_HTYPE_REPEATED"
  shows "{a + j * unat (pf_data_size f)..<a + j * unat (pf_data_size f) + unat (pf_data_size f)} \<subseteq> data_cells f a"
  using item_bounds [of j "Suc j" f a] assms by (auto simp: data_cells_def)

lemma holds_stable:
  assumes ok: "field_ok (msg_ok n) f" and rep: "PB_HTYPE (pf_type f) = PB_HTYPE_REPEATED"
    and k: "k \<le> unat (pf_array_size f)" and h: "holds n f a vs k m" and same: "same_on (data_cells f a) m m'"
  shows "holds n f a vs k m'"
  unfolding holds_def
proof (intro allI impI)
  fix j assume j: "j < k"
  then have "same_on {a + j * unat (pf_data_size f)..<a + j * unat (pf_data_size f) + unat (pf_data_size f)} m m'"
    using item_in [OF _ rep, of j a] k by (intro same_on_mono [OF same]) simp
  from value_stable [OF ok this] show "wire_value m' (wire_message n m') f (a + j * unat (pf_data_size f)) = Some (vs ! j)"
    using h j by (simp add: holds_def)
qed

text \<open>Decoding entry \<open>k\<close> keeps the entries before it and the count.\<close>

lemma holds_Suc:
  assumes ok: "field_ok (msg_ok n) f" and rep: "PB_HTYPE (pf_type f) = PB_HTYPE_REPEATED"
    and k: "k < unat (pf_array_size f)" and h: "holds n f a vs k m" and disj: "data_cells f a \<inter> size_cells f a = {}"
    and same: "same_on (- {a + k * unat (pf_data_size f)..<a + k * unat (pf_data_size f) + unat (pf_data_size f)}) m m'"
    and v: "wire_value m' (wire_message n m') f (a + k * unat (pf_data_size f)) = Some (vs ! k)"
  shows "holds n f a vs (Suc k) m'" "same_on (- data_cells f a) m m'" "load_le m' (size_pos f a) 4 = load_le m (size_pos f a) 4"
proof -
  let ?d = "unat (pf_data_size f)"
  show sd: "same_on (- data_cells f a) m m'" using item_in [OF k rep, of a] by (intro same_on_mono [OF same]) auto
  have "same_on {size_pos f a..<size_pos f a + 4} m m'"
    using disj rep by (intro same_on_mono [OF sd]) (auto simp: size_cells_def size_len_def)
  then show "load_le m' (size_pos f a) 4 = load_le m (size_pos f a) 4" by (simp add: load_le_same)
  have "wire_value m' (wire_message n m') f (a + j * ?d) = Some (vs ! j)" if "j < k" for j
  proof -
    have "Suc j * ?d \<le> k * ?d" using that by (intro mult_right_mono) simp_all
    then have "same_on {a + j * ?d..<a + j * ?d + ?d} m m'" by (intro same_on_mono [OF same]) auto
    from value_stable [OF ok this] show ?thesis using h that by (simp add: holds_def)
  qed
  then show "holds n f a vs (Suc k) m'" using v by (simp add: holds_def less_Suc_eq)
qed

lemma pItem_eq:
  assumes "field_ok sub_ok f" "k < unat (pf_array_size f)" "PB_HTYPE (pf_type f) = PB_HTYPE_REPEATED"
  shows "pItem f a k = a + k * unat (pf_data_size f)"
proof -
  let ?d = "unat (pf_data_size f)"
  have "k * ?d \<le> data_len f" using item_bounds [of k "Suc k" f 0] assms(2,3) by simp
  also have "\<dots> < 2 ^ 32" using assms(1) by (simp add: field_ok_def)
  finally have "?d * k mod 2 ^ 32 = k * ?d" by (simp add: mult.commute)
  moreover have "unat (of_nat k :: u32) = k"
    using less_trans [OF assms(2) unat_u32_less] by (intro unat_of_nat_32) simp
  ultimately show ?thesis by (simp add: pItem_def unat_word_ariths)
qed

lemma wire_value_nonempty:
  assumes "wire_value m sub f p = Some v" "PB_LTYPE (pf_type f) \<le> PB_LTYPE_LAST_PACKABLE"
  shows "v \<noteq> []"
  using assms
  by (auto simp: wire_value_def le_bytes32_def le_bytes64_def string_bytes_def Let_def split: if_splits pb_ptr.splits)

text \<open>A descriptor and the iterator at it, for a field at \<open>a\<close>.\<close>

definition at_field :: "pb_field_iter \<Rightarrow> pb_field \<Rightarrow> nat \<Rightarrow> bool" where
  "at_field it f a \<longleftrightarrow> iter_field it = f \<and> it_pData it = a \<and> it_pSize it = size_pos f a \<and> a \<noteq> 0 \<and>
     data_cells f a \<inter> size_cells f a = {} \<and> (pf_size_offset f \<noteq> 0 \<longrightarrow> size_pos f a \<noteq> a)"

text \<open>The memory after a field was decoded, in the encoding \<open>bs\<close>.\<close>

definition field_done :: "nat \<Rightarrow> pb_field \<Rightarrow> nat \<Rightarrow> u8 list \<Rightarrow> memory \<Rightarrow> memory \<Rightarrow> bool" where
  "field_done n f a bs m m' \<longleftrightarrow>
     same_on (- cells f a) m m' \<and> wire_field m' (wire_message n m') n f a = Some bs"

context pb_source begin

lemma decodes_single:
  assumes ok: "field_ok (msg_ok n) f" and dec: "sub_decodes n m0 dec" and it: "at_field it f a"
    and w: "wire_value m0 (wire_message n m0) f p = Some v" and val: "entry_ok (vals_ok n m0) m0 f p"
    and len: "length v < 2 ^ 32" and h: "PB_HTYPE (pf_type f) \<noteq> PB_HTYPE_REPEATED" and t: "wire_tag f = Some t"
  shows "decodes e (blank_field (blank n) f a) (decode_field E dec n wt it) v (field_done n f a (t @ v))"
proof (rule decodesI)
  fix d :: "'st dec_state" and r
  assume d: "good (ds_stream d)" "avail (ds_stream d) = v @ r" "e \<Longrightarrow> r = []" "blank_field (blank n) f a (ds_mem d)"
  have i: "iter_field it = f" "it_pData it = a" "it_pSize it = size_pos f a" "a \<noteq> 0" "data_cells f a \<inter> size_cells f a = {}"
    using it by (simp_all add: at_field_def)
  let ?opt = "PB_HTYPE (pf_type f) = PB_HTYPE_OPTIONAL" and ?s = "size_pos f a"
  let ?m = "if ?opt then (ds_mem d)(?s := 1) else ds_mem d"
  have ne: "?opt \<Longrightarrow> ?s \<noteq> a" using ok it by (auto simp: field_ok_def at_field_def)
  have f: "decode_field E dec n wt it d = PB_DECODERS dec (PB_LTYPE (pf_type f)) f a (d\<lparr>ds_mem := ?m\<rparr>)"
    using ok h ne by (auto simp: decode_field_def decode_static_field_def i field_ok_def Let_def)
  have dc: "data_cells f a = {a..<a + unat (pf_data_size f)}" using h by (simp add: data_cells_def data_len_def)
  have sc: "?opt \<Longrightarrow> ?s \<notin> data_cells f a" using i(5) by (auto simp: size_cells_def size_len_def)
  have blk: "case pf_ptr f of Submsg_fields sub \<Rightarrow> blank n sub a ?m | _ \<Rightarrow> True"
  proof (cases "pf_ptr f")
    case (Submsg_fields sub)
    then have sub: "msg_ok n sub (unat (pf_data_size f))" using ok by (simp add: field_ok_def)
    have "same_on {a..<a + unat (pf_data_size f)} (ds_mem d) ?m" using sc dc by (auto simp: same_on_def)
    from blank_same [OF sub this] show ?thesis using d(4) h Submsg_fields by (simp add: blank_field_def)
  qed simp_all
  obtain m where m_def: "m = ?m" by blast
  note blk = blk [folded m_def]
  have "\<exists>m'. PB_DECODERS dec (PB_LTYPE (pf_type f)) f a (d\<lparr>ds_mem := m\<rparr>) =
      Some (True, d\<lparr>ds_mem := m', ds_stream := is_consume adv (ds_stream d) (length v)\<rparr>) \<and>
      same_on (- data_cells f a) m m' \<and> wire_value m' (wire_message n m') f a = Some v"
    using decodesD [OF decodes_value [OF ok dec w val i(4) len, of e], of "d\<lparr>ds_mem := m\<rparr>" r] d(1-3) blk unfolding dc by (simp split: pb_ptr.splits)
  then obtain m' where m': "PB_DECODERS dec (PB_LTYPE (pf_type f)) f a (d\<lparr>ds_mem := ?m\<rparr>) =
      Some (True, d\<lparr>ds_mem := m', ds_stream := is_consume adv (ds_stream d) (length v)\<rparr>)"
    "same_on (- data_cells f a) ?m m'" "wire_value m' (wire_message n m') f a = Some v" unfolding m_def by blast
  have "same_on (- cells f a) (ds_mem d) m'"
  proof (rule same_on_trans)
    show "same_on (- cells f a) (ds_mem d) ?m" by (auto simp: same_on_def cells_def size_cells_def size_len_def)
    show "same_on (- cells f a) ?m m'" by (rule same_on_mono [OF m'(2)]) (auto simp: cells_def)
  qed
  moreover have "m' ?s = 1" if ?opt
    using bspec [OF m'(2) [unfolded same_on_def], of ?s] sc that by simp
  then have "wire_field m' (wire_message n m') n f a = Some (t @ v)"
    using ok h i(4) m'(3) t by (auto simp: wire_field_def wire_single_def field_ok_def Let_def)
  ultimately show "\<exists>m'. decode_field E dec n wt it d =
      Some (True, d\<lparr>ds_mem := m', ds_stream := is_consume adv (ds_stream d) (length v)\<rparr>) \<and> field_done n f a (t @ v) (ds_mem d) m'"
    unfolding f m'(1) field_done_def by blast
qed

end


text \<open>The memory of a repeated field at \<open>a\<close> with \<open>k\<close> entries decoded.\<close>

definition rep_state :: "nat \<Rightarrow> pb_field \<Rightarrow> nat \<Rightarrow> u8 list list \<Rightarrow> memory \<Rightarrow> nat \<Rightarrow> memory \<Rightarrow> bool" where
  "rep_state n f a vs m k m' \<longleftrightarrow> same_on (- cells f a) m m' \<and> load_le m' (size_pos f a) 4 = k \<and> holds n f a vs k m'"

lemma set_count:
  assumes ok: "field_ok (msg_ok n) f" and rep: "PB_HTYPE (pf_type f) = PB_HTYPE_REPEATED"
    and disj: "data_cells f a \<inter> size_cells f a = {}" and k: "k \<le> unat (pf_array_size f)"
    and same: "same_on (- cells f a) m m'" and h: "holds n f a vs j m'" "j \<le> k"
  defines "m'' \<equiv> store_bytes m' (size_pos f a) (le_bytes 4 k)"
  shows "same_on (- cells f a) m m''" "load_le m'' (size_pos f a) 4 = k" "holds n f a vs j m''"
proof -
  have s: "same_on (- size_cells f a) m' m''"
    unfolding m''_def using rep by (intro same_on_mono [OF same_on_store]) (simp add: size_cells_def size_len_def)
  show "same_on (- cells f a) m m''"
    by (rule same_on_trans [OF same same_on_mono [OF s]]) (auto simp: cells_def)
  show "holds n f a vs j m''"
    using disj by (intro holds_stable [OF ok rep _ h(1)] same_on_mono [OF s]) (use h(2) k in auto)
  have "k < 256 ^ 4" using le_less_trans [OF k unat_u32_less] by simp
  then show "load_le m'' (size_pos f a) 4 = k" by (simp add: m''_def le_value_le_bytes)
qed

lemma ds_update_swap: "d\<lparr>ds_stream := s, ds_mem := m\<rparr> = d\<lparr>ds_mem := m, ds_stream := s\<rparr>"
  by simp

context pb_source begin

text \<open>The decoder of entry \<open>k\<close>.\<close>

lemma decodes_entry:
  assumes ok: "field_ok (msg_ok n) f" and dec: "sub_decodes n m0 dec" and it: "at_field it f a"
    and rep: "PB_HTYPE (pf_type f) = PB_HTYPE_REPEATED" and k: "k < length vs" "length vs \<le> unat (pf_array_size f)"
    and w: "wire_value m0 (wire_message n m0) f p = Some (vs ! k)" and val: "entry_ok (vals_ok n m0) m0 f p"
    and len: "length (vs ! k) < 2 ^ 32"
  shows "decodes e (\<lambda>m'. holds n f a vs k m' \<and> same_on (- cells f a) m m')
     (PB_DECODERS dec (PB_LTYPE (pf_type f)) f (pItem f a k)) (vs ! k)
     (\<lambda>m' m''. same_on (- cells f a) m m'' \<and> holds n f a vs (Suc k) m'' \<and> load_le m'' (size_pos f a) 4 = load_le m' (size_pos f a) 4)"
proof (rule decodesI)
  fix d :: "'st dec_state" and r
  assume d: "good (ds_stream d)" "avail (ds_stream d) = vs ! k @ r" "e \<Longrightarrow> r = []"
    "holds n f a vs k (ds_mem d) \<and> same_on (- cells f a) m (ds_mem d)"
  let ?q = "a + k * unat (pf_data_size f)"
  have i: "a \<noteq> 0" "data_cells f a \<inter> size_cells f a = {}" using it by (simp_all add: at_field_def)
  have ka: "k < unat (pf_array_size f)" using k by simp
  have q: "pItem f a k = ?q" by (rule pItem_eq [OF ok ka rep])
  obtain m' where m': "PB_DECODERS dec (PB_LTYPE (pf_type f)) f ?q d =
      Some (True, d\<lparr>ds_mem := m', ds_stream := is_consume adv (ds_stream d) (length (vs ! k))\<rparr>)"
    "same_on (- {?q..<?q + unat (pf_data_size f)}) (ds_mem d) m'" "wire_value m' (wire_message n m') f ?q = Some (vs ! k)"
    using decodesD [OF decodes_value [OF ok dec w val _ len, of ?q e] d(1-3)] rep i(1) by auto
  note h = holds_Suc [OF ok rep ka conjunct1 [OF d(4)] i(2) m'(2,3)]
  have "same_on (- cells f a) m m'"
    by (rule same_on_trans [OF conjunct2 [OF d(4)] same_on_mono [OF h(2)]]) (auto simp: cells_def)
  then show "\<exists>m'. PB_DECODERS dec (PB_LTYPE (pf_type f)) f (pItem f a k) d =
      Some (True, d\<lparr>ds_mem := m', ds_stream := is_consume adv (ds_stream d) (length (vs ! k))\<rparr>) \<and>
      same_on (- cells f a) m m' \<and> holds n f a vs (Suc k) m' \<and> load_le m' (size_pos f a) 4 = load_le (ds_mem d) (size_pos f a) 4"
    unfolding q m'(1) using h(1,3) by blast
qed

text \<open>One item of an array that is not packed.\<close>

lemma decodes_item:
  assumes ok: "field_ok (msg_ok n) f" and dec: "sub_decodes n m0 dec" and it: "at_field it f a"
    and rep: "PB_HTYPE (pf_type f) = PB_HTYPE_REPEATED" and k: "k < length vs" "length vs \<le> unat (pf_array_size f)"
    and w: "wire_value m0 (wire_message n m0) f p = Some (vs ! k)" and val: "entry_ok (vals_ok n m0) m0 f p"
    and len: "length (vs ! k) < 2 ^ 32" and np: "\<not> PB_LTYPE (pf_type f) \<le> PB_LTYPE_LAST_PACKABLE"
  shows "decodes e (rep_state n f a vs m k) (decode_field E dec n wt it) (vs ! k) (\<lambda>_. rep_state n f a vs m (Suc k))"
proof (rule decodesI)
  fix d :: "'st dec_state" and r
  assume d: "good (ds_stream d)" "avail (ds_stream d) = vs ! k @ r" "e \<Longrightarrow> r = []" "rep_state n f a vs m k (ds_mem d)"
  have i: "iter_field it = f" "it_pData it = a" "it_pSize it = size_pos f a" "data_cells f a \<inter> size_cells f a = {}"
    using it by (simp_all add: at_field_def)
  have st: "same_on (- cells f a) m (ds_mem d)" "load_le (ds_mem d) (size_pos f a) 4 = k" "holds n f a vs k (ds_mem d)"
    using d(4) by (simp_all add: rep_state_def)
  let ?m = "store_bytes (ds_mem d) (size_pos f a) (le_bytes 4 (k + 1))"
  have f: "decode_field E dec n wt it d = PB_DECODERS dec (PB_LTYPE (pf_type f)) f (pItem f a k) (d\<lparr>ds_mem := ?m\<rparr>)"
    using ok rep np k by (simp add: decode_field_def decode_static_field_def i field_ok_def st(2) Let_def)
  note c = set_count [OF ok rep i(4) _ st(1,3), of "k + 1"]
  have ka: "k + 1 \<le> unat (pf_array_size f)" using k by simp
  from decodesD [OF decodes_entry [OF ok dec it rep k w val len, of e m], of "d\<lparr>ds_mem := ?m\<rparr>" r] d(1-3) c [OF ka]
  obtain m' where "PB_DECODERS dec (PB_LTYPE (pf_type f)) f (pItem f a k) (d\<lparr>ds_mem := ?m\<rparr>) =
      Some (True, d\<lparr>ds_mem := m', ds_stream := is_consume adv (ds_stream d) (length (vs ! k))\<rparr>)"
      "same_on (- cells f a) m m'" "holds n f a vs (Suc k) m'" "load_le m' (size_pos f a) 4 = k + 1" by auto
  then show "\<exists>m'. decode_field E dec n wt it d =
      Some (True, d\<lparr>ds_mem := m', ds_stream := is_consume adv (ds_stream d) (length (vs ! k))\<rparr>) \<and> rep_state n f a vs m (Suc k) m'"
    unfolding f by (auto simp: rep_state_def)
qed

text \<open>A packed array.\<close>

lemma packed_loop_decodes:
  assumes ok: "field_ok (msg_ok n) f" and dec: "sub_decodes n m0 dec" and it: "at_field it f a"
    and rep: "PB_HTYPE (pf_type f) = PB_HTYPE_REPEATED" and cnt: "length vs \<le> unat (pf_array_size f)"
    and w: "\<And>k. k < length vs \<Longrightarrow> wire_value m0 (wire_message n m0) f (ps k) = Some (vs ! k)"
    and val: "\<And>k. k < length vs \<Longrightarrow> entry_ok (vals_ok n m0) m0 f (ps k)"
    and len: "\<And>k. k < length vs \<Longrightarrow> length (vs ! k) < 2 ^ 32"
    and pk: "PB_LTYPE (pf_type f) \<le> PB_LTYPE_LAST_PACKABLE"
  shows "k \<le> length vs \<Longrightarrow> good (ds_stream d) \<Longrightarrow> avail (ds_stream d) = concat (drop k vs) \<Longrightarrow>
     rep_state n f a vs m k (ds_mem d) \<Longrightarrow>
     \<exists>m'. packed_loop (PB_DECODERS dec (PB_LTYPE (pf_type f)) f) f a (size_pos f a) d =
       Some (True, d\<lparr>ds_mem := m', ds_stream := is_consume adv (ds_stream d) (length (concat (drop k vs)))\<rparr>) \<and>
       rep_state n f a vs m (length vs) m'"
proof (induction "length vs - k" arbitrary: k d)
  case 0
  then have "k = length vs" by simp
  moreover have "is_bytes_left (ds_stream d) = 0"
    using length_avail [OF 0(3)] 0(4) calculation by simp
  ultimately show ?case using 0(5) by (subst packed_loop.simps) (simp add: exI [of _ "ds_mem d"])
next
  case (Suc j)
  have i: "data_cells f a \<inter> size_cells f a = {}" using it by (simp add: at_field_def)
  have st: "same_on (- cells f a) m (ds_mem d)" "load_le (ds_mem d) (size_pos f a) 4 = k" "holds n f a vs k (ds_mem d)"
    using Suc.prems(4) by (simp_all add: rep_state_def)
  have k: "k < length vs" "k + 1 \<le> unat (pf_array_size f)" using Suc.hyps(2) cnt by simp_all
  have dr: "concat (drop k vs) = vs ! k @ concat (drop (Suc k) vs)" using k(1) by (simp flip: Cons_nth_drop_Suc)
  have left: "is_bytes_left (ds_stream d) \<noteq> 0"
    using length_avail [OF Suc.prems(2)] Suc.prems(3) wire_value_nonempty [OF w [OF k(1)] pk] unfolding dr
    by (cases "vs ! k") auto
  obtain m1 where m1: "PB_DECODERS dec (PB_LTYPE (pf_type f)) f (pItem f a k) d =
      Some (True, d\<lparr>ds_mem := m1, ds_stream := is_consume adv (ds_stream d) (length (vs ! k))\<rparr>)"
      "same_on (- cells f a) m m1" "holds n f a vs (Suc k) m1" "load_le m1 (size_pos f a) 4 = k"
    using decodesD [OF decodes_entry [OF ok dec it rep k(1) cnt w val len, of False m], of d "concat (drop (Suc k) vs)"]
      Suc.prems(2,3) st k(1) unfolding dr by auto
  let ?m = "store_bytes m1 (size_pos f a) (le_bytes 4 (k + 1))"
  let ?d = "d\<lparr>ds_mem := ?m, ds_stream := is_consume adv (ds_stream d) (length (vs ! k))\<rparr>"
  have "rep_state n f a vs m (Suc k) ?m"
    using set_count [OF ok rep i k(2) m1(2,3)] by (simp add: rep_state_def)
  moreover have j: "j = length vs - Suc k" using Suc.hyps(2) by simp
  moreover have l: "length (vs ! k) \<le> is_bytes_left (ds_stream d)"
    using length_avail [OF Suc.prems(2)] Suc.prems(3) unfolding dr by simp
  ultimately obtain m' where "packed_loop (PB_DECODERS dec (PB_LTYPE (pf_type f)) f) f a (size_pos f a) ?d =
       Some (True, ?d\<lparr>ds_mem := m', ds_stream := is_consume adv (ds_stream ?d) (length (concat (drop (Suc k) vs)))\<rparr>)"
       "rep_state n f a vs m (length vs) m'"
    using Suc.hyps(1) [OF j, of ?d] Suc.prems(2,3) k(1) unfolding dr by auto
  then show ?case
    using left k(2) m1 st(2) unfolding dr by (subst packed_loop.simps) (auto simp: Let_def ds_update_swap)
qed

lemma decodes_packed:
  assumes ok: "field_ok (msg_ok n) f" and dec: "sub_decodes n m0 dec" and it: "at_field it f a"
    and rep: "PB_HTYPE (pf_type f) = PB_HTYPE_REPEATED" and cnt: "length vs \<le> unat (pf_array_size f)"
    and w: "\<And>k. k < length vs \<Longrightarrow> wire_value m0 (wire_message n m0) f (ps k) = Some (vs ! k)"
    and val: "\<And>k. k < length vs \<Longrightarrow> entry_ok (vals_ok n m0) m0 f (ps k)"
    and len: "length (concat vs) < 2 ^ 32"
    and pk: "PB_LTYPE (pf_type f) \<le> PB_LTYPE_LAST_PACKABLE"
  shows "decodes e (rep_state n f a vs m 0) (decode_field E dec n PB_WT_STRING it) (string_bytes (concat vs))
    (\<lambda>_. rep_state n f a vs m (length vs))"
proof (rule decodesI)
  fix d :: "'st dec_state" and r
  assume d: "good (ds_stream d)" "avail (ds_stream d) = string_bytes (concat vs) @ r" "rep_state n f a vs m 0 (ds_mem d)"
  have i: "iter_field it = f" "it_pData it = a" "it_pSize it = size_pos f a" using it by (simp_all add: at_field_def)
  have len1: "length (vs ! k) < 2 ^ 32" if "k < length vs" for k
  proof -
    have "length (vs ! k) \<le> sum_list (map length vs)" using that by (intro member_le_sum_list) auto
    then show ?thesis using len by (simp add: length_concat)
  qed
  from substream_reads [OF d(1,2) len] obtain ss s' where ss:
      "pb_make_string_substream (ds_stream d) = (Some ss, s')" "good ss" "avail ss = concat vs"
      "pb_close_string_substream s' (is_consume adv ss (length (concat vs))) =
         (True, is_consume adv (ds_stream d) (length (string_bytes (concat vs))))" .
  obtain m' where m': "packed_loop (PB_DECODERS dec (PB_LTYPE (pf_type f)) f) f a (size_pos f a) (d\<lparr>ds_stream := ss\<rparr>) =
       Some (True, d\<lparr>ds_mem := m', ds_stream := is_consume adv ss (length (concat vs))\<rparr>)"
       "rep_state n f a vs m (length vs) m'"
    using packed_loop_decodes [OF ok dec it rep cnt w val len1 pk, of 0 "d\<lparr>ds_stream := ss\<rparr>" m] ss(2,3) d(3) by auto
  have "is_bytes_left ss = length (concat vs)" using length_avail [OF ss(2)] ss(3) by simp
  then show "\<exists>m'. decode_field E dec n PB_WT_STRING it d =
      Some (True, d\<lparr>ds_mem := m', ds_stream := is_consume adv (ds_stream d) (length (string_bytes (concat vs)))\<rparr>) \<and>
      rep_state n f a vs m (length vs) m'"
    using ok rep pk m' ss(1,4)
    by (intro exI [of _ m']) (simp add: decode_field_def decode_static_field_def i field_ok_def Let_def)
qed

end

text \<open>What a repeated field with all its entries encodes to.\<close>

lemma concat_opt_nth:
  assumes "\<And>i. i < length vs \<Longrightarrow> g i = Some (vs ! i)"
  shows "concat_opt (map g [0..<length vs]) = Some (concat vs)"
proof -
  have "map g [0..<length vs] = map Some vs" using assms by (intro nth_equalityI) simp_all
  then have "those (map g [0..<length vs]) = Some vs" by (simp only: those_Some)
  then show ?thesis by (simp add: concat_opt_def)
qed

lemma rep_state_wire:
  assumes ok: "field_ok (msg_ok n) f" and rep: "PB_HTYPE (pf_type f) = PB_HTYPE_REPEATED"
    and st: "rep_state n f a vs m (length vs) m'" and cnt: "length vs \<le> unat (pf_array_size f)"
  shows "wire_field m' (wire_message n m') n f a =
    (if vs = [] then Some []
     else if PB_LTYPE (pf_type f) \<le> PB_LTYPE_LAST_PACKABLE
     then Some (varint_bytes (push_bit 3 (ucast (pf_tag f)) OR ucast PB_WT_STRING) @ string_bytes (concat vs))
     else Option.bind (wire_tag f) (\<lambda>t. Some (concat (map ((@) t) vs))))"
proof -
  have h: "wire_value m' (wire_message n m') f (a + j * unat (pf_data_size f)) = Some (vs ! j)" if "j < length vs" for j
    using st that by (simp add: rep_state_def holds_def)
  have "wire_field m' (wire_message n m') n f a = wire_array m' (wire_message n m') f a (length vs)"
    using ok rep st by (simp add: wire_field_def field_ok_def rep_state_def Let_def)
  moreover have "concat_opt (map (\<lambda>i. map_option ((@) t) (wire_value m' (wire_message n m') f (a + i * unat (pf_data_size f)))) [0..<length vs])
      = Some (concat (map ((@) t) vs))" for t
    using concat_opt_nth [of "map ((@) t) vs"] h by simp
  ultimately show ?thesis using cnt concat_opt_nth [of vs, OF h] by (simp add: wire_array_def Let_def)
qed


section \<open>The loop over the fields\<close>

lemma find_field:
  assumes ok: "tags_ok fs" "distinct (map pf_tag fs)" and i: "i < length fs" and j: "j < length fs"
    and ext: "PB_LTYPE (pf_type (fs ! i)) \<noteq> PB_LTYPE_EXTENSION"
  shows "pb_field_iter_find (iter_at fs p j) (pf_tag (fs ! i)) = Some (True, iter_at fs p i)"
proof -
  let ?n = "length fs" and ?hit = "tag_hit fs (pf_tag (fs ! i)) j"
  have hit: "?hit k \<longleftrightarrow> (j + k) mod ?n = i" for k
  proof -
    have "(j + k) mod ?n < ?n" using i by (intro mod_less_divisor) auto
    then show ?thesis using ok(2) i ext nth_eq_iff_index_eq [of "map pf_tag fs" "(j + k) mod ?n" i]
      by (auto simp: tag_hit_def)
  qed
  let ?k = "(i + ?n - j) mod ?n"
  have "(j + ?k) mod ?n = (j + (i + ?n - j)) mod ?n" by (rule mod_add_right_eq)
  also have "\<dots> = i" using i j by simp
  finally have k: "?hit ?k" "?k < ?n" using i by (auto simp: hit intro!: mod_less_divisor)
  then have "?hit (LEAST k. ?hit k)" by (intro LeastI)
  then show ?thesis
    using pb_field_iter_find_spec [OF ok(1) j, of p "pf_tag (fs ! i)"] k unfolding hit by (auto simp del: iter_at.simps)
qed

lemma required_index:
  assumes ok: "tags_ok fs" "\<And>j. j < length fs \<Longrightarrow> PB_HTYPE (pf_type (fs ! j)) \<noteq> PB_HTYPE_ONEOF" "num_required fs < 64"
  shows "i < length fs \<Longrightarrow> it_required_field_index (iter_at fs p i) = num_required (take i fs)"
proof (induction i)
  case 0
  then show ?case by (simp add: pb_field_iter_begin_def num_required_def Let_def)
next
  case (Suc i)
  have i: "it_pos (iter_at fs p i) = i" using Suc.prems by (intro iter_at_pos [OF ok(1)]) simp
  have "field_at fs i = fs ! i" "field_at fs (Suc i) = fs ! Suc i" "pf_tag (fs ! i) \<noteq> 0" "pf_tag (fs ! Suc i) \<noteq> 0"
    using ok(1) Suc.prems by (auto simp: field_at_def tags_ok_def)
  moreover have "num_required (take (Suc i) fs) = num_required (take i fs) + (if PB_HTYPE (pf_type (fs ! i)) = PB_HTYPE_REQUIRED then 1 else 0)"
    using Suc.prems by (simp add: num_required_def take_Suc_conv_app_nth)
  moreover have "num_required (take i fs) < 64"
  proof -
    have "num_required fs = num_required (take i fs) + num_required (drop i fs)"
      unfolding num_required_def by (metis append_take_drop_id filter_append length_append)
    then show ?thesis using ok(3) by simp
  qed
  ultimately show ?case
    using Suc ok(2) [of i] by (simp add: pb_field_iter_next_def iter_field_def i Let_def)
qed

text \<open>The bits of the first \<open>r\<close> required fields.\<close>

definition seen_upto :: "nat \<Rightarrow> u32 list" where
  "seen_upto r = [mask (min r 32), mask (r - 32)]"

lemma mask_step: "(mask (Suc r) :: u32) = mask r OR push_bit r 1"
  by (simp add: mask_Suc_exp push_bit_of_1 or.commute)

lemma seen_step: "r < 64 \<Longrightarrow> (seen_upto r)[r div 32 := seen_upto r ! (r div 32) OR push_bit (r mod 32) 1] = seen_upto (Suc r)"
proof (cases "r < 32")
  case False
  assume "r < 64"
  then have "r div 32 = 1" "r mod 32 = r - 32" using False by (simp_all add: div_nat_eqI mod_if)
  moreover have "Suc r - 32 = Suc (r - 32)" using False by simp
  ultimately show ?thesis using False by (simp add: seen_upto_def mask_step min_absorb2 del: diff_Suc_Suc)
qed (simp add: seen_upto_def mask_step min_def)

lemma seen_all:
  assumes "r < 64" "r mod 32 \<noteq> 0 \<or> r = 0"
  shows "required_seen r (seen_upto r) = Some True"
proof -
  have m: "drop_bit (32 - k) (- 1 :: u32) = mask k" if "k \<le> 32" for k
    using that by (intro bit_word_eqI) (auto simp: bit_simps)
  consider "r = 0" | "0 < r" "r < 32" | "32 < r" "r < 64" using assms by (cases "r = 32") force+
  then show ?thesis
  proof cases
    case 3
    then have "r div 32 = 1" "r mod 32 = r - 32" by (simp_all add: div_nat_eqI mod_if)
    moreover have "(mask 32 :: u32) = - 1" by (rule bit_word_eqI) (simp add: bit_simps)
    ultimately show ?thesis using 3 m [of "r - 32"] by (simp add: required_seen_def seen_upto_def)
  qed (simp_all add: required_seen_def seen_upto_def m)
qed

text \<open>The loop at field \<open>j\<close> with \<open>r\<close> required fields seen.\<close>

definition scan_at :: "pb_field list \<Rightarrow> nat \<Rightarrow> nat \<Rightarrow> nat \<Rightarrow> scan" where
  "scan_at fs p j r = \<lparr>sc_iter = iter_at fs p j, sc_extension_range_start = 0, sc_fields_seen = seen_upto r\<rparr>"

lemma decode_tagged_at:
  assumes ok: "msg_ok (Suc n) fs len" and i: "i < length fs" and j: "j < length fs"
    and x: "PB_HTYPE (pf_type (fs ! i)) = PB_HTYPE_REQUIRED \<Longrightarrow> x = num_required (take i fs)"
  shows "decode_tagged E dec n (pf_tag (fs ! i)) wt (scan_at fs p j x) d =
    map_option (\<lambda>(ok, d'). (ok, scan_at fs p i
        (if PB_HTYPE (pf_type (fs ! i)) = PB_HTYPE_REQUIRED then Suc x else x), d'))
      (decode_field E dec n wt (iter_at fs p i) d)"
proof -
  note ok = msg_okD [OF ok]
  have f: "PB_LTYPE (pf_type (fs ! i)) \<noteq> PB_LTYPE_EXTENSION" using ok(6) [OF i] by (simp add: field_ok_def)
  have "PB_HTYPE (pf_type (fs ! j)) \<noteq> PB_HTYPE_ONEOF" if "j < length fs" for j
    using ok(6) [OF that] by (auto simp: field_ok_def)
  then have ri: "it_required_field_index (iter_at fs p i) = num_required (take i fs)" by (rule required_index [OF ok(1) _ ok(4) i])
  have "num_required (take i fs) + num_required (drop i fs) < 64"
    using ok(4) unfolding num_required_def by (metis append_take_drop_id filter_append length_append)
  then have r: "num_required (take i fs) < 64" by simp
  have "mark_seen (iter_at fs p i) (seen_upto x) =
      seen_upto (if PB_HTYPE (pf_type (fs ! i)) = PB_HTYPE_REQUIRED then Suc x else x)"
    using seen_step [OF r] r x by (simp add: mark_seen_def iter_field_at [OF ok(1) i] ri Let_def)
  then show ?thesis
    using find_field [OF ok(1,2) i j f, of p] by (simp add: decode_tagged_def scan_at_def Let_def)
qed

context pb_source begin

text \<open>\<open>loops T c P bs c' Q\<close>: the loop goes from \<open>c\<close> to \<open>c'\<close> over the bytes \<open>bs\<close>.\<close>

definition loops ::
  "(u32 \<Rightarrow> pb_wire_type_t \<Rightarrow> scan \<Rightarrow> 'st dec_state \<Rightarrow> (bool \<times> scan \<times> 'st dec_state) option) \<Rightarrow> scan \<Rightarrow>
   (memory \<Rightarrow> bool) \<Rightarrow> u8 list \<Rightarrow> scan \<Rightarrow> (memory \<Rightarrow> memory \<Rightarrow> bool) \<Rightarrow> bool" where
  "loops T c P bs c' Q \<longleftrightarrow> (\<forall>d r. good (ds_stream d) \<longrightarrow> avail (ds_stream d) = bs @ r \<longrightarrow> P (ds_mem d) \<longrightarrow>
     (\<exists>m'. decode_loop T c d = decode_loop T c' (d\<lparr>ds_mem := m', ds_stream := is_consume adv (ds_stream d) (length bs)\<rparr>) \<and>
       Q (ds_mem d) m'))"

lemma loopsD:
  "loops T c P bs c' Q \<Longrightarrow> good (ds_stream d) \<Longrightarrow> avail (ds_stream d) = bs @ r \<Longrightarrow> P (ds_mem d) \<Longrightarrow>
   \<exists>m'. decode_loop T c d = decode_loop T c' (d\<lparr>ds_mem := m', ds_stream := is_consume adv (ds_stream d) (length bs)\<rparr>) \<and>
     Q (ds_mem d) m'"
  by (simp add: loops_def)

lemma loops_nil: "(\<And>m. P m \<Longrightarrow> Q m m) \<Longrightarrow> loops T c P [] c Q"
  unfolding loops_def
proof (intro allI impI)
  fix d :: "'st dec_state" and r
  assume "P (ds_mem d)" "\<And>m. P m \<Longrightarrow> Q m m"
  then show "\<exists>m'. decode_loop T c d =
      decode_loop T c (d\<lparr>ds_mem := m', ds_stream := is_consume adv (ds_stream d) (length [])\<rparr>) \<and> Q (ds_mem d) m'"
    by (intro exI [of _ "ds_mem d"]) simp
qed

lemma loops_weaken:
  "loops T c P bs c' Q \<Longrightarrow> (\<And>m m'. P m \<Longrightarrow> Q m m' \<Longrightarrow> Q' m m') \<Longrightarrow> loops T c P bs c' Q'"
  unfolding loops_def by blast

lemma loops_trans:
  assumes "loops T c P a c1 Q" "loops T c1 P1 b c2 Q1" "\<And>m m'. P m \<Longrightarrow> Q m m' \<Longrightarrow> P1 m'"
  shows "loops T c P (a @ b) c2 (\<lambda>m m''. \<exists>m'. Q m m' \<and> Q1 m' m'')"
  unfolding loops_def
proof (intro allI impI)
  fix d :: "'st dec_state" and r
  assume d: "good (ds_stream d)" "avail (ds_stream d) = (a @ b) @ r" "P (ds_mem d)"
  then obtain m' where m': "decode_loop T c d = decode_loop T c1 (d\<lparr>ds_mem := m', ds_stream := is_consume adv (ds_stream d) (length a)\<rparr>)"
    "Q (ds_mem d) m'" using loopsD [OF assms(1), of d "b @ r"] by auto
  have l: "length a \<le> is_bytes_left (ds_stream d)" using length_avail [OF d(1)] d(2) by simp
  show "\<exists>m''. decode_loop T c d = decode_loop T c2 (d\<lparr>ds_mem := m'', ds_stream := is_consume adv (ds_stream d) (length (a @ b))\<rparr>) \<and>
      (\<exists>m'. Q (ds_mem d) m' \<and> Q1 m' m'')"
    using loopsD [OF assms(2), of "d\<lparr>ds_mem := m', ds_stream := is_consume adv (ds_stream d) (length a)\<rparr>" r]
      d l m' assms(3) [OF d(3) m'(2)] by auto
qed

lemma loops_item:
  assumes step: "decodes False P f v Q" and tag: "tag < 2 ^ 29" "tag \<noteq> 0" "wt < 8"
    and turn: "\<And>d. T tag wt c d = map_option (\<lambda>(ok, d'). (ok, c', d')) (f d)"
  shows "loops T c P (varint_bytes (push_bit 3 (ucast tag) OR ucast wt) @ v) c' Q"
  unfolding loops_def
proof (intro allI impI)
  fix d :: "'st dec_state" and r
  let ?t = "varint_bytes (push_bit 3 (ucast tag) OR ucast wt)"
  assume d: "good (ds_stream d)" "avail (ds_stream d) = (?t @ v) @ r" "P (ds_mem d)"
  have l: "length ?t \<le> is_bytes_left (ds_stream d)" "0 < is_bytes_left (ds_stream d)"
    using length_avail [OF d(1)] d(2) by (cases ?t, simp_all)+
  have t: "pb_decode_tag (ds_stream d) = (True, wt, tag, False, is_consume adv (ds_stream d) (length ?t))"
    using pb_decode_tag_good [OF d(1) _ tag] d(2) by simp
  show "\<exists>m'. decode_loop T c d = decode_loop T c' (d\<lparr>ds_mem := m', ds_stream := is_consume adv (ds_stream d) (length (?t @ v))\<rparr>) \<and>
      Q (ds_mem d) m'"
    using decodesD [OF step, of "d\<lparr>ds_stream := is_consume adv (ds_stream d) (length ?t)\<rparr>" r] d l turn
    by (subst decode_loop.simps) (auto simp: t ds_update_swap)
qed

end


lemma wire_tagE:
  assumes "wire_tag f = Some t"
  obtains wt :: pb_wire_type_t where "t = varint_bytes (push_bit 3 (ucast (pf_tag f)) OR ucast wt)" "wt < 8"
proof -
  from assms obtain wt where wt: "t = varint_bytes (push_bit 3 (ucast (pf_tag f)) OR ucast wt)"
      "wt \<in> {PB_WT_VARINT, PB_WT_32BIT, PB_WT_64BIT, PB_WT_STRING}"
    unfolding wire_tag_def Let_def
    by (auto split: if_splits simp del: PB_WT_VARINT_def PB_WT_32BIT_def PB_WT_64BIT_def PB_WT_STRING_def)
  then have "wt < 8" by auto
  with wt(1) that show thesis by blast
qed

lemma wire_arrayE:
  assumes "wire_array m sub f p c = Some bs" "c \<noteq> 0"
  obtains vs where "length vs = c" "c \<le> unat (pf_array_size f)"
    "\<And>k. k < c \<Longrightarrow> wire_value m sub f (p + k * unat (pf_data_size f)) = Some (vs ! k)"
    "PB_LTYPE (pf_type f) \<le> PB_LTYPE_LAST_PACKABLE \<and>
        bs = varint_bytes (push_bit 3 (ucast (pf_tag f)) OR ucast PB_WT_STRING) @ string_bytes (concat vs) \<or>
      \<not> PB_LTYPE (pf_type f) \<le> PB_LTYPE_LAST_PACKABLE \<and> (\<exists>t. wire_tag f = Some t \<and> bs = concat (map ((@) t) vs))"
proof -
  let ?entry = "\<lambda>i. wire_value m sub f (p + i * unat (pf_data_size f))"
  have c: "c \<le> unat (pf_array_size f)" using assms by (auto simp: wire_array_def split: if_splits)
  show thesis
  proof (cases "PB_LTYPE (pf_type f) \<le> PB_LTYPE_LAST_PACKABLE")
    case True
    with assms obtain v where v: "concat_opt (map ?entry [0..<c]) = Some v"
      "bs = varint_bytes (push_bit 3 (ucast (pf_tag f)) OR ucast PB_WT_STRING) @ string_bytes v"
      by (auto simp: wire_array_def Let_def split: if_splits)
    from v(1) obtain vs where "v = concat vs" "length vs = c" "\<And>k. k < c \<Longrightarrow> ?entry k = Some (vs ! k)"
      by (rule concat_optE) auto
    with that c True v(2) show thesis by blast
  next
    case False
    with assms obtain t where t: "wire_tag f = Some t" "concat_opt (map (\<lambda>i. map_option ((@) t) (?entry i)) [0..<c]) = Some bs"
      by (auto simp: wire_array_def Let_def split: if_splits bind_splits)
    from t(2) obtain bss where bss: "bs = concat bss" "length bss = c"
      "\<And>k. k < c \<Longrightarrow> map_option ((@) t) (?entry k) = Some (bss ! k)" by (rule concat_optE) auto
    obtain vs where vs: "length vs = c" "\<And>k. k < c \<Longrightarrow> vs ! k = the (?entry k)"
      by (rule that [of "map (\<lambda>k. the (?entry k)) [0..<c]"]) simp_all
    have e: "?entry k = Some (vs ! k)" "bss ! k = t @ vs ! k" if "k < c" for k using bss(3) [OF that] vs(2) [OF that] by auto
    have b: "bss = map ((@) t) vs" using bss(2) vs(1) e(2) by (intro nth_equalityI) simp_all
    show thesis
    proof (rule that [OF vs(1) c e(1)])
      show "PB_LTYPE (pf_type f) \<le> PB_LTYPE_LAST_PACKABLE \<and>
          bs = varint_bytes (push_bit 3 (ucast (pf_tag f)) OR ucast PB_WT_STRING) @ string_bytes (concat vs) \<or>
        \<not> PB_LTYPE (pf_type f) \<le> PB_LTYPE_LAST_PACKABLE \<and> (\<exists>t. wire_tag f = Some t \<and> bs = concat (map ((@) t) vs))"
        using False t(1) bss(1) b by blast
    qed
  qed
qed

context pb_source begin

lemma loops_param:
  assumes "\<And>m. loops T c (R m) bs c' (\<lambda>_. S m)" "\<And>m. P m \<Longrightarrow> R m m" "\<And>m m'. S m m' \<Longrightarrow> Q m m'"
  shows "loops T c P bs c' Q"
  using assms unfolding loops_def by meson

text \<open>The items of an array that is not packed, from entry \<open>k\<close> on.\<close>

lemma loops_items:
  assumes ok: "msg_ok (Suc n) fs len" and i: "i < length fs" and dec: "sub_decodes n m0 dec"
    and it: "at_field (iter_at fs p i) (fs ! i) a"
    and rep: "PB_HTYPE (pf_type (fs ! i)) = PB_HTYPE_REPEATED" and cnt: "length vs \<le> unat (pf_array_size (fs ! i))"
    and w: "\<And>k. k < length vs \<Longrightarrow> wire_value m0 (wire_message n m0) (fs ! i) (ps k) = Some (vs ! k)"
    and val: "\<And>k. k < length vs \<Longrightarrow> entry_ok (vals_ok n m0) m0 (fs ! i) (ps k)"
    and len: "\<And>k. k < length vs \<Longrightarrow> length (vs ! k) < 2 ^ 32"
    and np: "\<not> PB_LTYPE (pf_type (fs ! i)) \<le> PB_LTYPE_LAST_PACKABLE" and t: "wire_tag (fs ! i) = Some t"
  shows "k \<le> length vs \<Longrightarrow> j < length fs \<Longrightarrow>
    loops (decode_tagged E dec n) (scan_at fs p j x) (rep_state n (fs ! i) a vs m k) (concat (map ((@) t) (drop k vs)))
      (scan_at fs p (if k < length vs then i else j) x) (\<lambda>_. rep_state n (fs ! i) a vs m (length vs))"
proof (induction "length vs - k" arbitrary: k j)
  case 0
  then show ?case by (simp add: loops_nil)
next
  case (Suc l)
  let ?f = "fs ! i"
  have fok: "field_ok (msg_ok n) ?f" by (rule msg_okD(6) [OF ok i])
  have k: "k < length vs" "l = length vs - Suc k" "Suc k \<le> length vs" using Suc.hyps(2) by simp_all
  from t obtain wt :: pb_wire_type_t where wt: "t = varint_bytes (push_bit 3 (ucast (pf_tag ?f)) OR ucast wt)" "wt < 8" by (rule wire_tagE)
  have tag: "pf_tag ?f < 2 ^ 29" "pf_tag ?f \<noteq> 0" using fok msg_okD(1) [OF ok] i by (simp_all add: field_ok_def tags_ok_def)
  have turn: "decode_tagged E dec n (pf_tag ?f) wt (scan_at fs p j x) d =
      map_option (\<lambda>(ok, d'). (ok, scan_at fs p i x, d')) (decode_field E dec n wt (iter_at fs p i) d)" for d
    using decode_tagged_at [OF ok i Suc.prems(2), where x = x and p = p] rep by simp
  have "loops (decode_tagged E dec n) (scan_at fs p j x) (rep_state n ?f a vs m k) (t @ vs ! k) (scan_at fs p i x)
      (\<lambda>_. rep_state n ?f a vs m (Suc k))"
    unfolding wt(1)
    by (rule loops_item [OF decodes_item [where E = E and wt = wt, OF fok dec it rep k(1) cnt w [OF k(1)] val [OF k(1)] len [OF k(1)] np] tag wt(2)]) (rule turn)
  moreover have "loops (decode_tagged E dec n) (scan_at fs p i x) (rep_state n ?f a vs m (Suc k))
      (concat (map ((@) t) (drop (Suc k) vs))) (scan_at fs p i x) (\<lambda>_. rep_state n ?f a vs m (length vs))"
    using Suc.hyps(1) [OF k(2,3) i] by (simp split: if_splits)
  ultimately have "loops (decode_tagged E dec n) (scan_at fs p j x) (rep_state n ?f a vs m k)
      ((t @ vs ! k) @ concat (map ((@) t) (drop (Suc k) vs))) (scan_at fs p i x)
      (\<lambda>m1 m2. \<exists>m'. rep_state n ?f a vs m (Suc k) m' \<and> rep_state n ?f a vs m (length vs) m2)"
    by (rule loops_trans) simp
  moreover have "drop k vs = vs ! k # drop (Suc k) vs" using k(1) by (simp add: Cons_nth_drop_Suc)
  ultimately show ?case using k(1) by (auto elim!: loops_weaken)
qed

text \<open>One field.\<close>

lemma loops_field:
  assumes ok: "msg_ok (Suc n) fs len" and i: "i < length fs" and j: "j < length fs" and dec: "sub_decodes n m0 dec"
    and it: "at_field (iter_at fs p i) (fs ! i) a"
    and w: "wire_field m0 (wire_message n m0) n (fs ! i) q = Some bs"
    and val: "\<forall>q' \<in> set (entries m0 (fs ! i) q). entry_ok (vals_ok n m0) m0 (fs ! i) q'"
    and len: "length bs < 2 ^ 32"
  defines "r k \<equiv> num_required (take k fs)"
  shows "\<exists>j' < length fs. loops (decode_tagged E dec n) (scan_at fs p j (r i)) (blank_field (blank n) (fs ! i) a) bs
      (scan_at fs p j' (r (Suc i))) (field_done n (fs ! i) a bs)"
proof -
  let ?f = "fs ! i"
  have fok: "field_ok (msg_ok n) ?f" by (rule msg_okD(6) [OF ok i])
  have tag: "pf_tag ?f < 2 ^ 29" "pf_tag ?f \<noteq> 0" using fok msg_okD(1) [OF ok] i by (simp_all add: field_ok_def tags_ok_def)
  have r: "r (Suc i) = (if PB_HTYPE (pf_type ?f) = PB_HTYPE_REQUIRED then Suc (r i) else r i)"
    using i by (simp add: r_def num_required_def take_Suc_conv_app_nth)
  have turn: "decode_tagged E dec n (pf_tag ?f) wt (scan_at fs p j (r i)) d =
      map_option (\<lambda>(ok, d'). (ok, scan_at fs p i (r (Suc i)), d')) (decode_field E dec n wt (iter_at fs p i) d)" for wt d
    unfolding r by (rule decode_tagged_at [OF ok i j]) (simp add: r_def)
  have single: ?thesis if h: "PB_HTYPE (pf_type ?f) \<noteq> PB_HTYPE_REPEATED"
    and s: "wire_single m0 (wire_message n m0) ?f q = Some bs" and e: "entries m0 ?f q = [q]"
  proof -
    from s obtain t v where tv: "wire_tag ?f = Some t" "wire_value m0 (wire_message n m0) ?f q = Some v" "bs = t @ v"
      by (auto simp: wire_single_def split: bind_splits)
    from tv(1) obtain wt :: pb_wire_type_t where wt: "t = varint_bytes (push_bit 3 (ucast (pf_tag ?f)) OR ucast wt)" "wt < 8" by (rule wire_tagE)
    have v: "entry_ok (vals_ok n m0) m0 ?f q" "length v < 2 ^ 32" using val e len tv(3) by simp_all
    have "loops (decode_tagged E dec n) (scan_at fs p j (r i)) (blank_field (blank n) ?f a) (t @ v)
        (scan_at fs p i (r (Suc i))) (field_done n ?f a (t @ v))"
      using decodes_single [where E = E and wt = wt, OF fok dec it tv(2) v h tv(1)] unfolding wt(1)
      by (rule loops_item [OF _ tag wt(2)]) (rule turn)
    then show ?thesis using i tv(3) by blast
  qed
  have a: "blank_field (blank n) ?f a m \<Longrightarrow> PB_HTYPE (pf_type ?f) = PB_HTYPE_REPEATED \<Longrightarrow> rep_state n ?f a vs m 0 m" for m vs
    by (simp add: blank_field_def rep_state_def holds_def)
  consider "PB_HTYPE (pf_type ?f) = PB_HTYPE_REQUIRED" | "PB_HTYPE (pf_type ?f) = PB_HTYPE_OPTIONAL"
    | "PB_HTYPE (pf_type ?f) = PB_HTYPE_REPEATED" using fok by (auto simp: field_ok_def)
  then show ?thesis
  proof cases
    case 1
    have "wire_single m0 (wire_message n m0) ?f q = Some bs"
      using w fok 1 by (auto simp: wire_field_def field_ok_def Let_def split: if_splits)
    then show ?thesis using 1 by (intro single) (simp_all add: entries_def)
  next
    case 2
    show ?thesis
    proof (cases "m0 (size_pos ?f q) = 0")
      case True
      then have b: "bs = []" using w fok 2 by (auto simp: wire_field_def field_ok_def Let_def)
      have "field_done n ?f a [] m m" if "blank_field (blank n) ?f a m" for m
        using that fok 2 by (simp add: blank_field_def field_done_def wire_field_def field_ok_def Let_def)
      then have "loops (decode_tagged E dec n) (scan_at fs p j (r i)) (blank_field (blank n) ?f a) []
          (scan_at fs p j (r (Suc i))) (field_done n ?f a [])" unfolding r using 2 by (simp add: loops_nil)
      then show ?thesis using j b by blast
    next
      case False
      then have "wire_single m0 (wire_message n m0) ?f q = Some bs"
        using w fok 2 by (auto simp: wire_field_def field_ok_def Let_def)
      then show ?thesis using 2 False by (intro single) (simp_all add: entries_def)
    qed
  next
    case 3
    let ?c = "load_le m0 (size_pos ?f q) 4" and ?d = "unat (pf_data_size ?f)"
    have arr: "wire_array m0 (wire_message n m0) ?f q ?c = Some bs"
      using w fok 3 by (simp add: wire_field_def field_ok_def Let_def)
    show ?thesis
    proof (cases "?c = 0")
      case True
      then have b: "bs = []" using arr by (simp add: wire_array_def)
      have "field_done n ?f a [] m m" if "blank_field (blank n) ?f a m" for m
        using rep_state_wire [OF fok 3, where vs = "[]" and a = a and m = m and m' = m] a [OF that 3, where vs = "[]"] by (simp add: field_done_def)
      then have "loops (decode_tagged E dec n) (scan_at fs p j (r i)) (blank_field (blank n) ?f a) []
          (scan_at fs p j (r (Suc i))) (field_done n ?f a [])" unfolding r using 3 by (simp add: loops_nil)
      then show ?thesis using j b by blast
    next
      case c: False
      from wire_arrayE [OF arr c] obtain vs where vs: "length vs = ?c" "?c \<le> unat (pf_array_size ?f)"
        "\<And>k. k < ?c \<Longrightarrow> wire_value m0 (wire_message n m0) ?f (q + k * ?d) = Some (vs ! k)"
        and bs: "PB_LTYPE (pf_type ?f) \<le> PB_LTYPE_LAST_PACKABLE \<and>
            bs = varint_bytes (push_bit 3 (ucast (pf_tag ?f)) OR ucast PB_WT_STRING) @ string_bytes (concat vs) \<or>
          \<not> PB_LTYPE (pf_type ?f) \<le> PB_LTYPE_LAST_PACKABLE \<and> (\<exists>t. wire_tag ?f = Some t \<and> bs = concat (map ((@) t) vs))"
        by blast
      have val: "entry_ok (vals_ok n m0) m0 ?f (q + k * ?d)" if "k < ?c" for k using val 3 that by (simp add: entries_def)
      have cnt: "length vs \<le> unat (pf_array_size ?f)" using vs by simp
      note vs' = vs(3) [folded vs(1)] and val' = val [folded vs(1)]
      have ri: "r (Suc i) = r i" using r 3 by simp
      have fin: "field_done n ?f a bs m m'" if "rep_state n ?f a vs m (length vs) m'" for m m'
        using rep_state_wire [OF fok 3 that cnt] that bs c vs(1) by (auto simp: field_done_def rep_state_def simp del: PB_WT_STRING_def)
      show ?thesis
      proof (cases "PB_LTYPE (pf_type ?f) \<le> PB_LTYPE_LAST_PACKABLE")
        case pk: True
        then have b: "bs = varint_bytes (push_bit 3 (ucast (pf_tag ?f)) OR ucast PB_WT_STRING) @ string_bytes (concat vs)"
          using bs by simp
        have l: "length (concat vs) < 2 ^ 32" using len by (simp add: b string_bytes_def)
        have "loops (decode_tagged E dec n) (scan_at fs p j (r i)) (rep_state n ?f a vs m 0) bs (scan_at fs p i (r i))
            (\<lambda>_. rep_state n ?f a vs m (length vs))" for m
          unfolding b
          by (rule loops_item [OF decodes_packed [where E = E, OF fok dec it 3 cnt vs' val' l pk] tag]) (assumption+, simp, rule turn [unfolded ri])
        then have "loops (decode_tagged E dec n) (scan_at fs p j (r i)) (blank_field (blank n) ?f a) bs (scan_at fs p i (r i))
            (field_done n ?f a bs)" by (rule loops_param [where R = "\<lambda>m. rep_state n ?f a vs m 0" and S = "\<lambda>m. rep_state n ?f a vs m (length vs)"]) (simp_all add: a 3 fin)
        then show ?thesis using i ri by auto
      next
        case np: False
        then obtain t where t: "wire_tag ?f = Some t" "bs = concat (map ((@) t) vs)" using bs by blast
        have l: "length (vs ! k) < 2 ^ 32" if "k < length vs" for k
        proof -
          have "length (vs ! k) \<le> length (t @ vs ! k)" by simp
          also have "\<dots> \<le> sum_list (map length (map ((@) t) vs))" using that by (intro member_le_sum_list) (force, simp)
          finally show ?thesis using len by (simp add: t(2) length_concat)
        qed
        have "loops (decode_tagged E dec n) (scan_at fs p j (r i)) (rep_state n ?f a vs m 0) bs (scan_at fs p i (r i))
            (\<lambda>_. rep_state n ?f a vs m (length vs))" for m
          using loops_items [OF ok i dec it 3 cnt vs' val' l np t(1), of 0 j E "r i" m] j c vs(1) by (simp add: t(2))
        then have "loops (decode_tagged E dec n) (scan_at fs p j (r i)) (blank_field (blank n) ?f a) bs (scan_at fs p i (r i))
            (field_done n ?f a bs)" by (rule loops_param [where R = "\<lambda>m. rep_state n ?f a vs m 0" and S = "\<lambda>m. rep_state n ?f a vs m (length vs)"]) (simp_all add: a 3 fin)
        then show ?thesis using i ri by auto
      qed
    qed
  qed
qed

end


section \<open>Messages\<close>

lemma req_count:
  assumes ok: "msg_ok (Suc n) fs len" and j: "j < length fs"
  shows "req_field_count (iter_at fs p j) = Some (num_required fs)"
proof -
  note ok = msg_okD [OF ok]
  obtain l where len: "length fs = Suc l" using j by (cases "length fs") auto
  let ?g = "\<lambda>i. (it_required_field_index (iter_at fs p i), pf_type (fs ! i))"
  have l: "l < length fs" "[j..<length fs] = [j..<l] @ [l]" using j len by simp_all
  have run: "\<exists>a. fold (\<lambda>i r. case r of Some (Inr (a :: nat \<times> u8)) \<Rightarrow> Some (Inr (?g i)) | _ \<Rightarrow> r) xs (Some (Inr a0)) = (Some (Inr a) :: (unit + _) option)"
    for xs a0 by (induction xs arbitrary: a0) auto
  have "fold (\<lambda>i r. case r of Some (Inr (a :: nat \<times> u8)) \<Rightarrow> Some (Inr (?g i)) | _ \<Rightarrow> r) [j..<length fs] (Some (Inr (0, 0))) =
      (Some (Inr (?g l)) :: (unit + _) option)"
    using run [of "[j..<l]" "(0, 0)"] unfolding l(2) by auto
  then have loop: "iter_loop (\<lambda>iter _. Some (Inr (it_required_field_index iter, pf_type (iter_field iter)))) (iter_at fs p j) (0, 0) =
      (Some (Inr (iter_at fs p 0, ?g l)) :: (unit + _) option)"
    using iter_loop_at [OF ok(1) j, of "\<lambda>iter _. Some (Inr (it_required_field_index iter, pf_type (iter_field iter)))" p
        "\<lambda>i _. Some (Inr (?g i)) :: (unit + _) option" "(0, 0)"]
    by (simp add: iter_field_at [OF ok(1)] del: iter_at.simps)
  have "PB_HTYPE (pf_type (fs ! i)) \<noteq> PB_HTYPE_ONEOF" if "i < length fs" for i
    using ok(6) [OF that] by (auto simp: field_ok_def)
  then have idx: "it_required_field_index (iter_at fs p l) = num_required (take l fs)" by (rule required_index [OF ok(1) _ ok(4) l(1)])
  have "fs = take l fs @ [fs ! l]" using take_Suc_conv_app_nth [OF l(1)] len by simp
  from arg_cong [OF this, of num_required]
  have n: "num_required fs = num_required (take l fs) + (if PB_HTYPE (pf_type (fs ! l)) = PB_HTYPE_REQUIRED then 1 else 0)"
    by (simp add: num_required_def)
  have "pf_tag (iter_field (iter_at fs p 0)) \<noteq> 0"
    using ok(1) nth_mem [of 0 fs] len iter_field_at [OF ok(1), of 0 p] by (auto simp: tags_ok_def simp del: iter_at.simps)
  then show ?thesis using n ok(4) unfolding req_field_count_def loop idx by (simp add: idx del: iter_at.simps)
qed

lemma at_field_at:
  assumes ok: "msg_ok (Suc n) fs len" and i: "i < length fs" and p: "p \<noteq> 0"
  shows "at_field (iter_at fs p i) (fs ! i) (field_pos fs p i)"
proof -
  note ok = msg_okD [OF ok]
  have "PB_HTYPE (pf_type (fs ! j)) \<noteq> PB_HTYPE_ONEOF" if "j < length fs" for j
    using ok(6) [OF that] by (auto simp: field_ok_def)
  then show ?thesis
    using iter_field_at [OF ok(1) i, of p] iter_size_pos [OF ok(1) _ i, of p] place_at(2) [OF ok(1,3) i, of p]
      size_pos_ne [OF ok(1,3) i, of p] field_pos_shift [OF ok(1) i, of p 0] p
    by (simp add: at_field_def)
qed

context pb_source begin

lemma loops_message:
  assumes ok: "msg_ok (Suc n) fs len" and dec: "sub_decodes n m0 dec" and p: "p \<noteq> 0"
    and w: "\<And>i. i < length fs \<Longrightarrow> wire_field m0 (wire_message n m0) n (fs ! i) (field_pos fs q i) = Some (bss ! i)"
    and val: "vals_ok (Suc n) m0 fs q" and len: "length bss = length fs" "length (concat bss) < 2 ^ 32" and ne: "fs \<noteq> []"
  shows "k \<le> length fs \<Longrightarrow> \<exists>j < length fs. loops (decode_tagged E dec n) (scan_at fs p 0 0) (blank (Suc n) fs p)
      (concat (take k bss)) (scan_at fs p j (num_required (take k fs)))
      (\<lambda>m m'. same_on (- (\<Union>i < k. cells (fs ! i) (field_pos fs p i))) m m' \<and>
        (\<forall>i < k. wire_field m' (wire_message n m') n (fs ! i) (field_pos fs p i) = Some (bss ! i)))"
proof (induction k)
  case 0
  then show ?case using ne by (auto simp: num_required_def intro!: exI [of _ 0] loops_nil)
next
  case (Suc k)
  let ?C = "\<lambda>i. cells (fs ! i) (field_pos fs p i)" and ?T = "decode_tagged E dec n"
  let ?Q = "\<lambda>k m m'. same_on (- (\<Union>i < k. ?C i)) m m' \<and>
        (\<forall>i < k. wire_field m' (wire_message n m') n (fs ! i) (field_pos fs p i) = Some (bss ! i))"
  have k: "k < length fs" "k < length bss" using Suc.prems len(1) by simp_all
  note okD = msg_okD [OF ok]
  from Suc.IH [OF less_imp_le [OF k(1)]] obtain j where j: "j < length fs" "loops ?T (scan_at fs p 0 0) (blank (Suc n) fs p)
      (concat (take k bss)) (scan_at fs p j (num_required (take k fs))) (?Q k)" by blast
  have lk: "length (bss ! k) < 2 ^ 32"
  proof -
    have "length (bss ! k) \<le> sum_list (map length bss)" using k(2) by (intro member_le_sum_list) (force, simp)
    then show ?thesis using len(2) by (simp add: length_concat)
  qed
  have v: "\<forall>q' \<in> set (entries m0 (fs ! k) (field_pos fs q k)). entry_ok (vals_ok n m0) m0 (fs ! k) q'"
    using val k(1) by simp
  from loops_field [OF ok k(1) j(1) dec at_field_at [OF ok k(1) p] w [OF k(1)] v lk]
  obtain j' where j': "j' < length fs" "loops ?T (scan_at fs p j (num_required (take k fs)))
      (blank_field (blank n) (fs ! k) (field_pos fs p k)) (bss ! k) (scan_at fs p j' (num_required (take (Suc k) fs)))
      (field_done n (fs ! k) (field_pos fs p k) (bss ! k))" by blast
  have dj: "?C i \<inter> ?C k = {}" if "i < k" for i using place_at(3) [OF okD(1,3), of i k p] that k(1) by simp
  have "loops ?T (scan_at fs p 0 0) (blank (Suc n) fs p) (concat (take k bss) @ bss ! k) (scan_at fs p j' (num_required (take (Suc k) fs)))
      (\<lambda>m m''. \<exists>m'. ?Q k m m' \<and> field_done n (fs ! k) (field_pos fs p k) (bss ! k) m' m'')"
  proof (rule loops_trans [OF j(2) j'(2)])
    fix m m' assume m: "blank (Suc n) fs p m" "?Q k m m'"
    have "same_on (?C k) m m'" using dj by (intro same_on_mono [OF conjunct1 [OF m(2)]]) blast
    then have "blank_field (blank n) (fs ! k) (field_pos fs p k) m = blank_field (blank n) (fs ! k) (field_pos fs p k) m'"
      by (rule blank_field_same [OF okD(6) [OF k(1)]]) (rule blank_same)
    then show "blank_field (blank n) (fs ! k) (field_pos fs p k) m'" using m(1) k(1) by simp
  qed
  then have "loops ?T (scan_at fs p 0 0) (blank (Suc n) fs p) (concat (take k bss) @ bss ! k) (scan_at fs p j' (num_required (take (Suc k) fs)))
      (?Q (Suc k))"
  proof (rule loops_weaken)
    fix m m'' assume "\<exists>m'. ?Q k m m' \<and> field_done n (fs ! k) (field_pos fs p k) (bss ! k) m' m''"
    then obtain m' where m: "?Q k m m'" "same_on (- ?C k) m' m''"
      "wire_field m'' (wire_message n m'') n (fs ! k) (field_pos fs p k) = Some (bss ! k)" by (auto simp: field_done_def)
    have "same_on (- (\<Union>i < Suc k. ?C i)) m m''"
      by (rule same_on_trans [OF same_on_mono [OF conjunct1 [OF m(1)]] same_on_mono [OF m(2)]]) auto
    moreover have "wire_field m'' (wire_message n m'') n (fs ! i) (field_pos fs p i) = Some (bss ! i)" if "i < k" for i
    proof -
      have "same_on (?C i) m' m''" using dj [OF that] by (intro same_on_mono [OF m(2)]) blast
      then have "wire_field m' (wire_message n m') n (fs ! i) (field_pos fs p i) = wire_field m'' (wire_message n m'') n (fs ! i) (field_pos fs p i)"
        using that k(1) by (intro wire_field_same [OF okD(6)]) (auto intro: wire_message_same)
      then show ?thesis using m(1) that by simp
    qed
    ultimately show "?Q (Suc k) m m''" using m(3) by (auto simp: less_Suc_eq)
  qed
  moreover have "concat (take (Suc k) bss) = concat (take k bss) @ bss ! k" using k(2) by (simp add: take_Suc_conv_app_nth)
  ultimately show ?case using j'(1) by (simp only:) blast
qed

text \<open>The decoder of the messages one level down from fuel \<open>n\<close>.\<close>

definition dec_level :: "nat \<Rightarrow> 'st decode_env \<Rightarrow> 'st dec_fun" where
  "dec_level n E = (\<lambda>init fs p d. Option.bind
     (if init then pb_message_set_to_defaults n E fs p (ds_mem d) else Some (ds_mem d))
     (\<lambda>mem. pb_decode_noinit n E fs p (d\<lparr>ds_mem := mem\<rparr>)))"

lemma noinit_decodes:
  assumes ok: "msg_ok (Suc n) fs len" and dec: "sub_decodes n m0 (dec_level n E)" and p: "p \<noteq> 0"
    and w: "wire_message (Suc n) m0 fs q = Some bs" and val: "vals_ok (Suc n) m0 fs q" and len: "length bs < 2 ^ 32"
  shows "decodes True (blank (Suc n) fs p) (pb_decode_noinit (Suc n) E fs p) bs
    (\<lambda>m m'. same_on (- {p..<p + len}) m m' \<and> wire_message (Suc n) m' fs p = Some bs)"
proof (rule decodesI)
  fix d :: "'st dec_state" and r
  assume d: "good (ds_stream d)" "avail (ds_stream d) = bs @ r" "True \<Longrightarrow> r = []" "blank (Suc n) fs p (ds_mem d)"
  note okD = msg_okD [OF ok]
  let ?C = "\<lambda>i. cells (fs ! i) (field_pos fs p i)"
  let ?W = "\<lambda>m i. wire_field m (wire_message n m) n (fs ! i)"
  from w obtain bss where bss: "bs = concat bss" "length bss = length fs"
    "\<And>i. i < length fs \<Longrightarrow> ?W m0 i (field_pos fs q i) = Some (bss ! i)"
    by (auto split: if_splits elim: concat_optE)
  let ?fin = "\<lambda>m'. d\<lparr>ds_mem := m', ds_stream := is_consume adv (ds_stream d) (length bs)\<rparr>"
  obtain c m' where c: "decode_loop (decode_tagged E (dec_level n E) n) (scan_at fs p 0 0) d = Some (True, c, ?fin m')"
    "req_field_count (sc_iter c) = Some (num_required fs)" "sc_fields_seen c = seen_upto (num_required fs)"
    "same_on (- (\<Union>i < length fs. ?C i)) (ds_mem d) m'" "\<And>i. i < length fs \<Longrightarrow> ?W m' i (field_pos fs p i) = Some (bss ! i)"
  proof (cases "fs = []")
    case True
    then have bs: "bs = []" using bss by simp
    then have left: "is_bytes_left (ds_stream d) = 0" using length_avail [OF d(1)] d(2,3) by simp
    have "req_field_count (iter_at [] p 0) = Some 0"
      by (simp add: req_field_count_def iter_loop.simps pb_field_iter_next_def pb_field_iter_begin_def iter_field_def
          field_at_def PB_LAST_FIELD_def Let_def)
    moreover have "decode_loop (decode_tagged E (dec_level n E) n) (scan_at fs p 0 0) d = Some (True, scan_at fs p 0 0, d)"
      using left by (subst decode_loop.simps) simp
    ultimately show thesis
      using that [of "scan_at fs p 0 0" "ds_mem d"] True bs by (simp add: scan_at_def num_required_def)
  next
    case False
    from loops_message [OF ok dec p bss(3) val bss(2) len [unfolded bss(1)] False order_refl] obtain j where
      j: "j < length fs" "loops (decode_tagged E (dec_level n E) n) (scan_at fs p 0 0) (blank (Suc n) fs p)
        (concat (take (length fs) bss)) (scan_at fs p j (num_required (take (length fs) fs)))
        (\<lambda>m m'. same_on (- (\<Union>i < length fs. ?C i)) m m' \<and> (\<forall>i < length fs. ?W m' i (field_pos fs p i) = Some (bss ! i)))"
      by blast
    have "concat (take (length fs) bss) = bs" using bss(1,2) by simp
    with loopsD [OF j(2) d(1) _ d(4), of r] d(2) obtain m' where
      m': "decode_loop (decode_tagged E (dec_level n E) n) (scan_at fs p 0 0) d =
         decode_loop (decode_tagged E (dec_level n E) n) (scan_at fs p j (num_required fs)) (?fin m')"
        "same_on (- (\<Union>i < length fs. ?C i)) (ds_mem d) m'" "\<forall>i < length fs. ?W m' i (field_pos fs p i) = Some (bss ! i)"
      by (simp only: take_all_iff order_refl take_all) blast
    have "is_bytes_left (ds_stream d) = length bs" using length_avail [OF d(1)] d(2,3) by simp
    then have "decode_loop (decode_tagged E (dec_level n E) n) (scan_at fs p j (num_required fs)) (?fin m') =
        Some (True, scan_at fs p j (num_required fs), ?fin m')"
      by (subst decode_loop.simps) simp
    then show thesis
      using that [of "scan_at fs p j (num_required fs)" m'] m' req_count [OF ok j(1)] by (simp add: scan_at_def)
  qed
  have "same_on (- {p..<p + len}) (ds_mem d) m'"
    using place_at(1) [OF okD(1,3)] by (intro same_on_mono [OF c(4)]) blast
  moreover have "wire_message (Suc n) m' fs p = Some bs"
    using concat_opt_nth [of bss "\<lambda>i. ?W m' i (field_pos fs p i)"] c(5) bss(1,2) okD(1) by simp
  moreover have "pb_decode_noinit (Suc n) E fs p d = Some (True, ?fin m')"
    using c(1,2,3) seen_all [OF okD(4,5)] by (simp add: dec_level_def scan_at_def seen_upto_def)
  ultimately show "\<exists>m'. pb_decode_noinit (Suc n) E fs p d =
      Some (True, d\<lparr>ds_mem := m', ds_stream := is_consume adv (ds_stream d) (length bs)\<rparr>) \<and>
      same_on (- {p..<p + len}) (ds_mem d) m' \<and> wire_message (Suc n) m' fs p = Some bs" by blast
qed

end


context pb_source begin

lemma sub_decodes_level: "sub_decodes n m0 (dec_level n E)"
proof (induction n)
  case 0
  then show ?case by (simp add: sub_decodes_def)
next
  case (Suc n)
  show ?case
    unfolding sub_decodes_def
  proof (intro allI impI, rule decodesI)
    fix init fs len p q bs r and d :: "'st dec_state"
    assume a: "msg_ok (Suc n) fs len" "wire_message (Suc n) m0 fs p = Some bs" "vals_ok (Suc n) m0 fs p" "q \<noteq> 0"
      "length bs < 2 ^ 32" and d: "good (ds_stream d)" "avail (ds_stream d) = bs @ r" "True \<Longrightarrow> r = []"
      "init \<or> blank (Suc n) fs q (ds_mem d)"
    obtain m where m: "(if init then pb_message_set_to_defaults (Suc n) E fs q (ds_mem d) else Some (ds_mem d)) = Some m"
        "blank (Suc n) fs q m" "same_on (- {q..<q + len}) (ds_mem d) m"
      using pb_message_set_to_defaults_blank [OF a(1), of E q "ds_mem d"] d(4) by (cases init) auto
    obtain m' where m': "pb_decode_noinit (Suc n) E fs q (d\<lparr>ds_mem := m\<rparr>) =
        Some (True, d\<lparr>ds_mem := m', ds_stream := is_consume adv (ds_stream d) (length bs)\<rparr>)"
        "same_on (- {q..<q + len}) m m'" "wire_message (Suc n) m' fs q = Some bs"
      using decodesD [OF noinit_decodes [OF a(1) Suc.IH a(4,2,3,5)], of "d\<lparr>ds_mem := m\<rparr>" r] d(1-3) m(2) by auto
    show "\<exists>m'. dec_level (Suc n) E init fs q d = Some (True, d\<lparr>ds_mem := m', ds_stream := is_consume adv (ds_stream d) (length bs)\<rparr>) \<and>
        same_on (- {q..<q + len}) (ds_mem d) m' \<and> wire_message (Suc n) m' fs q = Some bs"
      using m(1) m' same_on_trans [OF m(3) m'(2)]
      by (intro exI [of _ m']) (simp add: dec_level_def del: pb_decode_noinit.simps)
  qed
qed

lemma pb_decode_wire:
  assumes "msg_ok n fs len" "wire_message n m0 fs src = Some bs" "vals_ok n m0 fs src" "dest \<noteq> 0" "length bs < 2 ^ 32"
    "good (ds_stream d)" "avail (ds_stream d) = bs"
  shows "\<exists>m'. pb_decode n E fs dest d = Some (True, d\<lparr>ds_mem := m', ds_stream := is_consume adv (ds_stream d) (length bs)\<rparr>) \<and>
    same_on (- {dest..<dest + len}) (ds_mem d) m' \<and> wire_message n m' fs dest = Some bs"
proof -
  have "decodes True (\<lambda>m. True \<or> blank n fs dest m) (dec_level n E True fs dest) bs
      (\<lambda>m m'. same_on (- {dest..<dest + len}) m m' \<and> wire_message n m' fs dest = Some bs)"
    using sub_decodes_level [of n m0 E] assms(1-5) unfolding sub_decodes_def by blast
  from decodesD [OF this, of d "[]"] assms(6,7) show ?thesis
    by (simp add: dec_level_def pb_decode_def)
qed

end

text \<open>
  C1: a message that is encoded into a buffer and decoded from the bytes written, into any
  structure of its layout at any place, is decoded without an error to the end of the bytes,
  and encodes to the same bytes again.  Memory outside the structure is not touched.
  The messages are those of static fields, with submessages, strings and arrays, packed or
  not, at non-overlapping places.
\<close>

theorem pb_message_roundtrip:
  assumes "msg_ok n fs len" "wire_message n (ee_mem Ee) fs src = Some bs" "vals_ok n (ee_mem Ee) fs src" "dest \<noteq> 0"
    "length bs \<le> cap" "cap < 2 ^ 32" and os: "os = pb_ostream_from_buffer om st buf cap"
  shows "\<exists>s m'. pb_encode n Ee fs src os = Some (True, s) \<and>
    pb_decode n Ed fs dest \<lparr>ds_mem = m, ds_stream =
        pb_istream_from_buffer st' (mem_bytes (os_mem s) buf (os_bytes_written s)) (os_bytes_written s)\<rparr> =
      Some (True, \<lparr>ds_mem = m', ds_stream = pb_istream_from_buffer st' [] 0\<rparr>) \<and>
    pb_encode n (Ee\<lparr>ee_mem := m'\<rparr>) fs dest os = Some (True, s) \<and>
    (\<forall>a. a \<notin> {dest..<dest + len} \<longrightarrow> m' a = m a)"
proof -
  let ?s = "os_emit os bs"
  let ?is = "pb_istream_from_buffer st' (mem_bytes (os_mem ?s) buf (os_bytes_written ?s)) (os_bytes_written ?s)"
  have room: "os_room os (length bs)" "os_errmsg os = None"
    using assms(5,6) by (simp_all add: os os_room_def pb_ostream_from_buffer_def)
  have enc: "pb_encode n Ee fs src os = Some (True, ?s)"
    using emitsD [OF pb_encode_emits [OF assms(2)] room] .
  have i: "?is = pb_istream_from_buffer st' bs (length bs)"
    by (simp add: os os_emit_def pb_ostream_from_buffer_def)
  have "buf.good (?is)" "buf.avail (?is) = bs"
    unfolding i by (simp_all flip: is_buffer_iff add: buf_avail) (simp add: pb_istream_from_buffer_def)
  with buf.pb_decode_wire [OF assms(1-4), of "\<lparr>ds_mem = m, ds_stream = ?is\<rparr>" Ed] assms(5,6)
  obtain m' where "pb_decode n Ed fs dest \<lparr>ds_mem = m, ds_stream = ?is\<rparr> =
      Some (True, \<lparr>ds_mem = m', ds_stream = is_consume buf_adv (?is) (length bs)\<rparr>)"
    "same_on (- {dest..<dest + len}) m m'" "wire_message n m' fs dest = Some bs" by auto
  moreover from this(3) have "pb_encode n (Ee\<lparr>ee_mem := m'\<rparr>) fs dest os = Some (True, ?s)"
    using emitsD [OF pb_encode_emits [of n "Ee\<lparr>ee_mem := m'\<rparr>"] room] by simp
  moreover have "is_consume buf_adv (?is) (length bs) = pb_istream_from_buffer st' [] 0"
    unfolding i buf_consume by (simp add: is_advance_def pb_istream_from_buffer_def)
  ultimately show ?thesis using enc by (auto simp: same_on_def)
qed

text \<open>
  A structure at address 100 with the required number 1, the optional string "hi", the
  packed numbers 5 and 150 and a submessage with the fixed32 number 7.
\<close>

definition sample_message :: "pb_field list" where
  "sample_message = [Pb_field 1 0x01 0 0 4 0 Null_ptr, Pb_field 2 0x16 1 (- 1) 8 0 Null_ptr,
     Pb_field 3 0x21 7 (- 4) 4 2 Null_ptr, Pb_field 4 0x07 0 0 4 0 (Submsg_fields [Pb_field 1 0x03 0 0 4 0 Null_ptr])]"

definition sample_memory :: memory where
  "sample_memory a = (if 100 \<le> a \<and> a < 132 then
     [1, 0, 0, 0, 1, 0x68, 0x69, 0, 0, 0, 0, 0, 0, 0, 0, 0, 2, 0, 0, 0, 5, 0, 0, 0, 150, 0, 0, 0, 7, 0, 0, 0] ! (a - 100)
     else 0)"

definition sample_bytes :: "u8 list" where
  "sample_bytes = [0x08, 1, 0x12, 2, 0x68, 0x69, 0x1A, 3, 5, 0x96, 1, 0x22, 5, 0x0D, 7, 0, 0, 0]"

lemma sample_fields_at [simp]:
  "length sample_message = 4" "sample_message ! 0 = Pb_field 1 0x01 0 0 4 0 Null_ptr"
  "sample_message ! Suc 0 = Pb_field 2 0x16 1 (- 1) 8 0 Null_ptr" "sample_message ! 2 = Pb_field 3 0x21 7 (- 4) 4 2 Null_ptr"
  "sample_message ! 3 = Pb_field 4 0x07 0 0 4 0 (Submsg_fields [Pb_field 1 0x03 0 0 4 0 Null_ptr])"
  by (simp_all add: sample_message_def)

lemma sample_tags: "tags_ok sample_message" "distinct (map pf_tag sample_message)" "num_required sample_message = 2"
  by (simp_all add: sample_message_def tags_ok_def num_required_def PB_HTYPE_def)

lemma sample_iter:
  "iter_at sample_message p 0 = \<lparr>it_start = sample_message, it_pos = 0, it_required_field_index = 0,
     it_dest_struct = p, it_pData = p, it_pSize = p\<rparr>"
  "iter_at sample_message p (Suc 0) = \<lparr>it_start = sample_message, it_pos = 1, it_required_field_index = 1,
     it_dest_struct = p, it_pData = p + 5, it_pSize = p + 4\<rparr>"
  "iter_at sample_message p 2 = \<lparr>it_start = sample_message, it_pos = 2, it_required_field_index = 1,
     it_dest_struct = p, it_pData = p + 20, it_pSize = p + 16\<rparr>"
  "iter_at sample_message p 3 = \<lparr>it_start = sample_message, it_pos = 3, it_required_field_index = 1,
     it_dest_struct = p, it_pData = p + 28, it_pSize = p + 28\<rparr>"
proof -
  note eval = pb_field_iter_begin_def pb_field_iter_next_def iter_field_def field_at_def Let_def
    PB_HTYPE_def PB_ATYPE_def addr_add_def size_mul_def nat_add_distrib
    sample_fields_at(4) [unfolded numeral_2_eq_2] sample_fields_at(5) [unfolded numeral_3_eq_3]
  show 0: "iter_at sample_message p 0 = \<lparr>it_start = sample_message, it_pos = 0, it_required_field_index = 0,
      it_dest_struct = p, it_pData = p, it_pSize = p\<rparr>" by (simp add: eval)
  show 1: "iter_at sample_message p (Suc 0) = \<lparr>it_start = sample_message, it_pos = 1, it_required_field_index = 1,
      it_dest_struct = p, it_pData = p + 5, it_pSize = p + 4\<rparr>" unfolding iter_at.simps(2) 0 by (simp add: eval)
  show 2: "iter_at sample_message p 2 = \<lparr>it_start = sample_message, it_pos = 2, it_required_field_index = 1,
      it_dest_struct = p, it_pData = p + 20, it_pSize = p + 16\<rparr>" 
    unfolding numeral_2_eq_2 iter_at.simps(2) [of _ _ "Suc 0"] 1 by (simp add: eval)
  show "iter_at sample_message p 3 = \<lparr>it_start = sample_message, it_pos = 3, it_required_field_index = 1,
      it_dest_struct = p, it_pData = p + 28, it_pSize = p + 28\<rparr>"
    unfolding numeral_3_eq_3 iter_at.simps(2) [of _ _ "Suc (Suc 0)"] 2 [unfolded numeral_2_eq_2] by (simp add: eval)
qed

lemma less_4: "(\<forall>i < 4. P i) \<longleftrightarrow> P 0 \<and> P (Suc 0) \<and> P 2 \<and> P (3 :: nat)"
proof -
  have "i < 4 \<longleftrightarrow> i = 0 \<or> i = Suc 0 \<or> i = 2 \<or> i = 3" for i :: nat by arith
  then show ?thesis by auto
qed

lemma upt_4: "[0..<4] = [0, Suc 0, 2, 3]"
  by (simp add: upt_rec)

lemma sample_pos:
  "field_pos sample_message p 0 = p" "field_pos sample_message p (Suc 0) = p + 5"
  "field_pos sample_message p 2 = p + 20" "field_pos sample_message p 3 = p + 28"
  by (simp_all add: sample_iter del: iter_at.simps)

lemma sample_cells:
  "cells (sample_message ! 0) 0 = {0..<4}" "cells (sample_message ! Suc 0) 5 = {4..<13}"
  "cells (sample_message ! 2) 20 = {16..<28}" "cells (sample_message ! 3) 28 = {28..<32}"
  "data_cells (sample_message ! 0) 0 \<inter> size_cells (sample_message ! 0) 0 = {}"
  "data_cells (sample_message ! Suc 0) 5 \<inter> size_cells (sample_message ! Suc 0) 5 = {}"
  "data_cells (sample_message ! 2) 20 \<inter> size_cells (sample_message ! 2) 20 = {}"
  "data_cells (sample_message ! 3) 28 \<inter> size_cells (sample_message ! 3) 28 = {}"
  by (auto simp: cells_def data_cells_def size_cells_def data_len_def size_len_def addr_add_def PB_HTYPE_def)

lemma sample_place: "place_ok sample_message 32"
  unfolding place_ok_def sample_fields_at(1) less_4 sample_pos sample_cells add_0 by (simp add: sample_cells)

lemma sample_sub: "msg_ok (Suc 0) [Pb_field 1 0x03 0 0 4 0 Null_ptr] 4"
  by (simp add: tags_ok_def place_ok_def pb_field_iter_begin_def field_at_def Let_def num_required_def PB_HTYPE_def PB_ATYPE_def
      PB_LTYPE_def field_ok_def cells_def data_cells_def size_cells_def data_len_def size_len_def addr_add_def)

lemma sample_ok: "msg_ok (Suc (Suc 0)) sample_message 32"
  unfolding msg_ok.simps(2) [of "Suc 0"] sample_fields_at(1) less_4 sample_tags(3)
  using sample_sub by (simp add: sample_tags sample_place field_ok_def data_len_def PB_HTYPE_def PB_ATYPE_def PB_LTYPE_def
      del: msg_ok.simps)


lemma sample_loads:
  "load_le sample_memory 100 4 = 1" "load_le sample_memory 116 4 = 2" "load_le sample_memory 120 4 = 5"
  "load_le sample_memory 124 4 = 150" "mem_bytes sample_memory 128 4 = [7, 0, 0, 0]" "sample_memory 104 = 1"
  "mem_bytes sample_memory 105 8 = [0x68, 0x69, 0, 0, 0, 0, 0, 0]"
  by (simp_all add: sample_memory_def load_le_def mem_bytes_def upt_rec)

lemma sample_strlen: "strnlen_mem sample_memory 105 8 = 2"
proof -
  have eight: "8 = Suc (Suc (Suc (5 :: nat)))" by simp
  show ?thesis unfolding eight strnlen_mem.simps by (simp add: sample_memory_def)
qed

lemma sample_sub_wire:
  "wire_message (Suc 0) sample_memory [Pb_field 1 0x03 0 0 4 0 Null_ptr] 128 = Some [0x0D, 7, 0, 0, 0]"
  by (simp add: tags_ok_def concat_opt_def wire_field_def wire_single_def wire_tag_def wire_value_def load_le_def
      sample_loads le_bytes32_def upt_rec varint_bytes.simps pb_field_iter_begin_def field_at_def
      PB_LTYPE_def PB_HTYPE_def PB_ATYPE_def Let_def addr_add_def)

lemma sample_wire: "wire_message (Suc (Suc 0)) sample_memory sample_message 100 = Some sample_bytes"
  unfolding wire_message.simps(2) [of "Suc 0"] sample_fields_at(1) upt_4
  by (simp add: sample_tags sample_pos concat_opt_def wire_field_def wire_single_def wire_tag_def wire_array_def
      wire_value_def sample_loads load_unsigned_def string_bytes_def sample_strlen varint_bytes.simps addr_add_def
      mem_bytes_def sample_memory_def
      sample_sub_wire PB_LTYPE_def PB_HTYPE_def PB_ATYPE_def Let_def sample_bytes_def upt_rec
      del: iter_at.simps wire_message.simps)

lemma sample_vals: "vals_ok (Suc (Suc 0)) sample_memory sample_message 100"
  unfolding vals_ok.simps(2) [of "Suc 0"] sample_fields_at(1) less_4 sample_pos
  by (simp add: entries_def entry_ok_def value_ok_def sample_loads sample_strlen addr_add_def PB_LTYPE_def PB_HTYPE_def
      PB_ATYPE_def Let_def pb_field_iter_begin_def)

definition no_callbacks :: "unit decode_env" where
  "no_callbacks = \<lparr>de_callback = (\<lambda>_ _ _ d. (False, d)), de_ext_decode = (\<lambda>_ _ _ _ d. (False, d)),
     de_ext_field = (\<lambda>_. PB_LAST_FIELD)\<rparr>"

theorem pb_message_roundtrip_witness:
  "\<exists>s m'. pb_encode (Suc (Suc 0)) (sample_env\<lparr>ee_mem := sample_memory\<rparr>) sample_message 100
        (pb_ostream_from_buffer (\<lambda>_. 0) () 0 20) = Some (True, s) \<and>
    pb_decode (Suc (Suc 0)) no_callbacks sample_message 200 \<lparr>ds_mem = (\<lambda>_. 0), ds_stream =
        pb_istream_from_buffer () (mem_bytes (os_mem s) 0 (os_bytes_written s)) (os_bytes_written s)\<rparr> =
      Some (True, \<lparr>ds_mem = m', ds_stream = pb_istream_from_buffer () [] 0\<rparr>) \<and>
    pb_encode (Suc (Suc 0)) (sample_env\<lparr>ee_mem := m'\<rparr>) sample_message 200
        (pb_ostream_from_buffer (\<lambda>_. 0) () 0 20) = Some (True, s) \<and>
    (\<forall>a. a \<notin> {200..<232} \<longrightarrow> m' a = 0)"
  using pb_message_roundtrip [of "Suc (Suc 0)" sample_message 32 "sample_env\<lparr>ee_mem := sample_memory\<rparr>" 100 sample_bytes
      200 20 "pb_ostream_from_buffer (\<lambda>_. 0) () 0 20" "\<lambda>_. 0" "()" 0 no_callbacks "\<lambda>_. 0" "()"] sample_ok sample_wire sample_vals
  by (simp add: sample_bytes_def del: msg_ok.simps wire_message.simps vals_ok.simps pb_encode.simps)

end
