(* ===== verification/Buf.thy ===== *)
theory Buf
  imports Mem
begin

text \<open>
  Growable buffers and C string copies (\<open>crypto/buf/buf.c\<close>), on the heap of \<open>Mem\<close>.  The
  error queue that \<open>OPENSSL_PUT_ERROR\<close> fills is not part of the state; the return value 0
  is \<open>False\<close> or 0 as in the code.
\<close>

section \<open>BUF\_MEM\<close>

record buf_mem =
  bm_length :: size_t
  bm_data :: nat
  bm_max :: size_t

definition BUF_MEM_new :: "bool \<Rightarrow> buf_mem option" where
  "BUF_MEM_new alloc_ok = (if alloc_ok then Some \<lparr>bm_length = 0, bm_data = 0, bm_max = 0\<rparr> else None)"

definition BUF_MEM_free :: "buf_mem option \<Rightarrow> c_heap \<Rightarrow> mem_fault + c_heap" where
  "BUF_MEM_free buf h = (case buf of None \<Rightarrow> Inr h | Some b \<Rightarrow> OPENSSL_free (bm_data b) h)"

definition BUF_MEM_reserve ::
  "malloc_result \<Rightarrow> size_t \<Rightarrow> buf_mem \<Rightarrow> c_heap \<Rightarrow> mem_fault + (bool \<times> buf_mem \<times> c_heap)" where
  "BUF_MEM_reserve r cap buf h =
    (if cap \<le> bm_max buf then Inr (True, buf, h)
     else
       let n = size_add cap 3 in
       if n < cap then Inr (False, buf, h)
       else
         let n = n div 3; alloc_size = size_mul n 4 in
         if alloc_size div 4 \<noteq> n then Inr (False, buf, h)
         else
           (case OPENSSL_realloc r (bm_data buf) alloc_size h of
              Inl e \<Rightarrow> Inl e
            | Inr (new_buf, h') \<Rightarrow>
                if new_buf = 0 then Inr (False, buf, h')
                else Inr (True, buf\<lparr>bm_data := new_buf, bm_max := alloc_size\<rparr>, h')))"

text \<open>\<open>memset\<close> inside the memory behind a pointer.\<close>

definition set_user :: "nat \<Rightarrow> nat \<Rightarrow> u8 list \<Rightarrow> c_heap \<Rightarrow> mem_fault + c_heap" where
  "set_user p off bs h = (if p < OPENSSL_MALLOC_PREFIX then Inl Invalid_pointer
   else (case hp_blocks h (p - OPENSSL_MALLOC_PREFIX) of
     None \<Rightarrow> Inl Invalid_pointer
   | Some blk \<Rightarrow>
       let at = OPENSSL_MALLOC_PREFIX + off in
       if length blk < at + length bs then Inl Out_of_bounds
       else Inr (h\<lparr>hp_blocks := (hp_blocks h)(p - OPENSSL_MALLOC_PREFIX \<mapsto>
              take at blk @ bs @ drop (at + length bs) blk)\<rparr>)))"

definition BUF_MEM_grow ::
  "malloc_result \<Rightarrow> size_t \<Rightarrow> buf_mem \<Rightarrow> c_heap \<Rightarrow> mem_fault + (size_t \<times> buf_mem \<times> c_heap)" where
  "BUF_MEM_grow r len buf h =
    (case BUF_MEM_reserve r len buf h of
       Inl e \<Rightarrow> Inl e
     | Inr (False, buf', h') \<Rightarrow> Inr (0, buf', h')
     | Inr (True, buf', h') \<Rightarrow>
         (case (if bm_length buf' < len
                then set_user (bm_data buf') (bm_length buf')
                  (replicate (len - bm_length buf') 0) h'
                else Inr h') of
            Inl e \<Rightarrow> Inl e
          | Inr h'' \<Rightarrow> Inr (len, buf'\<lparr>bm_length := len\<rparr>, h'')))"

definition BUF_MEM_grow_clean ::
  "malloc_result \<Rightarrow> size_t \<Rightarrow> buf_mem \<Rightarrow> c_heap \<Rightarrow> mem_fault + (size_t \<times> buf_mem \<times> c_heap)" where
  "BUF_MEM_grow_clean = BUF_MEM_grow"

section \<open>Copies of strings and memory\<close>

definition BUF_memdup ::
  "malloc_result \<Rightarrow> u8 list \<Rightarrow> c_heap \<Rightarrow> mem_fault + (nat \<times> c_heap)" where
  "BUF_memdup r data h =
    (if length data = 0 then Inr (0, h)
     else (case OPENSSL_malloc r (length data) h of
         Inl e \<Rightarrow> Inl e
       | Inr (ret, h') \<Rightarrow>
           if ret = 0 then Inr (0, h')
           else (case set_user ret 0 data h' of
                Inl e \<Rightarrow> Inl e
              | Inr h'' \<Rightarrow> Inr (ret, h''))))"

fun BUF_strnlen :: "u8 list \<Rightarrow> size_t \<Rightarrow> nat option" where
  "BUF_strnlen str 0 = Some 0"
| "BUF_strnlen [] (Suc n) = None"
| "BUF_strnlen (c # str) (Suc n) = (if c = 0 then Some 0 else map_option Suc (BUF_strnlen str n))"

definition BUF_strndup ::
  "malloc_result \<Rightarrow> u8 list option \<Rightarrow> size_t \<Rightarrow> c_heap \<Rightarrow> mem_fault + (nat \<times> c_heap)" where
  "BUF_strndup r str n h =
    (case str of None \<Rightarrow> Inr (0, h) | Some s \<Rightarrow>
      (case BUF_strnlen s n of None \<Rightarrow> Inl Out_of_bounds | Some sz \<Rightarrow>
        let alloc_size = size_add sz 1 in
        if alloc_size < sz then Inr (0, h)
        else (case OPENSSL_malloc r alloc_size h of
            Inl e \<Rightarrow> Inl e
          | Inr (ret, h') \<Rightarrow>
              if ret = 0 then Inr (0, h')
              else (case set_user ret 0 (take sz s) h' of
                  Inl e \<Rightarrow> Inl e
                | Inr h'' \<Rightarrow> (case set_user ret sz [0] h'' of
                      Inl e \<Rightarrow> Inl e
                    | Inr h3 \<Rightarrow> Inr (ret, h3))))))"

definition BUF_strdup ::
  "malloc_result \<Rightarrow> u8 list option \<Rightarrow> c_heap \<Rightarrow> mem_fault + (nat \<times> c_heap)" where
  "BUF_strdup r str h = (case str of None \<Rightarrow> Inr (0, h)
     | Some s \<Rightarrow> (case c_strlen s of None \<Rightarrow> Inl Out_of_bounds | Some n \<Rightarrow> BUF_strndup r str n h))"

text \<open>
  \<open>strlcpy\<close>: the destination is the bytes from \<open>dst\<close> to the end of its object, so that the
  result is the destination afterwards with the return value.
\<close>

definition strlcpy_end :: "u8 list \<Rightarrow> u8 list \<Rightarrow> size_t \<Rightarrow> size_t \<Rightarrow> (u8 list \<times> size_t) option" where
  "strlcpy_end dst src dst_size l =
    (case (if dst_size = 0 then Some dst
           else (case dst of [] \<Rightarrow> None | _ # dst' \<Rightarrow> Some (0 # dst'))) of
       None \<Rightarrow> None
     | Some dst1 \<Rightarrow> map_option (\<lambda>n. (dst1, size_add l n)) (c_strlen src))"

fun strlcpy_loop :: "u8 list \<Rightarrow> u8 list \<Rightarrow> size_t \<Rightarrow> size_t \<Rightarrow> (u8 list \<times> size_t) option" where
  "strlcpy_loop dst [] dst_size l = (if 1 < dst_size then None else strlcpy_end dst [] dst_size l)"
| "strlcpy_loop dst (c # src) dst_size l =
    (if 1 < dst_size \<and> c \<noteq> 0 then
       (case dst of
          [] \<Rightarrow> None
        | _ # dst' \<Rightarrow> map_option (\<lambda>(d, n). (c # d, n)) (strlcpy_loop dst' src (dst_size - 1) (size_add l 1)))
     else strlcpy_end dst (c # src) dst_size l)"

definition BUF_strlcpy :: "u8 list \<Rightarrow> u8 list \<Rightarrow> size_t \<Rightarrow> (u8 list \<times> size_t) option" where
  "BUF_strlcpy dst src dst_size = strlcpy_loop dst src dst_size 0"

fun strlcat_loop :: "u8 list \<Rightarrow> u8 list \<Rightarrow> size_t \<Rightarrow> size_t \<Rightarrow> (u8 list \<times> size_t) option" where
  "strlcat_loop [] src dst_size l =
    (if 0 < dst_size then None
     else map_option (\<lambda>(d, n). (d, size_add l n)) (BUF_strlcpy [] src dst_size))"
| "strlcat_loop (c # dst) src dst_size l =
    (if 0 < dst_size \<and> c \<noteq> 0 then
       map_option (\<lambda>(d, n). (c # d, n)) (strlcat_loop dst src (dst_size - 1) (size_add l 1))
     else map_option (\<lambda>(d, n). (d, size_add l n)) (BUF_strlcpy (c # dst) src dst_size))"

definition BUF_strlcat :: "u8 list \<Rightarrow> u8 list \<Rightarrow> size_t \<Rightarrow> (u8 list \<times> size_t) option" where
  "BUF_strlcat dst src dst_size = strlcat_loop dst src dst_size 0"

section \<open>Growing\<close>

definition bm_wf :: "buf_mem \<Rightarrow> c_heap \<Rightarrow> bool" where
  "bm_wf b h \<longleftrightarrow> heap_wf h \<and> bm_length b \<le> bm_max b \<and>
     (if bm_data b = 0 then bm_max b = 0
      else (\<exists>bs. user_bytes h (bm_data b) = Some bs \<and> length bs = bm_max b))"

definition bm_contents :: "buf_mem \<Rightarrow> c_heap \<Rightarrow> u8 list" where
  "bm_contents b h = (case user_bytes h (bm_data b) of
     None \<Rightarrow> [] | Some bs \<Rightarrow> take (bm_length b) bs)"

lemma set_user_ok:
  assumes wf: "heap_wf h" and live: "user_bytes h p = Some bs" and n: "off + length c \<le> length bs"
  obtains h' where "set_user p off c h = Inr h'" "heap_wf h'"
    "user_bytes h' p = Some (take off bs @ c @ drop (off + length c) bs)"
proof -
  obtain blk where b: "hp_blocks h (p - 8) = Some blk" "8 \<le> p" "block_wf blk"
    "length blk = 8 + length bs" "drop 8 blk = bs"
    by (rule user_bytesE8 [OF wf live]) (rule that)
  let ?blk = "take (8 + off) blk @ c @ drop (8 + off + length c) blk"
  let ?h = "h\<lparr>hp_blocks := (hp_blocks h)(p - 8 \<mapsto> ?blk)\<rparr>"
  have pos: "0 < p - 8" using wf b(1) unfolding heap_wf_def by blast
  have "set_user p off c h = Inr ?h"
    using b(1,2,4) n by (simp add: set_user_def OPENSSL_MALLOC_PREFIX_def Let_def)
  moreover have "length ?blk = length blk" "take 8 ?blk = take 8 blk" using b(4) n by simp_all
  then have "block_wf ?blk"
    using b(3) unfolding block_wf_def OPENSSL_MALLOC_PREFIX_def by metis
  then have "heap_wf ?h" using wf pos by (simp add: heap_wf_def)
  moreover have "drop 8 ?blk = take off bs @ c @ drop (off + length c) bs"
    using b(4) n by (simp add: b(5) [symmetric] drop_take ac_simps)
  then have "user_bytes ?h p = Some (take off bs @ c @ drop (off + length c) bs)"
    using b(2) by (simp add: user_bytes_def OPENSSL_MALLOC_PREFIX_def)
  ultimately show thesis using that by blast
qed


lemma BUF_MEM_reserve_spec:
  assumes wf: "bm_wf b h" and small: "(cap + 3) div 3 * 4 + 8 < size_mod"
    and ok: "malloc_ok h ((cap + 3) div 3 * 4 + 8) r"
  obtains ret b' h' where "BUF_MEM_reserve r cap b h = Inr (ret, b', h')" "bm_wf b' h'"
    "bm_length b' = bm_length b" "bm_contents b' h' = bm_contents b h"
    "ret \<longrightarrow> cap \<le> bm_max b'" "\<not> ret \<longrightarrow> b' = b \<and> h' = h \<and> r = None"
proof (cases "cap \<le> bm_max b")
  case True
  then show thesis using that [of True b h] wf by (simp add: BUF_MEM_reserve_def)
next
  case False
  define n where "n = (cap + 3) div 3 * 4"
  have hwf: "heap_wf h" using wf by (simp add: bm_wf_def)
  have cap: "cap < n" "n + 8 < size_mod" using small by (simp_all add: n_def)
  have R: "BUF_MEM_reserve r cap b h = (case OPENSSL_realloc r (bm_data b) n h of
      Inl e \<Rightarrow> Inl e
    | Inr (q, h') \<Rightarrow> if q = 0 then Inr (False, b, h')
        else Inr (True, b\<lparr>bm_data := q, bm_max := n\<rparr>, h'))"
    using False small by (simp add: BUF_MEM_reserve_def n_def Let_def split: sum.split)
  show thesis
  proof (cases r)
    case None
    have "OPENSSL_realloc r (bm_data b) n h = Inr (0, h)"
    proof (cases "bm_data b = 0")
      case True
      then show ?thesis using None by (simp add: OPENSSL_realloc_def OPENSSL_malloc_fails)
    next
      case False
      then obtain bs where "user_bytes h (bm_data b) = Some bs" using wf by (auto simp: bm_wf_def)
      from OPENSSL_realloc_spec [OF hwf this cap(2) ok [folded n_def]] None show ?thesis by simp
    qed
    then show thesis using that [of False b h] wf R None by simp
  next
    case (Some qc)
    obtain q c where r: "r = Some (q, c)" using Some by (cases qc) auto
    have "\<exists>h' bs'. OPENSSL_realloc r (bm_data b) n h = Inr (q + 8, h') \<and> heap_wf h' \<and>
        user_bytes h' (q + 8) = Some bs' \<and> length bs' = n \<and>
        take (bm_length b) bs' = bm_contents b h"
    proof (cases "bm_data b = 0")
      case True
      then have len: "bm_length b = 0" using wf by (simp add: bm_wf_def)
      obtain blk h' where m: "OPENSSL_malloc (Some (q, c)) n h = Inr (q + 8, h')"
        "h' = h\<lparr>hp_blocks := (hp_blocks h)(q \<mapsto> blk)\<rparr>" "heap_wf h'" "length blk = 8 + n"
      proof (rule OPENSSL_malloc_some8 [OF hwf cap(2), of q c])
        show "malloc_ok h (size_add n 8) (Some (q, c))" using ok cap(2) r by (simp add: n_def)
      qed (rule that)
      then show ?thesis using True len r
        by (auto simp: OPENSSL_realloc_def user_bytes_def bm_contents_def
            OPENSSL_MALLOC_PREFIX_def split: option.splits)
    next
      case False
      then obtain bs where bs: "user_bytes h (bm_data b) = Some bs" "length bs = bm_max b"
        using wf by (auto simp: bm_wf_def)
      obtain h' bs' where "OPENSSL_realloc r (bm_data b) n h = Inr (q + 8, h')" "heap_wf h'"
        "user_bytes h' (q + 8) = Some bs'" "length bs' = n"
        "take (min n (length bs)) bs' = take (min n (length bs)) bs"
        using OPENSSL_realloc_spec [OF hwf bs(1) cap(2) ok [folded n_def]] r by auto
      moreover have "bm_length b \<le> min n (length bs)"
        using \<open>\<not> cap \<le> bm_max b\<close> cap(1) wf bs(2) by (simp add: bm_wf_def)
      ultimately show ?thesis
        using bs(1) by (auto simp: bm_contents_def min_def dest: arg_cong [where f = "take (bm_length b)"]
            split: if_splits)
    qed
    then obtain h' bs' where z: "OPENSSL_realloc r (bm_data b) n h = Inr (q + 8, h')" "heap_wf h'"
        "user_bytes h' (q + 8) = Some bs'" "length bs' = n" "take (bm_length b) bs' = bm_contents b h"
      by blast
    let ?b = "b\<lparr>bm_data := q + 8, bm_max := n\<rparr>"
    have "bm_wf ?b h'" using z wf \<open>\<not> cap \<le> bm_max b\<close> cap(1) by (simp add: bm_wf_def)
    then show thesis using that [of True ?b h'] z R cap(1) by (simp add: bm_contents_def)
  qed
qed

text \<open>
  \<open>BUF_MEM_grow\<close> keeps the contents, zero-fills what is new (also when the buffer was
  shrunk before and holds stale bytes there), stays inside the allocation, and when memory
  runs out reports 0 and leaves the buffer as it was.
\<close>

theorem BUF_MEM_grow_zero_fills:
  assumes wf: "bm_wf b h" and small: "(len + 3) div 3 * 4 + 8 < size_mod"
    and ok: "malloc_ok h ((len + 3) div 3 * 4 + 8) r"
  shows "\<exists>n b' h'. BUF_MEM_grow r len b h = Inr (n, b', h') \<and> bm_wf b' h' \<and>
    (n = len \<and> bm_length b' = len \<and>
       bm_contents b' h' = take len (bm_contents b h) @ replicate (len - bm_length b) 0
     \<or> n = 0 \<and> r = None \<and> b' = b \<and> h' = h)"
proof -
  obtain ret b1 h1 where R: "BUF_MEM_reserve r len b h = Inr (ret, b1, h1)" "bm_wf b1 h1"
    "bm_length b1 = bm_length b" "bm_contents b1 h1 = bm_contents b h"
    "ret \<longrightarrow> len \<le> bm_max b1" "\<not> ret \<longrightarrow> b1 = b \<and> h1 = h \<and> r = None"
    by (rule BUF_MEM_reserve_spec [OF assms]) (rule that)
  show ?thesis
  proof (cases ret)
    case False
    then show ?thesis using R by (simp add: BUF_MEM_grow_def)
  next
    case True
    let ?k = "len - bm_length b"
    let ?b = "b1\<lparr>bm_length := len\<rparr>"
    show ?thesis
    proof (cases "bm_length b < len")
      case grow: True
      then have "bm_data b1 \<noteq> 0" using R(2,5) True by (auto simp: bm_wf_def split: if_splits)
      then obtain bs where bs: "user_bytes h1 (bm_data b1) = Some bs" "length bs = bm_max b1"
        using R(2) by (auto simp: bm_wf_def)
      obtain h2 where s: "set_user (bm_data b1) (bm_length b) (replicate ?k 0) h1 = Inr h2"
          "heap_wf h2" "user_bytes h2 (bm_data b1) =
            Some (take (bm_length b) bs @ replicate ?k 0 @ drop (bm_length b + ?k) bs)"
      proof (rule set_user_ok [OF _ bs(1)])
        show "heap_wf h1" using R(2) by (simp add: bm_wf_def)
        show "bm_length b + length (replicate ?k 0) \<le> length bs"
          using grow bs(2) R(5) True by simp
      qed (simp add: that)
      have "bm_wf ?b h2" using s bs(2) R(5) True grow \<open>bm_data b1 \<noteq> 0\<close> by (simp add: bm_wf_def)
      moreover have c: "bm_contents b h = take (bm_length b) bs"
        unfolding R(4) [symmetric] using R(3) bs(1) by (simp add: bm_contents_def)
      then have "bm_contents ?b h2 = bm_contents b h @ replicate ?k 0"
        using s(3) bs R(5) True grow by (simp add: bm_contents_def min_def)
      moreover have "take len (bm_contents b h) = bm_contents b h"
        using grow by (simp add: c min_def)
      moreover have "BUF_MEM_grow r len b h = Inr (len, ?b, h2)"
        using R True grow s(1) by (simp add: BUF_MEM_grow_def)
      ultimately show ?thesis
        by (intro exI [of _ len] exI [of _ ?b] exI [of _ h2]) simp
    next
      case False
      have "bm_wf ?b h1" using R(2,5) True by (simp add: bm_wf_def split: if_splits)
      moreover have "bm_contents ?b h1 = take len (bm_contents b h)"
        unfolding R(4) [symmetric] using False R(3) by (simp add: bm_contents_def min_def split: option.split)
      moreover have "BUF_MEM_grow r len b h = Inr (len, ?b, h1)"
        using R True False by (simp add: BUF_MEM_grow_def)
      ultimately show ?thesis using False by simp
    qed
  qed
qed


lemma BUF_MEM_grow_zero_fills_witness:
  "\<exists>b' h'. BUF_MEM_grow (Some (96, replicate 16 7)) 5 \<lparr>bm_length = 0, bm_data = 0, bm_max = 0\<rparr>
      \<lparr>hp_blocks = Map.empty, hp_released = []\<rparr> = Inr (5, b', h') \<and>
    bm_contents b' h' = replicate 5 0"
proof -
  let ?b = "\<lparr>bm_length = 0, bm_data = 0, bm_max = 0\<rparr>"
  let ?h = "\<lparr>hp_blocks = Map.empty, hp_released = []\<rparr> :: c_heap"
  have "bm_wf ?b ?h" by (simp add: bm_wf_def heap_wf_def)
  moreover have "malloc_ok ?h ((5 + 3) div 3 * 4 + 8) (Some (96, replicate 16 7))"
    by (simp add: malloc_ok_def)
  moreover have "bm_contents ?b ?h = []"
    by (simp add: bm_contents_def user_bytes_def OPENSSL_MALLOC_PREFIX_def)
  ultimately show ?thesis
    using BUF_MEM_grow_zero_fills [of ?b ?h 5 "Some (96, replicate 16 7)"] by auto
qed

section \<open>Copies\<close>

lemma BUF_memdup_copies:
  assumes wf: "heap_wf h" and small: "length data + 8 < size_mod" and ne: "data \<noteq> []"
    and ok: "malloc_ok h (length data + 8) (Some (q, c))"
  shows "\<exists>h'. BUF_memdup (Some (q, c)) data h = Inr (q + 8, h') \<and> heap_wf h' \<and>
    user_bytes h' (q + 8) = Some data"
proof -
  obtain blk h1 where m: "OPENSSL_malloc (Some (q, c)) (length data) h = Inr (q + 8, h1)"
    "h1 = h\<lparr>hp_blocks := (hp_blocks h)(q \<mapsto> blk)\<rparr>" "heap_wf h1" "length blk = 8 + length data"
  proof (rule OPENSSL_malloc_some8 [OF wf small, of q c])
    show "malloc_ok h (size_add (length data) 8) (Some (q, c))" using ok small by simp
  qed (rule that)
  have u: "user_bytes h1 (q + 8) = Some (drop 8 blk)" "length (drop 8 blk) = length data"
    using m(2,4) by (simp_all add: user_bytes_def OPENSSL_MALLOC_PREFIX_def)
  obtain h2 where "set_user (q + 8) 0 data h1 = Inr h2" "heap_wf h2"
    "user_bytes h2 (q + 8) = Some data"
    using set_user_ok [OF m(3) u(1), of 0 data] u(2) by auto
  then show ?thesis using m(1) ne by (simp add: BUF_memdup_def)
qed

definition truncated :: "u8 list \<Rightarrow> nat \<Rightarrow> size_t \<Rightarrow> u8 list \<Rightarrow> u8 list" where
  "truncated src n sz dst = (if sz = 0 then dst
     else take (min n (sz - 1)) src @ 0 # drop (Suc (min n (sz - 1))) dst)"

lemma strlcpy_loop_spec:
  assumes "c_strlen src = Some n" "sz \<le> length dst" "l + n < size_mod"
  shows "strlcpy_loop dst src sz l = Some (truncated src n sz dst, l + n)"
  using assms
proof (induction src arbitrary: dst sz l n)
  case (Cons c src)
  show ?case
  proof (cases "c = 0")
    case True
    then have "n = 0" using Cons.prems(1) by simp
    with True Cons.prems show ?thesis
      by (cases dst) (auto simp: strlcpy_end_def truncated_def)
  next
    case False
    then obtain m where m: "c_strlen src = Some m" "n = Suc m" using Cons.prems(1) by auto
    show ?thesis
    proof (cases "1 < sz")
      case True
      then obtain d dst' where d: "dst = d # dst'" using Cons.prems(2) by (cases dst) auto
      have "strlcpy_loop dst' src (sz - 1) (l + 1) =
          Some (truncated src m (sz - 1) dst', (l + 1) + m)"
        using Cons.IH [OF m(1)] Cons.prems(2,3) True d m(2) by simp
      moreover have "truncated (c # src) n sz dst = c # truncated src m (sz - 1) dst'"
        using True d m(2) by (cases "sz - 1") (auto simp: truncated_def min_def)
      ultimately show ?thesis using True False d Cons.prems(3) m(2) by simp
    next
      case small: False
      then show ?thesis
        using False m Cons.prems by (cases dst) (auto simp: strlcpy_end_def truncated_def)
    qed
  qed
qed simp

text \<open>
  \<open>BUF_strlcpy\<close> never writes beyond \<open>dst_size\<close> bytes, always terminates the
  destination when it has room for a byte, copies as much of the string as fits, and
  returns the length of the source so that the caller can detect truncation.
\<close>

theorem BUF_strlcpy_correct:
  assumes "c_strlen src = Some n" "dst_size \<le> length dst" "n < size_mod"
  shows "\<exists>dst'. BUF_strlcpy dst src dst_size = Some (dst', n) \<and> length dst' = length dst \<and>
    drop dst_size dst' = drop dst_size dst \<and>
    (0 < dst_size \<longrightarrow> c_strlen dst' = Some (min n (dst_size - 1)) \<and>
      take (min n (dst_size - 1)) dst' = take (min n (dst_size - 1)) src)"
proof -
  let ?k = "min n (dst_size - 1)"
  have n: "n < length src" "src ! n = 0" "\<forall>i < n. src ! i \<noteq> 0"
    using assms(1) by (simp_all add: c_strlen_Some_iff)
  have "BUF_strlcpy dst src dst_size = Some (truncated src n dst_size dst, n)"
    using strlcpy_loop_spec [OF assms(1,2), of 0] assms(3) by (simp add: BUF_strlcpy_def)
  moreover have "length (truncated src n dst_size dst) = length dst"
    using n(1) assms(2) by (auto simp: truncated_def min_def)
  moreover have "drop dst_size (truncated src n dst_size dst) = drop dst_size dst"
    using n(1) by (auto simp: truncated_def drop_Cons' min_def)
  moreover have "c_strlen (truncated src n dst_size dst) = Some ?k \<and>
      take ?k (truncated src n dst_size dst) = take ?k src" if "0 < dst_size"
    using that n by (simp add: truncated_def c_strlen_Some_iff nth_append)
  ultimately show ?thesis by blast
qed

lemma str_hi: "c_strlen [104, 105, 33, 0] = Some 3"
  by simp

lemma BUF_strlcpy_correct_witness:
  "\<exists>d. BUF_strlcpy [9, 9, 9, 9] [104, 105, 33, 0] 3 = Some (d, 3) \<and> take 2 d = [104, 105]"
  using BUF_strlcpy_correct [of "[104, 105, 33, 0]" 3 3 "[9, 9, 9, 9]"]
    str_hi by (auto simp: min_def)

lemma BUF_strnlen_spec: "c_strlen s = Some k \<Longrightarrow> BUF_strnlen s n = Some (min n k)"
  by (induction s n arbitrary: k rule: BUF_strnlen.induct) (auto split: if_splits)

lemma strlcat_loop_spec:
  assumes "c_strlen dst = Some k" "c_strlen src = Some n" "sz \<le> length dst" "l + k + n < size_mod"
  shows "strlcat_loop dst src sz l =
    Some (take (min k sz) dst @ truncated src n (sz - k) (drop (min k sz) dst), l + min k sz + n)"
  using assms
proof (induction dst arbitrary: k sz l)
  case (Cons c dst)
  show ?case
  proof (cases "c = 0 \<or> sz = 0")
    case True
    then have k: "min k sz = 0" using Cons.prems(1) by auto
    have "BUF_strlcpy (c # dst) src sz = Some (truncated src n sz (c # dst), n)"
      using strlcpy_loop_spec [OF Cons.prems(2,3), of 0] Cons.prems(4) by (simp add: BUF_strlcpy_def)
    moreover have "sz - k = sz" using k by (auto simp: min_def split: if_splits)
    moreover have "strlcat_loop (c # dst) src sz l =
        map_option (\<lambda>(d, n). (d, size_add l n)) (BUF_strlcpy (c # dst) src sz)"
      using True by auto
    ultimately show ?thesis using k Cons.prems(4) by simp
  next
    case False
    then obtain m where m: "c_strlen dst = Some m" "k = Suc m" using Cons.prems(1) by auto
    obtain s where s: "sz = Suc s" using False by (cases sz) auto
    have "strlcat_loop dst src s (l + 1) =
        Some (take (min m s) dst @ truncated src n (s - m) (drop (min m s) dst), l + 1 + min m s + n)"
      using Cons.IH [OF m(1) Cons.prems(2)] Cons.prems(3,4) m(2) s by simp
    then show ?thesis using False m(2) s Cons.prems(4) by simp
  qed
qed simp

lemma BUF_strlcat_correct:
  assumes "c_strlen dst = Some k" "c_strlen src = Some n" "k < dst_size" "dst_size \<le> length dst"
    "k + n < size_mod"
  shows "\<exists>dst'. BUF_strlcat dst src dst_size = Some (dst', k + n) \<and>
    take (k + min n (dst_size - k - 1)) dst' = take k dst @ take (min n (dst_size - k - 1)) src"
proof -
  have "n < length src" using assms(2) by (simp add: c_strlen_Some_iff)
  then show ?thesis
    using strlcat_loop_spec [OF assms(1,2,4), of 0] assms(3-5)
    by (auto simp: BUF_strlcat_def truncated_def min_def)
qed

end
