(* ===== verification/Stack.thy ===== *)
theory Stack
  imports Prelude "HOL-Library.Multiset"
begin

text \<open>
  The pointer stack of BoringSSL (\<open>crypto/stack/stack.c\<close>), a growable array of pointers with
  a lazily sorted lookup.  A pointer element is an \<open>'a option\<close> (\<open>None\<close> for null); a stack
  argument is optional as well, because every operation accepts a null stack.  What
  \<open>realloc\<close> leaves in new slots is an argument, and so are \<open>qsort\<close> and \<open>bsearch\<close>, with the
  C standard's description of them as the hypotheses \<open>qsort_ok\<close> and \<open>bsearch_ok\<close>.
\<close>

section \<open>State and operations\<close>

type_synonym 'a sk_cmp = "'a option \<Rightarrow> 'a option \<Rightarrow> int"

record 'a stack =
  sk_nm :: size_t
  sk_data :: "'a option list"
  sk_sorted :: bool
  sk_num_alloc :: size_t
  sk_comp :: "'a sk_cmp option"

definition kMinSize :: nat where
  "kMinSize = 4"

definition sizeof_voidp :: nat where
  "sizeof_voidp = 8"

definition sk_new :: "bool \<Rightarrow> bool \<Rightarrow> 'a sk_cmp option \<Rightarrow> 'a stack option" where
  "sk_new ret_ok data_ok cmp = (if \<not> ret_ok then None else if \<not> data_ok then None
     else Some \<lparr>sk_nm = 0, sk_data = replicate kMinSize None, sk_sorted = False,
       sk_num_alloc = kMinSize, sk_comp = cmp\<rparr>)"

definition sk_new_null :: "bool \<Rightarrow> bool \<Rightarrow> 'a stack option" where
  "sk_new_null ret_ok data_ok = sk_new ret_ok data_ok None"

definition sk_num :: "'a stack option \<Rightarrow> size_t" where
  "sk_num sk = (case sk of None \<Rightarrow> 0 | Some s \<Rightarrow> sk_nm s)"

definition sk_zero :: "'a stack option \<Rightarrow> 'a stack option" where
  "sk_zero sk = (case sk of None \<Rightarrow> None | Some s \<Rightarrow>
     if sk_nm s = 0 then Some s
     else Some (s\<lparr>sk_data := replicate (sk_nm s) None @ drop (sk_nm s) (sk_data s),
                  sk_nm := 0, sk_sorted := False\<rparr>))"

definition sk_value :: "'a stack option \<Rightarrow> size_t \<Rightarrow> 'a option" where
  "sk_value sk i = (case sk of None \<Rightarrow> None | Some s \<Rightarrow>
     if sk_nm s \<le> i then None else sk_data s ! i)"

definition sk_set ::
  "'a stack option \<Rightarrow> size_t \<Rightarrow> 'a option \<Rightarrow> 'a option \<times> 'a stack option" where
  "sk_set sk i v = (case sk of None \<Rightarrow> (None, None) | Some s \<Rightarrow>
     if sk_nm s \<le> i then (None, sk)
     else (v, Some (s\<lparr>sk_data := (sk_data s)[i := v]\<rparr>)))"

text \<open>The elements handed to the destructor of \<open>sk_pop_free\<close>, in order.\<close>

definition sk_pop_free :: "'a stack option \<Rightarrow> 'a list" where
  "sk_pop_free sk = (case sk of None \<Rightarrow> [] | Some s \<Rightarrow>
     List.map_filter (\<lambda>i. sk_data s ! i) [0..<sk_nm s])"

text \<open>The new capacity of a full stack: doubled, or one more when doubling overflows.\<close>

definition sk_new_alloc :: "size_t \<Rightarrow> size_t option" where
  "sk_new_alloc num_alloc =
    (let new_alloc = size_mul num_alloc 2; alloc_size = size_mul new_alloc sizeof_voidp;
         new_alloc = (if new_alloc < num_alloc \<or> alloc_size div sizeof_voidp \<noteq> new_alloc
                      then size_add num_alloc 1 else new_alloc);
         alloc_size = size_mul new_alloc sizeof_voidp
     in if new_alloc < num_alloc \<or> alloc_size div sizeof_voidp \<noteq> new_alloc then None
        else Some new_alloc)"

definition sk_reserve :: "(nat \<Rightarrow> 'a option) option \<Rightarrow> 'a stack \<Rightarrow> 'a stack option" where
  "sk_reserve mem s =
    (if sk_num_alloc s \<le> size_add (sk_nm s) 1 then
       (case sk_new_alloc (sk_num_alloc s) of
          None \<Rightarrow> None
        | Some n \<Rightarrow> (case mem of None \<Rightarrow> None
            | Some g \<Rightarrow> Some (s\<lparr>sk_data := sk_data s @ map g [sk_num_alloc s..<n],
                                sk_num_alloc := n\<rparr>)))
     else Some s)"

definition sk_insert ::
  "(nat \<Rightarrow> 'a option) option \<Rightarrow> 'a stack option \<Rightarrow> 'a option \<Rightarrow> size_t
    \<Rightarrow> size_t \<times> 'a stack option" where
  "sk_insert mem sk p at = (case sk of None \<Rightarrow> (0, None) | Some s \<Rightarrow>
     (case sk_reserve mem s of None \<Rightarrow> (0, sk) | Some s1 \<Rightarrow>
        let dat = (if sk_nm s1 \<le> at then (sk_data s1)[sk_nm s1 := p]
                   else (take at (sk_data s1)
                         @ sk_data s1 ! at # take (sk_nm s1 - at) (drop at (sk_data s1))
                         @ drop (Suc (sk_nm s1)) (sk_data s1))[at := p]);
            n = size_add (sk_nm s1) 1
        in (n, Some (s1\<lparr>sk_data := dat, sk_nm := n, sk_sorted := False\<rparr>))))"

definition sk_delete :: "'a stack option \<Rightarrow> size_t \<Rightarrow> 'a option \<times> 'a stack option" where
  "sk_delete sk at = (case sk of None \<Rightarrow> (None, None) | Some s \<Rightarrow>
     if sk_nm s \<le> at then (None, sk)
     else
       let ret = sk_data s ! at;
           dat = (if at \<noteq> sk_nm s - 1
                  then take at (sk_data s) @ take (sk_nm s - at - 1) (drop (Suc at) (sk_data s))
                       @ drop (sk_nm s - 1) (sk_data s)
                  else sk_data s)
       in (ret, Some (s\<lparr>sk_data := dat, sk_nm := sk_nm s - 1\<rparr>)))"

text \<open>The first index below \<open>sk->num\<close> whose element is the pointer \<open>p\<close>.\<close>

fun ptr_search :: "'a option list \<Rightarrow> 'a option \<Rightarrow> nat \<Rightarrow> nat \<Rightarrow> nat option" where
  "ptr_search dat p i 0 = None"
| "ptr_search dat p i (Suc n) =
    (if dat ! i = p then Some i else ptr_search dat p (Suc i) n)"

definition sk_delete_ptr ::
  "'a stack option \<Rightarrow> 'a option \<Rightarrow> 'a option \<times> 'a stack option" where
  "sk_delete_ptr sk p = (case sk of None \<Rightarrow> (None, None) | Some s \<Rightarrow>
     (case ptr_search (sk_data s) p 0 (sk_nm s) of
        Some i \<Rightarrow> sk_delete sk i
      | None \<Rightarrow> (None, sk)))"

definition sk_sort ::
  "('a sk_cmp \<Rightarrow> 'a option list \<Rightarrow> 'a option list) \<Rightarrow> 'a stack \<Rightarrow> 'a stack" where
  "sk_sort qsort s = (case sk_comp s of None \<Rightarrow> s | Some c \<Rightarrow>
     if sk_sorted s then s
     else s\<lparr>sk_data := qsort c (take (sk_nm s) (sk_data s)) @ drop (sk_nm s) (sk_data s),
            sk_sorted := True\<rparr>)"

fun first_equal :: "'a sk_cmp \<Rightarrow> 'a option \<Rightarrow> 'a option list \<Rightarrow> nat \<Rightarrow> nat" where
  "first_equal c p dat 0 = 0"
| "first_equal c p dat (Suc i) = (if c p (dat ! i) = 0 then first_equal c p dat i else Suc i)"

text \<open>\<open>Some i\<close> is the return value 1 with \<open>*out_index = i\<close>.\<close>

definition sk_find ::
  "('a sk_cmp \<Rightarrow> 'a option list \<Rightarrow> 'a option list) \<Rightarrow>
   ('a sk_cmp \<Rightarrow> 'a option \<Rightarrow> 'a option list \<Rightarrow> nat option) \<Rightarrow>
   'a stack option \<Rightarrow> 'a option \<Rightarrow> nat option \<times> 'a stack option" where
  "sk_find qsort bsearch sk p = (case sk of None \<Rightarrow> (None, None) | Some s \<Rightarrow>
     (case sk_comp s of
        None \<Rightarrow> (ptr_search (sk_data s) p 0 (sk_nm s), sk)
      | Some c \<Rightarrow>
          if p = None then (None, sk)
          else
            let s' = sk_sort qsort s in
            (case bsearch c p (take (sk_nm s') (sk_data s')) of
               None \<Rightarrow> (None, Some s')
             | Some r \<Rightarrow> (Some (first_equal c p (sk_data s') r), Some s'))))"

definition sk_shift :: "'a stack option \<Rightarrow> 'a option \<times> 'a stack option" where
  "sk_shift sk = (case sk of None \<Rightarrow> (None, None) | Some s \<Rightarrow>
     if sk_nm s = 0 then (None, sk) else sk_delete sk 0)"

definition sk_push ::
  "(nat \<Rightarrow> 'a option) option \<Rightarrow> 'a stack option \<Rightarrow> 'a option \<Rightarrow> size_t \<times> 'a stack option" where
  "sk_push mem sk p = sk_insert mem sk p (sk_num sk)"

definition sk_pop :: "'a stack option \<Rightarrow> 'a option \<times> 'a stack option" where
  "sk_pop sk = (case sk of None \<Rightarrow> (None, None) | Some s \<Rightarrow>
     if sk_nm s = 0 then (None, sk) else sk_delete sk (sk_nm s - 1))"

definition sk_dup :: "bool \<Rightarrow> bool \<Rightarrow> (nat \<Rightarrow> 'a option) option \<Rightarrow> 'a stack option \<Rightarrow> 'a stack option" where
  "sk_dup ret_ok data_ok mem sk = (case sk of None \<Rightarrow> None | Some s \<Rightarrow>
     (case sk_new ret_ok data_ok (sk_comp s) of None \<Rightarrow> None | Some r \<Rightarrow>
       (case mem of None \<Rightarrow> None | Some g \<Rightarrow>
          let d = take (sk_num_alloc s) (sk_data r @ map g [kMinSize..<sk_num_alloc s]) in
          Some (r\<lparr>sk_data := take (sk_nm s) (sk_data s) @ drop (sk_nm s) d, sk_nm := sk_nm s,
                  sk_sorted := sk_sorted s, sk_num_alloc := sk_num_alloc s, sk_comp := sk_comp s\<rparr>))))"

definition sk_is_sorted :: "'a stack option \<Rightarrow> bool" where
  "sk_is_sorted sk = (case sk of None \<Rightarrow> True | Some s \<Rightarrow> sk_sorted s)"

text \<open>Whether two comparison functions are the same pointer is the argument \<open>same\<close>.\<close>

definition sk_set_cmp_func ::
  "bool \<Rightarrow> 'a stack \<Rightarrow> 'a sk_cmp option \<Rightarrow> 'a sk_cmp option \<times> 'a stack" where
  "sk_set_cmp_func same s cmp =
    (sk_comp s, (if same then s else s\<lparr>sk_sorted := False\<rparr>)\<lparr>sk_comp := cmp\<rparr>)"

text \<open>
  The loop of \<open>sk_deep_copy\<close>, with the copies it made so far: \<open>Inl\<close> is the list of copies
  that were released again after a failed copy.
\<close>

fun deep_copy_loop ::
  "('a \<Rightarrow> 'a option) \<Rightarrow> 'a option list \<Rightarrow> 'a option list \<Rightarrow> 'a list + 'a option list" where
  "deep_copy_loop cf cps [] = Inr cps"
| "deep_copy_loop cf cps (None # rest) = deep_copy_loop cf (cps @ [None]) rest"
| "deep_copy_loop cf cps (Some x # rest) =
    (case cf x of
       None \<Rightarrow> Inl (List.map_filter (\<lambda>y. y) cps)
     | Some y \<Rightarrow> deep_copy_loop cf (cps @ [Some y]) rest)"

definition sk_deep_copy ::
  "bool \<Rightarrow> bool \<Rightarrow> (nat \<Rightarrow> 'a option) option \<Rightarrow> ('a \<Rightarrow> 'a option) \<Rightarrow> 'a stack option
    \<Rightarrow> 'a stack option \<times> 'a list" where
  "sk_deep_copy ret_ok data_ok mem cf sk =
    (case sk_dup ret_ok data_ok mem sk of None \<Rightarrow> (None, []) | Some r \<Rightarrow>
       (case deep_copy_loop cf [] (take (sk_nm r) (sk_data r)) of
          Inl freed \<Rightarrow> (None, freed)
        | Inr d \<Rightarrow> (Some (r\<lparr>sk_data := d @ drop (sk_nm r) (sk_data r)\<rparr>), [])))"


section \<open>The stack as a list\<close>

definition sk_elems :: "'a stack \<Rightarrow> 'a option list" where
  "sk_elems s = take (sk_nm s) (sk_data s)"

definition cmp_ok :: "'a sk_cmp \<Rightarrow> bool" where
  "cmp_ok c \<longleftrightarrow> (\<forall>x y. c x y < 0 \<longleftrightarrow> 0 < c y x) \<and>
     (\<forall>x y z. c x y \<le> 0 \<longrightarrow> c y z \<le> 0 \<longrightarrow> c x z \<le> 0)"

definition sk_wf :: "'a stack \<Rightarrow> bool" where
  "sk_wf s \<longleftrightarrow> length (sk_data s) = sk_num_alloc s \<and> sk_nm s \<le> sk_num_alloc s \<and>
     kMinSize \<le> sk_num_alloc s \<and> sizeof_voidp * sk_num_alloc s < size_mod \<and>
     (case sk_comp s of None \<Rightarrow> True
        | Some c \<Rightarrow> sk_sorted s \<longrightarrow> sorted_wrt (\<lambda>x y. c x y \<le> 0) (sk_elems s))"

definition qsort_ok :: "('a sk_cmp \<Rightarrow> 'a option list \<Rightarrow> 'a option list) \<Rightarrow> bool" where
  "qsort_ok qs \<longleftrightarrow> (\<forall>c xs. cmp_ok c \<longrightarrow> mset (qs c xs) = mset xs \<and>
     sorted_wrt (\<lambda>x y. c x y \<le> 0) (qs c xs))"

definition bsearch_ok ::
  "('a sk_cmp \<Rightarrow> 'a option \<Rightarrow> 'a option list \<Rightarrow> nat option) \<Rightarrow> bool" where
  "bsearch_ok bs \<longleftrightarrow> (\<forall>c p xs. cmp_ok c \<longrightarrow> sorted_wrt (\<lambda>x y. c x y \<le> 0) xs \<longrightarrow>
     (case bs c p xs of None \<Rightarrow> \<forall>x \<in> set xs. c p x \<noteq> 0
      | Some i \<Rightarrow> i < length xs \<and> c p (xs ! i) = 0))"

lemma sk_new_wf: "sk_new a b c = Some s \<Longrightarrow> sk_wf s \<and> sk_elems s = []"
  by (auto simp: sk_new_def sk_wf_def sk_elems_def kMinSize_def sizeof_voidp_def
      split: if_splits option.splits)

lemma sk_new_alloc_spec:
  assumes n: "sk_new_alloc n = Some m" and b: "n < size_mod"
  shows "n < m \<and> sizeof_voidp * m < size_mod \<or> n = 0"
proof -
  have ovf: "size_mul k 8 div 8 = k \<longleftrightarrow> 8 * k < size_mod" for k
  proof (cases "8 * k < size_mod")
    case False
    have "size_mul k 8 < size_mod" by (simp add: size_mul_def)
    with False show ?thesis by auto
  qed (simp add: mult.commute)
  define d where "d = size_mul n 2"
  define a where "a = (if d < n \<or> \<not> 8 * d < size_mod then size_add n 1 else d)"
  have m: "m = a" "\<not> a < n" "8 * a < size_mod"
    using n unfolding sk_new_alloc_def Let_def sizeof_voidp_def d_def [symmetric] ovf a_def [symmetric]
    by (simp_all split: if_splits)
  have "n < a \<or> n = 0"
  proof (cases "d < n \<or> \<not> 8 * d < size_mod")
    case True
    then have "a = size_add n 1" by (simp add: a_def)
    with m(2) b show ?thesis by (auto simp: size_add_def mod_if split: if_splits)
  next
    case False
    then have "a = d" by (simp add: a_def)
    moreover have "n \<le> d" using False by simp
    moreover have "d \<noteq> n \<or> n = 0" using b by (auto simp: d_def size_mul_def mod_if split: if_splits)
    ultimately show ?thesis by auto
  qed
  with m show ?thesis by (simp add: sizeof_voidp_def)
qed

lemma sk_reserve_spec:
  assumes wf: "sk_wf s" and r: "sk_reserve mem s = Some s1"
  shows "sk_wf s1 \<and> sk_elems s1 = sk_elems s \<and> sk_nm s1 = sk_nm s \<and> sk_comp s1 = sk_comp s \<and>
    sk_nm s + 1 \<le> sk_num_alloc s1"
proof -
  have b: "sk_num_alloc s < size_mod" "sk_num_alloc s \<noteq> 0" "sk_nm s \<le> sk_num_alloc s"
    "sk_nm s + 1 < size_mod"
    using wf by (auto simp: sk_wf_def sizeof_voidp_def kMinSize_def)
  show ?thesis
  proof (cases "sk_num_alloc s \<le> size_add (sk_nm s) 1")
    case True
    then obtain n g where n: "sk_new_alloc (sk_num_alloc s) = Some n"
      "s1 = s\<lparr>sk_data := sk_data s @ map g [sk_num_alloc s..<n], sk_num_alloc := n\<rparr>"
      using r by (auto simp: sk_reserve_def split: option.splits)
    have "sk_num_alloc s < n \<and> sizeof_voidp * n < size_mod"
      using sk_new_alloc_spec [OF n(1) b(1)] b(2) by simp
    moreover have "sk_elems s1 = sk_elems s"
      using wf b(3) by (simp add: n(2) sk_elems_def sk_wf_def)
    ultimately show ?thesis using wf b by (auto simp: sk_wf_def n(2) split: option.split)
  next
    case False
    then have "s1 = s" using r by (simp add: sk_reserve_def)
    with False wf b(4) show ?thesis by (simp add: sk_wf_def)
  qed
qed

lemma sk_insert_spec:
  assumes "sk_wf s" "sk_insert mem (Some s) p at = (n, sk')"
  shows "\<exists>s'. sk' = Some s' \<and> sk_wf s' \<and>
    (if n = 0 then s' = s
     else n = Suc (sk_nm s) \<and> sk_nm s' = n \<and> sk_comp s' = sk_comp s \<and>
       sk_elems s' = take at (sk_elems s) @ p # drop at (sk_elems s))"
proof (cases "sk_reserve mem s")
  case None
  then show ?thesis using assms by (simp add: sk_insert_def)
next
  case (Some s1)
  note R = sk_reserve_spec [OF assms(1) Some]
  have len: "length (sk_data s1) = sk_num_alloc s1" "Suc (sk_nm s1) \<le> length (sk_data s1)"
    "sk_nm s1 + 1 < size_mod" "size_add (sk_nm s1) 1 = Suc (sk_nm s1)"
    using R by (auto simp: sk_wf_def sizeof_voidp_def)
  define dat where "dat = (if sk_nm s1 \<le> at then (sk_data s1)[sk_nm s1 := p]
      else (take at (sk_data s1) @ sk_data s1 ! at # take (sk_nm s1 - at) (drop at (sk_data s1))
            @ drop (Suc (sk_nm s1)) (sk_data s1))[at := p])"
  let ?s = "s1\<lparr>sk_data := dat, sk_nm := Suc (sk_nm s1), sk_sorted := False\<rparr>"
  have ins: "n = Suc (sk_nm s1)" "sk' = Some ?s"
    using assms(2) Some len(4) by (auto simp: sk_insert_def Let_def dat_def)
  have dat: "length dat = length (sk_data s1) \<and>
    take (Suc (sk_nm s1)) dat = take at (sk_elems s1) @ p # drop at (sk_elems s1)"
  proof (cases "sk_nm s1 \<le> at")
    case True
    then show ?thesis using len
      by (simp add: dat_def sk_elems_def take_Suc_conv_app_nth)
  next
    case False
    then show ?thesis using len
      by (simp add: dat_def sk_elems_def list_update_append min_def drop_take take_Cons'
          split: nat.split)
  qed
  have "sk_wf ?s" using R dat len by (simp add: sk_wf_def split: option.split)
  moreover have "sk_elems ?s = take at (sk_elems s) @ p # drop at (sk_elems s)"
  proof -
    have "sk_elems ?s = take (Suc (sk_nm s1)) dat" by (simp add: sk_elems_def)
    then show ?thesis using dat R by simp
  qed
  ultimately show ?thesis using ins R by simp
qed

text \<open>
  \<open>sk_insert\<close> inserts at the requested position, or at the end when the position is past
  it, shifting the elements behind it and growing the array when it is full; it returns the
  new number of elements, stays inside the array, and on allocation failure returns 0 and
  leaves the stack alone.
\<close>

theorem sk_insert_correct:
  assumes "sk_wf s" "sk_insert mem (Some s) p at = (n, sk')"
  shows "\<exists>s'. sk' = Some s' \<and> sk_wf s' \<and>
    (if n = 0 then s' = s
     else n = Suc (sk_nm s) \<and> sk_nm s' = n \<and> sk_comp s' = sk_comp s \<and>
       sk_elems s' = take at (sk_elems s) @ p # drop at (sk_elems s))"
  using sk_insert_spec [OF assms] .

lemma sk_delete_spec:
  assumes "sk_wf s" "sk_delete (Some s) at = (r, sk')"
  shows "\<exists>s'. sk' = Some s' \<and> sk_wf s' \<and>
    (if sk_nm s \<le> at then r = None \<and> s' = s
     else r = sk_elems s ! at \<and> sk_nm s' = sk_nm s - 1 \<and> sk_sorted s' = sk_sorted s \<and>
       sk_elems s' = take at (sk_elems s) @ drop (Suc at) (sk_elems s))"
proof (cases "sk_nm s \<le> at")
  case True
  then show ?thesis using assms by (simp add: sk_delete_def)
next
  case False
  define dat where "dat = (if at \<noteq> sk_nm s - 1
      then take at (sk_data s) @ take (sk_nm s - at - 1) (drop (Suc at) (sk_data s))
           @ drop (sk_nm s - 1) (sk_data s)
      else sk_data s)"
  let ?s = "s\<lparr>sk_data := dat, sk_nm := sk_nm s - 1\<rparr>"
  have len: "length (sk_data s) = sk_num_alloc s" "sk_nm s \<le> length (sk_data s)"
    using assms(1) by (simp_all add: sk_wf_def)
  have del: "r = sk_data s ! at" "sk' = Some ?s"
    using assms(2) False by (auto simp: sk_delete_def Let_def dat_def)
  have dat: "length dat = length (sk_data s)"
    "take (sk_nm s - 1) dat = take at (sk_elems s) @ drop (Suc at) (sk_elems s)"
    using False len by (auto simp: dat_def sk_elems_def drop_take min_def)
  have el: "sk_elems ?s = take at (sk_elems s) @ drop (Suc at) (sk_elems s)"
    using dat(2) by (simp add: sk_elems_def)
  have "sorted_wrt P (sk_elems ?s)" if "sorted_wrt P (sk_elems s)" for P
  proof -
    have "sk_elems s = take at (sk_elems s) @ drop at (sk_elems s)" by simp
    moreover have "drop at (sk_elems s) = sk_elems s ! at # drop (Suc at) (sk_elems s)"
      using False len by (intro Cons_nth_drop_Suc [symmetric]) (simp add: sk_elems_def)
    ultimately show ?thesis using that unfolding el
      by (metis sorted_wrt_append sorted_wrt.simps(2) list.set_intros(2))
  qed
  then have "sk_wf ?s" using assms(1) dat(1) by (auto simp: sk_wf_def split: option.splits)
  then show ?thesis using del el False len by (simp add: sk_elems_def)
qed

text \<open>
  \<open>sk_delete\<close> removes and returns the element at a position and closes the gap, keeps the
  order of the others (so that a sorted stack stays sorted), and does nothing for a
  position outside the stack.
\<close>

theorem sk_delete_correct:
  assumes "sk_wf s" "sk_delete (Some s) at = (r, sk')"
  shows "\<exists>s'. sk' = Some s' \<and> sk_wf s' \<and>
    (if sk_nm s \<le> at then r = None \<and> s' = s
     else r = sk_elems s ! at \<and> sk_nm s' = sk_nm s - 1 \<and> sk_sorted s' = sk_sorted s \<and>
       sk_elems s' = take at (sk_elems s) @ drop (Suc at) (sk_elems s))"
  using sk_delete_spec [OF assms] .


section \<open>Lookup\<close>

lemma cmp_okD:
  assumes "cmp_ok c"
  shows "c x y \<le> 0 \<Longrightarrow> c y z \<le> 0 \<Longrightarrow> c x z \<le> 0"
    "c x y = 0 \<Longrightarrow> c y x = 0" "c x y \<le> 0 \<Longrightarrow> c y x \<le> 0 \<Longrightarrow> c x y = 0"
    "0 < c x y \<Longrightarrow> c y x \<le> 0"
proof -
  have flip: "c a b < 0 \<longleftrightarrow> 0 < c b a" for a b using assms by (simp add: cmp_ok_def)
  show "c x y \<le> 0 \<Longrightarrow> c y z \<le> 0 \<Longrightarrow> c x z \<le> 0"
    using assms unfolding cmp_ok_def by blast
  show "c x y = 0 \<Longrightarrow> c y x = 0" using flip [of x y] flip [of y x] by linarith
  show "c x y \<le> 0 \<Longrightarrow> c y x \<le> 0 \<Longrightarrow> c x y = 0" using flip [of x y] by linarith
  show "0 < c x y \<Longrightarrow> c y x \<le> 0" using flip [of y x] by linarith
qed

lemma ptr_search_spec:
  "case ptr_search dat p i n of
     None \<Rightarrow> \<forall>j. i \<le> j \<longrightarrow> j < i + n \<longrightarrow> dat ! j \<noteq> p
   | Some k \<Rightarrow> i \<le> k \<and> k < i + n \<and> dat ! k = p \<and> (\<forall>j. i \<le> j \<longrightarrow> j < k \<longrightarrow> dat ! j \<noteq> p)"
proof (induction n arbitrary: i)
  case (Suc n)
  show ?case
  proof (cases "dat ! i = p")
    case False
    have "j = i \<or> Suc i \<le> j" if "i \<le> j" for j using that by auto
    with False Suc.IH [of "Suc i"] show ?thesis
      by (auto split: option.splits)
  qed simp
qed simp

lemma sk_delete_ptr_correct:
  assumes "sk_wf s" "sk_delete_ptr (Some s) p = (r, sk')"
  shows "if p \<in> set (sk_elems s)
    then r = p \<and> (\<exists>s' xs ys. sk' = Some s' \<and> sk_elems s = xs @ p # ys \<and> p \<notin> set xs \<and>
      sk_elems s' = xs @ ys)
    else r = None \<and> sk' = Some s"
proof -
  have len: "length (sk_elems s) = sk_nm s" using assms(1) by (simp add: sk_elems_def sk_wf_def)
  have nth: "sk_data s ! j = sk_elems s ! j" if "j < sk_nm s" for j
    using that by (simp add: sk_elems_def)
  show ?thesis
  proof (cases "ptr_search (sk_data s) p 0 (sk_nm s)")
    case None
    then have "p \<notin> set (sk_elems s)"
      using ptr_search_spec [where dat = "sk_data s" and p = p and i = 0 and n = "sk_nm s"] nth len by (auto simp: in_set_conv_nth)
    then show ?thesis using None assms(2) by (simp add: sk_delete_ptr_def)
  next
    case (Some k)
    have k: "k < sk_nm s" "sk_elems s ! k = p" "\<forall>j < k. sk_elems s ! j \<noteq> p"
      using ptr_search_spec [where dat = "sk_data s" and p = p and i = 0 and n = "sk_nm s"] Some nth by auto
    have del: "sk_delete (Some s) k = (r, sk')" using assms(2) Some by (simp add: sk_delete_ptr_def)
    obtain s' where "sk' = Some s'" "r = p"
      "sk_elems s' = take k (sk_elems s) @ drop (Suc k) (sk_elems s)"
      using sk_delete_spec [OF assms(1) del] k by auto
    moreover have "sk_elems s = take k (sk_elems s) @ p # drop (Suc k) (sk_elems s)"
      using id_take_nth_drop [of k "sk_elems s"] k len by simp
    moreover have "p \<notin> set (take k (sk_elems s))"
      using k len by (auto simp: in_set_conv_nth)
    moreover have "p \<in> set (sk_elems s)" using k len by (metis nth_mem)
    ultimately show ?thesis by auto
  qed
qed

lemma first_equal_spec:
  "first_equal c p dat i \<le> i \<and> (\<forall>j. first_equal c p dat i \<le> j \<longrightarrow> j < i \<longrightarrow> c p (dat ! j) = 0) \<and>
   (first_equal c p dat i = 0 \<or> c p (dat ! (first_equal c p dat i - 1)) \<noteq> 0)"
  by (induction i) (auto simp: less_Suc_eq)

lemma sk_sort_spec:
  assumes wf: "sk_wf s" and c: "sk_comp s = Some c" "cmp_ok c" and q: "qsort_ok qs"
  shows "sk_wf (sk_sort qs s) \<and> sk_nm (sk_sort qs s) = sk_nm s \<and>
    mset (sk_elems (sk_sort qs s)) = mset (sk_elems s) \<and>
    sorted_wrt (\<lambda>x y. c x y \<le> 0) (sk_elems (sk_sort qs s)) \<and> sk_sorted (sk_sort qs s)"
proof (cases "sk_sorted s")
  case True
  then show ?thesis using wf c by (simp add: sk_sort_def sk_wf_def)
next
  case False
  let ?xs = "qs c (take (sk_nm s) (sk_data s))"
  have m: "mset ?xs = mset (take (sk_nm s) (sk_data s))" "sorted_wrt (\<lambda>x y. c x y \<le> 0) ?xs"
    using q c(2) by (auto simp: qsort_ok_def)
  have len: "length ?xs = sk_nm s"
    using mset_eq_length [OF m(1)] wf by (simp add: sk_wf_def)
  show ?thesis using wf m len False c by (simp add: sk_sort_def sk_wf_def sk_elems_def)
qed

text \<open>
  C32: on a stack with a comparison function \<open>sk_find\<close> returns the index of the first
  element equal to its argument, in the order it sorts the stack into, and reports absence
  exactly when no element is equal; sorting permutes the elements and is cps once.  The
  only assumption on \<open>qsort\<close> and \<open>bsearch\<close> is their description in the C standard.
\<close>

theorem sk_find_first:
  assumes wf: "sk_wf s" and c: "sk_comp s = Some c" "cmp_ok c"
    and lib: "qsort_ok qs" "bsearch_ok bs"
    and find: "sk_find qs bs (Some s) (Some p) = (r, sk')"
  shows "\<exists>s'. sk' = Some s' \<and> sk_wf s' \<and> mset (sk_elems s') = mset (sk_elems s) \<and>
    (case r of None \<Rightarrow> \<forall>x \<in> set (sk_elems s). c (Some p) x \<noteq> 0
     | Some i \<Rightarrow> i < sk_nm s \<and> c (Some p) (sk_elems s' ! i) = 0 \<and>
         (\<forall>j < i. c (Some p) (sk_elems s' ! j) \<noteq> 0))"
proof -
  let ?s = "sk_sort qs s"
  note S = sk_sort_spec [OF wf c lib(1)]
  have el: "take (sk_nm ?s) (sk_data ?s) = sk_elems ?s" by (simp add: sk_elems_def)
  have len: "length (sk_elems ?s) = sk_nm s" using S by (simp add: sk_elems_def sk_wf_def)
  have nth: "sk_data ?s ! j = sk_elems ?s ! j" if "j < sk_nm s" for j
    using that S by (simp add: sk_elems_def)
  have st: "set (sk_elems ?s) = set (sk_elems s)" using S by (metis set_mset_mset)
  note B = lib(2) [unfolded bsearch_ok_def, rule_format, OF c(2), of "sk_elems ?s" "Some p"]
  show ?thesis
  proof (cases "bs c (Some p) (sk_elems ?s)")
    case None
    then have "r = None" "sk' = Some ?s" using find c by (auto simp: sk_find_def Let_def el)
    then show ?thesis using S B None st by auto
  next
    case (Some i)
    let ?f = "first_equal c (Some p) (sk_data ?s) i"
    have r: "r = Some ?f" "sk' = Some ?s" using find c Some by (auto simp: sk_find_def Let_def el)
    have i: "i < sk_nm s" "c (Some p) (sk_elems ?s ! i) = 0" using B Some S len by auto
    note F = first_equal_spec [of c "Some p" "sk_data ?s" i]
    have le: "?f \<le> i" using F by blast
    have eq: "c (Some p) (sk_elems ?s ! ?f) = 0"
    proof (cases "?f = i")
      case False
      then have "?f < i" using le by simp
      then show ?thesis using F i(1) nth [of ?f] by auto
    qed (simp add: i(2))
    have "c (Some p) (sk_elems ?s ! j) \<noteq> 0" if j: "j < ?f" for j
    proof
      assume z: "c (Some p) (sk_elems ?s ! j) = 0"
      have f: "0 < ?f" "?f - 1 < i" using j le by auto
      then have ne: "c (Some p) (sk_elems ?s ! (?f - 1)) \<noteq> 0" using F nth i(1) by auto
      have mono: "c (sk_elems ?s ! a) (sk_elems ?s ! b) \<le> 0" if "a < b" "b < sk_nm s" for a b
        using S that len by (simp add: sorted_wrt_iff_nth_less)
      have "j \<noteq> ?f - 1" using z ne by blast
      then have "j < ?f - 1" using j by linarith
      then have 1: "c (Some p) (sk_elems ?s ! (?f - 1)) \<le> 0"
        using cmp_okD(1) [OF c(2) eq_refl [OF z] mono [of j "?f - 1"]] f(2) i(1) by simp
      have "c (sk_elems ?s ! (?f - 1)) (sk_elems ?s ! i) \<le> 0" using mono [of "?f - 1" i] f i by simp
      then have "c (sk_elems ?s ! (?f - 1)) (Some p) \<le> 0"
        using cmp_okD(1) [OF c(2) _ eq_refl [OF cmp_okD(2) [OF c(2) i(2)]]] by blast
      with 1 ne cmp_okD(3) [OF c(2)] show False by blast
    qed
    then show ?thesis using r S eq le i(1) by auto
  qed
qed

section \<open>Copies\<close>

lemma sk_dup_spec:
  assumes wf: "sk_wf s" and d: "sk_dup a b mem (Some s) = Some r"
  shows "sk_wf r \<and> sk_elems r = sk_elems s \<and> sk_nm r = sk_nm s \<and> sk_comp r = sk_comp s \<and>
    sk_sorted r = sk_sorted s"
proof -
  have "length (sk_data s) = sk_num_alloc s" "sk_nm s \<le> sk_num_alloc s" "kMinSize \<le> sk_num_alloc s"
    using wf by (simp_all add: sk_wf_def)
  then have "sk_elems r = sk_elems s \<and> sk_nm r = sk_nm s \<and> sk_comp r = sk_comp s \<and>
    sk_sorted r = sk_sorted s \<and> length (sk_data r) = sk_num_alloc r \<and> sk_num_alloc r = sk_num_alloc s"
    using d by (auto simp: sk_dup_def sk_new_def sk_elems_def split: option.splits if_splits)
  then show ?thesis using wf by (simp add: sk_wf_def split: option.splits)
qed

lemma deep_copy_loop_spec:
  "case deep_copy_loop cf cps xs of
     Inr ys \<Rightarrow> ys = cps @ map (\<lambda>y. Option.bind y cf) xs \<and>
       (\<forall>x. Some x \<in> set xs \<longrightarrow> cf x \<noteq> None)
   | Inl freed \<Rightarrow> (\<exists>us x vs. xs = us @ Some x # vs \<and> cf x = None \<and>
       freed = List.map_filter (\<lambda>y. y) (cps @ map (\<lambda>y. Option.bind y cf) us))"
proof (induction cf cps xs rule: deep_copy_loop.induct)
  case (2 cf cps rest)
  show ?case
  proof (cases "deep_copy_loop cf (cps @ [None]) rest")
    case (Inl freed)
    with 2 obtain us x vs where "rest = us @ Some x # vs" "cf x = None"
      "freed = List.map_filter (\<lambda>y. y) ((cps @ [None]) @ map (\<lambda>y. Option.bind y cf) us)"
      by auto
    then show ?thesis using Inl by (auto intro!: exI [of _ "None # us"])
  qed (use 2 in simp)
next
  case (3 cf cps x rest)
  show ?case
  proof (cases "cf x")
    case None
    then show ?thesis by (auto intro!: exI [of _ "[]"])
  next
    case (Some y)
    note IH = 3 [OF Some]
    show ?thesis
    proof (cases "deep_copy_loop cf (cps @ [Some y]) rest")
      case (Inl freed)
      with IH obtain us z vs where "rest = us @ Some z # vs" "cf z = None"
        "freed = List.map_filter (\<lambda>y. y) ((cps @ [Some y]) @ map (\<lambda>y. Option.bind y cf) us)"
        by auto
      then show ?thesis using Inl Some by (auto intro!: exI [of _ "Some x # us"])
    qed (use IH Some in auto)
  qed
qed simp

lemma sk_dup_none: "sk_dup a b mem (Some s) = None \<longleftrightarrow> \<not> a \<or> \<not> b \<or> mem = None"
  by (auto simp: sk_dup_def sk_new_def Let_def split: option.splits)

text \<open>
  C33: \<open>sk_deep_copy\<close> is all or nothing.  It returns a stack if and only if the
  allocations of \<open>sk_new\<close> and the reallocation in \<open>sk_dup\<close> all succeed and so does every copy: the
  elements of the stack are then the copies in order, null elements included.  When an allocation
  fails it returns null and nothing has been copied; when a copy fails it returns null and releases
  exactly the copies made before it.
\<close>

theorem sk_deep_copy_all_or_nothing:
  assumes "sk_wf s"
  shows "case sk_deep_copy ret_ok data_ok mem cf (Some s) of
    (Some r, freed) \<Rightarrow> ret_ok \<and> data_ok \<and> mem \<noteq> None \<and> (\<forall>x. Some x \<in> set (sk_elems s) \<longrightarrow> cf x \<noteq> None) \<and>
      freed = [] \<and> sk_nm r = sk_nm s \<and> sk_comp r = sk_comp s \<and> sk_sorted r = sk_sorted s \<and>
      sk_elems r = map (\<lambda>y. Option.bind y cf) (sk_elems s)
  | (None, freed) \<Rightarrow>
      if ret_ok \<and> data_ok \<and> mem \<noteq> None
      then \<exists>xs x ys. sk_elems s = xs @ Some x # ys \<and> cf x = None \<and>
        freed = List.map_filter (\<lambda>y. y) (map (\<lambda>y. Option.bind y cf) xs)
      else freed = []"
proof (cases "sk_dup ret_ok data_ok mem (Some s)")
  case None
  then show ?thesis using sk_dup_none [of ret_ok data_ok mem s] by (auto simp: sk_deep_copy_def)
next
  case (Some r)
  then have a: "ret_ok \<and> data_ok \<and> mem \<noteq> None" using sk_dup_none [of ret_ok data_ok mem s] by auto
  note D = sk_dup_spec [OF assms Some]
  have el: "take (sk_nm r) (sk_data r) = sk_elems s"
    using conjunct1 [OF conjunct2 [OF D]] by (simp only: sk_elems_def)
  have len: "length (sk_elems s) = sk_nm r" using assms D by (simp add: sk_elems_def sk_wf_def)
  have upd: "sk_elems (r\<lparr>sk_data := d @ drop (sk_nm r) (sk_data r)\<rparr>) = d" if "length d = sk_nm r" for d
    using that by (simp add: sk_elems_def)
  have dc: "sk_deep_copy ret_ok data_ok mem cf (Some s) =
    (case deep_copy_loop cf [] (sk_elems s) of Inl freed \<Rightarrow> (None, freed)
     | Inr d \<Rightarrow> (Some (r\<lparr>sk_data := d @ drop (sk_nm r) (sk_data r)\<rparr>), []))"
    by (simp add: sk_deep_copy_def Some el)
  note L = deep_copy_loop_spec [where cf = cf and cps = "[]" and xs = "sk_elems s"]
  show ?thesis
  proof (cases "deep_copy_loop cf [] (sk_elems s)")
    case (Inl freed)
    show ?thesis unfolding dc using Inl L a by auto
  next
    case (Inr d)
    then have "length d = sk_nm r" using L len by simp
    then show ?thesis unfolding dc using Inr L upd [of d] D a by simp
  qed
qed

section \<open>A sorting and a searching function that meet the C standard's description\<close>

fun insort :: "'a sk_cmp \<Rightarrow> 'a option \<Rightarrow> 'a option list \<Rightarrow> 'a option list" where
  "insort c x [] = [x]"
| "insort c x (y # ys) = (if c x y \<le> 0 then x # y # ys else y # insort c x ys)"

definition isort :: "'a sk_cmp \<Rightarrow> 'a option list \<Rightarrow> 'a option list" where
  "isort c xs = foldr (insort c) xs []"

fun lsearch :: "'a sk_cmp \<Rightarrow> 'a option \<Rightarrow> 'a option list \<Rightarrow> nat option" where
  "lsearch c p [] = None"
| "lsearch c p (x # xs) = (if c p x = 0 then Some 0 else map_option Suc (lsearch c p xs))"

lemma mset_insort [simp]: "mset (insort c x xs) = add_mset x (mset xs)"
  by (induction xs) auto

lemma set_insort [simp]: "set (insort c x xs) = insert x (set xs)"
  using mset_insort [of c x xs] by (metis set_mset_add_mset_insert set_mset_mset)

lemma sorted_insort:
  assumes "cmp_ok c"
  shows "sorted_wrt (\<lambda>x y. c x y \<le> 0) xs \<Longrightarrow> sorted_wrt (\<lambda>x y. c x y \<le> 0) (insort c x xs)"
proof (induction xs)
  case (Cons y ys)
  show ?case
  proof (cases "c x y \<le> 0")
    case True
    with Cons.prems cmp_okD(1) [OF assms True] show ?thesis by auto
  next
    case False
    then have "c y x \<le> 0" using cmp_okD(4) [OF assms, of x y] by simp
    with False Cons show ?thesis by auto
  qed
qed simp

lemma qsort_ok_isort: "qsort_ok isort"
proof -
  have "mset (isort c xs) = mset xs \<and> (cmp_ok c \<longrightarrow> sorted_wrt (\<lambda>x y. c x y \<le> 0) (isort c xs))"
    for c :: "'a sk_cmp" and xs
    by (induction xs) (auto simp: isort_def sorted_insort)
  then show ?thesis by (simp add: qsort_ok_def)
qed

lemma bsearch_ok_lsearch: "bsearch_ok lsearch"
proof -
  have "case lsearch c p xs of None \<Rightarrow> \<forall>x \<in> set xs. c p x \<noteq> 0
      | Some i \<Rightarrow> i < length xs \<and> c p (xs ! i) = 0" for c :: "'a sk_cmp" and p xs
    by (induction xs) (auto split: option.splits)
  then show ?thesis by (simp add: bsearch_ok_def)
qed

definition nat_cmp :: "nat sk_cmp" where
  "nat_cmp x y = (case (x, y) of (Some a, Some b) \<Rightarrow> int a - int b
     | (None, None) \<Rightarrow> 0 | (None, Some _) \<Rightarrow> - 1 | (Some _, None) \<Rightarrow> 1)"

lemma cmp_ok_nat_cmp: "cmp_ok nat_cmp"
  by (auto simp: cmp_ok_def nat_cmp_def split: option.splits)

definition stack3 :: "nat stack" where
  "stack3 = \<lparr>sk_nm = 3, sk_data = [Some 5, Some 2, Some 5, None], sk_sorted = False,
     sk_num_alloc = 4, sk_comp = Some nat_cmp\<rparr>"

lemma stack3_wf: "sk_wf stack3"
  by (simp add: sk_wf_def stack3_def kMinSize_def sizeof_voidp_def)

lemma sk_insert_correct_witness:
  "\<exists>s'. snd (sk_insert (Some (\<lambda>_. None)) (Some stack3) (Some 9) 1) = Some s' \<and>
     sk_elems s' = [Some 5, Some 9, Some 2, Some 5]"
proof -
  have "fst (sk_insert (Some (\<lambda>_. None)) (Some stack3) (Some 9) 1) = 4"
    by (simp add: sk_insert_def sk_reserve_def sk_new_alloc_def stack3_def Let_def sizeof_voidp_def)
  then show ?thesis
    using sk_insert_correct [OF stack3_wf, of "Some (\<lambda>_. None)" "Some 9" 1]
    by (cases "sk_insert (Some (\<lambda>_. None)) (Some stack3) (Some 9) 1")
      (auto simp: stack3_def sk_elems_def)
qed

lemma sk_delete_correct_witness:
  "\<exists>s'. sk_delete (Some stack3) 1 = (Some 2, Some s') \<and> sk_elems s' = [Some 5, Some 5]"
  using sk_delete_correct [OF stack3_wf, of 1]
  by (cases "sk_delete (Some stack3) 1") (auto simp: stack3_def sk_elems_def)

lemma sk_find_first_witness:
  "\<exists>s'. sk_find isort lsearch (Some stack3) (Some 5) = (Some 1, Some s') \<and>
     sk_elems s' = [Some 2, Some 5, Some 5] \<and> sk_wf s'"
proof -
  have f: "sk_find isort lsearch (Some stack3) (Some 5) =
    (Some 1, Some (stack3\<lparr>sk_data := [Some 2, Some 5, Some 5, None], sk_sorted := True\<rparr>))"
    by (simp add: sk_find_def stack3_def sk_sort_def isort_def nat_cmp_def)
  have "\<exists>s'. Some (stack3\<lparr>sk_data := [Some 2, Some 5, Some 5, None], sk_sorted := True\<rparr>) = Some s' \<and>
      sk_wf s'"
    using sk_find_first [OF stack3_wf _ cmp_ok_nat_cmp qsort_ok_isort bsearch_ok_lsearch f]
    by (auto simp: stack3_def)
  then show ?thesis unfolding f by (simp add: sk_elems_def stack3_def)
qed

lemma sk_deep_copy_all_or_nothing_witness:
  "snd (sk_deep_copy True True (Some (\<lambda>_. None)) (\<lambda>x. if x = 2 then None else Some (x + 1)) (Some stack3)) = [6] \<and>
   sk_deep_copy True True None (\<lambda>x. Some (x + 1)) (Some stack3) = (None, [])"
proof
  let ?cf = "\<lambda>x. if x = 2 then None else Some (x + 1 :: nat)"
  have "fst (sk_deep_copy True True (Some (\<lambda>_. None)) ?cf (Some stack3)) = None"
    by (simp add: sk_deep_copy_def sk_dup_def sk_new_def stack3_def kMinSize_def)
  then obtain xs x ys where "sk_elems stack3 = xs @ Some x # ys" "?cf x = None"
    "snd (sk_deep_copy True True (Some (\<lambda>_. None)) ?cf (Some stack3)) =
      List.map_filter (\<lambda>y. y) (map (\<lambda>y. Option.bind y ?cf) xs)"
    using sk_deep_copy_all_or_nothing [OF stack3_wf, of True True "Some (\<lambda>_. None)" ?cf]
    by (cases "sk_deep_copy True True (Some (\<lambda>_. None)) ?cf (Some stack3)") auto
  then show "snd (sk_deep_copy True True (Some (\<lambda>_. None)) ?cf (Some stack3)) = [6]"
    by (auto simp: stack3_def sk_elems_def Cons_eq_append_conv map_filter_simps split: if_splits)
  show "sk_deep_copy True True None (\<lambda>x. Some (x + 1)) (Some stack3) = (None, [])"
    using sk_deep_copy_all_or_nothing [OF stack3_wf, of True True None "\<lambda>x. Some (x + 1)"]
    by (cases "sk_deep_copy True True None (\<lambda>x. Some (x + 1)) (Some stack3)") (auto split: option.splits)
qed

text \<open>
  \<open>sk_set\<close> leaves \<open>sorted\<close> set although it may destroy the order, so that a later
  \<open>sk_find\<close> searches an unsorted array: here the element 1 is in the stack, and a binary
  search that looks at the middle element first does not find it.
\<close>

definition stack_sorted :: "nat stack" where
  "stack_sorted = \<lparr>sk_nm = 3, sk_data = [Some 2, Some 5, Some 7, None], sk_sorted = True,
     sk_num_alloc = 4, sk_comp = Some nat_cmp\<rparr>"

lemma sk_set_keeps_sorted_flag:
  "sk_wf stack_sorted"
  "\<exists>s'. sk_set (Some stack_sorted) 2 (Some 1) = (Some 1, Some s') \<and> sk_sorted s' \<and> \<not> sk_wf s'"
  by (simp_all add: sk_wf_def stack_sorted_def kMinSize_def sizeof_voidp_def sk_elems_def
      nat_cmp_def sk_set_def)

end
