(* ===== verification/Lhash.thy ===== *)
theory Lhash
  imports Mem "HOL-Library.Multiset"
begin

text \<open>
  The chained hash table of BoringSSL (\<open>crypto/lhash/lhash.c\<close>).  A chain is the list of its
  \<open>LHASH_ITEM\<close>s with their addresses, so that a pointer to an item held across a callback
  can dangle.  The outcome of each \<open>malloc\<close> is an argument of the operation that calls it:
  an optional address for an item, a flag for a bucket array.
\<close>

section \<open>State and operations\<close>

record 'a lh_item =
  item_addr :: nat
  item_data :: 'a
  item_hash :: u32

record 'a lhash =
  num_items :: size_t
  buckets :: "'a lh_item list list"
  num_buckets :: size_t
  callback_depth :: nat
  lh_comp :: "'a \<Rightarrow> 'a \<Rightarrow> int"
  lh_hash :: "'a \<Rightarrow> u32"

definition kMinNumBuckets :: nat where
  "kMinNumBuckets = 16"

definition kMaxAverageChainLength :: nat where
  "kMaxAverageChainLength = 2"

definition kMinAverageChainLength :: nat where
  "kMinAverageChainLength = 1"

definition UINT_MAX :: nat where
  "UINT_MAX = 4294967295"

text \<open>\<open>sizeof(LHASH_ITEM *)\<close> on a 64-bit target.\<close>

definition sizeof_ptr :: nat where
  "sizeof_ptr = 8"

definition lh_new :: "bool \<Rightarrow> bool \<Rightarrow> ('a \<Rightarrow> u32) \<Rightarrow> ('a \<Rightarrow> 'a \<Rightarrow> int) \<Rightarrow> 'a lhash option" where
  "lh_new ret_ok buckets_ok hsh cmp =
    (if \<not> ret_ok then None
     else if \<not> buckets_ok then None
     else Some \<lparr>num_items = 0, buckets = replicate kMinNumBuckets [],
       num_buckets = kMinNumBuckets, callback_depth = 0, lh_comp = cmp, lh_hash = hsh\<rparr>)"

definition lh_num_items :: "'a lhash \<Rightarrow> size_t" where
  "lh_num_items lh = num_items lh"

text \<open>
  A pointer to a pointer is the index of a bucket with a position in its chain; the
  position one past the end of the chain is the null pointer that ends it.
\<close>

fun chain_search :: "('a \<Rightarrow> 'a \<Rightarrow> int) \<Rightarrow> 'a \<Rightarrow> 'a lh_item list \<Rightarrow> nat" where
  "chain_search cmp d [] = 0"
| "chain_search cmp d (cur # chain) =
    (if cmp (item_data cur) d = 0 then 0 else Suc (chain_search cmp d chain))"

definition get_next_ptr_and_hash :: "'a lhash \<Rightarrow> 'a \<Rightarrow> u32 \<times> nat \<times> nat" where
  "get_next_ptr_and_hash lh d =
    (let h = lh_hash lh d; b = unat h mod num_buckets lh in
     (h, b, chain_search (lh_comp lh) d (buckets lh ! b)))"

definition lh_retrieve :: "'a lhash \<Rightarrow> 'a \<Rightarrow> 'a option" where
  "lh_retrieve lh d =
    (case get_next_ptr_and_hash lh d of (_, b, p) \<Rightarrow>
       if length (buckets lh ! b) \<le> p then None
       else Some (item_data (buckets lh ! b ! p)))"

definition rebucket_item :: "nat \<Rightarrow> 'a lh_item \<Rightarrow> 'a lh_item list list \<Rightarrow> 'a lh_item list list" where
  "rebucket_item n cur nb =
    (let b = unat (item_hash cur) mod n in nb[b := cur # nb ! b])"

definition lh_rebucket :: "bool \<Rightarrow> size_t \<Rightarrow> 'a lhash \<Rightarrow> 'a lhash" where
  "lh_rebucket alloc_ok new_num_buckets lh =
    (let alloc_size = size_mul sizeof_ptr new_num_buckets in
     if alloc_size div sizeof_ptr \<noteq> new_num_buckets then lh
     else if \<not> alloc_ok then lh
     else
       let new_buckets = fold (\<lambda>i. fold (rebucket_item new_num_buckets) (buckets lh ! i))
             [0..<num_buckets lh] (replicate new_num_buckets [])
       in lh\<lparr>num_buckets := new_num_buckets, buckets := new_buckets\<rparr>)"

definition lh_maybe_resize :: "bool \<Rightarrow> 'a lhash \<Rightarrow> 'a lhash" where
  "lh_maybe_resize alloc_ok lh =
    (if 0 < callback_depth lh then lh
     else
       let avg_chain_length = num_items lh div num_buckets lh in
       if kMaxAverageChainLength < avg_chain_length then
         let new_num_buckets = size_mul (num_buckets lh) 2 in
         if num_buckets lh < new_num_buckets then lh_rebucket alloc_ok new_num_buckets lh else lh
       else if avg_chain_length < kMinAverageChainLength \<and> kMinNumBuckets < num_buckets lh then
         let new_num_buckets = num_buckets lh div 2;
             new_num_buckets = (if new_num_buckets < kMinNumBuckets then kMinNumBuckets
                                else new_num_buckets)
         in lh_rebucket alloc_ok new_num_buckets lh
       else lh)"

text \<open>\<open>Some old\<close> is the return value 1 with \<open>*old_data = old\<close>; \<open>None\<close> is the return value 0.\<close>

definition lh_insert ::
  "nat option \<Rightarrow> bool \<Rightarrow> 'a \<Rightarrow> 'a lhash \<Rightarrow> 'a option option \<times> 'a lhash" where
  "lh_insert item_alloc alloc_ok d lh =
    (case get_next_ptr_and_hash lh d of (h, b, p) \<Rightarrow>
       let chain = buckets lh ! b in
       if p < length chain then
         (Some (Some (item_data (chain ! p))),
          lh\<lparr>buckets := (buckets lh)[b := chain[p := (chain ! p)\<lparr>item_data := d\<rparr>]]\<rparr>)
       else
         (case item_alloc of
            None \<Rightarrow> (None, lh)
          | Some a \<Rightarrow>
              let item = \<lparr>item_addr = a, item_data = d, item_hash = h\<rparr> in
              (Some None,
               lh_maybe_resize alloc_ok
                 (lh\<lparr>buckets := (buckets lh)[b := chain @ [item]],
                     num_items := size_add (num_items lh) 1\<rparr>))))"

definition lh_delete :: "bool \<Rightarrow> 'a \<Rightarrow> 'a lhash \<Rightarrow> 'a option \<times> 'a lhash" where
  "lh_delete alloc_ok d lh =
    (case get_next_ptr_and_hash lh d of (_, b, p) \<Rightarrow>
       let chain = buckets lh ! b in
       if length chain \<le> p then (None, lh)
       else
         (Some (item_data (chain ! p)),
          lh_maybe_resize alloc_ok
            (lh\<lparr>buckets := (buckets lh)[b := take p chain @ drop (Suc p) chain],
                num_items := size_sub (num_items lh) 1\<rparr>)))"

text \<open>
  The walk over the table.  The callback may change the table; \<open>next\<close> is read before the
  callback runs, as an address, and looked up again afterwards.  \<open>None\<close> is a dereference of
  an item that is gone, or lack of fuel.
\<close>

type_synonym ('a, 's) lh_callback = "'a \<Rightarrow> 'a lhash \<Rightarrow> 's \<Rightarrow> 'a lhash \<times> 's"

definition chain_head :: "'a lh_item list \<Rightarrow> nat option" where
  "chain_head chain = (case chain of [] \<Rightarrow> None | x # _ \<Rightarrow> Some (item_addr x))"

definition chain_at :: "nat \<Rightarrow> 'a lh_item list \<Rightarrow> 'a lh_item list" where
  "chain_at a chain = dropWhile (\<lambda>x. item_addr x \<noteq> a) chain"

fun doall_chain ::
  "nat \<Rightarrow> ('a, 's) lh_callback \<Rightarrow> nat \<Rightarrow> nat option \<Rightarrow> 'a lhash \<Rightarrow> 's \<Rightarrow> ('a lhash \<times> 's) option" where
  "doall_chain 0 func b cur lh s = None"
| "doall_chain (Suc fuel) func b None lh s = Some (lh, s)"
| "doall_chain (Suc fuel) func b (Some a) lh s =
    (case chain_at a (buckets lh ! b) of
       [] \<Rightarrow> None
     | cur # rest \<Rightarrow>
         let nxt = chain_head rest in
         (case func (item_data cur) lh s of (lh', s') \<Rightarrow> doall_chain fuel func b nxt lh' s'))"

fun doall_buckets ::
  "nat \<Rightarrow> nat \<Rightarrow> ('a, 's) lh_callback \<Rightarrow> nat \<Rightarrow> 'a lhash \<Rightarrow> 's \<Rightarrow> ('a lhash \<times> 's) option" where
  "doall_buckets chain_fuel 0 func i lh s = None"
| "doall_buckets chain_fuel (Suc fuel) func i lh s =
    (if num_buckets lh \<le> i then Some (lh, s)
     else (case doall_chain chain_fuel func i (chain_head (buckets lh ! i)) lh s of
         None \<Rightarrow> None
       | Some (lh', s') \<Rightarrow> doall_buckets chain_fuel fuel func (Suc i) lh' s'))"

definition lh_doall_internal ::
  "nat \<Rightarrow> bool \<Rightarrow> ('a, 's) lh_callback \<Rightarrow> 'a lhash \<Rightarrow> 's \<Rightarrow> ('a lhash \<times> 's) option" where
  "lh_doall_internal fuel alloc_ok func lh s =
    (let lh1 = (if callback_depth lh < UINT_MAX
                then lh\<lparr>callback_depth := Suc (callback_depth lh)\<rparr> else lh) in
     (case doall_buckets fuel fuel func 0 lh1 s of
        None \<Rightarrow> None
      | Some (lh2, s') \<Rightarrow>
          let lh3 = (if callback_depth lh2 < UINT_MAX
                     then lh2\<lparr>callback_depth := callback_depth lh2 - 1\<rparr> else lh2) in
          Some (lh_maybe_resize alloc_ok lh3, s')))"

definition lh_strhash :: "u8 list option \<Rightarrow> u32" where
  "lh_strhash c = (case c of
     None \<Rightarrow> 0
   | Some s \<Rightarrow> (case c_strlen s of None \<Rightarrow> 0 | Some n \<Rightarrow> OPENSSL_hash32 s n))"


section \<open>Well-formed tables\<close>

definition lh_items :: "'a lhash \<Rightarrow> 'a lh_item multiset" where
  "lh_items lh = mset (concat (buckets lh))"

text \<open>What the table asks of the two functions it is given.\<close>

definition key_ok :: "('a \<Rightarrow> u32) \<Rightarrow> ('a \<Rightarrow> 'a \<Rightarrow> int) \<Rightarrow> bool" where
  "key_ok hsh cmp \<longleftrightarrow> (\<forall>x. cmp x x = 0) \<and> (\<forall>x y. cmp x y = 0 \<longrightarrow> cmp y x = 0) \<and>
     (\<forall>x y z. cmp x y = 0 \<longrightarrow> cmp y z = 0 \<longrightarrow> cmp x z = 0) \<and>
     (\<forall>x y. cmp x y = 0 \<longrightarrow> hsh x = hsh y)"

definition apart :: "('a \<Rightarrow> 'a \<Rightarrow> int) \<Rightarrow> 'a lh_item \<Rightarrow> 'a lh_item \<Rightarrow> bool" where
  "apart cmp x y \<longleftrightarrow> cmp (item_data x) (item_data y) \<noteq> 0 \<and> item_addr x \<noteq> item_addr y"

definition all_apart :: "('a \<Rightarrow> 'a \<Rightarrow> int) \<Rightarrow> 'a lh_item multiset \<Rightarrow> bool" where
  "all_apart cmp M \<longleftrightarrow> (\<forall>x \<in># M. \<forall>y \<in># M - {#x#}. apart cmp x y)"

definition buckets_wf :: "nat \<Rightarrow> 'a lh_item list list \<Rightarrow> bool" where
  "buckets_wf n bs \<longleftrightarrow> length bs = n \<and>
     (\<forall>i < n. \<forall>x \<in> set (bs ! i). unat (item_hash x) mod n = i)"

definition lh_wf :: "'a lhash \<Rightarrow> bool" where
  "lh_wf lh \<longleftrightarrow> key_ok (lh_hash lh) (lh_comp lh) \<and>
     kMinNumBuckets \<le> num_buckets lh \<and>
     buckets_wf (num_buckets lh) (buckets lh) \<and>
     num_items lh = size (lh_items lh) \<and> num_items lh < size_mod \<and>
     (\<forall>x \<in># lh_items lh. item_hash x = lh_hash lh (item_data x)) \<and>
     all_apart (lh_comp lh) (lh_items lh)"

lemma all_apart_add:
  "(\<And>x y. cmp x y = 0 \<Longrightarrow> cmp y x = 0) \<Longrightarrow>
   all_apart cmp (add_mset z M) \<longleftrightarrow> all_apart cmp M \<and> (\<forall>x \<in># M. apart cmp x z)"
proof -
  assume sym: "\<And>x y. cmp x y = 0 \<Longrightarrow> cmp y x = 0"
  then have a: "apart cmp x y \<longleftrightarrow> apart cmp y x" for x y by (auto simp: apart_def)
  show ?thesis
  proof
    assume *: "all_apart cmp (add_mset z M)"
    have "apart cmp x y" if "x \<in># M" "y \<in># M - {#x#}" for x y
    proof -
      have "add_mset z M - {#x#} = add_mset z (M - {#x#})" using that(1) by (cases "x = z") auto
      with * that show ?thesis by (simp add: all_apart_def)
    qed
    moreover have "apart cmp x z" if "x \<in># M" for x
      using * that a unfolding all_apart_def by simp
    ultimately show "all_apart cmp M \<and> (\<forall>x \<in># M. apart cmp x z)"
      by (simp add: all_apart_def)
  next
    assume *: "all_apart cmp M \<and> (\<forall>x \<in># M. apart cmp x z)"
    show "all_apart cmp (add_mset z M)"
      unfolding all_apart_def
    proof (intro ballI)
      fix x y assume x: "x \<in># add_mset z M" and y: "y \<in># add_mset z M - {#x#}"
      show "apart cmp x y"
      proof (cases "x = z")
        case True
        then show ?thesis using y * a by auto
      next
        case False
        then have "x \<in># M" using x by simp
        then have "add_mset z M - {#x#} = add_mset z (M - {#x#})" by simp
        with y \<open>x \<in># M\<close> * show ?thesis by (auto simp: all_apart_def)
      qed
    qed
  qed
qed

lemma all_apart_empty [simp]: "all_apart cmp {#}"
  by (simp add: all_apart_def)

lemma mset_concat_update:
  "i < length bs \<Longrightarrow> mset (concat (bs[i := c])) + mset (bs ! i) = mset (concat bs) + mset c"
proof (induction bs arbitrary: i)
  case (Cons b bs)
  then show ?case
  proof (cases i)
    case (Suc j)
    with Cons.IH [of j] Cons.prems show ?thesis by (simp add: ac_simps)
  qed (simp add: ac_simps)
qed simp

lemma key_okD:
  assumes "key_ok hsh cmp"
  shows "cmp x x = 0" "cmp x y = 0 \<Longrightarrow> cmp y x = 0"
    "cmp x y = 0 \<Longrightarrow> cmp y z = 0 \<Longrightarrow> cmp x z = 0" "cmp x y = 0 \<Longrightarrow> hsh x = hsh y"
  using assms unfolding key_ok_def by blast+

lemma chain_search_le: "chain_search cmp d chain \<le> length chain"
  by (induction chain) auto

lemma chain_search_found:
  "chain_search cmp d chain < length chain \<Longrightarrow>
   cmp (item_data (chain ! chain_search cmp d chain)) d = 0"
  by (induction chain) auto

lemma chain_search_missing:
  "length chain \<le> chain_search cmp d chain \<Longrightarrow> x \<in> set chain \<Longrightarrow> cmp (item_data x) d \<noteq> 0"
  by (induction chain) (auto split: if_splits)

lemma in_buckets_nth:
  assumes "buckets_wf n bs" "0 < n" "x \<in> set (concat bs)"
  shows "x \<in> set (bs ! (unat (item_hash x) mod n))" "unat (item_hash x) mod n < length bs"
  using assms by (auto simp: buckets_wf_def in_set_conv_nth [where xs = bs])

text \<open>The two outcomes of a search.\<close>

lemma lookup_cases:
  assumes wf: "lh_wf lh"
  obtains (found) h b p it where "get_next_ptr_and_hash lh d = (h, b, p)"
      "p < length (buckets lh ! b)" "it = buckets lh ! b ! p" "b < length (buckets lh)"
      "it \<in># lh_items lh" "lh_comp lh (item_data it) d = 0" "h = lh_hash lh d" "item_hash it = h"
      "b = unat h mod num_buckets lh"
  | (missing) h b where "get_next_ptr_and_hash lh d = (h, b, length (buckets lh ! b))"
      "b < length (buckets lh)" "h = lh_hash lh d" "b = unat h mod num_buckets lh"
      "\<And>it. it \<in># lh_items lh \<Longrightarrow> lh_comp lh (item_data it) d \<noteq> 0"
proof -
  let ?h = "lh_hash lh d"
  let ?b = "unat ?h mod num_buckets lh"
  let ?p = "chain_search (lh_comp lh) d (buckets lh ! ?b)"
  have k: "key_ok (lh_hash lh) (lh_comp lh)" and n: "0 < num_buckets lh"
    and bs: "buckets_wf (num_buckets lh) (buckets lh)"
    and h: "\<And>x. x \<in># lh_items lh \<Longrightarrow> item_hash x = lh_hash lh (item_data x)"
    using wf by (auto simp: lh_wf_def kMinNumBuckets_def)
  have b: "?b < length (buckets lh)" using bs n by (simp add: buckets_wf_def)
  have g: "get_next_ptr_and_hash lh d = (?h, ?b, ?p)"
    by (simp add: get_next_ptr_and_hash_def Let_def)
  show thesis
  proof (cases "?p < length (buckets lh ! ?b)")
    case True
    let ?it = "buckets lh ! ?b ! ?p"
    have c: "lh_comp lh (item_data ?it) d = 0" using chain_search_found [OF True] .
    have m: "?it \<in># lh_items lh"
      using nth_mem [OF True] nth_mem [OF b] by (auto simp: lh_items_def simp del: nth_mem)
    show thesis using found [OF g True refl b m c refl] h [OF m] key_okD(4) [OF k c] by simp
  next
    case False
    then have len: "?p = length (buckets lh ! ?b)"
      using chain_search_le [of "lh_comp lh" d "buckets lh ! ?b"] by simp
    have "lh_comp lh (item_data it) d \<noteq> 0" if it: "it \<in># lh_items lh" for it
    proof
      assume c: "lh_comp lh (item_data it) d = 0"
      have "it \<in> set (buckets lh ! ?b)"
        using in_buckets_nth [OF bs n, of it] it h [OF it] key_okD(4) [OF k c]
        by (simp add: lh_items_def)
      from chain_search_missing [OF _ this] False c show False by (simp add: not_less)
    qed
    then show thesis using missing [OF _ b refl refl] g len by simp
  qed
qed

lemma all_apart_unique:
  assumes "all_apart cmp M" "x \<in># M" "y \<in># M" "\<not> apart cmp x y"
  shows "x = y"
  using assms unfolding all_apart_def by (metis insert_DiffM insert_noteq_member)

lemma lh_retrieve_iff:
  assumes wf: "lh_wf lh"
  shows "lh_retrieve lh d = Some v \<longleftrightarrow>
    (\<exists>it \<in># lh_items lh. lh_comp lh (item_data it) d = 0 \<and> item_data it = v)"
  using wf
proof (cases rule: lookup_cases [where d = d])
  case (found h b p it)
  have k: "key_ok (lh_hash lh) (lh_comp lh)" and ap: "all_apart (lh_comp lh) (lh_items lh)"
    using wf by (auto simp: lh_wf_def)
  have "it' = it" if "it' \<in># lh_items lh" "lh_comp lh (item_data it') d = 0" for it'
    using all_apart_unique [OF ap that(1) found(5)] key_okD(3) [OF k that(2) key_okD(2) [OF k found(6)]]
    by (simp add: apart_def)
  then show ?thesis using found by (auto simp: lh_retrieve_def)
next
  case (missing h b)
  then show ?thesis by (auto simp: lh_retrieve_def)
qed

lemma lh_retrieve_None:
  assumes wf: "lh_wf lh"
  shows "lh_retrieve lh d = None \<longleftrightarrow> (\<forall>it \<in># lh_items lh. lh_comp lh (item_data it) d \<noteq> 0)"
  using lh_retrieve_iff [OF wf, of d] by (metis not_None_eq)

lemma lh_retrieve_ext:
  assumes wf: "lh_wf lh" and eq: "lh_comp lh d k = 0"
  shows "lh_retrieve lh d = lh_retrieve lh k"
proof -
  have key: "key_ok (lh_hash lh) (lh_comp lh)" using wf by (simp add: lh_wf_def)
  have "lh_comp lh x d = 0 \<longleftrightarrow> lh_comp lh x k = 0" for x
    using key_okD(2,3) [OF key] eq by metis
  then have "lh_retrieve lh d = Some v \<longleftrightarrow> lh_retrieve lh k = Some v" for v
    using lh_retrieve_iff [OF wf] by simp
  then show ?thesis by (metis not_None_eq)
qed

text \<open>A lookup sees only the collection of items: tables with the same items agree.\<close>

lemma lh_retrieve_cong:
  assumes "lh_wf lh" "lh_wf lh'" "lh_items lh' = lh_items lh" "lh_comp lh' = lh_comp lh"
  shows "lh_retrieve lh' d = lh_retrieve lh d"
  using lh_retrieve_iff [OF assms(1), of d] lh_retrieve_iff [OF assms(2), of d] assms(3,4)
  by (metis not_None_eq)


section \<open>Resizing keeps the items\<close>

lemma rebucket_item_wf:
  assumes "buckets_wf n nb" "0 < n"
  shows "buckets_wf n (rebucket_item n x nb) \<and>
    mset (concat (rebucket_item n x nb)) = add_mset x (mset (concat nb))"
proof -
  let ?b = "unat (item_hash x) mod n"
  have b: "?b < length nb" using assms by (simp add: buckets_wf_def)
  have "buckets_wf n (rebucket_item n x nb)"
    using assms by (auto simp: buckets_wf_def rebucket_item_def Let_def nth_list_update)
  moreover have "mset (concat (rebucket_item n x nb)) = add_mset x (mset (concat nb))"
    using mset_concat_update [OF b, of "x # nb ! ?b"] by (simp add: rebucket_item_def Let_def)
  ultimately show ?thesis ..
qed

lemma rebucket_chain_wf:
  assumes "buckets_wf n nb" "0 < n"
  shows "buckets_wf n (fold (rebucket_item n) chain nb) \<and>
    mset (concat (fold (rebucket_item n) chain nb)) = mset (concat nb) + mset chain"
  using assms
proof (induction chain arbitrary: nb)
  case (Cons x chain)
  show ?case
    using Cons.IH [of "rebucket_item n x nb"] rebucket_item_wf [OF Cons.prems, of x] Cons.prems
    by simp
qed simp

lemma rebucket_all_wf:
  assumes "0 < n" "buckets_wf n nb" "k \<le> length bs"
  shows "buckets_wf n (fold (\<lambda>i. fold (rebucket_item n) (bs ! i)) [0..<k] nb) \<and>
    mset (concat (fold (\<lambda>i. fold (rebucket_item n) (bs ! i)) [0..<k] nb)) =
      mset (concat nb) + mset (concat (take k bs))"
  using assms(3)
proof (induction k)
  case (Suc k)
  then show ?case
    using rebucket_chain_wf [OF _ assms(1), of _ "bs ! k"]
    by (simp add: take_Suc_conv_app_nth)
qed (use assms in simp)

lemma buckets_wf_empty: "0 < n \<Longrightarrow> buckets_wf n (replicate n [])"
  by (simp add: buckets_wf_def)

lemma lh_rebucket_shape:
  assumes bw: "buckets_wf (num_buckets lh) (buckets lh)" and n: "0 < n"
  obtains nb where
    "lh_rebucket ok n lh = (if ok \<and> sizeof_ptr * n < size_mod
       then lh\<lparr>num_buckets := n, buckets := nb\<rparr> else lh)"
    "buckets_wf n nb" "mset (concat nb) = mset (concat (buckets lh))"
proof -
  let ?nb = "fold (\<lambda>i. fold (rebucket_item n) (buckets lh ! i)) [0..<num_buckets lh] (replicate n [])"
  have "mset (concat (replicate n [])) = {#}" by (simp add: mset_concat sum_list_replicate)
  then have nb: "buckets_wf n ?nb" "mset (concat ?nb) = mset (concat (buckets lh))"
    using rebucket_all_wf [OF n buckets_wf_empty [OF n], of "num_buckets lh" "buckets lh"] bw
    by (simp_all add: buckets_wf_def)
  have ovf: "size_mul sizeof_ptr n div sizeof_ptr \<noteq> n \<longleftrightarrow> \<not> sizeof_ptr * n < size_mod"
  proof (cases "sizeof_ptr * n < size_mod")
    case False
    have "size_mul sizeof_ptr n < size_mod" by (simp add: size_mul_def)
    with False show ?thesis by (auto simp: sizeof_ptr_def)
  qed (simp add: sizeof_ptr_def)
  have "lh_rebucket ok n lh = (if ok \<and> sizeof_ptr * n < size_mod
       then lh\<lparr>num_buckets := n, buckets := ?nb\<rparr> else lh)"
    by (simp add: lh_rebucket_def ovf Let_def)
  then show thesis using that nb by blast
qed

lemma lh_rebucket_wf:
  assumes wf: "lh_wf lh" and n: "kMinNumBuckets \<le> n"
  shows "lh_wf (lh_rebucket ok n lh) \<and> lh_items (lh_rebucket ok n lh) = lh_items lh \<and>
    lh_comp (lh_rebucket ok n lh) = lh_comp lh \<and> lh_hash (lh_rebucket ok n lh) = lh_hash lh \<and>
    callback_depth (lh_rebucket ok n lh) = callback_depth lh"
proof -
  have bw: "buckets_wf (num_buckets lh) (buckets lh)" and n0: "0 < n"
    using wf n by (auto simp: lh_wf_def kMinNumBuckets_def)
  obtain nb where nb: "lh_rebucket ok n lh = (if ok \<and> sizeof_ptr * n < size_mod
       then lh\<lparr>num_buckets := n, buckets := nb\<rparr> else lh)"
    "buckets_wf n nb" "mset (concat nb) = mset (concat (buckets lh))"
    using lh_rebucket_shape [OF bw n0] .
  have "lh_items (lh\<lparr>num_buckets := n, buckets := nb\<rparr>) = lh_items lh"
    using nb(3) by (simp add: lh_items_def)
  then show ?thesis using wf n nb(2) by (simp add: nb(1) lh_wf_def)
qed

lemma size_mul_2_grows: "n < size_mul n 2 \<Longrightarrow> n < size_mod \<Longrightarrow> size_mul n 2 = 2 * n"
  by (auto simp: size_mul_def mod_if split: if_splits)

lemma lh_maybe_resize_wf:
  assumes wf: "lh_wf lh"
  shows "lh_wf (lh_maybe_resize ok lh) \<and> lh_items (lh_maybe_resize ok lh) = lh_items lh \<and>
    lh_comp (lh_maybe_resize ok lh) = lh_comp lh \<and> lh_hash (lh_maybe_resize ok lh) = lh_hash lh \<and>
    callback_depth (lh_maybe_resize ok lh) = callback_depth lh"
proof -
  have "kMinNumBuckets \<le> num_buckets lh" using wf by (simp add: lh_wf_def)
  then show ?thesis
    using wf lh_rebucket_wf [OF wf, of "size_mul (num_buckets lh) 2" ok]
      lh_rebucket_wf [OF wf, of "num_buckets lh div 2" ok]
      lh_rebucket_wf [OF wf, of kMinNumBuckets ok]
    by (auto simp: lh_maybe_resize_def Let_def not_less)
qed

section \<open>Insertion and deletion\<close>

definition fresh_addr :: "'a lhash \<Rightarrow> nat option \<Rightarrow> bool" where
  "fresh_addr lh alloc \<longleftrightarrow> (case alloc of None \<Rightarrow> True
     | Some a \<Rightarrow> \<forall>it \<in># lh_items lh. item_addr it \<noteq> a)"

lemma lh_new_wf:
  assumes "key_ok hsh cmp" "lh_new True True hsh cmp = Some lh"
  shows "lh_wf lh" "lh_items lh = {#}"
  using assms by (auto simp: lh_new_def lh_wf_def lh_items_def kMinNumBuckets_def buckets_wf_empty)

lemma buckets_wf_update:
  assumes "buckets_wf n bs" "b < n"
    "\<And>x. x \<in> set c \<Longrightarrow> unat (item_hash x) mod n = b"
  shows "buckets_wf n (bs[b := c])"
  using assms by (auto simp: buckets_wf_def nth_list_update)

lemma mset_update_nth:
  assumes "p < length c"
  shows "mset (c[p := y]) = add_mset y (mset c - {#c ! p#})"
  using mset_update [OF assms] .

text \<open>Replacing, adding and removing an item, on the collection of items.\<close>

lemma swap_one:
  "x \<in># M \<Longrightarrow> x \<in># N \<Longrightarrow> M + add_mset y (N - {#x#}) = add_mset y (M - {#x#}) + N"
  by (metis (no_types, lifting) insert_DiffM union_mset_add_mset_left union_mset_add_mset_right)

lemma replace_items:
  assumes "b < length bs" "p < length (bs ! b)"
  shows "mset (concat (bs[b := (bs ! b)[p := y]])) =
    add_mset y (mset (concat bs) - {#bs ! b ! p#})"
proof -
  have m: "bs ! b ! p \<in># mset (bs ! b)" "bs ! b ! p \<in># mset (concat bs)"
    using nth_mem [OF assms(1)] nth_mem [OF assms(2)] by (auto simp del: nth_mem)
  have "mset (concat (bs[b := (bs ! b)[p := y]])) + mset (bs ! b) =
      mset (concat bs) + add_mset y (mset (bs ! b) - {#bs ! b ! p#})"
    using mset_concat_update [OF assms(1)] mset_update_nth [OF assms(2)] by metis
  also have "\<dots> = add_mset y (mset (concat bs) - {#bs ! b ! p#}) + mset (bs ! b)"
    by (rule swap_one) (fact m)+
  finally show ?thesis by (rule add_right_imp_eq)
qed

lemma remove_items:
  assumes "b < length bs" "p < length (bs ! b)"
  shows "mset (concat (bs[b := take p (bs ! b) @ drop (Suc p) (bs ! b)])) =
    mset (concat bs) - {#bs ! b ! p#}"
proof -
  let ?c = "take p (bs ! b) @ drop (Suc p) (bs ! b)"
  have "mset (bs ! b) = add_mset (bs ! b ! p) (mset ?c)"
    using id_take_nth_drop [OF assms(2)]
    by (metis mset.simps(2) mset_append union_mset_add_mset_right)
  then have "mset (concat (bs[b := ?c])) + add_mset (bs ! b ! p) (mset ?c)
      = mset (concat bs) + mset ?c"
    using mset_concat_update [OF assms(1), of ?c] by metis
  then have "add_mset (bs ! b ! p) (mset (concat (bs[b := ?c]))) = mset (concat bs)"
    by simp
  then show ?thesis by (metis add_mset_remove_trivial)
qed


lemma lh_wf_nth_hash:
  assumes "lh_wf lh" "b < length (buckets lh)" "x \<in> set (buckets lh ! b)"
  shows "unat (item_hash x) mod num_buckets lh = b"
  using assms by (auto simp: lh_wf_def buckets_wf_def)

lemma lh_replace_wf:
  assumes wf: "lh_wf lh" and b: "b < length (buckets lh)" and p: "p < length (buckets lh ! b)"
    and it: "it = buckets lh ! b ! p" and eq: "lh_comp lh (item_data it) d = 0"
    and lh': "lh' = lh\<lparr>buckets := (buckets lh)[b := (buckets lh ! b)[p := it\<lparr>item_data := d\<rparr>]]\<rparr>"
  shows "lh_wf lh'"
    "lh_items lh' = add_mset (it\<lparr>item_data := d\<rparr>) (lh_items lh - {#it#})" "it \<in># lh_items lh"
proof -
  have k: "key_ok (lh_hash lh) (lh_comp lh)" using wf by (simp add: lh_wf_def)
  note kD = key_okD [OF k]
  show mem: "it \<in># lh_items lh"
    using nth_mem [OF b] nth_mem [OF p] it by (auto simp: lh_items_def simp del: nth_mem)
  show items: "lh_items lh' = add_mset (it\<lparr>item_data := d\<rparr>) (lh_items lh - {#it#})"
    using replace_items [OF b p] it lh' by (simp add: lh_items_def)
  obtain M where M: "lh_items lh = add_mset it M" using multi_member_split [OF mem] by auto
  have bl: "buckets lh' = (buckets lh)[b := (buckets lh ! b)[p := it\<lparr>item_data := d\<rparr>]]" by (simp add: lh')
  have bw: "buckets_wf (num_buckets lh) (buckets lh')"
    unfolding bl
  proof (rule buckets_wf_update)
    show "buckets_wf (num_buckets lh) (buckets lh)" using wf by (simp add: lh_wf_def)
    then show "b < num_buckets lh" using b by (simp add: buckets_wf_def)
    fix x assume "x \<in> set ((buckets lh ! b)[p := it\<lparr>item_data := d\<rparr>])"
    then have "x = it\<lparr>item_data := d\<rparr> \<or> x \<in> set (buckets lh ! b)"
      using set_update_subset_insert by (metis insertE subsetD)
    then show "unat (item_hash x) mod num_buckets lh = b"
      using lh_wf_nth_hash [OF wf b] p it by auto
  qed
  have "all_apart (lh_comp lh) M" "\<forall>x \<in># M. apart (lh_comp lh) x it"
    using wf M all_apart_add [of "lh_comp lh" it M, OF kD(2)] by (simp_all add: lh_wf_def)
  moreover from this(2) have "\<forall>x \<in># M. apart (lh_comp lh) x (it\<lparr>item_data := d\<rparr>)"
    unfolding apart_def using kD(3) [OF _ kD(2) [OF eq]] by auto
  ultimately have "all_apart (lh_comp lh) (add_mset (it\<lparr>item_data := d\<rparr>) M)"
    using all_apart_add [of "lh_comp lh" "it\<lparr>item_data := d\<rparr>" M, OF kD(2)] by simp
  then show "lh_wf lh'"
    using wf bw items M kD(4) [OF eq] by (simp add: lh_wf_def lh')
qed

lemma lh_add_wf:
  assumes wf: "lh_wf lh" and b: "b = unat (lh_hash lh d) mod num_buckets lh"
    and new: "\<And>it. it \<in># lh_items lh \<Longrightarrow> lh_comp lh (item_data it) d \<noteq> 0 \<and> item_addr it \<noteq> a"
    and room: "num_items lh + 1 < size_mod"
    and lh': "lh' = lh\<lparr>buckets := (buckets lh)[b := buckets lh ! b @
      [\<lparr>item_addr = a, item_data = d, item_hash = lh_hash lh d\<rparr>]],
      num_items := size_add (num_items lh) 1\<rparr>"
  shows "lh_wf lh'"
    "lh_items lh' = add_mset \<lparr>item_addr = a, item_data = d, item_hash = lh_hash lh d\<rparr> (lh_items lh)"
proof -
  let ?it = "\<lparr>item_addr = a, item_data = d, item_hash = lh_hash lh d\<rparr>"
  have k: "key_ok (lh_hash lh) (lh_comp lh)" and n: "0 < num_buckets lh"
    and bs: "buckets_wf (num_buckets lh) (buckets lh)"
    using wf by (auto simp: lh_wf_def kMinNumBuckets_def)
  note kD = key_okD [OF k]
  have len: "b < length (buckets lh)" using bs n b by (simp add: buckets_wf_def)
  show items: "lh_items lh' = add_mset ?it (lh_items lh)"
    using mset_concat_update [OF len, of "buckets lh ! b @ [?it]"]
    by (simp add: lh_items_def lh')
  have bl: "buckets lh' = (buckets lh)[b := buckets lh ! b @ [?it]]" by (simp add: lh')
  have bw: "buckets_wf (num_buckets lh) (buckets lh')"
    unfolding bl
  proof (rule buckets_wf_update [OF bs])
    fix x assume "x \<in> set (buckets lh ! b @ [?it])"
    then show "unat (item_hash x) mod num_buckets lh = b"
      using lh_wf_nth_hash [OF wf len] b by auto
  qed (use b n in simp)
  have "all_apart (lh_comp lh) (lh_items lh)" using wf by (simp add: lh_wf_def)
  then have "all_apart (lh_comp lh) (add_mset ?it (lh_items lh))"
    using all_apart_add [of "lh_comp lh" ?it "lh_items lh", OF kD(2)] new by (simp add: apart_def)
  then show "lh_wf lh'" using wf bw items room by (simp add: lh_wf_def lh')
qed

lemma lh_remove_wf:
  assumes wf: "lh_wf lh" and b: "b < length (buckets lh)" and p: "p < length (buckets lh ! b)"
    and lh': "lh' = lh\<lparr>buckets := (buckets lh)[b := take p (buckets lh ! b) @ drop (Suc p) (buckets lh ! b)],
      num_items := size_sub (num_items lh) 1\<rparr>"
  shows "lh_wf lh'" "lh_items lh' = lh_items lh - {#buckets lh ! b ! p#}"
proof -
  let ?it = "buckets lh ! b ! p"
  have k: "key_ok (lh_hash lh) (lh_comp lh)"
    and bs: "buckets_wf (num_buckets lh) (buckets lh)" using wf by (auto simp: lh_wf_def)
  have mem: "?it \<in># lh_items lh"
    using nth_mem [OF b] nth_mem [OF p] by (auto simp: lh_items_def simp del: nth_mem)
  show items: "lh_items lh' = lh_items lh - {#?it#}"
    using remove_items [OF b p] by (simp add: lh_items_def lh')
  obtain M where M: "lh_items lh = add_mset ?it M" using multi_member_split [OF mem] by auto
  have bl: "buckets lh' = (buckets lh)[b := take p (buckets lh ! b) @ drop (Suc p) (buckets lh ! b)]" by (simp add: lh')
  have bw: "buckets_wf (num_buckets lh) (buckets lh')"
    unfolding bl
  proof (rule buckets_wf_update [OF bs])
    show "b < num_buckets lh" using b bs by (simp add: buckets_wf_def)
    fix x assume "x \<in> set (take p (buckets lh ! b) @ drop (Suc p) (buckets lh ! b))"
    then have "x \<in> set (buckets lh ! b)" by (auto dest: in_set_takeD in_set_dropD)
    then show "unat (item_hash x) mod num_buckets lh = b" using lh_wf_nth_hash [OF wf b] by simp
  qed
  have "all_apart (lh_comp lh) M"
    using wf M all_apart_add [of "lh_comp lh" ?it M, OF key_okD(2) [OF k]] by (simp add: lh_wf_def)
  moreover have "lh_items lh' = M" using items M by simp
  ultimately show "lh_wf lh'" using wf bw M by (simp add: lh_wf_def lh')
qed

text \<open>How the three changes of the items show in lookups.\<close>

lemma retrieve_eqI:
  assumes "lh_wf lh'" "\<And>v. (\<exists>it \<in># lh_items lh'. lh_comp lh' (item_data it) k = 0 \<and> item_data it = v)
    \<longleftrightarrow> r = Some v"
  shows "lh_retrieve lh' k = r"
  using lh_retrieve_iff [OF assms(1), of k] assms(2) by (metis not_None_eq)

lemma retrieve_add:
  assumes wf: "lh_wf lh" "lh_wf lh'" and c: "lh_comp lh' = lh_comp lh"
    and items: "lh_items lh' = add_mset new M" and sub: "lh_items lh = M \<or> lh_items lh = add_mset old M"
    and old: "lh_comp lh (item_data old) (item_data new) = 0"
  shows "lh_retrieve lh' k =
    (if lh_comp lh (item_data new) k = 0 then Some (item_data new) else lh_retrieve lh k)"
proof -
  have k: "key_ok (lh_hash lh) (lh_comp lh)" using wf by (simp add: lh_wf_def)
  note kD = key_okD [OF k]
  show ?thesis
  proof (cases "lh_comp lh (item_data new) k = 0")
    case True
    then show ?thesis using lh_retrieve_iff [OF wf(2), of k] items c by auto
  next
    case False
    have ne: "lh_comp lh (item_data old) k \<noteq> 0" using False kD(2,3) old by metis
    have "(\<exists>it \<in># lh_items lh'. lh_comp lh' (item_data it) k = 0 \<and> item_data it = v)
        \<longleftrightarrow> (\<exists>it \<in># lh_items lh. lh_comp lh (item_data it) k = 0 \<and> item_data it = v)" for v
      using items sub False ne c by auto
    then have "lh_retrieve lh' k = lh_retrieve lh k"
      using retrieve_eqI [OF wf(2)] lh_retrieve_iff [OF wf(1)] by metis
    with False show ?thesis by simp
  qed
qed

lemma retrieve_remove:
  assumes wf: "lh_wf lh" "lh_wf lh'" and c: "lh_comp lh' = lh_comp lh"
    and items: "lh_items lh = add_mset old (lh_items lh')"
    and eq: "lh_comp lh (item_data old) d = 0"
  shows "lh_retrieve lh' k = (if lh_comp lh d k = 0 then None else lh_retrieve lh k)"
proof -
  have k: "key_ok (lh_hash lh) (lh_comp lh)" using wf by (simp add: lh_wf_def)
  note kD = key_okD [OF k]
  have "\<forall>x \<in># lh_items lh'. apart (lh_comp lh) x old"
    using wf(1) items all_apart_add [of "lh_comp lh" old "lh_items lh'", OF kD(2)]
    by (simp add: lh_wf_def)
  then have gone: "\<And>x. x \<in># lh_items lh' \<Longrightarrow> lh_comp lh (item_data x) d \<noteq> 0"
    using kD(2,3) eq unfolding apart_def by metis
  show ?thesis
  proof (cases "lh_comp lh d k = 0")
    case True
    then have "\<And>x. x \<in># lh_items lh' \<Longrightarrow> lh_comp lh (item_data x) k \<noteq> 0"
      using gone kD(2,3) by metis
    then show ?thesis using True lh_retrieve_None [OF wf(2), of k] c by simp
  next
    case False
    have ne: "lh_comp lh (item_data old) k \<noteq> 0" using False kD(2,3) eq by metis
    have "(\<exists>it \<in># lh_items lh'. lh_comp lh' (item_data it) k = 0 \<and> item_data it = v)
        \<longleftrightarrow> (\<exists>it \<in># lh_items lh. lh_comp lh (item_data it) k = 0 \<and> item_data it = v)" for v
      using items ne c by auto
    then have "lh_retrieve lh' k = lh_retrieve lh k"
      using retrieve_eqI [OF wf(2)] lh_retrieve_iff [OF wf(1)] by metis
    with False show ?thesis by simp
  qed
qed


section \<open>The table as a finite map\<close>

definition lh_same_funs :: "'a lhash \<Rightarrow> 'a lhash \<Rightarrow> bool" where
  "lh_same_funs lh lh' \<longleftrightarrow> lh_comp lh' = lh_comp lh \<and> lh_hash lh' = lh_hash lh \<and>
     callback_depth lh' = callback_depth lh"

lemma lh_insert_map:
  assumes wf: "lh_wf lh" and room: "num_items lh + 1 < size_mod" and fresh: "fresh_addr lh alloc"
    and ins: "lh_insert alloc ok d lh = (r, lh')"
  shows "lh_wf lh' \<and> lh_same_funs lh lh'"
    "r = (case lh_retrieve lh d of Some v \<Rightarrow> Some (Some v)
          | None \<Rightarrow> if alloc = None then None else Some None)"
    "r = None \<Longrightarrow> lh' = lh"
    "r \<noteq> None \<Longrightarrow> lh_retrieve lh' k = (if lh_comp lh d k = 0 then Some d else lh_retrieve lh k)"
proof -
  have kD: "lh_comp lh d d = 0" "\<And>x y. lh_comp lh x y = 0 \<Longrightarrow> lh_comp lh y x = 0"
    using wf key_okD(1,2) by (auto simp: lh_wf_def)
  have "lh_wf lh' \<and> lh_same_funs lh lh' \<and>
    r = (case lh_retrieve lh d of Some v \<Rightarrow> Some (Some v)
          | None \<Rightarrow> if alloc = None then None else Some None) \<and>
    (r = None \<longrightarrow> lh' = lh) \<and>
    (r \<noteq> None \<longrightarrow> lh_retrieve lh' k = (if lh_comp lh d k = 0 then Some d else lh_retrieve lh k))"
    using wf
  proof (cases rule: lookup_cases [where d = d])
    case (found h b p it)
    let ?lh = "lh\<lparr>buckets := (buckets lh)[b := (buckets lh ! b)[p := it\<lparr>item_data := d\<rparr>]]\<rparr>"
    have r: "r = Some (Some (item_data it))" "lh' = ?lh"
      using ins found by (auto simp: lh_insert_def Let_def)
    note R = lh_replace_wf [OF wf found(4,2,3,6) r(2)]
    have ret: "lh_retrieve lh d = Some (item_data it)"
      using lh_retrieve_iff [OF wf] found by blast
    obtain M where M: "lh_items lh = add_mset it M" using multi_member_split [OF R(3)] by auto
    have "lh_retrieve lh' k = (if lh_comp lh d k = 0 then Some d else lh_retrieve lh k)"
      using retrieve_add [OF wf R(1), of "it\<lparr>item_data := d\<rparr>" M it] R(2) M found r by simp
    then show ?thesis using R r ret by (simp add: lh_same_funs_def)
  next
    case (missing h b)
    have ret: "lh_retrieve lh d = None" using lh_retrieve_None [OF wf] missing by blast
    show ?thesis
    proof (cases alloc)
      case None
      then show ?thesis using wf ins missing ret by (simp add: lh_insert_def Let_def lh_same_funs_def)
    next
      case (Some a)
      let ?it = "\<lparr>item_addr = a, item_data = d, item_hash = lh_hash lh d\<rparr>"
      let ?lh = "lh\<lparr>buckets := (buckets lh)[b := buckets lh ! b @ [?it]],
        num_items := size_add (num_items lh) 1\<rparr>"
      have r: "r = Some None" "lh' = lh_maybe_resize ok ?lh"
        using ins missing Some by (auto simp: lh_insert_def Let_def)
      have b: "b = unat (lh_hash lh d) mod num_buckets lh" using missing by simp
      have new: "lh_comp lh (item_data it) d \<noteq> 0 \<and> item_addr it \<noteq> a" if "it \<in># lh_items lh" for it
        using missing that fresh Some by (auto simp: fresh_addr_def)
      note A = lh_add_wf [OF wf b new room refl]
      note Z = lh_maybe_resize_wf [OF A(1), of ok, folded r(2)]
      have "lh_retrieve lh' k = (if lh_comp lh d k = 0 then Some d else lh_retrieve lh k)"
        using retrieve_add [of lh lh' ?it "lh_items lh" ?it k] wf Z A(2) kD(1) by simp
      then show ?thesis using Z r ret Some by (simp add: lh_same_funs_def)
    qed
  qed
  then show "lh_wf lh' \<and> lh_same_funs lh lh'"
    "r = (case lh_retrieve lh d of Some v \<Rightarrow> Some (Some v)
          | None \<Rightarrow> if alloc = None then None else Some None)"
    "r = None \<Longrightarrow> lh' = lh"
    "r \<noteq> None \<Longrightarrow> lh_retrieve lh' k = (if lh_comp lh d k = 0 then Some d else lh_retrieve lh k)"
    by blast+
qed

lemma lh_delete_map:
  assumes wf: "lh_wf lh" and del: "lh_delete ok d lh = (r, lh')"
  shows "lh_wf lh' \<and> lh_same_funs lh lh'" "r = lh_retrieve lh d" "r = None \<Longrightarrow> lh' = lh"
    "lh_retrieve lh' k = (if lh_comp lh d k = 0 then None else lh_retrieve lh k)"
    "lh_items lh' \<subseteq># lh_items lh"
proof -
  have kD: "\<And>x y z. lh_comp lh x y = 0 \<Longrightarrow> lh_comp lh y z = 0 \<Longrightarrow> lh_comp lh x z = 0"
    "\<And>x y. lh_comp lh x y = 0 \<Longrightarrow> lh_comp lh y x = 0"
    using wf unfolding lh_wf_def key_ok_def by blast+
  have "lh_wf lh' \<and> lh_same_funs lh lh' \<and> r = lh_retrieve lh d \<and> (r = None \<longrightarrow> lh' = lh) \<and>
    lh_retrieve lh' k = (if lh_comp lh d k = 0 then None else lh_retrieve lh k) \<and>
    lh_items lh' \<subseteq># lh_items lh"
    using wf
  proof (cases rule: lookup_cases [where d = d])
    case (found h b p it)
    let ?lh = "lh\<lparr>buckets := (buckets lh)[b := take p (buckets lh ! b) @ drop (Suc p) (buckets lh ! b)],
      num_items := size_sub (num_items lh) 1\<rparr>"
    have r: "r = Some (item_data it)" "lh' = lh_maybe_resize ok ?lh"
      using del found by (auto simp: lh_delete_def Let_def)
    note R = lh_remove_wf [OF wf found(4,2) refl, folded found(3)]
    note Z = lh_maybe_resize_wf [OF R(1), of ok, folded r(2)]
    have ret: "lh_retrieve lh d = Some (item_data it)"
      using lh_retrieve_iff [OF wf] found by blast
    have M: "lh_items lh = add_mset it (lh_items lh')" using found(5) Z R(2) by simp
    have "lh_retrieve lh' k = (if lh_comp lh d k = 0 then None else lh_retrieve lh k)"
      using retrieve_remove [OF wf, of lh' it d k] Z M found by simp
    then show ?thesis using Z r ret M by (simp add: lh_same_funs_def)
  next
    case (missing h b)
    have ret: "lh_retrieve lh d = None" using lh_retrieve_None [OF wf] missing by blast
    have r: "r = None" "lh' = lh" using del missing by (auto simp: lh_delete_def Let_def)
    have "lh_retrieve lh k = None" if "lh_comp lh d k = 0"
      using lh_retrieve_None [OF wf] missing(5) kD that by metis
    then show ?thesis using wf r ret by (simp add: lh_same_funs_def)
  qed
  then show "lh_wf lh' \<and> lh_same_funs lh lh'" "r = lh_retrieve lh d" "r = None \<Longrightarrow> lh' = lh"
    "lh_retrieve lh' k = (if lh_comp lh d k = 0 then None else lh_retrieve lh k)"
    "lh_items lh' \<subseteq># lh_items lh"
    by blast+
qed

section \<open>Load factor\<close>

text \<open>Between two and three items a bucket the table is left alone.\<close>

definition balanced :: "'a lhash \<Rightarrow> bool" where
  "balanced lh \<longleftrightarrow> num_items lh \<le> 3 * num_buckets lh \<and>
     (num_buckets lh = kMinNumBuckets \<or> num_buckets lh \<le> num_items lh + 1) \<and>
     (\<exists>k. num_buckets lh = kMinNumBuckets * 2 ^ k)"

definition tight :: "'a lhash \<Rightarrow> bool" where
  "tight lh \<longleftrightarrow> num_items lh < 3 * num_buckets lh \<and>
     (num_buckets lh = kMinNumBuckets \<or> num_buckets lh \<le> num_items lh) \<and>
     (\<exists>k. num_buckets lh = kMinNumBuckets * 2 ^ k)"

lemma lh_maybe_resize_tight:
  assumes wf: "lh_wf lh" and bal: "balanced lh" and d: "callback_depth lh = 0"
    and small: "sizeof_ptr * (2 * num_buckets lh) < size_mod"
  shows "tight (lh_maybe_resize True lh)"
proof -
  let ?n = "num_items lh" and ?b = "num_buckets lh"
  obtain k where k: "?b = 16 * 2 ^ k" using bal by (auto simp: balanced_def kMinNumBuckets_def)
  have bw: "buckets_wf ?b (buckets lh)" using wf by (simp add: lh_wf_def)
  have nb: "num_buckets (lh_rebucket True m lh) = m \<and> num_items (lh_rebucket True m lh) = ?n"
    if m: "0 < m" "m \<le> 2 * ?b" for m
  proof -
    obtain nb where "lh_rebucket True m lh = (if True \<and> sizeof_ptr * m < size_mod
       then lh\<lparr>num_buckets := m, buckets := nb\<rparr> else lh)"
      using lh_rebucket_shape [OF bw m(1)] by metis
    then show ?thesis using small m by (simp add: sizeof_ptr_def)
  qed
  have b2: "size_mul ?b 2 = 2 * ?b" using small by (simp add: sizeof_ptr_def mult.commute)
  have pos: "0 < ?b" and ge: "16 \<le> ?b" using k by simp_all
  consider (grow) "3 * ?b \<le> ?n" | (shrink) "?n < ?b" "16 < ?b" | (keep) "?n < 3 * ?b" "?b \<le> ?n \<or> ?b = 16"
    using ge by (cases "3 * ?b \<le> ?n"; cases "?n < ?b"; cases "16 < ?b") auto
  then show ?thesis
  proof cases
    case grow
    then have "2 < ?n div ?b" using pos by (simp add: div_greater_zero_iff less_eq_div_iff_mult_less_eq
          Suc_le_eq [symmetric] eval_nat_numeral)
    then have r: "lh_maybe_resize True lh = lh_rebucket True (2 * ?b) lh"
      using d b2 pos by (simp add: lh_maybe_resize_def kMaxAverageChainLength_def)
    have "2 * ?b = 16 * 2 ^ Suc k" using k by simp
    then show ?thesis
      using nb [of "2 * ?b"] pos grow bal unfolding r tight_def balanced_def kMinNumBuckets_def
      by (intro conjI) (simp_all, metis power_Suc)
  next
    case shrink
    then obtain j where j: "k = Suc j" using k by (cases k) auto
    then have h: "?b div 2 = 16 * 2 ^ j" using k by simp
    have h16: "\<not> ?b div 2 < 16" unfolding h by simp
    have r: "lh_maybe_resize True lh = lh_rebucket True (?b div 2) lh"
      using shrink d h16 by (simp add: lh_maybe_resize_def kMaxAverageChainLength_def
          kMinAverageChainLength_def kMinNumBuckets_def)
    have b: "?b = 2 * (?b div 2)" unfolding h using k j by simp
    have "?b \<le> ?n + 1" using shrink bal by (auto simp: balanced_def kMinNumBuckets_def)
    then show ?thesis
      using nb [of "?b div 2"] h h16 b shrink unfolding r tight_def kMinNumBuckets_def by auto
  next
    case keep
    then have "\<not> 2 < ?n div ?b" using pos by (simp add: not_less less_mult_imp_div_less less_Suc_eq_le [symmetric])
    moreover have "\<not> (?n div ?b < 1 \<and> 16 < ?b)" using keep pos by (auto simp: div_eq_0_iff)
    ultimately have "lh_maybe_resize True lh = lh"
      using d by (auto simp: lh_maybe_resize_def kMaxAverageChainLength_def
          kMinAverageChainLength_def kMinNumBuckets_def Let_def)
    then show ?thesis using keep k by (auto simp: tight_def kMinNumBuckets_def)
  qed
qed


lemma lh_tight_insert:
  assumes wf: "lh_wf lh" and t: "tight lh" and d: "callback_depth lh = 0"
    and small: "sizeof_ptr * (2 * num_buckets lh) < size_mod" and fresh: "fresh_addr lh alloc"
    and ins: "lh_insert alloc True dat lh = (r, lh')"
  shows "tight lh'"
  using wf
proof (cases rule: lookup_cases [where d = dat])
  case (found h b p it)
  then have "num_items lh' = num_items lh" "num_buckets lh' = num_buckets lh"
    using ins by (auto simp: lh_insert_def Let_def)
  with t show ?thesis by (simp add: tight_def)
next
  case (missing h b)
  show ?thesis
  proof (cases alloc)
    case None
    then show ?thesis using t ins missing by (simp add: lh_insert_def Let_def)
  next
    case (Some a)
    let ?it = "\<lparr>item_addr = a, item_data = dat, item_hash = lh_hash lh dat\<rparr>"
    let ?lh = "lh\<lparr>buckets := (buckets lh)[b := buckets lh ! b @ [?it]],
      num_items := size_add (num_items lh) 1\<rparr>"
    have lh': "lh' = lh_maybe_resize True ?lh"
      using ins missing Some by (auto simp: lh_insert_def Let_def)
    have b: "b = unat (lh_hash lh dat) mod num_buckets lh" using missing by simp
    have new: "lh_comp lh (item_data it) dat \<noteq> 0 \<and> item_addr it \<noteq> a" if "it \<in># lh_items lh" for it
      using missing that fresh Some by (auto simp: fresh_addr_def)
    have room: "num_items lh + 1 < size_mod" using t small by (simp add: tight_def sizeof_ptr_def)
    have "balanced ?lh" using t room by (auto simp: tight_def balanced_def)
    with lh_maybe_resize_tight [OF lh_add_wf(1) [OF wf b new room refl]] d small
    show ?thesis by (simp add: lh')
  qed
qed

lemma lh_tight_delete:
  assumes wf: "lh_wf lh" and t: "tight lh" and d: "callback_depth lh = 0"
    and small: "sizeof_ptr * (2 * num_buckets lh) < size_mod"
    and del: "lh_delete True dat lh = (r, lh')"
  shows "tight lh'"
  using wf
proof (cases rule: lookup_cases [where d = dat])
  case (found h b p it)
  let ?lh = "lh\<lparr>buckets := (buckets lh)[b := take p (buckets lh ! b) @ drop (Suc p) (buckets lh ! b)],
    num_items := size_sub (num_items lh) 1\<rparr>"
  have lh': "lh' = lh_maybe_resize True ?lh"
    using del found by (auto simp: lh_delete_def Let_def)
  have "1 \<le> num_items lh"
    using wf found(5) by (auto simp: lh_wf_def Suc_le_eq size_eq_0_iff_empty [symmetric]
        simp del: size_eq_0_iff_empty intro!: gr0I)
  then have sub: "size_sub (num_items lh) 1 = num_items lh - 1" by simp
  from t have "num_items lh - 1 \<le> 3 * num_buckets lh"
    "num_buckets lh = kMinNumBuckets \<or> num_buckets lh \<le> num_items lh - 1 + 1"
    unfolding tight_def by linarith+
  moreover from t have "\<exists>k. num_buckets lh = kMinNumBuckets * 2 ^ k" by (simp add: tight_def)
  moreover have nl: "num_items ?lh = num_items lh - 1" "num_buckets ?lh = num_buckets lh"
    using sub by simp_all
  ultimately have "balanced ?lh" unfolding balanced_def nl by (intro conjI)
  with lh_maybe_resize_tight [OF lh_remove_wf(1) [OF wf found(4,2) refl]] d small
  show ?thesis by (simp add: lh')
next
  case (missing h b)
  then show ?thesis using t del by (simp add: lh_delete_def Let_def)
qed

lemma lh_new_tight: "lh_new a b hsh cmp = Some lh \<Longrightarrow> tight lh \<and> callback_depth lh = 0"
  by (auto simp: lh_new_def tight_def kMinNumBuckets_def split: if_splits intro: exI [of _ 0])

section \<open>Walking the table\<close>

lemma all_apart_mono: "all_apart cmp M \<Longrightarrow> N \<subseteq># M \<Longrightarrow> all_apart cmp N"
  unfolding all_apart_def
proof (intro ballI)
  fix x y assume *: "\<forall>x\<in>#M. \<forall>y\<in>#M - {#x#}. apart cmp x y" "N \<subseteq># M" "x \<in># N" "y \<in># N - {#x#}"
  then obtain K where "M = N + K" using mset_subset_eq_exists_conv by blast
  then have "y \<in># M - {#x#}" "x \<in># M" using *(3,4) multi_member_split [OF *(3)] by auto
  with *(1) show "apart cmp x y" by blast
qed

lemma mset_nth_subset_concat: "i < length bs \<Longrightarrow> mset (bs ! i) \<subseteq># mset (concat bs)"
proof -
  assume "i < length bs"
  then have "mset (concat bs) =
      mset (concat (take i bs)) + (mset (bs ! i) + mset (concat (drop (Suc i) bs)))"
    by (subst id_take_nth_drop [of i bs]) (simp_all only: concat.simps concat_append mset_append)
  then show ?thesis by (simp only: mset_subset_eq_add_left mset_subset_eq_add_right
        subset_mset.trans [OF mset_subset_eq_add_left mset_subset_eq_add_right])
qed

lemma chain_apart:
  assumes "lh_wf lh" "b < length (buckets lh)"
  shows "all_apart (lh_comp lh) (mset (buckets lh ! b))"
  using assms all_apart_mono mset_nth_subset_concat by (fastforce simp: lh_wf_def lh_items_def)

lemma apart_split:
  assumes k: "key_ok hsh cmp" and ap: "all_apart cmp (mset (pre @ cur # rest))"
    and x: "x \<in> set pre"
  shows "apart cmp x cur"
proof -
  have "mset (pre @ cur # rest) = add_mset cur (mset pre + mset rest)" by simp
  then show ?thesis
    using all_apart_add [of cmp cur "mset pre + mset rest", OF key_okD(2) [OF k]] ap x by simp
qed

lemma chain_at_split:
  "(\<And>x. x \<in> set pre \<Longrightarrow> item_addr x \<noteq> item_addr cur) \<Longrightarrow>
   chain_at (item_addr cur) (pre @ cur # rest) = cur # rest"
  by (simp add: chain_at_def)

lemma chain_search_split:
  "(\<And>x. x \<in> set pre \<Longrightarrow> cmp (item_data x) d \<noteq> 0) \<Longrightarrow> cmp (item_data cur) d = 0 \<Longrightarrow>
   chain_search cmp d (pre @ cur # rest) = length pre"
  by (induction pre) auto

text \<open>
  A callback that logs the element it is given and, at most, deletes that element.
\<close>

definition self_deleting :: "('a, 'a list) lh_callback \<Rightarrow> bool" where
  "self_deleting func \<longleftrightarrow> (\<forall>d lh s. snd (func d lh s) = s @ [d] \<and>
     (fst (func d lh s) = lh \<or> (\<exists>ok. fst (func d lh s) = snd (lh_delete ok d lh))))"

definition walking :: "'a lhash \<Rightarrow> 'a lhash \<Rightarrow> nat \<Rightarrow> bool" where
  "walking lh lh' b \<longleftrightarrow> lh_wf lh' \<and> 0 < callback_depth lh' \<and>
     num_buckets lh' = num_buckets lh \<and> callback_depth lh' = callback_depth lh \<and>
     (\<forall>j. b < j \<longrightarrow> buckets lh' ! j = buckets lh ! j)"

lemma walking_refl: "lh_wf lh \<Longrightarrow> 0 < callback_depth lh \<Longrightarrow> walking lh lh b"
  by (simp add: walking_def)

lemma walkingD: "walking lh lh' b \<Longrightarrow> lh_wf lh'" "walking lh lh' b \<Longrightarrow> 0 < callback_depth lh'"
  by (simp_all add: walking_def)

lemma walking_trans: "walking lh lh' b \<Longrightarrow> walking lh' lh'' b \<Longrightarrow> walking lh lh'' b"
  by (simp add: walking_def)

lemma delete_current:
  assumes wf: "lh_wf lh" and dep: "0 < callback_depth lh" and b: "b < length (buckets lh)"
    and chain: "buckets lh ! b = pre @ cur # rest"
  shows "walking lh (snd (lh_delete ok (item_data cur) lh)) b"
    "buckets (snd (lh_delete ok (item_data cur) lh)) ! b = pre @ rest"
proof -
  let ?d = "item_data cur"
  have k: "key_ok (lh_hash lh) (lh_comp lh)" using wf by (simp add: lh_wf_def)
  have cur: "cur \<in> set (buckets lh ! b)" using chain by simp
  then have "cur \<in># lh_items lh" using nth_mem [OF b] by (auto simp: lh_items_def simp del: nth_mem)
  then have "item_hash cur = lh_hash lh ?d" using wf by (simp add: lh_wf_def)
  then have hb: "unat (lh_hash lh ?d) mod num_buckets lh = b"
    using lh_wf_nth_hash [OF wf b cur] by simp
  have p: "chain_search (lh_comp lh) ?d (pre @ cur # rest) = length pre"
    using chain_search_split apart_split [OF k chain_apart [OF wf b, unfolded chain]]
      key_okD(1) [OF k] unfolding apart_def by metis
  let ?lh = "lh\<lparr>buckets := (buckets lh)[b := pre @ rest], num_items := size_sub (num_items lh) 1\<rparr>"
  have del: "snd (lh_delete ok ?d lh) = ?lh"
    using dep by (simp add: lh_delete_def get_next_ptr_and_hash_def hb chain p lh_maybe_resize_def)
  have "lh_wf ?lh"
    using lh_remove_wf(1) [OF wf b, of "length pre" ?lh] chain by simp
  then show "walking lh (snd (lh_delete ok ?d lh)) b"
    "buckets (snd (lh_delete ok ?d lh)) ! b = pre @ rest"
    unfolding del using dep b by (simp_all add: walking_def)
qed


lemma doall_chain_visits:
  assumes sd: "self_deleting func"
    and "lh_wf lh" "0 < callback_depth lh" "b < length (buckets lh)"
    and "buckets lh ! b = pre @ suf" "length suf < fuel"
  shows "\<exists>lh'. doall_chain fuel func b (chain_head suf) lh s = Some (lh', s @ map item_data suf) \<and>
    walking lh lh' b"
  using assms(2-)
proof (induction suf arbitrary: fuel lh s pre)
  case Nil
  then show ?case by (cases fuel) (auto simp: chain_head_def walking_refl)
next
  case (Cons cur rest)
  obtain f where f: "fuel = Suc f" "length rest < f" using Cons.prems(5) by (cases fuel) auto
  have k: "key_ok (lh_hash lh) (lh_comp lh)" using Cons.prems(1) by (simp add: lh_wf_def)
  have ap: "\<And>x. x \<in> set pre \<Longrightarrow> item_addr x \<noteq> item_addr cur"
    using apart_split [OF k chain_apart [OF Cons.prems(1,3), unfolded Cons.prems(4)]]
    by (simp add: apart_def)
  obtain lh1 where fn: "func (item_data cur) lh s = (lh1, s @ [item_data cur])"
    "lh1 = lh \<or> (\<exists>ok. lh1 = snd (lh_delete ok (item_data cur) lh))"
    using sd unfolding self_deleting_def by (metis prod.collapse)
  have step: "walking lh lh1 b \<and> (\<exists>pre1. buckets lh1 ! b = pre1 @ rest)"
    using fn(2)
  proof
    assume "lh1 = lh"
    moreover have "buckets lh ! b = (pre @ [cur]) @ rest" using Cons.prems(4) by simp
    ultimately show ?thesis using Cons.prems(1,2) walking_refl by blast
  next
    assume "\<exists>ok. lh1 = snd (lh_delete ok (item_data cur) lh)"
    then show ?thesis using delete_current [OF Cons.prems(1-4)] by blast
  qed
  then obtain pre1 where w: "walking lh lh1 b" and c1: "buckets lh1 ! b = pre1 @ rest" by blast
  have b1: "b < length (buckets lh1)"
    using w Cons.prems(1,3) by (auto simp: walking_def lh_wf_def buckets_wf_def)
  obtain lh' where "doall_chain f func b (chain_head rest) lh1 (s @ [item_data cur]) =
      Some (lh', (s @ [item_data cur]) @ map item_data rest)" "walking lh1 lh' b"
    using Cons.IH [OF walkingD(1,2) [OF w] b1 c1 f(2), of "s @ [item_data cur]"] by blast
  moreover have "chain_at (item_addr cur) (buckets lh ! b) = cur # rest"
    unfolding Cons.prems(4) by (rule chain_at_split) (rule ap)
  ultimately show ?case
    using fn(1) w by (auto simp: f(1) chain_head_def [of "cur # rest"] intro: walking_trans)
qed

lemma doall_buckets_visits:
  assumes sd: "self_deleting func"
    and "lh_wf lh" "0 < callback_depth lh" "i \<le> num_buckets lh"
    and "num_buckets lh - i < fuel" "\<forall>j. i \<le> j \<longrightarrow> j < num_buckets lh \<longrightarrow> length (buckets lh ! j) < chain_fuel"
  shows "\<exists>lh'. doall_buckets chain_fuel fuel func i lh s =
      Some (lh', s @ map item_data (concat (drop i (buckets lh)))) \<and>
    lh_wf lh' \<and> callback_depth lh' = callback_depth lh"
  using assms(2-)
proof (induction fuel arbitrary: i lh s)
  case (Suc fuel)
  have len: "length (buckets lh) = num_buckets lh"
    using Suc.prems(1) by (simp add: lh_wf_def buckets_wf_def)
  show ?case
  proof (cases "i = num_buckets lh")
    case True
    then show ?thesis using Suc.prems len by simp
  next
    case False
    then have i: "i < num_buckets lh" using Suc.prems(3) by simp
    obtain lh1 where c: "doall_chain chain_fuel func i (chain_head (buckets lh ! i)) lh s =
        Some (lh1, s @ map item_data (buckets lh ! i))" "walking lh lh1 i"
      using doall_chain_visits [OF sd Suc.prems(1,2), of i "[]" "buckets lh ! i" chain_fuel s]
        Suc.prems(5) i len by auto
    have len1: "length (buckets lh1) = num_buckets lh"
      using c(2) by (auto simp: walking_def lh_wf_def buckets_wf_def)
    have tail: "drop (Suc i) (buckets lh1) = drop (Suc i) (buckets lh)"
      using c(2) len len1 by (auto simp: walking_def list_eq_iff_nth_eq)
    obtain lh2 where "doall_buckets chain_fuel fuel func (Suc i) lh1
          (s @ map item_data (buckets lh ! i)) =
        Some (lh2, (s @ map item_data (buckets lh ! i)) @
          map item_data (concat (drop (Suc i) (buckets lh1))))"
        "lh_wf lh2" "callback_depth lh2 = callback_depth lh1"
    proof -
      have "num_buckets lh - Suc i < fuel" using Suc.prems(4) i by linarith
      then show thesis
        using that Suc.IH [of lh1 "Suc i" "s @ map item_data (buckets lh ! i)"] c(2) i Suc.prems(5)
        by (auto simp: walking_def)
    qed
    then show ?thesis
      using c i tail len by (auto simp: walking_def Cons_nth_drop_Suc [symmetric])
  qed
qed simp

section \<open>Properties\<close>

text \<open>
  C17: \<open>lh_insert\<close> refines the update of a finite map whose keys are compared with \<open>comp\<close>.
  It replaces an equal element and returns it, adds a new one otherwise, keeps every other
  lookup, preserves the table's invariant across the resizing it may trigger, and when
  \<open>malloc\<close> fails reports it and changes nothing.
\<close>

theorem lh_insert_refines_map:
  assumes "lh_wf lh" "num_items lh + 1 < size_mod" "fresh_addr lh alloc"
  shows "case lh_insert alloc ok d lh of (r, lh') \<Rightarrow> lh_wf lh' \<and>
    r = (case lh_retrieve lh d of Some v \<Rightarrow> Some (Some v)
         | None \<Rightarrow> if alloc = None then None else Some None) \<and>
    (if r = None then lh' = lh else
      (\<forall>k. lh_retrieve lh' k = (if lh_comp lh d k = 0 then Some d else lh_retrieve lh k)))"
proof -
  obtain r lh' where i: "lh_insert alloc ok d lh = (r, lh')" by fastforce
  note M = lh_insert_map [OF assms i]
  show ?thesis unfolding i prod.case using M(1,2,3) M(4) by presburger
qed

text \<open>
  C18: \<open>lh_delete\<close> removes exactly the element equal to its argument and returns it, keeps
  every other lookup and the invariant, and does nothing when there is no such element.
\<close>

theorem lh_delete_refines_map:
  assumes "lh_wf lh"
  shows "case lh_delete ok d lh of (r, lh') \<Rightarrow> lh_wf lh' \<and> r = lh_retrieve lh d \<and>
    (r = None \<longrightarrow> lh' = lh) \<and>
    (\<forall>k. lh_retrieve lh' k = (if lh_comp lh d k = 0 then None else lh_retrieve lh k))"
proof -
  obtain r lh' where i: "lh_delete ok d lh = (r, lh')" by fastforce
  note M = lh_delete_map [OF assms i]
  show ?thesis unfolding i prod.case using M(1,2,3) M(4) by presburger
qed

text \<open>
  The load factor.  While allocations succeed, every insertion and deletion outside a
  walk leaves fewer than three items per bucket and, above the minimum size, at least one
  item per bucket, so lookups stay constant time on average and memory is given back.
\<close>

theorem lh_load_factor:
  assumes "lh_wf lh" "tight lh" "callback_depth lh = 0"
    and "sizeof_ptr * (2 * num_buckets lh) < size_mod" "fresh_addr lh alloc"
  shows "tight (snd (lh_insert alloc True d lh)) \<and> tight (snd (lh_delete True d lh))"
  using lh_tight_insert [OF assms] lh_tight_delete [OF assms(1-4)] by (metis prod.collapse)

text \<open>
  C19: \<open>lh_doall_arg\<close> hands every element to its callback exactly once, in the order of the
  buckets, and never follows a dangling pointer, even when the callback deletes the
  elements it is given; the table is well formed afterwards.
\<close>

theorem lh_doall_visits:
  assumes "lh_wf lh" "self_deleting func" "Suc (callback_depth lh) < UINT_MAX"
    and "num_items lh + num_buckets lh < fuel"
  shows "\<exists>lh'. lh_doall_internal fuel ok func lh [] =
    Some (lh', map item_data (concat (buckets lh))) \<and> lh_wf lh' \<and>
    callback_depth lh' = callback_depth lh"
proof -
  let ?lh = "lh\<lparr>callback_depth := Suc (callback_depth lh)\<rparr>"
  have same: "lh_wf (lh\<lparr>callback_depth := n\<rparr>) = lh_wf lh" for n and lh :: "'a lhash"
    by (simp add: lh_wf_def lh_items_def)
  have len: "length (buckets lh) = num_buckets lh" "num_items lh = length (concat (buckets lh))"
    using assms(1) by (simp_all add: lh_wf_def buckets_wf_def lh_items_def)
  have "length (buckets lh ! j) < fuel" if "j < num_buckets lh" for j
  proof -
    have "length (buckets lh ! j) \<le> length (concat (buckets lh))"
      using size_mset_mono [OF mset_nth_subset_concat, of j "buckets lh"] that len(1) by simp
    with len(2) assms(4) show ?thesis by linarith
  qed
  then obtain lh2 where "doall_buckets fuel fuel func 0 ?lh [] =
      Some (lh2, map item_data (concat (buckets lh)))" "lh_wf lh2"
      "callback_depth lh2 = Suc (callback_depth lh)"
    using doall_buckets_visits [OF assms(2), of ?lh 0 fuel fuel "[]"] assms(1,4) same by auto
  then show ?thesis
    using assms(3) lh_maybe_resize_wf [of "lh2\<lparr>callback_depth := callback_depth lh\<rparr>" ok] same
    by (simp add: lh_doall_internal_def)
qed


section \<open>The contract clients rely on\<close>

text \<open>
  What \<open>lhash.h\<close> promises the code that uses a table, with the outcome of \<open>malloc\<close> left
  open: \<open>ready\<close> says that an insertion may be attempted with this allocation result.
\<close>

locale dict =
  fixes wf :: "'t \<Rightarrow> bool"
    and look :: "'t \<Rightarrow> 'k \<Rightarrow> 'k option"
    and put :: "nat option \<Rightarrow> bool \<Rightarrow> 'k \<Rightarrow> 't \<Rightarrow> 'k option option \<times> 't"
    and del :: "bool \<Rightarrow> 'k \<Rightarrow> 't \<Rightarrow> 'k option \<times> 't"
    and same :: "'t \<Rightarrow> 'k \<Rightarrow> 'k \<Rightarrow> bool"
    and ready :: "'t \<Rightarrow> nat option \<Rightarrow> bool"
  assumes same_refl: "wf t \<Longrightarrow> same t d d"
    and same_sym: "wf t \<Longrightarrow> same t d k \<Longrightarrow> same t k d"
    and same_trans: "wf t \<Longrightarrow> same t d k \<Longrightarrow> same t k m \<Longrightarrow> same t d m"
    and look_same: "wf t \<Longrightarrow> look t d = Some v \<Longrightarrow> same t v d"
    and look_ext: "wf t \<Longrightarrow> same t d k \<Longrightarrow> look t d = look t k"
    and put_wf: "wf t \<Longrightarrow> ready t a \<Longrightarrow> put a ok d t = (r, t') \<Longrightarrow> wf t' \<and> same t' = same t"
    and put_res: "wf t \<Longrightarrow> ready t a \<Longrightarrow> put a ok d t = (r, t') \<Longrightarrow>
      r = (case look t d of Some v \<Rightarrow> Some (Some v)
           | None \<Rightarrow> if a = None then None else Some None)"
    and put_fail: "wf t \<Longrightarrow> ready t a \<Longrightarrow> put a ok d t = (None, t') \<Longrightarrow> t' = t"
    and put_look: "wf t \<Longrightarrow> ready t a \<Longrightarrow> put a ok d t = (Some old, t') \<Longrightarrow>
      look t' k = (if same t d k then Some d else look t k)"
    and del_wf: "wf t \<Longrightarrow> del ok d t = (x, t') \<Longrightarrow> wf t' \<and> same t' = same t"
    and del_res: "wf t \<Longrightarrow> del ok d t = (x, t') \<Longrightarrow> x = look t d"
    and del_look: "wf t \<Longrightarrow> del ok d t = (x, t') \<Longrightarrow>
      look t' k = (if same t d k then None else look t k)"
begin

lemma look_cong:
  assumes "wf t" "same t d k" "look t d = Some v" "look t k = Some u"
  shows "same t v u"
  using assms by (metis look_same same_sym same_trans)

lemma put_then_look:
  assumes "wf t" "ready t a" "put a ok d t = (Some r, t')"
  shows "look t' d = Some d"
  using put_look [OF assms] same_refl [OF assms(1)] by simp

lemma put_new_res:
  assumes "wf t" "ready t (Some a)" "look t d = None" "put (Some a) ok d t = (r, t')"
  shows "r = Some None"
  using put_res [OF assms(1,2,4)] assms(3) by simp

lemma put_then_del:
  assumes "wf t" "ready t (Some a)" "look t d = None"
    and "put (Some a) ok d t = (r, t1)" "del ok' d t1 = (r', t2)"
  shows "r' = Some d" "\<not> same t d k \<Longrightarrow> look t2 k = look t k" "look t2 d = None"
proof -
  have r: "r = Some None" using put_new_res [OF assms(1-4)] .
  note p = put_wf [OF assms(1,2,4)] put_look [OF assms(1,2,4) [unfolded r]]
  show "r' = Some d"
    using del_res [OF _ assms(5)] p same_refl [OF assms(1)] by simp
  show "look t2 k = look t k" if "\<not> same t d k"
    using del_look [OF _ assms(5)] p that by simp
  show "look t2 d = None"
    using del_look [OF _ assms(5)] p same_refl [OF assms(1)] by simp
qed

end

definition lh_same :: "'a lhash \<Rightarrow> 'a \<Rightarrow> 'a \<Rightarrow> bool" where
  "lh_same lh x y \<longleftrightarrow> lh_comp lh x y = 0"

definition lh_ready :: "'a lhash \<Rightarrow> nat option \<Rightarrow> bool" where
  "lh_ready lh a \<longleftrightarrow> fresh_addr lh a \<and> num_items lh + 1 < size_mod"

interpretation lh: dict lh_wf lh_retrieve lh_insert lh_delete lh_same lh_ready
proof
  fix t :: "'a lhash" and a :: "nat option" and ok d r t' and k m v :: 'a
  show "lh_wf t \<Longrightarrow> lh_same t d d"
    using key_okD(1) by (auto simp: lh_same_def lh_wf_def)
  show "lh_wf t \<Longrightarrow> lh_same t d k \<Longrightarrow> lh_same t k d"
    using key_okD(2) by (auto simp: lh_same_def lh_wf_def)
  show "lh_wf t \<Longrightarrow> lh_same t d k \<Longrightarrow> lh_same t k m \<Longrightarrow> lh_same t d m"
    unfolding lh_same_def lh_wf_def using key_okD(3) by metis
  show "lh_wf t \<Longrightarrow> lh_retrieve t d = Some v \<Longrightarrow> lh_same t v d"
    using lh_retrieve_iff [of t d v] by (auto simp: lh_same_def)
  show "lh_wf t \<Longrightarrow> lh_same t d k \<Longrightarrow> lh_retrieve t d = lh_retrieve t k"
    using lh_retrieve_ext by (simp add: lh_same_def)
  {
    assume "lh_wf t" "lh_ready t a" and p: "lh_insert a ok d t = (r, t')"
    then have M: "lh_wf t" "num_items t + 1 < size_mod" "fresh_addr t a"
      by (simp_all add: lh_ready_def)
    show "lh_wf t' \<and> lh_same t' = lh_same t"
      using lh_insert_map(1) [OF M p] by (simp add: lh_same_funs_def lh_same_def fun_eq_iff)
    show "r = (case lh_retrieve t d of Some v \<Rightarrow> Some (Some v)
           | None \<Rightarrow> if a = None then None else Some None)"
      by (rule lh_insert_map(2) [OF M p])
  }
  {
    fix r' assume "lh_wf t" "lh_ready t a" and p: "lh_insert a ok d t = (Some r', t')"
    then have M: "lh_wf t" "num_items t + 1 < size_mod" "fresh_addr t a"
      by (simp_all add: lh_ready_def)
    show "lh_retrieve t' k = (if lh_same t d k then Some d else lh_retrieve t k)"
      using lh_insert_map(4) [OF M p] by (simp add: lh_same_def)
  }
  show "t' = t" if "lh_wf t" "lh_ready t a" "lh_insert a ok d t = (None, t')"
    using lh_insert_map(3) that by (metis lh_ready_def)
  show "lh_wf t' \<and> lh_same t' = lh_same t" if "lh_wf t" "lh_delete ok d t = (r, t')" for r
    using lh_delete_map(1) [OF that] by (simp add: lh_same_funs_def lh_same_def fun_eq_iff)
  show "r = lh_retrieve t d" if "lh_wf t" "lh_delete ok d t = (r, t')" for r
    using lh_delete_map(2) [OF that] .
  show "lh_retrieve t' k = (if lh_same t d k then None else lh_retrieve t k)"
    if "lh_wf t" "lh_delete ok d t = (r, t')" for r
    using lh_delete_map(4) [OF that] by (simp add: lh_same_def)
qed

section \<open>A concrete table\<close>

definition u32_cmp :: "u32 \<Rightarrow> u32 \<Rightarrow> int" where
  "u32_cmp x y = (if x = y then 0 else 1)"

definition table0 :: "u32 lhash" where
  "table0 = \<lparr>num_items = 0, buckets = replicate 16 [], num_buckets = 16, callback_depth = 0,
     lh_comp = u32_cmp, lh_hash = (\<lambda>x. x)\<rparr>"

definition table2 :: "u32 lhash" where
  "table2 = snd (lh_insert (Some 200) True 21 (snd (lh_insert (Some 100) True 5 table0)))"

lemma u32_key_ok: "key_ok (\<lambda>x. x) u32_cmp"
  by (simp add: key_ok_def u32_cmp_def)

lemma table0_new: "lh_new True True (\<lambda>x. x) u32_cmp = Some table0"
  by (simp add: lh_new_def table0_def kMinNumBuckets_def)

lemmas table_eval = lh_insert_def get_next_ptr_and_hash_def lh_maybe_resize_def table0_def
  kMaxAverageChainLength_def kMinAverageChainLength_def kMinNumBuckets_def u32_cmp_def Let_def

lemma table1_eval: "lh_insert (Some 100) True 5 table0 = (Some None, table0\<lparr>
  buckets := (replicate 16 [])[5 := [\<lparr>item_addr = 100, item_data = 5, item_hash = 5\<rparr>]],
  num_items := 1\<rparr>)"
  by (simp add: table_eval)

lemma table2_eval: "table2 = table0\<lparr>num_items := 2,
  buckets := (replicate 16 [])[5 := [\<lparr>item_addr = 100, item_data = 5, item_hash = 5\<rparr>,
     \<lparr>item_addr = 200, item_data = 21, item_hash = 21\<rparr>]]\<rparr>"
  unfolding table2_def table1_eval by (simp add: table_eval)

lemma table0_wf: "lh_wf table0" "lh_items table0 = {#}"
  using lh_new_wf [OF u32_key_ok table0_new] .

lemma concat_single: "i < n \<Longrightarrow> concat ((replicate n [])[i := c]) = c"
  by (simp add: upd_conv_take_nth_drop)

lemma table1_items: "concat (buckets (snd (lh_insert (Some 100) True 5 table0))) =
    [\<lparr>item_addr = 100, item_data = 5, item_hash = 5\<rparr>]"
  "num_items (snd (lh_insert (Some 100) True 5 table0)) = 1"
  by (simp_all add: table1_eval concat_single)

lemma table2_items: "concat (buckets table2) = [\<lparr>item_addr = 100, item_data = 5, item_hash = 5\<rparr>,
     \<lparr>item_addr = 200, item_data = 21, item_hash = 21\<rparr>]"
  "num_items table2 = 2" "num_buckets table2 = 16" "callback_depth table2 = 0"
  by (simp_all add: table2_eval concat_single) (simp_all add: table0_def)

lemma table2_wf: "lh_wf table2 \<and> tight table2 \<and> lh_comp table2 = u32_cmp"
proof -
  let ?t1 = "snd (lh_insert (Some 100) True 5 table0)"
  have c0: "num_items table0 + 1 < size_mod" "fresh_addr table0 (Some 100)"
    using table0_wf by (simp_all add: fresh_addr_def table0_def)
  have w1: "lh_wf ?t1 \<and> lh_same_funs table0 ?t1"
    using lh_insert_map(1) [OF table0_wf(1) c0] by (metis prod.collapse)
  have c1: "num_items ?t1 + 1 < size_mod" "fresh_addr ?t1 (Some 200)"
    by (simp_all add: table1_items fresh_addr_def lh_items_def del: set_concat)
  have "lh_wf table2 \<and> lh_same_funs ?t1 table2"
    using lh_insert_map(1) [OF conjunct1 [OF w1] c1] unfolding table2_def by (metis prod.collapse)
  moreover have "tight table2"
    using table2_items by (auto simp: tight_def kMinNumBuckets_def intro: exI [of _ 0])
  ultimately show ?thesis using w1 by (simp add: lh_same_funs_def table0_def)
qed

lemma table2_fresh: "fresh_addr table2 (Some 300)"
  by (simp add: table2_items fresh_addr_def lh_items_def del: set_concat)

lemma lh_insert_refines_map_witness:
  "lh_retrieve (snd (lh_insert (Some 300) True 7 table2)) 7 = Some 7"
  using lh_insert_refines_map [of table2 "Some 300" 7 True] table2_wf table2_fresh table2_items
  by (auto simp: u32_cmp_def split: prod.splits option.splits if_splits)

lemma lh_delete_refines_map_witness:
  "lh_retrieve (snd (lh_delete True 21 table2)) 21 = None"
  using lh_delete_refines_map [of table2 21 True] table2_wf
  by (auto simp: u32_cmp_def split: prod.splits)

lemma lh_load_factor_witness: "tight (snd (lh_delete True 21 table2))"
  using lh_load_factor [of table2 "Some 300" 21] table2_wf table2_fresh table2_items
  by (simp add: sizeof_ptr_def)

lemma lh_doall_visits_witness:
  "\<exists>lh'. lh_doall_internal 19 True (\<lambda>d lh s. (snd (lh_delete True d lh), s @ [d])) table2 [] =
    Some (lh', [5, 21]) \<and> lh_wf lh'"
  using lh_doall_visits [of table2 "\<lambda>d lh s. (snd (lh_delete True d lh), s @ [d])" 19 True]
    table2_wf table2_items
  by (auto simp: self_deleting_def UINT_MAX_def)

end
