(* ===== verification/Refcount.thy ===== *)
theory Refcount
  imports Prelude
begin

text \<open>
  Saturating reference counts.  \<open>crypto/refcount_lock.c\<close> changes the counter under a mutex,
  which makes each operation a function on the counter.  \<open>crypto/refcount_c11.c\<close> is a
  compare-and-swap loop; it is a transition system here, with an arbitrary number of
  threads, spurious failures of the weak compare-and-swap, and \<open>abort\<close>.  The theorem shows
  that the loop refines the locked operations.
\<close>

definition CRYPTO_REFCOUNT_MAX :: u32 where
  "CRYPTO_REFCOUNT_MAX = 0xFFFFFFFF"

section \<open>The locked operations\<close>

definition refcount_inc_lock :: "u32 \<Rightarrow> u32" where
  "refcount_inc_lock count = (if count < CRYPTO_REFCOUNT_MAX then count + 1 else count)"

text \<open>\<open>None\<close> is \<open>abort\<close>.\<close>

definition refcount_dec_and_test_zero_lock :: "u32 \<Rightarrow> (bool \<times> u32) option" where
  "refcount_dec_and_test_zero_lock count =
    (if count = 0 then None
     else let c = (if count < CRYPTO_REFCOUNT_MAX then count - 1 else count) in Some (c = 0, c))"

section \<open>The compare-and-swap loop\<close>

datatype rc_op = Op_inc | Op_dec

datatype rc_pc = Idle | Loaded rc_op u32 | Aborted

text \<open>
  \<open>atomic_compare_exchange_weak\<close>: on success the new value is stored; on failure, real or
  spurious, \<open>expected\<close> receives the current value.
\<close>

definition cas_weak :: "bool \<Rightarrow> u32 \<Rightarrow> u32 \<Rightarrow> u32 \<Rightarrow> bool \<times> u32 \<times> u32" where
  "cas_weak spurious count expected new_value =
    (if \<not> spurious \<and> count = expected then (True, expected, new_value)
     else (False, count, count))"

text \<open>
  One iteration of a thread that has loaded \<open>expected\<close>: the loop test and, unless it ends the
  loop, one compare-and-swap.  The result of a finished operation is what it returns.
\<close>

datatype rc_outcome = Again u32 | Finished bool | Abort

definition refcount_inc_iter :: "bool \<Rightarrow> u32 \<Rightarrow> u32 \<Rightarrow> rc_outcome \<times> u32" where
  "refcount_inc_iter spurious expected count =
    (if expected = CRYPTO_REFCOUNT_MAX then (Finished False, count)
     else (case cas_weak spurious count expected (expected + 1) of
         (True, _, count') \<Rightarrow> (Finished False, count')
       | (False, expected', count') \<Rightarrow> (Again expected', count')))"

definition refcount_dec_iter :: "bool \<Rightarrow> u32 \<Rightarrow> u32 \<Rightarrow> rc_outcome \<times> u32" where
  "refcount_dec_iter spurious expected count =
    (if expected = 0 then (Abort, count)
     else if expected = CRYPTO_REFCOUNT_MAX then (Finished False, count)
     else
       let new_value = expected - 1 in
       (case cas_weak spurious count expected new_value of
          (True, _, count') \<Rightarrow> (Finished (new_value = 0), count')
        | (False, expected', count') \<Rightarrow> (Again expected', count')))"

definition rc_iter :: "rc_op \<Rightarrow> bool \<Rightarrow> u32 \<Rightarrow> u32 \<Rightarrow> rc_outcome \<times> u32" where
  "rc_iter p = (case p of Op_inc \<Rightarrow> refcount_inc_iter | Op_dec \<Rightarrow> refcount_dec_iter)"

text \<open>
  The system: the counter, the program counter of each thread, and the log of finished
  operations with their results, oldest first.
\<close>

record rc_state =
  rc_count :: u32
  rc_pcs :: "nat \<Rightarrow> rc_pc"
  rc_log :: "(rc_op \<times> bool) list"

inductive rc_step :: "rc_state \<Rightarrow> rc_state \<Rightarrow> bool" where
  load: "rc_pcs s t = Idle \<Longrightarrow>
    rc_step s (s\<lparr>rc_pcs := (rc_pcs s)(t := Loaded p (rc_count s))\<rparr>)"
| again: "rc_pcs s t = Loaded p e \<Longrightarrow> rc_iter p spurious e (rc_count s) = (Again e', c) \<Longrightarrow>
    rc_step s (s\<lparr>rc_count := c, rc_pcs := (rc_pcs s)(t := Loaded p e')\<rparr>)"
| finish: "rc_pcs s t = Loaded p e \<Longrightarrow> rc_iter p spurious e (rc_count s) = (Finished r, c) \<Longrightarrow>
    rc_step s (s\<lparr>rc_count := c, rc_pcs := (rc_pcs s)(t := Idle), rc_log := rc_log s @ [(p, r)]\<rparr>)"
| abort: "rc_pcs s t = Loaded p e \<Longrightarrow> rc_iter p spurious e (rc_count s) = (Abort, c) \<Longrightarrow>
    rc_step s (s\<lparr>rc_pcs := (rc_pcs s)(t := Aborted)\<rparr>)"

definition rc_init :: "u32 \<Rightarrow> rc_state" where
  "rc_init n = \<lparr>rc_count = n, rc_pcs = (\<lambda>_. Idle), rc_log = []\<rparr>"

inductive rc_reachable :: "u32 \<Rightarrow> rc_state \<Rightarrow> bool" for n where
  init: "rc_reachable n (rc_init n)"
| step: "rc_reachable n s \<Longrightarrow> rc_step s s' \<Longrightarrow> rc_reachable n s'"

text \<open>Running the locked operations one after the other, with their results.\<close>

fun run_locked :: "u32 \<Rightarrow> (rc_op \<times> bool) list \<Rightarrow> u32 option" where
  "run_locked c [] = Some c"
| "run_locked c ((Op_inc, r) # log) = (if r then None else run_locked (refcount_inc_lock c) log)"
| "run_locked c ((Op_dec, r) # log) =
    (case refcount_dec_and_test_zero_lock c of
       None \<Rightarrow> None
     | Some (z, c') \<Rightarrow> if r = z then run_locked c' log else None)"

section \<open>Refinement\<close>

lemma run_locked_append:
  "run_locked c (xs @ ys) = (case run_locked c xs of None \<Rightarrow> None | Some d \<Rightarrow> run_locked d ys)"
  by (induction c xs rule: run_locked.induct) (auto split: option.splits)

lemma max_top: "(c :: u32) < CRYPTO_REFCOUNT_MAX \<longleftrightarrow> c \<noteq> CRYPTO_REFCOUNT_MAX"
proof -
  have "CRYPTO_REFCOUNT_MAX = (-1 :: u32)" by (simp add: CRYPTO_REFCOUNT_MAX_def)
  then show ?thesis using word_order.not_eq_extremum [of c] by simp
qed

text \<open>A saturated counter never moves again, so a thread that saw it saturated is right.\<close>

definition rc_inv :: "rc_state \<Rightarrow> bool" where
  "rc_inv s \<longleftrightarrow> (\<forall>t p. rc_pcs s t = Loaded p CRYPTO_REFCOUNT_MAX \<longrightarrow>
     rc_count s = CRYPTO_REFCOUNT_MAX)"

lemma rc_iter_again:
  "rc_iter p spurious e c = (Again e', c') \<Longrightarrow> c' = c \<and> e' = c"
  by (auto simp: rc_iter_def refcount_inc_iter_def refcount_dec_iter_def cas_weak_def Let_def
      split: rc_op.splits if_splits)

lemma rc_iter_finished:
  assumes "rc_iter p spurious e c = (Finished r, c')"
    and "e = CRYPTO_REFCOUNT_MAX \<Longrightarrow> c = CRYPTO_REFCOUNT_MAX"
  shows "run_locked c [(p, r)] = Some c'" "c = CRYPTO_REFCOUNT_MAX \<Longrightarrow> c' = c"
  using assms
  by (auto simp: rc_iter_def refcount_inc_iter_def refcount_dec_iter_def cas_weak_def Let_def
      refcount_inc_lock_def refcount_dec_and_test_zero_lock_def max_top
      split: rc_op.splits if_splits)

lemma rc_step_sim:
  assumes "rc_step s s'" "rc_inv s"
  shows "rc_inv s' \<and> (\<exists>log. rc_log s' = rc_log s @ log \<and>
    run_locked (rc_count s) log = Some (rc_count s'))"
  using assms(1)
proof cases
  case (load t p)
  then show ?thesis using assms(2) by (auto simp: rc_inv_def)
next
  case (again t p e spurious e' c)
  then show ?thesis
    using assms(2) rc_iter_again [OF again(3)] by (auto simp: rc_inv_def)
next
  case (finish t p e spurious r c)
  have m: "e = CRYPTO_REFCOUNT_MAX \<Longrightarrow> rc_count s = CRYPTO_REFCOUNT_MAX"
    using assms(2) finish(2) by (auto simp: rc_inv_def)
  note F = rc_iter_finished [OF finish(3) m]
  have "rc_inv s'" using assms(2) F(2) finish(1) by (auto simp: rc_inv_def)
  then show ?thesis using F(1) finish(1) by (auto intro!: exI [of _ "[(p, r)]"])
next
  case (abort t p e spurious c)
  then show ?thesis using assms(2) by (auto simp: rc_inv_def)
qed

lemma rc_reachable_log:
  "rc_reachable n s \<Longrightarrow> rc_inv s \<and> run_locked n (rc_log s) = Some (rc_count s)"
proof (induction rule: rc_reachable.induct)
  case init
  then show ?case by (simp add: rc_init_def rc_inv_def)
next
  case (step s s')
  then show ?case using rc_step_sim [OF step(2)] by (auto simp: run_locked_append)
qed

text \<open>
  C23: the lock-free reference count is linearizable.  In every interleaving of any number of
  threads, with spurious compare-and-swap failures, the counter and all results returned so
  far are those of the mutex version run sequentially in the order in which the operations
  finished; in particular exactly one decrement sees zero.
\<close>

theorem refcount_c11_refines_lock:
  assumes "rc_reachable n s"
  shows "run_locked n (rc_log s) = Some (rc_count s)"
  using rc_reachable_log [OF assms] by blast

lemma refcount_c11_refines_lock_witness:
  "run_locked 1 [(Op_dec, True)] = Some 0"
proof -
  let ?s1 = "(rc_init 1)\<lparr>rc_pcs := (\<lambda>_. Idle)(0 := Loaded Op_dec 1)\<rparr>"
  let ?s2 = "?s1\<lparr>rc_count := 0, rc_pcs := (\<lambda>_. Idle)(0 := Idle), rc_log := [(Op_dec, True)]\<rparr>"
  have 1: "rc_step (rc_init 1) ?s1"
    using rc_step.load [of "rc_init 1" 0 Op_dec] by (simp add: rc_init_def)
  have "rc_iter Op_dec False 1 (rc_count ?s1) = (Finished True, 0)"
    by (simp add: rc_iter_def refcount_dec_iter_def cas_weak_def rc_init_def CRYPTO_REFCOUNT_MAX_def)
  from rc_step.finish [of ?s1 0, OF _ this]
  have 2: "rc_step ?s1 ?s2" by (simp add: rc_init_def)
  have "rc_reachable 1 ?s2" by (rule rc_reachable.step [OF rc_reachable.step [OF rc_reachable.init 1] 2])
  from refcount_c11_refines_lock [OF this] show ?thesis by (simp add: rc_init_def)
qed

end
