(* ===== verification/Pool.thy ===== *)
theory Pool
  imports Lhash Refcount
begin

text \<open>
  The pool of interned buffers (\<open>crypto/pool/pool.c\<close>), a client of the hash table and of the
  reference counts.  The objects on the heap are a map from addresses to a buffer with its
  count.  An operation is split where it takes or releases the pool's lock, and threads
  interleave at these points.
\<close>

section \<open>Buffers\<close>

record crypto_buffer =
  cb_ptr :: nat
  cb_pool :: bool
  cb_data :: "u8 list"

text \<open>The field \<open>len\<close> is the length of \<open>data\<close>: no operation changes it after creation.\<close>

definition CRYPTO_BUFFER_data :: "crypto_buffer \<Rightarrow> u8 list" where
  "CRYPTO_BUFFER_data buf = cb_data buf"

definition CRYPTO_BUFFER_len :: "crypto_buffer \<Rightarrow> size_t" where
  "CRYPTO_BUFFER_len buf = length (cb_data buf)"

definition CRYPTO_BUFFER_hash :: "crypto_buffer \<Rightarrow> u32" where
  "CRYPTO_BUFFER_hash buf = OPENSSL_hash32 (cb_data buf) (CRYPTO_BUFFER_len buf)"

text \<open>\<open>memcmp\<close>: the sign of the first difference.\<close>

fun c_memcmp :: "u8 list \<Rightarrow> u8 list \<Rightarrow> nat \<Rightarrow> int" where
  "c_memcmp (a # as) (b # bs) (Suc n) =
    (if a = b then c_memcmp as bs n else if a < b then - 1 else 1)"
| "c_memcmp _ _ _ = 0"

definition CRYPTO_BUFFER_cmp :: "crypto_buffer \<Rightarrow> crypto_buffer \<Rightarrow> int" where
  "CRYPTO_BUFFER_cmp a b =
    (if CRYPTO_BUFFER_len a \<noteq> CRYPTO_BUFFER_len b then 1
     else c_memcmp (cb_data a) (cb_data b) (CRYPTO_BUFFER_len a))"

section \<open>Operations\<close>

record pool_state =
  ps_bufs :: "crypto_buffer lhash"
  ps_objs :: "nat \<Rightarrow> (crypto_buffer \<times> u32) option"

definition CRYPTO_BUFFER_POOL_new :: "bool \<Rightarrow> bool \<Rightarrow> bool \<Rightarrow> pool_state option" where
  "CRYPTO_BUFFER_POOL_new pool_ok lh_ok buckets_ok =
    (if \<not> pool_ok then None
     else (case lh_new lh_ok buckets_ok CRYPTO_BUFFER_hash CRYPTO_BUFFER_cmp of
         None \<Rightarrow> None
       | Some bufs \<Rightarrow> Some \<lparr>ps_bufs = bufs, ps_objs = Map.empty\<rparr>))"

definition pool_ref_inc :: "crypto_buffer \<Rightarrow> pool_state \<Rightarrow> pool_state" where
  "pool_ref_inc b s = (case ps_objs s (cb_ptr b) of
     None \<Rightarrow> s
   | Some (o', n) \<Rightarrow> s\<lparr>ps_objs := (ps_objs s)(cb_ptr b \<mapsto> (o', refcount_inc_lock n))\<rparr>)"

text \<open>\<open>CRYPTO_BUFFER_new\<close> up to its first unlock: look for a duplicate and take a reference.\<close>

definition CRYPTO_BUFFER_new_lookup ::
  "u8 list \<Rightarrow> pool_state \<Rightarrow> crypto_buffer option \<times> pool_state" where
  "CRYPTO_BUFFER_new_lookup dat s =
    (let tmp = \<lparr>cb_ptr = 0, cb_pool = False, cb_data = dat\<rparr> in
     (case lh_retrieve (ps_bufs s) tmp of
        None \<Rightarrow> (None, s)
      | Some duplicate \<Rightarrow> (Some duplicate, pool_ref_inc duplicate s)))"

text \<open>
  Without the lock: allocate the object at \<open>a\<close> and copy the data; \<open>pool\<close> says whether the
  buffer belongs to the pool.
\<close>

definition CRYPTO_BUFFER_new_alloc ::
  "nat option \<Rightarrow> bool \<Rightarrow> bool \<Rightarrow> u8 list \<Rightarrow> pool_state \<Rightarrow> crypto_buffer option \<times> pool_state" where
  "CRYPTO_BUFFER_new_alloc a dup_ok pool dat s =
    (case a of None \<Rightarrow> (None, s) | Some p \<Rightarrow>
       if length dat \<noteq> 0 \<and> \<not> dup_ok then (None, s)
       else let buf = \<lparr>cb_ptr = p, cb_pool = pool, cb_data = dat\<rparr> in
         (Some buf, s\<lparr>ps_objs := (ps_objs s)(p \<mapsto> (buf, 1))\<rparr>))"

text \<open>
  The second critical section and what follows it: insert the buffer unless another thread
  has been faster or the insertion fails, in which case it is released.
\<close>

definition CRYPTO_BUFFER_new_insert ::
  "nat option \<Rightarrow> bool \<Rightarrow> crypto_buffer \<Rightarrow> pool_state \<Rightarrow> crypto_buffer option \<times> pool_state" where
  "CRYPTO_BUFFER_new_insert item_alloc alloc_ok buf s =
    (case lh_retrieve (ps_bufs s) buf of
       None \<Rightarrow>
         (case lh_insert item_alloc alloc_ok buf (ps_bufs s) of
            (None, bufs) \<Rightarrow>
              (None, s\<lparr>ps_bufs := bufs, ps_objs := (ps_objs s)(cb_ptr buf := None)\<rparr>)
          | (Some _, bufs) \<Rightarrow> (Some buf, s\<lparr>ps_bufs := bufs\<rparr>))
     | Some duplicate \<Rightarrow>
         (let s1 = pool_ref_inc duplicate s in
          (Some duplicate, s1\<lparr>ps_objs := (ps_objs s1)(cb_ptr buf := None)\<rparr>)))"

text \<open>\<open>None\<close> is \<open>abort\<close> or an access to an object that is gone.\<close>

definition CRYPTO_BUFFER_free :: "bool \<Rightarrow> crypto_buffer \<Rightarrow> pool_state \<Rightarrow> pool_state option" where
  "CRYPTO_BUFFER_free alloc_ok buf s =
    (case ps_objs s (cb_ptr buf) of None \<Rightarrow> None | Some (o', n) \<Rightarrow>
      (case refcount_dec_and_test_zero_lock n of None \<Rightarrow> None | Some (zero, n') \<Rightarrow>
        if \<not> zero then Some (s\<lparr>ps_objs := (ps_objs s)(cb_ptr buf \<mapsto> (o', n'))\<rparr>)
        else if \<not> cb_pool buf then Some (s\<lparr>ps_objs := (ps_objs s)(cb_ptr buf := None)\<rparr>)
        else (case lh_delete alloc_ok buf (ps_bufs s) of
            (None, bufs) \<Rightarrow> None
          | (Some found, bufs) \<Rightarrow>
              if found = buf
              then Some (s\<lparr>ps_bufs := bufs, ps_objs := (ps_objs s)(cb_ptr buf := None)\<rparr>)
              else None)))"

definition CRYPTO_BUFFER_up_ref :: "crypto_buffer \<Rightarrow> pool_state \<Rightarrow> pool_state" where
  "CRYPTO_BUFFER_up_ref buf s = pool_ref_inc buf s"

section \<open>Threads\<close>

text \<open>
  \<open>pc\<close> is where each thread is inside \<open>CRYPTO_BUFFER_new\<close>; \<open>held\<close> is the collection of the
  references that callers own.
\<close>

datatype pool_pc = Outside | Allocating "u8 list" | Inserting crypto_buffer

record pool_sys =
  sys_pool :: pool_state
  sys_pc :: "nat \<Rightarrow> pool_pc"
  sys_held :: "crypto_buffer multiset"

inductive pool_step :: "pool_sys \<Rightarrow> pool_sys \<Rightarrow> bool" where
  new_found: "sys_pc s t = Outside \<Longrightarrow>
    CRYPTO_BUFFER_new_lookup dat (sys_pool s) = (Some b, p) \<Longrightarrow>
    pool_step s (s\<lparr>sys_pool := p, sys_held := add_mset b (sys_held s)\<rparr>)"
| new_missing: "sys_pc s t = Outside \<Longrightarrow>
    CRYPTO_BUFFER_new_lookup dat (sys_pool s) = (None, p) \<Longrightarrow>
    pool_step s (s\<lparr>sys_pool := p, sys_pc := (sys_pc s)(t := Allocating dat)\<rparr>)"
| new_nomem: "sys_pc s t = Allocating dat \<Longrightarrow>
    CRYPTO_BUFFER_new_alloc a ok True dat (sys_pool s) = (None, p) \<Longrightarrow>
    pool_step s (s\<lparr>sys_pool := p, sys_pc := (sys_pc s)(t := Outside)\<rparr>)"
| new_alloc: "sys_pc s t = Allocating dat \<Longrightarrow> ps_objs (sys_pool s) a = None \<Longrightarrow>
    CRYPTO_BUFFER_new_alloc (Some a) ok True dat (sys_pool s) = (Some b, p) \<Longrightarrow>
    pool_step s (s\<lparr>sys_pool := p, sys_pc := (sys_pc s)(t := Inserting b)\<rparr>)"
| new_done: "sys_pc s t = Inserting b \<Longrightarrow> lh_ready (ps_bufs (sys_pool s)) a \<Longrightarrow>
    CRYPTO_BUFFER_new_insert a ok b (sys_pool s) = (Some b', p) \<Longrightarrow>
    pool_step s (s\<lparr>sys_pool := p, sys_pc := (sys_pc s)(t := Outside),
      sys_held := add_mset b' (sys_held s)\<rparr>)"
| new_failed: "sys_pc s t = Inserting b \<Longrightarrow> lh_ready (ps_bufs (sys_pool s)) a \<Longrightarrow>
    CRYPTO_BUFFER_new_insert a ok b (sys_pool s) = (None, p) \<Longrightarrow>
    pool_step s (s\<lparr>sys_pool := p, sys_pc := (sys_pc s)(t := Outside)\<rparr>)"
| new_unpooled: "ps_objs (sys_pool s) a = None \<Longrightarrow>
    CRYPTO_BUFFER_new_alloc (Some a) ok False dat (sys_pool s) = (Some b, p) \<Longrightarrow>
    pool_step s (s\<lparr>sys_pool := p, sys_held := add_mset b (sys_held s)\<rparr>)"
| up_ref: "b \<in># sys_held s \<Longrightarrow>
    pool_step s (s\<lparr>sys_pool := CRYPTO_BUFFER_up_ref b (sys_pool s),
      sys_held := add_mset b (sys_held s)\<rparr>)"
| free: "b \<in># sys_held s \<Longrightarrow> CRYPTO_BUFFER_free ok b (sys_pool s) = Some p \<Longrightarrow>
    pool_step s (s\<lparr>sys_pool := p, sys_held := sys_held s - {#b#}\<rparr>)"

inductive pool_reachable :: "pool_sys \<Rightarrow> bool" where
  init: "CRYPTO_BUFFER_POOL_new True True True = Some p \<Longrightarrow>
    pool_reachable \<lparr>sys_pool = p, sys_pc = (\<lambda>_. Outside), sys_held = {#}\<rparr>"
| step: "pool_reachable s \<Longrightarrow> pool_step s s' \<Longrightarrow> pool_reachable s'"

section \<open>The functions given to the table\<close>

lemma c_memcmp_0:
  "length a = length b \<Longrightarrow> c_memcmp a b (length a) = 0 \<longleftrightarrow> a = b"
  by (induction a b "length a" rule: c_memcmp.induct) auto

lemma CRYPTO_BUFFER_cmp_0: "CRYPTO_BUFFER_cmp a b = 0 \<longleftrightarrow> cb_data a = cb_data b"
  using c_memcmp_0 [of "cb_data a" "cb_data b"]
  by (auto simp: CRYPTO_BUFFER_cmp_def CRYPTO_BUFFER_len_def)

text \<open>The interface the table asks for, and what follows from it for every table.\<close>

locale lhash_key =
  fixes hsh :: "'a \<Rightarrow> u32" and cmp :: "'a \<Rightarrow> 'a \<Rightarrow> int"
  assumes cmp_refl: "cmp x x = 0"
    and cmp_sym: "cmp x y = 0 \<Longrightarrow> cmp y x = 0"
    and cmp_trans: "cmp x y = 0 \<Longrightarrow> cmp y z = 0 \<Longrightarrow> cmp x z = 0"
    and hash_cmp: "cmp x y = 0 \<Longrightarrow> hsh x = hsh y"
begin

lemma key_ok: "key_ok hsh cmp"
  unfolding key_ok_def using cmp_refl cmp_sym cmp_trans hash_cmp by blast

lemma new_table:
  assumes "lh_new a b hsh cmp = Some t"
  shows "lh_wf t" "lh_comp t = cmp" "lh_retrieve t d = None"
proof -
  have new: "lh_new True True hsh cmp = Some t" "lh_comp t = cmp"
    using assms by (auto simp: lh_new_def split: if_splits)
  show wf: "lh_wf t" and "lh_comp t = cmp" using lh_new_wf(1) [OF key_ok new(1)] new(2) .
  show "lh_retrieve t d = None"
    using lh_retrieve_None [OF wf, of d] lh_new_wf(2) [OF key_ok new(1)] by simp
qed

end

interpretation buffer_key: lhash_key CRYPTO_BUFFER_hash CRYPTO_BUFFER_cmp
proof
  fix x y z :: crypto_buffer
  show "CRYPTO_BUFFER_cmp x x = 0" by (simp add: CRYPTO_BUFFER_cmp_0)
  show "CRYPTO_BUFFER_cmp x y = 0 \<Longrightarrow> CRYPTO_BUFFER_cmp y x = 0"
    by (simp add: CRYPTO_BUFFER_cmp_0)
  show "CRYPTO_BUFFER_cmp x y = 0 \<Longrightarrow> CRYPTO_BUFFER_cmp y z = 0 \<Longrightarrow> CRYPTO_BUFFER_cmp x z = 0"
    by (simp add: CRYPTO_BUFFER_cmp_0)
  show "CRYPTO_BUFFER_cmp x y = 0 \<Longrightarrow> CRYPTO_BUFFER_hash x = CRYPTO_BUFFER_hash y"
    by (simp add: CRYPTO_BUFFER_cmp_0 CRYPTO_BUFFER_hash_def CRYPTO_BUFFER_len_def)
qed


section \<open>The invariant\<close>

abbreviation sys_look :: "pool_sys \<Rightarrow> crypto_buffer \<Rightarrow> crypto_buffer option" where
  "sys_look s \<equiv> lh_retrieve (ps_bufs (sys_pool s))"

text \<open>The object behind a buffer is alive and its count is the number of references.\<close>

definition counted ::
  "(nat \<Rightarrow> (crypto_buffer \<times> u32) option) \<Rightarrow> crypto_buffer multiset \<Rightarrow> crypto_buffer \<Rightarrow> bool" where
  "counted objs held b \<longleftrightarrow> (\<exists>r. objs (cb_ptr b) = Some (b, r) \<and> r \<noteq> 0 \<and>
     (r = CRYPTO_REFCOUNT_MAX \<or> unat r = count held b))"

definition in_flight :: "pool_sys \<Rightarrow> nat \<Rightarrow> crypto_buffer \<Rightarrow> bool" where
  "in_flight s t b \<longleftrightarrow> ps_objs (sys_pool s) (cb_ptr b) = Some (b, 1) \<and> cb_pool b \<and>
     b \<notin># sys_held s \<and> sys_look s b \<noteq> Some b \<and>
     (\<forall>t'. t' \<noteq> t \<longrightarrow> sys_pc s t' \<noteq> Inserting b)"

definition pool_inv :: "pool_sys \<Rightarrow> bool" where
  "pool_inv s \<longleftrightarrow> lh_wf (ps_bufs (sys_pool s)) \<and>
     lh_comp (ps_bufs (sys_pool s)) = CRYPTO_BUFFER_cmp \<and>
     (\<forall>k v. sys_look s k = Some v \<longrightarrow>
        cb_pool v \<and> counted (ps_objs (sys_pool s)) (sys_held s) v) \<and>
     (\<forall>b \<in># sys_held s. counted (ps_objs (sys_pool s)) (sys_held s) b \<and>
        (cb_pool b \<longrightarrow> sys_look s b = Some b)) \<and>
     (\<forall>t b. sys_pc s t = Inserting b \<longrightarrow> in_flight s t b)"

lemma same_iff:
  "pool_inv s \<Longrightarrow> lh_same (ps_bufs (sys_pool s)) a b \<longleftrightarrow> cb_data a = cb_data b"
  by (simp add: pool_inv_def lh_same_def CRYPTO_BUFFER_cmp_0)

lemma look_content:
  assumes inv: "pool_inv s" and look: "sys_look s k = Some v"
  shows "cb_data v = cb_data k" "sys_look s v = Some v"
proof -
  have wf: "lh_wf (ps_bufs (sys_pool s))" using inv by (simp add: pool_inv_def)
  have same: "lh_same (ps_bufs (sys_pool s)) v k" using lh.look_same [OF wf look] .
  then show "cb_data v = cb_data k" using same_iff [OF inv] by simp
  show "sys_look s v = Some v" using lh.look_ext [OF wf same] look by simp
qed

lemma counted_live: "counted objs held b \<Longrightarrow> \<exists>r. objs (cb_ptr b) = Some (b, r) \<and> r \<noteq> 0"
  by (auto simp: counted_def)

lemma counted_ptr_inj:
  "objs (cb_ptr a) = Some (a, r) \<Longrightarrow> counted objs held b \<Longrightarrow> b \<noteq> a \<Longrightarrow> cb_ptr b \<noteq> cb_ptr a"
  by (auto simp: counted_def)

lemma counted_frame:
  assumes "counted objs held b" "objs (cb_ptr a) = Some (a, r)" "b \<noteq> a" "count held' b = count held b"
  shows "counted (objs(cb_ptr a := x)) held' b"
  using assms counted_ptr_inj [of objs a r held b] by (auto simp: counted_def)

lemma refcount_inc_unat:
  assumes "r \<noteq> CRYPTO_REFCOUNT_MAX"
  shows "unat (refcount_inc_lock r) = Suc (unat r) \<and> refcount_inc_lock r \<noteq> 0"
proof -
  have "r + 1 \<noteq> 0"
  proof
    assume "r + 1 = 0"
    then have "r = - 1" by (simp only: eq_neg_iff_add_eq_0)
    with assms show False by (simp add: CRYPTO_REFCOUNT_MAX_def)
  qed
  then show ?thesis using assms unatSuc [of r] by (simp add: refcount_inc_lock_def max_top add.commute)
qed

lemma refcount_inc_max: "refcount_inc_lock CRYPTO_REFCOUNT_MAX = CRYPTO_REFCOUNT_MAX"
  by (simp add: refcount_inc_lock_def)

lemma counted_inc:
  assumes "counted objs held b" "objs (cb_ptr b) = Some (b, r)"
  shows "counted (objs(cb_ptr b \<mapsto> (b, refcount_inc_lock r))) (add_mset b held) b"
  using assms refcount_inc_unat [of r] refcount_inc_max by (cases "r = CRYPTO_REFCOUNT_MAX") (auto simp: counted_def)

lemma pool_ref_inc_eq:
  "ps_objs s (cb_ptr b) = Some (b, r) \<Longrightarrow>
   pool_ref_inc b s = s\<lparr>ps_objs := (ps_objs s)(cb_ptr b \<mapsto> (b, refcount_inc_lock r))\<rparr>"
  by (simp add: pool_ref_inc_def)

text \<open>Taking a reference to a buffer that is alive.\<close>

lemma inv_take_ref:
  assumes inv: "pool_inv s" and cnt: "counted (ps_objs (sys_pool s)) (sys_held s) b"
    and look: "cb_pool b \<Longrightarrow> sys_look s b = Some b"
  shows "pool_inv (s\<lparr>sys_pool := pool_ref_inc b (sys_pool s), sys_held := add_mset b (sys_held s)\<rparr>)"
proof -
  let ?o = "ps_objs (sys_pool s)"
  obtain r where r: "?o (cb_ptr b) = Some (b, r)" using counted_live [OF cnt] by blast
  let ?o' = "?o(cb_ptr b \<mapsto> (b, refcount_inc_lock r))"
  have cnt': "counted ?o' (add_mset b (sys_held s)) v" if "counted ?o (sys_held s) v" for v
  proof (cases "v = b")
    case True
    then show ?thesis using counted_inc [OF cnt r] by simp
  next
    case False
    then show ?thesis using counted_frame [OF that r False] by simp
  qed
  have fl: "in_flight (s\<lparr>sys_pool := (sys_pool s)\<lparr>ps_objs := ?o'\<rparr>, sys_held := add_mset b (sys_held s)\<rparr>) t c"
    if pc: "sys_pc s t = Inserting c" for t c
  proof -
    have c: "in_flight s t c" using inv pc by (simp add: pool_inv_def)
    then have "c \<noteq> b" using look by (auto simp: in_flight_def)
    moreover from this have "cb_ptr c \<noteq> cb_ptr b" using c r by (auto simp: in_flight_def)
    ultimately show ?thesis using c by (simp add: in_flight_def)
  qed
  show ?thesis
    using inv cnt' fl look cnt by (auto simp: pool_inv_def pool_ref_inc_eq [OF r])
qed

text \<open>Releasing an object that only one thread knows.\<close>

lemma inv_drop_private:
  assumes inv: "pool_inv s" and pc: "sys_pc s t = Inserting b"
  shows "pool_inv (s\<lparr>sys_pool := (sys_pool s)\<lparr>ps_objs := (ps_objs (sys_pool s))(cb_ptr b := None)\<rparr>,
    sys_pc := (sys_pc s)(t := Outside)\<rparr>)"
proof -
  let ?o = "ps_objs (sys_pool s)"
  have b: "in_flight s t b" using inv pc by (simp add: pool_inv_def)
  then have r: "?o (cb_ptr b) = Some (b, 1)" by (simp add: in_flight_def)
  have A: "counted (?o(cb_ptr b := None)) (sys_held s) v" if v: "sys_look s k = Some v" for k v
  proof -
    have "v \<noteq> b" using look_content(2) [OF inv v] b by (auto simp: in_flight_def)
    moreover have "counted ?o (sys_held s) v" using inv v by (auto simp: pool_inv_def)
    ultimately show ?thesis using counted_frame r by blast
  qed
  have B: "counted (?o(cb_ptr b := None)) (sys_held s) v" if "v \<in># sys_held s" for v
  proof -
    have "v \<noteq> b" using that b by (auto simp: in_flight_def)
    moreover have "counted ?o (sys_held s) v" using inv that by (auto simp: pool_inv_def)
    ultimately show ?thesis using counted_frame r by blast
  qed
  have C: "in_flight (s\<lparr>sys_pool := (sys_pool s)\<lparr>ps_objs := ?o(cb_ptr b := None)\<rparr>,
      sys_pc := (sys_pc s)(t := Outside)\<rparr>) u c"
    if "sys_pc s u = Inserting c" "u \<noteq> t" for u c
  proof -
    have c: "in_flight s u c" using inv that by (simp add: pool_inv_def)
    have "c \<noteq> b" using b that by (auto simp: in_flight_def)
    then have "cb_ptr c \<noteq> cb_ptr b" using c r by (auto simp: in_flight_def)
    then show ?thesis using c by (auto simp: in_flight_def)
  qed
  show ?thesis using inv A B C by (auto simp: pool_inv_def split: if_splits)
qed


lemma pool_invI:
  assumes "lh_wf (ps_bufs (sys_pool s))" "lh_comp (ps_bufs (sys_pool s)) = CRYPTO_BUFFER_cmp"
    and "\<And>k v. sys_look s k = Some v \<Longrightarrow> cb_pool v \<and> counted (ps_objs (sys_pool s)) (sys_held s) v"
    and "\<And>b. b \<in># sys_held s \<Longrightarrow> counted (ps_objs (sys_pool s)) (sys_held s) b \<and>
        (cb_pool b \<longrightarrow> sys_look s b = Some b)"
    and "\<And>t b. sys_pc s t = Inserting b \<Longrightarrow> in_flight s t b"
  shows "pool_inv s"
  using assms unfolding pool_inv_def by blast

lemma pool_invD:
  assumes "pool_inv s"
  shows "lh_wf (ps_bufs (sys_pool s))" "lh_comp (ps_bufs (sys_pool s)) = CRYPTO_BUFFER_cmp"
    "sys_look s k = Some v \<Longrightarrow> cb_pool v" "sys_look s k = Some v \<Longrightarrow> counted (ps_objs (sys_pool s)) (sys_held s) v"
    "b \<in># sys_held s \<Longrightarrow> counted (ps_objs (sys_pool s)) (sys_held s) b"
    "b \<in># sys_held s \<Longrightarrow> cb_pool b \<Longrightarrow> sys_look s b = Some b"
    "sys_pc s t = Inserting b \<Longrightarrow> in_flight s t b"
  using assms unfolding pool_inv_def by blast+

text \<open>A thread publishes its buffer, the table having no equal one.\<close>

lemma inv_publish:
  assumes inv: "pool_inv s" and pc: "sys_pc s t = Inserting b"
    and new: "sys_look s b = None" and rdy: "lh_ready (ps_bufs (sys_pool s)) a"
    and ins: "lh_insert a ok b (ps_bufs (sys_pool s)) = (Some old, bufs)"
  shows "pool_inv (s\<lparr>sys_pool := (sys_pool s)\<lparr>ps_bufs := bufs\<rparr>,
    sys_pc := (sys_pc s)(t := Outside), sys_held := add_mset b (sys_held s)\<rparr>)" (is "pool_inv ?s")
proof -
  let ?o = "ps_objs (sys_pool s)" and ?t = "ps_bufs (sys_pool s)"
  have wf: "lh_wf ?t" using inv by (simp add: pool_inv_def)
  have b: "in_flight s t b" using inv pc by (simp add: pool_inv_def)
  note P = lh.put_wf [OF wf rdy ins] lh.put_look [OF wf rdy ins] same_iff [OF inv]
  have comp: "lh_comp bufs = lh_comp ?t"
    using lh_insert_map(1) [OF wf _ _ ins] rdy by (simp add: lh_ready_def lh_same_funs_def)
  have look: "lh_retrieve bufs k = (if cb_data b = cb_data k then Some b else sys_look s k)" for k
    using P by simp
  have cb: "counted ?o (add_mset b (sys_held s)) b"
    using b by (auto simp: in_flight_def counted_def not_in_iff)
  have co: "counted ?o (add_mset b (sys_held s)) v" if "counted ?o (sys_held s) v" "v \<noteq> b" for v
    using that by (simp add: counted_def)
  have L: "cb_pool v \<and> counted ?o (add_mset b (sys_held s)) v" if "lh_retrieve bufs k = Some v" for k v
  proof (cases "v = b")
    case True
    then show ?thesis using cb b by (simp add: in_flight_def)
  next
    case False
    then have "sys_look s k = Some v" using that look by (auto split: if_splits)
    then show ?thesis using inv co False by (auto simp: pool_inv_def)
  qed
  have H: "counted ?o (add_mset b (sys_held s)) v \<and> (cb_pool v \<longrightarrow> lh_retrieve bufs v = Some v)"
    if "v \<in># sys_held s" for v
  proof -
    have ne: "v \<noteq> b" using that b by (auto simp: in_flight_def)
    have v: "counted ?o (sys_held s) v" "cb_pool v \<longrightarrow> sys_look s v = Some v"
      using inv that by (auto simp: pool_inv_def)
    have "cb_data b \<noteq> cb_data v" if "cb_pool v"
    proof
      assume "cb_data b = cb_data v"
      then have "sys_look s b = sys_look s v"
        using lh.look_ext [OF wf, of b v] P(3) by simp
      then show False using new v(2) that by simp
    qed
    then show ?thesis using co [OF v(1) ne] v(2) look by simp
  qed
  have F: "in_flight ?s u c" if "sys_pc s u = Inserting c" "u \<noteq> t" for u c
  proof -
    have "in_flight s u c" using inv that by (simp add: pool_inv_def)
    moreover have "c \<noteq> b" using b that by (auto simp: in_flight_def)
    ultimately show ?thesis using look by (auto simp: in_flight_def split: if_splits)
  qed
  show ?thesis
  proof (rule pool_invI)
    fix u c assume "sys_pc ?s u = Inserting c"
    then have "sys_pc s u = Inserting c" "u \<noteq> t" by (auto split: if_splits)
    then show "in_flight ?s u c" by (rule F)
  next
    fix v assume "v \<in># sys_held ?s"
    then show "counted (ps_objs (sys_pool ?s)) (sys_held ?s) v \<and>
      (cb_pool v \<longrightarrow> sys_look ?s v = Some v)"
      using H [of v] cb look [of b] by (cases "v = b") simp_all
  qed (use P(1) comp L pool_invD(2) [OF inv] in simp_all)
qed

text \<open>Giving up a reference.\<close>

lemma counted_dec:
  assumes cnt: "counted objs held b" and r: "objs (cb_ptr b) = Some (b, r)" and mem: "b \<in># held"
    and dec: "refcount_dec_and_test_zero_lock r = Some (z, r')"
  shows "\<not> z \<Longrightarrow> counted (objs(cb_ptr b \<mapsto> (b, r'))) (held - {#b#}) b"
    and "z \<Longrightarrow> count held b = 1 \<and> r = 1"
proof -
  have r0: "r \<noteq> 0" and c: "r = CRYPTO_REFCOUNT_MAX \<or> unat r = count held b"
    using cnt r by (auto simp: counted_def)
  have r': "r' = (if r = CRYPTO_REFCOUNT_MAX then r else r - 1)" "z \<longleftrightarrow> r' = 0"
    using dec r0 by (auto simp: refcount_dec_and_test_zero_lock_def max_top Let_def split: if_splits)
  have u: "unat (r - 1) = unat r - 1" using r0 by (simp add: unat_minus_one)
  show "counted (objs(cb_ptr b \<mapsto> (b, r'))) (held - {#b#}) b" if "\<not> z"
    using that r' c u by (auto simp: counted_def)
  show "count held b = 1 \<and> r = 1" if "z"
  proof -
    have "r \<noteq> CRYPTO_REFCOUNT_MAX" using that r' r0 by auto
    then have "r - 1 = 0" using that r' by simp
    then have "r = 1" by simp
    then show ?thesis using c \<open>r \<noteq> CRYPTO_REFCOUNT_MAX\<close> by auto
  qed
qed

lemma inv_release:
  assumes inv: "pool_inv s" and mem: "b \<in># sys_held s"
    and free: "CRYPTO_BUFFER_free ok b (sys_pool s) = Some p"
  shows "pool_inv (s\<lparr>sys_pool := p, sys_held := sys_held s - {#b#}\<rparr>)"
proof -
  let ?o = "ps_objs (sys_pool s)" and ?t = "ps_bufs (sys_pool s)" and ?h = "sys_held s - {#b#}"
  have wf: "lh_wf ?t" using inv by (simp add: pool_inv_def)
  have cnt: "counted ?o (sys_held s) b" and lb: "cb_pool b \<Longrightarrow> sys_look s b = Some b"
    using inv mem by (auto simp: pool_inv_def)
  obtain r where r: "?o (cb_ptr b) = Some (b, r)" using counted_live [OF cnt] by blast
  obtain z r' where dec: "refcount_dec_and_test_zero_lock r = Some (z, r')"
    using free r by (auto simp: CRYPTO_BUFFER_free_def split: option.splits)
  note D = counted_dec [OF cnt r mem dec]
  have co: "counted (?o(cb_ptr b := x)) ?h v" if "counted ?o (sys_held s) v" "v \<noteq> b" for v x
    using counted_frame [OF that(1) r that(2), of ?h x] that(2) by simp
  have fin: "pool_inv (s\<lparr>sys_pool := p, sys_held := ?h\<rparr>)" (is "pool_inv ?s")
    if W: "lh_wf (ps_bufs p)" "lh_comp (ps_bufs p) = CRYPTO_BUFFER_cmp"
      and L: "\<And>k v. lh_retrieve (ps_bufs p) k = Some v \<Longrightarrow>
        sys_look s k = Some v \<and> counted (ps_objs p) ?h v"
      and H: "\<And>v. v \<in># ?h \<Longrightarrow> counted (ps_objs p) ?h v \<and>
        (cb_pool v \<longrightarrow> lh_retrieve (ps_bufs p) v = Some v)"
      and O: "\<And>c :: crypto_buffer. cb_ptr c \<noteq> cb_ptr b \<Longrightarrow> ps_objs p (cb_ptr c) = ?o (cb_ptr c)"
  proof (rule pool_invI)
    fix u c assume "sys_pc ?s u = Inserting c"
    then have c: "in_flight s u c" using pool_invD(7) [OF inv] by simp
    then have "c \<noteq> b" using mem by (auto simp: in_flight_def)
    then have "cb_ptr c \<noteq> cb_ptr b" using c r by (auto simp: in_flight_def)
    then show "in_flight ?s u c"
      using c O [of c] L [of c c] by (auto simp: in_flight_def dest: in_diffD)
  next
    fix k v assume "sys_look ?s k = Some v"
    then show "cb_pool v \<and> counted (ps_objs (sys_pool ?s)) (sys_held ?s) v"
      using L [of k v] pool_invD(3) [OF inv, of k v] by simp
  qed (use W H in simp_all)
  show ?thesis
  proof (cases z)
    case False
    let ?o' = "?o(cb_ptr b \<mapsto> (b, r'))"
    have p: "p = (sys_pool s)\<lparr>ps_objs := ?o'\<rparr>"
      using free r dec False by (simp add: CRYPTO_BUFFER_free_def)
    have c': "counted ?o' ?h v" if "counted ?o (sys_held s) v" for v
      using D(1) [OF False] co [OF that] by (cases "v = b") auto
    show ?thesis
    proof (rule fin)
      fix v assume "v \<in># ?h"
      then have v: "v \<in># sys_held s" by (rule in_diffD)
      show "counted (ps_objs p) ?h v \<and> (cb_pool v \<longrightarrow> lh_retrieve (ps_bufs p) v = Some v)"
        using c' [OF pool_invD(5) [OF inv v]] pool_invD(6) [OF inv v] by (simp add: p)
    next
      fix k v assume "lh_retrieve (ps_bufs p) k = Some v"
      then have k: "sys_look s k = Some v" by (simp add: p)
      then show "sys_look s k = Some v \<and> counted (ps_objs p) ?h v"
        using c' [OF pool_invD(4) [OF inv k]] by (simp add: p)
    qed (simp_all add: p wf pool_invD(2) [OF inv])
  next
    case True
    have "count (sys_held s) b = 1" using D(2) [OF True] by simp
    then have gone: "b \<notin># ?h" by (simp add: not_in_iff)
    let ?o' = "?o(cb_ptr b := None)"
    have held: "counted ?o' ?h v \<and> v \<noteq> b \<and> (cb_pool v \<longrightarrow> sys_look s v = Some v)"
      if "v \<in># ?h" for v
    proof -
      have "v \<noteq> b" "v \<in># sys_held s" using that gone by (auto dest: in_diffD)
      then show ?thesis using co [of v None] pool_invD(5,6) [OF inv] by blast
    qed
    have look: "counted ?o' ?h v" if "sys_look s k = Some v" "v \<noteq> b" for k v
      using co [of v None] pool_invD(4) [OF inv that(1)] that(2) by blast
    show ?thesis
    proof (cases "cb_pool b")
      case False
      have p: "p = (sys_pool s)\<lparr>ps_objs := ?o'\<rparr>"
        using free r dec True False by (simp add: CRYPTO_BUFFER_free_def)
      have "v \<noteq> b" if "sys_look s k = Some v" for k v
        using pool_invD(3) [OF inv that] False by auto
      then show ?thesis
        by (intro fin) (use look held pool_invD(1,2) [OF inv] in \<open>auto simp: p\<close>)
    next
      case pool: True
      obtain x bufs where del: "lh_delete ok b ?t = (x, bufs)" by fastforce
      have x: "x = Some b" using lh.del_res [OF wf del] lb [OF pool] by simp
      have p: "p = (sys_pool s)\<lparr>ps_bufs := bufs, ps_objs := ?o'\<rparr>"
        using free r dec True pool del x by (simp add: CRYPTO_BUFFER_free_def)
      have comp: "lh_wf bufs" "lh_comp bufs = lh_comp ?t"
        using lh_delete_map(1) [OF wf del] by (simp_all add: lh_same_funs_def)
      have lk: "lh_retrieve bufs k = (if cb_data b = cb_data k then None else sys_look s k)" for k
        using lh.del_look [OF wf del] same_iff [OF inv] by simp
      have L: "sys_look s k = Some v \<and> counted ?o' ?h v" if "lh_retrieve bufs k = Some v" for k v
      proof -
        have k: "sys_look s k = Some v" "cb_data b \<noteq> cb_data k"
          using that lk by (auto split: if_splits)
        then have "v \<noteq> b" using look_content(1) [OF inv k(1)] by auto
        then show ?thesis using look k(1) by blast
      qed
      have H: "lh_retrieve bufs v = Some v" if "v \<in># ?h" "cb_pool v" for v
      proof -
        have v: "v \<noteq> b" "sys_look s v = Some v" using held [OF that(1)] that(2) by auto
        have "cb_data b \<noteq> cb_data v"
        proof
          assume "cb_data b = cb_data v"
          then have "sys_look s b = sys_look s v"
            using lh.look_ext [OF wf, of b v] same_iff [OF inv] by simp
          then show False using v lb [OF pool] by simp
        qed
        then show ?thesis using lk v(2) by simp
      qed
      show ?thesis
        by (rule fin) (use L H held comp pool_invD(2) [OF inv] in \<open>auto simp: p\<close>)
    qed
  qed
qed

text \<open>A new object at an unused address.\<close>

lemma counted_new:
  "counted objs held v \<Longrightarrow> objs a = None \<Longrightarrow> v \<noteq> b \<Longrightarrow>
   counted (objs(a \<mapsto> (b, 1))) (if c then add_mset b held else held) v"
  by (auto simp: counted_def)

lemma unborn:
  assumes inv: "pool_inv s" and new: "ps_objs (sys_pool s) (cb_ptr b) = None"
  shows "b \<notin># sys_held s" "sys_look s k \<noteq> Some b" "sys_pc s t \<noteq> Inserting b"
proof -
  show "b \<notin># sys_held s" using counted_live [OF pool_invD(5) [OF inv]] new by fastforce
  show "sys_look s k \<noteq> Some b" using counted_live [OF pool_invD(4) [OF inv]] new by fastforce
  show "sys_pc s t \<noteq> Inserting b" using pool_invD(7) [OF inv] new by (fastforce simp: in_flight_def)
qed

lemma inv_allocate:
  assumes inv: "pool_inv s" and free: "ps_objs (sys_pool s) (cb_ptr b) = None"
  shows "cb_pool b \<Longrightarrow> pool_inv (s\<lparr>sys_pool := (sys_pool s)\<lparr>ps_objs := (ps_objs (sys_pool s))(cb_ptr b \<mapsto> (b, 1))\<rparr>,
      sys_pc := (sys_pc s)(t := Inserting b)\<rparr>)"
    and "\<not> cb_pool b \<Longrightarrow> pool_inv (s\<lparr>sys_pool := (sys_pool s)\<lparr>ps_objs := (ps_objs (sys_pool s))(cb_ptr b \<mapsto> (b, 1))\<rparr>,
      sys_held := add_mset b (sys_held s)\<rparr>)"
proof -
  let ?o = "ps_objs (sys_pool s)"
  note U = unborn [OF inv free]
  note D = pool_invD [OF inv]
  have keep: "counted (?o(cb_ptr b \<mapsto> (b, 1))) held' v"
    if "counted ?o (sys_held s) v" "v \<noteq> b" "count held' v = count (sys_held s) v" for v held'
    using that free by (auto simp: counted_def)
  have fl: "cb_ptr c \<noteq> cb_ptr b" "c \<noteq> b" if "sys_pc s u = Inserting c" for u c
    using D(7) [OF that] free by (auto simp: in_flight_def)
  show "pool_inv (s\<lparr>sys_pool := (sys_pool s)\<lparr>ps_objs := ?o(cb_ptr b \<mapsto> (b, 1))\<rparr>,
      sys_pc := (sys_pc s)(t := Inserting b)\<rparr>)" (is "pool_inv ?s") if "cb_pool b"
  proof (rule pool_invI)
    fix u c assume "sys_pc ?s u = Inserting c"
    then consider "u = t" "c = b" | "u \<noteq> t" "sys_pc s u = Inserting c" by (auto split: if_splits)
    then show "in_flight ?s u c"
    proof cases
      case 1
      then show ?thesis using that U by (simp add: in_flight_def)
    next
      case 2
      then show ?thesis using D(7) [OF 2(2)] fl [OF 2(2)] by (auto simp: in_flight_def)
    qed
  next
    fix k v assume "sys_look ?s k = Some v"
    then have v: "sys_look s k = Some v" by simp
    moreover have "v \<noteq> b" using v U(2) by auto
    ultimately show "cb_pool v \<and> counted (ps_objs (sys_pool ?s)) (sys_held ?s) v"
      using D(3,4) keep by simp
  next
    fix v assume "v \<in># sys_held ?s"
    then have v: "v \<in># sys_held s" by simp
    moreover have "v \<noteq> b" using v U(1) by auto
    ultimately show "counted (ps_objs (sys_pool ?s)) (sys_held ?s) v \<and> (cb_pool v \<longrightarrow> sys_look ?s v = Some v)"
      using D(5,6) keep by simp
  qed (use D in simp_all)
  show "pool_inv (s\<lparr>sys_pool := (sys_pool s)\<lparr>ps_objs := ?o(cb_ptr b \<mapsto> (b, 1))\<rparr>,
      sys_held := add_mset b (sys_held s)\<rparr>)" (is "pool_inv ?s") if "\<not> cb_pool b"
  proof (rule pool_invI)
    fix u c assume "sys_pc ?s u = Inserting c"
    then have "sys_pc s u = Inserting c" by simp
    then show "in_flight ?s u c" using D(7) fl by (auto simp: in_flight_def)
  next
    fix k v assume "sys_look ?s k = Some v"
    then have v: "sys_look s k = Some v" by simp
    moreover have "v \<noteq> b" using v U(2) by auto
    ultimately show "cb_pool v \<and> counted (ps_objs (sys_pool ?s)) (sys_held ?s) v"
      using D(3,4) keep by simp
  next
    fix v assume "v \<in># sys_held ?s"
    then consider "v = b" | "v \<noteq> b" "v \<in># sys_held s" by auto
    then show "counted (ps_objs (sys_pool ?s)) (sys_held ?s) v \<and> (cb_pool v \<longrightarrow> sys_look ?s v = Some v)"
    proof cases
      case 1
      then show ?thesis using that U(1) by (simp add: counted_def not_in_iff)
    next
      case 2
      then show ?thesis using D(5,6) keep by simp
    qed
  qed (use D in simp_all)
qed


section \<open>Reachable states\<close>

lemma inv_outside:
  assumes inv: "pool_inv s" and pc: "\<And>b. x \<noteq> Inserting b"
  shows "pool_inv (s\<lparr>sys_pc := (sys_pc s)(t := x)\<rparr>)"
proof (rule pool_invI)
  fix u c assume "sys_pc (s\<lparr>sys_pc := (sys_pc s)(t := x)\<rparr>) u = Inserting c"
  then have "sys_pc s u = Inserting c" using pc by (auto split: if_splits)
  then show "in_flight (s\<lparr>sys_pc := (sys_pc s)(t := x)\<rparr>) u c"
    using pool_invD(7) [OF inv] pc by (auto simp: in_flight_def)
next
  fix k v assume "sys_look (s\<lparr>sys_pc := (sys_pc s)(t := x)\<rparr>) k = Some v"
  then have "sys_look s k = Some v" by simp
  from pool_invD(3,4) [OF inv this]
  show "cb_pool v \<and> counted (ps_objs (sys_pool (s\<lparr>sys_pc := (sys_pc s)(t := x)\<rparr>)))
      (sys_held (s\<lparr>sys_pc := (sys_pc s)(t := x)\<rparr>)) v" by simp
next
  fix v assume "v \<in># sys_held (s\<lparr>sys_pc := (sys_pc s)(t := x)\<rparr>)"
  then have "v \<in># sys_held s" by simp
  from pool_invD(5,6) [OF inv this]
  show "counted (ps_objs (sys_pool (s\<lparr>sys_pc := (sys_pc s)(t := x)\<rparr>)))
      (sys_held (s\<lparr>sys_pc := (sys_pc s)(t := x)\<rparr>)) v \<and>
    (cb_pool v \<longrightarrow> sys_look (s\<lparr>sys_pc := (sys_pc s)(t := x)\<rparr>) v = Some v)" by simp
qed (simp_all add: pool_invD(1,2) [OF inv])

lemma inv_found:
  assumes inv: "pool_inv s" and look: "sys_look s k = Some v"
  shows "pool_inv (s\<lparr>sys_pool := pool_ref_inc v (sys_pool s), sys_held := add_mset v (sys_held s)\<rparr>)"
  using inv_take_ref [OF inv pool_invD(4) [OF inv look]] look_content(2) [OF inv look] by simp

lemma inv_done:
  assumes inv: "pool_inv s" and pc: "sys_pc s t = Inserting b"
    and rdy: "lh_ready (ps_bufs (sys_pool s)) a"
    and ins: "CRYPTO_BUFFER_new_insert a ok b (sys_pool s) = (Some b', p)"
  shows "pool_inv (s\<lparr>sys_pool := p, sys_pc := (sys_pc s)(t := Outside),
      sys_held := add_mset b' (sys_held s)\<rparr>)"
proof (cases "sys_look s b")
  case None
  obtain r bufs where i: "lh_insert a ok b (ps_bufs (sys_pool s)) = (r, bufs)" by fastforce
  then obtain old where "r = Some old" "b' = b" "p = (sys_pool s)\<lparr>ps_bufs := bufs\<rparr>"
    using ins None by (auto simp: CRYPTO_BUFFER_new_insert_def split: option.splits)
  then show ?thesis using inv_publish [OF inv pc None rdy] i by simp
next
  case (Some v)
  let ?s = "s\<lparr>sys_pool := pool_ref_inc v (sys_pool s), sys_held := add_mset v (sys_held s)\<rparr>"
  have p: "b' = v" "p = (pool_ref_inc v (sys_pool s))\<lparr>ps_objs :=
      (ps_objs (pool_ref_inc v (sys_pool s)))(cb_ptr b := None)\<rparr>"
    using ins Some by (auto simp: CRYPTO_BUFFER_new_insert_def Let_def)
  have "pool_inv ?s" by (rule inv_found [OF inv Some])
  from inv_drop_private [OF this, of t b] pc
  have "pool_inv (?s\<lparr>sys_pool := p, sys_pc := (sys_pc s)(t := Outside)\<rparr>)" by (simp add: p)
  moreover have "?s\<lparr>sys_pool := p, sys_pc := (sys_pc s)(t := Outside)\<rparr> =
      s\<lparr>sys_pool := p, sys_pc := (sys_pc s)(t := Outside), sys_held := add_mset b' (sys_held s)\<rparr>"
    by (simp add: p(1))
  ultimately show ?thesis by simp
qed

lemma inv_failed:
  assumes inv: "pool_inv s" and pc: "sys_pc s t = Inserting b"
    and rdy: "lh_ready (ps_bufs (sys_pool s)) a"
    and ins: "CRYPTO_BUFFER_new_insert a ok b (sys_pool s) = (None, p)"
  shows "pool_inv (s\<lparr>sys_pool := p, sys_pc := (sys_pc s)(t := Outside)\<rparr>)"
proof -
  have none: "sys_look s b = None"
    using ins by (auto simp: CRYPTO_BUFFER_new_insert_def Let_def split: option.splits)
  obtain r bufs where i: "lh_insert a ok b (ps_bufs (sys_pool s)) = (r, bufs)" by fastforce
  then have r: "r = None" "p = (sys_pool s)\<lparr>ps_bufs := bufs, ps_objs := (ps_objs (sys_pool s))(cb_ptr b := None)\<rparr>"
    using ins none by (auto simp: CRYPTO_BUFFER_new_insert_def split: option.splits)
  have "bufs = ps_bufs (sys_pool s)"
    using lh.put_fail [OF pool_invD(1) [OF inv] rdy] i r(1) by simp
  then show ?thesis using inv_drop_private [OF inv pc] r(2) by simp
qed

lemma alloc_Some:
  assumes "CRYPTO_BUFFER_new_alloc (Some a) ok pl dat s = (Some b, p)"
  shows "b = \<lparr>cb_ptr = a, cb_pool = pl, cb_data = dat\<rparr>"
    "p = s\<lparr>ps_objs := (ps_objs s)(cb_ptr b \<mapsto> (b, 1))\<rparr>"
  using assms by (auto simp: CRYPTO_BUFFER_new_alloc_def Let_def split: if_splits)

lemma pool_step_inv: "pool_step s s' \<Longrightarrow> pool_inv s \<Longrightarrow> pool_inv s'"
proof (induction rule: pool_step.induct)
  case (new_found s t dat b p)
  then show ?case using inv_found
    by (auto simp: CRYPTO_BUFFER_new_lookup_def Let_def split: option.splits)
next
  case (new_missing s t dat p)
  then have "p = sys_pool s"
    by (auto simp: CRYPTO_BUFFER_new_lookup_def Let_def split: option.splits)
  then show ?case using inv_outside [OF new_missing.prems, of "Allocating dat" t] by simp
next
  case (new_nomem s t dat a ok p)
  then have "p = sys_pool s"
    by (auto simp: CRYPTO_BUFFER_new_alloc_def Let_def split: option.splits if_splits)
  then show ?case using inv_outside [OF new_nomem.prems, of Outside t] by simp
next
  case (new_alloc s t dat a ok b p)
  note A = alloc_Some [OF new_alloc(3)]
  show ?case
    using inv_allocate(1) [OF new_alloc.prems, of b t] new_alloc(2) A(1) by (simp add: A(2))
next
  case (new_done s t b a ok b' p)
  then show ?case by (intro inv_done)
next
  case (new_failed s t b a ok p)
  then show ?case by (intro inv_failed)
next
  case (new_unpooled s a ok dat b p)
  note A = alloc_Some [OF new_unpooled(2)]
  show ?case
    using inv_allocate(2) [OF new_unpooled.prems, of b] new_unpooled(1) A(1) by (simp add: A(2))
next
  case (up_ref b s)
  then show ?case
    using inv_take_ref pool_invD(5,6) by (simp add: CRYPTO_BUFFER_up_ref_def)
next
  case (free b s ok p)
  then show ?case by (intro inv_release)
qed

lemma pool_reachable_inv: "pool_reachable s \<Longrightarrow> pool_inv s"
proof (induction rule: pool_reachable.induct)
  case (init p)
  then obtain t where t: "lh_new True True CRYPTO_BUFFER_hash CRYPTO_BUFFER_cmp = Some t"
    "p = \<lparr>ps_bufs = t, ps_objs = Map.empty\<rparr>"
    by (auto simp: CRYPTO_BUFFER_POOL_new_def split: option.splits)
  show ?case
    by (rule pool_invI) (use buffer_key.new_table [OF t(1)] t(2) in simp_all)
next
  case (step s s')
  then show ?case using pool_step_inv by blast
qed

text \<open>
  C20: no use after free, and no leak, in any interleaving of threads creating, sharing and
  releasing buffers: a buffer to which a caller owns a reference is alive, and unless the
  count has saturated it is exactly the number of references that callers own.
\<close>

theorem pool_no_use_after_free:
  assumes "pool_reachable s" "b \<in># sys_held s"
  shows "\<exists>r. ps_objs (sys_pool s) (cb_ptr b) = Some (b, r) \<and> r \<noteq> 0 \<and>
    (r = CRYPTO_REFCOUNT_MAX \<or> unat r = count (sys_held s) b)"
  using pool_invD(5) [OF pool_reachable_inv [OF assms(1)] assms(2)] by (simp add: counted_def)

text \<open>
  C21: interning.  Two references to buffers of one pool that have the same contents are the
  same pointer, however the threads that made them raced with each other, and a buffer
  returned for some data has these data.
\<close>

theorem pool_interns:
  assumes "pool_reachable s" "a \<in># sys_held s" "b \<in># sys_held s" "cb_pool a" "cb_pool b"
  shows "cb_data a = cb_data b \<longleftrightarrow> a = b"
proof
  assume eq: "cb_data a = cb_data b"
  note inv = pool_reachable_inv [OF assms(1)]
  have "sys_look s a = sys_look s b"
    using lh.look_ext [OF pool_invD(1) [OF inv]] same_iff [OF inv] eq by blast
  then show "a = b" using pool_invD(6) [OF inv] assms(2-5) by simp
qed simp

text \<open>
  C22: releasing a reference never aborts, never finds the buffer missing from its pool, and
  the last release removes it from both the pool and the heap.
\<close>

theorem pool_free_succeeds:
  assumes "pool_reachable s" "b \<in># sys_held s"
  shows "\<exists>p. CRYPTO_BUFFER_free ok b (sys_pool s) = Some p \<and>
    (count (sys_held s) b = 1 \<longrightarrow> ps_objs (sys_pool s) (cb_ptr b) \<noteq> Some (b, CRYPTO_REFCOUNT_MAX) \<longrightarrow>
      ps_objs p (cb_ptr b) = None \<and> lh_retrieve (ps_bufs p) b \<noteq> Some b)"
proof -
  note inv = pool_reachable_inv [OF assms(1)]
  obtain r where r: "ps_objs (sys_pool s) (cb_ptr b) = Some (b, r)" "r \<noteq> 0"
    "r = CRYPTO_REFCOUNT_MAX \<or> unat r = count (sys_held s) b"
    using pool_invD(5) [OF inv assms(2)] by (auto simp: counted_def)
  have wf: "lh_wf (ps_bufs (sys_pool s))" by (rule pool_invD(1) [OF inv])
  obtain z n where dec: "refcount_dec_and_test_zero_lock r = Some (z, n)"
    using r(2) by (simp add: refcount_dec_and_test_zero_lock_def Let_def)
  have zero: "z \<longleftrightarrow> r = 1"
  proof -
    have "r - 1 = 0 \<longleftrightarrow> r = 1" by simp
    then show ?thesis using dec r(2)
      by (auto simp: refcount_dec_and_test_zero_lock_def max_top CRYPTO_REFCOUNT_MAX_def Let_def split: if_splits)
  qed
  obtain x bufs where del: "lh_delete ok b (ps_bufs (sys_pool s)) = (x, bufs)" by fastforce
  have x: "x = Some b" if "cb_pool b"
    using lh.del_res [OF wf del] pool_invD(6) [OF inv assms(2) that] by simp
  have gone: "lh_retrieve bufs b = None"
    using lh.del_look [OF wf del, of b] lh.same_refl [OF wf, of b] by simp
  have out: "sys_look s b \<noteq> Some b" if "\<not> cb_pool b"
    using pool_invD(3) [OF inv] that by blast
  have one: "r = 1" if "count (sys_held s) b = 1" "r \<noteq> CRYPTO_REFCOUNT_MAX"
    using r(3) that by (simp add: word_unat_eq_iff)
  show ?thesis
    using r(1) dec zero x del gone out one
    by (cases z; cases "cb_pool b") (auto simp: CRYPTO_BUFFER_free_def)
qed


section \<open>A reachable state\<close>

definition buf1 :: crypto_buffer where
  "buf1 = \<lparr>cb_ptr = 100, cb_pool = True, cb_data = [1]\<rparr>"

lemma demo_reachable: "\<exists>s. pool_reachable s \<and> buf1 \<in># sys_held s"
proof -
  obtain t where t: "lh_new True True CRYPTO_BUFFER_hash CRYPTO_BUFFER_cmp = Some t"
    by (simp add: lh_new_def)
  let ?p0 = "\<lparr>ps_bufs = t, ps_objs = Map.empty\<rparr>"
  let ?s0 = "\<lparr>sys_pool = ?p0, sys_pc = (\<lambda>_. Outside), sys_held = {#}\<rparr>"
  let ?s1 = "?s0\<lparr>sys_pc := (\<lambda>_. Outside)(0 := Allocating [1])\<rparr>"
  let ?p2 = "\<lparr>ps_bufs = t, ps_objs = [100 \<mapsto> (buf1, 1)]\<rparr>"
  let ?s2 = "?s1\<lparr>sys_pool := ?p2, sys_pc := (sys_pc ?s1)(0 := Inserting buf1)\<rparr>"
  have none: "lh_retrieve t k = None" for k by (rule buffer_key.new_table(3) [OF t])
  have wf: "lh_wf t" by (rule buffer_key.new_table(1) [OF t])
  have rdy: "lh_ready t (Some 7)"
    using t by (auto simp: lh_ready_def fresh_addr_def lh_items_def lh_new_def)
  have r0: "pool_reachable ?s0"
    using pool_reachable.init [of ?p0] t by (simp add: CRYPTO_BUFFER_POOL_new_def)
  have s1: "pool_step ?s0 ?s1"
    using pool_step.new_missing [of ?s0 0 "[1]" ?p0] none
    by (simp add: CRYPTO_BUFFER_new_lookup_def Let_def)
  have s2: "pool_step ?s1 ?s2"
    using pool_step.new_alloc [of ?s1 0 "[1]" 100 True buf1 ?p2]
    by (simp add: CRYPTO_BUFFER_new_alloc_def Let_def buf1_def)
  obtain x bufs where i: "lh_insert (Some 7) True buf1 t = (x, bufs)" by fastforce
  have "x = Some None" using lh.put_res [OF wf rdy i] none by simp
  then have "CRYPTO_BUFFER_new_insert (Some 7) True buf1 ?p2 = (Some buf1, ?p2\<lparr>ps_bufs := bufs\<rparr>)"
    using i none by (simp add: CRYPTO_BUFFER_new_insert_def)
  with pool_step.new_done [of ?s2 0 buf1 "Some 7" True] rdy
  have "pool_step ?s2 (?s2\<lparr>sys_pool := ?p2\<lparr>ps_bufs := bufs\<rparr>, sys_pc := (sys_pc ?s2)(0 := Outside),
      sys_held := add_mset buf1 (sys_held ?s2)\<rparr>)" (is "pool_step _ ?s3") by simp
  then have "pool_reachable ?s3" using r0 s1 s2 pool_reachable.step by blast
  moreover have "buf1 \<in># sys_held ?s3" by simp
  ultimately show ?thesis by blast
qed

lemma pool_no_use_after_free_witness:
  "\<exists>s. pool_reachable s \<and> buf1 \<in># sys_held s \<and> (\<exists>r. ps_objs (sys_pool s) 100 = Some (buf1, r) \<and> r \<noteq> 0)"
proof -
  obtain s where "pool_reachable s" "buf1 \<in># sys_held s" using demo_reachable by blast
  moreover have "cb_ptr buf1 = 100" by (simp add: buf1_def)
  ultimately have "\<exists>r. ps_objs (sys_pool s) 100 = Some (buf1, r) \<and> r \<noteq> 0"
    using pool_no_use_after_free [of s buf1] by metis
  with \<open>pool_reachable s\<close> \<open>buf1 \<in># sys_held s\<close> show ?thesis by blast
qed

lemma pool_interns_witness:
  "\<exists>s. pool_reachable s \<and> (\<exists>a \<in># sys_held s. \<forall>b. b \<in># sys_held s \<and> cb_pool b \<and> cb_data b = [1] \<longrightarrow> b = a)"
proof -
  obtain s where s: "pool_reachable s" "buf1 \<in># sys_held s" using demo_reachable by blast
  have "cb_pool buf1" "cb_data buf1 = [1]" by (simp_all add: buf1_def)
  then have "b = buf1" if "b \<in># sys_held s" "cb_pool b" "cb_data b = [1]" for b
    using pool_interns [OF s(1) that(1) s(2) that(2)] that(3) by simp
  then show ?thesis using s by blast
qed

lemma pool_free_succeeds_witness:
  "\<exists>s p. pool_reachable s \<and> buf1 \<in># sys_held s \<and> CRYPTO_BUFFER_free True buf1 (sys_pool s) = Some p"
proof -
  obtain s where s: "pool_reachable s" "buf1 \<in># sys_held s" using demo_reachable by blast
  obtain p where "CRYPTO_BUFFER_free True buf1 (sys_pool s) = Some p"
    using pool_free_succeeds [OF s, of True] by blast
  with s show ?thesis by blast
qed

end
