(* ===== verification/Cbs.thy ===== *)
theory Cbs
  imports Buf
begin

text \<open>
  Reading byte strings and DER (\<open>crypto/bytestring/cbs.c\<close>).  A \<open>CBS\<close> is the list of the
  bytes from \<open>data\<close> to \<open>data + len\<close>.  A function that fills an out-parameter and returns 0
  or 1 returns an option, with the \<open>CBS\<close> it leaves behind, because some of them consume
  input before they fail.  Optional out-parameters are always delivered.
\<close>

type_synonym cbs = "u8 list"

definition CBS_init :: "u8 list \<Rightarrow> size_t \<Rightarrow> cbs" where
  "CBS_init dat len = take len dat"

definition cbs_get :: "cbs \<Rightarrow> size_t \<Rightarrow> u8 list option \<times> cbs" where
  "cbs_get cbs n = (if length cbs < n then (None, cbs) else (Some (take n cbs), drop n cbs))"

definition CBS_skip :: "cbs \<Rightarrow> size_t \<Rightarrow> bool \<times> cbs" where
  "CBS_skip cbs len = (case cbs_get cbs len of (None, cbs') \<Rightarrow> (False, cbs') | (Some _, cbs') \<Rightarrow> (True, cbs'))"

definition CBS_data :: "cbs \<Rightarrow> u8 list" where
  "CBS_data cbs = cbs"

definition CBS_len :: "cbs \<Rightarrow> size_t" where
  "CBS_len cbs = length cbs"

text \<open>\<open>CBS_stow\<close> and \<open>CBS_strdup\<close> copy to the heap; \<open>old\<close> is what the out-parameter held.\<close>

definition CBS_stow ::
  "malloc_result \<Rightarrow> cbs \<Rightarrow> nat \<Rightarrow> c_heap \<Rightarrow> mem_fault + ((nat \<times> size_t) option \<times> c_heap)" where
  "CBS_stow r cbs old h =
    (case OPENSSL_free old h of Inl e \<Rightarrow> Inl e | Inr h1 \<Rightarrow>
      if length cbs = 0 then Inr (Some (0, 0), h1)
      else (case BUF_memdup r cbs h1 of Inl e \<Rightarrow> Inl e | Inr (p, h2) \<Rightarrow>
        if p = 0 then Inr (None, h2) else Inr (Some (p, length cbs), h2)))"

definition CBS_strdup ::
  "malloc_result \<Rightarrow> cbs \<Rightarrow> nat \<Rightarrow> c_heap \<Rightarrow> mem_fault + (nat option \<times> c_heap)" where
  "CBS_strdup r cbs old h =
    (case (if old \<noteq> 0 then OPENSSL_free old h else Inr h) of Inl e \<Rightarrow> Inl e | Inr h1 \<Rightarrow>
      (case BUF_strndup r (Some cbs) (length cbs) h1 of Inl e \<Rightarrow> Inl e | Inr (p, h2) \<Rightarrow>
        Inr (if p = 0 then None else Some p, h2)))"

definition CBS_contains_zero_byte :: "cbs \<Rightarrow> bool" where
  "CBS_contains_zero_byte cbs \<longleftrightarrow> 0 \<in> set cbs"

definition CBS_mem_equal :: "cbs \<Rightarrow> u8 list \<Rightarrow> size_t \<Rightarrow> bool" where
  "CBS_mem_equal cbs dat len = (if len \<noteq> length cbs then False else CRYPTO_memcmp cbs dat len = 0)"

text \<open>The loop of \<open>cbs_get_u\<close>: shift the result and add the next byte.\<close>

definition be_shift :: "u8 list \<Rightarrow> u32" where
  "be_shift bs = foldl (\<lambda>r b. push_bit 8 r OR ucast b) 0 bs"

definition cbs_get_u :: "cbs \<Rightarrow> size_t \<Rightarrow> u32 option \<times> cbs" where
  "cbs_get_u cbs len = (case cbs_get cbs len of
     (None, cbs') \<Rightarrow> (None, cbs') | (Some dat, cbs') \<Rightarrow> (Some (be_shift dat), cbs'))"

definition CBS_get_u8 :: "cbs \<Rightarrow> u8 option \<times> cbs" where
  "CBS_get_u8 cbs = (case cbs_get cbs 1 of
     (None, cbs') \<Rightarrow> (None, cbs') | (Some v, cbs') \<Rightarrow> (Some (v ! 0), cbs'))"

definition CBS_get_u16 :: "cbs \<Rightarrow> u16 option \<times> cbs" where
  "CBS_get_u16 cbs = (case cbs_get_u cbs 2 of
     (None, cbs') \<Rightarrow> (None, cbs') | (Some v, cbs') \<Rightarrow> (Some (ucast v), cbs'))"

definition CBS_get_u24 :: "cbs \<Rightarrow> u32 option \<times> cbs" where
  "CBS_get_u24 cbs = cbs_get_u cbs 3"

definition CBS_get_u32 :: "cbs \<Rightarrow> u32 option \<times> cbs" where
  "CBS_get_u32 cbs = cbs_get_u cbs 4"

definition CBS_get_last_u8 :: "cbs \<Rightarrow> u8 option \<times> cbs" where
  "CBS_get_last_u8 cbs = (if length cbs = 0 then (None, cbs)
     else (Some (cbs ! (length cbs - 1)), take (length cbs - 1) cbs))"

definition CBS_get_bytes :: "cbs \<Rightarrow> size_t \<Rightarrow> cbs option \<times> cbs" where
  "CBS_get_bytes cbs len = (case cbs_get cbs len of
     (None, cbs') \<Rightarrow> (None, cbs') | (Some v, cbs') \<Rightarrow> (Some (CBS_init v len), cbs'))"

definition CBS_copy_bytes :: "cbs \<Rightarrow> size_t \<Rightarrow> u8 list option \<times> cbs" where
  "CBS_copy_bytes cbs len = cbs_get cbs len"

definition cbs_get_length_prefixed :: "cbs \<Rightarrow> size_t \<Rightarrow> cbs option \<times> cbs" where
  "cbs_get_length_prefixed cbs len_len = (case cbs_get_u cbs len_len of
     (None, cbs') \<Rightarrow> (None, cbs') | (Some len, cbs') \<Rightarrow> CBS_get_bytes cbs' (unat len))"

definition CBS_get_u8_length_prefixed :: "cbs \<Rightarrow> cbs option \<times> cbs" where
  "CBS_get_u8_length_prefixed cbs = cbs_get_length_prefixed cbs 1"

definition CBS_get_u16_length_prefixed :: "cbs \<Rightarrow> cbs option \<times> cbs" where
  "CBS_get_u16_length_prefixed cbs = cbs_get_length_prefixed cbs 2"

definition CBS_get_u24_length_prefixed :: "cbs \<Rightarrow> cbs option \<times> cbs" where
  "CBS_get_u24_length_prefixed cbs = cbs_get_length_prefixed cbs 3"

section \<open>ASN.1 elements\<close>

definition CBS_ASN1_BOOLEAN :: u32 where "CBS_ASN1_BOOLEAN = 0x1"
definition CBS_ASN1_INTEGER :: u32 where "CBS_ASN1_INTEGER = 0x2"
definition CBS_ASN1_OCTETSTRING :: u32 where "CBS_ASN1_OCTETSTRING = 0x4"
definition CBS_ASN1_CONSTRUCTED :: u32 where "CBS_ASN1_CONSTRUCTED = 0x20"

text \<open>
  The element parser.  It works on a copy of the input until the total length is known, so
  a failure leaves the input alone; the result is the element with its tag and the length
  of its header.
\<close>

definition long_form_len :: "cbs \<Rightarrow> nat \<Rightarrow> nat option" where
  "long_form_len header num_bytes =
    (if num_bytes = 0 \<or> 4 < num_bytes then None
     else (case cbs_get_u header num_bytes of
         (None, _) \<Rightarrow> None
       | (Some len32, _) \<Rightarrow>
           if len32 < 128 then None
           else if drop_bit ((num_bytes - 1) * 8) len32 = 0 then None
           else
             let len = unat len32 in
             if size_add (size_add len 2) num_bytes < len then None
             else Some (size_add len (2 + num_bytes))))"

definition cbs_get_any_asn1_element ::
  "cbs \<Rightarrow> bool \<Rightarrow> (cbs \<times> u32 \<times> size_t) option \<times> cbs" where
  "cbs_get_any_asn1_element cbs ber_ok =
    (case CBS_get_u8 cbs of (None, _) \<Rightarrow> (None, cbs) | (Some tag, header) \<Rightarrow>
    (case CBS_get_u8 header of (None, _) \<Rightarrow> (None, cbs) | (Some length_byte, header) \<Rightarrow>
      if tag AND 0x1f = 0x1f then (None, cbs)
      else
        let finish = (\<lambda>len header_len. case CBS_get_bytes cbs len of
               (None, cbs') \<Rightarrow> (None, cbs')
             | (Some out, cbs') \<Rightarrow> (Some (out, ucast tag, header_len), cbs')) in
        if length_byte AND 0x80 = 0 then finish (unat length_byte + 2) 2
        else
          let num_bytes = unat (length_byte AND 0x7f) in
          if ber_ok \<and> (ucast tag AND CBS_ASN1_CONSTRUCTED) \<noteq> 0 \<and> num_bytes = 0 then finish 2 2
          else (case long_form_len header num_bytes of
              None \<Rightarrow> (None, cbs)
            | Some len \<Rightarrow> finish len (2 + num_bytes))))"

definition CBS_get_any_asn1_element :: "cbs \<Rightarrow> (cbs \<times> u32 \<times> size_t) option \<times> cbs" where
  "CBS_get_any_asn1_element cbs = cbs_get_any_asn1_element cbs False"

definition CBS_get_any_ber_asn1_element :: "cbs \<Rightarrow> (cbs \<times> u32 \<times> size_t) option \<times> cbs" where
  "CBS_get_any_ber_asn1_element cbs = cbs_get_any_asn1_element cbs True"

definition CBS_get_any_asn1 :: "cbs \<Rightarrow> (cbs \<times> u32) option \<times> cbs" where
  "CBS_get_any_asn1 cbs = (case CBS_get_any_asn1_element cbs of
     (None, cbs') \<Rightarrow> (None, cbs')
   | (Some (out, tag, header_len), cbs') \<Rightarrow>
       (case CBS_skip out header_len of
          (False, _) \<Rightarrow> (None, cbs')
        | (True, out') \<Rightarrow> (Some (out', tag), cbs')))"

definition cbs_get_asn1 :: "cbs \<Rightarrow> u32 \<Rightarrow> bool \<Rightarrow> cbs option \<times> cbs" where
  "cbs_get_asn1 cbs tag_value skip_header = (case CBS_get_any_asn1_element cbs of
     (None, cbs') \<Rightarrow> (None, cbs')
   | (Some (out, tag, header_len), cbs') \<Rightarrow>
       if tag \<noteq> tag_value then (None, cbs')
       else if skip_header then
         (case CBS_skip out header_len of
            (False, _) \<Rightarrow> (None, cbs')
          | (True, out') \<Rightarrow> (Some out', cbs'))
       else (Some out, cbs'))"

definition CBS_get_asn1 :: "cbs \<Rightarrow> u32 \<Rightarrow> cbs option \<times> cbs" where
  "CBS_get_asn1 cbs tag_value = cbs_get_asn1 cbs tag_value True"

definition CBS_get_asn1_element :: "cbs \<Rightarrow> u32 \<Rightarrow> cbs option \<times> cbs" where
  "CBS_get_asn1_element cbs tag_value = cbs_get_asn1 cbs tag_value False"

definition CBS_peek_asn1_tag :: "cbs \<Rightarrow> u32 \<Rightarrow> bool" where
  "CBS_peek_asn1_tag cbs tag_value = (if length cbs < 1 then False else ucast (cbs ! 0) = tag_value)"

section \<open>Values\<close>

fun uint64_loop :: "u64 \<Rightarrow> u8 list \<Rightarrow> u64 option" where
  "uint64_loop out [] = Some out"
| "uint64_loop out (b # dat) =
    (if drop_bit 56 out \<noteq> 0 then None else uint64_loop (push_bit 8 out OR ucast b) dat)"

definition CBS_get_asn1_uint64 :: "cbs \<Rightarrow> u64 option \<times> cbs" where
  "CBS_get_asn1_uint64 cbs = (case CBS_get_asn1 cbs CBS_ASN1_INTEGER of
     (None, cbs') \<Rightarrow> (None, cbs')
   | (Some dat, cbs') \<Rightarrow>
       if length dat = 0 then (None, cbs')
       else if dat ! 0 AND 0x80 \<noteq> 0 then (None, cbs')
       else if dat ! 0 = 0 \<and> 1 < length dat \<and> dat ! 1 AND 0x80 = 0 then (None, cbs')
       else (uint64_loop 0 dat, cbs'))"

text \<open>\<open>Some None\<close>: the optional element is absent.\<close>

definition CBS_get_optional_asn1 :: "cbs \<Rightarrow> u32 \<Rightarrow> cbs option option \<times> cbs" where
  "CBS_get_optional_asn1 cbs tag =
    (if CBS_peek_asn1_tag cbs tag then
       (case CBS_get_asn1 cbs tag of
          (None, cbs') \<Rightarrow> (None, cbs')
        | (Some out, cbs') \<Rightarrow> (Some (Some out), cbs'))
     else (Some None, cbs))"

definition CBS_get_optional_asn1_octet_string ::
  "cbs \<Rightarrow> u32 \<Rightarrow> (cbs \<times> bool) option \<times> cbs" where
  "CBS_get_optional_asn1_octet_string cbs tag = (case CBS_get_optional_asn1 cbs tag of
     (None, cbs') \<Rightarrow> (None, cbs')
   | (Some (Some child), cbs') \<Rightarrow>
       (case CBS_get_asn1 child CBS_ASN1_OCTETSTRING of
          (None, _) \<Rightarrow> (None, cbs')
        | (Some out, child') \<Rightarrow> if length child' \<noteq> 0 then (None, cbs') else (Some (out, True), cbs'))
   | (Some None, cbs') \<Rightarrow> (Some ([], False), cbs'))"

definition CBS_get_optional_asn1_uint64 :: "cbs \<Rightarrow> u32 \<Rightarrow> u64 \<Rightarrow> u64 option \<times> cbs" where
  "CBS_get_optional_asn1_uint64 cbs tag default_value = (case CBS_get_optional_asn1 cbs tag of
     (None, cbs') \<Rightarrow> (None, cbs')
   | (Some (Some child), cbs') \<Rightarrow>
       (case CBS_get_asn1_uint64 child of
          (None, _) \<Rightarrow> (None, cbs')
        | (Some v, child') \<Rightarrow> if length child' \<noteq> 0 then (None, cbs') else (Some v, cbs'))
   | (Some None, cbs') \<Rightarrow> (Some default_value, cbs'))"

definition CBS_get_optional_asn1_bool :: "cbs \<Rightarrow> u32 \<Rightarrow> int \<Rightarrow> int option \<times> cbs" where
  "CBS_get_optional_asn1_bool cbs tag default_value = (case CBS_get_optional_asn1 cbs tag of
     (None, cbs') \<Rightarrow> (None, cbs')
   | (Some (Some child), cbs') \<Rightarrow>
       (case CBS_get_asn1 child CBS_ASN1_BOOLEAN of
          (None, _) \<Rightarrow> (None, cbs')
        | (Some child2, child') \<Rightarrow>
            if length child2 \<noteq> 1 \<or> length child' \<noteq> 0 then (None, cbs')
            else if child2 ! 0 = 0 then (Some 0, cbs')
            else if child2 ! 0 = 0xff then (Some 1, cbs')
            else (None, cbs'))
   | (Some None, cbs') \<Rightarrow> (Some default_value, cbs'))"

definition CBS_is_valid_asn1_bitstring :: "cbs \<Rightarrow> bool" where
  "CBS_is_valid_asn1_bitstring cbs = (case CBS_get_u8 cbs of
     (None, _) \<Rightarrow> False
   | (Some num_unused_bits, inp) \<Rightarrow>
       if 7 < num_unused_bits then False
       else if num_unused_bits = 0 then True
       else (case CBS_get_last_u8 inp of
           (None, _) \<Rightarrow> False
         | (Some lst, _) \<Rightarrow>
             (ucast lst :: u32) AND (push_bit (unat num_unused_bits) 1 - 1) = 0))"

definition CBS_asn1_bitstring_has_bit :: "cbs \<Rightarrow> u32 \<Rightarrow> bool" where
  "CBS_asn1_bitstring_has_bit cbs i = (if \<not> CBS_is_valid_asn1_bitstring cbs then False
     else
       let byte_num = drop_bit 3 i + 1; bit_num = 7 - (i AND 7) in
       unat byte_num < length cbs \<and>
       (ucast (cbs ! unat byte_num) :: u32) AND push_bit (unat bit_num) 1 \<noteq> 0)"


section \<open>Reading integers\<close>

lemma cbs_get_append [simp]: "length p = n \<Longrightarrow> cbs_get (p @ r) n = (Some p, r)"
  by (auto simp: cbs_get_def)

lemma cbs_get_Some: "cbs_get x n = (Some p, r) \<longleftrightarrow> x = p @ r \<and> length p = n"
  by (auto simp: cbs_get_def)

lemma cbs_get_None: "cbs_get x n = (None, r) \<longleftrightarrow> length x < n \<and> r = x"
  by (auto simp: cbs_get_def)

lemma unat_shift_or_byte:
  "unat (push_bit 8 r OR ucast (b :: u8) :: u32) = (unat r * 256 + unat b) mod 2 ^ 32"
proof -
  have "push_bit 8 r AND (ucast b :: u32) = 0"
    by (rule bit_word_eqI) (auto simp: bit_simps dest: bit_imp_le_length)
  then have "push_bit 8 r OR ucast b = push_bit 8 r + (ucast b :: u32)"
    by (simp add: disjunctive_add_eq_or)
  also have "\<dots> = of_nat (unat r * 256 + unat b)"
    by (simp add: push_bit_eq_mult)
  finally show ?thesis by (simp only: unat_of_nat) simp
qed

lemma unat_be_shift: "unat (be_shift bs) = be_value bs mod 2 ^ 32"
proof (induction bs rule: rev_induct)
  case (snoc b bs)
  have "unat (be_shift (bs @ [b])) = (be_value bs mod 2 ^ 32 * 256 + unat b) mod 2 ^ 32"
    using snoc by (simp add: be_shift_def unat_shift_or_byte)
  also have "\<dots> = be_value (bs @ [b]) mod 2 ^ 32"
    by (metis be_value_snoc mod_add_left_eq mod_mult_left_eq)
  finally show ?case .
qed (simp add: be_shift_def)

lemma unat_be_shift_short:
  assumes "length bs \<le> 4" shows "unat (be_shift bs) = be_value bs"
proof -
  have "be_value bs < 256 ^ length bs" by (rule be_value_lt)
  also have "\<dots> \<le> 256 ^ 4" using assms by (intro power_increasing) simp_all
  finally show ?thesis by (simp add: unat_be_shift)
qed

lemma cbs_get_u_append: "length p = n \<Longrightarrow> cbs_get_u (p @ r) n = (Some (be_shift p), r)"
  by (simp add: cbs_get_u_def)

lemma cbs_get_u_Some: "cbs_get_u x n = (Some v, r) \<longleftrightarrow> (\<exists>p. x = p @ r \<and> length p = n \<and> v = be_shift p)"
  by (auto simp: cbs_get_u_def cbs_get_Some split: option.splits prod.splits)

lemma CBS_get_u8_Cons [simp]: "CBS_get_u8 (b # r) = (Some b, r)"
  by (simp add: CBS_get_u8_def cbs_get_def)

lemma CBS_get_u8_Nil [simp]: "CBS_get_u8 [] = (None, [])"
  by (simp add: CBS_get_u8_def cbs_get_def)

lemma CBS_get_bytes_append [simp]: "length p = n \<Longrightarrow> CBS_get_bytes (p @ r) n = (Some p, r)"
  by (auto simp: CBS_get_bytes_def cbs_get_def CBS_init_def)

lemma CBS_get_bytes_Some: "CBS_get_bytes x n = (Some p, r) \<longleftrightarrow> x = p @ r \<and> length p = n"
  by (auto simp: CBS_get_bytes_def cbs_get_def CBS_init_def split: option.splits if_splits)

text \<open>Length-prefixed strings, as the builder writes them.\<close>

lemma cbs_get_length_prefixed_correct:
  assumes "length body < 256 ^ k" "k \<le> 3"
  shows "cbs_get_length_prefixed (be_bytes k (length body) @ body @ r) k = (Some body, r)"
proof -
  have "unat (be_shift (be_bytes k (length body))) = length body"
    using assms by (simp add: unat_be_shift_short be_value_be_bytes)
  then show ?thesis
    using cbs_get_u_append [of "be_bytes k (length body)" k "body @ r"]
    by (simp add: cbs_get_length_prefixed_def)
qed

section \<open>DER\<close>

text \<open>The distinguished encoding of a length and of an element with a single-byte tag.\<close>

definition der_len_bytes :: "nat \<Rightarrow> nat" where
  "der_len_bytes n = (if n < 256 then 1 else if n < 65536 then 2 else if n < 16777216 then 3 else 4)"

definition der_len :: "nat \<Rightarrow> u8 list" where
  "der_len n = (if n < 128 then [of_nat n]
     else of_nat (128 + der_len_bytes n) # be_bytes (der_len_bytes n) n)"

definition der_element :: "u8 \<Rightarrow> u8 list \<Rightarrow> u8 list" where
  "der_element t body = t # der_len (length body) @ body"

lemma der_len_bytes_bounds: "1 \<le> der_len_bytes n" "der_len_bytes n \<le> 4"
  by (simp_all add: der_len_bytes_def)

lemma der_len_bytes_minimal:
  assumes "128 \<le> n" "n < 4294967296"
  shows "k = der_len_bytes n \<longleftrightarrow> 1 \<le> k \<and> k \<le> 4 \<and> n < 256 ^ k \<and> 256 ^ (k - 1) \<le> n"
proof -
  have "k = 0 \<or> k = 1 \<or> k = 2 \<or> k = 3 \<or> k = 4 \<or> 4 < k" by linarith
  then show ?thesis
    using assms by (elim disjE) (auto simp: der_len_bytes_def)
qed

lemma length_der_len: "length (der_len n) = (if n < 128 then 1 else 1 + der_len_bytes n)"
  by (simp add: der_len_def)

lemma pow_256: "(2 :: nat) ^ (j * 8) = 256 ^ j"
  using power_mult [of "2 :: nat" 8 j] by (simp add: mult.commute)

lemma long_form_len_Some:
  "long_form_len h k = Some len \<longleftrightarrow>
    (\<exists>n r. h = be_bytes k n @ r \<and> 128 \<le> n \<and> n < 4294967296 \<and> k = der_len_bytes n \<and> len = n + (2 + k))"
proof
  assume L: "long_form_len h k = Some len"
  then have k: "1 \<le> k" "k \<le> 4" by (auto simp: long_form_len_def split: if_splits)
  obtain v r where g: "cbs_get_u h k = (Some v, r)"
    using L by (cases "cbs_get_u h k"; cases "fst (cbs_get_u h k)")
      (auto simp: long_form_len_def split: if_splits)
  then obtain p where p: "h = p @ r" "length p = k" "v = be_shift p" by (auto simp: cbs_get_u_Some)
  let ?n = "be_value p"
  have n: "unat v = ?n" using p k by (simp add: unat_be_shift_short)
  have lt: "?n < 256 ^ k" using be_value_lt [of p] p(2) by simp
  have lt32: "?n < 4294967296" using unat_u32_lt [of v] n by simp
  have c: "\<not> v < 128" "drop_bit ((k - 1) * 8) v \<noteq> 0" and len: "len = ?n + (2 + k)"
    using L g k n lt32 by (auto simp: long_form_len_def Let_def split: if_splits)
  have "128 \<le> ?n" using c(1) n by (simp add: word_less_nat_alt)
  moreover have "256 ^ (k - 1) \<le> ?n"
  proof -
    have "unat (drop_bit ((k - 1) * 8) v) \<noteq> 0" using c(2) by (simp add: unat_eq_zero)
    then have "?n div 2 ^ ((k - 1) * 8) \<noteq> 0" using n by (simp add: unat_drop_bit)
    then have "2 ^ ((k - 1) * 8) \<le> ?n" by (metis div_less linorder_not_le)
    then show ?thesis by (simp only: pow_256)
  qed
  ultimately have "k = der_len_bytes ?n" using der_len_bytes_minimal lt lt32 k by blast
  moreover have "h = be_bytes k ?n @ r" using p be_bytes_be_value [of p] by simp
  ultimately show "\<exists>n r. h = be_bytes k n @ r \<and> 128 \<le> n \<and> n < 4294967296 \<and>
      k = der_len_bytes n \<and> len = n + (2 + k)"
    using \<open>128 \<le> ?n\<close> lt32 len by blast
next
  assume "\<exists>n r. h = be_bytes k n @ r \<and> 128 \<le> n \<and> n < 4294967296 \<and> k = der_len_bytes n \<and>
    len = n + (2 + k)"
  then obtain n r where h: "h = be_bytes k n @ r" "128 \<le> n" "n < 4294967296" "k = der_len_bytes n"
    "len = n + (2 + k)" by blast
  have k: "1 \<le> k" "k \<le> 4" "n < 256 ^ k" "256 ^ (k - 1) \<le> n"
    using der_len_bytes_minimal [OF h(2,3)] h(4) by blast+
  let ?v = "be_shift (be_bytes k n)"
  have v: "unat ?v = n" using k by (simp add: unat_be_shift_short be_value_be_bytes)
  have "\<not> ?v < 128" using v h(2) by (simp add: word_less_nat_alt)
  moreover have "drop_bit ((k - 1) * 8) ?v \<noteq> 0"
  proof
    assume "drop_bit ((k - 1) * 8) ?v = 0"
    then have "n div 2 ^ ((k - 1) * 8) = 0" using unat_drop_bit [of "(k - 1) * 8" ?v] v by simp
    then have "n < 256 ^ (k - 1)" by (simp only: pow_256) (simp add: div_eq_0_iff)
    with k(4) show False by simp
  qed
  moreover have "cbs_get_u h k = (Some ?v, r)" using cbs_get_u_append [of "be_bytes k n" k r] h(1) by simp
  ultimately show "long_form_len h k = Some len"
    using k v h(3,5) by (simp add: long_form_len_def Let_def)
qed


definition der_header_len :: "nat \<Rightarrow> nat" where
  "der_header_len n = 1 + length (der_len n)"

lemma length_der_element: "length (der_element t body) = der_header_len (length body) + length body"
  by (simp add: der_element_def der_header_len_def)

lemma mod_128_add: "k < 128 \<Longrightarrow> (128 + k) mod 128 = (k :: nat)"
  by simp

lemma der_element_complete:
  assumes t: "t AND 0x1f \<noteq> 0x1f" and len: "length body < 4294967296"
  shows "cbs_get_any_asn1_element (der_element t body @ r) ber =
    (Some (der_element t body, ucast t, der_header_len (length body)), r)"
proof -
  let ?n = "length body"
  have get: "CBS_get_bytes (der_element t body @ r) (?n + der_header_len ?n) =
      (Some (der_element t body), r)"
    by (rule CBS_get_bytes_append) (simp add: length_der_element)
  show ?thesis
  proof (cases "?n < 128")
    case True
    then have u: "unat (of_nat ?n :: u8) = ?n" by (simp add: unat_of_nat)
    have e: "der_element t body @ r = t # of_nat ?n # body @ r"
      using True by (simp add: der_element_def der_len_def)
    have "der_header_len ?n = 2" using True by (simp add: der_header_len_def length_der_len)
    then show ?thesis
      using t get u True unfolding cbs_get_any_asn1_element_def e
      by (simp add: and_80_unat Let_def)
  next
    case False
    let ?k = "der_len_bytes ?n" and ?b = "of_nat (128 + der_len_bytes (length body)) :: u8"
    have k: "1 \<le> ?k" "?k \<le> 4" by (rule der_len_bytes_bounds)+
    have ub: "unat ?b = 128 + ?k" using k by (simp add: unat_of_nat del: of_nat_add)
    have nb: "unat (?b AND 0x7f) = ?k" using k mod_128_add [of ?k] by (simp only: unat_and_7F ub)
    have e: "der_element t body @ r = t # ?b # be_bytes ?k ?n @ body @ r"
      using False by (simp add: der_element_def der_len_def)
    have "long_form_len (be_bytes ?k ?n @ body @ r) ?k = Some (?n + (2 + ?k))"
      using long_form_len_Some False len by auto
    moreover have "der_header_len ?n = 2 + ?k" using False by (simp add: der_header_len_def length_der_len)
    moreover have "?b AND 0x80 \<noteq> 0" using ub by (simp only: and_80_unat)
    ultimately show ?thesis
      using t get k nb unfolding cbs_get_any_asn1_element_def e
      by (simp add: Let_def del: of_nat_add)
  qed
qed

lemma CBS_get_bytes_length:
  "CBS_get_bytes x n = (Some p, r) \<Longrightarrow> x = p @ r \<and> length p = n"
  by (simp add: CBS_get_bytes_Some)

lemma der_element_sound:
  assumes g: "cbs_get_any_asn1_element x False = (Some (el, tag, hl), r)"
  shows "\<exists>t body. x = der_element t body @ r \<and> el = der_element t body \<and> tag = ucast t \<and>
    hl = der_header_len (length body) \<and> t AND 0x1f \<noteq> 0x1f \<and> length body < 4294967296"
proof -
  obtain t b h where x: "x = t # b # h"
    using g by (cases x; cases "tl x") (auto simp: cbs_get_any_asn1_element_def)
  have t: "t AND 0x1f \<noteq> 0x1f"
    using g by (auto simp: cbs_get_any_asn1_element_def x split: if_splits)
  show ?thesis
  proof (cases "b AND 0x80 = 0")
    case True
    then have b: "unat b < 128" by (simp add: and_80_unat)
    have "CBS_get_bytes x (unat b + 2) = (Some el, r)" "tag = ucast t" "hl = 2"
      using g t True by (auto simp: cbs_get_any_asn1_element_def x Let_def split: prod.splits option.splits)
    then have el: "t # b # h = el @ r" "length el = unat b + 2" by (simp_all add: CBS_get_bytes_Some x)
    then obtain body where body: "el = t # b # body" "h = body @ r" "length body = unat b"
      by (cases el; cases "tl el") auto
    then have "of_nat (length body) = b" by (simp add: unat_of_nat word_unat_eq_iff)
    then have "el = der_element t body" using body b by (simp add: der_element_def der_len_def)
    moreover have "der_header_len (length body) = 2"
      using body b by (simp add: der_header_len_def length_der_len)
    ultimately show ?thesis using t body x b \<open>tag = ucast t\<close> \<open>hl = 2\<close>
      by (intro exI [of _ t] exI [of _ body]) simp
  next
    case False
    let ?k = "unat (b AND 0x7f)"
    obtain len where l: "long_form_len h ?k = Some len" "CBS_get_bytes x len = (Some el, r)"
        "tag = ucast t" "hl = 2 + ?k"
      using g t False by (auto simp: cbs_get_any_asn1_element_def x Let_def split: prod.splits option.splits)
    obtain n q where n: "h = be_bytes ?k n @ q" "128 \<le> n" "n < 4294967296" "?k = der_len_bytes n"
        "len = n + (2 + ?k)"
      using l(1) long_form_len_Some by blast
    have ub: "128 \<le> unat b" using False by (simp add: and_80_unat)
    have "?k = unat b - 128"
    proof -
      have "unat b - 128 < 128" using ub unat_u8_lt [of b] by linarith
      then show ?thesis using mod_128_add [of "unat b - 128"] ub by (simp only: unat_and_7F) simp
    qed
    then have "unat b = 128 + ?k" using ub by linarith
    then have "of_nat (unat b) = (of_nat (128 + ?k) :: u8)" by (rule arg_cong)
    then have b: "b = of_nat (128 + ?k)" by simp
    have el: "x = el @ r" "length el = n + (2 + ?k)" using l(2) n(5) by (simp_all add: CBS_get_bytes_Some)
    have "t # b # be_bytes ?k n @ q = el @ r" using el(1) x n(1) by simp
    then obtain body where body: "el = t # b # be_bytes ?k n @ body" "q = body @ r"
    proof -
      have "el = take (n + (2 + ?k)) (t # b # be_bytes ?k n @ q)" using \<open>t # b # _ = _\<close> el(2) by simp
      then have "el = t # b # be_bytes ?k n @ take n q" by simp
      moreover have "q = take n q @ r"
        using \<open>t # b # _ = _\<close> calculation by (metis append_Cons append_assoc same_append_eq)
      ultimately show thesis by (rule that)
    qed
    then have len: "length body = n" using el(2) by simp
    then have "el = der_element t body"
      using body(1) n(2,4) b by (simp add: der_element_def der_len_def)
    moreover have "der_header_len (length body) = 2 + ?k"
      using len n(2,4) by (simp add: der_header_len_def length_der_len)
    ultimately show ?thesis using t x el(1) l(3,4) len n(3)
      by (intro exI [of _ t] exI [of _ body]) simp
  qed
qed

text \<open>
  C4: the element parser accepts exactly the distinguished encodings.  It succeeds on an
  input if and only if the input starts with the DER encoding (shortest length form,
  single-byte tag, at most 2^32 - 1 bytes of contents) of some contents, and then it
  returns these contents with their tag and what follows; so no two encodings of the same
  element are accepted, and reading never goes beyond the element.
\<close>

theorem CBS_get_any_asn1_iff_der:
  "CBS_get_any_asn1 x = (Some (body, tag), r) \<longleftrightarrow>
    (\<exists>t. x = der_element t body @ r \<and> tag = ucast t \<and> t AND 0x1f \<noteq> 0x1f \<and>
      length body < 4294967296)"
proof
  assume "CBS_get_any_asn1 x = (Some (body, tag), r)"
  then obtain el hl where g: "cbs_get_any_asn1_element x False = (Some (el, tag, hl), r)"
      "CBS_skip el hl = (True, body)"
    by (auto simp: CBS_get_any_asn1_def CBS_get_any_asn1_element_def split: prod.splits option.splits bool.splits)
  from der_element_sound [OF g(1)] obtain t c where c: "x = der_element t c @ r"
      "el = der_element t c" "tag = ucast t" "hl = der_header_len (length c)"
      "t AND 0x1f \<noteq> 0x1f" "length c < 4294967296" by blast
  have "drop hl el = c" by (simp add: c(2,4) der_element_def der_header_len_def)
  then have "body = c" using g(2) by (auto simp: CBS_skip_def cbs_get_def split: if_splits)
  with c show "\<exists>t. x = der_element t body @ r \<and> tag = ucast t \<and> t AND 0x1f \<noteq> 0x1f \<and>
      length body < 4294967296" by blast
next
  assume "\<exists>t. x = der_element t body @ r \<and> tag = ucast t \<and> t AND 0x1f \<noteq> 0x1f \<and>
      length body < 4294967296"
  then obtain t where t: "x = der_element t body @ r" "tag = ucast t" "t AND 0x1f \<noteq> 0x1f"
      "length body < 4294967296" by blast
  have "CBS_skip (der_element t body) (der_header_len (length body)) = (True, body)"
    by (simp add: CBS_skip_def cbs_get_def length_der_element)
      (simp add: der_element_def der_header_len_def)
  then show "CBS_get_any_asn1 x = (Some (body, tag), r)"
    using der_element_complete [OF t(3,4)] t(1,2)
    by (simp add: CBS_get_any_asn1_def CBS_get_any_asn1_element_def)
qed


lemma CBS_get_any_asn1_iff_der_witness:
  "CBS_get_any_asn1 [0x30, 3, 1, 2, 3, 9] = (Some ([1, 2, 3], 0x30), [9])"
  using CBS_get_any_asn1_iff_der [of "[0x30, 3, 1, 2, 3, 9]" "[1, 2, 3]" "0x30" "[9]"]
  by (auto simp: der_element_def der_len_def intro!: exI [of _ "0x30"])

lemma CBS_get_asn1_der:
  "CBS_get_asn1 x tag = (Some body, r) \<longleftrightarrow>
    (\<exists>t. x = der_element t body @ r \<and> tag = ucast t \<and> t AND 0x1f \<noteq> 0x1f \<and>
      length body < 4294967296)"
proof
  assume "CBS_get_asn1 x tag = (Some body, r)"
  then obtain el hl where g: "cbs_get_any_asn1_element x False = (Some (el, tag, hl), r)"
      "CBS_skip el hl = (True, body)"
    by (auto simp: CBS_get_asn1_def cbs_get_asn1_def CBS_get_any_asn1_element_def
        split: prod.splits option.splits bool.splits if_splits)
  from der_element_sound [OF g(1)] obtain t c where c: "x = der_element t c @ r"
      "el = der_element t c" "tag = ucast t" "hl = der_header_len (length c)"
      "t AND 0x1f \<noteq> 0x1f" "length c < 4294967296" by blast
  have "drop hl el = c" by (simp add: c(2,4) der_element_def der_header_len_def)
  then have "body = c" using g(2) by (auto simp: CBS_skip_def cbs_get_def split: if_splits)
  with c show "\<exists>t. x = der_element t body @ r \<and> tag = ucast t \<and> t AND 0x1f \<noteq> 0x1f \<and>
      length body < 4294967296" by blast
next
  assume "\<exists>t. x = der_element t body @ r \<and> tag = ucast t \<and> t AND 0x1f \<noteq> 0x1f \<and>
      length body < 4294967296"
  then obtain t where t: "x = der_element t body @ r" "tag = ucast t" "t AND 0x1f \<noteq> 0x1f"
      "length body < 4294967296" by blast
  have "CBS_skip (der_element t body) (der_header_len (length body)) = (True, body)"
    by (simp add: CBS_skip_def cbs_get_def length_der_element)
      (simp add: der_element_def der_header_len_def)
  then show "CBS_get_asn1 x tag = (Some body, r)"
    using der_element_complete [OF t(3,4)] t(1,2)
    by (simp add: CBS_get_asn1_def cbs_get_asn1_def CBS_get_any_asn1_element_def)
qed

section \<open>Unsigned integers\<close>

lemma be_value_Cons: "be_value (b # bs) = unat b * 256 ^ length bs + be_value bs"
proof (induction bs rule: rev_induct)
  case (snoc c bs)
  have "be_value (b # bs @ [c]) = be_value (b # bs) * 256 + unat c"
    using be_value_snoc [of "b # bs" c] by simp
  with snoc show ?case by simp
qed (use be_value_snoc [of "[]" b] in simp)

lemma be_value_zeros: "be_value (replicate j 0 @ bs) = be_value bs"
  by (induction j) (simp_all add: be_value_Cons)

lemma be_bytes_pad: "be_bytes (j + length bs) (be_value bs) = replicate j 0 @ bs"
  using be_bytes_be_value [of "replicate j 0 @ bs"] by (simp add: be_value_zeros)

lemma unat_shift_or_byte64:
  assumes "drop_bit 56 r = 0"
  shows "unat (push_bit 8 r OR ucast (b :: u8) :: u64) = unat r * 256 + unat b"
proof -
  have "push_bit 8 r AND (ucast b :: u64) = 0"
    by (rule bit_word_eqI) (auto simp: bit_simps dest: bit_imp_le_length)
  then have "push_bit 8 r OR ucast b = push_bit 8 r + (ucast b :: u64)"
    by (simp add: disjunctive_add_eq_or)
  also have "\<dots> = of_nat (unat r * 256 + unat b)"
    by (simp add: push_bit_eq_mult)
  finally have u: "unat (push_bit 8 r OR ucast b :: u64) = (unat r * 256 + unat b) mod 2 ^ 64"
    by (simp only: unat_of_nat) simp
  have "unat r div 2 ^ 56 = 0" using assms unat_drop_bit [of 56 r] by simp
  then have "unat r < 72057594037927936" by (simp add: div_eq_0_iff)
  then have "unat r * 256 + unat b < size_mod" using unat_u8_lt [of b] by linarith
  then have "unat r * 256 + unat b < 2 ^ 64" by simp
  with u show ?thesis by simp
qed

lemma uint64_loop_spec:
  "uint64_loop out bs = (if unat out * 256 ^ length bs + be_value bs < 2 ^ 64
     then Some (of_nat (unat out * 256 ^ length bs + be_value bs)) else None)"
proof (induction bs arbitrary: out)
  case Nil
  have "unat out < 2 ^ 64" by simp
  then show ?case by simp
next
  case (Cons b bs)
  have d: "drop_bit 56 out \<noteq> 0 \<longleftrightarrow> 2 ^ 56 \<le> unat out"
  proof -
    have "drop_bit 56 out = 0 \<longleftrightarrow> unat (drop_bit 56 out) = 0" by (simp add: unat_eq_zero)
    also have "\<dots> \<longleftrightarrow> unat out < 2 ^ 56" by (simp only: unat_drop_bit div_eq_0_iff) simp
    finally show ?thesis by (simp add: not_less)
  qed
  show ?case
  proof (cases "2 ^ 56 \<le> unat out")
    case True
    have "(2 :: nat) ^ 64 = 2 ^ 56 * 256 ^ 1" by simp
    also have "\<dots> \<le> unat out * 256 ^ length (b # bs)"
      using True by (intro mult_le_mono power_increasing) simp_all
    finally show ?thesis using True d by simp
  next
    case False
    let ?o = "push_bit 8 out OR ucast b :: u64"
    have "unat ?o = unat out * 256 + unat b" using False d by (intro unat_shift_or_byte64) simp
    then have "unat ?o * 256 ^ length bs + be_value bs =
        unat out * 256 ^ length (b # bs) + be_value (b # bs)"
      by (simp add: be_value_Cons algebra_simps)
    then show ?thesis using Cons.IH [of ?o] False d by simp
  qed
qed

text \<open>The minimal two's complement contents of a non-negative INTEGER.\<close>

definition uint_body :: "nat \<Rightarrow> u8 list" where
  "uint_body n = (if n = 0 then [0]
     else let bs = dropWhile (\<lambda>b. b = 0) (be_bytes 8 n) in if unat (hd bs) < 128 then bs else 0 # bs)"

definition minimal_uint :: "u8 list \<Rightarrow> bool" where
  "minimal_uint bs \<longleftrightarrow> bs \<noteq> [] \<and> unat (bs ! 0) < 128 \<and>
     \<not> (bs ! 0 = 0 \<and> 1 < length bs \<and> unat (bs ! 1) < 128)"

lemma stripped:
  assumes "n < 2 ^ 64" "n \<noteq> 0"
  shows "let bs = dropWhile (\<lambda>b. b = 0) (be_bytes 8 n) in
    bs \<noteq> [] \<and> hd bs \<noteq> 0 \<and> be_value bs = n \<and> length bs \<le> 8"
proof -
  let ?bs = "dropWhile (\<lambda>b. b = 0) (be_bytes 8 n)" and ?zs = "takeWhile (\<lambda>b. b = 0) (be_bytes 8 n)"
  have "be_value (be_bytes 8 n) = n" using assms(1) by (simp add: be_value_be_bytes)
  moreover have "?zs = replicate (length ?zs) 0"
    by (metis (mono_tags) replicate_eqI set_takeWhileD)
  then have "be_value (be_bytes 8 n) = be_value ?bs"
    by (metis be_value_zeros takeWhile_dropWhile_id)
  ultimately have v: "be_value ?bs = n" by simp
  have "?bs \<noteq> []"
  proof
    assume "?bs = []"
    then have "be_value ?bs = be_value []" by (rule arg_cong)
    with v assms(2) show False by (simp only: be_value_Nil)
  qed
  moreover have "hd ?bs \<noteq> 0" using hd_dropWhile [OF \<open>?bs \<noteq> []\<close>] by simp
  moreover have "length ?bs \<le> 8" using length_dropWhile_le [of "\<lambda>b. b = 0" "be_bytes 8 n"] by simp
  ultimately show ?thesis using v by (simp add: Let_def)
qed

lemma uint_body_minimal:
  assumes "n < 2 ^ 64"
  shows "minimal_uint (uint_body n) \<and> be_value (uint_body n) = n \<and> length (uint_body n) \<le> 9"
proof (cases "n = 0")
  case False
  obtain bs where bs: "bs = dropWhile (\<lambda>b. b = 0) (be_bytes 8 n)" by simp
  then have "uint_body n = (if unat (hd bs) < 128 then bs else 0 # bs)"
    using False by (simp add: uint_body_def Let_def)
  moreover have "bs \<noteq> []" "hd bs \<noteq> 0" "be_value bs = n" "length bs \<le> 8"
    using stripped [OF assms False] bs by (simp_all add: Let_def)
  ultimately show ?thesis
    by (cases bs) (auto simp: minimal_uint_def be_value_Cons)
qed (simp add: uint_body_def minimal_uint_def be_value_Cons)

lemma uint_body_unique:
  assumes m: "minimal_uint bs" and lt: "be_value bs < 2 ^ 64"
  shows "uint_body (be_value bs) = bs"
proof -
  obtain b cs where bs: "bs = b # cs" using m by (cases bs) (auto simp: minimal_uint_def)
  have strip: "dropWhile (\<lambda>b. b = 0) (be_bytes 8 (be_value (c # ds))) = c # ds \<and> be_value (c # ds) \<noteq> 0"
    if "c \<noteq> 0" "be_value (c # ds) < 2 ^ 64" for c ds
  proof -
    have "1 \<le> unat c" using that(1) by (simp add: Suc_le_eq unat_gt_0)
    then have "256 ^ length ds \<le> be_value (c # ds)" by (simp add: be_value_Cons trans_le_add1)
    moreover have "0 < (256 :: nat) ^ length ds" by simp
    ultimately have le: "256 ^ length ds \<le> be_value (c # ds)" "be_value (c # ds) \<noteq> 0" by linarith+
    have "length ds < 8"
    proof (rule ccontr)
      assume "\<not> length ds < 8"
      then have "(256 :: nat) ^ 8 \<le> 256 ^ length ds" by (intro power_increasing) simp_all
      with le(1) that(2) show False by simp
    qed
    then have "be_bytes 8 (be_value (c # ds)) = replicate (8 - Suc (length ds)) 0 @ c # ds"
      using be_bytes_pad [of "8 - Suc (length ds)" "c # ds"] by simp
    then show ?thesis using that(1) le(2) by (simp add: dropWhile_append)
  qed
  show ?thesis
  proof (cases "b = 0")
    case False
    then show ?thesis using strip [OF False] lt m by (auto simp: bs uint_body_def minimal_uint_def Let_def)
  next
    case True
    show ?thesis
    proof (cases cs)
      case Nil
      then show ?thesis using True by (simp add: bs uint_body_def be_value_Cons)
    next
      case (Cons c ds)
      then have c: "\<not> unat c < 128" using m True by (simp add: bs minimal_uint_def)
      then have "c \<noteq> 0" by auto
      moreover have "be_value bs = be_value (c # ds)" using True Cons by (simp add: bs be_value_Cons)
      ultimately show ?thesis
        using strip [of c ds] lt c True Cons by (simp add: bs uint_body_def Let_def)
    qed
  qed
qed

lemma CBS_get_asn1_uint64_spec:
  "CBS_get_asn1_uint64 x = (Some v, r) \<longleftrightarrow> x = der_element 2 (uint_body (unat v)) @ r"
proof -
  have int: "CBS_ASN1_INTEGER = ucast t \<longleftrightarrow> t = 2" for t :: u8
  proof -
    have "ucast t = (2 :: u32) \<longleftrightarrow> unat (ucast t :: u32) = unat (2 :: u32)" by (simp add: word_unat_eq_iff)
    also have "unat (ucast t :: u32) = unat t"
      using less_trans [OF unat_u8_lt [of t], of 4294967296]
      by (simp add: unsigned_ucast_eq take_bit_eq_mod [where ?'a = nat])
    also have "unat t = unat (2 :: u32) \<longleftrightarrow> t = 2" by (simp add: word_unat_eq_iff)
    finally show ?thesis by (auto simp: CBS_ASN1_INTEGER_def)
  qed
  have loop: "uint64_loop 0 dat = (if be_value dat < 2 ^ 64 then Some (of_nat (be_value dat)) else None)"
    for dat by (simp add: uint64_loop_spec)
  have small: "length dat < 4294967296" if "length dat \<le> 9" for dat :: "u8 list" using that by simp
  show ?thesis
  proof
    assume "CBS_get_asn1_uint64 x = (Some v, r)"
    then obtain dat where d: "CBS_get_asn1 x CBS_ASN1_INTEGER = (Some dat, r)"
      "minimal_uint dat" "uint64_loop 0 dat = Some v"
      by (auto simp: CBS_get_asn1_uint64_def minimal_uint_def and_80_unat
          split: prod.splits option.splits if_splits)
    have "unat v = be_value dat" "be_value dat < 2 ^ 64"
      using d(3) by (auto simp: loop unat_of_nat split: if_splits)
    then have "uint_body (unat v) = dat" using uint_body_unique [OF d(2)] by simp
    then show "x = der_element 2 (uint_body (unat v)) @ r"
      using d(1) by (auto simp: CBS_get_asn1_der int)
  next
    assume x: "x = der_element 2 (uint_body (unat v)) @ r"
    have m: "minimal_uint (uint_body (unat v))" "be_value (uint_body (unat v)) = unat v"
        "length (uint_body (unat v)) \<le> 9"
      using uint_body_minimal [of "unat v"] by simp_all
    have "CBS_get_asn1 x CBS_ASN1_INTEGER = (Some (uint_body (unat v)), r)"
      using x small [OF m(3)] by (auto simp: CBS_get_asn1_der int intro!: exI [of _ 2])
    then show "CBS_get_asn1_uint64 x = (Some v, r)"
      using m by (simp add: CBS_get_asn1_uint64_def loop minimal_uint_def and_80_unat)
  qed
qed

lemma uint_body_200: "uint_body 200 = [0, 200]"
  by code_simp

text \<open>
  \<open>CBS_get_asn1_uint64\<close> accepts exactly the minimal encodings of the numbers below 2^64:
  negative numbers, superfluous leading zeros and larger numbers are refused, so every
  number has one encoding.
\<close>

theorem CBS_get_asn1_uint64_iff:
  "CBS_get_asn1_uint64 x = (Some v, r) \<longleftrightarrow> x = der_element 2 (uint_body (unat v)) @ r"
  by (rule CBS_get_asn1_uint64_spec)

lemma CBS_get_asn1_uint64_iff_witness:
  "CBS_get_asn1_uint64 [2, 2, 0, 200, 7] = (Some 200, [7])"
  using CBS_get_asn1_uint64_iff [of "[2, 2, 0, 200, 7]" 200 "[7]"]
  by (simp add: der_element_def der_len_def uint_body_200)

end
