(* ===== verification/Cbb.thy ===== *)
theory Cbb
  imports Cbs "HOL-Library.Monad_Syntax"
begin

text \<open>
  Building byte strings and DER (\<open>crypto/bytestring/cbb.c\<close>).  The CBBs of one builder share
  a buffer; a CBB variable is named by its address, so that the \<open>child\<close> pointers and the
  writes through them are those of the code.  The result \<open>None\<close> is undefined behaviour: a
  null or dangling \<open>base\<close> is dereferenced, a write leaves the buffer, an assertion fails or
  the child pointers form a cycle.
\<close>

record cbb_buffer =
  bb_buf :: "u8 list"
  bb_len :: size_t
  bb_cap :: size_t
  bb_can_resize :: bool
  bb_error :: bool

record cbb =
  c_base :: bool
  c_child :: "nat option"
  c_offset :: size_t
  c_pending_len_len :: nat
  c_pending_is_asn1 :: bool
  c_is_top_level :: bool

text \<open>\<open>st_base\<close> is the shared buffer until it is freed, \<open>st_freed\<close> the byte arrays given to
  \<open>OPENSSL_free\<close>.\<close>

record builder =
  st_base :: "cbb_buffer option"
  st_cbb :: "nat \<Rightarrow> cbb"
  st_freed :: "u8 list list"

text \<open>
  What \<open>OPENSSL_realloc\<close> does for a size: \<open>None\<close> when it fails, else the indeterminate
  contents of the new block behind the old bytes, which it keeps (\<open>OPENSSL_realloc_preserves\<close>).
\<close>

type_synonym realloc_env = "size_t \<Rightarrow> (nat \<Rightarrow> u8) option"

definition zero_cbb :: cbb where
  "zero_cbb = \<lparr>c_base = False, c_child = None, c_offset = 0, c_pending_len_len = 0,
     c_pending_is_asn1 = False, c_is_top_level = False\<rparr>"

definition upd_cbb :: "nat \<Rightarrow> (cbb \<Rightarrow> cbb) \<Rightarrow> builder \<Rightarrow> builder" where
  "upd_cbb p f st = st\<lparr>st_cbb := (st_cbb st)(p := f (st_cbb st p))\<rparr>"

definition CBB_zero :: "nat \<Rightarrow> builder \<Rightarrow> builder" where
  "CBB_zero p st = upd_cbb p (\<lambda>_. zero_cbb) st"

definition cbb_init :: "bool \<Rightarrow> nat \<Rightarrow> u8 list \<Rightarrow> size_t \<Rightarrow> builder \<Rightarrow> bool \<times> builder" where
  "cbb_init alloc_ok p buf cap st =
    (if \<not> alloc_ok then (False, st)
     else (True, upd_cbb p (\<lambda>c. c\<lparr>c_base := True, c_is_top_level := True\<rparr>)
       (st\<lparr>st_base := Some \<lparr>bb_buf = buf, bb_len = 0, bb_cap = cap, bb_can_resize = True,
          bb_error = False\<rparr>\<rparr>)))"

definition CBB_init :: "u8 list option \<Rightarrow> bool \<Rightarrow> nat \<Rightarrow> size_t \<Rightarrow> builder \<Rightarrow> bool \<times> builder" where
  "CBB_init buf alloc_ok p initial_capacity st =
    (let st = CBB_zero p st in
     if 0 < initial_capacity \<and> buf = None then (False, st)
     else
       let b = (case buf of None \<Rightarrow> [] | Some b \<Rightarrow> b) in
       (case cbb_init alloc_ok p b initial_capacity st of
          (False, st') \<Rightarrow> (False, st'\<lparr>st_freed := b # st_freed st'\<rparr>)
        | (True, st') \<Rightarrow> (True, st')))"

definition CBB_init_fixed :: "bool \<Rightarrow> nat \<Rightarrow> u8 list \<Rightarrow> size_t \<Rightarrow> builder \<Rightarrow> bool \<times> builder" where
  "CBB_init_fixed alloc_ok p buf len st =
    (case cbb_init alloc_ok p buf len (CBB_zero p st) of
       (False, st') \<Rightarrow> (False, st')
     | (True, st') \<Rightarrow> (True, st'\<lparr>st_base := map_option (\<lambda>b. b\<lparr>bb_can_resize := False\<rparr>) (st_base st')\<rparr>))"

definition CBB_cleanup :: "nat \<Rightarrow> builder \<Rightarrow> builder option" where
  "CBB_cleanup p st =
    (if \<not> c_base (st_cbb st p) then Some st
     else if \<not> c_is_top_level (st_cbb st p) then None
     else do {
       base \<leftarrow> st_base st;
       let freed = (if bb_can_resize base then bb_buf base # st_freed st else st_freed st);
       Some (upd_cbb p (\<lambda>c. c\<lparr>c_base := False\<rparr>) (st\<lparr>st_base := None, st_freed := freed\<rparr>))
     })"

section \<open>The shared buffer\<close>

definition cbb_buffer_reserve :: "realloc_env \<Rightarrow> size_t \<Rightarrow> cbb_buffer \<Rightarrow> bool \<times> cbb_buffer" where
  "cbb_buffer_reserve rf len base =
    (let newlen = size_add (bb_len base) len in
     if newlen < bb_len base then (False, base\<lparr>bb_error := True\<rparr>)
     else if bb_cap base < newlen then
       let newcap = size_mul (bb_cap base) 2 in
       if \<not> bb_can_resize base then (False, base\<lparr>bb_error := True\<rparr>)
       else
         let newcap = (if newcap < bb_cap base \<or> newcap < newlen then newlen else newcap) in
         (case rf newcap of
            None \<Rightarrow> (False, base\<lparr>bb_error := True\<rparr>)
          | Some fresh \<Rightarrow>
              (True, base\<lparr>bb_buf := bb_buf base @ map fresh [length (bb_buf base)..<newcap],
                 bb_cap := newcap\<rparr>))
     else (True, base))"

definition cbb_buffer_add :: "realloc_env \<Rightarrow> size_t \<Rightarrow> cbb_buffer \<Rightarrow> bool \<times> cbb_buffer" where
  "cbb_buffer_add rf len base =
    (case cbb_buffer_reserve rf len base of
       (False, base') \<Rightarrow> (False, base')
     | (True, base') \<Rightarrow> (True, base'\<lparr>bb_len := size_add (bb_len base') len\<rparr>))"

definition write_buf :: "nat \<Rightarrow> u8 list \<Rightarrow> u8 list \<Rightarrow> u8 list option" where
  "write_buf at bs buf = (if length buf < at + length bs then None
     else Some (take at buf @ bs @ drop (at + length bs) buf))"

text \<open>The loops that store \<open>k\<close> bytes of \<open>v\<close> downwards from \<open>off + k - 1\<close>; the result has what is
  left of \<open>v\<close>.\<close>

fun put_be :: "nat \<Rightarrow> nat \<Rightarrow> nat \<Rightarrow> u8 list \<Rightarrow> (u8 list \<times> nat) option" where
  "put_be 0 off v buf = Some (buf, v)"
| "put_be (Suc i) off v buf = do {
     buf' \<leftarrow> write_buf (off + i) [of_nat v] buf;
     put_be i off (v div 256) buf'
   }"

definition cbb_buffer_add_u ::
  "realloc_env \<Rightarrow> nat \<Rightarrow> size_t \<Rightarrow> cbb_buffer \<Rightarrow> (bool \<times> cbb_buffer) option" where
  "cbb_buffer_add_u rf v len_len base =
    (if len_len = 0 then Some (True, base)
     else (case cbb_buffer_add rf len_len base of
         (False, base') \<Rightarrow> Some (False, base')
       | (True, base') \<Rightarrow> do {
           (buf, v') \<leftarrow> put_be len_len (bb_len base) v (bb_buf base');
           if v' \<noteq> 0 then Some (False, base'\<lparr>bb_buf := buf, bb_error := True\<rparr>)
           else Some (True, base'\<lparr>bb_buf := buf\<rparr>)
         }))"

section \<open>Length prefixes\<close>

definition set_error :: "builder \<Rightarrow> builder" where
  "set_error st = st\<lparr>st_base := map_option (\<lambda>b. b\<lparr>bb_error := True\<rparr>) (st_base st)\<rparr>"

text \<open>The header of an ASN.1 length: its size, its first byte and the length still to be written.\<close>

definition asn1_length_header :: "nat \<Rightarrow> nat \<times> u8 \<times> nat" where
  "asn1_length_header len =
    (if 0xffffff < len then (5, 0x84, len)
     else if 0xffff < len then (4, 0x83, len)
     else if 0xff < len then (3, 0x82, len)
     else if 0x7f < len then (2, 0x81, len)
     else (1, of_nat len, 0))"

text \<open>The ASN.1 case of \<open>CBB_flush\<close>: make room for the length and store its first byte; the
  result has the length still to be written.\<close>

definition flush_asn1 ::
  "realloc_env \<Rightarrow> nat \<Rightarrow> nat \<Rightarrow> nat \<Rightarrow> builder \<Rightarrow> (nat option \<times> builder) option" where
  "flush_asn1 rf q child_start len st = do {
     base \<leftarrow> st_base st;
     if c_pending_len_len (st_cbb st q) \<noteq> 1 then None
     else if 0xfffffffe < len then Some (None, st)
     else
       let (len_len, initial_length_byte, len) = asn1_length_header len;
           extra_bytes = len_len - 1;
           (ok, base1) = (if len_len \<noteq> 1 then cbb_buffer_add rf extra_bytes base else (True, base)) in
       if \<not> ok then Some (None, st\<lparr>st_base := Some base1\<rparr>)
       else do {
         buf \<leftarrow> (if len_len \<noteq> 1
           then write_buf (child_start + extra_bytes) (take len (drop child_start (bb_buf base1))) (bb_buf base1)
           else Some (bb_buf base1));
         buf \<leftarrow> write_buf (c_offset (st_cbb st q)) [initial_length_byte] buf;
         Some (Some len, upd_cbb q (\<lambda>c. c\<lparr>c_offset := size_add (c_offset c) 1, c_pending_len_len := len_len - 1\<rparr>)
           (st\<lparr>st_base := Some (base1\<lparr>bb_buf := buf\<rparr>)\<rparr>))
       }
   }"

text \<open>What \<open>CBB_flush\<close> does with the pending prefix of \<open>q\<close>, the child of \<open>p\<close>, once \<open>q\<close> itself
  has been flushed (\<open>ok\<close>).\<close>

definition flush_prefix ::
  "realloc_env \<Rightarrow> nat \<Rightarrow> nat \<Rightarrow> nat \<Rightarrow> bool \<times> builder \<Rightarrow> (bool \<times> builder) option" where
  "flush_prefix rf p q child_start r = (case r of (ok, st) \<Rightarrow> do {
     base \<leftarrow> st_base st;
     if \<not> ok \<or> child_start < c_offset (st_cbb st q) \<or> bb_len base < child_start
     then Some (False, set_error st)
     else do {
       let len = bb_len base - child_start;
       (rest, st1) \<leftarrow> (if c_pending_is_asn1 (st_cbb st q) then flush_asn1 rf q child_start len st
         else Some (Some len, st));
       (case rest of
          None \<Rightarrow> Some (False, set_error st1)
        | Some len \<Rightarrow> do {
            base1 \<leftarrow> st_base st1;
            (buf, len) \<leftarrow> put_be (c_pending_len_len (st_cbb st1 q)) (c_offset (st_cbb st1 q)) len (bb_buf base1);
            let st2 = st1\<lparr>st_base := Some (base1\<lparr>bb_buf := buf\<rparr>)\<rparr>;
            if len \<noteq> 0 then Some (False, set_error st2)
            else Some (True, upd_cbb p (\<lambda>c. c\<lparr>c_child := None\<rparr>) (upd_cbb q (\<lambda>c. c\<lparr>c_base := False\<rparr>) st2))
          })
     }})"

partial_function (option) CBB_flush ::
  "realloc_env \<Rightarrow> nat \<Rightarrow> builder \<Rightarrow> (bool \<times> builder) option" where
  "CBB_flush rf p st =
    (if \<not> c_base (st_cbb st p) then Some (False, st)
     else Option.bind (st_base st) (\<lambda>base.
       if bb_error base then Some (False, st)
       else (case c_child (st_cbb st p) of
           None \<Rightarrow> Some (True, st)
         | Some q \<Rightarrow>
             if c_pending_len_len (st_cbb st q) = 0 then Some (True, st)
             else Option.bind (CBB_flush rf q st)
               (flush_prefix rf p q
                 (size_add (c_offset (st_cbb st q)) (c_pending_len_len (st_cbb st q)))))))"


section \<open>Operations\<close>

text \<open>An operation first flushes, then works on the buffer; \<open>f\<close> is given the offset of the end.\<close>

definition flush_then ::
  "realloc_env \<Rightarrow> nat \<Rightarrow> (builder \<Rightarrow> (bool \<times> builder) option) \<Rightarrow> builder \<Rightarrow> (bool \<times> builder) option" where
  "flush_then rf p f st = Option.bind (CBB_flush rf p st) (\<lambda>(ok, st1). if \<not> ok then Some (False, st1) else f st1)"

definition on_base :: "(cbb_buffer \<Rightarrow> (bool \<times> cbb_buffer) option) \<Rightarrow> builder \<Rightarrow> (bool \<times> builder) option" where
  "on_base f st = Option.bind (st_base st) (\<lambda>base.
     Option.bind (f base) (\<lambda>(ok, base'). Some (ok, st\<lparr>st_base := Some base'\<rparr>)))"

text \<open>\<open>cbb_buffer_add\<close> followed by storing \<open>bs\<close> in the space it made.\<close>

definition buffer_append :: "realloc_env \<Rightarrow> u8 list \<Rightarrow> cbb_buffer \<Rightarrow> (bool \<times> cbb_buffer) option" where
  "buffer_append rf bs base = (case cbb_buffer_add rf (length bs) base of
     (False, base') \<Rightarrow> Some (False, base')
   | (True, base') \<Rightarrow> do {
       buf \<leftarrow> write_buf (bb_len base) bs (bb_buf base');
       Some (True, base'\<lparr>bb_buf := buf\<rparr>)
     })"

definition open_child :: "nat \<Rightarrow> nat \<Rightarrow> size_t \<Rightarrow> nat \<Rightarrow> bool \<Rightarrow> builder \<Rightarrow> builder" where
  "open_child p q offset len_len is_asn1 st =
    upd_cbb p (\<lambda>c. c\<lparr>c_child := Some q\<rparr>)
      (upd_cbb q (\<lambda>_. zero_cbb\<lparr>c_base := True, c_offset := offset, c_pending_len_len := len_len,
         c_pending_is_asn1 := is_asn1\<rparr>) st)"

definition cbb_add_length_prefixed ::
  "realloc_env \<Rightarrow> nat \<Rightarrow> nat \<Rightarrow> nat \<Rightarrow> builder \<Rightarrow> (bool \<times> builder) option" where
  "cbb_add_length_prefixed rf p q len_len = flush_then rf p (\<lambda>st. do {
     base \<leftarrow> st_base st;
     (ok, st1) \<leftarrow> on_base (buffer_append rf (replicate len_len 0)) st;
     if \<not> ok then Some (False, st1)
     else Some (True, open_child p q (bb_len base) len_len False st1)
   })"

definition CBB_add_u8_length_prefixed :: "realloc_env \<Rightarrow> nat \<Rightarrow> nat \<Rightarrow> builder \<Rightarrow> (bool \<times> builder) option" where
  "CBB_add_u8_length_prefixed rf p q = cbb_add_length_prefixed rf p q 1"

definition CBB_add_u16_length_prefixed :: "realloc_env \<Rightarrow> nat \<Rightarrow> nat \<Rightarrow> builder \<Rightarrow> (bool \<times> builder) option" where
  "CBB_add_u16_length_prefixed rf p q = cbb_add_length_prefixed rf p q 2"

definition CBB_add_u24_length_prefixed :: "realloc_env \<Rightarrow> nat \<Rightarrow> nat \<Rightarrow> builder \<Rightarrow> (bool \<times> builder) option" where
  "CBB_add_u24_length_prefixed rf p q = cbb_add_length_prefixed rf p q 3"

definition CBB_add_u8 :: "realloc_env \<Rightarrow> nat \<Rightarrow> u8 \<Rightarrow> builder \<Rightarrow> (bool \<times> builder) option" where
  "CBB_add_u8 rf p v = flush_then rf p (on_base (cbb_buffer_add_u rf (unat v) 1))"

definition CBB_add_u16 :: "realloc_env \<Rightarrow> nat \<Rightarrow> u16 \<Rightarrow> builder \<Rightarrow> (bool \<times> builder) option" where
  "CBB_add_u16 rf p v = flush_then rf p (on_base (cbb_buffer_add_u rf (unat v) 2))"

definition CBB_add_u24 :: "realloc_env \<Rightarrow> nat \<Rightarrow> u32 \<Rightarrow> builder \<Rightarrow> (bool \<times> builder) option" where
  "CBB_add_u24 rf p v = flush_then rf p (on_base (cbb_buffer_add_u rf (unat v) 3))"

definition CBB_add_u32 :: "realloc_env \<Rightarrow> nat \<Rightarrow> u32 \<Rightarrow> builder \<Rightarrow> (bool \<times> builder) option" where
  "CBB_add_u32 rf p v = flush_then rf p (on_base (cbb_buffer_add_u rf (unat v) 4))"

definition CBB_add_bytes :: "realloc_env \<Rightarrow> nat \<Rightarrow> u8 list \<Rightarrow> builder \<Rightarrow> (bool \<times> builder) option" where
  "CBB_add_bytes rf p dat = flush_then rf p (on_base (buffer_append rf dat))"

definition CBB_add_asn1 :: "realloc_env \<Rightarrow> nat \<Rightarrow> nat \<Rightarrow> u32 \<Rightarrow> builder \<Rightarrow> (bool \<times> builder) option" where
  "CBB_add_asn1 rf p q tag st =
    (if 0xff < tag \<or> tag AND 0x1f = 0x1f then
       (if c_base (st_cbb st p) \<and> st_base st \<noteq> None then Some (False, set_error st) else None)
     else flush_then rf p (\<lambda>st. do {
       (ok, st1) \<leftarrow> CBB_add_u8 rf p (ucast tag) st;
       if \<not> ok then Some (False, st1)
       else do {
         base \<leftarrow> st_base st1;
         (ok, st2) \<leftarrow> CBB_add_u8 rf p 0 st1;
         if \<not> ok then Some (False, st2)
         else Some (True, open_child p q (bb_len base) 1 True st2)
       }
     }) st)"

text \<open>\<open>CBB_add_space\<close> and \<open>CBB_reserve\<close> also deliver where in the buffer the space begins.\<close>

definition CBB_add_space :: "realloc_env \<Rightarrow> nat \<Rightarrow> size_t \<Rightarrow> builder \<Rightarrow> (nat option \<times> builder) option" where
  "CBB_add_space rf p len st = Option.bind (CBB_flush rf p st) (\<lambda>(ok, st1).
     if \<not> ok then Some (None, st1)
     else do {
       base \<leftarrow> st_base st1;
       let (ok, base') = cbb_buffer_add rf len base;
       Some (if ok then Some (bb_len base) else None, st1\<lparr>st_base := Some base'\<rparr>)
     })"

definition CBB_reserve :: "realloc_env \<Rightarrow> nat \<Rightarrow> size_t \<Rightarrow> builder \<Rightarrow> (nat option \<times> builder) option" where
  "CBB_reserve rf p len st = Option.bind (CBB_flush rf p st) (\<lambda>(ok, st1).
     if \<not> ok then Some (None, st1)
     else do {
       base \<leftarrow> st_base st1;
       let (ok, base') = cbb_buffer_reserve rf len base;
       Some (if ok then Some (bb_len base) else None, st1\<lparr>st_base := Some base'\<rparr>)
     })"

definition CBB_did_write :: "nat \<Rightarrow> size_t \<Rightarrow> builder \<Rightarrow> (bool \<times> builder) option" where
  "CBB_did_write p len st =
    (if \<not> c_base (st_cbb st p) then None
     else do {
       base \<leftarrow> st_base st;
       let newlen = size_add (bb_len base) len;
       if c_child (st_cbb st p) \<noteq> None \<or> newlen < bb_len base \<or> bb_cap base < newlen
       then Some (False, st)
       else Some (True, st\<lparr>st_base := Some (base\<lparr>bb_len := newlen\<rparr>)\<rparr>)
     })"

definition CBB_discard_child :: "nat \<Rightarrow> builder \<Rightarrow> builder option" where
  "CBB_discard_child p st = (case c_child (st_cbb st p) of
     None \<Rightarrow> Some st
   | Some q \<Rightarrow>
       if \<not> c_base (st_cbb st p) then None
       else do {
         base \<leftarrow> st_base st;
         Some (upd_cbb p (\<lambda>c. c\<lparr>c_child := None\<rparr>) (upd_cbb q (\<lambda>c. c\<lparr>c_base := False\<rparr>)
           (st\<lparr>st_base := Some (base\<lparr>bb_len := c_offset (st_cbb st q)\<rparr>)\<rparr>)))
       })"

text \<open>The bytes that \<open>CBB_data\<close> points to, up to the end of the buffer.\<close>

definition CBB_data :: "nat \<Rightarrow> builder \<Rightarrow> u8 list option" where
  "CBB_data p st =
    (if c_child (st_cbb st p) \<noteq> None \<or> \<not> c_base (st_cbb st p) then None
     else do {
       base \<leftarrow> st_base st;
       Some (drop (c_offset (st_cbb st p) + c_pending_len_len (st_cbb st p)) (bb_buf base))
     })"

definition CBB_len :: "nat \<Rightarrow> builder \<Rightarrow> size_t option" where
  "CBB_len p st =
    (if c_child (st_cbb st p) \<noteq> None \<or> \<not> c_base (st_cbb st p) then None
     else do {
       base \<leftarrow> st_base st;
       let start = size_add (c_offset (st_cbb st p)) (c_pending_len_len (st_cbb st p));
       if bb_len base < start then None
       else Some (size_sub (size_sub (bb_len base) (c_offset (st_cbb st p))) (c_pending_len_len (st_cbb st p)))
     })"

text \<open>The flags tell which out-parameters are given; on success the buffer and its length are
  delivered and the builder no longer owns the buffer.\<close>

definition CBB_finish ::
  "realloc_env \<Rightarrow> nat \<Rightarrow> bool \<Rightarrow> bool \<Rightarrow> builder \<Rightarrow> ((u8 list option \<times> size_t option) option \<times> builder) option" where
  "CBB_finish rf p want_data want_len st =
    (if \<not> c_is_top_level (st_cbb st p) then Some (None, st)
     else do {
       (ok, st1) \<leftarrow> CBB_flush rf p st;
       if \<not> ok then Some (None, st1)
       else do {
         base \<leftarrow> st_base st1;
         if bb_can_resize base \<and> (\<not> want_data \<or> \<not> want_len) then Some (None, st1)
         else do {
           st2 \<leftarrow> CBB_cleanup p (st1\<lparr>st_base := Some (base\<lparr>bb_buf := []\<rparr>)\<rparr>);
           Some (Some (if want_data then Some (bb_buf base) else None,
             if want_len then Some (bb_len base) else None), st2)
         }
       }
     })"

fun asn1_uint64_loop :: "realloc_env \<Rightarrow> nat \<Rightarrow> u8 list \<Rightarrow> bool \<Rightarrow> builder \<Rightarrow> (bool \<times> builder) option" where
  "asn1_uint64_loop rf c [] started st =
    (if started then Some (True, st) else CBB_add_u8 rf c 0 st)"
| "asn1_uint64_loop rf c (byte # bytes) started st =
    (if \<not> started \<and> byte = 0 then asn1_uint64_loop rf c bytes started st
     else do {
       (ok, st1) \<leftarrow> (if \<not> started \<and> byte AND 0x80 \<noteq> 0 then CBB_add_u8 rf c 0 st else Some (True, st));
       if \<not> ok then Some (False, st1)
       else do {
         (ok, st2) \<leftarrow> CBB_add_u8 rf c byte st1;
         if \<not> ok then Some (False, st2) else asn1_uint64_loop rf c bytes True st2
       }
     })"

text \<open>\<open>c\<close> is the address of the local variable \<open>child\<close>.\<close>

definition CBB_add_asn1_uint64 :: "realloc_env \<Rightarrow> nat \<Rightarrow> nat \<Rightarrow> u64 \<Rightarrow> builder \<Rightarrow> (bool \<times> builder) option" where
  "CBB_add_asn1_uint64 rf p c v st = do {
     (ok, st1) \<leftarrow> CBB_add_asn1 rf p c CBS_ASN1_INTEGER st;
     if \<not> ok then Some (False, st1)
     else do {
       (ok, st2) \<leftarrow> asn1_uint64_loop rf c
         (map (\<lambda>i. ucast (drop_bit (8 * (7 - i)) v AND 0xff)) [0..<8]) False st1;
       if \<not> ok then Some (False, st2) else CBB_flush rf p st2
     }
   }"


section \<open>The buffer invariant\<close>

definition buf_wf :: "cbb_buffer \<Rightarrow> bool" where
  "buf_wf base \<longleftrightarrow> length (bb_buf base) = bb_cap base \<and> bb_len base \<le> bb_cap base \<and> bb_cap base < size_mod"

definition contents :: "cbb_buffer \<Rightarrow> u8 list" where
  "contents base = take (bb_len base) (bb_buf base)"

text \<open>Memory for \<open>n\<close> bytes is there or can be had.\<close>

definition fits :: "realloc_env \<Rightarrow> nat \<Rightarrow> cbb_buffer \<Rightarrow> bool" where
  "fits rf n base \<longleftrightarrow> n < size_mod \<and> (n \<le> bb_cap base \<or> bb_can_resize base \<and> (\<forall>m. rf m \<noteq> None))"

lemma length_contents [simp]: "buf_wf base \<Longrightarrow> length (contents base) = bb_len base"
  by (simp add: buf_wf_def contents_def)

lemma fits_le: "fits rf n base \<Longrightarrow> m \<le> n \<Longrightarrow> fits rf m base"
  by (auto simp: fits_def)

definition grown :: "cbb_buffer \<Rightarrow> cbb_buffer \<Rightarrow> bool" where
  "grown base base' \<longleftrightarrow> bb_can_resize base' = bb_can_resize base \<and> bb_cap base \<le> bb_cap base'"

lemma grown_refl [simp]: "grown base base"
  by (simp add: grown_def)

lemma grown_fits: "grown base base' \<Longrightarrow> fits rf n base \<Longrightarrow> fits rf n base'"
  by (auto simp: fits_def grown_def)

lemma grown_trans [trans]: "grown a b \<Longrightarrow> grown b c \<Longrightarrow> grown a c"
  by (simp add: grown_def)

lemma cbb_buffer_reserve_spec:
  assumes wf: "buf_wf base" and len: "len < size_mod"
  obtains ok base' where "cbb_buffer_reserve rf len base = (ok, base')" "buf_wf base'" "grown base base'"
    "bb_len base' = bb_len base" "contents base' = contents base"
    "bb_error base' = (bb_error base \<or> \<not> ok)" "ok \<Longrightarrow> bb_len base + len \<le> bb_cap base'"
    "fits rf (bb_len base + len) base \<Longrightarrow> ok"
proof -
  have l: "bb_len base < size_mod" using wf by (auto simp: buf_wf_def)
  show thesis
  proof (cases "size_mod \<le> bb_len base + len")
    case True
    then have "cbb_buffer_reserve rf len base = (False, base\<lparr>bb_error := True\<rparr>)"
      using size_add_wraps [OF l len] by (simp add: cbb_buffer_reserve_def Let_def)
    then show thesis
      by (rule that) (use wf True in \<open>auto simp: buf_wf_def grown_def contents_def fits_def\<close>)
  next
    case False
    then have a: "size_add (bb_len base) len = bb_len base + len" by simp
    show thesis
    proof (cases "bb_cap base < bb_len base + len")
      case False
      then have "cbb_buffer_reserve rf len base = (True, base)"
        by (simp add: cbb_buffer_reserve_def a Let_def)
      then show thesis by (rule that) (use wf False in auto)
    next
      case True
      show thesis
      proof (cases "bb_can_resize base")
        case False
        then have "cbb_buffer_reserve rf len base = (False, base\<lparr>bb_error := True\<rparr>)"
          using True by (simp add: cbb_buffer_reserve_def a Let_def)
        then show thesis
          by (rule that) (use wf True False in \<open>auto simp: buf_wf_def grown_def contents_def fits_def\<close>)
      next
        case cr: True
        let ?d = "size_mul (bb_cap base) 2"
        let ?n = "if ?d < bb_cap base \<or> ?d < bb_len base + len then bb_len base + len else ?d"
        have n: "bb_len base + len \<le> ?n" "?n < size_mod" "bb_cap base \<le> ?n"
          using \<open>\<not> size_mod \<le> bb_len base + len\<close> True by (auto simp: size_mul_def)
        show thesis
        proof (cases "rf ?n")
          case None
          then have r: "cbb_buffer_reserve rf len base = (False, base\<lparr>bb_error := True\<rparr>)"
            using True cr by (simp add: cbb_buffer_reserve_def a Let_def split: if_splits)
          have nf: "\<not> fits rf (bb_len base + len) base" using None True by (auto simp: fits_def simp del: if_split)
          show thesis
            by (rule that [OF r]) (use wf True nf in \<open>auto simp: buf_wf_def grown_def contents_def\<close>)
        next
          case (Some fresh)
          let ?b = "base\<lparr>bb_buf := bb_buf base @ map fresh [length (bb_buf base)..<?n], bb_cap := ?n\<rparr>"
          have "cbb_buffer_reserve rf len base = (True, ?b)"
            using True cr Some by (simp add: cbb_buffer_reserve_def a Let_def)
          then show thesis
            by (rule that) (use wf n in \<open>simp_all add: buf_wf_def grown_def contents_def\<close>)
        qed
      qed
    qed
  qed
qed

lemma cbb_buffer_add_spec:
  assumes wf: "buf_wf base" and len: "len < size_mod"
  obtains ok base' where "cbb_buffer_add rf len base = (ok, base')" "buf_wf base'" "grown base base'"
    "bb_error base' = (bb_error base \<or> \<not> ok)"
    "ok \<Longrightarrow> bb_len base' = bb_len base + len"
    "ok \<Longrightarrow> \<exists>x. length x = len \<and> contents base' = contents base @ x"
    "ok \<Longrightarrow> fits rf (bb_len base + len) base'"
    "fits rf (bb_len base + len) base \<Longrightarrow> ok"
proof -
  obtain ok b where r: "cbb_buffer_reserve rf len base = (ok, b)" "buf_wf b" "grown base b"
    "bb_len b = bb_len base" "contents b = contents base"
    "bb_error b = (bb_error base \<or> \<not> ok)" "ok \<Longrightarrow> bb_len base + len \<le> bb_cap b"
    "fits rf (bb_len base + len) base \<Longrightarrow> ok"
    by (rule cbb_buffer_reserve_spec [OF wf len, of rf]) (rule that; assumption)
  show thesis
  proof (cases ok)
    case False
    then have "cbb_buffer_add rf len base = (False, b)" using r(1) by (simp add: cbb_buffer_add_def)
    then show thesis by (rule that) (use r False in auto)
  next
    case True
    let ?b = "b\<lparr>bb_len := bb_len base + len\<rparr>"
    have "bb_len base + len < size_mod" using r(2) r(7) [OF True] by (simp add: buf_wf_def)
    then have "cbb_buffer_add rf len base = (True, ?b)" using r(1,4) True by (simp add: cbb_buffer_add_def)
    moreover have "buf_wf ?b" using r(2) r(7) [OF True] by (simp add: buf_wf_def)
    moreover have "grown base ?b" using r(3) by (simp add: grown_def)
    moreover have "contents ?b = contents base @ take len (drop (bb_len base) (bb_buf b))"
      using r(4,5) by (simp add: contents_def take_add)
    moreover have "length (take len (drop (bb_len base) (bb_buf b))) = len"
      using r(2) r(7) [OF True] by (simp add: buf_wf_def)
    ultimately show thesis
      using \<open>bb_len base + len < size_mod\<close> r(7) [OF True] r(6) True
      by (intro that [of True ?b]) (auto simp: fits_def)
  qed
qed

lemma write_buf_Some:
  "at + length bs \<le> length buf \<Longrightarrow> write_buf at bs buf = Some (take at buf @ bs @ drop (at + length bs) buf)"
  by (simp add: write_buf_def)

lemma put_be_spec:
  "off + k \<le> length buf \<Longrightarrow>
    put_be k off v buf = Some (take off buf @ be_bytes k v @ drop (off + k) buf, v div 256 ^ k)"
proof (induction k arbitrary: v buf)
  case (Suc k)
  let ?buf = "take (off + k) buf @ [of_nat v] @ drop (off + Suc k) buf"
  have "write_buf (off + k) [of_nat v] buf = Some ?buf" using Suc.prems by (simp add: write_buf_Some)
  moreover have "put_be k off (v div 256) ?buf = Some (take off ?buf @ be_bytes k (v div 256) @ drop (off + k) ?buf,
      v div 256 div 256 ^ k)"
    using Suc.prems by (intro Suc.IH) simp
  moreover have "take off ?buf = take off buf" "drop (off + k) ?buf = [of_nat v] @ drop (off + Suc k) buf"
    using Suc.prems by (simp_all add: min_def)
  ultimately show ?case by (simp add: div_mult2_eq)
qed simp

lemma contents_overwrite:
  assumes wf: "buf_wf base" and at: "at + length bs \<le> bb_len base"
  shows "write_buf at bs (bb_buf base) = Some (take at (bb_buf base) @ bs @ drop (at + length bs) (bb_buf base))"
    "buf_wf (base\<lparr>bb_buf := take at (bb_buf base) @ bs @ drop (at + length bs) (bb_buf base)\<rparr>)"
    "contents (base\<lparr>bb_buf := take at (bb_buf base) @ bs @ drop (at + length bs) (bb_buf base)\<rparr>) =
      take at (contents base) @ bs @ drop (at + length bs) (contents base)"
proof -
  have l: "length (bb_buf base) = bb_cap base" "bb_len base \<le> bb_cap base" "bb_cap base < size_mod"
    using wf by (simp_all add: buf_wf_def)
  show "write_buf at bs (bb_buf base) = Some (take at (bb_buf base) @ bs @ drop (at + length bs) (bb_buf base))"
    using l at by (simp add: write_buf_Some)
  show "buf_wf (base\<lparr>bb_buf := take at (bb_buf base) @ bs @ drop (at + length bs) (bb_buf base)\<rparr>)"
    using l at by (simp add: buf_wf_def)
  have "at \<le> bb_len base" "length bs \<le> bb_len base - at" using at by simp_all
  moreover have "bb_len base - at - length bs = bb_len base - (at + length bs)" by simp
  ultimately show "contents (base\<lparr>bb_buf := take at (bb_buf base) @ bs @ drop (at + length bs) (bb_buf base)\<rparr>) =
      take at (contents base) @ bs @ drop (at + length bs) (contents base)"
    using l at by (simp add: contents_def min_absorb1 min_absorb2 drop_take)
qed

lemma buffer_append_spec:
  assumes wf: "buf_wf base" and len: "length bs < size_mod"
  obtains ok base' where "buffer_append rf bs base = Some (ok, base')" "buf_wf base'" "grown base base'"
    "bb_error base' = (bb_error base \<or> \<not> ok)"
    "ok \<Longrightarrow> contents base' = contents base @ bs"
    "fits rf (bb_len base + length bs) base \<Longrightarrow> ok"
proof -
  obtain ok b where a: "cbb_buffer_add rf (length bs) base = (ok, b)" "buf_wf b" "grown base b"
    "bb_error b = (bb_error base \<or> \<not> ok)" "ok \<Longrightarrow> bb_len b = bb_len base + length bs"
    "ok \<Longrightarrow> \<exists>x. length x = length bs \<and> contents b = contents base @ x"
    "fits rf (bb_len base + length bs) base \<Longrightarrow> ok"
    by (rule cbb_buffer_add_spec [OF wf len, of rf]) (rule that; assumption)
  show thesis
  proof (cases ok)
    case False
    then have "buffer_append rf bs base = Some (False, b)" using a(1) by (simp add: buffer_append_def)
    then show thesis by (rule that) (use a False in auto)
  next
    case True
    let ?b = "b\<lparr>bb_buf := take (bb_len base) (bb_buf b) @ bs @ drop (bb_len base + length bs) (bb_buf b)\<rparr>"
    note w = contents_overwrite [OF a(2), of "bb_len base" bs]
    have at: "bb_len base + length bs \<le> bb_len b" using a(5) True by simp
    obtain x where x: "length x = length bs" "contents b = contents base @ x" using a(6) True by blast
    have "contents ?b = contents base @ bs" using w(3) [OF at] x wf by simp
    then show thesis
      using a(1,3,4) True w(1,2) [OF at]
      by (intro that [of True ?b]) (simp_all add: buffer_append_def grown_def)
  qed
qed

lemma cbb_buffer_add_u_spec:
  assumes wf: "buf_wf base" and k: "0 < k" "k < size_mod"
  obtains ok base' where "cbb_buffer_add_u rf v k base = Some (ok, base')" "buf_wf base'" "grown base base'"
    "bb_error base' = (bb_error base \<or> \<not> ok)"
    "ok \<Longrightarrow> v < 256 ^ k \<and> contents base' = contents base @ be_bytes k v"
    "v < 256 ^ k \<Longrightarrow> fits rf (bb_len base + k) base \<Longrightarrow> ok"
proof -
  obtain ok b where a: "cbb_buffer_add rf k base = (ok, b)" "buf_wf b" "grown base b"
    "bb_error b = (bb_error base \<or> \<not> ok)" "ok \<Longrightarrow> bb_len b = bb_len base + k"
    "ok \<Longrightarrow> \<exists>x. length x = k \<and> contents b = contents base @ x"
    "fits rf (bb_len base + k) base \<Longrightarrow> ok"
    by (rule cbb_buffer_add_spec [OF wf k(2), of rf]) (rule that; assumption)
  show thesis
  proof (cases ok)
    case False
    then have "cbb_buffer_add_u rf v k base = Some (False, b)" using a(1) k by (simp add: cbb_buffer_add_u_def)
    then show thesis by (rule that) (use a False in auto)
  next
    case True
    let ?buf = "take (bb_len base) (bb_buf b) @ be_bytes k v @ drop (bb_len base + k) (bb_buf b)"
    note w = contents_overwrite [OF a(2), of "bb_len base" "be_bytes k v"]
    have at: "bb_len base + length (be_bytes k v) \<le> bb_len b" using a(5) True by simp
    have p: "put_be k (bb_len base) v (bb_buf b) = Some (?buf, v div 256 ^ k)"
      using at a(2) by (intro put_be_spec) (simp add: buf_wf_def)
    obtain x where x: "length x = k" "contents b = contents base @ x" using a(6) True by blast
    have c: "contents (b\<lparr>bb_buf := ?buf\<rparr>) = contents base @ be_bytes k v" using w(3) [OF at] x wf by simp
    have wf': "buf_wf (b\<lparr>bb_buf := ?buf\<rparr>)" using w(2) [OF at] by simp
    show thesis
    proof (cases "v < 256 ^ k")
      case lt: True
      then have "cbb_buffer_add_u rf v k base = Some (True, b\<lparr>bb_buf := ?buf\<rparr>)"
        using a(1) True k p by (simp add: cbb_buffer_add_u_def)
      then show thesis by (rule that) (use wf' a(3,4) True c lt in \<open>auto simp: grown_def\<close>)
    next
      case False
      then have "v div 256 ^ k \<noteq> 0" by (simp add: div_eq_0_iff)
      then have "cbb_buffer_add_u rf v k base = Some (False, b\<lparr>bb_buf := ?buf, bb_error := True\<rparr>)"
        using a(1) True k p by (simp add: cbb_buffer_add_u_def)
      then show thesis
        by (rule that) (use wf' a(3,4) True False in \<open>auto simp: grown_def buf_wf_def\<close>)
    qed
  qed
qed


section \<open>Open frames\<close>

text \<open>
  The abstract state of a builder: the bytes of a CBB before its open child, and the open
  children below it, each with its kind of length prefix and its bytes so far.  Closing a
  frame puts the encoded length in front of its bytes.
\<close>

datatype len_kind = Fixed nat | Asn1

type_synonym frame = "nat \<times> len_kind \<times> u8 list"

fun hole :: "len_kind \<Rightarrow> nat" where
  "hole (Fixed n) = n"
| "hole Asn1 = 1"

fun enclose :: "len_kind \<Rightarrow> u8 list \<Rightarrow> u8 list option" where
  "enclose (Fixed n) body = (if length body < 256 ^ n then Some (be_bytes n (length body) @ body) else None)"
| "enclose Asn1 body = (if length body < 0xffffffff then Some (der_len (length body) @ body) else None)"

fun collapse :: "frame list \<Rightarrow> u8 list option" where
  "collapse [] = Some []"
| "collapse ((q, k, c) # fs) = (case collapse fs of None \<Rightarrow> None | Some r \<Rightarrow> enclose k (c @ r))"

fun frames :: "(nat \<Rightarrow> cbb) \<Rightarrow> nat \<Rightarrow> u8 list \<Rightarrow> u8 list \<Rightarrow> frame list \<Rightarrow> u8 list \<Rightarrow> bool" where
  "frames cs p pre b [] buf \<longleftrightarrow> c_base (cs p) \<and> c_child (cs p) = None \<and> buf = pre @ b"
| "frames cs p pre b ((q, k, c) # fs) buf \<longleftrightarrow> c_base (cs p) \<and> c_child (cs p) = Some q \<and>
    c_offset (cs q) = length pre + length b \<and> c_pending_len_len (cs q) = hole k \<and>
    c_pending_is_asn1 (cs q) = (k = Asn1) \<and> 0 < hole k \<and>
    (\<exists>h. length h = hole k \<and> frames cs q (pre @ b @ h) c fs buf)"

definition builds :: "builder \<Rightarrow> nat \<Rightarrow> u8 list \<Rightarrow> u8 list \<Rightarrow> frame list \<Rightarrow> bool" where
  "builds st p pre b fs \<longleftrightarrow> distinct (p # map fst fs) \<and>
    (\<exists>base. st_base st = Some base \<and> buf_wf base \<and> \<not> bb_error base \<and>
      frames (st_cbb st) p pre b fs (contents base))"

definition failed :: "builder \<Rightarrow> bool" where
  "failed st \<longleftrightarrow> (\<exists>base. st_base st = Some base \<and> buf_wf base \<and> bb_error base)"

text \<open>Memory for a total of \<open>n\<close> bytes is there or can be had.\<close>

definition room :: "realloc_env \<Rightarrow> nat \<Rightarrow> builder \<Rightarrow> bool" where
  "room rf n st \<longleftrightarrow> (\<exists>base. st_base st = Some base \<and> fits rf n base)"

text \<open>An operation on \<open>p\<close> may change the CBBs in \<open>A\<close> and the child of \<open>p\<close>.\<close>

definition later :: "nat \<Rightarrow> nat set \<Rightarrow> builder \<Rightarrow> builder \<Rightarrow> bool" where
  "later p A st st' \<longleftrightarrow> (\<forall>a. a \<notin> insert p A \<longrightarrow> st_cbb st' a = st_cbb st a) \<and>
    (\<exists>ch. st_cbb st' p = (st_cbb st p)\<lparr>c_child := ch\<rparr>) \<and> st_freed st' = st_freed st \<and>
    (\<exists>base base'. st_base st = Some base \<and> st_base st' = Some base' \<and> grown base base')"

text \<open>
  The outcome of an operation: no undefined behaviour; success means that the encoding
  exists (\<open>F\<close>) and the state is the intended one (\<open>Q\<close>), failure that the error flag is set;
  and it succeeds if the encoding exists and \<open>L\<close> bytes fit.
\<close>

definition outcome ::
  "realloc_env \<Rightarrow> builder \<Rightarrow> nat \<Rightarrow> nat set \<Rightarrow> nat \<Rightarrow> bool \<Rightarrow> (builder \<Rightarrow> bool) \<Rightarrow> (bool \<times> builder) option \<Rightarrow> bool" where
  "outcome rf st p A L F Q r \<longleftrightarrow> (\<exists>ok st'. r = Some (ok, st') \<and> later p A st st' \<and>
     (if ok then F \<and> Q st' else failed st') \<and> (F \<and> room rf L st \<longrightarrow> ok))"

lemma outcomeE:
  assumes "outcome rf st p A L F Q r"
  obtains ok st' where "r = Some (ok, st')" "later p A st st'" "ok \<Longrightarrow> F" "ok \<Longrightarrow> Q st'"
    "\<not> ok \<Longrightarrow> failed st'" "F \<Longrightarrow> room rf L st \<Longrightarrow> ok"
  using assms by (auto simp: outcome_def split: if_splits)

lemma outcomeI:
  "r = Some (ok, st') \<Longrightarrow> later p A st st' \<Longrightarrow> (ok \<Longrightarrow> F \<and> Q st') \<Longrightarrow> (\<not> ok \<Longrightarrow> failed st') \<Longrightarrow>
    (F \<Longrightarrow> room rf L st \<Longrightarrow> ok) \<Longrightarrow> outcome rf st p A L F Q r"
  by (auto simp: outcome_def)

lemma later_refl: "st_base st \<noteq> None \<Longrightarrow> later p A st st"
  by (auto simp: later_def intro!: exI [of _ "c_child (st_cbb st p)"])

lemma later_trans: "later p A st st1 \<Longrightarrow> later p A st1 st2 \<Longrightarrow> later p A st st2"
  by (auto simp: later_def intro: grown_trans)

lemma later_mono: "later p A st st' \<Longrightarrow> A \<subseteq> B \<Longrightarrow> later p B st st'"
  by (auto simp: later_def)

lemma later_child: "later q A st st' \<Longrightarrow> p \<notin> insert q A \<Longrightarrow> insert q A \<subseteq> B \<Longrightarrow> later p B st st'"
  by (auto simp: later_def intro!: exI [of _ "c_child (st_cbb st p)"])

lemma later_room: "later p A st st' \<Longrightarrow> room rf n st \<Longrightarrow> room rf n st'"
  by (auto simp: later_def room_def intro: grown_fits)

lemma room_le: "room rf n st \<Longrightarrow> m \<le> n \<Longrightarrow> room rf m st"
  by (auto simp: room_def intro: fits_le)

lemma outcome_mono:
  assumes 1: "outcome rf st p A L F Q r" and le: "A \<subseteq> A'" "L \<le> L'"
    and Q: "\<And>s. later p A st s \<Longrightarrow> Q s \<Longrightarrow> Q' s"
  shows "outcome rf st p A' L' F Q' r"
proof -
  obtain ok s where r: "r = Some (ok, s)" "later p A st s" "ok \<Longrightarrow> F" "ok \<Longrightarrow> Q s"
    "\<not> ok \<Longrightarrow> failed s" "F \<Longrightarrow> room rf L st \<Longrightarrow> ok"
    by (rule outcomeE [OF 1]) (rule that; assumption)
  show ?thesis
    by (rule outcomeI [OF r(1)]) (use r(2-) le in \<open>auto intro: Q later_mono dest: room_le\<close>)
qed

lemma outcome_bind:
  assumes 1: "outcome rf st p A L1 F1 Q1 r" and L: "L1 \<le> L"
    and 2: "\<And>s. r = Some (True, s) \<Longrightarrow> later p A st s \<Longrightarrow> Q1 s \<Longrightarrow> outcome rf s p A L F2 Q (g s)"
  shows "outcome rf st p A L (F1 \<and> F2) Q (Option.bind r (\<lambda>(ok, s). if \<not> ok then Some (False, s) else g s))"
proof -
  obtain ok s where r: "r = Some (ok, s)" "later p A st s" "ok \<Longrightarrow> F1" "ok \<Longrightarrow> Q1 s"
    "\<not> ok \<Longrightarrow> failed s" "F1 \<Longrightarrow> room rf L1 st \<Longrightarrow> ok" by (rule outcomeE [OF 1]) (rule that; assumption)
  show ?thesis
  proof (cases ok)
    case False
    then show ?thesis using r L by (auto simp: outcome_def intro: room_le)
  next
    case True
    have "outcome rf s p A L F2 Q (g s)" using r True by (intro 2) auto
    then obtain ok2 s2 where r2: "g s = Some (ok2, s2)" "later p A s s2" "ok2 \<Longrightarrow> F2" "ok2 \<Longrightarrow> Q s2"
      "\<not> ok2 \<Longrightarrow> failed s2" "F2 \<Longrightarrow> room rf L s \<Longrightarrow> ok2" by (rule outcomeE) (rule that; assumption)
    show ?thesis
      by (rule outcomeI [of _ ok2 s2])
        (use r r2 True in \<open>auto intro: later_trans later_room\<close>)
  qed
qed

lemma frames_cong:
  "frames cs p pre b fs buf \<Longrightarrow> (\<And>a. a \<in> insert p (fst ` set fs) \<Longrightarrow> cs' a = cs a) \<Longrightarrow>
    frames cs' p pre b fs buf"
proof (induction fs arbitrary: p pre b)
  case (Cons f fs)
  obtain q k c where f: "f = (q, k, c)" by (cases f)
  obtain h where h: "length h = hole k" "frames cs q (pre @ b @ h) c fs buf"
    using Cons.prems(1) f by auto
  have "frames cs' q (pre @ b @ h) c fs buf"
    using h(2) by (rule Cons.IH) (use Cons.prems(2) f in auto)
  then show ?case using Cons.prems f h(1) by auto
qed simp

lemma frames_prefix: "frames cs p pre b fs buf \<Longrightarrow> \<exists>x. buf = pre @ b @ x"
proof (induction fs arbitrary: p pre b)
  case (Cons f fs)
  obtain q k c where f: "f = (q, k, c)" by (cases f)
  then obtain h where "frames cs q (pre @ b @ h) c fs buf" using Cons.prems by auto
  from Cons.IH [OF this] show ?case by auto
qed simp

lemma builds_Nil: "builds st p pre b [] \<longleftrightarrow> c_base (st_cbb st p) \<and> c_child (st_cbb st p) = None \<and>
    (\<exists>base. st_base st = Some base \<and> buf_wf base \<and> \<not> bb_error base \<and> contents base = pre @ b)"
  by (auto simp: builds_def)

lemma builds_base: "builds st p pre b fs \<Longrightarrow> c_base (st_cbb st p)"
  by (cases "(st_cbb st, p, pre, b, fs, [] :: u8 list)" rule: frames.cases) (auto simp: builds_def)

text \<open>A builder with an open child is a builder of the child, and back.\<close>

lemma builds_child:
  assumes "builds st p pre b ((q, k, c) # fs)"
  obtains h where "length h = hole k" "builds st q (pre @ b @ h) c fs"
  using assms unfolding builds_def by fastforce

lemma builds_parent:
  assumes q: "builds st' q (pre @ b @ h) c fs'" and h: "length h = hole k"
    and p: "builds st p pre b ((q, k, c0) # fs)" and l: "later q A st st'" "p \<notin> insert q A"
    and d: "p \<notin> fst ` set fs'"
  shows "builds st' p pre b ((q, k, c) # fs')"
proof -
  have "st_cbb st' p = st_cbb st p" using l by (simp add: later_def)
  moreover obtain ch where "st_cbb st' q = (st_cbb st q)\<lparr>c_child := ch\<rparr>" using l(1) by (auto simp: later_def)
  ultimately show ?thesis using q h p d unfolding builds_def by auto
qed


section \<open>Flushing\<close>

lemma contents_replace:
  assumes wf: "buf_wf base" and c: "contents base = A @ h @ C" and len: "length h = length bs"
  obtains buf where "write_buf (length A) bs (bb_buf base) = Some buf" "buf_wf (base\<lparr>bb_buf := buf\<rparr>)"
    "contents (base\<lparr>bb_buf := buf\<rparr>) = A @ bs @ C"
proof -
  have "length A + length bs \<le> bb_len base" using length_contents [OF wf] c len by simp
  note w = contents_overwrite [OF wf this]
  show thesis by (rule that [OF w(1,2)]) (use w(3) c len in simp)
qed

lemma put_be_replace:
  assumes wf: "buf_wf base" and c: "contents base = A @ h @ C" and len: "length h = k"
  obtains buf where "put_be k (length A) v (bb_buf base) = Some (buf, v div 256 ^ k)"
    "buf_wf (base\<lparr>bb_buf := buf\<rparr>)" "contents (base\<lparr>bb_buf := buf\<rparr>) = A @ be_bytes k v @ C"
proof -
  obtain buf where b: "write_buf (length A) (be_bytes k v) (bb_buf base) = Some buf"
    "buf_wf (base\<lparr>bb_buf := buf\<rparr>)" "contents (base\<lparr>bb_buf := buf\<rparr>) = A @ be_bytes k v @ C"
    by (rule contents_replace [OF wf c, of "be_bytes k v"]) (use len in simp, rule that)
  have "length A + k \<le> length (bb_buf base)"
    using length_contents [OF wf] c len wf by (simp add: buf_wf_def)
  then have "put_be k (length A) v (bb_buf base) = Some (buf, v div 256 ^ k)"
    using b(1) by (simp add: put_be_spec write_buf_def split: if_splits)
  then show thesis by (rule that) (rule b(2,3))+
qed

lemma asn1_length_header_spec:
  assumes "n < 0xffffffff" "asn1_length_header n = (ll, b0, rest)"
  shows "0 < ll" "ll < 6" "der_len n = b0 # be_bytes (ll - 1) rest" "rest div 256 ^ (ll - 1) = 0"
    "ll \<noteq> 1 \<Longrightarrow> rest = n" "length (der_len n) = ll"
  using assms by (auto simp: asn1_length_header_def der_len_def der_len_bytes_def split: if_splits)

lemma flush_asn1_spec:
  assumes st: "st_base st = Some base" "buf_wf base" and c: "contents base = A @ [h] @ c"
    and q: "c_offset (st_cbb st q) = length A" "c_pending_len_len (st_cbb st q) = 1"
    and n: "length c < 0xffffffff"
  obtains (fail) base1 where
      "flush_asn1 rf q (length A + 1) (length c) st = Some (None, st\<lparr>st_base := Some base1\<rparr>)"
      "buf_wf base1" "grown base base1" "\<not> fits rf (length A + length (der_len (length c)) + length c) base"
  | (ok) base1 b0 hl rest where
      "flush_asn1 rf q (length A + 1) (length c) st = Some (Some rest,
        upd_cbb q (\<lambda>c. c\<lparr>c_offset := length A + 1, c_pending_len_len := length hl\<rparr>)
          (st\<lparr>st_base := Some base1\<rparr>))"
      "buf_wf base1" "grown base base1" "bb_error base1 = bb_error base"
      "contents base1 = A @ b0 # hl @ c" "der_len (length c) = b0 # be_bytes (length hl) rest"
      "rest div 256 ^ length hl = 0"
proof -
  obtain ll b0 rest where hd: "asn1_length_header (length c) = (ll, b0, rest)"
    by (cases "asn1_length_header (length c)")
  note H = asn1_length_header_spec [OF n hd]
  have bl: "bb_len base = length A + 1 + length c" using length_contents [OF st(2)] c by simp
  have off: "size_add (length A) 1 = length A + 1" using bl st(2) by (simp add: buf_wf_def)
  have n': "\<not> 0xfffffffe < length c" using n by simp
  show thesis
  proof (cases "ll = 1")
    case True
    obtain buf where w: "write_buf (length A) [b0] (bb_buf base) = Some buf"
      "buf_wf (base\<lparr>bb_buf := buf\<rparr>)" "contents (base\<lparr>bb_buf := buf\<rparr>) = A @ [b0] @ c"
      by (rule contents_replace [OF st(2) c, of "[b0]"]) (simp, rule that)
    have "flush_asn1 rf q (length A + 1) (length c) st = Some (Some rest,
        upd_cbb q (\<lambda>c. c\<lparr>c_offset := length A + 1, c_pending_len_len := length []\<rparr>)
          (st\<lparr>st_base := Some (base\<lparr>bb_buf := buf\<rparr>)\<rparr>))"
      using st(1) q n' hd True w(1) off by (simp add: flush_asn1_def Let_def upd_cbb_def)
    then show thesis
      by (rule ok [of rest "[]"]) (use w H True in \<open>auto simp: grown_def\<close>)
  next
    case False
    have lt: "ll - 1 < size_mod" using H(2) by simp
    obtain okb base1 where a: "cbb_buffer_add rf (ll - 1) base = (okb, base1)" "buf_wf base1" "grown base base1"
      "bb_error base1 = (bb_error base \<or> \<not> okb)" "okb \<Longrightarrow> bb_len base1 = bb_len base + (ll - 1)"
      "okb \<Longrightarrow> \<exists>x. length x = ll - 1 \<and> contents base1 = contents base @ x"
      "fits rf (bb_len base + (ll - 1)) base \<Longrightarrow> okb"
      by (rule cbb_buffer_add_spec [OF st(2) lt, of rf]) (rule that; assumption)
    show thesis
    proof (cases okb)
      case f: False
      have "flush_asn1 rf q (length A + 1) (length c) st = Some (None, st\<lparr>st_base := Some base1\<rparr>)"
        using st(1) q n' hd False f a(1) by (simp add: flush_asn1_def Let_def)
      moreover have "bb_len base + (ll - 1) = length A + length (der_len (length c)) + length c"
        using bl H(1,6) by simp
      ultimately show thesis using a(2,3,7) f by (intro fail) auto
    next
      case t: True
      obtain x where x: "length x = ll - 1" "contents base1 = (A @ [h]) @ c @ x" using a(6) t c by auto
      have "take (length c) (drop (length A + 1) (bb_buf base1)) = take (length c) (drop (length A + 1) (contents base1))"
        using a(5) t bl by (simp add: contents_def drop_take min_def)
      then have mv: "take (length c) (drop (length A + 1) (bb_buf base1)) = c" using x by simp
      obtain u v where u: "c @ x = u @ v" "length u = ll - 1"
        using x(1) by (metis append_take_drop_id length_append length_take min_absorb2 le_add2)
      have split: "contents base1 = (A @ [h] @ u) @ v @ []" using x u by simp
      obtain buf1 where w1: "write_buf (length (A @ [h] @ u)) c (bb_buf base1) = Some buf1"
        "buf_wf (base1\<lparr>bb_buf := buf1\<rparr>)" "contents (base1\<lparr>bb_buf := buf1\<rparr>) = (A @ [h] @ u) @ c @ []"
        by (rule contents_replace [OF a(2) split, of c]) (use x arg_cong [OF u(1), of length] u(2) in simp, rule that)
      have split2: "contents (base1\<lparr>bb_buf := buf1\<rparr>) = A @ [h] @ u @ c" using w1(3) by simp
      obtain buf2 where w2: "write_buf (length A) [b0] buf1 = Some buf2"
        "buf_wf (base1\<lparr>bb_buf := buf2\<rparr>)" "contents (base1\<lparr>bb_buf := buf2\<rparr>) = A @ [b0] @ u @ c"
        by (rule contents_replace [OF w1(2) split2, of "[b0]"]) (simp, use that in simp)
      have "flush_asn1 rf q (length A + 1) (length c) st = Some (Some rest,
        upd_cbb q (\<lambda>c. c\<lparr>c_offset := length A + 1, c_pending_len_len := length u\<rparr>)
          (st\<lparr>st_base := Some (base1\<lparr>bb_buf := buf2\<rparr>)\<rparr>))"
        using st(1) q n' hd False t a(1) w1(1) w2(1) off H(5) mv u(2) by (simp add: flush_asn1_def Let_def upd_cbb_def)
      then show thesis
        by (rule ok [of rest u]) (use w2 a(3,4) H u(2) t in \<open>auto simp: grown_def\<close>)
    qed
  qed
qed

lemma failed_set_error:
  "st_base st = Some base \<Longrightarrow> buf_wf base \<Longrightarrow> failed (set_error st)"
  by (simp add: failed_def set_error_def buf_wf_def)

lemma later_set_error:
  "later p A st s \<Longrightarrow> later p A st (set_error s)"
  by (auto simp: later_def set_error_def grown_def)

lemma enclose_fixed: "length c < 256 ^ n \<Longrightarrow> enclose (Fixed n) c = Some (be_bytes n (length c) @ c)"
  by simp


lemma flush_prefix_spec:
  assumes b: "builds st p pre b [(q, k, c)]"
  shows "outcome rf st p {q} (length pre + length b + length (the (enclose k c))) (enclose k c \<noteq> None)
    (\<lambda>s. builds s p pre (b @ the (enclose k c)) [])
    (flush_prefix rf p q (length pre + length b + hole k) (True, st))"
proof -
  obtain base h where base: "st_base st = Some base" "buf_wf base" "\<not> bb_error base"
    and cs: "p \<noteq> q" "c_base (st_cbb st p)" "c_child (st_cbb st p) = Some q"
      "c_offset (st_cbb st q) = length (pre @ b)" "c_pending_len_len (st_cbb st q) = hole k"
      "c_pending_is_asn1 (st_cbb st q) = (k = Asn1)" "0 < hole k" "length h = hole k"
    and c: "contents base = (pre @ b) @ h @ c"
    using b by (auto simp: builds_def)
  let ?n = "length c" and ?start = "length pre + length b + hole k"
  have bl: "bb_len base = ?start + ?n" using length_contents [OF base(2)] c cs by simp
  have self: "later p {q} st st" using base(1) by (intro later_refl) simp
  show ?thesis
  proof (cases k)
    case (Fixed n)
    obtain buf where w: "put_be n (length (pre @ b)) ?n (bb_buf base) = Some (buf, ?n div 256 ^ n)"
      "buf_wf (base\<lparr>bb_buf := buf\<rparr>)" "contents (base\<lparr>bb_buf := buf\<rparr>) = (pre @ b) @ be_bytes n ?n @ c"
      by (rule put_be_replace [OF base(2) c, of n]) (use cs(8) Fixed in simp, rule that)
    let ?st = "st\<lparr>st_base := Some (base\<lparr>bb_buf := buf\<rparr>)\<rparr>"
    have run: "flush_prefix rf p q ?start (True, st) = (if ?n div 256 ^ n \<noteq> 0 then Some (False, set_error ?st)
       else Some (True, upd_cbb p (\<lambda>c. c\<lparr>c_child := None\<rparr>) (upd_cbb q (\<lambda>c. c\<lparr>c_base := False\<rparr>) ?st)))"
      using base(1) cs bl w(1) Fixed by (simp add: flush_prefix_def Let_def)
    have st: "later p {q} st ?st" using base(1) by (auto simp: later_def grown_def intro!: exI [of _ "Some q"] simp: cs)
    show ?thesis
    proof (cases "?n < 256 ^ n")
      case True
      then show ?thesis
        using run base(1,3) w cs Fixed
        by (intro outcomeI [of _ True "upd_cbb p (\<lambda>c. c\<lparr>c_child := None\<rparr>) (upd_cbb q (\<lambda>c. c\<lparr>c_base := False\<rparr>) ?st)"])
          (auto simp: later_def grown_def upd_cbb_def builds_Nil)
    next
      case False
      then have "?n div 256 ^ n \<noteq> 0" by (simp add: div_eq_0_iff)
      then show ?thesis
        using run w(2) False Fixed
        by (intro outcomeI [of _ False "set_error ?st"])
          (auto intro: later_set_error [OF st] failed_set_error)
    qed
  next
    case Asn1
    show ?thesis
    proof (cases "?n < 0xffffffff")
      case False
      have "flush_asn1 rf q ?start ?n st = Some (None, st)"
        using base(1) cs Asn1 False by (simp add: flush_asn1_def)
      then have "flush_prefix rf p q ?start (True, st) = Some (False, set_error st)"
        using base(1) cs bl Asn1 by (simp add: flush_prefix_def Let_def)
      then show ?thesis
        using False Asn1 base(1,2)
        by (intro outcomeI [of _ False "set_error st"])
          (auto intro: later_set_error [OF self] failed_set_error)
    next
      case True
      then have e: "enclose k c = Some (der_len ?n @ c)" using Asn1 by simp
      obtain h0 where h0: "h = [h0]" using cs(8) Asn1 by (cases h) auto
      have start: "?start = length (pre @ b) + 1" using Asn1 by simp
      from base(1,2) c [unfolded h0] cs(4) show ?thesis
      proof (rule flush_asn1_spec [where rf = rf])
        show "c_pending_len_len (st_cbb st q) = 1" using cs(5) Asn1 by simp
        show "?n < 0xffffffff" by (rule True)
      next
        fix base1
        assume f: "flush_asn1 rf q (length (pre @ b) + 1) ?n st = Some (None, st\<lparr>st_base := Some base1\<rparr>)"
          "buf_wf base1" "grown base base1" "\<not> fits rf (length (pre @ b) + length (der_len ?n) + ?n) base"
        have "flush_prefix rf p q ?start (True, st) = Some (False, set_error (st\<lparr>st_base := Some base1\<rparr>))"
          using base(1) cs bl Asn1 f(1) by (simp add: flush_prefix_def Let_def)
        moreover have "\<not> room rf (length pre + length b + length (the (enclose k c))) st"
          using f(4) base(1) e by (simp add: room_def add.assoc)
        moreover have "later p {q} st (st\<lparr>st_base := Some base1\<rparr>)"
          using base(1) f(3) by (auto simp: later_def intro!: exI [of _ "Some q"] simp: cs)
        ultimately show ?thesis
          using f(2) by (intro outcomeI [of _ False "set_error (st\<lparr>st_base := Some base1\<rparr>)"])
            (auto intro: later_set_error failed_set_error)
      next
        fix base1 and b0 :: u8 and hl :: "u8 list" and rest
        let ?u = "upd_cbb q (\<lambda>c. c\<lparr>c_offset := length (pre @ b) + 1, c_pending_len_len := length hl\<rparr>)
          (st\<lparr>st_base := Some base1\<rparr>)"
        assume f: "flush_asn1 rf q (length (pre @ b) + 1) ?n st = Some (Some rest, ?u)"
          "buf_wf base1" "grown base base1" "bb_error base1 = bb_error base"
          "contents base1 = (pre @ b) @ b0 # hl @ c" "der_len ?n = b0 # be_bytes (length hl) rest"
          "rest div 256 ^ length hl = 0"
        have c1: "contents base1 = (pre @ b @ [b0]) @ hl @ c" using f(5) by simp
        obtain buf where w: "put_be (length hl) (length (pre @ b @ [b0])) rest (bb_buf base1) =
            Some (buf, rest div 256 ^ length hl)" "buf_wf (base1\<lparr>bb_buf := buf\<rparr>)"
          "contents (base1\<lparr>bb_buf := buf\<rparr>) = (pre @ b @ [b0]) @ be_bytes (length hl) rest @ c"
          by (rule put_be_replace [OF f(2) c1]) (simp, rule that)
        let ?s = "upd_cbb p (\<lambda>c. c\<lparr>c_child := None\<rparr>) (upd_cbb q (\<lambda>c. c\<lparr>c_base := False\<rparr>)
          (?u\<lparr>st_base := Some (base1\<lparr>bb_buf := buf\<rparr>)\<rparr>))"
        have "flush_prefix rf p q ?start (True, st) = Some (True, ?s)"
          using base(1) cs bl Asn1 f(1,7) w(1) by (simp add: flush_prefix_def Let_def upd_cbb_def)
        moreover have "later p {q} st ?s"
          using base(1) f(3) cs(1) by (auto simp: later_def upd_cbb_def grown_def)
        moreover have "builds ?s p pre (b @ the (enclose k c)) []"
          using base(1,3) w cs(1,2) f(4,6) e by (simp add: builds_Nil upd_cbb_def)
        ultimately show ?thesis using e by (intro outcomeI [of _ True ?s]) auto
      qed
    qed
  qed
qed


lemma enclose_length: "enclose k c = Some e \<Longrightarrow> hole k + length c \<le> length e"
  by (cases k) (auto simp: der_len_def split: if_splits)

lemma size_add_hole:
  assumes "builds st p pre b ((q, k, c) # fs)"
  shows "size_add (c_offset (st_cbb st q)) (c_pending_len_len (st_cbb st q)) = length pre + length b + hole k"
proof -
  obtain base where base: "st_base st = Some base" "buf_wf base"
      "frames (st_cbb st) p pre b ((q, k, c) # fs) (contents base)"
    using assms by (auto simp: builds_def)
  then obtain h where h: "length h = hole k" "frames (st_cbb st) q (pre @ b @ h) c fs (contents base)"
      "c_offset (st_cbb st q) = length pre + length b" "c_pending_len_len (st_cbb st q) = hole k"
    by auto
  from frames_prefix [OF h(2)] obtain x where "contents base = (pre @ b @ h) @ c @ x" by auto
  then have "length pre + length b + hole k \<le> bb_len base" using length_contents [OF base(2)] h(1) by simp
  then show ?thesis using base(2) h(3,4) by (simp add: buf_wf_def)
qed

lemma CBB_flush_spec:
  "builds st p pre b fs \<Longrightarrow>
    outcome rf st p (fst ` set fs) (length pre + length b + length (the (collapse fs))) (collapse fs \<noteq> None)
      (\<lambda>s. builds s p pre (b @ the (collapse fs)) []) (CBB_flush rf p st)"
proof (induction fs arbitrary: p pre b)
  case Nil
  then show ?case
    by (intro outcomeI [of _ True st])
      (auto simp: CBB_flush.simps [of rf p st] builds_Nil intro: later_refl)
next
  case (Cons f fs)
  obtain q k c where f: "f = (q, k, c)" by (cases f)
  note b = Cons.prems [unfolded f]
  let ?A = "fst ` set fs" and ?start = "length pre + length b + hole k"
  have cs: "c_base (st_cbb st p)" "c_child (st_cbb st p) = Some q" "c_pending_len_len (st_cbb st q) \<noteq> 0"
    and base: "\<exists>base. st_base st = Some base \<and> \<not> bb_error base" and d: "p \<notin> insert q ?A"
    using b by (auto simp: builds_def)
  obtain h where h: "length h = hole k" "builds st q (pre @ b @ h) c fs" by (rule builds_child [OF b])
  obtain ok s where r: "CBB_flush rf q st = Some (ok, s)" "later q ?A st s" "ok \<Longrightarrow> collapse fs \<noteq> None"
    "ok \<Longrightarrow> builds s q (pre @ b @ h) (c @ the (collapse fs)) []" "\<not> ok \<Longrightarrow> failed s"
    "collapse fs \<noteq> None \<Longrightarrow> room rf (length (pre @ b @ h) + length c + length (the (collapse fs))) st \<Longrightarrow> ok"
    using Cons.IH [OF h(2)] by (rule outcomeE) (rule that; assumption)
  have flush: "CBB_flush rf p st = flush_prefix rf p q ?start (ok, s)"
    using cs base r(1) size_add_hole [OF b] by (auto simp: CBB_flush.simps [of rf p st])
  have l: "later p (fst ` set (f # fs)) st s" using later_child [OF r(2) d order_refl] f by simp
  show ?case
  proof (cases ok)
    case False
    then obtain base where "st_base s = Some base" "buf_wf base" "bb_error base" using r(5) by (auto simp: failed_def)
    then have "flush_prefix rf p q ?start (ok, s) = Some (False, set_error s)" "failed (set_error s)"
      using False by (simp_all add: flush_prefix_def failed_set_error)
    moreover have "\<not> room rf (length pre + length b + length (the (collapse (f # fs)))) st"
      if nn: "collapse (f # fs) \<noteq> None"
    proof
      assume room: "room rf (length pre + length b + length (the (collapse (f # fs)))) st"
      obtain x e where e: "collapse fs = Some x" "enclose k (c @ x) = Some e" "collapse (f # fs) = Some e"
        using nn f by (auto split: option.splits)
      have "room rf (length (pre @ b @ h) + length c + length x) st"
        using room enclose_length [OF e(2)] h(1) e(3) by (elim room_le) simp
      then show False using r(6) e(1) False by simp
    qed
    ultimately show ?thesis
      using flush l by (intro outcomeI [of _ False "set_error s"]) (auto intro: later_set_error)
  next
    case True
    obtain x where x: "collapse fs = Some x" using r(3) True by auto
    have "builds s p pre b [(q, k, c @ x)]"
      using r(4) True x d by (intro builds_parent [OF _ h(1) b r(2)]) auto
    from flush_prefix_spec [OF this, of rf]
    have o: "outcome rf s p {q} (length pre + length b + length (the (enclose k (c @ x)))) (enclose k (c @ x) \<noteq> None)
      (\<lambda>s. builds s p pre (b @ the (enclose k (c @ x))) []) (CBB_flush rf p st)"
      using flush True by simp
    obtain ok2 s2 where r2: "CBB_flush rf p st = Some (ok2, s2)" "later p {q} s s2"
      "ok2 \<Longrightarrow> enclose k (c @ x) \<noteq> None" "ok2 \<Longrightarrow> builds s2 p pre (b @ the (enclose k (c @ x))) []"
      "\<not> ok2 \<Longrightarrow> failed s2"
      "enclose k (c @ x) \<noteq> None \<Longrightarrow> room rf (length pre + length b + length (the (enclose k (c @ x)))) s \<Longrightarrow> ok2"
      using o by (rule outcomeE) (rule that; assumption)
    have "later p (fst ` set (f # fs)) s s2" using later_mono [OF r2(2)] f by simp
    then show ?thesis
      using r2 x f l
      by (intro outcomeI [of _ ok2 s2]) (auto intro: later_trans later_room)
  qed
qed

section \<open>Adding to a builder\<close>

abbreviation total :: "u8 list \<Rightarrow> u8 list \<Rightarrow> frame list \<Rightarrow> nat" where
  "total pre b fs \<equiv> length pre + length b + length (the (collapse fs))"

lemma flush_then_outcome:
  assumes b: "builds st p pre b fs" and A: "fst ` set fs \<subseteq> A" and L: "total pre b fs \<le> L"
    and f: "\<And>s. later p A st s \<Longrightarrow> builds s p pre (b @ the (collapse fs)) [] \<Longrightarrow> outcome rf s p A L F Q (f s)"
  shows "outcome rf st p A L (collapse fs \<noteq> None \<and> F) Q (flush_then rf p f st)"
proof -
  have "outcome rf st p A (total pre b fs) (collapse fs \<noteq> None)
      (\<lambda>s. builds s p pre (b @ the (collapse fs)) []) (CBB_flush rf p st)"
    by (rule outcome_mono [OF CBB_flush_spec [OF b] A order_refl])
  then show ?thesis unfolding flush_then_def by (rule outcome_bind [OF _ L]) (rule f)
qed

lemma on_base_outcome:
  assumes b: "builds st p pre b []"
    and f: "\<And>base. buf_wf base \<Longrightarrow> \<exists>ok base'. f base = Some (ok, base') \<and> buf_wf base' \<and> grown base base' \<and>
      bb_error base' = (bb_error base \<or> \<not> ok) \<and> (ok \<longrightarrow> F \<and> contents base' = contents base @ x) \<and>
      (F \<and> fits rf (bb_len base + length x) base \<longrightarrow> ok)"
  shows "outcome rf st p A (length pre + length b + length x) F (\<lambda>s. builds s p pre (b @ x) []) (on_base f st)"
proof -
  obtain base where base: "st_base st = Some base" "buf_wf base" "\<not> bb_error base" "contents base = pre @ b"
    and p: "c_base (st_cbb st p)" "c_child (st_cbb st p) = None"
    using b by (auto simp: builds_Nil)
  obtain ok base' where r: "f base = Some (ok, base')" "buf_wf base'" "grown base base'"
      "bb_error base' = (bb_error base \<or> \<not> ok)" "ok \<longrightarrow> F \<and> contents base' = contents base @ x"
      "F \<and> fits rf (bb_len base + length x) base \<longrightarrow> ok"
    using f [OF base(2)] by blast
  have bl: "bb_len base = length pre + length b" using length_contents [OF base(2)] base(4) by simp
  have "later p A st (st\<lparr>st_base := Some base'\<rparr>)"
    using base(1) r(3) p by (auto simp: later_def intro!: exI [of _ None])
  then show ?thesis
    by (rule outcomeI [rotated]) (use r base p bl in \<open>auto simp: on_base_def builds_Nil failed_def room_def\<close>)
qed

lemma buffer_append_outcome:
  assumes b: "builds st p pre b []" and x: "length x < size_mod"
  shows "outcome rf st p A (length pre + length b + length x) True (\<lambda>s. builds s p pre (b @ x) [])
    (on_base (buffer_append rf x) st)"
proof (rule on_base_outcome [OF b])
  fix base assume "buf_wf base"
  from buffer_append_spec [OF this x, of rf]
  show "\<exists>ok base'. buffer_append rf x base = Some (ok, base') \<and> buf_wf base' \<and> grown base base' \<and>
      bb_error base' = (bb_error base \<or> \<not> ok) \<and> (ok \<longrightarrow> True \<and> contents base' = contents base @ x) \<and>
      (True \<and> fits rf (bb_len base + length x) base \<longrightarrow> ok)" by metis
qed

lemma add_u_outcome:
  assumes b: "builds st p pre b []" and k: "0 < k" "k < size_mod"
  shows "outcome rf st p A (length pre + length b + length (be_bytes k v)) (v < 256 ^ k)
    (\<lambda>s. builds s p pre (b @ be_bytes k v) []) (on_base (cbb_buffer_add_u rf v k) st)"
proof (rule on_base_outcome [OF b])
  fix base assume "buf_wf base"
  from cbb_buffer_add_u_spec [OF this k, of rf v]
  show "\<exists>ok base'. cbb_buffer_add_u rf v k base = Some (ok, base') \<and> buf_wf base' \<and> grown base base' \<and>
      bb_error base' = (bb_error base \<or> \<not> ok) \<and> (ok \<longrightarrow> v < 256 ^ k \<and> contents base' = contents base @ be_bytes k v) \<and>
      (v < 256 ^ k \<and> fits rf (bb_len base + length (be_bytes k v)) base \<longrightarrow> ok)" by (metis length_be_bytes)
qed

lemma CBB_add_bytes_spec:
  assumes b: "builds st p pre b fs" and x: "length x < size_mod"
  shows "outcome rf st p (fst ` set fs) (total pre b fs + length x) (collapse fs \<noteq> None)
    (\<lambda>s. builds s p pre (b @ the (collapse fs) @ x) []) (CBB_add_bytes rf p x st)"
proof -
  have "outcome rf s p (fst ` set fs) (total pre b fs + length x) True
      (\<lambda>s. builds s p pre (b @ the (collapse fs) @ x) []) (on_base (buffer_append rf x) s)"
    if "builds s p pre (b @ the (collapse fs)) []" for s
    using buffer_append_outcome [OF that x, of rf] by (simp add: add.assoc)
  then show ?thesis
    using flush_then_outcome [OF b order_refl, of "total pre b fs + length x" rf True]
    unfolding CBB_add_bytes_def by simp
qed

lemma add_u_spec:
  assumes b: "builds st p pre b fs" and k: "0 < k" "k < size_mod"
  shows "outcome rf st p (fst ` set fs) (total pre b fs + k) (collapse fs \<noteq> None \<and> v < 256 ^ k)
    (\<lambda>s. builds s p pre (b @ the (collapse fs) @ be_bytes k v) [])
    (flush_then rf p (on_base (cbb_buffer_add_u rf v k)) st)"
proof (rule flush_then_outcome [OF b order_refl])
  fix s assume "builds s p pre (b @ the (collapse fs)) []"
  then show "outcome rf s p (fst ` set fs) (total pre b fs + k) (v < 256 ^ k)
      (\<lambda>s. builds s p pre (b @ the (collapse fs) @ be_bytes k v) [])
      (on_base (cbb_buffer_add_u rf v k) s)"
    using add_u_outcome [OF _ k, of s p pre "b @ the (collapse fs)" rf "fst ` set fs" v] by (simp add: add.assoc)
qed simp


lemma be_bytes_1: "be_bytes 1 (unat v) = [v]"
  unfolding One_nat_def by simp

lemma CBB_add_u8_spec:
  assumes b: "builds st p pre b fs"
  shows "outcome rf st p (fst ` set fs) (total pre b fs + 1) (collapse fs \<noteq> None)
    (\<lambda>s. builds s p pre (b @ the (collapse fs) @ [v]) []) (CBB_add_u8 rf p v st)"
  using add_u_spec [OF b, of 1 rf "unat v"] by (simp add: CBB_add_u8_def be_bytes_1)

lemma open_child_builds:
  assumes b: "builds st p pre (b @ h) []" and h: "length h = hole k" "0 < hole k" and pq: "p \<noteq> q"
  shows "builds (open_child p q (length pre + length b) (hole k) (k = Asn1) st) p pre b [(q, k, [])]"
  using b h pq by (auto simp: builds_def open_child_def upd_cbb_def zero_cbb_def)

lemma later_open_child: "p \<noteq> q \<Longrightarrow> st_base st \<noteq> None \<Longrightarrow> q \<in> A \<Longrightarrow> later p A st (open_child p q off n asn1 st)"
  by (auto simp: later_def open_child_def upd_cbb_def)

lemma builds_len:
  assumes "builds st p pre b []" "st_base st = Some base"
  shows "bb_len base = length pre + length b"
proof -
  have "buf_wf base" "contents base = pre @ b" using assms by (auto simp: builds_Nil)
  then show ?thesis using length_contents [of base] by simp
qed

lemma open_child_outcome:
  assumes b: "builds st p pre (b @ h) []" and h: "length h = hole k" "0 < hole k" and pq: "p \<noteq> q" "q \<in> A"
    and off: "off = length pre + length b"
  shows "outcome rf st p A L True (\<lambda>s. builds s p pre b [(q, k, [])])
    (Some (True, open_child p q off (hole k) (k = Asn1) st))"
proof -
  have "st_base st \<noteq> None" using b by (auto simp: builds_def)
  from later_open_child [OF pq(1) this pq(2)] open_child_builds [OF b h pq(1)] show ?thesis
    unfolding off by (intro outcomeI [OF refl]) simp_all
qed

lemma cbb_add_length_prefixed_spec:
  assumes b: "builds st p pre b fs" and n: "0 < n" "n < size_mod" and pq: "p \<noteq> q"
  shows "outcome rf st p (insert q (fst ` set fs)) (total pre b fs + n) (collapse fs \<noteq> None)
    (\<lambda>s. builds s p pre (b @ the (collapse fs)) [(q, Fixed n, [])]) (cbb_add_length_prefixed rf p q n st)"
proof -
  let ?b = "b @ the (collapse fs)" and ?A = "insert q (fst ` set fs)"
  have "outcome rf st p ?A (total pre b fs + n) (collapse fs \<noteq> None \<and> (True \<and> True))
    (\<lambda>s. builds s p pre ?b [(q, Fixed n, [])]) (cbb_add_length_prefixed rf p q n st)"
    unfolding cbb_add_length_prefixed_def
  proof (rule flush_then_outcome [OF b])
    fix s assume s: "builds s p pre ?b []"
    then obtain base where base: "st_base s = Some base" by (auto simp: builds_def)
    have len: "bb_len base = length pre + length ?b" by (rule builds_len [OF s base])
    have a: "outcome rf s p ?A (total pre b fs + n) True (\<lambda>s. builds s p pre (?b @ replicate n 0) [])
        (on_base (buffer_append rf (replicate n 0)) s)"
      using buffer_append_outcome [OF s, of "replicate n 0" rf ?A] n(2) by (simp add: add.assoc)
    have "outcome rf s p ?A (total pre b fs + n) (True \<and> True) (\<lambda>s. builds s p pre ?b [(q, Fixed n, [])])
      (Option.bind (on_base (buffer_append rf (replicate n 0)) s)
        (\<lambda>(ok, st1). if \<not> ok then Some (False, st1)
          else Some (True, open_child p q (bb_len base) n False st1)))"
      by (rule outcome_bind [OF a])
        (use open_child_outcome [of _ p pre ?b "replicate n 0" "Fixed n" q ?A "bb_len base" rf] len n(1) pq in auto)
    then show "outcome rf s p ?A (total pre b fs + n) (True \<and> True) (\<lambda>s. builds s p pre ?b [(q, Fixed n, [])])
      (Option.bind (st_base s) (\<lambda>base. Option.bind (on_base (buffer_append rf (replicate n 0)) s)
        (\<lambda>(ok, st1). if \<not> ok then Some (False, st1)
          else Some (True, open_child p q (bb_len base) n False st1))))"
      using base by simp
  qed auto
  then show ?thesis by simp
qed

lemma CBB_add_asn1_spec:
  assumes b: "builds st p pre b fs" and tag: "tag \<le> 0xff" "tag AND 0x1f \<noteq> 0x1f" and pq: "p \<noteq> q"
  shows "outcome rf st p (insert q (fst ` set fs)) (total pre b fs + 2) (collapse fs \<noteq> None)
    (\<lambda>s. builds s p pre (b @ the (collapse fs) @ [ucast tag]) [(q, Asn1, [])]) (CBB_add_asn1 rf p q tag st)"
proof -
  let ?b = "b @ the (collapse fs)" and ?A = "insert q (fst ` set fs)" and ?L = "total pre b fs + 2"
  let ?Q = "\<lambda>s. builds s p pre (?b @ [ucast tag]) [(q, Asn1, [])]"
  have "\<not> 0xff < tag" using tag(1) by (simp add: linorder_not_less)
  then have e: "CBB_add_asn1 rf p q tag st = flush_then rf p (\<lambda>st.
      Option.bind (CBB_add_u8 rf p (ucast tag) st) (\<lambda>(ok, st1). if \<not> ok then Some (False, st1)
        else Option.bind (st_base st1) (\<lambda>base. Option.bind (CBB_add_u8 rf p 0 st1)
          (\<lambda>(ok, st2). if \<not> ok then Some (False, st2)
            else Some (True, open_child p q (bb_len base) 1 True st2))))) st"
    using tag(2) by (simp add: CBB_add_asn1_def)
  have "outcome rf st p ?A ?L (collapse fs \<noteq> None \<and> (True \<and> (True \<and> True))) ?Q (CBB_add_asn1 rf p q tag st)"
    unfolding e
  proof (rule flush_then_outcome [OF b])
    fix s assume s: "builds s p pre ?b []"
    have u1: "outcome rf s p ?A ?L True (\<lambda>s. builds s p pre (?b @ [ucast tag]) []) (CBB_add_u8 rf p (ucast tag) s)"
      using outcome_mono [OF CBB_add_u8_spec [OF s, of rf "ucast tag"], of ?A ?L] by simp
    show "outcome rf s p ?A ?L (True \<and> (True \<and> True)) ?Q
      (Option.bind (CBB_add_u8 rf p (ucast tag) s) (\<lambda>(ok, st1). if \<not> ok then Some (False, st1)
        else Option.bind (st_base st1) (\<lambda>base. Option.bind (CBB_add_u8 rf p 0 st1)
          (\<lambda>(ok, st2). if \<not> ok then Some (False, st2)
            else Some (True, open_child p q (bb_len base) 1 True st2)))))"
    proof (rule outcome_bind [OF u1 order_refl])
      fix s1 assume s1: "builds s1 p pre (?b @ [ucast tag]) []"
      then obtain base where base: "st_base s1 = Some base" by (auto simp: builds_def)
      have len: "bb_len base = length pre + length (?b @ [ucast tag :: u8])" by (rule builds_len [OF s1 base])
      have u2: "outcome rf s1 p ?A ?L True (\<lambda>s. builds s p pre ((?b @ [ucast tag]) @ [0]) []) (CBB_add_u8 rf p 0 s1)"
        using outcome_mono [OF CBB_add_u8_spec [OF s1, of rf 0], of ?A ?L] by simp
      have "outcome rf s1 p ?A ?L (True \<and> True) ?Q
        (Option.bind (CBB_add_u8 rf p 0 s1) (\<lambda>(ok, st2). if \<not> ok then Some (False, st2)
          else Some (True, open_child p q (bb_len base) 1 True st2)))"
      proof (rule outcome_bind [OF u2 order_refl])
        fix s2 assume "builds s2 p pre ((?b @ [ucast tag]) @ [0]) []"
        from open_child_outcome [OF this, of Asn1 q ?A "bb_len base" rf ?L] pq len
        show "outcome rf s2 p ?A ?L True ?Q (Some (True, open_child p q (bb_len base) 1 True s2))" by simp
      qed
      then show "outcome rf s1 p ?A ?L (True \<and> True) ?Q
        (Option.bind (st_base s1) (\<lambda>base. Option.bind (CBB_add_u8 rf p 0 s1)
          (\<lambda>(ok, st2). if \<not> ok then Some (False, st2)
            else Some (True, open_child p q (bb_len base) 1 True st2))))" using base by simp
    qed
  qed auto
  then show ?thesis by simp
qed


section \<open>Creating and finishing a builder\<close>

lemma CBB_init_builds:
  assumes "CBB_init (Some buf) True p (length buf) st = (ok, st')" "length buf < size_mod"
  shows "ok" "builds st' p [] [] []" "c_is_top_level (st_cbb st' p)"
  using assms
  by (auto simp: CBB_init_def cbb_init_def CBB_zero_def upd_cbb_def zero_cbb_def builds_Nil buf_wf_def contents_def)

lemma CBB_init_fixed_builds:
  assumes "CBB_init_fixed True p buf (length buf) st = (ok, st')" "length buf < size_mod"
  shows "ok" "builds st' p [] [] []" "c_is_top_level (st_cbb st' p)"
  using assms
  by (auto simp: CBB_init_fixed_def cbb_init_def CBB_zero_def upd_cbb_def zero_cbb_def builds_Nil buf_wf_def contents_def)

lemma CBB_finish_spec:
  assumes b: "builds st p [] b fs" and top: "c_is_top_level (st_cbb st p)"
  obtains (fail) st' where "CBB_finish rf p True True st = Some (None, st')" "failed st'"
      "collapse fs \<noteq> None \<Longrightarrow> \<not> room rf (total [] b fs) st"
  | (ok) buf n r st' where "CBB_finish rf p True True st = Some (Some (Some buf, Some n), st')"
      "collapse fs = Some r" "n = length (b @ r)" "take n buf = b @ r"
      "st_base st' = None" "\<not> c_base (st_cbb st' p)"
proof -
  obtain okb s where r: "CBB_flush rf p st = Some (okb, s)" "later p (fst ` set fs) st s"
    "okb \<Longrightarrow> collapse fs \<noteq> None" "okb \<Longrightarrow> builds s p [] (b @ the (collapse fs)) []" "\<not> okb \<Longrightarrow> failed s"
    "collapse fs \<noteq> None \<Longrightarrow> room rf (total [] b fs) st \<Longrightarrow> okb"
    by (rule outcomeE [OF CBB_flush_spec [OF b, of rf]]) (rule that; assumption)
  have tops: "c_is_top_level (st_cbb s p)" using r(2) top by (auto simp: later_def)
  show thesis
  proof (cases okb)
    case False
    then show thesis using r top by (intro fail [of s]) (auto simp: CBB_finish_def)
  next
    case True
    obtain x where x: "collapse fs = Some x" using r(3) True by auto
    then obtain base where base: "st_base s = Some base" "buf_wf base" "contents base = b @ x" "c_base (st_cbb s p)"
      using r(4) True by (auto simp: builds_Nil)
    let ?s = "upd_cbb p (\<lambda>c. c\<lparr>c_base := False\<rparr>) (s\<lparr>st_base := None,
      st_freed := (if bb_can_resize base then [] # st_freed s else st_freed s)\<rparr>)"
    have len: "bb_len base = length (b @ x)" using length_contents [OF base(2)] base(3) by simp
    have "CBB_finish rf p True True st = Some (Some (Some (bb_buf base), Some (bb_len base)), ?s)"
      using r(1) True top tops base(1,4) by (simp add: CBB_finish_def CBB_cleanup_def upd_cbb_def)
    then show thesis
      by (rule ok [OF _ x]) (use base(3) len in \<open>auto simp: contents_def upd_cbb_def\<close>)
  qed
qed

section \<open>Trees\<close>

text \<open>A client that writes a tree of DER elements; the CBB at depth \<open>p\<close> has the address \<open>p\<close>.\<close>

datatype der = Prim u8 "u8 list" | Constr u8 "der list"

primrec der_tag :: "der \<Rightarrow> u8" where
  "der_tag (Prim t bs) = t"
| "der_tag (Constr t ks) = t"

fun der_contents :: "der \<Rightarrow> u8 list" where
  "der_contents (Prim t bs) = bs"
| "der_contents (Constr t ks) = concat (map (\<lambda>k. der_element (der_tag k) (der_contents k)) ks)"

definition der_bytes :: "der \<Rightarrow> u8 list" where
  "der_bytes d = der_element (der_tag d) (der_contents d)"

fun valid_der :: "der \<Rightarrow> bool" where
  "valid_der (Prim t bs) \<longleftrightarrow> t AND 0x1f \<noteq> 0x1f \<and> length bs < 0xffffffff"
| "valid_der (Constr t ks) \<longleftrightarrow> t AND 0x1f \<noteq> 0x1f \<and> length (der_contents (Constr t ks)) < 0xffffffff \<and>
    (\<forall>k \<in> set ks. valid_der k)"

fun write_der :: "realloc_env \<Rightarrow> nat \<Rightarrow> der \<Rightarrow> builder \<Rightarrow> (bool \<times> builder) option"
  and write_ders :: "realloc_env \<Rightarrow> nat \<Rightarrow> der list \<Rightarrow> builder \<Rightarrow> (bool \<times> builder) option" where
  "write_der rf p (Prim t bs) st = Option.bind (CBB_add_asn1 rf p (Suc p) (ucast t) st)
    (\<lambda>(ok, s). if \<not> ok then Some (False, s) else CBB_add_bytes rf (Suc p) bs s)"
| "write_der rf p (Constr t ks) st = Option.bind (CBB_add_asn1 rf p (Suc p) (ucast t) st)
    (\<lambda>(ok, s). if \<not> ok then Some (False, s) else write_ders rf (Suc p) ks s)"
| "write_ders rf p [] st = Some (True, st)"
| "write_ders rf p (k # ks) st = Option.bind (write_der rf p k st)
    (\<lambda>(ok, s). if \<not> ok then Some (False, s) else write_ders rf p ks s)"

text \<open>The bytes \<open>x\<close> that the CBB \<open>p\<close> stands for once its children are closed.\<close>

definition holds :: "nat \<Rightarrow> u8 list \<Rightarrow> u8 list \<Rightarrow> builder \<Rightarrow> bool" where
  "holds p pre x s \<longleftrightarrow> (\<exists>b fs r. builds s p pre b fs \<and> collapse fs = Some r \<and> b @ r = x \<and>
     (\<forall>a \<in> fst ` set fs. p < a))"

lemma holds_Nil: "builds s p pre x [] \<Longrightarrow> holds p pre x s"
  unfolding holds_def by (intro exI [of _ x] exI [of _ "[]"]) simp

lemma outcome_child:
  assumes o: "outcome rf st q B L F Q r" and p: "p \<notin> insert q B" "insert q B \<subseteq> A"
    and Q: "\<And>s. later q B st s \<Longrightarrow> Q s \<Longrightarrow> Q' s"
  shows "outcome rf st p A L F Q' r"
proof -
  obtain ok s where r: "r = Some (ok, s)" "later q B st s" "ok \<Longrightarrow> F" "ok \<Longrightarrow> Q s"
    "\<not> ok \<Longrightarrow> failed s" "F \<Longrightarrow> room rf L st \<Longrightarrow> ok"
    by (rule outcomeE [OF o]) (rule that; assumption)
  show ?thesis
    by (rule outcomeI [OF r(1) later_child [OF r(2) p]]) (use r Q in auto)
qed

lemma ucast_tag:
  fixes t :: u8
  shows "(ucast t :: u32) \<le> 0xff" "(ucast t :: u32) AND 0x1f = 0x1f \<longleftrightarrow> t AND 0x1f = 0x1f"
    "ucast (ucast t :: u32) = t"
proof -
  have u: "unat (ucast t :: u32) = unat t"
    using less_trans [OF unat_u8_lt [of t], of 4294967296]
    by (simp add: unsigned_ucast_eq take_bit_eq_mod [where ?'a = nat])
  have "unat t \<le> 255" using unat_u8_lt [of t] by linarith
  with u show "(ucast t :: u32) \<le> 0xff" by (simp add: word_le_nat_alt)
  have "unat ((ucast t :: u32) AND 0x1f) = unat (t AND 0x1f)"
    using unat_and_mask [of "ucast t :: u32" 5] unat_and_mask [of t 5] u by (simp add: mask_eq_exp_minus_1)
  then show "(ucast t :: u32) AND 0x1f = 0x1f \<longleftrightarrow> t AND 0x1f = 0x1f"
    by (simp add: word_unat_eq_iff)
  show "ucast (ucast t :: u32) = t"
    by (rule bit_word_eqI) (auto simp: bit_simps)
qed

text \<open>Opening a child and writing \<open>c\<close> to it writes the element with contents \<open>c\<close>.\<close>

lemma write_element:
  assumes h: "holds p pre x st" and t: "t AND 0x1f \<noteq> 0x1f" and c: "length c < 0xffffffff"
    and w: "\<And>s pre'. CBB_add_asn1 rf p (Suc p) (ucast t) st = Some (True, s) \<Longrightarrow> holds (Suc p) pre' [] s \<Longrightarrow>
      outcome rf s (Suc p) {a. Suc p < a} (length pre' + length c) True (holds (Suc p) pre' c) (w s)"
  shows "outcome rf st p {a. p < a} (length pre + length x + length (der_element t c)) True
    (holds p pre (x @ der_element t c))
    (Option.bind (CBB_add_asn1 rf p (Suc p) (ucast t) st) (\<lambda>(ok, s). if \<not> ok then Some (False, s) else w s))"
proof -
  let ?L = "length pre + length x + length (der_element t c)"
  obtain b fs r where b: "builds st p pre b fs" "collapse fs = Some r" "b @ r = x" "\<forall>a \<in> fst ` set fs. p < a"
    using h by (auto simp: holds_def)
  have len: "2 + length c \<le> length (der_element t c)" by (simp add: der_element_def der_len_def)
  have x: "length x = length b + length r" using b(3) by auto
  have a: "outcome rf st p {a. p < a} ?L True (\<lambda>s. builds s p pre (x @ [t]) [(Suc p, Asn1, [])])
      (CBB_add_asn1 rf p (Suc p) (ucast t) st)"
  proof (rule outcome_mono)
    show "outcome rf st p (insert (Suc p) (fst ` set fs)) (total pre b fs + 2) True
        (\<lambda>s. builds s p pre (b @ r @ [t]) [(Suc p, Asn1, [])]) (CBB_add_asn1 rf p (Suc p) (ucast t) st)"
      using CBB_add_asn1_spec [OF b(1), of "ucast t" "Suc p" rf] ucast_tag [of t] t b(2) by simp
  qed (use b len x in auto)
  have "outcome rf st p {a. p < a} ?L (True \<and> True) (holds p pre (x @ der_element t c))
    (Option.bind (CBB_add_asn1 rf p (Suc p) (ucast t) st) (\<lambda>(ok, s). if \<not> ok then Some (False, s) else w s))"
  proof (rule outcome_bind [OF a order_refl])
    fix s assume run: "CBB_add_asn1 rf p (Suc p) (ucast t) st = Some (True, s)"
      and s: "builds s p pre (x @ [t]) [(Suc p, Asn1, [])]"
    obtain h where h: "length h = hole Asn1" "builds s (Suc p) (pre @ (x @ [t]) @ h) [] []"
      by (rule builds_child [OF s])
    let ?pre = "pre @ (x @ [t]) @ h"
    have "holds (Suc p) ?pre [] s" using h(2) by (rule holds_Nil)
    note o = w [OF run this]
    have "outcome rf s p {a. p < a} (length ?pre + length c) True (holds p pre (x @ der_element t c)) (w s)"
    proof (rule outcome_child [OF o])
      fix s' assume l: "later (Suc p) {a. Suc p < a} s s'" and "holds (Suc p) ?pre c s'"
      then obtain b' fs' r' where k: "builds s' (Suc p) ?pre b' fs'" "collapse fs' = Some r'" "b' @ r' = c"
          "\<forall>a \<in> fst ` set fs'. Suc p < a" by (auto simp: holds_def)
      have "builds s' p pre (x @ [t]) ((Suc p, Asn1, b') # fs')"
        by (rule builds_parent [OF k(1) h(1) s l]) (use k(4) in auto)
      moreover have "collapse ((Suc p, Asn1, b') # fs') = Some (der_len (length c) @ c)"
        using k(2,3) c by auto
      ultimately show "holds p pre (x @ der_element t c) s'"
        unfolding holds_def using k(4) by (fastforce simp: der_element_def)
    qed auto
    then show "outcome rf s p {a. p < a} ?L True (holds p pre (x @ der_element t c)) (w s)"
      by (rule outcome_mono) (use h(1) len in auto)
  qed
  then show ?thesis by simp
qed


lemma write_der_spec:
  "valid_der d \<Longrightarrow> holds p pre x st \<Longrightarrow>
    outcome rf st p {a. p < a} (length pre + length x + length (der_bytes d)) True
      (holds p pre (x @ der_bytes d)) (write_der rf p d st)"
  "(\<forall>k \<in> set ds. valid_der k) \<Longrightarrow> holds p pre x st \<Longrightarrow>
    outcome rf st p {a. p < a} (length pre + length x + length (concat (map der_bytes ds))) True
      (holds p pre (x @ concat (map der_bytes ds))) (write_ders rf p ds st)"
proof (induction rf p d st and rf p ds st arbitrary: pre x and pre x rule: write_der_write_ders.induct)
  case (1 rf p t bs st)
  have "outcome rf s (Suc p) {a. Suc p < a} (length pre' + length bs) True (holds (Suc p) pre' bs)
      (CBB_add_bytes rf (Suc p) bs s)" if h: "holds (Suc p) pre' [] s" for s pre'
  proof -
    obtain b fs r where b: "builds s (Suc p) pre' b fs" "collapse fs = Some r" "b @ r = []"
        "\<forall>a \<in> fst ` set fs. Suc p < a" using h by (auto simp: holds_def)
    have "outcome rf s (Suc p) (fst ` set fs) (total pre' b fs + length bs) True
        (\<lambda>s. builds s (Suc p) pre' bs []) (CBB_add_bytes rf (Suc p) bs s)"
      using CBB_add_bytes_spec [OF b(1), of bs rf] 1(1) b(2,3) by simp
    then show ?thesis
      by (rule outcome_mono) (use b in \<open>auto intro: holds_Nil\<close>)
  qed
  from write_element [OF 1(2) _ _ this, where t = t] show ?case using 1(1) by (simp add: der_bytes_def)
next
  case (2 rf p t ks st)
  have e: "der_contents (Constr t ks) = concat (map der_bytes ks)"
    by (simp add: der_bytes_def [abs_def])
  have "outcome rf s (Suc p) {a. Suc p < a} (length pre' + length (concat (map der_bytes ks))) True
      (holds (Suc p) pre' (concat (map der_bytes ks))) (write_ders rf (Suc p) ks s)"
    if "CBB_add_asn1 rf p (Suc p) (ucast t) st = Some (True, s)" "holds (Suc p) pre' [] s" for s pre'
  proof -
    have "outcome rf s (Suc p) {a. Suc p < a} (length pre' + length [] + length (concat (map der_bytes ks))) True
      (holds (Suc p) pre' ([] @ concat (map der_bytes ks))) (write_ders rf (Suc p) ks s)"
      using 2(1) [of "(True, s)" True s pre' "[]"] 2(2) that by auto
    then show ?thesis by simp
  qed
  from write_element [OF 2(3) _ _ this, where t = t] show ?case
    using 2(2) e by (simp add: der_bytes_def del: der_contents.simps(2))
next
  case (3 rf p st)
  then have "st_base st \<noteq> None" by (auto simp: holds_def builds_def)
  then show ?case using 3 by (intro outcomeI [of _ True st]) (auto intro: later_refl)
next
  case (4 rf p k ks st)
  let ?L = "length pre + length x + length (concat (map der_bytes (k # ks)))"
  have a: "outcome rf st p {a. p < a} (length pre + length x + length (der_bytes k)) True
      (holds p pre (x @ der_bytes k)) (write_der rf p k st)"
    by (rule 4(1)) (use 4(3,4) in auto)
  have "outcome rf st p {a. p < a} ?L (True \<and> True) (holds p pre (x @ concat (map der_bytes (k # ks))))
      (Option.bind (write_der rf p k st) (\<lambda>(ok, s). if \<not> ok then Some (False, s) else write_ders rf p ks s))"
  proof (rule outcome_bind [OF a])
    fix s assume "write_der rf p k st = Some (True, s)" "holds p pre (x @ der_bytes k) s"
    moreover have "\<forall>d \<in> set ks. valid_der d" using 4(3) by simp
    moreover have "(ok, s) = (True, s) \<Longrightarrow> \<not> \<not> ok" for ok by simp
    ultimately have "outcome rf s p {a. p < a} (length pre + length (x @ der_bytes k) + length (concat (map der_bytes ks))) True
        (holds p pre ((x @ der_bytes k) @ concat (map der_bytes ks))) (write_ders rf p ks s)"
      using 4(2) [of "(True, s)" True s pre "x @ der_bytes k"] by auto
    then show "outcome rf s p {a. p < a} ?L True (holds p pre (x @ concat (map der_bytes (k # ks)))) (write_ders rf p ks s)"
      by (simp add: add.assoc)
  qed simp
  then show ?case by simp
qed


section \<open>Properties\<close>

text \<open>
  C6: \<open>CBB_flush\<close> implements closing every open child of an abstract builder: never undefined
  behaviour, on success the buffer holds the outer bytes, the bytes of the CBB and the
  encodings of its children with their lengths in front, and no child is left; it fails, with
  the sticky error flag set, only if a body is too long for its prefix or memory runs out.
\<close>

theorem CBB_flush_refines_collapse:
  assumes "builds st p pre b fs"
  shows "\<exists>ok st'. CBB_flush rf p st = Some (ok, st') \<and> later p (fst ` set fs) st st' \<and>
    (ok \<longrightarrow> (\<exists>r. collapse fs = Some r \<and> builds st' p pre (b @ r) [])) \<and> (\<not> ok \<longrightarrow> failed st') \<and>
    ((\<exists>r. collapse fs = Some r \<and> room rf (length pre + length b + length r) st) \<longrightarrow> ok)"
  by (rule outcomeE [OF CBB_flush_spec [OF assms, of rf]]) fastforce

text \<open>A top-level CBB with an open u8-length-prefixed child that holds one byte.\<close>

definition sample_builder :: builder where
  "sample_builder = \<lparr>st_base = Some \<lparr>bb_buf = [0, 7, 9], bb_len = 2, bb_cap = 3, bb_can_resize = False, bb_error = False\<rparr>,
     st_cbb = (\<lambda>a. if a = 0 then zero_cbb\<lparr>c_base := True, c_child := Some 1, c_is_top_level := True\<rparr>
       else zero_cbb\<lparr>c_base := True, c_pending_len_len := 1\<rparr>), st_freed = []\<rparr>"

lemma CBB_flush_refines_collapse_witness:
  "\<exists>st'. CBB_flush (\<lambda>_. None) 0 sample_builder = Some (True, st') \<and> builds st' 0 [] [1, 7] []"
proof -
  have b: "builds sample_builder 0 [] [] [(1, Fixed 1, [7])]"
    by (auto simp: sample_builder_def builds_def buf_wf_def contents_def zero_cbb_def intro!: exI [of _ "[0]"])
  have c: "collapse [(1, Fixed 1, [7])] = Some [1, 7]" by simp
  have "room (\<lambda>_. None) (Suc (Suc 0)) sample_builder" by (simp add: sample_builder_def room_def fits_def)
  with CBB_flush_refines_collapse [OF b, of "\<lambda>_. None"] c show ?thesis by auto
qed

text \<open>
  C5: a tree of DER elements written with nested \<open>CBB_add_asn1\<close> calls and finished gives
  exactly the DER encoding of the tree, and the reader \<open>CBS_get_asn1\<close> gets the root back
  with nothing left over.  Writing and finishing are free of undefined behaviour whatever
  \<open>realloc\<close> does, and when it always succeeds so do they.
\<close>

theorem CBB_tree_roundtrip:
  assumes "valid_der d" "CBB_init (Some buf) True 0 (length buf) st = (ok0, st0)" "length buf < size_mod"
  shows "\<exists>ok st1. write_der rf 0 d st0 = Some (ok, st1) \<and>
    (ok \<longrightarrow> (\<exists>res st2. CBB_finish rf 0 True True st1 = Some (res, st2) \<and>
       (\<forall>dat n. res = Some (Some dat, Some n) \<longrightarrow>
          take n dat = der_bytes d \<and> CBS_get_asn1 (take n dat) (ucast (der_tag d)) = (Some (der_contents d), [])) \<and>
       ((\<forall>m. rf m \<noteq> None) \<and> length (der_bytes d) < size_mod \<longrightarrow>
          (\<exists>dat. res = Some (Some dat, Some (length (der_bytes d))))))) \<and>
    ((\<forall>m. rf m \<noteq> None) \<and> length (der_bytes d) < size_mod \<longrightarrow> ok)"
proof -
  note i = CBB_init_builds [OF assms(2,3)]
  have base: "\<exists>base. st_base st0 = Some base \<and> bb_can_resize base"
    using assms(2) by (auto simp: CBB_init_def cbb_init_def CBB_zero_def upd_cbb_def)
  have room: "room rf (length (der_bytes d)) st0" if "\<forall>m. rf m \<noteq> None" "length (der_bytes d) < size_mod"
    using base that by (auto simp: room_def fits_def)
  have o: "outcome rf st0 0 {a. 0 < a} (length (der_bytes d)) True (holds 0 [] (der_bytes d)) (write_der rf 0 d st0)"
    using write_der_spec(1) [OF assms(1) holds_Nil [OF i(2)], of rf] by (simp only: append_Nil list.size add_0)
  obtain ok st1 where w: "write_der rf 0 d st0 = Some (ok, st1)" "later 0 {a. 0 < a} st0 st1" "ok \<Longrightarrow> True"
    "ok \<Longrightarrow> holds 0 [] (der_bytes d) st1" "\<not> ok \<Longrightarrow> failed st1"
    "True \<Longrightarrow> room rf (length (der_bytes d)) st0 \<Longrightarrow> ok"
    by (rule outcomeE [OF o]) (rule that; assumption)
  have top: "c_is_top_level (st_cbb st1 0)" using w(2) i(3) by (auto simp: later_def)
  have "\<exists>res st2. CBB_finish rf 0 True True st1 = Some (res, st2) \<and>
       (\<forall>dat n. res = Some (Some dat, Some n) \<longrightarrow>
          take n dat = der_bytes d \<and> CBS_get_asn1 (take n dat) (ucast (der_tag d)) = (Some (der_contents d), [])) \<and>
       ((\<forall>m. rf m \<noteq> None) \<and> length (der_bytes d) < size_mod \<longrightarrow>
          (\<exists>dat. res = Some (Some dat, Some (length (der_bytes d)))))" if ok: ok
  proof -
    obtain b fs r where b: "builds st1 0 [] b fs" "collapse fs = Some r" "b @ r = der_bytes d"
      using w(4) [OF ok] by (auto simp: holds_def)
    have len: "total [] b fs = length (der_bytes d)" using b(2) arg_cong [OF b(3), of length] by simp
    have cbs: "CBS_get_asn1 (der_bytes d) (ucast (der_tag d)) = (Some (der_contents d), [])"
      using assms(1) by (cases d) (auto simp: CBS_get_asn1_der der_bytes_def)
    from b(1) top show ?thesis
    proof (cases rule: CBB_finish_spec [where rf = rf])
      case (fail st')
      then have "\<not> room rf (length (der_bytes d)) st1" using b(2) len by simp
      then have "\<not> room rf (length (der_bytes d)) st0" using later_room [OF w(2)] by blast
      then show ?thesis using fail(1) room by auto
    next
      case (ok dat n r' st')
      then show ?thesis using b cbs len by (intro exI [of _ "Some (Some dat, Some n)"] exI [of _ st']) auto
    qed
  qed
  with w(1,6) room show ?thesis by blast
qed

section \<open>Integers\<close>

text \<open>The contents that \<open>CBB_add_asn1_uint64\<close> writes, as its loop goes.\<close>

definition uint_tail :: "bool \<Rightarrow> u8 list \<Rightarrow> u8 list" where
  "uint_tail started bs = (if started then bs
     else let ds = dropWhile (\<lambda>b. b = 0) bs in
       if ds = [] then [0] else if unat (hd ds) < 128 then ds else 0 # ds)"

lemma CBB_add_u8_Nil:
  assumes "builds st p pre b []"
  shows "outcome rf st p A (length pre + length b + 1) True (\<lambda>s. builds s p pre (b @ [v]) []) (CBB_add_u8 rf p v st)"
  using outcome_mono [OF CBB_add_u8_spec [OF assms, of rf v], of A] by simp

lemma asn1_uint64_loop_spec:
  "builds st c pre b [] \<Longrightarrow> outcome rf st c A (length pre + length b + length (uint_tail started bs)) True
    (\<lambda>s. builds s c pre (b @ uint_tail started bs) []) (asn1_uint64_loop rf c bs started st)"
proof (induction rf c bs started st arbitrary: b rule: asn1_uint64_loop.induct)
  case (1 rf c started st)
  then have "st_base st \<noteq> None" by (auto simp: builds_def)
  then show ?case
    using CBB_add_u8_Nil [OF 1, of rf A 0] 1
    by (auto simp: uint_tail_def intro: outcomeI [of _ True st] later_refl)
next
  case (2 rf c byte bytes started st)
  show ?case
  proof (cases "\<not> started \<and> byte = 0")
    case True
    then show ?thesis using 2 by (simp add: uint_tail_def)
  next
    case False
    define pad where "pad = (if \<not> started \<and> byte AND 0x80 \<noteq> 0 then [0] else [] :: u8 list)"
    have tail: "uint_tail started (byte # bytes) = pad @ byte # bytes"
      using False by (auto simp: uint_tail_def pad_def and_80_unat)
    let ?L = "length pre + length b + length (uint_tail started (byte # bytes))"
    let ?Q = "\<lambda>s. builds s c pre (b @ uint_tail started (byte # bytes)) []"
    have a: "outcome rf st c A (length pre + length b + length pad) True (\<lambda>s. builds s c pre (b @ pad) [])
        (if \<not> started \<and> byte AND 0x80 \<noteq> 0 then CBB_add_u8 rf c 0 st else Some (True, st))"
      using CBB_add_u8_Nil [OF 2(3), of rf A 0] 2(3)
      by (auto simp: pad_def builds_def intro!: outcomeI [OF refl] later_refl)
    have "outcome rf st c A ?L (True \<and> (True \<and> True)) ?Q (asn1_uint64_loop rf c (byte # bytes) started st)"
      unfolding asn1_uint64_loop.simps if_not_P [OF False]
    proof (rule outcome_bind [OF a])
      fix s assume r: "(if \<not> started \<and> byte AND 0x80 \<noteq> 0 then CBB_add_u8 rf c 0 st else Some (True, st)) = Some (True, s)"
        and s: "builds s c pre (b @ pad) []"
      show "outcome rf s c A ?L (True \<and> True) ?Q (Option.bind (CBB_add_u8 rf c byte s)
          (\<lambda>(ok, st2). if \<not> ok then Some (False, st2) else asn1_uint64_loop rf c bytes True st2))"
      proof (rule outcome_bind [OF CBB_add_u8_Nil [OF s]])
        fix s2 assume "CBB_add_u8 rf c byte s = Some (True, s2)" "builds s2 c pre ((b @ pad) @ [byte]) []"
        then show "outcome rf s2 c A ?L True ?Q (asn1_uint64_loop rf c bytes True s2)"
          using 2(2) [of "(True, s)" True s "(True, s2)" True s2 "(b @ pad) @ [byte]"] False r tail
          by (simp add: uint_tail_def add.assoc)
      qed (simp add: tail)
    qed (simp add: tail)
    then show ?thesis by simp
  qed
qed


lemma uint_body_tail: "n < 2 ^ 64 \<Longrightarrow> uint_body n = uint_tail False (be_bytes 8 n)"
proof (cases "n = 0")
  case True
  have "be_bytes 8 0 = replicate 8 0" by code_simp
  then have "dropWhile (\<lambda>b. b = 0) (be_bytes 8 0) = []" by (simp only: dropWhile_eq_Nil_conv) simp
  then show ?thesis using True by (simp add: uint_body_def uint_tail_def)
next
  case False
  assume "n < 2 ^ 64"
  from stripped [OF this False] False show ?thesis by (auto simp: uint_body_def uint_tail_def Let_def)
qed

lemma byte_of: "(ucast (drop_bit j (v :: u64) AND 0xff) :: u8) = of_nat (unat v div 2 ^ j)"
proof -
  have "(ucast (drop_bit j v AND 0xff) :: u8) = ucast (drop_bit j v)"
    by (rule bit_word_eqI) (auto simp: and_FF bit_simps)
  also have "\<dots> = of_nat (unat (drop_bit j v))" by simp
  finally show ?thesis by (simp only: unat_drop_bit)
qed

lemma be_bytes_map: "be_bytes k n = map (\<lambda>i. of_nat (n div 2 ^ (8 * (k - 1 - i)))) [0..<k]"
proof (induction k arbitrary: n)
  case (Suc k)
  have "n div 256 div 2 ^ (8 * (k - 1 - i)) = n div 2 ^ (8 * (k - i))" if "i < k" for i
  proof -
    have "8 * (k - i) = 8 + 8 * (k - 1 - i)" using that by simp
    then have "(2 :: nat) ^ (8 * (k - i)) = 256 * 2 ^ (8 * (k - 1 - i))" by (simp add: power_add)
    then show ?thesis by (simp add: div_mult2_eq)
  qed
  then show ?case using Suc by simp
qed simp

lemma uint64_bytes: "map (\<lambda>i. ucast (drop_bit (8 * (7 - i)) (v :: u64) AND 0xff)) [0..<8] = be_bytes 8 (unat v)"
  unfolding be_bytes_map by (rule map_cong [OF refl]) (simp only: byte_of, simp)

lemma CBB_add_asn1_uint64_spec:
  assumes b: "builds st p pre b fs" "collapse fs = Some r" and pc: "p \<noteq> c"
  shows "outcome rf st p (insert c (fst ` set fs)) (length pre + length b + length r + 11) True
    (\<lambda>s. builds s p pre (b @ r @ der_element 2 (uint_body (unat v))) []) (CBB_add_asn1_uint64 rf p c v st)"
proof -
  let ?A = "insert c (fst ` set fs)" and ?u = "uint_body (unat v)"
  let ?L = "length pre + length b + length r + 11" and ?b = "b @ r @ [2 :: u8]"
  have u9: "length ?u \<le> 9" using uint_body_minimal [of "unat v"] by simp
  have tail: "uint_tail False (be_bytes 8 (unat v)) = ?u" using uint_body_tail [of "unat v"] by simp
  have enc: "enclose Asn1 ?u = Some (der_len (length ?u) @ ?u)" "length (der_len (length ?u)) = 1"
    using u9 by (simp_all add: length_der_len)
  have a: "outcome rf st p ?A ?L True (\<lambda>s. builds s p pre ?b [(c, Asn1, [])]) (CBB_add_asn1 rf p c CBS_ASN1_INTEGER st)"
  proof (rule outcome_mono)
    have "CBS_ASN1_INTEGER \<le> 0xff" "CBS_ASN1_INTEGER AND 0x1f \<noteq> 0x1f" "ucast CBS_ASN1_INTEGER = (2 :: u8)"
      by (simp_all add: CBS_ASN1_INTEGER_def)
    then show "outcome rf st p ?A (total pre b fs + 2) True
        (\<lambda>s. builds s p pre ?b [(c, Asn1, [])]) (CBB_add_asn1 rf p c CBS_ASN1_INTEGER st)"
      using CBB_add_asn1_spec [OF b(1), of CBS_ASN1_INTEGER c rf] pc b(2) by simp
  qed (use b(2) in auto)
  have "outcome rf st p ?A ?L (True \<and> (True \<and> True))
    (\<lambda>s. builds s p pre (b @ r @ der_element 2 ?u) []) (CBB_add_asn1_uint64 rf p c v st)"
    unfolding CBB_add_asn1_uint64_def
  proof (rule outcome_bind [OF a])
    fix s assume s: "builds s p pre ?b [(c, Asn1, [])]"
    obtain h where h: "length h = hole Asn1" "builds s c (pre @ ?b @ h) [] []" by (rule builds_child [OF s])
    have "outcome rf s c {} (length (pre @ ?b @ h) + length ?u) True
      (\<lambda>s. builds s c (pre @ ?b @ h) ?u []) (asn1_uint64_loop rf c (be_bytes 8 (unat v)) False s)"
      using asn1_uint64_loop_spec [OF h(2), of rf "{}" False "be_bytes 8 (unat v)"] tail by simp
    then have "outcome rf s p ?A (length (pre @ ?b @ h) + length ?u) True (\<lambda>s. builds s p pre ?b [(c, Asn1, ?u)])
        (asn1_uint64_loop rf c (be_bytes 8 (unat v)) False s)"
    proof (rule outcome_child)
      fix s' assume l: "later c {} s s'" and q: "builds s' c (pre @ ?b @ h) ?u []"
      show "builds s' p pre ?b [(c, Asn1, ?u)]" by (rule builds_parent [OF q h(1) s l]) (use pc in auto)
    qed (use pc in auto)
    then have w: "outcome rf s p ?A ?L True (\<lambda>s. builds s p pre ?b [(c, Asn1, ?u)])
        (asn1_uint64_loop rf c (be_bytes 8 (unat v)) False s)"
      by (rule outcome_mono) (use h(1) u9 in auto)
    show "outcome rf s p ?A ?L (True \<and> True) (\<lambda>s. builds s p pre (b @ r @ der_element 2 ?u) [])
      (Option.bind (asn1_uint64_loop rf c
         (map (\<lambda>i. ucast (drop_bit (8 * (7 - i)) v AND 0xff)) [0..<8]) False s)
         (\<lambda>(ok, st2). if \<not> ok then Some (False, st2) else CBB_flush rf p st2))"
      unfolding uint64_bytes
    proof (rule outcome_bind [OF w order_refl])
      fix s2 assume s2: "builds s2 p pre ?b [(c, Asn1, ?u)]"
      have "collapse [(c, Asn1, ?u)] = Some (der_len (length ?u) @ ?u)" using enc(1) by simp
      then show "outcome rf s2 p ?A ?L True (\<lambda>s. builds s p pre (b @ r @ der_element 2 ?u) []) (CBB_flush rf p s2)"
        using outcome_mono [OF CBB_flush_spec [OF s2, of rf], of ?A ?L "\<lambda>s. builds s p pre (b @ r @ der_element 2 ?u) []"]
          enc(2) u9 by (simp add: der_element_def del: collapse.simps)
    qed
  qed simp
  then show ?thesis by simp
qed

text \<open>
  What \<open>CBB_add_asn1_uint64\<close> adds to a builder is read back by \<open>CBS_get_asn1_uint64\<close> as
  the same number, whatever follows; eleven bytes of room are enough for it to succeed.
\<close>

theorem CBB_asn1_uint64_roundtrip:
  assumes "builds st p pre b fs" "collapse fs = Some r" "p \<noteq> c"
  shows "\<exists>ok st' x. CBB_add_asn1_uint64 rf p c v st = Some (ok, st') \<and>
    (ok \<longrightarrow> builds st' p pre (b @ r @ x) []) \<and> (\<not> ok \<longrightarrow> failed st') \<and>
    (room rf (length pre + length b + length r + 11) st \<longrightarrow> ok) \<and>
    (\<forall>rest. CBS_get_asn1_uint64 (x @ rest) = (Some v, rest))"
proof -
  have "\<forall>rest. CBS_get_asn1_uint64 (der_element 2 (uint_body (unat v)) @ rest) = (Some v, rest)"
    by (simp add: CBS_get_asn1_uint64_spec)
  then show ?thesis
    using CBB_add_asn1_uint64_spec [OF assms, of rf v] by (elim outcomeE) blast
qed


lemma CBB_tree_roundtrip_witness:
  "\<exists>st1 st2 dat. write_der (\<lambda>_. Some (\<lambda>_. 0)) 0 (Constr 0x30 [Prim 2 [5]])
      (snd (CBB_init (Some []) True 0 0 \<lparr>st_base = None, st_cbb = (\<lambda>_. zero_cbb), st_freed = []\<rparr>)) = Some (True, st1) \<and>
    CBB_finish (\<lambda>_. Some (\<lambda>_. 0)) 0 True True st1 = Some (Some (Some dat, Some 5), st2) \<and>
    take 5 dat = [0x30, 3, 2, 1, 5]"
proof -
  let ?st = "\<lparr>st_base = None, st_cbb = (\<lambda>_. zero_cbb), st_freed = []\<rparr> :: builder"
  let ?rf = "\<lambda>_. Some (\<lambda>_. 0) :: (nat \<Rightarrow> u8) option" and ?d = "Constr 0x30 [Prim 2 [5]]"
  obtain ok0 st0 where i: "CBB_init (Some []) True 0 0 ?st = (ok0, st0)" by (cases "CBB_init (Some []) True 0 0 ?st")
  have v: "valid_der ?d" by (simp add: der_element_def der_len_def)
  have b: "der_bytes ?d = [0x30, 3, 2, 1, 5]" by (simp add: der_bytes_def der_element_def der_len_def)
  then have l: "length (der_bytes ?d) = 5" by simp
  have i': "CBB_init (Some []) True 0 (length ([] :: u8 list)) ?st = (ok0, st0)" using i by simp
  have z: "length ([] :: u8 list) < size_mod" "(\<forall>m. ?rf m \<noteq> None) \<and> length (der_bytes ?d) < size_mod"
    unfolding l by simp_all
  obtain ok st1 where w: "write_der ?rf 0 ?d st0 = Some (ok, st1)" "ok"
    "ok \<longrightarrow> (\<exists>res st2. CBB_finish ?rf 0 True True st1 = Some (res, st2) \<and>
       (\<forall>dat n. res = Some (Some dat, Some n) \<longrightarrow>
          take n dat = der_bytes ?d \<and> CBS_get_asn1 (take n dat) (ucast (der_tag ?d)) = (Some (der_contents ?d), [])) \<and>
       ((\<forall>m. ?rf m \<noteq> None) \<and> length (der_bytes ?d) < size_mod \<longrightarrow>
          (\<exists>dat. res = Some (Some dat, Some (length (der_bytes ?d))))))"
    using CBB_tree_roundtrip [OF v i' z(1), of ?rf] z(2) by (elim exE conjE) blast
  then obtain dat st2 where "CBB_finish ?rf 0 True True st1 = Some (Some (Some dat, Some 5), st2)" "take 5 dat = der_bytes ?d"
    using z(2) l by auto
  then show ?thesis using w(1,2) i b by auto
qed

lemma CBB_asn1_uint64_roundtrip_witness:
  "\<exists>st' x. CBB_add_asn1_uint64 (\<lambda>_. None) 0 5 200
      (snd (CBB_init_fixed True 0 (replicate 12 0) 12 \<lparr>st_base = None, st_cbb = (\<lambda>_. zero_cbb), st_freed = []\<rparr>)) = Some (True, st') \<and>
    builds st' 0 [] x [] \<and> CBS_get_asn1_uint64 (x @ [9]) = (Some 200, [9])"
proof -
  let ?st = "\<lparr>st_base = None, st_cbb = (\<lambda>_. zero_cbb), st_freed = []\<rparr> :: builder"
  obtain ok st0 where i: "CBB_init_fixed True 0 (replicate 12 0) (length (replicate 12 (0 :: u8))) ?st = (ok, st0)"
    by (cases "CBB_init_fixed True 0 (replicate 12 0) (length (replicate 12 (0 :: u8))) ?st")
  have b: "builds st0 0 [] [] []" by (rule CBB_init_fixed_builds [OF i]) simp
  have r: "room (\<lambda>_. None) (length [] + length [] + length [] + 11) st0"
    using i by (auto simp: CBB_init_fixed_def cbb_init_def CBB_zero_def upd_cbb_def room_def fits_def)
  have "snd (CBB_init_fixed True 0 (replicate 12 0) 12 ?st) = st0" using i by simp
  moreover have "(0 :: nat) \<noteq> 5" by simp
  note CBB_asn1_uint64_roundtrip [OF b collapse.simps(1) this, of "\<lambda>_. None" 200]
  then obtain ok1 st1 x where "CBB_add_asn1_uint64 (\<lambda>_. None) 0 5 200 st0 = Some (ok1, st1)"
      "ok1 \<longrightarrow> builds st1 0 [] ([] @ [] @ x) []" "ok1"
      "\<forall>rest. CBS_get_asn1_uint64 (x @ rest) = (Some 200, rest)"
    using r by (elim exE conjE) (rule that, auto)
  ultimately show ?thesis by (intro exI [of _ st1] exI [of _ x]) simp
qed

lemma failed_ops:
  assumes "failed st" "c_base (st_cbb st p)"
  shows "CBB_flush rf p st = Some (False, st)" "flush_then rf p g st = Some (False, st)"
    "CBB_add_asn1 rf p q tag st = Some (False, st)"
proof -
  obtain base where base: "st_base st = Some base" "bb_error base" using assms(1) by (auto simp: failed_def)
  show "CBB_flush rf p st = Some (False, st)" using base assms(2) by (simp add: CBB_flush.simps [of rf p st])
  then show f: "flush_then rf p g st = Some (False, st)" for g by (simp add: flush_then_def)
  have "set_error st = st" using base by (cases st) (simp add: set_error_def)
  then show "CBB_add_asn1 rf p q tag st = Some (False, st)"
    using f base(1) assms(2) by (simp add: CBB_add_asn1_def)
qed

text \<open>
  The error flag is sticky.  After a failure every operation that writes fails without
  touching the buffer or the CBBs, a malformed tag included, and \<open>CBB_finish\<close> delivers
  nothing, so a caller may check for errors once at the end.
\<close>

theorem CBB_error_sticky:
  assumes "failed st" "c_base (st_cbb st p)"
  shows "CBB_flush rf p st = Some (False, st) \<and> CBB_add_bytes rf p dat st = Some (False, st) \<and>
    CBB_add_u8 rf p v st = Some (False, st) \<and> CBB_add_u16 rf p v16 st = Some (False, st) \<and>
    CBB_add_u24 rf p v32 st = Some (False, st) \<and> CBB_add_u32 rf p v32 st = Some (False, st) \<and>
    cbb_add_length_prefixed rf p q n st = Some (False, st) \<and> CBB_add_asn1 rf p q tag st = Some (False, st) \<and>
    CBB_add_asn1_uint64 rf p q v64 st = Some (False, st) \<and> CBB_add_space rf p k st = Some (None, st) \<and>
    CBB_reserve rf p k st = Some (None, st) \<and> CBB_finish rf p wd wl st = Some (None, st)"
  by (simp add: failed_ops [OF assms] CBB_add_bytes_def CBB_add_u8_def CBB_add_u16_def CBB_add_u24_def
      CBB_add_u32_def cbb_add_length_prefixed_def CBB_add_asn1_uint64_def CBB_add_space_def
      CBB_reserve_def CBB_finish_def)

lemma CBB_error_sticky_witness:
  "CBB_finish (\<lambda>_. None) 0 True True (set_error sample_builder) = Some (None, set_error sample_builder)"
proof -
  have "failed (set_error sample_builder)" "c_base (st_cbb (set_error sample_builder) 0)"
    by (simp_all add: set_error_def sample_builder_def failed_def buf_wf_def zero_cbb_def)
  from CBB_error_sticky [OF this] show ?thesis by blast
qed

end
