(* ===== verification/Ct.thy ===== *)
theory Ct
  imports Prelude
begin

text \<open>
  Constant-time helpers of \<open>crypto/internal.h\<close>: comparisons and selections that compute masks
  with word operations only.  \<open>crypto_word_t\<close> is the 64-bit word of the platforms the
  application is built for.
\<close>

type_synonym crypto_word = u64

abbreviation CONSTTIME_TRUE_W :: crypto_word where "CONSTTIME_TRUE_W \<equiv> - 1"
abbreviation CONSTTIME_TRUE_8 :: u8 where "CONSTTIME_TRUE_8 \<equiv> - 1"

definition constant_time_msb_w :: "crypto_word \<Rightarrow> crypto_word" where
  "constant_time_msb_w a = 0 - drop_bit 63 a"

definition constant_time_lt_w :: "crypto_word \<Rightarrow> crypto_word \<Rightarrow> crypto_word" where
  "constant_time_lt_w a b = constant_time_msb_w (a XOR ((a XOR b) OR ((a - b) XOR a)))"

definition constant_time_lt_8 :: "crypto_word \<Rightarrow> crypto_word \<Rightarrow> u8" where
  "constant_time_lt_8 a b = ucast (constant_time_lt_w a b)"

definition constant_time_ge_w :: "crypto_word \<Rightarrow> crypto_word \<Rightarrow> crypto_word" where
  "constant_time_ge_w a b = NOT (constant_time_lt_w a b)"

definition constant_time_ge_8 :: "crypto_word \<Rightarrow> crypto_word \<Rightarrow> u8" where
  "constant_time_ge_8 a b = ucast (constant_time_ge_w a b)"

definition constant_time_is_zero_w :: "crypto_word \<Rightarrow> crypto_word" where
  "constant_time_is_zero_w a = constant_time_msb_w (NOT a AND (a - 1))"

definition constant_time_is_zero_8 :: "crypto_word \<Rightarrow> u8" where
  "constant_time_is_zero_8 a = ucast (constant_time_is_zero_w a)"

definition constant_time_eq_w :: "crypto_word \<Rightarrow> crypto_word \<Rightarrow> crypto_word" where
  "constant_time_eq_w a b = constant_time_is_zero_w (a XOR b)"

definition constant_time_eq_8 :: "crypto_word \<Rightarrow> crypto_word \<Rightarrow> u8" where
  "constant_time_eq_8 a b = ucast (constant_time_eq_w a b)"

text \<open>An \<open>int\<close> argument is sign-extended to the word.\<close>

definition constant_time_eq_int :: "32 word \<Rightarrow> 32 word \<Rightarrow> crypto_word" where
  "constant_time_eq_int a b = constant_time_eq_w (scast a) (scast b)"

definition constant_time_eq_int_8 :: "32 word \<Rightarrow> 32 word \<Rightarrow> u8" where
  "constant_time_eq_int_8 a b = constant_time_eq_8 (scast a) (scast b)"

definition constant_time_select_w :: "crypto_word \<Rightarrow> crypto_word \<Rightarrow> crypto_word \<Rightarrow> crypto_word" where
  "constant_time_select_w m a b = (m AND a) OR (NOT m AND b)"

definition constant_time_select_8 :: "u8 \<Rightarrow> u8 \<Rightarrow> u8 \<Rightarrow> u8" where
  "constant_time_select_8 m a b = ucast (constant_time_select_w (ucast m) (ucast a) (ucast b))"

definition constant_time_select_int :: "crypto_word \<Rightarrow> 32 word \<Rightarrow> 32 word \<Rightarrow> 32 word" where
  "constant_time_select_int m a b = ucast (constant_time_select_w m (scast a) (scast b))"

section \<open>What they compute\<close>

lemma constant_time_msb_w_spec: "constant_time_msb_w a = (if bit a 63 then CONSTTIME_TRUE_W else 0)"
proof -
  have "unat (drop_bit 63 a) = (if bit a 63 then 1 else 0)"
  proof -
    have "unat a div 2 ^ 63 < 2" using unat_u64_lt [of a] by (simp add: div_less_iff_less_mult)
    moreover have "bit a 63 \<longleftrightarrow> odd (unat a div 2 ^ 63)"
      using bit_unsigned_iff [where ?'a = nat, of a 63] by (simp add: bit_iff_odd [of "unat a"])
    ultimately show ?thesis by (auto simp: unat_drop_bit less_2_cases_iff)
  qed
  then have "drop_bit 63 a = (if bit a 63 then 1 else 0)" by (simp add: word_unat_eq_iff)
  then show ?thesis by (simp add: constant_time_msb_w_def)
qed

lemma bit_63_unat: "bit (a :: u64) 63 \<longleftrightarrow> 9223372036854775808 \<le> unat a"
proof -
  have "bit a 63 \<longleftrightarrow> odd (unat a div 2 ^ 63)"
    using bit_unsigned_iff [where ?'a = nat, of a 63] by (simp add: bit_iff_odd [of "unat a"])
  moreover have "unat a div 2 ^ 63 < 2" using unat_u64_lt [of a] by (simp add: div_less_iff_less_mult)
  ultimately show ?thesis by (auto simp: less_2_cases_iff div_eq_0_iff)
qed

lemma bit_63_sub:
  "bit (a - b :: u64) 63 \<longleftrightarrow>
    (if unat b \<le> unat a then 9223372036854775808 \<le> unat a - unat b else unat b - unat a \<le> 9223372036854775808)"
proof (cases "unat b \<le> unat a")
  case True
  then show ?thesis by (simp add: bit_63_unat unat_sub_if')
next
  case False
  then show ?thesis using unat_u64_lt [of b] by (auto simp: bit_63_unat unat_sub_if')
qed

lemma top_bit_less:
  assumes "x < size_mod" "y < size_mod"
  shows "(if (9223372036854775808 \<le> x) = (9223372036854775808 \<le> y)
      then (if y \<le> x then 9223372036854775808 \<le> x - y else y - x \<le> 9223372036854775808)
      else 9223372036854775808 \<le> y) \<longleftrightarrow> x < y"
  using assms by auto

lemma constant_time_lt_w_spec: "constant_time_lt_w a b = (if a < b then CONSTTIME_TRUE_W else 0)"
proof -
  have "bit (a XOR ((a XOR b) OR ((a - b) XOR a))) 63 \<longleftrightarrow>
      (if bit a 63 = bit b 63 then bit (a - b) 63 else bit b 63)"
    by (auto simp: bit_xor_iff bit_or_iff)
  also have "\<dots> \<longleftrightarrow> unat a < unat b"
    unfolding bit_63_sub unfolding bit_63_unat by (rule top_bit_less) (rule unat_u64_lt)+
  finally show ?thesis
    by (simp add: constant_time_lt_w_def constant_time_msb_w_spec word_less_nat_alt)
qed

lemma constant_time_is_zero_w_spec: "constant_time_is_zero_w a = (if a = 0 then CONSTTIME_TRUE_W else 0)"
proof -
  have "bit (NOT a AND (a - 1)) 63 \<longleftrightarrow> \<not> bit a 63 \<and> bit (a - 1) 63"
    by (simp add: bit_and_iff bit_not_iff)
  also have "\<dots> \<longleftrightarrow> a = 0"
  proof (cases "a = 0")
    case False
    then have "1 \<le> unat a" by (simp add: Suc_le_eq unat_gt_0)
    then show ?thesis using False unfolding bit_63_sub unfolding bit_63_unat unat_1 by auto
  qed (simp add: bit_minus_1_iff)
  finally show ?thesis by (simp add: constant_time_is_zero_w_def constant_time_msb_w_spec)
qed

lemma constant_time_eq_w_spec: "constant_time_eq_w a b = (if a = b then CONSTTIME_TRUE_W else 0)"
proof -
  have "a XOR b = 0 \<longleftrightarrow> a = b"
  proof
    assume "a XOR b = 0"
    then have "(a XOR b) XOR b = 0 XOR b" by (rule arg_cong)
    then show "a = b" by (simp add: xor.assoc)
  qed simp
  then show ?thesis by (simp add: constant_time_eq_w_def constant_time_is_zero_w_spec)
qed

lemma constant_time_select_w_spec:
  "constant_time_select_w CONSTTIME_TRUE_W a b = a" "constant_time_select_w 0 a b = b"
  by (simp_all add: constant_time_select_w_def)

lemma unat_ucast_8_64 [simp]: "unat (ucast (a :: u8) :: u64) = unat a"
  using less_trans [OF unat_u8_lt [of a], of size_mod]
  by (simp add: unsigned_ucast_eq take_bit_nat_eq_self_iff)

lemma ucast_8_64_eq [simp]: "(ucast (a :: u8) :: u64) = ucast b \<longleftrightarrow> a = b"
  by (simp add: word_unat_eq_iff)

lemma ucast_8_64_less [simp]: "(ucast (a :: u8) :: u64) < ucast b \<longleftrightarrow> a < b"
  by (simp add: word_less_nat_alt)

lemma ucast_64_8_id [simp]: "(ucast (ucast (a :: u8) :: u64) :: u8) = a"
  by (rule bit_word_eqI) (auto simp: bit_simps)

lemma constant_time_select_8_spec:
  "constant_time_select_8 CONSTTIME_TRUE_8 a b = a" "constant_time_select_8 0 a b = b"
  by (rule bit_word_eqI, auto simp: constant_time_select_8_def constant_time_select_w_def bit_simps)+

lemma constant_time_eq_8_spec: "constant_time_eq_8 a b = (if a = b then CONSTTIME_TRUE_8 else 0)"
proof -
  have "(ucast CONSTTIME_TRUE_W :: u8) = CONSTTIME_TRUE_8" by (rule bit_word_eqI) (simp add: bit_simps)
  then show ?thesis by (simp add: constant_time_eq_8_def constant_time_eq_w_spec)
qed

text \<open>
  The branch-free helpers compute what their names say: the comparisons are all-ones
  masks exactly when the relation holds, whatever the top bits of the operands, and the
  selections pick their first or second argument under such a mask.
\<close>

theorem constant_time_helpers_correct:
  "constant_time_lt_w a b = (if a < b then CONSTTIME_TRUE_W else 0) \<and>
   constant_time_ge_w a b = (if b \<le> a then CONSTTIME_TRUE_W else 0) \<and>
   constant_time_is_zero_w a = (if a = 0 then CONSTTIME_TRUE_W else 0) \<and>
   constant_time_eq_w a b = (if a = b then CONSTTIME_TRUE_W else 0) \<and>
   constant_time_select_w (constant_time_lt_w a b) x y = (if a < b then x else y) \<and>
   constant_time_select_8 (constant_time_eq_8 a b) u v = (if a = b then u else v)"
  by (auto simp: constant_time_lt_w_spec constant_time_ge_w_def constant_time_is_zero_w_spec
      constant_time_eq_w_spec constant_time_eq_8_spec constant_time_select_w_spec
      constant_time_select_8_spec not_less)

end
