(* ===== verification/Base64.thy ===== *)
theory Base64
  imports Ct
begin

text \<open>
  Base64 (\<open>crypto/base64/base64.c\<close>): the table-free character maps, block and streaming
  encoding and decoding.  The bytes that a function stores from its output pointer on are a
  result; a terminating NUL that the next block overwrites is stored once, behind the last
  one.  What one-shot decoding stores before it fails is not kept.  A violated assertion is
  \<open>None\<close>.
\<close>

abbreviation INT_MAX :: nat where "INT_MAX \<equiv> 2147483647"

record evp_encode_ctx =
  data_used :: nat
  ctx_data :: "u8 list"
  eof_seen :: bool
  error_encountered :: bool

definition constant_time_lt_args_8 :: "u8 \<Rightarrow> u8 \<Rightarrow> u8" where
  "constant_time_lt_args_8 a b = ucast (constant_time_msb_w (ucast a - ucast b))"

definition constant_time_in_range_8 :: "u8 \<Rightarrow> u8 \<Rightarrow> u8 \<Rightarrow> u8" where
  "constant_time_in_range_8 a lo hi = constant_time_lt_args_8 (a - lo) (hi - lo + 1)"

section \<open>Encoding\<close>

definition conv_bin2ascii :: "u8 \<Rightarrow> u8" where
  "conv_bin2ascii x =
    (let a = x AND 0x3f;
         ret = constant_time_select_8 (constant_time_eq_8 (ucast a) 62) 43 47;
         ret = constant_time_select_8 (constant_time_lt_args_8 a 62) (a - 52 + 48) ret;
         ret = constant_time_select_8 (constant_time_lt_args_8 a 52) (a - 26 + 97) ret
     in constant_time_select_8 (constant_time_lt_args_8 a 26) (a + 65) ret)"

definition EVP_EncodedLength :: "size_t \<Rightarrow> size_t option" where
  "EVP_EncodedLength len =
    (if size_add len 2 < len then None
     else
       let len = size_add len 2 div 3 in
       if size_mul len 4 div 4 \<noteq> len then None
       else
         let len = size_mul len 4 in
         if size_add len 1 < len then None else Some (size_add len 1))"

definition EVP_EncodeInit :: evp_encode_ctx where
  "EVP_EncodeInit = \<lparr>data_used = 0, ctx_data = replicate 48 0, eof_seen = False, error_encountered = False\<rparr>"

text \<open>The characters that \<open>EVP_EncodeBlock\<close> stores; it adds a NUL and returns their number.\<close>

fun encode_chars :: "u8 list \<Rightarrow> u8 list" where
  "encode_chars (x # y # z # src) =
    (let l = push_bit 16 (ucast x) OR push_bit 8 (ucast y) OR ucast z :: u32 in
     [conv_bin2ascii (ucast (drop_bit 18 l)), conv_bin2ascii (ucast (drop_bit 12 l)),
      conv_bin2ascii (ucast (drop_bit 6 l)), conv_bin2ascii (ucast l)] @ encode_chars src)"
| "encode_chars [x, y] =
    (let l = push_bit 16 (ucast x) OR push_bit 8 (ucast y) :: u32 in
     [conv_bin2ascii (ucast (drop_bit 18 l)), conv_bin2ascii (ucast (drop_bit 12 l)),
      conv_bin2ascii (ucast (drop_bit 6 l)), 61])"
| "encode_chars [x] =
    (let l = push_bit 16 (ucast x) :: u32 in
     [conv_bin2ascii (ucast (drop_bit 18 l)), conv_bin2ascii (ucast (drop_bit 12 l)), 61, 61])"
| "encode_chars [] = []"

definition EVP_EncodeBlock :: "u8 list \<Rightarrow> u8 list \<times> size_t" where
  "EVP_EncodeBlock src = (encode_chars src @ [0], length (encode_chars src))"

text \<open>The loop over full lines: what is stored, the input left and the total, which is
  \<open>None\<close> if it would wrap.\<close>

fun encode_lines :: "u8 list \<Rightarrow> size_t \<Rightarrow> u8 list \<times> u8 list \<times> size_t option" where
  "encode_lines inp tot =
    (if 48 \<le> length inp then
       let (block, encoded) = EVP_EncodeBlock (take 48 inp); line = take encoded block @ [10] in
       if size_add (size_add tot encoded) 1 < tot then (line, drop 48 inp, None)
       else
         (case encode_lines (drop 48 inp) (size_add (size_add tot encoded) 1) of
            (out, rest, t) \<Rightarrow> (line @ out, rest, t))
     else ([], inp, Some tot))"

declare encode_lines.simps [simp del]

text \<open>The results are the context, the bytes stored from \<open>out\<close> on and \<open>*out_len\<close>.\<close>

definition EVP_EncodeUpdate ::
  "evp_encode_ctx \<Rightarrow> u8 list \<Rightarrow> (evp_encode_ctx \<times> u8 list \<times> nat) option" where
  "EVP_EncodeUpdate ctx inp =
    (if inp = [] then Some (ctx, [], 0)
     else if 48 \<le> data_used ctx then None
     else if length inp < 48 - data_used ctx then
       Some (ctx\<lparr>ctx_data := take (data_used ctx) (ctx_data ctx) @ inp
                  @ drop (data_used ctx + length inp) (ctx_data ctx),
                 data_used := data_used ctx + length inp\<rparr>, [], 0)
     else
       let todo = 48 - data_used ctx;
           (first, inp1, tot) =
             (if data_used ctx \<noteq> 0 then
                let (block, encoded) = EVP_EncodeBlock (take (data_used ctx) (ctx_data ctx) @ take todo inp) in
                (take encoded block @ [10], drop todo inp, encoded + 1)
              else ([], inp, 0));
           dat = (if data_used ctx \<noteq> 0 then take (data_used ctx) (ctx_data ctx) @ take todo inp else ctx_data ctx);
           (lines, rest, total') = encode_lines inp1 tot;
           out = first @ lines @ [0] in
       (case total' of
          None \<Rightarrow> Some (ctx\<lparr>ctx_data := dat, data_used := 0\<rparr>, out, 0)
        | Some t \<Rightarrow> Some (ctx\<lparr>ctx_data := rest @ drop (length rest) dat, data_used := length rest\<rparr>,
             out, if INT_MAX < t then 0 else t)))"

definition EVP_EncodeFinal :: "evp_encode_ctx \<Rightarrow> evp_encode_ctx \<times> u8 list \<times> nat" where
  "EVP_EncodeFinal ctx =
    (if data_used ctx = 0 then (ctx, [], 0)
     else
       let (block, encoded) = EVP_EncodeBlock (take (data_used ctx) (ctx_data ctx)) in
       (ctx\<lparr>data_used := 0\<rparr>, take encoded block @ [10, 0], encoded + 1))"

section \<open>Decoding\<close>

definition EVP_DecodedLength :: "size_t \<Rightarrow> size_t option" where
  "EVP_DecodedLength len = (if len mod 4 \<noteq> 0 then None else Some (len div 4 * 3))"

definition EVP_DecodeInit :: evp_encode_ctx where
  "EVP_DecodeInit = \<lparr>data_used = 0, ctx_data = replicate 48 0, eof_seen = False, error_encountered = False\<rparr>"

definition base64_ascii_to_bin :: "u8 \<Rightarrow> u8" where
  "base64_ascii_to_bin a =
    (let is_upper = constant_time_in_range_8 a 65 90;
         is_lower = constant_time_in_range_8 a 97 122;
         is_digit = constant_time_in_range_8 a 48 57;
         is_plus = constant_time_eq_8 (ucast a) 43;
         is_slash = constant_time_eq_8 (ucast a) 47;
         is_equals = constant_time_eq_8 (ucast a) 61;
         ret = constant_time_select_8 is_upper (a - 65) 0xff;
         ret = constant_time_select_8 is_lower (a - 97 + 26) ret;
         ret = constant_time_select_8 is_digit (a - 48 + 52) ret;
         ret = constant_time_select_8 is_plus 62 ret;
         ret = constant_time_select_8 is_slash 63 ret
     in constant_time_select_8 is_equals 0 ret)"

definition base64_decode_quad :: "u8 \<Rightarrow> u8 \<Rightarrow> u8 \<Rightarrow> u8 \<Rightarrow> u8 list option" where
  "base64_decode_quad in0 in1 in2 in3 =
    (let a = base64_ascii_to_bin in0; b = base64_ascii_to_bin in1;
         c = base64_ascii_to_bin in2; d = base64_ascii_to_bin in3 in
     if a = 0xff \<or> b = 0xff \<or> c = 0xff \<or> d = 0xff then None
     else
       let v = push_bit 18 (ucast a) OR push_bit 12 (ucast b) OR push_bit 6 (ucast c) OR ucast d :: u32;
           padding_pattern = (if in0 = 61 then 8 else 0) + (if in1 = 61 then 4 else 0)
             + (if in2 = 61 then 2 else 0) + (if in3 = 61 then 1 else (0 :: nat)) in
       if padding_pattern = 0 then Some [ucast (drop_bit 16 v), ucast (drop_bit 8 v), ucast v]
       else if padding_pattern = 1 then Some [ucast (drop_bit 16 v), ucast (drop_bit 8 v)]
       else if padding_pattern = 3 then Some [ucast (drop_bit 16 v)]
       else None)"

text \<open>The loop of \<open>EVP_DecodeUpdate\<close>: whether it ran to the end, the context and the bytes
  stored.\<close>

fun decode_loop :: "evp_encode_ctx \<Rightarrow> u8 list \<Rightarrow> bool \<times> evp_encode_ctx \<times> u8 list" where
  "decode_loop ctx [] = (True, ctx, [])"
| "decode_loop ctx (c # inp) =
    (if c = 32 \<or> c = 9 \<or> c = 13 \<or> c = 10 then decode_loop ctx inp
     else if eof_seen ctx then (False, ctx\<lparr>error_encountered := True\<rparr>, [])
     else
       let dat = (ctx_data ctx)[data_used ctx := c]; used = data_used ctx + 1 in
       if used = 4 then
         (case base64_decode_quad (dat ! 0) (dat ! 1) (dat ! 2) (dat ! 3) of
            None \<Rightarrow> (False, ctx\<lparr>ctx_data := dat, data_used := used, error_encountered := True\<rparr>, [])
          | Some bytes \<Rightarrow>
              (case decode_loop (ctx\<lparr>ctx_data := dat, data_used := 0,
                  eof_seen := (if length bytes < 3 then True else eof_seen ctx)\<rparr>) inp of
                 (ok, ctx', out) \<Rightarrow> (ok, ctx', bytes @ out)))
       else decode_loop (ctx\<lparr>ctx_data := dat, data_used := used\<rparr>) inp)"

text \<open>The return value, the context, the bytes stored and \<open>*out_len\<close>.\<close>

definition EVP_DecodeUpdate ::
  "evp_encode_ctx \<Rightarrow> u8 list \<Rightarrow> int \<times> evp_encode_ctx \<times> u8 list \<times> nat" where
  "EVP_DecodeUpdate ctx inp =
    (if error_encountered ctx then (- 1, ctx, [], 0)
     else (case decode_loop ctx inp of
         (False, ctx', out) \<Rightarrow> (- 1, ctx', out, 0)
       | (True, ctx', out) \<Rightarrow>
           if INT_MAX < length out then (- 1, ctx'\<lparr>error_encountered := True\<rparr>, out, 0)
           else (if eof_seen ctx' then 0 else 1, ctx', out, length out)))"

definition EVP_DecodeFinal :: "evp_encode_ctx \<Rightarrow> int" where
  "EVP_DecodeFinal ctx = (if error_encountered ctx \<or> data_used ctx \<noteq> 0 then - 1 else 1)"

fun decode_quads :: "u8 list \<Rightarrow> u8 list option" where
  "decode_quads (w # x # y # z # inp) =
    (case base64_decode_quad w x y z of
       None \<Rightarrow> None
     | Some bytes \<Rightarrow>
         if length bytes \<noteq> 3 \<and> inp \<noteq> [] then None
         else map_option ((@) bytes) (decode_quads inp))"
| "decode_quads _ = Some []"

definition EVP_DecodeBase64 :: "size_t \<Rightarrow> u8 list \<Rightarrow> u8 list option" where
  "EVP_DecodeBase64 max_out inp =
    (if length inp mod 4 \<noteq> 0 then None
     else (case EVP_DecodedLength (length inp) of
         None \<Rightarrow> None
       | Some max_len \<Rightarrow> if max_out < max_len then None else decode_quads inp))"

definition EVP_DecodeBlock :: "u8 list \<Rightarrow> int \<times> u8 list" where
  "EVP_DecodeBlock src =
    (let src = dropWhile (\<lambda>c. c = 32 \<or> c = 9) src;
         src = rev (dropWhile (\<lambda>c. c = 32 \<or> c = 9 \<or> c = 13 \<or> c = 10) (rev src)) in
     (case EVP_DecodedLength (length src) of
        None \<Rightarrow> (- 1, [])
      | Some dst_len \<Rightarrow>
          if INT_MAX < dst_len then (- 1, [])
          else (case EVP_DecodeBase64 dst_len src of
              None \<Rightarrow> (- 1, [])
            | Some out \<Rightarrow>
                let out = out @ replicate ((3 - length out mod 3) mod 3) 0 in (int (length out), out))))"


section \<open>Characters\<close>

lemma constant_time_lt_args_8_spec: "constant_time_lt_args_8 a b = (if a < b then CONSTTIME_TRUE_8 else 0)"
proof -
  have t: "(ucast CONSTTIME_TRUE_W :: u8) = CONSTTIME_TRUE_8" by (rule bit_word_eqI) (simp add: bit_simps)
  have "bit (ucast a - ucast b :: u64) 63 \<longleftrightarrow> unat a < unat b"
    unfolding bit_63_sub unat_ucast_8_64 using unat_u8_lt [of a] unat_u8_lt [of b]
    by (auto simp del: unat_u8_lt)
  then show ?thesis
    by (simp add: constant_time_lt_args_8_def constant_time_msb_w_spec word_less_nat_alt t)
qed

lemma select_8_if:
  "constant_time_select_8 (if P then CONSTTIME_TRUE_8 else 0) a b = (if P then a else b)"
  by (simp add: constant_time_select_8_spec)

lemma constant_time_eq_8_const:
  "unat c < 256 \<Longrightarrow> constant_time_eq_8 (ucast (a :: u8)) c = (if a = ucast c then CONSTTIME_TRUE_8 else 0)"
proof -
  assume c: "unat c < 256"
  have "(ucast a :: u64) = c \<longleftrightarrow> a = ucast c"
    using c by (auto simp: word_unat_eq_iff unsigned_ucast_eq take_bit_eq_mod [where ?'a = nat])
  then show ?thesis by (simp add: constant_time_eq_8_spec)
qed

lemma conv_bin2ascii_spec:
  "conv_bin2ascii x = (let a = x AND 0x3f in
    if a < 26 then a + 65 else if a < 52 then a - 26 + 97 else if a < 62 then a - 52 + 48
    else if a = 62 then 43 else 47)"
  by (simp add: conv_bin2ascii_def constant_time_lt_args_8_spec select_8_if constant_time_eq_8_const Let_def)

lemma base64_ascii_to_bin_spec:
  "base64_ascii_to_bin a = (if a = 61 then 0 else if a = 47 then 63 else if a = 43 then 62
    else if a - 48 < 10 then a - 48 + 52 else if a - 97 < 26 then a - 97 + 26
    else if a - 65 < 26 then a - 65 else 0xff)"
  by (simp add: base64_ascii_to_bin_def constant_time_in_range_8_def constant_time_lt_args_8_spec
      select_8_if constant_time_eq_8_const Let_def)

definition sextet_ok :: "u8 \<Rightarrow> bool" where
  "sextet_ok a \<longleftrightarrow> (let c = conv_bin2ascii a in base64_ascii_to_bin c = a \<and> c \<noteq> 61 \<and> c \<notin> {32, 9, 13, 10, 0})"

lemma sextets: "list_all sextet_ok (map of_nat [0..<64])"
  unfolding sextet_ok_def base64_ascii_to_bin_spec conv_bin2ascii_spec by code_simp

lemma and_3F: "(w :: 'a::len word) AND 0x3F = take_bit 6 w"
  by (simp add: take_bit_eq_mask mask_eq_exp_minus_1)

lemma conv_bin2ascii_mask: "conv_bin2ascii (take_bit 6 x) = conv_bin2ascii x"
  by (simp add: conv_bin2ascii_spec and_3F)

lemma sextet:
  "base64_ascii_to_bin (conv_bin2ascii x) = take_bit 6 x"
  "conv_bin2ascii x \<notin> {61, 32, 9, 13, 10, 0}"
proof -
  have "unat (take_bit 6 x) < 64" by (simp add: unsigned_take_bit_eq take_bit_eq_mod [where ?'a = nat])
  moreover have "take_bit 6 x = of_nat (unat (take_bit 6 x))" by simp
  ultimately have "take_bit 6 x \<in> set (map of_nat [0..<64])"
    unfolding set_map set_upt by (intro image_eqI [where x = "unat (take_bit 6 x)"]) simp_all
  then have "sextet_ok (take_bit 6 x)" using sextets by (simp only: list_all_iff)
  then show "base64_ascii_to_bin (conv_bin2ascii x) = take_bit 6 x" "conv_bin2ascii x \<notin> {61, 32, 9, 13, 10, 0}"
    by (simp_all add: sextet_ok_def conv_bin2ascii_mask Let_def)
qed

lemma quad_bits:
  "push_bit 18 (ucast (take_bit 6 (ucast (drop_bit 18 l) :: u8))) OR
   push_bit 12 (ucast (take_bit 6 (ucast (drop_bit 12 l) :: u8))) OR
   push_bit 6 (ucast (take_bit 6 (ucast (drop_bit 6 l) :: u8))) OR
   ucast (take_bit 6 (ucast l :: u8)) = take_bit 24 (l :: u32)"
proof (rule bit_word_eqI)
  fix n :: nat
  consider "n < 6" | "6 \<le> n" "n < 12" | "12 \<le> n" "n < 18" | "18 \<le> n" "n < 24" | "24 \<le> n" by linarith
  then show "bit (push_bit 18 (ucast (take_bit 6 (ucast (drop_bit 18 l) :: u8)) :: u32) OR
     push_bit 12 (ucast (take_bit 6 (ucast (drop_bit 12 l) :: u8))) OR
     push_bit 6 (ucast (take_bit 6 (ucast (drop_bit 6 l) :: u8))) OR
     ucast (take_bit 6 (ucast l :: u8))) n = bit (take_bit 24 l) n"
    by cases (auto simp: bit_simps)
qed

lemma drop_take_bytes:
  fixes x y z :: u8
  defines "l \<equiv> push_bit 16 (ucast x) OR push_bit 8 (ucast y) OR ucast z :: u32"
  shows "ucast (drop_bit 16 (take_bit 24 l)) = x" "ucast (drop_bit 8 (take_bit 24 l)) = y"
    "ucast (take_bit 24 l) = z"
proof -
  have "bit (ucast (drop_bit 16 (take_bit 24 l)) :: u8) n = bit x n \<and>
    bit (ucast (drop_bit 8 (take_bit 24 l)) :: u8) n = bit y n \<and> bit (ucast (take_bit 24 l) :: u8) n = bit z n"
    if "n < 8" for n
    using that bit_imp_le_length [of y "8 + n"] bit_imp_le_length [of z "8 + n"] bit_imp_le_length [of z "16 + n"]
    by (auto simp: l_def bit_simps dest: bit_imp_le_length)
  then show "ucast (drop_bit 16 (take_bit 24 l)) = x" "ucast (drop_bit 8 (take_bit 24 l)) = y"
    "ucast (take_bit 24 l) = z"
    by (auto intro!: bit_word_eqI)
qed


section \<open>Blocks\<close>

lemma sextet_valid: "take_bit 6 (x :: u8) \<noteq> 0xff"
proof -
  have "unat (take_bit 6 x) < 64" by (simp add: unsigned_take_bit_eq take_bit_eq_mod [where ?'a = nat])
  then show ?thesis by auto
qed

lemma base64_ascii_to_bin_pad: "base64_ascii_to_bin 61 = 0"
  by (simp add: base64_ascii_to_bin_spec)

lemma conv_not_special: "conv_bin2ascii x \<noteq> 61" "conv_bin2ascii x \<noteq> 32" "conv_bin2ascii x \<noteq> 9"
    "conv_bin2ascii x \<noteq> 13" "conv_bin2ascii x \<noteq> 10"
  using sextet(2) [of x] by simp_all

lemma decode_quad_chars:
  fixes l :: u32
  defines "s \<equiv> \<lambda>k. conv_bin2ascii (ucast (drop_bit k l))"
  shows "base64_decode_quad (s 18) (s 12) (s 6) (conv_bin2ascii (ucast l)) =
      Some [ucast (drop_bit 16 (take_bit 24 l)), ucast (drop_bit 8 (take_bit 24 l)), ucast (take_bit 24 l)]"
    "take_bit 6 (ucast l :: u8) = 0 \<Longrightarrow> base64_decode_quad (s 18) (s 12) (s 6) 61 =
      Some [ucast (drop_bit 16 (take_bit 24 l)), ucast (drop_bit 8 (take_bit 24 l))]"
    "take_bit 6 (ucast l :: u8) = 0 \<Longrightarrow> take_bit 6 (ucast (drop_bit 6 l) :: u8) = 0 \<Longrightarrow>
      base64_decode_quad (s 18) (s 12) 61 61 = Some [ucast (drop_bit 16 (take_bit 24 l))]"
  unfolding quad_bits [of l, symmetric] s_def
  by (simp_all add: base64_decode_quad_def sextet(1) sextet_valid conv_not_special base64_ascii_to_bin_pad Let_def
      del: push_bit_or drop_bit_or take_bit_or)

lemma decode_quad_3:
  "\<exists>c0 c1 c2 c3. encode_chars (x # y # z # src) = c0 # c1 # c2 # c3 # encode_chars src \<and>
    base64_decode_quad c0 c1 c2 c3 = Some [x, y, z] \<and> {c0, c1, c2, c3} \<inter> {32, 9, 13, 10} = {}"
proof -
  define l where "l = (push_bit 16 (ucast x) OR push_bit 8 (ucast y) OR ucast z :: u32)"
  let ?s = "\<lambda>k. conv_bin2ascii (ucast (drop_bit k l))"
  have "encode_chars (x # y # z # src) = ?s 18 # ?s 12 # ?s 6 # conv_bin2ascii (ucast l) # encode_chars src"
    by (simp add: Let_def l_def del: drop_bit_or)
  moreover have "base64_decode_quad (?s 18) (?s 12) (?s 6) (conv_bin2ascii (ucast l)) = Some [x, y, z]"
    using decode_quad_chars(1) [of l] unfolding l_def drop_take_bytes .
  moreover have "{?s 18, ?s 12, ?s 6, conv_bin2ascii (ucast l)} \<inter> {32, 9, 13, 10} = {}"
    using conv_not_special by simp
  ultimately show ?thesis by blast
qed

lemma decode_quad_2:
  "\<exists>c0 c1 c2 c3. encode_chars [x, y] = [c0, c1, c2, c3] \<and>
    base64_decode_quad c0 c1 c2 c3 = Some [x, y] \<and> {c0, c1, c2, c3} \<inter> {32, 9, 13, 10} = {}"
proof -
  have z: "take_bit 6 (ucast (push_bit 16 (ucast x) OR push_bit 8 (ucast y) :: u32) :: u8) = 0"
    by (rule bit_word_eqI) (auto simp: bit_simps)
  note b = drop_take_bytes [of x y 0, unfolded ucast_0 or.right_neutral]
  show ?thesis
    using decode_quad_chars(2) [OF z] conv_not_special unfolding b by (simp add: Let_def)
qed

lemma decode_quad_1:
  "\<exists>c0 c1 c2 c3. encode_chars [x] = [c0, c1, c2, c3] \<and>
    base64_decode_quad c0 c1 c2 c3 = Some [x] \<and> {c0, c1, c2, c3} \<inter> {32, 9, 13, 10} = {}"
proof -
  have z: "take_bit 6 (ucast (push_bit 16 (ucast x) :: u32) :: u8) = 0"
    "take_bit 6 (ucast (drop_bit 6 (push_bit 16 (ucast x)) :: u32) :: u8) = 0"
    by (rule bit_word_eqI; auto simp: bit_simps)+
  note b = drop_take_bytes [of x 0 0, unfolded ucast_0 push_bit_of_0 or.right_neutral]
  show ?thesis
    using decode_quad_chars(3) [OF z] conv_not_special unfolding b by (simp add: Let_def)
qed

lemma encode_chars_cases:
  "(src = [] \<and> encode_chars src = []) \<or>
   (\<exists>c0 c1 c2 c3 rest bytes src'. encode_chars src = c0 # c1 # c2 # c3 # rest \<and> rest = encode_chars src' \<and>
      src = bytes @ src' \<and> base64_decode_quad c0 c1 c2 c3 = Some bytes \<and>
      bytes \<noteq> [] \<and> length bytes \<le> 3 \<and> (length bytes < 3 \<longrightarrow> src' = []) \<and>
      {c0, c1, c2, c3} \<inter> {32, 9, 13, 10} = {})"
proof (cases src rule: encode_chars.cases)
  case (1 x y z s)
  with decode_quad_3 [of x y z s] show ?thesis by fastforce
next
  case (2 x y)
  with decode_quad_2 [of x y] show ?thesis
    by (intro disjI2) (metis append_Nil2 encode_chars.simps(4) length_Cons list.distinct(1) list.size(3) numeral_2_eq_2 numeral_3_eq_3 le_SucI order_refl)
next
  case (3 x)
  with decode_quad_1 [of x] show ?thesis
    by (intro disjI2) (metis append_Nil2 encode_chars.simps(4) length_Cons list.distinct(1) list.size(3) numeral_2_eq_2 numeral_3_eq_3 le_SucI order_refl)
qed simp


lemma decode_quads_encode: "decode_quads (encode_chars src) = Some src"
proof (induction src rule: length_induct)
  case (1 src)
  from encode_chars_cases [of src] show ?case
  proof (elim disjE exE conjE)
    fix c0 c1 c2 c3 rest bytes src'
    assume c: "encode_chars src = c0 # c1 # c2 # c3 # rest" "rest = encode_chars src'" "src = bytes @ src'"
      "base64_decode_quad c0 c1 c2 c3 = Some bytes" "bytes \<noteq> []" "length bytes \<le> 3"
      "length bytes < 3 \<longrightarrow> src' = []"
    have "decode_quads (encode_chars src') = Some src'" using 1 c(3,5) by simp
    then show ?thesis using c by auto
  qed simp
qed

lemma length_encode_chars: "length (encode_chars src) = 4 * ((length src + 2) div 3)"
  by (induction src rule: encode_chars.induct) (auto simp: Let_def, presburger)

text \<open>
  The base64 block codec.  Encoding stores four characters for every three bytes begun
  and a NUL, which is the size that \<open>EVP_EncodedLength\<close> announces; decoding these
  characters into a buffer of the size that \<open>EVP_DecodedLength\<close> announces gives the input back.
\<close>

theorem EVP_base64_block_roundtrip:
  assumes "length src < 2 ^ 62" "EVP_EncodeBlock src = (block, n)"
  shows "EVP_EncodedLength (length src) = Some (length block) \<and> n + 1 = length block \<and>
    (\<exists>m. EVP_DecodedLength n = Some m \<and> length src \<le> m \<and>
      (\<forall>max_out \<ge> m. EVP_DecodeBase64 max_out (take n block) = Some src))"
proof -
  let ?k = "(length src + 2) div 3"
  have k: "length src + 2 < size_mod" "?k * 4 < size_mod" "?k * 4 + 1 < size_mod" "length src \<le> ?k * 3"
    using assms(1) by simp_all
  have "EVP_EncodedLength (length src) = Some (4 * ?k + 1)"
    using k by (simp add: EVP_EncodedLength_def Let_def)
  moreover have "block = encode_chars src @ [0]" "n = 4 * ?k"
    using assms(2) by (auto simp: EVP_EncodeBlock_def length_encode_chars)
  ultimately show ?thesis
    using k(4) by (simp add: length_encode_chars EVP_DecodedLength_def EVP_DecodeBase64_def decode_quads_encode)
qed

lemma EVP_base64_block_roundtrip_witness:
  "EVP_DecodeBase64 6 (encode_chars [1, 2, 3, 4]) = Some [1, 2, 3, 4]"
proof -
  have "EVP_EncodeBlock [1, 2, 3, 4] = (encode_chars [1, 2, 3, 4] @ [0], 8)"
    by (simp add: EVP_EncodeBlock_def length_encode_chars)
  from EVP_base64_block_roundtrip [OF _ this]
  show ?thesis by (simp add: EVP_DecodedLength_def length_encode_chars)
qed

section \<open>Streams\<close>

fun full_lines :: "u8 list \<Rightarrow> u8 list" where
  "full_lines inp = (if 48 \<le> length inp then encode_chars (take 48 inp) @ [10] @ full_lines (drop 48 inp) else [])"

fun tail48 :: "u8 list \<Rightarrow> u8 list" where
  "tail48 inp = (if 48 \<le> length inp then tail48 (drop 48 inp) else inp)"

declare full_lines.simps [simp del] tail48.simps [simp del]

text \<open>The text a stream of bytes is encoded to: lines of 48 bytes each and a shorter last one.\<close>

definition pem_text :: "u8 list \<Rightarrow> u8 list" where
  "pem_text dat = full_lines dat @ (if tail48 dat = [] then [] else encode_chars (tail48 dat) @ [10])"

lemma length_tail48: "length (tail48 inp) < 48"
  by (induction inp rule: tail48.induct) (simp add: tail48.simps)

lemma short_lines: "length p < 48 \<Longrightarrow> full_lines p = [] \<and> tail48 p = p"
  by (simp add: full_lines.simps [of p] tail48.simps [of p])

lemma lines_append:
  "full_lines (x @ y) = full_lines x @ full_lines (tail48 x @ y) \<and> tail48 (x @ y) = tail48 (tail48 x @ y)"
proof (induction x rule: full_lines.induct)
  case (1 x)
  show ?case
  proof (cases "48 \<le> length x")
    case True
    then have "full_lines (x @ y) = encode_chars (take 48 x) @ [10] @ full_lines (drop 48 x @ y)"
      "tail48 (x @ y) = tail48 (drop 48 x @ y)"
      by (simp_all add: full_lines.simps [of "x @ y"] tail48.simps [of "x @ y"])
    then show ?thesis
      using 1 True by (simp add: full_lines.simps [of x] tail48.simps [of x])
  qed (simp add: short_lines)
qed

lemma pem_text_append: "pem_text (x @ y) = full_lines x @ pem_text (tail48 x @ y)"
  using lines_append [of x y] by (simp add: pem_text_def)

lemma encode_lines_spec:
  "tot + length (full_lines inp) < size_mod \<Longrightarrow>
    encode_lines inp tot = (full_lines inp, tail48 inp, Some (tot + length (full_lines inp)))"
proof (induction inp tot rule: encode_lines.induct)
  case (1 inp tot)
  show ?case
  proof (cases "48 \<le> length inp")
    case True
    let ?n = "length (encode_chars (take 48 inp))"
    have f: "full_lines inp = encode_chars (take 48 inp) @ [10] @ full_lines (drop 48 inp)"
      using True by (simp add: full_lines.simps [of inp])
    then have b: "size_add (size_add tot ?n) 1 = tot + ?n + 1" using 1(2) by simp
    then have "encode_lines (drop 48 inp) (tot + ?n + 1) = (full_lines (drop 48 inp), tail48 (drop 48 inp),
        Some (tot + ?n + 1 + length (full_lines (drop 48 inp))))"
      using 1(1) [of "(encode_chars (take 48 inp) @ [0], ?n)" "encode_chars (take 48 inp) @ [0]" ?n "encode_chars (take 48 inp) @ [10]"] True f 1(2)
      by (simp add: EVP_EncodeBlock_def)
    then show ?thesis
      using True b f by (simp add: encode_lines.simps [of inp] tail48.simps [of inp] EVP_EncodeBlock_def Let_def)
  qed (simp add: encode_lines.simps [of inp] short_lines)
qed

definition enc_ctx :: "evp_encode_ctx \<Rightarrow> u8 list \<Rightarrow> bool" where
  "enc_ctx ctx p \<longleftrightarrow> length (ctx_data ctx) = 48 \<and> length p < 48 \<and> data_used ctx = length p \<and>
     take (length p) (ctx_data ctx) = p"

lemma EVP_EncodeUpdate_spec:
  assumes ctx: "enc_ctx ctx p" and small: "length (full_lines (p @ inp)) \<le> INT_MAX"
  obtains ctx' out where "EVP_EncodeUpdate ctx inp = Some (ctx', out, length (full_lines (p @ inp)))"
    "enc_ctx ctx' (tail48 (p @ inp))" "take (length (full_lines (p @ inp))) out = full_lines (p @ inp)"
proof -
  have c: "length (ctx_data ctx) = 48" "length p < 48" "data_used ctx = length p" "take (length p) (ctx_data ctx) = p"
    using ctx by (simp_all add: enc_ctx_def)
  show thesis
  proof (cases "length (p @ inp) < 48")
    case True
    then have s: "full_lines (p @ inp) = []" "tail48 (p @ inp) = p @ inp" using short_lines by auto
    show thesis
    proof (cases "inp = []")
      case False
      let ?c = "ctx\<lparr>ctx_data := p @ inp @ drop (length p + length inp) (ctx_data ctx), data_used := length p + length inp\<rparr>"
      have "EVP_EncodeUpdate ctx inp = Some (?c, [], length (full_lines (p @ inp)))"
        using True False c s by (simp add: EVP_EncodeUpdate_def less_diff_conv add.commute)
      then show thesis by (rule that) (use c True s in \<open>simp_all add: enc_ctx_def\<close>)
    qed (use that [of ctx "[]"] ctx s in \<open>simp add: EVP_EncodeUpdate_def\<close>)
  next
    case False
    then have ne: "inp \<noteq> []" "\<not> length inp < 48 - length p" using c(2) by auto
    let ?todo = "48 - length p"
    define dat where "dat = (if p \<noteq> [] then p @ take ?todo inp else ctx_data ctx)"
    have dat: "length dat = 48" using c(1,2) ne(2) by (simp add: dat_def)
    obtain ctx' out where "EVP_EncodeUpdate ctx inp = Some (ctx', out, length (full_lines (p @ inp)))"
      "ctx' = ctx\<lparr>ctx_data := tail48 (p @ inp) @ drop (length (tail48 (p @ inp))) dat, data_used := length (tail48 (p @ inp))\<rparr>"
      "out = full_lines (p @ inp) @ [0]"
    proof (cases "p = []")
      case True
      have "encode_lines inp 0 = (full_lines inp, tail48 inp, Some (length (full_lines inp)))"
        using encode_lines_spec [of 0 inp] small True by simp
      then show thesis
        using True ne c small by (intro that) (simp_all add: EVP_EncodeUpdate_def dat_def)
    next
      case p: False
      let ?first = "encode_chars (p @ take ?todo inp) @ [10]"
      have f: "full_lines (p @ inp) = ?first @ full_lines (drop ?todo inp)" "tail48 (p @ inp) = tail48 (drop ?todo inp)"
        using False c(2) by (simp_all add: full_lines.simps [of "p @ inp"] tail48.simps [of "p @ inp"])
      have "encode_lines (drop ?todo inp) (length (encode_chars (p @ take ?todo inp)) + 1) =
          (full_lines (drop ?todo inp), tail48 (drop ?todo inp), Some (length (full_lines (p @ inp))))"
        using encode_lines_spec [of "length ?first" "drop ?todo inp"] small f(1) by simp
      then show thesis
        using p ne c small f by (intro that) (simp_all add: EVP_EncodeUpdate_def EVP_EncodeBlock_def dat_def Let_def)
    qed
    then show thesis
      using that length_tail48 [of "p @ inp"] dat by (simp add: enc_ctx_def)
  qed
qed

lemma EVP_EncodeFinal_spec:
  assumes "enc_ctx ctx p"
  obtains ctx' out n where "EVP_EncodeFinal ctx = (ctx', out, n)"
    "take n out = (if p = [] then [] else encode_chars p @ [10])"
proof (cases "p = []")
  case True
  then show thesis using that [of ctx "[]" 0] assms by (simp add: EVP_EncodeFinal_def enc_ctx_def)
next
  case False
  then show thesis
    using that [of "ctx\<lparr>data_used := 0\<rparr>" "encode_chars p @ [10, 0]" "length (encode_chars p) + 1"] assms
    by (simp add: EVP_EncodeFinal_def EVP_EncodeBlock_def enc_ctx_def)
qed


lemma decode_loop_append:
  "decode_loop ctx (a @ b) = (case decode_loop ctx a of
     (ok, c, out) \<Rightarrow> if \<not> ok then (False, c, out) else (case decode_loop c b of (ok', c', out') \<Rightarrow> (ok', c', out @ out')))"
  by (induction ctx a rule: decode_loop.induct)
    (auto simp: Let_def split: option.splits prod.splits)

lemma decode_loop_error:
  "decode_loop ctx a = (True, c, out) \<Longrightarrow> error_encountered c = error_encountered ctx"
  by (induction ctx a arbitrary: out rule: decode_loop.induct)
    (auto simp: Let_def split: option.splits prod.splits if_splits)

definition dec_ready :: "evp_encode_ctx \<Rightarrow> bool" where
  "dec_ready ctx \<longleftrightarrow> data_used ctx = 0 \<and> length (ctx_data ctx) = 48 \<and> \<not> eof_seen ctx"

lemma decode_loop_quad:
  assumes r: "dec_ready ctx" and q: "base64_decode_quad c0 c1 c2 c3 = Some bytes"
    and w: "{c0, c1, c2, c3} \<inter> {32, 9, 13, 10} = {}"
  obtains ctx' where
    "\<And>inp. decode_loop ctx (c0 # c1 # c2 # c3 # inp) = (case decode_loop ctx' inp of (ok, c, out) \<Rightarrow> (ok, c, bytes @ out))"
    "data_used ctx' = 0" "length (ctx_data ctx') = 48" "eof_seen ctx' \<longleftrightarrow> length bytes < 3"
proof -
  obtain d0 d1 d2 d3 d where d: "ctx_data ctx = d0 # d1 # d2 # d3 # d"
  proof -
    have "\<exists>a b. ctx_data ctx = a @ b \<and> length a = 4"
      using r by (intro exI [of _ "take 4 (ctx_data ctx)"] exI [of _ "drop 4 (ctx_data ctx)"]) (simp add: dec_ready_def)
    then show thesis using that by (auto simp: numeral_eq_Suc length_Suc_conv)
  qed
  have e: "\<not> eof_seen ctx" "data_used ctx = 0" "length (ctx_data ctx) = 48" using r by (simp_all add: dec_ready_def)
  have ws: "c0 \<notin> {32, 9, 13, 10}" "c1 \<notin> {32, 9, 13, 10}" "c2 \<notin> {32, 9, 13, 10}" "c3 \<notin> {32, 9, 13, 10}"
    using w by auto
  define ctx' where "ctx' = ctx\<lparr>ctx_data := c0 # c1 # c2 # c3 # d, data_used := 0,
      eof_seen := (if length bytes < 3 then True else False)\<rparr>"
  have "decode_loop ctx (c0 # c1 # c2 # c3 # inp) = (case decode_loop ctx' inp of (ok, c, out) \<Rightarrow> (ok, c, bytes @ out))" for inp
    using q ws e(1,2) by (simp add: d ctx'_def Let_def numeral_2_eq_2 numeral_3_eq_3)
  then show thesis
    by (rule that) (use d e in \<open>auto simp: ctx'_def\<close>)
qed

lemma decode_loop_encode:
  assumes "dec_ready ctx"
  obtains ctx' where "\<And>inp. decode_loop ctx (encode_chars src @ inp) =
      (case decode_loop ctx' inp of (ok, c, out) \<Rightarrow> (ok, c, src @ out))"
    "data_used ctx' = 0" "length (ctx_data ctx') = 48" "eof_seen ctx' \<longleftrightarrow> length src mod 3 \<noteq> 0"
  using assms
proof (induction src arbitrary: ctx thesis rule: length_induct)
  case (1 src)
  from encode_chars_cases [of src] show thesis
  proof (elim disjE exE conjE)
    assume "src = []" "encode_chars src = []"
    then show thesis
      by (intro 1(2) [of ctx]) (use 1(3) in \<open>auto simp: dec_ready_def split: prod.splits\<close>)
  next
    fix c0 c1 c2 c3 rest bytes src'
    assume c: "encode_chars src = c0 # c1 # c2 # c3 # rest" "rest = encode_chars src'" "src = bytes @ src'"
      "base64_decode_quad c0 c1 c2 c3 = Some bytes" "bytes \<noteq> []" "length bytes \<le> 3"
      "length bytes < 3 \<longrightarrow> src' = []" "{c0, c1, c2, c3} \<inter> {32, 9, 13, 10} = {}"
    obtain ctx1 where 1: "\<And>inp. decode_loop ctx (c0 # c1 # c2 # c3 # inp) =
        (case decode_loop ctx1 inp of (ok, c, out) \<Rightarrow> (ok, c, bytes @ out))"
      "data_used ctx1 = 0" "length (ctx_data ctx1) = 48" "eof_seen ctx1 \<longleftrightarrow> length bytes < 3"
      by (rule decode_loop_quad [OF 1(3) c(4,8)]) (rule that)
    show thesis
    proof (cases "length bytes < 3")
      case True
      then have "length src mod 3 \<noteq> 0" using c(3,5,7) by (cases bytes) auto
      then show thesis using 1 c True by (intro "1.prems"(1) [of ctx1]) auto
    next
      case False
      then have r: "dec_ready ctx1" using 1(2-4) by (simp add: dec_ready_def)
      have "length src' < length src" using c(3,5) by simp
      then obtain ctx2 where 2: "\<And>inp. decode_loop ctx1 (encode_chars src' @ inp) =
          (case decode_loop ctx2 inp of (ok, c, out) \<Rightarrow> (ok, c, src' @ out))"
        "data_used ctx2 = 0" "length (ctx_data ctx2) = 48" "eof_seen ctx2 \<longleftrightarrow> length src' mod 3 \<noteq> 0"
        using "1.IH" r by blast
      have "length bytes = 3" using False c(6) by simp
      then show thesis
        using 1 2 c by (intro "1.prems"(1) [of ctx2]) (auto split: prod.splits)
    qed
  qed
qed

lemma decode_loop_newline [simp]: "decode_loop ctx (10 # inp) = decode_loop ctx inp"
  by simp

lemma decode_loop_lines:
  assumes "dec_ready ctx"
  obtains ctx' where "\<And>inp. decode_loop ctx (full_lines src @ inp) =
      (case decode_loop ctx' inp of (ok, c, out) \<Rightarrow> (ok, c, take (length src - length (tail48 src)) src @ out))"
    "dec_ready ctx'" "take (length src - length (tail48 src)) src @ tail48 src = src"
  using assms
proof (induction src arbitrary: ctx thesis rule: full_lines.induct)
  case (1 src)
  show thesis
  proof (cases "48 \<le> length src")
    case False
    then show thesis
      by (intro "1.prems"(1) [of ctx]) (use "1.prems"(2) short_lines [of src] in \<open>auto split: prod.splits\<close>)
  next
    case True
    obtain ctx1 where 1: "\<And>inp. decode_loop ctx (encode_chars (take 48 src) @ inp) =
        (case decode_loop ctx1 inp of (ok, c, out) \<Rightarrow> (ok, c, take 48 src @ out))"
      "data_used ctx1 = 0" "length (ctx_data ctx1) = 48" "eof_seen ctx1 \<longleftrightarrow> length (take 48 src) mod 3 \<noteq> 0"
      by (rule decode_loop_encode [OF "1.prems"(2), of "take 48 src"]) (rule that)
    then have r: "dec_ready ctx1" using True by (simp add: dec_ready_def)
    let ?s = "drop 48 src"
    obtain ctx2 where 2: "\<And>inp. decode_loop ctx1 (full_lines ?s @ inp) =
        (case decode_loop ctx2 inp of (ok, c, out) \<Rightarrow> (ok, c, take (length ?s - length (tail48 ?s)) ?s @ out))"
      "dec_ready ctx2" "take (length ?s - length (tail48 ?s)) ?s @ tail48 ?s = ?s"
      using "1.IH" [OF True _ r] by blast
    have f: "full_lines src = encode_chars (take 48 src) @ [10] @ full_lines ?s" "tail48 src = tail48 ?s"
      using True by (simp_all add: full_lines.simps [of src] tail48.simps [of src])
    have "length (tail48 ?s) \<le> length ?s" using arg_cong [OF 2(3), of length] by simp
    then have t: "take (length src - length (tail48 src)) src = take 48 src @ take (length ?s - length (tail48 ?s)) ?s"
      using True f(2) by (simp add: take_add [symmetric])
    show thesis
    proof (rule "1.prems"(1) [OF _ 2(2)])
      show "take (length src - length (tail48 src)) src @ tail48 src = src"
        unfolding t unfolding f(2) append_assoc 2(3) by (rule append_take_drop_id)
      show "decode_loop ctx (full_lines src @ inp) = (case decode_loop ctx2 inp of
          (ok, c, out) \<Rightarrow> (ok, c, take (length src - length (tail48 src)) src @ out))" for inp
        unfolding t unfolding f(1) by (simp add: 1(1) 2(1) split: prod.splits)
    qed
  qed
qed

lemma decode_loop_pem:
  assumes "dec_ready ctx"
  shows "\<exists>ctx'. decode_loop ctx (pem_text dat) = (True, ctx', dat) \<and> data_used ctx' = 0"
proof -
  obtain ctx1 where 1: "\<And>inp. decode_loop ctx (full_lines dat @ inp) =
      (case decode_loop ctx1 inp of (ok, c, out) \<Rightarrow> (ok, c, take (length dat - length (tail48 dat)) dat @ out))"
    "dec_ready ctx1" "take (length dat - length (tail48 dat)) dat @ tail48 dat = dat"
    by (rule decode_loop_lines [OF assms, of dat]) (rule that)
  obtain ctx2 where 2: "\<And>inp. decode_loop ctx1 (encode_chars (tail48 dat) @ inp) =
      (case decode_loop ctx2 inp of (ok, c, out) \<Rightarrow> (ok, c, tail48 dat @ out))"
    "data_used ctx2 = 0"
    by (rule decode_loop_encode [OF 1(2), of "tail48 dat"]) (rule that)
  show ?thesis
  proof (cases "tail48 dat = []")
    case True
    then show ?thesis using 1(1) [of "[]"] 1(2,3) by (auto simp: pem_text_def dec_ready_def)
  next
    case False
    then show ?thesis using 1(1) [of "encode_chars (tail48 dat) @ [10]"] 1(3) 2 by (auto simp: pem_text_def)
  qed
qed


text \<open>Clients that pass a list of chunks and collect \<open>*out_len\<close> bytes of every output.\<close>

fun encode_stream :: "evp_encode_ctx \<Rightarrow> u8 list list \<Rightarrow> u8 list option" where
  "encode_stream ctx [] = (case EVP_EncodeFinal ctx of (_, out, n) \<Rightarrow> Some (take n out))"
| "encode_stream ctx (c # cs) = (case EVP_EncodeUpdate ctx c of
     None \<Rightarrow> None
   | Some (ctx', out, n) \<Rightarrow> map_option ((@) (take n out)) (encode_stream ctx' cs))"

fun decode_stream :: "evp_encode_ctx \<Rightarrow> u8 list list \<Rightarrow> u8 list option" where
  "decode_stream ctx [] = (if EVP_DecodeFinal ctx = 1 then Some [] else None)"
| "decode_stream ctx (c # cs) = (case EVP_DecodeUpdate ctx c of
     (r, ctx', out, n) \<Rightarrow> if r = - 1 then None else map_option ((@) (take n out)) (decode_stream ctx' cs))"

lemma encode_stream_spec:
  "enc_ctx ctx p \<Longrightarrow> length (pem_text (p @ concat cs)) \<le> INT_MAX \<Longrightarrow>
    encode_stream ctx cs = Some (pem_text (p @ concat cs))"
proof (induction cs arbitrary: ctx p)
  case Nil
  then have "length p < 48" by (simp add: enc_ctx_def)
  then have "pem_text p = (if p = [] then [] else encode_chars p @ [10])" using short_lines [of p] by (simp add: pem_text_def)
  moreover obtain ctx' out n where "EVP_EncodeFinal ctx = (ctx', out, n)"
      "take n out = (if p = [] then [] else encode_chars p @ [10])"
    by (rule EVP_EncodeFinal_spec [OF Nil(1)])
  ultimately show ?case by simp
next
  case (Cons c cs)
  have e: "pem_text (p @ concat (c # cs)) = full_lines (p @ c) @ pem_text (tail48 (p @ c) @ concat cs)"
    using pem_text_append [of "p @ c" "concat cs"] by simp
  have "length (full_lines (p @ c)) \<le> INT_MAX" using Cons.prems(2) unfolding e by simp
  from Cons.prems(1) this obtain ctx' out where u:
    "EVP_EncodeUpdate ctx c = Some (ctx', out, length (full_lines (p @ c)))"
    "enc_ctx ctx' (tail48 (p @ c))" "take (length (full_lines (p @ c))) out = full_lines (p @ c)"
    by (rule EVP_EncodeUpdate_spec)
  have "encode_stream ctx' cs = Some (pem_text (tail48 (p @ c) @ concat cs))"
    using Cons.prems(2) unfolding e by (intro Cons.IH [OF u(2)]) simp
  then show ?case using u(1,3) unfolding e by simp
qed

lemma decode_stream_spec:
  "decode_loop ctx (concat cs) = (True, ctx', out) \<Longrightarrow> \<not> error_encountered ctx \<Longrightarrow> data_used ctx' = 0 \<Longrightarrow>
    length out \<le> INT_MAX \<Longrightarrow> decode_stream ctx cs = Some out"
proof (induction cs arbitrary: ctx out)
  case Nil
  then show ?case by (auto simp: EVP_DecodeFinal_def)
next
  case (Cons c cs)
  obtain ctx1 out1 out2 where 1: "decode_loop ctx c = (True, ctx1, out1)"
    "decode_loop ctx1 (concat cs) = (True, ctx', out2)" "out = out1 @ out2"
    using Cons.prems(1) by (auto simp: decode_loop_append split: prod.splits if_splits)
  have "\<not> error_encountered ctx1" using decode_loop_error [OF 1(1)] Cons.prems(2) by simp
  then have "decode_stream ctx1 cs = Some out2"
    using 1(2,3) Cons.prems(3,4) by (intro Cons.IH) simp_all
  moreover have "\<not> INT_MAX < length out1" using 1(3) Cons.prems(4) by simp
  ultimately show ?case using 1(1,3) Cons.prems(2) by (simp add: EVP_DecodeUpdate_def)
qed

text \<open>
  C31: streaming base64.  Whatever the chunks in which data is passed to
  \<open>EVP_EncodeUpdate\<close>, the output is the same text, and whatever the chunks in which that text
  is passed to \<open>EVP_DecodeUpdate\<close>, line breaks included, decoding succeeds and gives the data
  back; buffered bytes are neither lost nor duplicated between calls.
\<close>

theorem EVP_base64_stream_roundtrip:
  assumes "encode_stream EVP_EncodeInit cs = Some text" "concat ds = text"
    and "length (pem_text (concat cs)) \<le> 2147483647"
  shows "text = pem_text (concat cs) \<and> decode_stream EVP_DecodeInit ds = Some (concat cs)"
proof -
  have "enc_ctx EVP_EncodeInit []" by (simp add: enc_ctx_def EVP_EncodeInit_def)
  from encode_stream_spec [OF this, of cs] assms(1,3) have t: "text = pem_text (concat cs)" by simp
  have "dec_ready EVP_DecodeInit" by (simp add: dec_ready_def EVP_DecodeInit_def)
  from decode_loop_pem [OF this, of "concat cs"] obtain ctx' where
    d: "decode_loop EVP_DecodeInit (concat ds) = (True, ctx', concat cs)" "data_used ctx' = 0"
    using t assms(2) by auto
  have "length (encode_chars dat) \<ge> length dat" for dat by (simp add: length_encode_chars)
  then have "length (full_lines dat) + length (tail48 dat) \<ge> length dat" for dat
  proof (induction dat rule: full_lines.induct)
    case (1 dat)
    have "length (take 48 dat) \<le> length (encode_chars (take 48 dat))" by (rule 1(2))
    then show ?case
      using 1(1) [OF _ 1(2)] by (cases "48 \<le> length dat") (simp_all add: full_lines.simps [of dat] tail48.simps [of dat])
  qed
  moreover have "length (tail48 (concat cs)) \<le> length (encode_chars (tail48 (concat cs)))"
    by (simp add: length_encode_chars)
  ultimately have "length (concat cs) \<le> length (full_lines (concat cs)) + length (encode_chars (tail48 (concat cs)))"
    by (meson add_left_mono le_trans)
  also have "\<dots> \<le> length (pem_text (concat cs))" by (simp add: pem_text_def)
  finally have "length (concat cs) \<le> length (pem_text (concat cs))" .
  then have "length (concat cs) \<le> INT_MAX" using assms(3) by simp
  from decode_stream_spec [OF d(1) _ d(2) this] t show ?thesis by (simp add: EVP_DecodeInit_def)
qed

lemma EVP_base64_stream_roundtrip_witness:
  "\<exists>text. encode_stream EVP_EncodeInit [[1, 2], [], [3, 4]] = Some text \<and>
    decode_stream EVP_DecodeInit [take 3 text, drop 3 text] = Some [1, 2, 3, 4]"
proof -
  have p: "pem_text [1, 2, 3, 4] = encode_chars [1, 2, 3, 4] @ [10]" using short_lines [of "[1, 2, 3, 4]"] by (simp add: pem_text_def)
  then have l: "length (pem_text (concat [[1, 2], [], [3, 4]])) \<le> 2147483647" by (simp add: length_encode_chars)
  have "enc_ctx EVP_EncodeInit []" by (simp add: enc_ctx_def EVP_EncodeInit_def)
  from encode_stream_spec [OF this, of "[[1, 2], [], [3, 4]]"] l
  have e: "encode_stream EVP_EncodeInit [[1, 2], [], [3, 4]] = Some (pem_text [1, 2, 3, 4])" by simp
  from EVP_base64_stream_roundtrip [OF e _ l, of "[take 3 (pem_text [1, 2, 3, 4]), drop 3 (pem_text [1, 2, 3, 4])]"] e
  show ?thesis by simp
qed

end
