(* ===== verification/Md32.thy ===== *)
theory Md32
  imports Mem
begin


text \<open>
  The collector shared by the 32-bit digests (\<open>crypto/fipsmodule/digest/md32_common.h\<close>).  The
  header is a template: the block function and the byte order, macros there, are arguments
  here.  Its blocks have 64 bytes.  The context of a digest is the record \<open>hash_ctx\<close>.

  The locale \<open>block_function\<close> is what a digest promises of its block function; under it the
  collector is shown to feed exactly the padded message to the block function, however the
  input was cut.
\<close>

section \<open>Code\<close>

type_synonym block_fun = "u32 list \<Rightarrow> u8 list \<Rightarrow> nat \<Rightarrow> u32 list"

record hash_ctx =
  hc_h :: "u32 list"
  hc_Nl :: u32
  hc_Nh :: u32
  hc_data :: "u8 list"
  hc_num :: nat

abbreviation (input) HASH_CBLOCK :: nat where "HASH_CBLOCK \<equiv> 64"

text \<open>The first argument tells whether \<open>DATA_ORDER_IS_BIG_ENDIAN\<close> is defined.\<close>

definition HOST_c2l :: "bool \<Rightarrow> u8 list \<Rightarrow> u32" where
  "HOST_c2l big c =
    (if big then
       push_bit 24 (ucast (c ! 0)) OR push_bit 16 (ucast (c ! 1)) OR push_bit 8 (ucast (c ! 2)) OR ucast (c ! 3)
     else
       ucast (c ! 0) OR push_bit 8 (ucast (c ! 1)) OR push_bit 16 (ucast (c ! 2)) OR push_bit 24 (ucast (c ! 3)))"

definition HOST_l2c :: "bool \<Rightarrow> u32 \<Rightarrow> u8 list" where
  "HOST_l2c big l =
    (if big then
       [ucast (drop_bit 24 l AND 0xff), ucast (drop_bit 16 l AND 0xff), ucast (drop_bit 8 l AND 0xff), ucast (l AND 0xff)]
     else
       [ucast (l AND 0xff), ucast (drop_bit 8 l AND 0xff), ucast (drop_bit 16 l AND 0xff), ucast (drop_bit 24 l AND 0xff)])"

definition memcpy_at :: "u8 list \<Rightarrow> nat \<Rightarrow> u8 list \<Rightarrow> u8 list" where
  "memcpy_at dst n src = take n dst @ src @ drop (n + length src) dst"

text \<open>The part of \<open>HASH_UPDATE\<close> after the buffered block.\<close>

definition hash_blocks :: "block_fun \<Rightarrow> 'a hash_ctx_scheme \<Rightarrow> u8 list \<Rightarrow> 'a hash_ctx_scheme" where
  "hash_blocks block c data =
    (let n = length data div HASH_CBLOCK;
         c = (if 0 < n then c\<lparr>hc_h := block (hc_h c) data n\<rparr> else c);
         data = drop (n * HASH_CBLOCK) data in
     if data \<noteq> [] then c\<lparr>hc_num := length data, hc_data := memcpy_at (hc_data c) 0 data\<rparr> else c)"

definition HASH_UPDATE :: "block_fun \<Rightarrow> 'a hash_ctx_scheme \<Rightarrow> u8 list \<Rightarrow> 'a hash_ctx_scheme" where
  "HASH_UPDATE block c data =
    (let len = length data in
     if len = 0 then c
     else
       let l = hc_Nl c + push_bit 3 (of_nat len);
           Nh = (if l < hc_Nl c then hc_Nh c + 1 else hc_Nh c);
           c = c\<lparr>hc_Nh := Nh + of_nat (len div 2 ^ 29), hc_Nl := l\<rparr>;
           n = hc_num c in
       if n \<noteq> 0 then
         if HASH_CBLOCK \<le> len \<or> HASH_CBLOCK \<le> len + n then
           let c = c\<lparr>hc_data := memcpy_at (hc_data c) n (take (HASH_CBLOCK - n) data)\<rparr>;
               c = c\<lparr>hc_h := block (hc_h c) (hc_data c) 1\<rparr>;
               c = c\<lparr>hc_num := 0, hc_data := replicate HASH_CBLOCK 0\<rparr> in
           hash_blocks block c (drop (HASH_CBLOCK - n) data)
         else c\<lparr>hc_data := memcpy_at (hc_data c) n data, hc_num := n + len\<rparr>
       else hash_blocks block c data)"

definition HASH_TRANSFORM :: "block_fun \<Rightarrow> 'a hash_ctx_scheme \<Rightarrow> u8 list \<Rightarrow> 'a hash_ctx_scheme" where
  "HASH_TRANSFORM block c data = c\<lparr>hc_h := block (hc_h c) data 1\<rparr>"

text \<open>\<open>HASH_FINAL\<close> up to \<open>HASH_MAKE_STRING\<close>, which each digest defines.\<close>

definition hash_finish :: "block_fun \<Rightarrow> bool \<Rightarrow> 'a hash_ctx_scheme \<Rightarrow> 'a hash_ctx_scheme" where
  "hash_finish block big c =
    (let n = hc_num c;
         c = c\<lparr>hc_data := (hc_data c)[n := 0x80]\<rparr>;
         n = n + 1;
         (c, n) =
           (if HASH_CBLOCK - 8 < n then
              let c = c\<lparr>hc_data := memcpy_at (hc_data c) n (replicate (HASH_CBLOCK - n) 0)\<rparr> in
              (c\<lparr>hc_h := block (hc_h c) (hc_data c) 1\<rparr>, 0)
            else (c, n));
         c = c\<lparr>hc_data := memcpy_at (hc_data c) n (replicate (HASH_CBLOCK - 8 - n) 0)\<rparr>;
         p = (if big then HOST_l2c big (hc_Nh c) @ HOST_l2c big (hc_Nl c)
              else HOST_l2c big (hc_Nl c) @ HOST_l2c big (hc_Nh c));
         c = c\<lparr>hc_data := memcpy_at (hc_data c) (HASH_CBLOCK - 8) p\<rparr>;
         c = c\<lparr>hc_h := block (hc_h c) (hc_data c) 1\<rparr> in
     c\<lparr>hc_num := 0, hc_data := replicate HASH_CBLOCK 0\<rparr>)"

definition HASH_FINAL ::
  "('a hash_ctx_scheme \<Rightarrow> u8 list option) \<Rightarrow> block_fun \<Rightarrow> bool \<Rightarrow> 'a hash_ctx_scheme \<Rightarrow>
   u8 list option \<times> 'a hash_ctx_scheme" where
  "HASH_FINAL make_string block big c = (let c = hash_finish block big c in (make_string c, c))"

section \<open>Block functions\<close>

locale block_function =
  fixes block :: "'s \<Rightarrow> u8 list \<Rightarrow> nat \<Rightarrow> 's" and cblock :: nat
  assumes cblock_pos: "0 < cblock"
    and block_append: "length a = cblock * m \<Longrightarrow> 0 < m \<Longrightarrow> 0 < n \<Longrightarrow> block s (a @ b) (m + n) = block (block s a m) b n"
    and block_local: "length a = cblock * n \<Longrightarrow> 0 < n \<Longrightarrow> block s (a @ b) n = block s a n"
begin

text \<open>The state after all whole blocks of a message.\<close>

definition absorb :: "'s \<Rightarrow> u8 list \<Rightarrow> 's" where
  "absorb s m = (if length m < cblock then s else block s m (length m div cblock))"

lemma absorb_short: "length m < cblock \<Longrightarrow> absorb s m = s"
  by (simp add: absorb_def)

lemma block_absorb:
  assumes "length a = cblock * n" "0 < n"
  shows "block s (a @ b) n = absorb s a"
proof -
  have "cblock \<le> length a" "length a div cblock = n" using assms cblock_pos by auto
  then show ?thesis using block_local [OF assms] by (simp add: absorb_def)
qed

lemma absorb_append:
  assumes "length a = cblock * m"
  shows "absorb s (a @ b) = absorb (absorb s a) b"
proof (cases "m = 0 \<or> length b < cblock")
  case True
  then show ?thesis
  proof
    assume "m = 0" then show ?thesis using assms cblock_pos by (simp add: absorb_def)
  next
    assume b: "length b < cblock"
    then have d: "length (a @ b) div cblock = m" using assms cblock_pos by (simp add: div_add1_eq)
    show ?thesis
    proof (cases "m = 0")
      case True
      then show ?thesis using assms absorb_short [of "[]"] cblock_pos by simp
    next
      case False
      then have "\<not> length (a @ b) < cblock" using assms by (cases m) auto
      with False d show ?thesis
        using b assms block_absorb [OF assms, of s b] by (simp add: absorb_def [of _ "a @ b"] absorb_short)
    qed
  qed
next
  case False
  let ?n = "length b div cblock"
  have n: "0 < ?n" "length (a @ b) div cblock = m + ?n" "\<not> length (a @ b) < cblock" "0 < m"
    using False assms cblock_pos by (auto simp: div_greater_zero_iff)
  then show ?thesis
    using block_append [OF assms n(4,1), of s b] block_absorb [OF assms n(4), of s "[]"] False by (simp add: absorb_def)
qed

lemma absorb_tail:
  assumes "length a = cblock * m" "length b < cblock"
  shows "absorb s (a @ b) = absorb s a"
  using absorb_append [OF assms(1), of s b] absorb_short [OF assms(2)] by simp

text \<open>A buffer that holds the last, incomplete block of a message.\<close>

definition buffered :: "'s \<Rightarrow> u8 list \<Rightarrow> 's \<Rightarrow> nat \<Rightarrow> u8 list \<Rightarrow> bool" where
  "buffered s0 m h num data \<longleftrightarrow> (\<exists>a b k. m = a @ b \<and> length a = cblock * k \<and> length b < cblock \<and>
     h = absorb s0 a \<and> num = length b \<and> take num data = b \<and> length data = cblock)"

lemma bufferedI:
  "length a = cblock * k \<Longrightarrow> length b < cblock \<Longrightarrow> h = absorb s0 a \<Longrightarrow> num = length b \<Longrightarrow> take num data = b \<Longrightarrow>
   length data = cblock \<Longrightarrow> buffered s0 (a @ b) h num data"
  by (auto simp: buffered_def)

lemma bufferedE:
  assumes "buffered s0 m h num data"
  obtains a b k where "m = a @ b" "length a = cblock * k" "length b < cblock" "h = absorb s0 a"
    "num = length b" "take num data = b" "length data = cblock"
  using assms unfolding buffered_def by blast

text \<open>Whole blocks directly from the input.\<close>

lemma split_blocks:
  fixes bs :: "u8 list"
  obtains k where "k = length bs div cblock" "length (take (k * cblock) bs) = cblock * k"
    "length (drop (k * cblock) bs) < cblock" "bs = take (k * cblock) bs @ drop (k * cblock) bs"
proof
  have "cblock * (length bs div cblock) \<le> length bs" by simp
  then show "length (take (length bs div cblock * cblock) bs) = cblock * (length bs div cblock)"
    by (simp add: mult.commute)
  show "length (drop (length bs div cblock * cblock) bs) < cblock"
    using cblock_pos by (simp add: minus_div_mult_eq_mod)
qed simp_all

end


section \<open>The collector\<close>

text \<open>The number of bits of a message in the two counters, and the padded message.\<close>

definition md_pad :: "bool \<Rightarrow> u8 list \<Rightarrow> u8 list" where
  "md_pad big m = m @ 0x80 # replicate ((119 - length m mod 64) mod 64) 0 @
     (if big then be_bytes 8 (8 * length m) else le_bytes 8 (8 * length m))"

lemma pad_dvd: "64 dvd 64 * q + r + 9 + (119 - r) mod (64 :: nat)" if "r < 64"
proof (cases "r \<le> 55")
  case True
  then have "(119 - r) mod 64 = 55 - r" by (simp add: le_mod_geq)
  with True have "64 * q + r + 9 + (119 - r) mod 64 = 64 * (q + 1)" by simp
  then show ?thesis by (simp only: dvd_triv_left)
next
  case False
  with that have "64 * q + r + 9 + (119 - r) mod 64 = 64 * (q + 2)" by simp
  then show ?thesis by (simp only: dvd_triv_left)
qed

lemma length_md_pad: "64 dvd length (md_pad big m)"
proof -
  have "length (md_pad big m) = 64 * (length m div 64) + length m mod 64 + 9 + (119 - length m mod 64) mod 64"
    unfolding mult_div_mod_eq by (simp add: md_pad_def)
  then show ?thesis using pad_dvd [of "length m mod 64" "length m div 64"] by (simp del: mult_div_mod_eq)
qed

lemma sum_wraps:
  fixes M :: nat
  assumes "x < M" "y < M"
  shows "(x + y) mod M < x \<longleftrightarrow> M \<le> x + y"
proof (cases "M \<le> x + y")
  case True
  then have "(x + y) mod M = x + y - M" using assms by (simp add: le_mod_geq)
  with True assms show ?thesis by linarith
qed simp

lemma length_memcpy_at [simp]: "n + length src \<le> length dst \<Longrightarrow> length (memcpy_at dst n src) = length dst"
  by (simp add: memcpy_at_def)

lemma take_memcpy_at: "n + length src \<le> length dst \<Longrightarrow> take (n + length src) (memcpy_at dst n src) = take n dst @ src"
  by (simp add: memcpy_at_def)

lemma memcpy_at_full: "n + length src = length dst \<Longrightarrow> memcpy_at dst n src = take n dst @ src"
  by (simp add: memcpy_at_def)

lemma counter_step_gen:
  fixes Nl Nh :: "'a :: len word" and a n :: nat
  assumes w: "LENGTH('a) = w + 3" and "Nl = of_nat (8 * a)" "Nh = of_nat (8 * a div 2 ^ (w + 3))"
  defines "l \<equiv> Nl + push_bit 3 (of_nat n)"
  shows "l = of_nat (8 * (a + n))"
    and "(if l < Nl then Nh + 1 else Nh) + of_nat (n div 2 ^ w) = (of_nat (8 * (a + n) div 2 ^ (w + 3)) :: 'a word)"
proof -
  define M :: nat where "M = 2 ^ (w + 3)"
  have p: "push_bit 3 (of_nat n :: 'a word) = of_nat (8 * n)" by (simp add: push_bit_eq_mult)
  show l: "l = of_nat (8 * (a + n))" unfolding l_def p assms(2) by (simp add: distrib_left)
  have u: "unat Nl = 8 * a mod M" "unat l = (8 * a mod M + 8 * n mod M) mod M"
    unfolding l assms(2) unat_of_nat w M_def by (simp_all add: mod_simps distrib_left)
  have d: "n div 2 ^ w = 8 * n div M" by (simp add: M_def power_add)
  have pos: "0 < M" by (simp add: M_def)
  have c: "l < Nl \<longleftrightarrow> M \<le> 8 * a mod M + 8 * n mod M"
    unfolding word_less_nat_alt u by (rule sum_wraps) (simp_all add: pos)
  have "(8 * a + 8 * n) div M = 8 * a div M + 8 * n div M + (8 * a mod M + 8 * n mod M) div M"
    by (rule div_add1_eq)
  moreover have "(8 * a mod M + 8 * n mod M) div M = of_bool (l < Nl)"
  proof -
    have b: "8 * a mod M + 8 * n mod M < 2 * M" using pos by (simp add: mult_2 add_less_mono)
    show ?thesis unfolding c using b by (cases "M \<le> 8 * a mod M + 8 * n mod M")
        (simp_all add: div_nat_eqI)
  qed
  ultimately have e: "8 * (a + n) div M = 8 * a div M + n div 2 ^ w + of_bool (l < Nl)"
    unfolding d by (simp add: distrib_left)
  show "(if l < Nl then Nh + 1 else Nh) + of_nat (n div 2 ^ w) = (of_nat (8 * (a + n) div 2 ^ (w + 3)) :: 'a word)"
    unfolding e [unfolded M_def] assms(3) by simp
qed

lemma counter_step:
  fixes Nl Nh :: u32 and a n :: nat
  assumes "Nl = of_nat (8 * a)" "Nh = of_nat (8 * a div 2 ^ 32)"
  defines "l \<equiv> Nl + push_bit 3 (of_nat n)"
  shows "l = of_nat (8 * (a + n))"
    and "(if l < Nl then Nh + 1 else Nh) + of_nat (n div 2 ^ 29) = (of_nat (8 * (a + n) div 2 ^ 32) :: u32)"
  using counter_step_gen [where 'a = 32 and w = 29, of Nl a Nh n] assms(1,2) by (simp_all add: l_def)

locale md32 = block_function block 64 for block :: block_fun
begin

definition collects :: "u32 list \<Rightarrow> u8 list \<Rightarrow> 'a hash_ctx_scheme \<Rightarrow> bool" where
  "collects s0 m c \<longleftrightarrow> buffered s0 m (hc_h c) (hc_num c) (hc_data c) \<and>
     hc_Nl c = of_nat (8 * length m) \<and> hc_Nh c = of_nat (8 * length m div 2 ^ 32)"

lemma collects_init:
  "hc_num c = 0 \<Longrightarrow> length (hc_data c) = 64 \<Longrightarrow> hc_Nl c = 0 \<Longrightarrow> hc_Nh c = 0 \<Longrightarrow> collects (hc_h c) [] c"
  using bufferedI [of "[]" 0 "[]"] by (simp add: collects_def absorb_short)

lemma hash_blocks_buffered:
  fixes c :: "'a hash_ctx_scheme" and bs :: "u8 list"
  assumes a: "length a = 64 * k" "hc_h c = absorb s0 a" "hc_num c = 0" "length (hc_data c) = 64"
  defines "c' \<equiv> hash_blocks block c bs"
  shows "buffered s0 (a @ bs) (hc_h c') (hc_num c') (hc_data c')" "hc_Nl c' = hc_Nl c" "hc_Nh c' = hc_Nh c"
    "hash_ctx.more c' = hash_ctx.more c"
proof -
  obtain n where n: "n = length bs div 64" "length (take (n * 64) bs) = 64 * n" "length (drop (n * 64) bs) < 64"
    "bs = take (n * 64) bs @ drop (n * 64) bs" by (rule split_blocks)
  have h: "(if 0 < n then block (absorb s0 a) bs n else absorb s0 a) = absorb s0 (a @ take (n * 64) bs)"
  proof (cases "n = 0")
    case False
    then have "block (absorb s0 a) bs n = absorb (absorb s0 a) (take (n * 64) bs)"
      using block_absorb [OF n(2), of "absorb s0 a" "drop (n * 64) bs"] by simp
    with False show ?thesis using absorb_append [OF a(1), of s0 "take (n * 64) bs"] by simp
  qed simp
  have "buffered s0 ((a @ take (n * 64) bs) @ drop (n * 64) bs) (hc_h c') (hc_num c') (hc_data c')"
    by (rule bufferedI [where k = "k + n"])
      (use n(2,3) a h in \<open>auto simp: c'_def hash_blocks_def Let_def n(1) [symmetric] memcpy_at_def\<close>)
  then show "buffered s0 (a @ bs) (hc_h c') (hc_num c') (hc_data c')" by simp
qed (simp_all add: c'_def hash_blocks_def Let_def)

lemma HASH_UPDATE_collects:
  assumes "collects s0 m c"
  shows "collects s0 (m @ bs) (HASH_UPDATE block c bs)"
    "hash_ctx.more (HASH_UPDATE block c bs) = hash_ctx.more c"
proof -
  let ?l = "hc_Nl c + push_bit 3 (of_nat (length bs))"
  define c1 where "c1 = c\<lparr>hc_Nh := (if ?l < hc_Nl c then hc_Nh c + 1 else hc_Nh c) + of_nat (length bs div 2 ^ 29), hc_Nl := ?l\<rparr>"
  have cnt: "hc_Nl c1 = of_nat (8 * length (m @ bs))" "hc_Nh c1 = of_nat (8 * length (m @ bs) div 2 ^ 32)"
    using counter_step [of "hc_Nl c" "length m" "hc_Nh c" "length bs"] assms by (simp_all add: c1_def collects_def)
  have "buffered s0 m (hc_h c1) (hc_num c1) (hc_data c1)" using assms by (simp add: collects_def c1_def)
  then obtain a b k where ab: "m = a @ b" "length a = 64 * k" "length b < 64" "hc_h c1 = absorb s0 a"
      "hc_num c1 = length b" "take (length b) (hc_data c1) = b" "length (hc_data c1) = 64"
    by (rule bufferedE) simp
  have more: "hash_ctx.more c1 = hash_ctx.more c" by (simp add: c1_def)
  consider "bs = []" | "bs \<noteq> []" "b = []" | "bs \<noteq> []" "b \<noteq> []" "length bs + length b < 64"
    | "bs \<noteq> []" "b \<noteq> []" "64 \<le> length bs + length b" by linarith
  then have "collects s0 (m @ bs) (HASH_UPDATE block c bs) \<and> hash_ctx.more (HASH_UPDATE block c bs) = hash_ctx.more c"
  proof cases
    case 1
    then show ?thesis using assms by (simp add: HASH_UPDATE_def)
  next
    case 2
    then have "HASH_UPDATE block c bs = hash_blocks block c1 bs" using ab by (simp add: HASH_UPDATE_def c1_def Let_def)
    then show ?thesis using hash_blocks_buffered [OF ab(2,4), of bs] 2 ab cnt more by (simp add: collects_def)
  next
    case 3
    then have e: "HASH_UPDATE block c bs = c1\<lparr>hc_data := memcpy_at (hc_data c1) (length b) bs, hc_num := length b + length bs\<rparr>"
      using ab by (simp add: HASH_UPDATE_def c1_def Let_def)
    have "buffered s0 (a @ (b @ bs)) (hc_h c1) (length b + length bs) (memcpy_at (hc_data c1) (length b) bs)"
      by (rule bufferedI [OF ab(2)]) (use 3 ab in \<open>auto simp: take_memcpy_at\<close>)
    then show ?thesis using e ab cnt more by (simp add: collects_def)
  next
    case 4
    let ?n = "64 - length b" and ?z = "replicate 64 (0 :: u8)"
    let ?t = "take ?n bs"
    let ?c2 = "c1\<lparr>hc_h := block (hc_h c1) (memcpy_at (hc_data c1) (length b) ?t) 1, hc_num := 0, hc_data := ?z\<rparr>"
    have t: "memcpy_at (hc_data c1) (length b) ?t = b @ ?t" "length (b @ ?t) = 64 * 1"
      using 4 ab by (simp_all add: memcpy_at_full)
    have e: "HASH_UPDATE block c bs = hash_blocks block ?c2 (drop ?n bs)"
      using 4 ab by (simp add: HASH_UPDATE_def c1_def Let_def)
    have h: "hc_h ?c2 = absorb s0 (a @ b @ ?t)"
      using block_absorb [OF t(2), of "hc_h c1" "[]"] t(1) ab absorb_append [OF ab(2), of s0 "b @ ?t"] by simp
    have "length (a @ b @ ?t) = 64 * (k + 1)" using ab(2) t(2) by simp
    note upd = hash_blocks_buffered [OF this h, of "drop ?n bs"]
    have m: "(a @ b @ ?t) @ drop ?n bs = m @ bs" using ab by simp
    show ?thesis unfolding e using upd [unfolded m] cnt more by (simp add: collects_def)
  qed
  then show "collects s0 (m @ bs) (HASH_UPDATE block c bs)" "hash_ctx.more (HASH_UPDATE block c bs) = hash_ctx.more c"
    by simp_all
qed

lemma HASH_UPDATE_chunks:
  fixes c :: "'a hash_ctx_scheme" and bss :: "u8 list list"
  assumes "collects s0 m c"
  defines "c' \<equiv> fold (\<lambda>bs c. HASH_UPDATE block c bs) bss c"
  shows "collects s0 (m @ concat bss) c' \<and> hash_ctx.more c' = hash_ctx.more c"
  unfolding c'_def using assms(1)
proof (induction bss arbitrary: m c)
  case (Cons bs bss)
  then show ?case using Cons.IH [OF HASH_UPDATE_collects(1)] HASH_UPDATE_collects [of s0 m c bs] by simp
qed simp

end


section \<open>Padding\<close>

lemma byte_of_nat: "(ucast (drop_bit k (of_nat n :: u32) AND 0xFF) :: u8) = of_nat (n div 2 ^ k)" if "k \<le> 24"
proof -
  have m: "(0xFF :: u32) = mask 8" by (simp add: mask_eq_exp_minus_1)
  show ?thesis
    unfolding m drop_bit_eq_div [symmetric] using that
    by (intro bit_word_eqI) (auto simp: bit_simps)
qed

lemma HOST_l2c_of_nat: "HOST_l2c big (of_nat n) = (if big then be_bytes 4 n else le_bytes 4 n)"
proof -
  have "HOST_l2c big (of_nat n) = (if big then [of_nat (n div 2 ^ 24), of_nat (n div 2 ^ 16), of_nat (n div 2 ^ 8), of_nat n]
    else [of_nat n, of_nat (n div 2 ^ 8), of_nat (n div 2 ^ 16), of_nat (n div 2 ^ 24)])"
    using byte_of_nat [of 24 n] byte_of_nat [of 16 n] byte_of_nat [of 8 n] byte_of_nat [of 0 n]
    by (simp add: HOST_l2c_def)
  also have "\<dots> = (if big then be_bytes 4 n else le_bytes 4 n)"
  proof -
    have four: "4 = Suc (Suc (Suc (Suc 0)))" by simp
    show ?thesis unfolding four be_bytes.simps le_bytes_def by (simp add: div_mult2_eq [symmetric])
  qed
  finally show ?thesis .
qed

lemma HOST_l2c_unat: "HOST_l2c big w = (if big then be_bytes 4 (unat w) else le_bytes 4 (unat w))"
  using HOST_l2c_of_nat [of big "unat w"] by simp

lemma be_bytes_append: "be_bytes (j + k) n = be_bytes j (n div 256 ^ k) @ be_bytes k n"
  by (induction k arbitrary: n) (simp_all add: div_mult2_eq)

lemma le_bytes_append: "le_bytes (j + k) n = le_bytes j n @ le_bytes k (n div 256 ^ j)"
proof -
  have "[0..<j + k] = [0..<j] @ map (\<lambda>i. i + j) [0..<k]"
    unfolding map_add_upt add.commute [of k j] by (rule upt_add_eq_append) simp
  moreover have "n div 256 ^ (i + j) = n div 256 ^ j div 256 ^ i" for i
    unfolding add.commute [of i j] power_add by (rule div_mult2_eq)
  ultimately show ?thesis by (simp add: le_bytes_def)
qed

lemma HOST_l2c_length:
  "HOST_l2c True (of_nat (n div 2 ^ 32)) @ HOST_l2c True (of_nat n) = be_bytes 8 n"
  "HOST_l2c False (of_nat n) @ HOST_l2c False (of_nat (n div 2 ^ 32)) = le_bytes 8 n"
  using be_bytes_append [of 4 4 n] le_bytes_append [of 4 4 n] by (simp_all add: HOST_l2c_of_nat)

lemma list_update_memcpy: "n < length xs \<Longrightarrow> xs[n := x] = memcpy_at xs n [x]"
  by (simp add: memcpy_at_def upd_conv_take_nth_drop)

lemma memcpy_at_at: "n + length a \<le> length dst \<Longrightarrow> memcpy_at (memcpy_at dst n a) (n + length a) b = memcpy_at dst n (a @ b)"
  by (simp add: memcpy_at_def ac_simps)

context md32 begin

lemma absorb_one: "length a = 64 \<Longrightarrow> absorb s a = block s a 1"
  using block_absorb [of a 1 s "[]"] by simp

lemma hash_finish_collects:
  fixes c :: "'a hash_ctx_scheme" and big :: bool
  assumes "collects s0 m c"
  defines "c' \<equiv> hash_finish block big c"
  shows "hc_h c' = absorb s0 (md_pad big m)" "hc_num c' = 0" "hc_data c' = replicate 64 0"
    "hash_ctx.more c' = hash_ctx.more c"
proof -
  from assms have "buffered s0 m (hc_h c) (hc_num c) (hc_data c)" by (simp add: collects_def)
  then obtain a b k where ab: "m = a @ b" "length a = 64 * k" "length b < 64" "hc_h c = absorb s0 a"
      "hc_num c = length b" "take (length b) (hc_data c) = b" "length (hc_data c) = 64"
    by (rule bufferedE) simp
  let ?len = "if big then be_bytes 8 (8 * length m) else le_bytes 8 (8 * length m)"
  have p: "(if big then HOST_l2c big (hc_Nh c) @ HOST_l2c big (hc_Nl c) else HOST_l2c big (hc_Nl c) @ HOST_l2c big (hc_Nh c)) = ?len"
    using assms(1) HOST_l2c_length [of "8 * length m"] by (cases big) (simp_all add: collects_def)
  have d1: "(hc_data c)[length b := 0x80] = memcpy_at (hc_data c) (length b) [0x80]"
    using ab by (simp add: list_update_memcpy)
  have r: "length m mod 64 = length b" using ab by simp
  show "hc_h c' = absorb s0 (md_pad big m)"
  proof (cases "length b \<le> 55")
    case True
    let ?z = "replicate (55 - length b) (0 :: u8)"
    have k: "(119 - length b) mod 64 = 55 - length b" using True by (simp add: le_mod_geq)
    have "hc_h c' = block (absorb s0 a) (memcpy_at (memcpy_at (memcpy_at (hc_data c) (length b) [0x80]) (length b + 1) ?z) 56 ?len) 1"
      using True ab(3-7) p by (cases big) (simp_all add: c'_def hash_finish_def Let_def d1)
    also have "memcpy_at (memcpy_at (memcpy_at (hc_data c) (length b) [0x80]) (length b + 1) ?z) 56 ?len = b @ 0x80 # ?z @ ?len"
      using memcpy_at_at [of "length b" "[0x80]" "hc_data c" ?z] memcpy_at_at [of "length b" "0x80 # ?z" "hc_data c" ?len]
        memcpy_at_full [of "length b" "0x80 # ?z @ ?len" "hc_data c"] True ab by (simp add: le_bytes_def)
    also have "block (absorb s0 a) (b @ 0x80 # ?z @ ?len) 1 = absorb s0 (a @ b @ 0x80 # ?z @ ?len)"
      using absorb_one [of "b @ 0x80 # ?z @ ?len" "absorb s0 a"] absorb_append [OF ab(2)] True by (simp add: le_bytes_def)
    finally show ?thesis using ab(1) r k by (simp add: md_pad_def)
  next
    case False
    let ?z = "replicate (63 - length b) (0 :: u8)"
    let ?d = "b @ 0x80 # ?z"
    have k: "(119 - length b) mod 64 = 119 - length b" using False ab(3) by simp
    have z: "replicate (119 - length b) (0 :: u8) = ?z @ replicate 56 0" using ab(3) by (simp flip: replicate_add)
    have d: "memcpy_at (memcpy_at (hc_data c) (length b) [0x80]) (length b + 1) ?z = ?d" "length ?d = 64 * 1"
      using memcpy_at_at [of "length b" "[0x80]" "hc_data c" ?z] memcpy_at_full [of "length b" "0x80 # ?z" "hc_data c"]
        False ab by simp_all
    have "hc_h c' = block (block (absorb s0 a) ?d 1) (memcpy_at (memcpy_at ?d 0 (replicate 56 0)) 56 ?len) 1"
      using False ab(3-7) p d(1) by (cases big) (simp_all add: c'_def hash_finish_def Let_def d1)
    also have "memcpy_at (memcpy_at ?d 0 (replicate 56 0)) 56 ?len = replicate 56 0 @ ?len"
      using memcpy_at_at [of 0 "replicate 56 0" ?d ?len] memcpy_at_full [of 0 "replicate 56 0 @ ?len" ?d] d(2)
      by (simp add: le_bytes_def)
    also have "block (block (absorb s0 a) ?d 1) (replicate 56 0 @ ?len) 1 = absorb s0 (a @ ?d @ replicate 56 0 @ ?len)"
      using absorb_one [of ?d "absorb s0 a"] absorb_one [of "replicate 56 0 @ ?len"] d(2) absorb_append [OF ab(2)]
        absorb_append [OF d(2)] by (simp add: le_bytes_def)
    finally show ?thesis using ab(1) r k by (simp add: md_pad_def z)
  qed
qed (simp_all add: c'_def hash_finish_def Let_def)

end


section \<open>Digests as loops over blocks\<close>

text \<open>
  The loop of a block function over \<open>num\<close> blocks.
\<close>

primrec block_loop :: "('s \<Rightarrow> u8 list \<Rightarrow> 's) \<Rightarrow> nat \<Rightarrow> 's \<Rightarrow> u8 list \<Rightarrow> nat \<Rightarrow> 's" where
  "block_loop one cb s data 0 = s"
| "block_loop one cb s data (Suc num) = block_loop one cb (one s data) (drop cb data) num"

text \<open>What a digest is by its definition: the fold of the compression function over the blocks.\<close>

fun fold_blocks :: "nat \<Rightarrow> ('s \<Rightarrow> u8 list \<Rightarrow> 's) \<Rightarrow> 's \<Rightarrow> u8 list \<Rightarrow> 's" where
  "fold_blocks cb f s bs = (if cb = 0 \<or> length bs < cb then s else fold_blocks cb f (f s (take cb bs)) (drop cb bs))"

declare fold_blocks.simps [simp del]

locale compression =
  fixes one :: "'s \<Rightarrow> u8 list \<Rightarrow> 's" and cb :: nat
  assumes cb_pos: "0 < cb" and one_local: "length a = cb \<Longrightarrow> one s (a @ b) = one s a"
begin

lemma block_loop_append:
  "length a = cb * m \<Longrightarrow> block_loop one cb s (a @ b) (m + n) = block_loop one cb (block_loop one cb s a m) b n"
proof (induction m arbitrary: s a)
  case (Suc m)
  then have l: "length (take cb a) = cb" "length (drop cb a) = cb * m" "cb \<le> length a" by simp_all
  have "one s (take cb a @ (drop cb a @ b)) = one s (take cb a @ drop cb a)" unfolding one_local [OF l(1)] ..
  then have o: "one s (a @ b) = one s a" unfolding append_assoc [symmetric] append_take_drop_id .
  show ?case using Suc.IH [OF l(2), of "one s a"] by (simp add: o l(3))
qed simp

lemma block_loop_local: "length a = cb * n \<Longrightarrow> block_loop one cb s (a @ b) n = block_loop one cb s a n"
  using block_loop_append [of a n s b 0] by simp

end

sublocale compression \<subseteq> block_function "block_loop one cb" cb
  by unfold_locales (use cb_pos block_loop_append block_loop_local in auto)

context compression begin

lemma absorb_fold: "cb dvd length m \<Longrightarrow> absorb s m = fold_blocks cb one s m"
proof (induction "length m" arbitrary: m s rule: less_induct)
  case less
  show ?case
  proof (cases "length m < cb")
    case True
    then show ?thesis by (simp add: absorb_short fold_blocks.simps [of cb one s m])
  next
    case False
    then have l: "length (take cb m) = cb * 1" "length (drop cb m) < length m" using cb_pos by auto
    have a: "absorb s (take cb m) = one s (take cb m)"
      using block_absorb [OF l(1), of s "[]"] by simp
    have "cb dvd length (drop cb m)" using less.prems False by simp
    from less.hyps [OF l(2) this] show ?thesis
      using absorb_append [OF l(1), of s "drop cb m"] False cb_pos a by (simp add: fold_blocks.simps [of cb one s m])
  qed
qed

end

lemma fold_blocks_cong:
  assumes "\<And>s b. P s \<Longrightarrow> length b = cb \<Longrightarrow> f s b = g s b \<and> P (f s b)" "P s"
  shows "fold_blocks cb f s m = fold_blocks cb g s m" and "P (fold_blocks cb f s m)"
proof -
  have "fold_blocks cb f s m = fold_blocks cb g s m \<and> P (fold_blocks cb f s m)"
    using assms
  proof (induction cb f s m rule: fold_blocks.induct)
    case (1 cb f s m)
    show ?case
    proof (cases "cb = 0 \<or> length m < cb")
      case False
      then have "length (take cb m) = cb" by simp
      from 1(2) [OF 1(3) this] have "f s (take cb m) = g s (take cb m)" "P (f s (take cb m))" by blast+
      note p = this(2)
      have "fold_blocks cb f (f s (take cb m)) (drop cb m) = fold_blocks cb g (f s (take cb m)) (drop cb m) \<and>
          P (fold_blocks cb f (f s (take cb m)) (drop cb m))"
        by (rule 1(1) [OF False]) (erule (1) 1(2), rule p)
      moreover note \<open>f s (take cb m) = g s (take cb m)\<close>
      ultimately show ?thesis
        unfolding fold_blocks.simps [of cb f s m] fold_blocks.simps [of cb g s m] if_not_P [OF False] by auto
    qed (use 1(3) in \<open>auto simp: fold_blocks.simps [of cb f s m] fold_blocks.simps [of cb g s m]\<close>)
  qed
  then show "fold_blocks cb f s m = fold_blocks cb g s m" "P (fold_blocks cb f s m)" by blast+
qed

text \<open>The words of a block.\<close>

definition word_at :: "bool \<Rightarrow> u8 list \<Rightarrow> nat \<Rightarrow> u32" where
  "word_at big bs t = of_nat ((if big then be_value else le_value) (take 4 (drop (4 * t) bs)))"

lemma length_4E:
  assumes "length xs = 4"
  obtains a b c d where "xs = [a, b, c, d]"
  using assms by (auto simp: length_Suc_conv numeral_eq_Suc)

lemma shift_or_byte: "push_bit 8 x OR ucast d = x * 256 + of_nat (unat d)" for x :: u32 and d :: u8
proof -
  have "push_bit 8 x AND ucast d = 0" by (rule bit_word_eqI) (auto simp: bit_simps dest: bit_imp_le_length)
  then have "push_bit 8 x OR ucast d = push_bit 8 x + ucast d" by (simp add: disjunctive_add_eq_or)
  then show ?thesis by (simp add: push_bit_eq_mult)
qed

lemma HOST_c2l_value:
  "HOST_c2l True [a, b, c, d] = of_nat (be_value [a, b, c, d])" "HOST_c2l False [a, b, c, d] = of_nat (le_value [a, b, c, d])"
proof -
  have "HOST_c2l True [a, b, c, d] = push_bit 8 (push_bit 8 (push_bit 8 (ucast a) OR ucast b) OR ucast c) OR ucast d"
    by (simp add: HOST_c2l_def push_bit_or or.assoc)
  then show "HOST_c2l True [a, b, c, d] = of_nat (be_value [a, b, c, d])"
    by (simp add: shift_or_byte be_value_def)
  have "HOST_c2l False [a, b, c, d] = push_bit 8 (push_bit 8 (push_bit 8 (ucast d) OR ucast c) OR ucast b) OR ucast a"
    by (simp add: HOST_c2l_def push_bit_or or.assoc or.commute or.left_commute)
  then show "HOST_c2l False [a, b, c, d] = of_nat (le_value [a, b, c, d])"
    by (simp add: shift_or_byte algebra_simps)
qed

lemma HOST_c2l_word:
  assumes "4 * t + 4 \<le> length bs"
  shows "HOST_c2l big (drop (4 * t) bs) = word_at big bs t"
proof -
  have l: "length (take 4 (drop (4 * t) bs)) = 4" using assms by simp
  have "HOST_c2l big (drop (4 * t) bs) = HOST_c2l big (take 4 (drop (4 * t) bs))" by (simp add: HOST_c2l_def)
  also have "\<dots> = word_at big bs t"
    unfolding word_at_def by (rule length_4E [OF l]) (simp add: HOST_c2l_value)
  finally show ?thesis .
qed

lemma word_at_append: "4 * t + 4 \<le> length a \<Longrightarrow> word_at big (a @ b) t = word_at big a t"
  by (simp add: word_at_def)

section \<open>Digests of the collector\<close>

text \<open>
  A digest of the collector: \<open>one\<close> is the compression function and \<open>block\<close> its loop.
\<close>

locale md32_digest = compression one 64 for one :: "u32 list \<Rightarrow> u8 list \<Rightarrow> u32 list" +
  fixes block :: block_fun
  assumes block_loop: "0 < n \<Longrightarrow> block s data n = block_loop one 64 s data n"

sublocale md32_digest \<subseteq> md: md32 block
  by unfold_locales (auto simp: block_loop block_loop_append block_loop_local)

context md32_digest begin

lemma md_absorb_fold: "64 dvd length m \<Longrightarrow> md.absorb s m = fold_blocks 64 one s m"
proof -
  have "md.absorb s m = absorb s m"
    unfolding md.absorb_def absorb_def using block_loop [of "length m div 64" s m] by (simp add: div_greater_zero_iff)
  then show "64 dvd length m \<Longrightarrow> md.absorb s m = fold_blocks 64 one s m" by (simp add: absorb_fold)
qed

lemma digest_chunks:
  fixes c :: "'a hash_ctx_scheme"
  assumes "hc_num c = 0" "length (hc_data c) = 64" "hc_Nl c = 0" "hc_Nh c = 0"
  obtains c' where
    "HASH_FINAL mk block big (fold (\<lambda>bs c. HASH_UPDATE block c bs) bss c) = (mk c', c')"
    "hc_h c' = fold_blocks 64 one (hc_h c) (md_pad big (concat bss))" "hash_ctx.more c' = hash_ctx.more c"
    "hc_num c' = 0" "hc_data c' = replicate 64 0"
proof -
  let ?c = "fold (\<lambda>bs c. HASH_UPDATE block c bs) bss c"
  have c: "md.collects (hc_h c) (concat bss) ?c" "hash_ctx.more ?c = hash_ctx.more c"
    using md.HASH_UPDATE_chunks [OF md.collects_init [OF assms], of bss] by simp_all
  show ?thesis
    using that [of "hash_finish block big ?c"] md.hash_finish_collects [OF c(1), of big] c(2)
      md_absorb_fold [OF length_md_pad, of "hc_h c" big "concat bss"]
    by (simp add: HASH_FINAL_def Let_def)
qed

end

text \<open>A digest by its definition: \<open>k\<close> words of the last state.\<close>

definition md_digest :: "bool \<Rightarrow> nat \<Rightarrow> (u32 list \<Rightarrow> u8 list \<Rightarrow> u32 list) \<Rightarrow> u32 list \<Rightarrow> u8 list \<Rightarrow> u8 list" where
  "md_digest big k compress H0 m = concat (map (\<lambda>w. if big then be_bytes 4 (unat w) else le_bytes 4 (unat w))
     (take k (fold_blocks 64 compress H0 (md_pad big m))))"

locale md32_spec = md32_digest +
  fixes compress :: "u32 list \<Rightarrow> u8 list \<Rightarrow> u32 list" and words :: nat
  assumes one_comp: "length b = 64 \<Longrightarrow> one s b = compress s b" and length_one: "length (one s b) = words"
begin

lemma one_comp_blocks:
  assumes "length H = words"
  shows "fold_blocks 64 one H m = fold_blocks 64 compress H m" "length (fold_blocks 64 one H m) = words"
  using fold_blocks_cong [of "\<lambda>H. length H = words" 64 one compress H m] one_comp length_one assms by blast+

text \<open>From an initial context through any chunks to the digest.\<close>

lemma digest_correct:
  fixes c :: "'a hash_ctx_scheme"
  assumes "hc_num c = 0" "length (hc_data c) = 64" "hc_Nl c = 0" "hc_Nh c = 0" "length (hc_h c) = words"
    and mk: "\<And>c'. length (hc_h c') = words \<Longrightarrow> hash_ctx.more c' = hash_ctx.more c \<Longrightarrow>
      mk c' = Some (concat (map (HOST_l2c big) (take k (hc_h c'))))"
  shows "fst (HASH_FINAL mk block big (fold (\<lambda>bs c. HASH_UPDATE block c bs) bss c)) =
    Some (md_digest big k compress (hc_h c) (concat bss))"
proof -
  obtain c' where "HASH_FINAL mk block big (fold (\<lambda>bs c. HASH_UPDATE block c bs) bss c) = (mk c', c')"
    "hc_h c' = fold_blocks 64 one (hc_h c) (md_pad big (concat bss))" "hash_ctx.more c' = hash_ctx.more c"
    using digest_chunks [OF assms(1-4)] by metis
  with mk [of c'] one_comp_blocks [OF assms(5)] show ?thesis
    by (simp add: md_digest_def HOST_l2c_unat [abs_def])
qed

end

end
