(* ===== verification/Sha2.thy ===== *)
theory Sha2
  imports Md32
begin


text \<open>
  What the SHA-2 digests share: blocks of 16 words, a schedule that is kept in a circular
  buffer of 16 words, and eight registers whose roles rotate.  The code rotates the arguments of
  its round macros instead of the values.
\<close>

section \<open>Rounds\<close>

type_synonym 'w regs = "'w \<times> 'w \<times> 'w \<times> 'w \<times> 'w \<times> 'w \<times> 'w \<times> 'w"

text \<open>Eight lines of the code with a round macro; \<open>R j\<close> is the macro in line \<open>j\<close>.\<close>

definition ROUNDS_8 :: "(nat \<Rightarrow> 'x \<times> 'w regs \<Rightarrow> 'x \<times> 'w regs) \<Rightarrow> 'x \<times> 'w regs \<Rightarrow> 'x \<times> 'w regs" where
  "ROUNDS_8 R s =
    (let (X, a, b, c, d, e, f, g, h) = s;
         (X, a, b, c, d, e, f, g, h) = R 0 (X, a, b, c, d, e, f, g, h);
         (X, h, a, b, c, d, e, f, g) = R 1 (X, h, a, b, c, d, e, f, g);
         (X, g, h, a, b, c, d, e, f) = R 2 (X, g, h, a, b, c, d, e, f);
         (X, f, g, h, a, b, c, d, e) = R 3 (X, f, g, h, a, b, c, d, e);
         (X, e, f, g, h, a, b, c, d) = R 4 (X, e, f, g, h, a, b, c, d);
         (X, d, e, f, g, h, a, b, c) = R 5 (X, d, e, f, g, h, a, b, c);
         (X, c, d, e, f, g, h, a, b) = R 6 (X, c, d, e, f, g, h, a, b);
         (X, b, c, d, e, f, g, h, a) = R 7 (X, b, c, d, e, f, g, h, a) in
     (X, a, b, c, d, e, f, g, h))"

definition Ch :: "'a :: len word \<Rightarrow> 'a word \<Rightarrow> 'a word \<Rightarrow> 'a word" where
  "Ch x y z = (x AND y) XOR (NOT x AND z)"

definition Maj :: "'a :: len word \<Rightarrow> 'a word \<Rightarrow> 'a word \<Rightarrow> 'a word" where
  "Maj x y z = (x AND y) XOR (x AND z) XOR (y AND z)"

section \<open>The definition of the compression functions\<close>

text \<open>
  As FIPS 180-4 states them: rotations to the right, the schedule as a recursive function, a
  step on the eight working variables.
\<close>

definition ROTR :: "nat \<Rightarrow> 'a :: len word \<Rightarrow> 'a word" where
  "ROTR n x = drop_bit n x OR push_bit (LENGTH('a) - n) x"

fun schedule ::
  "('a :: len word \<Rightarrow> 'a word) \<Rightarrow> ('a word \<Rightarrow> 'a word) \<Rightarrow> (nat \<Rightarrow> 'a word) \<Rightarrow> nat \<Rightarrow> 'a word" where
  "schedule s0 s1 M t =
    (if t < 16 then M t
     else s1 (schedule s0 s1 M (t - 2)) + schedule s0 s1 M (t - 7) + s0 (schedule s0 s1 M (t - 15)) +
       schedule s0 s1 M (t - 16))"

declare schedule.simps [simp del]

definition sha2_step ::
  "('a :: len word \<Rightarrow> 'a word) \<Rightarrow> ('a word \<Rightarrow> 'a word) \<Rightarrow> (nat \<Rightarrow> 'a word) \<Rightarrow> nat \<Rightarrow> 'a word regs \<Rightarrow> 'a word regs" where
  "sha2_step S0 S1 KW t = (\<lambda>(a, b, c, d, e, f, g, h).
     let T1 = h + S1 e + Ch e f g + KW t; T2 = S0 a + Maj a b c in
     (T1 + T2, a, b, c, d + T1, e, f, g))"

fun add_regs :: "'a :: len word regs \<Rightarrow> 'a word list \<Rightarrow> 'a word list" where
  "add_regs (a, b, c, d, e, f, g, h) H =
    [a + H ! 0, b + H ! 1, c + H ! 2, d + H ! 3, e + H ! 4, f + H ! 5, g + H ! 6, h + H ! 7]"

fun regs_of :: "'w list \<Rightarrow> 'w regs" where
  "regs_of H = (H ! 0, H ! 1, H ! 2, H ! 3, H ! 4, H ! 5, H ! 6, H ! 7)"

section \<open>Rotating the arguments\<close>

fun rotate_regs :: "'x \<times> 'w regs \<Rightarrow> 'x \<times> 'w regs" where
  "rotate_regs (X, a, b, c, d, e, f, g, h) = (X, h, a, b, c, d, e, f, g)"

lemma upt_8: "[0..<8] = [0, 1, 2, 3, 4, 5, 6, 7]"
  by (simp add: upt_rec)

lemma prod_cases9:
  obtains X a b c d e f g h where "s = (X, a, b, c, d, e, f, g, h)"
proof -
  obtain X a b c d e r where "s = (X, a, b, c, d, e, r)" by (cases s)
  then show ?thesis by (cases r) (auto intro: that)
qed

lemma regs_cases:
  obtains a b c d e f g h where "r = (a, b, c, d, e, f, g, h)"
  by (rule prod_cases9 [of "((), r)"]) simp

lemma ROUNDS_8_fold: "ROUNDS_8 R s = fold (\<lambda>j s. rotate_regs (R j s)) [0..<8] s"
proof -
  obtain X a b c d e f g h where s: "s = (X, a, b, c, d, e, f, g, h)" by (rule prod_cases9)
  obtain X0 a0 b0 c0 d0 e0 f0 g0 h0 where r0:
    "R 0 (X, a, b, c, d, e, f, g, h) = (X0, a0, b0, c0, d0, e0, f0, g0, h0)" by (rule prod_cases9)
  obtain X1 h1 a1 b1 c1 d1 e1 f1 g1 where r1:
    "R 1 (X0, h0, a0, b0, c0, d0, e0, f0, g0) = (X1, h1, a1, b1, c1, d1, e1, f1, g1)" by (rule prod_cases9)
  obtain X2 g2 h2 a2 b2 c2 d2 e2 f2 where r2:
    "R 2 (X1, g1, h1, a1, b1, c1, d1, e1, f1) = (X2, g2, h2, a2, b2, c2, d2, e2, f2)" by (rule prod_cases9)
  obtain X3 f3 g3 h3 a3 b3 c3 d3 e3 where r3:
    "R 3 (X2, f2, g2, h2, a2, b2, c2, d2, e2) = (X3, f3, g3, h3, a3, b3, c3, d3, e3)" by (rule prod_cases9)
  obtain X4 e4 f4 g4 h4 a4 b4 c4 d4 where r4:
    "R 4 (X3, e3, f3, g3, h3, a3, b3, c3, d3) = (X4, e4, f4, g4, h4, a4, b4, c4, d4)" by (rule prod_cases9)
  obtain X5 d5 e5 f5 g5 h5 a5 b5 c5 where r5:
    "R 5 (X4, d4, e4, f4, g4, h4, a4, b4, c4) = (X5, d5, e5, f5, g5, h5, a5, b5, c5)" by (rule prod_cases9)
  obtain X6 c6 d6 e6 f6 g6 h6 a6 b6 where r6:
    "R 6 (X5, c5, d5, e5, f5, g5, h5, a5, b5) = (X6, c6, d6, e6, f6, g6, h6, a6, b6)" by (rule prod_cases9)
  obtain X7 b7 c7 d7 e7 f7 g7 h7 a7 where r7:
    "R 7 (X6, b6, c6, d6, e6, f6, g6, h6, a6) = (X7, b7, c7, d7, e7, f7, g7, h7, a7)" by (rule prod_cases9)
  show ?thesis unfolding upt_8 s by (simp add: ROUNDS_8_def r0 r1 [simplified] r2 r3 r4 r5 r6 r7)
qed

text \<open>Rounds that keep an invariant of the buffer and do the step \<open>g\<close> on the registers.\<close>

lemma fold_rounds:
  assumes "\<And>j X r. j < n \<Longrightarrow> I (i + j) X \<Longrightarrow> \<exists>X'. f j (X, r) = (X', g (i + j) r) \<and> I (Suc (i + j)) X'" "I i X"
  shows "\<exists>X'. fold f [0..<n] (X, r) = (X', fold g [i..<i + n] r) \<and> I (i + n) X'"
  using assms
proof (induction n)
  case (Suc n)
  then obtain X1 where X1: "fold f [0..<n] (X, r) = (X1, fold g [i..<i + n] r)" "I (i + n) X1" by fastforce
  with Suc.prems(1) [of n X1 "fold g [i..<i + n] r"] show ?case by auto
qed simp

lemma ROUNDS_8_steps:
  assumes "\<And>j X r. j < 8 \<Longrightarrow> I (i + j) X \<Longrightarrow>
      \<exists>X'. rotate_regs (R j (X, r)) = (X', g (i + j) r) \<and> I (Suc (i + j)) X'" "I i X"
  shows "\<exists>X'. ROUNDS_8 R (X, r) = (X', fold g [i..<i + 8] r) \<and> I (i + 8) X'"
  unfolding ROUNDS_8_fold using fold_rounds [of 8 I i "\<lambda>j s. rotate_regs (R j s)" g] assms by blast

text \<open>The circular buffer before round \<open>t\<close>.\<close>

definition window :: "(nat \<Rightarrow> 'w) \<Rightarrow> nat \<Rightarrow> 'w list \<Rightarrow> bool" where
  "window W t X \<longleftrightarrow> length X = 16 \<and> (\<forall>u < t. t \<le> u + 16 \<longrightarrow> X ! (u mod 16) = W u)"

lemma window_start: "length X = 16 \<Longrightarrow> window W 0 X"
  by (simp add: window_def)

lemma window_get: "window W t X \<Longrightarrow> u < t \<Longrightarrow> t \<le> u + 16 \<Longrightarrow> X ! (u mod 16) = W u"
  by (simp add: window_def)

lemma mod_16_inj: "u mod 16 = t mod 16 \<Longrightarrow> u < t \<Longrightarrow> t < u + 16 \<Longrightarrow> False" for t u :: nat
  using mod_eq_dvd_iff_nat [of u t 16] by (auto dest!: dvd_imp_le)

lemma window_put: "window W t X \<Longrightarrow> x = W t \<Longrightarrow> window W (Suc t) (X[t mod 16 := x])"
  using mod_16_inj [of _ t] by (fastforce simp: window_def nth_list_update less_Suc_eq)

lemma mod_16_shift: "16 \<le> t \<Longrightarrow> k \<le> 16 \<Longrightarrow> (t + k) mod 16 = (t - (16 - k)) mod 16" for t k :: nat
  by (simp add: mod_if le_mod_geq algebra_simps)

text \<open>The word that the code computes in place of \<open>X[t & 0x0f]\<close>.\<close>

lemma window_schedule:
  assumes "window (schedule s0 s1 M) t X" "16 \<le> t"
  shows "X ! (t mod 16) + (s0 (X ! ((t + 1) mod 16)) + s1 (X ! ((t + 14) mod 16)) + X ! ((t + 9) mod 16)) =
    schedule s0 s1 M t"
proof -
  have i: "(t + 1) mod 16 = (t - 15) mod 16" "(t + 14) mod 16 = (t - 2) mod 16" "(t + 9) mod 16 = (t - 7) mod 16"
    "t mod 16 = (t - 16) mod 16"
    using mod_16_shift [OF assms(2), of 1] mod_16_shift [OF assms(2), of 14] mod_16_shift [OF assms(2), of 9] assms(2)
    by (simp_all add: le_mod_geq)
  show ?thesis
    unfolding i using assms(2) window_get [OF assms(1)] by (simp add: schedule.simps [of s0 s1 M t] algebra_simps)
qed

lemma schedule_cong: "(\<And>t. t < 16 \<Longrightarrow> M t = M' t) \<Longrightarrow> schedule s0 s1 M t = schedule s0 s1 M' t"
proof (induction s0 s1 M t rule: schedule.induct)
  case (1 s0 s1 M t)
  then show ?case by (simp add: schedule.simps [of s0 s1 M t] schedule.simps [of s0 s1 M' t])
qed


section \<open>Rounds that compute the step\<close>

text \<open>
  What a digest promises of its round macro: with the roles rotated it is the step of the
  definition.
\<close>

locale sha2_rounds =
  fixes S0 S1 s0 s1 :: "'a :: len word \<Rightarrow> 'a word" and K :: "nat \<Rightarrow> 'a word"
    and ROUND :: "nat \<Rightarrow> 'a word \<Rightarrow> 'a word regs \<Rightarrow> 'a word regs"
  assumes ROUND_step: "rotate_regs (X, ROUND i T r) = (X :: 'a word list, sha2_step S0 S1 (\<lambda>t. K t + T) i r)"
begin

abbreviation W :: "(nat \<Rightarrow> 'a word) \<Rightarrow> nat \<Rightarrow> 'a word" where
  "W M \<equiv> schedule s0 s1 M"

abbreviation sha2 :: "(nat \<Rightarrow> 'a word) \<Rightarrow> nat \<Rightarrow> 'a word regs \<Rightarrow> 'a word regs" where
  "sha2 M \<equiv> sha2_step S0 S1 (\<lambda>t. K t + W M t)"

lemma ROUND_sha2: "rotate_regs (X, ROUND i (W M i) r) = (X :: 'a word list, sha2 M i r)"
  unfolding ROUND_step by (simp add: sha2_step_def)

lemma load_rounds:
  assumes "\<And>j X r. j < 8 \<Longrightarrow> R j (X, r) = (X[i + j := M (i + j)], ROUND (i + j) (M (i + j)) r)" "i \<le> 8" "window (W M) i X"
  shows "\<exists>X'. ROUNDS_8 R (X, r) = (X', fold (sha2 M) [i..<i + 8] r) \<and> window (W M) (i + 8) X'"
proof (rule ROUNDS_8_steps [where I = "window (W M)"])
  fix j X r assume j: "j < 8" and X: "window (W M) (i + j) X"
  then have m: "M (i + j) = W M (i + j)" "(i + j) mod 16 = i + j" using assms(2) by (simp_all add: schedule.simps)
  show "\<exists>X'. rotate_regs (R j (X, r)) = (X', sha2 M (i + j) r) \<and> window (W M) (Suc (i + j)) X'"
    using window_put [OF X refl] by (simp add: assms(1) [OF j] m ROUND_sha2 del: mod_less)
qed (rule assms(3))

lemma schedule_rounds:
  assumes "\<And>j X r. j < 8 \<Longrightarrow> R j (X, r) =
      (let T = X ! ((i + j) mod 16) + (s0 (X ! ((i + j + 1) mod 16)) + s1 (X ! ((i + j + 14) mod 16)) + X ! ((i + j + 9) mod 16)) in
       (X[(i + j) mod 16 := T], ROUND (i + j) T r))" "16 \<le> i" "window (W M) i X"
  shows "\<exists>X'. ROUNDS_8 R (X, r) = (X', fold (sha2 M) [i..<i + 8] r) \<and> window (W M) (i + 8) X'"
proof (rule ROUNDS_8_steps [where I = "window (W M)"])
  fix j X r assume j: "j < 8" and X: "window (W M) (i + j) X"
  show "\<exists>X'. rotate_regs (R j (X, r)) = (X', sha2 M (i + j) r) \<and> window (W M) (Suc (i + j)) X'"
    using window_put [OF X refl] window_schedule [OF X] assms(2)
    by (simp only: assms(1) [OF j] Let_def) (simp add: ROUND_sha2)
qed (rule assms(3))

text \<open>The first 16 rounds and a loop that does \<open>k\<close> rounds in every turn.\<close>

lemma load_16:
  assumes "\<And>j X r. j < 16 \<Longrightarrow> R j (X, r) = (X[j := M j], ROUND j (M j) r)" "length X = 16"
  shows "\<exists>X'. ROUNDS_8 (\<lambda>j. R (8 + j)) (ROUNDS_8 R (X, r)) = (X', fold (sha2 M) [0..<16] r) \<and> window (W M) 16 X'"
proof -
  have e: "8 + 8 = (16 :: nat)" by simp
  have 0: "R j (X, r) = (X[0 + j := M (0 + j)], ROUND (0 + j) (M (0 + j)) r)" if "j < 8" for j X r
    using assms(1) [of j] that by simp
  have 8: "R (8 + j) (X, r) = (X[8 + j := M (8 + j)], ROUND (8 + j) (M (8 + j)) r)" if "j < 8" for j X r
    using assms(1) [of "8 + j"] that by simp
  obtain X1 where X1: "ROUNDS_8 R (X, r) = (X1, fold (sha2 M) [0..<8] r)" "window (W M) 8 X1"
    using load_rounds [of R 0, OF 0 _ window_start [OF assms(2)]] unfolding add_0 by blast
  have u: "[0..<16] = [0..<8] @ [8..<16]" using upt_add_eq_append [of 0 8 8] by simp
  show ?thesis
    using load_rounds [of "\<lambda>j. R (8 + j)" 8, OF 8 order.refl X1(2), unfolded e] unfolding X1(1) u fold_append comp_def by blast
qed

lemma loop_rounds:
  assumes "\<And>i X r. 16 \<le> i \<Longrightarrow> i mod k = 0 \<Longrightarrow> window (W M) i X \<Longrightarrow>
      \<exists>X'. f i (X, r) = (X', fold (sha2 M) [i..<i + k] r) \<and> window (W M) (i + k) X'" "16 mod k = 0" "window (W M) 16 X"
  shows "\<exists>X'. fold f (map (\<lambda>j. 16 + k * j) [0..<n]) (X, r) = (X', fold (sha2 M) [16..<16 + k * n] r) \<and> window (W M) (16 + k * n) X'"
proof (induction n)
  case (Suc n)
  then obtain X1 where X1: "fold f (map (\<lambda>j. 16 + k * j) [0..<n]) (X, r) = (X1, fold (sha2 M) [16..<16 + k * n] r)"
    "window (W M) (16 + k * n) X1" by blast
  have u: "[16..<16 + k * Suc n] = [16..<16 + k * n] @ [16 + k * n..<16 + k * n + k]" "16 + k * Suc n = 16 + k * n + k"
    using upt_add_eq_append [of 16 "16 + k * n" k] by (simp_all add: add_ac)
  have "16 \<le> 16 + k * n" "(16 + k * n) mod k = 0" using assms(2) by simp_all
  from assms(1) [OF this X1(2), of "fold (sha2 M) [16..<16 + k * n] r"] X1(1) show ?case
    unfolding u(1) unfolding u(2) fold_append upt_Suc_append [OF le0] map_append by auto
qed (use assms(3) in simp)

end

end
