(* ===== verification/Sha256.thy ===== *)
theory Sha256
  imports Sha2
begin


text \<open>
  SHA-224 and SHA-256 (\<open>crypto/fipsmodule/sha/sha256.c\<close>, built without assembly): the code, the
  definition in FIPS 180-4, and that they agree for every message and every way to cut it.
\<close>

section \<open>Code\<close>

record sha256_ctx = hash_ctx +
  s256_md_len :: nat

abbreviation (input) SHA224_DIGEST_LENGTH :: nat where "SHA224_DIGEST_LENGTH \<equiv> 28"
abbreviation (input) SHA256_DIGEST_LENGTH :: nat where "SHA256_DIGEST_LENGTH \<equiv> 32"

definition SHA224_Init :: sha256_ctx where
  "SHA224_Init = \<lparr>hc_h = [0xc1059ed8, 0x367cd507, 0x3070dd17, 0xf70e5939, 0xffc00b31, 0x68581511, 0x64f98fa7, 0xbefa4fa4],
     hc_Nl = 0, hc_Nh = 0, hc_data = replicate 64 0, hc_num = 0, s256_md_len = SHA224_DIGEST_LENGTH\<rparr>"

definition SHA256_Init :: sha256_ctx where
  "SHA256_Init = \<lparr>hc_h = [0x6a09e667, 0xbb67ae85, 0x3c6ef372, 0xa54ff53a, 0x510e527f, 0x9b05688c, 0x1f83d9ab, 0x5be0cd19],
     hc_Nl = 0, hc_Nh = 0, hc_data = replicate 64 0, hc_num = 0, s256_md_len = SHA256_DIGEST_LENGTH\<rparr>"

definition K256 :: "u32 list" where
  "K256 = concat
    [[0x428a2f98, 0x71374491, 0xb5c0fbcf, 0xe9b5dba5, 0x3956c25b],
     [0x59f111f1, 0x923f82a4, 0xab1c5ed5, 0xd807aa98, 0x12835b01],
     [0x243185be, 0x550c7dc3, 0x72be5d74, 0x80deb1fe, 0x9bdc06a7],
     [0xc19bf174, 0xe49b69c1, 0xefbe4786, 0x0fc19dc6, 0x240ca1cc],
     [0x2de92c6f, 0x4a7484aa, 0x5cb0a9dc, 0x76f988da, 0x983e5152],
     [0xa831c66d, 0xb00327c8, 0xbf597fc7, 0xc6e00bf3, 0xd5a79147],
     [0x06ca6351, 0x14292967, 0x27b70a85, 0x2e1b2138, 0x4d2c6dfc],
     [0x53380d13, 0x650a7354, 0x766a0abb, 0x81c2c92e, 0x92722c85],
     [0xa2bfe8a1, 0xa81a664b, 0xc24b8b70, 0xc76c51a3, 0xd192e819],
     [0xd6990624, 0xf40e3585, 0x106aa070, 0x19a4c116, 0x1e376c08],
     [0x2748774c, 0x34b0bcb5, 0x391c0cb3, 0x4ed8aa4a, 0x5b9cca4f],
     [0x682e6ff3, 0x748f82ee, 0x78a5636f, 0x84c87814, 0x8cc70208],
     [0x90befffa, 0xa4506ceb, 0xbef9a3f7, 0xc67178f2]]"

definition ROTATE :: "u32 \<Rightarrow> nat \<Rightarrow> u32" where
  "ROTATE a n = push_bit n a OR drop_bit (32 - n) a"

definition Sigma0 :: "u32 \<Rightarrow> u32" where "Sigma0 x = ROTATE x 30 XOR ROTATE x 19 XOR ROTATE x 10"
definition Sigma1 :: "u32 \<Rightarrow> u32" where "Sigma1 x = ROTATE x 26 XOR ROTATE x 21 XOR ROTATE x 7"
definition sigma0 :: "u32 \<Rightarrow> u32" where "sigma0 x = ROTATE x 25 XOR ROTATE x 14 XOR drop_bit 3 x"
definition sigma1 :: "u32 \<Rightarrow> u32" where "sigma1 x = ROTATE x 15 XOR ROTATE x 13 XOR drop_bit 10 x"

definition ROUND_00_15 :: "nat \<Rightarrow> u32 \<Rightarrow> u32 regs \<Rightarrow> u32 regs" where
  "ROUND_00_15 i T1 = (\<lambda>(a, b, c, d, e, f, g, h).
     let T1 = T1 + (h + Sigma1 e + Ch e f g + K256 ! i);
         h = Sigma0 a + Maj a b c;
         d = d + T1;
         h = h + T1 in
     (a, b, c, d, e, f, g, h))"

text \<open>The first 16 rounds read a word of the input each: \<open>T1 = X[i] = l\<close>.\<close>

definition ROUND_LOAD :: "u8 list \<Rightarrow> nat \<Rightarrow> u32 list \<times> u32 regs \<Rightarrow> u32 list \<times> u32 regs" where
  "ROUND_LOAD data i = (\<lambda>(X, r). let l = HOST_c2l True (drop (4 * i) data) in (X[i := l], ROUND_00_15 i l r))"

definition ROUND_16_63 :: "nat \<Rightarrow> u32 list \<times> u32 regs \<Rightarrow> u32 list \<times> u32 regs" where
  "ROUND_16_63 i = (\<lambda>(X, r).
     let s0 = X ! ((i + 1) mod 16); s0 = sigma0 s0;
         s1 = X ! ((i + 14) mod 16); s1 = sigma1 s1;
         T1 = X ! (i mod 16) + (s0 + s1 + X ! ((i + 9) mod 16)) in
     (X[i mod 16 := T1], ROUND_00_15 i T1 r))"

text \<open>The body of the loop over the blocks.  The buffer \<open>X\<close> has no initial value in C.\<close>

definition sha256_block :: "u32 list \<Rightarrow> u8 list \<Rightarrow> u32 list" where
  "sha256_block state data =
    (let s = (replicate 16 0, state ! 0, state ! 1, state ! 2, state ! 3, state ! 4, state ! 5, state ! 6, state ! 7);
         s = ROUNDS_8 (\<lambda>j. ROUND_LOAD data j) s;
         s = ROUNDS_8 (\<lambda>j. ROUND_LOAD data (8 + j)) s;
         (X, a, b, c, d, e, f, g, h) =
           fold (\<lambda>i. ROUNDS_8 (\<lambda>j. ROUND_16_63 (i + j))) [16, 24, 32, 40, 48, 56] s in
     [state ! 0 + a, state ! 1 + b, state ! 2 + c, state ! 3 + d, state ! 4 + e, state ! 5 + f, state ! 6 + g,
      state ! 7 + h])"

definition sha256_block_data_order :: block_fun where
  "sha256_block_data_order = block_loop sha256_block 64"

text \<open>\<open>HASH_MAKE_STRING\<close>\<close>

definition SHA256_make_string :: "sha256_ctx \<Rightarrow> u8 list option" where
  "SHA256_make_string c =
    (let words = (\<lambda>n. concat (map (\<lambda>nn. HOST_l2c True (hc_h c ! nn)) [0..<n])); md_len = s256_md_len c in
     if md_len = SHA224_DIGEST_LENGTH then Some (words (SHA224_DIGEST_LENGTH div 4))
     else if md_len = SHA256_DIGEST_LENGTH then Some (words (SHA256_DIGEST_LENGTH div 4))
     else if SHA256_DIGEST_LENGTH < md_len then None
     else Some (words (md_len div 4)))"

definition SHA256_Update :: "sha256_ctx \<Rightarrow> u8 list \<Rightarrow> sha256_ctx" where
  "SHA256_Update c data = HASH_UPDATE sha256_block_data_order c data"

definition SHA256_Final :: "sha256_ctx \<Rightarrow> u8 list option \<times> sha256_ctx" where
  "SHA256_Final c = HASH_FINAL SHA256_make_string sha256_block_data_order True c"

definition SHA256_Transform :: "sha256_ctx \<Rightarrow> u8 list \<Rightarrow> sha256_ctx" where
  "SHA256_Transform c data = HASH_TRANSFORM sha256_block_data_order c data"

definition SHA224_Update :: "sha256_ctx \<Rightarrow> u8 list \<Rightarrow> sha256_ctx" where
  "SHA224_Update ctx data = SHA256_Update ctx data"

definition SHA224_Final :: "sha256_ctx \<Rightarrow> u8 list option \<times> sha256_ctx" where
  "SHA224_Final ctx = SHA256_Final ctx"

definition SHA224 :: "u8 list \<Rightarrow> u8 list option" where
  "SHA224 data = (let ctx = SHA224_Init; ctx = SHA224_Update ctx data; (out, ctx) = SHA224_Final ctx in out)"

definition SHA256 :: "u8 list \<Rightarrow> u8 list option" where
  "SHA256 data = (let ctx = SHA256_Init; ctx = SHA256_Update ctx data; (out, ctx) = SHA256_Final ctx in out)"

section \<open>FIPS 180-4\<close>

definition fips_compress256 :: "u32 list \<Rightarrow> u8 list \<Rightarrow> u32 list" where
  "fips_compress256 H M =
    (let W = schedule (\<lambda>x. ROTR 7 x XOR ROTR 18 x XOR drop_bit 3 x) (\<lambda>x. ROTR 17 x XOR ROTR 19 x XOR drop_bit 10 x)
           (word_at True M);
         step = sha2_step (\<lambda>x. ROTR 2 x XOR ROTR 13 x XOR ROTR 22 x) (\<lambda>x. ROTR 6 x XOR ROTR 11 x XOR ROTR 25 x)
           (\<lambda>t. K256 ! t + W t) in
     add_regs (fold step [0..<64] (regs_of H)) H)"

definition fips_sha256 :: "u32 list \<Rightarrow> nat \<Rightarrow> u8 list \<Rightarrow> u8 list" where
  "fips_sha256 H0 n m = md_digest True n fips_compress256 H0 m"

section \<open>The code computes the compression function\<close>

interpretation sha256: sha2_rounds Sigma0 Sigma1 sigma0 sigma1 "\<lambda>t. K256 ! t" ROUND_00_15
proof unfold_locales
  fix X :: "u32 list" and i T r
  show "rotate_regs (X, ROUND_00_15 i T r) = (X, sha2_step Sigma0 Sigma1 (\<lambda>t. K256 ! t + T) i r)"
    by (cases r) (auto simp: ROUND_00_15_def sha2_step_def Let_def add_ac)
qed

lemma fips_functions256:
  "sigma0 = (\<lambda>x. ROTR 7 x XOR ROTR 18 x XOR drop_bit 3 x)" "sigma1 = (\<lambda>x. ROTR 17 x XOR ROTR 19 x XOR drop_bit 10 x)"
  "Sigma0 = (\<lambda>x. ROTR 2 x XOR ROTR 13 x XOR ROTR 22 x)" "Sigma1 = (\<lambda>x. ROTR 6 x XOR ROTR 11 x XOR ROTR 25 x)"
  by (simp_all add: fun_eq_iff sigma0_def sigma1_def Sigma0_def Sigma1_def ROTATE_def ROTR_def or.commute)

lemma sha256_block_fips:
  assumes "64 \<le> length data"
  shows "sha256_block H data = fips_compress256 H data"
proof -
  let ?r = "regs_of H" and ?X = "replicate 16 0 :: u32 list" and ?M = "word_at True data"
  have l: "ROUND_LOAD data j (X, r) = (X[j := ?M j], ROUND_00_15 j (?M j) r)" if "j < 16" for j X r
    using assms that by (simp add: ROUND_LOAD_def Let_def HOST_c2l_word)
  obtain X1 where X1: "ROUNDS_8 (\<lambda>j. ROUND_LOAD data (8 + j)) (ROUNDS_8 (\<lambda>j. ROUND_LOAD data j) (?X, ?r)) =
      (X1, fold (sha256.sha2 ?M) [0..<16] ?r)" "window (sha256.W ?M) 16 X1"
    using sha256.load_16 [of "ROUND_LOAD data" ?M ?X ?r, OF l length_replicate] by blast
  have m: "[16, 24, 32, 40, 48, 56] = map (\<lambda>j. 16 + 8 * j) [0..<6]" by (simp add: upt_rec)
  have "\<exists>X'. fold (\<lambda>i. ROUNDS_8 (\<lambda>j. ROUND_16_63 (i + j))) (map (\<lambda>j. 16 + 8 * j) [0..<6]) (X1, r) =
      (X', fold (sha256.sha2 ?M) [16..<16 + 8 * 6] r) \<and> window (sha256.W ?M) (16 + 8 * 6) X'" for r
    by (rule sha256.loop_rounds, rule sha256.schedule_rounds) (simp_all add: ROUND_16_63_def X1(2) Let_def add_ac)
  then obtain X2 where X2: "fold (\<lambda>i. ROUNDS_8 (\<lambda>j. ROUND_16_63 (i + j))) [16, 24, 32, 40, 48, 56]
      (X1, fold (sha256.sha2 ?M) [0..<16] ?r) = (X2, fold (sha256.sha2 ?M) [16..<16 + 8 * 6] (fold (sha256.sha2 ?M) [0..<16] ?r))"
    unfolding m by blast
  have u: "[0..<64] = [0..<16] @ [16..<16 + 8 * 6]" using upt_add_eq_append [of 0 16 48] by simp
  obtain a b c d e f g h where r: "fold (sha256.sha2 ?M) [0..<64] ?r = (a, b, c, d, e, f, g, h)" by (rule regs_cases)
  have "fold (sha256.sha2 ?M) [16..<16 + 8 * 6] (fold (sha256.sha2 ?M) [0..<16] ?r) = (a, b, c, d, e, f, g, h)"
    using r unfolding u fold_append comp_def .
  then have "sha256_block H data = add_regs (fold (sha256.sha2 ?M) [0..<64] ?r) H"
    unfolding sha256_block_def Let_def regs_of.simps [symmetric] X1(1) X2 r by (simp only: prod.case add_regs.simps add.commute)
  then show ?thesis by (simp only: fips_compress256_def Let_def fips_functions256)
qed

lemma fips_compress256_local: "length a = 64 \<Longrightarrow> fips_compress256 H (a @ b) = fips_compress256 H a"
proof -
  assume "length a = 64"
  then have "schedule s0 s1 (word_at True (a @ b)) = schedule s0 s1 (word_at True a)" for s0 s1
    by (intro ext schedule_cong) (simp add: word_at_append)
  then show ?thesis by (simp only: fips_compress256_def)
qed

lemma length_sha256_block: "length (sha256_block H data) = 8"
  by (simp add: sha256_block_def Let_def split: prod.split)

interpretation sha256_md: md32_spec sha256_block sha256_block_data_order fips_compress256 8
proof unfold_locales
  fix a b :: "u8 list" and s assume "length a = 64"
  then show "sha256_block s (a @ b) = sha256_block s a"
    by (simp add: sha256_block_fips fips_compress256_local)
qed (simp_all add: sha256_block_data_order_def sha256_block_fips length_sha256_block)

lemma SHA256_chunks:
  assumes "hc_num c = 0" "length (hc_data c) = 64" "hc_Nl c = 0" "hc_Nh c = 0" "length (hc_h c) = 8"
    "s256_md_len c = 4 * n" "n \<le> 8"
  shows "fst (SHA256_Final (fold (\<lambda>bs c. SHA256_Update c bs) bss c)) = Some (fips_sha256 (hc_h c) n (concat bss))"
  unfolding SHA256_Final_def SHA256_Update_def fips_sha256_def
proof (rule sha256_md.digest_correct [OF assms(1-5)])
  fix c' assume c': "length (hc_h c') = 8" "hash_ctx.more c' = hash_ctx.more c"
  have "s256_md_len c' = 4 * n" using c'(2) assms(6) by (cases c, cases c') simp
  then have "SHA256_make_string c' = Some (concat (map (\<lambda>i. HOST_l2c True (hc_h c' ! i)) [0..<n]))"
    using assms(7) by (auto simp: SHA256_make_string_def Let_def)
  also have "map (\<lambda>i. HOST_l2c True (hc_h c' ! i)) [0..<n] = map (HOST_l2c True) (take n (hc_h c'))"
    using assms(7) c'(1) by (intro nth_equalityI) simp_all
  finally show "SHA256_make_string c' = Some (concat (map (HOST_l2c True) (take n (hc_h c'))))" .
qed

text \<open>
  C7: SHA-224 and SHA-256 of the code are the functions of FIPS 180-4, for every message and
  however the message is cut into updates.
\<close>

theorem SHA256_correct:
  "SHA256 m = Some (fips_sha256 (hc_h SHA256_Init) 8 m) \<and>
   SHA224 m = Some (fips_sha256 (hc_h SHA224_Init) 7 m) \<and>
   fst (SHA256_Final (fold (\<lambda>bs c. SHA256_Update c bs) bss SHA256_Init)) = SHA256 (concat bss) \<and>
   fst (SHA224_Final (fold (\<lambda>bs c. SHA224_Update c bs) bss SHA224_Init)) = SHA224 (concat bss)"
proof -
  have 256: "fst (SHA256_Final (fold (\<lambda>bs c. SHA256_Update c bs) bss SHA256_Init)) =
      Some (fips_sha256 (hc_h SHA256_Init) 8 (concat bss))" for bss
    by (rule SHA256_chunks) (simp_all add: SHA256_Init_def)
  have 224: "fst (SHA256_Final (fold (\<lambda>bs c. SHA256_Update c bs) bss SHA224_Init)) =
      Some (fips_sha256 (hc_h SHA224_Init) 7 (concat bss))" for bss
    by (rule SHA256_chunks) (simp_all add: SHA224_Init_def)
  show ?thesis
    using 256 [of "[m]"] 224 [of "[m]"] 256 [of bss] 224 [of bss] 256 [of "[concat bss]"] 224 [of "[concat bss]"]
    by (simp add: SHA256_def SHA224_def SHA224_Final_def SHA224_Update_def Let_def case_prod_beta)
qed

end
