(* ===== verification/Sha512.thy ===== *)
theory Sha512
  imports Sha2
begin


text \<open>
  SHA-384 and SHA-512 (\<open>crypto/fipsmodule/sha/sha512.c\<close>, built without assembly for a 64-bit
  processor that reads unaligned data): the code, the definition in FIPS 180-4, and that they
  agree for every message and every way to cut it.  The file has a collector of its own.
\<close>

section \<open>Code\<close>

record sha512_ctx =
  h5_h :: "u64 list"
  h5_Nl :: u64
  h5_Nh :: u64
  h5_p :: "u8 list"
  h5_num :: nat
  h5_md_len :: nat

abbreviation (input) SHA384_DIGEST_LENGTH :: nat where "SHA384_DIGEST_LENGTH \<equiv> 48"
abbreviation (input) SHA512_DIGEST_LENGTH :: nat where "SHA512_DIGEST_LENGTH \<equiv> 64"
abbreviation (input) SHA512_CBLOCK :: nat where "SHA512_CBLOCK \<equiv> 128"

text \<open>The buffer is not initialised in C; the argument stands for what it holds.\<close>

definition SHA384_Init :: "u8 list \<Rightarrow> sha512_ctx" where
  "SHA384_Init p = \<lparr>h5_h =
      [0xcbbb9d5dc1059ed8, 0x629a292a367cd507, 0x9159015a3070dd17, 0x152fecd8f70e5939,
       0x67332667ffc00b31, 0x8eb44a8768581511, 0xdb0c2e0d64f98fa7, 0x47b5481dbefa4fa4],
     h5_Nl = 0, h5_Nh = 0, h5_p = p, h5_num = 0, h5_md_len = SHA384_DIGEST_LENGTH\<rparr>"

definition SHA512_Init :: "u8 list \<Rightarrow> sha512_ctx" where
  "SHA512_Init p = \<lparr>h5_h =
      [0x6a09e667f3bcc908, 0xbb67ae8584caa73b, 0x3c6ef372fe94f82b, 0xa54ff53a5f1d36f1,
       0x510e527fade682d1, 0x9b05688c2b3e6c1f, 0x1f83d9abfb41bd6b, 0x5be0cd19137e2179],
     h5_Nl = 0, h5_Nh = 0, h5_p = p, h5_num = 0, h5_md_len = SHA512_DIGEST_LENGTH\<rparr>"

definition K512 :: "u64 list" where
  "K512 = concat
    [[0x428a2f98d728ae22, 0x7137449123ef65cd, 0xb5c0fbcfec4d3b2f, 0xe9b5dba58189dbbc],
     [0x3956c25bf348b538, 0x59f111f1b605d019, 0x923f82a4af194f9b, 0xab1c5ed5da6d8118],
     [0xd807aa98a3030242, 0x12835b0145706fbe, 0x243185be4ee4b28c, 0x550c7dc3d5ffb4e2],
     [0x72be5d74f27b896f, 0x80deb1fe3b1696b1, 0x9bdc06a725c71235, 0xc19bf174cf692694],
     [0xe49b69c19ef14ad2, 0xefbe4786384f25e3, 0x0fc19dc68b8cd5b5, 0x240ca1cc77ac9c65],
     [0x2de92c6f592b0275, 0x4a7484aa6ea6e483, 0x5cb0a9dcbd41fbd4, 0x76f988da831153b5],
     [0x983e5152ee66dfab, 0xa831c66d2db43210, 0xb00327c898fb213f, 0xbf597fc7beef0ee4],
     [0xc6e00bf33da88fc2, 0xd5a79147930aa725, 0x06ca6351e003826f, 0x142929670a0e6e70],
     [0x27b70a8546d22ffc, 0x2e1b21385c26c926, 0x4d2c6dfc5ac42aed, 0x53380d139d95b3df],
     [0x650a73548baf63de, 0x766a0abb3c77b2a8, 0x81c2c92e47edaee6, 0x92722c851482353b],
     [0xa2bfe8a14cf10364, 0xa81a664bbc423001, 0xc24b8b70d0f89791, 0xc76c51a30654be30],
     [0xd192e819d6ef5218, 0xd69906245565a910, 0xf40e35855771202a, 0x106aa07032bbd1b8],
     [0x19a4c116b8d2d0c8, 0x1e376c085141ab53, 0x2748774cdf8eeb99, 0x34b0bcb5e19b48a8],
     [0x391c0cb3c5c95a63, 0x4ed8aa4ae3418acb, 0x5b9cca4f7763e373, 0x682e6ff3d6b2b8a3],
     [0x748f82ee5defb2fc, 0x78a5636f43172f60, 0x84c87814a1f0ab72, 0x8cc702081a6439ec],
     [0x90befffa23631e28, 0xa4506cebde82bde9, 0xbef9a3f7b2c67915, 0xc67178f2e372532b],
     [0xca273eceea26619c, 0xd186b8c721c0c207, 0xeada7dd6cde0eb1e, 0xf57d4f7fee6ed178],
     [0x06f067aa72176fba, 0x0a637dc5a2c898a6, 0x113f9804bef90dae, 0x1b710b35131c471b],
     [0x28db77f523047d84, 0x32caab7b40c72493, 0x3c9ebe0a15c9bebc, 0x431d67c49c100d4c],
     [0x4cc5d4becb3e42b6, 0x597f299cfc657e2a, 0x5fcb6fab3ad6faec, 0x6c44198c4a475817]]"

definition PULL64 :: "u8 list \<Rightarrow> u64" where
  "PULL64 x =
    push_bit 56 (ucast (x ! 0)) OR push_bit 48 (ucast (x ! 1)) OR push_bit 40 (ucast (x ! 2)) OR push_bit 32 (ucast (x ! 3)) OR
    push_bit 24 (ucast (x ! 4)) OR push_bit 16 (ucast (x ! 5)) OR push_bit 8 (ucast (x ! 6)) OR ucast (x ! 7)"

definition ROTR64 :: "u64 \<Rightarrow> nat \<Rightarrow> u64" where
  "ROTR64 x s = drop_bit s x OR push_bit (64 - s) x"

definition Sigma0 :: "u64 \<Rightarrow> u64" where "Sigma0 x = ROTR64 x 28 XOR ROTR64 x 34 XOR ROTR64 x 39"
definition Sigma1 :: "u64 \<Rightarrow> u64" where "Sigma1 x = ROTR64 x 14 XOR ROTR64 x 18 XOR ROTR64 x 41"
definition sigma0 :: "u64 \<Rightarrow> u64" where "sigma0 x = ROTR64 x 1 XOR ROTR64 x 8 XOR drop_bit 7 x"
definition sigma1 :: "u64 \<Rightarrow> u64" where "sigma1 x = ROTR64 x 19 XOR ROTR64 x 61 XOR drop_bit 6 x"

definition ROUND_00_15 :: "nat \<Rightarrow> u64 \<Rightarrow> u64 regs \<Rightarrow> u64 regs" where
  "ROUND_00_15 i T1 = (\<lambda>(a, b, c, d, e, f, g, h).
     let T1 = T1 + (h + Sigma1 e + Ch e f g + K512 ! i);
         h = Sigma0 a + Maj a b c;
         d = d + T1;
         h = h + T1 in
     (a, b, c, d, e, f, g, h))"

text \<open>The first 16 rounds read a word of the input each: \<open>T1 = X[i] = PULL64(W[i])\<close>.\<close>

definition ROUND_LOAD :: "u8 list \<Rightarrow> nat \<Rightarrow> u64 list \<times> u64 regs \<Rightarrow> u64 list \<times> u64 regs" where
  "ROUND_LOAD W i = (\<lambda>(X, r). let T1 = PULL64 (drop (8 * i) W) in (X[i := T1], ROUND_00_15 i T1 r))"

definition ROUND_16_80 :: "nat \<Rightarrow> nat \<Rightarrow> u64 list \<times> u64 regs \<Rightarrow> u64 list \<times> u64 regs" where
  "ROUND_16_80 i j = (\<lambda>(X, r).
     let s0 = X ! ((j + 1) mod 16); s0 = sigma0 s0;
         s1 = X ! ((j + 14) mod 16); s1 = sigma1 s1;
         T1 = X ! (j mod 16) + (s0 + s1 + X ! ((j + 9) mod 16)) in
     (X[j mod 16 := T1], ROUND_00_15 (i + j) T1 r))"

text \<open>The body of the loop over the blocks.\<close>

definition sha512_block :: "u64 list \<Rightarrow> u8 list \<Rightarrow> u64 list" where
  "sha512_block state W =
    (let s = (replicate 16 0, state ! 0, state ! 1, state ! 2, state ! 3, state ! 4, state ! 5, state ! 6, state ! 7);
         s = ROUNDS_8 (\<lambda>j. ROUND_LOAD W j) s;
         s = ROUNDS_8 (\<lambda>j. ROUND_LOAD W (8 + j)) s;
         (X, a, b, c, d, e, f, g, h) =
           fold (\<lambda>i s. ROUNDS_8 (\<lambda>j. ROUND_16_80 i (8 + j)) (ROUNDS_8 (\<lambda>j. ROUND_16_80 i j) s)) [16, 32, 48, 64] s in
     [state ! 0 + a, state ! 1 + b, state ! 2 + c, state ! 3 + d, state ! 4 + e, state ! 5 + f, state ! 6 + g,
      state ! 7 + h])"

definition sha512_block_data_order :: "u64 list \<Rightarrow> u8 list \<Rightarrow> nat \<Rightarrow> u64 list" where
  "sha512_block_data_order = block_loop sha512_block SHA512_CBLOCK"

definition SHA512_Transform :: "sha512_ctx \<Rightarrow> u8 list \<Rightarrow> sha512_ctx" where
  "SHA512_Transform c block = c\<lparr>h5_h := sha512_block_data_order (h5_h c) block 1\<rparr>"

text \<open>The part of \<open>SHA512_Update\<close> after the buffered block.\<close>

definition sha512_blocks :: "sha512_ctx \<Rightarrow> u8 list \<Rightarrow> sha512_ctx" where
  "sha512_blocks c data =
    (let len = length data; n = len div SHA512_CBLOCK;
         c = (if SHA512_CBLOCK \<le> len then c\<lparr>h5_h := sha512_block_data_order (h5_h c) data n\<rparr> else c);
         data = (if SHA512_CBLOCK \<le> len then drop (n * SHA512_CBLOCK) data else data) in
     if data \<noteq> [] then c\<lparr>h5_p := memcpy_at (h5_p c) 0 data, h5_num := length data\<rparr> else c)"

definition SHA512_Update :: "sha512_ctx \<Rightarrow> u8 list \<Rightarrow> sha512_ctx" where
  "SHA512_Update c data =
    (let len = length data in
     if len = 0 then c
     else
       let l = h5_Nl c + push_bit 3 (of_nat len);
           Nh = (if l < h5_Nl c then h5_Nh c + 1 else h5_Nh c);
           c = c\<lparr>h5_Nh := Nh + of_nat (len div 2 ^ 61), h5_Nl := l\<rparr> in
       if h5_num c \<noteq> 0 then
         let n = SHA512_CBLOCK - h5_num c in
         if len < n then c\<lparr>h5_p := memcpy_at (h5_p c) (h5_num c) data, h5_num := h5_num c + len\<rparr>
         else
           let c = c\<lparr>h5_p := memcpy_at (h5_p c) (h5_num c) (take n data), h5_num := 0\<rparr>;
               c = c\<lparr>h5_h := sha512_block_data_order (h5_h c) (h5_p c) 1\<rparr> in
           sha512_blocks c (drop n data)
       else sha512_blocks c data)"

text \<open>The bytes of a word, the most significant first.\<close>

definition bytes64 :: "u64 \<Rightarrow> u8 list" where
  "bytes64 t = [ucast (drop_bit 56 t), ucast (drop_bit 48 t), ucast (drop_bit 40 t), ucast (drop_bit 32 t),
     ucast (drop_bit 24 t), ucast (drop_bit 16 t), ucast (drop_bit 8 t), ucast t]"

text \<open>\<open>SHA512_Final\<close> before the output is written; the two counters fill the last 16 bytes.\<close>

definition sha512_finish :: "sha512_ctx \<Rightarrow> sha512_ctx" where
  "sha512_finish c =
    (let n = h5_num c;
         c = c\<lparr>h5_p := (h5_p c)[n := 0x80]\<rparr>;
         n = n + 1;
         (c, n) =
           (if SHA512_CBLOCK - 16 < n then
              let c = c\<lparr>h5_p := memcpy_at (h5_p c) n (replicate (SHA512_CBLOCK - n) 0)\<rparr> in
              (c\<lparr>h5_h := sha512_block_data_order (h5_h c) (h5_p c) 1\<rparr>, 0)
            else (c, n));
         c = c\<lparr>h5_p := memcpy_at (h5_p c) n (replicate (SHA512_CBLOCK - 16 - n) 0)\<rparr>;
         c = c\<lparr>h5_p := memcpy_at (h5_p c) (SHA512_CBLOCK - 16) (bytes64 (h5_Nh c) @ bytes64 (h5_Nl c))\<rparr> in
     c\<lparr>h5_h := sha512_block_data_order (h5_h c) (h5_p c) 1\<rparr>)"

text \<open>The first argument tells whether \<open>md\<close> is not NULL.\<close>

definition SHA512_Final :: "bool \<Rightarrow> sha512_ctx \<Rightarrow> u8 list option \<times> sha512_ctx" where
  "SHA512_Final md c =
    (let c = sha512_finish c; words = (\<lambda>k. concat (map (\<lambda>n. bytes64 (h5_h c ! n)) [0..<k])) in
     if \<not> md then (None, c)
     else if h5_md_len c = SHA384_DIGEST_LENGTH then (Some (words (SHA384_DIGEST_LENGTH div 8)), c)
     else if h5_md_len c = SHA512_DIGEST_LENGTH then (Some (words (SHA512_DIGEST_LENGTH div 8)), c)
     else (None, c))"

definition SHA384_Update :: "sha512_ctx \<Rightarrow> u8 list \<Rightarrow> sha512_ctx" where
  "SHA384_Update sha data = SHA512_Update sha data"

definition SHA384_Final :: "bool \<Rightarrow> sha512_ctx \<Rightarrow> u8 list option \<times> sha512_ctx" where
  "SHA384_Final md sha = SHA512_Final md sha"

definition SHA384 :: "u8 list \<Rightarrow> u8 list \<Rightarrow> u8 list option" where
  "SHA384 p data = (let ctx = SHA384_Init p; ctx = SHA384_Update ctx data; (out, ctx) = SHA384_Final True ctx in out)"

definition SHA512 :: "u8 list \<Rightarrow> u8 list \<Rightarrow> u8 list option" where
  "SHA512 p data = (let ctx = SHA512_Init p; ctx = SHA512_Update ctx data; (out, ctx) = SHA512_Final True ctx in out)"

section \<open>FIPS 180-4\<close>

definition word64_at :: "u8 list \<Rightarrow> nat \<Rightarrow> u64" where
  "word64_at bs t = of_nat (be_value (take 8 (drop (8 * t) bs)))"

definition fips_compress512 :: "u64 list \<Rightarrow> u8 list \<Rightarrow> u64 list" where
  "fips_compress512 H M =
    (let W = schedule (\<lambda>x. ROTR 1 x XOR ROTR 8 x XOR drop_bit 7 x) (\<lambda>x. ROTR 19 x XOR ROTR 61 x XOR drop_bit 6 x)
           (word64_at M);
         step = sha2_step (\<lambda>x. ROTR 28 x XOR ROTR 34 x XOR ROTR 39 x) (\<lambda>x. ROTR 14 x XOR ROTR 18 x XOR ROTR 41 x)
           (\<lambda>t. K512 ! t + W t) in
     add_regs (fold step [0..<80] (regs_of H)) H)"

definition sha512_pad :: "u8 list \<Rightarrow> u8 list" where
  "sha512_pad m = m @ 0x80 # replicate ((239 - length m mod 128) mod 128) 0 @ be_bytes 16 (8 * length m)"

definition fips_sha512 :: "u64 list \<Rightarrow> nat \<Rightarrow> u8 list \<Rightarrow> u8 list" where
  "fips_sha512 H0 n m = concat (map (\<lambda>w. be_bytes 8 (unat w)) (take n (fold_blocks 128 fips_compress512 H0 (sha512_pad m))))"

section \<open>The code computes the compression function\<close>

lemma shift_or_byte64: "push_bit 8 x OR ucast d = x * 256 + of_nat (unat d)" for x :: u64 and d :: u8
proof -
  have "push_bit 8 x AND ucast d = 0" by (rule bit_word_eqI) (auto simp: bit_simps dest: bit_imp_le_length)
  then have "push_bit 8 x OR ucast d = push_bit 8 x + ucast d" by (simp add: disjunctive_add_eq_or)
  then show ?thesis by (simp add: push_bit_eq_mult)
qed

lemma PULL64_value: "PULL64 [a, b, c, d, e, f, g, h] = of_nat (be_value [a, b, c, d, e, f, g, h])"
proof -
  have "PULL64 [a, b, c, d, e, f, g, h] = push_bit 8 (push_bit 8 (push_bit 8 (push_bit 8 (push_bit 8 (push_bit 8 (push_bit 8
      (ucast a) OR ucast b) OR ucast c) OR ucast d) OR ucast e) OR ucast f) OR ucast g) OR ucast h"
    by (simp add: PULL64_def push_bit_or or.assoc)
  then show ?thesis by (simp add: shift_or_byte64 be_value_def)
qed

lemma PULL64_word:
  assumes "8 * t + 8 \<le> length bs"
  shows "PULL64 (drop (8 * t) bs) = word64_at bs t"
proof -
  let ?x = "take 8 (drop (8 * t) bs)"
  have l: "length (take 4 ?x) = 4" "length (drop 4 ?x) = 4" using assms by simp_all
  obtain a b c d where x1: "take 4 ?x = [a, b, c, d]" using l(1) by (rule length_4E)
  obtain e f g h where x2: "drop 4 ?x = [e, f, g, h]" using l(2) by (rule length_4E)
  have x: "?x = [a, b, c, d, e, f, g, h]" using append_take_drop_id [of 4 ?x] unfolding x1 x2 by simp
  have "PULL64 (drop (8 * t) bs) = PULL64 ?x" by (simp add: PULL64_def)
  then show ?thesis unfolding word64_at_def x PULL64_value .
qed

interpretation sha512: sha2_rounds Sigma0 Sigma1 sigma0 sigma1 "\<lambda>t. K512 ! t" ROUND_00_15
proof unfold_locales
  fix X :: "u64 list" and i T r
  show "rotate_regs (X, ROUND_00_15 i T r) = (X, sha2_step Sigma0 Sigma1 (\<lambda>t. K512 ! t + T) i r)"
    by (cases r) (auto simp: ROUND_00_15_def sha2_step_def Let_def add_ac)
qed

lemma fips_functions512:
  "sigma0 = (\<lambda>x. ROTR 1 x XOR ROTR 8 x XOR drop_bit 7 x)" "sigma1 = (\<lambda>x. ROTR 19 x XOR ROTR 61 x XOR drop_bit 6 x)"
  "Sigma0 = (\<lambda>x. ROTR 28 x XOR ROTR 34 x XOR ROTR 39 x)" "Sigma1 = (\<lambda>x. ROTR 14 x XOR ROTR 18 x XOR ROTR 41 x)"
  by (simp_all add: fun_eq_iff sigma0_def sigma1_def Sigma0_def Sigma1_def ROTR64_def ROTR_def)

lemma sha512_block_fips:
  assumes "128 \<le> length W"
  shows "sha512_block H W = fips_compress512 H W"
proof -
  let ?r = "regs_of H" and ?X = "replicate 16 0 :: u64 list" and ?M = "word64_at W"
  have l: "ROUND_LOAD W j (X, r) = (X[j := ?M j], ROUND_00_15 j (?M j) r)" if "j < 16" for j X r
    using assms that by (simp add: ROUND_LOAD_def Let_def PULL64_word)
  obtain X1 where X1: "ROUNDS_8 (\<lambda>j. ROUND_LOAD W (8 + j)) (ROUNDS_8 (\<lambda>j. ROUND_LOAD W j) (?X, ?r)) =
      (X1, fold (sha512.sha2 ?M) [0..<16] ?r)" "window (sha512.W ?M) 16 X1"
    using sha512.load_16 [of "ROUND_LOAD W" ?M ?X ?r, OF l length_replicate] by blast
  define f where "f = (\<lambda>i s. ROUNDS_8 (\<lambda>j. ROUND_16_80 i (8 + j)) (ROUNDS_8 (\<lambda>j. ROUND_16_80 i j) s))"
  have m: "[16, 32, 48, 64] = map (\<lambda>j. 16 + 16 * j) [0..<4]" by (simp add: upt_rec)
  have turn: "\<exists>X'. f i (X, r) = (X', fold (sha512.sha2 ?M) [i..<i + 16] r) \<and> window (sha512.W ?M) (i + 16) X'"
    if i: "16 \<le> i" "i mod 16 = 0" "window (sha512.W ?M) i X" for i X r
  proof -
    have i16: "(i + j) mod 16 = j mod 16" for j using i(2) by (simp add: mod_add_eq [of i 16 j, symmetric])
    have s: "ROUND_16_80 i j (X, r) =
      (let T = X ! ((i + j) mod 16) + (sigma0 (X ! ((i + j + 1) mod 16)) + sigma1 (X ! ((i + j + 14) mod 16)) + X ! ((i + j + 9) mod 16)) in
       (X[(i + j) mod 16 := T], ROUND_00_15 (i + j) T r))" for j X r
      using i16 [of j] i16 [of "j + 1"] i16 [of "j + 14"] i16 [of "j + 9"] by (simp add: ROUND_16_80_def Let_def add.assoc)
    obtain X1 where X1: "ROUNDS_8 (\<lambda>j. ROUND_16_80 i j) (X, r) = (X1, fold (sha512.sha2 ?M) [i..<i + 8] r)"
        "window (sha512.W ?M) (i + 8) X1"
      using sha512.schedule_rounds [of "ROUND_16_80 i" i ?M X r, OF s i(1,3)] by blast
    have e: "i + 8 + 8 = i + 16" by simp
    have u: "[i..<i + 16] = [i..<i + 8] @ [i + 8..<i + 16]" by (rule upt_add_eq_append [of i "i + 8" 8, unfolded e, OF le_add1])
    have "ROUND_16_80 i (8 + j) (X, r) =
      (let T = X ! ((i + 8 + j) mod 16) + (sigma0 (X ! ((i + 8 + j + 1) mod 16)) + sigma1 (X ! ((i + 8 + j + 14) mod 16)) +
           X ! ((i + 8 + j + 9) mod 16)) in
       (X[(i + 8 + j) mod 16 := T], ROUND_00_15 (i + 8 + j) T r))" for j X r
      using s [of "8 + j" X r] by (simp only: add.assoc)
    from sha512.schedule_rounds [of "\<lambda>j. ROUND_16_80 i (8 + j)" "i + 8" ?M X1, OF this _ X1(2)] i(1)
    show ?thesis unfolding f_def X1(1) u fold_append comp_def e by auto
  qed
  obtain X2 where X2: "fold f [16, 32, 48, 64] (X1, fold (sha512.sha2 ?M) [0..<16] ?r) =
      (X2, fold (sha512.sha2 ?M) [16..<16 + 16 * 4] (fold (sha512.sha2 ?M) [0..<16] ?r))"
    unfolding m using sha512.loop_rounds [of 16 ?M f X1 4 "fold (sha512.sha2 ?M) [0..<16] ?r", OF turn _ X1(2)] by auto
  have u: "[0..<80] = [0..<16] @ [16..<16 + 16 * 4]" using upt_add_eq_append [of 0 16 64] by simp
  obtain a b c d e f' g h where r: "fold (sha512.sha2 ?M) [0..<80] ?r = (a, b, c, d, e, f', g, h)" by (rule regs_cases)
  have "fold (sha512.sha2 ?M) [16..<16 + 16 * 4] (fold (sha512.sha2 ?M) [0..<16] ?r) = (a, b, c, d, e, f', g, h)"
    using r unfolding u fold_append comp_def .
  then have "sha512_block H W = add_regs (fold (sha512.sha2 ?M) [0..<80] ?r) H"
    unfolding sha512_block_def Let_def regs_of.simps [symmetric] X1(1) f_def [symmetric] X2 r
    by (simp only: prod.case add_regs.simps add.commute)
  then show ?thesis by (simp only: fips_compress512_def Let_def fips_functions512)
qed


lemma fips_compress512_local: "length a = 128 \<Longrightarrow> fips_compress512 H (a @ b) = fips_compress512 H a"
proof -
  assume "length a = 128"
  then have "schedule s0 s1 (word64_at (a @ b)) = schedule s0 s1 (word64_at a)" for s0 s1
    by (intro ext schedule_cong) (simp add: word64_at_def)
  then show ?thesis by (simp only: fips_compress512_def)
qed

lemma length_sha512_block: "length (sha512_block H data) = 8"
  by (simp add: sha512_block_def Let_def split: prod.split)

interpretation sha512_md: compression sha512_block 128
proof unfold_locales
  fix a b :: "u8 list" and s assume "length a = 128"
  then show "sha512_block s (a @ b) = sha512_block s a"
    by (simp add: sha512_block_fips fips_compress512_local)
qed simp

lemma sha512_blocks_fips: "length H = 8 \<Longrightarrow> fold_blocks 128 sha512_block H m = fold_blocks 128 fips_compress512 H m"
  "length H = 8 \<Longrightarrow> length (fold_blocks 128 sha512_block H m) = 8"
proof -
  have b: "sha512_block s b = fips_compress512 s b \<and> length (sha512_block s b) = 8" if "length b = 128" for s b
    using sha512_block_fips [of b s] length_sha512_block [of s b] that by simp
  assume "length H = 8"
  with b fold_blocks_cong [of "\<lambda>H. length H = 8" 128 sha512_block fips_compress512 H m]
  show "fold_blocks 128 sha512_block H m = fold_blocks 128 fips_compress512 H m" "length (fold_blocks 128 sha512_block H m) = 8"
    by blast+
qed

section \<open>The collector\<close>

definition collects512 :: "u64 list \<Rightarrow> u8 list \<Rightarrow> sha512_ctx \<Rightarrow> bool" where
  "collects512 s0 m c \<longleftrightarrow> sha512_md.buffered s0 m (h5_h c) (h5_num c) (h5_p c) \<and>
     h5_Nl c = of_nat (8 * length m) \<and> h5_Nh c = of_nat (8 * length m div 2 ^ 64)"

lemma collects512_init:
  "h5_num c = 0 \<Longrightarrow> length (h5_p c) = 128 \<Longrightarrow> h5_Nl c = 0 \<Longrightarrow> h5_Nh c = 0 \<Longrightarrow> collects512 (h5_h c) [] c"
  using sha512_md.bufferedI [of "[]" 0 "[]"] by (simp add: collects512_def sha512_md.absorb_short)

lemma sha512_blocks_buffered:
  assumes a: "length a = 128 * k" "h5_h c = sha512_md.absorb s0 a" "h5_num c = 0" "length (h5_p c) = 128"
  shows "sha512_md.buffered s0 (a @ bs) (h5_h (sha512_blocks c bs)) (h5_num (sha512_blocks c bs)) (h5_p (sha512_blocks c bs))"
    "h5_Nl (sha512_blocks c bs) = h5_Nl c" "h5_Nh (sha512_blocks c bs) = h5_Nh c"
    "h5_md_len (sha512_blocks c bs) = h5_md_len c"
proof -
  let ?c = "sha512_blocks c bs" and ?absorb = "sha512_md.absorb"
  obtain n where n: "n = length bs div 128" "length (take (n * 128) bs) = 128 * n" "length (drop (n * 128) bs) < 128"
    "bs = take (n * 128) bs @ drop (n * 128) bs" by (rule sha512_md.split_blocks)
  have n0: "128 \<le> length bs \<longleftrightarrow> 0 < n" by (simp add: n(1) div_greater_zero_iff)
  have h: "(if 0 < n then block_loop sha512_block 128 (?absorb s0 a) bs n else ?absorb s0 a) = ?absorb s0 (a @ take (n * 128) bs)"
  proof (cases "n = 0")
    case False
    then have "block_loop sha512_block 128 (?absorb s0 a) bs n = ?absorb (?absorb s0 a) (take (n * 128) bs)"
      using sha512_md.block_absorb [OF n(2), of "?absorb s0 a" "drop (n * 128) bs"] by simp
    with False show ?thesis using sha512_md.absorb_append [OF a(1), of s0 "take (n * 128) bs"] by simp
  qed simp
  have "sha512_md.buffered s0 ((a @ take (n * 128) bs) @ drop (n * 128) bs) (h5_h ?c) (h5_num ?c) (h5_p ?c)"
    by (rule sha512_md.bufferedI [where k = "k + n"])
      (use n(2,3) n0 a h in \<open>auto simp: sha512_blocks_def sha512_block_data_order_def Let_def n(1) [symmetric] memcpy_at_def\<close>)
  then show "sha512_md.buffered s0 (a @ bs) (h5_h ?c) (h5_num ?c) (h5_p ?c)" by simp
qed (simp_all add: sha512_blocks_def Let_def)

lemma SHA512_Update_collects:
  assumes "collects512 s0 m c"
  shows "collects512 s0 (m @ bs) (SHA512_Update c bs) \<and> h5_md_len (SHA512_Update c bs) = h5_md_len c"
proof -
  let ?l = "h5_Nl c + push_bit 3 (of_nat (length bs))"
  define c1 where "c1 = c\<lparr>h5_Nh := (if ?l < h5_Nl c then h5_Nh c + 1 else h5_Nh c) + of_nat (length bs div 2 ^ 61), h5_Nl := ?l\<rparr>"
  have cnt: "h5_Nl c1 = of_nat (8 * length (m @ bs))" "h5_Nh c1 = of_nat (8 * length (m @ bs) div 2 ^ 64)"
    using counter_step_gen [where 'a = 64 and w = 61, of "h5_Nl c" "length m" "h5_Nh c" "length bs"] assms
    by (simp_all add: c1_def collects512_def)
  have "sha512_md.buffered s0 m (h5_h c1) (h5_num c1) (h5_p c1)" using assms by (simp add: collects512_def c1_def)
  then obtain a b k where ab: "m = a @ b" "length a = 128 * k" "length b < 128" "h5_h c1 = sha512_md.absorb s0 a"
      "h5_num c1 = length b" "take (length b) (h5_p c1) = b" "length (h5_p c1) = 128"
    by (rule sha512_md.bufferedE) simp
  have more: "h5_md_len c1 = h5_md_len c" by (simp add: c1_def)
  consider "bs = []" | "bs \<noteq> []" "b = []" | "bs \<noteq> []" "b \<noteq> []" "length bs + length b < 128"
    | "bs \<noteq> []" "b \<noteq> []" "128 \<le> length bs + length b" by linarith
  then show ?thesis
  proof cases
    case 1
    then show ?thesis using assms by (simp add: SHA512_Update_def)
  next
    case 2
    then have "SHA512_Update c bs = sha512_blocks c1 bs" using ab by (simp add: SHA512_Update_def c1_def Let_def)
    then show ?thesis using sha512_blocks_buffered [OF ab(2,4), of bs] 2 ab cnt more by (simp add: collects512_def)
  next
    case 3
    then have e: "SHA512_Update c bs = c1\<lparr>h5_p := memcpy_at (h5_p c1) (length b) bs, h5_num := length b + length bs\<rparr>"
      using ab by (simp add: SHA512_Update_def c1_def Let_def)
    have "sha512_md.buffered s0 (a @ (b @ bs)) (h5_h c1) (length b + length bs) (memcpy_at (h5_p c1) (length b) bs)"
      by (rule sha512_md.bufferedI [OF ab(2)]) (use 3 ab in \<open>auto simp: take_memcpy_at\<close>)
    then show ?thesis using e ab cnt more by (simp add: collects512_def)
  next
    case 4
    let ?n = "128 - length b"
    let ?t = "take ?n bs"
    let ?c2 = "c1\<lparr>h5_p := memcpy_at (h5_p c1) (length b) ?t, h5_num := 0,
      h5_h := sha512_block_data_order (h5_h c1) (memcpy_at (h5_p c1) (length b) ?t) 1\<rparr>"
    have t: "memcpy_at (h5_p c1) (length b) ?t = b @ ?t" "length (b @ ?t) = 128 * 1"
      using 4 ab by (simp_all add: memcpy_at_full)
    have e: "SHA512_Update c bs = sha512_blocks ?c2 (drop ?n bs)"
      using 4 ab by (simp add: SHA512_Update_def c1_def Let_def)
    have h: "h5_h ?c2 = sha512_md.absorb s0 (a @ b @ ?t)"
      using sha512_md.block_absorb [OF t(2), of "h5_h c1" "[]"] t(1) ab sha512_md.absorb_append [OF ab(2), of s0 "b @ ?t"]
      by (simp add: sha512_block_data_order_def)
    have "length (a @ b @ ?t) = 128 * (k + 1)" using ab(2) t(2) by simp
    note upd = sha512_blocks_buffered [OF this h, of "drop ?n bs"]
    have m: "(a @ b @ ?t) @ drop ?n bs = m @ bs" using ab by simp
    have p: "h5_num ?c2 = 0" "length (h5_p ?c2) = 128" using ab t by simp_all
    show ?thesis unfolding e using upd [OF p, unfolded m] cnt more by (simp add: collects512_def)
  qed
qed

lemma SHA512_Update_chunks:
  assumes "collects512 s0 m c"
  shows "collects512 s0 (m @ concat bss) (fold (\<lambda>bs c. SHA512_Update c bs) bss c) \<and>
    h5_md_len (fold (\<lambda>bs c. SHA512_Update c bs) bss c) = h5_md_len c"
  using assms
proof (induction bss arbitrary: m c)
  case (Cons bs bss)
  then show ?case using Cons.IH [of "m @ bs" "SHA512_Update c bs"] SHA512_Update_collects [of s0 m c bs] by simp
qed simp


lemma byte_of_nat64: "(ucast (drop_bit k (of_nat n :: u64)) :: u8) = of_nat (n div 2 ^ k)" if "k \<le> 56"
  unfolding drop_bit_eq_div [symmetric] using that by (intro bit_word_eqI) (auto simp: bit_simps)

lemma bytes64_of_nat: "bytes64 (of_nat n) = be_bytes 8 n"
proof -
  have eight: "8 = Suc (Suc (Suc (Suc (Suc (Suc (Suc (Suc 0)))))))" by simp
  have "bytes64 (of_nat n) = map (\<lambda>k. of_nat (n div 2 ^ k)) [56, 48, 40, 32, 24, 16, 8, 0]"
    using byte_of_nat64 [of 0 n] by (simp add: bytes64_def byte_of_nat64)
  also have "\<dots> = be_bytes 8 n" unfolding eight be_bytes.simps by (simp add: div_mult2_eq [symmetric])
  finally show ?thesis .
qed

lemma bytes64_length: "bytes64 (of_nat (n div 2 ^ 64)) @ bytes64 (of_nat n) = be_bytes 16 n"
  using be_bytes_append [of 8 8 n] by (simp add: bytes64_of_nat)

lemma bytes64_unat: "bytes64 w = be_bytes 8 (unat w)"
  using bytes64_of_nat [of "unat w"] by simp

lemma pad512_dvd: "128 dvd 128 * q + r + 17 + (239 - r) mod (128 :: nat)" if "r < 128"
proof (cases "r \<le> 111")
  case True
  then have "(239 - r) mod 128 = 111 - r" by (simp add: le_mod_geq)
  with True have "128 * q + r + 17 + (239 - r) mod 128 = 128 * (q + 1)" by simp
  then show ?thesis by (simp only: dvd_triv_left)
next
  case False
  with that have "128 * q + r + 17 + (239 - r) mod 128 = 128 * (q + 2)" by simp
  then show ?thesis by (simp only: dvd_triv_left)
qed

lemma length_sha512_pad: "128 dvd length (sha512_pad m)"
proof -
  have "length (sha512_pad m) = 128 * (length m div 128) + length m mod 128 + 17 + (239 - length m mod 128) mod 128"
    unfolding mult_div_mod_eq by (simp add: sha512_pad_def)
  then show ?thesis using pad512_dvd [of "length m mod 128" "length m div 128"] by (simp del: mult_div_mod_eq)
qed

lemma absorb_one512: "length a = 128 \<Longrightarrow> sha512_md.absorb s a = sha512_block_data_order s a 1"
  using sha512_md.block_absorb [of a 1 s "[]"] by (simp add: sha512_block_data_order_def)

lemma sha512_finish_collects:
  assumes "collects512 s0 m c"
  shows "h5_h (sha512_finish c) = sha512_md.absorb s0 (sha512_pad m)" "h5_md_len (sha512_finish c) = h5_md_len c"
proof -
  have "sha512_md.buffered s0 m (h5_h c) (h5_num c) (h5_p c)" using assms by (simp add: collects512_def)
  then obtain a b k where ab: "m = a @ b" "length a = 128 * k" "length b < 128" "h5_h c = sha512_md.absorb s0 a"
      "h5_num c = length b" "take (length b) (h5_p c) = b" "length (h5_p c) = 128"
    by (rule sha512_md.bufferedE) simp
  let ?len = "be_bytes 16 (8 * length m)" and ?block = sha512_block_data_order and ?absorb = sha512_md.absorb
  have p: "bytes64 (h5_Nh c) @ bytes64 (h5_Nl c) = ?len"
    using assms bytes64_length [of "8 * length m"] by (simp add: collects512_def)
  have d1: "(h5_p c)[length b := 0x80] = memcpy_at (h5_p c) (length b) [0x80]"
    using ab by (simp add: list_update_memcpy)
  have r: "length m mod 128 = length b" using ab by simp
  show "h5_h (sha512_finish c) = ?absorb s0 (sha512_pad m)"
  proof (cases "length b \<le> 111")
    case True
    let ?z = "replicate (111 - length b) (0 :: u8)"
    have k: "(239 - length b) mod 128 = 111 - length b" using True by (simp add: le_mod_geq)
    have "h5_h (sha512_finish c) =
        ?block (?absorb s0 a) (memcpy_at (memcpy_at (memcpy_at (h5_p c) (length b) [0x80]) (length b + 1) ?z) 112 ?len) 1"
      using True ab(3-7) p by (simp add: sha512_finish_def Let_def d1)
    also have "memcpy_at (memcpy_at (memcpy_at (h5_p c) (length b) [0x80]) (length b + 1) ?z) 112 ?len = b @ 0x80 # ?z @ ?len"
      using memcpy_at_at [of "length b" "[0x80]" "h5_p c" ?z] memcpy_at_at [of "length b" "0x80 # ?z" "h5_p c" ?len]
        memcpy_at_full [of "length b" "0x80 # ?z @ ?len" "h5_p c"] True ab by simp
    also have "?block (?absorb s0 a) (b @ 0x80 # ?z @ ?len) 1 = ?absorb s0 (a @ b @ 0x80 # ?z @ ?len)"
      using absorb_one512 [of "b @ 0x80 # ?z @ ?len" "?absorb s0 a"] sha512_md.absorb_append [OF ab(2)] True by simp
    finally show ?thesis using ab(1) r k by (simp add: sha512_pad_def)
  next
    case False
    let ?z = "replicate (127 - length b) (0 :: u8)"
    let ?d = "b @ 0x80 # ?z"
    have k: "(239 - length b) mod 128 = 239 - length b" using False ab(3) by simp
    have z: "replicate (239 - length b) (0 :: u8) = ?z @ replicate 112 0" using ab(3) by (simp flip: replicate_add)
    have d: "memcpy_at (memcpy_at (h5_p c) (length b) [0x80]) (length b + 1) ?z = ?d" "length ?d = 128 * 1"
      using memcpy_at_at [of "length b" "[0x80]" "h5_p c" ?z] memcpy_at_full [of "length b" "0x80 # ?z" "h5_p c"]
        False ab by simp_all
    have "h5_h (sha512_finish c) =
        ?block (?block (?absorb s0 a) ?d 1) (memcpy_at (memcpy_at ?d 0 (replicate 112 0)) 112 ?len) 1"
      using False ab(3-7) p d(1) by (simp add: sha512_finish_def Let_def d1)
    also have "memcpy_at (memcpy_at ?d 0 (replicate 112 0)) 112 ?len = replicate 112 0 @ ?len"
      using memcpy_at_at [of 0 "replicate 112 0" ?d ?len] memcpy_at_full [of 0 "replicate 112 0 @ ?len" ?d] d(2) by simp
    also have "?block (?block (?absorb s0 a) ?d 1) (replicate 112 0 @ ?len) 1 = ?absorb s0 (a @ ?d @ replicate 112 0 @ ?len)"
      using absorb_one512 [of ?d "?absorb s0 a"] absorb_one512 [of "replicate 112 0 @ ?len"] d(2)
        sha512_md.absorb_append [OF ab(2)] sha512_md.absorb_append [OF d(2)] by simp
    finally show ?thesis using ab(1) r k by (simp add: sha512_pad_def z)
  qed
  show "h5_md_len (sha512_finish c) = h5_md_len c" by (simp add: sha512_finish_def Let_def)
qed

lemma SHA512_chunks:
  assumes "h5_num c = 0" "length (h5_p c) = 128" "h5_Nl c = 0" "h5_Nh c = 0" "length (h5_h c) = 8"
    "h5_md_len c = 8 * n" "n = 6 \<or> n = 8"
  shows "fst (SHA512_Final True (fold (\<lambda>bs c. SHA512_Update c bs) bss c)) = Some (fips_sha512 (h5_h c) n (concat bss))"
proof -
  let ?c = "fold (\<lambda>bs c. SHA512_Update c bs) bss c"
  have c: "collects512 (h5_h c) (concat bss) ?c" "h5_md_len ?c = 8 * n"
    using SHA512_Update_chunks [OF collects512_init [OF assms(1-4)], of bss] assms(6) by simp_all
  let ?h = "fold_blocks 128 sha512_block (h5_h c) (sha512_pad (concat bss))"
  have h: "h5_h (sha512_finish ?c) = ?h" "h5_md_len (sha512_finish ?c) = 8 * n"
    using sha512_finish_collects [OF c(1)] c(2) sha512_md.absorb_fold [OF length_sha512_pad] by simp_all
  have "fst (SHA512_Final True ?c) = Some (concat (map (\<lambda>i. bytes64 (?h ! i)) [0..<n]))"
    using assms(7) by (auto simp: SHA512_Final_def Let_def h)
  also have "map (\<lambda>i. bytes64 (?h ! i)) [0..<n] = map bytes64 (take n ?h)"
    using assms(5,7) sha512_blocks_fips(2) by (intro nth_equalityI) auto
  finally show ?thesis using sha512_blocks_fips(1) [OF assms(5)] by (simp add: fips_sha512_def bytes64_unat [abs_def])
qed

text \<open>
  C8: SHA-384 and SHA-512 of the code are the functions of FIPS 180-4, for every message,
  however it is cut into updates and whatever the uninitialised buffer of the context held.
\<close>

theorem SHA512_correct:
  assumes "length p = 128"
  shows "SHA512 p m = Some (fips_sha512 (h5_h (SHA512_Init p)) 8 m) \<and>
   SHA384 p m = Some (fips_sha512 (h5_h (SHA384_Init p)) 6 m) \<and>
   fst (SHA512_Final True (fold (\<lambda>bs c. SHA512_Update c bs) bss (SHA512_Init p))) = SHA512 p (concat bss) \<and>
   fst (SHA384_Final True (fold (\<lambda>bs c. SHA384_Update c bs) bss (SHA384_Init p))) = SHA384 p (concat bss)"
proof -
  have 512: "fst (SHA512_Final True (fold (\<lambda>bs c. SHA512_Update c bs) bss (SHA512_Init p))) =
      Some (fips_sha512 (h5_h (SHA512_Init p)) 8 (concat bss))" for bss
    by (rule SHA512_chunks) (simp_all add: SHA512_Init_def assms)
  have 384: "fst (SHA512_Final True (fold (\<lambda>bs c. SHA512_Update c bs) bss (SHA384_Init p))) =
      Some (fips_sha512 (h5_h (SHA384_Init p)) 6 (concat bss))" for bss
    by (rule SHA512_chunks) (simp_all add: SHA384_Init_def assms)
  show ?thesis
    using 512 [of "[m]"] 384 [of "[m]"] 512 [of bss] 384 [of bss] 512 [of "[concat bss]"] 384 [of "[concat bss]"]
    by (simp add: SHA512_def SHA384_def SHA384_Final_def SHA384_Update_def Let_def case_prod_beta)
qed

theorem SHA512_correct_witness:
  "length (replicate 128 (0 :: u8)) = 128 \<and>
   SHA512 (replicate 128 0) [0x61] = fst (SHA512_Final True (SHA512_Update (SHA512_Update (SHA512_Init (replicate 128 0)) []) [0x61]))"
  using SHA512_correct [of "replicate 128 0" "[0x61]" "[[], [0x61]]"] by simp

end
