(* ===== verification/Sha_constants.thy ===== *)
theory Sha_constants
  imports Sha256 Sha512
begin

text \<open>
  The constants of the SHA-2 digests against their definition.
\<close>

section \<open>Roots of primes\<close>

definition sha2_primes :: "nat list" where
  "sha2_primes =
    [2, 3, 5, 7, 11, 13, 17, 19, 23, 29, 31, 37, 41, 43, 47, 53, 59, 61, 67, 71, 73, 79, 83, 89, 97, 101, 103, 107, 109, 113,
     127, 131, 137, 139, 149, 151, 157, 163, 167, 173, 179, 181, 191, 193, 197, 199, 211, 223, 227, 229, 233, 239, 241, 251,
     257, 263, 269, 271, 277, 281, 283, 293, 307, 311, 313, 317, 331, 337, 347, 349, 353, 359, 367, 373, 379, 383, 389, 397,
     401, 409]"

text \<open>\<open>r\<close> is the first \<open>w\<close> bits of the fractional part of the \<open>k\<close>-th root of \<open>p\<close>; its integral part is below 24.\<close>

definition iroot :: "nat \<Rightarrow> nat \<Rightarrow> nat" where
  "iroot k p = length (filter (\<lambda>i. i ^ k \<le> p) [1..<24])"

definition root_bits :: "nat \<Rightarrow> nat \<Rightarrow> nat \<Rightarrow> nat \<Rightarrow> bool" where
  "root_bits k w p r \<longleftrightarrow>
    (let x = iroot k p * 2 ^ w + r in r < 2 ^ w \<and> x ^ k \<le> p * 2 ^ (w * k) \<and> p * 2 ^ (w * k) < (x + 1) ^ k)"

lemma iroot_simp:
  "iroot k p = length (filter (\<lambda>i. i ^ k \<le> p) [1, 2, 3, 4, 5, 6, 7, 8, 9, 10, 11, 12, 13, 14, 15, 16, 17, 18, 19, 20, 21, 22, 23])"
proof -
  have "[1..<24] = [1, 2, 3, 4, 5, 6, 7, 8, 9, 10, 11, 12, 13, 14, 15, 16, 17, 18, 19, 20, 21, 22, 23 :: nat]"
    by (simp add: upt_rec)
  then show ?thesis by (simp only: iroot_def)
qed

lemmas root_eval = root_bits_def iroot_simp Let_def

lemma K256_roots: "list_all2 (\<lambda>p c. root_bits 3 32 p (unat c)) (take 64 sha2_primes) K256"
proof -
  have t: "take 64 sha2_primes =
    [2, 3, 5, 7, 11, 13, 17, 19, 23, 29, 31, 37, 41, 43, 47, 53, 59, 61, 67, 71, 73, 79, 83, 89, 97, 101, 103, 107, 109, 113,
     127, 131, 137, 139, 149, 151, 157, 163, 167, 173, 179, 181, 191, 193, 197, 199, 211, 223, 227, 229, 233, 239, 241, 251,
     257, 263, 269, 271, 277, 281, 283, 293, 307, 311]"
    by (simp add: sha2_primes_def)
  show ?thesis
    unfolding t K256_def concat.simps append_Cons append_Nil append_Nil2 list_all2_Cons by (intro conjI) (simp add: root_eval)+
qed

lemma K512_roots: "list_all2 (\<lambda>p c. root_bits 3 64 p (unat c)) sha2_primes K512"
  unfolding sha2_primes_def K512_def concat.simps append_Cons append_Nil append_Nil2 list_all2_Cons by (intro conjI) (simp add: root_eval)+

lemma Init_roots:
  "list_all2 (\<lambda>p c. root_bits 2 32 p (unat c)) (take 8 sha2_primes) (hc_h SHA256_Init)"
  "list_all2 (\<lambda>p c. root_bits 2 64 p (unat c)) (take 8 sha2_primes) (h5_h (SHA512_Init b))"
  "list_all2 (\<lambda>p c. root_bits 2 64 p (unat c)) (take 8 (drop 8 sha2_primes)) (h5_h (SHA384_Init b))"
proof -
  have t: "take 8 sha2_primes = [2, 3, 5, 7, 11, 13, 17, 19]" "take 8 (drop 8 sha2_primes) = [23, 29, 31, 37, 41, 43, 47, 53]"
    by (simp_all add: sha2_primes_def)
  note s = SHA256_Init_def SHA512_Init_def SHA384_Init_def hash_ctx.simps sha512_ctx.simps list_all2_Cons
  show "list_all2 (\<lambda>p c. root_bits 2 32 p (unat c)) (take 8 sha2_primes) (hc_h SHA256_Init)"
    unfolding t s by (intro conjI) (simp add: root_eval)+
  show "list_all2 (\<lambda>p c. root_bits 2 64 p (unat c)) (take 8 sha2_primes) (h5_h (SHA512_Init b))"
    unfolding t s by (intro conjI) (simp add: root_eval)+
  show "list_all2 (\<lambda>p c. root_bits 2 64 p (unat c)) (take 8 (drop 8 sha2_primes)) (h5_h (SHA384_Init b))"
    unfolding t s by (intro conjI) (simp add: root_eval)+
qed

text \<open>
  The constants of the SHA-2 code are those FIPS 180-4 defines: the first bits of the
  fractional parts of the cube roots of the first primes in the rounds, of their square roots
  in the initial values of SHA-256 and SHA-512 and of the next eight primes in that of SHA-384,
  whose words' lower halves are the initial value of SHA-224.
\<close>

theorem SHA2_constants:
  "list_all2 (\<lambda>p c. root_bits 3 32 p (unat c)) (take 64 sha2_primes) K256 \<and>
   list_all2 (\<lambda>p c. root_bits 3 64 p (unat c)) sha2_primes K512 \<and>
   list_all2 (\<lambda>p c. root_bits 2 32 p (unat c)) (take 8 sha2_primes) (hc_h SHA256_Init) \<and>
   list_all2 (\<lambda>p c. root_bits 2 64 p (unat c)) (take 8 sha2_primes) (h5_h (SHA512_Init b)) \<and>
   list_all2 (\<lambda>p c. root_bits 2 64 p (unat c)) (take 8 (drop 8 sha2_primes)) (h5_h (SHA384_Init b)) \<and>
   hc_h SHA224_Init = map ucast (h5_h (SHA384_Init b))"
  using K256_roots K512_roots Init_roots by (simp add: SHA224_Init_def SHA384_Init_def)

end
