(* ===== verification/Sha1.thy ===== *)
theory Sha1
  imports Sha2
begin


text \<open>
  SHA-1 (\<open>crypto/fipsmodule/sha/sha1.c\<close>, built without assembly): the code, the definition in
  FIPS 180-4, and that they agree for every message and every way to cut it.
\<close>

section \<open>Code\<close>

definition SHA1_Init :: hash_ctx where
  "SHA1_Init = \<lparr>hc_h = [0x67452301, 0xefcdab89, 0x98badcfe, 0x10325476, 0xc3d2e1f0], hc_Nl = 0, hc_Nh = 0,
     hc_data = replicate 64 0, hc_num = 0\<rparr>"

text \<open>\<open>HASH_MAKE_STRING\<close>\<close>

definition SHA1_make_string :: "hash_ctx \<Rightarrow> u8 list option" where
  "SHA1_make_string c = Some (HOST_l2c True (hc_h c ! 0) @ HOST_l2c True (hc_h c ! 1) @ HOST_l2c True (hc_h c ! 2) @
     HOST_l2c True (hc_h c ! 3) @ HOST_l2c True (hc_h c ! 4))"

definition SHA1_ROTATE :: "u32 \<Rightarrow> nat \<Rightarrow> u32" where
  "SHA1_ROTATE a n = push_bit n a OR drop_bit (32 - n) a"

abbreviation (input) K_00_19 :: u32 where "K_00_19 \<equiv> 0x5a827999"
abbreviation (input) K_20_39 :: u32 where "K_20_39 \<equiv> 0x6ed9eba1"
abbreviation (input) K_40_59 :: u32 where "K_40_59 \<equiv> 0x8f1bbcdc"
abbreviation (input) K_60_79 :: u32 where "K_60_79 \<equiv> 0xca62c1d6"

definition F_00_19 :: "u32 \<Rightarrow> u32 \<Rightarrow> u32 \<Rightarrow> u32" where "F_00_19 b c d = ((c XOR d) AND b) XOR d"
definition F_20_39 :: "u32 \<Rightarrow> u32 \<Rightarrow> u32 \<Rightarrow> u32" where "F_20_39 b c d = b XOR c XOR d"
definition F_40_59 :: "u32 \<Rightarrow> u32 \<Rightarrow> u32 \<Rightarrow> u32" where "F_40_59 b c d = (b AND c) OR ((b OR c) AND d)"
definition F_60_79 :: "u32 \<Rightarrow> u32 \<Rightarrow> u32 \<Rightarrow> u32" where "F_60_79 b c d = F_20_39 b c d"

type_synonym sha1_regs = "u32 \<times> u32 \<times> u32 \<times> u32 \<times> u32 \<times> u32"

text \<open>The macros on the 16 words \<open>X\<close> and the registers; \<open>xi\<close>, \<open>xa\<close>, ... are numbers of words.\<close>

definition Xupdate :: "u32 list \<Rightarrow> nat \<Rightarrow> nat \<Rightarrow> nat \<Rightarrow> nat \<Rightarrow> nat \<Rightarrow> u32 list \<times> u32" where
  "Xupdate X ix ia ib ic id' = (let a = X ! ia XOR X ! ib XOR X ! ic XOR X ! id'; a = SHA1_ROTATE a 1 in (X[ix := a], a))"

definition BODY_00_15 :: "nat \<Rightarrow> u32 list \<times> sha1_regs \<Rightarrow> u32 list \<times> sha1_regs" where
  "BODY_00_15 xi = (\<lambda>(X, a, b, c, d, e, f).
     let f = X ! xi + e + K_00_19 + SHA1_ROTATE a 5 + F_00_19 b c d; b = SHA1_ROTATE b 30 in (X, a, b, c, d, e, f))"

definition BODY_16_19 :: "nat \<Rightarrow> nat \<Rightarrow> nat \<Rightarrow> nat \<Rightarrow> nat \<Rightarrow> u32 list \<times> sha1_regs \<Rightarrow> u32 list \<times> sha1_regs" where
  "BODY_16_19 xi xa xb xc xd = (\<lambda>(X, a, b, c, d, e, f).
     let (X, f) = Xupdate X xi xa xb xc xd; f = f + (e + K_00_19 + SHA1_ROTATE a 5 + F_00_19 b c d); b = SHA1_ROTATE b 30 in
     (X, a, b, c, d, e, f))"

definition BODY_20_31 :: "nat \<Rightarrow> nat \<Rightarrow> nat \<Rightarrow> nat \<Rightarrow> nat \<Rightarrow> u32 list \<times> sha1_regs \<Rightarrow> u32 list \<times> sha1_regs" where
  "BODY_20_31 xi xa xb xc xd = (\<lambda>(X, a, b, c, d, e, f).
     let (X, f) = Xupdate X xi xa xb xc xd; f = f + (e + K_20_39 + SHA1_ROTATE a 5 + F_20_39 b c d); b = SHA1_ROTATE b 30 in
     (X, a, b, c, d, e, f))"

definition BODY_32_39 :: "nat \<Rightarrow> nat \<Rightarrow> nat \<Rightarrow> nat \<Rightarrow> u32 list \<times> sha1_regs \<Rightarrow> u32 list \<times> sha1_regs" where
  "BODY_32_39 xa xb xc xd = (\<lambda>(X, a, b, c, d, e, f).
     let (X, f) = Xupdate X xa xa xb xc xd; f = f + (e + K_20_39 + SHA1_ROTATE a 5 + F_20_39 b c d); b = SHA1_ROTATE b 30 in
     (X, a, b, c, d, e, f))"

definition BODY_40_59 :: "nat \<Rightarrow> nat \<Rightarrow> nat \<Rightarrow> nat \<Rightarrow> u32 list \<times> sha1_regs \<Rightarrow> u32 list \<times> sha1_regs" where
  "BODY_40_59 xa xb xc xd = (\<lambda>(X, a, b, c, d, e, f).
     let (X, f) = Xupdate X xa xa xb xc xd; f = f + (e + K_40_59 + SHA1_ROTATE a 5 + F_40_59 b c d); b = SHA1_ROTATE b 30 in
     (X, a, b, c, d, e, f))"

definition BODY_60_79 :: "nat \<Rightarrow> nat \<Rightarrow> nat \<Rightarrow> nat \<Rightarrow> u32 list \<times> sha1_regs \<Rightarrow> u32 list \<times> sha1_regs" where
  "BODY_60_79 xa xb xc xd = (\<lambda>(X, a, b, c, d, e, f).
     let (X, f) = Xupdate X xa xa xb xc xd; f = X ! xa + e + K_60_79 + SHA1_ROTATE a 5 + F_60_79 b c d; b = SHA1_ROTATE b 30 in
     (X, a, b, c, d, e, f))"

text \<open>
  The macro in line \<open>i\<close> of the 80 lines of the code: the numbers of the words go round in the
  16 words.
\<close>

definition BODY :: "nat \<Rightarrow> u32 list \<times> sha1_regs \<Rightarrow> u32 list \<times> sha1_regs" where
  "BODY i =
    (let x0 = i mod 16; x2 = (i + 2) mod 16; x8 = (i + 8) mod 16; x13 = (i + 13) mod 16 in
     if i < 16 then BODY_00_15 i
     else if i < 20 then BODY_16_19 x0 x0 x2 x8 x13
     else if i < 32 then BODY_20_31 x0 x0 x2 x8 x13
     else if i < 40 then BODY_32_39 x0 x2 x8 x13
     else if i < 60 then BODY_40_59 x0 x2 x8 x13
     else BODY_60_79 x0 x2 x8 x13)"

text \<open>Six lines; the roles of the six registers rotate.\<close>

definition LINES_6 :: "(nat \<Rightarrow> 'x \<times> 'w \<times> 'w \<times> 'w \<times> 'w \<times> 'w \<times> 'w \<Rightarrow> 'x \<times> 'w \<times> 'w \<times> 'w \<times> 'w \<times> 'w \<times> 'w) \<Rightarrow>
    'x \<times> 'w \<times> 'w \<times> 'w \<times> 'w \<times> 'w \<times> 'w \<Rightarrow> 'x \<times> 'w \<times> 'w \<times> 'w \<times> 'w \<times> 'w \<times> 'w" where
  "LINES_6 R s =
    (let (X, A, B, C, D, E, T) = s;
         (X, A, B, C, D, E, T) = R 0 (X, A, B, C, D, E, T);
         (X, T, A, B, C, D, E) = R 1 (X, T, A, B, C, D, E);
         (X, E, T, A, B, C, D) = R 2 (X, E, T, A, B, C, D);
         (X, D, E, T, A, B, C) = R 3 (X, D, E, T, A, B, C);
         (X, C, D, E, T, A, B) = R 4 (X, C, D, E, T, A, B);
         (X, B, C, D, E, T, A) = R 5 (X, B, C, D, E, T, A) in
     (X, A, B, C, D, E, T))"

text \<open>
  The body of the loop: 13 times six lines and two more.  The register \<open>T\<close> has no initial value.
  The code reads each word just before the line that uses it first.
\<close>

definition sha1_block :: "u32 list \<Rightarrow> u8 list \<Rightarrow> u32 list" where
  "sha1_block state data =
    (let X = map (\<lambda>i. HOST_c2l True (drop (4 * i) data)) [0..<16];
         (X, A, B, C, D, E, T) = fold (\<lambda>i. LINES_6 (\<lambda>j. BODY (6 * i + j))) [0..<13]
           (X, state ! 0, state ! 1, state ! 2, state ! 3, state ! 4, 0);
         (X, A, B, C, D, E, T) = BODY 78 (X, A, B, C, D, E, T);
         (X, T, A, B, C, D, E) = BODY 79 (X, T, A, B, C, D, E) in
     [state ! 0 + E, state ! 1 + T, state ! 2 + A, state ! 3 + B, state ! 4 + C])"

text \<open>The loop ends when \<open>--num\<close> is zero, so \<open>num = 0\<close> stands for \<open>2 ^ 64\<close> blocks.\<close>

definition sha1_block_data_order :: block_fun where
  "sha1_block_data_order state data num = block_loop sha1_block 64 state data (if num = 0 then size_mod else num)"

definition SHA1_Update :: "hash_ctx \<Rightarrow> u8 list \<Rightarrow> hash_ctx" where
  "SHA1_Update c data = HASH_UPDATE sha1_block_data_order c data"

definition SHA1_Final :: "hash_ctx \<Rightarrow> u8 list option \<times> hash_ctx" where
  "SHA1_Final c = HASH_FINAL SHA1_make_string sha1_block_data_order True c"

definition SHA1_Transform :: "hash_ctx \<Rightarrow> u8 list \<Rightarrow> hash_ctx" where
  "SHA1_Transform c data = HASH_TRANSFORM sha1_block_data_order c data"

definition SHA1 :: "u8 list \<Rightarrow> u8 list option" where
  "SHA1 data = (let ctx = SHA1_Init; ctx = SHA1_Update ctx data; (out, ctx) = SHA1_Final ctx in out)"

section \<open>FIPS 180-4\<close>

definition ROTL :: "nat \<Rightarrow> u32 \<Rightarrow> u32" where
  "ROTL n x = push_bit n x OR drop_bit (32 - n) x"

fun schedule1 :: "(nat \<Rightarrow> u32) \<Rightarrow> nat \<Rightarrow> u32" where
  "schedule1 M t =
    (if t < 16 then M t
     else ROTL 1 (schedule1 M (t - 3) XOR schedule1 M (t - 8) XOR schedule1 M (t - 14) XOR schedule1 M (t - 16)))"

declare schedule1.simps [simp del]

definition fips_f :: "nat \<Rightarrow> u32 \<Rightarrow> u32 \<Rightarrow> u32 \<Rightarrow> u32" where
  "fips_f t x y z = (if t < 20 then Ch x y z else if t < 40 then x XOR y XOR z else if t < 60 then Maj x y z else x XOR y XOR z)"

definition fips_K :: "nat \<Rightarrow> u32" where
  "fips_K t = (if t < 20 then 0x5a827999 else if t < 40 then 0x6ed9eba1 else if t < 60 then 0x8f1bbcdc else 0xca62c1d6)"

definition fips_step1 :: "(nat \<Rightarrow> u32) \<Rightarrow> nat \<Rightarrow> u32 \<times> u32 \<times> u32 \<times> u32 \<times> u32 \<Rightarrow> u32 \<times> u32 \<times> u32 \<times> u32 \<times> u32" where
  "fips_step1 W t = (\<lambda>(a, b, c, d, e). let T = ROTL 5 a + fips_f t b c d + e + fips_K t + W t in (T, a, ROTL 30 b, c, d))"

definition fips_compress1 :: "u32 list \<Rightarrow> u8 list \<Rightarrow> u32 list" where
  "fips_compress1 H M =
    (let (a, b, c, d, e) = fold (fips_step1 (schedule1 (word_at True M))) [0..<80] (H ! 0, H ! 1, H ! 2, H ! 3, H ! 4) in
     [a + H ! 0, b + H ! 1, c + H ! 2, d + H ! 3, e + H ! 4])"

definition fips_sha1 :: "u8 list \<Rightarrow> u8 list" where
  "fips_sha1 m = md_digest True 5 fips_compress1 [0x67452301, 0xefcdab89, 0x98badcfe, 0x10325476, 0xc3d2e1f0] m"

section \<open>The code computes the digest\<close>

text \<open>The sixth register is scratch space.\<close>

fun rotate_6 :: "'x \<times> 'w \<times> 'w \<times> 'w \<times> 'w \<times> 'w \<times> 'w \<Rightarrow> 'x \<times> 'w \<times> 'w \<times> 'w \<times> 'w \<times> 'w \<times> 'w" where
  "rotate_6 (X, a, b, c, d, e, f) = (X, f, a, b, c, d, e)"

fun five :: "'x \<times> 'w \<times> 'w \<times> 'w \<times> 'w \<times> 'w \<times> 'w \<Rightarrow> 'w \<times> 'w \<times> 'w \<times> 'w \<times> 'w" where
  "five (X, a, b, c, d, e, f) = (a, b, c, d, e)"

lemma LINES_6_fold: "LINES_6 R s = fold (\<lambda>j s. rotate_6 (R j s)) [0..<6] s"
proof -
  have u: "[0..<6] = [0, 1, 2, 3, 4, 5]" by (simp add: upt_rec)
  obtain X A B C D E T where s: "s = (X, A, B, C, D, E, T)" by (cases s)
  obtain X0 A0 B0 C0 D0 E0 T0 where r0: "R 0 (X, A, B, C, D, E, T) = (X0, A0, B0, C0, D0, E0, T0)" by (cases "R 0 (X, A, B, C, D, E, T)")
  obtain X1 A1 B1 C1 D1 E1 T1 where r1: "R 1 (X0, T0, A0, B0, C0, D0, E0) = (X1, T1, A1, B1, C1, D1, E1)" by (cases "R 1 (X0, T0, A0, B0, C0, D0, E0)")
  obtain X2 A2 B2 C2 D2 E2 T2 where r2: "R 2 (X1, E1, T1, A1, B1, C1, D1) = (X2, E2, T2, A2, B2, C2, D2)" by (cases "R 2 (X1, E1, T1, A1, B1, C1, D1)")
  obtain X3 A3 B3 C3 D3 E3 T3 where r3: "R 3 (X2, D2, E2, T2, A2, B2, C2) = (X3, D3, E3, T3, A3, B3, C3)" by (cases "R 3 (X2, D2, E2, T2, A2, B2, C2)")
  obtain X4 A4 B4 C4 D4 E4 T4 where r4: "R 4 (X3, C3, D3, E3, T3, A3, B3) = (X4, C4, D4, E4, T4, A4, B4)" by (cases "R 4 (X3, C3, D3, E3, T3, A3, B3)")
  obtain X5 A5 B5 C5 D5 E5 T5 where r5: "R 5 (X4, B4, C4, D4, E4, T4, A4) = (X5, B5, C5, D5, E5, T5, A5)" by (cases "R 5 (X4, B4, C4, D4, E4, T4, A4)")
  show ?thesis unfolding u s by (simp add: LINES_6_def r0 r1 [simplified] r2 r3 r4 r5)
qed

lemma fips_functions1: "F_00_19 b c d = Ch b c d" "F_20_39 b c d = b XOR c XOR d" "F_40_59 b c d = Maj b c d"
  "F_60_79 b c d = b XOR c XOR d" "SHA1_ROTATE x n = ROTL n x"
proof -
  show "F_00_19 b c d = Ch b c d" "F_40_59 b c d = Maj b c d"
    by (rule bit_word_eqI, auto simp: bit_simps F_00_19_def F_40_59_def Ch_def Maj_def)+
qed (simp_all add: F_20_39_def F_60_79_def SHA1_ROTATE_def ROTL_def)

lemma window_schedule1:
  assumes "window (schedule1 M) t X" "16 \<le> t"
  shows "SHA1_ROTATE (X ! (t mod 16) XOR X ! ((t + 2) mod 16) XOR X ! ((t + 8) mod 16) XOR X ! ((t + 13) mod 16)) 1 = schedule1 M t"
proof -
  have i: "(t + 2) mod 16 = (t - 14) mod 16" "(t + 8) mod 16 = (t - 8) mod 16" "(t + 13) mod 16 = (t - 3) mod 16"
    "t mod 16 = (t - 16) mod 16"
    using mod_16_shift [OF assms(2), of 2] mod_16_shift [OF assms(2), of 8] mod_16_shift [OF assms(2), of 13] assms(2)
    by (simp_all add: le_mod_geq)
  show ?thesis
    unfolding i using assms(2) window_get [OF assms(1)]
    by (simp add: schedule1.simps [of M t] fips_functions1 xor.assoc xor.commute xor.left_commute)
qed

lemma BODY_step:
  assumes "i < 80" "window (schedule1 M) (max 16 i) X"
  obtains X' r' where "rotate_6 (BODY i (X, r)) = (X', r')" "five (X', r') = fips_step1 (schedule1 M) i (five (X, r))"
    "window (schedule1 M) (max 16 (Suc i)) X'"
proof (cases "i < 16")
  case True
  then have x: "X ! i = schedule1 M i" using window_get [OF assms(2), of i] by simp
  show thesis
    using that [of X "snd (rotate_6 (BODY i (X, r)))"] True assms(2)
    by (cases r) (simp add: BODY_def BODY_00_15_def fips_step1_def fips_functions1 fips_f_def fips_K_def Let_def x add_ac)
next
  case False
  then have w: "window (schedule1 M) i X" "16 \<le> i" using assms(2) by simp_all
  let ?X = "X[i mod 16 := schedule1 M i]"
  have u: "Xupdate X (i mod 16) (i mod 16) ((i + 2) mod 16) ((i + 8) mod 16) ((i + 13) mod 16) = (?X, schedule1 M i)"
    using window_schedule1 [OF w] by (simp add: Xupdate_def Let_def)
  have x: "?X ! (i mod 16) = schedule1 M i" using w(1) by (simp add: window_def)
  have "rotate_6 (BODY i (X, r)) = (?X, snd (rotate_6 (BODY i (X, r)))) \<and>
      five (?X, snd (rotate_6 (BODY i (X, r)))) = fips_step1 (schedule1 M) i (five (X, r))"
    using False assms(1) u x
    by (cases r) (simp add: BODY_def BODY_16_19_def BODY_20_31_def BODY_32_39_def BODY_40_59_def BODY_60_79_def
        fips_step1_def fips_functions1 fips_f_def fips_K_def Let_def add_ac)
  then have "rotate_6 (BODY i (X, r)) = (?X, snd (rotate_6 (BODY i (X, r))))"
    "five (?X, snd (rotate_6 (BODY i (X, r)))) = fips_step1 (schedule1 M) i (five (X, r))" by blast+
  then show thesis by (rule that) (use window_put [OF w(1) refl] w(2) in simp)
qed

lemma BODY_steps:
  assumes "n \<le> 80" "window (schedule1 M) 16 X"
  obtains X' r' where "fold (\<lambda>i s. rotate_6 (BODY i s)) [0..<n] (X, r) = (X', r')"
    "five (X', r') = fold (fips_step1 (schedule1 M)) [0..<n] (five (X, r))" "window (schedule1 M) (max 16 n) X'"
  using assms
proof (induction n arbitrary: thesis)
  case 0
  then show ?case by simp
next
  case (Suc n)
  from Suc.prems(2,3) obtain X1 r1 where 1: "fold (\<lambda>i s. rotate_6 (BODY i s)) [0..<n] (X, r) = (X1, r1)"
    "five (X1, r1) = fold (fips_step1 (schedule1 M)) [0..<n] (five (X, r))" "window (schedule1 M) (max 16 n) X1"
    using Suc.IH by (metis Suc_leD)
  have "n < 80" using Suc.prems(2) by simp
  from BODY_step [OF this 1(3), of r1] obtain X2 r2 where "rotate_6 (BODY n (X1, r1)) = (X2, r2)"
    "five (X2, r2) = fips_step1 (schedule1 M) n (five (X1, r1))" "window (schedule1 M) (max 16 (Suc n)) X2" by blast
  with 1 show ?case by (intro Suc.prems(1)) simp_all
qed

lemma LINES_6_loop: "fold (\<lambda>i. LINES_6 (\<lambda>j. R (6 * i + j))) [0..<n] s = fold (\<lambda>i s. rotate_6 (R i s)) [0..<6 * n] s"
proof (induction n)
  case (Suc n)
  have u: "[0..<6 * Suc n] = [0..<6 * n] @ map (\<lambda>j. j + 6 * n) [0..<6]"
    unfolding map_add_upt using upt_add_eq_append [of 0 "6 * n" 6] by (simp add: add.commute)
  show ?case
    unfolding u fold_append upt_Suc_append [OF le0] fold_map comp_def
    by (simp only: fold_simps id_apply LINES_6_fold Suc.IH add.commute [of "6 * n"])
qed simp

lemma sha1_block_fips:
  assumes "64 \<le> length data"
  shows "sha1_block H data = fips_compress1 H data"
proof -
  let ?X = "map (\<lambda>i. HOST_c2l True (drop (4 * i) data)) [0..<16]" and ?M = "word_at True data"
  let ?r = "(H ! 0, H ! 1, H ! 2, H ! 3, H ! 4, 0)"
  have "?X ! u = schedule1 ?M u" if "u < 16" for u
    using assms that by (simp add: HOST_c2l_word schedule1.simps)
  then have w: "window (schedule1 ?M) 16 ?X" by (simp add: window_def)
  obtain X' r' where n: "fold (\<lambda>i s. rotate_6 (BODY i s)) [0..<80] (?X, ?r) = (X', r')"
    "five (X', r') = fold (fips_step1 (schedule1 ?M)) [0..<80] (five (?X, ?r))"
    by (rule BODY_steps [OF order.refl w])
  obtain Y A B C D E T where f: "fold (\<lambda>i s. rotate_6 (BODY i s)) [0..<6 * 13] (?X, ?r) = (Y, A, B, C, D, E, T)"
    by (cases "fold (\<lambda>i s. rotate_6 (BODY i s)) [0..<6 * 13] (?X, ?r)")
  obtain Y1 A1 B1 C1 D1 E1 T1 where b1: "BODY 78 (Y, A, B, C, D, E, T) = (Y1, A1, B1, C1, D1, E1, T1)"
    by (cases "BODY 78 (Y, A, B, C, D, E, T)")
  obtain Y2 A2 B2 C2 D2 E2 T2 where b2: "BODY 79 (Y1, T1, A1, B1, C1, D1, E1) = (Y2, T2, A2, B2, C2, D2, E2)"
    by (cases "BODY 79 (Y1, T1, A1, B1, C1, D1, E1)")
  have u: "[0..<80] = [0..<6 * 13] @ [78, 79]" using upt_add_eq_append [of 0 78 2] by (simp add: upt_rec [of 78] upt_rec [of 79])
  have "(X', r') = (Y2, E2, T2, A2, B2, C2, D2)"
    using n(1) unfolding u fold_append comp_def f by (simp add: b1 b2)
  then have five: "fold (fips_step1 (schedule1 ?M)) [0..<80] (H ! 0, H ! 1, H ! 2, H ! 3, H ! 4) = (E2, T2, A2, B2, C2)"
    using n(2) by simp
  have "sha1_block H data = [H ! 0 + E2, H ! 1 + T2, H ! 2 + A2, H ! 3 + B2, H ! 4 + C2]"
    unfolding sha1_block_def LINES_6_loop Let_def f by (simp add: b1 b2)
  then show ?thesis unfolding fips_compress1_def five by (simp add: add.commute)
qed

lemma schedule1_cong: "(\<And>t. t < 16 \<Longrightarrow> M t = M' t) \<Longrightarrow> schedule1 M t = schedule1 M' t"
proof (induction M t rule: schedule1.induct)
  case (1 M t)
  then show ?case by (simp add: schedule1.simps [of M t] schedule1.simps [of M' t])
qed

lemma fips_compress1_local: "length a = 64 \<Longrightarrow> fips_compress1 H (a @ b) = fips_compress1 H a"
proof -
  assume "length a = 64"
  then have "schedule1 (word_at True (a @ b)) = schedule1 (word_at True a)"
    by (intro ext schedule1_cong) (simp add: word_at_append)
  then show ?thesis by (simp only: fips_compress1_def)
qed

interpretation sha1: md32_spec sha1_block sha1_block_data_order fips_compress1 5
proof unfold_locales
  fix a b :: "u8 list" and s assume "length a = 64"
  then show "sha1_block s (a @ b) = sha1_block s a" by (simp add: sha1_block_fips fips_compress1_local)
qed (simp_all add: sha1_block_data_order_def sha1_block_fips, simp add: sha1_block_def Let_def case_prod_beta)

lemma SHA1_chunks: "fst (SHA1_Final (fold (\<lambda>bs c. SHA1_Update c bs) bss SHA1_Init)) = Some (fips_sha1 (concat bss))"
proof -
  have "SHA1_make_string c = Some (concat (map (HOST_l2c True) (take 5 (hc_h c))))" if "length (hc_h c) = 5" for c
  proof (cases "hc_h c")
    case (Cons x xs)
    with that have "length xs = 4" by simp
    then show ?thesis by (rule length_4E) (simp add: SHA1_make_string_def Cons)
  qed (use that in simp)
  then have "fst (SHA1_Final (fold (\<lambda>bs c. SHA1_Update c bs) bss SHA1_Init)) =
      Some (md_digest True 5 fips_compress1 (hc_h SHA1_Init) (concat bss))"
    unfolding SHA1_Final_def SHA1_Update_def by (intro sha1.digest_correct) (simp_all add: SHA1_Init_def)
  then show ?thesis by (simp add: fips_sha1_def SHA1_Init_def)
qed

text \<open>
  SHA-1 of the code is the function of FIPS 180-4, for every message and however the
  message is cut into updates.
\<close>

theorem SHA1_correct:
  "SHA1 m = Some (fips_sha1 m) \<and> fst (SHA1_Final (fold (\<lambda>bs c. SHA1_Update c bs) bss SHA1_Init)) = SHA1 (concat bss)"
  using SHA1_chunks [of "[m]"] SHA1_chunks [of bss] SHA1_chunks [of "[concat bss]"] by (simp add: SHA1_def Let_def case_prod_beta)

end
