(* ===== verification/Md4.thy ===== *)
theory Md4
  imports Md32
begin

text \<open>
  MD4 (\<open>crypto/fipsmodule/md4/md4.c\<close>): the code, its definition in RFC 1320, and that they agree for
  every message and every way to cut it.
\<close>

section \<open>Code\<close>

text \<open>Four lines of the code with a round macro, whose arguments rotate; \<open>R j\<close> is the macro in line \<open>j\<close>.\<close>

definition LINES_4 :: "(nat \<Rightarrow> 'w \<times> 'w \<times> 'w \<times> 'w \<Rightarrow> 'w \<times> 'w \<times> 'w \<times> 'w) \<Rightarrow> 'w \<times> 'w \<times> 'w \<times> 'w \<Rightarrow> 'w \<times> 'w \<times> 'w \<times> 'w" where
  "LINES_4 R s =
    (let (A, B, C, D) = s;
         (A, B, C, D) = R 0 (A, B, C, D);
         (D, A, B, C) = R 1 (D, A, B, C);
         (C, D, A, B) = R 2 (C, D, A, B);
         (B, C, D, A) = R 3 (B, C, D, A) in
     (A, B, C, D))"

definition MD4_Init :: hash_ctx where
  "MD4_Init = \<lparr>hc_h = [0x67452301, 0xefcdab89, 0x98badcfe, 0x10325476], hc_Nl = 0, hc_Nh = 0,
     hc_data = replicate 64 0, hc_num = 0\<rparr>"

definition MD4_F :: "u32 \<Rightarrow> u32 \<Rightarrow> u32 \<Rightarrow> u32" where "MD4_F b c d = ((c XOR d) AND b) XOR d"
definition MD4_G :: "u32 \<Rightarrow> u32 \<Rightarrow> u32 \<Rightarrow> u32" where "MD4_G b c d = (b AND c) OR (b AND d) OR (c AND d)"
definition MD4_H :: "u32 \<Rightarrow> u32 \<Rightarrow> u32 \<Rightarrow> u32" where "MD4_H b c d = b XOR c XOR d"

definition MD4_ROTATE :: "u32 \<Rightarrow> nat \<Rightarrow> u32" where
  "MD4_ROTATE a n = push_bit n a OR drop_bit (32 - n) a"

text \<open>The macros \<open>R0\<close>, \<open>R1\<close>, ...; the first argument is their number.\<close>

definition MD4_R :: "nat \<Rightarrow> u32 \<Rightarrow> nat \<Rightarrow> u32 \<Rightarrow> u32 \<times> u32 \<times> u32 \<times> u32 \<Rightarrow> u32 \<times> u32 \<times> u32 \<times> u32" where
  "MD4_R r k s t = (\<lambda>(a, b, c, d).
     let f = (if r = 0 then MD4_F b c d else if r = 1 then MD4_G b c d else MD4_H b c d);
         a = a + (k + t + f);
         a = MD4_ROTATE a s in
     (a, b, c, d))"

text \<open>The arguments \<open>k\<close> (the number of the word), \<open>s\<close> and \<open>t\<close> of the macro in each line of the code.\<close>

definition MD4_lines :: "(nat \<times> nat \<times> u32) list" where
  "MD4_lines =
    [(0, 3, 0), (1, 7, 0), (2, 11, 0), (3, 19, 0),
     (4, 3, 0), (5, 7, 0), (6, 11, 0), (7, 19, 0),
     (8, 3, 0), (9, 7, 0), (10, 11, 0), (11, 19, 0),
     (12, 3, 0), (13, 7, 0), (14, 11, 0), (15, 19, 0),
     (0, 3, 0x5A827999), (4, 5, 0x5A827999), (8, 9, 0x5A827999), (12, 13, 0x5A827999),
     (1, 3, 0x5A827999), (5, 5, 0x5A827999), (9, 9, 0x5A827999), (13, 13, 0x5A827999),
     (2, 3, 0x5A827999), (6, 5, 0x5A827999), (10, 9, 0x5A827999), (14, 13, 0x5A827999),
     (3, 3, 0x5A827999), (7, 5, 0x5A827999), (11, 9, 0x5A827999), (15, 13, 0x5A827999),
     (0, 3, 0x6ED9EBA1), (8, 9, 0x6ED9EBA1), (4, 11, 0x6ED9EBA1), (12, 15, 0x6ED9EBA1),
     (2, 3, 0x6ED9EBA1), (10, 9, 0x6ED9EBA1), (6, 11, 0x6ED9EBA1), (14, 15, 0x6ED9EBA1),
     (1, 3, 0x6ED9EBA1), (9, 9, 0x6ED9EBA1), (5, 11, 0x6ED9EBA1), (13, 15, 0x6ED9EBA1),
     (3, 3, 0x6ED9EBA1), (11, 9, 0x6ED9EBA1), (7, 11, 0x6ED9EBA1), (15, 15, 0x6ED9EBA1)]"

definition MD4_line :: "u32 list \<Rightarrow> nat \<Rightarrow> u32 \<times> u32 \<times> u32 \<times> u32 \<Rightarrow> u32 \<times> u32 \<times> u32 \<times> u32" where
  "MD4_line X i = (case MD4_lines ! i of (k, s, t) \<Rightarrow> MD4_R (i div 16) (X ! k) s t)"

text \<open>
  The body of the loop over the blocks.  The code reads each word just before the line that
  uses it first.
\<close>

definition md4_block :: "u32 list \<Rightarrow> u8 list \<Rightarrow> u32 list" where
  "md4_block state data =
    (let X = map (\<lambda>i. HOST_c2l False (drop (4 * i) data)) [0..<16];
         (A, B, C, D) = fold (\<lambda>i. LINES_4 (\<lambda>j. MD4_line X (4 * i + j))) [0..<12]
           (state ! 0, state ! 1, state ! 2, state ! 3) in
     [state ! 0 + A, state ! 1 + B, state ! 2 + C, state ! 3 + D])"

definition md4_block_data_order :: block_fun where
  "md4_block_data_order = block_loop md4_block 64"

text \<open>\<open>HASH_MAKE_STRING\<close>\<close>

definition MD4_make_string :: "hash_ctx \<Rightarrow> u8 list option" where
  "MD4_make_string c = Some (HOST_l2c False (hc_h c ! 0) @ HOST_l2c False (hc_h c ! 1) @
     HOST_l2c False (hc_h c ! 2) @ HOST_l2c False (hc_h c ! 3))"

definition MD4_Update :: "hash_ctx \<Rightarrow> u8 list \<Rightarrow> hash_ctx" where
  "MD4_Update c data = HASH_UPDATE md4_block_data_order c data"

definition MD4_Final :: "hash_ctx \<Rightarrow> u8 list option \<times> hash_ctx" where
  "MD4_Final c = HASH_FINAL MD4_make_string md4_block_data_order False c"

definition MD4_Transform :: "hash_ctx \<Rightarrow> u8 list \<Rightarrow> hash_ctx" where
  "MD4_Transform c data = HASH_TRANSFORM md4_block_data_order c data"

definition MD4 :: "u8 list \<Rightarrow> u8 list option" where
  "MD4 data = (let ctx = MD4_Init; ctx = MD4_Update ctx data; (out, ctx) = MD4_Final ctx in out)"

section \<open>RFC 1320\<close>

definition rfc_md4_k :: "nat \<Rightarrow> nat" where
  "rfc_md4_k i = (if i < 16 then i else if i < 32 then 4 * (i mod 4) + (i - 16) div 4
     else [0, 8, 4, 12, 2, 10, 6, 14, 1, 9, 5, 13, 3, 11, 7, 15] ! (i - 32))"

definition rfc_md4_s :: "nat \<Rightarrow> nat" where
  "rfc_md4_s i = [3, 7, 11, 19, 3, 5, 9, 13, 3, 9, 11, 15] ! (4 * (i div 16) + i mod 4)"

definition rfc_md4_f :: "nat \<Rightarrow> u32 \<Rightarrow> u32 \<Rightarrow> u32 \<Rightarrow> u32" where
  "rfc_md4_f i x y z =
    (if i < 16 then (x AND y) OR (NOT x AND z) else if i < 32 then (x AND y) OR (x AND z) OR (y AND z) else x XOR y XOR z)"

definition rfc_md4_c :: "nat \<Rightarrow> u32" where
  "rfc_md4_c i = (if i < 16 then 0 else if i < 32 then 0x5A827999 else 0x6ED9EBA1)"

text \<open>Operation \<open>[abcd k s]\<close>: \<open>a = (a + f(b,c,d) + X[k] + c) <<< s\<close>, and the next one is \<open>[dabc ...]\<close>.\<close>

definition rfc_md4_step :: "(nat \<Rightarrow> u32) \<Rightarrow> nat \<Rightarrow> u32 \<times> u32 \<times> u32 \<times> u32 \<Rightarrow> u32 \<times> u32 \<times> u32 \<times> u32" where
  "rfc_md4_step X i = (let x = X (rfc_md4_k i) in (\<lambda>(a, b, c, d).
     let v = a + rfc_md4_f i b c d + x + rfc_md4_c i; s = rfc_md4_s i in
     (d, push_bit s v OR drop_bit (32 - s) v, b, c)))"

definition rfc_md4_compress :: "u32 list \<Rightarrow> u8 list \<Rightarrow> u32 list" where
  "rfc_md4_compress H M =
    (let (a, b, c, d) = fold (rfc_md4_step (word_at False M)) [0..<48] (H ! 0, H ! 1, H ! 2, H ! 3) in
     [a + H ! 0, b + H ! 1, c + H ! 2, d + H ! 3])"

definition rfc_md4 :: "u8 list \<Rightarrow> u8 list" where
  "rfc_md4 m = md_digest False 4 rfc_md4_compress
     [0x67452301, 0xefcdab89, 0x98badcfe, 0x10325476] m"

section \<open>The code computes the digest\<close>

fun rotate_4 :: "'w \<times> 'w \<times> 'w \<times> 'w \<Rightarrow> 'w \<times> 'w \<times> 'w \<times> 'w" where
  "rotate_4 (a, b, c, d) = (d, a, b, c)"

lemma LINES_4_fold: "LINES_4 R s = fold (\<lambda>j s. rotate_4 (R j s)) [0..<4] s"
proof -
  have u: "[0..<4] = [0, 1, 2, 3]" by (simp add: upt_rec)
  show ?thesis unfolding u by (simp add: LINES_4_def split: prod.split)
qed

lemma LINES_4_steps:
  assumes "\<And>i r. i < 4 * n \<Longrightarrow> rotate_4 (R i r) = g i r"
  shows "fold (\<lambda>i. LINES_4 (\<lambda>j. R (4 * i + j))) [0..<n] r = fold g [0..<4 * n] r"
  using assms
proof (induction n)
  case (Suc n)
  have u: "[0..<4 * Suc n] = [0..<4 * n] @ map (\<lambda>j. j + 4 * n) [0..<4]"
    unfolding map_add_upt using upt_add_eq_append [of 0 "4 * n" 4] by (simp add: add.commute)
  have "fold (\<lambda>j s. rotate_4 (R (4 * n + j) s)) [0..<4] s = fold (\<lambda>j. g (j + 4 * n)) [0..<4] s" for s
    by (rule fold_cong) (use Suc.prems in \<open>auto simp: add.commute\<close>)
  moreover have "fold (\<lambda>i. LINES_4 (\<lambda>j. R (4 * i + j))) [0..<n] r = fold g [0..<4 * n] r"
    by (rule Suc.IH) (use Suc.prems in simp)
  ultimately show ?case
    unfolding u fold_append upt_Suc_append [OF le0] fold_map comp_def by (simp only: fold_simps id_apply LINES_4_fold)
qed simp

lemma div_16_iff:
  "i div 16 = 0 \<longleftrightarrow> i < 16" "i div 16 = Suc 0 \<longleftrightarrow> 16 \<le> i \<and> i < 32" "i div 16 = 2 \<longleftrightarrow> 32 \<le> i \<and> i < 48"
  for i :: nat
  by presburger+

lemma MD4_functions:
  "MD4_F b c d = (b AND c) OR (NOT b AND d)" "MD4_G b c d = (b AND c) OR (b AND d) OR (c AND d)"
  "MD4_H b c d = b XOR c XOR d"
  by (rule bit_word_eqI, auto simp: bit_simps MD4_F_def MD4_G_def MD4_H_def)+

lemma MD4_lines_all: "MD4_lines = map (\<lambda>i. (rfc_md4_k i, rfc_md4_s i, rfc_md4_c i)) [0..<48]"
  by (simp add: MD4_lines_def rfc_md4_k_def rfc_md4_s_def rfc_md4_c_def upt_rec)

lemma MD4_lines_spec: "i < 48 \<Longrightarrow> MD4_lines ! i = (rfc_md4_k i, rfc_md4_s i, rfc_md4_c i)"
  unfolding MD4_lines_all by (simp del: upt_rec_numeral)

lemma rfc_md4_k_bound: "i < 48 \<Longrightarrow> rfc_md4_k i < 16"
proof -
  assume i: "i < 48"
  have "rfc_md4_k i \<in> set (map (\<lambda>(k, s, t). k) MD4_lines)"
    using i unfolding MD4_lines_all by (force simp del: upt_rec_numeral)
  then show ?thesis by (auto simp: MD4_lines_def)
qed

lemma MD4_R_step: "rotate_4 (MD4_R (i div 16) (X (rfc_md4_k i)) (rfc_md4_s i) (rfc_md4_c i) r) = rfc_md4_step X i r"
proof -
  have f: "(if i div 16 = 0 then MD4_F b c d else if i div 16 = 1 then MD4_G b c d else MD4_H b c d) = rfc_md4_f i b c d" for b c d
    by (simp add: rfc_md4_f_def MD4_functions div_16_iff)
  show ?thesis
    by (cases r) (simp add: MD4_R_def rfc_md4_step_def MD4_ROTATE_def Let_def f add_ac)
qed

lemma md4_block_spec:
  assumes "64 \<le> length data"
  shows "md4_block H data = rfc_md4_compress H data"
proof -
  let ?r = "(H ! 0, H ! 1, H ! 2, H ! 3)" and ?X = "map (\<lambda>i. HOST_c2l False (drop (4 * i) data)) [0..<16]"
  have X: "?X ! k = word_at False data k" if "k < 16" for k
    using assms that by (simp add: HOST_c2l_word)
  have "rotate_4 (MD4_line ?X i r) = rfc_md4_step (word_at False data) i r" if "i < 4 * 12" for i r
  proof -
    from that have i: "i < 48" by simp
    show ?thesis unfolding MD4_line_def MD4_lines_spec [OF i] prod.case X [OF rfc_md4_k_bound [OF i]] by (rule MD4_R_step)
  qed
  from LINES_4_steps [of 12 "MD4_line ?X", OF this]
  have f: "fold (\<lambda>i. LINES_4 (\<lambda>j. MD4_line ?X (4 * i + j))) [0..<12] ?r = fold (rfc_md4_step (word_at False data)) [0..<48] ?r"
    by (simp del: upt_rec_numeral)
  show ?thesis unfolding md4_block_def rfc_md4_compress_def Let_def f by (simp only: add.commute)
qed

lemma rfc_md4_local: "length a = 64 \<Longrightarrow> rfc_md4_compress H (a @ b) = rfc_md4_compress H a"
proof -
  assume a: "length a = 64"
  have "fold (rfc_md4_step (word_at False (a @ b))) [0..<48] r = fold (rfc_md4_step (word_at False a)) [0..<48] r" for r
  proof (rule fold_cong)
    fix i assume "i \<in> set [0..<48]"
    then have "rfc_md4_k i < 16" by (intro rfc_md4_k_bound) simp
    then have "word_at False (a @ b) (rfc_md4_k i) = word_at False a (rfc_md4_k i)" using a by (simp add: word_at_append)
    then show "rfc_md4_step (word_at False (a @ b)) i = rfc_md4_step (word_at False a) i" by (simp only: rfc_md4_step_def)
  qed simp_all
  then show ?thesis by (simp only: rfc_md4_compress_def)
qed

interpretation md4: md32_spec md4_block md4_block_data_order rfc_md4_compress 4
proof unfold_locales
  fix a b :: "u8 list" and s assume "length a = 64"
  then show "md4_block s (a @ b) = md4_block s a" by (simp add: md4_block_spec rfc_md4_local)
qed (simp_all add: md4_block_data_order_def md4_block_spec, simp add: md4_block_def Let_def case_prod_beta)

lemma MD4_chunks: "fst (MD4_Final (fold (\<lambda>bs c. MD4_Update c bs) bss MD4_Init)) = Some (rfc_md4 (concat bss))"
proof -
  have "MD4_make_string c = Some (concat (map (HOST_l2c False) (take 4 (hc_h c))))" if "length (hc_h c) = 4" for c
    by (rule length_4E [OF that]) (simp add: MD4_make_string_def)
  then have "fst (MD4_Final (fold (\<lambda>bs c. MD4_Update c bs) bss MD4_Init)) =
      Some (md_digest False 4 rfc_md4_compress (hc_h MD4_Init) (concat bss))"
    unfolding MD4_Final_def MD4_Update_def by (intro md4.digest_correct) (simp_all add: MD4_Init_def)
  then show ?thesis by (simp add: rfc_md4_def MD4_Init_def)
qed

text \<open>
  MD4 of the code is the function its RFC defines, for every message and however the message
  is cut into updates.
\<close>

theorem MD4_correct:
  "MD4 m = Some (rfc_md4 m) \<and> fst (MD4_Final (fold (\<lambda>bs c. MD4_Update c bs) bss MD4_Init)) = MD4 (concat bss)"
  using MD4_chunks [of "[m]"] MD4_chunks [of bss] MD4_chunks [of "[concat bss]"] by (simp add: MD4_def Let_def case_prod_beta)

end
