(* ===== verification/Md5.thy ===== *)
theory Md5
  imports Md4
begin

text \<open>
  MD5 (\<open>crypto/fipsmodule/md5/md5.c\<close>, built without assembly): the code, its definition in
  RFC 1321, and that they agree for every message and every way to cut it.
\<close>

section \<open>Code\<close>

definition MD5_Init :: hash_ctx where
  "MD5_Init = \<lparr>hc_h = [0x67452301, 0xefcdab89, 0x98badcfe, 0x10325476], hc_Nl = 0, hc_Nh = 0,
     hc_data = replicate 64 0, hc_num = 0\<rparr>"

definition MD5_F :: "u32 \<Rightarrow> u32 \<Rightarrow> u32 \<Rightarrow> u32" where "MD5_F b c d = ((c XOR d) AND b) XOR d"
definition MD5_G :: "u32 \<Rightarrow> u32 \<Rightarrow> u32 \<Rightarrow> u32" where "MD5_G b c d = ((b XOR c) AND d) XOR c"
definition MD5_H :: "u32 \<Rightarrow> u32 \<Rightarrow> u32 \<Rightarrow> u32" where "MD5_H b c d = b XOR c XOR d"
definition MD5_I :: "u32 \<Rightarrow> u32 \<Rightarrow> u32 \<Rightarrow> u32" where "MD5_I b c d = (NOT d OR b) XOR c"

definition MD5_ROTATE :: "u32 \<Rightarrow> nat \<Rightarrow> u32" where
  "MD5_ROTATE a n = push_bit n a OR drop_bit (32 - n) a"

text \<open>The macros \<open>R0\<close>, \<open>R1\<close>, ...; the first argument is their number.\<close>

definition MD5_R :: "nat \<Rightarrow> u32 \<Rightarrow> nat \<Rightarrow> u32 \<Rightarrow> u32 \<times> u32 \<times> u32 \<times> u32 \<Rightarrow> u32 \<times> u32 \<times> u32 \<times> u32" where
  "MD5_R r k s t = (\<lambda>(a, b, c, d).
     let f = (if r = 0 then MD5_F b c d else if r = 1 then MD5_G b c d else if r = 2 then MD5_H b c d else MD5_I b c d);
         a = a + (k + t + f);
         a = MD5_ROTATE a s;
         a = a + b in
     (a, b, c, d))"

text \<open>The arguments \<open>k\<close> (the number of the word), \<open>s\<close> and \<open>t\<close> of the macro in each line of the code.\<close>

definition MD5_lines :: "(nat \<times> nat \<times> u32) list" where
  "MD5_lines =
    [(0, 7, 0xd76aa478), (1, 12, 0xe8c7b756), (2, 17, 0x242070db), (3, 22, 0xc1bdceee),
     (4, 7, 0xf57c0faf), (5, 12, 0x4787c62a), (6, 17, 0xa8304613), (7, 22, 0xfd469501),
     (8, 7, 0x698098d8), (9, 12, 0x8b44f7af), (10, 17, 0xffff5bb1), (11, 22, 0x895cd7be),
     (12, 7, 0x6b901122), (13, 12, 0xfd987193), (14, 17, 0xa679438e), (15, 22, 0x49b40821),
     (1, 5, 0xf61e2562), (6, 9, 0xc040b340), (11, 14, 0x265e5a51), (0, 20, 0xe9b6c7aa),
     (5, 5, 0xd62f105d), (10, 9, 0x02441453), (15, 14, 0xd8a1e681), (4, 20, 0xe7d3fbc8),
     (9, 5, 0x21e1cde6), (14, 9, 0xc33707d6), (3, 14, 0xf4d50d87), (8, 20, 0x455a14ed),
     (13, 5, 0xa9e3e905), (2, 9, 0xfcefa3f8), (7, 14, 0x676f02d9), (12, 20, 0x8d2a4c8a),
     (5, 4, 0xfffa3942), (8, 11, 0x8771f681), (11, 16, 0x6d9d6122), (14, 23, 0xfde5380c),
     (1, 4, 0xa4beea44), (4, 11, 0x4bdecfa9), (7, 16, 0xf6bb4b60), (10, 23, 0xbebfbc70),
     (13, 4, 0x289b7ec6), (0, 11, 0xeaa127fa), (3, 16, 0xd4ef3085), (6, 23, 0x04881d05),
     (9, 4, 0xd9d4d039), (12, 11, 0xe6db99e5), (15, 16, 0x1fa27cf8), (2, 23, 0xc4ac5665),
     (0, 6, 0xf4292244), (7, 10, 0x432aff97), (14, 15, 0xab9423a7), (5, 21, 0xfc93a039),
     (12, 6, 0x655b59c3), (3, 10, 0x8f0ccc92), (10, 15, 0xffeff47d), (1, 21, 0x85845dd1),
     (8, 6, 0x6fa87e4f), (15, 10, 0xfe2ce6e0), (6, 15, 0xa3014314), (13, 21, 0x4e0811a1),
     (4, 6, 0xf7537e82), (11, 10, 0xbd3af235), (2, 15, 0x2ad7d2bb), (9, 21, 0xeb86d391)]"

definition MD5_line :: "u32 list \<Rightarrow> nat \<Rightarrow> u32 \<times> u32 \<times> u32 \<times> u32 \<Rightarrow> u32 \<times> u32 \<times> u32 \<times> u32" where
  "MD5_line X i = (case MD5_lines ! i of (k, s, t) \<Rightarrow> MD5_R (i div 16) (X ! k) s t)"

text \<open>
  The body of the loop over the blocks.  The code reads each word just before the line that
  uses it first.
\<close>

definition md5_block :: "u32 list \<Rightarrow> u8 list \<Rightarrow> u32 list" where
  "md5_block state data =
    (let X = map (\<lambda>i. HOST_c2l False (drop (4 * i) data)) [0..<16];
         (A, B, C, D) = fold (\<lambda>i. LINES_4 (\<lambda>j. MD5_line X (4 * i + j))) [0..<16]
           (state ! 0, state ! 1, state ! 2, state ! 3) in
     [state ! 0 + A, state ! 1 + B, state ! 2 + C, state ! 3 + D])"

definition md5_block_data_order :: block_fun where
  "md5_block_data_order = block_loop md5_block 64"

text \<open>\<open>HASH_MAKE_STRING\<close>\<close>

definition MD5_make_string :: "hash_ctx \<Rightarrow> u8 list option" where
  "MD5_make_string c = Some (HOST_l2c False (hc_h c ! 0) @ HOST_l2c False (hc_h c ! 1) @
     HOST_l2c False (hc_h c ! 2) @ HOST_l2c False (hc_h c ! 3))"

definition MD5_Update :: "hash_ctx \<Rightarrow> u8 list \<Rightarrow> hash_ctx" where
  "MD5_Update c data = HASH_UPDATE md5_block_data_order c data"

definition MD5_Final :: "hash_ctx \<Rightarrow> u8 list option \<times> hash_ctx" where
  "MD5_Final c = HASH_FINAL MD5_make_string md5_block_data_order False c"

definition MD5_Transform :: "hash_ctx \<Rightarrow> u8 list \<Rightarrow> hash_ctx" where
  "MD5_Transform c data = HASH_TRANSFORM md5_block_data_order c data"

definition MD5 :: "u8 list \<Rightarrow> u8 list option" where
  "MD5 data = (let ctx = MD5_Init; ctx = MD5_Update ctx data; (out, ctx) = MD5_Final ctx in out)"

section \<open>RFC 1321\<close>

text \<open>The word, the shift and the constant of operation \<open>i\<close>; the constants are its table of sines.\<close>

definition rfc_md5_k :: "nat \<Rightarrow> nat" where
  "rfc_md5_k i = (if i < 16 then i else if i < 32 then (5 * i + 1) mod 16 else if i < 48 then (3 * i + 5) mod 16 else 7 * i mod 16)"

definition rfc_md5_s :: "nat \<Rightarrow> nat" where
  "rfc_md5_s i = [7, 12, 17, 22, 5, 9, 14, 20, 4, 11, 16, 23, 6, 10, 15, 21] ! (4 * (i div 16) + i mod 4)"

definition rfc_md5_T :: "u32 list" where
  "rfc_md5_T =
    [0xd76aa478, 0xe8c7b756, 0x242070db, 0xc1bdceee, 0xf57c0faf, 0x4787c62a, 0xa8304613, 0xfd469501,
     0x698098d8, 0x8b44f7af, 0xffff5bb1, 0x895cd7be, 0x6b901122, 0xfd987193, 0xa679438e, 0x49b40821,
     0xf61e2562, 0xc040b340, 0x265e5a51, 0xe9b6c7aa, 0xd62f105d, 0x02441453, 0xd8a1e681, 0xe7d3fbc8,
     0x21e1cde6, 0xc33707d6, 0xf4d50d87, 0x455a14ed, 0xa9e3e905, 0xfcefa3f8, 0x676f02d9, 0x8d2a4c8a,
     0xfffa3942, 0x8771f681, 0x6d9d6122, 0xfde5380c, 0xa4beea44, 0x4bdecfa9, 0xf6bb4b60, 0xbebfbc70,
     0x289b7ec6, 0xeaa127fa, 0xd4ef3085, 0x04881d05, 0xd9d4d039, 0xe6db99e5, 0x1fa27cf8, 0xc4ac5665,
     0xf4292244, 0x432aff97, 0xab9423a7, 0xfc93a039, 0x655b59c3, 0x8f0ccc92, 0xffeff47d, 0x85845dd1,
     0x6fa87e4f, 0xfe2ce6e0, 0xa3014314, 0x4e0811a1, 0xf7537e82, 0xbd3af235, 0x2ad7d2bb, 0xeb86d391]"

definition rfc_md5_f :: "nat \<Rightarrow> u32 \<Rightarrow> u32 \<Rightarrow> u32 \<Rightarrow> u32" where
  "rfc_md5_f i x y z =
    (if i < 16 then (x AND y) OR (NOT x AND z) else if i < 32 then (x AND z) OR (y AND NOT z)
     else if i < 48 then x XOR y XOR z else y XOR (x OR NOT z))"

text \<open>Operation \<open>[abcd k s i]\<close>: \<open>a = b + ((a + f(b,c,d) + X[k] + T[i]) <<< s)\<close>, and the next one is \<open>[dabc ...]\<close>.\<close>

definition rfc_md5_step :: "(nat \<Rightarrow> u32) \<Rightarrow> nat \<Rightarrow> u32 \<times> u32 \<times> u32 \<times> u32 \<Rightarrow> u32 \<times> u32 \<times> u32 \<times> u32" where
  "rfc_md5_step X i = (let x = X (rfc_md5_k i) in (\<lambda>(a, b, c, d).
     let v = a + rfc_md5_f i b c d + x + rfc_md5_T ! i; s = rfc_md5_s i in
     (d, b + (push_bit s v OR drop_bit (32 - s) v), b, c)))"

definition rfc_md5_compress :: "u32 list \<Rightarrow> u8 list \<Rightarrow> u32 list" where
  "rfc_md5_compress H M =
    (let (a, b, c, d) = fold (rfc_md5_step (word_at False M)) [0..<64] (H ! 0, H ! 1, H ! 2, H ! 3) in
     [a + H ! 0, b + H ! 1, c + H ! 2, d + H ! 3])"

definition rfc_md5 :: "u8 list \<Rightarrow> u8 list" where
  "rfc_md5 m = md_digest False 4 rfc_md5_compress
     [0x67452301, 0xefcdab89, 0x98badcfe, 0x10325476] m"

section \<open>The code computes the digest\<close>

lemma MD5_functions:
  "MD5_F b c d = (b AND c) OR (NOT b AND d)" "MD5_G b c d = (b AND d) OR (c AND NOT d)"
  "MD5_H b c d = b XOR c XOR d" "MD5_I b c d = c XOR (b OR NOT d)"
  by (rule bit_word_eqI, auto simp: bit_simps MD5_F_def MD5_G_def MD5_H_def MD5_I_def)+

lemma MD5_lines_all: "MD5_lines = map (\<lambda>i. (rfc_md5_k i, rfc_md5_s i, rfc_md5_T ! i)) [0..<64]"
  by (simp add: MD5_lines_def rfc_md5_k_def rfc_md5_s_def rfc_md5_T_def upt_rec)

lemma MD5_lines_spec: "i < 64 \<Longrightarrow> MD5_lines ! i = (rfc_md5_k i, rfc_md5_s i, rfc_md5_T ! i)"
  unfolding MD5_lines_all by (simp del: upt_rec_numeral)

lemma rfc_md5_k_bound: "i < 64 \<Longrightarrow> rfc_md5_k i < 16"
  by (simp add: rfc_md5_k_def)

lemma MD5_R_step: "rotate_4 (MD5_R (i div 16) (X (rfc_md5_k i)) (rfc_md5_s i) (rfc_md5_T ! i) r) = rfc_md5_step X i r"
proof -
  have f: "(if i div 16 = 0 then MD5_F b c d else if i div 16 = 1 then MD5_G b c d else if i div 16 = 2 then MD5_H b c d else MD5_I b c d) = rfc_md5_f i b c d" for b c d
    by (simp add: rfc_md5_f_def MD5_functions div_16_iff)
  show ?thesis
    by (cases r) (simp add: MD5_R_def rfc_md5_step_def MD5_ROTATE_def Let_def f add_ac)
qed

lemma md5_block_spec:
  assumes "64 \<le> length data"
  shows "md5_block H data = rfc_md5_compress H data"
proof -
  let ?r = "(H ! 0, H ! 1, H ! 2, H ! 3)" and ?X = "map (\<lambda>i. HOST_c2l False (drop (4 * i) data)) [0..<16]"
  have X: "?X ! k = word_at False data k" if "k < 16" for k
    using assms that by (simp add: HOST_c2l_word)
  have "rotate_4 (MD5_line ?X i r) = rfc_md5_step (word_at False data) i r" if "i < 4 * 16" for i r
  proof -
    from that have i: "i < 64" by simp
    show ?thesis unfolding MD5_line_def MD5_lines_spec [OF i] prod.case X [OF rfc_md5_k_bound [OF i]] by (rule MD5_R_step)
  qed
  from LINES_4_steps [of 16 "MD5_line ?X", OF this]
  have f: "fold (\<lambda>i. LINES_4 (\<lambda>j. MD5_line ?X (4 * i + j))) [0..<16] ?r = fold (rfc_md5_step (word_at False data)) [0..<64] ?r"
    by (simp del: upt_rec_numeral)
  show ?thesis unfolding md5_block_def rfc_md5_compress_def Let_def f by (simp only: add.commute)
qed

lemma rfc_md5_local: "length a = 64 \<Longrightarrow> rfc_md5_compress H (a @ b) = rfc_md5_compress H a"
proof -
  assume a: "length a = 64"
  have "fold (rfc_md5_step (word_at False (a @ b))) [0..<64] r = fold (rfc_md5_step (word_at False a)) [0..<64] r" for r
  proof (rule fold_cong)
    fix i assume "i \<in> set [0..<64]"
    then have "rfc_md5_k i < 16" by (intro rfc_md5_k_bound) simp
    then have "word_at False (a @ b) (rfc_md5_k i) = word_at False a (rfc_md5_k i)" using a by (simp add: word_at_append)
    then show "rfc_md5_step (word_at False (a @ b)) i = rfc_md5_step (word_at False a) i" by (simp only: rfc_md5_step_def)
  qed simp_all
  then show ?thesis by (simp only: rfc_md5_compress_def)
qed

interpretation md5: md32_spec md5_block md5_block_data_order rfc_md5_compress 4
proof unfold_locales
  fix a b :: "u8 list" and s assume "length a = 64"
  then show "md5_block s (a @ b) = md5_block s a" by (simp add: md5_block_spec rfc_md5_local)
qed (simp_all add: md5_block_data_order_def md5_block_spec, simp add: md5_block_def Let_def case_prod_beta)

lemma MD5_chunks: "fst (MD5_Final (fold (\<lambda>bs c. MD5_Update c bs) bss MD5_Init)) = Some (rfc_md5 (concat bss))"
proof -
  have "MD5_make_string c = Some (concat (map (HOST_l2c False) (take 4 (hc_h c))))" if "length (hc_h c) = 4" for c
    by (rule length_4E [OF that]) (simp add: MD5_make_string_def)
  then have "fst (MD5_Final (fold (\<lambda>bs c. MD5_Update c bs) bss MD5_Init)) =
      Some (md_digest False 4 rfc_md5_compress (hc_h MD5_Init) (concat bss))"
    unfolding MD5_Final_def MD5_Update_def by (intro md5.digest_correct) (simp_all add: MD5_Init_def)
  then show ?thesis by (simp add: rfc_md5_def MD5_Init_def)
qed

text \<open>
  MD5 of the code is the function its RFC defines, for every message and however the message
  is cut into updates.
\<close>

theorem MD5_correct:
  "MD5 m = Some (rfc_md5 m) \<and> fst (MD5_Final (fold (\<lambda>bs c. MD5_Update c bs) bss MD5_Init)) = MD5 (concat bss)"
  using MD5_chunks [of "[m]"] MD5_chunks [of bss] MD5_chunks [of "[concat bss]"] by (simp add: MD5_def Let_def case_prod_beta)

end
