(* ===== verification/Digest.thy ===== *)
theory Digest
  imports Sha1 Sha256 Sha512 Md5
begin


text \<open>
  The digest interface (\<open>crypto/fipsmodule/digest/digest.c\<close> and \<open>digests.c\<close>): the table of digests,
  contexts that own the state of a digest, and the operations on them.

  The \<open>EVP_MD\<close> objects are eight constants, so a pointer to one is the value of an enumeration
  and its members are functions of it.  Every allocation takes the next entry of a list: \<open>None\<close>
  if it fails, else what the fresh memory holds; behind the end of the list fresh memory is zero.
  The memory of a context keeps the number of bytes it was allocated with: initialising, copying and
  erasing it stay within that room, or what it holds is no longer a context.
\<close>

section \<open>Code\<close>

datatype evp_md = EVP_md4 | EVP_md5 | EVP_sha1 | EVP_sha224 | EVP_sha256 | EVP_sha384 | EVP_sha512 | EVP_md5_sha1

text \<open>
  The sizes of the context structures, member by member: the state words, the two words of the bit
  count, the block, and \<open>num\<close> with, in the SHA-2 contexts, \<open>md_len\<close>.  None of them needs padding.
\<close>

definition sizeof_MD4_CTX :: nat where "sizeof_MD4_CTX = 4 * 4 + 2 * 4 + 64 + 4"

definition sizeof_MD5_CTX :: nat where "sizeof_MD5_CTX = 4 * 4 + 2 * 4 + 64 + 4"

definition sizeof_SHA_CTX :: nat where "sizeof_SHA_CTX = 5 * 4 + 2 * 4 + 64 + 4"

definition sizeof_SHA256_CTX :: nat where "sizeof_SHA256_CTX = 8 * 4 + 2 * 4 + 64 + 2 * 4"

definition sizeof_SHA512_CTX :: nat where "sizeof_SHA512_CTX = 8 * 8 + 2 * 8 + 128 + 2 * 4"

definition sizeof_MD5_SHA1_CTX :: nat where "sizeof_MD5_SHA1_CTX = sizeof_MD5_CTX + sizeof_SHA_CTX"

text \<open>The data of an \<open>EVP_MD\<close>, and the object each method function fills in.\<close>

record evp_md_st =
  md_type :: nat
  md_size :: nat
  md_flags :: u32
  md_block_size :: nat
  md_ctx_size :: nat

definition method_md4 :: evp_md_st where
  "method_md4 = \<lparr>md_type = 257, md_size = 16, md_flags = 0, md_block_size = 64, md_ctx_size = sizeof_MD4_CTX\<rparr>"

definition method_md5 :: evp_md_st where
  "method_md5 = \<lparr>md_type = 4, md_size = 16, md_flags = 0, md_block_size = 64, md_ctx_size = sizeof_MD5_CTX\<rparr>"

definition method_sha1 :: evp_md_st where
  "method_sha1 = \<lparr>md_type = 64, md_size = 20, md_flags = 0, md_block_size = 64, md_ctx_size = sizeof_SHA_CTX\<rparr>"

definition method_sha224 :: evp_md_st where
  "method_sha224 = \<lparr>md_type = 675, md_size = 28, md_flags = 0, md_block_size = 64, md_ctx_size = sizeof_SHA256_CTX\<rparr>"

definition method_sha256 :: evp_md_st where
  "method_sha256 = \<lparr>md_type = 672, md_size = 32, md_flags = 0, md_block_size = 64, md_ctx_size = sizeof_SHA256_CTX\<rparr>"

definition method_sha384 :: evp_md_st where
  "method_sha384 = \<lparr>md_type = 673, md_size = 48, md_flags = 0, md_block_size = 128, md_ctx_size = sizeof_SHA512_CTX\<rparr>"

definition method_sha512 :: evp_md_st where
  "method_sha512 = \<lparr>md_type = 674, md_size = 64, md_flags = 0, md_block_size = 128, md_ctx_size = sizeof_SHA512_CTX\<rparr>"

definition method_md5_sha1 :: evp_md_st where
  "method_md5_sha1 = \<lparr>md_type = 114, md_size = 16 + 20, md_flags = 0, md_block_size = 64, md_ctx_size = sizeof_MD5_SHA1_CTX\<rparr>"

fun md_object :: "evp_md \<Rightarrow> evp_md_st" where
  "md_object EVP_md4 = method_md4"
| "md_object EVP_md5 = method_md5"
| "md_object EVP_sha1 = method_sha1"
| "md_object EVP_sha224 = method_sha224"
| "md_object EVP_sha256 = method_sha256"
| "md_object EVP_sha384 = method_sha384"
| "md_object EVP_sha512 = method_sha512"
| "md_object EVP_md5_sha1 = method_md5_sha1"

definition EVP_MD_type :: "evp_md \<Rightarrow> nat" where
  "EVP_MD_type md = md_type (md_object md)"

definition EVP_MD_flags :: "evp_md \<Rightarrow> u32" where
  "EVP_MD_flags md = md_flags (md_object md)"

definition EVP_MD_size :: "evp_md \<Rightarrow> nat" where
  "EVP_MD_size md = md_size (md_object md)"

definition EVP_MD_block_size :: "evp_md \<Rightarrow> nat" where
  "EVP_MD_block_size md = md_block_size (md_object md)"

lemmas method_defs = method_md4_def method_md5_def method_sha1_def method_sha224_def method_sha256_def method_sha384_def
  method_sha512_def method_md5_sha1_def

lemma EVP_MD_size_simps [simp]:
  "EVP_MD_size EVP_md4 = 16" "EVP_MD_block_size EVP_md4 = 64"
  "EVP_MD_size EVP_md5 = 16" "EVP_MD_block_size EVP_md5 = 64"
  "EVP_MD_size EVP_sha1 = 20" "EVP_MD_block_size EVP_sha1 = 64"
  "EVP_MD_size EVP_sha224 = 28" "EVP_MD_block_size EVP_sha224 = 64"
  "EVP_MD_size EVP_sha256 = 32" "EVP_MD_block_size EVP_sha256 = 64"
  "EVP_MD_size EVP_sha384 = 48" "EVP_MD_block_size EVP_sha384 = 128"
  "EVP_MD_size EVP_sha512 = 64" "EVP_MD_block_size EVP_sha512 = 128"
  "EVP_MD_size EVP_md5_sha1 = 36" "EVP_MD_block_size EVP_md5_sha1 = 64"
  by (simp_all add: EVP_MD_size_def EVP_MD_block_size_def method_defs)

text \<open>
  What the memory behind \<open>md_data\<close> holds: bytes that belong to no digest, the context of one, or
  the remains of an access that went past its end or covered only part of it.
\<close>

datatype md_data =
    Raw "u8 list"
  | Md_ctx hash_ctx
  | Sha256_ctx sha256_ctx
  | Sha512_ctx sha512_ctx
  | Md5_sha1_ctx hash_ctx hash_ctx
  | Torn

text \<open>What the buffer of a SHA-512 context holds before it is initialised.\<close>

definition sha512_buffer :: "md_data \<Rightarrow> u8 list" where
  "sha512_buffer d = take 128 ((case d of Sha512_ctx c \<Rightarrow> h5_p c | Raw bs \<Rightarrow> drop 80 bs | _ \<Rightarrow> []) @ replicate 128 0)"

lemma length_sha512_buffer [simp]: "length (sha512_buffer d) = 128"
  by (simp add: sha512_buffer_def)

text \<open>
  The members \<open>init\<close>, \<open>update\<close> and \<open>final\<close> of each digest.  \<open>final\<close> yields the bytes it writes to
  \<open>out\<close>; a digest whose \<open>Final\<close> fails would write nothing.
\<close>

abbreviation written :: "u8 list option \<Rightarrow> u8 list" where
  "written r \<equiv> (case r of None \<Rightarrow> [] | Some bs \<Rightarrow> bs)"

definition md4_init :: "md_data \<Rightarrow> md_data" where
  "md4_init d = Md_ctx MD4_Init"

fun md4_update :: "md_data \<Rightarrow> u8 list \<Rightarrow> md_data" where
  "md4_update (Md_ctx c) data = Md_ctx (MD4_Update c data)"
| "md4_update d data = d"

fun md4_final :: "md_data \<Rightarrow> u8 list" where
  "md4_final (Md_ctx c) = written (fst (MD4_Final c))"
| "md4_final d = []"

definition md5_init :: "md_data \<Rightarrow> md_data" where
  "md5_init d = Md_ctx MD5_Init"

fun md5_update :: "md_data \<Rightarrow> u8 list \<Rightarrow> md_data" where
  "md5_update (Md_ctx c) data = Md_ctx (MD5_Update c data)"
| "md5_update d data = d"

fun md5_final :: "md_data \<Rightarrow> u8 list" where
  "md5_final (Md_ctx c) = written (fst (MD5_Final c))"
| "md5_final d = []"

definition sha1_init :: "md_data \<Rightarrow> md_data" where
  "sha1_init d = Md_ctx SHA1_Init"

fun sha1_update :: "md_data \<Rightarrow> u8 list \<Rightarrow> md_data" where
  "sha1_update (Md_ctx c) data = Md_ctx (SHA1_Update c data)"
| "sha1_update d data = d"

fun sha1_final :: "md_data \<Rightarrow> u8 list" where
  "sha1_final (Md_ctx c) = written (fst (SHA1_Final c))"
| "sha1_final d = []"

definition sha224_init :: "md_data \<Rightarrow> md_data" where
  "sha224_init d = Sha256_ctx SHA224_Init"

fun sha224_update :: "md_data \<Rightarrow> u8 list \<Rightarrow> md_data" where
  "sha224_update (Sha256_ctx c) data = Sha256_ctx (SHA224_Update c data)"
| "sha224_update d data = d"

fun sha224_final :: "md_data \<Rightarrow> u8 list" where
  "sha224_final (Sha256_ctx c) = written (fst (SHA224_Final c))"
| "sha224_final d = []"

definition sha256_init :: "md_data \<Rightarrow> md_data" where
  "sha256_init d = Sha256_ctx SHA256_Init"

fun sha256_update :: "md_data \<Rightarrow> u8 list \<Rightarrow> md_data" where
  "sha256_update (Sha256_ctx c) data = Sha256_ctx (SHA256_Update c data)"
| "sha256_update d data = d"

fun sha256_final :: "md_data \<Rightarrow> u8 list" where
  "sha256_final (Sha256_ctx c) = written (fst (SHA256_Final c))"
| "sha256_final d = []"

definition sha384_init :: "md_data \<Rightarrow> md_data" where
  "sha384_init d = Sha512_ctx (SHA384_Init (sha512_buffer d))"

fun sha384_update :: "md_data \<Rightarrow> u8 list \<Rightarrow> md_data" where
  "sha384_update (Sha512_ctx c) data = Sha512_ctx (SHA384_Update c data)"
| "sha384_update d data = d"

fun sha384_final :: "md_data \<Rightarrow> u8 list" where
  "sha384_final (Sha512_ctx c) = written (fst (SHA384_Final True c))"
| "sha384_final d = []"

definition sha512_init :: "md_data \<Rightarrow> md_data" where
  "sha512_init d = Sha512_ctx (SHA512_Init (sha512_buffer d))"

fun sha512_update :: "md_data \<Rightarrow> u8 list \<Rightarrow> md_data" where
  "sha512_update (Sha512_ctx c) data = Sha512_ctx (SHA512_Update c data)"
| "sha512_update d data = d"

fun sha512_final :: "md_data \<Rightarrow> u8 list" where
  "sha512_final (Sha512_ctx c) = written (fst (SHA512_Final True c))"
| "sha512_final d = []"

definition md5_sha1_init :: "md_data \<Rightarrow> md_data" where
  "md5_sha1_init d = Md5_sha1_ctx MD5_Init SHA1_Init"

fun md5_sha1_update :: "md_data \<Rightarrow> u8 list \<Rightarrow> md_data" where
  "md5_sha1_update (Md5_sha1_ctx c d) data = Md5_sha1_ctx (MD5_Update c data) (SHA1_Update d data)"
| "md5_sha1_update d data = d"

fun md5_sha1_final :: "md_data \<Rightarrow> u8 list" where
  "md5_sha1_final (Md5_sha1_ctx c d) = written (fst (MD5_Final c)) @ written (fst (SHA1_Final d))"
| "md5_sha1_final d = []"

text \<open>The calls through \<open>digest->init\<close>, \<open>digest->update\<close> and \<open>digest->final\<close>.\<close>

fun md_init :: "evp_md \<Rightarrow> md_data \<Rightarrow> md_data" where
  "md_init EVP_md4 = md4_init"
| "md_init EVP_md5 = md5_init"
| "md_init EVP_sha1 = sha1_init"
| "md_init EVP_sha224 = sha224_init"
| "md_init EVP_sha256 = sha256_init"
| "md_init EVP_sha384 = sha384_init"
| "md_init EVP_sha512 = sha512_init"
| "md_init EVP_md5_sha1 = md5_sha1_init"

fun md_update :: "evp_md \<Rightarrow> md_data \<Rightarrow> u8 list \<Rightarrow> md_data" where
  "md_update EVP_md4 = md4_update"
| "md_update EVP_md5 = md5_update"
| "md_update EVP_sha1 = sha1_update"
| "md_update EVP_sha224 = sha224_update"
| "md_update EVP_sha256 = sha256_update"
| "md_update EVP_sha384 = sha384_update"
| "md_update EVP_sha512 = sha512_update"
| "md_update EVP_md5_sha1 = md5_sha1_update"

fun md_final :: "evp_md \<Rightarrow> md_data \<Rightarrow> u8 list" where
  "md_final EVP_md4 = md4_final"
| "md_final EVP_md5 = md5_final"
| "md_final EVP_sha1 = sha1_final"
| "md_final EVP_sha224 = sha224_final"
| "md_final EVP_sha256 = sha256_final"
| "md_final EVP_sha384 = sha384_final"
| "md_final EVP_sha512 = sha512_final"
| "md_final EVP_md5_sha1 = md5_sha1_final"

lemmas md_init_defs [simp] = md4_init_def md5_init_def sha1_init_def sha224_init_def sha256_init_def sha384_init_def sha512_init_def md5_sha1_init_def

text \<open>The structure that the functions of a digest take \<open>md_data\<close> for.\<close>

fun sizeof_ctx :: "evp_md \<Rightarrow> nat" where
  "sizeof_ctx EVP_md4 = sizeof_MD4_CTX"
| "sizeof_ctx EVP_md5 = sizeof_MD5_CTX"
| "sizeof_ctx EVP_sha1 = sizeof_SHA_CTX"
| "sizeof_ctx EVP_sha224 = sizeof_SHA256_CTX"
| "sizeof_ctx EVP_sha256 = sizeof_SHA256_CTX"
| "sizeof_ctx EVP_sha384 = sizeof_SHA512_CTX"
| "sizeof_ctx EVP_sha512 = sizeof_SHA512_CTX"
| "sizeof_ctx EVP_md5_sha1 = sizeof_MD5_SHA1_CTX"

lemmas sizeof_defs = sizeof_MD4_CTX_def sizeof_MD5_CTX_def sizeof_SHA_CTX_def sizeof_SHA256_CTX_def sizeof_SHA512_CTX_def
  sizeof_MD5_SHA1_CTX_def

text \<open>An allocation: the number of its bytes, and what they hold.\<close>

record md_mem =
  mm_room :: nat
  mm_data :: md_data

type_synonym fresh = "(nat \<Rightarrow> u8) option list"

definition malloc_md :: "nat \<Rightarrow> fresh \<Rightarrow> md_mem option \<times> fresh" where
  "malloc_md n al = (case al of
     [] \<Rightarrow> (Some \<lparr>mm_room = n, mm_data = Raw (replicate n 0)\<rparr>, [])
   | a # al \<Rightarrow> (map_option (\<lambda>f. \<lparr>mm_room = n, mm_data = Raw (map f [0..<n])\<rparr>) a, al))"

text \<open>
  The writes to the memory of a context: the \<open>init\<close> of a digest fills its whole structure, and
  \<open>OPENSSL_memcpy\<close> and \<open>OPENSSL_cleanse\<close> take a number of bytes.
\<close>

definition init_mem :: "evp_md \<Rightarrow> md_mem \<Rightarrow> md_mem" where
  "init_mem t m = m\<lparr>mm_data := if sizeof_ctx t \<le> mm_room m then md_init t (mm_data m) else Torn\<rparr>"

definition copy_mem :: "nat \<Rightarrow> md_mem option \<Rightarrow> md_mem option \<Rightarrow> md_mem option" where
  "copy_mem n dst src = map_option (\<lambda>d. d\<lparr>mm_data := (case src of
     None \<Rightarrow> Torn
   | Some s \<Rightarrow> if n = mm_room d \<and> n = mm_room s then mm_data s else Torn)\<rparr>) dst"

definition erase_mem :: "nat \<Rightarrow> md_mem \<Rightarrow> md_mem" where
  "erase_mem n m = m\<lparr>mm_data := if n = mm_room m then Raw (replicate n 0) else Torn\<rparr>"

text \<open>\<open>pctx\<close> belongs to the public-key code; its \<open>dup\<close> is an argument where it is called.\<close>

record 'p evp_md_ctx =
  mc_digest :: "evp_md option"
  mc_data :: "md_mem option"
  mc_pctx :: "'p option"

definition EVP_MD_CTX_init :: "'p evp_md_ctx" where
  "EVP_MD_CTX_init = \<lparr>mc_digest = None, mc_data = None, mc_pctx = None\<rparr>"

definition EVP_MD_CTX_new :: "bool \<Rightarrow> 'p evp_md_ctx option" where
  "EVP_MD_CTX_new allocated = (if allocated then Some EVP_MD_CTX_init else None)"

definition EVP_MD_CTX_cleanup :: "'p evp_md_ctx \<Rightarrow> 'p evp_md_ctx" where
  "EVP_MD_CTX_cleanup ctx = EVP_MD_CTX_init"

text \<open>\<open>out\<close> and \<open>in\<close> are two contexts; a null \<open>in\<close> is \<open>None\<close>.\<close>

definition EVP_MD_CTX_copy_ex ::
  "('p \<Rightarrow> 'p option) \<Rightarrow> 'p evp_md_ctx \<Rightarrow> 'p evp_md_ctx option \<Rightarrow> fresh \<Rightarrow> bool \<times> 'p evp_md_ctx \<times> fresh" where
  "EVP_MD_CTX_copy_ex dup out inp al = (case inp of
     None \<Rightarrow> (False, out, al)
   | Some inp \<Rightarrow> (case mc_digest inp of
       None \<Rightarrow> (False, out, al)
     | Some digest \<Rightarrow>
         let pctx = Option.bind (mc_pctx inp) dup in
         if mc_pctx inp \<noteq> None \<and> pctx = None then (False, out, al)
         else
           let (tmp_buf, al) = (if mc_digest out \<noteq> Some digest then malloc_md (md_ctx_size (md_object digest)) al else (mc_data out, al)) in
           if mc_digest out \<noteq> Some digest \<and> tmp_buf = None then (False, out, al)
           else
             let out = EVP_MD_CTX_cleanup out in
             (True, out\<lparr>mc_digest := Some digest,
                mc_data := copy_mem (md_ctx_size (md_object digest)) tmp_buf (mc_data inp), mc_pctx := pctx\<rparr>, al)))"

definition EVP_MD_CTX_copy ::
  "('p \<Rightarrow> 'p option) \<Rightarrow> 'p evp_md_ctx option \<Rightarrow> fresh \<Rightarrow> bool \<times> 'p evp_md_ctx \<times> fresh" where
  "EVP_MD_CTX_copy dup inp al = EVP_MD_CTX_copy_ex dup EVP_MD_CTX_init inp al"

definition EVP_MD_CTX_reset :: "'p evp_md_ctx \<Rightarrow> 'p evp_md_ctx" where
  "EVP_MD_CTX_reset ctx = (let ctx = EVP_MD_CTX_cleanup ctx in EVP_MD_CTX_init)"

definition EVP_DigestInit_ex :: "'p evp_md_ctx \<Rightarrow> evp_md \<Rightarrow> fresh \<Rightarrow> bool \<times> 'p evp_md_ctx \<times> fresh" where
  "EVP_DigestInit_ex ctx type al =
    (let (ok, ctx, al) =
       (if mc_digest ctx \<noteq> Some type then
          (case malloc_md (md_ctx_size (md_object type)) al of
             (None, al) \<Rightarrow> (False, ctx, al)
           | (Some d, al) \<Rightarrow> (True, ctx\<lparr>mc_data := Some d, mc_digest := Some type\<rparr>, al))
        else (True, ctx, al)) in
     if \<not> ok then (False, ctx, al)
     else (True, ctx\<lparr>mc_data := map_option (init_mem type) (mc_data ctx)\<rparr>, al))"

definition EVP_DigestInit :: "evp_md \<Rightarrow> fresh \<Rightarrow> bool \<times> 'p evp_md_ctx \<times> fresh" where
  "EVP_DigestInit type al = EVP_DigestInit_ex EVP_MD_CTX_init type al"

text \<open>
  Without a digest the functions below read through a null pointer, and the erased state that
  \<open>EVP_DigestFinal_ex\<close> leaves is not the context of a digest until it is initialised again, nor is
  memory that was too small for it: \<open>None\<close>.
\<close>

fun md_live :: "evp_md \<Rightarrow> md_data \<Rightarrow> bool" where
  "md_live EVP_md4 (Md_ctx c) = True"
| "md_live EVP_md5 (Md_ctx c) = True"
| "md_live EVP_sha1 (Md_ctx c) = True"
| "md_live EVP_sha224 (Sha256_ctx c) = True"
| "md_live EVP_sha256 (Sha256_ctx c) = True"
| "md_live EVP_sha384 (Sha512_ctx c) = True"
| "md_live EVP_sha512 (Sha512_ctx c) = True"
| "md_live EVP_md5_sha1 (Md5_sha1_ctx c d) = True"
| "md_live _ _ = False"

definition EVP_DigestUpdate :: "'p evp_md_ctx \<Rightarrow> u8 list \<Rightarrow> 'p evp_md_ctx option" where
  "EVP_DigestUpdate ctx data = (case (mc_digest ctx, mc_data ctx) of
     (Some t, Some d) \<Rightarrow>
       if md_live t (mm_data d) then Some (ctx\<lparr>mc_data := Some (d\<lparr>mm_data := md_update t (mm_data d) data\<rparr>)\<rparr>) else None
   | _ \<Rightarrow> None)"

text \<open>The digest, with \<open>*size\<close> its length, and the context with the state erased.\<close>

definition EVP_DigestFinal_ex :: "'p evp_md_ctx \<Rightarrow> (u8 list \<times> 'p evp_md_ctx) option" where
  "EVP_DigestFinal_ex ctx = (case (mc_digest ctx, mc_data ctx) of
     (Some t, Some d) \<Rightarrow>
       if md_live t (mm_data d)
       then Some (md_final t (mm_data d), ctx\<lparr>mc_data := Some (erase_mem (md_ctx_size (md_object t)) d)\<rparr>)
       else None
   | _ \<Rightarrow> None)"

definition EVP_DigestFinal :: "'p evp_md_ctx \<Rightarrow> (u8 list \<times> 'p evp_md_ctx) option" where
  "EVP_DigestFinal ctx = map_option (\<lambda>(out, ctx). (out, EVP_MD_CTX_cleanup ctx)) (EVP_DigestFinal_ex ctx)"

text \<open>The digest and 1, or \<open>None\<close> for the result 0; \<open>None\<close> outside is an undefined access.\<close>

definition EVP_Digest :: "u8 list \<Rightarrow> evp_md \<Rightarrow> fresh \<Rightarrow> (u8 list option \<times> fresh) option" where
  "EVP_Digest data type al = (case EVP_DigestInit_ex (EVP_MD_CTX_init :: unit evp_md_ctx) type al of
     (False, ctx, al) \<Rightarrow> Some (None, al)
   | (True, ctx, al) \<Rightarrow>
       Option.bind (EVP_DigestUpdate ctx data) (\<lambda>ctx. Option.bind (EVP_DigestFinal_ex ctx) (\<lambda>(out, ctx). Some (Some out, al))))"

definition EVP_MD_CTX_md :: "'p evp_md_ctx option \<Rightarrow> evp_md option" where
  "EVP_MD_CTX_md ctx = (case ctx of None \<Rightarrow> None | Some ctx \<Rightarrow> mc_digest ctx)"

text \<open>On a context without a digest these read through a null pointer.\<close>

definition EVP_MD_CTX_size :: "'p evp_md_ctx option \<Rightarrow> nat option" where
  "EVP_MD_CTX_size ctx = map_option EVP_MD_size (EVP_MD_CTX_md ctx)"

definition EVP_MD_CTX_block_size :: "'p evp_md_ctx option \<Rightarrow> nat option" where
  "EVP_MD_CTX_block_size ctx = map_option EVP_MD_block_size (EVP_MD_CTX_md ctx)"

definition EVP_MD_CTX_type :: "'p evp_md_ctx option \<Rightarrow> nat option" where
  "EVP_MD_CTX_type ctx = map_option EVP_MD_type (EVP_MD_CTX_md ctx)"

section \<open>The digests keep the contract of a hash function\<close>

text \<open>
  What a user of a digest relies on: \<open>ok d m\<close> says that the state \<open>d\<close> has taken the message \<open>m\<close>.
\<close>

locale digest =
  fixes init :: "'d \<Rightarrow> 'd" and update :: "'d \<Rightarrow> u8 list \<Rightarrow> 'd" and final :: "'d \<Rightarrow> u8 list"
    and ok :: "'d \<Rightarrow> u8 list \<Rightarrow> bool" and hash :: "u8 list \<Rightarrow> u8 list" and md_size :: nat
  assumes init_ok: "ok (init d) []"
    and update_ok: "ok d m \<Longrightarrow> ok (update d x) (m @ x)"
    and final_hash: "ok d m \<Longrightarrow> final d = hash m"
    and length_hash: "length (hash m) = md_size"
begin

lemma chunks_ok: "ok d m \<Longrightarrow> ok (foldl update d xs) (m @ concat xs)"
proof (induction xs arbitrary: d m)
  case (Cons x xs)
  then show ?case using Cons.IH [OF update_ok, of d m x] by simp
qed simp

lemma digest_hash: "final (foldl update (init d) xs) = hash (concat xs)"
  using final_hash [OF chunks_ok [OF init_ok]] by simp

end

text \<open>The functions the standards define.\<close>

fun evp_hash :: "evp_md \<Rightarrow> u8 list \<Rightarrow> u8 list" where
  "evp_hash EVP_md4 m = rfc_md4 m"
| "evp_hash EVP_md5 m = rfc_md5 m"
| "evp_hash EVP_sha1 m = fips_sha1 m"
| "evp_hash EVP_sha224 m = fips_sha256 (hc_h SHA224_Init) 7 m"
| "evp_hash EVP_sha256 m = fips_sha256 (hc_h SHA256_Init) 8 m"
| "evp_hash EVP_sha384 m = fips_sha512 (h5_h (SHA384_Init [])) 6 m"
| "evp_hash EVP_sha512 m = fips_sha512 (h5_h (SHA512_Init [])) 8 m"
| "evp_hash EVP_md5_sha1 m = rfc_md5 m @ fips_sha1 m"

definition absorbed :: "evp_md \<Rightarrow> md_data \<Rightarrow> u8 list \<Rightarrow> bool" where
  "absorbed t d m \<longleftrightarrow> (\<exists>r bss. d = foldl (md_update t) (md_init t r) bss \<and> m = concat bss)"

lemma md_update_chunks:
  "foldl md4_update (Md_ctx c) bss = Md_ctx (fold (\<lambda>bs c. MD4_Update c bs) bss c)"
  "foldl md5_update (Md_ctx c) bss = Md_ctx (fold (\<lambda>bs c. MD5_Update c bs) bss c)"
  "foldl sha1_update (Md_ctx c) bss = Md_ctx (fold (\<lambda>bs c. SHA1_Update c bs) bss c)"
  "foldl sha224_update (Sha256_ctx c2) bss = Sha256_ctx (fold (\<lambda>bs c. SHA256_Update c bs) bss c2)"
  "foldl sha256_update (Sha256_ctx c2) bss = Sha256_ctx (fold (\<lambda>bs c. SHA256_Update c bs) bss c2)"
  "foldl sha384_update (Sha512_ctx c5) bss = Sha512_ctx (fold (\<lambda>bs c. SHA512_Update c bs) bss c5)"
  "foldl sha512_update (Sha512_ctx c5) bss = Sha512_ctx (fold (\<lambda>bs c. SHA512_Update c bs) bss c5)"
  "foldl md5_sha1_update (Md5_sha1_ctx c d) bss =
     Md5_sha1_ctx (fold (\<lambda>bs c. MD5_Update c bs) bss c) (fold (\<lambda>bs c. SHA1_Update c bs) bss d)"
  by (induction bss arbitrary: c d c2 c5) (simp_all add: SHA224_Update_def SHA384_Update_def)

lemma md_final_hash: "md_final t (foldl (md_update t) (md_init t r) bss) = evp_hash t (concat bss)"
  using SHA512_chunks [of "SHA512_Init (sha512_buffer r)" 8 bss] SHA512_chunks [of "SHA384_Init (sha512_buffer r)" 6 bss]
    SHA256_chunks [of SHA256_Init 8 bss] SHA256_chunks [of SHA224_Init 7 bss]
  by (cases t) (simp_all add: md_update_chunks MD4_chunks MD5_chunks SHA1_chunks SHA224_Final_def SHA384_Final_def
      SHA512_Init_def SHA384_Init_def SHA256_Init_def SHA224_Init_def)


lemma length_concat_const: "(\<And>x. x \<in> set xs \<Longrightarrow> length (f x) = k) \<Longrightarrow> length (concat (map f xs)) = length xs * k"
  by (induction xs) auto

lemma length_md_digest:
  "k \<le> length (fold_blocks 64 compress H (md_pad big m)) \<Longrightarrow> length (md_digest big k compress H m) = k * 4"
  unfolding md_digest_def by (subst length_concat_const [of _ _ 4]) auto

lemma length_fips_sha256: "length H = 8 \<Longrightarrow> n \<le> 8 \<Longrightarrow> length (fips_sha256 H n m) = n * 4"
  unfolding fips_sha256_def using sha256_md.one_comp_blocks [of H] by (intro length_md_digest) simp

lemma length_fips_sha512: "length H = 8 \<Longrightarrow> n \<le> 8 \<Longrightarrow> length (fips_sha512 H n m) = n * 8"
  unfolding fips_sha512_def using sha512_blocks_fips [of H] by (subst length_concat_const [of _ _ 8]) auto

lemma length_fips_sha1: "length (fips_sha1 m) = 20"
  unfolding fips_sha1_def using sha1.one_comp_blocks by (subst length_md_digest) (auto simp flip: One_nat_def)

lemma length_rfc_md: "length (rfc_md4 m) = 16" "length (rfc_md5 m) = 16"
  unfolding rfc_md4_def rfc_md5_def using md4.one_comp_blocks md5.one_comp_blocks by (subst length_md_digest; auto)+

lemma length_evp_hash: "length (evp_hash t m) = EVP_MD_size t"
  by (cases t) (simp_all add: length_rfc_md length_fips_sha1 length_fips_sha256 length_fips_sha512
      SHA224_Init_def SHA256_Init_def SHA384_Init_def SHA512_Init_def)

interpretation evp: digest "md_init t" "md_update t" "md_final t" "absorbed t" "evp_hash t" "EVP_MD_size t" for t
proof unfold_locales
  show "absorbed t (md_init t d) []" for d unfolding absorbed_def by (intro exI [of _ d] exI [of _ "[]"]) simp
next
  fix d m x assume "absorbed t d m"
  then obtain r bss where "d = foldl (md_update t) (md_init t r) bss" "m = concat bss" unfolding absorbed_def by blast
  then show "absorbed t (md_update t d x) (m @ x)"
    unfolding absorbed_def by (intro exI [of _ r] exI [of _ "bss @ [x]"]) simp
next
  show "absorbed t d m \<Longrightarrow> md_final t d = evp_hash t m" for d m unfolding absorbed_def using md_final_hash by blast
qed (rule length_evp_hash)


section \<open>Contexts\<close>

lemma md_live_init [simp]: "md_live t (md_init t d)"
  by (cases t) auto

lemma md_live_update [simp]: "md_live t (md_update t d x) = md_live t d"
  by (cases t; cases d) auto

lemma absorbed_live: "absorbed t d m \<Longrightarrow> md_live t d"
proof -
  have "md_live t d \<Longrightarrow> md_live t (foldl (md_update t) d bss)" for d bss
    by (induction bss arbitrary: d) auto
  then show "absorbed t d m \<Longrightarrow> md_live t d" unfolding absorbed_def by auto
qed

text \<open>
  The memory of a context has exactly the size of its digest's structure and holds, between calls, a
  context of that digest or the bytes it was allocated or erased with.
\<close>

definition md_typed :: "evp_md \<Rightarrow> md_mem \<Rightarrow> bool" where
  "md_typed t m \<longleftrightarrow> mm_room m = sizeof_ctx t \<and>
    (md_live t (mm_data m) \<or> (case mm_data m of Raw bs \<Rightarrow> length bs = mm_room m | _ \<Rightarrow> False))"

definition ctx_typed :: "'p evp_md_ctx \<Rightarrow> bool" where
  "ctx_typed ctx = (case (mc_digest ctx, mc_data ctx) of
     (None, None) \<Rightarrow> True
   | (Some t, Some m) \<Rightarrow> md_typed t m
   | _ \<Rightarrow> False)"

definition ctx_live :: "'p evp_md_ctx \<Rightarrow> bool" where
  "ctx_live ctx = (case (mc_digest ctx, mc_data ctx) of
     (Some t, Some m) \<Rightarrow> mm_room m = sizeof_ctx t \<and> md_live t (mm_data m)
   | _ \<Rightarrow> False)"

lemma md_ctx_size_object [simp]: "md_ctx_size (md_object t) = sizeof_ctx t"
  by (cases t) (simp_all add: method_defs)

lemma ctx_live_typed: "ctx_live ctx \<Longrightarrow> ctx_typed ctx"
  unfolding ctx_live_def ctx_typed_def md_typed_def by (simp split: option.splits)

lemma ctx_typed_data: "ctx_typed ctx \<Longrightarrow> (mc_data ctx = None) = (mc_digest ctx = None)"
  unfolding ctx_typed_def by (simp split: option.splits)

lemma ctx_typed_room: "ctx_typed ctx \<Longrightarrow> mc_data ctx = Some m \<Longrightarrow> mc_digest ctx = Some t \<Longrightarrow> mm_room m = sizeof_ctx t"
  unfolding ctx_typed_def md_typed_def by simp

lemma EVP_MD_CTX_init_digest [simp]: "mc_digest EVP_MD_CTX_init = None"
  by (simp add: EVP_MD_CTX_init_def)

lemma ctx_typed_init [simp]: "ctx_typed EVP_MD_CTX_init"
  by (simp add: ctx_typed_def EVP_MD_CTX_init_def)

lemma malloc_md_result:
  "malloc_md n al = (d, al') \<Longrightarrow> d = None \<or> (\<exists>bs. d = Some \<lparr>mm_room = n, mm_data = Raw bs\<rparr> \<and> length bs = n)"
  unfolding malloc_md_def by (cases "hd al") (auto split: list.splits)

lemma init_mem_room: "mm_room m = sizeof_ctx t \<Longrightarrow> init_mem t m = m\<lparr>mm_data := md_init t (mm_data m)\<rparr>"
  by (simp add: init_mem_def)

lemma copy_mem_room: "mm_room d = n \<Longrightarrow> mm_room s = n \<Longrightarrow> copy_mem n (Some d) (Some s) = Some s"
  by (cases d; cases s) (simp add: copy_mem_def)

lemma erase_mem_room [simp]: "mm_room (erase_mem n m) = mm_room m"
  by (simp add: erase_mem_def)

text \<open>
  A copy fails exactly when its input has no digest, \<open>dup\<close> fails or the allocation does, and then
  leaves its output alone; else it makes it equal in digest and state.
\<close>

lemma EVP_MD_CTX_copy_ex_result:
  assumes "ctx_typed out" "ctx_typed inp" "EVP_MD_CTX_copy_ex dup out (Some inp) al = (ok, out', al')"
  shows "if ok then mc_digest inp \<noteq> None \<and> mc_digest out' = mc_digest inp \<and> mc_data out' = mc_data inp \<and>
      mc_pctx out' = Option.bind (mc_pctx inp) dup else out' = out"
    and "ok \<longleftrightarrow> (\<exists>t. mc_digest inp = Some t \<and> (mc_pctx inp \<noteq> None \<longrightarrow> Option.bind (mc_pctx inp) dup \<noteq> None) \<and>
      (mc_digest out = Some t \<or> fst (malloc_md (sizeof_ctx t) al) \<noteq> None))"
proof -
  have "copy_mem (sizeof_ctx t) d (mc_data inp) = mc_data inp"
    if t: "mc_digest inp = Some t" and d: "d \<noteq> None" "d = mc_data out \<and> mc_digest out = Some t \<or> d = fst (malloc_md (sizeof_ctx t) al)" for t d
  proof -
    obtain m s where "d = Some m" "mc_data inp = Some s" using d(1) ctx_typed_data [OF assms(2)] t by auto
    moreover have "mm_room s = sizeof_ctx t" using ctx_typed_room [OF assms(2)] calculation(2) t by blast
    moreover have "mm_room m = sizeof_ctx t"
      using d(2) calculation(1) ctx_typed_room [OF assms(1), of m t] malloc_md_result [of "sizeof_ctx t" al] by (metis eq_fst_iff option.distinct(1) option.inject md_mem.select_convs(1))
    ultimately show ?thesis by (simp add: copy_mem_room)
  qed
  note c = this
  have "mc_data out \<noteq> None" if "mc_digest out = Some t" for t
    using that ctx_typed_data [OF assms(1)] by auto
  then show "if ok then mc_digest inp \<noteq> None \<and> mc_digest out' = mc_digest inp \<and> mc_data out' = mc_data inp \<and>
      mc_pctx out' = Option.bind (mc_pctx inp) dup else out' = out"
    using assms(3) c unfolding EVP_MD_CTX_copy_ex_def
    by (auto simp: Let_def EVP_MD_CTX_cleanup_def EVP_MD_CTX_init_def split: if_splits option.splits prod.splits)
  show "ok \<longleftrightarrow> (\<exists>t. mc_digest inp = Some t \<and> (mc_pctx inp \<noteq> None \<longrightarrow> Option.bind (mc_pctx inp) dup \<noteq> None) \<and>
      (mc_digest out = Some t \<or> fst (malloc_md (sizeof_ctx t) al) \<noteq> None))"
    using assms(3) unfolding EVP_MD_CTX_copy_ex_def
    by (auto simp: Let_def split: if_splits option.splits prod.splits)
qed

lemma ctx_typed_copy:
  assumes "ctx_typed out" "ctx_typed inp" "EVP_MD_CTX_copy_ex dup out (Some inp) al = (ok, out', al')"
  shows "ctx_typed out'" and "ok \<Longrightarrow> ctx_live out' = ctx_live inp"
  using EVP_MD_CTX_copy_ex_result(1) [OF assms] assms(1,2) unfolding ctx_typed_def ctx_live_def by (auto split: if_splits)

text \<open>Initialising fails exactly with its allocation, and then leaves the context alone.\<close>

lemma EVP_DigestInit_ex_result:
  assumes "ctx_typed ctx" "EVP_DigestInit_ex ctx t al = (ok, ctx', al')"
  shows "if ok then mc_digest ctx' = Some t \<and> mc_pctx ctx' = mc_pctx ctx \<and>
      (\<exists>d. mc_data ctx' = Some \<lparr>mm_room = sizeof_ctx t, mm_data = md_init t d\<rparr>) else ctx' = ctx"
    and "ok \<longleftrightarrow> mc_digest ctx = Some t \<or> fst (malloc_md (sizeof_ctx t) al) \<noteq> None"
proof -
  have i: "\<exists>d. init_mem t m = \<lparr>mm_room = sizeof_ctx t, mm_data = md_init t d\<rparr>" if "mm_room m = sizeof_ctx t" for m :: md_mem
    using that by (cases m) (auto simp: init_mem_room)
  show "if ok then mc_digest ctx' = Some t \<and> mc_pctx ctx' = mc_pctx ctx \<and>
      (\<exists>d. mc_data ctx' = Some \<lparr>mm_room = sizeof_ctx t, mm_data = md_init t d\<rparr>) else ctx' = ctx"
  proof (cases "mc_digest ctx = Some t")
    case True
    then obtain m where "mc_data ctx = Some m" using ctx_typed_data [OF assms(1)] by auto
    then show ?thesis using assms(2) True ctx_typed_room [OF assms(1)] i [of m] unfolding EVP_DigestInit_ex_def by auto
  next
    case False
    show ?thesis
    proof (cases "malloc_md (sizeof_ctx t) al")
      case (Pair d al1)
      then show ?thesis
        using assms(2) False i malloc_md_result [OF Pair] unfolding EVP_DigestInit_ex_def by (auto simp: Let_def)
    qed
  qed
  show "ok \<longleftrightarrow> mc_digest ctx = Some t \<or> fst (malloc_md (sizeof_ctx t) al) \<noteq> None"
    using assms(2) unfolding EVP_DigestInit_ex_def by (auto simp: Let_def split: if_splits option.splits prod.splits)
qed

text \<open>\<open>hashing ctx t m\<close>: the context has taken \<open>m\<close> into the digest \<open>t\<close>.\<close>

definition hashing :: "'p evp_md_ctx \<Rightarrow> evp_md \<Rightarrow> u8 list \<Rightarrow> bool" where
  "hashing ctx t m \<longleftrightarrow> mc_digest ctx = Some t \<and>
    (\<exists>d. mc_data ctx = Some d \<and> mm_room d = sizeof_ctx t \<and> absorbed t (mm_data d) m)"

lemma hashing_live: "hashing ctx t m \<Longrightarrow> ctx_live ctx"
  unfolding hashing_def ctx_live_def by (auto simp: absorbed_live)

lemma hashing_typed: "hashing ctx t m \<Longrightarrow> ctx_typed ctx"
  using hashing_live ctx_live_typed by blast

lemma EVP_DigestInit_ex_hashing:
  assumes "ctx_typed ctx" "EVP_DigestInit_ex ctx t al = (True, ctx', al')"
  shows "hashing ctx' t []"
  using EVP_DigestInit_ex_result(1) [OF assms] evp.init_ok unfolding hashing_def by auto

lemma EVP_DigestUpdate_hashing:
  assumes "hashing ctx t m"
  obtains ctx' where "EVP_DigestUpdate ctx x = Some ctx'" "hashing ctx' t (m @ x)" "mc_pctx ctx' = mc_pctx ctx"
proof -
  from assms obtain d where d: "mc_digest ctx = Some t" "mc_data ctx = Some d" "mm_room d = sizeof_ctx t" "absorbed t (mm_data d) m"
    unfolding hashing_def by blast
  let ?d = "d\<lparr>mm_data := md_update t (mm_data d) x\<rparr>"
  have "EVP_DigestUpdate ctx x = Some (ctx\<lparr>mc_data := Some ?d\<rparr>)"
    using d by (simp add: EVP_DigestUpdate_def absorbed_live)
  moreover have "hashing (ctx\<lparr>mc_data := Some ?d\<rparr>) t (m @ x)"
    using d evp.update_ok by (simp add: hashing_def)
  ultimately show ?thesis using that by auto
qed

lemma EVP_DigestFinal_ex_hashing:
  "hashing ctx t m \<Longrightarrow> EVP_DigestFinal_ex ctx =
     Some (evp_hash t m, ctx\<lparr>mc_data := Some \<lparr>mm_room = sizeof_ctx t, mm_data = Raw (replicate (sizeof_ctx t) 0)\<rparr>\<rparr>)"
  unfolding hashing_def EVP_DigestFinal_ex_def by (auto simp: absorbed_live evp.final_hash erase_mem_def)

lemma EVP_MD_CTX_copy_ex_hashing:
  assumes "ctx_typed out" "hashing inp t m" "EVP_MD_CTX_copy_ex dup out (Some inp) al = (True, out', al')"
  shows "hashing out' t m"
  using EVP_MD_CTX_copy_ex_result(1) [OF assms(1) hashing_typed [OF assms(2)] assms(3)] assms(2) unfolding hashing_def by auto

lemma EVP_DigestFinal_ex_typed: "ctx_live ctx \<Longrightarrow> \<exists>out ctx'. EVP_DigestFinal_ex ctx = Some (out, ctx') \<and> ctx_typed ctx' \<and>
    mc_digest ctx' = mc_digest ctx"
  unfolding ctx_live_def EVP_DigestFinal_ex_def ctx_typed_def md_typed_def by (auto simp: erase_mem_def split: option.splits)

lemma EVP_DigestUpdate_typed: "ctx_live ctx \<Longrightarrow> \<exists>ctx'. EVP_DigestUpdate ctx x = Some ctx' \<and> ctx_live ctx'"
  unfolding ctx_live_def EVP_DigestUpdate_def by (auto split: option.splits)

lemma EVP_DigestInit_ex_typed:
  assumes "ctx_typed ctx" "EVP_DigestInit_ex ctx t al = (ok, ctx', al')"
  shows "ctx_typed ctx' \<and> (ok \<longrightarrow> ctx_live ctx')"
  using EVP_DigestInit_ex_result(1) [OF assms] assms(1)
  by (auto simp: ctx_live_def intro: ctx_live_typed split: if_splits)

text \<open>
  C27: the operations of \<open>digest.c\<close> keep a context typed: its memory was allocated with exactly the
  size of its digest's structure and, while it is in use, holds a context of that digest.
  Initialising fails exactly when the memory has to be allocated and the allocation fails; a copy
  does so as well, or if its input has no digest or its \<open>pctx\<close> cannot be duplicated.  A failure
  leaves the context as it was.  A context that initialising or copying has made live never gets
  stuck in \<open>EVP_DigestUpdate\<close> or \<open>EVP_DigestFinal_ex\<close>, and stays typed.
\<close>

theorem evp_md_ctx_typed:
  assumes "ctx_typed ctx" "ctx_typed inp"
  shows "(case EVP_DigestInit_ex ctx t al of
        (ok, ctx', al') \<Rightarrow> ctx_typed ctx' \<and> (if ok then ctx_live ctx' else ctx' = ctx) \<and>
          (ok \<longleftrightarrow> mc_digest ctx = Some t \<or> fst (malloc_md (sizeof_ctx t) al) \<noteq> None)) \<and>
    (case EVP_MD_CTX_copy_ex dup ctx (Some inp) al of
        (ok, ctx', al') \<Rightarrow> ctx_typed ctx' \<and>
          (if ok then ctx_live ctx' = ctx_live inp \<and> mc_digest ctx' = mc_digest inp else ctx' = ctx) \<and>
          (ok \<longleftrightarrow> (\<exists>t. mc_digest inp = Some t \<and> (mc_pctx inp \<noteq> None \<longrightarrow> Option.bind (mc_pctx inp) dup \<noteq> None) \<and>
             (mc_digest ctx = Some t \<or> fst (malloc_md (sizeof_ctx t) al) \<noteq> None)))) \<and>
    (ctx_live inp \<longrightarrow> (\<exists>inp'. EVP_DigestUpdate inp x = Some inp' \<and> ctx_live inp' \<and> ctx_typed inp')) \<and>
    (ctx_live inp \<longrightarrow> (\<exists>out inp'. EVP_DigestFinal_ex inp = Some (out, inp') \<and> ctx_typed inp'))"
proof (intro conjI)
  show "case EVP_DigestInit_ex ctx t al of
      (ok, ctx', al') \<Rightarrow> ctx_typed ctx' \<and> (if ok then ctx_live ctx' else ctx' = ctx) \<and>
          (ok \<longleftrightarrow> mc_digest ctx = Some t \<or> fst (malloc_md (sizeof_ctx t) al) \<noteq> None)"
  proof (cases "EVP_DigestInit_ex ctx t al")
    case (fields ok ctx' al')
    then show ?thesis
      using EVP_DigestInit_ex_result [OF assms(1) fields] EVP_DigestInit_ex_typed [OF assms(1) fields] by (cases ok) simp_all
  qed
  show "case EVP_MD_CTX_copy_ex dup ctx (Some inp) al of
      (ok, ctx', al') \<Rightarrow> ctx_typed ctx' \<and>
          (if ok then ctx_live ctx' = ctx_live inp \<and> mc_digest ctx' = mc_digest inp else ctx' = ctx) \<and>
          (ok \<longleftrightarrow> (\<exists>t. mc_digest inp = Some t \<and> (mc_pctx inp \<noteq> None \<longrightarrow> Option.bind (mc_pctx inp) dup \<noteq> None) \<and>
             (mc_digest ctx = Some t \<or> fst (malloc_md (sizeof_ctx t) al) \<noteq> None)))"
  proof (cases "EVP_MD_CTX_copy_ex dup ctx (Some inp) al")
    case (fields ok ctx' al')
    show ?thesis unfolding fields prod.case
      using EVP_MD_CTX_copy_ex_result(1) [OF assms fields] EVP_MD_CTX_copy_ex_result(2) [OF assms fields]
        ctx_typed_copy [OF assms fields] by (intro conjI) (simp_all split: if_splits)
  qed
qed (use EVP_DigestUpdate_typed EVP_DigestFinal_ex_typed ctx_live_typed in blast)+

theorem evp_md_ctx_typed_witness:
  "ctx_typed (EVP_MD_CTX_init :: unit evp_md_ctx) \<and>
   (case EVP_DigestInit_ex (EVP_MD_CTX_init :: unit evp_md_ctx) EVP_sha1 [None] of
      (ok, ctx', al') \<Rightarrow> ctx_typed ctx' \<and> \<not> ok \<and> ctx' = EVP_MD_CTX_init) \<and>
   (case EVP_DigestInit_ex (EVP_MD_CTX_init :: unit evp_md_ctx) EVP_sha256 [Some (\<lambda>_. 7)] of
      (ok, ctx', al') \<Rightarrow> ctx_typed ctx' \<and> ok \<and> ctx_live ctx')"
  using evp_md_ctx_typed [of "EVP_MD_CTX_init :: unit evp_md_ctx" EVP_MD_CTX_init EVP_sha1 "[None]"]
    evp_md_ctx_typed [of "EVP_MD_CTX_init :: unit evp_md_ctx" EVP_MD_CTX_init EVP_sha256 "[Some (\<lambda>_. 7)]"]
  by (simp add: malloc_md_def case_prod_beta)

lemma EVP_DigestInit_ex_alloc:
  "mc_digest ctx \<noteq> Some t \<Longrightarrow> EVP_DigestInit_ex ctx t al = (case malloc_md (sizeof_ctx t) al of
     (None, al') \<Rightarrow> (False, ctx, al')
   | (Some d, al') \<Rightarrow> (True, ctx\<lparr>mc_data := Some (init_mem t d), mc_digest := Some t\<rparr>, al'))"
  by (auto simp: EVP_DigestInit_ex_def Let_def split: prod.splits option.splits)

lemma EVP_Digest_spec:
  "EVP_Digest m t al = Some (if fst (malloc_md (sizeof_ctx t) al) = None then None else Some (evp_hash t m),
     snd (malloc_md (sizeof_ctx t) al))"
proof (cases "EVP_DigestInit_ex (EVP_MD_CTX_init :: unit evp_md_ctx) t al")
  case (fields ok ctx al')
  note r = EVP_DigestInit_ex_result(2) [OF ctx_typed_init fields]
  have al: "al' = snd (malloc_md (sizeof_ctx t) al)"
    using fields EVP_DigestInit_ex_alloc [of "EVP_MD_CTX_init :: unit evp_md_ctx" t al]
    by (auto simp: EVP_MD_CTX_init_def split: prod.splits option.splits)
  show ?thesis
  proof (cases ok)
    case True
    then have "hashing ctx t []" using EVP_DigestInit_ex_hashing [OF ctx_typed_init, of t al ctx al'] fields by simp
    then obtain ctx' where "EVP_DigestUpdate ctx m = Some ctx'" "hashing ctx' t m"
      by (rule EVP_DigestUpdate_hashing [of _ _ _ m]) simp
    then show ?thesis using fields True al r by (simp add: EVP_Digest_def EVP_DigestFinal_ex_hashing)
  next
    case False
    then show ?thesis using fields al r by (simp add: EVP_Digest_def)
  qed
qed

text \<open>
  C26: \<open>EVP_Digest\<close> returns 0 if and only if the allocation of its context fails, and otherwise the
  digest that the standard of its \<open>EVP_MD\<close> defines, of the length \<open>EVP_MD_size\<close> announces; it never
  accesses memory it does not have.  A context that is copied in the middle of a message yields the
  digests of both continuations.
\<close>

theorem EVP_Digest_correct:
  assumes "ctx_typed ctx" "ctx_typed out"
    "EVP_DigestInit_ex ctx t al = (True, c0, al1)" "EVP_DigestUpdate c0 x = Some c1"
    "EVP_MD_CTX_copy_ex dup out (Some c1) al1 = (True, d1, al2)"
  shows "Option.bind (EVP_DigestUpdate c1 y) (\<lambda>c. map_option fst (EVP_DigestFinal_ex c)) = Some (evp_hash t (x @ y)) \<and>
    Option.bind (EVP_DigestUpdate d1 z) (\<lambda>c. map_option fst (EVP_DigestFinal_ex c)) = Some (evp_hash t (x @ z)) \<and>
    (\<exists>r al4. EVP_Digest (x @ y) t al3 = Some (r, al4) \<and>
       (r = None \<longleftrightarrow> fst (malloc_md (md_ctx_size (md_object t)) al3) = None) \<and>
       (r \<noteq> None \<longleftrightarrow> r = Some (evp_hash t (x @ y))) \<and>
       al4 = snd (malloc_md (md_ctx_size (md_object t)) al3)) \<and>
    length (evp_hash t (x @ y)) = EVP_MD_size t"
proof -
  have "hashing c0 t []" using EVP_DigestInit_ex_hashing [OF assms(1,3)] .
  then have c1: "hashing c1 t x" by (rule EVP_DigestUpdate_hashing [of c0 t "[]" x]) (use assms(4) in simp)
  have d1: "hashing d1 t x" using EVP_MD_CTX_copy_ex_hashing [OF assms(2) c1 assms(5)] .
  have "Option.bind (EVP_DigestUpdate c w) (\<lambda>c. map_option fst (EVP_DigestFinal_ex c)) = Some (evp_hash t (x @ w))"
    if c: "hashing c t x" for c :: "'a evp_md_ctx" and w
  proof -
    obtain c' where "EVP_DigestUpdate c w = Some c'" "hashing c' t (x @ w)"
      by (rule EVP_DigestUpdate_hashing [OF c, of w]) simp
    then show ?thesis by (simp add: EVP_DigestFinal_ex_hashing)
  qed
  note this [OF c1, of y] this [OF d1, of z]
  then show ?thesis by (simp add: EVP_Digest_spec length_evp_hash)
qed

definition example_md5_ctx :: "u8 list \<Rightarrow> unit evp_md_ctx" where
  "example_md5_ctx m = EVP_MD_CTX_init\<lparr>mc_digest := Some EVP_md5, mc_data := Some
     \<lparr>mm_room = sizeof_MD5_CTX, mm_data = md_update EVP_md5 (md_init EVP_md5 (Raw [])) m\<rparr>\<rparr>"

theorem EVP_Digest_correct_witness:
  "Option.bind (EVP_DigestUpdate (example_md5_ctx [97]) [98]) (\<lambda>c. map_option fst (EVP_DigestFinal_ex c)) =
     Some (evp_hash EVP_md5 [97, 98]) \<and>
   EVP_Digest [97, 98] EVP_md5 [None] = Some (None, []) \<and>
   EVP_Digest [97, 98] EVP_md5 [] = Some (Some (evp_hash EVP_md5 [97, 98]), [])"
proof -
  let ?c0 = "EVP_MD_CTX_init\<lparr>mc_digest := Some EVP_md5, mc_data := Some \<lparr>mm_room = sizeof_MD5_CTX, mm_data = md_init EVP_md5 (Raw [])\<rparr>\<rparr>
    :: unit evp_md_ctx"
  have i: "EVP_DigestInit_ex (EVP_MD_CTX_init :: unit evp_md_ctx) EVP_md5 [] = (True, ?c0, [])"
    by (simp add: EVP_DigestInit_ex_def EVP_MD_CTX_init_def malloc_md_def init_mem_def method_md5_def)
  have u: "EVP_DigestUpdate ?c0 [97] = Some (example_md5_ctx [97])"
    by (simp add: EVP_DigestUpdate_def EVP_MD_CTX_init_def example_md5_ctx_def)
  have c: "EVP_MD_CTX_copy_ex Some EVP_MD_CTX_init (Some (example_md5_ctx [97])) [] = (True, example_md5_ctx [97], [])"
    by (simp add: EVP_MD_CTX_copy_ex_def EVP_MD_CTX_cleanup_def EVP_MD_CTX_init_def example_md5_ctx_def malloc_md_def copy_mem_def method_md5_def)
  show ?thesis
    using EVP_Digest_correct [OF ctx_typed_init ctx_typed_init i u c, of "[98]" "[]" "[]"]
      EVP_Digest_correct [OF ctx_typed_init ctx_typed_init i u c, of "[98]" "[]" "[None]"]
    by (auto simp: malloc_md_def method_md5_def)
qed

end
