(* ===== verification/Hmac.thy ===== *)
theory Hmac
  imports Digest
begin


text \<open>
  HMAC and the two key derivations on it: \<open>crypto/fipsmodule/hmac/hmac.c\<close>, \<open>crypto/hkdf/hkdf.c\<close> and
  \<open>crypto/evp/pbkdf.c\<close>.

  A null pointer is \<open>None\<close>, and so is the result of a function that reads through one or leaves
  \<open>key_block\<close>.  The contexts inside an \<open>HMAC_CTX\<close> have no \<open>pctx\<close>.
\<close>

section \<open>HMAC\<close>

abbreviation EVP_MAX_MD_SIZE :: nat where "EVP_MAX_MD_SIZE \<equiv> 64"
abbreviation EVP_MAX_MD_BLOCK_SIZE :: nat where "EVP_MAX_MD_BLOCK_SIZE \<equiv> 128"

type_synonym md_ctx = "unit evp_md_ctx"

record hmac_ctx =
  hm_md :: "evp_md option"
  hm_md_ctx :: md_ctx
  hm_i_ctx :: md_ctx
  hm_o_ctx :: md_ctx

definition HMAC_CTX_init :: hmac_ctx where
  "HMAC_CTX_init = \<lparr>hm_md = None, hm_md_ctx = EVP_MD_CTX_init, hm_i_ctx = EVP_MD_CTX_init, hm_o_ctx = EVP_MD_CTX_init\<rparr>"

definition HMAC_CTX_new :: "bool \<Rightarrow> hmac_ctx option" where
  "HMAC_CTX_new allocated = (if allocated then Some HMAC_CTX_init else None)"

text \<open>\<open>OPENSSL_cleanse\<close> makes the context all zero, as \<open>HMAC_CTX_init\<close> does.\<close>

definition HMAC_CTX_cleanup :: "hmac_ctx \<Rightarrow> hmac_ctx" where
  "HMAC_CTX_cleanup ctx =
    (let ctx = ctx\<lparr>hm_i_ctx := EVP_MD_CTX_cleanup (hm_i_ctx ctx)\<rparr>;
         ctx = ctx\<lparr>hm_o_ctx := EVP_MD_CTX_cleanup (hm_o_ctx ctx)\<rparr>;
         ctx = ctx\<lparr>hm_md_ctx := EVP_MD_CTX_cleanup (hm_md_ctx ctx)\<rparr>
     in ctx\<lparr>hm_md := None\<rparr>)"

definition HMAC_CTX_reset :: "hmac_ctx \<Rightarrow> hmac_ctx" where
  "HMAC_CTX_reset ctx = (let ctx = HMAC_CTX_cleanup ctx in HMAC_CTX_init)"

text \<open>
  The key block: a long key is hashed, and the rest is zero.  Its first component is \<open>None\<close> when the
  allocation fails.
\<close>

definition HMAC_key_block :: "md_ctx \<Rightarrow> evp_md \<Rightarrow> u8 list \<Rightarrow> fresh \<Rightarrow> (u8 list option \<times> md_ctx \<times> fresh) option" where
  "HMAC_key_block md_ctx md key al =
    (if EVP_MD_block_size md < length key then
       (case EVP_DigestInit_ex md_ctx md al of
          (False, md_ctx, al) \<Rightarrow> Some (None, md_ctx, al)
        | (True, md_ctx, al) \<Rightarrow>
            Option.bind (EVP_DigestUpdate md_ctx key) (\<lambda>md_ctx.
            Option.bind (EVP_DigestFinal_ex md_ctx) (\<lambda>(key_block, md_ctx).
              Some (Some (key_block @ replicate (EVP_MAX_MD_BLOCK_SIZE - length key_block) 0), md_ctx, al))))
     else if EVP_MAX_MD_BLOCK_SIZE < length key then None
     else Some (Some (key @ replicate (EVP_MAX_MD_BLOCK_SIZE - length key) 0), md_ctx, al))"

text \<open>A context is started on the key block, XORed with a constant.\<close>

definition HMAC_pad :: "u8 \<Rightarrow> u8 list \<Rightarrow> evp_md \<Rightarrow> md_ctx \<Rightarrow> fresh \<Rightarrow> (bool \<times> md_ctx \<times> fresh) option" where
  "HMAC_pad c key_block md ctx al =
    (let pad = map (\<lambda>k. c XOR k) key_block in
     case EVP_DigestInit_ex ctx md al of
       (False, ctx, al) \<Rightarrow> Some (False, ctx, al)
     | (True, ctx, al) \<Rightarrow>
         map_option (\<lambda>ctx. (True, ctx, al)) (EVP_DigestUpdate ctx (take (EVP_MD_block_size md) pad)))"

abbreviation no_pctx :: "unit \<Rightarrow> unit option" where "no_pctx \<equiv> (\<lambda>_. None)"

definition HMAC_rewind :: "hmac_ctx \<Rightarrow> fresh \<Rightarrow> bool \<times> hmac_ctx \<times> fresh" where
  "HMAC_rewind ctx al =
    (let (ok, md_ctx, al) = EVP_MD_CTX_copy_ex no_pctx (hm_md_ctx ctx) (Some (hm_i_ctx ctx)) al
     in (ok, ctx\<lparr>hm_md_ctx := md_ctx\<rparr>, al))"

definition HMAC_set_key :: "hmac_ctx \<Rightarrow> u8 list \<Rightarrow> evp_md \<Rightarrow> fresh \<Rightarrow> (bool \<times> hmac_ctx \<times> fresh) option" where
  "HMAC_set_key ctx key md al =
    Option.bind (HMAC_key_block (hm_md_ctx ctx) md key al) (\<lambda>(key_block, md_ctx, al).
      let ctx = ctx\<lparr>hm_md_ctx := md_ctx\<rparr> in
      case key_block of
        None \<Rightarrow> Some (False, ctx, al)
      | Some key_block \<Rightarrow>
          Option.bind (HMAC_pad 0x36 key_block md (hm_i_ctx ctx) al) (\<lambda>(ok, i_ctx, al).
            let ctx = ctx\<lparr>hm_i_ctx := i_ctx\<rparr> in
            if \<not> ok then Some (False, ctx, al)
            else
              Option.bind (HMAC_pad 0x5c key_block md (hm_o_ctx ctx) al) (\<lambda>(ok, o_ctx, al).
                let ctx = ctx\<lparr>hm_o_ctx := o_ctx\<rparr> in
                if \<not> ok then Some (False, ctx, al)
                else Some (True, ctx\<lparr>hm_md := Some md\<rparr>, al))))"

definition HMAC_Init_ex :: "hmac_ctx \<Rightarrow> u8 list option \<Rightarrow> evp_md option \<Rightarrow> fresh \<Rightarrow> (bool \<times> hmac_ctx \<times> fresh) option" where
  "HMAC_Init_ex ctx key md al =
    (let md = (if md = None then hm_md ctx else md) in
     if md \<noteq> hm_md ctx \<or> key \<noteq> None then
       (case md of
          None \<Rightarrow> None
        | Some md \<Rightarrow>
            Option.bind (HMAC_set_key ctx (case key of None \<Rightarrow> [] | Some key \<Rightarrow> key) md al) (\<lambda>(ok, ctx, al).
              if \<not> ok then Some (False, ctx, al) else Some (HMAC_rewind ctx al)))
     else Some (HMAC_rewind ctx al))"

definition HMAC_Update :: "hmac_ctx \<Rightarrow> u8 list \<Rightarrow> hmac_ctx option" where
  "HMAC_Update ctx data = map_option (\<lambda>md_ctx. ctx\<lparr>hm_md_ctx := md_ctx\<rparr>) (EVP_DigestUpdate (hm_md_ctx ctx) data)"

text \<open>The MAC, or \<open>None\<close> with \<open>*out_len\<close> set to 0.\<close>

definition HMAC_Final :: "hmac_ctx \<Rightarrow> fresh \<Rightarrow> (u8 list option \<times> hmac_ctx \<times> fresh) option" where
  "HMAC_Final ctx al =
    Option.bind (EVP_DigestFinal_ex (hm_md_ctx ctx)) (\<lambda>(buf, md_ctx).
      case EVP_MD_CTX_copy_ex no_pctx md_ctx (Some (hm_o_ctx ctx)) al of
        (False, md_ctx, al) \<Rightarrow> Some (None, ctx\<lparr>hm_md_ctx := md_ctx\<rparr>, al)
      | (True, md_ctx, al) \<Rightarrow>
          Option.bind (EVP_DigestUpdate md_ctx buf) (\<lambda>md_ctx.
          Option.bind (EVP_DigestFinal_ex md_ctx) (\<lambda>(out, md_ctx).
            Some (Some out, ctx\<lparr>hm_md_ctx := md_ctx\<rparr>, al))))"

definition HMAC_size :: "hmac_ctx \<Rightarrow> nat option" where
  "HMAC_size ctx = map_option EVP_MD_size (hm_md ctx)"

definition HMAC_CTX_copy_ex :: "hmac_ctx \<Rightarrow> hmac_ctx \<Rightarrow> fresh \<Rightarrow> bool \<times> hmac_ctx \<times> fresh" where
  "HMAC_CTX_copy_ex dest src al =
    (let (ok, c, al) = EVP_MD_CTX_copy_ex no_pctx (hm_i_ctx dest) (Some (hm_i_ctx src)) al; dest = dest\<lparr>hm_i_ctx := c\<rparr> in
     if \<not> ok then (False, dest, al)
     else
       let (ok, c, al) = EVP_MD_CTX_copy_ex no_pctx (hm_o_ctx dest) (Some (hm_o_ctx src)) al; dest = dest\<lparr>hm_o_ctx := c\<rparr> in
       if \<not> ok then (False, dest, al)
       else
         let (ok, c, al) = EVP_MD_CTX_copy_ex no_pctx (hm_md_ctx dest) (Some (hm_md_ctx src)) al; dest = dest\<lparr>hm_md_ctx := c\<rparr> in
         if \<not> ok then (False, dest, al) else (True, dest\<lparr>hm_md := hm_md src\<rparr>, al))"

definition HMAC_CTX_copy :: "hmac_ctx \<Rightarrow> fresh \<Rightarrow> bool \<times> hmac_ctx \<times> fresh" where
  "HMAC_CTX_copy src al = HMAC_CTX_copy_ex HMAC_CTX_init src al"

definition HMAC_Init :: "hmac_ctx \<Rightarrow> u8 list option \<Rightarrow> evp_md option \<Rightarrow> fresh \<Rightarrow> (bool \<times> hmac_ctx \<times> fresh) option" where
  "HMAC_Init ctx key md al = HMAC_Init_ex (if key \<noteq> None \<and> md \<noteq> None then HMAC_CTX_init else ctx) key md al"

text \<open>The first component is the bytes at \<open>out\<close>, or \<open>None\<close> for a null result.\<close>

definition HMAC :: "evp_md \<Rightarrow> u8 list option \<Rightarrow> u8 list \<Rightarrow> fresh \<Rightarrow> (u8 list option \<times> fresh) option" where
  "HMAC md key data al =
    Option.bind (HMAC_Init_ex HMAC_CTX_init key (Some md) al) (\<lambda>(ok, ctx, al).
      if \<not> ok then Some (None, al)
      else
        Option.bind (HMAC_Update ctx data) (\<lambda>ctx.
        Option.bind (HMAC_Final ctx al) (\<lambda>(out, ctx, al). Some (out, al))))"

section \<open>HMAC by its definition\<close>

text \<open>RFC 2104.\<close>

definition hmac_K0 :: "evp_md \<Rightarrow> u8 list \<Rightarrow> u8 list" where
  "hmac_K0 t key =
    (let k = (if length key > EVP_MD_block_size t then evp_hash t key else key)
     in k @ replicate (EVP_MD_block_size t - length k) 0)"

definition hmac_padded :: "u8 \<Rightarrow> evp_md \<Rightarrow> u8 list \<Rightarrow> u8 list" where
  "hmac_padded c t key = map (\<lambda>k. c XOR k) (hmac_K0 t key)"

definition hmac :: "evp_md \<Rightarrow> u8 list \<Rightarrow> u8 list \<Rightarrow> u8 list" where
  "hmac t key m = evp_hash t (hmac_padded 0x5c t key @ evp_hash t (hmac_padded 0x36 t key @ m))"

lemma length_hmac: "length (hmac t key m) = EVP_MD_size t"
  by (simp add: hmac_def length_evp_hash)


lemma EVP_MD_sizes: "0 < EVP_MD_size t" "EVP_MD_size t \<le> EVP_MAX_MD_SIZE" "EVP_MD_size t \<le> EVP_MD_block_size t"
    "EVP_MD_block_size t \<le> EVP_MAX_MD_BLOCK_SIZE"
  by (cases t; simp)+

lemma length_hmac_K0 [simp]: "length (hmac_K0 t key) = EVP_MD_block_size t"
  using EVP_MD_sizes [of t] by (simp add: hmac_K0_def Let_def length_evp_hash)

section \<open>Allocations\<close>

text \<open>A context needs an allocation unless it has the digest already.\<close>

definition needs :: "evp_md \<Rightarrow> 'p evp_md_ctx \<Rightarrow> nat" where
  "needs t ctx = (if mc_digest ctx = Some t then 0 else 1)"

definition mallocs :: "nat \<Rightarrow> fresh \<Rightarrow> bool" where
  "mallocs n al \<longleftrightarrow> None \<notin> set (take n al)"

lemma mallocs_simps [simp]: "mallocs 0 al" "mallocs n []"
  by (simp_all add: mallocs_def)

lemma mallocs_add: "mallocs (m + n) al = (mallocs m al \<and> mallocs n (drop m al))"
  by (simp add: mallocs_def take_add)

lemma malloc_md_mallocs:
  "snd (malloc_md n al) = drop 1 al" "(fst (malloc_md n al) = None) = (\<not> mallocs 1 al)"
  by (cases al; simp add: malloc_md_def mallocs_def eq_commute [of None])+

lemma EVP_DigestInit_ex_needs:
  assumes "ctx_typed ctx"
  obtains ctx' where "EVP_DigestInit_ex ctx t al = (mallocs (needs t ctx) al, ctx', drop (needs t ctx) al)"
    "mallocs (needs t ctx) al \<Longrightarrow> hashing ctx' t []" "\<not> mallocs (needs t ctx) al \<Longrightarrow> ctx' = ctx"
    "mc_pctx ctx' = mc_pctx ctx"
proof (cases "EVP_DigestInit_ex ctx t al")
  case (fields ok ctx' al')
  have "ok = mallocs (needs t ctx) al \<and> al' = drop (needs t ctx) al"
  proof (cases "mc_digest ctx = Some t")
    case True
    then show ?thesis using fields by (simp add: EVP_DigestInit_ex_def needs_def)
  next
    case False
    then show ?thesis
      using fields EVP_DigestInit_ex_alloc [OF False, of al] malloc_md_mallocs [of "sizeof_ctx t" al]
      by (auto simp: needs_def split: prod.splits option.splits)
  qed
  then have ok: "ok = mallocs (needs t ctx) al" and al': "al' = drop (needs t ctx) al" by auto
  note r = EVP_DigestInit_ex_result(1) [OF assms fields]
  show ?thesis
  proof (rule that)
    show "EVP_DigestInit_ex ctx t al = (mallocs (needs t ctx) al, ctx', drop (needs t ctx) al)"
      using fields ok al' by simp
    show "mallocs (needs t ctx) al \<Longrightarrow> hashing ctx' t []"
      using EVP_DigestInit_ex_hashing [OF assms, of t al ctx' al'] fields ok by simp
    show "\<not> mallocs (needs t ctx) al \<Longrightarrow> ctx' = ctx" using r ok by simp
    show "mc_pctx ctx' = mc_pctx ctx" using r by (simp split: if_splits)
  qed
qed

lemma EVP_MD_CTX_copy_ex_needs:
  assumes "hashing inp t m" "mc_pctx inp = None" "ctx_typed out"
  obtains out' where "EVP_MD_CTX_copy_ex dup out (Some inp) al = (mallocs (needs t out) al, out', drop (needs t out) al)"
    "mallocs (needs t out) al \<Longrightarrow> hashing out' t m \<and> mc_pctx out' = None" "\<not> mallocs (needs t out) al \<Longrightarrow> out' = out"
proof (cases "EVP_MD_CTX_copy_ex dup out (Some inp) al")
  case (fields ok out' al')
  have d: "mc_digest inp = Some t" using assms(1) unfolding hashing_def by simp
  have "ok = mallocs (needs t out) al \<and> al' = drop (needs t out) al"
    using fields d assms(2) malloc_md_mallocs [of "sizeof_ctx t" al]
    by (auto simp: EVP_MD_CTX_copy_ex_def needs_def Let_def split: prod.splits if_splits)
  moreover have "if ok then hashing out' t m \<and> mc_pctx out' = None else out' = out"
    using EVP_MD_CTX_copy_ex_result(1) [OF assms(3) hashing_typed [OF assms(1)] fields] assms unfolding hashing_def by auto
  ultimately show ?thesis using fields that by auto
qed

lemma hashing_needs [simp]: "hashing ctx t m \<Longrightarrow> needs t ctx = 0"
  by (simp add: hashing_def needs_def)

section \<open>The operations compute HMAC\<close>

text \<open>
  \<open>hmac_typed\<close> holds of every context between calls, \<open>hmac_keyed\<close> of one that has a key, and
  \<open>hmac_ready\<close> of one that has also taken the message \<open>m\<close>.
\<close>

definition plain :: "md_ctx \<Rightarrow> bool" where
  "plain ctx \<longleftrightarrow> ctx_typed ctx \<and> mc_pctx ctx = None"

definition hmac_typed :: "hmac_ctx \<Rightarrow> bool" where
  "hmac_typed ctx \<longleftrightarrow> plain (hm_md_ctx ctx) \<and> plain (hm_i_ctx ctx) \<and> plain (hm_o_ctx ctx)"

definition hmac_keyed :: "hmac_ctx \<Rightarrow> evp_md \<Rightarrow> u8 list \<Rightarrow> bool" where
  "hmac_keyed ctx t key \<longleftrightarrow> hmac_typed ctx \<and> hm_md ctx = Some t \<and> mc_digest (hm_md_ctx ctx) = Some t \<and>
    hashing (hm_i_ctx ctx) t (hmac_padded 0x36 t key) \<and> hashing (hm_o_ctx ctx) t (hmac_padded 0x5c t key)"

definition hmac_ready :: "hmac_ctx \<Rightarrow> evp_md \<Rightarrow> u8 list \<Rightarrow> u8 list \<Rightarrow> bool" where
  "hmac_ready ctx t key m \<longleftrightarrow> hmac_keyed ctx t key \<and> hashing (hm_md_ctx ctx) t (hmac_padded 0x36 t key @ m)"

lemma hmac_typed_init [simp]: "hmac_typed HMAC_CTX_init"
  by (simp add: hmac_typed_def plain_def HMAC_CTX_init_def) (simp add: EVP_MD_CTX_init_def)

lemma plain_update:
  assumes "hashing ctx t m" "mc_pctx ctx = None"
  obtains ctx' where "EVP_DigestUpdate ctx x = Some ctx'" "hashing ctx' t (m @ x)" "plain ctx'" "mc_digest ctx' = Some t"
proof -
  obtain ctx' where c: "EVP_DigestUpdate ctx x = Some ctx'" "hashing ctx' t (m @ x)" "mc_pctx ctx' = None"
    by (rule EVP_DigestUpdate_hashing [OF assms(1), of x]) (use assms(2) in simp)
  then show ?thesis using that [OF c(1,2)] hashing_typed [OF c(2)] by (simp add: plain_def hashing_def)
qed

lemma plain_final:
  assumes "hashing ctx t m" "plain ctx"
  obtains ctx' where "EVP_DigestFinal_ex ctx = Some (evp_hash t m, ctx')" "plain ctx'" "mc_digest ctx' = Some t"
  using EVP_DigestFinal_ex_hashing [OF assms(1)] assms EVP_DigestFinal_ex_typed [OF hashing_live [OF assms(1)]] that
  by (auto simp: plain_def hashing_def)

lemma HMAC_Update_ready:
  assumes "hmac_ready ctx t key m"
  obtains ctx' where "HMAC_Update ctx x = Some ctx'" "hmac_ready ctx' t key (m @ x)"
proof -
  have h: "hashing (hm_md_ctx ctx) t (hmac_padded 0x36 t key @ m)" "mc_pctx (hm_md_ctx ctx) = None"
    using assms by (simp_all add: hmac_ready_def hmac_keyed_def hmac_typed_def plain_def)
  from plain_update [OF h, of x] obtain c where "EVP_DigestUpdate (hm_md_ctx ctx) x = Some c"
    "hashing c t (hmac_padded 0x36 t key @ m @ x)" "plain c" "mc_digest c = Some t" by auto
  then show ?thesis using that [of "ctx\<lparr>hm_md_ctx := c\<rparr>"] assms
    by (simp add: HMAC_Update_def hmac_ready_def hmac_keyed_def hmac_typed_def)
qed

lemma HMAC_rewind_keyed:
  assumes "hmac_keyed ctx t key"
  obtains ctx' where "HMAC_rewind ctx al = (True, ctx', al)" "hmac_ready ctx' t key []"
proof -
  have i: "hashing (hm_i_ctx ctx) t (hmac_padded 0x36 t key)" "mc_pctx (hm_i_ctx ctx) = None"
    and n: "needs t (hm_md_ctx ctx) = 0" and d: "ctx_typed (hm_md_ctx ctx)"
    using assms by (simp_all add: hmac_keyed_def hmac_typed_def plain_def needs_def)
  from EVP_MD_CTX_copy_ex_needs [OF i d, of no_pctx al] n obtain c where
    "EVP_MD_CTX_copy_ex no_pctx (hm_md_ctx ctx) (Some (hm_i_ctx ctx)) al = (True, c, al)"
    "hashing c t (hmac_padded 0x36 t key)" "mc_pctx c = None" by auto
  moreover from this have "plain c" "mc_digest c = Some t" using hashing_typed [of c] by (auto simp: plain_def hashing_def)
  ultimately show ?thesis using that [of "ctx\<lparr>hm_md_ctx := c\<rparr>"] assms
    by (simp add: HMAC_rewind_def hmac_ready_def hmac_keyed_def hmac_typed_def)
qed

text \<open>Finishing allocates nothing and cannot fail, which the comment in \<open>HMAC_Final\<close> suspects.\<close>

lemma HMAC_Final_ready:
  assumes "hmac_ready ctx t key m"
  obtains ctx' where "HMAC_Final ctx al = Some (Some (hmac t key m), ctx', al)" "hmac_keyed ctx' t key"
proof -
  have h: "hashing (hm_md_ctx ctx) t (hmac_padded 0x36 t key @ m)" "plain (hm_md_ctx ctx)"
    and o: "hashing (hm_o_ctx ctx) t (hmac_padded 0x5c t key)" "mc_pctx (hm_o_ctx ctx) = None"
    using assms by (simp_all add: hmac_ready_def hmac_keyed_def hmac_typed_def plain_def)
  obtain c1 where c1: "EVP_DigestFinal_ex (hm_md_ctx ctx) = Some (evp_hash t (hmac_padded 0x36 t key @ m), c1)"
    "mc_digest c1 = Some t" "plain c1" by (rule plain_final [OF h]) simp
  then have n: "needs t c1 = 0" and d: "ctx_typed c1" by (simp_all add: needs_def plain_def)
  from EVP_MD_CTX_copy_ex_needs [OF o d, of no_pctx al] n obtain c2 where
    c2: "EVP_MD_CTX_copy_ex no_pctx c1 (Some (hm_o_ctx ctx)) al = (True, c2, al)"
    "hashing c2 t (hmac_padded 0x5c t key)" "mc_pctx c2 = None" by auto
  obtain c3 where c3: "EVP_DigestUpdate c2 (evp_hash t (hmac_padded 0x36 t key @ m)) = Some c3"
    "hashing c3 t (hmac_padded 0x5c t key @ evp_hash t (hmac_padded 0x36 t key @ m))" "plain c3"
    by (rule plain_update [OF c2(2,3), of "evp_hash t (hmac_padded 0x36 t key @ m)"]) simp
  obtain c4 where "EVP_DigestFinal_ex c3 = Some (hmac t key m, c4)" "plain c4" "mc_digest c4 = Some t"
    by (rule plain_final [OF c3(2,3)]) (simp add: hmac_def)
  then show ?thesis using that [of "ctx\<lparr>hm_md_ctx := c4\<rparr>"] assms c1 c2 c3
    by (simp add: HMAC_Final_def hmac_ready_def hmac_keyed_def hmac_typed_def)
qed


lemma HMAC_key_block_result:
  assumes "plain ctx"
  obtains ctx' n where "n = (if EVP_MD_block_size t < length key then needs t ctx else 0)"
    "HMAC_key_block ctx t key al = Some (if mallocs n al then Some (hmac_K0 t key @ replicate (EVP_MAX_MD_BLOCK_SIZE - EVP_MD_block_size t) 0)
      else None, ctx', drop n al)" "plain ctx'" "mallocs n al \<Longrightarrow> n + needs t ctx' = needs t ctx"
proof (cases "EVP_MD_block_size t < length key")
  case False
  then have "key @ replicate (EVP_MAX_MD_BLOCK_SIZE - length key) 0 =
      hmac_K0 t key @ replicate (EVP_MAX_MD_BLOCK_SIZE - EVP_MD_block_size t) 0"
    using EVP_MD_sizes(4) [of t] by (simp add: hmac_K0_def Let_def replicate_add [symmetric])
  then show ?thesis using that [of 0 ctx] False assms EVP_MD_sizes(4) [of t] by (simp add: HMAC_key_block_def)
next
  case True
  let ?n = "needs t ctx"
  obtain c1 where c1: "EVP_DigestInit_ex ctx t al = (mallocs ?n al, c1, drop ?n al)"
    "mallocs ?n al \<Longrightarrow> hashing c1 t []" "\<not> mallocs ?n al \<Longrightarrow> c1 = ctx" "mc_pctx c1 = None"
    using EVP_DigestInit_ex_needs [of ctx t al] assms unfolding plain_def by metis
  show ?thesis
  proof (cases "mallocs ?n al")
    case False
    then show ?thesis using that [of ?n ctx] True c1 assms by (simp add: HMAC_key_block_def)
  next
    case m: True
    obtain c2 where c2: "EVP_DigestUpdate c1 key = Some c2" "hashing c2 t key" "plain c2"
      using plain_update [OF c1(2) [OF m] c1(4), of key] by auto
    obtain c3 where c3: "EVP_DigestFinal_ex c2 = Some (evp_hash t key, c3)" "plain c3" "mc_digest c3 = Some t"
      by (rule plain_final [OF c2(2,3)]) simp
    have k: "evp_hash t key @ replicate (EVP_MAX_MD_BLOCK_SIZE - length (evp_hash t key)) 0 =
        hmac_K0 t key @ replicate (EVP_MAX_MD_BLOCK_SIZE - EVP_MD_block_size t) 0"
      using EVP_MD_sizes [of t] True by (simp add: hmac_K0_def Let_def replicate_add [symmetric] length_evp_hash)
    show ?thesis
      using that [of ?n c3] True m c1(1) c2(1) c3 by (simp add: HMAC_key_block_def k needs_def)
  qed
qed

lemma HMAC_pad_result:
  assumes "plain ctx"
  obtains ctx' where "HMAC_pad c (hmac_K0 t key @ zs) t ctx al = Some (mallocs (needs t ctx) al, ctx', drop (needs t ctx) al)"
    "plain ctx'" "mallocs (needs t ctx) al \<Longrightarrow> hashing ctx' t (hmac_padded c t key)"
proof -
  let ?n = "needs t ctx"
  obtain c1 where c1: "EVP_DigestInit_ex ctx t al = (mallocs ?n al, c1, drop ?n al)"
    "mallocs ?n al \<Longrightarrow> hashing c1 t []" "\<not> mallocs ?n al \<Longrightarrow> c1 = ctx" "mc_pctx c1 = None"
    using EVP_DigestInit_ex_needs [of ctx t al] assms unfolding plain_def by metis
  show ?thesis
  proof (cases "mallocs ?n al")
    case False
    then show ?thesis using that [of ctx] c1 assms by (simp add: HMAC_pad_def)
  next
    case m: True
    obtain c2 where "EVP_DigestUpdate c1 (hmac_padded c t key) = Some c2" "hashing c2 t (hmac_padded c t key)" "plain c2"
      using plain_update [OF c1(2) [OF m] c1(4), of "hmac_padded c t key"] by auto
    then show ?thesis using that [of c2] m c1(1) by (simp add: HMAC_pad_def hmac_padded_def)
  qed
qed

definition hmac_needs :: "evp_md \<Rightarrow> hmac_ctx \<Rightarrow> nat" where
  "hmac_needs t ctx = needs t (hm_md_ctx ctx) + needs t (hm_i_ctx ctx) + needs t (hm_o_ctx ctx)"

definition HMAC_rekey :: "hmac_ctx \<Rightarrow> u8 list \<Rightarrow> evp_md \<Rightarrow> fresh \<Rightarrow> (bool \<times> hmac_ctx \<times> fresh) option" where
  "HMAC_rekey ctx key md al = Option.bind (HMAC_set_key ctx key md al) (\<lambda>(ok, ctx, al).
     if \<not> ok then Some (False, ctx, al) else Some (HMAC_rewind ctx al))"

lemma HMAC_Init_ex_rekey:
  "HMAC_Init_ex ctx (Some key) (Some t) al = HMAC_rekey ctx key t al"
  "hm_md ctx = Some t \<Longrightarrow> HMAC_Init_ex ctx (Some key) None al = HMAC_rekey ctx key t al"
  "hm_md ctx \<noteq> Some t \<Longrightarrow> HMAC_Init_ex ctx None (Some t) al = HMAC_rekey ctx [] t al"
  "md = None \<or> md = hm_md ctx \<Longrightarrow> HMAC_Init_ex ctx None md al = Some (HMAC_rewind ctx al)"
  by (auto simp: HMAC_Init_ex_def HMAC_rekey_def)

text \<open>Setting a key and rewinding takes as many allocations as there are contexts of another digest.\<close>

lemma HMAC_rekey_result:
  assumes "hmac_typed ctx"
  obtains ctx' al' where "HMAC_rekey ctx key t al = Some (mallocs (hmac_needs t ctx) al, ctx', al')" "hmac_typed ctx'"
    "mallocs (hmac_needs t ctx) al \<Longrightarrow> hmac_ready ctx' t key [] \<and> al' = drop (hmac_needs t ctx) al"
proof -
  let ?i = "hm_i_ctx ctx" and ?o = "hm_o_ctx ctx"
  let ?kb = "hmac_K0 t key @ replicate (EVP_MAX_MD_BLOCK_SIZE - EVP_MD_block_size t) 0"
  have p: "plain (hm_md_ctx ctx)" "plain ?i" "plain ?o" using assms by (simp_all add: hmac_typed_def)
  obtain c n where n: "n = (if EVP_MD_block_size t < length key then needs t (hm_md_ctx ctx) else 0)"
    and kb: "HMAC_key_block (hm_md_ctx ctx) t key al = Some (if mallocs n al then Some ?kb else None, c, drop n al)" "plain c"
    and nc: "mallocs n al \<Longrightarrow> n + needs t c = needs t (hm_md_ctx ctx)"
    by (rule HMAC_key_block_result [OF p(1)]) (rule that)
  show ?thesis
  proof (cases "mallocs n al")
    case False
    then have "hmac_needs t ctx = n + (needs t ?i + needs t ?o)" using n by (simp add: hmac_needs_def split: if_splits)
    then have "\<not> mallocs (hmac_needs t ctx) al" using False by (simp add: mallocs_add)
    then show ?thesis using that [of "ctx\<lparr>hm_md_ctx := c\<rparr>" "drop n al"] kb p False
      by (simp add: HMAC_rekey_def HMAC_set_key_def Let_def hmac_typed_def)
  next
    case m: True
    have N: "hmac_needs t ctx = n + (needs t ?i + (needs t ?o + needs t c))" using nc [OF m] by (simp add: hmac_needs_def)
    define al1 where "al1 = drop n al"
    obtain ci where ci: "HMAC_pad 0x36 ?kb t ?i al1 = Some (mallocs (needs t ?i) al1, ci, drop (needs t ?i) al1)" "plain ci"
      "mallocs (needs t ?i) al1 \<Longrightarrow> hashing ci t (hmac_padded 0x36 t key)" by (rule HMAC_pad_result [OF p(2)]) (rule that)
    show ?thesis
    proof (cases "mallocs (needs t ?i) al1")
      case False
      then have "\<not> mallocs (hmac_needs t ctx) al" by (simp add: N mallocs_add al1_def)
      then show ?thesis using that [of "ctx\<lparr>hm_md_ctx := c, hm_i_ctx := ci\<rparr>" "drop (needs t ?i) al1"] kb ci p m False
        by (simp add: HMAC_rekey_def HMAC_set_key_def Let_def hmac_typed_def flip: al1_def)
    next
      case mi: True
      define al2 where "al2 = drop (needs t ?i) al1"
      obtain co where co: "HMAC_pad 0x5c ?kb t ?o al2 = Some (mallocs (needs t ?o) al2, co, drop (needs t ?o) al2)" "plain co"
        "mallocs (needs t ?o) al2 \<Longrightarrow> hashing co t (hmac_padded 0x5c t key)" by (rule HMAC_pad_result [OF p(3)]) (rule that)
      show ?thesis
      proof (cases "mallocs (needs t ?o) al2")
        case False
        then have "\<not> mallocs (hmac_needs t ctx) al" using False by (simp only: N mallocs_add al1_def al2_def simp_thms)
        then show ?thesis
          using that [of "ctx\<lparr>hm_md_ctx := c, hm_i_ctx := ci, hm_o_ctx := co\<rparr>" "drop (needs t ?o) al2"] kb ci co p m mi False
          by (simp add: HMAC_rekey_def HMAC_set_key_def Let_def hmac_typed_def flip: al1_def al2_def)
      next
        case mo: True
        define al3 where "al3 = drop (needs t ?o) al2"
        obtain c' where c': "EVP_MD_CTX_copy_ex no_pctx c (Some ci) al3 = (mallocs (needs t c) al3, c', drop (needs t c) al3)"
          "mallocs (needs t c) al3 \<Longrightarrow> hashing c' t (hmac_padded 0x36 t key) \<and> mc_pctx c' = None"
          "\<not> mallocs (needs t c) al3 \<Longrightarrow> c' = c"
          using EVP_MD_CTX_copy_ex_needs [OF ci(3) [OF mi], of c no_pctx al3] ci(2) kb(2) unfolding plain_def by blast
        have M: "mallocs (hmac_needs t ctx) al = mallocs (needs t c) al3" "drop (hmac_needs t ctx) al = drop (needs t c) al3"
          using m mi mo by (simp_all only: N mallocs_add al1_def al2_def al3_def simp_thms) (simp add: add.commute add.left_commute)
        have pc': "plain c'" using c'(2,3) kb(2) hashing_typed [of c' t] by (cases "mallocs (needs t c) al3") (auto simp: plain_def)
        let ?ctx = "ctx\<lparr>hm_md_ctx := c', hm_i_ctx := ci, hm_o_ctx := co, hm_md := Some t\<rparr>"
        have "HMAC_rekey ctx key t al = Some (mallocs (needs t c) al3, ?ctx, drop (needs t c) al3)"
          using kb ci co c' m mi mo
          by (simp add: HMAC_rekey_def HMAC_set_key_def HMAC_rewind_def Let_def flip: al1_def al2_def al3_def)
        moreover have "mallocs (needs t c) al3 \<Longrightarrow> hmac_ready ?ctx t key []"
          using c'(2) pc' ci(2,3) co(2,3) mi mo by (auto simp: hmac_ready_def hmac_keyed_def hmac_typed_def hashing_def)
        ultimately show ?thesis using that [of ?ctx "drop (needs t c) al3"] pc' ci(2) co(2) by (simp add: M hmac_typed_def)
      qed
    qed
  qed
qed


section \<open>Properties of HMAC\<close>

lemma hmac_needs_init: "hmac_needs t HMAC_CTX_init = 3"
  by (simp add: hmac_needs_def needs_def HMAC_CTX_init_def EVP_MD_CTX_init_def)

definition key_bytes :: "u8 list option \<Rightarrow> u8 list" where
  "key_bytes key = (case key of None \<Rightarrow> [] | Some key \<Rightarrow> key)"

lemma HMAC_Init_ex_first:
  assumes "hmac_typed ctx" "hm_md ctx \<noteq> Some t"
  obtains ctx' al' where "HMAC_Init_ex ctx key (Some t) al = Some (mallocs (hmac_needs t ctx) al, ctx', al')" "hmac_typed ctx'"
    "mallocs (hmac_needs t ctx) al \<Longrightarrow> hmac_ready ctx' t (key_bytes key) [] \<and> al' = drop (hmac_needs t ctx) al"
proof -
  have "HMAC_Init_ex ctx key (Some t) al = HMAC_rekey ctx (key_bytes key) t al"
    using HMAC_Init_ex_rekey(1,3) assms(2) by (cases key) (simp_all add: key_bytes_def)
  with HMAC_rekey_result [OF assms(1)] that show ?thesis by metis
qed

lemma hmac_md_init [simp]: "hm_md HMAC_CTX_init = None"
  by (simp add: HMAC_CTX_init_def)

lemma HMAC_spec:
  "\<exists>al'. HMAC t key m al = Some (if mallocs 3 al then Some (hmac t (key_bytes key) m) else None, al') \<and>
    (mallocs 3 al \<longrightarrow> al' = drop 3 al)"
proof -
  have "hm_md HMAC_CTX_init \<noteq> Some t" by simp
  then obtain ctx al' where i: "HMAC_Init_ex HMAC_CTX_init key (Some t) al = Some (mallocs 3 al, ctx, al')" "hmac_typed ctx"
    "mallocs 3 al \<Longrightarrow> hmac_ready ctx t (key_bytes key) [] \<and> al' = drop 3 al"
    by (rule HMAC_Init_ex_first [OF hmac_typed_init, unfolded hmac_needs_init]) (rule that)
  show ?thesis
  proof (cases "mallocs 3 al")
    case False
    then show ?thesis using i by (simp add: HMAC_def)
  next
    case True
    then obtain c1 where c1: "HMAC_Update ctx m = Some c1" "hmac_ready c1 t (key_bytes key) m"
      using i(3) HMAC_Update_ready [of ctx t "key_bytes key" "[]" m] by auto
    obtain c2 where "HMAC_Final c1 al' = Some (Some (hmac t (key_bytes key) m), c2, al')" "hmac_keyed c2 t (key_bytes key)"
      by (rule HMAC_Final_ready [OF c1(2)])
    then show ?thesis using i True c1 by (simp add: HMAC_def)
  qed
qed

text \<open>Updates in any number of pieces.\<close>

definition HMAC_Updates :: "hmac_ctx \<Rightarrow> u8 list list \<Rightarrow> hmac_ctx option" where
  "HMAC_Updates ctx bss = fold (\<lambda>bs c. Option.bind c (\<lambda>c. HMAC_Update c bs)) bss (Some ctx)"

lemma HMAC_Updates_simps [simp]:
  "HMAC_Updates ctx [] = Some ctx"
  "HMAC_Updates ctx (bs # bss) = Option.bind (HMAC_Update ctx bs) (\<lambda>c. HMAC_Updates c bss)"
proof -
  have n: "fold (\<lambda>bs c. Option.bind c (\<lambda>c. HMAC_Update c bs)) bss None = None" for bss by (induction bss) auto
  show "HMAC_Updates ctx [] = Some ctx" by (simp add: HMAC_Updates_def)
  show "HMAC_Updates ctx (bs # bss) = Option.bind (HMAC_Update ctx bs) (\<lambda>c. HMAC_Updates c bss)"
    by (cases "HMAC_Update ctx bs") (simp_all add: HMAC_Updates_def n)
qed

lemma HMAC_Updates_ready:
  assumes "hmac_ready ctx t key m"
  shows "\<exists>ctx'. HMAC_Updates ctx bss = Some ctx' \<and> hmac_ready ctx' t key (m @ concat bss)"
  using assms
proof (induction bss arbitrary: ctx m)
  case (Cons bs bss)
  obtain c where "HMAC_Update ctx bs = Some c" "hmac_ready c t key (m @ bs)" by (rule HMAC_Update_ready [OF Cons.prems])
  then show ?case using Cons.IH [of c "m @ bs"] by simp
qed simp

text \<open>
  One round of a user: rewind to the key that was set, feed pieces, finish.
\<close>

definition HMAC_again :: "hmac_ctx \<Rightarrow> u8 list list \<Rightarrow> fresh \<Rightarrow> (u8 list option \<times> hmac_ctx \<times> fresh) option" where
  "HMAC_again ctx bss al = Option.bind (HMAC_Init_ex ctx None None al) (\<lambda>(ok, ctx, al).
     if \<not> ok then Some (None, ctx, al)
     else Option.bind (HMAC_Updates ctx bss) (\<lambda>ctx. HMAC_Final ctx al))"

lemma HMAC_again_keyed:
  assumes "hmac_keyed ctx t key"
  shows "\<exists>ctx'. HMAC_again ctx bss al = Some (Some (hmac t key (concat bss)), ctx', al) \<and> hmac_keyed ctx' t key"
proof -
  obtain c where c: "HMAC_rewind ctx al = (True, c, al)" "hmac_ready c t key []" by (rule HMAC_rewind_keyed [OF assms])
  obtain c1 where c1: "HMAC_Updates c bss = Some c1" "hmac_ready c1 t key (concat bss)"
    using HMAC_Updates_ready [OF c(2), of bss] by auto
  obtain c2 where "HMAC_Final c1 al = Some (Some (hmac t key (concat bss)), c2, al)" "hmac_keyed c2 t key"
    by (rule HMAC_Final_ready [OF c1(2)])
  then show ?thesis using c c1 by (simp add: HMAC_again_def HMAC_Init_ex_rekey(4))
qed


text \<open>
  C10: \<open>HMAC\<close> computes RFC 2104 over the digest of its \<open>EVP_MD\<close>, for keys of any length and a null
  key as the empty one, exactly if its three allocations succeed; otherwise it returns a null pointer.
\<close>

theorem HMAC_correct:
  "map_option fst (HMAC t key m al) = Some (if None \<in> set (take 3 al) then None
     else Some (evp_hash t (map (\<lambda>k. 0x5c XOR k) (hmac_K0 t (key_bytes key)) @
       evp_hash t (map (\<lambda>k. 0x36 XOR k) (hmac_K0 t (key_bytes key)) @ m))))"
  using HMAC_spec [of t key m al] by (auto simp: mallocs_def hmac_def hmac_padded_def)

text \<open>
  C9: on any initialised or used context, of the same digest or another, setting a key succeeds
  exactly if the allocations for the contexts of another digest do; then any number of pieces and
  \<open>HMAC_Final\<close> yield the HMAC of their concatenation, \<open>HMAC_Init_ex\<close> without a key rewinds to the key
  that was set, and from then on nothing is allocated and nothing fails.
\<close>

theorem HMAC_stream_correct:
  assumes "hmac_typed ctx"
  shows "case HMAC_Init_ex ctx (Some key) (Some t) al of
      None \<Rightarrow> False
    | Some (ok, c0, al') \<Rightarrow>
        ok = (None \<notin> set (take (hmac_needs t ctx) al)) \<and> hmac_typed c0 \<and>
        (ok \<longrightarrow> (\<exists>c1 c2 c3. HMAC_Updates c0 bss = Some c1 \<and>
           HMAC_Final c1 al' = Some (Some (hmac t key (concat bss)), c2, al') \<and>
           HMAC_again c2 css al' = Some (Some (hmac t key (concat css)), c3, al') \<and> hmac_keyed c3 t key))"
proof -
  obtain c0 al' where i: "HMAC_rekey ctx key t al = Some (mallocs (hmac_needs t ctx) al, c0, al')" "hmac_typed c0"
    "mallocs (hmac_needs t ctx) al \<Longrightarrow> hmac_ready c0 t key [] \<and> al' = drop (hmac_needs t ctx) al"
    by (rule HMAC_rekey_result [OF assms]) (rule that)
  have "\<exists>c1 c2 c3. HMAC_Updates c0 bss = Some c1 \<and> HMAC_Final c1 al' = Some (Some (hmac t key (concat bss)), c2, al') \<and>
      HMAC_again c2 css al' = Some (Some (hmac t key (concat css)), c3, al') \<and> hmac_keyed c3 t key"
    if m: "mallocs (hmac_needs t ctx) al"
  proof -
    obtain c1 where c1: "HMAC_Updates c0 bss = Some c1" "hmac_ready c1 t key (concat bss)"
      using HMAC_Updates_ready [of c0 t key "[]" bss] i(3) [OF m] by auto
    obtain c2 where c2: "HMAC_Final c1 al' = Some (Some (hmac t key (concat bss)), c2, al')" "hmac_keyed c2 t key"
      by (rule HMAC_Final_ready [OF c1(2)])
    show ?thesis using c1 c2 HMAC_again_keyed [OF c2(2), of css al'] by blast
  qed
  then show ?thesis using i(1,2) by (simp add: HMAC_Init_ex_rekey(1) mallocs_def)
qed

theorem HMAC_stream_correct_witness:
  "hmac_typed HMAC_CTX_init \<and> (case HMAC_Init_ex HMAC_CTX_init (Some [1, 2]) (Some EVP_sha256) [] of
      None \<Rightarrow> False
    | Some (ok, c0, al') \<Rightarrow> ok \<and> (\<exists>c1 c2. HMAC_Updates c0 [[7], [8, 9]] = Some c1 \<and>
        HMAC_Final c1 al' = Some (Some (hmac EVP_sha256 [1, 2] [7, 8, 9]), c2, al')))"
  using HMAC_stream_correct [OF hmac_typed_init, where key = "[1, 2]" and t = EVP_sha256 and al = "[]" and
      bss = "[[7], [8, 9]]" and css = "[]"]
  by (auto split: option.splits prod.splits)

lemma HMAC_CTX_copy_ex_ready:
  assumes "hmac_ready src t key m" "hmac_typed dest"
  shows "\<exists>dest' al'. HMAC_CTX_copy_ex dest src al = (mallocs (hmac_needs t dest) al, dest', al') \<and>
    (mallocs (hmac_needs t dest) al \<longrightarrow> hmac_ready dest' t key m \<and> al' = drop (hmac_needs t dest) al)"
proof -
  have h: "hashing (hm_i_ctx src) t (hmac_padded 0x36 t key)" "hashing (hm_o_ctx src) t (hmac_padded 0x5c t key)"
    "hashing (hm_md_ctx src) t (hmac_padded 0x36 t key @ m)" "mc_pctx (hm_i_ctx src) = None" "mc_pctx (hm_o_ctx src) = None"
    "mc_pctx (hm_md_ctx src) = None" "hm_md src = Some t"
    and d: "ctx_typed (hm_i_ctx dest)" "ctx_typed (hm_o_ctx dest)" "ctx_typed (hm_md_ctx dest)"
    using assms by (simp_all add: hmac_ready_def hmac_keyed_def hmac_typed_def plain_def)
  let ?ni = "needs t (hm_i_ctx dest)" and ?no = "needs t (hm_o_ctx dest)" and ?nm = "needs t (hm_md_ctx dest)"
  define al1 where "al1 = drop ?ni al"
  define al2 where "al2 = drop ?no al1"
  have N: "mallocs (hmac_needs t dest) al = (mallocs ?ni al \<and> mallocs ?no al1 \<and> mallocs ?nm al2)"
    "drop (hmac_needs t dest) al = drop ?nm al2"
  proof -
    have "hmac_needs t dest = ?ni + (?no + ?nm)" by (simp add: hmac_needs_def)
    then show "mallocs (hmac_needs t dest) al = (mallocs ?ni al \<and> mallocs ?no al1 \<and> mallocs ?nm al2)"
      "drop (hmac_needs t dest) al = drop ?nm al2"
      by (simp_all only: mallocs_add al1_def al2_def) (simp add: add.commute add.left_commute)
  qed
  obtain ci where ci: "EVP_MD_CTX_copy_ex no_pctx (hm_i_ctx dest) (Some (hm_i_ctx src)) al = (mallocs ?ni al, ci, al1)"
    "mallocs ?ni al \<Longrightarrow> hashing ci t (hmac_padded 0x36 t key) \<and> mc_pctx ci = None" "\<not> mallocs ?ni al \<Longrightarrow> ci = hm_i_ctx dest"
    by (rule EVP_MD_CTX_copy_ex_needs [OF h(1,4) d(1), of no_pctx al, folded al1_def]) (rule that)
  obtain co where co: "EVP_MD_CTX_copy_ex no_pctx (hm_o_ctx dest) (Some (hm_o_ctx src)) al1 = (mallocs ?no al1, co, al2)"
    "mallocs ?no al1 \<Longrightarrow> hashing co t (hmac_padded 0x5c t key) \<and> mc_pctx co = None" "\<not> mallocs ?no al1 \<Longrightarrow> co = hm_o_ctx dest"
    by (rule EVP_MD_CTX_copy_ex_needs [OF h(2,5) d(2), of no_pctx al1, folded al2_def]) (rule that)
  obtain cm where cm: "EVP_MD_CTX_copy_ex no_pctx (hm_md_ctx dest) (Some (hm_md_ctx src)) al2 = (mallocs ?nm al2, cm, drop ?nm al2)"
    "mallocs ?nm al2 \<Longrightarrow> hashing cm t (hmac_padded 0x36 t key @ m) \<and> mc_pctx cm = None" "\<not> mallocs ?nm al2 \<Longrightarrow> cm = hm_md_ctx dest"
    by (rule EVP_MD_CTX_copy_ex_needs [OF h(3,6) d(3)]) (rule that)
  have "hmac_ready (dest\<lparr>hm_i_ctx := ci, hm_o_ctx := co, hm_md_ctx := cm, hm_md := Some t\<rparr>) t key m"
    if "mallocs ?ni al" "mallocs ?no al1" "mallocs ?nm al2"
    using ci(2) co(2) cm(2) that hashing_typed [of ci] hashing_typed [of co] hashing_typed [of cm]
    by (auto simp: hmac_ready_def hmac_keyed_def hmac_typed_def plain_def) (simp_all add: hashing_def)
  then show ?thesis unfolding N using ci(1) co(1) cm(1) h(7) by (auto simp: HMAC_CTX_copy_ex_def Let_def)
qed

end
