(* ===== verification/Kdf.thy ===== *)
theory Kdf
  imports Hmac
begin


text \<open>
  Key derivation: HKDF (\<open>crypto/hkdf/hkdf.c\<close>) and PBKDF2 (\<open>crypto/evp/pbkdf.c\<close>).

  \<open>HMAC_Final\<close> is called with a null \<open>out_len\<close> here, so its error path would store through it:
  \<open>None\<close>.  The bytes behind the output pointer grow as the code writes them.
\<close>

section \<open>HKDF\<close>

definition HKDF_extract :: "evp_md \<Rightarrow> u8 list \<Rightarrow> u8 list option \<Rightarrow> fresh \<Rightarrow> (u8 list option \<times> fresh) option" where
  "HKDF_extract md secret salt al = HMAC md salt secret al"

text \<open>The loop of \<open>HKDF_expand\<close>: \<open>k\<close> rounds are left, \<open>out\<close> is what is \<open>done\<close>.\<close>

fun HKDF_expand_loop ::
  "nat \<Rightarrow> nat \<Rightarrow> hmac_ctx \<Rightarrow> u8 list \<Rightarrow> size_t \<Rightarrow> nat \<Rightarrow> u8 list \<Rightarrow> u8 list \<Rightarrow> fresh \<Rightarrow> (bool \<times> u8 list \<times> fresh) option" where
  "HKDF_expand_loop 0 i hctx previous out_len digest_len info out al = Some (True, out, al)"
| "HKDF_expand_loop (Suc k) i hctx previous out_len digest_len info out al =
    (let ctr = of_nat (i + 1) :: u8 in
     Option.bind
       (if i \<noteq> 0 then
          Option.bind (HMAC_Init_ex hctx None None al) (\<lambda>(ok, hctx, al).
            if \<not> ok then Some (False, hctx, al)
            else map_option (\<lambda>hctx. (True, hctx, al)) (HMAC_Update hctx previous))
        else Some (True, hctx, al))
       (\<lambda>(ok, hctx, al).
          if \<not> ok then Some (False, out, al)
          else
            Option.bind (HMAC_Update hctx info) (\<lambda>hctx.
            Option.bind (HMAC_Update hctx [ctr]) (\<lambda>hctx.
            Option.bind (HMAC_Final hctx al) (\<lambda>(previous, hctx, al).
              case previous of
                None \<Rightarrow> None
              | Some previous \<Rightarrow>
                  let todo = digest_len;
                      todo = (if length out + todo > out_len then out_len - length out else todo)
                  in HKDF_expand_loop k (i + 1) hctx previous out_len digest_len info (out @ take todo previous) al)))))"

definition HKDF_expand :: "size_t \<Rightarrow> evp_md \<Rightarrow> u8 list \<Rightarrow> u8 list \<Rightarrow> fresh \<Rightarrow> (bool \<times> u8 list \<times> fresh) option" where
  "HKDF_expand out_len md prk info al =
    (let digest_len = EVP_MD_size md;
         n = size_sub (size_add out_len digest_len) 1 div digest_len in
     if size_add out_len digest_len < out_len \<or> n > 255 then Some (False, [], al)
     else
       Option.bind (HMAC_Init_ex HMAC_CTX_init (Some prk) (Some md) al) (\<lambda>(ok, hctx, al).
         if \<not> ok then Some (False, [], al)
         else HKDF_expand_loop n 0 hctx [] out_len digest_len info [] al))"

definition HKDF ::
  "size_t \<Rightarrow> evp_md \<Rightarrow> u8 list \<Rightarrow> u8 list option \<Rightarrow> u8 list \<Rightarrow> fresh \<Rightarrow> (bool \<times> u8 list \<times> fresh) option" where
  "HKDF out_len md secret salt info al =
    Option.bind (HKDF_extract md secret salt al) (\<lambda>(prk, al).
      case prk of
        None \<Rightarrow> Some (False, [], al)
      | Some prk \<Rightarrow> HKDF_expand out_len md prk info al)"

section \<open>PBKDF2\<close>

text \<open>The remaining iterations of a block: \<open>U_j\<close> from the last one, XORed into the output.\<close>

fun PBKDF2_iterate ::
  "nat \<Rightarrow> hmac_ctx \<Rightarrow> u8 list \<Rightarrow> u8 list \<Rightarrow> fresh \<Rightarrow> (bool \<times> hmac_ctx \<times> u8 list \<times> fresh) option" where
  "PBKDF2_iterate 0 hctx digest_tmp out_key al = Some (True, hctx, out_key, al)"
| "PBKDF2_iterate (Suc j) hctx digest_tmp out_key al =
    Option.bind (HMAC_Init_ex hctx None None al) (\<lambda>(ok, hctx, al).
      if \<not> ok then Some (False, hctx, out_key, al)
      else
        Option.bind (HMAC_Update hctx digest_tmp) (\<lambda>hctx.
        Option.bind (HMAC_Final hctx al) (\<lambda>(digest_tmp, hctx, al).
          case digest_tmp of
            None \<Rightarrow> None
          | Some digest_tmp \<Rightarrow> PBKDF2_iterate j hctx digest_tmp (map2 (XOR) out_key digest_tmp) al)))"

text \<open>
  The loop over the blocks; the counter \<open>i\<close> is a \<open>uint32_t\<close>.  It ends because no \<open>EVP_MD\<close> has an empty
  digest; with \<open>md_len = 0\<close>, which no caller passes, it is left at once.
\<close>

function PBKDF2_blocks ::
  "nat \<Rightarrow> nat \<Rightarrow> u32 \<Rightarrow> hmac_ctx \<Rightarrow> u8 list \<Rightarrow> u32 \<Rightarrow> u8 list \<Rightarrow> fresh \<Rightarrow> (bool \<times> u8 list \<times> fresh) option" where
  "PBKDF2_blocks md_len key_len i hctx salt iterations out al =
    (if key_len = 0 \<or> md_len = 0 then Some (True, out, al)
     else
       let todo = md_len;
           todo = (if todo > key_len then key_len else todo);
           i_buf = [ucast ((drop_bit 24 i) AND 0xff), ucast ((drop_bit 16 i) AND 0xff),
             ucast ((drop_bit 8 i) AND 0xff), ucast (i AND 0xff)] in
       Option.bind (HMAC_Init_ex hctx None None al) (\<lambda>(ok, hctx, al).
         if \<not> ok then Some (False, out, al)
         else
           Option.bind (HMAC_Update hctx salt) (\<lambda>hctx.
           Option.bind (HMAC_Update hctx i_buf) (\<lambda>hctx.
           Option.bind (HMAC_Final hctx al) (\<lambda>(digest_tmp, hctx, al).
             case digest_tmp of
               None \<Rightarrow> None
             | Some digest_tmp \<Rightarrow>
                 Option.bind (PBKDF2_iterate (unat iterations - 1) hctx digest_tmp (take todo digest_tmp) al)
                   (\<lambda>(ok, hctx, out_key, al).
                     if \<not> ok then Some (False, out @ out_key, al)
                     else PBKDF2_blocks md_len (key_len - todo) (i + 1) hctx salt iterations (out @ out_key) al))))))"
  by pat_completeness auto
termination by (relation "measure (\<lambda>(_, key_len, _). key_len)") auto

declare PBKDF2_blocks.simps [simp del]

definition PKCS5_PBKDF2_HMAC ::
  "u8 list \<Rightarrow> u8 list \<Rightarrow> u32 \<Rightarrow> evp_md \<Rightarrow> nat \<Rightarrow> fresh \<Rightarrow> (bool \<times> u8 list \<times> fresh) option" where
  "PKCS5_PBKDF2_HMAC password salt iterations md key_len al =
    (let md_len = EVP_MD_size md in
     Option.bind (HMAC_Init_ex HMAC_CTX_init (Some password) (Some md) al) (\<lambda>(ok, hctx, al).
       if \<not> ok then Some (False, [], al)
       else
         map_option (\<lambda>(ok, out, al). (ok \<and> iterations \<noteq> 0, out, al))
           (PBKDF2_blocks md_len key_len 1 hctx salt iterations [] al)))"

definition PKCS5_PBKDF2_HMAC_SHA1 ::
  "u8 list \<Rightarrow> u8 list \<Rightarrow> u32 \<Rightarrow> nat \<Rightarrow> fresh \<Rightarrow> (bool \<times> u8 list \<times> fresh) option" where
  "PKCS5_PBKDF2_HMAC_SHA1 password salt iterations key_len al =
    PKCS5_PBKDF2_HMAC password salt iterations EVP_sha1 key_len al"

section \<open>The derivations by their definitions\<close>

text \<open>RFC 5869, 2.3.\<close>

fun hkdf_T :: "evp_md \<Rightarrow> u8 list \<Rightarrow> u8 list \<Rightarrow> nat \<Rightarrow> u8 list" where
  "hkdf_T t prk info 0 = []"
| "hkdf_T t prk info (Suc i) = hmac t prk (hkdf_T t prk info i @ info @ [of_nat (Suc i)])"

definition hkdf_okm :: "evp_md \<Rightarrow> u8 list \<Rightarrow> u8 list \<Rightarrow> nat \<Rightarrow> u8 list" where
  "hkdf_okm t prk info L =
    take L (concat (map (hkdf_T t prk info) [1..<Suc ((L + EVP_MD_size t - 1) div EVP_MD_size t)]))"

text \<open>RFC 8018, 5.2; \<open>INT(i)\<close> has four bytes.\<close>

fun pbkdf2_U :: "evp_md \<Rightarrow> u8 list \<Rightarrow> u8 list \<Rightarrow> nat \<Rightarrow> nat \<Rightarrow> u8 list" where
  "pbkdf2_U t P S i 0 = hmac t P (S @ be_bytes 4 i)"
| "pbkdf2_U t P S i (Suc j) = hmac t P (pbkdf2_U t P S i j)"

definition pbkdf2_F :: "evp_md \<Rightarrow> u8 list \<Rightarrow> u8 list \<Rightarrow> nat \<Rightarrow> nat \<Rightarrow> u8 list" where
  "pbkdf2_F t P S c i = fold (\<lambda>j acc. map2 (XOR) acc (pbkdf2_U t P S i j)) [1..<c] (pbkdf2_U t P S i 0)"

definition pbkdf2 :: "evp_md \<Rightarrow> u8 list \<Rightarrow> u8 list \<Rightarrow> nat \<Rightarrow> nat \<Rightarrow> u8 list" where
  "pbkdf2 t P S c dkLen =
    take dkLen (concat (map (pbkdf2_F t P S c) [1..<Suc ((dkLen + EVP_MD_size t - 1) div EVP_MD_size t)]))"


section \<open>The code computes them\<close>

lemma take_take_append: "take n (take n xs @ ys) = take n (xs @ ys)"
  by (cases "length xs \<le> n") auto

lemma HMAC_Init_ex_again:
  assumes "hmac_keyed hctx t key"
  obtains c where "HMAC_Init_ex hctx None None al = Some (True, c, al)" "hmac_ready c t key []"
  using HMAC_rewind_keyed [OF assms, of al] HMAC_Init_ex_rekey(4) [of None hctx al] by (metis (full_types))

text \<open>Two pieces and the result: what both derivations do in a round.\<close>

lemma HMAC_two:
  assumes "hmac_ready hctx t key m"
  obtains c d e where "HMAC_Update hctx x = Some c" "HMAC_Update c y = Some d"
    "HMAC_Final d al = Some (Some (hmac t key (m @ x @ y)), e, al)" "hmac_keyed e t key"
proof -
  obtain c where c: "HMAC_Update hctx x = Some c" "hmac_ready c t key (m @ x)" by (rule HMAC_Update_ready [OF assms])
  obtain d where d: "HMAC_Update c y = Some d" "hmac_ready d t key ((m @ x) @ y)" by (rule HMAC_Update_ready [OF c(2)])
  obtain e where "HMAC_Final d al = Some (Some (hmac t key ((m @ x) @ y)), e, al)" "hmac_keyed e t key"
    by (rule HMAC_Final_ready [OF d(2)])
  with c d that show ?thesis by simp
qed

lemma HKDF_expand_loop_okm:
  assumes "if i = 0 then hmac_ready hctx t prk [] else hmac_keyed hctx t prk" "length out \<le> L"
  shows "HKDF_expand_loop k i hctx (hkdf_T t prk info i) L (EVP_MD_size t) info out al =
    Some (True, take L (out @ concat (map (hkdf_T t prk info) [Suc i..<Suc i + k])), al)"
  using assms
proof (induction k arbitrary: i hctx out)
  case 0
  then show ?case by simp
next
  case (Suc k)
  let ?T = "hkdf_T t prk info"
  let ?start = "if i \<noteq> 0 then
      Option.bind (HMAC_Init_ex hctx None None al) (\<lambda>(ok, hctx, al).
        if \<not> ok then Some (False, hctx, al) else map_option (\<lambda>hctx. (True, hctx, al)) (HMAC_Update hctx (?T i)))
    else Some (True, hctx, al)"
  obtain c where c: "?start = Some (True, c, al)" "hmac_ready c t prk (?T i)"
  proof (cases "i = 0")
    case True
    then show ?thesis using that [of hctx] Suc.prems(1) by simp
  next
    case False
    then have k: "hmac_keyed hctx t prk" using Suc.prems(1) by simp
    obtain c where c: "HMAC_Init_ex hctx None None al = Some (True, c, al)" "hmac_ready c t prk []"
      by (rule HMAC_Init_ex_again [OF k])
    obtain d where "HMAC_Update c (?T i) = Some d" "hmac_ready d t prk ([] @ ?T i)" by (rule HMAC_Update_ready [OF c(2)])
    then show ?thesis using that [of d] c(1) False by simp
  qed
  obtain c1 c2 c3 where u: "HMAC_Update c info = Some c1" "HMAC_Update c1 [of_nat (Suc i)] = Some c2"
    "HMAC_Final c2 al = Some (Some (hmac t prk (?T i @ info @ [of_nat (Suc i)])), c3, al)" "hmac_keyed c3 t prk"
    by (rule HMAC_two [OF c(2)])
  have T: "hmac t prk (?T i @ info @ [of_nat (Suc i)]) = ?T (Suc i)" by simp
  have len: "length (?T (Suc i)) = EVP_MD_size t" by (simp add: length_hmac)
  let ?todo = "if length out + EVP_MD_size t > L then L - length out else EVP_MD_size t"
  have out: "out @ take ?todo (?T (Suc i)) = take L (out @ ?T (Suc i))" using Suc.prems(2) len by auto
  have "HKDF_expand_loop (Suc k) i hctx (?T i) L (EVP_MD_size t) info out al =
      HKDF_expand_loop k (Suc i) c3 (?T (Suc i)) L (EVP_MD_size t) info (out @ take ?todo (?T (Suc i))) al"
    unfolding HKDF_expand_loop.simps Let_def c(1)
    by (simp only: bind.bind_lunit split_conv u T if_False not_True_eq_False option.case Suc_eq_plus1 [symmetric])
  also have "\<dots> = Some (True, take L (take L (out @ ?T (Suc i)) @ concat (map ?T [Suc (Suc i)..<Suc (Suc i) + k])), al)"
    unfolding out by (rule Suc.IH) (use u(4) in simp_all)
  also have "\<dots> = Some (True, take L (out @ concat (map ?T [Suc i..<Suc i + Suc k])), al)"
  proof -
    have "[Suc i..<Suc i + Suc k] = Suc i # [Suc (Suc i)..<Suc (Suc i) + k]" by (simp add: upt_conv_Cons del: upt_Suc)
    then show ?thesis by (simp only: take_take_append append_assoc list.map concat.simps)
  qed
  finally show ?case .
qed


lemma HKDF_expand_spec:
  assumes "L < size_mod"
  shows "\<exists>al'. HKDF_expand L t prk info al =
      Some (if L \<le> 255 * EVP_MD_size t \<and> mallocs 3 al then (True, hkdf_okm t prk info L, al') else (False, [], al')) \<and>
    (L \<le> 255 * EVP_MD_size t \<and> mallocs 3 al \<longrightarrow> al' = drop 3 al)"
proof -
  let ?dl = "EVP_MD_size t"
  have dl: "0 < ?dl" "?dl \<le> 64" using EVP_MD_sizes [of t] by auto
  have big: "(255 < (L + ?dl - 1) div ?dl) = (255 * ?dl < L)"
  proof -
    have "(255 < (L + ?dl - 1) div ?dl) = (256 * ?dl \<le> L + ?dl - 1)"
      using less_eq_div_iff_mult_less_eq [OF dl(1), of 256 "L + ?dl - 1"] by auto
    also have "\<dots> = (255 * ?dl < L)" using dl(1) by auto
    finally show ?thesis .
  qed
  show ?thesis
  proof (cases "L + ?dl < size_mod")
    case False
    then have "size_add L ?dl = L + ?dl - size_mod" using assms dl by (simp add: size_add_def mod_if)
    then have "size_add L ?dl < L" "255 * ?dl < L" using False assms dl by auto
    then show ?thesis by (simp add: HKDF_expand_def)
  next
    case True
    then have add: "size_add L ?dl = L + ?dl" "size_sub (L + ?dl) 1 = L + ?dl - 1" using dl(1) by (auto simp: size_sub_def)
    show ?thesis
    proof (cases "L \<le> 255 * ?dl")
      case False
      then show ?thesis using big by (simp add: HKDF_expand_def add)
    next
      case small: True
      have "hm_md HMAC_CTX_init \<noteq> Some t" by simp
      then obtain ctx al' where i: "HMAC_Init_ex HMAC_CTX_init (Some prk) (Some t) al = Some (mallocs 3 al, ctx, al')"
        "hmac_typed ctx" "mallocs 3 al \<Longrightarrow> hmac_ready ctx t (key_bytes (Some prk)) [] \<and> al' = drop 3 al"
        by (rule HMAC_Init_ex_first [OF hmac_typed_init, unfolded hmac_needs_init]) (rule that)
      have e: "HKDF_expand L t prk info al = (if \<not> mallocs 3 al then Some (False, [], al')
          else HKDF_expand_loop ((L + ?dl - 1) div ?dl) 0 ctx [] L ?dl info [] al')"
        using small big by (simp add: HKDF_expand_def Let_def add i(1) del: One_nat_def)
      show ?thesis
      proof (cases "mallocs 3 al")
        case False
        then show ?thesis using e by simp
      next
        case m: True
        have "hmac_ready ctx t prk []" using i(3) [OF m] by (simp add: key_bytes_def)
        then have "HKDF_expand_loop ((L + ?dl - 1) div ?dl) 0 ctx (hkdf_T t prk info 0) L ?dl info [] al' =
            Some (True, take L ([] @ concat (map (hkdf_T t prk info) [Suc 0..<Suc 0 + (L + ?dl - 1) div ?dl])), al')"
          by (intro HKDF_expand_loop_okm) simp_all
        then show ?thesis using e m small i(3) by (simp add: hkdf_okm_def)
      qed
    qed
  qed
qed

text \<open>The output has the length that was asked for.\<close>

lemma length_concat_blocks: "(\<And>i. length (f i) = k) \<Longrightarrow> length (concat (map f xs)) = length xs * k"
  by (induction xs) auto

lemma length_hkdf_okm: "length (hkdf_okm t prk info L) = L"
proof -
  let ?dl = "EVP_MD_size t"
  have dl: "0 < ?dl" using EVP_MD_sizes(1) .
  have "length (hkdf_T t prk info i) = (if i = 0 then 0 else ?dl)" for i by (cases i) (simp_all add: length_hmac)
  then have "length (concat (map (hkdf_T t prk info) [1..<Suc n])) = n * ?dl" for n
    by (induction n) (auto simp: upt_Suc_append simp del: hkdf_T.simps)
  moreover have "L \<le> (L + ?dl - 1) div ?dl * ?dl"
  proof -
    have "(L + ?dl - 1) mod ?dl < ?dl" using dl by simp
    then show ?thesis using div_mult_mod_eq [of "L + ?dl - 1" ?dl] dl by linarith
  qed
  ultimately show ?thesis by (simp add: hkdf_okm_def)
qed

text \<open>
  C24: \<open>HKDF\<close> is RFC 5869 over HMAC: it fails if an allocation does or if more than 255 digests of
  output are asked for, also where \<open>out_len + digest_len\<close> overflows, and nothing is written then;
  otherwise it writes exactly \<open>out_len\<close> bytes, the key material expanded from the pseudorandom key.
\<close>

theorem HKDF_correct:
  assumes "L < size_mod"
  shows "map_option (\<lambda>(ok, out, al'). (ok, out)) (HKDF L t secret salt info al) = Some
      (if L \<le> 255 * EVP_MD_size t \<and> None \<notin> set (take 6 al)
       then (True, hkdf_okm t (hmac t (key_bytes salt) secret) info L) else (False, [])) \<and>
    length (hkdf_okm t (hmac t (key_bytes salt) secret) info L) = L"
proof -
  obtain al1 where x: "HKDF_extract t secret salt al = Some (if mallocs 3 al then Some (hmac t (key_bytes salt) secret) else None, al1)"
    "mallocs 3 al \<longrightarrow> al1 = drop 3 al"
    using HMAC_spec [of t salt secret al] unfolding HKDF_extract_def by blast
  obtain al2 where y: "HKDF_expand L t (hmac t (key_bytes salt) secret) info al1 =
      Some (if L \<le> 255 * EVP_MD_size t \<and> mallocs 3 al1 then (True, hkdf_okm t (hmac t (key_bytes salt) secret) info L, al2)
        else (False, [], al2))"
    using HKDF_expand_spec [OF assms] by blast
  have m: "(None \<notin> set (take 6 al)) = (mallocs 3 al \<and> mallocs 3 (drop 3 al))"
    using mallocs_add [of 3 3 al] by (simp add: mallocs_def)
  show ?thesis
  proof (cases "mallocs 3 al")
    case False
    then show ?thesis using x by (simp add: HKDF_def m length_hkdf_okm)
  next
    case True
    then have al1: "al1 = drop 3 al" using x(2) by simp
    show ?thesis unfolding HKDF_def x(1) m using True y
      by (cases "L \<le> 255 * EVP_MD_size t"; cases "mallocs 3 al1") (simp_all add: length_hkdf_okm flip: al1)
  qed
qed

theorem HKDF_correct_witness:
  "map_option (\<lambda>(ok, out, al'). (ok, out)) (HKDF 8161 EVP_sha256 [1] None [] []) = Some (False, []) \<and>
   map_option (\<lambda>(ok, out, al'). (ok, out)) (HKDF 42 EVP_sha256 [1] None [] []) =
     Some (True, hkdf_okm EVP_sha256 (hmac EVP_sha256 [] [1]) [] 42)"
  using HKDF_correct [of 8161 EVP_sha256 "[1]" None "[]" "[]"] HKDF_correct [of 42 EVP_sha256 "[1]" None "[]" "[]"]
  by (simp add: key_bytes_def)


section \<open>PBKDF2\<close>

lemma length_pbkdf2_U: "length (pbkdf2_U t P S i j) = EVP_MD_size t"
  by (cases j) (simp_all add: length_hmac)

lemma map2_take: "map2 f (take n xs) ys = take n (map2 f xs ys)"
proof (induction n arbitrary: xs ys)
  case (Suc n)
  then show ?case by (cases xs; cases ys) auto
qed simp

text \<open>All iterations of a block, on the first \<open>todo\<close> bytes only.\<close>

lemma PBKDF2_iterate_U:
  assumes "hmac_keyed hctx t P"
  shows "\<exists>hctx'. PBKDF2_iterate k hctx (pbkdf2_U t P S i j) (take n acc) al =
      Some (True, hctx', take n (fold (\<lambda>j acc. map2 (XOR) acc (pbkdf2_U t P S i j)) [Suc j..<Suc j + k] acc), al) \<and>
    hmac_keyed hctx' t P"
  using assms
proof (induction k arbitrary: hctx j acc)
  case (Suc k)
  let ?U = "pbkdf2_U t P S i"
  obtain c where c: "HMAC_Init_ex hctx None None al = Some (True, c, al)" "hmac_ready c t P []"
    by (rule HMAC_Init_ex_again [OF Suc.prems])
  obtain d where d: "HMAC_Update c (?U j) = Some d" "hmac_ready d t P ([] @ ?U j)" by (rule HMAC_Update_ready [OF c(2)])
  obtain e where e: "HMAC_Final d al = Some (Some (hmac t P ([] @ ?U j)), e, al)" "hmac_keyed e t P"
    by (rule HMAC_Final_ready [OF d(2)])
  have U: "hmac t P ([] @ ?U j) = ?U (Suc j)" by simp
  have up: "[Suc j..<Suc j + Suc k] = Suc j # [Suc (Suc j)..<Suc (Suc j) + k]" by (simp add: upt_conv_Cons del: upt_Suc)
  show ?case
    using Suc.IH [OF e(2), of "Suc j" "map2 (XOR) acc (?U (Suc j))"]
    unfolding PBKDF2_iterate.simps up
    by (simp only: c d e U bind.bind_lunit split_conv if_False not_True_eq_False option.case map2_take fold_simps o_apply)
qed simp

lemma length_fold_map2:
  "(\<And>j. length (f j) = n) \<Longrightarrow> length acc = n \<Longrightarrow> length (fold (\<lambda>j acc. map2 g acc (f j)) js acc) = n"
  by (induction js arbitrary: acc) auto

lemma length_pbkdf2_F: "length (pbkdf2_F t P S c i) = EVP_MD_size t"
  unfolding pbkdf2_F_def by (rule length_fold_map2) (rule length_pbkdf2_U)+

lemma div_round_up_step:
  assumes "0 < d" "0 < (L :: nat)"
  shows "(L + d - 1) div d = Suc ((L - min d L + d - 1) div d)"
proof -
  have "L + d - 1 = L - 1 + d" using assms by simp
  then have "(L + d - 1) div d = (L - 1 + d) div d" by (rule arg_cong)
  then have s: "(L + d - 1) div d = Suc ((L - 1) div d)" using div_add_self2 [of d "L - 1"] assms(1) by simp
  show ?thesis unfolding s using assms by (cases "d < L") simp_all
qed

text \<open>The blocks from \<open>i\<close> on; the block number enters modulo \<open>2^32\<close>.\<close>

lemma PBKDF2_blocks_F:
  assumes "hmac_keyed hctx t P"
  shows "PBKDF2_blocks (EVP_MD_size t) L (of_nat i) hctx S c out al = Some (True,
    out @ take L (concat (map (pbkdf2_F t P S (max 1 (unat c))) [i..<i + (L + EVP_MD_size t - 1) div EVP_MD_size t])), al)"
  using assms
proof (induction L arbitrary: i hctx out rule: less_induct)
  case (less L)
  let ?dl = "EVP_MD_size t" and ?F = "pbkdf2_F t P S (max 1 (unat c))"
  have dl: "0 < ?dl" by (rule EVP_MD_sizes(1))
  show ?case
  proof (cases "L = 0")
    case True
    then show ?thesis using dl by (simp add: PBKDF2_blocks.simps [of _ 0] del: upt_Suc)
  next
    case False
    let ?todo = "if ?dl > L then L else ?dl"
    let ?ib = "[ucast (drop_bit 24 (of_nat i :: u32) AND 0xff), ucast (drop_bit 16 (of_nat i :: u32) AND 0xff),
        ucast (drop_bit 8 (of_nat i :: u32) AND 0xff), ucast ((of_nat i :: u32) AND 0xff)] :: u8 list"
    have ib: "?ib = be_bytes 4 i" using HOST_l2c_of_nat [of True i] by (simp add: HOST_l2c_def)
    obtain a where a: "HMAC_Init_ex hctx None None al = Some (True, a, al)" "hmac_ready a t P []"
      by (rule HMAC_Init_ex_again [OF less.prems])
    obtain b d e where u: "HMAC_Update a S = Some b" "HMAC_Update b (be_bytes 4 i) = Some d"
      "HMAC_Final d al = Some (Some (hmac t P ([] @ S @ be_bytes 4 i)), e, al)" "hmac_keyed e t P"
      by (rule HMAC_two [OF a(2)])
    have U0: "hmac t P ([] @ S @ be_bytes 4 i) = pbkdf2_U t P S i 0" by simp
    obtain f where f: "PBKDF2_iterate (unat c - 1) e (pbkdf2_U t P S i 0) (take ?todo (pbkdf2_U t P S i 0)) al =
        Some (True, f, take ?todo (fold (\<lambda>j acc. map2 (XOR) acc (pbkdf2_U t P S i j)) [Suc 0..<Suc 0 + (unat c - 1)]
          (pbkdf2_U t P S i 0)), al)" "hmac_keyed f t P"
      using PBKDF2_iterate_U [OF u(4), of "unat c - 1" S i 0 ?todo "pbkdf2_U t P S i 0" al] by blast
    have F: "fold (\<lambda>j acc. map2 (XOR) acc (pbkdf2_U t P S i j)) [Suc 0..<Suc 0 + (unat c - 1)] (pbkdf2_U t P S i 0) = ?F i"
    proof -
      have "Suc 0 + (unat c - 1) = max 1 (unat c)" by simp
      then show ?thesis unfolding pbkdf2_F_def by simp
    qed
    have lt: "L - ?todo < L" using False dl by auto
    have suc: "(of_nat i :: u32) + 1 = of_nat (Suc i)" by simp
    have "PBKDF2_blocks ?dl L (of_nat i) hctx S c out al =
        PBKDF2_blocks ?dl (L - ?todo) (of_nat (Suc i)) f S c (out @ take ?todo (?F i)) al"
      unfolding PBKDF2_blocks.simps [of ?dl L] Let_def ib
      using False dl by (simp only: a u U0 f F suc bind.bind_lunit split_conv if_False not_True_eq_False option.case) simp
    also have "\<dots> = Some (True, (out @ take ?todo (?F i)) @
        take (L - ?todo) (concat (map ?F [Suc i..<Suc i + (L - ?todo + ?dl - 1) div ?dl])), al)"
      by (rule less.IH [OF lt f(2)])
    also have "(out @ take ?todo (?F i)) @ take (L - ?todo) (concat (map ?F [Suc i..<Suc i + (L - ?todo + ?dl - 1) div ?dl])) =
        out @ take L (concat (map ?F [i..<i + (L + ?dl - 1) div ?dl]))"
    proof -
      have t: "?todo = min ?dl L" by auto
      have "[i..<i + (L + ?dl - 1) div ?dl] = i # [Suc i..<Suc i + (L - min ?dl L + ?dl - 1) div ?dl]"
        by (subst div_round_up_step [OF dl]) (use False in \<open>simp_all add: upt_conv_Cons del: upt_Suc\<close>)
      moreover have "take (min ?dl L) (?F i) = take L (?F i)" "L - min ?dl L = L - ?dl" by (auto simp: length_pbkdf2_F min_def)
      ultimately show ?thesis unfolding t by (simp only: list.map concat.simps take_append append_assoc length_pbkdf2_F)
    qed
    finally show ?thesis .
  qed
qed


lemma PKCS5_PBKDF2_HMAC_spec:
  "\<exists>al'. PKCS5_PBKDF2_HMAC P S c t L al =
    Some (if mallocs 3 al then (c \<noteq> 0, pbkdf2 t P S (max 1 (unat c)) L, al') else (False, [], al'))"
proof -
  have "hm_md HMAC_CTX_init \<noteq> Some t" by simp
  then obtain ctx al' where i: "HMAC_Init_ex HMAC_CTX_init (Some P) (Some t) al = Some (mallocs 3 al, ctx, al')"
    "hmac_typed ctx" "mallocs 3 al \<Longrightarrow> hmac_ready ctx t (key_bytes (Some P)) [] \<and> al' = drop 3 al"
    by (rule HMAC_Init_ex_first [OF hmac_typed_init, unfolded hmac_needs_init]) (rule that)
  show ?thesis
  proof (cases "mallocs 3 al")
    case False
    then show ?thesis using i(1) by (simp add: PKCS5_PBKDF2_HMAC_def Let_def)
  next
    case True
    then have "hmac_keyed ctx t P" using i(3) by (simp add: hmac_ready_def key_bytes_def)
    from PBKDF2_blocks_F [OF this, of L 1 S c "[]" al'] True i(1) show ?thesis
      by (simp add: PKCS5_PBKDF2_HMAC_def Let_def pbkdf2_def)
  qed
qed

text \<open>
  C25: \<open>PKCS5_PBKDF2_HMAC\<close> is RFC 8018's PBKDF2 over HMAC as long as no more than \<open>2^32 - 1\<close> blocks
  are asked for; it fails if an allocation does, writing nothing, and for 0 iterations, writing
  the key of one iteration.  Past that bound, which the code does not check, the block number
  starts again at 0 and the key material repeats: block \<open>2^32 + i\<close> is block \<open>i\<close>.
\<close>

theorem PKCS5_PBKDF2_HMAC_correct:
  "map_option (\<lambda>(ok, out, al'). (ok, out)) (PKCS5_PBKDF2_HMAC P S c t L al) = Some
     (if None \<in> set (take 3 al) then (False, []) else (c \<noteq> 0, pbkdf2 t P S (max 1 (unat c)) L)) \<and>
   pbkdf2_F t P S n (2 ^ 32 + i) = pbkdf2_F t P S n i"
proof -
  have "(of_nat (2 ^ 32) :: u32) = 0" by simp
  then have "(of_nat (2 ^ 32 + i) :: u32) = of_nat i" by (simp only: of_nat_add add_0)
  then have "be_bytes 4 (2 ^ 32 + i) = be_bytes 4 i"
    using HOST_l2c_of_nat [of True "2 ^ 32 + i"] HOST_l2c_of_nat [of True i] by (simp only: if_True)
  then have "pbkdf2_U t P S (2 ^ 32 + i) j = pbkdf2_U t P S i j" for j by (induction j) (simp_all del: be_bytes.simps)
  then have "pbkdf2_F t P S n (2 ^ 32 + i) = pbkdf2_F t P S n i" by (simp only: pbkdf2_F_def)
  then show ?thesis using PKCS5_PBKDF2_HMAC_spec [of P S c t L al] by (auto simp: mallocs_def)
qed

end
