(* ===== verification/Coding.thy ===== *)
theory Coding
  imports Md32
begin


text \<open>
  Encodings of LevelDB (\<open>util/coding.cc\<close>, \<open>util/coding.h\<close>): fixed-width integers, variable-length
  integers, length-prefixed strings.  A pointer with its limit is the list of the bytes between
  them; \<open>None\<close> is the null pointer or \<open>false\<close>.  On the little-endian processors of the app the
  \<open>memcpy\<close> of a word stores the same bytes as the portable branch.
\<close>

section \<open>Code\<close>

definition EncodeFixed32 :: "u32 \<Rightarrow> u8 list" where
  "EncodeFixed32 value =
    [ucast (value AND 0xff), ucast (drop_bit 8 value AND 0xff), ucast (drop_bit 16 value AND 0xff),
     ucast (drop_bit 24 value AND 0xff)]"

definition EncodeFixed64 :: "u64 \<Rightarrow> u8 list" where
  "EncodeFixed64 value =
    [ucast (value AND 0xff), ucast (drop_bit 8 value AND 0xff), ucast (drop_bit 16 value AND 0xff),
     ucast (drop_bit 24 value AND 0xff), ucast (drop_bit 32 value AND 0xff), ucast (drop_bit 40 value AND 0xff),
     ucast (drop_bit 48 value AND 0xff), ucast (drop_bit 56 value AND 0xff)]"

definition PutFixed32 :: "u8 list \<Rightarrow> u32 \<Rightarrow> u8 list" where
  "PutFixed32 dst value = dst @ EncodeFixed32 value"

definition PutFixed64 :: "u8 list \<Rightarrow> u64 \<Rightarrow> u8 list" where
  "PutFixed64 dst value = dst @ EncodeFixed64 value"

definition EncodeVarint32 :: "u32 \<Rightarrow> u8 list" where
  "EncodeVarint32 v =
    (let B = 128 in
     if v < 2 ^ 7 then [ucast v]
     else if v < 2 ^ 14 then [ucast (v OR B), ucast (drop_bit 7 v)]
     else if v < 2 ^ 21 then [ucast (v OR B), ucast (drop_bit 7 v OR B), ucast (drop_bit 14 v)]
     else if v < 2 ^ 28 then [ucast (v OR B), ucast (drop_bit 7 v OR B), ucast (drop_bit 14 v OR B), ucast (drop_bit 21 v)]
     else [ucast (v OR B), ucast (drop_bit 7 v OR B), ucast (drop_bit 14 v OR B), ucast (drop_bit 21 v OR B),
           ucast (drop_bit 28 v)])"

definition PutVarint32 :: "u8 list \<Rightarrow> u32 \<Rightarrow> u8 list" where
  "PutVarint32 dst v = dst @ EncodeVarint32 v"

lemma drop_bit_7_less: "drop_bit 7 v \<noteq> 0 \<Longrightarrow> unat (drop_bit 7 (v :: 'a::len word)) < unat v"
proof -
  assume "drop_bit 7 v \<noteq> 0"
  then have "v \<noteq> 0" by auto
  then show ?thesis by (simp add: unat_drop_bit unat_gt_0 div_less_dividend)
qed

lemma drop_bit_7_iff: "drop_bit 7 (v :: u64) = 0 \<longleftrightarrow> v < 128" "drop_bit 7 (w :: u32) = 0 \<longleftrightarrow> w < 128"
proof -
  have "drop_bit 7 (v :: u64) = 0 \<longleftrightarrow> unat (drop_bit 7 v) = 0" by (rule unsigned_eq_0_iff [symmetric])
  then show "drop_bit 7 (v :: u64) = 0 \<longleftrightarrow> v < 128" by (simp add: unat_drop_bit div_eq_0_iff word_less_nat_alt )
  have "drop_bit 7 (w :: u32) = 0 \<longleftrightarrow> unat (drop_bit 7 w) = 0" by (rule unsigned_eq_0_iff [symmetric])
  then show "drop_bit 7 (w :: u32) = 0 \<longleftrightarrow> w < 128" by (simp add: unat_drop_bit div_eq_0_iff word_less_nat_alt )
qed

function EncodeVarint64 :: "u64 \<Rightarrow> u8 list" where
  "EncodeVarint64 v =
    (let B = 128 in
     if v \<ge> B then ucast ((v AND (B - 1)) OR B) # EncodeVarint64 (drop_bit 7 v)
     else [ucast v])"
  by pat_completeness auto
termination by (relation "measure unat") (auto simp: drop_bit_7_iff not_less [symmetric] intro!: drop_bit_7_less)

declare EncodeVarint64.simps [simp del]

definition PutVarint64 :: "u8 list \<Rightarrow> u64 \<Rightarrow> u8 list" where
  "PutVarint64 dst v = dst @ EncodeVarint64 v"

definition PutLengthPrefixedSlice :: "u8 list \<Rightarrow> u8 list \<Rightarrow> u8 list" where
  "PutLengthPrefixedSlice dst value = PutVarint32 dst (of_nat (length value)) @ value"

function VarintLength :: "u64 \<Rightarrow> nat" where
  "VarintLength v = (if v \<ge> 128 then VarintLength (drop_bit 7 v) + 1 else 1)"
  by pat_completeness auto
termination by (relation "measure unat") (auto simp: drop_bit_7_iff not_less [symmetric] intro!: drop_bit_7_less)

declare VarintLength.simps [simp del]

definition DecodeFixed32 :: "u8 list \<Rightarrow> u32" where
  "DecodeFixed32 ptr =
    ucast (ptr ! 0) OR push_bit 8 (ucast (ptr ! 1)) OR push_bit 16 (ucast (ptr ! 2)) OR push_bit 24 (ucast (ptr ! 3))"

definition DecodeFixed64 :: "u8 list \<Rightarrow> u64" where
  "DecodeFixed64 ptr = (let lo = ucast (DecodeFixed32 ptr); hi = ucast (DecodeFixed32 (drop 4 ptr)) in push_bit 32 hi OR lo)"

text \<open>The loops of the two varint parsers: \<open>p\<close> is what lies before \<open>limit\<close>.\<close>

fun GetVarint32_loop :: "nat \<Rightarrow> u32 \<Rightarrow> u8 list \<Rightarrow> (u32 \<times> u8 list) option" where
  "GetVarint32_loop shift result [] = None"
| "GetVarint32_loop shift result (b # p) =
    (if 28 < shift then None
     else
       let byte = ucast b in
       if byte AND 128 \<noteq> 0 then GetVarint32_loop (shift + 7) (result OR push_bit shift (byte AND 127)) p
       else Some (result OR push_bit shift byte, p))"

definition GetVarint32PtrFallback :: "u8 list \<Rightarrow> (u32 \<times> u8 list) option" where
  "GetVarint32PtrFallback p = GetVarint32_loop 0 0 p"

definition GetVarint32Ptr :: "u8 list \<Rightarrow> (u32 \<times> u8 list) option" where
  "GetVarint32Ptr p = (case p of
     [] \<Rightarrow> GetVarint32PtrFallback p
   | b # p' \<Rightarrow> let result = ucast b :: u32 in if result AND 128 = 0 then Some (result, p') else GetVarint32PtrFallback p)"

definition GetVarint32 :: "u8 list \<Rightarrow> (u32 \<times> u8 list) option" where
  "GetVarint32 input = (case GetVarint32Ptr input of None \<Rightarrow> None | Some (value, q) \<Rightarrow> Some (value, q))"

fun GetVarint64_loop :: "nat \<Rightarrow> u64 \<Rightarrow> u8 list \<Rightarrow> (u64 \<times> u8 list) option" where
  "GetVarint64_loop shift result [] = None"
| "GetVarint64_loop shift result (b # p) =
    (if 63 < shift then None
     else
       let byte = ucast b in
       if byte AND 128 \<noteq> 0 then GetVarint64_loop (shift + 7) (result OR push_bit shift (byte AND 127)) p
       else Some (result OR push_bit shift byte, p))"

definition GetVarint64Ptr :: "u8 list \<Rightarrow> (u64 \<times> u8 list) option" where
  "GetVarint64Ptr p = GetVarint64_loop 0 0 p"

definition GetVarint64 :: "u8 list \<Rightarrow> (u64 \<times> u8 list) option" where
  "GetVarint64 input = (case GetVarint64Ptr input of None \<Rightarrow> None | Some (value, q) \<Rightarrow> Some (value, q))"

definition GetLengthPrefixedSlice :: "u8 list \<Rightarrow> (u8 list \<times> u8 list) option" where
  "GetLengthPrefixedSlice input = (case GetVarint32 input of
     None \<Rightarrow> None
   | Some (len, input) \<Rightarrow>
       if length input \<ge> unat len then Some (take (unat len) input, drop (unat len) input) else None)"

section \<open>Variable-length integers of any width\<close>

function varint_put :: "'a::len word \<Rightarrow> u8 list" where
  "varint_put v = (if drop_bit 7 v = 0 then [ucast v] else ucast (v OR 128) # varint_put (drop_bit 7 v))"
  by pat_completeness auto
termination by (relation "measure unat") (auto intro!: drop_bit_7_less)

declare varint_put.simps [simp del]

fun varint_get :: "nat \<Rightarrow> nat \<Rightarrow> 'a::len word \<Rightarrow> u8 list \<Rightarrow> ('a word \<times> u8 list) option" where
  "varint_get m s r [] = None"
| "varint_get m s r (b # p) =
    (if m < s then None
     else if bit b 7 then varint_get m (s + 7) (r OR push_bit s (take_bit 7 (ucast b))) p
     else Some (r OR push_bit s (ucast b), p))"

lemma EncodeVarint64_put: "EncodeVarint64 v = varint_put v"
proof (induction v rule: EncodeVarint64.induct)
  case (1 v)
  have "(ucast ((v AND 127) OR 128) :: u8) = ucast (v OR 128)"
    by (rule bit_word_eqI) (auto simp: bit_simps bit_80 less_Suc_eq numeral_eq_Suc)
  with 1 show ?case unfolding EncodeVarint64.simps [of v] varint_put.simps [of v] Let_def drop_bit_7_iff by (auto simp: not_le)
qed

lemma EncodeVarint32_put: "EncodeVarint32 v = varint_put v"
proof -
  have s: "((v :: u32) < 2 ^ 14) = (drop_bit 7 v < 128)" "((v :: u32) < 2 ^ 21) = (drop_bit 14 v < 128)"
    "((v :: u32) < 2 ^ 28) = (drop_bit 21 v < 128)" "drop_bit 28 v < 128" "((v :: u32) < 2 ^ 7) = (v < 128)"
    by (simp_all add: word_less_nat_alt unat_drop_bit div_less_iff_less_mult unat_u32_lt [THEN less_trans])
  have d: "drop_bit 7 (drop_bit 7 v) = drop_bit 14 v" "drop_bit 7 (drop_bit 14 v) = drop_bit 21 v"
    "drop_bit 7 (drop_bit 21 v) = drop_bit 28 v" by simp_all
  have z: "drop_bit 14 v = 0 \<longleftrightarrow> drop_bit 7 v < 128" "drop_bit 21 v = 0 \<longleftrightarrow> drop_bit 14 v < 128"
    "drop_bit 28 v = 0 \<longleftrightarrow> drop_bit 21 v < 128" "drop_bit 7 (drop_bit 28 v) = 0 \<longleftrightarrow> drop_bit 28 v < 128"
    using drop_bit_7_iff(2) [of "drop_bit 7 v"] drop_bit_7_iff(2) [of "drop_bit 14 v"] drop_bit_7_iff(2) [of "drop_bit 21 v"]
      drop_bit_7_iff(2) [of "drop_bit 28 v"] unfolding d by simp_all
  show ?thesis
    unfolding EncodeVarint32_def Let_def s
    unfolding varint_put.simps [of v] varint_put.simps [of "drop_bit 7 v"] d varint_put.simps [of "drop_bit 14 v"]
      varint_put.simps [of "drop_bit 21 v"] varint_put.simps [of "drop_bit 28 v"] z drop_bit_7_iff
    by (simp add: s(4))
qed


lemma varint_byte_parts:
  assumes "8 \<le> LENGTH('a)"
  shows "bit (ucast ((v :: 'a::len word) OR 128) :: u8) 7" "take_bit 7 (ucast (ucast (v OR 128) :: u8)) = take_bit 7 v"
    "drop_bit 7 v = 0 \<Longrightarrow> \<not> bit (ucast v :: u8) 7" "drop_bit 7 v = 0 \<Longrightarrow> ucast (ucast v :: u8) = v"
proof -
  have b: "bit (128 :: 'a word) n \<longleftrightarrow> n = 7" for n using bit_exp_iff [of 7 n, where 'a = "'a word"] assms by auto
  show "bit (ucast (v OR 128) :: u8) 7" using assms by (simp add: bit_simps b)
  show "take_bit 7 (ucast (ucast (v OR 128) :: u8)) = take_bit 7 v"
    using assms by (intro bit_word_eqI) (auto simp: bit_simps b bit_80)
  assume z: "drop_bit 7 v = 0"
  then show "\<not> bit (ucast v :: u8) 7" by (auto simp: bit_simps dest: drop_bit_0_bitD)
  show "ucast (ucast v :: u8) = v" using z by (intro bit_word_eqI) (auto simp: bit_simps dest: drop_bit_0_bitD)
qed

lemma varint_get_put:
  assumes "8 \<le> LENGTH('a)"
  shows "s + 7 * length (varint_put v) \<le> m + 7 \<Longrightarrow>
    varint_get m s r (varint_put (v :: 'a::len word) @ rest) = Some (r OR push_bit s v, rest)"
proof (induction v arbitrary: s r rule: varint_put.induct)
  case (1 v)
  show ?case
  proof (cases "drop_bit 7 v = 0")
    case True
    then show ?thesis using 1(2) varint_byte_parts [OF assms, of v] by (simp add: varint_put.simps [of v])
  next
    case False
    have "length (varint_put v) = Suc (length (varint_put (drop_bit 7 v)))" using False by (simp add: varint_put.simps [of v])
    then have "(s + 7) + 7 * length (varint_put (drop_bit 7 v)) \<le> m + 7" using 1(2) by simp
    note IH = 1(1) [OF False this]
    have "0 < length (varint_put (drop_bit 7 v))" by (subst varint_put.simps) simp
    then have "\<not> m < s" using \<open>s + 7 + 7 * length (varint_put (drop_bit 7 v)) \<le> m + 7\<close> by simp
    moreover have "r OR push_bit s (take_bit 7 v) OR push_bit (s + 7) (drop_bit 7 v) = r OR push_bit s v"
    proof -
      have "take_bit 7 v OR push_bit 7 (drop_bit 7 v) = v"
        by (rule bit_word_eqI) (auto simp: bit_simps, metis le_add_diff_inverse not_less)
      then have "push_bit s (take_bit 7 v) OR push_bit s (push_bit 7 (drop_bit 7 v)) = push_bit s v"
        by (metis push_bit_or)
      then show ?thesis by (simp add: or.assoc add.commute)
    qed
    ultimately show ?thesis
      using False varint_byte_parts [OF assms, of v] by (simp add: varint_put.simps [of v] IH or.assoc)
  qed
qed

lemma length_varint_put: "unat v < 2 ^ (7 * k) \<Longrightarrow> 0 < k \<Longrightarrow> length (varint_put v) \<le> k"
proof (induction k arbitrary: v)
  case (Suc k)
  show ?case
  proof (cases "drop_bit 7 v = 0")
    case True
    then show ?thesis by (simp add: varint_put.simps [of v])
  next
    case False
    have u: "unat (drop_bit 7 v) < 2 ^ (7 * k)"
      using Suc.prems(1) by (simp add: unat_drop_bit less_mult_imp_div_less power_add mult.commute)
    have "k \<noteq> 0" using u False by (cases k) (auto simp: unsigned_eq_0_iff)
    then show ?thesis using Suc.IH [OF u] False by (simp add: varint_put.simps [of v])
  qed
qed simp

lemma GetVarint_loop_get: "GetVarint32_loop s r p = varint_get 28 s r p" "GetVarint64_loop s r' p = varint_get 63 s r' p"
proof -
  have 128: "((ucast b :: 'a::len word) AND 128 \<noteq> 0) = bit b 7" if "8 \<le> LENGTH('a)" for b :: u8
  proof -
    have b: "bit (128 :: 'a word) n \<longleftrightarrow> n = 7" for n using bit_exp_iff [of 7 n, where 'a = "'a word"] that by auto
    have "bit ((ucast b :: 'a word) AND 128) n = (n = 7 \<and> bit b 7)" for n using that b by (auto simp: bit_and_iff bit_unsigned_iff dest: bit_imp_le_length)
    then show ?thesis by (metis bit_0_eq bot_apply bot_bool_def bit_word_eqI)
  qed
  have 127: "x AND 127 = take_bit 7 x" for x :: "'a::len word" by (simp add: take_bit_eq_mask mask_eq_exp_minus_1)
  show "GetVarint32_loop s r p = varint_get 28 s r p"
    by (induction p arbitrary: s r) (simp_all add: 128 127 Let_def)
  show "GetVarint64_loop s r' p = varint_get 63 s r' p"
    by (induction p arbitrary: s r') (simp_all add: 128 127 Let_def)
qed


section \<open>Round trips\<close>

lemma GetVarint32_get: "GetVarint32 p = varint_get 28 0 0 p"
proof (cases p)
  case Nil
  then show ?thesis by (simp add: GetVarint32_def GetVarint32Ptr_def GetVarint32PtrFallback_def)
next
  case (Cons b p')
  have b: "((ucast b :: u32) AND 128 = 0) = (\<not> bit b 7)"
    using arg_cong [OF GetVarint_loop_get(1) [of 0 0 "[b]"], of "\<lambda>x. x = None"] by (simp add: Let_def split: if_splits)
  show ?thesis using Cons b
    by (simp add: GetVarint32_def GetVarint32Ptr_def GetVarint32PtrFallback_def GetVarint_loop_get(1) Let_def split: option.splits)
qed

lemma GetVarint32_Encode: "GetVarint32 (EncodeVarint32 v @ rest) = Some (v, rest)"
proof -
  have "length (varint_put v) \<le> 5" by (rule length_varint_put) (use less_trans [OF unat_u32_lt [of v], of "2 ^ 35"] in simp_all)
  then show ?thesis using varint_get_put [of 0 v 28 0 rest] by (simp add: GetVarint32_get EncodeVarint32_put)
qed

lemma GetVarint64_Encode: "GetVarint64 (EncodeVarint64 v @ rest) = Some (v, rest)"
proof -
  have "length (varint_put v) \<le> 10" by (rule length_varint_put) (use less_trans [OF unat_u64_lt [of v], of "2 ^ 70"] in simp_all)
  then show ?thesis
    using varint_get_put [of 0 v 63 0 rest]
    by (simp add: GetVarint64_def GetVarint64Ptr_def GetVarint_loop_get(2) EncodeVarint64_put)
qed

lemma length_EncodeVarint: "length (EncodeVarint32 v) \<le> 5" "length (EncodeVarint64 w) \<le> 10"
  using length_varint_put [of v 5] length_varint_put [of w 10] 
    less_trans [OF unat_u32_lt [of v], of "2 ^ 35"] less_trans [OF unat_u64_lt [of w], of "2 ^ 70"]
  by (simp_all add: EncodeVarint32_put EncodeVarint64_put)

lemma VarintLength_Encode: "VarintLength v = length (EncodeVarint64 v)"
proof (induction v rule: VarintLength.induct)
  case (1 v)
  then show ?case by (simp add: VarintLength.simps [of v] EncodeVarint64.simps [of v] Let_def)
qed

lemma length_EncodeFixed [simp]: "length (EncodeFixed32 v) = 4" "length (EncodeFixed64 w) = 8"
  by (simp_all add: EncodeFixed32_def EncodeFixed64_def)

lemma DecodeFixed32_Encode: "DecodeFixed32 (EncodeFixed32 v @ rest) = v"
proof -
  have "ucast (ucast (v AND 0xff) :: u8) = take_bit 8 v" "ucast (ucast (drop_bit k v AND 0xff) :: u8) = take_bit 8 (drop_bit k v)" for k
    unfolding and_FF by (rule bit_word_eqI, auto simp: bit_simps)+
  note this [simp]
  show ?thesis
    unfolding DecodeFixed32_def EncodeFixed32_def
  proof (simp, rule bit_word_eqI)
    fix n assume "n < LENGTH(32)"
    consider "n < 8" | "8 \<le> n" "n < 16" | "16 \<le> n" "n < 24" | "24 \<le> n" by linarith
    then show "bit (take_bit 8 v OR push_bit 8 (take_bit 8 (drop_bit 8 v)) OR push_bit 16 (take_bit 8 (drop_bit 16 v)) OR
        push_bit 24 (take_bit 8 (drop_bit 24 v))) n = bit v n"
      by cases (use \<open>n < LENGTH(32)\<close> in \<open>auto simp: bit_simps\<close>)
  qed
qed

lemma DecodeFixed64_Encode: "DecodeFixed64 (EncodeFixed64 v @ rest) = v"
proof -
  have lo: "EncodeFixed64 v = EncodeFixed32 (ucast v) @ EncodeFixed32 (ucast (drop_bit 32 v))"
    unfolding EncodeFixed64_def EncodeFixed32_def and_FF
    by simp (intro conjI; rule bit_word_eqI; auto simp: bit_simps)
  have "push_bit 32 (ucast (ucast (drop_bit 32 v) :: u32)) OR ucast (ucast v :: u32) = v"
    by (rule bit_word_eqI) (auto simp: bit_simps)
  then show ?thesis unfolding DecodeFixed64_def lo Let_def append_assoc DecodeFixed32_Encode
    using DecodeFixed32_Encode by (simp add: DecodeFixed32_Encode)
qed

lemma GetLengthPrefixedSlice_Put:
  "length value < 2 ^ 32 \<Longrightarrow> GetLengthPrefixedSlice (PutLengthPrefixedSlice [] value @ rest) = Some (value, rest)"
  by (simp add: GetLengthPrefixedSlice_def PutLengthPrefixedSlice_def PutVarint32_def GetVarint32_Encode unat_of_nat)

text \<open>
  C30: every encoding is read back exactly, whatever follows it, and has the announced length; only
  the length of a string of \<open>2^32\<close> bytes or more does not fit its prefix.
\<close>

theorem leveldb_coding_roundtrip:
  assumes "length value < 2 ^ 32"
  shows "GetVarint32 (PutVarint32 [] v @ rest) = Some (v, rest) \<and> GetVarint64 (PutVarint64 [] w @ rest) = Some (w, rest) \<and>
    DecodeFixed32 (PutFixed32 [] v @ rest) = v \<and> DecodeFixed64 (PutFixed64 [] w @ rest) = w \<and>
    GetLengthPrefixedSlice (PutLengthPrefixedSlice [] value @ rest) = Some (value, rest) \<and>
    VarintLength w = length (PutVarint64 [] w) \<and> length (PutVarint32 [] v) \<le> 5 \<and> length (PutVarint64 [] w) \<le> 10"
  using GetLengthPrefixedSlice_Put [OF assms] length_EncodeVarint
  by (simp add: PutVarint32_def PutVarint64_def PutFixed32_def PutFixed64_def GetVarint32_Encode GetVarint64_Encode
      DecodeFixed32_Encode DecodeFixed64_Encode VarintLength_Encode)

theorem leveldb_coding_roundtrip_witness:
  "GetLengthPrefixedSlice (PutLengthPrefixedSlice [] [1, 2, 3] @ [9]) = Some ([1, 2, 3], [9])"
  using leveldb_coding_roundtrip [of "[1, 2, 3]" 0 "[9]" 0] by simp

end
