(* ===== verification/Ldb_log.thy ===== *)
theory Ldb_log
  imports Crc32c
begin


text \<open>
  The log of LevelDB (\<open>db/log_format.h\<close>, \<open>db/log_writer.cc\<close>, \<open>db/log_reader.cc\<close>) on the files of
  \<open>util/env_posix.cc\<close>.

  A file is its bytes; the calls into the C library take the next entry of a list, \<open>Some k\<close> for an
  error after \<open>k\<close> bytes, and succeed behind its end.  A \<open>uint64_t\<close> is a natural number modulo
  \<open>2^64\<close>.  The slice that \<open>ReadRecord\<close> returns points into \<open>scratch\<close> or the buffer; here it is its
  bytes.
\<close>

section \<open>Files\<close>

record posix_file =
  pf_data :: "u8 list"
  pf_errs :: "nat option list"

definition next_err :: "posix_file \<Rightarrow> nat option \<times> posix_file" where
  "next_err f = (case pf_errs f of [] \<Rightarrow> (None, f) | e # es \<Rightarrow> (e, f\<lparr>pf_errs := es\<rparr>))"

text \<open>For reading, \<open>pf_data\<close> is what has not been read.\<close>

definition posix_Read :: "nat \<Rightarrow> posix_file \<Rightarrow> bool \<times> u8 list \<times> posix_file" where
  "posix_Read n f = (case next_err f of (e, f) \<Rightarrow>
     let r = (case e of None \<Rightarrow> n | Some k \<Rightarrow> k) in
     if r < n then (False, take r (pf_data f), f\<lparr>pf_data := drop r (pf_data f)\<rparr>)
     else (True, take n (pf_data f), f\<lparr>pf_data := drop n (pf_data f)\<rparr>))"

definition posix_Skip :: "nat \<Rightarrow> posix_file \<Rightarrow> bool \<times> posix_file" where
  "posix_Skip n f = (case next_err f of (Some k, f) \<Rightarrow> (False, f) | (None, f) \<Rightarrow> (True, f\<lparr>pf_data := drop n (pf_data f)\<rparr>))"

definition posix_Append :: "u8 list \<Rightarrow> posix_file \<Rightarrow> bool \<times> posix_file" where
  "posix_Append data f = (case next_err f of (e, f) \<Rightarrow>
     let r = (case e of None \<Rightarrow> length data | Some k \<Rightarrow> min k (length data)) in
     (r = length data, f\<lparr>pf_data := pf_data f @ take r data\<rparr>))"

definition posix_Flush :: "posix_file \<Rightarrow> bool \<times> posix_file" where
  "posix_Flush f = (case next_err f of (e, f) \<Rightarrow> (e = None, f))"

section \<open>Writing\<close>

abbreviation kZeroType :: nat where "kZeroType \<equiv> 0"
abbreviation kFullType :: nat where "kFullType \<equiv> 1"
abbreviation kFirstType :: nat where "kFirstType \<equiv> 2"
abbreviation kMiddleType :: nat where "kMiddleType \<equiv> 3"
abbreviation kLastType :: nat where "kLastType \<equiv> 4"
abbreviation kBlockSize :: nat where "kBlockSize \<equiv> 32768"
abbreviation kHeaderSize :: nat where "kHeaderSize \<equiv> 7"

record log_writer =
  lw_dest :: posix_file
  lw_block_offset :: nat
  lw_type_crc :: "u32 list"

definition InitTypeCrc :: "u32 list" where
  "InitTypeCrc = map (\<lambda>i. Value 0 [of_nat i]) [0..<5]"

definition Writer :: "posix_file \<Rightarrow> log_writer" where
  "Writer dest = \<lparr>lw_dest = dest, lw_block_offset = 0, lw_type_crc = InitTypeCrc\<rparr>"

definition Writer_at :: "posix_file \<Rightarrow> nat \<Rightarrow> log_writer" where
  "Writer_at dest dest_length = \<lparr>lw_dest = dest, lw_block_offset = dest_length mod kBlockSize, lw_type_crc = InitTypeCrc\<rparr>"

definition EmitPhysicalRecord :: "log_writer \<Rightarrow> nat \<Rightarrow> u8 list \<Rightarrow> bool \<times> log_writer" where
  "EmitPhysicalRecord w t payload =
    (let n = length payload;
         crc = Mask (Extend 0 (lw_type_crc w ! t) payload);
         buf = EncodeFixed32 crc @ [of_nat (n mod 256), of_nat (n div 256), of_nat t];
         (ok, f) = posix_Append buf (lw_dest w);
         (ok, f) = (if ok then
             let (ok, f) = posix_Append payload f in
             if ok then posix_Flush f else (False, f)
           else (False, f))
     in (ok, w\<lparr>lw_dest := f, lw_block_offset := lw_block_offset w + kHeaderSize + n\<rparr>))"

text \<open>The switch to a new block at the head of the loop; the status of \<open>Append\<close> is dropped.\<close>

definition switch_block :: "log_writer \<Rightarrow> log_writer" where
  "switch_block w =
    (let leftover = kBlockSize - lw_block_offset w in
     if leftover < kHeaderSize then
       w\<lparr>lw_dest := (if leftover > 0 then snd (posix_Append (replicate leftover 0) (lw_dest w)) else lw_dest w),
         lw_block_offset := 0\<rparr>
     else w)"

definition fragment_type :: "bool \<Rightarrow> bool \<Rightarrow> nat" where
  "fragment_type beginning ending = (if beginning \<and> ending then kFullType else if beginning then kFirstType
     else if ending then kLastType else kMiddleType)"

function AddRecord_loop :: "bool \<Rightarrow> u8 list \<Rightarrow> log_writer \<Rightarrow> bool \<times> log_writer" where
  "AddRecord_loop beginning data w =
    (let w = switch_block w;
         avail = kBlockSize - lw_block_offset w - kHeaderSize;
         fragment_length = (if length data < avail then length data else avail);
         ending = (length data = fragment_length);
         (ok, w) = EmitPhysicalRecord w (fragment_type beginning ending) (take fragment_length data);
         left = drop fragment_length data
     in if ok \<and> length left > 0 then AddRecord_loop False left w else (ok, w))"
  by pat_completeness auto
termination
proof (relation "measures [\<lambda>(b, d, w). length d, \<lambda>(b, d, w). if lw_block_offset w + kHeaderSize = kBlockSize then 1 else 0]",
    goal_cases)
  case (2 b d w w1 avail len ending x ok w2 left)
  have w2: "lw_block_offset w2 = lw_block_offset w1 + kHeaderSize + length (take len d)"
    using 2(5,6) by (auto simp: EmitPhysicalRecord_def Let_def split: prod.splits)
  show ?case
  proof (cases "len = 0")
    case False
    then have "length left < length d" using 2(7,8) by auto
    then show ?thesis by simp
  next
    case True
    then have "avail = 0" using 2(2,3,7,8) by (auto split: if_splits)
    then have "lw_block_offset w1 + kHeaderSize \<ge> kBlockSize" using 2(2) by simp
    moreover from this have "w1 = w" "lw_block_offset w + kHeaderSize \<le> kBlockSize"
      using 2(1) by (auto simp: switch_block_def Let_def split: if_splits)
    ultimately show ?thesis using w2 True 2(7) by simp
  qed
qed simp

definition AddRecord :: "log_writer \<Rightarrow> u8 list \<Rightarrow> bool \<times> log_writer" where
  "AddRecord w data = AddRecord_loop True data w"


section \<open>Reading\<close>

datatype reason =
    IOFailure | BadRecordLength | ChecksumMismatch | PartialRecord1 | PartialRecord2 | MissingStart1 | MissingStart2
  | ErrorInMiddle | UnknownType u32

record log_reader =
  lr_file :: posix_file
  lr_reporter :: bool
  lr_reports :: "(nat \<times> reason) list"
  lr_checksum :: bool
  lr_buffer :: "u8 list"
  lr_eof :: bool
  lr_last_record_offset :: nat
  lr_end_of_buffer_offset :: nat
  lr_initial_offset :: nat
  lr_resyncing :: bool

abbreviation kEof :: u32 where "kEof \<equiv> 5"
abbreviation kBadRecord :: u32 where "kBadRecord \<equiv> 6"

definition Reader :: "posix_file \<Rightarrow> bool \<Rightarrow> bool \<Rightarrow> nat \<Rightarrow> log_reader" where
  "Reader file reporter checksum initial_offset =
    \<lparr>lr_file = file, lr_reporter = reporter, lr_reports = [], lr_checksum = checksum, lr_buffer = [], lr_eof = False,
     lr_last_record_offset = 0, lr_end_of_buffer_offset = 0, lr_initial_offset = initial_offset,
     lr_resyncing = (initial_offset > 0)\<rparr>"

definition ReportDrop :: "nat \<Rightarrow> reason \<Rightarrow> log_reader \<Rightarrow> log_reader" where
  "ReportDrop bytes reason r =
    (if lr_reporter r \<and>
       size_sub (size_sub (lr_end_of_buffer_offset r) (length (lr_buffer r))) bytes \<ge> lr_initial_offset r
     then r\<lparr>lr_reports := lr_reports r @ [(bytes, reason)]\<rparr> else r)"

definition ReportCorruption :: "nat \<Rightarrow> reason \<Rightarrow> log_reader \<Rightarrow> log_reader" where
  "ReportCorruption bytes reason r = ReportDrop bytes reason r"

definition SkipToInitialBlock :: "log_reader \<Rightarrow> bool \<times> log_reader" where
  "SkipToInitialBlock r =
    (let offset_in_block = lr_initial_offset r mod kBlockSize;
         block_start_location = lr_initial_offset r - offset_in_block;
         block_start_location = (if offset_in_block > kBlockSize - 6 then size_add block_start_location kBlockSize
           else block_start_location);
         r = r\<lparr>lr_end_of_buffer_offset := block_start_location\<rparr>
     in if block_start_location > 0 then
          (case posix_Skip block_start_location (lr_file r) of
             (True, f) \<Rightarrow> (True, r\<lparr>lr_file := f\<rparr>)
           | (False, f) \<Rightarrow> (False, ReportDrop block_start_location IOFailure (r\<lparr>lr_file := f\<rparr>)))
        else (True, r))"

text \<open>
  The part of \<open>ReadPhysicalRecord\<close> behind the refill, on a buffer that holds a header.  \<open>result\<close> is
  what the fragment held before, which failures leave.  The type is a \<open>char\<close>, and negative ones
  become large.
\<close>

definition parse_physical :: "log_reader \<Rightarrow> u8 list \<Rightarrow> u32 \<times> u8 list \<times> log_reader" where
  "parse_physical r result =
    (let header = lr_buffer r;
         a = unat (header ! 4);
         b = unat (header ! 5);
         type = (scast (header ! 6) :: u32);
         len = a + 256 * b
     in if kHeaderSize + len > length (lr_buffer r) then
          (let drop_size = length (lr_buffer r); r = r\<lparr>lr_buffer := []\<rparr> in
           if \<not> lr_eof r then (kBadRecord, result, ReportCorruption drop_size BadRecordLength r) else (kEof, result, r))
        else if type = 0 \<and> len = 0 then (kBadRecord, result, r\<lparr>lr_buffer := []\<rparr>)
        else
          let expected_crc = Unmask (DecodeFixed32 header);
              actual_crc = Value 0 (take (1 + len) (drop 6 header)) in
          if lr_checksum r \<and> actual_crc \<noteq> expected_crc then
            (let drop_size = length (lr_buffer r); r = r\<lparr>lr_buffer := []\<rparr>
             in (kBadRecord, result, ReportCorruption drop_size ChecksumMismatch r))
          else
            let r = r\<lparr>lr_buffer := drop (kHeaderSize + len) (lr_buffer r)\<rparr> in
            if size_sub (size_sub (size_sub (lr_end_of_buffer_offset r) (length (lr_buffer r))) kHeaderSize) len < lr_initial_offset r
            then (kBadRecord, [], r)
            else (type, take len (drop kHeaderSize header), r))"

text \<open>One turn of the refill: \<open>None\<close> when the read failed.\<close>

definition refill :: "log_reader \<Rightarrow> bool \<times> log_reader" where
  "refill r =
    (let r = r\<lparr>lr_buffer := []\<rparr>;
         (ok, bytes, f) = posix_Read kBlockSize (lr_file r);
         r = r\<lparr>lr_file := f, lr_buffer := bytes\<rparr>;
         r = r\<lparr>lr_end_of_buffer_offset := size_add (lr_end_of_buffer_offset r) (length bytes)\<rparr>
     in if \<not> ok then
          let r = r\<lparr>lr_buffer := []\<rparr>; r = ReportDrop kBlockSize IOFailure r in (False, r\<lparr>lr_eof := True\<rparr>)
        else if length bytes < kBlockSize then (True, r\<lparr>lr_eof := True\<rparr>) else (True, r))"

lemma length_posix_Read:
  "posix_Read n f = (ok, bs, f') \<Longrightarrow> length bs + length (pf_data f') = length (pf_data f) \<and> length bs \<le> n"
  by (auto simp: posix_Read_def next_err_def Let_def split: list.splits option.splits if_splits)

lemma refill_measure:
  assumes "refill r = (True, r')" "\<not> lr_eof r"
  shows "lr_eof r' \<or> kHeaderSize \<le> length (lr_buffer r')"
proof -
  obtain ok bs f where p: "posix_Read kBlockSize (lr_file r) = (ok, bs, f)" by (cases "posix_Read kBlockSize (lr_file r)")
  then show ?thesis using assms by (auto simp: refill_def Let_def split: if_splits)
qed

function ReadPhysicalRecord :: "log_reader \<Rightarrow> u8 list \<Rightarrow> u32 \<times> u8 list \<times> log_reader" where
  "ReadPhysicalRecord r result =
    (if length (lr_buffer r) < kHeaderSize then
       (if \<not> lr_eof r then
          (case refill r of
             (False, r) \<Rightarrow> (kEof, result, r)
           | (True, r) \<Rightarrow> ReadPhysicalRecord r result)
        else (kEof, result, r\<lparr>lr_buffer := []\<rparr>))
     else parse_physical r result)"
  by pat_completeness auto
termination
proof (relation "measure (\<lambda>(r, s). if lr_eof r then 0 else if length (lr_buffer r) < kHeaderSize then 2 else 1)", goal_cases)
  case (2 r result x r')
  then have "refill r = (True, r')" by simp
  then show ?case using refill_measure [of r r'] 2(1,2) by auto
qed simp

declare ReadPhysicalRecord.simps [simp del]

text \<open>What a reader has not consumed; reading a physical record shortens it unless it reports the end.\<close>

definition unread :: "log_reader \<Rightarrow> nat" where
  "unread r = length (lr_buffer r) + length (pf_data (lr_file r))"

lemma ReportDrop_simps [simp]:
  "lr_buffer (ReportDrop n e r) = lr_buffer r" "lr_file (ReportDrop n e r) = lr_file r" "unread (ReportDrop n e r) = unread r"
  "lr_eof (ReportDrop n e r) = lr_eof r"
  by (simp_all add: ReportDrop_def unread_def)

lemma parse_physical_unread:
  assumes "kHeaderSize \<le> length (lr_buffer r)" "parse_physical r result = (t, fragment, r')"
  shows "unread r' < unread r"
  using assms by (auto simp: parse_physical_def Let_def unread_def ReportCorruption_def split: if_splits)

lemma refill_unread: "refill r = (ok, r') \<Longrightarrow> unread r' \<le> unread r"
proof -
  assume a: "refill r = (ok, r')"
  obtain ok' bs f where p: "posix_Read kBlockSize (lr_file r) = (ok', bs, f)" by (cases "posix_Read kBlockSize (lr_file r)")
  then show ?thesis
    using length_posix_Read [OF p] a by (auto simp: refill_def Let_def unread_def ReportDrop_def split: if_splits)
qed

lemma ReadPhysicalRecord_unread:
  "ReadPhysicalRecord r result = (t, fragment, r') \<Longrightarrow> t \<noteq> kEof \<Longrightarrow> unread r' < unread r"
proof (induction r result rule: ReadPhysicalRecord.induct)
  case (1 r result)
  show ?case
  proof (cases "length (lr_buffer r) < kHeaderSize")
    case True
    then show ?thesis
      using 1 refill_unread [of r] by (subst (asm) ReadPhysicalRecord.simps) (fastforce split: if_splits prod.splits bool.splits)
  next
    case False
    then show ?thesis
      using 1(2) parse_physical_unread [of r result t fragment r'] by (subst (asm) ReadPhysicalRecord.simps) simp
  qed
qed


lemma unread_simps [simp]:
  "unread (r\<lparr>lr_resyncing := b\<rparr>) = unread r" "unread (r\<lparr>lr_reports := es\<rparr>) = unread r"
  "unread (r\<lparr>lr_last_record_offset := n\<rparr>) = unread r"
  by (simp_all add: unread_def)

text \<open>
  The loop of \<open>ReadRecord\<close>; its result is the record, \<open>scratch\<close> and the reader.  \<open>in_fragmented\<close> is
  left true after "partial record without end", where the code overwrites the scratch next.
\<close>

definition partial_without_end :: "reason \<Rightarrow> bool \<Rightarrow> u8 list \<Rightarrow> log_reader \<Rightarrow> log_reader" where
  "partial_without_end e in_fragmented scratch r =
    (if in_fragmented \<and> scratch \<noteq> [] then ReportCorruption (length scratch) e r else r)"

function ReadRecord_loop ::
  "log_reader \<Rightarrow> bool \<Rightarrow> nat \<Rightarrow> u8 list \<Rightarrow> u8 list \<Rightarrow> u8 list option \<times> u8 list \<times> log_reader" where
  "ReadRecord_loop r in_fragmented prospective scratch fragment =
    (let (record_type, fragment, r) = ReadPhysicalRecord r fragment;
         physical_record_offset = size_sub (size_sub (size_sub (lr_end_of_buffer_offset r) (length (lr_buffer r))) kHeaderSize)
           (length fragment);
         was_resyncing = lr_resyncing r;
         r = (if was_resyncing \<and> record_type \<noteq> 3 then r\<lparr>lr_resyncing := False\<rparr> else r)
     in if was_resyncing \<and> (record_type = 3 \<or> record_type = 4) then
          ReadRecord_loop r in_fragmented prospective scratch fragment
        else if record_type = 1 then
          (let r = partial_without_end PartialRecord1 in_fragmented scratch r
           in (Some fragment, [], r\<lparr>lr_last_record_offset := physical_record_offset\<rparr>))
        else if record_type = 2 then
          (let r = partial_without_end PartialRecord2 in_fragmented scratch r
           in ReadRecord_loop r True physical_record_offset fragment fragment)
        else if record_type = 3 then
          (if \<not> in_fragmented then
             ReadRecord_loop (ReportCorruption (length fragment) MissingStart1 r) in_fragmented prospective scratch fragment
           else ReadRecord_loop r in_fragmented prospective (scratch @ fragment) fragment)
        else if record_type = 4 then
          (if \<not> in_fragmented then
             ReadRecord_loop (ReportCorruption (length fragment) MissingStart2 r) in_fragmented prospective scratch fragment
           else (Some (scratch @ fragment), scratch @ fragment, r\<lparr>lr_last_record_offset := prospective\<rparr>))
        else if record_type = kEof then (None, if in_fragmented then [] else scratch, r)
        else if record_type = kBadRecord then
          (if in_fragmented then
             ReadRecord_loop (ReportCorruption (length scratch) ErrorInMiddle r) False prospective [] fragment
           else ReadRecord_loop r in_fragmented prospective scratch fragment)
        else
          ReadRecord_loop (ReportCorruption (length fragment + (if in_fragmented then length scratch else 0))
            (UnknownType record_type) r) False prospective [] fragment)"
  by pat_completeness auto
termination
  by (relation "measure (\<lambda>(r, _). unread r)")
    (auto simp: ReportCorruption_def partial_without_end_def unread_simps split: if_splits
      dest!: ReadPhysicalRecord_unread [OF sym])


definition ReadRecord :: "log_reader \<Rightarrow> u8 list \<Rightarrow> u8 list option \<times> u8 list \<times> log_reader" where
  "ReadRecord r scratch =
    (if lr_last_record_offset r < lr_initial_offset r then
       (case SkipToInitialBlock r of
          (False, r) \<Rightarrow> (None, scratch, r)
        | (True, r) \<Rightarrow> ReadRecord_loop r False 0 [] [])
     else ReadRecord_loop r False 0 [] [])"

definition LastRecordOffset :: "log_reader \<Rightarrow> nat" where
  "LastRecordOffset r = lr_last_record_offset r"

declare ReadRecord_loop.simps [simp del] AddRecord_loop.simps [simp del]

text \<open>The users of a log: append records in turn, and read until the end or a number of records.\<close>

fun AddRecords :: "log_writer \<Rightarrow> u8 list list \<Rightarrow> bool \<times> log_writer" where
  "AddRecords w [] = (True, w)"
| "AddRecords w (x # xs) = (case AddRecord w x of (True, w) \<Rightarrow> AddRecords w xs | (False, w) \<Rightarrow> (False, w))"

fun ReadRecords :: "nat \<Rightarrow> log_reader \<Rightarrow> u8 list list \<times> log_reader" where
  "ReadRecords 0 r = ([], r)"
| "ReadRecords (Suc k) r = (case ReadRecord r [] of
     (None, scratch, r) \<Rightarrow> ([], r)
   | (Some x, scratch, r) \<Rightarrow> (case ReadRecords k r of (xs, r) \<Rightarrow> (x # xs, r)))"

section \<open>The format of a log\<close>

text \<open>
  A log is a sequence of typed fragments; one that starts in the last six bytes of a block is
  preceded by zeros up to the next block.
\<close>

definition pad :: "nat \<Rightarrow> nat" where
  "pad off = (if kBlockSize - off < kHeaderSize then kBlockSize - off else 0)"

definition base :: "nat \<Rightarrow> nat" where
  "base off = (if kBlockSize - off < kHeaderSize then 0 else off)"

definition physical :: "nat \<Rightarrow> u8 list \<Rightarrow> u8 list" where
  "physical t x = EncodeFixed32 (Mask (Value 0 (of_nat t # x))) @
     [of_nat (length x mod 256), of_nat (length x div 256), of_nat t] @ x"

fun layout :: "nat \<Rightarrow> (nat \<times> u8 list) list \<Rightarrow> u8 list" where
  "layout off [] = []"
| "layout off ((t, x) # xs) = replicate (pad off) 0 @ physical t x @ layout (base off + kHeaderSize + length x) xs"

fun after :: "nat \<Rightarrow> (nat \<times> u8 list) list \<Rightarrow> nat" where
  "after off [] = off"
| "after off ((t, x) # xs) = after (base off + kHeaderSize + length x) xs"

fun fits :: "nat \<Rightarrow> (nat \<times> u8 list) list \<Rightarrow> bool" where
  "fits off [] = (off \<le> kBlockSize)"
| "fits off ((t, x) # xs) = (off \<le> kBlockSize \<and> base off + kHeaderSize + length x \<le> kBlockSize \<and> 0 < t \<and> t < 5 \<and>
     fits (base off + kHeaderSize + length x) xs)"

text \<open>The fragments of the rest of a record, and of a record.\<close>

definition rest_of :: "u8 list \<Rightarrow> (nat \<times> u8 list) list \<Rightarrow> bool" where
  "rest_of data xs \<longleftrightarrow> (\<exists>ms l. xs = map (Pair 3) ms @ [(4, l)] \<and> data = concat ms @ l)"

definition record_of :: "u8 list \<Rightarrow> (nat \<times> u8 list) list \<Rightarrow> bool" where
  "record_of data xs \<longleftrightarrow> xs = [(1, data)] \<or> (\<exists>x ys d. xs = (2, x) # ys \<and> rest_of d ys \<and> data = x @ d)"

lemma length_physical [simp]: "length (physical t x) = kHeaderSize + length x"
  by (simp add: physical_def)

lemma layout_append: "layout off (xs @ ys) = layout off xs @ layout (after off xs) ys"
  by (induction off xs rule: layout.induct) simp_all

lemma after_append: "after off (xs @ ys) = after (after off xs) ys"
  by (induction off xs rule: layout.induct) simp_all

lemma fits_append: "fits off (xs @ ys) = (fits off xs \<and> fits (after off xs) ys)"
  by (induction off xs rule: fits.induct) (auto elim: fits.elims)

lemma pad_mod: "off \<le> kBlockSize \<Longrightarrow> (off + pad off) mod kBlockSize = base off mod kBlockSize"
  by (auto simp: pad_def base_def)

lemma layout_mod: "fits off xs \<Longrightarrow> (off + length (layout off xs)) mod kBlockSize = after off xs mod kBlockSize"
proof (induction off xs rule: fits.induct)
  case (2 off t x xs)
  let ?off = "base off + kHeaderSize + length x"
  have "off + length (layout off ((t, x) # xs)) = (off + pad off) + (kHeaderSize + length x + length (layout ?off xs))" by simp
  then have "(off + length (layout off ((t, x) # xs))) mod kBlockSize =
      (base off + (kHeaderSize + length x + length (layout ?off xs))) mod kBlockSize"
    using pad_mod [of off] 2(2) by (metis fits.simps(2) mod_add_left_eq)
  also have "\<dots> = (?off + length (layout ?off xs)) mod kBlockSize" by (simp add: add.assoc)
  finally show ?case using 2 by simp
qed simp

section \<open>The writer writes the format\<close>

definition writing :: "u8 list \<Rightarrow> nat \<Rightarrow> log_writer \<Rightarrow> bool" where
  "writing bs off w \<longleftrightarrow> lw_dest w = \<lparr>pf_data = bs, pf_errs = []\<rparr> \<and> lw_block_offset w = off \<and> lw_type_crc w = InitTypeCrc"

lemma posix_no_errs [simp]:
  "posix_Append bs \<lparr>pf_data = d, pf_errs = []\<rparr> = (True, \<lparr>pf_data = d @ bs, pf_errs = []\<rparr>)"
  "posix_Flush \<lparr>pf_data = d, pf_errs = []\<rparr> = (True, \<lparr>pf_data = d, pf_errs = []\<rparr>)"
  "posix_Read n \<lparr>pf_data = d, pf_errs = []\<rparr> = (True, take n d, \<lparr>pf_data = drop n d, pf_errs = []\<rparr>)"
  by (simp_all add: posix_Append_def posix_Flush_def posix_Read_def next_err_def)

lemma switch_block_writing: "writing bs off w \<Longrightarrow> writing (bs @ replicate (pad off) 0) (base off) (switch_block w)"
  by (auto simp: writing_def switch_block_def pad_def base_def Let_def)

lemma EmitPhysicalRecord_writing:
  assumes "writing bs off w" "t < 5"
  shows "\<exists>w'. EmitPhysicalRecord w t x = (True, w') \<and> writing (bs @ physical t x) (off + kHeaderSize + length x) w'"
proof -
  have "InitTypeCrc ! t = Value 0 [of_nat t]" using assms(2) unfolding InitTypeCrc_def by (subst nth_map) simp_all
  then have "Extend 0 (InitTypeCrc ! t) x = Value 0 (of_nat t # x)"
    using Extend_append [of 0 0 0 "[of_nat t]" x 0] by (simp add: Value_def)
  then show ?thesis using assms(1) by (simp add: writing_def EmitPhysicalRecord_def physical_def Let_def)
qed

lemma fragment_type_lt: "0 < fragment_type b e" "fragment_type b e < 5"
  by (auto simp: fragment_type_def)

lemma AddRecord_loop_writing:
  assumes "writing bs off w" "off \<le> kBlockSize"
  shows "\<exists>w' xs. AddRecord_loop b data w = (True, w') \<and> writing (bs @ layout off xs) (after off xs) w' \<and>
    fits off xs \<and> (if b then record_of data xs else rest_of data xs)"
  using assms
proof (induction b data w arbitrary: bs off rule: AddRecord_loop.induct)
  case (1 b data w)
  define w1 where "w1 = switch_block w"
  have w1: "writing (bs @ replicate (pad off) 0) (base off) w1" using switch_block_writing [OF 1(2)] by (simp add: w1_def)
  define n where "n = (if length data < kBlockSize - lw_block_offset w1 - kHeaderSize then length data
    else kBlockSize - lw_block_offset w1 - kHeaderSize)"
  have off1: "lw_block_offset w1 = base off" "base off + kHeaderSize \<le> kBlockSize"
    using w1 1(3) by (auto simp: writing_def base_def)
  have n: "n \<le> length data" "base off + kHeaderSize + n \<le> kBlockSize" using off1 by (auto simp: n_def)
  define t where "t = fragment_type b (length data = n)"
  obtain w2 where w2: "EmitPhysicalRecord w1 t (take n data) = (True, w2)"
    "writing (bs @ replicate (pad off) 0 @ physical t (take n data)) (base off + kHeaderSize + n) w2"
    using EmitPhysicalRecord_writing [OF w1, of t "take n data"] fragment_type_lt n(1) unfolding t_def
    by (auto simp: min_absorb2)
  let ?off = "base off + kHeaderSize + n"
  have t: "0 < t" "t < 5" unfolding t_def by (rule fragment_type_lt)+
  show ?case
  proof (cases "n < length data")
    case False
    then have d: "take n data = data" "length data = n" using n(1) by simp_all
    have "AddRecord_loop b data w = (True, w2)"
      using w2(1) d unfolding AddRecord_loop.simps [of b data w] Let_def w1_def [symmetric] n_def [symmetric] t_def [symmetric]
      by simp
    moreover have "record_of data [(1, data)]" "rest_of data [(4, data)]"
      unfolding record_of_def rest_of_def by (auto intro: exI [of _ "[]"])
    then have "if b then record_of data [(t, data)] else rest_of data [(t, data)]"
      using d unfolding t_def fragment_type_def by simp
    ultimately show ?thesis using w2(2) n(2) t d 1(3) by (intro exI [of _ w2] exI [of _ "[(t, data)]"]) simp
  next
    case True
    then have e: "AddRecord_loop b data w = AddRecord_loop False (drop n data) w2"
      using w2(1) unfolding AddRecord_loop.simps [of b data w] Let_def w1_def [symmetric] n_def [symmetric] t_def [symmetric]
      by simp
    have c: "True \<and> 0 < length (drop n data)" using True by simp
    obtain w3 xs where w3: "AddRecord_loop False (drop n data) w2 = (True, w3)"
      "writing ((bs @ replicate (pad off) 0 @ physical t (take n data)) @ layout ?off xs) (after ?off xs) w3"
      "fits ?off xs" "rest_of (drop n data) xs"
      using 1(1) [OF w1_def refl n_def refl refl, OF w2(1) [unfolded t_def, symmetric] refl c w2(2) n(2)] by auto
    have t': "t = (if b then 2 else 3)" using True by (simp add: t_def fragment_type_def)
    have "if b then record_of data ((t, take n data) # xs) else rest_of data ((t, take n data) # xs)"
    proof (cases b)
      case True
      then show ?thesis using w3(4) t' unfolding record_of_def by (auto intro!: exI [of _ "drop n data"])
    next
      case False
      obtain ms l where m: "xs = map (Pair 3) ms @ [(4, l)]" "drop n data = concat ms @ l" using w3(4) unfolding rest_of_def by blast
      then have "data = concat (take n data # ms) @ l" by (metis append_assoc append_take_drop_id concat.simps(2))
      then show ?thesis using False t' m(1) unfolding rest_of_def by (auto intro!: exI [of _ "take n data # ms"])
    qed
    moreover have "length (take n data) = n" using n(1) by simp
    ultimately show ?thesis using w3(2,3) e w3(1) n(2) t 1(3)
      by (intro exI [of _ w3] exI [of _ "(t, take n data) # xs"]) simp
  qed
qed


lemma AddRecord_writing:
  assumes "writing bs off w" "off \<le> kBlockSize"
  obtains w' xs where "AddRecord w data = (True, w')" "writing (bs @ layout off xs) (after off xs) w'" "fits off xs" "record_of data xs"
  using AddRecord_loop_writing [OF assms, of True data] that unfolding AddRecord_def by auto

lemma fits_after: "fits off xs \<Longrightarrow> after off xs \<le> kBlockSize"
  by (induction off xs rule: fits.induct) simp_all

text \<open>The log after any number of the records.\<close>

lemma AddRecords_writing:
  assumes "writing bs off w" "off \<le> kBlockSize"
  shows "\<exists>xss. list_all2 record_of rs xss \<and> fits off (concat xss) \<and>
    (\<forall>j \<le> length rs. writing (bs @ layout off (concat (take j xss))) (after off (concat (take j xss))) (snd (AddRecords w (take j rs))))"
  using assms
proof (induction rs arbitrary: bs off w)
  case Nil
  then show ?case by simp
next
  case (Cons x rs)
  obtain w' xs where x: "AddRecord w x = (True, w')" "writing (bs @ layout off xs) (after off xs) w'" "fits off xs" "record_of x xs"
    by (rule AddRecord_writing [OF Cons.prems])
  obtain xss where xss: "list_all2 record_of rs xss" "fits (after off xs) (concat xss)"
    "\<And>j. j \<le> length rs \<Longrightarrow> writing ((bs @ layout off xs) @ layout (after off xs) (concat (take j xss)))
       (after (after off xs) (concat (take j xss))) (snd (AddRecords w' (take j rs)))"
    using Cons.IH [OF x(2) fits_after [OF x(3)]] by blast
  have "writing (bs @ layout off (concat (take j (xs # xss)))) (after off (concat (take j (xs # xss))))
      (snd (AddRecords w (take j (x # rs))))" if "j \<le> length (x # rs)" for j
  proof (cases j)
    case 0
    then show ?thesis using Cons.prems(1) by simp
  next
    case (Suc i)
    then show ?thesis using xss(3) [of i] that x(1) by (simp add: layout_append after_append)
  qed
  then show ?case using x(3,4) xss(1,2) by (intro exI [of _ "xs # xss"]) (simp add: fits_append)
qed

section \<open>The reader reads the format\<close>

text \<open>
  \<open>reading D p r\<close>: the reader has consumed \<open>p\<close> bytes of the file \<open>D\<close>, reported nothing, and either
  holds the rest of a complete block or has seen the end of the file.
\<close>

definition quiet :: "log_reader \<Rightarrow> bool" where
  "quiet r \<longleftrightarrow> lr_reports r = [] \<and> lr_initial_offset r = 0 \<and> \<not> lr_resyncing r \<and> pf_errs (lr_file r) = []"

definition reading :: "u8 list \<Rightarrow> nat \<Rightarrow> log_reader \<Rightarrow> bool" where
  "reading D p r \<longleftrightarrow> quiet r \<and> p \<le> length D \<and> lr_buffer r @ pf_data (lr_file r) = drop p D \<and>
     (if lr_eof r then pf_data (lr_file r) = [] \<and> length D - p < kBlockSize - p mod kBlockSize
      else length (lr_buffer r) = (kBlockSize - p mod kBlockSize) mod kBlockSize \<or>
        p mod kBlockSize = 0 \<and> length (lr_buffer r) = kBlockSize)"

lemma reading_buffer: "reading D p r \<Longrightarrow> lr_eof r \<Longrightarrow> lr_buffer r = drop p D"
  by (auto simp: reading_def)

text \<open>A header and its payload in the buffer.\<close>

lemma physical_header:
  "\<exists>c. length c = 4 \<and> physical t x = (c @ [of_nat (length x mod 256), of_nat (length x div 256), of_nat t]) @ x \<and>
    (\<forall>zs. DecodeFixed32 (c @ zs) = Mask (Value 0 (of_nat t # x)))"
proof (intro exI conjI allI)
  show "length (EncodeFixed32 (Mask (Value 0 (of_nat t # x)))) = 4" unfolding EncodeFixed32_def by simp
  show "physical t x = (EncodeFixed32 (Mask (Value 0 (of_nat t # x))) @
      [of_nat (length x mod 256), of_nat (length x div 256), of_nat t]) @ x"
    unfolding physical_def append_assoc ..
  show "DecodeFixed32 (EncodeFixed32 (Mask (Value 0 (of_nat t # x))) @ zs) = Mask (Value 0 (of_nat t # x))" for zs
    by (rule DecodeFixed32_Encode)
qed

lemma scast_type: "t < 5 \<Longrightarrow> (scast (of_nat t :: u8) :: u32) = of_nat t"
proof -
  assume "t < 5"
  then have "t = 0 \<or> t = 1 \<or> t = 2 \<or> t = 3 \<or> t = 4" by arith
  then show ?thesis by auto
qed

lemma parse_physical_good:
  assumes b: "lr_buffer r = take n (physical t x @ ys)" "kHeaderSize \<le> length (lr_buffer r)"
    and q: "quiet r" "0 < t" "t < 5" "length x < 65536" "kHeaderSize + length x \<le> length (lr_buffer r) \<or> lr_eof r"
  shows "parse_physical r f =
    (if kHeaderSize + length x \<le> length (lr_buffer r)
     then (of_nat t, x, r\<lparr>lr_buffer := drop (kHeaderSize + length x) (lr_buffer r)\<rparr>)
     else (kEof, f, r\<lparr>lr_buffer := []\<rparr>))"
proof -
  let ?h = "lr_buffer r"
  obtain c where c: "length c = 4" "physical t x = (c @ [of_nat (length x mod 256), of_nat (length x div 256), of_nat t]) @ x"
    "\<And>zs. DecodeFixed32 (c @ zs) = Mask (Value 0 (of_nat t # x))"
    using physical_header [of t x] by auto
  have n: "7 \<le> n" using b by simp
  have h: "?h = c @ [of_nat (length x mod 256), of_nat (length x div 256), of_nat t] @ take (n - 7) (x @ ys)"
    using n c(1) unfolding b(1) c(2) append_assoc by (simp add: take_Cons')
  have len: "unat (?h ! 4) + 256 * unat (?h ! 5) = length x"
    using q(4) c(1) unfolding h by (simp add: unat_of_nat nth_append less_mult_imp_div_less)
  have ty: "(scast (?h ! 6) :: u32) = of_nat t" using scast_type [OF q(3)] c(1) unfolding h by (simp add: nth_append)
  have t0: "(of_nat t :: u32) \<noteq> 0" using q(2,3) by (simp add: word_of_nat_eq_0_iff nat_dvd_not_less)
  have i0: "lr_initial_offset r = 0" using q(1) by (simp add: quiet_def)
  show ?thesis
  proof (cases "kHeaderSize + length x \<le> length ?h")
    case True
    then have tx: "take (length x) (drop 7 ?h) = x" "take (1 + length x) (drop 6 ?h) = of_nat t # x"
      using c(1) unfolding h by (auto simp: take_Cons')
    have crc: "Value 0 (take (1 + length x) (drop 6 ?h)) = Unmask (DecodeFixed32 ?h)"
      unfolding tx(2) unfolding h c(3) by (simp add: Unmask_Mask)
    show ?thesis
      using True crc t0 tx(1) i0 unfolding parse_physical_def Let_def len ty by simp
  next
    case False
    then have "lr_eof r" using q(5) by simp
    then show ?thesis using False unfolding parse_physical_def Let_def len by simp
  qed
qed


text \<open>The part of \<open>L\<close> behind \<open>p\<close> that is in the file.\<close>

definition ahead :: "u8 list \<Rightarrow> nat \<Rightarrow> u8 list \<Rightarrow> bool" where
  "ahead D p L \<longleftrightarrow> p \<le> length D \<and> drop p D = take (length D - p) L"

lemma ahead_append: "ahead D p (A @ B) \<Longrightarrow> p + length A \<le> length D \<Longrightarrow> ahead D (p + length A) B"
proof -
  assume a: "ahead D p (A @ B)" "p + length A \<le> length D"
  have "drop (p + length A) D = drop (length A) (drop p D)" by (simp add: add.commute)
  also have "\<dots> = take (length D - p - length A) B" using a unfolding ahead_def by (simp add: drop_take)
  finally show ?thesis using a(2) unfolding ahead_def by simp
qed

lemma ahead_take: "n \<le> length W \<Longrightarrow> ahead (take n W) 0 W"
  by (simp add: ahead_def)

lemma reading_block:
  assumes "reading D p r"
  shows "length (lr_buffer r) \<le> kBlockSize - p mod kBlockSize"
proof (cases "lr_eof r")
  case True
  then show ?thesis using assms reading_buffer [OF assms] by (simp add: reading_def)
next
  case False
  then show ?thesis
    using assms mod_less_eq_dividend [of "kBlockSize - p mod kBlockSize" kBlockSize] by (auto simp: reading_def)
qed

lemma mod_step:
  "p mod kBlockSize + n \<le> kBlockSize \<Longrightarrow>
   (p + n) mod kBlockSize = (if p mod kBlockSize + n = kBlockSize then 0 else p mod kBlockSize + n)"
  using mod_add_left_eq [of p kBlockSize n] by (cases "p mod kBlockSize + n = kBlockSize") simp_all

lemma reading_full:
  assumes "reading D p r" "\<not> lr_eof r" "0 < k" "k \<le> length (lr_buffer r)"
  shows "length (lr_buffer r) = kBlockSize - p mod kBlockSize"
  using assms by (cases "p mod kBlockSize = 0") (auto simp: reading_def)

lemma reading_drop:
  assumes r: "reading D p r" and n: "0 < n" "n \<le> length (lr_buffer r)"
  shows "p + n \<le> length D" "reading D (p + n) (r\<lparr>lr_buffer := drop n (lr_buffer r)\<rparr>)"
proof -
  have D: "lr_buffer r @ pf_data (lr_file r) = drop p D" "p \<le> length D" using r by (simp_all add: reading_def)
  have le: "length (lr_buffer r) + length (pf_data (lr_file r)) = length D - p" using arg_cong [OF D(1), of length] by simp
  then show pn: "p + n \<le> length D" using n(2) D(2) by linarith
  have dd: "drop n (lr_buffer r) @ pf_data (lr_file r) = drop (p + n) D"
    using arg_cong [OF D(1), of "drop n"] n(2) by (simp add: add.commute)
  have m: "p mod kBlockSize + n \<le> kBlockSize" using reading_block [OF r] n(2) mod_less_divisor [of kBlockSize p] by linarith
  have "if lr_eof r then pf_data (lr_file r) = [] \<and> length D - (p + n) < kBlockSize - (p + n) mod kBlockSize
      else length (lr_buffer r) - n = (kBlockSize - (p + n) mod kBlockSize) mod kBlockSize"
  proof (cases "lr_eof r")
    case True
    then show ?thesis using r n pn le unfolding reading_def mod_step [OF m] by (auto split: if_splits)
  next
    case False
    have "length (lr_buffer r) = kBlockSize - p mod kBlockSize" by (rule reading_full [OF r False n])
    then show ?thesis using False n m unfolding mod_step [OF m] by auto
  qed
  then show "reading D (p + n) (r\<lparr>lr_buffer := drop n (lr_buffer r)\<rparr>)"
    using r pn dd by (simp add: reading_def quiet_def)
qed

text \<open>A physical record in the file is read; one that the file holds in part is its end.\<close>

definition got :: "u8 list \<Rightarrow> nat \<Rightarrow> nat \<Rightarrow> u8 list \<Rightarrow> u8 list \<Rightarrow> u32 \<times> u8 list \<times> log_reader \<Rightarrow> bool" where
  "got D p t x f res \<longleftrightarrow> (case res of (t', f', r') \<Rightarrow> quiet r' \<and>
     (if p \<le> length D then t' = of_nat t \<and> f' = x \<and> reading D p r' else t' = kEof \<and> f' = f))"

lemma reading_parse:
  assumes r: "reading D p r" and a: "ahead D p (physical t x @ L)"
    and o: "off \<le> kBlockSize" "p mod kBlockSize = off mod kBlockSize" "base off + kHeaderSize + length x \<le> kBlockSize"
    and t: "0 < t" "t < 5" and b: "kHeaderSize \<le> length (lr_buffer r)"
  shows "pad off = 0" "got D (p + kHeaderSize + length x) t x f (parse_physical r f)"
proof -
  have q: "quiet r" using r by (simp add: reading_def)
  have D: "lr_buffer r @ pf_data (lr_file r) = drop p D" "p \<le> length D" using r by (simp_all add: reading_def)
  have bo: "length (lr_buffer r) \<le> kBlockSize - p mod kBlockSize" by (rule reading_block [OF r])
  show p0: "pad off = 0"
    using bo b o(1,2) by (cases "off = kBlockSize") (auto simp: pad_def)
  have base: "base off = p mod kBlockSize"
    using bo b o(1,2) by (cases "off = kBlockSize") (auto simp: base_def)
  have buf: "lr_buffer r = take (length (lr_buffer r)) (physical t x @ L)"
    using D a unfolding ahead_def by (metis (no_types, lifting) append_eq_conv_conj append_take_drop_id length_drop min_def take_take le_cases take_all)
  have e: "kHeaderSize + length x \<le> length (lr_buffer r) \<longleftrightarrow> p + kHeaderSize + length x \<le> length D"
    if "lr_eof r"
    using reading_buffer [OF r that] D(2) by auto
  have ne: "kHeaderSize + length x \<le> length (lr_buffer r)" if "\<not> lr_eof r"
    using reading_full [OF r that _ b] o(3) base by simp
  let ?r = "r\<lparr>lr_buffer := drop (kHeaderSize + length x) (lr_buffer r)\<rparr>"
  have pp: "parse_physical r f = (if kHeaderSize + length x \<le> length (lr_buffer r) then (of_nat t, x, ?r)
      else (kEof, f, r\<lparr>lr_buffer := []\<rparr>))"
    using buf b q t ne o(3) by (intro parse_physical_good) auto
  show "got D (p + kHeaderSize + length x) t x f (parse_physical r f)"
  proof (cases "kHeaderSize + length x \<le> length (lr_buffer r)")
    case False
    then show ?thesis using pp e ne q by (auto simp: quiet_def got_def)
  next
    case True
    then have "p + (kHeaderSize + length x) \<le> length D" "reading D (p + (kHeaderSize + length x)) ?r"
      using reading_drop [OF r, of "kHeaderSize + length x"] by auto
    moreover have "quiet ?r" using q by (simp add: quiet_def)
    ultimately show ?thesis using pp True by (simp add: add.assoc got_def)
  qed
qed

lemma ReadPhysicalRecord_eof:
  "lr_eof r \<Longrightarrow> length (lr_buffer r) < kHeaderSize \<Longrightarrow> ReadPhysicalRecord r f = (kEof, f, r\<lparr>lr_buffer := []\<rparr>)"
  by (subst ReadPhysicalRecord.simps) simp

lemma ReadPhysicalRecord_parse:
  "kHeaderSize \<le> length (lr_buffer r) \<Longrightarrow> ReadPhysicalRecord r f = parse_physical r f"
  by (subst ReadPhysicalRecord.simps) simp

lemma refill_quiet:
  assumes "quiet r" "\<not> lr_eof r"
  shows "\<exists>r'. refill r = (True, r') \<and> lr_buffer r' = take kBlockSize (pf_data (lr_file r)) \<and>
    pf_data (lr_file r') = drop kBlockSize (pf_data (lr_file r)) \<and>
    lr_eof r' = (length (pf_data (lr_file r)) < kBlockSize) \<and> quiet r'"
proof -
  obtain d where d: "lr_file r = \<lparr>pf_data = d, pf_errs = []\<rparr>" using assms(1) by (cases "lr_file r") (simp add: quiet_def)
  show ?thesis
  proof (cases "length d < kBlockSize")
    case True
    then show ?thesis using assms d by (simp add: refill_def Let_def quiet_def)
  next
    case False
    then show ?thesis using assms d by (simp add: refill_def Let_def quiet_def min_def)
  qed
qed

lemma reading_refill:
  assumes "reading D p r" "\<not> lr_eof r" "length (lr_buffer r) < kHeaderSize"
  defines "q \<equiv> p + length (lr_buffer r)"
  shows "\<exists>r'. ReadPhysicalRecord r f = ReadPhysicalRecord r' f \<and> reading D q r' \<and> q mod kBlockSize = 0 \<and>
    (lr_eof r' \<or> length (lr_buffer r') = kBlockSize)"
proof -
  let ?d = "pf_data (lr_file r)"
  obtain r' where r': "refill r = (True, r')" "lr_buffer r' = take kBlockSize ?d" "pf_data (lr_file r') = drop kBlockSize ?d"
    "lr_eof r' = (length ?d < kBlockSize)" "quiet r'"
    using refill_quiet [of r] assms(1,2) unfolding reading_def by blast
  have "lr_buffer r @ ?d = drop p D" using assms(1) by (simp add: reading_def)
  then have d: "?d = drop q D" unfolding q_def by (metis add.commute append_eq_conv_conj drop_drop)
  have "length (lr_buffer r) + length ?d = length D - p" "p \<le> length D"
    using assms(1) unfolding reading_def by (metis length_append length_drop)+
  then have q: "q \<le> length D" unfolding q_def by linarith
  have "p mod kBlockSize + length (lr_buffer r) = kBlockSize \<or> p mod kBlockSize + length (lr_buffer r) = 0"
    using assms(1-3) by (cases "p mod kBlockSize = 0") (auto simp: reading_def)
  then have m: "q mod kBlockSize = 0" unfolding q_def using mod_step [of p "length (lr_buffer r)"] by auto
  have "reading D q r'"
    using r' q m d append_take_drop_id [of kBlockSize "drop q D"] by (auto simp: reading_def)
  moreover have "ReadPhysicalRecord r f = ReadPhysicalRecord r' f"
    using assms(2,3) r'(1) by (subst ReadPhysicalRecord.simps) simp
  ultimately show ?thesis using m r'(2,4) by auto
qed

lemma ReadPhysicalRecord_got:
  assumes r: "reading D p r" and a: "ahead D p (layout off ((t, x) # xs) @ L)"
    and o: "p mod kBlockSize = off mod kBlockSize" and fit: "fits off ((t, x) # xs)"
  shows "got D (p + pad off + kHeaderSize + length x) t x f (ReadPhysicalRecord r f)"
proof -
  have fit': "off \<le> kBlockSize" "base off + kHeaderSize + length x \<le> kBlockSize" "0 < t" "t < 5" using fit by simp_all
  have in_block: "got D (q + kHeaderSize + length x) t x f (ReadPhysicalRecord r f)"
    if q: "reading D q r" "ahead D q (physical t x @ L)" "o' \<le> kBlockSize" "q mod kBlockSize = o' mod kBlockSize"
      "base o' + kHeaderSize + length x \<le> kBlockSize" "lr_eof r \<or> kHeaderSize \<le> length (lr_buffer r)" for q r o' L
  proof (cases "kHeaderSize \<le> length (lr_buffer r)")
    case True
    then show ?thesis using reading_parse(2) [OF q(1-5) fit'(3,4) True] by (simp add: ReadPhysicalRecord_parse)
  next
    case False
    then show ?thesis
      using q(1,6) reading_buffer [OF q(1)] by (auto simp: ReadPhysicalRecord_eof got_def quiet_def reading_def)
  qed
  show ?thesis
  proof (cases "kHeaderSize \<le> length (lr_buffer r)")
    case True
    then have p0: "pad off = 0"
      using reading_block [OF r] o fit'(1) by (cases "off = kBlockSize") (auto simp: pad_def)
    then show ?thesis
      using in_block [OF r _ fit'(1) o fit'(2)] a True by auto
  next
    case short: False
    show ?thesis
    proof (cases "lr_eof r")
      case True
      then show ?thesis
        using short r reading_buffer [OF r] by (auto simp: ReadPhysicalRecord_eof got_def quiet_def reading_def)
    next
      case False
      have len: "length (lr_buffer r) = pad off" "off = 0 \<or> base off = 0"
        using r False short o fit'(1)
        by (cases "off = kBlockSize"; cases "off = 0"; auto simp: reading_def pad_def base_def)+
      obtain r' where r': "ReadPhysicalRecord r f = ReadPhysicalRecord r' f" "reading D (p + pad off) r'"
        "(p + pad off) mod kBlockSize = 0" "lr_eof r' \<or> length (lr_buffer r') = kBlockSize"
        using reading_refill [OF r False, of f] short unfolding len(1) by auto
      have "p + pad off \<le> length D" using r'(2) by (simp add: reading_def)
      then have "ahead D (p + pad off) (physical t x @ layout (base off + kHeaderSize + length x) xs @ L)"
        using ahead_append [of D p "replicate (pad off) 0"] a by simp
      then show ?thesis using in_block [OF r'(2), of _ 0] r' fit'(2) len(2) by (auto simp: base_def)
    qed
  qed
qed


section \<open>Reading records\<close>

definition got_record :: "u8 list \<Rightarrow> nat \<Rightarrow> u8 list \<Rightarrow> u8 list option \<times> u8 list \<times> log_reader \<Rightarrow> bool" where
  "got_record D p x res \<longleftrightarrow> (case res of (out, s, r') \<Rightarrow> quiet r' \<and>
     (if p \<le> length D then out = Some x \<and> reading D p r' else out = None))"

lemma reading_quiet: "reading D p r \<Longrightarrow> quiet r"
  by (simp add: reading_def)

lemma reading_offset [simp]: "reading D p (r\<lparr>lr_last_record_offset := n\<rparr>) = reading D p r"
  "quiet (r\<lparr>lr_last_record_offset := n\<rparr>) = quiet r"
  by (simp_all add: reading_def quiet_def)

lemma ReadRecord_loop_step:
  assumes "ReadPhysicalRecord r f = (t, x, r')" "quiet r'"
  shows "t = kEof \<Longrightarrow> ReadRecord_loop r b pro s f = (None, if b then [] else s, r')"
    "t = 1 \<Longrightarrow> \<not> b \<Longrightarrow> \<exists>n. ReadRecord_loop r b pro s f = (Some x, [], r'\<lparr>lr_last_record_offset := n\<rparr>)"
    "t = 2 \<Longrightarrow> \<not> b \<Longrightarrow> \<exists>n. ReadRecord_loop r b pro s f = ReadRecord_loop r' True n x x"
    "t = 3 \<Longrightarrow> b \<Longrightarrow> ReadRecord_loop r b pro s f = ReadRecord_loop r' b pro (s @ x) x"
    "t = 4 \<Longrightarrow> b \<Longrightarrow> ReadRecord_loop r b pro s f = (Some (s @ x), s @ x, r'\<lparr>lr_last_record_offset := pro\<rparr>)"
  using assms by (subst ReadRecord_loop.simps; auto simp: Let_def partial_without_end_def quiet_def)+

lemma next_fragment:
  assumes a: "ahead D p (layout off ((t, x) # xs) @ L)" and o: "p mod kBlockSize = off mod kBlockSize"
    and fit: "fits off ((t, x) # xs)"
  defines "q \<equiv> p + pad off + kHeaderSize + length x" and "o' \<equiv> base off + kHeaderSize + length x"
  shows "q \<le> length D \<Longrightarrow> ahead D q (layout o' xs @ L)" "q mod kBlockSize = o' mod kBlockSize" "fits o' xs"
    "p + length (layout off ((t, x) # xs)) = q + length (layout o' xs)"
proof -
  show "ahead D q (layout o' xs @ L)" if "q \<le> length D"
    using ahead_append [of D p "replicate (pad off) 0 @ physical t x"] a that by (simp add: q_def o'_def add.assoc)
  have "(p + pad off) mod kBlockSize = (off + pad off) mod kBlockSize" using o by (metis mod_add_left_eq)
  then have "(p + pad off) mod kBlockSize = base off mod kBlockSize" using pad_mod fit by simp
  then have "(p + pad off + (kHeaderSize + length x)) mod kBlockSize = (base off + (kHeaderSize + length x)) mod kBlockSize"
    by (metis mod_add_left_eq)
  then show "q mod kBlockSize = o' mod kBlockSize" by (simp add: q_def o'_def add.assoc)
  show "fits o' xs" "p + length (layout off ((t, x) # xs)) = q + length (layout o' xs)" using fit by (simp_all add: q_def o'_def)
qed

lemma ReadRecord_loop_rest:
  assumes "reading D p r" "ahead D p (layout off (map (Pair 3) ms @ [(4, l)]) @ L)" "p mod kBlockSize = off mod kBlockSize"
    "fits off (map (Pair 3) ms @ [(4, l)])"
  shows "got_record D (p + length (layout off (map (Pair 3) ms @ [(4, l)]))) (s @ concat ms @ l) (ReadRecord_loop r True pro s f)"
  using assms
proof (induction ms arbitrary: p r off s f)
  case Nil
  let ?q = "p + pad off + kHeaderSize + length l"
  obtain t x r' where p: "ReadPhysicalRecord r f = (t, x, r')" by (cases "ReadPhysicalRecord r f") auto
  then have g: "got D ?q 4 l f (t, x, r')" using ReadPhysicalRecord_got [of D p r off 4 l "[]" L f] Nil by simp
  then show ?case
    using ReadRecord_loop_step(1,5) [OF p, of True pro s] unfolding got_def got_record_def
    by (cases "?q \<le> length D") (auto simp: add.assoc)
next
  case (Cons m ms)
  let ?q = "p + pad off + kHeaderSize + length m" let ?o = "base off + kHeaderSize + length m"
  let ?xs = "map (Pair 3) ms @ [(4, l)]"
  note c = Cons.prems [unfolded list.map append_Cons]
  note n = next_fragment [OF c(2-4)]
  have le: "p + length (layout off ((3, m) # ?xs)) = ?q + length (layout ?o ?xs)" by (rule n(4))
  obtain t x r' where p: "ReadPhysicalRecord r f = (t, x, r')" by (cases "ReadPhysicalRecord r f") auto
  then have g: "got D ?q 3 m f (t, x, r')" using ReadPhysicalRecord_got [OF c(1-4), of f] by simp
  show ?case
  proof (cases "?q \<le> length D")
    case True
    then have r': "t = 3" "x = m" "reading D ?q r'" "quiet r'" using g by (simp_all add: got_def)
    have "got_record D (?q + length (layout ?o ?xs)) ((s @ m) @ concat ms @ l) (ReadRecord_loop r' True pro (s @ m) m)"
      by (rule Cons.IH [OF r'(3) n(1) [OF True] n(2,3)])
    then show ?thesis
      using ReadRecord_loop_step(4) [OF p r'(4,1), of True pro s] le r'(2) by (simp add: add.assoc)
  next
    case False
    then have "t = kEof" "quiet r'" using g by (simp_all add: got_def)
    then show ?thesis using ReadRecord_loop_step(1) [OF p, of True pro s] False le by (simp add: got_record_def)
  qed
qed

lemma ReadRecord_got:
  assumes r: "reading D p r" and a: "ahead D p (layout off xs @ L)" and o: "p mod kBlockSize = off mod kBlockSize"
    and fit: "fits off xs" and x: "record_of x xs"
  shows "got_record D (p + length (layout off xs)) x (ReadRecord r [])"
proof -
  have rr: "ReadRecord r [] = ReadRecord_loop r False 0 [] []" using reading_quiet [OF r] by (simp add: ReadRecord_def quiet_def)
  obtain t f' r' where p: "ReadPhysicalRecord r [] = (t, f', r')" by (cases "ReadPhysicalRecord r []") auto
  from x consider "xs = [(1, x)]" | m ys d where "xs = (2, m) # ys" "rest_of d ys" "x = m @ d" unfolding record_of_def by blast
  then show ?thesis
  proof cases
    case 1
    let ?q = "p + pad off + kHeaderSize + length x"
    have g: "got D ?q 1 x [] (t, f', r')" using ReadPhysicalRecord_got [of D p r off 1 x "[]" L "[]"] r a o fit p 1 by simp
    then have q: "quiet r'" by (simp add: got_def)
    show ?thesis
      using g ReadRecord_loop_step(1,2) [OF p q, of False 0 "[]"] 1 q rr unfolding got_def got_record_def
      by (cases "?q \<le> length D") (auto simp: add.assoc)
  next
    case (2 m ys d)
    let ?q = "p + pad off + kHeaderSize + length m" let ?o = "base off + kHeaderSize + length m"
    note c = a [unfolded 2(1)] o fit [unfolded 2(1)]
    note n = next_fragment [OF c]
    have g: "got D ?q 2 m [] (t, f', r')" using ReadPhysicalRecord_got [OF r c, of "[]"] p by simp
    then have q: "quiet r'" by (simp add: got_def)
    have le: "p + length (layout off xs) = ?q + length (layout ?o ys)" unfolding 2(1) by (rule n(4))
    obtain ms l where ms: "ys = map (Pair 3) ms @ [(4, l)]" "d = concat ms @ l" using 2(2) unfolding rest_of_def by blast
    show ?thesis
    proof (cases "?q \<le> length D")
      case True
      then have r': "t = 2" "f' = m" "reading D ?q r'" using g by (simp_all add: got_def)
      obtain k where k: "ReadRecord_loop r False 0 [] [] = ReadRecord_loop r' True k m m"
        using ReadRecord_loop_step(3) [OF p q r'(1), of False 0 "[]"] r'(2) by auto
      have "got_record D (?q + length (layout ?o ys)) (m @ d) (ReadRecord_loop r' True k m m)"
        using ReadRecord_loop_rest [OF r'(3), of ?o ms l L m k m] n(1) [OF True] n(2,3) unfolding ms by simp
      then show ?thesis unfolding rr k le 2(3) .
    next
      case False
      then have "t = kEof" using g by (simp add: got_def)
      then show ?thesis using ReadRecord_loop_step(1) [OF p q, of False 0 "[]"] False le q rr by (simp add: got_record_def)
    qed
  qed
qed

text \<open>The records that a file holds completely are read, and no other.\<close>

lemma takeWhile_upt_Suc: "length (takeWhile P [0..<Suc n]) = (if P 0 then Suc (length (takeWhile (\<lambda>i. P (Suc i)) [0..<n])) else 0)"
  by (simp add: upt_conv_Cons map_Suc_upt [symmetric] takeWhile_map o_def del: upt_Suc)

lemma ReadPhysicalRecord_end:
  assumes r: "reading D p r" and p: "length D = p"
  shows "\<exists>r'. ReadPhysicalRecord r f = (kEof, f, r') \<and> quiet r'"
proof -
  have b: "lr_buffer r = []" "quiet r" using r p by (simp_all add: reading_def)
  show ?thesis
  proof (cases "lr_eof r")
    case True
    then show ?thesis using b by (auto simp: ReadPhysicalRecord_eof quiet_def)
  next
    case False
    obtain r' where r': "ReadPhysicalRecord r f = ReadPhysicalRecord r' f" "reading D p r'"
      "lr_eof r' \<or> length (lr_buffer r') = kBlockSize"
      using reading_refill [OF r False, of f] b(1) by auto
    moreover from this have "lr_buffer r' = []" using p by (simp add: reading_def)
    ultimately show ?thesis by (auto simp: ReadPhysicalRecord_eof quiet_def reading_def)
  qed
qed

lemma ReadRecords_got:
  assumes "reading D p r" "ahead D p (layout off (concat xss))" "p mod kBlockSize = off mod kBlockSize"
    "fits off (concat xss)" "list_all2 record_of rs xss"
  shows "\<exists>r'. ReadRecords (Suc (length rs)) r =
    (take (length (takeWhile (\<lambda>i. p + length (layout off (concat (take (Suc i) xss))) \<le> length D) [0..<length rs])) rs, r') \<and>
    quiet r'"
  using assms(5,1-4)
proof (induction rs xss arbitrary: p off r rule: list_all2_induct)
  case Nil
  have "length D = p" using Nil(1,2) by (simp add: ahead_def)
  then obtain r0 where r0: "ReadPhysicalRecord r [] = (kEof, [], r0)" "quiet r0"
    using ReadPhysicalRecord_end [OF Nil(1)] by auto
  then show ?case
    using ReadRecord_loop_step(1) [OF r0 refl, of False 0 "[]"] reading_quiet [OF Nil(1)]
    by (simp add: ReadRecord_def quiet_def)
next
  case (Cons x rs xs xss)
  let ?q = "p + length (layout off xs)" let ?o = "after off xs"
  have fit: "fits off xs" "fits ?o (concat xss)" using Cons.prems(4) by (simp_all add: fits_append)
  have a: "ahead D p (layout off xs @ layout ?o (concat xss))" using Cons.prems(2) by (simp add: layout_append)
  obtain out s r' where rr: "ReadRecord r [] = (out, s, r')" by (cases "ReadRecord r []") auto
  then have g: "got_record D ?q x (out, s, r')"
    using ReadRecord_got [OF Cons.prems(1) a Cons.prems(3) fit(1) Cons.hyps(1)] by simp
  show ?case
  proof (cases "?q \<le> length D")
    case False
    then show ?thesis using g rr by (simp add: takeWhile_upt_Suc got_record_def del: upt_Suc)
  next
    case True
    then have r': "out = Some x" "reading D ?q r'" using g by (simp_all add: got_record_def)
    have "?q mod kBlockSize = (off + length (layout off xs)) mod kBlockSize"
      using Cons.prems(3) by (metis mod_add_left_eq)
    then have m: "?q mod kBlockSize = ?o mod kBlockSize" using layout_mod [OF fit(1)] by simp
    obtain r'' where r'': "ReadRecords (Suc (length rs)) r' =
        (take (length (takeWhile (\<lambda>i. ?q + length (layout ?o (concat (take (Suc i) xss))) \<le> length D) [0..<length rs])) rs, r'')"
      "quiet r''"
      using Cons.IH [OF r'(2) ahead_append [OF a True] m fit(2)] by blast
    show ?thesis
      using rr r'(1) r'' True
      by (simp add: takeWhile_upt_Suc layout_append add.assoc del: upt_Suc ReadRecords.simps(2) add: ReadRecords.simps(2) [of "Suc k" for k])
  qed
qed

text \<open>The bytes of a log that the writer has written from an empty file.\<close>

definition log_of :: "u8 list list \<Rightarrow> u8 list" where
  "log_of rs = pf_data (lw_dest (snd (AddRecords (Writer \<lparr>pf_data = [], pf_errs = []\<rparr>) rs)))"

text \<open>
  C3: a crash that leaves any number of bytes of a log loses no complete record and invents none.
  Of the file that \<open>AddRecord\<close> wrote for the records \<open>rs\<close>, whatever their sizes, take the first
  \<open>n\<close> bytes: a reader returns in order exactly the records before the first one whose bytes are
  not all there, then the end of the file, and reports no corruption.
\<close>

theorem log_crash_recovery:
  "\<exists>r'. ReadRecords (Suc (length rs)) (Reader \<lparr>pf_data = take n (log_of rs), pf_errs = []\<rparr> True checksum 0) =
    (take (length (takeWhile (\<lambda>i. length (log_of (take (Suc i) rs)) \<le> n) [0..<length rs])) rs, r') \<and> lr_reports r' = []"
proof -
  let ?D = "take n (log_of rs)"
  let ?w = "Writer \<lparr>pf_data = [], pf_errs = []\<rparr>" let ?r = "Reader \<lparr>pf_data = ?D, pf_errs = []\<rparr> True checksum 0"
  have "writing [] 0 ?w" by (simp add: writing_def Writer_def)
  then obtain xss where xss: "list_all2 record_of rs xss" "fits 0 (concat xss)"
    "\<And>j. j \<le> length rs \<Longrightarrow> log_of (take j rs) = layout 0 (concat (take j xss))"
    using AddRecords_writing [of "[]" 0 ?w rs] unfolding log_of_def writing_def by auto
  have len: "length xss = length rs" using xss(1) by (simp add: list_all2_lengthD)
  have all: "log_of rs = layout 0 (concat xss)" using xss(3) [of "length rs"] len by simp
  have r: "reading ?D 0 ?r" by (simp add: reading_def quiet_def Reader_def)
  have a: "ahead ?D 0 (layout 0 (concat xss))" unfolding all by (auto simp: ahead_def min_def)
  have "takeWhile (\<lambda>i. length (layout 0 (concat (take (Suc i) xss))) \<le> length ?D) [0..<length rs] =
      takeWhile (\<lambda>i. length (log_of (take (Suc i) rs)) \<le> n) [0..<length rs]"
  proof (rule takeWhile_cong [OF refl])
    fix i assume "i \<in> set [0..<length rs]"
    then have i: "log_of (take (Suc i) rs) = layout 0 (concat (take (Suc i) xss))" using xss(3) by simp
    have "concat xss = concat (take (Suc i) xss) @ concat (drop (Suc i) xss)" by (metis append_take_drop_id concat_append)
    then have "length (layout 0 (concat (take (Suc i) xss))) \<le> length (log_of rs)"
      unfolding all by (simp add: layout_append)
    then show "(length (layout 0 (concat (take (Suc i) xss))) \<le> length ?D) = (length (log_of (take (Suc i) rs)) \<le> n)"
      unfolding i by auto
  qed
  then show ?thesis using ReadRecords_got [OF r a refl xss(2,1)] unfolding quiet_def by auto
qed

end
