(* ===== verification/Bloom.thy ===== *)
theory Bloom
  imports Coding
begin


text \<open>
  Hashing and Bloom filters of LevelDB (\<open>util/hash.cc\<close>, \<open>util/bloom.cc\<close>).
\<close>

section \<open>Hash\<close>

fun hash_words :: "u8 list \<Rightarrow> u32 \<Rightarrow> u32 \<times> u8 list" where
  "hash_words (a # b # c # d # data) h =
    (let w = DecodeFixed32 [a, b, c, d];
         h = h + w;
         h = h * 0xc6a4a793;
         h = h XOR drop_bit 16 h
     in hash_words data h)"
| "hash_words data h = (h, data)"

definition Hash :: "u8 list \<Rightarrow> u32 \<Rightarrow> u32" where
  "Hash data seed =
    (let m = 0xc6a4a793;
         h = seed XOR (of_nat (length data) * m);
         (h, data) = hash_words data h
     in if data = [] then h
        else
          let h = (if length data = 3 then h + push_bit 16 (ucast (data ! 2)) else h);
              h = (if length data \<ge> 2 then h + push_bit 8 (ucast (data ! 1)) else h);
              h = h + ucast (data ! 0);
              h = h * m
          in h XOR drop_bit 24 h)"

definition BloomHash :: "u8 list \<Rightarrow> u32" where
  "BloomHash key = Hash key 0xbc9f1d34"

section \<open>Bloom filters\<close>

record bloom_policy =
  bp_bits_per_key :: size_t
  bp_k :: size_t

text \<open>
  \<open>bits_per_key * 0.69\<close> rounded down; the product of a \<open>double\<close> differs from the exact one by less
  than the distance to an integer below 100, and the result is cut at 30.
\<close>

definition BloomFilterPolicy :: "nat \<Rightarrow> bloom_policy" where
  "BloomFilterPolicy bits_per_key =
    (let k = bits_per_key * 69 div 100;
         k = (if k < 1 then 1 else k);
         k = (if k > 30 then 30 else k)
     in \<lparr>bp_bits_per_key = bits_per_key, bp_k = k\<rparr>)"

text \<open>The positions that a key probes.\<close>

definition bloom_delta :: "u32 \<Rightarrow> u32" where
  "bloom_delta h = drop_bit 17 h OR push_bit 15 h"

text \<open>\<open>array\<close> is the list of the bytes from \<open>init_size\<close> on.\<close>

fun set_probes :: "nat \<Rightarrow> nat \<Rightarrow> u32 \<Rightarrow> u32 \<Rightarrow> u8 list \<Rightarrow> u8 list" where
  "set_probes 0 bits delta h array = array"
| "set_probes (Suc j) bits delta h array =
    (let bitpos = unat h mod bits in
     set_probes j bits delta (h + delta) (array[bitpos div 8 := array ! (bitpos div 8) OR push_bit (bitpos mod 8) 1]))"

fun set_keys :: "nat \<Rightarrow> nat \<Rightarrow> u8 list list \<Rightarrow> u8 list \<Rightarrow> u8 list" where
  "set_keys k bits [] array = array"
| "set_keys k bits (key # keys) array =
    (let h = BloomHash key in set_keys k bits keys (set_probes k bits (bloom_delta h) h array))"

definition CreateFilter :: "bloom_policy \<Rightarrow> u8 list list \<Rightarrow> u8 list \<Rightarrow> u8 list" where
  "CreateFilter pol keys dst =
    (let bits = size_mul (length keys) (bp_bits_per_key pol);
         bits = (if bits < 64 then 64 else bits);
         bytes = size_add bits 7 div 8;
         bits = size_mul bytes 8;
         array = replicate bytes 0
     in dst @ set_keys (bp_k pol) bits keys array @ [of_nat (bp_k pol)])"

fun check_probes :: "nat \<Rightarrow> nat \<Rightarrow> u32 \<Rightarrow> u32 \<Rightarrow> u8 list \<Rightarrow> bool" where
  "check_probes 0 bits delta h array = True"
| "check_probes (Suc j) bits delta h array =
    (let bitpos = unat h mod bits in
     if array ! (bitpos div 8) AND push_bit (bitpos mod 8) 1 = 0 then False
     else check_probes j bits delta (h + delta) array)"

definition KeyMayMatch :: "u8 list \<Rightarrow> u8 list \<Rightarrow> bool" where
  "KeyMayMatch key bloom_filter =
    (let len = length bloom_filter in
     if len < 2 then False
     else
       let array = bloom_filter;
           bits = (len - 1) * 8;
           k = unat (array ! (len - 1)) in
       if k > 30 then True
       else let h = BloomHash key in check_probes k bits (bloom_delta h) h array)"

section \<open>No false negatives\<close>

text \<open>Bits are only added.\<close>

definition more_bits :: "u8 list \<Rightarrow> u8 list \<Rightarrow> bool" where
  "more_bits a b \<longleftrightarrow> length a = length b \<and> (\<forall>i < length a. \<forall>n. bit (a ! i) n \<longrightarrow> bit (b ! i) n)"

lemma more_bits_refl [simp]: "more_bits a a"
  by (simp add: more_bits_def)

lemma more_bits_trans: "more_bits a b \<Longrightarrow> more_bits b c \<Longrightarrow> more_bits a c"
  by (simp add: more_bits_def)

lemma more_bits_or: "more_bits a (a[i := a ! i OR x])"
  unfolding more_bits_def
proof (intro conjI allI impI)
  fix j n assume "j < length a" "bit (a ! j) n"
  then show "bit (a[i := a ! i OR x] ! j) n" by (cases "j = i") (simp_all add: bit_or_iff)
qed simp

lemma set_probes_more: "more_bits a (set_probes j bits delta h a)"
proof (induction j arbitrary: h a)
  case (Suc j)
  show ?case unfolding set_probes.simps Let_def by (rule more_bits_trans [OF more_bits_or Suc])
qed simp

lemma set_keys_more: "more_bits a (set_keys k bits keys a)"
proof (induction keys arbitrary: a)
  case (Cons key keys)
  show ?case unfolding set_keys.simps Let_def by (rule more_bits_trans [OF set_probes_more Cons])
qed simp

lemma check_probes_Suc:
  "check_probes (Suc j) bits delta h a \<longleftrightarrow>
     bit (a ! (unat h mod bits div 8)) (unat h mod bits mod 8) \<and> check_probes j bits delta (h + delta) a"
  by (auto simp: Let_def bit_iff_and_push_bit_not_eq_0)

lemma probe_lt: "bits = 8 * length a \<Longrightarrow> 0 < bits \<Longrightarrow> unat h mod bits div 8 < length a"
  using mod_less_divisor [of bits "unat h"] by (simp add: less_mult_imp_div_less mult.commute)

lemma check_more:
  assumes "more_bits a b" "check_probes j bits delta h a" "bits = 8 * length a" "0 < bits"
  shows "check_probes j bits delta h (b @ ys)"
  using assms(2)
proof (induction j arbitrary: h)
  case (Suc j)
  have "unat h mod bits div 8 < length a" using assms(3,4) by (rule probe_lt)
  then have "bit ((b @ ys) ! (unat h mod bits div 8)) (unat h mod bits mod 8)"
    using Suc.prems assms(1) unfolding check_probes_Suc by (auto simp: more_bits_def nth_append)
  then show ?case using Suc unfolding check_probes_Suc by blast
qed simp

lemma set_check:
  assumes "bits = 8 * length a" "0 < bits"
  shows "check_probes j bits delta h (set_probes j bits delta h a)"
  using assms
proof (induction j arbitrary: h a)
  case (Suc j)
  let ?p = "unat h mod bits"
  let ?a = "a[?p div 8 := a ! (?p div 8) OR push_bit (?p mod 8) 1]"
  have p: "?p div 8 < length a" using Suc.prems by (rule probe_lt)
  have "bit (?a ! (?p div 8)) (?p mod 8)" using p by (simp add: bit_simps)
  then have "bit (set_probes j bits delta (h + delta) ?a ! (?p div 8)) (?p mod 8)"
    using set_probes_more [of ?a j bits delta "h + delta"] p by (simp add: more_bits_def)
  then show ?case using Suc.IH [of ?a "h + delta"] Suc.prems unfolding check_probes_Suc set_probes.simps Let_def by simp
qed simp

lemma set_keys_check:
  assumes "key \<in> set keys" "bits = 8 * length a" "0 < bits"
  shows "check_probes k bits (bloom_delta (BloomHash key)) (BloomHash key) (set_keys k bits keys a @ ys)"
  using assms
proof (induction keys arbitrary: a)
  case (Cons x keys)
  let ?a = "set_probes k bits (bloom_delta (BloomHash x)) (BloomHash x) a"
  have len: "length ?a = length a" using set_probes_more [of a] by (simp add: more_bits_def)
  show ?case
  proof (cases "x = key")
    case True
    have "check_probes k bits (bloom_delta (BloomHash key)) (BloomHash key) ?a"
      using set_check [OF Cons.prems(2,3)] unfolding True .
    from check_more [OF set_keys_more this] show ?thesis using Cons.prems len by (simp add: Let_def)
  next
    case False
    then show ?thesis using Cons.IH [of ?a] Cons.prems len by (simp add: Let_def)
  qed
qed simp

lemma CreateFilter_matches:
  assumes "key \<in> set keys" "length keys < 2 ^ 31" "bits_per_key < 2 ^ 31"
  shows "\<exists>filter. CreateFilter (BloomFilterPolicy bits_per_key) keys dst = dst @ filter \<and> KeyMayMatch key filter"
proof -
  let ?pol = "BloomFilterPolicy bits_per_key"
  define bits where "bits = (if length keys * bits_per_key < 64 then 64 else length keys * bits_per_key)"
  define bytes where "bytes = (bits + 7) div 8"
  have k: "bp_k ?pol \<le> 30" "bp_bits_per_key ?pol = bits_per_key" by (simp_all add: BloomFilterPolicy_def Let_def)
  have "length keys * bits_per_key \<le> 2 ^ 31 * 2 ^ 31" using assms(2,3) by (intro mult_mono) simp_all
  then have le: "length keys * bits_per_key \<le> 4611686018427387904" by simp
  then have small: "size_mul (length keys) bits_per_key = length keys * bits_per_key" "size_add bits 7 = bits + 7"
    "size_mul bytes 8 = bytes * 8"
    by (simp_all add: bits_def bytes_def size_mul_def size_add_def)
  have "64 \<le> bits" by (simp add: bits_def)
  then have pos: "0 < bytes" by (simp add: bytes_def div_greater_zero_iff)
  let ?f = "set_keys (bp_k ?pol) (bytes * 8) keys (replicate bytes 0)"
  have len: "length ?f = bytes" using set_keys_more [of "replicate bytes 0"] by (simp add: more_bits_def)
  have c: "CreateFilter ?pol keys dst = dst @ (?f @ [of_nat (bp_k ?pol)])"
    unfolding CreateFilter_def Let_def k(2) small(1) bits_def [symmetric] small(2) bytes_def [symmetric] small(3) ..
  have "unat (of_nat (bp_k ?pol) :: u8) = bp_k ?pol" using k(1) by (simp add: unat_of_nat)
  moreover have "check_probes (bp_k ?pol) (bytes * 8) (bloom_delta (BloomHash key)) (BloomHash key) (?f @ [of_nat (bp_k ?pol)])"
    by (rule set_keys_check [OF assms(1)]) (simp_all add: pos)
  ultimately have "KeyMayMatch key (?f @ [of_nat (bp_k ?pol)])"
    using len pos k(1) by (simp add: KeyMayMatch_def Let_def nth_append)
  then show ?thesis using c by blast
qed

end
