(* ===== verification/Filter_block.thy ===== *)
theory Filter_block
  imports Bloom
begin




text \<open>
  Filter blocks of LevelDB (\<open>table/filter_block.cc\<close>): the filters of a table, one for each 2048 bytes of block offsets, on any
  filter policy.
\<close>

abbreviation kFilterBaseLg :: nat where "kFilterBaseLg \<equiv> 11"
abbreviation kFilterBase :: nat where "kFilterBase \<equiv> 2048"

record filter_builder =
  fb_keys :: "u8 list"
  fb_start :: "size_t list"
  fb_result :: "u8 list"
  fb_offsets :: "u32 list"

type_synonym create_fun = "u8 list list \<Rightarrow> u8 list \<Rightarrow> u8 list"
type_synonym match_fun = "u8 list \<Rightarrow> u8 list \<Rightarrow> bool"

definition FilterBlockBuilder :: filter_builder where
  "FilterBlockBuilder = \<lparr>fb_keys = [], fb_start = [], fb_result = [], fb_offsets = []\<rparr>"

definition GenerateFilter :: "create_fun \<Rightarrow> filter_builder \<Rightarrow> filter_builder" where
  "GenerateFilter create b =
    (let num_keys = length (fb_start b) in
     if num_keys = 0 then b\<lparr>fb_offsets := fb_offsets b @ [of_nat (length (fb_result b))]\<rparr>
     else
       let start = fb_start b @ [length (fb_keys b)];
           tmp_keys = map (\<lambda>i. take (start ! (i + 1) - start ! i) (drop (start ! i) (fb_keys b))) [0..<num_keys]
       in \<lparr>fb_keys = [], fb_start = [], fb_result = create tmp_keys (fb_result b),
           fb_offsets = fb_offsets b @ [of_nat (length (fb_result b))]\<rparr>)"

lemma length_offsets_Generate [simp]: "length (fb_offsets (GenerateFilter create b)) = Suc (length (fb_offsets b))"
  by (simp add: GenerateFilter_def Let_def)

function StartBlock :: "create_fun \<Rightarrow> nat \<Rightarrow> filter_builder \<Rightarrow> filter_builder" where
  "StartBlock create block_offset b =
    (let filter_index = block_offset div kFilterBase in
     if filter_index > length (fb_offsets b) then StartBlock create block_offset (GenerateFilter create b) else b)"
  by pat_completeness auto
termination by (relation "measure (\<lambda>(c, off, b). off div kFilterBase - length (fb_offsets b))") auto

declare StartBlock.simps [simp del]

definition AddKey :: "u8 list \<Rightarrow> filter_builder \<Rightarrow> filter_builder" where
  "AddKey key b = b\<lparr>fb_start := fb_start b @ [length (fb_keys b)], fb_keys := fb_keys b @ key\<rparr>"

definition FilterBlock_Finish :: "create_fun \<Rightarrow> filter_builder \<Rightarrow> u8 list" where
  "FilterBlock_Finish create b =
    (let b = (if fb_start b \<noteq> [] then GenerateFilter create b else b);
         array_offset = of_nat (length (fb_result b));
         result = fold (\<lambda>off result. PutFixed32 result off) (fb_offsets b) (fb_result b)
     in PutFixed32 result array_offset @ [of_nat kFilterBaseLg])"

record filter_reader =
  fr_data :: "u8 list"
  fr_offset :: nat
  fr_num :: nat
  fr_base_lg :: nat

definition FilterBlockReader :: "u8 list \<Rightarrow> filter_reader" where
  "FilterBlockReader contents =
    (let n = length contents; none = \<lparr>fr_data = [], fr_offset = 0, fr_num = 0, fr_base_lg = 0\<rparr> in
     if n < 5 then none
     else
       let base_lg = unat (contents ! (n - 1));
           last_word = unat (DecodeFixed32 (drop (n - 5) contents)) in
       if last_word > n - 5 then none\<lparr>fr_base_lg := base_lg\<rparr>
       else \<lparr>fr_data = contents, fr_offset = last_word, fr_num = (n - 5 - last_word) div 4, fr_base_lg = base_lg\<rparr>)"

definition FilterBlock_KeyMayMatch :: "match_fun \<Rightarrow> filter_reader \<Rightarrow> nat \<Rightarrow> u8 list \<Rightarrow> bool" where
  "FilterBlock_KeyMayMatch match r block_offset key =
    (let index = drop_bit (fr_base_lg r) block_offset in
     if index < fr_num r then
       let start = unat (DecodeFixed32 (drop (fr_offset r + index * 4) (fr_data r)));
           limit = unat (DecodeFixed32 (drop (fr_offset r + index * 4 + 4) (fr_data r))) in
       if start \<le> limit \<and> limit \<le> fr_offset r then match key (take (limit - start) (drop start (fr_data r)))
       else if start = limit then False
       else True
     else True)"

text \<open>A table is a sequence of blocks with their offsets and keys.\<close>

definition add_block :: "create_fun \<Rightarrow> nat \<times> u8 list list \<Rightarrow> filter_builder \<Rightarrow> filter_builder" where
  "add_block create blk b = (case blk of (off, keys) \<Rightarrow> fold AddKey keys (StartBlock create off b))"

definition filter_block_of :: "create_fun \<Rightarrow> (nat \<times> u8 list list) list \<Rightarrow> u8 list" where
  "filter_block_of create blks = FilterBlock_Finish create (fold (add_block create) blks FilterBlockBuilder)"

section \<open>What the builder has built\<close>

definition pending :: "u8 list list \<Rightarrow> filter_builder \<Rightarrow> bool" where
  "pending ks b \<longleftrightarrow> fb_keys b = concat ks \<and> fb_start b = map (\<lambda>i. length (concat (take i ks))) [0..<length ks]"

definition offsets_of :: "u8 list list \<Rightarrow> u32 list" where
  "offsets_of fs = map (\<lambda>i. of_nat (length (concat (take i fs)))) [0..<length fs]"

text \<open>The contract of a filter policy.\<close>

locale filter_policy =
  fixes create :: create_fun and match :: match_fun
  assumes no_false_negatives: "key \<in> set keys \<Longrightarrow> length keys < 2 ^ 31 \<Longrightarrow> \<exists>f. create keys dst = dst @ f \<and> match key f"
begin

definition built :: "filter_builder \<Rightarrow> u8 list list \<Rightarrow> (nat \<times> u8 list) list \<Rightarrow> u8 list list \<Rightarrow> bool" where
  "built b fs added ks \<longleftrightarrow> fb_result b = concat fs \<and> fb_offsets b = offsets_of fs \<and> pending ks b \<and>
     (\<forall>(off, key) \<in> set added. (off div kFilterBase < length fs \<and> match key (fs ! (off div kFilterBase))) \<or>
        (off div kFilterBase = length fs \<and> key \<in> set ks))"

end

lemma take_concat_step:
  "i < length ks \<Longrightarrow> take (length (concat (take (Suc i) ks)) - length (concat (take i ks))) (drop (length (concat (take i ks))) (concat ks)) = ks ! i"
proof -
  assume i: "i < length ks"
  have "concat ks = concat (take i ks) @ ks ! i @ concat (drop (Suc i) ks)"
    using id_take_nth_drop [OF i] by (metis concat.simps(2) concat_append)
  then show ?thesis using i by (simp add: take_Suc_conv_app_nth)
qed

lemma pending_keys:
  assumes "pending ks b"
  shows "map (\<lambda>i. take ((fb_start b @ [length (fb_keys b)]) ! (i + 1) - (fb_start b @ [length (fb_keys b)]) ! i)
    (drop ((fb_start b @ [length (fb_keys b)]) ! i) (fb_keys b))) [0..<length (fb_start b)] = ks"
proof (rule nth_equalityI)
  fix i assume "i < length (map (\<lambda>i. take ((fb_start b @ [length (fb_keys b)]) ! (i + 1) - (fb_start b @ [length (fb_keys b)]) ! i)
    (drop ((fb_start b @ [length (fb_keys b)]) ! i) (fb_keys b))) [0..<length (fb_start b)])"
  then have i: "i < length ks" using assms by (simp add: pending_def)
  have s: "(fb_start b @ [length (fb_keys b)]) ! j = length (concat (take j ks))" if "j \<le> length ks" for j
    using that assms by (cases "j = length ks") (auto simp: pending_def nth_append)
  show "map (\<lambda>i. take ((fb_start b @ [length (fb_keys b)]) ! (i + 1) - (fb_start b @ [length (fb_keys b)]) ! i)
    (drop ((fb_start b @ [length (fb_keys b)]) ! i) (fb_keys b))) [0..<length (fb_start b)] ! i = ks ! i"
    using i s [of i] s [of "Suc i"] take_concat_step [OF i] assms by (simp add: pending_def)
qed (use assms in \<open>simp add: pending_def\<close>)

lemma pending_AddKey: "pending ks b \<Longrightarrow> pending (ks @ [key]) (AddKey key b)"
  by (auto simp: pending_def AddKey_def)

lemma offsets_of_snoc: "offsets_of (fs @ [f]) = offsets_of fs @ [of_nat (length (concat fs))]"
  by (simp add: offsets_of_def)

context filter_policy begin

lemma create_filter:
  assumes "length keys < 2 ^ 31" "keys \<noteq> []"
  obtains f where "create keys dst = dst @ f" "\<forall>key \<in> set keys. match key f"
proof -
  obtain f where f: "create keys dst = dst @ f" using no_false_negatives [of "hd keys" keys dst] assms by auto
  have "match key f" if "key \<in> set keys" for key using no_false_negatives [OF that assms(1), of dst] f by auto
  then show ?thesis using that f by blast
qed

lemma built_Generate:
  assumes "built b fs added ks" "length ks < 2 ^ 31"
  shows "\<exists>f. built (GenerateFilter create b) (fs @ [f]) added []"
proof (cases "ks = []")
  case True
  then have "fb_start b = []" using assms(1) by (simp add: built_def pending_def)
  then have "built (GenerateFilter create b) (fs @ [[]]) added []"
    using assms(1) True by (auto simp: built_def GenerateFilter_def offsets_of_snoc nth_append pending_def)
  then show ?thesis ..
next
  case False
  have p: "pending ks b" using assms(1) by (simp add: built_def)
  have ne: "length (fb_start b) \<noteq> 0" using p False by (simp add: pending_def)
  obtain f where f: "create ks (fb_result b) = fb_result b @ f" "\<forall>key \<in> set ks. match key f"
    by (rule create_filter [OF assms(2) False, of "fb_result b"])
  have "GenerateFilter create b = \<lparr>fb_keys = [], fb_start = [], fb_result = fb_result b @ f,
      fb_offsets = fb_offsets b @ [of_nat (length (fb_result b))]\<rparr>"
    using ne unfolding GenerateFilter_def Let_def pending_keys [OF p] f(1) by simp
  then have "built (GenerateFilter create b) (fs @ [f]) added []"
    using assms(1) f(2) by (auto simp: built_def offsets_of_snoc nth_append pending_def)
  then show ?thesis ..
qed

lemma built_Start:
  assumes "built b fs added ks" "length ks < 2 ^ 31" "length fs \<le> off div kFilterBase"
  shows "\<exists>fs' ks'. built (StartBlock create off b) fs' added ks' \<and> length fs' = off div kFilterBase \<and> length ks' \<le> length ks"
  using assms
proof (induction "off div kFilterBase - length fs" arbitrary: b fs ks)
  case 0
  then have "StartBlock create off b = b" by (simp add: StartBlock.simps [of create off b] built_def offsets_of_def)
  then show ?case using 0 by (intro exI [of _ fs] exI [of _ ks]) simp
next
  case (Suc n)
  obtain f where f: "built (GenerateFilter create b) (fs @ [f]) added []" using built_Generate Suc.prems(1,2) by blast
  have "StartBlock create off b = StartBlock create off (GenerateFilter create b)"
    using Suc.hyps(2) Suc.prems(1) by (subst StartBlock.simps) (simp add: built_def offsets_of_def)
  moreover have "n = off div kFilterBase - length (fs @ [f])" "length (fs @ [f]) \<le> off div kFilterBase" using Suc.hyps(2) by simp_all
  ultimately obtain fs' ks' where "built (StartBlock create off b) fs' added ks'" "length fs' = off div kFilterBase" "ks' = []"
    using Suc.hyps(1) [OF _ f] by auto
  then show ?case by (intro exI [of _ fs'] exI [of _ ks']) simp
qed

lemma built_AddKey:
  "built b fs added ks \<Longrightarrow> length fs = off div kFilterBase \<Longrightarrow> built (AddKey key b) fs ((off, key) # added) (ks @ [key])"
  using pending_AddKey [of ks b key] by (auto simp: built_def AddKey_def)

lemma built_keys:
  assumes "built b fs added ks" "length fs = off div kFilterBase"
  shows "\<exists>added'. built (fold AddKey keys b) fs added' (ks @ keys) \<and> set added' = set added \<union> {off} \<times> set keys"
  using assms(1)
proof (induction keys arbitrary: b added ks)
  case (Cons key keys)
  obtain added' where "built (fold AddKey keys (AddKey key b)) fs added' ((ks @ [key]) @ keys)"
    "set added' = set ((off, key) # added) \<union> {off} \<times> set keys"
    using Cons.IH [OF built_AddKey [OF Cons.prems assms(2)]] by blast
  then show ?case by (intro exI [of _ added']) auto
qed auto

lemma built_blocks:
  assumes "built b fs added ks" "length ks + length (concat (map snd blks)) < 2 ^ 31"
    "sorted (map fst blks)" "\<forall>blk \<in> set blks. length fs \<le> fst blk div kFilterBase"
  shows "\<exists>fs' added' ks'. built (fold (add_block create) blks b) fs' added' ks' \<and> length ks' < 2 ^ 31 \<and>
    set added' = set added \<union> (\<Union>(off, keys) \<in> set blks. {off} \<times> set keys)"
  using assms
proof (induction blks arbitrary: b fs added ks)
  case Nil
  then show ?case by auto
next
  case (Cons blk blks)
  obtain off keys where blk: "blk = (off, keys)" by (cases blk)
  obtain fs1 ks1 where s: "built (StartBlock create off b) fs1 added ks1" "length fs1 = off div kFilterBase" "length ks1 \<le> length ks"
    using built_Start [OF Cons.prems(1), of off] Cons.prems(2,4) blk by auto
  obtain added1 where a: "built (add_block create blk b) fs1 added1 (ks1 @ keys)" "set added1 = set added \<union> {off} \<times> set keys"
    using built_keys [OF s(1,2), of keys] unfolding add_block_def blk by auto
  have le: "\<forall>blk \<in> set blks. length fs1 \<le> fst blk div kFilterBase"
    using Cons.prems(3) s(2) unfolding blk by (auto intro!: div_le_mono)
  have "length (ks1 @ keys) + length (concat (map snd blks)) < 2 ^ 31" using Cons.prems(2) s(3) unfolding blk by simp
  then obtain fs' added' ks' where "built (fold (add_block create) blks (add_block create blk b)) fs' added' ks'" "length ks' < 2 ^ 31"
    "set added' = set added1 \<union> (\<Union>(off, keys) \<in> set blks. {off} \<times> set keys)"
    using Cons.IH [OF a(1) _ _ le] Cons.prems(3) by auto
  then show ?case using a(2) blk by (intro exI [of _ fs'] exI [of _ added'] exI [of _ ks']) auto
qed

lemma built_all:
  assumes "length (concat (map snd blks)) < 2 ^ 31" "sorted (map fst blks)"
  shows "\<exists>fs. filter_block_of create blks = concat fs @ concat (map EncodeFixed32 (offsets_of fs)) @
      EncodeFixed32 (of_nat (length (concat fs))) @ [11] \<and>
    (\<forall>(off, keys) \<in> set blks. \<forall>key \<in> set keys. off div kFilterBase < length fs \<and> match key (fs ! (off div kFilterBase)))"
proof -
  have "built FilterBlockBuilder [] [] []" by (simp add: built_def FilterBlockBuilder_def pending_def offsets_of_def)
  then obtain fs added ks where b: "built (fold (add_block create) blks FilterBlockBuilder) fs added ks" "length ks < 2 ^ 31"
    "set added = (\<Union>(off, keys) \<in> set blks. {off} \<times> set keys)"
    using built_blocks [of FilterBlockBuilder "[]" "[]" "[]" blks] assms by auto
  let ?b = "fold (add_block create) blks FilterBlockBuilder"
  let ?c = "if fb_start ?b \<noteq> [] then GenerateFilter create ?b else ?b"
  obtain fs' where c: "built ?c fs' added []"
  proof (cases "ks = []")
    case True
    then have "fb_start ?b = []" using b(1) by (simp add: built_def pending_def)
    then show ?thesis using that b(1) True by auto
  next
    case False
    then have "fb_start ?b \<noteq> []" using b(1) by (simp add: built_def pending_def)
    then show ?thesis using that built_Generate [OF b(1,2)] by auto
  qed
  have put: "fold (\<lambda>off result. result @ EncodeFixed32 off) ws r = r @ concat (map EncodeFixed32 ws)" for ws r
    by (induction ws arbitrary: r) simp_all
  have "filter_block_of create blks = concat fs' @ concat (map EncodeFixed32 (offsets_of fs')) @
      EncodeFixed32 (of_nat (length (concat fs'))) @ [11]"
    using c unfolding filter_block_of_def FilterBlock_Finish_def Let_def PutFixed32_def put built_def by simp
  moreover have "\<forall>(off, keys) \<in> set blks. \<forall>key \<in> set keys. off div kFilterBase < length fs' \<and> match key (fs' ! (off div kFilterBase))"
    using c b(3) unfolding built_def by fastforce
  ultimately show ?thesis by blast
qed

end

section \<open>What the reader reads\<close>

lemma DecodeFixed32_nth:
  "i < length ws \<Longrightarrow> DecodeFixed32 (drop (4 * i) (concat (map EncodeFixed32 ws) @ rest)) = ws ! i"
proof (induction ws arbitrary: i)
  case (Cons w ws)
  show ?case
  proof (cases i)
    case 0
    then show ?thesis by (simp add: DecodeFixed32_Encode)
  next
    case (Suc j)
    then have "drop (4 * i) (concat (map EncodeFixed32 (w # ws)) @ rest) = drop (4 * j) (concat (map EncodeFixed32 ws) @ rest)" by simp
    then show ?thesis using Cons Suc by simp
  qed
qed simp

lemma reader_filter:
  assumes "contents = concat fs @ concat (map EncodeFixed32 (offsets_of fs)) @ EncodeFixed32 (of_nat (length (concat fs))) @ [11]"
    "length (concat fs) < 2 ^ 32" "off div kFilterBase < length fs"
  shows "FilterBlock_KeyMayMatch match (FilterBlockReader contents) off key = match key (fs ! (off div kFilterBase))"
proof -
  let ?i = "off div kFilterBase" let ?L = "length (concat fs)"
  have tot: "length (concat (map EncodeFixed32 ws)) = 4 * length ws" for ws by (induction ws) simp_all
  have lo: "length (offsets_of fs) = length fs" by (simp add: offsets_of_def)
  have n: "length contents = ?L + 4 * length fs + 5" unfolding assms(1) by (simp add: tot lo)
  have last: "contents ! (length contents - 1) = 11" unfolding n unfolding assms(1) by (simp add: nth_append tot lo)
  have lw: "DecodeFixed32 (drop (length contents - 5) contents) = of_nat ?L"
    unfolding n unfolding assms(1) by (simp add: tot lo DecodeFixed32_Encode)
  have uL: "unat (of_nat ?L :: u32) = ?L" using assms(2) by (simp add: unat_of_nat)
  have r: "FilterBlockReader contents = \<lparr>fr_data = contents, fr_offset = ?L, fr_num = length fs, fr_base_lg = 11\<rparr>"
    using n last lw uL by (simp add: FilterBlockReader_def Let_def)
  have dec: "DecodeFixed32 (drop (?L + j * 4) contents) = of_nat (length (concat (take j fs)))" if "j \<le> length fs" for j
  proof -
    let ?ws = "offsets_of fs @ [of_nat ?L]"
    have c: "drop (?L + j * 4) contents = drop (4 * j) (concat (map EncodeFixed32 ?ws) @ [11])"
      unfolding assms(1) by (simp add: mult.commute)
    have "?ws ! j = of_nat (length (concat (take j fs)))"
      using that by (cases "j = length fs") (auto simp: offsets_of_def nth_append)
    then show ?thesis unfolding c using DecodeFixed32_nth [of j ?ws "[11]"] that by (simp add: offsets_of_def)
  qed
  have le: "length (concat (take j fs)) \<le> ?L" for j
    by (metis append_take_drop_id concat_append le_add1 length_append)
  have u: "unat (of_nat (length (concat (take j fs))) :: u32) = length (concat (take j fs))" for j
    using le [of j] assms(2) by (simp add: unat_of_nat)
  have "length (concat (take ?i fs)) \<le> length (concat (take (Suc ?i) fs))" using assms(3) by (simp add: take_Suc_conv_app_nth)
  moreover have "take (length (concat (take (Suc ?i) fs)) - length (concat (take ?i fs))) (drop (length (concat (take ?i fs))) contents) = fs ! ?i"
  proof -
    have "concat fs = concat (take ?i fs) @ fs ! ?i @ concat (drop (Suc ?i) fs)"
      using id_take_nth_drop [OF assms(3)] by (metis concat.simps(2) concat_append)
    then show ?thesis unfolding assms(1) using assms(3) by (simp add: take_Suc_conv_app_nth)
  qed
  moreover have "drop_bit 11 off = ?i" by (simp add: drop_bit_eq_div)
  moreover have e4: "?L + ?i * 4 + 4 = ?L + Suc ?i * 4" by simp
  have "DecodeFixed32 (drop (?L + ?i * 4 + 4) contents) = of_nat (length (concat (take (Suc ?i) fs)))"
    unfolding e4 using assms(3) by (intro dec) simp
  ultimately show ?thesis
    using dec [of ?i] u [of ?i] u [of "Suc ?i"] assms(3) le [of "Suc ?i"]
    unfolding FilterBlock_KeyMayMatch_def r by (simp add: Let_def del: mult_Suc)
qed

section \<open>Filter blocks of Bloom filters\<close>

lemma length_CreateFilter:
  "length (CreateFilter pol keys dst) = length dst +
    size_add (let bits = size_mul (length keys) (bp_bits_per_key pol) in if bits < 64 then 64 else bits) 7 div 8 + 1"
  using set_keys_more by (simp add: CreateFilter_def Let_def more_bits_def)

text \<open>A policy for a number of bits per key that is a non-negative \<open>int\<close>.\<close>

definition bloom_create :: "31 word \<Rightarrow> create_fun" where
  "bloom_create bits_per_key = CreateFilter (BloomFilterPolicy (unat bits_per_key))"

interpretation bloom: filter_policy "bloom_create bits_per_key" KeyMayMatch for bits_per_key
proof unfold_locales
  fix key :: "u8 list" and keys :: "u8 list list" and dst :: "u8 list" assume "key \<in> set keys" "length keys < 2 ^ 31"
  moreover have "unat bits_per_key < 2 ^ 31" using unsigned_less [of bits_per_key, where ?'a = nat] by simp
  ultimately show "\<exists>f. bloom_create bits_per_key keys dst = dst @ f \<and> KeyMayMatch key f"
    unfolding bloom_create_def by (rule CreateFilter_matches)
qed

text \<open>
  C16: the filter block of a table has no false negatives.  Built from blocks in the order of their
  offsets, with fewer than \<open>2^31\<close> keys and less than 4 GB of filters, it matches every key of every
  block when it is asked with the offset of the block; so a lookup skips no block that holds its key.
\<close>

theorem filter_block_no_false_negatives:
  assumes "sorted (map fst blks)" "length (concat (map snd blks)) < 2 ^ 31" "length (filter_block_of (bloom_create bits_per_key) blks) < 2 ^ 32"
    "(off, keys) \<in> set blks" "key \<in> set keys"
  shows "FilterBlock_KeyMayMatch KeyMayMatch (FilterBlockReader (filter_block_of (bloom_create bits_per_key) blks)) off key"
proof -
  obtain fs where fs: "filter_block_of (bloom_create bits_per_key) blks = concat fs @ concat (map EncodeFixed32 (offsets_of fs)) @
      EncodeFixed32 (of_nat (length (concat fs))) @ [11]"
    "off div kFilterBase < length fs" "KeyMayMatch key (fs ! (off div kFilterBase))"
    using bloom.built_all [OF assms(2,1), of bits_per_key] assms(4,5) by fast
  have "length (concat fs) < 2 ^ 32" using assms(3) unfolding fs(1) by simp
  then show ?thesis using reader_filter [OF fs(1) _ fs(2)] fs(3) by simp
qed

theorem filter_block_no_false_negatives_witness:
  "FilterBlock_KeyMayMatch KeyMayMatch
    (FilterBlockReader (filter_block_of (bloom_create 10) [(0, [[1, 2], [3]]), (5000, [[4]])])) 5000 [4]"
proof (rule filter_block_no_false_negatives [where keys = "[[4]]"])
  show "length (filter_block_of (bloom_create 10) [(0, [[1, 2], [3]]), (5000, [[4]])]) < 2 ^ 32"
    by (simp add: filter_block_of_def add_block_def StartBlock.simps AddKey_def GenerateFilter_def FilterBlock_Finish_def
        FilterBlockBuilder_def bloom_create_def length_CreateFilter BloomFilterPolicy_def size_mul_def size_add_def Let_def PutFixed32_def)
qed simp_all

end
