(* ===== verification/Avl_tree.thy ===== *)
theory Avl_tree
  imports Prelude
begin


text \<open>
  AVL trees as values, the specification of \<open>src/core/lib/avl/avl.cc\<close> of gRPC: the same case
  distinctions on finite trees, without memory.  The entries in order are a sorted association list,
  and the operations are insertion and deletion there; they keep the trees balanced.
\<close>

section \<open>Trees\<close>

datatype ('k, 'v) avl_tree = Tip | Bin 'k 'v "('k, 'v) avl_tree" "('k, 'v) avl_tree" int

fun ht :: "('k, 'v) avl_tree \<Rightarrow> int" where
  "ht Tip = 0"
| "ht (Bin k v l r h) = h"

fun entries :: "('k, 'v) avl_tree \<Rightarrow> ('k \<times> 'v) list" where
  "entries Tip = []"
| "entries (Bin k v l r h) = entries l @ (k, v) # entries r"

fun true_height :: "('k, 'v) avl_tree \<Rightarrow> int" where
  "true_height Tip = 0"
| "true_height (Bin k v l r h) = 1 + max (true_height l) (true_height r)"

fun balanced :: "('k, 'v) avl_tree \<Rightarrow> bool" where
  "balanced Tip = True"
| "balanced (Bin k v l r h) = (balanced l \<and> balanced r \<and> h = 1 + max (ht l) (ht r) \<and> \<bar>ht l - ht r\<bar> \<le> 1)"

definition bin :: "'k \<Rightarrow> 'v \<Rightarrow> ('k, 'v) avl_tree \<Rightarrow> ('k, 'v) avl_tree \<Rightarrow> ('k, 'v) avl_tree" where
  "bin k v l r = Bin k v l r (1 + max (ht l) (ht r))"

fun t_get :: "('k \<Rightarrow> 'k \<Rightarrow> int) \<Rightarrow> 'k \<Rightarrow> ('k, 'v) avl_tree \<Rightarrow> 'v option" where
  "t_get cmp k Tip = None"
| "t_get cmp k (Bin k' v l r h) =
    (if cmp k' k = 0 then Some v else if cmp k' k > 0 then t_get cmp k l else t_get cmp k r)"

fun t_rebalance :: "'k \<Rightarrow> 'v \<Rightarrow> ('k, 'v) avl_tree \<Rightarrow> ('k, 'v) avl_tree \<Rightarrow> ('k, 'v) avl_tree" where
  "t_rebalance k v l r =
    (if ht l - ht r = 2 then
       (case l of
          Bin lk lv ll lr h \<Rightarrow>
            if ht ll - ht lr = -1 then
              (case lr of Bin k' v' a b h' \<Rightarrow> bin k' v' (bin lk lv ll a) (bin k v b r) | Tip \<Rightarrow> Tip)
            else bin lk lv ll (bin k v lr r)
        | Tip \<Rightarrow> Tip)
     else if ht l - ht r = -2 then
       (case r of
          Bin rk rv rl rr h \<Rightarrow>
            if ht rl - ht rr = 1 then
              (case rl of Bin k' v' a b h' \<Rightarrow> bin k' v' (bin k v l a) (bin rk rv b rr) | Tip \<Rightarrow> Tip)
            else bin rk rv (bin k v l rl) rr
        | Tip \<Rightarrow> Tip)
     else bin k v l r)"

declare t_rebalance.simps [simp del]

fun t_add :: "('k \<Rightarrow> 'k \<Rightarrow> int) \<Rightarrow> 'k \<Rightarrow> 'v \<Rightarrow> ('k, 'v) avl_tree \<Rightarrow> ('k, 'v) avl_tree" where
  "t_add cmp k v Tip = bin k v Tip Tip"
| "t_add cmp k v (Bin k' v' l r h) =
    (if cmp k' k = 0 then bin k v l r
     else if cmp k' k > 0 then t_rebalance k' v' (t_add cmp k v l) r
     else t_rebalance k' v' l (t_add cmp k v r))"

fun t_head :: "('k, 'v) avl_tree \<Rightarrow> 'k \<times> 'v" where
  "t_head (Bin k v l r h) = (if l = Tip then (k, v) else t_head l)"

fun t_tail :: "('k, 'v) avl_tree \<Rightarrow> 'k \<times> 'v" where
  "t_tail (Bin k v l r h) = (if r = Tip then (k, v) else t_tail r)"

fun t_remove :: "('k \<Rightarrow> 'k \<Rightarrow> int) \<Rightarrow> 'k \<Rightarrow> ('k, 'v) avl_tree \<Rightarrow> ('k, 'v) avl_tree" where
  "t_remove cmp k Tip = Tip"
| "t_remove cmp k (Bin k' v' l r h) =
    (if cmp k' k = 0 then
       (if l = Tip then r
        else if r = Tip then l
        else if ht l < ht r then (case t_head r of (hk, hv) \<Rightarrow> t_rebalance hk hv l (t_remove cmp hk r))
        else (case t_tail l of (hk, hv) \<Rightarrow> t_rebalance hk hv (t_remove cmp hk l) r))
     else if cmp k' k > 0 then t_rebalance k' v' (t_remove cmp k l) r
     else t_rebalance k' v' l (t_remove cmp k r))"

section \<open>Balance\<close>

lemma ht_bin [simp]: "ht (bin k v l r) = 1 + max (ht l) (ht r)"
  by (simp add: bin_def)

lemma balanced_bin [simp]: "balanced (bin k v l r) = (balanced l \<and> balanced r \<and> \<bar>ht l - ht r\<bar> \<le> 1)"
  by (auto simp: bin_def)

lemma entries_bin [simp]: "entries (bin k v l r) = entries l @ (k, v) # entries r"
  by (simp add: bin_def)

lemma balanced_ht_nonneg: "balanced t \<Longrightarrow> 0 \<le> ht t"
  by (induction t) auto

lemma balanced_true_height: "balanced t \<Longrightarrow> true_height t = ht t"
  by (induction t) auto

definition near :: "('k, 'v) avl_tree \<Rightarrow> ('k, 'v) avl_tree \<Rightarrow> bool" where
  "near l r \<longleftrightarrow> balanced l \<and> balanced r \<and> \<bar>ht l - ht r\<bar> \<le> 2"

text \<open>What the two rotations on a side need.\<close>

lemma tall_left:
  assumes "near l r" "ht l - ht r = 2"
  obtains k v ll lr where "l = Bin k v ll lr (ht l)" "balanced ll" "balanced lr" "ht l = 1 + max (ht ll) (ht lr)" "\<bar>ht ll - ht lr\<bar> \<le> 1"
    "ht ll - ht lr = -1 \<longrightarrow> (\<exists>k v a b. lr = Bin k v a b (ht lr) \<and> balanced a \<and> balanced b \<and> ht lr = 1 + max (ht a) (ht b) \<and> \<bar>ht a - ht b\<bar> \<le> 1)"
proof (cases l)
  case Tip
  then show ?thesis using assms balanced_ht_nonneg [of r] by (simp add: near_def)
next
  case (Bin k v ll lr h)
  then have b: "balanced ll" "balanced lr" "h = 1 + max (ht ll) (ht lr)" "\<bar>ht ll - ht lr\<bar> \<le> 1"
    using assms(1) by (simp_all add: near_def)
  show ?thesis
  proof (rule that)
    show "l = Bin k v ll lr (ht l)" "ht l = 1 + max (ht ll) (ht lr)" using Bin b(3) by simp_all
    show "ht ll - ht lr = -1 \<longrightarrow> (\<exists>k v a b. lr = Bin k v a b (ht lr) \<and> balanced a \<and> balanced b \<and> ht lr = 1 + max (ht a) (ht b) \<and> \<bar>ht a - ht b\<bar> \<le> 1)"
      using b(2) balanced_ht_nonneg [OF b(1)] by (cases lr) auto
  qed (use b in auto)
qed

lemma tall_right:
  assumes "near l r" "ht l - ht r = -2"
  obtains k v rl rr where "r = Bin k v rl rr (ht r)" "balanced rl" "balanced rr" "ht r = 1 + max (ht rl) (ht rr)" "\<bar>ht rl - ht rr\<bar> \<le> 1"
    "ht rl - ht rr = 1 \<longrightarrow> (\<exists>k v a b. rl = Bin k v a b (ht rl) \<and> balanced a \<and> balanced b \<and> ht rl = 1 + max (ht a) (ht b) \<and> \<bar>ht a - ht b\<bar> \<le> 1)"
proof (cases r)
  case Tip
  then show ?thesis using assms balanced_ht_nonneg [of l] by (simp add: near_def)
next
  case (Bin k v rl rr h)
  then have b: "balanced rl" "balanced rr" "h = 1 + max (ht rl) (ht rr)" "\<bar>ht rl - ht rr\<bar> \<le> 1"
    using assms(1) by (simp_all add: near_def)
  show ?thesis
  proof (rule that)
    show "r = Bin k v rl rr (ht r)" "ht r = 1 + max (ht rl) (ht rr)" using Bin b(3) by simp_all
    show "ht rl - ht rr = 1 \<longrightarrow> (\<exists>k v a b. rl = Bin k v a b (ht rl) \<and> balanced a \<and> balanced b \<and> ht rl = 1 + max (ht a) (ht b) \<and> \<bar>ht a - ht b\<bar> \<le> 1)"
      using b(1) balanced_ht_nonneg [OF b(2)] by (cases rl) auto
  qed (use b in auto)
qed

lemma rebalance_cases:
  assumes "near l r"
  shows "balanced (t_rebalance k v l r) \<and> entries (t_rebalance k v l r) = entries l @ (k, v) # entries r \<and>
    (if \<bar>ht l - ht r\<bar> \<le> 1 then ht (t_rebalance k v l r) = 1 + max (ht l) (ht r)
     else max (ht l) (ht r) \<le> ht (t_rebalance k v l r) \<and> ht (t_rebalance k v l r) \<le> 1 + max (ht l) (ht r))"
proof -
  consider "ht l - ht r = 2" | "ht l - ht r = -2" | "\<bar>ht l - ht r\<bar> \<le> 1" using assms unfolding near_def by linarith
  then show ?thesis
  proof cases
    case 1
    obtain lk lv ll lr where l: "l = Bin lk lv ll lr (ht l)" "balanced ll" "balanced lr" "ht l = 1 + max (ht ll) (ht lr)" "\<bar>ht ll - ht lr\<bar> \<le> 1"
      "ht ll - ht lr = -1 \<longrightarrow> (\<exists>k v a b. lr = Bin k v a b (ht lr) \<and> balanced a \<and> balanced b \<and> ht lr = 1 + max (ht a) (ht b) \<and> \<bar>ht a - ht b\<bar> \<le> 1)"
      by (rule tall_left [OF assms 1])
    have r: "balanced r" using assms by (simp add: near_def)
    show ?thesis
    proof (cases "ht ll - ht lr = -1")
      case True
      then obtain k' v' a b where lr: "lr = Bin k' v' a b (ht lr)" "balanced a" "balanced b" "ht lr = 1 + max (ht a) (ht b)" "\<bar>ht a - ht b\<bar> \<le> 1"
        using l(6) by blast
      have e: "t_rebalance k v l r = bin k' v' (bin lk lv ll a) (bin k v b r)"
        using 1 True by (subst t_rebalance.simps, subst l(1), subst lr(1)) simp
      have "entries l = (entries ll @ (lk, lv) # entries a) @ (k', v') # entries b" by (subst l(1), subst lr(1)) simp
      then show ?thesis unfolding e using 1 True l(2-5) lr(2-5) r by auto
    next
      case False
      have e: "t_rebalance k v l r = bin lk lv ll (bin k v lr r)" using 1 False by (subst t_rebalance.simps, subst l(1)) simp
      have "entries l = entries ll @ (lk, lv) # entries lr" by (subst l(1)) simp
      then show ?thesis unfolding e using 1 False l(2-5) r by auto
    qed
  next
    case 2
    obtain rk rv rl rr where rr: "r = Bin rk rv rl rr (ht r)" "balanced rl" "balanced rr" "ht r = 1 + max (ht rl) (ht rr)" "\<bar>ht rl - ht rr\<bar> \<le> 1"
      "ht rl - ht rr = 1 \<longrightarrow> (\<exists>k v a b. rl = Bin k v a b (ht rl) \<and> balanced a \<and> balanced b \<and> ht rl = 1 + max (ht a) (ht b) \<and> \<bar>ht a - ht b\<bar> \<le> 1)"
      by (rule tall_right [OF assms 2])
    have l: "balanced l" using assms by (simp add: near_def)
    show ?thesis
    proof (cases "ht rl - ht rr = 1")
      case True
      then obtain k' v' a b where rl: "rl = Bin k' v' a b (ht rl)" "balanced a" "balanced b" "ht rl = 1 + max (ht a) (ht b)" "\<bar>ht a - ht b\<bar> \<le> 1"
        using rr(6) by blast
      have e: "t_rebalance k v l r = bin k' v' (bin k v l a) (bin rk rv b rr)"
        using 2 True by (subst t_rebalance.simps, subst rr(1), subst rl(1)) simp
      have "entries r = (entries a @ (k', v') # entries b) @ (rk, rv) # entries rr" by (subst rr(1), subst rl(1)) simp
      then show ?thesis unfolding e using 2 True rr(2-5) rl(2-5) l by auto
    next
      case False
      have e: "t_rebalance k v l r = bin rk rv (bin k v l rl) rr" using 2 False by (subst t_rebalance.simps, subst rr(1)) simp
      have "entries r = entries rl @ (rk, rv) # entries rr" by (subst rr(1)) simp
      then show ?thesis unfolding e using 2 False rr(2-5) l by auto
    qed
  next
    case 3
    then show ?thesis using assms by (auto simp: t_rebalance.simps near_def)
  qed
qed


section \<open>Order\<close>

text \<open>What the comment on \<open>compare_keys\<close> in \<open>avl.h\<close> asks of it.\<close>

definition key_order :: "('k \<Rightarrow> 'k \<Rightarrow> int) \<Rightarrow> bool" where
  "key_order cmp \<longleftrightarrow> (\<forall>a b. cmp a b = 0 \<longleftrightarrow> a = b) \<and> (\<forall>a b. 0 < cmp a b \<longleftrightarrow> cmp b a < 0) \<and>
    (\<forall>a b c. cmp a b < 0 \<longrightarrow> cmp b c < 0 \<longrightarrow> cmp a c < 0)"

definition below :: "('k \<Rightarrow> 'k \<Rightarrow> int) \<Rightarrow> 'k \<Rightarrow> ('k \<times> 'v) list \<Rightarrow> ('k \<times> 'v) list" where
  "below cmp k xs = filter (\<lambda>e. cmp (fst e) k < 0) xs"

definition above :: "('k \<Rightarrow> 'k \<Rightarrow> int) \<Rightarrow> 'k \<Rightarrow> ('k \<times> 'v) list \<Rightarrow> ('k \<times> 'v) list" where
  "above cmp k xs = filter (\<lambda>e. 0 < cmp (fst e) k) xs"

definition ordered :: "('k \<Rightarrow> 'k \<Rightarrow> int) \<Rightarrow> ('k \<times> 'v) list \<Rightarrow> bool" where
  "ordered cmp = sorted_wrt (\<lambda>a b. cmp (fst a) (fst b) < 0)"

lemma below_simps [simp]: "below cmp k [] = []" "below cmp k (xs @ ys) = below cmp k xs @ below cmp k ys"
  "below cmp k (e # xs) = (if cmp (fst e) k < 0 then e # below cmp k xs else below cmp k xs)"
  by (simp_all add: below_def)

lemma above_simps [simp]: "above cmp k [] = []" "above cmp k (xs @ ys) = above cmp k xs @ above cmp k ys"
  "above cmp k (e # xs) = (if 0 < cmp (fst e) k then e # above cmp k xs else above cmp k xs)"
  by (simp_all add: above_def)

lemma ordered_append: "ordered cmp (xs @ ys) \<longleftrightarrow>
    ordered cmp xs \<and> ordered cmp ys \<and> (\<forall>a \<in> set xs. \<forall>b \<in> set ys. cmp (fst a) (fst b) < 0)"
  by (simp add: ordered_def sorted_wrt_append)

lemma ordered_Cons: "ordered cmp (e # ys) \<longleftrightarrow> (\<forall>b \<in> set ys. cmp (fst e) (fst b) < 0) \<and> ordered cmp ys"
  by (simp add: ordered_def)

locale keys =
  fixes cmp :: "'k \<Rightarrow> 'k \<Rightarrow> int"
  assumes key_order: "key_order cmp"
begin

lemma cmp_laws: "cmp a b = 0 \<longleftrightarrow> a = b" "0 < cmp a b \<longleftrightarrow> cmp b a < 0" "cmp a b < 0 \<Longrightarrow> cmp b c < 0 \<Longrightarrow> cmp a c < 0"
  using key_order unfolding key_order_def by blast+

lemma cmp_cases [case_names less equal greater]:
  obtains "cmp a b < 0" | "a = b" | "0 < cmp a b" "cmp b a < 0"
  using cmp_laws(1,2) by (metis linorder_neqE_linordered_idom)

lemma cmp_irrefl [simp]: "cmp a a = 0"
  by (simp add: cmp_laws(1))

lemma outside:
  assumes "\<forall>e \<in> set xs. cmp (fst e) k < 0"
  shows "below cmp k xs = xs" "above cmp k xs = []"
  using assms by (fastforce simp: below_def above_def filter_id_conv filter_empty_conv)+

lemma outside':
  assumes "\<forall>e \<in> set xs. cmp k (fst e) < 0"
  shows "below cmp k xs = []" "above cmp k xs = xs"
proof -
  have "\<forall>e \<in> set xs. 0 < cmp (fst e) k" using assms cmp_laws(2) by blast
  then show "below cmp k xs = []" "above cmp k xs = xs"
    by (fastforce simp: below_def above_def filter_id_conv filter_empty_conv)+
qed

lemma ordered_replace:
  assumes "ordered cmp xs"
  shows "ordered cmp (below cmp k xs @ (k, v) # above cmp k xs)" "ordered cmp (below cmp k xs @ above cmp k xs)"
proof -
  have o: "ordered cmp (below cmp k xs)" "ordered cmp (above cmp k xs)"
    using assms by (simp_all add: below_def above_def ordered_def sorted_wrt_filter)
  have s: "\<forall>e \<in> set (below cmp k xs). cmp (fst e) k < 0" "\<forall>e \<in> set (above cmp k xs). cmp k (fst e) < 0"
    using cmp_laws(2) by (auto simp: below_def above_def)
  have "\<forall>a \<in> set (below cmp k xs). \<forall>b \<in> set (above cmp k xs). cmp (fst a) (fst b) < 0"
    using s cmp_laws(3) by blast
  then show "ordered cmp (below cmp k xs @ (k, v) # above cmp k xs)" "ordered cmp (below cmp k xs @ above cmp k xs)"
    using o s by (auto simp: ordered_append ordered_Cons)
qed

lemma map_of_filter_key: "map_of (filter (\<lambda>e. P (fst e)) xs) k = (if P k then map_of xs k else None)"
  by (induction xs) auto

lemma map_of_replace:
  "map_of (below cmp k xs @ (k, v) # above cmp k xs) = (map_of xs)(k \<mapsto> v)"
  "map_of (below cmp k xs @ above cmp k xs) = (map_of xs)(k := None)"
proof -
  have "map_of (below cmp k xs) a = (if cmp a k < 0 then map_of xs a else None)"
    "map_of (above cmp k xs) a = (if 0 < cmp a k then map_of xs a else None)" for a
    unfolding below_def above_def by (rule map_of_filter_key)+
  then show "map_of (below cmp k xs @ (k, v) # above cmp k xs) = (map_of xs)(k \<mapsto> v)"
    "map_of (below cmp k xs @ above cmp k xs) = (map_of xs)(k := None)"
    by (auto simp: fun_eq_iff map_add_def cmp_laws(1) split: option.splits)
qed

lemma ordered_distinct: "ordered cmp xs \<Longrightarrow> distinct (map fst xs)"
  by (induction xs) (fastforce simp: ordered_Cons)+

lemma t_get_correct: "ordered cmp (entries t) \<Longrightarrow> t_get cmp k t = map_of (entries t) k"
proof (induction t)
  case (Bin k' v l r h)
  have o: "ordered cmp (entries l)" "ordered cmp (entries r)" "\<forall>e \<in> set (entries l). cmp (fst e) k' < 0"
    "\<forall>e \<in> set (entries r). cmp k' (fst e) < 0"
    using Bin.prems by (auto simp: ordered_append ordered_Cons)
  show ?case
  proof (cases rule: cmp_cases [of k' k])
    case less
    have "map_of (entries l) k = None" using o(3) less cmp_laws(2) by (force simp: map_of_eq_None_iff)
    then show ?thesis using Bin.IH(2) o(2) less by (auto simp: map_add_def)
  next
    case equal
    have "map_of (entries l) k = None" using o(3) equal by (force simp: map_of_eq_None_iff)
    then show ?thesis using equal by (simp add: map_add_def)
  next
    case greater
    have "map_of (entries r) k = None" using o(4) greater cmp_laws(2) by (force simp: map_of_eq_None_iff)
    then show ?thesis using Bin.IH(1) o(1) greater by (auto simp: map_add_def split: option.splits)
  qed
qed simp

lemma t_add_correct:
  assumes "balanced t" "ordered cmp (entries t)"
  shows "balanced (t_add cmp k v t) \<and> ht t \<le> ht (t_add cmp k v t) \<and> ht (t_add cmp k v t) \<le> ht t + 1 \<and>
    entries (t_add cmp k v t) = below cmp k (entries t) @ (k, v) # above cmp k (entries t)"
  using assms
proof (induction t)
  case (Bin k' v' l r h)
  have o: "ordered cmp (entries l)" "ordered cmp (entries r)" "\<forall>e \<in> set (entries l). cmp (fst e) k' < 0"
    "\<forall>e \<in> set (entries r). cmp k' (fst e) < 0"
    using Bin.prems by (auto simp: ordered_append ordered_Cons)
  have b: "balanced l" "balanced r" "h = 1 + max (ht l) (ht r)" "\<bar>ht l - ht r\<bar> \<le> 1" using Bin.prems by simp_all
  note IH = Bin.IH(1) [OF b(1) o(1)] Bin.IH(2) [OF b(2) o(2)]
  show ?case
  proof (cases rule: cmp_cases [of k' k])
    case less
    then have "\<forall>e \<in> set (entries l). cmp (fst e) k < 0" using o(3) cmp_laws(3) by blast
    note out = outside [OF this]
    have n: "near l (t_add cmp k v r)" using IH(2) b(1,2,4) by (simp add: near_def abs_le_iff)
    show ?thesis using less cmp_laws(2) [of k' k] out IH(2) b rebalance_cases [OF n, of k' v'] by (auto split: if_splits)
  next
    case equal
    show ?thesis using equal outside [of "entries l" k] outside' [of "entries r" k] o b by auto
  next
    case greater
    then have "\<forall>e \<in> set (entries r). cmp k (fst e) < 0" using o(4) cmp_laws(3) by blast
    note out = outside' [OF this]
    have n: "near (t_add cmp k v l) r" using IH(1) b(1,2,4) by (simp add: near_def abs_le_iff)
    show ?thesis using greater out IH(1) b rebalance_cases [OF n, of k' v'] by (auto split: if_splits)
  qed
qed simp

lemma t_head_entries: "t \<noteq> Tip \<Longrightarrow> \<exists>xs. entries t = t_head t # xs"
  by (induction t rule: t_head.induct) auto

lemma t_tail_entries: "t \<noteq> Tip \<Longrightarrow> \<exists>xs. entries t = xs @ [t_tail t]"
  by (induction t rule: t_tail.induct) auto

lemma t_remove_correct:
  assumes "balanced t" "ordered cmp (entries t)"
  shows "balanced (t_remove cmp k t) \<and> ht t - 1 \<le> ht (t_remove cmp k t) \<and> ht (t_remove cmp k t) \<le> ht t \<and>
    entries (t_remove cmp k t) = below cmp k (entries t) @ above cmp k (entries t)"
  using assms
proof (induction t arbitrary: k)
  case (Bin k' v' l r h)
  have o: "ordered cmp (entries l)" "ordered cmp (entries r)" "\<forall>e \<in> set (entries l). cmp (fst e) k' < 0"
    "\<forall>e \<in> set (entries r). cmp k' (fst e) < 0"
    using Bin.prems by (auto simp: ordered_append ordered_Cons)
  have b: "balanced l" "balanced r" "h = 1 + max (ht l) (ht r)" "\<bar>ht l - ht r\<bar> \<le> 1" using Bin.prems by simp_all
  note IH = Bin.IH(1) [OF b(1) o(1)] Bin.IH(2) [OF b(2) o(2)]
  show ?case
  proof (cases rule: cmp_cases [of k' k])
    case less
    then have "\<forall>e \<in> set (entries l). cmp (fst e) k < 0" using o(3) cmp_laws(3) by blast
    note out = outside [OF this]
    have n: "near l (t_remove cmp k r)" using IH(2) [of k] b(1,2,4) by (simp add: near_def abs_le_iff)
    show ?thesis using less cmp_laws(2) [of k' k] out IH(2) [of k] b rebalance_cases [OF n, of k' v'] by (auto split: if_splits)
  next
    case greater
    then have "\<forall>e \<in> set (entries r). cmp k (fst e) < 0" using o(4) cmp_laws(3) by blast
    note out = outside' [OF this]
    have n: "near (t_remove cmp k l) r" using IH(1) [of k] b(1,2,4) by (simp add: near_def abs_le_iff)
    show ?thesis using greater out IH(1) [of k] b rebalance_cases [OF n, of k' v'] by (auto split: if_splits)
  next
    case equal
    have out: "below cmp k (entries (Bin k' v' l r h)) @ above cmp k (entries (Bin k' v' l r h)) = entries l @ entries r"
      using equal outside [of "entries l" k] outside' [of "entries r" k] o by simp
    consider "l = Tip" | "l \<noteq> Tip" "r = Tip" | "l \<noteq> Tip" "r \<noteq> Tip" "ht l < ht r" | "l \<noteq> Tip" "r \<noteq> Tip" "\<not> ht l < ht r" by blast
    then show ?thesis
    proof cases
      case 1
      then show ?thesis unfolding out using equal b balanced_ht_nonneg [OF b(2)] by simp
    next
      case 2
      then show ?thesis unfolding out using equal b balanced_ht_nonneg [OF b(1)] by simp
    next
      case 3
      obtain hk hv where hd: "t_head r = (hk, hv)" by (cases "t_head r")
      obtain xs where xs: "entries r = (hk, hv) # xs" using t_head_entries [OF 3(2)] hd by auto
      have "entries (t_remove cmp hk r) = xs"
        using IH(2) [of hk] o(2) outside' [of xs hk] unfolding xs ordered_Cons by simp
      moreover have n: "near l (t_remove cmp hk r)" using IH(2) [of hk] b(1,2,4) by (simp add: near_def abs_le_iff)
      ultimately show ?thesis
        unfolding out using 3 equal hd xs b IH(2) [of hk] rebalance_cases [OF n, of hk hv] by (auto split: if_splits)
    next
      case 4
      obtain hk hv where hd: "t_tail l = (hk, hv)" by (cases "t_tail l")
      obtain xs where xs: "entries l = xs @ [(hk, hv)]" using t_tail_entries [OF 4(1)] hd by auto
      have "entries (t_remove cmp hk l) = xs"
        using IH(1) [of hk] o(1) outside [of xs hk] unfolding xs ordered_append by simp
      moreover have n: "near (t_remove cmp hk l) r" using IH(1) [of hk] b(1,2,4) by (simp add: near_def abs_le_iff)
      ultimately show ?thesis
        unfolding out using 4 equal hd xs b IH(1) [of hk] rebalance_cases [OF n, of hk hv] by (auto split: if_splits)
    qed
  qed
qed simp

end


section \<open>Server names\<close>

text \<open>
  The keys of the map in \<open>retry_throttle.cc\<close> are C strings, here their bytes before the final zero,
  compared by \<open>strcmp\<close>, of whose result C fixes the sign.
\<close>

fun strcmp :: "u8 list \<Rightarrow> u8 list \<Rightarrow> int" where
  "strcmp [] [] = 0"
| "strcmp [] (b # bs) = -1"
| "strcmp (a # as) [] = 1"
| "strcmp (a # as) (b # bs) = (if a < b then -1 else if b < a then 1 else strcmp as bs)"

definition compare_server_name :: "u8 list \<Rightarrow> u8 list \<Rightarrow> int" where
  "compare_server_name key1 key2 = strcmp key1 key2"

lemma strcmp_eq: "strcmp a b = 0 \<longleftrightarrow> a = b"
  by (induction a b rule: strcmp.induct) auto

lemma strcmp_swap: "0 < strcmp a b \<longleftrightarrow> strcmp b a < 0"
  by (induction a b rule: strcmp.induct) auto

lemma strcmp_trans: "strcmp a b < 0 \<Longrightarrow> strcmp b c < 0 \<Longrightarrow> strcmp a c < 0"
proof (induction a b arbitrary: c rule: strcmp.induct)
  case (2 b bs)
  then show ?case by (cases c) auto
next
  case (4 a as b bs)
  then show ?case by (cases c) (auto split: if_splits)
qed auto

lemma key_order_server_name: "key_order compare_server_name"
  unfolding key_order_def compare_server_name_def using strcmp_eq strcmp_swap strcmp_trans by blast

interpretation server_names: keys compare_server_name
  by unfold_locales (rule key_order_server_name)

end
