(* ===== verification/Table_block.thy ===== *)
theory Table_block
  imports Avl_tree Coding "HOL-Library.Monad_Syntax"
begin


text \<open>
  Blocks of LevelDB tables (\<open>table/block_builder.cc\<close>, \<open>table/block.cc\<close>): sorted entries whose keys share
  prefixes, with restart points, and the iterator that searches them.

  A pointer into a block is its offset, and a \<open>uint32_t\<close> offset is kept as a natural number below
  \<open>2^32\<close>.  Operations return \<open>None\<close> for a failed assertion, a read outside of the block and for not
  returning.
\<close>

section \<open>Comparison\<close>

fun memcmp :: "u8 list \<Rightarrow> u8 list \<Rightarrow> int" where
  "memcmp (a # as) (b # bs) = (if a < b then -1 else if b < a then 1 else memcmp as bs)"
| "memcmp _ _ = 0"

definition Slice_compare :: "u8 list \<Rightarrow> u8 list \<Rightarrow> int" where
  "Slice_compare a b =
    (let min_len = (if length a < length b then length a else length b);
         r = memcmp (take min_len a) (take min_len b)
     in if r = 0 then (if length a < length b then -1 else if length a > length b then 1 else r) else r)"

definition BytewiseComparator :: "u8 list \<Rightarrow> u8 list \<Rightarrow> int" where
  "BytewiseComparator a b = Slice_compare a b"

lemma memcmp_take: "memcmp (take (min (length a) (length b)) a) (take (min (length a) (length b)) b) = memcmp a b"
  by (induction a b rule: memcmp.induct) simp_all

lemma memcmp_strcmp: "strcmp a b = (if memcmp a b = 0 then if length a < length b then -1 else if length b < length a then 1 else 0 else memcmp a b)"
  by (induction a b rule: strcmp.induct) simp_all

lemma Slice_compare_strcmp: "Slice_compare a b = strcmp a b"
proof -
  have "(if length a < length b then length a else length b) = min (length a) (length b)" by simp
  then show ?thesis unfolding Slice_compare_def Let_def by (simp only: memcmp_take memcmp_strcmp) simp
qed

section \<open>Building\<close>

record block_builder =
  bb_interval :: nat
  bb_buffer :: "u8 list"
  bb_restarts :: "u32 list"
  bb_counter :: nat
  bb_finished :: bool
  bb_last_key :: "u8 list"

definition BlockBuilder :: "nat \<Rightarrow> block_builder option" where
  "BlockBuilder block_restart_interval =
    (if block_restart_interval \<ge> 1 then
       Some \<lparr>bb_interval = block_restart_interval, bb_buffer = [], bb_restarts = [0], bb_counter = 0, bb_finished = False, bb_last_key = []\<rparr>
     else None)"

definition BlockBuilder_Reset :: "block_builder \<Rightarrow> block_builder" where
  "BlockBuilder_Reset b = b\<lparr>bb_buffer := [], bb_restarts := [0], bb_counter := 0, bb_finished := False, bb_last_key := []\<rparr>"

definition CurrentSizeEstimate :: "block_builder \<Rightarrow> nat" where
  "CurrentSizeEstimate b = length (bb_buffer b) + length (bb_restarts b) * 4 + 4"

definition BlockBuilder_Finish :: "block_builder \<Rightarrow> u8 list \<times> block_builder" where
  "BlockBuilder_Finish b =
    (let buffer = fold (\<lambda>r buffer. PutFixed32 buffer r) (bb_restarts b) (bb_buffer b);
         buffer = PutFixed32 buffer (of_nat (length (bb_restarts b)))
     in (buffer, b\<lparr>bb_buffer := buffer, bb_finished := True\<rparr>))"

fun shared_prefix :: "u8 list \<Rightarrow> u8 list \<Rightarrow> nat" where
  "shared_prefix (a # as) (b # bs) = (if a = b then Suc (shared_prefix as bs) else 0)"
| "shared_prefix _ _ = 0"

definition BlockBuilder_Add :: "(u8 list \<Rightarrow> u8 list \<Rightarrow> int) \<Rightarrow> u8 list \<Rightarrow> u8 list \<Rightarrow> block_builder \<Rightarrow> block_builder option" where
  "BlockBuilder_Add cmp key value b =
    (let last_key_piece = bb_last_key b in
     if bb_finished b \<or> \<not> bb_counter b \<le> bb_interval b \<or> \<not> (bb_buffer b = [] \<or> cmp key last_key_piece > 0) then None
     else
       let (shared, restarts, counter) =
             (if bb_counter b < bb_interval b then (shared_prefix last_key_piece key, bb_restarts b, bb_counter b)
              else (0, bb_restarts b @ [of_nat (length (bb_buffer b))], 0));
           non_shared = length key - shared;
           buffer = PutVarint32 (bb_buffer b) (of_nat shared);
           buffer = PutVarint32 buffer (of_nat non_shared);
           buffer = PutVarint32 buffer (of_nat (length value));
           buffer = buffer @ take non_shared (drop shared key);
           buffer = buffer @ value;
           last_key = take shared (bb_last_key b);
           last_key = last_key @ take non_shared (drop shared key)
       in if last_key \<noteq> key then None
          else Some (b\<lparr>bb_buffer := buffer, bb_restarts := restarts, bb_counter := counter + 1, bb_last_key := last_key\<rparr>))"

section \<open>Blocks\<close>

definition NumRestarts :: "u8 list \<Rightarrow> nat \<Rightarrow> u32" where
  "NumRestarts data sz = DecodeFixed32 (drop (sz - 4) data)"

record block =
  bl_data :: "u8 list"
  bl_size :: nat
  bl_restart_offset :: nat

definition Block :: "u8 list \<Rightarrow> block" where
  "Block contents =
    (let sz = length contents; bad = \<lparr>bl_data = contents, bl_size = 0, bl_restart_offset = 0\<rparr> in
     if sz < 4 then bad
     else
       let max_restarts_allowed = (sz - 4) div 4 in
       if unat (NumRestarts contents sz) > max_restarts_allowed then bad
       else \<lparr>bl_data = contents, bl_size = sz,
             bl_restart_offset = (sz - unat (1 + NumRestarts contents sz) * 4) mod 2 ^ 32\<rparr>)"

text \<open>\<open>bs\<close> are the bytes from \<open>p\<close> to \<open>limit\<close>; the result has those behind the three lengths.\<close>

definition DecodeEntry :: "u8 list \<Rightarrow> (u32 \<times> u32 \<times> u32 \<times> u8 list) option" where
  "DecodeEntry bs =
    (if length bs < 3 then None
     else
       let shared = ucast (bs ! 0) :: u32; non_shared = ucast (bs ! 1) :: u32; value_length = ucast (bs ! 2) :: u32 in
       do {
         (shared, non_shared, value_length, p) \<leftarrow>
           (if (shared OR non_shared OR value_length) < 128 then Some (shared, non_shared, value_length, drop 3 bs)
            else do {
              (shared, p) \<leftarrow> GetVarint32Ptr bs;
              (non_shared, p) \<leftarrow> GetVarint32Ptr p;
              (value_length, p) \<leftarrow> GetVarint32Ptr p;
              Some (shared, non_shared, value_length, p)
            });
         if of_nat (length p) < non_shared + value_length then None else Some (shared, non_shared, value_length, p)
       })"

section \<open>Iterators\<close>

record iter =
  it_data :: "u8 list"
  it_restarts :: nat
  it_num_restarts :: nat
  it_current :: nat
  it_restart_index :: nat
  it_key :: "u8 list"
  it_value :: "nat \<times> nat"
  it_ok :: bool

definition Iter :: "u8 list \<Rightarrow> nat \<Rightarrow> nat \<Rightarrow> iter" where
  "Iter data restarts num_restarts =
    \<lparr>it_data = data, it_restarts = restarts, it_num_restarts = num_restarts, it_current = restarts,
     it_restart_index = num_restarts, it_key = [], it_value = (0, 0), it_ok = True\<rparr>"

datatype block_iterator = ErrorIterator | EmptyIterator | BlockIterator iter

definition NewIterator :: "block \<Rightarrow> block_iterator" where
  "NewIterator b =
    (if bl_size b < 4 then ErrorIterator
     else
       let num_restarts = unat (NumRestarts (bl_data b) (bl_size b)) in
       if num_restarts = 0 then EmptyIterator else BlockIterator (Iter (bl_data b) (bl_restart_offset b) num_restarts))"

definition Valid :: "iter \<Rightarrow> bool" where
  "Valid it \<longleftrightarrow> it_current it < it_restarts it"

definition it_value_bytes :: "iter \<Rightarrow> u8 list" where
  "it_value_bytes it = take (snd (it_value it)) (drop (fst (it_value it)) (it_data it))"

definition NextEntryOffset :: "iter \<Rightarrow> nat" where
  "NextEntryOffset it = (fst (it_value it) + snd (it_value it)) mod 2 ^ 32"

definition GetRestartPoint :: "iter \<Rightarrow> nat \<Rightarrow> nat option" where
  "GetRestartPoint it index =
    (if index < it_num_restarts it \<and> it_restarts it + index * 4 + 4 \<le> length (it_data it)
     then Some (unat (DecodeFixed32 (drop (it_restarts it + index * 4) (it_data it)))) else None)"

definition SeekToRestartPoint :: "nat \<Rightarrow> iter \<Rightarrow> iter option" where
  "SeekToRestartPoint index it = do {
     let it = it\<lparr>it_key := [], it_restart_index := index\<rparr>;
     offset \<leftarrow> GetRestartPoint it index;
     Some (it\<lparr>it_value := (offset, 0)\<rparr>)
   }"

definition CorruptionError :: "iter \<Rightarrow> iter" where
  "CorruptionError it = it\<lparr>it_current := it_restarts it, it_restart_index := it_num_restarts it, it_ok := False, it_key := [], it_value := (0, 0)\<rparr>"

partial_function (option) advance_restart :: "iter \<Rightarrow> iter option" where
  "advance_restart it =
    (if it_restart_index it + 1 < it_num_restarts it then do {
       r \<leftarrow> GetRestartPoint it (it_restart_index it + 1);
       if r < it_current it then advance_restart (it\<lparr>it_restart_index := it_restart_index it + 1\<rparr>) else Some it
     }
     else Some it)"

definition ParseNextKey :: "iter \<Rightarrow> (bool \<times> iter) option" where
  "ParseNextKey it =
    (let it = it\<lparr>it_current := NextEntryOffset it\<rparr> in
     if it_current it \<ge> it_restarts it then
       Some (False, it\<lparr>it_current := it_restarts it, it_restart_index := it_num_restarts it\<rparr>)
     else
       case DecodeEntry (drop (it_current it) (take (it_restarts it) (it_data it))) of
         None \<Rightarrow> Some (False, CorruptionError it)
       | Some (shared, non_shared, value_length, p) \<Rightarrow>
           if length (it_key it) < unat shared then Some (False, CorruptionError it)
           else
             let p_offset = it_restarts it - length p in
             if p_offset + unat non_shared > length (it_data it) then None
             else do {
               let it = it\<lparr>it_key := take (unat shared) (it_key it) @ take (unat non_shared) (drop p_offset (it_data it)),
                           it_value := (p_offset + unat non_shared, unat value_length)\<rparr>;
               it \<leftarrow> advance_restart it;
               Some (True, it)
             })"

definition Next :: "iter \<Rightarrow> iter option" where
  "Next it = (if Valid it then do { (ok, it) \<leftarrow> ParseNextKey it; Some it } else None)"

partial_function (option) back_restart :: "nat \<Rightarrow> iter \<Rightarrow> (bool \<times> iter) option" where
  "back_restart original it = do {
     r \<leftarrow> GetRestartPoint it (it_restart_index it);
     if r \<ge> original then
       (if it_restart_index it = 0 then
          Some (False, it\<lparr>it_current := it_restarts it, it_restart_index := it_num_restarts it\<rparr>)
        else back_restart original (it\<lparr>it_restart_index := it_restart_index it - 1\<rparr>))
     else Some (True, it)
   }"

text \<open>The loops \<open>while (ParseNextKey() && NextEntryOffset() < limit)\<close>.\<close>

partial_function (option) parse_until :: "nat \<Rightarrow> iter \<Rightarrow> iter option" where
  "parse_until limit it = do {
     (ok, it) \<leftarrow> ParseNextKey it;
     if ok \<and> NextEntryOffset it < limit then parse_until limit it else Some it
   }"

definition Prev :: "iter \<Rightarrow> iter option" where
  "Prev it =
    (if Valid it then do {
       let original = it_current it;
       (found, it) \<leftarrow> back_restart original it;
       if \<not> found then Some it
       else do {
         it \<leftarrow> SeekToRestartPoint (it_restart_index it) it;
         parse_until original it
       }
     }
     else None)"

text \<open>The binary search: the index, or \<open>None\<close> inside for a corrupt entry.\<close>

partial_function (option) seek_search ::
  "(u8 list \<Rightarrow> u8 list \<Rightarrow> int) \<Rightarrow> u8 list \<Rightarrow> iter \<Rightarrow> nat \<Rightarrow> nat \<Rightarrow> nat option option" where
  "seek_search cmp target it left right =
    (if left < right then do {
       let mid = (left + right + 1) mod 2 ^ 32 div 2;
       region_offset \<leftarrow> GetRestartPoint it mid;
       case DecodeEntry (drop region_offset (take (it_restarts it) (it_data it))) of
         None \<Rightarrow> Some None
       | Some (shared, non_shared, value_length, key_ptr) \<Rightarrow>
           if shared \<noteq> 0 then Some None
           else
             let key_offset = it_restarts it - length key_ptr in
             if key_offset + unat non_shared > length (it_data it) then None
             else
               let mid_key = take (unat non_shared) (drop key_offset (it_data it)) in
               if cmp mid_key target < 0 then seek_search cmp target it mid right
               else seek_search cmp target it left (mid - 1)
     }
     else Some (Some left))"

partial_function (option) seek_linear :: "(u8 list \<Rightarrow> u8 list \<Rightarrow> int) \<Rightarrow> u8 list \<Rightarrow> iter \<Rightarrow> iter option" where
  "seek_linear cmp target it = do {
     (ok, it) \<leftarrow> ParseNextKey it;
     if \<not> ok then Some it
     else if cmp (it_key it) target \<ge> 0 then Some it
     else seek_linear cmp target it
   }"

definition Seek :: "(u8 list \<Rightarrow> u8 list \<Rightarrow> int) \<Rightarrow> u8 list \<Rightarrow> iter \<Rightarrow> iter option" where
  "Seek cmp target it = do {
     index \<leftarrow> seek_search cmp target it 0 (it_num_restarts it - 1);
     case index of
       None \<Rightarrow> Some (CorruptionError it)
     | Some left \<Rightarrow> do {
         it \<leftarrow> SeekToRestartPoint left it;
         seek_linear cmp target it
       }
   }"

definition SeekToFirst :: "iter \<Rightarrow> iter option" where
  "SeekToFirst it = do {
     it \<leftarrow> SeekToRestartPoint 0 it;
     (ok, it) \<leftarrow> ParseNextKey it;
     Some it
   }"

definition SeekToLast :: "iter \<Rightarrow> iter option" where
  "SeekToLast it = do {
     it \<leftarrow> SeekToRestartPoint (it_num_restarts it - 1) it;
     parse_until (it_restarts it) it
   }"


section \<open>The layout of a block\<close>

text \<open>
  A chunk is an entry with the number of bytes its key shares with the key before.  \<open>off cs i\<close> is
  where the \<open>i\<close>-th chunk starts, and \<open>rs\<close> are the numbers of the chunks at the restart points.
\<close>

type_synonym chunk = "nat \<times> u8 list \<times> u8 list"

fun enc :: "chunk \<Rightarrow> u8 list" where
  "enc (sh, key, val) = EncodeVarint32 (of_nat sh) @ EncodeVarint32 (of_nat (length key - sh)) @ EncodeVarint32 (of_nat (length val)) @
     drop sh key @ val"

definition bytes :: "chunk list \<Rightarrow> u8 list" where
  "bytes cs = concat (map enc cs)"

definition off :: "chunk list \<Rightarrow> nat \<Rightarrow> nat" where
  "off cs i = length (bytes (take i cs))"

abbreviation c_key :: "chunk \<Rightarrow> u8 list" where "c_key c \<equiv> fst (snd c)"
abbreviation c_val :: "chunk \<Rightarrow> u8 list" where "c_val c \<equiv> snd (snd c)"

definition fits_key :: "nat \<Rightarrow> u8 list \<Rightarrow> u8 list \<Rightarrow> bool" where
  "fits_key sh prev key \<longleftrightarrow> sh \<le> length prev \<and> sh \<le> length key \<and> take sh prev = take sh key"

definition chained :: "chunk list \<Rightarrow> bool" where
  "chained cs \<longleftrightarrow> (\<forall>i < length cs. fits_key (fst (cs ! i)) (if i = 0 then [] else c_key (cs ! (i - 1))) (c_key (cs ! i)))"

definition restarts_at :: "chunk list \<Rightarrow> nat list \<Rightarrow> bool" where
  "restarts_at cs rs \<longleftrightarrow> rs \<noteq> [] \<and> rs ! 0 = 0 \<and> sorted_wrt (<) rs \<and>
     (\<forall>r \<in> set rs. if cs = [] then r = 0 else r < length cs \<and> fst (cs ! r) = 0)"

definition contents_of :: "chunk list \<Rightarrow> nat list \<Rightarrow> u8 list" where
  "contents_of cs rs = bytes cs @ concat (map (\<lambda>r. EncodeFixed32 (of_nat (off cs r))) rs) @ EncodeFixed32 (of_nat (length rs))"

lemma bytes_append [simp]: "bytes (xs @ ys) = bytes xs @ bytes ys" "bytes [] = []" "bytes (c # cs) = enc c @ bytes cs"
  by (simp_all add: bytes_def)

lemma off_0 [simp]: "off cs 0 = 0"
  by (simp add: off_def)

lemma off_append: "i \<le> length cs \<Longrightarrow> off (cs @ ds) i = off cs i"
  by (simp add: off_def)

lemma off_all: "off cs (length cs) = length (bytes cs)"
  by (simp add: off_def)

section \<open>What the builder has built\<close>

definition building :: "block_builder \<Rightarrow> chunk list \<Rightarrow> nat list \<Rightarrow> bool" where
  "building b cs rs \<longleftrightarrow> bb_buffer b = bytes cs \<and> bb_restarts b = map (\<lambda>r. of_nat (off cs r)) rs \<and> \<not> bb_finished b \<and>
     bb_last_key b = (if cs = [] then [] else c_key (last cs)) \<and> 1 \<le> bb_interval b \<and> bb_counter b \<le> bb_interval b \<and>
     (bb_counter b = 0 \<longleftrightarrow> cs = []) \<and> chained cs \<and> restarts_at cs rs"

lemma EncodeVarint32_ne [simp]: "EncodeVarint32 v \<noteq> []"
  unfolding EncodeVarint32_put by (subst varint_put.simps) simp

lemma enc_ne [simp]: "enc c \<noteq> []"
  by (cases c) simp

lemma shared_prefix_fits: "fits_key (shared_prefix a b) a b"
  by (induction a b rule: shared_prefix.induct) (auto simp: fits_key_def)

lemma building_Add:
  assumes "building b cs rs" "cs = [] \<or> cmp key (c_key (last cs)) > 0"
  shows "\<exists>b' sh rs'. BlockBuilder_Add cmp key val b = Some b' \<and> building b' (cs @ [(sh, key, val)]) rs' \<and> bb_interval b' = bb_interval b"
proof -
  define last_key where "last_key = bb_last_key b"
  define sh where "sh = (if bb_counter b < bb_interval b then shared_prefix last_key key else 0)"
  define rs' where "rs' = (if bb_counter b < bb_interval b then rs else rs @ [length cs])"
  have f: "fits_key sh last_key key" using shared_prefix_fits [of last_key key] by (simp add: sh_def fits_key_def)
  have bf: "bytes cs = [] \<longleftrightarrow> cs = []" by (cases cs) simp_all
  have lk: "last_key = (if cs = [] then [] else c_key (last cs))" using assms(1) by (simp add: last_key_def building_def)
  have same: "take sh last_key @ take (length key - sh) (drop sh key) = key" using f by (simp add: fits_key_def)
  let ?b = "b\<lparr>bb_buffer := bytes cs @ enc (sh, key, val), bb_restarts := map (\<lambda>r. of_nat (off cs r)) rs',
    bb_counter := (if bb_counter b < bb_interval b then bb_counter b else 0) + 1, bb_last_key := key\<rparr>"
  have inv: "bb_buffer b = bytes cs" "bb_restarts b = map (\<lambda>r. of_nat (off cs r)) rs" "\<not> bb_finished b" "bb_counter b \<le> bb_interval b"
    using assms(1) by (simp_all add: building_def)
  have asserts: "\<not> (bb_finished b \<or> \<not> bb_counter b \<le> bb_interval b \<or> \<not> (bb_buffer b = [] \<or> cmp key last_key > 0))"
    using assms(2) inv bf lk by auto
  have ok: "BlockBuilder_Add cmp key val b = Some ?b"
  proof (cases "bb_counter b < bb_interval b")
    case True
    then have d: "sh = shared_prefix last_key key" "rs' = rs" by (simp_all add: sh_def rs'_def)
    show ?thesis
      unfolding BlockBuilder_Add_def Let_def last_key_def [symmetric] if_not_P [OF asserts]
      using same True inv unfolding d by (simp add: PutVarint32_def)
  next
    case False
    then have d: "sh = 0" "rs' = rs @ [length cs]" by (simp_all add: sh_def rs'_def)
    show ?thesis
      unfolding BlockBuilder_Add_def Let_def last_key_def [symmetric] if_not_P [OF asserts]
      using same False inv unfolding d by (simp add: PutVarint32_def off_all)
  qed
  have "chained (cs @ [(sh, key, val)])"
    using assms(1) f lk unfolding chained_def building_def
    by (auto simp: nth_append less_Suc_eq last_conv_nth)
  moreover have "restarts_at (cs @ [(sh, key, val)]) rs'"
  proof (cases "bb_counter b < bb_interval b")
    case True
    then have "rs' = rs" by (simp add: rs'_def)
    moreover have "cs = [] \<Longrightarrow> sh = 0" using f lk by (simp add: fits_key_def)
    ultimately show ?thesis using assms(1) unfolding building_def restarts_at_def
      by (auto simp: nth_append split: if_splits)
  next
    case False
    then have "cs \<noteq> []" "rs' = rs @ [length cs]" "sh = 0" using assms(1) by (auto simp: rs'_def sh_def building_def)
    then show ?thesis using assms(1) unfolding building_def restarts_at_def
      by (auto simp: nth_append sorted_wrt_append)
  qed
  moreover have "off cs r = off (cs @ [(sh, key, val)]) r" if "r \<in> set rs'" for r
  proof (cases "cs = []")
    case True
    then have "r = 0" using that assms(1) unfolding building_def restarts_at_def rs'_def by (auto split: if_splits)
    then show ?thesis by simp
  next
    case False
    then have "r \<le> length cs" using that assms(1) unfolding building_def restarts_at_def rs'_def by (auto split: if_splits)
    then show ?thesis by (simp add: off_append)
  qed
  then have "map (\<lambda>r. of_nat (off cs r)) rs' = map (\<lambda>r. of_nat (off (cs @ [(sh, key, val)]) r) :: u32) rs'" by simp
  ultimately have "building ?b (cs @ [(sh, key, val)]) rs'" using assms(1) by (simp add: building_def)
  with ok show ?thesis by (intro exI [of _ ?b] exI [of _ sh] exI [of _ rs'] conjI) (assumption | simp del: enc.simps)+
qed

text \<open>Entries in the order of their keys.\<close>

fun BlockBuilder_Adds :: "(u8 list \<Rightarrow> u8 list \<Rightarrow> int) \<Rightarrow> (u8 list \<times> u8 list) list \<Rightarrow> block_builder \<Rightarrow> block_builder option" where
  "BlockBuilder_Adds cmp [] b = Some b"
| "BlockBuilder_Adds cmp ((key, val) # es) b = do { b \<leftarrow> BlockBuilder_Add cmp key val b; BlockBuilder_Adds cmp es b }"

definition block_of :: "(u8 list \<Rightarrow> u8 list \<Rightarrow> int) \<Rightarrow> nat \<Rightarrow> (u8 list \<times> u8 list) list \<Rightarrow> u8 list option" where
  "block_of cmp interval es = do { b \<leftarrow> BlockBuilder interval; b \<leftarrow> BlockBuilder_Adds cmp es b; Some (fst (BlockBuilder_Finish b)) }"

lemma building_Adds:
  assumes "key_order cmp" "building b cs rs" "ordered cmp (map snd cs @ es)"
  shows "\<exists>b' cs' rs'. BlockBuilder_Adds cmp es b = Some b' \<and> building b' cs' rs' \<and> map snd cs' = map snd cs @ es"
  using assms(2,3)
proof (induction es arbitrary: b cs rs)
  case (Cons e es)
  obtain key val where e: "e = (key, val)" by (cases e)
  have "cs = [] \<or> cmp key (c_key (last cs)) > 0"
    using Cons.prems(2) keys.cmp_laws(2) [OF keys.intro [OF assms(1)]] unfolding e
    by (cases cs rule: rev_cases) (auto simp: ordered_append ordered_Cons)
  then obtain b1 sh rs1 where b1: "BlockBuilder_Add cmp key val b = Some b1" "building b1 (cs @ [(sh, key, val)]) rs1"
    using building_Add [OF Cons.prems(1)] by blast
  then show ?case using Cons.IH [OF b1(2)] Cons.prems(2) e by auto
qed auto

lemma building_Finish: "building b cs rs \<Longrightarrow> fst (BlockBuilder_Finish b) = contents_of cs rs"
proof -
  assume b: "building b cs rs"
  have put: "fold (\<lambda>r buffer. buffer @ EncodeFixed32 r) ws r = r @ concat (map EncodeFixed32 ws)" for ws r
    by (induction ws arbitrary: r) simp_all
  show ?thesis
    using b unfolding BlockBuilder_Finish_def PutFixed32_def put building_def contents_of_def Let_def by (simp add: o_def)
qed

lemma building_Reset: "building b cs rs \<Longrightarrow> building (BlockBuilder_Reset (snd (BlockBuilder_Finish b))) [] [0]"
  by (simp add: building_def BlockBuilder_Reset_def BlockBuilder_Finish_def Let_def chained_def restarts_at_def)

lemma building_new: "1 \<le> interval \<Longrightarrow> \<exists>b. BlockBuilder interval = Some b \<and> building b [] [0]"
  by (simp add: building_def BlockBuilder_def chained_def restarts_at_def)

lemma building_interval: "building b cs rs \<Longrightarrow> bb_counter b \<le> n \<Longrightarrow> 1 \<le> n \<Longrightarrow> building (b\<lparr>bb_interval := n\<rparr>) cs rs"
  by (simp add: building_def)

lemma block_of_contents:
  assumes "key_order cmp" "1 \<le> interval" "ordered cmp es"
  shows "\<exists>cs rs. block_of cmp interval es = Some (contents_of cs rs) \<and> map snd cs = es \<and> chained cs \<and> restarts_at cs rs"
proof -
  obtain b0 where b0: "BlockBuilder interval = Some b0" "building b0 [] [0]" using building_new [OF assms(2)] by blast
  obtain b cs rs where b: "BlockBuilder_Adds cmp es b0 = Some b" "building b cs rs" "map snd cs = es"
    using building_Adds [OF assms(1), of b0 "[]" "[0]" es] b0(2) assms(3) by auto
  have "fst (BlockBuilder_Finish b) = contents_of cs rs" by (rule building_Finish [OF b(2)])
  then have "block_of cmp interval es = Some (contents_of cs rs)" using b0(1) b(1) by (simp add: block_of_def)
  moreover have "chained cs" "restarts_at cs rs" using b(2) by (simp_all add: building_def)
  ultimately show ?thesis using b(3) by blast
qed

end
