(* ===== verification/Block_iterator.thy ===== *)
theory Block_iterator
  imports Table_block
begin

text \<open>
  Iteration and search in the blocks that the builder of \<open>Table_block\<close> makes: each operation of the
  iterator moves between positions in the list of entries, the laws of the comparator being those of
  a locale.  Two properties: whole walks in both directions, and \<open>Seek\<close>.
\<close>


section \<open>Reading a layout\<close>

definition layout :: "chunk list \<Rightarrow> nat list \<Rightarrow> bool" where
  "layout cs rs \<longleftrightarrow> chained cs \<and> restarts_at cs rs \<and> length (contents_of cs rs) < 2 ^ 32"

lemma length_fixed [simp]: "length (concat (map (\<lambda>r. EncodeFixed32 (f r)) rs)) = 4 * length rs"
  by (induction rs) simp_all

lemma length_contents_of: "length (contents_of cs rs) = length (bytes cs) + 4 * length rs + 4"
  by (simp add: contents_of_def)

lemma off_Suc: "i < length cs \<Longrightarrow> off cs (Suc i) = off cs i + length (enc (cs ! i))"
  by (simp add: off_def take_Suc_conv_app_nth)

lemma off_le: "i \<le> j \<Longrightarrow> off cs i \<le> off cs j"
proof -
  assume "i \<le> j"
  then have "take j cs = take i cs @ drop i (take j cs)" by (metis append_take_drop_id min.absorb1 take_take)
  then show ?thesis unfolding off_def by (metis bytes_append(1) le_add1 length_append)
qed

lemma off_less: "i < j \<Longrightarrow> j \<le> length cs \<Longrightarrow> off cs i < off cs j"
proof -
  assume a: "i < j" "j \<le> length cs"
  have "0 < length (enc (cs ! i))" by simp
  then have "off cs i < off cs (Suc i)" using a off_Suc [of i cs] by linarith
  then show ?thesis using off_le [of "Suc i" j cs] a(1) by linarith
qed

lemma off_less_iff: "i \<le> length cs \<Longrightarrow> j \<le> length cs \<Longrightarrow> off cs i < off cs j \<longleftrightarrow> i < j"
  using off_less [of i j cs] off_le [of j i cs] by (meson leD leI)

lemma off_end: "i < length cs \<Longrightarrow> off cs i < length (bytes cs)"
  using off_less [of i "length cs" cs] off_all [of cs] by simp

lemma drop_off: "i < length cs \<Longrightarrow> drop (off cs i) (bytes cs) = enc (cs ! i) @ drop (off cs (Suc i)) (bytes cs)"
proof -
  assume i: "i < length cs"
  have s: "bytes cs = bytes (take j cs) @ bytes (drop j cs)" for j by (metis append_take_drop_id bytes_append(1))
  have "drop (off cs j) (bytes cs) = bytes (drop j cs)" for j unfolding off_def by (subst s [of j]) simp
  then show ?thesis using i by (simp add: Cons_nth_drop_Suc [symmetric])
qed

lemma key_bound: "chained cs \<Longrightarrow> i < length cs \<Longrightarrow> length (c_key (cs ! i)) + length (c_val (cs ! i)) \<le> off cs (Suc i)"
proof (induction i)
  case 0
  then show ?case using off_Suc [of 0 cs] by (cases "cs ! 0") (auto simp: chained_def fits_key_def)
next
  case (Suc i)
  obtain sh key val where c: "cs ! Suc i = (sh, key, val)" by (cases "cs ! Suc i") auto
  have "sh \<le> length (c_key (cs ! i))" using Suc.prems c by (auto simp: chained_def fits_key_def)
  then show ?case using Suc.IH Suc.prems off_Suc [of "Suc i" cs] c by (auto simp: chained_def)
qed

lemma GetVarint32Ptr_Encode: "GetVarint32Ptr (EncodeVarint32 v @ rest) = Some (v, rest)"
  using GetVarint32_Encode [of v rest] by (simp add: GetVarint32_def split: option.splits)

lemma EncodeVarint32_head: "EncodeVarint32 v = (if v < 128 then [ucast v] else ucast (v OR 128) # EncodeVarint32 (drop_bit 7 v))"
  unfolding EncodeVarint32_put by (subst varint_put.simps) (simp add: drop_bit_7_iff)

lemma or_less_128: "(a OR b OR c :: u32) < 128 \<longleftrightarrow> a < 128 \<and> b < 128 \<and> c < 128"
  unfolding drop_bit_7_iff(2) [symmetric] drop_bit_or or_eq_0_iff ..

lemma head_128: "(ucast (ucast (v OR 128 :: u32) :: u8) :: u32) < 128 \<longleftrightarrow> False"
proof -
  have "bit (ucast (ucast (v OR 128 :: u32) :: u8) :: u32) 7" using varint_byte_parts(1) [of v] by (simp add: bit_simps)
  then have "drop_bit 7 (ucast (ucast (v OR 128 :: u32) :: u8) :: u32) \<noteq> 0" using drop_bit_0_bitD by blast
  then show ?thesis by (simp add: drop_bit_7_iff)
qed

lemma head_small: "(v :: u32) < 128 \<Longrightarrow> ucast (ucast v :: u8) = v"
  by (rule varint_byte_parts(4)) (simp_all add: drop_bit_7_iff)


lemma DecodeEntry_Encode:
  assumes "unat b + unat c \<le> length p" "length p < 2 ^ 32"
  shows "DecodeEntry (EncodeVarint32 a @ EncodeVarint32 b @ EncodeVarint32 c @ p) = Some (a, b, c, p)"
proof -
  let ?bs = "EncodeVarint32 a @ EncodeVarint32 b @ EncodeVarint32 c @ p"
  have "0 < length (EncodeVarint32 a)" "0 < length (EncodeVarint32 b)" "0 < length (EncodeVarint32 c)" by simp_all
  then have len: "\<not> length ?bs < 3" unfolding length_append by linarith
  have ge: "\<not> (of_nat (length p) :: u32) < b + c"
  proof -
    have "unat (b + c) = unat b + unat c" using assms by (simp add: unat_add_lem [symmetric])
    then show ?thesis using assms by (simp add: word_less_nat_alt unat_of_nat)
  qed
  have slow: "(do { (shared, p) \<leftarrow> GetVarint32Ptr ?bs; (non_shared, p) \<leftarrow> GetVarint32Ptr p; (value_length, p) \<leftarrow> GetVarint32Ptr p;
      Some (shared, non_shared, value_length, p) }) = Some (a, b, c, p)"
    by (simp add: GetVarint32Ptr_Encode)
  let ?or = "(ucast (?bs ! 0) :: u32) OR ucast (?bs ! 1) OR ucast (?bs ! 2)"
  have or: "?or < 128 \<longleftrightarrow> ucast (?bs ! 0) < (128 :: u32) \<and> ucast (?bs ! 1) < (128 :: u32) \<and> ucast (?bs ! 2) < (128 :: u32)"
    by (rule or_less_128)
  show ?thesis
  proof (cases "a < 128 \<and> b < 128 \<and> c < 128")
    case True
    then have bs: "?bs = ucast a # ucast b # ucast c # p" by (simp add: EncodeVarint32_head)
    show ?thesis unfolding bs using True ge by (simp add: DecodeEntry_def head_small or_less_128)
  next
    case False
    then have "\<not> ?or < 128"
      unfolding or by (auto simp: EncodeVarint32_head [of a] EncodeVarint32_head [of b] EncodeVarint32_head [of c] head_128)
    then show ?thesis unfolding DecodeEntry_def Let_def if_not_P [OF len] using slow ge by simp
  qed
qed

definition on_layout :: "chunk list \<Rightarrow> nat list \<Rightarrow> iter \<Rightarrow> bool" where
  "on_layout cs rs it \<longleftrightarrow> it_data it = contents_of cs rs \<and> it_restarts it = length (bytes cs) \<and> it_num_restarts it = length rs \<and> it_ok it"

text \<open>The next entry to be parsed is the \<open>i\<close>-th; the iterator stands on the \<open>i\<close>-th; it is past an end.\<close>

definition before :: "chunk list \<Rightarrow> nat list \<Rightarrow> nat \<Rightarrow> iter \<Rightarrow> bool" where
  "before cs rs i it \<longleftrightarrow> on_layout cs rs it \<and> i \<le> length cs \<and> NextEntryOffset it = off cs i \<and>
     (i < length cs \<longrightarrow> fits_key (fst (cs ! i)) (it_key it) (c_key (cs ! i))) \<and> it_restart_index it < length rs \<and> rs ! it_restart_index it \<le> i"

definition stands :: "chunk list \<Rightarrow> nat list \<Rightarrow> nat \<Rightarrow> iter \<Rightarrow> bool" where
  "stands cs rs i it \<longleftrightarrow> on_layout cs rs it \<and> i < length cs \<and> it_current it = off cs i \<and> it_key it = c_key (cs ! i) \<and>
     it_value_bytes it = c_val (cs ! i) \<and> NextEntryOffset it = off cs (Suc i) \<and> it_restart_index it < length rs \<and>
     rs ! it_restart_index it \<le> i"

definition past :: "chunk list \<Rightarrow> nat list \<Rightarrow> iter \<Rightarrow> bool" where
  "past cs rs it \<longleftrightarrow> on_layout cs rs it \<and> \<not> Valid it"

lemma restart_le: "restarts_at cs rs \<Longrightarrow> j < length rs \<Longrightarrow> rs ! j \<le> length cs"
  unfolding restarts_at_def by (metis less_imp_le_nat list.size(3) nth_mem order_refl)

lemma off_bound: "i \<le> length cs \<Longrightarrow> off cs i \<le> length (bytes cs)"
  using off_le [of i "length cs" cs] by (simp add: off_all)

lemma nth_concat_fixed: "j < length rs \<Longrightarrow> \<exists>rest'. drop (4 * j) (concat (map (\<lambda>r. EncodeFixed32 (f r)) rs) @ rest) = EncodeFixed32 (f (rs ! j)) @ rest'"
proof -
  assume j: "j < length rs"
  have "rs = take j rs @ rs ! j # drop (Suc j) rs" using j by (simp add: id_take_nth_drop)
  then have "concat (map (\<lambda>r. EncodeFixed32 (f r)) rs) =
      concat (map (\<lambda>r. EncodeFixed32 (f r)) (take j rs)) @ EncodeFixed32 (f (rs ! j)) @ concat (map (\<lambda>r. EncodeFixed32 (f r)) (drop (Suc j) rs))"
    by (metis concat.simps(2) concat_append list.simps(9) map_append)
  then show ?thesis using j by simp
qed

lemma GetRestartPoint_on:
  assumes "layout cs rs" "on_layout cs rs it" "j < length rs"
  shows "GetRestartPoint it j = Some (off cs (rs ! j))"
proof -
  have "rs ! j \<le> length cs" using assms by (auto simp: layout_def restart_le)
  then have b: "off cs (rs ! j) < 2 ^ 32" using off_bound [of "rs ! j" cs] assms(1) by (auto simp: layout_def length_contents_of)
  obtain rest' where "drop (length (bytes cs) + j * 4) (contents_of cs rs) = EncodeFixed32 (of_nat (off cs (rs ! j))) @ rest'"
    using nth_concat_fixed [OF assms(3), of "\<lambda>r. of_nat (off cs r)" "EncodeFixed32 (of_nat (length rs))"]
    by (auto simp: contents_of_def mult.commute)
  then show ?thesis using assms(2,3) b by (simp add: GetRestartPoint_def on_layout_def DecodeFixed32_Encode length_contents_of unat_of_nat)
qed

lemma advance_restart_ok:
  assumes "layout cs rs" "on_layout cs rs it" "i < length cs" "it_current it = off cs i" "it_restart_index it < length rs" "rs ! it_restart_index it \<le> i"
  shows "\<exists>k. advance_restart it = Some (it\<lparr>it_restart_index := k\<rparr>) \<and> k < length rs \<and> rs ! k \<le> i"
  using assms(2,4-)
proof (induction "length rs - it_restart_index it" arbitrary: it rule: less_induct)
  case less
  show ?case
  proof (cases "it_restart_index it + 1 < length rs \<and> off cs (rs ! (it_restart_index it + 1)) < off cs i")
    case True
    let ?it = "it\<lparr>it_restart_index := it_restart_index it + 1\<rparr>"
    have "rs ! (it_restart_index it + 1) < i"
      using True assms(1,3) restart_le [of cs rs "it_restart_index it + 1"] off_less_iff [of "rs ! (it_restart_index it + 1)" cs i] by (simp add: layout_def)
    then have "\<exists>k. advance_restart ?it = Some (?it\<lparr>it_restart_index := k\<rparr>) \<and> k < length rs \<and> rs ! k \<le> i"
      by (intro less.hyps) (use True less.prems in \<open>simp_all add: on_layout_def diff_less_mono2\<close>)
    then show ?thesis using True less.prems by (simp add: advance_restart.simps [of it] GetRestartPoint_on [OF assms(1)] on_layout_def)
  next
    case False
    then have "advance_restart it = Some it"
      using less.prems by (auto simp: advance_restart.simps [of it] GetRestartPoint_on [OF assms(1)] on_layout_def)
    then show ?thesis using less.prems by (intro exI [of _ "it_restart_index it"]) simp
  qed
qed


lemma ParseNextKey_end:
  assumes "before cs rs (length cs) it"
  shows "\<exists>it'. ParseNextKey it = Some (False, it') \<and> past cs rs it'"
  using assms by (simp add: ParseNextKey_def Let_def before_def past_def on_layout_def off_all Valid_def)

lemma entry_at:
  assumes l: "layout cs rs" and i: "i < length cs" and c: "cs ! i = (sh, key, val)"
  defines "n \<equiv> length (bytes cs)" and "ns \<equiv> length key - sh"
  shows "\<exists>body tl. DecodeEntry (drop (off cs i) (take n (contents_of cs rs))) = Some (of_nat sh, of_nat ns, of_nat (length val), body) \<and>
      n - length body + ns + length val = off cs (Suc i) \<and> off cs (Suc i) \<le> n \<and>
      drop (n - length body) (contents_of cs rs) = drop sh key @ val @ tl \<and>
      unat (of_nat sh :: u32) = sh \<and> unat (of_nat ns :: u32) = ns \<and> unat (of_nat (length val) :: u32) = length val \<and>
      sh \<le> length key \<and> n < 2 ^ 32"
proof -
  define rest where "rest = drop (off cs (Suc i)) (bytes cs)"
  define body where "body = drop sh key @ val @ rest"
  let ?h = "EncodeVarint32 (of_nat sh) @ EncodeVarint32 (of_nat ns) @ EncodeVarint32 (of_nat (length val))"
  have small: "n < 2 ^ 32" using l by (simp add: layout_def length_contents_of n_def)
  have end': "off cs (Suc i) \<le> n" using off_bound [of "Suc i" cs] i by (simp add: n_def)
  have lens: "length key + length val \<le> off cs (Suc i)" "sh \<le> length key"
    using key_bound [of cs i] l i c by (auto simp: layout_def chained_def fits_key_def)
  have dr: "drop (off cs i) (bytes cs) = ?h @ body" using drop_off [OF i] by (simp add: c rest_def body_def ns_def)
  have lb: "length body = ns + length val + (n - off cs (Suc i))" by (simp add: body_def rest_def ns_def n_def)
  have bodyn: "length body \<le> n" using arg_cong [OF dr, of length] by (simp add: n_def)
  have u: "unat (of_nat sh :: u32) = sh" "unat (of_nat ns :: u32) = ns" "unat (of_nat (length val) :: u32) = length val"
    using lens end' small by (simp_all add: unat_of_nat ns_def del: of_nat_diff)
  have "take n (contents_of cs rs) = bytes cs" by (simp add: contents_of_def n_def)
  then have dec: "DecodeEntry (drop (off cs i) (take n (contents_of cs rs))) = Some (of_nat sh, of_nat ns, of_nat (length val), body)"
    using DecodeEntry_Encode [of "of_nat ns" "of_nat (length val)" body "of_nat sh"] u lb bodyn small by (simp add: dr)
  have "bytes cs = take (off cs i) (bytes cs) @ ?h @ body" by (metis append_take_drop_id dr)
  then have "bytes cs = (take (off cs i) (bytes cs) @ ?h) @ body" by simp
  then have "drop (n - length body) (bytes cs) = body" unfolding n_def by (metis append_eq_conv_conj diff_add_inverse2 length_append)
  then have "drop (n - length body) (contents_of cs rs) = drop sh key @ val @ rest @ drop n (contents_of cs rs)"
    by (simp add: contents_of_def n_def body_def)
  then show ?thesis using dec lb bodyn end' u lens small by (intro exI [of _ body] exI conjI) (assumption | simp)+
qed

lemma ParseNextKey_step:
  assumes l: "layout cs rs" and b: "before cs rs i it" and i: "i < length cs"
  shows "\<exists>it'. ParseNextKey it = Some (True, it') \<and> stands cs rs i it'"
proof -
  obtain sh key val where c: "cs ! i = (sh, key, val)" by (cases "cs ! i") auto
  define ns where "ns = length key - sh"
  let ?n = "length (bytes cs)"
  have on: "on_layout cs rs it" and next_off: "NextEntryOffset it = off cs i" and fits: "fits_key sh (it_key it) key"
    and ri: "it_restart_index it < length rs" "rs ! it_restart_index it \<le> i" using b i c by (simp_all add: before_def)
  obtain body tl where
    dec: "DecodeEntry (drop (off cs i) (take ?n (contents_of cs rs))) = Some (of_nat sh, of_nat ns, of_nat (length val), body)"
    and p: "?n - length body + ns + length val = off cs (Suc i)" "off cs (Suc i) \<le> ?n"
    and tail: "drop (?n - length body) (contents_of cs rs) = drop sh key @ val @ tl"
    and u: "unat (of_nat sh :: u32) = sh" "unat (of_nat ns :: u32) = ns" "unat (of_nat (length val) :: u32) = length val" "?n < 2 ^ 32"
    using entry_at [OF l i c] unfolding ns_def by blast
  have inside: "?n - length body + ns \<le> length (contents_of cs rs)" using p by (simp add: length_contents_of)
  have key: "take sh (it_key it) @ take ns (drop (?n - length body) (contents_of cs rs)) = key"
    using fits unfolding tail by (simp add: fits_key_def ns_def)
  have val: "take (length val) (drop (?n - length body + ns) (contents_of cs rs)) = val"
    using arg_cong [OF tail, of "drop ns"] by (simp add: ns_def add.commute)
  let ?it = "it\<lparr>it_current := off cs i, it_key := key, it_value := (?n - length body + ns, length val)\<rparr>"
  obtain k where k: "advance_restart ?it = Some (?it\<lparr>it_restart_index := k\<rparr>)" "k < length rs" "rs ! k \<le> i"
    using advance_restart_ok [OF l, of ?it i] on i ri by (auto simp: on_layout_def)
  have "ParseNextKey it = Some (True, ?it\<lparr>it_restart_index := k\<rparr>)"
    using on off_end [OF i] fits inside key k(1) unfolding ParseNextKey_def Let_def next_off
    by (simp add: on_layout_def dec u fits_key_def)
  moreover have "stands cs rs i (?it\<lparr>it_restart_index := k\<rparr>)"
    using on i k(2,3) c p val u(4) by (simp add: stands_def on_layout_def it_value_bytes_def NextEntryOffset_def)
  ultimately show ?thesis by blast
qed

lemma stands_before: "layout cs rs \<Longrightarrow> stands cs rs i it \<Longrightarrow> before cs rs (Suc i) it"
  by (auto simp: before_def stands_def layout_def chained_def)

lemma stands_Valid: "stands cs rs i it \<Longrightarrow> Valid it"
  using off_end [of i cs] by (simp add: stands_def Valid_def on_layout_def)

lemma SeekToRestartPoint_before:
  assumes "layout cs rs" "on_layout cs rs it" "j < length rs"
  shows "\<exists>it'. SeekToRestartPoint j it = Some it' \<and> before cs rs (rs ! j) it'"
proof -
  have r: "rs ! j \<le> length cs" "rs ! j < length cs \<Longrightarrow> fst (cs ! (rs ! j)) = 0"
    using assms restart_le [of cs rs j] by (auto simp: layout_def restarts_at_def split: if_splits)
  have "off cs (rs ! j) < 2 ^ 32" using off_bound [OF r(1)] assms(1) by (simp add: layout_def length_contents_of)
  moreover have "GetRestartPoint (it\<lparr>it_key := [], it_restart_index := j\<rparr>) j = Some (off cs (rs ! j))"
    by (rule GetRestartPoint_on [OF assms(1) _ assms(3)]) (use assms(2) in \<open>simp add: on_layout_def\<close>)
  ultimately show ?thesis
    using assms r by (simp add: SeekToRestartPoint_def before_def NextEntryOffset_def on_layout_def fits_key_def)
qed

text \<open>Where an iterator stands, its end being the position behind the last entry.\<close>

definition position :: "chunk list \<Rightarrow> nat list \<Rightarrow> nat \<Rightarrow> iter \<Rightarrow> bool" where
  "position cs rs i it \<longleftrightarrow> (if i < length cs then stands cs rs i it else past cs rs it)"

lemma ParseNextKey_position:
  assumes "layout cs rs" "before cs rs i it"
  shows "\<exists>it'. ParseNextKey it = Some (i < length cs, it') \<and> position cs rs i it'"
proof (cases "i < length cs")
  case True
  then show ?thesis using ParseNextKey_step [OF assms True] by (auto simp: position_def)
next
  case False
  then have "i = length cs" using assms(2) by (simp add: before_def)
  then show ?thesis using ParseNextKey_end assms(2) by (auto simp: position_def)
qed

lemma SeekToFirst_position:
  assumes "layout cs rs" "on_layout cs rs it"
  shows "\<exists>it'. SeekToFirst it = Some it' \<and> position cs rs 0 it'"
proof -
  have r: "0 < length rs" "rs ! 0 = 0" using assms(1) by (auto simp: layout_def restarts_at_def)
  obtain it1 where it1: "SeekToRestartPoint 0 it = Some it1" "before cs rs 0 it1"
    using SeekToRestartPoint_before [OF assms r(1)] r(2) by auto
  then show ?thesis using ParseNextKey_position [OF assms(1) it1(2)] by (auto simp: SeekToFirst_def)
qed

lemma Next_position:
  assumes "layout cs rs" "stands cs rs i it"
  shows "\<exists>it'. Next it = Some it' \<and> position cs rs (Suc i) it'"
  using ParseNextKey_position [OF assms(1) stands_before [OF assms]] stands_Valid [OF assms(2)] by (auto simp: Next_def)


section \<open>Backwards\<close>

lemma back_restart_ok:
  assumes l: "layout cs rs" and i: "i < length cs"
  shows "on_layout cs rs it \<Longrightarrow> it_restart_index it < length rs \<Longrightarrow>
    \<exists>b it'. back_restart (off cs i) it = Some (b, it') \<and> on_layout cs rs it' \<and>
      (if b then it_restart_index it' < length rs \<and> rs ! it_restart_index it' < i else i = 0 \<and> \<not> Valid it')"
proof (induction "it_restart_index it" arbitrary: it)
  case 0
  have "rs ! 0 = 0" using l by (simp add: layout_def restarts_at_def)
  then show ?case using 0 off_less_iff [of 0 cs i] i
    by (auto simp: back_restart.simps [of _ it] GetRestartPoint_on [OF l] on_layout_def Valid_def)
next
  case (Suc k)
  let ?it = "it\<lparr>it_restart_index := it_restart_index it - 1\<rparr>"
  have r: "rs ! it_restart_index it \<le> length cs" using l Suc.prems by (auto simp: layout_def restart_le)
  show ?case
  proof (cases "off cs i \<le> off cs (rs ! it_restart_index it)")
    case True
    then have "back_restart (off cs i) it = back_restart (off cs i) ?it"
      using Suc.hyps(2) by (simp add: back_restart.simps [of _ it] GetRestartPoint_on [OF l Suc.prems])
    then show ?thesis using Suc.hyps(1) [of ?it] Suc.hyps(2) Suc.prems by (simp add: on_layout_def)
  next
    case False
    then have "rs ! it_restart_index it < i" using off_less_iff [OF r, of i] i by simp
    then show ?thesis using False Suc.prems
      by (intro exI [of _ True] exI [of _ it]) (simp add: back_restart.simps [of _ it] GetRestartPoint_on [OF l Suc.prems])
  qed
qed

lemma parse_until_stands:
  assumes l: "layout cs rs"
  shows "before cs rs j it \<Longrightarrow> j < i \<Longrightarrow> i \<le> length cs \<Longrightarrow> \<exists>it'. parse_until (off cs i) it = Some it' \<and> stands cs rs (i - 1) it'"
proof (induction "i - j" arbitrary: j it)
  case (Suc n)
  have j: "j < length cs" using Suc.prems by simp
  obtain it1 where it1: "ParseNextKey it = Some (True, it1)" "stands cs rs j it1"
    using ParseNextKey_step [OF l Suc.prems(1) j] by blast
  have "NextEntryOffset it1 = off cs (Suc j)" using it1(2) by (simp add: stands_def)
  then have "parse_until (off cs i) it = (if Suc j < i then parse_until (off cs i) it1 else Some it1)"
    using it1(1) off_less_iff [of "Suc j" cs i] j Suc.prems(3) by (simp add: parse_until.simps [of _ it])
  moreover have "Suc j < i \<Longrightarrow> ?case" using calculation Suc.hyps(1) [OF _ stands_before [OF l it1(2)]] Suc.hyps(2) Suc.prems(3) by simp
  moreover have "\<not> Suc j < i \<Longrightarrow> i - 1 = j" using Suc.prems(2) by simp
  ultimately show ?case using it1(2) by auto
qed simp

lemma Prev_position:
  assumes l: "layout cs rs" and s: "stands cs rs i it"
  shows "\<exists>it'. Prev it = Some it' \<and> (if i = 0 then past cs rs it' else stands cs rs (i - 1) it')"
proof -
  have i: "i < length cs" "it_current it = off cs i" "on_layout cs rs it" "it_restart_index it < length rs"
    using s by (simp_all add: stands_def)
  obtain b it1 where b: "back_restart (off cs i) it = Some (b, it1)" "on_layout cs rs it1"
    "if b then it_restart_index it1 < length rs \<and> rs ! it_restart_index it1 < i else i = 0 \<and> \<not> Valid it1"
    using back_restart_ok [OF l i(1,3,4)] by blast
  show ?thesis
  proof (cases b)
    case True
    obtain it2 where it2: "SeekToRestartPoint (it_restart_index it1) it1 = Some it2" "before cs rs (rs ! it_restart_index it1) it2"
      using SeekToRestartPoint_before [OF l b(2)] b(3) True by auto
    then obtain it3 where "parse_until (off cs i) it2 = Some it3" "stands cs rs (i - 1) it3"
      using parse_until_stands [OF l it2(2), of i] b(3) True i(1) by auto
    then show ?thesis using True b it2(1) stands_Valid [OF s] i(2) by (auto simp: Prev_def Let_def)
  next
    case False
    then show ?thesis using b stands_Valid [OF s] i(2) by (auto simp: Prev_def Let_def past_def)
  qed
qed

lemma SeekToLast_position:
  assumes l: "layout cs rs" and on: "on_layout cs rs it"
  shows "\<exists>it'. SeekToLast it = Some it' \<and> position cs rs (length cs - 1) it'"
proof -
  have n: "0 < length rs" "it_num_restarts it = length rs" using l on by (auto simp: layout_def restarts_at_def on_layout_def)
  obtain it1 where it1: "SeekToRestartPoint (it_num_restarts it - 1) it = Some it1" "before cs rs (rs ! (length rs - 1)) it1"
    using SeekToRestartPoint_before [OF l on, of "length rs - 1"] n by auto
  show ?thesis
  proof (cases "cs = []")
    case True
    then have "before cs rs (length cs) it1" using it1(2) by (simp add: before_def)
    then obtain it2 where "ParseNextKey it1 = Some (False, it2)" "past cs rs it2" using ParseNextKey_end by blast
    then show ?thesis using True it1(1) by (simp add: SeekToLast_def parse_until.simps [of _ it1] position_def)
  next
    case False
    then have "rs ! (length rs - 1) < length cs" using l n by (auto simp: layout_def restarts_at_def)
    then obtain it2 where "parse_until (off cs (length cs)) it1 = Some it2" "stands cs rs (length cs - 1) it2"
      using parse_until_stands [OF l it1(2)] by blast
    moreover have "it_restarts it1 = off cs (length cs)" using it1(2) by (simp add: before_def on_layout_def off_all)
    ultimately show ?thesis using it1(1) False by (simp add: SeekToLast_def position_def)
  qed
qed

section \<open>Whole walks\<close>

partial_function (option) collect_next :: "iter \<Rightarrow> (u8 list \<times> u8 list) list option" where
  "collect_next it =
    (if Valid it then do { it' \<leftarrow> Next it; es \<leftarrow> collect_next it'; Some ((it_key it, it_value_bytes it) # es) } else Some [])"

partial_function (option) collect_prev :: "iter \<Rightarrow> (u8 list \<times> u8 list) list option" where
  "collect_prev it =
    (if Valid it then do { it' \<leftarrow> Prev it; es \<leftarrow> collect_prev it'; Some ((it_key it, it_value_bytes it) # es) } else Some [])"

lemma collect_next_position:
  assumes "layout cs rs"
  shows "position cs rs i it \<Longrightarrow> collect_next it = Some (map snd (drop i cs))"
proof (induction "length cs - i" arbitrary: i it)
  case 0
  then show ?case by (simp add: position_def past_def collect_next.simps [of it])
next
  case (Suc n)
  then have s: "stands cs rs i it" "i < length cs" by (auto simp: position_def split: if_splits)
  obtain it' where it': "Next it = Some it'" "position cs rs (Suc i) it'" using Next_position [OF assms s(1)] by blast
  then have "collect_next it' = Some (map snd (drop (Suc i) cs))" using Suc.hyps by simp
  moreover have "(it_key it, it_value_bytes it) = snd (cs ! i)" using s(1) by (simp add: stands_def)
  ultimately show ?case using s it'(1) stands_Valid [OF s(1)]
    by (simp add: collect_next.simps [of it] Cons_nth_drop_Suc [symmetric])
qed

lemma collect_prev_stands:
  assumes "layout cs rs"
  shows "stands cs rs i it \<Longrightarrow> collect_prev it = Some (rev (map snd (take (Suc i) cs)))"
proof (induction i arbitrary: it)
  case 0
  obtain it' where it': "Prev it = Some it'" "past cs rs it'" using Prev_position [OF assms 0] by auto
  have "collect_prev it' = Some []" using it'(2) by (simp add: past_def collect_prev.simps [of it'])
  then show ?case using 0 it'(1) stands_Valid [OF 0] by (cases cs) (simp_all add: collect_prev.simps [of it] stands_def)
next
  case (Suc i)
  obtain it' where it': "Prev it = Some it'" "stands cs rs i it'" using Prev_position [OF assms Suc.prems] by auto
  moreover have "(it_key it, it_value_bytes it) = snd (cs ! Suc i)" "Suc i < length cs" using Suc.prems by (simp_all add: stands_def)
  ultimately show ?case using Suc.IH [OF it'(2)] stands_Valid [OF Suc.prems]
    by (simp add: collect_prev.simps [of it] take_Suc_conv_app_nth [of "Suc i"])
qed

lemma collect_prev_past: "past cs rs it \<Longrightarrow> collect_prev it = Some []"
  by (simp add: past_def collect_prev.simps [of it])


section \<open>Searching\<close>

lemma restart_chunk: "restarts_at cs rs \<Longrightarrow> j < length rs \<Longrightarrow> (if cs = [] then rs ! j = 0 else rs ! j < length cs \<and> fst (cs ! (rs ! j)) = 0)"
  using nth_mem [of j rs] unfolding restarts_at_def by metis

text \<open>The comparator of a table, an order of byte strings.\<close>

locale byte_keys = keys cmp for cmp :: "u8 list \<Rightarrow> u8 list \<Rightarrow> int"
begin

lemma ordered_keys: "ordered cmp (map snd cs) \<Longrightarrow> i < j \<Longrightarrow> j < length cs \<Longrightarrow> cmp (c_key (cs ! i)) (c_key (cs ! j)) < 0"
  unfolding ordered_def sorted_wrt_map by (rule sorted_wrt_nth_less)

lemma seek_search_ok:
  assumes l: "layout cs rs" and on: "on_layout cs rs it"
  shows "left \<le> right \<Longrightarrow> right < length rs \<Longrightarrow> left = 0 \<or> cmp (c_key (cs ! (rs ! left))) target < 0 \<Longrightarrow>
    \<exists>k. seek_search cmp target it left right = Some (Some k) \<and> k < length rs \<and> (k = 0 \<or> cmp (c_key (cs ! (rs ! k))) target < 0)"
proof (induction "right - left" arbitrary: left right rule: less_induct)
  case less
  show ?case
  proof (cases "left < right")
    case False
    then have "seek_search cmp target it left right = Some (Some left)" by (subst seek_search.simps) simp
    then show ?thesis using False less.prems by (intro exI [of _ left]) simp
  next
    case True
    define mid where "mid = (left + right + 1) div 2"
    have mid: "left < mid" "mid \<le> right" "mid < length rs" using True less.prems unfolding mid_def by linarith+
    have "4 * length rs < 2 ^ 32" using l by (simp add: layout_def length_contents_of)
    then have wrap: "(left + right + 1) mod 2 ^ 32 div 2 = mid" using less.prems by (simp add: mid_def)
    have "sorted_wrt (<) rs" "rs ! 0 = 0" using l by (simp_all add: layout_def restarts_at_def)
    then have "0 < rs ! mid" using mid sorted_wrt_nth_less [of "(<)" rs 0 mid] by simp
    then have r: "rs ! mid < length cs" "fst (cs ! (rs ! mid)) = 0"
      using l mid(3) restart_chunk [of cs rs mid] by (auto simp: layout_def split: if_splits)
    obtain key val where c: "cs ! (rs ! mid) = (0, key, val)" using r(2) by (cases "cs ! (rs ! mid)") auto
    let ?n = "length (bytes cs)"
    obtain body tl where e:
      "DecodeEntry (drop (off cs (rs ! mid)) (take ?n (contents_of cs rs))) = Some (0, of_nat (length key), of_nat (length val), body)"
      "?n - length body + length key + length val = off cs (Suc (rs ! mid))" "off cs (Suc (rs ! mid)) \<le> ?n"
      "drop (?n - length body) (contents_of cs rs) = key @ val @ tl" "unat (of_nat (length key) :: u32) = length key"
      using entry_at [OF l r(1) c] by auto
    have step: "seek_search cmp target it left right =
        (if cmp key target < 0 then seek_search cmp target it mid right else seek_search cmp target it left (mid - 1))"
      by (subst seek_search.simps, unfold wrap Let_def)
        (use True on GetRestartPoint_on [OF l on mid(3)] e in \<open>simp add: on_layout_def length_contents_of\<close>)
    show ?thesis
    proof (cases "cmp key target < 0")
      case True
      then show ?thesis unfolding step using less.hyps [of right mid] less.prems mid c by simp
    next
      case False
      then show ?thesis unfolding step using less.hyps [of "mid - 1" left] less.prems mid by simp
    qed
  qed
qed

lemma seek_linear_ok:
  assumes l: "layout cs rs"
  shows "before cs rs j it \<Longrightarrow> \<forall>i < j. cmp (c_key (cs ! i)) target < 0 \<Longrightarrow>
    \<exists>it' k. seek_linear cmp target it = Some it' \<and> position cs rs k it' \<and> k \<le> length cs \<and>
      (\<forall>i < k. cmp (c_key (cs ! i)) target < 0) \<and> (k < length cs \<longrightarrow> \<not> cmp (c_key (cs ! k)) target < 0)"
proof (induction "length cs - j" arbitrary: j it)
  case 0
  then have "j = length cs" by (simp add: before_def)
  then show ?case using ParseNextKey_position [OF l 0(2)] 0 by (auto simp: seek_linear.simps [of _ _ it])
next
  case (Suc n)
  then have j: "j < length cs" by simp
  obtain it1 where it1: "ParseNextKey it = Some (True, it1)" "stands cs rs j it1" using ParseNextKey_step [OF l Suc.prems(1) j] by blast
  then have key: "it_key it1 = c_key (cs ! j)" by (simp add: stands_def)
  show ?case
  proof (cases "cmp (c_key (cs ! j)) target < 0")
    case True
    then have "\<forall>i < Suc j. cmp (c_key (cs ! i)) target < 0" using Suc.prems(2) by (simp add: less_Suc_eq)
    moreover have "n = length cs - Suc j" using Suc.hyps(2) by simp
    moreover have "seek_linear cmp target it = seek_linear cmp target it1"
      using it1(1) key True by (simp add: seek_linear.simps [of _ _ it])
    ultimately show ?thesis using Suc.hyps(1) [OF _ stands_before [OF l it1(2)]] by simp
  next
    case False
    then have "seek_linear cmp target it = Some it1" using it1(1) key by (simp add: seek_linear.simps [of _ _ it])
    then show ?thesis using it1(2) j False Suc.prems(2)
      by (intro exI [of _ it1] exI [of _ j]) (simp add: position_def)
  qed
qed

lemma Seek_position:
  assumes l: "layout cs rs" and on: "on_layout cs rs it" and ord: "ordered cmp (map snd cs)"
  shows "\<exists>it'. Seek cmp target it = Some it' \<and> it_ok it' \<and>
    collect_next it' = Some (dropWhile (\<lambda>(key, val). cmp key target < 0) (map snd cs))"
proof -
  have n: "0 < length rs" "it_num_restarts it = length rs" "rs ! 0 = 0"
    using l on by (auto simp: layout_def restarts_at_def on_layout_def)
  obtain k where k: "seek_search cmp target it 0 (it_num_restarts it - 1) = Some (Some k)" "k < length rs"
    "k = 0 \<or> cmp (c_key (cs ! (rs ! k))) target < 0"
    using seek_search_ok [OF l on, of 0 "length rs - 1" target] n by auto
  obtain it1 where it1: "SeekToRestartPoint k it = Some it1" "before cs rs (rs ! k) it1"
    using SeekToRestartPoint_before [OF l on k(2)] by blast
  have "cmp (c_key (cs ! i)) target < 0" if "i < rs ! k" for i
  proof -
    have "cmp (c_key (cs ! (rs ! k))) target < 0" using k(3) that n(3) by auto
    moreover have "rs ! k < length cs" using that l restart_chunk [of cs rs k] k(2) by (auto simp: layout_def split: if_splits)
    ultimately show ?thesis using ordered_keys [OF ord that] cmp_laws(3) by blast
  qed
  then obtain it' j where j: "seek_linear cmp target it1 = Some it'" "position cs rs j it'" "j \<le> length cs"
    "\<forall>i < j. cmp (c_key (cs ! i)) target < 0" "j < length cs \<longrightarrow> \<not> cmp (c_key (cs ! j)) target < 0"
    using seek_linear_ok [OF l it1(2), of target] by blast
  let ?P = "\<lambda>(key, val). cmp key target < 0"
  have "takeWhile ?P (map snd cs) = take j (map snd cs)"
    by (rule takeWhile_eq_take_P_nth) (use j in \<open>auto simp: case_prod_beta\<close>)
  then have "dropWhile ?P (map snd cs) = map snd (drop j cs)"
    using j(3) unfolding dropWhile_eq_drop by (simp add: drop_map)
  moreover have "it_ok it'" using j(2) by (simp add: position_def stands_def past_def on_layout_def split: if_splits)
  ultimately show ?thesis using k(1) it1(1) j(1) collect_next_position [OF l j(2)] by (auto simp: Seek_def)
qed

end

interpretation bytewise: byte_keys BytewiseComparator
  by unfold_locales (simp add: key_order_def BytewiseComparator_def Slice_compare_strcmp strcmp_eq strcmp_swap, blast intro: strcmp_trans)

section \<open>Blocks that were built\<close>

lemma length_enc: "length (enc (sh, key, val)) \<le> 15 + length key + length val"
  using length_EncodeVarint(1) [of "of_nat sh"] length_EncodeVarint(1) [of "of_nat (length key - sh)"] length_EncodeVarint(1) [of "of_nat (length val)"]
  by simp

lemma length_bytes: "length (bytes cs) \<le> (\<Sum>(key, val)\<leftarrow>map snd cs. length key + length val + 15)"
proof (induction cs)
  case (Cons c cs)
  obtain sh key val where "c = (sh, key, val)" by (cases c)
  then show ?case using Cons length_enc [of sh key val] by (simp del: enc.simps)
qed simp

lemma length_restarts: "restarts_at cs rs \<Longrightarrow> length rs \<le> length cs + 1"
proof -
  assume r: "restarts_at cs rs"
  then have "set rs \<subseteq> {..length cs}" by (auto simp: restarts_at_def split: if_splits)
  moreover have "distinct rs" using r strict_sorted_iff by (auto simp: restarts_at_def)
  ultimately show ?thesis by (metis card_atMost card_mono distinct_card finite_atMost Suc_eq_plus1)
qed

lemma contents_bound:
  assumes "restarts_at cs rs" "map snd cs = es"
  shows "length (contents_of cs rs) \<le> (\<Sum>(key, val)\<leftarrow>es. length key + length val + 19) + 8"
proof -
  have "(\<Sum>(key, val)\<leftarrow>es. length key + length val + 19) = (\<Sum>(key, val)\<leftarrow>es. length key + length val + 15) + 4 * length es"
    by (induction es) auto
  then show ?thesis using length_bytes [of cs] length_restarts [OF assms(1)] assms(2) by (auto simp: length_contents_of)
qed

lemma NewIterator_layout:
  assumes "chained cs" "restarts_at cs rs" "length (contents_of cs rs) < 2 ^ 32"
  shows "\<exists>it. NewIterator (Block (contents_of cs rs)) = BlockIterator it \<and> layout cs rs \<and> on_layout cs rs it"
proof -
  have rs: "0 < length rs" "Suc (length rs) < 2 ^ 32" using assms(2,3) by (auto simp: restarts_at_def length_contents_of)
  have num: "NumRestarts (contents_of cs rs) (length (contents_of cs rs)) = of_nat (length rs)"
    using DecodeFixed32_Encode [of "of_nat (length rs)" "[]"] by (simp add: NumRestarts_def length_contents_of contents_of_def)
  have u: "unat (of_nat (length rs) :: u32) = length rs" "unat (1 + of_nat (length rs) :: u32) = length rs + 1"
    using rs unat_of_nat [of "Suc (length rs)", where 'a = 32] by (simp_all add: unat_of_nat)
  define it where "it = Iter (contents_of cs rs) (length (bytes cs)) (length rs)"
  have "Block (contents_of cs rs) = \<lparr>bl_data = contents_of cs rs, bl_size = length (contents_of cs rs), bl_restart_offset = length (bytes cs)\<rparr>"
    using assms(3) unfolding Block_def Let_def num u by (simp add: length_contents_of)
  then have "NewIterator (Block (contents_of cs rs)) = BlockIterator it"
    using rs num u by (simp add: NewIterator_def it_def length_contents_of)
  moreover have "on_layout cs rs it" by (simp add: on_layout_def it_def Iter_def)
  ultimately show ?thesis using assms by (auto simp: layout_def)
qed

lemma block_of_layout:
  assumes "key_order cmp" "1 \<le> interval" "ordered cmp es" "(\<Sum>(key, val)\<leftarrow>es. length key + length val + 19) + 8 < 2 ^ 32"
  shows "\<exists>cs rs it. block_of cmp interval es = Some (contents_of cs rs) \<and> NewIterator (Block (contents_of cs rs)) = BlockIterator it \<and>
    layout cs rs \<and> on_layout cs rs it \<and> map snd cs = es"
proof -
  obtain cs rs where b: "block_of cmp interval es = Some (contents_of cs rs)" "map snd cs = es" "chained cs" "restarts_at cs rs"
    using block_of_contents [OF assms(1-3)] by blast
  then have "length (contents_of cs rs) < 2 ^ 32" using contents_bound [OF b(4,2)] assms(4) by simp
  then show ?thesis using NewIterator_layout [OF b(3,4)] b by blast
qed

lemmas block_of_bytewise = block_of_layout [OF bytewise.key_order]

text \<open>
  C14: A block built from entries in the order of their keys, at any restart interval, is read back
  entry by entry: forwards from its first entry, and backwards from its last.
\<close>

theorem block_iterates:
  assumes "1 \<le> interval" "ordered BytewiseComparator es" "(\<Sum>(key, val)\<leftarrow>es. length key + length val + 19) + 8 < 2 ^ 32"
  shows "\<exists>contents it first last. block_of BytewiseComparator interval es = Some contents \<and>
    NewIterator (Block contents) = BlockIterator it \<and>
    SeekToFirst it = Some first \<and> collect_next first = Some es \<and>
    SeekToLast it = Some last \<and> collect_prev last = Some (rev es)"
proof -
  obtain cs rs it where b: "block_of BytewiseComparator interval es = Some (contents_of cs rs)"
    "NewIterator (Block (contents_of cs rs)) = BlockIterator it" "layout cs rs" "on_layout cs rs it" "map snd cs = es"
    using block_of_bytewise [OF assms] by blast
  obtain first where f: "SeekToFirst it = Some first" "position cs rs 0 first" using SeekToFirst_position [OF b(3,4)] by blast
  obtain last where t: "SeekToLast it = Some last" "position cs rs (length cs - 1) last" using SeekToLast_position [OF b(3,4)] by blast
  have "collect_prev last = Some (rev es)"
    using t(2) collect_prev_stands [OF b(3), of "length cs - 1" last] collect_prev_past b(5)
    by (cases cs rule: rev_cases) (auto simp: position_def)
  then show ?thesis using b f(1) t(1) collect_next_position [OF b(3) f(2)] by auto
qed

theorem block_iterates_witness:
  "\<exists>contents it first last. block_of BytewiseComparator 2 [([1], [9]), ([1, 2], []), ([3], [7, 7])] = Some contents \<and>
    NewIterator (Block contents) = BlockIterator it \<and>
    SeekToFirst it = Some first \<and> collect_next first = Some [([1], [9]), ([1, 2], []), ([3], [7, 7])] \<and>
    SeekToLast it = Some last \<and> collect_prev last = Some (rev [([1], [9]), ([1, 2], []), ([3], [7, 7])])"
  by (rule block_iterates) (simp_all add: ordered_def BytewiseComparator_def Slice_compare_strcmp)

text \<open>
  C15: \<open>Seek\<close> finishes, without an error, at the first entry whose key is not below the target: what
  is left to iterate are exactly the entries from there on.
\<close>

theorem block_seek_correct:
  assumes "1 \<le> interval" "ordered BytewiseComparator es" "(\<Sum>(key, val)\<leftarrow>es. length key + length val + 19) + 8 < 2 ^ 32"
  shows "\<exists>contents it it'. block_of BytewiseComparator interval es = Some contents \<and>
    NewIterator (Block contents) = BlockIterator it \<and> Seek BytewiseComparator target it = Some it' \<and> it_ok it' \<and>
    collect_next it' = Some (dropWhile (\<lambda>(key, val). BytewiseComparator key target < 0) es)"
proof -
  obtain cs rs it where b: "block_of BytewiseComparator interval es = Some (contents_of cs rs)"
    "NewIterator (Block (contents_of cs rs)) = BlockIterator it" "layout cs rs" "on_layout cs rs it" "map snd cs = es"
    using block_of_bytewise [OF assms] by blast
  then show ?thesis using bytewise.Seek_position [OF b(3,4), of target] assms(2) by auto
qed

theorem block_seek_correct_witness:
  "\<exists>contents it it'. block_of BytewiseComparator 1 [([1], [9]), ([1, 2], []), ([3], [7, 7])] = Some contents \<and>
    NewIterator (Block contents) = BlockIterator it \<and> Seek BytewiseComparator [2] it = Some it' \<and> it_ok it' \<and>
    collect_next it' = Some [([3], [7, 7])]"
  using block_seek_correct [of 1 "[([1], [9]), ([1, 2], []), ([3], [7, 7])]" "[2]"]
  by (simp add: ordered_def BytewiseComparator_def Slice_compare_strcmp)


text \<open>
  The check of \<open>DecodeEntry\<close> adds two lengths from the file modulo \<open>2^32\<close>.  An entry with a key of
  \<open>2^32 - 1\<close> bytes and a value of one byte passes it, and reading it leaves the block.
\<close>

lemma corrupt_entry_reads_outside:
  "DecodeEntry [0, 255, 255, 255, 255, 15, 1] = Some (0, - 1, 1, [])"
  "\<exists>it. NewIterator (Block [0, 255, 255, 255, 255, 15, 1, 0, 0, 0, 0, 1, 0, 0, 0]) = BlockIterator it \<and> SeekToFirst it = None"
proof -
  let ?block = "[0, 255, 255, 255, 255, 15, 1, 0, 0, 0, 0, 1, 0, 0, 0] :: u8 list"
  show d: "DecodeEntry [0, 255, 255, 255, 255, 15, 1] = Some (0, - 1, 1, [])" by code_simp
  have r: "DecodeFixed32 [0, 0, 0, 0, 1, 0, 0, 0] = 0" by code_simp
  have "NewIterator (Block ?block) = BlockIterator (Iter ?block 7 1)"
    by (simp add: Block_def NewIterator_def NumRestarts_def DecodeFixed32_def)
  moreover have "unat (- 1 :: u32) = 4294967295" by (simp add: unsigned_minus_1_eq_mask mask_eq_exp_minus_1)
  then have "SeekToFirst (Iter ?block 7 1) = None"
    by (simp add: SeekToFirst_def SeekToRestartPoint_def GetRestartPoint_def Iter_def ParseNextKey_def NextEntryOffset_def r d Let_def)
  ultimately show "\<exists>it. NewIterator (Block ?block) = BlockIterator it \<and> SeekToFirst it = None" by blast
qed

end
