(* ===== verification/Table_format.thy ===== *)
theory Table_format
  imports Ldb_log Filter_block Block_iterator
begin


text \<open>
  The format of LevelDB tables (\<open>table/format.h\<close>, \<open>table/format.cc\<close>): handles of blocks, the footer, and
  reading a block with its trailer; with it the keys that \<open>util/comparator.cc\<close> makes for the index.

  An error is a value of the result; \<open>None\<close> stands for a failed assertion or an access outside of the
  buffer.  The Snappy functions of \<open>port/port_posix.h\<close> are a parameter; the pod is built without
  Snappy, where they do nothing but return \<open>false\<close>.
\<close>

datatype error = Corruption | IOError

section \<open>Handles and the footer\<close>

record block_handle =
  bh_offset :: u64
  bh_size :: u64

definition BlockHandle :: block_handle where
  "BlockHandle = \<lparr>bh_offset = - 1, bh_size = - 1\<rparr>"

definition EncodeTo :: "block_handle \<Rightarrow> u8 list \<Rightarrow> u8 list option" where
  "EncodeTo h dst =
    (if bh_offset h = - 1 \<or> bh_size h = - 1 then None else Some (PutVarint64 (PutVarint64 dst (bh_offset h)) (bh_size h)))"

definition DecodeFrom :: "u8 list \<Rightarrow> error + (block_handle \<times> u8 list)" where
  "DecodeFrom input =
    (case GetVarint64 input of
       None \<Rightarrow> Inl Corruption
     | Some (offset, input) \<Rightarrow>
         (case GetVarint64 input of
            None \<Rightarrow> Inl Corruption
          | Some (sz, input) \<Rightarrow> Inr (\<lparr>bh_offset = offset, bh_size = sz\<rparr>, input)))"

record footer =
  ft_metaindex :: block_handle
  ft_index :: block_handle

definition kTableMagicNumber :: u64 where "kTableMagicNumber = 0xdb4775248b80fb57"
abbreviation kMaxEncodedLength :: nat where "kMaxEncodedLength \<equiv> 20"
abbreviation kEncodedLength :: nat where "kEncodedLength \<equiv> 48"
abbreviation kBlockTrailerSize :: nat where "kBlockTrailerSize \<equiv> 5"

definition resize :: "nat \<Rightarrow> u8 list \<Rightarrow> u8 list" where
  "resize n xs = take n xs @ replicate (n - length xs) 0"

definition Footer_EncodeTo :: "footer \<Rightarrow> u8 list \<Rightarrow> u8 list option" where
  "Footer_EncodeTo f dst = do {
     let original_size = length dst;
     dst \<leftarrow> EncodeTo (ft_metaindex f) dst;
     dst \<leftarrow> EncodeTo (ft_index f) dst;
     let dst = resize (2 * kMaxEncodedLength) dst;
     let dst = PutFixed32 dst (ucast (kTableMagicNumber AND 0xffffffff));
     let dst = PutFixed32 dst (ucast (drop_bit 32 kTableMagicNumber));
     if length dst = original_size + kEncodedLength then Some dst else None
   }"

definition Footer_DecodeFrom :: "u8 list \<Rightarrow> (error + (footer \<times> u8 list)) option" where
  "Footer_DecodeFrom input =
    (if length input < kEncodedLength then None
     else
       let magic_ptr = drop (kEncodedLength - 8) input;
           magic_lo = DecodeFixed32 magic_ptr;
           magic_hi = DecodeFixed32 (drop 4 magic_ptr);
           magic = push_bit 32 (ucast magic_hi) OR ucast magic_lo :: u64
       in if magic \<noteq> kTableMagicNumber then Some (Inl Corruption)
          else case DecodeFrom input of
            Inl e \<Rightarrow> Some (Inl e)
          | Inr (metaindex, q) \<Rightarrow>
              (case DecodeFrom q of
                 Inl e \<Rightarrow> Some (Inl e)
               | Inr (index, q) \<Rightarrow> Some (Inr (\<lparr>ft_metaindex = metaindex, ft_index = index\<rparr>, drop kEncodedLength input))))"

section \<open>Reading a block\<close>

text \<open>
  A file for random access; the flag with the bytes tells whether they are in the buffer of the
  caller, and \<open>None\<close> is an access outside of the mapped memory.  \<open>pread\<close> is the function of the C
  library, \<open>None\<close> its error or one of \<open>open\<close>.
\<close>

type_synonym random_file = "u64 \<Rightarrow> nat \<Rightarrow> (error + (u8 list \<times> bool)) option"

definition PosixRandomAccessFile_Read :: "(int \<Rightarrow> nat \<Rightarrow> u8 list option) \<Rightarrow> random_file" where
  "PosixRandomAccessFile_Read pread offset n =
    (case pread (sint offset) n of None \<Rightarrow> Some (Inl IOError) | Some r \<Rightarrow> Some (Inr (r, True)))"

definition PosixMmapReadableFile_Read :: "u8 list \<Rightarrow> random_file" where
  "PosixMmapReadableFile_Read mmapped_region offset n =
    (if unat (offset + of_nat n) > length mmapped_region then Some (Inl IOError)
     else if unat offset + n > length mmapped_region then None
     else Some (Inr (take n (drop (unat offset) mmapped_region), False)))"

text \<open>\<open>heap_allocated\<close> is set together with \<open>cachable\<close>.\<close>

record block_contents =
  bc_data :: "u8 list"
  bc_cachable :: bool

record snappy =
  Snappy_Compress :: "u8 list \<Rightarrow> u8 list option"
  Snappy_GetUncompressedLength :: "u8 list \<Rightarrow> nat option"
  Snappy_Uncompress :: "u8 list \<Rightarrow> u8 list option"

definition no_snappy :: snappy where
  "no_snappy = \<lparr>Snappy_Compress = \<lambda>_. None, Snappy_GetUncompressedLength = \<lambda>_. None, Snappy_Uncompress = \<lambda>_. None\<rparr>"

datatype compression = kNoCompression | kSnappyCompression

definition compression_byte :: "compression \<Rightarrow> u8" where
  "compression_byte c = (case c of kNoCompression \<Rightarrow> 0 | kSnappyCompression \<Rightarrow> 1)"

definition ReadBlock :: "snappy \<Rightarrow> random_file \<Rightarrow> bool \<Rightarrow> block_handle \<Rightarrow> (error + block_contents) option" where
  "ReadBlock sn file verify_checksums handle =
    (let n = unat (bh_size handle); size = size_add n kBlockTrailerSize in
     case file (bh_offset handle) size of
       None \<Rightarrow> None
     | Some (Inl e) \<Rightarrow> Some (Inl e)
     | Some (Inr (contents, in_buf)) \<Rightarrow>
         if length contents \<noteq> size then Some (Inl Corruption)
         else if size < n + kBlockTrailerSize then None
         else if verify_checksums \<and> Value 0 (take (n + 1) contents) \<noteq> Unmask (DecodeFixed32 (drop (n + 1) contents))
         then Some (Inl Corruption)
         else if contents ! n = compression_byte kNoCompression then Some (Inr \<lparr>bc_data = take n contents, bc_cachable = in_buf\<rparr>)
         else if contents ! n = compression_byte kSnappyCompression then
           (case Snappy_GetUncompressedLength sn (take n contents) of
              None \<Rightarrow> Some (Inl Corruption)
            | Some ulength \<Rightarrow>
                (case Snappy_Uncompress sn (take n contents) of
                   None \<Rightarrow> Some (Inl Corruption)
                 | Some ubuf \<Rightarrow> if length ubuf = ulength then Some (Inr \<lparr>bc_data = ubuf, bc_cachable = True\<rparr>) else None))
         else Some (Inl Corruption))"

section \<open>Keys of the index\<close>

definition FindShortestSeparator :: "u8 list \<Rightarrow> u8 list \<Rightarrow> u8 list option" where
  "FindShortestSeparator start limit =
    (let min_length = min (length start) (length limit); diff_index = shared_prefix start limit in
     if diff_index \<ge> min_length then Some start
     else
       let diff_byte = start ! diff_index in
       if diff_byte < 0xff \<and> unat diff_byte + 1 < unat (limit ! diff_index) then
         let start = take (diff_index + 1) (start[diff_index := diff_byte + 1]) in
         if BytewiseComparator start limit < 0 then Some start else None
       else Some start)"

fun FindShortSuccessor :: "u8 list \<Rightarrow> u8 list" where
  "FindShortSuccessor [] = []"
| "FindShortSuccessor (byte # key) = (if byte \<noteq> 0xff then [byte + 1] else byte # FindShortSuccessor key)"

text \<open>A comparator with its address, by which comparators are compared.\<close>

record comparator =
  c_addr :: nat
  c_Compare :: "u8 list \<Rightarrow> u8 list \<Rightarrow> int"
  c_FindShortestSeparator :: "u8 list \<Rightarrow> u8 list \<Rightarrow> u8 list option"
  c_FindShortSuccessor :: "u8 list \<Rightarrow> u8 list"

definition BytewiseComparatorImpl :: "nat \<Rightarrow> comparator" where
  "BytewiseComparatorImpl addr = \<lparr>c_addr = addr, c_Compare = BytewiseComparator,
     c_FindShortestSeparator = FindShortestSeparator, c_FindShortSuccessor = FindShortSuccessor\<rparr>"


section \<open>Round trips\<close>

lemma EncodeTo_ok: "bh_offset h \<noteq> - 1 \<Longrightarrow> bh_size h \<noteq> - 1 \<Longrightarrow>
    EncodeTo h dst = Some (dst @ EncodeVarint64 (bh_offset h) @ EncodeVarint64 (bh_size h))"
  by (simp add: EncodeTo_def PutVarint64_def)

lemma EncodeTo_iff: "EncodeTo h dst = Some bs \<longleftrightarrow>
    bh_offset h \<noteq> - 1 \<and> bh_size h \<noteq> - 1 \<and> bs = dst @ EncodeVarint64 (bh_offset h) @ EncodeVarint64 (bh_size h)"
  by (auto simp: EncodeTo_def PutVarint64_def)

lemma DecodeFrom_varints: "DecodeFrom (EncodeVarint64 a @ EncodeVarint64 b @ rest) = Inr (\<lparr>bh_offset = a, bh_size = b\<rparr>, rest)"
  by (simp add: DecodeFrom_def GetVarint64_Encode)

lemma DecodeFrom_EncodeTo: "EncodeTo h [] = Some bs \<Longrightarrow> DecodeFrom (bs @ rest) = Inr (h, rest)"
  by (auto simp: EncodeTo_iff DecodeFrom_varints)

lemma length_EncodeTo: "EncodeTo h [] = Some bs \<Longrightarrow> length bs \<le> 20"
  using length_EncodeVarint(2) [of "bh_offset h"] length_EncodeVarint(2) [of "bh_size h"] by (auto simp: EncodeTo_iff)

lemma Footer_roundtrip:
  assumes "bh_offset m \<noteq> - 1" "bh_size m \<noteq> - 1" "bh_offset i \<noteq> - 1" "bh_size i \<noteq> - 1"
  shows "\<exists>bs. Footer_EncodeTo \<lparr>ft_metaindex = m, ft_index = i\<rparr> [] = Some bs \<and> length bs = kEncodedLength \<and>
    Footer_DecodeFrom (bs @ rest) = Some (Inr (\<lparr>ft_metaindex = m, ft_index = i\<rparr>, rest))"
proof -
  let ?e = "EncodeVarint64 (bh_offset m) @ EncodeVarint64 (bh_size m) @ EncodeVarint64 (bh_offset i) @ EncodeVarint64 (bh_size i)"
  define pad where "pad = replicate (40 - length ?e) (0 :: u8)"
  define lo hi where "lo = (ucast (kTableMagicNumber AND 0xffffffff) :: u32)" and "hi = (ucast (drop_bit 32 kTableMagicNumber) :: u32)"
  let ?bs = "?e @ pad @ EncodeFixed32 lo @ EncodeFixed32 hi"
  have le: "length ?e \<le> 40"
    using length_EncodeVarint(2) [of "bh_offset m"] length_EncodeVarint(2) [of "bh_size m"]
      length_EncodeVarint(2) [of "bh_offset i"] length_EncodeVarint(2) [of "bh_size i"] by simp
  then have ep: "length (?e @ pad) = 40" by (simp add: pad_def)
  have "resize 40 ?e = ?e @ pad" using le unfolding resize_def pad_def by simp
  then have enc: "Footer_EncodeTo \<lparr>ft_metaindex = m, ft_index = i\<rparr> [] = Some ?bs"
    using ep assms by (simp add: Footer_EncodeTo_def EncodeTo_ok PutFixed32_def lo_def hi_def)
  have "drop 40 (?bs @ rest) = EncodeFixed32 lo @ EncodeFixed32 hi @ rest" "drop 44 (?bs @ rest) = EncodeFixed32 hi @ rest"
    "drop 48 (?bs @ rest) = rest" using ep by simp_all
  moreover have "push_bit 32 (ucast hi) OR ucast lo = kTableMagicNumber" by (simp add: lo_def hi_def kTableMagicNumber_def)
  moreover have "DecodeFrom (?bs @ rest) = Inr (m, drop (length (EncodeVarint64 (bh_offset m) @ EncodeVarint64 (bh_size m))) (?bs @ rest))"
    by (simp add: DecodeFrom_varints)
  ultimately have "Footer_DecodeFrom (?bs @ rest) = Some (Inr (\<lparr>ft_metaindex = m, ft_index = i\<rparr>, rest))"
    using ep by (simp add: Footer_DecodeFrom_def DecodeFixed32_Encode DecodeFrom_varints)
  then show ?thesis using enc ep by (intro exI [of _ ?bs]) simp
qed

section \<open>Blocks in a file\<close>

definition snappy_ok :: "snappy \<Rightarrow> bool" where
  "snappy_ok sn \<longleftrightarrow> (\<forall>x y. Snappy_Compress sn x = Some y \<longrightarrow>
     Snappy_GetUncompressedLength sn y = Some (length x) \<and> Snappy_Uncompress sn y = Some x)"

lemma no_snappy_ok: "snappy_ok no_snappy"
  by (simp add: snappy_ok_def no_snappy_def)

text \<open>The contents of a block with its trailer.\<close>

definition stored :: "compression \<Rightarrow> u8 list \<Rightarrow> u8 list" where
  "stored ty contents = contents @ compression_byte ty # EncodeFixed32 (Mask (Extend 0 (Value 0 contents) [compression_byte ty]))"

lemma length_stored [simp]: "length (stored ty contents) = length contents + 5"
  by (simp add: stored_def)

definition holds_raw :: "snappy \<Rightarrow> compression \<Rightarrow> u8 list \<Rightarrow> u8 list \<Rightarrow> bool" where
  "holds_raw sn ty contents raw \<longleftrightarrow> (case ty of
     kNoCompression \<Rightarrow> contents = raw
   | kSnappyCompression \<Rightarrow> Snappy_GetUncompressedLength sn contents = Some (length raw) \<and> Snappy_Uncompress sn contents = Some raw)"

lemma ReadBlock_stored:
  assumes "file start (length contents + 5) = Some (Inr (stored ty contents, in_buf))" "length contents + 5 < 2 ^ 64" "holds_raw sn ty contents raw"
  shows "\<exists>cachable. ReadBlock sn file verify \<lparr>bh_offset = start, bh_size = of_nat (length contents)\<rparr> =
    Some (Inr \<lparr>bc_data = raw, bc_cachable = cachable\<rparr>)"
proof -
  let ?n = "length contents"
  have u: "unat (of_nat ?n :: u64) = ?n" "size_add ?n 5 = ?n + 5" using assms(2) by (simp_all add: unat_of_nat size_add_def)
  have crc: "Value 0 (take (?n + 1) (stored ty contents)) = Unmask (DecodeFixed32 (drop (?n + 1) (stored ty contents)))"
    using DecodeFixed32_Encode [of _ "[]"] by (simp add: stored_def Unmask_Mask Value_def Extend_append [of _ _ _ _ _ 0])
  have ty: "stored ty contents ! ?n = compression_byte ty" "take ?n (stored ty contents) = contents" by (simp_all add: stored_def nth_append)
  show ?thesis
  proof (cases ty)
    case kNoCompression
    then show ?thesis unfolding ReadBlock_def Let_def using assms(1,3) u crc ty by (simp add: compression_byte_def holds_raw_def)
  next
    case kSnappyCompression
    then have "Snappy_GetUncompressedLength sn contents = Some (length raw)" "Snappy_Uncompress sn contents = Some raw"
      using assms(3) by (simp_all add: holds_raw_def)
    with kSnappyCompression show ?thesis unfolding ReadBlock_def Let_def block_handle.simps u
      using assms(1) u crc ty by (simp add: compression_byte_def ex_bool_eq)
  qed
qed

text \<open>
  The padding of the footer ignores what \<open>dst\<close> holds already, so that the assertion at the end fails
  for every string that is not empty.
\<close>

lemma Footer_EncodeTo_nonempty: "dst \<noteq> [] \<Longrightarrow> Footer_EncodeTo f dst = None"
proof -
  have "length (resize (2 * kMaxEncodedLength) xs) = 2 * kMaxEncodedLength" for xs by (simp add: resize_def)
  then show "dst \<noteq> [] \<Longrightarrow> Footer_EncodeTo f dst = None"
    by (auto simp: Footer_EncodeTo_def PutFixed32_def Let_def split: Option.bind_split)
qed

text \<open>
  The size of the buffer wraps for a corrupt handle: with a size of \<open>2^64 - 1\<close> four bytes are read,
  and the type of the block is taken from in front of them.
\<close>

lemma corrupt_handle_reads_outside:
  assumes "file start 4 = Some (Inr (contents, in_buf))" "length contents = 4"
  shows "ReadBlock sn file verify \<lparr>bh_offset = start, bh_size = - 1\<rparr> = None"
proof -
  have n: "unat (- 1 :: u64) = 2 ^ 64 - 1" by (simp add: unsigned_minus_1_eq_mask mask_eq_exp_minus_1)
  then have "size_add (unat (- 1 :: u64)) kBlockTrailerSize = 4" by (simp add: size_add_def)
  then show ?thesis using assms n by (simp add: ReadBlock_def)
qed

section \<open>Separators\<close>

lemma shared_prefix_split:
  assumes "shared_prefix a b < min (length a) (length b)"
  shows "\<exists>p x y as bs. a = p @ x # as \<and> b = p @ y # bs \<and> shared_prefix a b = length p \<and> x \<noteq> y"
  using assms
proof (induction a b rule: shared_prefix.induct)
  case (1 a as b bs)
  show ?case
  proof (cases "a = b")
    case True
    then obtain p x y as' bs' where "as = p @ x # as'" "bs = p @ y # bs'" "shared_prefix as bs = length p" "x \<noteq> y"
      using 1 by auto
    then show ?thesis using True by (intro exI [of _ "a # p"] exI [of _ x] exI [of _ y] exI [of _ as'] exI [of _ bs']) simp
  next
    case False
    then show ?thesis by (intro exI [of _ "[]"] exI [of _ a] exI [of _ b] exI [of _ as] exI [of _ bs]) simp
  qed
qed auto

lemma strcmp_append: "strcmp (p @ a) (p @ b) = strcmp a b"
  by (induction p) simp_all

lemma unat_Suc_u8: "unat x + 1 < 256 \<Longrightarrow> unat (x + 1 :: u8) = unat x + 1"
  using unat_word_ariths(1) [of x 1] by simp

lemma unat_255: "unat (b :: u8) + 1 = 256 \<Longrightarrow> b = 0xff"
  by (simp add: word_unat_eq_iff)

lemma FindShortestSeparator_ok:
  assumes "BytewiseComparator start limit < 0"
  shows "\<exists>sep. FindShortestSeparator start limit = Some sep \<and> \<not> BytewiseComparator sep start < 0 \<and>
    BytewiseComparator sep limit < 0 \<and> length sep \<le> length start"
proof -
  let ?i = "shared_prefix start limit"
  have refl: "\<not> BytewiseComparator start start < 0" using bytewise.cmp_laws(1) [of start start] by simp
  have lt: "strcmp start limit < 0" using assms by (simp add: BytewiseComparator_def Slice_compare_strcmp)
  show ?thesis
  proof (cases "?i < min (length start) (length limit) \<and> start ! ?i < 0xff \<and> unat (start ! ?i) + 1 < unat (limit ! ?i)")
    case True
    then obtain p x y as bs where s: "start = p @ x # as" "limit = p @ y # bs" "?i = length p"
      using shared_prefix_split [of start limit] by blast
    then have xy: "x < 0xff" "unat x + 1 < unat y" using True by simp_all
    have "unat (x + 1) = unat x + 1" using xy by (intro unat_Suc_u8) (use unat_u8_lt [of y] in linarith)
    then have c: "x < x + 1" "x + 1 < y" using xy by (simp_all add: word_less_nat_alt)
    let ?sep = "p @ [x + 1]"
    have "FindShortestSeparator start limit = Some ?sep"
      using True s c by (simp add: FindShortestSeparator_def BytewiseComparator_def Slice_compare_strcmp strcmp_append)
    then show ?thesis using s c by (auto simp: BytewiseComparator_def Slice_compare_strcmp strcmp_append)
  next
    case False
    then have "FindShortestSeparator start limit = Some start" by (auto simp: FindShortestSeparator_def Let_def)
    then show ?thesis using assms refl by simp
  qed
qed

lemma FindShortSuccessor_ok: "\<not> BytewiseComparator (FindShortSuccessor key) key < 0 \<and> length (FindShortSuccessor key) \<le> length key"
proof (induction key)
  case (Cons b key)
  show ?case
  proof (cases "b = 0xff")
    case False
    then have "unat (b + 1) = unat b + 1" using unat_u8_lt [of b] by (intro unat_Suc_u8) (use False unat_255 [of b] in linarith)
    then have "b < b + 1" by (simp add: word_less_nat_alt)
    then show ?thesis using False by (auto simp: BytewiseComparator_def Slice_compare_strcmp)
  next
    case True
    then show ?thesis using Cons by (simp add: BytewiseComparator_def Slice_compare_strcmp)
  qed
qed (simp add: BytewiseComparator_def Slice_compare_strcmp)

end
