(* ===== verification/Table_builder.thy ===== *)
theory Table_builder
  imports Table_format
begin


text \<open>
  Writing tables (\<open>table/table_builder.cc\<close>) to a file of \<open>Ldb_log\<close>, whose calls may fail: data blocks, the
  filter block, the metaindex block, the index block and the footer.

  The status of the builder is \<open>r_ok\<close>.  The options that the block builders point to are their
  restart interval here, so that \<open>ChangeOptions\<close> sets it.  \<open>None\<close> stands for a failed assertion.
\<close>

record policy =
  fp_Name :: "u8 list"
  fp_CreateFilter :: create_fun
  fp_KeyMayMatch :: match_fun

record options =
  opt_comparator :: comparator
  opt_compression :: compression
  opt_block_size :: nat
  opt_block_restart_interval :: nat
  opt_filter_policy :: "policy option"
  opt_paranoid_checks :: bool
  opt_block_cache :: bool

record rep =
  r_options :: options
  r_file :: posix_file
  r_offset :: u64
  r_ok :: bool
  r_data_block :: block_builder
  r_index_block :: block_builder
  r_last_key :: "u8 list"
  r_num_entries :: u64
  r_closed :: bool
  r_filter_block :: "(policy \<times> filter_builder) option"
  r_pending_index_entry :: bool
  r_pending_handle :: block_handle

definition filter_StartBlock :: "u64 \<Rightarrow> (policy \<times> filter_builder) option \<Rightarrow> (policy \<times> filter_builder) option" where
  "filter_StartBlock offset = map_option (\<lambda>(p, b). (p, StartBlock (fp_CreateFilter p) (unat offset) b))"

definition TableBuilder :: "options \<Rightarrow> posix_file \<Rightarrow> rep option" where
  "TableBuilder opt file = do {
     data_block \<leftarrow> BlockBuilder (opt_block_restart_interval opt);
     index_block \<leftarrow> BlockBuilder (opt_block_restart_interval opt);
     let filter_block = map_option (\<lambda>p. (p, FilterBlockBuilder)) (opt_filter_policy opt);
     Some \<lparr>r_options = opt, r_file = file, r_offset = 0, r_ok = True, r_data_block = data_block,
       r_index_block = index_block\<lparr>bb_interval := 1\<rparr>, r_last_key = [], r_num_entries = 0, r_closed = False,
       r_filter_block = filter_StartBlock 0 filter_block, r_pending_index_entry = False, r_pending_handle = BlockHandle\<rparr>
   }"

definition ChangeOptions :: "options \<Rightarrow> rep \<Rightarrow> bool \<times> rep" where
  "ChangeOptions opt r =
    (if c_addr (opt_comparator opt) \<noteq> c_addr (opt_comparator (r_options r)) then (False, r)
     else (True, r\<lparr>r_options := opt, r_data_block := r_data_block r\<lparr>bb_interval := opt_block_restart_interval opt\<rparr>,
                   r_index_block := r_index_block r\<lparr>bb_interval := 1\<rparr>\<rparr>))"

definition WriteRawBlock :: "u8 list \<Rightarrow> compression \<Rightarrow> rep \<Rightarrow> block_handle \<times> rep" where
  "WriteRawBlock block_contents ty r =
    (let handle = \<lparr>bh_offset = r_offset r, bh_size = of_nat (length block_contents)\<rparr>;
         (ok, f) = posix_Append block_contents (r_file r);
         r = r\<lparr>r_ok := ok, r_file := f\<rparr>
     in if \<not> ok then (handle, r)
        else
          let crc = Value 0 block_contents;
              crc = Extend 0 crc [compression_byte ty];
              trailer = compression_byte ty # EncodeFixed32 (Mask crc);
              (ok, f) = posix_Append trailer (r_file r);
              r = r\<lparr>r_ok := ok, r_file := f\<rparr>
          in (handle, if ok then r\<lparr>r_offset := r_offset r + of_nat (length block_contents + kBlockTrailerSize)\<rparr> else r))"

definition compress_block :: "snappy \<Rightarrow> compression \<Rightarrow> u8 list \<Rightarrow> u8 list \<times> compression" where
  "compress_block sn ty raw =
    (case ty of
       kNoCompression \<Rightarrow> (raw, kNoCompression)
     | kSnappyCompression \<Rightarrow>
         (case Snappy_Compress sn raw of
            Some compressed \<Rightarrow> if length compressed < length raw - length raw div 8 then (compressed, ty) else (raw, kNoCompression)
          | None \<Rightarrow> (raw, kNoCompression)))"

definition WriteBlock :: "snappy \<Rightarrow> block_builder \<Rightarrow> rep \<Rightarrow> (block_handle \<times> block_builder \<times> rep) option" where
  "WriteBlock sn block r =
    (if \<not> r_ok r then None
     else
       let (raw, block) = BlockBuilder_Finish block;
           (block_contents, ty) = compress_block sn (opt_compression (r_options r)) raw;
           (handle, r) = WriteRawBlock block_contents ty r
       in Some (handle, BlockBuilder_Reset block, r))"

definition Flush :: "snappy \<Rightarrow> rep \<Rightarrow> rep option" where
  "Flush sn r =
    (if r_closed r then None
     else if \<not> r_ok r then Some r
     else if bb_buffer (r_data_block r) = [] then Some r
     else if r_pending_index_entry r then None
     else do {
       (handle, block, r) \<leftarrow> WriteBlock sn (r_data_block r) r;
       let r = r\<lparr>r_data_block := block, r_pending_handle := handle\<rparr>;
       let r = (if r_ok r then (case posix_Flush (r_file r) of (ok, f) \<Rightarrow> r\<lparr>r_pending_index_entry := True, r_ok := ok, r_file := f\<rparr>) else r);
       Some (r\<lparr>r_filter_block := filter_StartBlock (r_offset r) (r_filter_block r)\<rparr>)
     })"

text \<open>The entry of the index for the block before, whose key is now known.\<close>

definition add_index_entry :: "u8 list \<Rightarrow> rep \<Rightarrow> rep option" where
  "add_index_entry last_key r = do {
     handle_encoding \<leftarrow> EncodeTo (r_pending_handle r) [];
     index \<leftarrow> BlockBuilder_Add (c_Compare (opt_comparator (r_options r))) last_key handle_encoding (r_index_block r);
     Some (r\<lparr>r_last_key := last_key, r_index_block := index, r_pending_index_entry := False\<rparr>)
   }"

definition Add :: "snappy \<Rightarrow> u8 list \<Rightarrow> u8 list \<Rightarrow> rep \<Rightarrow> rep option" where
  "Add sn key value r =
    (let cmp = opt_comparator (r_options r) in
     if r_closed r then None
     else if \<not> r_ok r then Some r
     else if sint (r_num_entries r) > 0 \<and> \<not> c_Compare cmp key (r_last_key r) > 0 then None
     else do {
       r \<leftarrow> (if r_pending_index_entry r then
               if bb_buffer (r_data_block r) \<noteq> [] then None
               else do {
                 last_key \<leftarrow> c_FindShortestSeparator cmp (r_last_key r) key;
                 add_index_entry last_key r
               }
             else Some r);
       let r = r\<lparr>r_filter_block := map_option (map_prod id (AddKey key)) (r_filter_block r), r_last_key := key,
                 r_num_entries := r_num_entries r + 1\<rparr>;
       data_block \<leftarrow> BlockBuilder_Add (c_Compare cmp) key value (r_data_block r);
       let r = r\<lparr>r_data_block := data_block\<rparr>;
       let estimated_block_size = CurrentSizeEstimate data_block;
       if estimated_block_size \<ge> opt_block_size (r_options r) then Flush sn r else Some r
     })"

definition bytes_of :: "string \<Rightarrow> u8 list" where
  "bytes_of s = map of_char s"

definition write_meta :: "snappy \<Rightarrow> block_handle \<Rightarrow> rep \<Rightarrow> (block_handle \<times> rep) option" where
  "write_meta sn filter_block_handle r = do {
     block \<leftarrow> BlockBuilder (opt_block_restart_interval (r_options r));
     block \<leftarrow> (case r_filter_block r of
         None \<Rightarrow> Some block
       | Some _ \<Rightarrow> do {
           p \<leftarrow> opt_filter_policy (r_options r);
           handle_encoding \<leftarrow> EncodeTo filter_block_handle [];
           BlockBuilder_Add (c_Compare (opt_comparator (r_options r))) (bytes_of ''filter.'' @ fp_Name p) handle_encoding block
         });
     (handle, block, r) \<leftarrow> WriteBlock sn block r;
     Some (handle, r)
   }"

definition write_index :: "snappy \<Rightarrow> rep \<Rightarrow> (block_handle \<times> rep) option" where
  "write_index sn r = do {
     r \<leftarrow> (if r_pending_index_entry r
           then add_index_entry (c_FindShortSuccessor (opt_comparator (r_options r)) (r_last_key r)) r else Some r);
     (handle, block, r) \<leftarrow> WriteBlock sn (r_index_block r) r;
     Some (handle, r\<lparr>r_index_block := block\<rparr>)
   }"

definition write_footer :: "block_handle \<Rightarrow> block_handle \<Rightarrow> rep \<Rightarrow> rep option" where
  "write_footer metaindex index r = do {
     footer_encoding \<leftarrow> Footer_EncodeTo \<lparr>ft_metaindex = metaindex, ft_index = index\<rparr> [];
     let (ok, f) = posix_Append footer_encoding (r_file r);
     let r = r\<lparr>r_ok := ok, r_file := f\<rparr>;
     Some (if ok then r\<lparr>r_offset := r_offset r + of_nat (length footer_encoding)\<rparr> else r)
   }"

definition Finish :: "snappy \<Rightarrow> rep \<Rightarrow> (bool \<times> rep) option" where
  "Finish sn r = do {
     r \<leftarrow> Flush sn r;
     r \<leftarrow> (if r_closed r then None else Some (r\<lparr>r_closed := True\<rparr>));
     let (filter_block_handle, r) = (case r_filter_block r of
         Some (p, b) \<Rightarrow> if r_ok r then WriteRawBlock (FilterBlock_Finish (fp_CreateFilter p) b) kNoCompression r else (BlockHandle, r)
       | None \<Rightarrow> (BlockHandle, r));
     (metaindex_block_handle, r) \<leftarrow> (if r_ok r then write_meta sn filter_block_handle r else Some (BlockHandle, r));
     (index_block_handle, r) \<leftarrow> (if r_ok r then write_index sn r else Some (BlockHandle, r));
     r \<leftarrow> (if r_ok r then write_footer metaindex_block_handle index_block_handle r else Some r);
     Some (r_ok r, r)
   }"

definition Abandon :: "rep \<Rightarrow> rep option" where
  "Abandon r = (if r_closed r then None else Some (r\<lparr>r_closed := True\<rparr>))"

definition NumEntries :: "rep \<Rightarrow> u64" where
  "NumEntries r = r_num_entries r"

definition FileSize :: "rep \<Rightarrow> u64" where
  "FileSize r = r_offset r"


section \<open>Writing to the file\<close>

definition no_errors :: "rep \<Rightarrow> bool" where
  "no_errors r \<longleftrightarrow> pf_errs (r_file r) = []"

lemma posix_Append_cases:
  "\<exists>ok f'. posix_Append data f = (ok, f') \<and> (ok \<longrightarrow> pf_data f' = pf_data f @ data) \<and> (pf_errs f = [] \<longrightarrow> ok \<and> pf_errs f' = [])"
  by (cases "pf_errs f") (auto simp: posix_Append_def next_err_def Let_def min_def split: option.splits)

lemma posix_Flush_cases:
  "\<exists>ok f'. posix_Flush f = (ok, f') \<and> pf_data f' = pf_data f \<and> (pf_errs f = [] \<longrightarrow> ok \<and> pf_errs f' = [])"
  by (cases "pf_errs f") (auto simp: posix_Flush_def next_err_def)

lemma WriteRawBlock_cases:
  "\<exists>ok f offset. WriteRawBlock c ty r = (\<lparr>bh_offset = r_offset r, bh_size = of_nat (length c)\<rparr>, r\<lparr>r_ok := ok, r_file := f, r_offset := offset\<rparr>) \<and>
    (ok \<longrightarrow> pf_data f = pf_data (r_file r) @ stored ty c \<and> offset = r_offset r + of_nat (length c + 5)) \<and>
    (no_errors r \<longrightarrow> ok \<and> pf_errs f = [])"
proof -
  obtain ok1 f1 where f1: "posix_Append c (r_file r) = (ok1, f1)" "ok1 \<longrightarrow> pf_data f1 = pf_data (r_file r) @ c"
    "pf_errs (r_file r) = [] \<longrightarrow> ok1 \<and> pf_errs f1 = []" using posix_Append_cases by blast
  let ?t = "compression_byte ty # EncodeFixed32 (Mask (Extend 0 (Value 0 c) [compression_byte ty]))"
  obtain ok2 f2 where f2: "posix_Append ?t f1 = (ok2, f2)" "ok2 \<longrightarrow> pf_data f2 = pf_data f1 @ ?t"
    "pf_errs f1 = [] \<longrightarrow> ok2 \<and> pf_errs f2 = []" using posix_Append_cases by blast
  show ?thesis
  proof (cases ok1)
    case False
    then show ?thesis using f1
      by (intro exI [of _ False] exI [of _ f1] exI [of _ "r_offset r"]) (simp add: WriteRawBlock_def Let_def no_errors_def)
  next
    case True
    then have "WriteRawBlock c ty r = (\<lparr>bh_offset = r_offset r, bh_size = of_nat (length c)\<rparr>,
        r\<lparr>r_ok := ok2, r_file := f2, r_offset := if ok2 then r_offset r + of_nat (length c + 5) else r_offset r\<rparr>)"
      using f1(1) f2(1) by (simp add: WriteRawBlock_def Let_def)
    moreover have "ok2 \<longrightarrow> pf_data f2 = pf_data (r_file r) @ stored ty c" using True f1(2) f2(2) by (simp add: stored_def)
    moreover have "no_errors r \<longrightarrow> ok2 \<and> pf_errs f2 = []" using f1(3) f2(3) by (simp add: no_errors_def)
    ultimately show ?thesis
      by (intro exI [of _ ok2] exI [of _ f2] exI [of _ "if ok2 then r_offset r + of_nat (length c + 5) else r_offset r"]) simp
  qed
qed

lemma compress_block_holds:
  assumes "snappy_ok sn"
  shows "\<exists>c ty. compress_block sn oty raw = (c, ty) \<and> holds_raw sn ty c raw \<and> length c \<le> length raw"
proof (cases "oty = kSnappyCompression \<and> (\<exists>y. Snappy_Compress sn raw = Some y \<and> length y < length raw - length raw div 8)")
  case True
  then obtain y where y: "Snappy_Compress sn raw = Some y" "length y < length raw - length raw div 8" by blast
  then have "compress_block sn oty raw = (y, kSnappyCompression)" using True by (simp add: compress_block_def)
  moreover have "holds_raw sn kSnappyCompression y raw" using assms y(1) by (simp add: holds_raw_def snappy_ok_def)
  ultimately show ?thesis using y(2) by (intro exI [of _ y] exI [of _ kSnappyCompression]) simp
next
  case False
  then have "compress_block sn oty raw = (raw, kNoCompression)"
    by (auto simp: compress_block_def split: compression.splits option.splits)
  then show ?thesis by (intro exI [of _ raw] exI [of _ kNoCompression]) (simp add: holds_raw_def)
qed

lemma WriteBlock_cases:
  assumes "snappy_ok sn" "r_ok r" "building block cs rs"
  shows "\<exists>c ty block' ok f offset. WriteBlock sn block r = Some (\<lparr>bh_offset = r_offset r, bh_size = of_nat (length c)\<rparr>, block',
      r\<lparr>r_ok := ok, r_file := f, r_offset := offset\<rparr>) \<and>
    holds_raw sn ty c (contents_of cs rs) \<and> length c \<le> length (contents_of cs rs) \<and> building block' [] [0] \<and>
    (ok \<longrightarrow> pf_data f = pf_data (r_file r) @ stored ty c \<and> offset = r_offset r + of_nat (length c + 5)) \<and>
    (no_errors r \<longrightarrow> ok \<and> pf_errs f = [])"
proof -
  obtain c ty where c: "compress_block sn (opt_compression (r_options r)) (contents_of cs rs) = (c, ty)"
    "holds_raw sn ty c (contents_of cs rs)" "length c \<le> length (contents_of cs rs)"
    using compress_block_holds [OF assms(1)] by blast
  obtain ok f offset where w: "WriteRawBlock c ty r = (\<lparr>bh_offset = r_offset r, bh_size = of_nat (length c)\<rparr>, r\<lparr>r_ok := ok, r_file := f, r_offset := offset\<rparr>)"
    "ok \<longrightarrow> pf_data f = pf_data (r_file r) @ stored ty c \<and> offset = r_offset r + of_nat (length c + 5)" "no_errors r \<longrightarrow> ok \<and> pf_errs f = []"
    using WriteRawBlock_cases by blast
  obtain raw block1 where b: "BlockBuilder_Finish block = (raw, block1)" by force
  then have "raw = contents_of cs rs" "building (BlockBuilder_Reset block1) [] [0]"
    using building_Finish [OF assms(3)] building_Reset [OF assms(3)] by simp_all
  then have "WriteBlock sn block r = Some (\<lparr>bh_offset = r_offset r, bh_size = of_nat (length c)\<rparr>, BlockBuilder_Reset block1,
      r\<lparr>r_ok := ok, r_file := f, r_offset := offset\<rparr>)"
    using assms(2) b c(1) w(1) by (simp add: WriteBlock_def)
  then show ?thesis using c w(2,3) \<open>building (BlockBuilder_Reset block1) [] [0]\<close> by blast
qed

section \<open>What a table holds\<close>

text \<open>A written data block: its entries, the stored contents and their type.\<close>

type_synonym entries = "(u8 list \<times> u8 list) list"
type_synonym data_block = "entries \<times> u8 list \<times> compression"

definition written :: "data_block list \<Rightarrow> u8 list" where
  "written bs = concat (map (\<lambda>(es, c, ty). stored ty c) bs)"

definition start_of :: "data_block list \<Rightarrow> nat \<Rightarrow> nat" where
  "start_of bs i = length (written (take i bs))"

definition handle_of :: "data_block list \<Rightarrow> nat \<Rightarrow> block_handle" where
  "handle_of bs i = \<lparr>bh_offset = of_nat (start_of bs i), bh_size = of_nat (length (fst (snd (bs ! i))))\<rparr>"

definition handle_bytes :: "block_handle \<Rightarrow> u8 list" where
  "handle_bytes h = EncodeVarint64 (bh_offset h) @ EncodeVarint64 (bh_size h)"

definition index_of :: "data_block list \<Rightarrow> u8 list list \<Rightarrow> entries" where
  "index_of bs seps = map (\<lambda>i. (seps ! i, handle_bytes (handle_of bs i))) [0..<length seps]"

definition all_entries :: "data_block list \<Rightarrow> entries" where
  "all_entries bs = concat (map fst bs)"

definition entries_size :: "entries \<Rightarrow> nat" where
  "entries_size es = (\<Sum>(key, val)\<leftarrow>es. length key + length val + 40)"

definition stored_block :: "snappy \<Rightarrow> entries \<Rightarrow> u8 list \<Rightarrow> compression \<Rightarrow> bool" where
  "stored_block sn es c ty \<longleftrightarrow>
     (\<exists>cs rs. map snd cs = es \<and> chained cs \<and> restarts_at cs rs \<and> holds_raw sn ty c (contents_of cs rs) \<and> length c \<le> length (contents_of cs rs))"

definition block_ok :: "snappy \<Rightarrow> data_block \<Rightarrow> bool" where
  "block_ok sn b \<longleftrightarrow> (case b of (es, c, ty) \<Rightarrow> es \<noteq> [] \<and> stored_block sn es c ty)"

lemma written_append [simp]: "written (bs @ cs) = written bs @ written cs" "written [] = []" "written [(es, c, ty)] = stored ty c"
  by (simp_all add: written_def)

lemma all_entries_append [simp]: "all_entries (bs @ cs) = all_entries bs @ all_entries cs" "all_entries [] = []" "all_entries [(es, x)] = es"
  by (simp_all add: all_entries_def)

lemma entries_size_append [simp]: "entries_size (es @ fs) = entries_size es + entries_size fs" "entries_size [] = 0"
  "entries_size [(k, v)] = length k + length v + 40"
  by (simp_all add: entries_size_def)

lemma entries_size_bound: "(\<Sum>(key, val)\<leftarrow>es. length key + length val + 19) + 21 * length es = entries_size es"
  unfolding entries_size_def by (induction es) auto

lemma stored_block_length: "stored_block sn es c ty \<Longrightarrow> length c \<le> (\<Sum>(key, val)\<leftarrow>es. length key + length val + 19) + 8"
  using contents_bound unfolding stored_block_def by (meson order_trans)

lemma block_ok_length: "block_ok sn (es, c, ty) \<Longrightarrow> length c + 5 \<le> entries_size es"
proof -
  assume b: "block_ok sn (es, c, ty)"
  then have "length c \<le> (\<Sum>(key, val)\<leftarrow>es. length key + length val + 19) + 8" "1 \<le> length es"
    using stored_block_length by (auto simp: block_ok_def Suc_le_eq)
  then show ?thesis using entries_size_bound [of es] by linarith
qed

lemma written_length: "\<forall>b \<in> set bs. block_ok sn b \<Longrightarrow> length (written bs) \<le> entries_size (all_entries bs)"
proof (induction bs)
  case (Cons b bs)
  obtain es c ty where b: "b = (es, c, ty)" by (cases b)
  then have "written (b # bs) = stored ty c @ written bs" "all_entries (b # bs) = es @ all_entries bs"
    by (simp_all add: written_def all_entries_def)
  then show ?case using Cons block_ok_length [of sn es c ty] b by simp
qed simp

lemma start_of_append: "i \<le> length bs \<Longrightarrow> start_of (bs @ cs) i = start_of bs i"
  by (simp add: start_of_def)

lemma handle_of_append: "i < length bs \<Longrightarrow> handle_of (bs @ cs) i = handle_of bs i"
  by (simp add: handle_of_def start_of_append nth_append)

lemma index_of_append: "length seps \<le> length bs \<Longrightarrow> index_of (bs @ cs) seps = index_of bs seps"
  by (simp add: index_of_def handle_of_append)

lemma index_of_snoc: "index_of bs (seps @ [s]) = index_of bs seps @ [(s, handle_bytes (handle_of bs (length seps)))]"
  by (simp add: index_of_def nth_append)


section \<open>The state of the builder\<close>

definition block_holds :: "block_builder \<Rightarrow> entries \<Rightarrow> bool" where
  "block_holds b es \<longleftrightarrow> (\<exists>cs rs. building b cs rs \<and> map snd cs = es)"

lemma block_holds_Add:
  assumes "block_holds b es" "es = [] \<or> cmp key (fst (last es)) > 0"
  shows "\<exists>b'. BlockBuilder_Add cmp key val b = Some b' \<and> block_holds b' (es @ [(key, val)])"
proof -
  obtain cs rs where b: "building b cs rs" "map snd cs = es" using assms(1) by (auto simp: block_holds_def)
  then have "cs = [] \<or> cmp key (c_key (last cs)) > 0" using assms(2) by (cases "cs = []") (auto simp: last_map)
  then obtain b' sh rs' where "BlockBuilder_Add cmp key val b = Some b'" "building b' (cs @ [(sh, key, val)]) rs'"
    using building_Add [OF b(1)] by blast
  moreover have "map snd (cs @ [(sh, key, val)]) = es @ [(key, val)]" using b(2) by simp
  ultimately show ?thesis unfolding block_holds_def by blast
qed

lemma block_holds_new: "1 \<le> interval \<Longrightarrow> \<exists>b. BlockBuilder interval = Some b \<and> block_holds b [] \<and> block_holds (b\<lparr>bb_interval := 1\<rparr>) []"
proof -
  assume "1 \<le> interval"
  then obtain b where b: "BlockBuilder interval = Some b" "building b [] [0]" using building_new by blast
  then have "building (b\<lparr>bb_interval := 1\<rparr>) [] [0]" by (intro building_interval) (simp_all add: building_def)
  then show ?thesis using b unfolding block_holds_def by (intro exI [of _ b]) auto
qed

lemma block_holds_empty: "block_holds b es \<Longrightarrow> bb_buffer b = [] \<longleftrightarrow> es = []"
proof -
  assume "block_holds b es"
  then obtain cs rs where "building b cs rs" "map snd cs = es" by (auto simp: block_holds_def)
  then show ?thesis by (cases cs) (auto simp: building_def)
qed

definition filter_blocks :: "data_block list \<Rightarrow> entries \<Rightarrow> (nat \<times> u8 list list) list" where
  "filter_blocks bs cur = map (\<lambda>i. (unat (of_nat (start_of bs i) :: u64), map fst (fst (bs ! i)))) [0..<length bs] @
     [(unat (of_nat (length (written bs)) :: u64), map fst cur)]"

definition filter_of :: "options \<Rightarrow> (nat \<times> u8 list list) list \<Rightarrow> (policy \<times> filter_builder) option" where
  "filter_of opt blks = map_option (\<lambda>p. (p, fold (add_block (fp_CreateFilter p)) blks FilterBlockBuilder)) (opt_filter_policy opt)"

lemma filter_of_AddKey: "map_option (map_prod id (AddKey key)) (filter_of opt (filter_blocks bs cur)) = filter_of opt (filter_blocks bs (cur @ [(key, val)]))"
  by (cases "opt_filter_policy opt") (simp_all add: filter_of_def filter_blocks_def add_block_def)

lemma filter_of_StartBlock: "filter_StartBlock (of_nat (length (written (bs @ [(cur, c, ty)])))) (filter_of opt (filter_blocks bs cur)) =
    filter_of opt (filter_blocks (bs @ [(cur, c, ty)]) [])"
proof -
  have "filter_blocks (bs @ [(cur, c, ty)]) [] = filter_blocks bs cur @ [(unat (of_nat (length (written (bs @ [(cur, c, ty)]))) :: u64), [])]"
    by (auto simp: filter_blocks_def start_of_append nth_append start_of_def)
  then show ?thesis by (cases "opt_filter_policy opt") (simp_all add: filter_of_def filter_StartBlock_def add_block_def del: written_append)
qed

definition separated :: "(u8 list \<Rightarrow> u8 list \<Rightarrow> int) \<Rightarrow> data_block list \<Rightarrow> u8 list list \<Rightarrow> entries \<Rightarrow> bool" where
  "separated cmp bs seps cur \<longleftrightarrow> (\<forall>i < length seps. \<not> cmp (seps ! i) (fst (last (fst (bs ! i)))) < 0 \<and>
     length (seps ! i) \<le> length (fst (last (fst (bs ! i)))) \<and>
     (\<forall>e \<in> set (all_entries (drop (Suc i) bs) @ cur). cmp (seps ! i) (fst e) < 0))"

text \<open>
  \<open>bs\<close> are the data blocks in the file, \<open>seps\<close> the keys of the index so far and \<open>cur\<close> the entries of the
  block that is being built.
\<close>

definition table_inv :: "options \<Rightarrow> snappy \<Rightarrow> rep \<Rightarrow> data_block list \<Rightarrow> u8 list list \<Rightarrow> entries \<Rightarrow> bool" where
  "table_inv opt sn r bs seps cur \<longleftrightarrow> r_options r = opt \<and> r_ok r \<and> \<not> r_closed r \<and>
     pf_data (r_file r) = written bs \<and> r_offset r = of_nat (length (written bs)) \<and>
     block_holds (r_data_block r) cur \<and> block_holds (r_index_block r) (index_of bs seps) \<and>
     (all_entries bs @ cur \<noteq> [] \<longrightarrow> r_last_key r = fst (last (all_entries bs @ cur))) \<and>
     (all_entries bs @ cur = [] \<longrightarrow> r_num_entries r = 0) \<and>
     length bs = length seps + (if r_pending_index_entry r then 1 else 0) \<and>
     (r_pending_index_entry r \<longleftrightarrow> cur = [] \<and> bs \<noteq> []) \<and> (r_pending_index_entry r \<longrightarrow> r_pending_handle r = handle_of bs (length seps)) \<and>
     separated (c_Compare (opt_comparator opt)) bs seps cur \<and>
     r_filter_block r = filter_of opt (filter_blocks bs cur) \<and> (\<forall>b \<in> set bs. block_ok sn b)"

definition goes_on :: "rep \<Rightarrow> rep \<Rightarrow> bool" where
  "goes_on r r' \<longleftrightarrow> \<not> r_closed r' \<and> (no_errors r \<longrightarrow> r_ok r' \<and> no_errors r')"

lemma TableBuilder_inv:
  assumes "1 \<le> opt_block_restart_interval opt" "pf_data file = []"
  shows "\<exists>r. TableBuilder opt file = Some r \<and> table_inv opt sn r [] [] [] \<and> r_file r = file"
proof -
  obtain b where b: "BlockBuilder (opt_block_restart_interval opt) = Some b" "block_holds b []" "block_holds (b\<lparr>bb_interval := 1\<rparr>) []"
    using block_holds_new [OF assms(1)] by blast
  have "filter_StartBlock 0 (map_option (\<lambda>p. (p, FilterBlockBuilder)) (opt_filter_policy opt)) = filter_of opt (filter_blocks [] [])"
    by (cases "opt_filter_policy opt") (simp_all add: filter_StartBlock_def filter_of_def filter_blocks_def add_block_def)
  then show ?thesis using b assms(2) by (simp add: TableBuilder_def table_inv_def index_of_def separated_def)
qed

lemma Flush_inv:
  assumes "snappy_ok sn" "table_inv opt sn r bs seps cur"
  shows "\<exists>r'. Flush sn r = Some r' \<and> goes_on r r' \<and> (r_ok r' \<longrightarrow> (\<exists>bs'. table_inv opt sn r' bs' seps [] \<and> all_entries bs' = all_entries bs @ cur))"
proof (cases "cur = []")
  case True
  then have "Flush sn r = Some r" using assms(2) block_holds_empty [of "r_data_block r" cur] by (simp add: Flush_def table_inv_def)
  then show ?thesis using assms(2) True by (auto simp: goes_on_def table_inv_def)
next
  case False
  have inv: "r_ok r" "\<not> r_closed r" "r_options r = opt" "\<not> r_pending_index_entry r" "bb_buffer (r_data_block r) \<noteq> []"
    using assms(2) False block_holds_empty [of "r_data_block r" cur] by (auto simp: table_inv_def)
  obtain cs rs where cs: "building (r_data_block r) cs rs" "map snd cs = cur" using assms(2) by (auto simp: table_inv_def block_holds_def)
  obtain c ty block' ok f offset where w: "WriteBlock sn (r_data_block r) r = Some (\<lparr>bh_offset = r_offset r, bh_size = of_nat (length c)\<rparr>, block',
      r\<lparr>r_ok := ok, r_file := f, r_offset := offset\<rparr>)"
    "holds_raw sn ty c (contents_of cs rs)" "length c \<le> length (contents_of cs rs)" "building block' [] [0]"
    "ok \<longrightarrow> pf_data f = pf_data (r_file r) @ stored ty c \<and> offset = r_offset r + of_nat (length c + 5)" "no_errors r \<longrightarrow> ok \<and> pf_errs f = []"
    using WriteBlock_cases [OF assms(1) inv(1) cs(1)] by blast
  obtain ok2 f2 where f2: "posix_Flush f = (ok2, f2)" "pf_data f2 = pf_data f" "pf_errs f = [] \<longrightarrow> ok2 \<and> pf_errs f2 = []"
    using posix_Flush_cases by blast
  let ?b = "(cur, c, ty)"
  let ?h = "\<lparr>bh_offset = r_offset r, bh_size = of_nat (length c)\<rparr>"
  show ?thesis
  proof (cases ok)
    case False
    then have "Flush sn r = Some (r\<lparr>r_ok := False, r_file := f, r_offset := offset, r_data_block := block', r_pending_handle := ?h,
        r_filter_block := filter_StartBlock offset (r_filter_block r)\<rparr>)"
      using inv w(1) by (simp add: Flush_def)
    then show ?thesis using False w(6) inv by (auto simp: goes_on_def no_errors_def)
  next
    case True
    let ?r = "r\<lparr>r_ok := ok2, r_file := f2, r_offset := offset, r_data_block := block', r_pending_handle := ?h, r_pending_index_entry := True,
        r_filter_block := filter_StartBlock offset (r_filter_block r)\<rparr>"
    have F: "Flush sn r = Some ?r" using True inv w(1) f2(1) by (simp add: Flush_def)
    have "stored_block sn cur c ty" using cs w(2,3) unfolding building_def stored_block_def by blast
    then have "block_ok sn ?b" using \<open>cur \<noteq> []\<close> by (simp add: block_ok_def)
    moreover have "offset = of_nat (length (written (bs @ [?b])))" "pf_data f2 = written (bs @ [?b])"
      using assms(2) w(5) f2(2) True by (simp_all add: table_inv_def)
    moreover have len: "length bs = length seps" using assms(2) inv(4) by (simp add: table_inv_def)
    moreover have "?h = handle_of (bs @ [?b]) (length seps)"
      using assms(2) len by (simp add: handle_of_def start_of_def table_inv_def nth_append)
    moreover have "separated (c_Compare (opt_comparator opt)) (bs @ [?b]) seps []"
      using assms(2) len unfolding table_inv_def separated_def by (auto simp: nth_append)
    moreover have "block_holds block' []" using w(4) by (auto simp: block_holds_def)
    ultimately have "ok2 \<longrightarrow> table_inv opt sn ?r (bs @ [?b]) seps []"
      using assms(2) False filter_of_StartBlock [of bs cur c ty opt] unfolding table_inv_def
      by (simp add: index_of_append del: written_append)
    moreover have "goes_on r ?r" using w(6) f2(3) inv(2) by (auto simp: goes_on_def no_errors_def)
    ultimately show ?thesis using F by (intro exI [of _ ?r]) (auto intro!: exI [of _ "bs @ [?b]"])
  qed
qed


section \<open>Adding entries\<close>

lemma of_nat_not_max: "n < 2 ^ 63 \<Longrightarrow> (of_nat n :: u64) \<noteq> - 1"
proof
  assume n: "n < 2 ^ 63" and "(of_nat n :: u64) = - 1"
  then have "unat (of_nat n :: u64) = unat (- 1 :: u64)" by simp
  then show False using n by (simp add: unat_of_nat unsigned_minus_1_eq_mask mask_eq_exp_minus_1)
qed

text \<open>The comparator of a table: an order, and the short keys that it makes for the index.\<close>

locale table_comparator = byte_keys "c_Compare c" for c :: comparator +
  assumes separator: "c_Compare c start limit < 0 \<Longrightarrow> \<exists>sep. c_FindShortestSeparator c start limit = Some sep \<and>
      \<not> c_Compare c sep start < 0 \<and> c_Compare c sep limit < 0 \<and> length sep \<le> length start"
    and successor: "\<not> c_Compare c (c_FindShortSuccessor c key) key < 0" "length (c_FindShortSuccessor c key) \<le> length key"
begin

lemma not_less_less: "\<not> c_Compare c s a < 0 \<Longrightarrow> c_Compare c b a < 0 \<Longrightarrow> c_Compare c b s < 0"
  using cmp_laws by (metis linorder_neqE_linordered_idom)

lemma sep_less_last:
  assumes inv: "table_inv opt sn r bs seps cur" and c: "opt_comparator opt = c" and i: "i < length seps"
  shows "c_Compare c (seps ! i) (fst (last (all_entries bs @ cur))) < 0"
proof -
  have "last (all_entries bs @ cur) \<in> set (all_entries (drop (Suc i) bs) @ cur)"
  proof (cases "cur = []")
    case False
    then show ?thesis by simp
  next
    case True
    have n: "length bs = Suc (length seps)" using inv i True by (auto simp: table_inv_def split: if_splits)
    then obtain bs' b where b: "bs = bs' @ [b]" by (cases bs rule: rev_cases) auto
    obtain es cc ty where e: "b = (es, cc, ty)" by (cases b)
    have "es \<noteq> []" using inv b e by (simp add: table_inv_def block_ok_def)
    moreover have "Suc i \<le> length bs'" using n b i by simp
    ultimately show ?thesis using True b e by simp
  qed
  then show ?thesis using inv c i unfolding table_inv_def separated_def by blast
qed

lemma add_index_entry_ok:
  assumes inv: "table_inv opt sn r bs seps []" and c: "opt_comparator opt = c" and p: "r_pending_index_entry r"
    and s: "\<not> c_Compare c s (fst (last (all_entries bs))) < 0" and small: "entries_size (all_entries bs) < 2 ^ 63"
  shows "\<exists>index. add_index_entry s r = Some (r\<lparr>r_last_key := s, r_index_block := index, r_pending_index_entry := False\<rparr>) \<and>
    block_holds index (index_of bs (seps @ [s]))"
proof -
  have inv': "length bs = Suc (length seps)" "r_pending_handle r = handle_of bs (length seps)" "block_holds (r_index_block r) (index_of bs seps)"
    "r_options r = opt" "\<forall>b \<in> set bs. block_ok sn b" using inv p by (simp_all add: table_inv_def)
  let ?h = "handle_of bs (length seps)"
  have b: "bs = take (length seps) bs @ [bs ! length seps]" using inv'(1) by (metis lessI take_Suc_conv_app_nth take_all_iff order_refl)
  obtain es cc ty where e: "bs ! length seps = (es, cc, ty)" by (cases "bs ! length seps")
  have "length (written bs) < 2 ^ 63" using written_length [OF inv'(5)] small by simp
  moreover have "written bs = written (take (length seps) bs) @ stored ty cc"
    using arg_cong [OF b, of written] e by simp
  ultimately have len: "start_of bs (length seps) < 2 ^ 63" "length cc < 2 ^ 63" by (simp_all add: start_of_def)
  have enc: "EncodeTo ?h [] = Some (handle_bytes ?h)"
    using of_nat_not_max [OF len(1)] of_nat_not_max [OF len(2)] by (simp add: EncodeTo_iff handle_bytes_def handle_of_def e)
  have "index_of bs seps = [] \<or> c_Compare c s (fst (last (index_of bs seps))) > 0"
  proof (cases "seps = []")
    case False
    then have "c_Compare c (last seps) (fst (last (all_entries bs @ []))) < 0"
      using sep_less_last [OF inv c, of "length seps - 1"] by (simp add: last_conv_nth)
    then have "c_Compare c (last seps) s < 0" using not_less_less [OF s] by simp
    then show ?thesis using False cmp_laws(2) by (cases seps rule: rev_cases) (simp_all add: index_of_snoc)
  qed (simp add: index_of_def)
  then obtain index where "BlockBuilder_Add (c_Compare c) s (handle_bytes ?h) (r_index_block r) = Some index"
    "block_holds index (index_of bs seps @ [(s, handle_bytes ?h)])"
    using block_holds_Add [OF inv'(3)] by blast
  then show ?thesis using enc inv' c by (intro exI [of _ index]) (simp add: add_index_entry_def index_of_snoc)
qed

lemma Add_inv:
  assumes sn: "snappy_ok sn" and inv: "table_inv opt sn r bs seps cur" and c: "opt_comparator opt = c"
    and key: "all_entries bs @ cur = [] \<or> c_Compare c (fst (last (all_entries bs @ cur))) key < 0"
    and small: "entries_size (all_entries bs) < 2 ^ 63"
  shows "\<exists>r'. Add sn key val r = Some r' \<and> goes_on r r' \<and> (r_ok r' \<longrightarrow>
    (\<exists>bs' seps' cur'. table_inv opt sn r' bs' seps' cur' \<and> all_entries bs' @ cur' = all_entries bs @ cur @ [(key, val)]))"
proof -
  let ?K = "all_entries bs @ cur"
  have i: "r_options r = opt" "r_ok r" "\<not> r_closed r" "block_holds (r_data_block r) cur" "r_filter_block r = filter_of opt (filter_blocks bs cur)"
    "?K \<noteq> [] \<longrightarrow> r_last_key r = fst (last ?K)" "?K = [] \<longrightarrow> r_num_entries r = 0"
    using inv by (simp_all add: table_inv_def)
  have order: "\<not> (sint (r_num_entries r) > 0 \<and> \<not> c_Compare c key (r_last_key r) > 0)"
    using key i(6,7) cmp_laws(2) by (cases "?K = []") auto
  have less_key: "c_Compare c (seps ! j) key < 0" if "j < length seps" for j
  proof -
    have "bs \<noteq> []" using inv that by (auto simp: table_inv_def)
    then obtain b bs' where "bs = b # bs'" by (cases bs) auto
    moreover from this have "fst b \<noteq> []" using inv by (cases b) (auto simp: table_inv_def block_ok_def)
    ultimately have "?K \<noteq> []" by (cases b) (auto simp: all_entries_def)
    then show ?thesis using sep_less_last [OF inv c that] key cmp_laws(3) by blast
  qed
  have "\<exists>r1 seps'. (if r_pending_index_entry r then if bb_buffer (r_data_block r) \<noteq> [] then None
        else do { last_key \<leftarrow> c_FindShortestSeparator c (r_last_key r) key; add_index_entry last_key r } else Some r) = Some r1 \<and>
      r1 = r\<lparr>r_last_key := r_last_key r1, r_index_block := r_index_block r1, r_pending_index_entry := False\<rparr> \<and>
      block_holds (r_index_block r1) (index_of bs seps') \<and> length bs = length seps' \<and>
      separated (c_Compare c) bs seps' (cur @ [(key, val)])"
  proof (cases "r_pending_index_entry r")
    case False
    then have "length bs = length seps" "block_holds (r_index_block r) (index_of bs seps)" using inv by (simp_all add: table_inv_def)
    moreover have "separated (c_Compare c) bs seps (cur @ [(key, val)])"
      using inv less_key c unfolding table_inv_def separated_def by auto
    ultimately show ?thesis using False by (intro exI [of _ r] exI [of _ seps]) simp
  next
    case True
    then have cur: "cur = []" "bs \<noteq> []" "length bs = Suc (length seps)" "bb_buffer (r_data_block r) = []"
      using inv block_holds_empty [OF i(4)] by (simp_all add: table_inv_def)
    obtain bs' es cc ty where b: "bs = bs' @ [(es, cc, ty)]" using cur(2) by (cases bs rule: rev_cases) auto
    have es: "es \<noteq> []" using inv b by (simp add: table_inv_def block_ok_def)
    have last: "r_last_key r = fst (last (all_entries bs))" "fst (last (all_entries bs)) = fst (last es)" using i(6) cur(1) b es by simp_all
    have "c_Compare c (r_last_key r) key < 0" using key last cur(1) b es by simp
    then obtain s where s: "c_FindShortestSeparator c (r_last_key r) key = Some s" "\<not> c_Compare c s (r_last_key r) < 0" "c_Compare c s key < 0" "length s \<le> length (r_last_key r)"
      using separator by blast
    obtain index where ix: "add_index_entry s r = Some (r\<lparr>r_last_key := s, r_index_block := index, r_pending_index_entry := False\<rparr>)"
      "block_holds index (index_of bs (seps @ [s]))"
      using add_index_entry_ok [OF _ c True _ small, of sn seps s] inv cur(1) s(2) last(1) by auto
    have "separated (c_Compare c) bs (seps @ [s]) (cur @ [(key, val)])"
      unfolding separated_def
    proof (intro allI impI)
      fix j assume "j < length (seps @ [s])"
      then consider "j < length seps" | "j = length seps" by fastforce
      then show "\<not> c_Compare c ((seps @ [s]) ! j) (fst (last (fst (bs ! j)))) < 0 \<and>
        length ((seps @ [s]) ! j) \<le> length (fst (last (fst (bs ! j)))) \<and>
        (\<forall>e \<in> set (all_entries (drop (Suc j) bs) @ cur @ [(key, val)]). c_Compare c ((seps @ [s]) ! j) (fst e) < 0)"
      proof cases
        case 1
        then show ?thesis using inv c less_key [OF 1] cur(1) unfolding table_inv_def separated_def by (auto simp: nth_append)
      next
        case 2
        then show ?thesis using s(2-4) last cur b by (simp add: nth_append)
      qed
    qed
    then show ?thesis using True cur s(1) ix by (intro exI exI [of _ "seps @ [s]"] conjI) auto
  qed
  then obtain r1 seps' where r1: "(if r_pending_index_entry r then if bb_buffer (r_data_block r) \<noteq> [] then None
        else do { last_key \<leftarrow> c_FindShortestSeparator c (r_last_key r) key; add_index_entry last_key r } else Some r) = Some r1"
      "r1 = r\<lparr>r_last_key := r_last_key r1, r_index_block := r_index_block r1, r_pending_index_entry := False\<rparr>"
      "block_holds (r_index_block r1) (index_of bs seps')" "length bs = length seps'" "separated (c_Compare c) bs seps' (cur @ [(key, val)])"
    by blast
  have same: "r_data_block r1 = r_data_block r" "r_filter_block r1 = r_filter_block r" "r_options r1 = opt" "r_ok r1" "\<not> r_closed r1"
    "r_file r1 = r_file r" "r_offset r1 = r_offset r" "\<not> r_pending_index_entry r1" using i by (subst r1(2), simp)+
  have "cur = [] \<or> c_Compare c key (fst (last cur)) > 0" using key cmp_laws(2) by (cases "cur = []") auto
  then obtain data where data: "BlockBuilder_Add (c_Compare c) key val (r_data_block r) = Some data" "block_holds data (cur @ [(key, val)])"
    using block_holds_Add [OF i(4)] by blast
  define r2 where "r2 = r1\<lparr>r_filter_block := map_option (map_prod id (AddKey key)) (r_filter_block r1), r_last_key := key,
      r_num_entries := r_num_entries r1 + 1, r_data_block := data\<rparr>"
  have A: "Add sn key val r = (if CurrentSizeEstimate data \<ge> opt_block_size opt then Flush sn r2 else Some r2)"
    unfolding Add_def Let_def i(1) c r1(1) if_not_P [OF order] using i(2,3) data(1) same by (simp add: r2_def)
  have inv2: "table_inv opt sn r2 bs seps' (cur @ [(key, val)])"
    using inv r1(3-5) c data(2) same filter_of_AddKey [of key opt bs cur val] i(5) unfolding table_inv_def r2_def by simp
  have r2: "no_errors r2 = no_errors r" "\<not> r_closed r2" "r_ok r2" using same by (simp_all add: r2_def no_errors_def)
  show ?thesis
  proof (cases "CurrentSizeEstimate data \<ge> opt_block_size opt")
    case False
    then show ?thesis using A r2 by (intro exI [of _ r2] conjI impI exI [of _ bs] exI [of _ seps'] exI [of _ "cur @ [(key, val)]"])
        (simp_all add: goes_on_def inv2)
  next
    case True
    obtain r' where r': "Flush sn r2 = Some r'" "goes_on r2 r'"
      "r_ok r' \<longrightarrow> (\<exists>bs'. table_inv opt sn r' bs' seps' [] \<and> all_entries bs' = all_entries bs @ cur @ [(key, val)])"
      using Flush_inv [OF sn inv2] by auto
    then have "r_ok r' \<longrightarrow> (\<exists>bs' seps' cur'. table_inv opt sn r' bs' seps' cur' \<and> all_entries bs' @ cur' = all_entries bs @ cur @ [(key, val)])"
      by (metis append_Nil2)
    moreover have "goes_on r r'" using r'(2) r2(1) by (simp add: goes_on_def)
    ultimately show ?thesis using A True r'(1) by (intro exI [of _ r']) simp
  qed
qed

end


section \<open>Finishing\<close>

text \<open>Only the file, the offset and the status of \<open>r\<close> have changed, by appending \<open>bs\<close> if it succeeded.\<close>

definition appended :: "rep \<Rightarrow> rep \<Rightarrow> u8 list \<Rightarrow> bool" where
  "appended r r' bs \<longleftrightarrow> r' = r\<lparr>r_ok := r_ok r', r_file := r_file r', r_offset := r_offset r'\<rparr> \<and>
     (r_ok r' \<longrightarrow> pf_data (r_file r') = pf_data (r_file r) @ bs \<and> r_offset r' = r_offset r + of_nat (length bs)) \<and>
     (no_errors r \<longrightarrow> r_ok r' \<and> no_errors r')"

lemma WriteRawBlock_appended:
  "\<exists>r'. WriteRawBlock c ty r = (\<lparr>bh_offset = r_offset r, bh_size = of_nat (length c)\<rparr>, r') \<and> appended r r' (stored ty c)"
proof -
  obtain ok f offset where w: "WriteRawBlock c ty r = (\<lparr>bh_offset = r_offset r, bh_size = of_nat (length c)\<rparr>, r\<lparr>r_ok := ok, r_file := f, r_offset := offset\<rparr>)"
    "ok \<longrightarrow> pf_data f = pf_data (r_file r) @ stored ty c \<and> offset = r_offset r + of_nat (length c + 5)" "no_errors r \<longrightarrow> ok \<and> pf_errs f = []"
    using WriteRawBlock_cases by blast
  then show ?thesis by (intro exI [of _ "r\<lparr>r_ok := ok, r_file := f, r_offset := offset\<rparr>"]) (simp add: appended_def no_errors_def)
qed

lemma WriteBlock_appended:
  assumes "snappy_ok sn" "r_ok r" "block_holds block es"
  shows "\<exists>c ty block' r'. WriteBlock sn block r = Some (\<lparr>bh_offset = r_offset r, bh_size = of_nat (length c)\<rparr>, block', r') \<and>
    stored_block sn es c ty \<and> appended r r' (stored ty c)"
proof -
  obtain cs rs where b: "building block cs rs" "map snd cs = es" using assms(3) by (auto simp: block_holds_def)
  obtain c ty block' ok f offset where w: "WriteBlock sn block r = Some (\<lparr>bh_offset = r_offset r, bh_size = of_nat (length c)\<rparr>, block',
      r\<lparr>r_ok := ok, r_file := f, r_offset := offset\<rparr>)"
    "holds_raw sn ty c (contents_of cs rs)" "length c \<le> length (contents_of cs rs)"
    "ok \<longrightarrow> pf_data f = pf_data (r_file r) @ stored ty c \<and> offset = r_offset r + of_nat (length c + 5)" "no_errors r \<longrightarrow> ok \<and> pf_errs f = []"
    using WriteBlock_cases [OF assms(1,2) b(1)] by blast
  have "stored_block sn es c ty" using b w(2,3) unfolding building_def stored_block_def by blast
  moreover have "appended r (r\<lparr>r_ok := ok, r_file := f, r_offset := offset\<rparr>) (stored ty c)" using w(4,5) by (simp add: appended_def no_errors_def)
  ultimately show ?thesis using w(1) by blast
qed

definition meta_entries :: "options \<Rightarrow> block_handle \<Rightarrow> entries" where
  "meta_entries opt h = (case opt_filter_policy opt of None \<Rightarrow> [] | Some p \<Rightarrow> [(bytes_of ''filter.'' @ fp_Name p, handle_bytes h)])"

lemma EncodeTo_handle_bytes: "bh_offset h \<noteq> - 1 \<Longrightarrow> bh_size h \<noteq> - 1 \<Longrightarrow> EncodeTo h [] = Some (handle_bytes h)"
  by (simp add: EncodeTo_iff handle_bytes_def)

lemma write_meta_appended:
  assumes "snappy_ok sn" "r_ok r" "r_options r = opt" "1 \<le> opt_block_restart_interval opt" "r_filter_block r = filter_of opt blks"
    "opt_filter_policy opt \<noteq> None \<Longrightarrow> bh_offset h \<noteq> - 1 \<and> bh_size h \<noteq> - 1"
  shows "\<exists>c ty r'. write_meta sn h r = Some (\<lparr>bh_offset = r_offset r, bh_size = of_nat (length c)\<rparr>, r') \<and>
    stored_block sn (meta_entries opt h) c ty \<and> appended r r' (stored ty c)"
proof -
  obtain b where b: "BlockBuilder (opt_block_restart_interval opt) = Some b" "block_holds b []" using block_holds_new [OF assms(4)] by blast
  have "\<exists>b'. (case r_filter_block r of None \<Rightarrow> Some b | Some _ \<Rightarrow> do {
           p \<leftarrow> opt_filter_policy (r_options r);
           handle_encoding \<leftarrow> EncodeTo h [];
           BlockBuilder_Add (c_Compare (opt_comparator (r_options r))) (bytes_of ''filter.'' @ fp_Name p) handle_encoding b }) = Some b' \<and>
      block_holds b' (meta_entries opt h)"
  proof (cases "opt_filter_policy opt")
    case None
    then show ?thesis using b(2) assms(5) by (simp add: meta_entries_def filter_of_def)
  next
    case (Some p)
    obtain b' where "BlockBuilder_Add (c_Compare (opt_comparator opt)) (bytes_of ''filter.'' @ fp_Name p) (handle_bytes h) b = Some b'"
      "block_holds b' ([] @ [(bytes_of ''filter.'' @ fp_Name p, handle_bytes h)])"
      using block_holds_Add [OF b(2)] by blast
    then show ?thesis using Some assms(3,5,6) EncodeTo_handle_bytes [of h] by (simp add: meta_entries_def filter_of_def)
  qed
  then obtain b' where b': "(case r_filter_block r of None \<Rightarrow> Some b | Some _ \<Rightarrow> do {
           p \<leftarrow> opt_filter_policy (r_options r);
           handle_encoding \<leftarrow> EncodeTo h [];
           BlockBuilder_Add (c_Compare (opt_comparator (r_options r))) (bytes_of ''filter.'' @ fp_Name p) handle_encoding b }) = Some b'"
      "block_holds b' (meta_entries opt h)" by blast
  obtain c ty block' r' where w: "WriteBlock sn b' r = Some (\<lparr>bh_offset = r_offset r, bh_size = of_nat (length c)\<rparr>, block', r')"
    "stored_block sn (meta_entries opt h) c ty" "appended r r' (stored ty c)"
    using WriteBlock_appended [OF assms(1,2) b'(2)] by blast
  have "write_meta sn h r = Some (\<lparr>bh_offset = r_offset r, bh_size = of_nat (length c)\<rparr>, r')"
    unfolding write_meta_def assms(3) b(1) Option.bind.simps b'(1) [unfolded assms(3)] w(1) by simp
  then show ?thesis using w(2,3) by blast
qed

text \<open>The bytes of a finished table, block by block.\<close>

definition filter_part :: "options \<Rightarrow> data_block list \<Rightarrow> u8 list" where
  "filter_part opt bs = (case opt_filter_policy opt of None \<Rightarrow> []
     | Some p \<Rightarrow> stored kNoCompression (filter_block_of (fp_CreateFilter p) (filter_blocks bs [])))"

definition filter_handle :: "options \<Rightarrow> data_block list \<Rightarrow> block_handle" where
  "filter_handle opt bs = (case opt_filter_policy opt of None \<Rightarrow> BlockHandle
     | Some p \<Rightarrow> \<lparr>bh_offset = of_nat (length (written bs)), bh_size = of_nat (length (filter_block_of (fp_CreateFilter p) (filter_blocks bs [])))\<rparr>)"

definition table_bytes :: "options \<Rightarrow> snappy \<Rightarrow> u8 list \<Rightarrow> data_block list \<Rightarrow> u8 list list \<Rightarrow> bool" where
  "table_bytes opt sn data bs seps \<longleftrightarrow> (\<exists>cm tm ci ti ft.
     data = written bs @ filter_part opt bs @ stored tm cm @ stored ti ci @ ft \<and>
     stored_block sn (meta_entries opt (filter_handle opt bs)) cm tm \<and> stored_block sn (index_of bs seps) ci ti \<and>
     Footer_EncodeTo
       \<lparr>ft_metaindex = \<lparr>bh_offset = of_nat (length (written bs @ filter_part opt bs)), bh_size = of_nat (length cm)\<rparr>,
        ft_index = \<lparr>bh_offset = of_nat (length (written bs @ filter_part opt bs @ stored tm cm)), bh_size = of_nat (length ci)\<rparr>\<rparr> [] = Some ft)"

definition table_layout :: "options \<Rightarrow> snappy \<Rightarrow> u8 list \<Rightarrow> data_block list \<Rightarrow> u8 list list \<Rightarrow> bool" where
  "table_layout opt sn data bs seps \<longleftrightarrow> table_bytes opt sn data bs seps \<and> length seps = length bs \<and>
     separated (c_Compare (opt_comparator opt)) bs seps [] \<and> (\<forall>b \<in> set bs. block_ok sn b)"

text \<open>What a policy has to promise for the entries of a table.\<close>

definition policy_ok :: "entries \<Rightarrow> policy \<Rightarrow> bool" where
  "policy_ok es p \<longleftrightarrow> filter_policy (fp_CreateFilter p) (fp_KeyMayMatch p) \<and> length (fp_Name p) < 2 ^ 20 \<and>
     (\<forall>blks. sorted (map fst blks) \<and> concat (map snd blks) = map fst es \<and> (\<forall>b \<in> set blks. fst b \<le> entries_size es) \<longrightarrow>
        length (filter_block_of (fp_CreateFilter p) blks) < 2 ^ 31)"

lemma filter_blocks_ok:
  assumes "\<forall>b \<in> set bs. block_ok sn b" "entries_size (all_entries bs) < 2 ^ 63"
  shows "sorted (map fst (filter_blocks bs []))" "concat (map snd (filter_blocks bs [])) = map fst (all_entries bs)"
    "\<forall>b \<in> set (filter_blocks bs []). fst b \<le> entries_size (all_entries bs)"
    "i < length bs \<Longrightarrow> (start_of bs i, map fst (fst (bs ! i))) \<in> set (filter_blocks bs [])"
proof -
  have w: "length (written bs) \<le> entries_size (all_entries bs)" using written_length [OF assms(1)] .
  have s: "written bs = written (take i bs) @ written (drop i bs)" for i by (metis append_take_drop_id written_append(1))
  have le: "start_of bs i \<le> length (written bs)" for i unfolding start_of_def using arg_cong [OF s [of i], of length] by simp
  have u: "unat (of_nat n :: u64) = n" if "n \<le> length (written bs)" for n using that w assms(2) by (simp add: unat_of_nat)
  have mono: "start_of bs i \<le> start_of bs j" if "i \<le> j" for i j
  proof -
    have "take j bs = take i bs @ drop i (take j bs)" using that by (metis append_take_drop_id min.absorb1 take_take)
    then show ?thesis unfolding start_of_def by (metis le_add1 length_append written_append(1))
  qed
  have f: "filter_blocks bs [] = map (\<lambda>i. (start_of bs i, map fst (fst (bs ! i)))) [0..<length bs] @ [(length (written bs), [])]"
    using u le by (simp add: filter_blocks_def)
  have "sorted (map (start_of bs) [0..<length bs])" by (simp add: sorted_iff_nth_mono mono)
  then show "sorted (map fst (filter_blocks bs []))" unfolding f by (auto simp: sorted_append o_def le)
  have "map (\<lambda>i. map fst (fst (bs ! i))) [0..<length bs] = map (map fst \<circ> fst) bs" by (rule nth_equalityI) simp_all
  then show "concat (map snd (filter_blocks bs [])) = map fst (all_entries bs)"
    unfolding f by (simp add: o_def all_entries_def map_concat)
  show "\<forall>b \<in> set (filter_blocks bs []). fst b \<le> entries_size (all_entries bs)"
    unfolding f using le w by (auto intro: order_trans)
  show "i < length bs \<Longrightarrow> (start_of bs i, map fst (fst (bs ! i))) \<in> set (filter_blocks bs [])"
    unfolding f by auto
qed

lemma filter_block_of_Finish: "FilterBlock_Finish create (fold (add_block create) blks FilterBlockBuilder) = filter_block_of create blks"
  by (simp add: filter_block_of_def)


lemma index_size:
  assumes "separated cmp bs seps []" "length seps = length bs" "\<forall>b \<in> set bs. block_ok sn b"
  shows "(\<Sum>(key, val)\<leftarrow>index_of bs seps. length key + length val + 19) \<le> entries_size (all_entries bs)"
proof -
  have le: "length (seps ! i) + length (handle_bytes (handle_of bs i)) + 19 \<le> entries_size (fst (bs ! i))" if "i < length bs" for i
  proof -
    obtain es c ty where e: "bs ! i = (es, c, ty)" by (cases "bs ! i")
    then have "es \<noteq> []" using assms(3) nth_mem [OF that] by (auto simp: block_ok_def)
    then obtain es' k v where es: "es = es' @ [(k, v)]" by (cases es rule: rev_cases) auto
    have "length (seps ! i) \<le> length k" using assms(1,2) that e es by (auto simp: separated_def)
    moreover have "length (handle_bytes h) \<le> 20" for h
      using length_EncodeVarint(2) [of "bh_offset h"] length_EncodeVarint(2) [of "bh_size h"] by (simp add: handle_bytes_def)
    ultimately show ?thesis using e es add_mono [of "length (seps ! i)" "length k" "length (handle_bytes (handle_of bs i))" 20] by simp
  qed
  have "(\<Sum>(key, val)\<leftarrow>index_of bs seps. length key + length val + 19) =
      (\<Sum>i\<leftarrow>[0..<length bs]. length (seps ! i) + length (handle_bytes (handle_of bs i)) + 19)"
    using assms(2) by (simp add: index_of_def o_def)
  also have "\<dots> \<le> (\<Sum>i\<leftarrow>[0..<length bs]. entries_size (fst (bs ! i)))" by (rule sum_list_mono) (simp add: le)
  also have "(\<Sum>i\<leftarrow>[0..<length bs]. entries_size (fst (bs ! i))) = (\<Sum>b\<leftarrow>bs. entries_size (fst b))"
    by (simp add: map_nth flip: map_map [of "\<lambda>b. entries_size (fst b)" "(!) bs", unfolded o_def])
  also have "\<dots> = entries_size (all_entries bs)"
  proof (induction bs)
    case (Cons b bs)
    then show ?case by (cases b) (simp add: all_entries_def entries_size_def)
  qed simp
  finally show ?thesis .
qed

lemma filter_stage:
  assumes "r_ok r" "r_filter_block r = filter_of opt (filter_blocks bs [])" "r_offset r = of_nat (length (written bs))"
  shows "\<exists>r'. (case r_filter_block r of
         Some (p, b) \<Rightarrow> if r_ok r then WriteRawBlock (FilterBlock_Finish (fp_CreateFilter p) b) kNoCompression r else (BlockHandle, r)
       | None \<Rightarrow> (BlockHandle, r)) = (filter_handle opt bs, r') \<and> (no_errors r \<longrightarrow> appended r r' (filter_part opt bs)) \<and>
      (appended r r' (filter_part opt bs))"
proof (cases "opt_filter_policy opt")
  case None
  then show ?thesis using assms by (simp add: filter_of_def filter_handle_def filter_part_def appended_def)
next
  case (Some p)
  then show ?thesis
    using WriteRawBlock_appended [of "filter_block_of (fp_CreateFilter p) (filter_blocks bs [])" kNoCompression r] assms
    by (auto simp: filter_of_def filter_block_of_Finish filter_handle_def filter_part_def)
qed

lemma Finish_failed:
  assumes "\<not> r_ok r" "\<not> r_closed r"
  shows "\<exists>r'. Finish sn r = Some (False, r')"
  using assms by (auto simp: Finish_def Flush_def split: option.splits prod.splits)

lemma add_index_entry_update:
  "add_index_entry s (r\<lparr>r_closed := a, r_ok := b, r_file := f, r_offset := d\<rparr>) =
    map_option (\<lambda>q. q\<lparr>r_closed := a, r_ok := b, r_file := f, r_offset := d\<rparr>) (add_index_entry s r)"
proof (cases "EncodeTo (r_pending_handle r) []")
  case (Some e)
  then show ?thesis
    by (cases "BlockBuilder_Add (c_Compare (opt_comparator (r_options r))) s e (r_index_block r)") (simp_all add: add_index_entry_def)
qed (simp add: add_index_entry_def)

context table_comparator
begin

lemma index_stage:
  assumes sn: "snappy_ok sn" and inv: "table_inv opt sn r0 bs seps []" and c: "opt_comparator opt = c"
    and small: "entries_size (all_entries bs) < 2 ^ 63"
    and r: "r = r0\<lparr>r_closed := True, r_ok := True, r_file := f, r_offset := offset\<rparr>"
  shows "\<exists>ci ti r' seps'. write_index sn r = Some (\<lparr>bh_offset = offset, bh_size = of_nat (length ci)\<rparr>, r') \<and>
    stored_block sn (index_of bs seps') ci ti \<and> length seps' = length bs \<and> separated (c_Compare c) bs seps' [] \<and>
    (r_ok r' \<longrightarrow> pf_data (r_file r') = pf_data f @ stored ti ci \<and> r_offset r' = offset + of_nat (length ci + 5)) \<and>
    (no_errors r \<longrightarrow> r_ok r' \<and> no_errors r')"
proof -
  have "\<exists>r1 seps'. (if r_pending_index_entry r
       then add_index_entry (c_FindShortSuccessor (opt_comparator (r_options r)) (r_last_key r)) r else Some r) = Some r1 \<and>
      block_holds (r_index_block r1) (index_of bs seps') \<and> length seps' = length bs \<and> separated (c_Compare c) bs seps' [] \<and>
      r_ok r1 \<and> r_file r1 = f \<and> r_offset r1 = offset"
  proof (cases "r_pending_index_entry r0")
    case False
    then show ?thesis using inv c r by (intro exI [of _ r] exI [of _ seps]) (auto simp: table_inv_def)
  next
    case True
    then have p: "r_options r0 = opt" "bs \<noteq> []" "length bs = Suc (length seps)" using inv by (simp_all add: table_inv_def)
    obtain bs' es cc ty where b: "bs = bs' @ [(es, cc, ty)]" using p(2) by (cases bs rule: rev_cases) auto
    then have es: "es \<noteq> []" using inv by (simp add: table_inv_def block_ok_def)
    have last: "r_last_key r0 = fst (last (all_entries bs))" "fst (last (all_entries bs)) = fst (last es)"
      using inv b es by (simp_all add: table_inv_def)
    let ?s = "c_FindShortSuccessor c (r_last_key r0)"
    obtain index where ix: "add_index_entry ?s r0 = Some (r0\<lparr>r_last_key := ?s, r_index_block := index, r_pending_index_entry := False\<rparr>)"
      "block_holds index (index_of bs (seps @ [?s]))"
      using add_index_entry_ok [OF inv c True _ small, of ?s] successor(1) last(1) by auto
    have "add_index_entry ?s r = Some (r\<lparr>r_last_key := ?s, r_index_block := index, r_pending_index_entry := False\<rparr>)"
      unfolding r add_index_entry_update ix(1) by simp
    moreover have "separated (c_Compare c) bs (seps @ [?s]) []"
      using inv c successor [of "r_last_key r0"] last b p(3) unfolding table_inv_def separated_def by (auto simp: nth_append less_Suc_eq)
    ultimately show ?thesis using True p c ix(2) r
      by (intro exI [of _ "r\<lparr>r_last_key := ?s, r_index_block := index, r_pending_index_entry := False\<rparr>"] exI [of _ "seps @ [?s]"]) simp
  qed
  then obtain r1 seps' where r1: "(if r_pending_index_entry r
       then add_index_entry (c_FindShortSuccessor (opt_comparator (r_options r)) (r_last_key r)) r else Some r) = Some r1"
      "block_holds (r_index_block r1) (index_of bs seps')" "length seps' = length bs" "separated (c_Compare c) bs seps' []"
      "r_ok r1" "r_file r1 = f" "r_offset r1 = offset" by blast
  obtain ci ti block' r2 where w: "WriteBlock sn (r_index_block r1) r1 = Some (\<lparr>bh_offset = r_offset r1, bh_size = of_nat (length ci)\<rparr>, block', r2)"
    "stored_block sn (index_of bs seps') ci ti" "appended r1 r2 (stored ti ci)"
    using WriteBlock_appended [OF sn r1(5,2)] by blast
  have "write_index sn r = Some (\<lparr>bh_offset = offset, bh_size = of_nat (length ci)\<rparr>, r2\<lparr>r_index_block := block'\<rparr>)"
    unfolding write_index_def r1(1) Option.bind.simps w(1) using r1(7) by simp
  moreover have "no_errors r = no_errors r1" using r r1(6) by (simp add: no_errors_def)
  ultimately show ?thesis using w(2,3) r1(3,4,6,7)
    by (intro exI [of _ ci] exI [of _ ti] exI [of _ "r2\<lparr>r_index_block := block'\<rparr>"] exI [of _ seps']) (simp add: appended_def no_errors_def)
qed

end


text \<open>A whole table: entries in the order of their keys.\<close>

fun Adds :: "snappy \<Rightarrow> entries \<Rightarrow> rep \<Rightarrow> rep option" where
  "Adds sn [] r = Some r"
| "Adds sn ((key, val) # es) r = do { r \<leftarrow> Add sn key val r; Adds sn es r }"

definition build_table :: "snappy \<Rightarrow> options \<Rightarrow> posix_file \<Rightarrow> entries \<Rightarrow> (bool \<times> rep) option" where
  "build_table sn opt file es = do { r \<leftarrow> TableBuilder opt file; r \<leftarrow> Adds sn es r; Finish sn r }"

lemma appended_same:
  assumes "appended r r' bs"
  shows "r_options r' = r_options r" "r_filter_block r' = r_filter_block r"
proof -
  have e: "r' = r\<lparr>r_ok := r_ok r', r_file := r_file r', r_offset := r_offset r'\<rparr>" using assms by (simp add: appended_def)
  show "r_options r' = r_options r" "r_filter_block r' = r_filter_block r"
    using arg_cong [OF e, of r_options] arg_cong [OF e, of r_filter_block] by simp_all
qed

lemma appended_trans:
  assumes "appended q1 q2 as" "appended q2 q3 bs"
  shows "q3 = q1\<lparr>r_ok := r_ok q3, r_file := r_file q3, r_offset := r_offset q3\<rparr>"
proof -
  have e: "q2 = q1\<lparr>r_ok := r_ok q2, r_file := r_file q2, r_offset := r_offset q2\<rparr>" using assms(1) by (simp add: appended_def)
  have "q2\<lparr>r_ok := a, r_file := f, r_offset := d\<rparr> = q1\<lparr>r_ok := a, r_file := f, r_offset := d\<rparr>" for a f d
    by (subst e) simp
  then show ?thesis using assms(2) by (simp add: appended_def)
qed

lemma goes_on_trans: "goes_on r r' \<Longrightarrow> goes_on r' r'' \<Longrightarrow> goes_on r r''"
  by (simp add: goes_on_def)

lemma Adds_failed: "\<not> r_ok r \<Longrightarrow> \<not> r_closed r \<Longrightarrow> Adds sn es r = Some r"
proof (induction es)
  case (Cons e es)
  then show ?case by (cases e) (simp add: Add_def)
qed simp

lemma filter_part_length:
  assumes "\<forall>p. opt_filter_policy opt = Some p \<longrightarrow> policy_ok (all_entries bs) p" "\<forall>b \<in> set bs. block_ok sn b"
    "entries_size (all_entries bs) < 2 ^ 63"
  shows "length (filter_part opt bs) < 2 ^ 32" "opt_filter_policy opt \<noteq> None \<Longrightarrow> bh_offset (filter_handle opt bs) \<noteq> - 1 \<and> bh_size (filter_handle opt bs) \<noteq> - 1"
proof -
  have f: "length (filter_block_of (fp_CreateFilter p) (filter_blocks bs [])) < 2 ^ 31" if "opt_filter_policy opt = Some p" for p
    using assms(1) that filter_blocks_ok(1-3) [OF assms(2,3)] unfolding policy_ok_def by blast
  show "length (filter_part opt bs) < 2 ^ 32" using f by (cases "opt_filter_policy opt") (fastforce simp: filter_part_def)+
  assume "opt_filter_policy opt \<noteq> None"
  then obtain p where p: "opt_filter_policy opt = Some p" by blast
  have "length (written bs) < 2 ^ 63" using written_length [OF assms(2)] assms(3) by simp
  moreover have "length (filter_block_of (fp_CreateFilter p) (filter_blocks bs [])) < 2 ^ 63" using f [OF p] by simp
  ultimately show "bh_offset (filter_handle opt bs) \<noteq> - 1 \<and> bh_size (filter_handle opt bs) \<noteq> - 1"
    using p by (simp add: filter_handle_def of_nat_not_max)
qed

lemma meta_size:
  assumes "\<forall>p. opt_filter_policy opt = Some p \<longrightarrow> policy_ok es p"
  shows "(\<Sum>(key, val)\<leftarrow>meta_entries opt h. length key + length val + 19) < 2 ^ 21"
proof -
  have "length (handle_bytes h) \<le> 20"
    using length_EncodeVarint(2) [of "bh_offset h"] length_EncodeVarint(2) [of "bh_size h"] by (simp add: handle_bytes_def)
  then show ?thesis using assms by (cases "opt_filter_policy opt") (auto simp: meta_entries_def policy_ok_def bytes_of_def)
qed

context table_comparator
begin

lemma Adds_inv:
  assumes "snappy_ok sn" "opt_comparator opt = c"
  shows "table_inv opt sn r bs seps cur \<Longrightarrow> ordered (c_Compare c) (all_entries bs @ cur @ es) \<Longrightarrow> entries_size (all_entries bs @ cur @ es) < 2 ^ 63 \<Longrightarrow>
    \<exists>r'. Adds sn es r = Some r' \<and> goes_on r r' \<and> (r_ok r' \<longrightarrow>
      (\<exists>bs' seps' cur'. table_inv opt sn r' bs' seps' cur' \<and> all_entries bs' @ cur' = all_entries bs @ cur @ es))"
proof (induction es arbitrary: r bs seps cur)
  case Nil
  have "r_ok r" "\<not> r_closed r" using Nil.prems(1) by (simp_all add: table_inv_def)
  then show ?case using Nil.prems(1)
    by (intro exI [of _ r] conjI impI exI [of _ bs] exI [of _ seps] exI [of _ cur]) (simp_all add: goes_on_def)
next
  case (Cons e es)
  obtain key val where e: "e = (key, val)" by (cases e)
  have o: "ordered (c_Compare c) ((all_entries bs @ cur) @ (key, val) # es)" using Cons.prems(2) e by simp
  have key: "all_entries bs @ cur = [] \<or> c_Compare c (fst (last (all_entries bs @ cur))) key < 0"
  proof (cases "all_entries bs @ cur = []")
    case False
    then have "last (all_entries bs @ cur) \<in> set (all_entries bs @ cur)" by (rule last_in_set)
    then show ?thesis using o unfolding ordered_append by auto
  qed simp
  have small: "entries_size (all_entries bs) < 2 ^ 63" using Cons.prems(3) by simp
  obtain r1 where r1: "Add sn key val r = Some r1" "goes_on r r1" "r_ok r1 \<longrightarrow>
      (\<exists>bs' seps' cur'. table_inv opt sn r1 bs' seps' cur' \<and> all_entries bs' @ cur' = all_entries bs @ cur @ [(key, val)])"
    using Add_inv [OF assms(1) Cons.prems(1) assms(2) key small, of val] by blast
  show ?case
  proof (cases "r_ok r1")
    case False
    then show ?thesis using Adds_failed [of r1 sn es] r1 e by (simp add: goes_on_def)
  next
    case True
    then obtain bs' seps' cur' where i: "table_inv opt sn r1 bs' seps' cur'" "all_entries bs' @ cur' = all_entries bs @ cur @ [(key, val)]"
      using r1(3) by blast
    have all: "all_entries bs' @ cur' @ es = all_entries bs @ cur @ e # es" using arg_cong [OF i(2), of "\<lambda>x. x @ es"] e by simp
    obtain r' where "Adds sn es r1 = Some r'" "goes_on r1 r'" "r_ok r' \<longrightarrow>
      (\<exists>bs'' seps'' cur''. table_inv opt sn r' bs'' seps'' cur'' \<and> all_entries bs'' @ cur'' = all_entries bs @ cur @ e # es)"
      using Cons.IH [OF i(1)] Cons.prems(2,3) unfolding all by auto
    then show ?thesis using r1(1) e goes_on_trans [OF r1(2)] by (intro exI [of _ r']) simp
  qed
qed

lemma Finish_ok:
  assumes sn: "snappy_ok sn" and inv0: "table_inv opt sn r0 bs0 seps0 cur0" and c: "opt_comparator opt = c"
    and interval: "1 \<le> opt_block_restart_interval opt" and small: "entries_size (all_entries bs0 @ cur0) < 2 ^ 31"
    and policy: "\<forall>p. opt_filter_policy opt = Some p \<longrightarrow> policy_ok (all_entries bs0 @ cur0) p"
  shows "\<exists>ok r'. Finish sn r0 = Some (ok, r') \<and> (no_errors r0 \<longrightarrow> ok) \<and>
    (ok \<longrightarrow> (\<exists>bs seps. table_layout opt sn (pf_data (r_file r')) bs seps \<and> all_entries bs = all_entries bs0 @ cur0))"
proof -
  obtain r1 where r1: "Flush sn r0 = Some r1" "goes_on r0 r1"
    "r_ok r1 \<longrightarrow> (\<exists>bs. table_inv opt sn r1 bs seps0 [] \<and> all_entries bs = all_entries bs0 @ cur0)"
    using Flush_inv [OF sn inv0] by blast
  have open1: "\<not> r_closed r1" using r1(2) by (simp add: goes_on_def)
  show ?thesis
  proof (cases "r_ok r1")
    case False
    then show ?thesis using r1 open1 by (auto simp: Finish_def goes_on_def split: option.splits)
  next
    case True
    then obtain bs where inv: "table_inv opt sn r1 bs seps0 []" and all: "all_entries bs = all_entries bs0 @ cur0" using r1(3) by blast
    have blocks: "\<forall>b \<in> set bs. block_ok sn b" using inv by (simp add: table_inv_def)
    have size: "entries_size (all_entries bs) < 2 ^ 63" "entries_size (all_entries bs) < 2 ^ 31" using small all by simp_all
    note fp = filter_part_length [OF policy [folded all] blocks size(1)]
    let ?F = "filter_part opt bs"
    define q1 where "q1 = r1\<lparr>r_closed := True\<rparr>"
    have q1: "r_ok q1" "r_filter_block q1 = filter_of opt (filter_blocks bs [])" "r_offset q1 = of_nat (length (written bs))"
      "r_options q1 = opt" "pf_data (r_file q1) = written bs" "no_errors q1 = no_errors r1"
      using inv by (simp_all add: q1_def table_inv_def no_errors_def)
    obtain q2 where q2: "(case r_filter_block q1 of
         Some (p, b) \<Rightarrow> if r_ok q1 then WriteRawBlock (FilterBlock_Finish (fp_CreateFilter p) b) kNoCompression q1 else (BlockHandle, q1)
       | None \<Rightarrow> (BlockHandle, q1)) = (filter_handle opt bs, q2)" "appended q1 q2 ?F"
      using filter_stage [OF q1(1-3)] by blast
    have F: "Finish sn r0 = do {
       (metaindex_block_handle, r) \<leftarrow> (if r_ok q2 then write_meta sn (filter_handle opt bs) q2 else Some (BlockHandle, q2));
       (index_block_handle, r) \<leftarrow> (if r_ok r then write_index sn r else Some (BlockHandle, r));
       r \<leftarrow> (if r_ok r then write_footer metaindex_block_handle index_block_handle r else Some r);
       Some (r_ok r, r) }"
      using r1(1) open1 q2(1) unfolding Finish_def Let_def by (simp flip: q1_def)
    have e1: "no_errors r0 \<longrightarrow> r_ok q2 \<and> no_errors q2" using r1(2) q1(6) q2(2) by (simp add: goes_on_def appended_def)
    show ?thesis
    proof (cases "r_ok q2")
      case False
      then show ?thesis using F e1 by auto
    next
      case ok2: True
      have q2': "r_options q2 = opt" "r_filter_block q2 = filter_of opt (filter_blocks bs [])"
        using q1(2,4) appended_same [OF q2(2)] by simp_all
      obtain cm tm q3 where q3: "write_meta sn (filter_handle opt bs) q2 = Some (\<lparr>bh_offset = r_offset q2, bh_size = of_nat (length cm)\<rparr>, q3)"
        "stored_block sn (meta_entries opt (filter_handle opt bs)) cm tm" "appended q2 q3 (stored tm cm)"
        using write_meta_appended [OF sn ok2 q2'(1) interval q2'(2) fp(2)] by blast
      have e2: "no_errors r0 \<longrightarrow> r_ok q3 \<and> no_errors q3" using e1 q3(3) by (simp add: appended_def)
      show ?thesis
      proof (cases "r_ok q3")
        case False
        then show ?thesis using F e2 ok2 q3(1) by auto
      next
        case ok3: True
        have "q3 = r1\<lparr>r_closed := True, r_ok := True, r_file := r_file q3, r_offset := r_offset q3\<rparr>"
          using appended_trans [OF q2(2) q3(3)] ok3 by (simp add: q1_def)
        from index_stage [OF sn inv c size(1) this]
        obtain ci ti q4 seps where q4: "write_index sn q3 = Some (\<lparr>bh_offset = r_offset q3, bh_size = of_nat (length ci)\<rparr>, q4)"
          "stored_block sn (index_of bs seps) ci ti" "length seps = length bs" "separated (c_Compare c) bs seps []"
          "r_ok q4 \<longrightarrow> pf_data (r_file q4) = pf_data (r_file q3) @ stored ti ci \<and> r_offset q4 = r_offset q3 + of_nat (length ci + 5)"
          "no_errors q3 \<longrightarrow> r_ok q4 \<and> no_errors q4" by blast
        show ?thesis
        proof (cases "r_ok q4")
          case False
          then show ?thesis using F e2 ok2 ok3 q3(1) q4(1,6) by auto
        next
          case ok4: True
          have data: "pf_data (r_file q2) = written bs @ ?F" "pf_data (r_file q3) = written bs @ ?F @ stored tm cm"
            "pf_data (r_file q4) = written bs @ ?F @ stored tm cm @ stored ti ci"
            using q1(5) q2(2) q3(3) q4(5) ok2 ok3 ok4 by (simp_all add: appended_def)
          have offs: "r_offset q2 = of_nat (length (written bs @ ?F))" "r_offset q3 = of_nat (length (written bs @ ?F @ stored tm cm))"
            using q1(3) q2(2) q3(3) ok2 ok3 by (simp_all add: appended_def)
          let ?m = "\<lparr>bh_offset = r_offset q2, bh_size = of_nat (length cm)\<rparr>" let ?i = "\<lparr>bh_offset = r_offset q3, bh_size = of_nat (length ci)\<rparr>"
          have "length cm < 2 ^ 22" using stored_block_length [OF q3(2)] meta_size [OF policy, of "filter_handle opt bs"] by simp
          moreover have "length ci < 2 ^ 32" using stored_block_length [OF q4(2)] index_size [OF q4(4,3) blocks] size(2) by simp
          moreover have "length (written bs) < 2 ^ 31" using written_length [OF blocks] size(2) by simp
          ultimately have "bh_offset ?m \<noteq> - 1" "bh_size ?m \<noteq> - 1" "bh_offset ?i \<noteq> - 1" "bh_size ?i \<noteq> - 1"
            using fp(1) unfolding offs block_handle.simps by (intro of_nat_not_max, simp)+
          then obtain ft where ft: "Footer_EncodeTo \<lparr>ft_metaindex = ?m, ft_index = ?i\<rparr> [] = Some ft" using Footer_roundtrip by blast
          obtain ok5 f5 where f5: "posix_Append ft (r_file q4) = (ok5, f5)" "ok5 \<longrightarrow> pf_data f5 = pf_data (r_file q4) @ ft"
            "pf_errs (r_file q4) = [] \<longrightarrow> ok5 \<and> pf_errs f5 = []" using posix_Append_cases by blast
          obtain q5 where q5: "write_footer ?m ?i q4 = Some q5" "r_ok q5 = ok5" "r_file q5 = f5"
            using ft f5(1) by (cases ok5) (auto simp: write_footer_def Let_def)
          have "Finish sn r0 = Some (ok5, q5)" unfolding F using ok2 ok3 ok4 q3(1) q4(1) q5(1,2) by simp
          moreover have "no_errors r0 \<longrightarrow> ok5" using e2 q4(6) f5(3) by (simp add: no_errors_def)
          moreover have "ok5 \<longrightarrow> table_bytes opt sn (pf_data (r_file q5)) bs seps"
            unfolding table_bytes_def
            by (intro impI exI [of _ cm] exI [of _ tm] exI [of _ ci] exI [of _ ti] exI [of _ ft] conjI)
              (use f5(2) q5(3) data(3) q3(2) q4(2) ft in \<open>simp_all add: offs\<close>)
          ultimately show ?thesis using q4(3,4) blocks all c unfolding table_layout_def by blast
        qed
      qed
    qed
  qed
qed

lemma build_table_ok:
  assumes "snappy_ok sn" "opt_comparator opt = c" "1 \<le> opt_block_restart_interval opt" "pf_data file = []"
    "ordered (c_Compare c) es" "entries_size es < 2 ^ 31" "\<forall>p. opt_filter_policy opt = Some p \<longrightarrow> policy_ok es p"
  shows "\<exists>ok r. build_table sn opt file es = Some (ok, r) \<and> (pf_errs file = [] \<longrightarrow> ok) \<and>
    (ok \<longrightarrow> (\<exists>bs seps. table_layout opt sn (pf_data (r_file r)) bs seps \<and> all_entries bs = es))"
proof -
  obtain r0 where r0: "TableBuilder opt file = Some r0" "table_inv opt sn r0 [] [] []" "r_file r0 = file"
    using TableBuilder_inv [OF assms(3,4)] by blast
  obtain r1 where r1: "Adds sn es r0 = Some r1" "goes_on r0 r1"
    "r_ok r1 \<longrightarrow> (\<exists>bs seps cur. table_inv opt sn r1 bs seps cur \<and> all_entries bs @ cur = es)"
    using Adds_inv [OF assms(1,2) r0(2), of es] assms(5,6) by auto
  have e: "pf_errs file = [] \<longrightarrow> r_ok r1 \<and> no_errors r1" using r0(3) r1(2) by (simp add: goes_on_def no_errors_def)
  show ?thesis
  proof (cases "r_ok r1")
    case False
    then have "\<exists>r'. Finish sn r1 = Some (False, r')" using Finish_failed [of r1 sn] r1(2) by (simp add: goes_on_def)
    then show ?thesis using False e r0(1) r1(1) by (auto simp: build_table_def)
  next
    case True
    then obtain bs seps cur where i: "table_inv opt sn r1 bs seps cur" "all_entries bs @ cur = es" using r1(3) by blast
    show ?thesis using Finish_ok [OF assms(1) i(1) assms(2,3)] assms(6,7) i(2) e r0(1) r1(1) by (auto simp: build_table_def)
  qed
qed

end

end
