(* ===== verification/Table_reader.thy ===== *)
theory Table_reader
  imports Table_builder
begin


text \<open>
  Reading tables (\<open>table/table.cc\<close>): opening, and the search for a key.

  The block cache of \<open>include/leveldb/cache.h\<close>, if the options have one, is the map from keys to the
  blocks that it holds.  It may forget blocks when one is inserted: what it keeps is the argument
  \<open>evict\<close>.  A new id of the cache is an argument of \<open>Open\<close>.

  An iterator over a block that could not be read is its error.  The status of an operation is
  \<open>None\<close> for success; the outer \<open>None\<close> is an access outside of a buffer.
\<close>

record table =
  tb_options :: options
  tb_file :: random_file
  tb_cache_id :: u64
  tb_filter :: "(policy \<times> filter_reader) option"
  tb_metaindex_handle :: block_handle
  tb_index_block :: block

section \<open>Iterators over one block\<close>

type_synonym block_iter = "error + block_iterator"

fun bi_Seek :: "(u8 list \<Rightarrow> u8 list \<Rightarrow> int) \<Rightarrow> u8 list \<Rightarrow> block_iter \<Rightarrow> block_iter option" where
  "bi_Seek cmp target (Inr (BlockIterator it)) = do { it \<leftarrow> Seek cmp target it; Some (Inr (BlockIterator it)) }"
| "bi_Seek cmp target bi = Some bi"

fun bi_Valid :: "block_iter \<Rightarrow> bool" where
  "bi_Valid (Inr (BlockIterator it)) = Valid it"
| "bi_Valid _ = False"

fun bi_key :: "block_iter \<Rightarrow> u8 list" where
  "bi_key (Inr (BlockIterator it)) = it_key it"
| "bi_key _ = []"

fun bi_value :: "block_iter \<Rightarrow> u8 list" where
  "bi_value (Inr (BlockIterator it)) = it_value_bytes it"
| "bi_value _ = []"

fun bi_status :: "block_iter \<Rightarrow> error option" where
  "bi_status (Inl e) = Some e"
| "bi_status (Inr ErrorIterator) = Some Corruption"
| "bi_status (Inr EmptyIterator) = None"
| "bi_status (Inr (BlockIterator it)) = (if it_ok it then None else Some Corruption)"

section \<open>Opening\<close>

definition ReadFilter :: "snappy \<Rightarrow> policy \<Rightarrow> u8 list \<Rightarrow> table \<Rightarrow> table option" where
  "ReadFilter sn p filter_handle_value t =
    (case DecodeFrom filter_handle_value of
       Inl e \<Rightarrow> Some t
     | Inr (handle, v) \<Rightarrow> do {
         r \<leftarrow> ReadBlock sn (tb_file t) (opt_paranoid_checks (tb_options t)) handle;
         case r of
           Inl e \<Rightarrow> Some t
         | Inr block \<Rightarrow> Some (t\<lparr>tb_filter := Some (p, FilterBlockReader (bc_data block))\<rparr>)
       })"

definition ReadMeta :: "snappy \<Rightarrow> footer \<Rightarrow> table \<Rightarrow> table option" where
  "ReadMeta sn footer t =
    (case opt_filter_policy (tb_options t) of
       None \<Rightarrow> Some t
     | Some p \<Rightarrow> do {
         r \<leftarrow> ReadBlock sn (tb_file t) (opt_paranoid_checks (tb_options t)) (ft_metaindex footer);
         case r of
           Inl e \<Rightarrow> Some t
         | Inr contents \<Rightarrow> do {
             let key = bytes_of ''filter.'' @ fp_Name p;
             iter \<leftarrow> bi_Seek BytewiseComparator key (Inr (NewIterator (Block (bc_data contents))));
             if bi_Valid iter \<and> bi_key iter = key then ReadFilter sn p (bi_value iter) t else Some t
           }
       })"

definition Open :: "snappy \<Rightarrow> options \<Rightarrow> u64 \<Rightarrow> random_file \<Rightarrow> nat \<Rightarrow> (error + table) option" where
  "Open sn options new_id file sz =
    (if sz < kEncodedLength then Some (Inl Corruption)
     else
       case file (of_nat (sz - kEncodedLength)) kEncodedLength of
         None \<Rightarrow> None
       | Some (Inl e) \<Rightarrow> Some (Inl e)
       | Some (Inr (footer_input, _)) \<Rightarrow> do {
           r \<leftarrow> Footer_DecodeFrom footer_input;
           case r of
             Inl e \<Rightarrow> Some (Inl e)
           | Inr (footer, _) \<Rightarrow> do {
               r \<leftarrow> ReadBlock sn file (opt_paranoid_checks options) (ft_index footer);
               case r of
                 Inl e \<Rightarrow> Some (Inl e)
               | Inr contents \<Rightarrow> do {
                   t \<leftarrow> ReadMeta sn footer \<lparr>tb_options = options, tb_file = file,
                     tb_cache_id = (if opt_block_cache options then new_id else 0), tb_filter = None,
                     tb_metaindex_handle = ft_metaindex footer, tb_index_block = Block (bc_data contents)\<rparr>;
                   Some (Inr t)
                 }
             }
         })"

section \<open>Searching\<close>

type_synonym block_cache = "u8 list \<Rightarrow> block option"

text \<open>The options of a read, and the evictions of its insertion into the cache.\<close>

record read_options =
  ro_verify_checksums :: bool
  ro_fill_cache :: bool
  ro_evict :: "block_cache \<Rightarrow> block_cache"

definition cache_key :: "table \<Rightarrow> block_handle \<Rightarrow> u8 list" where
  "cache_key t handle = EncodeFixed64 (tb_cache_id t) @ EncodeFixed64 (bh_offset handle)"

definition BlockReader :: "snappy \<Rightarrow> table \<Rightarrow> read_options \<Rightarrow> u8 list \<Rightarrow> block_cache \<Rightarrow> (block_iter \<times> block_cache) option" where
  "BlockReader sn t opts index_value cache =
    (case DecodeFrom index_value of
       Inl e \<Rightarrow> Some (Inl e, cache)
     | Inr (handle, input) \<Rightarrow>
         if opt_block_cache (tb_options t) then
           (case cache (cache_key t handle) of
              Some block \<Rightarrow> Some (Inr (NewIterator block), cache)
            | None \<Rightarrow> do {
                r \<leftarrow> ReadBlock sn (tb_file t) (ro_verify_checksums opts) handle;
                case r of
                  Inl e \<Rightarrow> Some (Inl e, cache)
                | Inr contents \<Rightarrow>
                    let block = Block (bc_data contents);
                        cache = (if bc_cachable contents \<and> ro_fill_cache opts then ro_evict opts (cache(cache_key t handle \<mapsto> block)) else cache)
                    in Some (Inr (NewIterator block), cache)
              })
         else do {
           r \<leftarrow> ReadBlock sn (tb_file t) (ro_verify_checksums opts) handle;
           case r of
             Inl e \<Rightarrow> Some (Inl e, cache)
           | Inr contents \<Rightarrow> Some (Inr (NewIterator (Block (bc_data contents))), cache)
         })"

definition filter_excludes :: "table \<Rightarrow> u8 list \<Rightarrow> u8 list \<Rightarrow> bool" where
  "filter_excludes t handle_value k =
    (case tb_filter t of
       None \<Rightarrow> False
     | Some (p, reader) \<Rightarrow>
         (case DecodeFrom handle_value of
            Inl e \<Rightarrow> False
          | Inr (handle, _) \<Rightarrow> \<not> FilterBlock_KeyMayMatch (fp_KeyMayMatch p) reader (unat (bh_offset handle)) k))"

text \<open>The status, what the callback \<open>saver\<close> is given, and the cache.\<close>

definition InternalGet :: "snappy \<Rightarrow> table \<Rightarrow> read_options \<Rightarrow> u8 list \<Rightarrow> block_cache \<Rightarrow>
    (error option \<times> (u8 list \<times> u8 list) option \<times> block_cache) option" where
  "InternalGet sn t opts k cache = do {
     let cmp = c_Compare (opt_comparator (tb_options t));
     iiter \<leftarrow> bi_Seek cmp k (Inr (NewIterator (tb_index_block t)));
     (s, saved, cache) \<leftarrow>
       (if \<not> bi_Valid iiter \<or> filter_excludes t (bi_value iiter) k then Some (None, None, cache)
        else do {
          (block_iter, cache) \<leftarrow> BlockReader sn t opts (bi_value iiter) cache;
          block_iter \<leftarrow> bi_Seek cmp k block_iter;
          Some (bi_status block_iter, if bi_Valid block_iter then Some (bi_key block_iter, bi_value block_iter) else None, cache)
        });
     Some (if s = None then bi_status iiter else s, saved, cache)
   }"

definition ApproximateOffsetOf :: "table \<Rightarrow> u8 list \<Rightarrow> u64 option" where
  "ApproximateOffsetOf t key = do {
     index_iter \<leftarrow> bi_Seek (c_Compare (opt_comparator (tb_options t))) key (Inr (NewIterator (tb_index_block t)));
     Some (if bi_Valid index_iter then
             case DecodeFrom (bi_value index_iter) of
               Inr (handle, input) \<Rightarrow> bh_offset handle
             | Inl e \<Rightarrow> bh_offset (tb_metaindex_handle t)
           else bh_offset (tb_metaindex_handle t))
   }"


section \<open>Reading what was written\<close>

text \<open>The file gives the bytes \<open>data\<close> for random access.\<close>

definition reads :: "random_file \<Rightarrow> u8 list \<Rightarrow> bool" where
  "reads file data \<longleftrightarrow> (\<forall>start n. start + n \<le> length data \<longrightarrow>
     (\<exists>in_buf. file (of_nat start) n = Some (Inr (take n (drop start data), in_buf))))"

lemma reads_posix:
  assumes "\<forall>start n. start + n \<le> length data \<longrightarrow> pread (int start) n = Some (take n (drop start data))" "length data < 2 ^ 63"
  shows "reads (PosixRandomAccessFile_Read pread) data"
proof -
  have "sint (of_nat start :: u64) = int start" if "start \<le> length data" for start
  proof -
    have "int start < 2 ^ 63" using that assms(2) by simp
    then show ?thesis by (simp add: signed_of_nat signed_take_bit_int_eq_self)
  qed
  then show ?thesis using assms(1) by (simp add: reads_def PosixRandomAccessFile_Read_def ex_bool_eq)
qed

lemma reads_mmap:
  assumes "length data < 2 ^ 63"
  shows "reads (PosixMmapReadableFile_Read data) data"
  unfolding reads_def
proof (intro allI impI)
  fix start n assume le: "start + n \<le> length data"
  then have "unat (of_nat start :: u64) = start" "unat (of_nat start + of_nat n :: u64) = start + n"
    using assms unat_of_nat [of "start + n", where ?'a = 64] by (simp_all add: unat_of_nat)
  then show "\<exists>in_buf. PosixMmapReadableFile_Read data (of_nat start) n = Some (Inr (take n (drop start data), in_buf))"
    using le by (simp add: PosixMmapReadableFile_Read_def ex_bool_eq)
qed

definition block_has :: "block \<Rightarrow> entries \<Rightarrow> bool" where
  "block_has b es \<longleftrightarrow> (\<exists>cs rs it. NewIterator b = BlockIterator it \<and> layout cs rs \<and> on_layout cs rs it \<and> map snd cs = es)"

lemma reads_middle:
  assumes "reads file (as @ bs @ rest)"
  shows "\<exists>in_buf. file (of_nat (length as)) (length bs) = Some (Inr (bs, in_buf))"
  using assms unfolding reads_def by (elim allE [of _ "length as"] allE [of _ "length bs"]) simp

lemma ReadBlock_entries:
  assumes "reads file (as @ stored ty c @ rest)" "stored_block sn es c ty" "(\<Sum>(key, val)\<leftarrow>es. length key + length val + 19) + 8 < 2 ^ 32"
  shows "\<exists>contents. ReadBlock sn file verify \<lparr>bh_offset = of_nat (length as), bh_size = of_nat (length c)\<rparr> = Some (Inr contents) \<and>
    block_has (Block (bc_data contents)) es"
proof -
  obtain cs rs where b: "map snd cs = es" "chained cs" "restarts_at cs rs" "holds_raw sn ty c (contents_of cs rs)" "length c \<le> length (contents_of cs rs)"
    using assms(2) by (auto simp: stored_block_def)
  have l: "length (contents_of cs rs) < 2 ^ 32" using contents_bound [OF b(3,1)] assms(3) by simp
  then have "block_has (Block (contents_of cs rs)) es" using NewIterator_layout [OF b(2,3)] b(1) by (auto simp: block_has_def)
  moreover obtain in_buf where "file (of_nat (length as)) (length c + 5) = Some (Inr (stored ty c, in_buf))"
    using reads_middle [OF assms(1)] by auto
  then have "\<exists>cachable. ReadBlock sn file verify \<lparr>bh_offset = of_nat (length as), bh_size = of_nat (length c)\<rparr> =
      Some (Inr \<lparr>bc_data = contents_of cs rs, bc_cachable = cachable\<rparr>)"
    by (rule ReadBlock_stored [OF _ _ b(4)]) (use b(5) l in simp)
  ultimately show ?thesis by auto
qed

lemma collect_next_head:
  assumes "collect_next it = Some es"
  shows "Valid it \<longleftrightarrow> es \<noteq> []" "es = (k, v) # es' \<Longrightarrow> it_key it = k \<and> it_value_bytes it = v"
  using assms by (subst (asm) collect_next.simps, auto split: if_splits simp: Option.bind_eq_Some_conv)+

lemma bi_Seek_ok:
  assumes "byte_keys cmp" "block_has b es" "ordered cmp es"
  shows "\<exists>bi. bi_Seek cmp target (Inr (NewIterator b)) = Some bi \<and> bi_status bi = None \<and>
    (bi_Valid bi \<longleftrightarrow> dropWhile (\<lambda>(key, val). cmp key target < 0) es \<noteq> []) \<and>
    (\<forall>k v es'. dropWhile (\<lambda>(key, val). cmp key target < 0) es = (k, v) # es' \<longrightarrow> bi_key bi = k \<and> bi_value bi = v)"
proof -
  obtain cs rs it where b: "NewIterator b = BlockIterator it" "layout cs rs" "on_layout cs rs it" "map snd cs = es"
    using assms(2) by (auto simp: block_has_def)
  obtain it' where "Seek cmp target it = Some it'" "it_ok it'" "collect_next it' = Some (dropWhile (\<lambda>(key, val). cmp key target < 0) es)"
    using byte_keys.Seek_position [OF assms(1) b(2,3)] b(4) assms(3) by blast
  then show ?thesis using b(1) collect_next_head [of it'] by (intro exI [of _ "Inr (BlockIterator it')"]) auto
qed

lemma DecodeFrom_handle_bytes: "DecodeFrom (handle_bytes h) = Inr (h, [])"
  using DecodeFrom_varints [of "bh_offset h" "bh_size h" "[]"] by (simp add: handle_bytes_def)

lemma table_bytes_length:
  assumes "table_layout opt sn data bs seps" "entries_size (all_entries bs) < 2 ^ 31"
    "\<forall>p. opt_filter_policy opt = Some p \<longrightarrow> policy_ok (all_entries bs) p"
  shows "length data < 2 ^ 34"
proof -
  obtain cm tm ci ti ft m i where t: "data = written bs @ filter_part opt bs @ stored tm cm @ stored ti ci @ ft"
     "stored_block sn (meta_entries opt (filter_handle opt bs)) cm tm" "stored_block sn (index_of bs seps) ci ti"
     "Footer_EncodeTo \<lparr>ft_metaindex = m, ft_index = i\<rparr> [] = Some ft" "\<forall>b \<in> set bs. block_ok sn b" "length seps = length bs"
     "separated (c_Compare (opt_comparator opt)) bs seps []"
    using assms(1) unfolding table_layout_def table_bytes_def by blast
  have "length ft = kEncodedLength" using t(4) by (auto simp: Footer_EncodeTo_def Option.bind_eq_Some_conv Let_def split: if_splits)
  moreover have "length ci < 2 ^ 32" using stored_block_length [OF t(3)] index_size [OF t(7,6,5)] assms(2) by simp
  moreover have "length cm < 2 ^ 22" using stored_block_length [OF t(2)] meta_size [OF assms(3), of "filter_handle opt bs"] by simp
  moreover have "length (written bs) < 2 ^ 31" using written_length [OF t(5)] assms(2) by simp
  moreover have "length (filter_part opt bs) < 2 ^ 32" using filter_part_length(1) [OF assms(3) t(5)] assms(2) by simp
  ultimately show ?thesis unfolding t(1) by simp
qed

lemma Open_ok:
  assumes l: "table_layout opt sn data bs seps" and size: "entries_size (all_entries bs) < 2 ^ 31"
    and policy: "\<forall>p. opt_filter_policy opt = Some p \<longrightarrow> policy_ok (all_entries bs) p" and rd: "reads file data"
  shows "\<exists>t. Open sn opt new_id file (length data) = Some (Inr t) \<and> tb_options t = opt \<and> tb_file t = file \<and>
    tb_cache_id t = (if opt_block_cache opt then new_id else 0) \<and>
    block_has (tb_index_block t) (index_of bs seps) \<and>
    tb_filter t = map_option (\<lambda>p. (p, FilterBlockReader (filter_block_of (fp_CreateFilter p) (filter_blocks bs [])))) (opt_filter_policy opt)"
proof -
  let ?F = "filter_part opt bs"
  obtain cm tm ci ti ft where t: "data = written bs @ ?F @ stored tm cm @ stored ti ci @ ft"
     "stored_block sn (meta_entries opt (filter_handle opt bs)) cm tm" "stored_block sn (index_of bs seps) ci ti"
     "Footer_EncodeTo \<lparr>ft_metaindex = \<lparr>bh_offset = of_nat (length (written bs @ ?F)), bh_size = of_nat (length cm)\<rparr>,
        ft_index = \<lparr>bh_offset = of_nat (length (written bs @ ?F @ stored tm cm)), bh_size = of_nat (length ci)\<rparr>\<rparr> [] = Some ft"
     "\<forall>b \<in> set bs. block_ok sn b" "length seps = length bs" "separated (c_Compare (opt_comparator opt)) bs seps []"
    using l unfolding table_layout_def table_bytes_def by blast
  let ?m = "\<lparr>bh_offset = of_nat (length (written bs @ ?F)), bh_size = of_nat (length cm)\<rparr>"
  let ?i = "\<lparr>bh_offset = of_nat (length (written bs @ ?F @ stored tm cm)), bh_size = of_nat (length ci)\<rparr>"
  have "length ft = kEncodedLength" using t(4) by (auto simp: Footer_EncodeTo_def Option.bind_eq_Some_conv Let_def split: if_splits)
  moreover from this have ft: "Footer_DecodeFrom ft = Some (Inr (\<lparr>ft_metaindex = ?m, ft_index = ?i\<rparr>, []))"
  proof -
    have "bh_offset ?m \<noteq> - 1" "bh_size ?m \<noteq> - 1" "bh_offset ?i \<noteq> - 1" "bh_size ?i \<noteq> - 1"
      using t(4) unfolding Footer_EncodeTo_def EncodeTo_def by (auto simp: Let_def split: if_splits)
    then show ?thesis using Footer_roundtrip [of ?m ?i "[]"] t(4) by auto
  qed
  ultimately have len: "length data - kEncodedLength = length (written bs @ ?F @ stored tm cm @ stored ti ci)" "\<not> length data < kEncodedLength"
    unfolding t(1) by simp_all
  have "\<exists>in_buf. file (of_nat (length data - kEncodedLength)) kEncodedLength = Some (Inr (ft, in_buf))"
    using reads_middle [of "file" "written bs @ ?F @ stored tm cm @ stored ti ci" ft "[]"] rd \<open>length ft = kEncodedLength\<close>
    unfolding len(1) by (simp add: t(1))
  then obtain in_buf where footer: "file (of_nat (length data - kEncodedLength)) kEncodedLength = Some (Inr (ft, in_buf))" by blast
  have iread: "\<exists>contents. ReadBlock sn file v ?i = Some (Inr contents) \<and> block_has (Block (bc_data contents)) (index_of bs seps)" for v
    by (rule ReadBlock_entries [of _ _ ti _ ft]) (use rd t index_size [OF t(7,6,5)] size in \<open>simp_all\<close>)
  then obtain ic where ic: "ReadBlock sn file (opt_paranoid_checks opt) ?i = Some (Inr ic)" "block_has (Block (bc_data ic)) (index_of bs seps)" by blast
  let ?t = "\<lparr>tb_options = opt, tb_file = file, tb_cache_id = if opt_block_cache opt then new_id else 0, tb_filter = None,
    tb_metaindex_handle = ?m, tb_index_block = Block (bc_data ic)\<rparr>"
  have "\<exists>t. ReadMeta sn \<lparr>ft_metaindex = ?m, ft_index = ?i\<rparr> ?t = Some t \<and> t = ?t\<lparr>tb_filter :=
      map_option (\<lambda>p. (p, FilterBlockReader (filter_block_of (fp_CreateFilter p) (filter_blocks bs [])))) (opt_filter_policy opt)\<rparr>"
  proof (cases "opt_filter_policy opt")
    case None
    then show ?thesis by (simp add: ReadMeta_def)
  next
    case (Some p)
    let ?key = "bytes_of ''filter.'' @ fp_Name p" let ?h = "filter_handle opt bs"
    let ?fc = "filter_block_of (fp_CreateFilter p) (filter_blocks bs [])"
    have me: "meta_entries opt ?h = [(?key, handle_bytes ?h)]" using Some by (simp add: meta_entries_def)
    have "\<exists>contents. ReadBlock sn file (opt_paranoid_checks opt) ?m = Some (Inr contents) \<and> block_has (Block (bc_data contents)) (meta_entries opt ?h)"
      by (rule ReadBlock_entries [of _ _ tm _ "stored ti ci @ ft"]) (use rd t meta_size [OF policy, of ?h] in \<open>simp_all\<close>)
    then obtain mc where mc: "ReadBlock sn file (opt_paranoid_checks opt) ?m = Some (Inr mc)" "block_has (Block (bc_data mc)) [(?key, handle_bytes ?h)]"
      unfolding me by blast
    have "dropWhile (\<lambda>(key, val). BytewiseComparator key ?key < 0) [(?key, handle_bytes ?h)] = [(?key, handle_bytes ?h)]"
      using bytewise.cmp_laws(1) [of ?key ?key] by simp
    then obtain bi where bi: "bi_Seek BytewiseComparator ?key (Inr (NewIterator (Block (bc_data mc)))) = Some bi" "bi_Valid bi" "bi_key bi = ?key" "bi_value bi = handle_bytes ?h"
      using bi_Seek_ok [OF bytewise.byte_keys_axioms mc(2), of ?key] by (auto simp: ordered_def)
    have fs: "length ?fc < 2 ^ 31"
      using policy Some filter_blocks_ok(1-3) [OF t(5)] size unfolding policy_ok_def by auto
    have "reads file (written bs @ stored kNoCompression ?fc @ stored tm cm @ stored ti ci @ ft)"
      using rd t(1) Some by (simp add: filter_part_def)
    then obtain in_buf where "file (of_nat (length (written bs))) (length ?fc + 5) = Some (Inr (stored kNoCompression ?fc, in_buf))"
      using reads_middle by fastforce
    then have "\<exists>cachable. ReadBlock sn file (opt_paranoid_checks opt) \<lparr>bh_offset = of_nat (length (written bs)), bh_size = of_nat (length ?fc)\<rparr> =
        Some (Inr \<lparr>bc_data = ?fc, bc_cachable = cachable\<rparr>)"
      by (rule ReadBlock_stored) (use fs in \<open>simp_all add: holds_raw_def\<close>)
    then obtain cachable where "ReadBlock sn file (opt_paranoid_checks opt) ?h = Some (Inr \<lparr>bc_data = ?fc, bc_cachable = cachable\<rparr>)"
      using Some by (auto simp: filter_handle_def)
    then have "ReadFilter sn p (handle_bytes ?h) ?t = Some (?t\<lparr>tb_filter := Some (p, FilterBlockReader ?fc)\<rparr>)"
      by (simp add: ReadFilter_def DecodeFrom_handle_bytes)
    then show ?thesis using Some mc(1) bi unfolding ReadMeta_def by simp
  qed
  then show ?thesis using len(2) footer ft ic by (simp add: Open_def)
qed


section \<open>Looking up a key\<close>

lemma length_entries: "length es \<le> entries_size es"
  using entries_size_bound [of es] by linarith

lemma all_entries_mem: "e \<in> set (all_entries bs) \<longleftrightarrow> (\<exists>j < length bs. e \<in> set (fst (bs ! j)))"
proof -
  have "e \<in> set (all_entries bs) \<longleftrightarrow> (\<exists>b \<in> set bs. e \<in> set (fst b))" by (auto simp: all_entries_def)
  then show ?thesis by (metis in_set_conv_nth)
qed

lemma all_entries_drop: "j < length bs \<Longrightarrow> i \<le> j \<Longrightarrow> e \<in> set (fst (bs ! j)) \<Longrightarrow> e \<in> set (all_entries (drop i bs))"
  unfolding all_entries_mem by (intro exI [of _ "j - i"]) simp

lemma written_at: "i < length bs \<Longrightarrow> bs ! i = (es, c, ty) \<Longrightarrow>
    written bs = written (take i bs) @ stored ty c @ written (drop (Suc i) bs)"
  by (metis Cons_nth_drop_Suc append_Cons append_Nil append_take_drop_id written_append(1,3))

lemma filter_matches:
  assumes "policy_ok (all_entries bs) p" "\<forall>b \<in> set bs. block_ok sn b" "entries_size (all_entries bs) < 2 ^ 31"
    "i < length bs" "key \<in> fst ` set (fst (bs ! i))"
  shows "FilterBlock_KeyMayMatch (fp_KeyMayMatch p) (FilterBlockReader (filter_block_of (fp_CreateFilter p) (filter_blocks bs [])))
    (unat (bh_offset (handle_of bs i))) key"
proof -
  let ?blks = "filter_blocks bs []"
  have small: "entries_size (all_entries bs) < 2 ^ 63" using assms(3) by simp
  note ok = filter_blocks_ok [OF assms(2) small]
  have n: "length (concat (map snd ?blks)) < 2 ^ 31" unfolding ok(2) using length_entries [of "all_entries bs"] assms(3) by simp
  have len: "length (filter_block_of (fp_CreateFilter p) ?blks) < 2 ^ 31" using assms(1) ok(1-3) unfolding policy_ok_def by blast
  have pol: "filter_policy (fp_CreateFilter p) (fp_KeyMayMatch p)" using assms(1) by (simp add: policy_ok_def)
  obtain fs where fs: "filter_block_of (fp_CreateFilter p) ?blks = concat fs @ concat (map EncodeFixed32 (offsets_of fs)) @
      EncodeFixed32 (of_nat (length (concat fs))) @ [11]"
    "\<forall>(off, keys) \<in> set ?blks. \<forall>key \<in> set keys. off div kFilterBase < length fs \<and> fp_KeyMayMatch p key (fs ! (off div kFilterBase))"
    using filter_policy.built_all [OF pol n ok(1)] by blast
  have "start_of bs i \<le> entries_size (all_entries bs)" using ok(3) ok(4) [OF assms(4)] by fastforce
  then have u: "unat (bh_offset (handle_of bs i)) = start_of bs i" using small by (simp add: handle_of_def unat_of_nat)
  have "start_of bs i div kFilterBase < length fs" "fp_KeyMayMatch p key (fs ! (start_of bs i div kFilterBase))"
    using fs(2) ok(4) [OF assms(4)] assms(5) by fastforce+
  moreover have "length (concat fs) < 2 ^ 32" using len unfolding fs(1) by simp
  ultimately show ?thesis unfolding u by (simp add: reader_filter [OF fs(1)])
qed

text \<open>What the cache holds for the blocks of a table are these blocks.\<close>

definition cache_ok :: "table \<Rightarrow> data_block list \<Rightarrow> block_cache \<Rightarrow> bool" where
  "cache_ok t bs cache \<longleftrightarrow> (opt_block_cache (tb_options t) \<longrightarrow>
     (\<forall>i < length bs. \<forall>b. cache (cache_key t (handle_of bs i)) = Some b \<longrightarrow> block_has b (fst (bs ! i))))"

definition evict_ok :: "(block_cache \<Rightarrow> block_cache) \<Rightarrow> bool" where
  "evict_ok evict \<longleftrightarrow> (\<forall>cache. evict cache \<subseteq>\<^sub>m cache)"

lemma cache_ok_evict: "evict_ok evict \<Longrightarrow> cache_ok t bs cache \<Longrightarrow> cache_ok t bs (evict cache)"
  unfolding evict_ok_def cache_ok_def map_le_def by (metis domI)

lemma cache_key_inject: "cache_key t h = cache_key t h' \<Longrightarrow> bh_offset h = bh_offset h'"
  unfolding cache_key_def using DecodeFixed64_Encode [of _ "[]"] by (metis append_Nil2 same_append_eq)

lemma start_of_less:
  assumes "i < j" "j \<le> length bs"
  shows "start_of bs i < start_of bs j"
proof -
  have "take j bs = take i bs @ drop i (take j bs)" using assms(1) by (metis append_take_drop_id less_imp_le_nat min.absorb1 take_take)
  moreover have "drop i (take j bs) \<noteq> []" using assms by simp
  then obtain b bs' where "drop i (take j bs) = b # bs'" by (cases "drop i (take j bs)") auto
  ultimately have "written (take j bs) = written (take i bs) @ written [b] @ written bs'"
    by (metis append_Cons append_Nil written_append(1))
  moreover have "written [b] \<noteq> []" by (cases b) (simp add: stored_def)
  ultimately show ?thesis by (simp add: start_of_def)
qed

lemma cache_ok_insert:
  assumes "cache_ok t bs cache" "i < length bs" "block_has b (fst (bs ! i))" "\<forall>b \<in> set bs. block_ok sn b" "entries_size (all_entries bs) < 2 ^ 31"
  shows "cache_ok t bs (cache(cache_key t (handle_of bs i) \<mapsto> b))"
  unfolding cache_ok_def
proof (intro allI impI)
  fix j b' assume on: "opt_block_cache (tb_options t)" and j: "j < length bs" and b': "(cache(cache_key t (handle_of bs i) \<mapsto> b)) (cache_key t (handle_of bs j)) = Some b'"
  have le: "start_of bs n < 2 ^ 31" if "n < length bs" for n
    using start_of_less [OF that order_refl] written_length [OF assms(4)] assms(5) by (simp add: start_of_def)
  show "block_has b' (fst (bs ! j))"
  proof (cases "cache_key t (handle_of bs j) = cache_key t (handle_of bs i)")
    case True
    then have "(of_nat (start_of bs j) :: u64) = of_nat (start_of bs i)" using cache_key_inject by (fastforce simp: handle_of_def)
    then have "unat (of_nat (start_of bs j) :: u64) = unat (of_nat (start_of bs i) :: u64)" by simp
    then have "start_of bs j = start_of bs i" using le [OF j] le [OF assms(2)] by (simp add: unat_of_nat)
    then have "j = i" using start_of_less [of i j bs] start_of_less [of j i bs] j assms(2) by (metis less_imp_le_nat nat_neq_iff)
    then show ?thesis using b' assms(3) by simp
  next
    case False
    then show ?thesis using b' assms(1) on j by (auto simp: cache_ok_def)
  qed
qed

lemma BlockReader_ok:
  assumes l: "table_layout opt sn data bs seps" and size: "entries_size (all_entries bs) < 2 ^ 31"
    and rd: "reads (tb_file t) data" and i: "i < length bs" and cache: "cache_ok t bs cache" and ev: "evict_ok (ro_evict opts)"
  shows "\<exists>block cache'. BlockReader sn t opts (handle_bytes (handle_of bs i)) cache = Some (Inr (NewIterator block), cache') \<and>
    block_has block (fst (bs ! i)) \<and> cache_ok t bs cache'"
proof -
  obtain es c ty where e: "bs ! i = (es, c, ty)" by (cases "bs ! i")
  obtain rest where d: "data = written bs @ rest" using l by (auto simp: table_layout_def table_bytes_def)
  have sb: "stored_block sn es c ty" using l nth_mem [OF i] e by (auto simp: table_layout_def block_ok_def)
  have "entries_size es \<le> entries_size (all_entries bs)"
  proof -
    have "bs = take i bs @ (es, c, ty) # drop (Suc i) bs" using i e by (metis id_take_nth_drop)
    then have "all_entries bs = all_entries (take i bs) @ es @ all_entries (drop (Suc i) bs)"
      by (metis all_entries_append(1,3) append_Cons append_Nil)
    then show ?thesis by simp
  qed
  then have "(\<Sum>(key, val)\<leftarrow>es. length key + length val + 19) + 8 < 2 ^ 32" using entries_size_bound [of es] size by simp
  note small = this
  have rd': "reads (tb_file t) (written (take i bs) @ stored ty c @ (written (drop (Suc i) bs) @ rest))"
    using rd written_at [OF i e] d by simp
  have blocks: "\<forall>b \<in> set bs. block_ok sn b" using l by (simp add: table_layout_def)
  obtain contents where r: "ReadBlock sn (tb_file t) (ro_verify_checksums opts) (handle_of bs i) = Some (Inr contents)"
    "block_has (Block (bc_data contents)) (fst (bs ! i))"
    using ReadBlock_entries [OF rd' sb small, of "ro_verify_checksums opts"] e by (auto simp: handle_of_def start_of_def)
  show ?thesis
  proof (cases "opt_block_cache (tb_options t) \<and> cache (cache_key t (handle_of bs i)) \<noteq> None")
    case True
    then obtain block where "cache (cache_key t (handle_of bs i)) = Some block" by blast
    then show ?thesis using True cache i
      by (intro exI [of _ block] exI [of _ cache]) (simp add: BlockReader_def DecodeFrom_handle_bytes cache_ok_def)
  next
    case False
    let ?cache = "if opt_block_cache (tb_options t) \<and> bc_cachable contents \<and> ro_fill_cache opts
      then ro_evict opts (cache(cache_key t (handle_of bs i) \<mapsto> Block (bc_data contents))) else cache"
    have "cache_ok t bs ?cache"
      using cache cache_ok_evict [OF ev cache_ok_insert [OF cache i r(2) blocks size]] by simp
    moreover have "BlockReader sn t opts (handle_bytes (handle_of bs i)) cache = Some (Inr (NewIterator (Block (bc_data contents))), ?cache)"
      using False r(1) by (auto simp: BlockReader_def DecodeFrom_handle_bytes Let_def)
    ultimately show ?thesis using r(2) by blast
  qed
qed

context table_comparator
begin

lemma dropWhile_key:
  assumes "ordered (c_Compare c) es" "(k, v) \<in> set es"
  shows "\<exists>es'. dropWhile (\<lambda>(key, val). c_Compare c key k < 0) es = (k, v) # es'"
proof -
  obtain as bs where s: "es = as @ (k, v) # bs" using split_list [OF assms(2)] by blast
  then have "\<forall>e \<in> set as. c_Compare c (fst e) k < 0" using assms(1) by (auto simp: ordered_append)
  then have "dropWhile (\<lambda>(key, val). c_Compare c key k < 0) es = dropWhile (\<lambda>(key, val). c_Compare c key k < 0) ((k, v) # bs)"
    unfolding s by (intro dropWhile_append2) auto
  then show ?thesis using cmp_laws(1) [of k k] by simp
qed

lemma separator_above:
  assumes "separated (c_Compare c) bs seps []" "j < length seps" "length seps = length bs" "ordered (c_Compare c) (fst (bs ! j))" "e \<in> set (fst (bs ! j))"
  shows "\<not> c_Compare c (seps ! j) (fst e) < 0"
proof -
  have ne: "fst (bs ! j) \<noteq> []" using assms(5) by auto
  have "\<not> c_Compare c (last_key) (fst e) < 0" if "last_key = fst (last (fst (bs ! j)))" for last_key
  proof -
    obtain as l where l: "fst (bs ! j) = as @ [l]" using ne by (cases "fst (bs ! j)" rule: rev_cases) auto
    then have "e = l \<or> c_Compare c (fst e) (fst l) < 0" using assms(4,5) by (auto simp: ordered_append)
    then show ?thesis using that l cmp_laws(1,2) by (metis last_snoc less_asym less_irrefl)
  qed
  moreover have "\<not> c_Compare c (seps ! j) (fst (last (fst (bs ! j)))) < 0" using assms(1,2) by (simp add: separated_def)
  ultimately show ?thesis using cmp_laws by (metis not_less_less)
qed

lemma ordered_blocks:
  assumes "ordered (c_Compare c) (all_entries bs)" "j < length bs"
  shows "ordered (c_Compare c) (fst (bs ! j))"
proof -
  obtain es x where e: "bs ! j = (es, x)" by (cases "bs ! j")
  then have "bs = take j bs @ (es, x) # drop (Suc j) bs" using assms(2) by (metis id_take_nth_drop)
  then have "all_entries bs = all_entries (take j bs) @ es @ all_entries (drop (Suc j) bs)"
    by (metis all_entries_append(1,3) append_Cons append_Nil)
  then show ?thesis using assms(1) e by (simp add: ordered_append)
qed

lemma ordered_index:
  assumes "separated (c_Compare c) bs seps []" "length seps = length bs" "ordered (c_Compare c) (all_entries bs)" "\<forall>b \<in> set bs. block_ok sn b"
  shows "ordered (c_Compare c) (index_of bs seps)"
proof -
  have "c_Compare c (seps ! i) (seps ! j) < 0" if "i < j" "j < length bs" for i j
  proof -
    have "fst (bs ! j) \<noteq> []" using assms(4) nth_mem [OF that(2)] by (cases "bs ! j") (auto simp: block_ok_def)
    then have l: "last (fst (bs ! j)) \<in> set (fst (bs ! j))" by simp
    then have "last (fst (bs ! j)) \<in> set (all_entries (drop (Suc i) bs))" using that by (intro all_entries_drop [of j]) auto
    then have "c_Compare c (seps ! i) (fst (last (fst (bs ! j)))) < 0" using assms(1,2) that by (simp add: separated_def)
    moreover have "\<not> c_Compare c (seps ! j) (fst (last (fst (bs ! j)))) < 0" using assms(1,2) that by (simp add: separated_def)
    ultimately show ?thesis using not_less_less by blast
  qed
  then show ?thesis using assms(2) by (simp add: ordered_def index_of_def sorted_wrt_iff_nth_less)
qed

text \<open>The block that the index leads to is the only one that can hold the key.\<close>

lemma index_seek:
  fixes k :: "u8 list"
  assumes l: "table_layout opt sn data bs seps" and c: "opt_comparator opt = c" and o: "ordered (c_Compare c) (all_entries bs)"
  defines "rest \<equiv> dropWhile (\<lambda>(key, val). c_Compare c key k < 0) (index_of bs seps)"
  shows "rest = [] \<Longrightarrow> k \<notin> fst ` set (all_entries bs)"
    "rest \<noteq> [] \<Longrightarrow> \<exists>i < length bs. \<exists>rest'. rest = (seps ! i, handle_bytes (handle_of bs i)) # rest' \<and>
      (\<forall>e \<in> set (all_entries bs). fst e = k \<longrightarrow> e \<in> set (fst (bs ! i)))"
proof -
  let ?P = "\<lambda>(key, val). c_Compare c key k < 0"
  have t: "length seps = length bs" "separated (c_Compare c) bs seps []" "\<forall>b \<in> set bs. block_ok sn b"
    using l c by (simp_all add: table_layout_def)
  define n where "n = length (takeWhile ?P (index_of bs seps))"
  have len: "length (index_of bs seps) = length bs" "n \<le> length bs"
    using t(1) length_takeWhile_le [of ?P "index_of bs seps"] by (simp_all add: index_of_def n_def)
  have below: "c_Compare c (seps ! j) k < 0" if "j < n" for j
  proof -
    have "?P (index_of bs seps ! j)" using that nth_mem [of j "takeWhile ?P (index_of bs seps)"] set_takeWhileD
      unfolding n_def by (metis takeWhile_nth)
    then show ?thesis using that len t(1) by (simp add: index_of_def)
  qed
  have in_block: "\<not> c_Compare c (seps ! j) k < 0" if "j < length bs" "e \<in> set (fst (bs ! j))" "fst e = k" for j e
    using separator_above [OF t(2) _ t(1) ordered_blocks [OF o that(1)] that(2)] t(1) that by simp
  have rest: "rest = drop n (index_of bs seps)" by (simp add: rest_def n_def dropWhile_eq_drop)
  {
    assume "rest = []"
    then have "n = length bs" using rest len by simp
    show "k \<notin> fst ` set (all_entries bs)"
    proof
      assume "k \<in> fst ` set (all_entries bs)"
      then obtain e j where "j < length bs" "e \<in> set (fst (bs ! j))" "fst e = k" by (auto simp: all_entries_mem)
      then show False using below [of j] in_block [of j e] \<open>n = length bs\<close> by simp
    qed
  }
  {
    assume "rest \<noteq> []"
    then have n: "n < length bs" using rest len by simp
    then have r: "rest = (seps ! n, handle_bytes (handle_of bs n)) # drop (Suc n) (index_of bs seps)"
      unfolding rest using len t(1) by (subst Cons_nth_drop_Suc [symmetric]) (simp_all add: index_of_def)
    have above: "\<not> c_Compare c (seps ! n) k < 0"
      using hd_dropWhile [of ?P "index_of bs seps"] \<open>rest \<noteq> []\<close> r unfolding rest_def by simp
    have "e \<in> set (fst (bs ! n))" if e: "e \<in> set (all_entries bs)" "fst e = k" for e
    proof -
      obtain j where j: "j < length bs" "e \<in> set (fst (bs ! j))" using e(1) by (auto simp: all_entries_mem)
      have "\<not> j < n" using below [of j] in_block [OF j e(2)] by blast
      moreover have "\<not> n < j"
      proof
        assume "n < j"
        then have "e \<in> set (all_entries (drop (Suc n) bs))" using j by (intro all_entries_drop [of j]) auto
        then have "c_Compare c (seps ! n) (fst e) < 0" using t(1,2) n by (simp add: separated_def)
        then show False using above e(2) by simp
      qed
      ultimately show ?thesis using j by (metis linorder_neqE_nat)
    qed
    then show "\<exists>i < length bs. \<exists>rest'. rest = (seps ! i, handle_bytes (handle_of bs i)) # rest' \<and>
      (\<forall>e \<in> set (all_entries bs). fst e = k \<longrightarrow> e \<in> set (fst (bs ! i)))" using n r by blast
  }
qed

lemma InternalGet_ok:
  assumes l: "table_layout opt sn data bs seps" and c: "opt_comparator opt = c" and o: "ordered (c_Compare c) (all_entries bs)"
    and size: "entries_size (all_entries bs) < 2 ^ 31" and policy: "\<forall>p. opt_filter_policy opt = Some p \<longrightarrow> policy_ok (all_entries bs) p"
    and rd: "reads (tb_file t) data" and t: "tb_options t = opt" "block_has (tb_index_block t) (index_of bs seps)"
      "tb_filter t = map_option (\<lambda>p. (p, FilterBlockReader (filter_block_of (fp_CreateFilter p) (filter_blocks bs [])))) (opt_filter_policy opt)"
    and cache: "cache_ok t bs cache" and ev: "evict_ok (ro_evict opts)"
  shows "\<exists>saved cache'. InternalGet sn t opts k cache = Some (None, saved, cache') \<and> cache_ok t bs cache' \<and>
    (case map_of (all_entries bs) k of Some v \<Rightarrow> saved = Some (k, v)
     | None \<Rightarrow> pred_option (\<lambda>e. e \<in> set (all_entries bs) \<and> c_Compare c k (fst e) < 0) saved)"
proof -
  let ?idx = "index_of bs seps" let ?rest = "dropWhile (\<lambda>(key, val). c_Compare c key k < 0) ?idx"
  have t': "length seps = length bs" "separated (c_Compare c) bs seps []" "\<forall>b \<in> set bs. block_ok sn b"
    using l c by (simp_all add: table_layout_def)
  obtain ii where ii: "bi_Seek (c_Compare c) k (Inr (NewIterator (tb_index_block t))) = Some ii" "bi_status ii = None"
    "bi_Valid ii \<longleftrightarrow> ?rest \<noteq> []" "\<forall>k v es'. ?rest = (k, v) # es' \<longrightarrow> bi_key ii = k \<and> bi_value ii = v"
    using bi_Seek_ok [OF byte_keys_axioms t(2) ordered_index [OF t'(2,1) o t'(3)], of k] by blast
  show ?thesis
  proof (cases "?rest = []")
    case True
    then have "map_of (all_entries bs) k = None" using index_seek(1) [OF l c o] by (simp add: map_of_eq_None_iff)
    then show ?thesis using ii True t(1) c cache by (simp add: InternalGet_def)
  next
    case False
    obtain i rest' where i: "i < length bs" "?rest = (seps ! i, handle_bytes (handle_of bs i)) # rest'"
      "\<forall>e \<in> set (all_entries bs). fst e = k \<longrightarrow> e \<in> set (fst (bs ! i))" using index_seek(2) [OF l c o False] by blast
    have iv: "bi_Valid ii" "bi_value ii = handle_bytes (handle_of bs i)" using ii(3,4) i(2) by simp_all
    let ?es = "fst (bs ! i)"
    note oes = ordered_blocks [OF o i(1)]
    show ?thesis
    proof (cases "filter_excludes t (handle_bytes (handle_of bs i)) k")
      case True
      have "k \<notin> fst ` set ?es"
        using True filter_matches [OF _ t'(3) size i(1)] policy t(3)
        by (auto simp: filter_excludes_def DecodeFrom_handle_bytes split: option.splits)
      then have "map_of (all_entries bs) k = None" using i(3) by (force simp: map_of_eq_None_iff)
      then show ?thesis using ii(1,2) iv True t(1) c cache by (simp add: InternalGet_def)
    next
      case False
      obtain block cache' where b: "BlockReader sn t opts (handle_bytes (handle_of bs i)) cache = Some (Inr (NewIterator block), cache')"
        "block_has block ?es" "cache_ok t bs cache'" using BlockReader_ok [OF l size rd i(1) cache ev] by blast
      let ?d = "dropWhile (\<lambda>(key, val). c_Compare c key k < 0) ?es"
      obtain bi where bi: "bi_Seek (c_Compare c) k (Inr (NewIterator block)) = Some bi" "bi_status bi = None"
        "bi_Valid bi \<longleftrightarrow> ?d \<noteq> []" "\<forall>k v es'. ?d = (k, v) # es' \<longrightarrow> bi_key bi = k \<and> bi_value bi = v"
        using bi_Seek_ok [OF byte_keys_axioms b(2) oes, of k] by blast
      let ?saved = "if bi_Valid bi then Some (bi_key bi, bi_value bi) else None"
      have get: "InternalGet sn t opts k cache = Some (None, ?saved, cache')"
        using ii(1,2) iv False t(1) c b(1) bi(1,2) by (simp add: InternalGet_def)
      show ?thesis
      proof (cases "map_of (all_entries bs) k")
        case (Some v)
        then have "(k, v) \<in> set ?es" using i(3) map_of_SomeD by fastforce
        then obtain es' where "?d = (k, v) # es'" using dropWhile_key [OF oes] by blast
        then show ?thesis using get Some bi(3,4) b(3) by simp
      next
        case None
        have "pred_option (\<lambda>e. e \<in> set (all_entries bs) \<and> c_Compare c k (fst e) < 0) ?saved"
        proof (cases ?d)
          case (Cons e es')
          obtain k' v' where e: "e = (k', v')" by (cases e)
          have "(k', v') \<in> set ?d" using Cons e by simp
          then have "(k', v') \<in> set ?es" by (rule set_dropWhileD)
          then have m: "(k', v') \<in> set (all_entries bs)" unfolding all_entries_mem using i(1) by blast
          have "\<not> c_Compare c k' k < 0" using hd_dropWhile [of "\<lambda>(key, val). c_Compare c key k < 0" ?es] Cons e by simp
          moreover have "k' \<noteq> k" using m None by (force simp: map_of_eq_None_iff)
          ultimately have "c_Compare c k k' < 0" using cmp_laws by (metis linorder_neqE_linordered_idom)
          then show ?thesis using bi(3,4) Cons e m by simp
        qed (use bi(3) in simp)
        then show ?thesis using get None b(3) by simp
      qed
    qed
  qed
qed

end


section \<open>Tables with the comparator and the filter policy of LevelDB\<close>

interpretation bytewise_table: table_comparator "BytewiseComparatorImpl addr" for addr
  unfolding table_comparator_def table_comparator_axioms_def BytewiseComparatorImpl_def comparator.simps
  using bytewise.byte_keys_axioms FindShortestSeparator_ok FindShortSuccessor_ok by blast

definition BloomPolicy :: "31 word \<Rightarrow> policy" where
  "BloomPolicy bits_per_key = \<lparr>fp_Name = bytes_of ''leveldb.BuiltinBloomFilter2'', fp_CreateFilter = bloom_create bits_per_key,
     fp_KeyMayMatch = KeyMayMatch\<rparr>"

text \<open>Every key adds at most \<open>bits_per_key + 10\<close> bytes of filters, and every 2 KB of data an offset.\<close>

lemma size_le: "size_add a b \<le> a + b" "size_mul a b \<le> a * b"
  by (simp_all add: size_add_def size_mul_def)

lemma length_bloom_create:
  assumes "ks \<noteq> []"
  shows "length (bloom_create bits ks dst) \<le> length dst + length ks * (unat bits + 10)"
proof -
  have "(if size_mul (length ks) (unat bits) < 64 then 64 else size_mul (length ks) (unat bits)) \<le> 64 + length ks * unat bits"
    using size_le(2) [of "length ks" "unat bits"] by simp
  then have "size_add (if size_mul (length ks) (unat bits) < 64 then 64 else size_mul (length ks) (unat bits)) 7 \<le> 71 + length ks * unat bits"
    using size_le(1) [of "if size_mul (length ks) (unat bits) < 64 then 64 else size_mul (length ks) (unat bits)" 7] by linarith
  moreover have "1 \<le> length ks" using assms by (simp add: Suc_le_eq)
  ultimately show ?thesis
    by (simp add: bloom_create_def length_CreateFilter BloomFilterPolicy_def Let_def algebra_simps)
qed

definition filter_room :: "nat \<Rightarrow> filter_builder \<Rightarrow> nat" where
  "filter_room w b = length (fb_result b) + length (fb_start b) * w"

lemma filter_room_Generate: "filter_room (unat bits + 10) (GenerateFilter (bloom_create bits) b) \<le> filter_room (unat bits + 10) b"
proof (cases "fb_start b = []")
  case False
  then show ?thesis
    using length_bloom_create [of "map f [0..<length (fb_start b)]" bits "fb_result b" for f]
    by (simp add: filter_room_def GenerateFilter_def Let_def)
qed (simp add: filter_room_def GenerateFilter_def)

lemma StartBlock_room:
  "filter_room (unat bits + 10) (StartBlock (bloom_create bits) offset b) \<le> filter_room (unat bits + 10) b \<and>
    length (fb_offsets (StartBlock (bloom_create bits) offset b)) \<le> max (length (fb_offsets b)) (offset div kFilterBase)"
proof (induction "offset div kFilterBase - length (fb_offsets b)" arbitrary: b)
  case 0
  then show ?case by (simp add: StartBlock.simps)
next
  case (Suc n)
  let ?g = "GenerateFilter (bloom_create bits) b"
  have s: "StartBlock (bloom_create bits) offset b = StartBlock (bloom_create bits) offset ?g"
    using Suc.hyps(2) by (subst StartBlock.simps) simp
  have "filter_room (unat bits + 10) (StartBlock (bloom_create bits) offset ?g) \<le> filter_room (unat bits + 10) ?g \<and>
    length (fb_offsets (StartBlock (bloom_create bits) offset ?g)) \<le> max (length (fb_offsets ?g)) (offset div kFilterBase)"
    using Suc.hyps(2) by (intro Suc.hyps(1)) simp
  then show ?case unfolding s using filter_room_Generate [of bits b] Suc.hyps(2) by auto
qed

lemma AddKeys_room:
  "filter_room w (fold AddKey ks b) = filter_room w b + length ks * w \<and> fb_offsets (fold AddKey ks b) = fb_offsets b"
  by (induction ks arbitrary: b) (simp_all add: AddKey_def filter_room_def)

lemma add_blocks_room:
  assumes "\<forall>blk \<in> set blks. fst blk \<le> S" "length (fb_offsets b) \<le> S div kFilterBase"
  shows "filter_room (unat bits + 10) (fold (add_block (bloom_create bits)) blks b) \<le>
      filter_room (unat bits + 10) b + length (concat (map snd blks)) * (unat bits + 10) \<and>
    length (fb_offsets (fold (add_block (bloom_create bits)) blks b)) \<le> S div kFilterBase"
  using assms
proof (induction blks arbitrary: b)
  case (Cons blk blks)
  obtain offset ks where blk: "blk = (offset, ks)" by (cases blk)
  let ?b = "add_block (bloom_create bits) blk b"
  have "offset div kFilterBase \<le> S div kFilterBase" using Cons.prems(1) blk by (simp add: div_le_mono)
  then have b: "filter_room (unat bits + 10) ?b \<le> filter_room (unat bits + 10) b + length ks * (unat bits + 10)"
    "length (fb_offsets ?b) \<le> S div kFilterBase"
    using StartBlock_room [of bits offset b] AddKeys_room [of "unat bits + 10" ks "StartBlock (bloom_create bits) offset b"]
      Cons.prems(2) blk by (auto simp: add_block_def)
  then show ?case using Cons.IH [OF _ b(2)] Cons.prems(1) blk by (auto simp: algebra_simps)
qed simp

lemma length_filter_block:
  assumes "\<forall>blk \<in> set blks. fst blk \<le> S"
  shows "length (filter_block_of (bloom_create bits) blks) \<le> length (concat (map snd blks)) * (unat bits + 10) + 4 * (S div kFilterBase) + 9"
proof -
  let ?b = "fold (add_block (bloom_create bits)) blks FilterBlockBuilder"
  define b where "b = (if fb_start ?b \<noteq> [] then GenerateFilter (bloom_create bits) ?b else ?b)"
  have r: "filter_room (unat bits + 10) ?b \<le> length (concat (map snd blks)) * (unat bits + 10)" "length (fb_offsets ?b) \<le> S div kFilterBase"
    using add_blocks_room [OF assms, of FilterBlockBuilder bits] by (simp_all add: FilterBlockBuilder_def filter_room_def)
  have "filter_room (unat bits + 10) b \<le> length (concat (map snd blks)) * (unat bits + 10)" "length (fb_offsets b) \<le> S div kFilterBase + 1"
    using r filter_room_Generate [of bits ?b] by (auto simp: b_def)
  moreover have "length (fold (\<lambda>w bs. PutFixed32 bs w) ws bs) = length bs + 4 * length ws" for ws bs
    by (induction ws arbitrary: bs) (simp_all add: PutFixed32_def)
  ultimately show ?thesis
    unfolding filter_block_of_def FilterBlock_Finish_def Let_def b_def [symmetric] by (simp add: PutFixed32_def filter_room_def)
qed

lemma BloomPolicy_ok:
  assumes "entries_size es + length es * (unat bits + 10) < 2 ^ 30"
  shows "policy_ok es (BloomPolicy bits)"
  unfolding policy_ok_def BloomPolicy_def policy.simps
proof (intro conjI allI impI)
  show "filter_policy (bloom_create bits) KeyMayMatch" by (rule bloom.filter_policy_axioms)
  show "length (bytes_of ''leveldb.BuiltinBloomFilter2'') < 2 ^ 20" by (simp add: bytes_of_def)
  fix blks :: "(nat \<times> u8 list list) list"
  assume b: "sorted (map fst blks) \<and> concat (map snd blks) = map fst es \<and> (\<forall>b \<in> set blks. fst b \<le> entries_size es)"
  then have "length (filter_block_of (bloom_create bits) blks) \<le> length es * (unat bits + 10) + 4 * (entries_size es div kFilterBase) + 9"
    using length_filter_block [of blks "entries_size es" bits] by simp
  moreover have "4 * (entries_size es div kFilterBase) \<le> entries_size es" by simp
  ultimately show "length (filter_block_of (bloom_create bits) blks) < 2 ^ 31" using assms by simp
qed

text \<open>
  \<open>pread\<close> on a regular file returns the bytes at the offset; a new id of the cache has not been used in
  its keys.
\<close>

definition pread_ok :: "(u8 list \<Rightarrow> int \<Rightarrow> nat \<Rightarrow> u8 list option) \<Rightarrow> bool" where
  "pread_ok pread \<longleftrightarrow> (\<forall>data start n. start + n \<le> length data \<longrightarrow> pread data (int start) n = Some (take n (drop start data)))"

definition unused_id :: "u64 \<Rightarrow> block_cache \<Rightarrow> bool" where
  "unused_id new_id cache \<longleftrightarrow> (\<forall>rest. cache (EncodeFixed64 new_id @ rest) = None)"

text \<open>A sequence of lookups, each with its options, and what each gives.\<close>

fun Gets :: "snappy \<Rightarrow> table \<Rightarrow> (u8 list \<times> read_options) list \<Rightarrow> block_cache \<Rightarrow>
    ((error option \<times> (u8 list \<times> u8 list) option) list \<times> block_cache) option" where
  "Gets sn t [] cache = Some ([], cache)"
| "Gets sn t ((k, opts) # gets) cache = do {
     (s, saved, cache) \<leftarrow> InternalGet sn t opts k cache;
     (rs, cache) \<leftarrow> Gets sn t gets cache;
     Some ((s, saved) # rs, cache)
   }"

text \<open>The callback gets the value of the key, or nothing or an entry with a larger key.\<close>

definition right_answer :: "entries \<Rightarrow> u8 list \<Rightarrow> (u8 list \<times> u8 list) option \<Rightarrow> bool" where
  "right_answer es k saved \<longleftrightarrow> (case map_of es k of
     Some v \<Rightarrow> saved = Some (k, v)
   | None \<Rightarrow> pred_option (\<lambda>e. e \<in> set es \<and> BytewiseComparator k (fst e) < 0) saved)"

lemma Gets_ok:
  assumes get: "\<And>k opts cache. cache_ok t bs cache \<Longrightarrow> evict_ok (ro_evict opts) \<Longrightarrow>
      \<exists>saved cache'. InternalGet sn t opts k cache = Some (None, saved, cache') \<and> cache_ok t bs cache' \<and> right_answer es k saved"
  shows "cache_ok t bs cache \<Longrightarrow> \<forall>g \<in> set gets. evict_ok (ro_evict (snd g)) \<Longrightarrow>
    \<exists>rs cache'. Gets sn t gets cache = Some (rs, cache') \<and> list_all2 (\<lambda>g (s, saved). s = None \<and> right_answer es (fst g) saved) gets rs"
proof (induction gets arbitrary: cache)
  case (Cons g gets)
  obtain k opts where g: "g = (k, opts)" by (cases g)
  obtain saved cache' where s: "InternalGet sn t opts k cache = Some (None, saved, cache')" "cache_ok t bs cache'" "right_answer es k saved"
    using get [OF Cons.prems(1), of opts k] Cons.prems(2) g by auto
  obtain rs cache'' where "Gets sn t gets cache' = Some (rs, cache'')"
    "list_all2 (\<lambda>g (s, saved). s = None \<and> right_answer es (fst g) saved) gets rs"
    using Cons.IH [OF s(2)] Cons.prems(2) by auto
  then show ?case using s(1,3) g by auto
qed simp

text \<open>
  C40: a table gives back what was put into it.  From entries in the strictly increasing bytewise order
  of their keys the builder makes a file from an empty one, whatever the block size, the restart
  interval (at least 1), the compression and whether there is a Bloom filter; it reports success if no
  call of the file fails.  When it does, the file can be opened through either of the two POSIX
  readers, and any sequence of lookups, with or without verification of checksums and with or without
  a block cache that may forget any block at any insertion, reports no error and hands the callback
  the value of each key that has one, and otherwise nothing or an entry with a larger key.  The
  keys and values, 40 bytes for each entry and, for each, 10 more than the filter has bits per key
  come to less than \<open>2 ^ 30\<close> bytes; uncompressing undoes compressing, \<open>pread\<close> returns the bytes of the
  file, and the cache holds nothing yet under the id that it gives the table.
\<close>

theorem table_get_correct:
  assumes "snappy_ok sn" "pread_ok pread" "pf_data out = []"
    "opt_comparator opt = BytewiseComparatorImpl addr" "1 \<le> opt_block_restart_interval opt"
    "opt_filter_policy opt = None \<or> opt_filter_policy opt = Some (BloomPolicy bits)"
    "ordered BytewiseComparator es" "entries_size es + length es * (unat bits + 10) < 2 ^ 30"
    "unused_id new_id cache" "\<forall>g \<in> set gets. evict_ok (ro_evict (snd g))"
  shows "\<exists>ok r. build_table sn opt out es = Some (ok, r) \<and> (pf_errs out = [] \<longrightarrow> ok) \<and>
    (ok \<longrightarrow> (\<forall>reader \<in> {PosixRandomAccessFile_Read (pread (pf_data (r_file r))), PosixMmapReadableFile_Read (pf_data (r_file r))}.
       \<exists>t rs cache'. Open sn opt new_id reader (length (pf_data (r_file r))) = Some (Inr t) \<and>
         Gets sn t gets cache = Some (rs, cache') \<and>
         list_all2 (\<lambda>g (s, saved). s = None \<and> right_answer es (fst g) saved) gets rs))"
proof -
  let ?c = "BytewiseComparatorImpl addr"
  have cmp: "c_Compare ?c = BytewiseComparator" by (simp add: BytewiseComparatorImpl_def)
  have pol: "\<forall>p. opt_filter_policy opt = Some p \<longrightarrow> policy_ok es p" using assms(6) BloomPolicy_ok [OF assms(8)] by auto
  have small: "entries_size es < 2 ^ 31" using assms(8) by simp
  obtain ok r where b: "build_table sn opt out es = Some (ok, r)" "pf_errs out = [] \<longrightarrow> ok"
    "ok \<longrightarrow> (\<exists>bs seps. table_layout opt sn (pf_data (r_file r)) bs seps \<and> all_entries bs = es)"
    using bytewise_table.build_table_ok [OF assms(1,4,5,3) _ small pol] assms(7) cmp by auto
  let ?data = "pf_data (r_file r)"
  have "\<exists>t rs cache'. Open sn opt new_id reader (length ?data) = Some (Inr t) \<and> Gets sn t gets cache = Some (rs, cache') \<and>
      list_all2 (\<lambda>g (s, saved). s = None \<and> right_answer es (fst g) saved) gets rs"
    if ok and reader: "reader \<in> {PosixRandomAccessFile_Read (pread ?data), PosixMmapReadableFile_Read ?data}" for reader
  proof -
    obtain bs seps where l: "table_layout opt sn ?data bs seps" "all_entries bs = es" using b(3) \<open>ok\<close> by blast
    have "length ?data < 2 ^ 63" using table_bytes_length [OF l(1)] l(2) small pol by simp
    then have rd: "reads reader ?data" using reader reads_mmap reads_posix [of ?data "pread ?data"] assms(2) by (auto simp: pread_ok_def)
    obtain t where t: "Open sn opt new_id reader (length ?data) = Some (Inr t)" "tb_options t = opt" "tb_file t = reader"
      "tb_cache_id t = (if opt_block_cache opt then new_id else 0)" "block_has (tb_index_block t) (index_of bs seps)"
      "tb_filter t = map_option (\<lambda>p. (p, FilterBlockReader (filter_block_of (fp_CreateFilter p) (filter_blocks bs [])))) (opt_filter_policy opt)"
      using Open_ok [OF l(1) _ _ rd] l(2) small pol by auto
    have "cache_ok t bs cache" using assms(9) t(2,4) by (simp add: cache_ok_def cache_key_def unused_id_def)
    moreover have "\<exists>saved cache'. InternalGet sn t opts k cache = Some (None, saved, cache') \<and> cache_ok t bs cache' \<and> right_answer es k saved"
      if "cache_ok t bs cache" "evict_ok (ro_evict opts)" for k opts cache
      unfolding right_answer_def
      by (rule bytewise_table.InternalGet_ok [OF l(1) assms(4) _ _ _ _ t(2,5,6) that, of k, unfolded l(2) cmp])
        (use small pol rd t(3) assms(7) in simp_all)
    ultimately show ?thesis using Gets_ok [of t bs sn es cache gets] assms(10) t(1) by blast
  qed
  then show ?thesis using b(1,2) by blast
qed

definition example_options :: options where
  "example_options = \<lparr>opt_comparator = BytewiseComparatorImpl 0, opt_compression = kSnappyCompression, opt_block_size = 1,
     opt_block_restart_interval = 16, opt_filter_policy = Some (BloomPolicy 10), opt_paranoid_checks = True, opt_block_cache = True\<rparr>"

definition example_pread :: "u8 list \<Rightarrow> int \<Rightarrow> nat \<Rightarrow> u8 list option" where
  "example_pread data start n = (if start < 0 then None else Some (take n (drop (nat start) data)))"

definition example_read :: read_options where
  "example_read = \<lparr>ro_verify_checksums = True, ro_fill_cache = True, ro_evict = id\<rparr>"

text \<open>Two data blocks with one entry each, a Bloom filter, and a key that is looked up twice.\<close>

theorem table_get_correct_witness:
  "\<exists>r t cache. build_table no_snappy example_options \<lparr>pf_data = [], pf_errs = []\<rparr> [([1], [2]), ([3], [4])] = Some (True, r) \<and>
    Open no_snappy example_options 7 (PosixRandomAccessFile_Read (example_pread (pf_data (r_file r)))) (length (pf_data (r_file r))) =
      Some (Inr t) \<and>
    Gets no_snappy t [([3], example_read), ([3], example_read)] Map.empty =
      Some ([(None, Some ([3], [4])), (None, Some ([3], [4]))], cache)"
proof -
  let ?es = "[([1], [2]), ([3], [4])] :: entries" and ?gets = "[([3], example_read), ([3], example_read)]"
  have p: "pread_ok example_pread" by (simp add: pread_ok_def example_pread_def)
  have o: "opt_comparator example_options = BytewiseComparatorImpl 0" "1 \<le> opt_block_restart_interval example_options"
    "opt_filter_policy example_options = None \<or> opt_filter_policy example_options = Some (BloomPolicy 10)"
    by (simp_all add: example_options_def)
  have s: "ordered BytewiseComparator ?es" by (simp add: ordered_def BytewiseComparator_def Slice_compare_strcmp)
  have n: "entries_size ?es + length ?es * (unat (10 :: 31 word) + 10) < 2 ^ 30" by (simp add: entries_size_def)
  have u: "unused_id 7 Map.empty" "\<forall>g \<in> set ?gets. evict_ok (ro_evict (snd g))"
    by (simp_all add: unused_id_def evict_ok_def example_read_def)
  obtain ok r where b: "build_table no_snappy example_options \<lparr>pf_data = [], pf_errs = []\<rparr> ?es = Some (ok, r)" "ok"
    "\<forall>reader \<in> {PosixRandomAccessFile_Read (example_pread (pf_data (r_file r))), PosixMmapReadableFile_Read (pf_data (r_file r))}.
       \<exists>t rs cache'. Open no_snappy example_options 7 reader (length (pf_data (r_file r))) = Some (Inr t) \<and>
         Gets no_snappy t ?gets Map.empty = Some (rs, cache') \<and>
         list_all2 (\<lambda>g (s, saved). s = None \<and> right_answer ?es (fst g) saved) ?gets rs"
    using table_get_correct [OF no_snappy_ok p _ o s n u, of "\<lparr>pf_data = [], pf_errs = []\<rparr>"] by auto
  from b(1,2) have "build_table no_snappy example_options \<lparr>pf_data = [], pf_errs = []\<rparr> ?es = Some (True, r)" by simp
  moreover obtain t rs cache' where
    "Open no_snappy example_options 7 (PosixRandomAccessFile_Read (example_pread (pf_data (r_file r)))) (length (pf_data (r_file r))) = Some (Inr t)"
    "Gets no_snappy t ?gets Map.empty = Some (rs, cache')"
    "list_all2 (\<lambda>g (s, saved). s = None \<and> right_answer ?es (fst g) saved) ?gets rs" using b(3) by blast
  moreover from this(3) have "rs = [(None, Some ([3], [4])), (None, Some ([3], [4]))]"
    by (auto simp: list_all2_Cons1 right_answer_def)
  ultimately show ?thesis by blast
qed

end
