(* ===== verification/Avl.thy ===== *)
theory Avl
  imports Avl_tree "HOL-Library.AList" "HOL-Library.Monad_Syntax"
begin


text \<open>
  The persistent AVL map of gRPC (\<open>src/core/lib/avl/avl.h\<close>, \<open>avl.cc\<close>) with its memory: nodes with
  reference counts, shared between versions of a map.

  A heap maps the addresses in use to nodes and counts the live copies of each key and value, which
  the functions of the vtable create and destroy: \<open>copy_key\<close> adds one, \<open>destroy_key\<close> removes one,
  and each of them needs one to be there.  An operation returns \<open>None\<close> for undefined behaviour (a
  null pointer or a freed node is read, a count drops below zero), for a failed assertion and for
  not returning.  \<open>gpr_malloc\<close> (which aborts instead of failing) is a parameter: a function from the
  addresses in use to a new one, so that freed addresses may be used again.  Where C leaves the
  order of arguments open, the model goes from left to right.
\<close>

section \<open>Memory\<close>

type_synonym ptr = "nat option"

record ('k, 'v) avl_node =
  nrefs :: nat
  nkey :: 'k
  nvalue :: 'v
  nleft :: ptr
  nright :: ptr
  nheight :: int

record ('k, 'v) heap =
  hnodes :: "(nat \<times> ('k, 'v) avl_node) list"
  hkeys :: "'k \<Rightarrow> nat"
  hvalues :: "'v \<Rightarrow> nat"

record 'k avl_env =
  compare_keys :: "'k \<Rightarrow> 'k \<Rightarrow> int"
  gpr_malloc :: "nat list \<Rightarrow> nat"

definition look :: "('k, 'v) heap \<Rightarrow> nat \<Rightarrow> ('k, 'v) avl_node option" where
  "look h a = map_of (hnodes h) a"

definition put :: "nat \<Rightarrow> ('k, 'v) avl_node \<Rightarrow> ('k, 'v) heap \<Rightarrow> ('k, 'v) heap" where
  "put a n h = h\<lparr>hnodes := AList.update a n (hnodes h)\<rparr>"

definition gpr_free :: "nat \<Rightarrow> ('k, 'v) heap \<Rightarrow> ('k, 'v) heap" where
  "gpr_free a h = h\<lparr>hnodes := AList.delete a (hnodes h)\<rparr>"

definition deref :: "('k, 'v) heap \<Rightarrow> ptr \<Rightarrow> ('k, 'v) avl_node option" where
  "deref h p = Option.bind p (look h)"

definition copy_key :: "'k \<Rightarrow> ('k, 'v) heap \<Rightarrow> ('k, 'v) heap option" where
  "copy_key k h = (if hkeys h k = 0 then None else Some (h\<lparr>hkeys := (hkeys h)(k := hkeys h k + 1)\<rparr>))"

definition destroy_key :: "'k \<Rightarrow> ('k, 'v) heap \<Rightarrow> ('k, 'v) heap option" where
  "destroy_key k h = (if hkeys h k = 0 then None else Some (h\<lparr>hkeys := (hkeys h)(k := hkeys h k - 1)\<rparr>))"

definition copy_value :: "'v \<Rightarrow> ('k, 'v) heap \<Rightarrow> ('k, 'v) heap option" where
  "copy_value v h = (if hvalues h v = 0 then None else Some (h\<lparr>hvalues := (hvalues h)(v := hvalues h v + 1)\<rparr>))"

definition destroy_value :: "'v \<Rightarrow> ('k, 'v) heap \<Rightarrow> ('k, 'v) heap option" where
  "destroy_value v h = (if hvalues h v = 0 then None else Some (h\<lparr>hvalues := (hvalues h)(v := hvalues h v - 1)\<rparr>))"

section \<open>Nodes\<close>

definition ref_node :: "ptr \<Rightarrow> ('k, 'v) heap \<Rightarrow> ('k, 'v) heap option" where
  "ref_node p h = (case p of None \<Rightarrow> Some h
   | Some a \<Rightarrow> do { n \<leftarrow> look h a; Some (put a (n\<lparr>nrefs := nrefs n + 1\<rparr>) h) })"

text \<open>\<open>gpr_unref\<close> asserts that the count was positive.\<close>

partial_function (option) unref_node :: "ptr \<Rightarrow> ('k, 'v) heap \<Rightarrow> ('k, 'v) heap option" where
  "unref_node p h = (case p of None \<Rightarrow> Some h
   | Some a \<Rightarrow> do {
       n \<leftarrow> look h a;
       if nrefs n = 0 then None
       else if nrefs n = 1 then do {
         let h = put a (n\<lparr>nrefs := 0\<rparr>) h;
         n \<leftarrow> look h a;
         h \<leftarrow> destroy_key (nkey n) h;
         h \<leftarrow> destroy_value (nvalue n) h;
         n \<leftarrow> look h a;
         h \<leftarrow> unref_node (nleft n) h;
         n \<leftarrow> look h a;
         h \<leftarrow> unref_node (nright n) h;
         n \<leftarrow> look h a;
         Some (gpr_free a h)
       }
       else Some (put a (n\<lparr>nrefs := nrefs n - 1\<rparr>) h)
     })"

definition node_height :: "ptr \<Rightarrow> ('k, 'v) heap \<Rightarrow> int option" where
  "node_height p h = (case p of None \<Rightarrow> Some 0 | Some a \<Rightarrow> do { n \<leftarrow> look h a; Some (nheight n) })"

partial_function (option) calculate_height :: "ptr \<Rightarrow> ('k, 'v) heap \<Rightarrow> int option" where
  "calculate_height p h = (case p of None \<Rightarrow> Some 0
   | Some a \<Rightarrow> do {
       n \<leftarrow> look h a;
       x \<leftarrow> calculate_height (nleft n) h;
       y \<leftarrow> calculate_height (nright n) h;
       Some (1 + max x y)
     })"

text \<open>A build without \<open>NDEBUG\<close>, whose assertions have to hold.\<close>

partial_function (option) assert_invariants :: "ptr \<Rightarrow> ('k, 'v) heap \<Rightarrow> ptr option" where
  "assert_invariants p h = (case p of None \<Rightarrow> Some None
   | Some a \<Rightarrow> do {
       n \<leftarrow> look h a;
       _ \<leftarrow> assert_invariants (nleft n) h;
       _ \<leftarrow> assert_invariants (nright n) h;
       c \<leftarrow> calculate_height p h;
       x \<leftarrow> node_height (nleft n) h;
       y \<leftarrow> node_height (nright n) h;
       if c = nheight n \<and> \<bar>x - y\<bar> \<le> 1 then Some p else None
     })"

definition new_node :: "'k avl_env \<Rightarrow> 'k \<Rightarrow> 'v \<Rightarrow> ptr \<Rightarrow> ptr \<Rightarrow> ('k, 'v) heap \<Rightarrow> (ptr \<times> ('k, 'v) heap) option" where
  "new_node env k v left right h = do {
     let a = gpr_malloc env (map fst (hnodes h));
     left' \<leftarrow> assert_invariants left h;
     right' \<leftarrow> assert_invariants right h;
     x \<leftarrow> node_height left h;
     y \<leftarrow> node_height right h;
     Some (Some a, put a \<lparr>nrefs = 1, nkey = k, nvalue = v, nleft = left', nright = right', nheight = 1 + max x y\<rparr> h)
   }"

section \<open>Lookup\<close>

partial_function (option) get :: "'k avl_env \<Rightarrow> ptr \<Rightarrow> 'k \<Rightarrow> ('k, 'v) heap \<Rightarrow> ptr option" where
  "get env p k h = (case p of None \<Rightarrow> Some None
   | Some a \<Rightarrow> do {
       n \<leftarrow> look h a;
       let cmp = compare_keys env (nkey n) k;
       if cmp = 0 then Some p
       else if cmp > 0 then get env (nleft n) k h
       else get env (nright n) k h
     })"

definition grpc_avl_get :: "'k avl_env \<Rightarrow> ptr \<Rightarrow> 'k \<Rightarrow> ('k, 'v) heap \<Rightarrow> 'v option option" where
  "grpc_avl_get env root k h = do {
     p \<leftarrow> get env root k h;
     case p of None \<Rightarrow> Some None | Some a \<Rightarrow> do { n \<leftarrow> look h a; Some (Some (nvalue n)) }
   }"

definition grpc_avl_maybe_get :: "'k avl_env \<Rightarrow> ptr \<Rightarrow> 'k \<Rightarrow> 'v \<Rightarrow> ('k, 'v) heap \<Rightarrow> (bool \<times> 'v) option" where
  "grpc_avl_maybe_get env root k v h = do {
     p \<leftarrow> get env root k h;
     case p of None \<Rightarrow> Some (False, v) | Some a \<Rightarrow> do { n \<leftarrow> look h a; Some (True, nvalue n) }
   }"

section \<open>Rotations\<close>

definition rotate_left :: "'k avl_env \<Rightarrow> 'k \<Rightarrow> 'v \<Rightarrow> ptr \<Rightarrow> ptr \<Rightarrow> ('k, 'v) heap \<Rightarrow> (ptr \<times> ('k, 'v) heap) option" where
  "rotate_left env k v left right h = do {
     r \<leftarrow> deref h right;
     h \<leftarrow> copy_key (nkey r) h;
     h \<leftarrow> copy_value (nvalue r) h;
     h \<leftarrow> ref_node (nleft r) h;
     (x, h) \<leftarrow> new_node env k v left (nleft r) h;
     r' \<leftarrow> deref h right;
     h \<leftarrow> ref_node (nright r') h;
     (n, h) \<leftarrow> new_node env (nkey r) (nvalue r) x (nright r') h;
     h \<leftarrow> unref_node right h;
     Some (n, h)
   }"

definition rotate_right :: "'k avl_env \<Rightarrow> 'k \<Rightarrow> 'v \<Rightarrow> ptr \<Rightarrow> ptr \<Rightarrow> ('k, 'v) heap \<Rightarrow> (ptr \<times> ('k, 'v) heap) option" where
  "rotate_right env k v left right h = do {
     l \<leftarrow> deref h left;
     h \<leftarrow> copy_key (nkey l) h;
     h \<leftarrow> copy_value (nvalue l) h;
     h \<leftarrow> ref_node (nleft l) h;
     l' \<leftarrow> deref h left;
     h \<leftarrow> ref_node (nright l') h;
     (y, h) \<leftarrow> new_node env k v (nright l') right h;
     (n, h) \<leftarrow> new_node env (nkey l) (nvalue l) (nleft l) y h;
     h \<leftarrow> unref_node left h;
     Some (n, h)
   }"

definition rotate_left_right :: "'k avl_env \<Rightarrow> 'k \<Rightarrow> 'v \<Rightarrow> ptr \<Rightarrow> ptr \<Rightarrow> ('k, 'v) heap \<Rightarrow> (ptr \<times> ('k, 'v) heap) option" where
  "rotate_left_right env k v left right h = do {
     l \<leftarrow> deref h left;
     lr \<leftarrow> deref h (nright l);
     h \<leftarrow> copy_key (nkey lr) h;
     h \<leftarrow> copy_value (nvalue lr) h;
     h \<leftarrow> copy_key (nkey l) h;
     h \<leftarrow> copy_value (nvalue l) h;
     h \<leftarrow> ref_node (nleft l) h;
     lr' \<leftarrow> deref h (nright l);
     h \<leftarrow> ref_node (nleft lr') h;
     (x, h) \<leftarrow> new_node env (nkey l) (nvalue l) (nleft l) (nleft lr') h;
     l'' \<leftarrow> deref h left;
     lr'' \<leftarrow> deref h (nright l'');
     h \<leftarrow> ref_node (nright lr'') h;
     (y, h) \<leftarrow> new_node env k v (nright lr'') right h;
     (n, h) \<leftarrow> new_node env (nkey lr) (nvalue lr) x y h;
     h \<leftarrow> unref_node left h;
     Some (n, h)
   }"

definition rotate_right_left :: "'k avl_env \<Rightarrow> 'k \<Rightarrow> 'v \<Rightarrow> ptr \<Rightarrow> ptr \<Rightarrow> ('k, 'v) heap \<Rightarrow> (ptr \<times> ('k, 'v) heap) option" where
  "rotate_right_left env k v left right h = do {
     r \<leftarrow> deref h right;
     rl \<leftarrow> deref h (nleft r);
     h \<leftarrow> copy_key (nkey rl) h;
     h \<leftarrow> copy_value (nvalue rl) h;
     h \<leftarrow> ref_node (nleft rl) h;
     (x, h) \<leftarrow> new_node env k v left (nleft rl) h;
     r' \<leftarrow> deref h right;
     h \<leftarrow> copy_key (nkey r') h;
     h \<leftarrow> copy_value (nvalue r') h;
     rl' \<leftarrow> deref h (nleft r');
     h \<leftarrow> ref_node (nright rl') h;
     h \<leftarrow> ref_node (nright r') h;
     (y, h) \<leftarrow> new_node env (nkey r') (nvalue r') (nright rl') (nright r') h;
     (n, h) \<leftarrow> new_node env (nkey rl) (nvalue rl) x y h;
     h \<leftarrow> unref_node right h;
     Some (n, h)
   }"

definition checked :: "(ptr \<times> ('k, 'v) heap) option \<Rightarrow> (ptr \<times> ('k, 'v) heap) option" where
  "checked res = do { (p, h) \<leftarrow> res; p \<leftarrow> assert_invariants p h; Some (p, h) }"

definition rebalance :: "'k avl_env \<Rightarrow> 'k \<Rightarrow> 'v \<Rightarrow> ptr \<Rightarrow> ptr \<Rightarrow> ('k, 'v) heap \<Rightarrow> (ptr \<times> ('k, 'v) heap) option" where
  "rebalance env k v left right h = do {
     x \<leftarrow> node_height left h;
     y \<leftarrow> node_height right h;
     if x - y = 2 then do {
       l \<leftarrow> deref h left;
       a \<leftarrow> node_height (nleft l) h;
       b \<leftarrow> node_height (nright l) h;
       if a - b = -1 then checked (rotate_left_right env k v left right h)
       else checked (rotate_right env k v left right h)
     }
     else if x - y = -2 then do {
       r \<leftarrow> deref h right;
       a \<leftarrow> node_height (nleft r) h;
       b \<leftarrow> node_height (nright r) h;
       if a - b = 1 then checked (rotate_right_left env k v left right h)
       else checked (rotate_left env k v left right h)
     }
     else checked (new_node env k v left right h)
   }"

section \<open>Insertion and removal\<close>

partial_function (option) add_key ::
  "'k avl_env \<Rightarrow> ptr \<Rightarrow> 'k \<Rightarrow> 'v \<Rightarrow> ('k, 'v) heap \<Rightarrow> (ptr \<times> ('k, 'v) heap) option" where
  "add_key env p k v h = (case p of None \<Rightarrow> new_node env k v None None h
   | Some a \<Rightarrow> do {
       n \<leftarrow> look h a;
       let cmp = compare_keys env (nkey n) k;
       if cmp = 0 then do {
         h \<leftarrow> ref_node (nleft n) h;
         h \<leftarrow> ref_node (nright n) h;
         new_node env k v (nleft n) (nright n) h
       }
       else if cmp > 0 then do {
         h \<leftarrow> copy_key (nkey n) h;
         h \<leftarrow> copy_value (nvalue n) h;
         (l, h) \<leftarrow> add_key env (nleft n) k v h;
         n' \<leftarrow> look h a;
         h \<leftarrow> ref_node (nright n') h;
         rebalance env (nkey n) (nvalue n) l (nright n') h
       }
       else do {
         h \<leftarrow> copy_key (nkey n) h;
         h \<leftarrow> copy_value (nvalue n) h;
         h \<leftarrow> ref_node (nleft n) h;
         n' \<leftarrow> look h a;
         (r, h) \<leftarrow> add_key env (nright n') k v h;
         rebalance env (nkey n) (nvalue n) (nleft n) r h
       }
     })"

definition grpc_avl_add :: "'k avl_env \<Rightarrow> ptr \<Rightarrow> 'k \<Rightarrow> 'v \<Rightarrow> ('k, 'v) heap \<Rightarrow> (ptr \<times> ('k, 'v) heap) option" where
  "grpc_avl_add env root k v h = do {
     (p, h) \<leftarrow> add_key env root k v h;
     _ \<leftarrow> assert_invariants p h;
     h \<leftarrow> unref_node root h;
     Some (p, h)
   }"

partial_function (option) in_order_head :: "ptr \<Rightarrow> ('k, 'v) heap \<Rightarrow> ('k, 'v) avl_node option" where
  "in_order_head p h = do {
     n \<leftarrow> deref h p;
     if nleft n \<noteq> None then in_order_head (nleft n) h else Some n
   }"

partial_function (option) in_order_tail :: "ptr \<Rightarrow> ('k, 'v) heap \<Rightarrow> ('k, 'v) avl_node option" where
  "in_order_tail p h = do {
     n \<leftarrow> deref h p;
     if nright n \<noteq> None then in_order_tail (nright n) h else Some n
   }"

partial_function (option) remove_key ::
  "'k avl_env \<Rightarrow> ptr \<Rightarrow> 'k \<Rightarrow> ('k, 'v) heap \<Rightarrow> (ptr \<times> ('k, 'v) heap) option" where
  "remove_key env p k h = (case p of None \<Rightarrow> Some (None, h)
   | Some a \<Rightarrow> do {
       n \<leftarrow> look h a;
       let cmp = compare_keys env (nkey n) k;
       if cmp = 0 then
         (if nleft n = None then do { h \<leftarrow> ref_node (nright n) h; Some (nright n, h) }
          else if nright n = None then do { h \<leftarrow> ref_node (nleft n) h; Some (nleft n, h) }
          else do {
            x \<leftarrow> node_height (nleft n) h;
            y \<leftarrow> node_height (nright n) h;
            if x < y then do {
              m \<leftarrow> in_order_head (nright n) h;
              h \<leftarrow> copy_key (nkey m) h;
              h \<leftarrow> copy_value (nvalue m) h;
              h \<leftarrow> ref_node (nleft n) h;
              n' \<leftarrow> look h a;
              (r, h) \<leftarrow> remove_key env (nright n') (nkey m) h;
              rebalance env (nkey m) (nvalue m) (nleft n) r h
            }
            else do {
              m \<leftarrow> in_order_tail (nleft n) h;
              h \<leftarrow> copy_key (nkey m) h;
              h \<leftarrow> copy_value (nvalue m) h;
              (l, h) \<leftarrow> remove_key env (nleft n) (nkey m) h;
              n' \<leftarrow> look h a;
              h \<leftarrow> ref_node (nright n') h;
              rebalance env (nkey m) (nvalue m) l (nright n') h
            }
          })
       else if cmp > 0 then do {
         h \<leftarrow> copy_key (nkey n) h;
         h \<leftarrow> copy_value (nvalue n) h;
         (l, h) \<leftarrow> remove_key env (nleft n) k h;
         n' \<leftarrow> look h a;
         h \<leftarrow> ref_node (nright n') h;
         rebalance env (nkey n) (nvalue n) l (nright n') h
       }
       else do {
         h \<leftarrow> copy_key (nkey n) h;
         h \<leftarrow> copy_value (nvalue n) h;
         h \<leftarrow> ref_node (nleft n) h;
         n' \<leftarrow> look h a;
         (r, h) \<leftarrow> remove_key env (nright n') k h;
         rebalance env (nkey n) (nvalue n) (nleft n) r h
       }
     })"

definition grpc_avl_remove :: "'k avl_env \<Rightarrow> ptr \<Rightarrow> 'k \<Rightarrow> ('k, 'v) heap \<Rightarrow> (ptr \<times> ('k, 'v) heap) option" where
  "grpc_avl_remove env root k h = do {
     (p, h) \<leftarrow> remove_key env root k h;
     _ \<leftarrow> assert_invariants p h;
     h \<leftarrow> unref_node root h;
     Some (p, h)
   }"

definition grpc_avl_create :: "('k, 'v) heap \<Rightarrow> ptr \<times> ('k, 'v) heap" where
  "grpc_avl_create h = (None, h)"

definition grpc_avl_ref :: "ptr \<Rightarrow> ('k, 'v) heap \<Rightarrow> (ptr \<times> ('k, 'v) heap) option" where
  "grpc_avl_ref root h = do { h \<leftarrow> ref_node root h; Some (root, h) }"

definition grpc_avl_unref :: "ptr \<Rightarrow> ('k, 'v) heap \<Rightarrow> ('k, 'v) heap option" where
  "grpc_avl_unref root h = unref_node root h"

definition grpc_avl_is_empty :: "ptr \<Rightarrow> bool" where
  "grpc_avl_is_empty root = (root = None)"

end
