(* ===== verification/Avl_memory.thy ===== *)
theory Avl_memory
  imports Avl "HOL-Library.Multiset"
begin


text \<open>
  The memory of the AVL maps: the invariant that every reference count is the number of references
  that exist, what an operation keeps of the nodes that are reachable from references it does not
  consume, and the primitive operations on them.  Releasing a node is by induction on the number of
  nodes that are alive.
\<close>

section \<open>Accounting\<close>

text \<open>
  Every count is the number of references that exist: from nodes that are alive and from outside,
  which is a multiset \<open>X\<close> of nodes, keys and values.  Nodes whose count is 0 are being destroyed.
\<close>

datatype ('k, 'v) res = RNode nat | RKey 'k | RVal 'v

definition pres :: "ptr \<Rightarrow> ('k, 'v) res multiset" where
  "pres p = (case p of None \<Rightarrow> {#} | Some a \<Rightarrow> {#RNode a#})"

definition owned :: "('k, 'v) avl_node option \<Rightarrow> ('k, 'v) res multiset" where
  "owned m = (case m of None \<Rightarrow> {#} | Some n \<Rightarrow> if nrefs n = 0 then {#}
     else {#RKey (nkey n), RVal (nvalue n)#} + pres (nleft n) + pres (nright n))"

definition edges :: "('k, 'v) heap \<Rightarrow> ('k, 'v) res multiset" where
  "edges h = (\<Sum>a \<in> dom (look h). owned (look h a))"

definition refcount :: "('k, 'v) heap \<Rightarrow> ('k, 'v) res \<Rightarrow> nat" where
  "refcount h x = (case x of RNode a \<Rightarrow> (case look h a of None \<Rightarrow> 0 | Some n \<Rightarrow> nrefs n)
     | RKey k \<Rightarrow> hkeys h k | RVal v \<Rightarrow> hvalues h v)"

definition ranked :: "('k, 'v) heap \<Rightarrow> bool" where
  "ranked h \<longleftrightarrow> (\<forall>a n b m. look h a = Some n \<longrightarrow> 0 < nrefs n \<longrightarrow> nleft n = Some b \<or> nright n = Some b \<longrightarrow>
     look h b = Some m \<longrightarrow> nheight m < nheight n)"

definition good :: "('k, 'v) heap \<Rightarrow> ('k, 'v) res multiset \<Rightarrow> bool" where
  "good h X \<longleftrightarrow> (\<forall>x. refcount h x = count (edges h + X) x) \<and> ranked h"

lemma pres_simps [simp]: "pres None = {#}" "pres (Some a) = {#RNode a#}"
  by (simp_all add: pres_def)

lemma owned_simps [simp]: "owned None = {#}" "nrefs n = 0 \<Longrightarrow> owned (Some n) = {#}"
  "0 < nrefs n \<Longrightarrow> owned (Some n) = {#RKey (nkey n), RVal (nvalue n)#} + pres (nleft n) + pres (nright n)"
  by (simp_all add: owned_def)

lemma refcount_simps [simp]: "refcount h (RKey k) = hkeys h k" "refcount h (RVal v) = hvalues h v"
  by (simp_all add: refcount_def)

lemma look_put [simp]: "look (put a n h) = (look h)(a \<mapsto> n)"
  by (simp add: look_def put_def update_conv' fun_eq_iff)

lemma look_free [simp]: "look (gpr_free a h) = (look h)(a := None)"
  by (simp add: look_def gpr_free_def delete_conv' fun_eq_iff)

lemma put_simps [simp]: "hkeys (put a n h) = hkeys h" "hvalues (put a n h) = hvalues h"
  "hkeys (gpr_free a h) = hkeys h" "hvalues (gpr_free a h) = hvalues h"
  by (simp_all add: put_def gpr_free_def)

lemma look_counts [simp]: "look (h\<lparr>hkeys := f\<rparr>) = look h" "look (h\<lparr>hvalues := g\<rparr>) = look h"
  by (simp_all add: look_def fun_eq_iff)

lemma edges_counts [simp]: "edges (h\<lparr>hkeys := f\<rparr>) = edges h" "edges (h\<lparr>hvalues := g\<rparr>) = edges h"
  by (simp_all add: edges_def)

lemma ranked_counts [simp]: "ranked (h\<lparr>hkeys := f\<rparr>) = ranked h" "ranked (h\<lparr>hvalues := g\<rparr>) = ranked h"
  by (simp_all add: ranked_def)

lemma finite_dom [simp]: "finite (dom (look h))"
  unfolding look_def by (rule finite_dom_map_of)

lemma sum_upd:
  assumes "finite (dom f)"
  shows "(\<Sum>b \<in> dom (f(a := m)). owned ((f(a := m)) b)) + owned (f a) = (\<Sum>b \<in> dom f. owned (f b)) + owned m"
proof -
  have split: "(\<Sum>b \<in> dom g. owned (g b)) = owned (g a) + (\<Sum>b \<in> dom g - {a}. owned (g b))" if "finite (dom g)" for g
    using that sum.remove [of "dom g" a "\<lambda>b. owned (g b)"] by (cases "a \<in> dom g") (auto simp: domIff)
  have "(\<Sum>b \<in> dom (f(a := m)) - {a}. owned ((f(a := m)) b)) = (\<Sum>b \<in> dom f - {a}. owned (f b))"
    by (rule sum.cong) (auto simp: dom_def)
  then have "(\<Sum>b \<in> dom (f(a := m)). owned ((f(a := m)) b)) = owned m + (\<Sum>b \<in> dom f - {a}. owned (f b))"
    using split [of "f(a := m)"] assms by simp
  then show ?thesis using split [OF assms] by simp
qed

lemma edges_put: "edges (put a n h) + owned (look h a) = edges h + owned (Some n)"
  using sum_upd [of "look h" a "Some n"] by (simp add: edges_def)

lemma edges_free: "edges (gpr_free a h) + owned (look h a) = edges h"
  using sum_upd [of "look h" a None] by (simp add: edges_def)

lemma edges_put_same:
  assumes "look h a = Some n" "0 < nrefs n" "0 < i"
  shows "edges (put a (n\<lparr>nrefs := i\<rparr>) h) = edges h"
  using edges_put [of a "n\<lparr>nrefs := i\<rparr>" h] assms by simp

lemma owned_edges: "look h a = Some n \<Longrightarrow> owned (Some n) \<subseteq># edges h"
  using sum.remove [of "dom (look h)" a "\<lambda>a. owned (look h a)"] by (simp add: edges_def domI)

section \<open>Reachable nodes\<close>

inductive reach :: "('k, 'v) heap \<Rightarrow> ('k, 'v) res multiset \<Rightarrow> nat \<Rightarrow> bool" for h X where
  base: "RNode a \<in># X \<Longrightarrow> reach h X a"
| left: "reach h X a \<Longrightarrow> look h a = Some n \<Longrightarrow> nleft n = Some b \<Longrightarrow> reach h X b"
| right: "reach h X a \<Longrightarrow> look h a = Some n \<Longrightarrow> nright n = Some b \<Longrightarrow> reach h X b"

definition reachp :: "('k, 'v) heap \<Rightarrow> ('k, 'v) res multiset \<Rightarrow> ptr \<Rightarrow> bool" where
  "reachp h X p \<longleftrightarrow> (\<forall>a. p = Some a \<longrightarrow> reach h X a)"

definition same :: "('k, 'v) avl_node \<Rightarrow> ('k, 'v) avl_node \<Rightarrow> bool" where
  "same n n' \<longleftrightarrow> nkey n' = nkey n \<and> nvalue n' = nvalue n \<and> nleft n' = nleft n \<and> nright n' = nright n \<and> nheight n' = nheight n"

text \<open>An operation keeps what is reachable from the references it does not consume, and leaves
  alone the nodes that are being destroyed.\<close>

definition keeps :: "('k, 'v) heap \<Rightarrow> ('k, 'v) res multiset \<Rightarrow> ('k, 'v) heap \<Rightarrow> bool" where
  "keeps h X h' \<longleftrightarrow> (\<forall>a n. reach h X a \<longrightarrow> look h a = Some n \<longrightarrow> (\<exists>n'. look h' a = Some n' \<and> same n n')) \<and>
     (\<forall>a n. nrefs n = 0 \<longrightarrow> look h' a = Some n \<longleftrightarrow> look h a = Some n)"

lemma same_refl [simp]: "same n n" "same n (n\<lparr>nrefs := i\<rparr>)"
  by (simp_all add: same_def)

lemma same_trans: "same a b \<Longrightarrow> same b c \<Longrightarrow> same a c"
  by (simp add: same_def)

lemma live_edge:
  assumes "good h X" "look h a = Some n" "0 < nrefs n" "nleft n = Some b \<or> nright n = Some b"
  shows "\<exists>m. look h b = Some m \<and> 0 < nrefs m"
proof -
  have "RNode b \<in># owned (Some n)" using assms(3,4) by auto
  then have "RNode b \<in># edges h" by (rule mset_subset_eqD [OF owned_edges [OF assms(2)]])
  then have "0 < count (edges h) (RNode b)" by simp
  moreover have "refcount h (RNode b) = count (edges h + X) (RNode b)" using assms(1) by (simp add: good_def)
  ultimately have "0 < refcount h (RNode b)" by simp
  then show ?thesis by (simp add: refcount_def split: option.splits)
qed

lemma reach_live: "reach h X a \<Longrightarrow> good h X \<Longrightarrow> \<exists>n. look h a = Some n \<and> 0 < nrefs n"
proof (induction rule: reach.induct)
  case (base a)
  have "0 < count X (RNode a)" using base(1) by simp
  moreover have "refcount h (RNode a) = count (edges h + X) (RNode a)" using base(2) by (simp add: good_def)
  ultimately have "0 < refcount h (RNode a)" by simp
  then show ?case by (simp add: refcount_def split: option.splits)
qed (use live_edge in fastforce)+

lemma reach_mono: "reach h X a \<Longrightarrow> X \<subseteq># Y \<Longrightarrow> reach h Y a"
  by (induction rule: reach.induct) (auto intro: reach.intros dest: mset_subset_eqD)

lemma reachp_mono: "reachp h X p \<Longrightarrow> X \<subseteq># Y \<Longrightarrow> reachp h Y p"
  using reach_mono unfolding reachp_def by blast

lemma keeps_reach: "reach h X a \<Longrightarrow> keeps h X h' \<Longrightarrow> reach h' X a"
proof (induction rule: reach.induct)
  case (base a)
  then show ?case by (simp add: reach.base)
next
  case (left a n b)
  obtain n' where "look h' a = Some n'" "same n n'" using left(1,2) left.prems unfolding keeps_def by blast
  then show ?case using left.IH [OF left.prems] left(3) by (auto simp: same_def intro: reach.left)
next
  case (right a n b)
  obtain n' where "look h' a = Some n'" "same n n'" using right(1,2) right.prems unfolding keeps_def by blast
  then show ?case using right.IH [OF right.prems] right(3) by (auto simp: same_def intro: reach.right)
qed

lemma keeps_reachp: "reachp h X p \<Longrightarrow> keeps h X h' \<Longrightarrow> reachp h' X p"
  using keeps_reach unfolding reachp_def by blast

lemma keeps_refl [simp]: "keeps h X h"
  by (auto simp: keeps_def)

lemma keeps_trans:
  assumes "keeps h X h'" "keeps h' X h''"
  shows "keeps h X h''"
  unfolding keeps_def
proof (intro conjI allI impI)
  fix a n assume a: "reach h X a" "look h a = Some n"
  then obtain n' where n': "look h' a = Some n'" "same n n'" using assms(1) unfolding keeps_def by blast
  have "reach h' X a" using keeps_reach a(1) assms(1) by blast
  then obtain n'' where "look h'' a = Some n''" "same n' n''" using n'(1) assms(2) unfolding keeps_def by blast
  then show "\<exists>n'. look h'' a = Some n' \<and> same n n'" using same_trans n'(2) by blast
next
  fix a and n :: "('a, 'b) avl_node" assume "nrefs n = 0"
  then show "(look h'' a = Some n) = (look h a = Some n)" using assms unfolding keeps_def by simp
qed

lemma keeps_mono: "keeps h Y h' \<Longrightarrow> X \<subseteq># Y \<Longrightarrow> keeps h X h'"
  using reach_mono unfolding keeps_def by blast

section \<open>Trees in memory\<close>

fun tree :: "('k, 'v) heap \<Rightarrow> ptr \<Rightarrow> ('k, 'v) avl_tree \<Rightarrow> bool" where
  "tree h p Tip = (p = None)"
| "tree h p (Bin k v l r i) = (\<exists>a n. p = Some a \<and> look h a = Some n \<and> nkey n = k \<and> nvalue n = v \<and> nheight n = i \<and>
     tree h (nleft n) l \<and> tree h (nright n) r)"

lemma tree_keeps: "tree h p t \<Longrightarrow> keeps h X h' \<Longrightarrow> reachp h X p \<Longrightarrow> tree h' p t"
proof (induction t arbitrary: p)
  case (Bin k v l r i)
  then obtain a n where a: "p = Some a" "look h a = Some n" "nkey n = k" "nvalue n = v" "nheight n = i"
    "tree h (nleft n) l" "tree h (nright n) r" "reach h X a"
    unfolding reachp_def by auto
  then obtain n' where n': "look h' a = Some n'" "same n n'" using Bin.prems(2) unfolding keeps_def by blast
  have "reachp h X (nleft n)" "reachp h X (nright n)" using a(2,8) reach.left reach.right unfolding reachp_def by blast+
  then show ?case using Bin.IH Bin.prems(2) a n' by (auto simp: same_def)
qed simp


section \<open>Copies and references\<close>

lemma key_live:
  assumes "good h X" "look h a = Some n" "0 < nrefs n"
  shows "0 < hkeys h (nkey n)" "0 < hvalues h (nvalue n)"
proof -
  have "RKey (nkey n) \<in># edges h" "RVal (nvalue n) \<in># edges h"
    using mset_subset_eqD [OF owned_edges [OF assms(2)]] assms(3) by auto
  moreover have "hkeys h (nkey n) = count (edges h + X) (RKey (nkey n))" "hvalues h (nvalue n) = count (edges h + X) (RVal (nvalue n))"
    using assms(1) unfolding good_def by (metis refcount_simps)+
  ultimately show "0 < hkeys h (nkey n)" "0 < hvalues h (nvalue n)" by simp_all
qed

lemma good_iff: "good h X \<longleftrightarrow> (\<forall>a. refcount h (RNode a) = count (edges h + X) (RNode a)) \<and>
    (\<forall>k. hkeys h k = count (edges h + X) (RKey k)) \<and> (\<forall>v. hvalues h v = count (edges h + X) (RVal v)) \<and> ranked h"
  unfolding good_def by (metis (mono_tags) refcount_simps res.exhaust)

lemma refcount_counts [simp]:
  "refcount (h\<lparr>hkeys := f\<rparr>) x = (case x of RKey k \<Rightarrow> f k | _ \<Rightarrow> refcount h x)"
  "refcount (h\<lparr>hvalues := g\<rparr>) x = (case x of RVal v \<Rightarrow> g v | _ \<Rightarrow> refcount h x)"
  by (simp_all add: refcount_def split: res.splits)

lemma keeps_look: "look h' = look h \<Longrightarrow> keeps h X h'"
  by (auto simp: keeps_def)

lemma copy_key_good:
  assumes "good h X" "0 < hkeys h k"
  shows "\<exists>h'. copy_key k h = Some h' \<and> good h' (X + {#RKey k#}) \<and> keeps h Y h' \<and> look h' = look h"
  using assms by (auto simp: copy_key_def good_iff keeps_look)

lemma copy_value_good:
  assumes "good h X" "0 < hvalues h v"
  shows "\<exists>h'. copy_value v h = Some h' \<and> good h' (X + {#RVal v#}) \<and> keeps h Y h' \<and> look h' = look h"
  using assms by (auto simp: copy_value_def good_iff keeps_look)

lemma destroy_key_good:
  assumes "good h (X + {#RKey k#})"
  shows "\<exists>h'. destroy_key k h = Some h' \<and> good h' X \<and> look h' = look h"
proof -
  have "hkeys h k = count (edges h + (X + {#RKey k#})) (RKey k)" using assms unfolding good_def by (metis refcount_simps(1))
  then show ?thesis using assms by (auto simp: destroy_key_def good_iff)
qed

lemma destroy_value_good:
  assumes "good h (X + {#RVal v#})"
  shows "\<exists>h'. destroy_value v h = Some h' \<and> good h' X \<and> look h' = look h"
proof -
  have "hvalues h v = count (edges h + (X + {#RVal v#})) (RVal v)" using assms unfolding good_def by (metis refcount_simps(2))
  then show ?thesis using assms by (auto simp: destroy_value_def good_iff)
qed

lemma refcount_put: "refcount (put a n h) x = (if x = RNode a then nrefs n else refcount h x)"
  by (simp add: refcount_def split: res.splits)

lemma ranked_put: "ranked h \<Longrightarrow> look h a = Some n \<Longrightarrow> 0 < nrefs n \<Longrightarrow> ranked (put a (n\<lparr>nrefs := i\<rparr>) h)"
  unfolding ranked_def by (auto split: if_splits)

lemma keeps_put: "look h a = Some n \<Longrightarrow> 0 < nrefs n \<Longrightarrow> 0 < i \<Longrightarrow> keeps h X (put a (n\<lparr>nrefs := i\<rparr>) h)"
  by (auto simp: keeps_def)

lemma ref_node_good:
  assumes "good h X" "reachp h X p"
  shows "\<exists>h'. ref_node p h = Some h' \<and> good h' (X + pres p) \<and> keeps h X h'"
proof (cases p)
  case None
  then show ?thesis using assms by (simp add: ref_node_def)
next
  case (Some a)
  then obtain n where n: "look h a = Some n" "0 < nrefs n" using reach_live assms unfolding reachp_def by blast
  have "nrefs n = count (edges h + X) (RNode a)" using assms(1) n(1) unfolding good_iff by (auto simp: refcount_def split: option.splits)
  then have "good (put a (n\<lparr>nrefs := Suc (nrefs n)\<rparr>) h) (X + pres p)"
    using assms(1) n edges_put_same [OF n] ranked_put [OF _ n] Some unfolding good_def by (simp add: refcount_put)
  then show ?thesis using n Some keeps_put [OF n] by (simp add: ref_node_def)
qed

definition live :: "('k, 'v) heap \<Rightarrow> nat set" where
  "live h = {a. \<exists>n. look h a = Some n \<and> 0 < nrefs n}"

lemma finite_live [simp]: "finite (live h)"
  by (rule finite_subset [OF _ finite_dom [of h]]) (auto simp: live_def)

lemma live_free: "live (gpr_free a h) \<subseteq> live h"
  by (auto simp: live_def split: if_splits)

lemma live_look: "look h' = look h \<Longrightarrow> live h' = live h"
  by (simp add: live_def)

text \<open>Releasing the last reference to a node leaves it to its own destruction.\<close>

lemma good_release:
  assumes "good h (X + {#RNode a#})" "look h a = Some n" "nrefs n = 1"
  shows "good (put a (n\<lparr>nrefs := 0\<rparr>) h) (X + pres (nleft n) + pres (nright n) + {#RVal (nvalue n)#} + {#RKey (nkey n)#})"
proof -
  let ?h = "put a (n\<lparr>nrefs := 0\<rparr>) h"
  let ?o = "{#RKey (nkey n), RVal (nvalue n)#} + pres (nleft n) + pres (nright n)"
  have e: "edges ?h + ?o = edges h" using edges_put [of a "n\<lparr>nrefs := 0\<rparr>" h] assms(2,3) by (simp add: ac_simps)
  have "refcount ?h x = count (edges ?h + (X + ?o)) x" for x
  proof -
    have r: "refcount h x = count (edges h + (X + {#RNode a#})) x" using assms(1) by (simp add: good_def)
    have "count (edges ?h + (X + ?o)) x = count (edges h + X) x" unfolding e [symmetric] by (simp add: ac_simps)
    moreover have "refcount h (RNode a) = 1" using assms(2,3) by (simp add: refcount_def)
    ultimately show ?thesis using r by (auto simp: refcount_put split: if_splits)
  qed
  moreover have "ranked ?h" using assms ranked_put unfolding good_def by fastforce
  ultimately show ?thesis unfolding good_def by (simp add: ac_simps)
qed

lemma good_free:
  assumes "good h X" "look h a = Some n" "nrefs n = 0"
  shows "good (gpr_free a h) X"
proof -
  have "edges (gpr_free a h) = edges h" using edges_free [of a h] assms(2,3) by simp
  moreover have "refcount (gpr_free a h) x = refcount h x" for x
    using assms(2,3) by (cases x) (simp_all add: refcount_def)
  moreover have "ranked (gpr_free a h)" using assms(1) unfolding good_def ranked_def by (auto split: if_splits)
  ultimately show ?thesis using assms(1) by (simp add: good_def)
qed

lemma not_reach_zombie: "good h X \<Longrightarrow> look h a = Some n \<Longrightarrow> nrefs n = 0 \<Longrightarrow> \<not> reach h X a"
  using reach_live by fastforce

lemma unref_node_good:
  assumes "good h (X + pres p)"
  shows "\<exists>h'. unref_node p h = Some h' \<and> good h' X \<and> keeps h X h' \<and> live h' \<subseteq> live h"
  using assms
proof (induction "card (live h)" arbitrary: h X p rule: less_induct)
  case less
  show ?case
  proof (cases p)
    case None
    then show ?thesis using less.prems by (subst unref_node.simps) simp
  next
    case (Some a)
    have rc: "refcount h x = count (edges h + (X + {#RNode a#})) x" for x using less.prems Some by (simp add: good_def)
    then have "0 < refcount h (RNode a)" by simp
    then obtain n where n: "look h a = Some n" "0 < nrefs n" by (auto simp: refcount_def split: option.splits)
    show ?thesis
    proof (cases "nrefs n = 1")
      case False
      then have i: "0 < nrefs n - 1" using n(2) by simp
      have "refcount h (RNode a) = nrefs n" using n(1) by (simp add: refcount_def)
      then have "good (put a (n\<lparr>nrefs := nrefs n - 1\<rparr>) h) X"
        using less.prems edges_put_same [OF n i] ranked_put [OF _ n] rc [of "RNode a"] Some
        unfolding good_def by (auto simp: refcount_put split: if_splits)
      moreover have "live (put a (n\<lparr>nrefs := nrefs n - 1\<rparr>) h) \<subseteq> live h" using n by (auto simp: live_def)
      ultimately show ?thesis
        using n False Some keeps_put [OF n i] by (subst unref_node.simps) simp
    next
      case True
      let ?n = "n\<lparr>nrefs := 0\<rparr>" let ?h1 = "put a ?n h"
      have g1: "good ?h1 (X + pres (nleft n) + pres (nright n) + {#RVal (nvalue n)#} + {#RKey (nkey n)#})"
        using good_release less.prems n(1) True Some by simp
      obtain h2 where h2: "destroy_key (nkey n) ?h1 = Some h2" "good h2 (X + pres (nleft n) + pres (nright n) + {#RVal (nvalue n)#})"
        "look h2 = look ?h1"
        using destroy_key_good [OF g1] by blast
      obtain h3 where h3: "destroy_value (nvalue n) h2 = Some h3" "good h3 (X + pres (nright n) + pres (nleft n))" "look h3 = look ?h1"
        using destroy_value_good [OF h2(2)] h2(3) by (auto simp: ac_simps)
      have l3: "live h3 \<subset> live h" using n h3(3) by (auto simp: live_def split: if_splits)
      then have c3: "card (live h3) < card (live h)" by (simp add: psubset_card_mono)
      obtain h4 where h4: "unref_node (nleft n) h3 = Some h4" "good h4 (X + pres (nright n))" "keeps h3 (X + pres (nright n)) h4"
        "live h4 \<subseteq> live h3"
        using less.hyps [OF c3 h3(2)] by blast
      have c4: "card (live h4) < card (live h)" using c3 card_mono [OF _ h4(4)] by simp
      obtain h5 where h5: "unref_node (nright n) h4 = Some h5" "good h5 X" "keeps h4 X h5" "live h5 \<subseteq> live h4"
        using less.hyps [OF c4 h4(2)] by blast
      have k35: "keeps h3 X h5" using keeps_trans [OF keeps_mono [OF h4(3)] h5(3)] by simp
      have l: "look h3 a = Some ?n" "look h4 a = Some ?n" "look h5 a = Some ?n"
        using h3(3) h4(3) k35 unfolding keeps_def by simp_all
      have eq: "unref_node p h = Some (gpr_free a h5)"
        using Some n True h2 h3(1) h4(1) h5(1) l h3(3) by (subst unref_node.simps) simp
      have "keeps h X (gpr_free a h5)"
        unfolding keeps_def
      proof (intro conjI allI impI)
        fix b m assume b: "reach h X b" "look h b = Some m"
        have "reach h3 X b" using b(1)
        proof (induction rule: reach.induct)
          case (left c m' d)
          then show ?case using h3(3) n(1) by (cases "c = a") (auto intro: reach.left)
        next
          case (right c m' d)
          then show ?case using h3(3) n(1) by (cases "c = a") (auto intro: reach.right)
        qed (rule reach.base)
        moreover obtain m3 where m3: "look h3 b = Some m3" "same m m3" using b(2) n(1) h3(3) by (cases "b = a") auto
        ultimately obtain m5 where m5: "look h5 b = Some m5" "same m3 m5" and r5: "reach h5 X b"
          using k35 keeps_reach unfolding keeps_def by blast
        then have "b \<noteq> a" using not_reach_zombie [OF h5(2) l(3)] by auto
        then show "\<exists>m'. look (gpr_free a h5) b = Some m' \<and> same m m'" using m5 m3(2) same_trans by auto
      next
        fix b and m :: "('a, 'b) avl_node" assume "nrefs m = 0"
        then show "(look (gpr_free a h5) b = Some m) = (look h b = Some m)"
          using k35 h3(3) n True unfolding keeps_def by auto
      qed
      moreover have "live (gpr_free a h5) \<subseteq> live h" using h5(4) h4(4) l3 live_free [of a h5] by blast
      ultimately show ?thesis using eq good_free [OF h5(2) l(3)] by simp
    qed
  qed
qed

end
