(* ===== verification/Avl_rotate.thy ===== *)
theory Avl_rotate
  imports Avl_memory
begin


text \<open>
  New nodes and rotations of the AVL maps build the trees of the specification, consume the
  references and the copies that they are given, and keep all else.
\<close>

section \<open>Heights and new nodes\<close>

lemma node_height_tree: "tree h p t \<Longrightarrow> node_height p h = Some (ht t)"
  by (cases t) (auto simp: node_height_def)

lemma calculate_height_tree: "tree h p t \<Longrightarrow> calculate_height p h = Some (true_height t)"
proof (induction t arbitrary: p)
  case (Bin k v l r i)
  then show ?case by (subst calculate_height.simps) auto
qed (simp add: calculate_height.simps)

lemma assert_invariants_tree: "tree h p t \<Longrightarrow> balanced t \<Longrightarrow> assert_invariants p h = Some p"
proof (induction t arbitrary: p)
  case (Bin k v l r i)
  then obtain a n where a: "p = Some a" "look h a = Some n" "nheight n = i" "tree h (nleft n) l" "tree h (nright n) r" by auto
  have "calculate_height (Some a) h = Some i"
    using calculate_height_tree [OF Bin.prems(1)] balanced_true_height [OF Bin.prems(2)] a(1) by simp
  then show ?case
    using Bin.IH(1) [OF a(4)] Bin.IH(2) [OF a(5)] Bin.prems(2) a node_height_tree [OF a(4)] node_height_tree [OF a(5)]
    by (subst assert_invariants.simps) simp
qed (simp add: assert_invariants.simps)

text \<open>Operations that release nothing keep every tree.\<close>

definition ext :: "('k, 'v) heap \<Rightarrow> ('k, 'v) heap \<Rightarrow> bool" where
  "ext h h' \<longleftrightarrow> (\<forall>Y. keeps h Y h')"

lemma ext_refl [simp]: "ext h h"
  by (simp add: ext_def)

lemma ext_trans: "ext h h' \<Longrightarrow> ext h' h'' \<Longrightarrow> ext h h''"
  unfolding ext_def using keeps_trans by blast

lemma ext_keeps: "ext h h' \<Longrightarrow> keeps h X h'"
  by (simp add: ext_def)

lemma pres_reachp: "pres p \<subseteq># X \<Longrightarrow> reachp h X p"
  by (cases p) (auto simp: reachp_def intro: reach.base)

text \<open>Rearranging references.\<close>

lemma good_eq: "good h X \<Longrightarrow> X = Y \<Longrightarrow> good h Y"
  by simp

lemma ext_tree: "tree h p t \<Longrightarrow> ext h h' \<Longrightarrow> tree h' p t"
  by (rule tree_keeps [OF _ ext_keeps pres_reachp [OF subset_mset.order_refl]])

lemma ext_look: "look h a = Some n \<Longrightarrow> ext h h' \<Longrightarrow> \<exists>n'. look h' a = Some n' \<and> same n n'"
  using reach.base [of a "{#RNode a#}" h] unfolding ext_def keeps_def by (metis union_single_eq_member add_mset_add_single empty_neutral(1))

lemma ref_node_ext:
  assumes "good h X" "reachp h X p"
  obtains h' where "ref_node p h = Some h'" "good h' (X + pres p)" "ext h h'"
proof (cases p)
  case None
  then show ?thesis using assms that [of h] by (simp add: ref_node_def)
next
  case (Some a)
  then obtain n where n: "look h a = Some n" "0 < nrefs n" using reach_live assms unfolding reachp_def by blast
  obtain h' where h': "ref_node p h = Some h'" "good h' (X + pres p)" using ref_node_good [OF assms] by blast
  moreover have "h' = put a (n\<lparr>nrefs := Suc (nrefs n)\<rparr>) h" using h'(1) n Some by (simp add: ref_node_def)
  then have "ext h h'" using keeps_put [OF n] by (simp add: ext_def)
  ultimately show ?thesis using that by blast
qed

lemma copy_both:
  assumes "good h X" "look h a = Some n" "reach h X a"
  obtains h1 h2 where "copy_key (nkey n) h = Some h1" "copy_value (nvalue n) h1 = Some h2"
    "good h2 (X + {#RKey (nkey n), RVal (nvalue n)#})" "ext h h2" "look h1 = look h" "look h2 = look h"
proof -
  have "0 < nrefs n" using reach_live [OF assms(3,1)] assms(2) by simp
  note l = key_live [OF assms(1,2) this]
  obtain h1 where h1: "copy_key (nkey n) h = Some h1" "good h1 (X + {#RKey (nkey n)#})" "look h1 = look h" "\<And>Y. keeps h Y h1"
    using copy_key_good [OF assms(1) l(1)] keeps_look by metis
  have "hvalues h1 = hvalues h" using h1(1) by (auto simp: copy_key_def split: if_splits)
  then obtain h2 where h2: "copy_value (nvalue n) h1 = Some h2" "good h2 (X + {#RKey (nkey n)#} + {#RVal (nvalue n)#})"
    "look h2 = look h1" "\<And>Y. keeps h1 Y h2"
    using copy_value_good [OF h1(2), of "nvalue n"] l(2) keeps_look by metis
  have "good h2 (X + {#RKey (nkey n), RVal (nvalue n)#})" using h2(2) by (rule good_eq) (simp add: multiset_eq_iff)
  then show ?thesis using that [OF h1(1) h2(1)] h2 h1 keeps_look [of h2 h] by (simp add: ext_def)
qed

definition fresh_malloc :: "'k avl_env \<Rightarrow> bool" where
  "fresh_malloc env \<longleftrightarrow> (\<forall>as. gpr_malloc env as \<notin> set as)"

lemma new_node_good:
  assumes "fresh_malloc env" "good h (X + {#RKey k, RVal v#} + pres l + pres r)"
    "tree h l s" "tree h r t" "balanced s" "balanced t"
  obtains a h' where "new_node env k v l r h = Some (Some a, h')" "good h' (X + {#RNode a#})" "ext h h'"
    "tree h' (Some a) (bin k v s t)"
proof -
  define a where "a = gpr_malloc env (map fst (hnodes h))"
  have "a \<notin> set (map fst (hnodes h))" using assms(1) unfolding fresh_malloc_def a_def by blast
  then have a: "look h a = None" by (simp add: look_def map_of_eq_None_iff)
  let ?n = "\<lparr>nrefs = 1, nkey = k, nvalue = v, nleft = l, nright = r, nheight = 1 + max (ht s) (ht t)\<rparr>"
  let ?h = "put a ?n h" let ?o = "{#RKey k, RVal v#} + pres l + pres r"
  have e: "new_node env k v l r h = Some (Some a, ?h)"
    unfolding new_node_def a_def [symmetric]
    using assert_invariants_tree [OF assms(3,5)] assert_invariants_tree [OF assms(4,6)]
      node_height_tree [OF assms(3)] node_height_tree [OF assms(4)] by simp
  have ed: "edges ?h = edges h + ?o" using edges_put [of a ?n h] a by (simp add: ac_simps)
  have rc: "refcount h x = count (edges h + (X + ?o)) x" for x using assms(2) by (simp add: good_def ac_simps)
  have "refcount ?h x = count (edges ?h + (X + {#RNode a#})) x" for x
  proof -
    have "count (edges ?h + (X + {#RNode a#})) x = refcount h x + count {#RNode a#} x"
      unfolding ed using rc [of x] by simp
    moreover have "refcount h (RNode a) = 0" using a by (simp add: refcount_def)
    ultimately show ?thesis by (auto simp: refcount_put)
  qed
  moreover have "ranked ?h"
    unfolding ranked_def
  proof (intro allI impI)
    fix b n c m assume b: "look ?h b = Some n" "0 < nrefs n" "nleft n = Some c \<or> nright n = Some c" "look ?h c = Some m"
    show "nheight m < nheight n"
    proof (cases "b = a")
      case True
      have n: "n = ?n" using b(1) True by simp
      have lk: "c \<noteq> a" using n b(3) assms(3,4) a by (cases s; cases t) auto
      then have "node_height (Some c) h = Some (nheight m)" using b(4) by (simp add: node_height_def)
      moreover have "node_height (Some c) h = Some (ht s) \<or> node_height (Some c) h = Some (ht t)"
        using b(3) n node_height_tree [OF assms(3)] node_height_tree [OF assms(4)] by auto
      ultimately show ?thesis using n by auto
    next
      case False
      then have lb: "look h b = Some n" using b(1) by simp
      obtain m' where "look h c = Some m'" using live_edge [OF assms(2) lb b(2,3)] by blast
      then have "c \<noteq> a" using a by auto
      then show ?thesis using lb b(2-4) assms(2) unfolding good_def ranked_def by auto
    qed
  qed
  ultimately have "good ?h (X + {#RNode a#})" by (simp add: good_def)
  moreover have x: "ext h ?h" using a by (auto simp: ext_def keeps_def)
  moreover have "tree ?h (Some a) (bin k v s t)" using ext_tree [OF assms(3) x] ext_tree [OF assms(4) x] by (simp add: bin_def)
  ultimately show ?thesis using that e by blast
qed

section \<open>Rotations in memory\<close>

text \<open>The steps of a rotation, which starts in the heap \<open>h0\<close> and owns \<open>Z\<close>.\<close>

lemma step_copy:
  assumes "good h Z" "ext h0 h" "look h0 a = Some n" "reach h0 W a" "W \<subseteq># Z"
  obtains h1 h2 where "copy_key (nkey n) h = Some h1" "copy_value (nvalue n) h1 = Some h2"
    "good h2 (Z + {#RKey (nkey n), RVal (nvalue n)#})" "ext h0 h2" "ext h h2"
proof -
  obtain n' where n': "look h a = Some n'" "same n n'" using ext_look assms(2,3) by blast
  have "reach h Z a" using keeps_reach [OF assms(4) ext_keeps [OF assms(2)]] by (rule reach_mono) (rule assms(5))
  then obtain h1 h2 where "copy_key (nkey n') h = Some h1" "copy_value (nvalue n') h1 = Some h2"
    "good h2 (Z + {#RKey (nkey n'), RVal (nvalue n')#})" "ext h h2"
    by (rule copy_both [OF assms(1) n'(1)])
  then show ?thesis using that n'(2) ext_trans [OF assms(2)] by (simp add: same_def)
qed

lemma step_ref:
  assumes "good h Z" "ext h0 h" "reachp h0 W p" "W \<subseteq># Z"
  obtains h' where "ref_node p h = Some h'" "good h' (Z + pres p)" "ext h0 h'" "ext h h'"
proof -
  have "reachp h Z p" using keeps_reachp [OF assms(3) ext_keeps [OF assms(2)]] by (rule reachp_mono) (rule assms(4))
  then obtain h' where "ref_node p h = Some h'" "good h' (Z + pres p)" "ext h h'" by (rule ref_node_ext [OF assms(1)])
  then show ?thesis using that ext_trans [OF assms(2)] by blast
qed

lemma step_new:
  assumes "fresh_malloc env" "good h Z" "ext h0 h" "tree h l s" "tree h r t" "balanced s" "balanced t"
    "Z = X + {#RKey k, RVal v#} + pres l + pres r"
  obtains a h' where "new_node env k v l r h = Some (Some a, h')" "good h' (X + {#RNode a#})" "ext h0 h'" "ext h h'"
    "tree h' (Some a) (bin k v s t)"
proof -
  obtain a h' where "new_node env k v l r h = Some (Some a, h')" "good h' (X + {#RNode a#})" "ext h h'" "tree h' (Some a) (bin k v s t)"
    by (rule new_node_good [OF assms(1) assms(2) [unfolded assms(8)] assms(4-7)])
  then show ?thesis using that ext_trans [OF assms(3)] by blast
qed

lemma step_look:
  assumes "look h0 a = Some n" "ext h0 h"
  obtains n' where "look h a = Some n'" "nkey n' = nkey n" "nvalue n' = nvalue n" "nleft n' = nleft n" "nright n' = nright n"
  using ext_look [OF assms] unfolding same_def by blast

text \<open>The release of the old node at the end.\<close>

lemma step_unref:
  assumes "good h Z" "ext h0 h" "tree h (Some c) t" "Z = X + pres p + {#RNode c#}"
  obtains h' where "unref_node p h = Some h'" "good h' (X + pres (Some c))" "keeps h0 X h'" "tree h' (Some c) t"
proof -
  have "good h (X + {#RNode c#} + pres p)" using assms(1) unfolding assms(4) by (rule good_eq) (simp add: add_mset_commute ac_simps)
  then obtain h' where h': "unref_node p h = Some h'" "good h' (X + {#RNode c#})" "keeps h (X + {#RNode c#}) h'"
    using unref_node_good by blast
  have "reachp h (X + {#RNode c#}) (Some c)" by (rule pres_reachp) simp
  then have "tree h' (Some c) t" using tree_keeps [OF assms(3) h'(3)] by blast
  moreover have "keeps h0 X h'" using keeps_trans [OF ext_keeps [OF assms(2)] keeps_mono [OF h'(3)]] by simp
  ultimately show ?thesis using that h' by simp
qed

lemma tree_look:
  fixes h :: "('k, 'v) heap"
  assumes "tree h p (Bin k v l r i)"
  obtains a n where "p = Some a" "look h a = Some n" "nkey n = k" "nvalue n = v" "tree h (nleft n) l" "tree h (nright n) r"
    "\<And>W. pres p \<subseteq># W \<Longrightarrow> reach h W a" "\<And>W. pres p \<subseteq># W \<Longrightarrow> reachp h W (nleft n)" "\<And>W. pres p \<subseteq># W \<Longrightarrow> reachp h W (nright n)"
proof -
  obtain a n where n: "p = Some a" "look h a = Some n" "nkey n = k" "nvalue n = v" "tree h (nleft n) l" "tree h (nright n) r"
    using assms by auto
  have r: "reach h W a" if "pres p \<subseteq># W" for W :: "('k, 'v) res multiset" using that n(1) by (simp add: reach.base)
  show ?thesis using that [OF n] r reach.left [OF r n(2)] reach.right [OF r n(2)] by (auto simp: reachp_def)
qed

lemma rotate_left_good:
  assumes "fresh_malloc env" "good h (X + {#RKey k, RVal v#} + pres left + pres right)"
    "tree h left s" "tree h right (Bin rk rv rl rr i)" "balanced s" "balanced rl" "balanced rr" "balanced (bin k v s rl)"
  obtains p h' where "rotate_left env k v left right h = Some (p, h')" "good h' (X + pres p)" "keeps h X h'"
    "tree h' p (bin rk rv (bin k v s rl) rr)"
proof -
  let ?X = "X + {#RKey k, RVal v#} + pres left + pres right" let ?K = "{#RKey rk, RVal rv#}"
  obtain a n where n: "right = Some a" "look h a = Some n" "nkey n = rk" "nvalue n = rv" "tree h (nleft n) rl" "tree h (nright n) rr"
    and r: "reach h (pres right) a" "reachp h (pres right) (nleft n)" "reachp h (pres right) (nright n)"
    using tree_look [OF assms(4)] by (metis subset_mset.order_refl)
  obtain h1 h2 where h2: "copy_key rk h = Some h1" "copy_value rv h1 = Some h2" "good h2 (?X + ?K)" "ext h h2"
    using step_copy [OF assms(2) ext_refl n(2) r(1)] unfolding n(3,4) by auto
  obtain h3 where h3: "ref_node (nleft n) h2 = Some h3" "good h3 (?X + ?K + pres (nleft n))" "ext h h3"
    using step_ref [OF h2(3,4) r(2)] by auto
  obtain c h4 where h4: "new_node env k v left (nleft n) h3 = Some (Some c, h4)"
    "good h4 ((X + pres right + ?K) + {#RNode c#})" "ext h h4" "tree h4 (Some c) (bin k v s rl)"
    by (rule step_new [where X = "X + pres right + ?K", OF assms(1) h3(2,3) ext_tree [OF assms(3) h3(3)] ext_tree [OF n(5) h3(3)] assms(5,6)])
      (simp add: add_mset_commute ac_simps)
  obtain n' where n': "look h4 a = Some n'" "nright n' = nright n" using step_look [OF n(2) h4(3)] by blast
  obtain h5 where h5: "ref_node (nright n) h4 = Some h5" "good h5 ((X + pres right + ?K) + {#RNode c#} + pres (nright n))" "ext h h5" "ext h4 h5"
    by (rule step_ref [OF h4(2,3) r(3)]) auto
  obtain d h6 where h6: "new_node env rk rv (Some c) (nright n) h5 = Some (Some d, h6)"
    "good h6 (X + pres right + {#RNode d#})" "ext h h6" "tree h6 (Some d) (bin rk rv (bin k v s rl) rr)"
    by (rule step_new [where X = "X + pres right", OF assms(1) h5(2,3) ext_tree [OF h4(4) h5(4)] ext_tree [OF n(6) h5(3)] assms(8,7)])
      (simp add: add_mset_commute ac_simps)
  obtain h7 where h7: "unref_node right h6 = Some h7" "good h7 (X + pres (Some d))" "keeps h X h7" "tree h7 (Some d) (bin rk rv (bin k v s rl) rr)"
    by (rule step_unref [OF h6(2,3,4) refl])
  have "rotate_left env k v left right h = Some (Some d, h7)"
    using n(1-4) h2(1,2) h3(1) h4(1) n' h5(1) h6(1) h7(1) by (simp add: rotate_left_def deref_def)
  then show ?thesis using that h7 by blast
qed


lemma rotate_right_good:
  assumes "fresh_malloc env" "good h (X + {#RKey k, RVal v#} + pres left + pres right)"
    "tree h right s" "tree h left (Bin lk lv ll lr i)" "balanced s" "balanced ll" "balanced lr" "balanced (bin k v lr s)"
  obtains p h' where "rotate_right env k v left right h = Some (p, h')" "good h' (X + pres p)" "keeps h X h'"
    "tree h' p (bin lk lv ll (bin k v lr s))"
proof -
  let ?X = "X + {#RKey k, RVal v#} + pres left + pres right" let ?K = "{#RKey lk, RVal lv#}"
  obtain a n where n: "left = Some a" "look h a = Some n" "nkey n = lk" "nvalue n = lv" "tree h (nleft n) ll" "tree h (nright n) lr"
    and r: "reach h (pres left) a" "reachp h (pres left) (nleft n)" "reachp h (pres left) (nright n)"
    using tree_look [OF assms(4)] by (metis subset_mset.order_refl)
  obtain h1 h2 where h2: "copy_key lk h = Some h1" "copy_value lv h1 = Some h2" "good h2 (?X + ?K)" "ext h h2"
    using step_copy [OF assms(2) ext_refl n(2) r(1)] unfolding n(3,4) by auto
  obtain h3 where h3: "ref_node (nleft n) h2 = Some h3" "good h3 (?X + ?K + pres (nleft n))" "ext h h3"
    using step_ref [OF h2(3,4) r(2)] by auto
  obtain n' where n': "look h3 a = Some n'" "nright n' = nright n" using step_look [OF n(2) h3(3)] by blast
  obtain h4 where h4: "ref_node (nright n) h3 = Some h4" "good h4 (?X + ?K + pres (nleft n) + pres (nright n))" "ext h h4"
    by (rule step_ref [OF h3(2,3) r(3)]) auto
  obtain c h5 where h5: "new_node env k v (nright n) right h4 = Some (Some c, h5)"
    "good h5 ((X + pres left + ?K + pres (nleft n)) + {#RNode c#})" "ext h h5" "tree h5 (Some c) (bin k v lr s)"
    by (rule step_new [where X = "X + pres left + ?K + pres (nleft n)",
          OF assms(1) h4(2,3) ext_tree [OF n(6) h4(3)] ext_tree [OF assms(3) h4(3)] assms(7,5)])
      (simp add: add_mset_commute ac_simps)
  obtain d h6 where h6: "new_node env lk lv (nleft n) (Some c) h5 = Some (Some d, h6)"
    "good h6 (X + pres left + {#RNode d#})" "ext h h6" "tree h6 (Some d) (bin lk lv ll (bin k v lr s))"
    by (rule step_new [where X = "X + pres left", OF assms(1) h5(2,3) ext_tree [OF n(5) h5(3)] h5(4) assms(6,8)])
      (simp add: add_mset_commute ac_simps)
  obtain h7 where h7: "unref_node left h6 = Some h7" "good h7 (X + pres (Some d))" "keeps h X h7" "tree h7 (Some d) (bin lk lv ll (bin k v lr s))"
    by (rule step_unref [OF h6(2,3,4) refl])
  have "rotate_right env k v left right h = Some (Some d, h7)"
    using n(1-4) h2(1,2) h3(1) h4(1) n' h5(1) h6(1) h7(1) by (simp add: rotate_right_def deref_def)
  then show ?thesis using that h7 by blast
qed

lemma rotate_left_right_good:
  assumes "fresh_malloc env" "good h (X + {#RKey k, RVal v#} + pres left + pres right)"
    "tree h right s" "tree h left (Bin lk lv ll (Bin mk mv x y j) i)" "balanced s" "balanced ll" "balanced x" "balanced y"
    "balanced (bin lk lv ll x)" "balanced (bin k v y s)"
  obtains p h' where "rotate_left_right env k v left right h = Some (p, h')" "good h' (X + pres p)" "keeps h X h'"
    "tree h' p (bin mk mv (bin lk lv ll x) (bin k v y s))"
proof -
  let ?X = "X + {#RKey k, RVal v#} + pres left + pres right" let ?K = "{#RKey lk, RVal lv#}" let ?M = "{#RKey mk, RVal mv#}"
  let ?t = "bin mk mv (bin lk lv ll x) (bin k v y s)"
  obtain a n where n: "left = Some a" "look h a = Some n" "nkey n = lk" "nvalue n = lv" "tree h (nleft n) ll" "tree h (nright n) (Bin mk mv x y j)"
    and r: "reach h (pres left) a" "reachp h (pres left) (nleft n)" "reachp h (pres left) (nright n)"
    using tree_look [OF assms(4)] by (metis subset_mset.order_refl)
  obtain b m where m: "nright n = Some b" "look h b = Some m" "nkey m = mk" "nvalue m = mv" "tree h (nleft m) x" "tree h (nright m) y"
    using n(6) by auto
  have rb: "reach h (pres left) b" using r(3) m(1) by (simp add: reachp_def)
  have rm: "reachp h (pres left) (nleft m)" "reachp h (pres left) (nright m)"
    using reach.left [OF rb m(2)] reach.right [OF rb m(2)] by (simp_all add: reachp_def)
  obtain h1 h2 where h2: "copy_key mk h = Some h1" "copy_value mv h1 = Some h2" "good h2 (?X + ?M)" "ext h h2"
    using step_copy [OF assms(2) ext_refl m(2) rb] unfolding m(3,4) by auto
  obtain h3 h4 where h4: "copy_key lk h2 = Some h3" "copy_value lv h3 = Some h4" "good h4 (?X + ?M + ?K)" "ext h h4"
    by (rule step_copy [OF h2(3,4) n(2) r(1), unfolded n(3,4)]) auto
  obtain h5 where h5: "ref_node (nleft n) h4 = Some h5" "good h5 (?X + ?M + ?K + pres (nleft n))" "ext h h5"
    by (rule step_ref [OF h4(3,4) r(2)]) auto
  obtain m5 where m5: "look h5 b = Some m5" "nleft m5 = nleft m" using step_look [OF m(2) h5(3)] by blast
  obtain h6 where h6: "ref_node (nleft m) h5 = Some h6" "good h6 (?X + ?M + ?K + pres (nleft n) + pres (nleft m))" "ext h h6"
    by (rule step_ref [OF h5(2,3) rm(1)]) auto
  obtain c h7 where h7: "new_node env lk lv (nleft n) (nleft m) h6 = Some (Some c, h7)"
    "good h7 (?X + ?M + {#RNode c#})" "ext h h7" "tree h7 (Some c) (bin lk lv ll x)"
    by (rule step_new [where X = "?X + ?M", OF assms(1) h6(2,3) ext_tree [OF n(5) h6(3)] ext_tree [OF m(5) h6(3)] assms(6,7)])
      (simp add: add_mset_commute ac_simps)
  obtain n7 where n7: "look h7 a = Some n7" "nright n7 = nright n" using step_look [OF n(2) h7(3)] by blast
  obtain m7 where m7: "look h7 b = Some m7" "nright m7 = nright m" using step_look [OF m(2) h7(3)] by blast
  obtain h8 where h8: "ref_node (nright m) h7 = Some h8" "good h8 (?X + ?M + {#RNode c#} + pres (nright m))" "ext h h8" "ext h7 h8"
    by (rule step_ref [OF h7(2,3) rm(2)]) auto
  obtain d h9 where h9: "new_node env k v (nright m) right h8 = Some (Some d, h9)"
    "good h9 ((X + pres left + ?M + {#RNode c#}) + {#RNode d#})" "ext h h9" "ext h8 h9" "tree h9 (Some d) (bin k v y s)"
    by (rule step_new [where X = "X + pres left + ?M + {#RNode c#}",
          OF assms(1) h8(2,3) ext_tree [OF m(6) h8(3)] ext_tree [OF assms(3) h8(3)] assms(8,5)])
      (simp add: add_mset_commute ac_simps)
  obtain e h10 where h10: "new_node env mk mv (Some c) (Some d) h9 = Some (Some e, h10)"
    "good h10 (X + pres left + {#RNode e#})" "ext h h10" "tree h10 (Some e) ?t"
    by (rule step_new [where X = "X + pres left", OF assms(1) h9(2,3) ext_tree [OF ext_tree [OF h7(4) h8(4)] h9(4)] h9(5) assms(9,10)])
      (simp add: add_mset_commute ac_simps)
  obtain h11 where h11: "unref_node left h10 = Some h11" "good h11 (X + pres (Some e))" "keeps h X h11" "tree h11 (Some e) ?t"
    by (rule step_unref [OF h10(2,3,4) refl])
  have "rotate_left_right env k v left right h = Some (Some e, h11)"
    using n(1-4) m(1-4) h2(1,2) h4(1,2) h5(1) m5 h6(1) h7(1) n7 m7 h8(1) h9(1) h10(1) h11(1)
    by (simp add: rotate_left_right_def deref_def)
  then show ?thesis using that h11 by blast
qed

lemma rotate_right_left_good:
  assumes "fresh_malloc env" "good h (X + {#RKey k, RVal v#} + pres left + pres right)"
    "tree h left s" "tree h right (Bin rk rv (Bin mk mv x y j) rr i)" "balanced s" "balanced rr" "balanced x" "balanced y"
    "balanced (bin k v s x)" "balanced (bin rk rv y rr)"
  obtains p h' where "rotate_right_left env k v left right h = Some (p, h')" "good h' (X + pres p)" "keeps h X h'"
    "tree h' p (bin mk mv (bin k v s x) (bin rk rv y rr))"
proof -
  let ?X = "X + {#RKey k, RVal v#} + pres left + pres right" let ?K = "{#RKey rk, RVal rv#}" let ?M = "{#RKey mk, RVal mv#}"
  let ?t = "bin mk mv (bin k v s x) (bin rk rv y rr)"
  obtain a n where n: "right = Some a" "look h a = Some n" "nkey n = rk" "nvalue n = rv" "tree h (nleft n) (Bin mk mv x y j)" "tree h (nright n) rr"
    and r: "reach h (pres right) a" "reachp h (pres right) (nleft n)" "reachp h (pres right) (nright n)"
    using tree_look [OF assms(4)] by (metis subset_mset.order_refl)
  obtain b m where m: "nleft n = Some b" "look h b = Some m" "nkey m = mk" "nvalue m = mv" "tree h (nleft m) x" "tree h (nright m) y"
    using n(5) by auto
  have rb: "reach h (pres right) b" using r(2) m(1) by (simp add: reachp_def)
  have rm: "reachp h (pres right) (nleft m)" "reachp h (pres right) (nright m)"
    using reach.left [OF rb m(2)] reach.right [OF rb m(2)] by (simp_all add: reachp_def)
  obtain h1 h2 where h2: "copy_key mk h = Some h1" "copy_value mv h1 = Some h2" "good h2 (?X + ?M)" "ext h h2"
    using step_copy [OF assms(2) ext_refl m(2) rb] unfolding m(3,4) by auto
  obtain h3 where h3: "ref_node (nleft m) h2 = Some h3" "good h3 (?X + ?M + pres (nleft m))" "ext h h3"
    by (rule step_ref [OF h2(3,4) rm(1)]) auto
  obtain c h4 where h4: "new_node env k v left (nleft m) h3 = Some (Some c, h4)"
    "good h4 ((X + pres right + ?M) + {#RNode c#})" "ext h h4" "tree h4 (Some c) (bin k v s x)"
    by (rule step_new [where X = "X + pres right + ?M",
          OF assms(1) h3(2,3) ext_tree [OF assms(3) h3(3)] ext_tree [OF m(5) h3(3)] assms(5,7)])
      (simp add: add_mset_commute ac_simps)
  let ?Y = "X + pres right + ?M + {#RNode c#}"
  obtain n4 where n4: "look h4 a = Some n4" "nkey n4 = rk" "nvalue n4 = rv" "nleft n4 = nleft n" "nright n4 = nright n"
    using step_look [OF n(2) h4(3)] unfolding n(3,4) by blast
  obtain h5 h6 where h6: "copy_key rk h4 = Some h5" "copy_value rv h5 = Some h6" "good h6 (?Y + ?K)" "ext h h6" "ext h4 h6"
    by (rule step_copy [OF h4(2,3) n(2) r(1)]) (use n(3,4) in auto)
  obtain m6 where m6: "look h6 b = Some m6" "nright m6 = nright m" using step_look [OF m(2) h6(4)] by blast
  obtain h7 where h7: "ref_node (nright m) h6 = Some h7" "good h7 (?Y + ?K + pres (nright m))" "ext h h7" "ext h6 h7"
    by (rule step_ref [OF h6(3,4) rm(2)]) auto
  obtain h8 where h8: "ref_node (nright n) h7 = Some h8" "good h8 (?Y + ?K + pres (nright m) + pres (nright n))" "ext h h8" "ext h7 h8"
    by (rule step_ref [OF h7(2,3) r(3)]) auto
  obtain d h9 where h9: "new_node env rk rv (nright m) (nright n) h8 = Some (Some d, h9)"
    "good h9 (?Y + {#RNode d#})" "ext h h9" "ext h8 h9" "tree h9 (Some d) (bin rk rv y rr)"
    by (rule step_new [where X = ?Y, OF assms(1) h8(2,3) ext_tree [OF m(6) h8(3)] ext_tree [OF n(6) h8(3)] assms(8,6)])
      (simp add: add_mset_commute ac_simps)
  have tc: "tree h9 (Some c) (bin k v s x)"
    using ext_tree [OF h4(4) ext_trans [OF h6(5) ext_trans [OF h7(4) ext_trans [OF h8(4) h9(4)]]]] .
  obtain e h10 where h10: "new_node env mk mv (Some c) (Some d) h9 = Some (Some e, h10)"
    "good h10 (X + pres right + {#RNode e#})" "ext h h10" "tree h10 (Some e) ?t"
    by (rule step_new [where X = "X + pres right", OF assms(1) h9(2,3) tc h9(5) assms(9,10)])
      (simp add: add_mset_commute ac_simps)
  obtain h11 where h11: "unref_node right h10 = Some h11" "good h11 (X + pres (Some e))" "keeps h X h11" "tree h11 (Some e) ?t"
    by (rule step_unref [OF h10(2,3,4) refl])
  have "rotate_right_left env k v left right h = Some (Some e, h11)"
    using n(1-4) m(1-4) h2(1,2) h3(1) h4(1) n4 h6(1,2) m6 h7(1) h8(1) h9(1) h10(1) h11(1)
    by (simp add: rotate_right_left_def deref_def)
  then show ?thesis using that h11 by blast
qed

end
