(* ===== verification/Avl_maps.thy ===== *)
theory Avl_maps
  imports Avl_rotate
begin


text \<open>
  The operations of the AVL maps and the histories of their clients: a simulation of finite maps.
\<close>

section \<open>Rebalancing\<close>

lemma checked_tree: "tree h p t \<Longrightarrow> balanced t \<Longrightarrow> checked (Some (p, h)) = Some (p, h)"
  by (simp add: checked_def assert_invariants_tree)

lemma rebalance_good:
  assumes env: "fresh_malloc env" and g: "good h (X + {#RKey k, RVal v#} + pres left + pres right)"
    and l: "tree h left s" and r: "tree h right t" and near: "near s t"
  obtains p h' where "rebalance env k v left right h = Some (p, h')" "good h' (X + pres p)" "keeps h X h'"
    "tree h' p (t_rebalance k v s t)"
proof -
  have bal: "balanced s" "balanced t" using near by (simp_all add: near_def)
  have res: "balanced (t_rebalance k v s t)" using rebalance_cases [OF near] by blast
  have hh: "node_height left h = Some (ht s)" "node_height right h = Some (ht t)" using node_height_tree l r by blast+
  consider "ht s - ht t = 2" | "ht s - ht t = -2" | "\<bar>ht s - ht t\<bar> \<le> 1" using near unfolding near_def by linarith
  then show ?thesis
  proof cases
    case 1
    obtain lk lv ll lr where s: "s = Bin lk lv ll lr (ht s)" "balanced ll" "balanced lr" "ht s = 1 + max (ht ll) (ht lr)" "\<bar>ht ll - ht lr\<bar> \<le> 1"
      "ht ll - ht lr = -1 \<longrightarrow> (\<exists>k v a b. lr = Bin k v a b (ht lr) \<and> balanced a \<and> balanced b \<and> ht lr = 1 + max (ht a) (ht b) \<and> \<bar>ht a - ht b\<bar> \<le> 1)"
      by (rule tall_left [OF near 1])
    define i where "i = ht s"
    have si: "s = Bin lk lv ll lr i" unfolding i_def by (rule s(1))
    have ls: "tree h left (Bin lk lv ll lr i)" using l unfolding si .
    then obtain n where n: "deref h left = Some n" "tree h (nleft n) ll" "tree h (nright n) lr" by (auto simp: deref_def)
    show ?thesis
    proof (cases "ht ll - ht lr = -1")
      case True
      then obtain mk mv x y where m: "lr = Bin mk mv x y (ht lr)" "balanced x" "balanced y" "ht lr = 1 + max (ht x) (ht y)" "\<bar>ht x - ht y\<bar> \<le> 1"
        using s(6) by blast
      define j where "j = ht lr"
      have mj: "lr = Bin mk mv x y j" unfolding j_def by (rule m(1))
      have e: "t_rebalance k v s t = bin mk mv (bin lk lv ll x) (bin k v y t)"
        using 1 True by (subst t_rebalance.simps, subst s(1), subst m(1)) simp
      have b: "balanced (bin lk lv ll x)" "balanced (bin k v y t)" using res unfolding e by simp_all
      obtain p h' where q: "rotate_left_right env k v left right h = Some (p, h')" "good h' (X + pres p)" "keeps h X h'"
        "tree h' p (t_rebalance k v s t)"
        by (rule rotate_left_right_good [OF env g r ls [unfolded mj] bal(2) s(2) m(2,3) b]) (simp add: e)
      have "rebalance env k v left right h = checked (Some (p, h'))"
        using hh n(1) node_height_tree [OF n(2)] node_height_tree [OF n(3)] 1 True q(1) by (simp add: rebalance_def)
      then show ?thesis using that q checked_tree [OF q(4) res] by simp
    next
      case False
      have e: "t_rebalance k v s t = bin lk lv ll (bin k v lr t)" using 1 False by (subst t_rebalance.simps, subst s(1)) simp
      have b: "balanced (bin k v lr t)" using res unfolding e by simp
      obtain p h' where q: "rotate_right env k v left right h = Some (p, h')" "good h' (X + pres p)" "keeps h X h'"
        "tree h' p (t_rebalance k v s t)"
        by (rule rotate_right_good [OF env g r ls bal(2) s(2,3) b]) (simp add: e)
      have "rebalance env k v left right h = checked (Some (p, h'))"
        using hh n(1) node_height_tree [OF n(2)] node_height_tree [OF n(3)] 1 False q(1) by (simp add: rebalance_def)
      then show ?thesis using that q checked_tree [OF q(4) res] by simp
    qed
  next
    case 2
    obtain rk rv rl rr where t: "t = Bin rk rv rl rr (ht t)" "balanced rl" "balanced rr" "ht t = 1 + max (ht rl) (ht rr)" "\<bar>ht rl - ht rr\<bar> \<le> 1"
      "ht rl - ht rr = 1 \<longrightarrow> (\<exists>k v a b. rl = Bin k v a b (ht rl) \<and> balanced a \<and> balanced b \<and> ht rl = 1 + max (ht a) (ht b) \<and> \<bar>ht a - ht b\<bar> \<le> 1)"
      by (rule tall_right [OF near 2])
    define i where "i = ht t"
    have ti: "t = Bin rk rv rl rr i" unfolding i_def by (rule t(1))
    have rt: "tree h right (Bin rk rv rl rr i)" using r unfolding ti .
    then obtain n where n: "deref h right = Some n" "tree h (nleft n) rl" "tree h (nright n) rr" by (auto simp: deref_def)
    show ?thesis
    proof (cases "ht rl - ht rr = 1")
      case True
      then obtain mk mv x y where m: "rl = Bin mk mv x y (ht rl)" "balanced x" "balanced y" "ht rl = 1 + max (ht x) (ht y)" "\<bar>ht x - ht y\<bar> \<le> 1"
        using t(6) by blast
      define j where "j = ht rl"
      have mj: "rl = Bin mk mv x y j" unfolding j_def by (rule m(1))
      have e: "t_rebalance k v s t = bin mk mv (bin k v s x) (bin rk rv y rr)"
        using 2 True by (subst t_rebalance.simps, subst t(1), subst m(1)) simp
      have b: "balanced (bin k v s x)" "balanced (bin rk rv y rr)" using res unfolding e by simp_all
      obtain p h' where q: "rotate_right_left env k v left right h = Some (p, h')" "good h' (X + pres p)" "keeps h X h'"
        "tree h' p (t_rebalance k v s t)"
        by (rule rotate_right_left_good [OF env g l rt [unfolded mj] bal(1) t(3) m(2,3) b]) (simp add: e)
      have "rebalance env k v left right h = checked (Some (p, h'))"
        using hh n(1) node_height_tree [OF n(2)] node_height_tree [OF n(3)] 2 True q(1) by (simp add: rebalance_def)
      then show ?thesis using that q checked_tree [OF q(4) res] by simp
    next
      case False
      have e: "t_rebalance k v s t = bin rk rv (bin k v s rl) rr" using 2 False by (subst t_rebalance.simps, subst t(1)) simp
      have b: "balanced (bin k v s rl)" using res unfolding e by simp
      obtain p h' where q: "rotate_left env k v left right h = Some (p, h')" "good h' (X + pres p)" "keeps h X h'"
        "tree h' p (t_rebalance k v s t)"
        by (rule rotate_left_good [OF env g l rt bal(1) t(2,3) b]) (simp add: e)
      have "rebalance env k v left right h = checked (Some (p, h'))"
        using hh n(1) node_height_tree [OF n(2)] node_height_tree [OF n(3)] 2 False q(1) by (simp add: rebalance_def)
      then show ?thesis using that q checked_tree [OF q(4) res] by simp
    qed
  next
    case 3
    then have "ht s - ht t \<noteq> 2" "ht s - ht t \<noteq> -2" by linarith+
    then have e: "t_rebalance k v s t = bin k v s t" by (subst t_rebalance.simps) simp
    obtain a h' where q: "new_node env k v left right h = Some (Some a, h')" "good h' (X + {#RNode a#})" "ext h h'"
      "tree h' (Some a) (t_rebalance k v s t)"
      by (rule new_node_good [OF env g l r bal]) (simp add: e)
    have "rebalance env k v left right h = checked (Some (Some a, h'))"
      using hh \<open>ht s - ht t \<noteq> 2\<close> \<open>ht s - ht t \<noteq> -2\<close> q(1) by (simp add: rebalance_def)
    then show ?thesis using that [of "Some a" h'] q checked_tree [OF q(4) res] ext_keeps [OF q(3)] by simp
  qed
qed

section \<open>Lookup in memory\<close>

lemma get_tree: "tree h p t \<Longrightarrow> \<exists>q. get env p k h = Some q \<and>
    (case t_get (compare_keys env) k t of None \<Rightarrow> q = None | Some v \<Rightarrow> \<exists>a n. q = Some a \<and> look h a = Some n \<and> nvalue n = v)"
proof (induction t arbitrary: p)
  case (Bin k' v l r i)
  then obtain a n where a: "p = Some a" "look h a = Some n" "nkey n = k'" "nvalue n = v" "tree h (nleft n) l" "tree h (nright n) r"
    by auto
  show ?case
    using a Bin.IH(1) [OF a(5)] Bin.IH(2) [OF a(6)] by (subst get.simps) auto
qed (simp add: get.simps)

section \<open>Insertion\<close>

text \<open>A node is copied with a new left or right child; \<open>m\<close> gives the key and the value.\<close>

lemma rebuild_left:
  fixes f :: "('k, 'v) heap \<Rightarrow> (ptr \<times> ('k, 'v) heap) option"
  assumes env: "fresh_malloc env" and g: "good h (X + Y)" and a: "look h a = Some n" "reach h X a" "tree h (nright n) r"
    and b: "look h b = Some m" "reach h X b" and near: "near s r"
    and f: "\<And>h2. good h2 (X + {#RKey (nkey m), RVal (nvalue m)#} + Y) \<Longrightarrow> ext h h2 \<Longrightarrow>
      \<exists>l h3. f h2 = Some (l, h3) \<and> good h3 (X + {#RKey (nkey m), RVal (nvalue m)#} + pres l) \<and>
        keeps h2 (X + {#RKey (nkey m), RVal (nvalue m)#}) h3 \<and> tree h3 l s"
  shows "\<exists>p h'. do {
      h \<leftarrow> copy_key (nkey m) h;
      h \<leftarrow> copy_value (nvalue m) h;
      (l, h) \<leftarrow> f h;
      n' \<leftarrow> look h a;
      h \<leftarrow> ref_node (nright n') h;
      rebalance env (nkey m) (nvalue m) l (nright n') h
    } = Some (p, h') \<and> good h' (X + pres p) \<and> keeps h X h' \<and> tree h' p (t_rebalance (nkey m) (nvalue m) s r)"
proof -
  let ?K = "{#RKey (nkey m), RVal (nvalue m)#}"
  obtain h1 h2 where h2: "copy_key (nkey m) h = Some h1" "copy_value (nvalue m) h1 = Some h2" "good h2 (X + Y + ?K)" "ext h h2"
    by (rule step_copy [OF g ext_refl b]) simp
  have "good h2 (X + ?K + Y)" using h2(3) by (rule good_eq) (simp add: ac_simps)
  then obtain l h3 where h3: "f h2 = Some (l, h3)" "good h3 (X + ?K + pres l)" "keeps h2 (X + ?K) h3" "tree h3 l s"
    using f [OF _ h2(4)] by blast
  have k: "keeps h X h3" using keeps_trans [OF ext_keeps [OF h2(4)] keeps_mono [OF h3(3)]] by simp
  have rr: "reachp h X (nright n)" using reach.right [OF a(2,1)] by (simp add: reachp_def)
  obtain n' where n': "look h3 a = Some n'" "nright n' = nright n" using k a(1,2) unfolding keeps_def same_def by blast
  have t3: "tree h3 (nright n) r" by (rule tree_keeps [OF a(3) k rr])
  have r3: "reachp h3 (X + ?K + pres l) (nright n)" using keeps_reachp [OF rr k] by (rule reachp_mono) simp
  obtain h4 where h4: "ref_node (nright n) h3 = Some h4" "good h4 (X + ?K + pres l + pres (nright n))" "ext h3 h4"
    by (rule ref_node_ext [OF h3(2) r3])
  obtain p h5 where h5: "rebalance env (nkey m) (nvalue m) l (nright n) h4 = Some (p, h5)" "good h5 (X + pres p)" "keeps h4 X h5"
    "tree h5 p (t_rebalance (nkey m) (nvalue m) s r)"
    by (rule rebalance_good [OF env h4(2) ext_tree [OF h3(4) h4(3)] ext_tree [OF t3 h4(3)] near])
  have "keeps h X h5" by (rule keeps_trans [OF keeps_trans [OF k ext_keeps [OF h4(3)]] h5(3)])
  then show ?thesis using h2(1,2) h3(1) n' h4(1) h5 by simp
qed

lemma rebuild_right:
  fixes f :: "ptr \<Rightarrow> ('k, 'v) heap \<Rightarrow> (ptr \<times> ('k, 'v) heap) option"
  assumes env: "fresh_malloc env" and g: "good h (X + Y)" and a: "look h a = Some n" "reach h X a" "tree h (nleft n) l"
    and b: "look h b = Some m" "reach h X b" and near: "near l s"
    and f: "\<And>h2. good h2 (X + {#RKey (nkey m), RVal (nvalue m)#} + pres (nleft n) + Y) \<Longrightarrow> ext h h2 \<Longrightarrow>
      \<exists>r h3. f (nright n) h2 = Some (r, h3) \<and> good h3 (X + {#RKey (nkey m), RVal (nvalue m)#} + pres (nleft n) + pres r) \<and>
        keeps h2 (X + {#RKey (nkey m), RVal (nvalue m)#} + pres (nleft n)) h3 \<and> tree h3 r s"
  shows "\<exists>p h'. do {
      h \<leftarrow> copy_key (nkey m) h;
      h \<leftarrow> copy_value (nvalue m) h;
      h \<leftarrow> ref_node (nleft n) h;
      n' \<leftarrow> look h a;
      (r, h) \<leftarrow> f (nright n') h;
      rebalance env (nkey m) (nvalue m) (nleft n) r h
    } = Some (p, h') \<and> good h' (X + pres p) \<and> keeps h X h' \<and> tree h' p (t_rebalance (nkey m) (nvalue m) l s)"
proof -
  let ?K = "{#RKey (nkey m), RVal (nvalue m)#}"
  obtain h1 h2 where h2: "copy_key (nkey m) h = Some h1" "copy_value (nvalue m) h1 = Some h2" "good h2 (X + Y + ?K)" "ext h h2"
    by (rule step_copy [OF g ext_refl b]) simp
  have rl: "reachp h X (nleft n)" using reach.left [OF a(2,1)] by (simp add: reachp_def)
  obtain h3 where h3: "ref_node (nleft n) h2 = Some h3" "good h3 (X + Y + ?K + pres (nleft n))" "ext h h3"
    by (rule step_ref [OF h2(3,4) rl]) auto
  obtain n' where n': "look h3 a = Some n'" "nright n' = nright n" using step_look [OF a(1) h3(3)] by blast
  have "good h3 (X + ?K + pres (nleft n) + Y)" using h3(2) by (rule good_eq) (simp add: ac_simps)
  then obtain r h4 where h4: "f (nright n) h3 = Some (r, h4)" "good h4 (X + ?K + pres (nleft n) + pres r)"
    "keeps h3 (X + ?K + pres (nleft n)) h4" "tree h4 r s"
    using f [OF _ h3(3)] by blast
  have t4: "tree h4 (nleft n) l" by (rule tree_keeps [OF ext_tree [OF a(3) h3(3)] h4(3) pres_reachp]) simp
  obtain p h5 where h5: "rebalance env (nkey m) (nvalue m) (nleft n) r h4 = Some (p, h5)" "good h5 (X + pres p)" "keeps h4 X h5"
    "tree h5 p (t_rebalance (nkey m) (nvalue m) l s)"
    by (rule rebalance_good [OF env h4(2) t4 h4(4) near])
  have "X \<subseteq># X + ?K + pres (nleft n)" by (simp add: add.assoc)
  then have "keeps h X h5" using keeps_trans [OF keeps_trans [OF ext_keeps [OF h3(3)] keeps_mono [OF h4(3)]] h5(3)] by blast
  then show ?thesis using h2(1,2) h3(1) n' h4(1) h5 by simp
qed

lemma add_key_good:
  assumes "key_order (compare_keys env)" "fresh_malloc env" "good h (X + {#RKey k, RVal v#})" "tree h p t" "reachp h X p"
    "balanced t" "ordered (compare_keys env) (entries t)"
  shows "\<exists>p' h'. add_key env p k v h = Some (p', h') \<and> good h' (X + pres p') \<and> keeps h X h' \<and> tree h' p' (t_add (compare_keys env) k v t)"
  using assms(3-7)
proof (induction t arbitrary: p h X)
  case Tip
  obtain a h' where "new_node env k v None None h = Some (Some a, h')" "good h' (X + {#RNode a#})" "ext h h'"
    "tree h' (Some a) (bin k v Tip Tip)"
    by (rule new_node_good [OF assms(2), of h X k v None None Tip Tip]) (use Tip in auto)
  then show ?case using Tip ext_keeps by (subst add_key.simps) auto
next
  case (Bin k' v' l r i)
  let ?cmp = "compare_keys env"
  obtain a n where n: "p = Some a" "look h a = Some n" "nkey n = k'" "nvalue n = v'" "tree h (nleft n) l" "tree h (nright n) r"
    using Bin.prems(2) by auto
  have ra: "reach h X a" using Bin.prems(3) n(1) by (simp add: reachp_def)
  have rc: "reachp h X (nleft n)" "reachp h X (nright n)"
    using reach.left [OF ra n(2)] reach.right [OF ra n(2)] by (simp_all add: reachp_def)
  have b: "balanced l" "balanced r" "\<bar>ht l - ht r\<bar> \<le> 1" using Bin.prems(4) by simp_all
  have o: "ordered ?cmp (entries l)" "ordered ?cmp (entries r)" using Bin.prems(5) by (simp_all add: ordered_append ordered_Cons)
  note add = keys.t_add_correct [OF keys.intro [OF assms(1)]]
  consider "?cmp k' k = 0" | "?cmp k' k > 0" | "?cmp k' k < 0" by linarith
  then show ?case
  proof cases
    case 1
    obtain h1 where h1: "ref_node (nleft n) h = Some h1" "good h1 (X + {#RKey k, RVal v#} + pres (nleft n))" "ext h h1"
      by (rule step_ref [OF Bin.prems(1) ext_refl rc(1)]) auto
    obtain h2 where h2: "ref_node (nright n) h1 = Some h2" "good h2 (X + {#RKey k, RVal v#} + pres (nleft n) + pres (nright n))" "ext h h2"
      by (rule step_ref [OF h1(2,3) rc(2)]) (auto simp: add.assoc)
    obtain c h3 where h3: "new_node env k v (nleft n) (nright n) h2 = Some (Some c, h3)" "good h3 (X + {#RNode c#})" "ext h2 h3"
      "tree h3 (Some c) (bin k v l r)"
      by (rule new_node_good [OF assms(2) h2(2) ext_tree [OF n(5) h2(3)] ext_tree [OF n(6) h2(3)] b(1,2)])
    have "keeps h X h3" using ext_keeps [OF ext_trans [OF h2(3) h3(3)]] .
    then show ?thesis using 1 n h1(1) h2(1) h3 by (subst add_key.simps) simp
  next
    case 2
    have near: "near (t_add ?cmp k v l) r" using add [OF b(1) o(1), of k v] b by (auto simp: near_def)
    let ?Z = "X + {#RKey (nkey n), RVal (nvalue n)#}"
    have "\<exists>l' h3. add_key env (nleft n) k v h2 = Some (l', h3) \<and> good h3 (?Z + pres l') \<and> keeps h2 ?Z h3 \<and> tree h3 l' (t_add ?cmp k v l)"
      if "good h2 (?Z + {#RKey k, RVal v#})" "ext h h2" for h2
      by (rule Bin.IH(1) [OF that(1) ext_tree [OF n(5) that(2)] _ b(1) o(1)], rule reachp_mono [OF keeps_reachp [OF rc(1) ext_keeps [OF that(2)]]]) simp
    from rebuild_left [OF assms(2) Bin.prems(1) n(2) ra n(6) n(2) ra near this] show ?thesis
      using 2 n(1-4) by (subst add_key.simps) simp
  next
    case 3
    have near: "near l (t_add ?cmp k v r)" using add [OF b(2) o(2), of k v] b by (auto simp: near_def)
    let ?Z = "X + {#RKey (nkey n), RVal (nvalue n)#} + pres (nleft n)"
    have "\<exists>r' h3. add_key env (nright n) k v h2 = Some (r', h3) \<and> good h3 (?Z + pres r') \<and> keeps h2 ?Z h3 \<and> tree h3 r' (t_add ?cmp k v r)"
      if "good h2 (?Z + {#RKey k, RVal v#})" "ext h h2" for h2
      by (rule Bin.IH(2) [OF that(1) ext_tree [OF n(6) that(2)] _ b(2) o(2)], rule reachp_mono [OF keeps_reachp [OF rc(2) ext_keeps [OF that(2)]]])
        (simp add: add.assoc)
    from rebuild_right [where f = "\<lambda>q. add_key env q k v", OF assms(2) Bin.prems(1) n(2) ra n(5) n(2) ra near this] show ?thesis
      using 3 n(1-4) by (subst add_key.simps) simp
  qed
qed


section \<open>Removal\<close>

lemma in_order_head_tree:
  "tree h p t \<Longrightarrow> t \<noteq> Tip \<Longrightarrow> reachp h X p \<Longrightarrow>
   \<exists>a m. in_order_head p h = Some m \<and> look h a = Some m \<and> reach h X a \<and> t_head t = (nkey m, nvalue m)"
proof (induction t arbitrary: p)
  case (Bin k v l r i)
  then obtain a n where n: "p = Some a" "look h a = Some n" "nkey n = k" "nvalue n = v" "tree h (nleft n) l" "reach h X a"
    by (auto simp: reachp_def)
  have "reachp h X (nleft n)" using reach.left [OF n(6,2)] by (simp add: reachp_def)
  then show ?case
    unfolding n(1) in_order_head.simps [of "Some a"] using n(2-6) Bin.IH(1) [OF n(5)] by (cases l) (auto simp: deref_def)
qed simp

lemma in_order_tail_tree:
  "tree h p t \<Longrightarrow> t \<noteq> Tip \<Longrightarrow> reachp h X p \<Longrightarrow>
   \<exists>a m. in_order_tail p h = Some m \<and> look h a = Some m \<and> reach h X a \<and> t_tail t = (nkey m, nvalue m)"
proof (induction t arbitrary: p)
  case (Bin k v l r i)
  then obtain a n where n: "p = Some a" "look h a = Some n" "nkey n = k" "nvalue n = v" "tree h (nright n) r" "reach h X a"
    by (auto simp: reachp_def)
  have "reachp h X (nright n)" using reach.right [OF n(6,2)] by (simp add: reachp_def)
  then show ?case
    unfolding n(1) in_order_tail.simps [of "Some a"] using n(2-6) Bin.IH(2) [OF n(5)] by (cases r) (auto simp: deref_def)
qed simp

lemma tree_None [simp]: "tree h None t \<longleftrightarrow> t = Tip"
  by (cases t) auto

lemma tree_ne: "tree h p t \<Longrightarrow> t \<noteq> Tip \<Longrightarrow> p \<noteq> None"
  by (cases p) auto

lemma remove_key_good:
  assumes "key_order (compare_keys env)" "fresh_malloc env" "good h X" "tree h p t" "reachp h X p"
    "balanced t" "ordered (compare_keys env) (entries t)"
  shows "\<exists>p' h'. remove_key env p k h = Some (p', h') \<and> good h' (X + pres p') \<and> keeps h X h' \<and> tree h' p' (t_remove (compare_keys env) k t)"
  using assms(3-7)
proof (induction t arbitrary: p h X k)
  case Tip
  then show ?case by (subst remove_key.simps) simp
next
  case (Bin k' v' l r i)
  let ?cmp = "compare_keys env"
  obtain a n where n: "p = Some a" "look h a = Some n" "nkey n = k'" "nvalue n = v'" "tree h (nleft n) l" "tree h (nright n) r"
    using Bin.prems(2) by auto
  have ra: "reach h X a" using Bin.prems(3) n(1) by (simp add: reachp_def)
  have rc: "reachp h X (nleft n)" "reachp h X (nright n)"
    using reach.left [OF ra n(2)] reach.right [OF ra n(2)] by (simp_all add: reachp_def)
  have b: "balanced l" "balanced r" "\<bar>ht l - ht r\<bar> \<le> 1" using Bin.prems(4) by simp_all
  have o: "ordered ?cmp (entries l)" "ordered ?cmp (entries r)" using Bin.prems(5) by (simp_all add: ordered_append ordered_Cons)
  note rem = keys.t_remove_correct [OF keys.intro [OF assms(1)]]
  have near: "near (t_remove ?cmp k l) r" "near l (t_remove ?cmp k r)" for k
    using rem [OF b(1) o(1), of k] rem [OF b(2) o(2), of k] b by (auto simp: near_def)
  have g: "good h (X + {#})" using Bin.prems(1) by simp
  have go_left: "\<exists>p h'. do {
      h \<leftarrow> copy_key (nkey m) h;
      h \<leftarrow> copy_value (nvalue m) h;
      (l, h) \<leftarrow> remove_key env (nleft n) k h;
      n' \<leftarrow> look h a;
      h \<leftarrow> ref_node (nright n') h;
      rebalance env (nkey m) (nvalue m) l (nright n') h
    } = Some (p, h') \<and> good h' (X + pres p) \<and> keeps h X h' \<and> tree h' p (t_rebalance (nkey m) (nvalue m) (t_remove ?cmp k l) r)"
    if m: "look h b = Some m" "reach h X b" for m b k
  proof (rule rebuild_left [OF assms(2) g n(2) ra n(6) m near(1)])
    let ?Z = "X + {#RKey (nkey m), RVal (nvalue m)#}"
    fix h2 assume h2: "good h2 (?Z + {#})" "ext h h2"
    have "reachp h2 ?Z (nleft n)" using keeps_reachp [OF rc(1) ext_keeps [OF h2(2)]] by (rule reachp_mono) simp
    then show "\<exists>l' h3. remove_key env (nleft n) k h2 = Some (l', h3) \<and> good h3 (?Z + pres l') \<and> keeps h2 ?Z h3 \<and>
        tree h3 l' (t_remove ?cmp k l)"
      using Bin.IH(1) [where X = ?Z and k = k, OF _ ext_tree [OF n(5) h2(2)] _ b(1) o(1)] h2(1) by simp
  qed
  have go_right: "\<exists>p h'. do {
      h \<leftarrow> copy_key (nkey m) h;
      h \<leftarrow> copy_value (nvalue m) h;
      h \<leftarrow> ref_node (nleft n) h;
      n' \<leftarrow> look h a;
      (r, h) \<leftarrow> remove_key env (nright n') k h;
      rebalance env (nkey m) (nvalue m) (nleft n) r h
    } = Some (p, h') \<and> good h' (X + pres p) \<and> keeps h X h' \<and> tree h' p (t_rebalance (nkey m) (nvalue m) l (t_remove ?cmp k r))"
    if m: "look h b = Some m" "reach h X b" for m b k
  proof (rule rebuild_right [where f = "\<lambda>q. remove_key env q k", OF assms(2) g n(2) ra n(5) m near(2)])
    let ?Z = "X + {#RKey (nkey m), RVal (nvalue m)#} + pres (nleft n)"
    fix h2 assume h2: "good h2 (?Z + {#})" "ext h h2"
    have "reachp h2 ?Z (nright n)" using keeps_reachp [OF rc(2) ext_keeps [OF h2(2)]] by (rule reachp_mono) (simp add: add.assoc)
    then show "\<exists>r' h3. remove_key env (nright n) k h2 = Some (r', h3) \<and> good h3 (?Z + pres r') \<and> keeps h2 ?Z h3 \<and>
        tree h3 r' (t_remove ?cmp k r)"
      using Bin.IH(2) [where X = ?Z and k = k, OF _ ext_tree [OF n(6) h2(2)] _ b(2) o(2)] h2(1) by simp
  qed
  consider "?cmp k' k > 0" | "?cmp k' k < 0" | "?cmp k' k = 0" "l = Tip" | "?cmp k' k = 0" "l \<noteq> Tip" "r = Tip"
    | "?cmp k' k = 0" "l \<noteq> Tip" "r \<noteq> Tip" "ht l < ht r" | "?cmp k' k = 0" "l \<noteq> Tip" "r \<noteq> Tip" "\<not> ht l < ht r" by linarith
  then show ?case
  proof cases
    case 1
    then show ?thesis using go_left [OF n(2) ra, of k] n(1-4) by (subst remove_key.simps) simp
  next
    case 2
    then show ?thesis using go_right [OF n(2) ra, of k] n(1-4) by (subst remove_key.simps) simp
  next
    case 3
    obtain h1 where h1: "ref_node (nright n) h = Some h1" "good h1 (X + pres (nright n))" "ext h h1"
      by (rule ref_node_ext [OF Bin.prems(1) rc(2)])
    have "nleft n = None" using n(5) 3(2) by simp
    then show ?thesis using 3 n(1-4) h1 ext_tree [OF n(6) h1(3)] ext_keeps [OF h1(3)] by (subst remove_key.simps) simp
  next
    case 4
    obtain h1 where h1: "ref_node (nleft n) h = Some h1" "good h1 (X + pres (nleft n))" "ext h h1"
      by (rule ref_node_ext [OF Bin.prems(1) rc(1)])
    have "nright n = None" using n(6) 4(3) by simp
    moreover have "nleft n \<noteq> None" by (rule tree_ne [OF n(5) 4(2)])
    ultimately show ?thesis using 4 n(1-4) h1 ext_tree [OF n(5) h1(3)] ext_keeps [OF h1(3)] by (subst remove_key.simps) auto
  next
    case 5
    have ne: "nright n \<noteq> None" "nleft n \<noteq> None" by (rule tree_ne [OF n(6) 5(3)], rule tree_ne [OF n(5) 5(2)])
    obtain b m where m: "in_order_head (nright n) h = Some m" "look h b = Some m" "reach h X b" "t_head r = (nkey m, nvalue m)"
      using in_order_head_tree [OF n(6) 5(3) rc(2)] by blast
    show ?thesis
      using 5 ne n(1-4) m(1,4) node_height_tree [OF n(5)] node_height_tree [OF n(6)] go_right [OF m(2,3), of "nkey m"]
      by (subst remove_key.simps) (simp del: not_None_eq)
  next
    case 6
    have ne: "nright n \<noteq> None" "nleft n \<noteq> None" by (rule tree_ne [OF n(6) 6(3)], rule tree_ne [OF n(5) 6(2)])
    obtain b m where m: "in_order_tail (nleft n) h = Some m" "look h b = Some m" "reach h X b" "t_tail l = (nkey m, nvalue m)"
      using in_order_tail_tree [OF n(5) 6(2) rc(1)] by blast
    show ?thesis
      using 6 ne n(1-4) m(1,4) node_height_tree [OF n(5)] node_height_tree [OF n(6)] go_left [OF m(2,3), of "nkey m"]
      by (subst remove_key.simps) (simp del: not_None_eq)
  qed
qed

section \<open>The operations of a map\<close>

definition avl_map :: "'k avl_env \<Rightarrow> ('k, 'v) heap \<Rightarrow> ptr \<Rightarrow> ('k \<Rightarrow> 'v option) \<Rightarrow> bool" where
  "avl_map env h root m \<longleftrightarrow> (\<exists>t. tree h root t \<and> balanced t \<and> ordered (compare_keys env) (entries t) \<and> map_of (entries t) = m)"

lemma avl_map_keeps: "avl_map env h p m \<Longrightarrow> keeps h X h' \<Longrightarrow> reachp h X p \<Longrightarrow> avl_map env h' p m"
  using tree_keeps unfolding avl_map_def by blast

lemma release_old:
  assumes "good h1 (X + pres root + pres p)" "keeps h (X + pres root) h1" "tree h1 p t"
  obtains h' where "unref_node root h1 = Some h'" "good h' (X + pres p)" "keeps h X h'" "tree h' p t"
proof -
  have "good h1 (X + pres p + pres root)" using assms(1) by (rule good_eq) (simp add: ac_simps)
  then obtain h' where h': "unref_node root h1 = Some h'" "good h' (X + pres p)" "keeps h1 (X + pres p) h'"
    using unref_node_good by blast
  have "tree h' p t" by (rule tree_keeps [OF assms(3) h'(3) pres_reachp]) simp
  moreover have "keeps h X h'" using keeps_trans [OF keeps_mono [OF assms(2)] keeps_mono [OF h'(3)]] by simp
  ultimately show ?thesis using that h' by blast
qed

lemma grpc_avl_add_good:
  assumes "key_order (compare_keys env)" "fresh_malloc env" "good h (X + {#RKey k, RVal v#} + pres root)" "avl_map env h root m"
  shows "\<exists>root' h'. grpc_avl_add env root k v h = Some (root', h') \<and> good h' (X + pres root') \<and> keeps h X h' \<and>
    avl_map env h' root' (m(k \<mapsto> v))"
proof -
  obtain t where t: "tree h root t" "balanced t" "ordered (compare_keys env) (entries t)" "map_of (entries t) = m"
    using assms(4) by (auto simp: avl_map_def)
  note ks = keys.intro [OF assms(1)]
  let ?t = "t_add (compare_keys env) k v t"
  have t': "balanced ?t" "ordered (compare_keys env) (entries ?t)" "map_of (entries ?t) = m(k \<mapsto> v)"
    using keys.t_add_correct [OF ks t(2,3), of k v] keys.ordered_replace(1) [OF ks t(3), of k v] keys.map_of_replace(1) [OF ks, of k "entries t" v] t(4)
    by simp_all
  have g: "good h ((X + pres root) + {#RKey k, RVal v#})" using assms(3) by (rule good_eq) (simp add: add_mset_commute ac_simps)
  have "reachp h (X + pres root) root" by (rule pres_reachp) simp
  then obtain p h1 where h1: "add_key env root k v h = Some (p, h1)" "good h1 (X + pres root + pres p)" "keeps h (X + pres root) h1" "tree h1 p ?t"
    using add_key_good [OF assms(1,2) g t(1) _ t(2,3)] by blast
  obtain h2 where h2: "unref_node root h1 = Some h2" "good h2 (X + pres p)" "keeps h X h2" "tree h2 p ?t"
    by (rule release_old [OF h1(2-4)])
  have "grpc_avl_add env root k v h = Some (p, h2)"
    using h1(1) h2(1) assert_invariants_tree [OF h1(4) t'(1)] by (simp add: grpc_avl_add_def)
  then show ?thesis using h2 t' unfolding avl_map_def by blast
qed

lemma grpc_avl_remove_good:
  assumes "key_order (compare_keys env)" "fresh_malloc env" "good h (X + pres root)" "avl_map env h root m"
  shows "\<exists>root' h'. grpc_avl_remove env root k h = Some (root', h') \<and> good h' (X + pres root') \<and> keeps h X h' \<and>
    avl_map env h' root' (m(k := None))"
proof -
  obtain t where t: "tree h root t" "balanced t" "ordered (compare_keys env) (entries t)" "map_of (entries t) = m"
    using assms(4) by (auto simp: avl_map_def)
  note ks = keys.intro [OF assms(1)]
  let ?t = "t_remove (compare_keys env) k t"
  have t': "balanced ?t" "ordered (compare_keys env) (entries ?t)" "map_of (entries ?t) = m(k := None)"
    using keys.t_remove_correct [OF ks t(2,3), of k] keys.ordered_replace(2) [OF ks t(3), of k] keys.map_of_replace(2) [OF ks, of k "entries t"] t(4)
    by simp_all
  have "reachp h (X + pres root) root" by (rule pres_reachp) simp
  then obtain p h1 where h1: "remove_key env root k h = Some (p, h1)" "good h1 (X + pres root + pres p)" "keeps h (X + pres root) h1" "tree h1 p ?t"
    using remove_key_good [OF assms(1,2,3) t(1) _ t(2,3)] by blast
  obtain h2 where h2: "unref_node root h1 = Some h2" "good h2 (X + pres p)" "keeps h X h2" "tree h2 p ?t"
    by (rule release_old [OF h1(2-4)])
  have "grpc_avl_remove env root k h = Some (p, h2)"
    using h1(1) h2(1) assert_invariants_tree [OF h1(4) t'(1)] by (simp add: grpc_avl_remove_def)
  then show ?thesis using h2 t' unfolding avl_map_def by blast
qed

lemma grpc_avl_get_good:
  assumes "key_order (compare_keys env)" "avl_map env h root m"
  shows "grpc_avl_get env root k h = Some (m k)"
    "grpc_avl_maybe_get env root k d h = Some (case m k of None \<Rightarrow> (False, d) | Some v \<Rightarrow> (True, v))"
proof -
  obtain t where t: "tree h root t" "ordered (compare_keys env) (entries t)" "map_of (entries t) = m"
    using assms(2) by (auto simp: avl_map_def)
  have "t_get (compare_keys env) k t = m k" using keys.t_get_correct [OF keys.intro [OF assms(1)] t(2)] t(3) by simp
  then show "grpc_avl_get env root k h = Some (m k)"
    "grpc_avl_maybe_get env root k d h = Some (case m k of None \<Rightarrow> (False, d) | Some v \<Rightarrow> (True, v))"
    using get_tree [OF t(1), of env k] by (auto simp: grpc_avl_get_def grpc_avl_maybe_get_def split: option.splits)
qed

text \<open>Without references from outside there is nothing left.\<close>

lemma good_empty:
  assumes "good h {#}"
  shows "live h = {}" "hkeys h k = 0" "hvalues h v = 0"
proof -
  have "False" if "live h \<noteq> {}"
  proof -
    define f where "f a = nheight (the (look h a))" for a
    have "finite (f ` live h)" "f ` live h \<noteq> {}" using that by simp_all
    then have "Max (f ` live h) \<in> f ` live h" by (rule Max_in)
    then obtain a where a: "a \<in> live h" "f a = Max (f ` live h)" by auto
    obtain n where n: "look h a = Some n" "0 < nrefs n" using a(1) by (auto simp: live_def)
    have "refcount h (RNode a) = count (edges h) (RNode a)" using assms by (simp add: good_def)
    moreover have "refcount h (RNode a) = nrefs n" using n(1) by (simp add: refcount_def)
    ultimately have "RNode a \<in># edges h" using n(2) by (metis count_inI not_gr_zero)
    then obtain b where b: "b \<in> dom (look h)" "RNode a \<in># owned (look h b)" unfolding edges_def by (auto simp: set_mset_sum)
    then obtain m where m: "look h b = Some m" "0 < nrefs m" "nleft m = Some a \<or> nright m = Some a"
      by (auto simp: owned_def pres_def split: if_splits option.splits)
    then have "nheight n < nheight m" using assms n(1) unfolding good_def ranked_def by blast
    moreover have "f b \<le> f a" using Max_ge [OF finite_imageI [OF finite_live [of h]], of "f b" f] m(1,2) unfolding a(2) by (auto simp: live_def)
    ultimately show False using n(1) m(1) by (simp add: f_def)
  qed
  then show l: "live h = {}" by blast
  have "owned (look h a) = {#}" for a using l by (cases "look h a") (auto simp: live_def owned_def)
  then have "edges h = {#}" by (simp add: edges_def)
  then show "hkeys h k = 0" "hvalues h v = 0" using assms unfolding good_iff by simp_all
qed


section \<open>Histories\<close>

text \<open>
  A client holds versions of maps, by their position in a list, and applies operations to them.
  \<open>Ref\<close> makes a version available twice, so that the old map stays when one of the two is changed.
\<close>

datatype ('k, 'v) map_op = Create | Ref nat | Unref nat | Add nat 'k 'v | Remove nat 'k

definition new_entry :: "'k \<Rightarrow> 'v \<Rightarrow> ('k, 'v) heap \<Rightarrow> ('k, 'v) heap" where
  "new_entry k v h = h\<lparr>hkeys := (hkeys h)(k := hkeys h k + 1), hvalues := (hvalues h)(v := hvalues h v + 1)\<rparr>"

definition drop_nth :: "nat \<Rightarrow> 'a list \<Rightarrow> 'a list" where
  "drop_nth i xs = take i xs @ drop (Suc i) xs"

definition on_root :: "nat \<Rightarrow> (ptr \<Rightarrow> ('k, 'v) heap \<Rightarrow> (ptr \<times> ('k, 'v) heap) option) \<Rightarrow> ptr list \<times> ('k, 'v) heap \<Rightarrow>
    (ptr list \<times> ('k, 'v) heap) option" where
  "on_root i f s = (case s of (roots, h) \<Rightarrow>
     if i < length roots then do { (p, h) \<leftarrow> f (roots ! i) h; Some (roots[i := p], h) } else Some (roots, h))"

fun map_step :: "'k avl_env \<Rightarrow> ('k, 'v) map_op \<Rightarrow> ptr list \<times> ('k, 'v) heap \<Rightarrow> (ptr list \<times> ('k, 'v) heap) option" where
  "map_step env Create (roots, h) = (case grpc_avl_create h of (p, h) \<Rightarrow> Some (roots @ [p], h))"
| "map_step env (Ref i) (roots, h) =
    (if i < length roots then do { (p, h) \<leftarrow> grpc_avl_ref (roots ! i) h; Some (roots @ [p], h) } else Some (roots, h))"
| "map_step env (Unref i) (roots, h) =
    (if i < length roots then do { h \<leftarrow> grpc_avl_unref (roots ! i) h; Some (drop_nth i roots, h) } else Some (roots, h))"
| "map_step env (Add i k v) (roots, h) = on_root i (\<lambda>p h. grpc_avl_add env p k v (new_entry k v h)) (roots, h)"
| "map_step env (Remove i k) (roots, h) = on_root i (\<lambda>p h. grpc_avl_remove env p k h) (roots, h)"

fun map_run :: "'k avl_env \<Rightarrow> ('k, 'v) map_op list \<Rightarrow> ptr list \<times> ('k, 'v) heap \<Rightarrow> (ptr list \<times> ('k, 'v) heap) option" where
  "map_run env [] s = Some s"
| "map_run env (x # xs) s = do { s \<leftarrow> map_step env x s; map_run env xs s }"

fun map_release :: "ptr list \<Rightarrow> ('k, 'v) heap \<Rightarrow> ('k, 'v) heap option" where
  "map_release [] h = Some h"
| "map_release (p # ps) h = do { h \<leftarrow> grpc_avl_unref p h; map_release ps h }"

definition empty_heap :: "('k, 'v) heap" where
  "empty_heap = \<lparr>hnodes = [], hkeys = (\<lambda>k. 0), hvalues = (\<lambda>v. 0)\<rparr>"

text \<open>The specification: finite maps.\<close>

fun spec_step :: "('k, 'v) map_op \<Rightarrow> ('k \<Rightarrow> 'v option) list \<Rightarrow> ('k \<Rightarrow> 'v option) list" where
  "spec_step Create ms = ms @ [Map.empty]"
| "spec_step (Ref i) ms = (if i < length ms then ms @ [ms ! i] else ms)"
| "spec_step (Unref i) ms = (if i < length ms then drop_nth i ms else ms)"
| "spec_step (Add i k v) ms = (if i < length ms then ms[i := (ms ! i)(k \<mapsto> v)] else ms)"
| "spec_step (Remove i k) ms = (if i < length ms then ms[i := (ms ! i)(k := None)] else ms)"

definition spec_run :: "('k, 'v) map_op list \<Rightarrow> ('k \<Rightarrow> 'v option) list" where
  "spec_run ops = fold spec_step ops []"

definition held :: "ptr list \<Rightarrow> ('k, 'v) res multiset" where
  "held roots = sum_list (map pres roots)"

definition represents :: "'k avl_env \<Rightarrow> ptr list \<times> ('k, 'v) heap \<Rightarrow> ('k \<Rightarrow> 'v option) list \<Rightarrow> bool" where
  "represents env s ms \<longleftrightarrow> (case s of (roots, h) \<Rightarrow> good h (held roots) \<and> (\<forall>a n. look h a = Some n \<longrightarrow> 0 < nrefs n) \<and>
     list_all2 (avl_map env h) roots ms)"

lemma held_simps [simp]: "held [] = {#}" "held (p # ps) = pres p + held ps" "held (ps @ qs) = held ps + held qs"
  by (simp_all add: held_def)

lemma held_nth:
  assumes "i < length roots"
  shows "held roots = held (drop_nth i roots) + pres (roots ! i)" "held (roots[i := p]) = held (drop_nth i roots) + pres p"
proof -
  have "held roots = held (take i roots @ roots ! i # drop (Suc i) roots)" using id_take_nth_drop [OF assms] by simp
  then show "held roots = held (drop_nth i roots) + pres (roots ! i)" by (simp add: drop_nth_def ac_simps)
  show "held (roots[i := p]) = held (drop_nth i roots) + pres p"
    using upd_conv_take_nth_drop [OF assms] by (simp add: drop_nth_def ac_simps)
qed

lemma held_member: "p \<in> set ps \<Longrightarrow> pres p \<subseteq># held ps"
  by (induction ps) (auto intro: subset_mset.order_trans [OF _ mset_subset_eq_add_right])

lemma avl_maps_keep: "list_all2 (avl_map env h) ps ms \<Longrightarrow> keeps h (held ps) h' \<Longrightarrow> list_all2 (avl_map env h') ps ms"
  unfolding list_all2_conv_all_nth by (meson avl_map_keeps held_member nth_mem pres_reachp)

lemma no_zombies:
  assumes "keeps h X h'" "\<forall>a n. look h a = Some n \<longrightarrow> 0 < nrefs n"
  shows "\<forall>a n. look h' a = Some n \<longrightarrow> 0 < nrefs n"
  using assms unfolding keeps_def by (metis not_gr_zero)

lemma avl_map_None: "avl_map env h None m \<longleftrightarrow> m = Map.empty"
  by (auto simp: avl_map_def ordered_def)

lemma list_all2_drop_nth: "list_all2 P xs ys \<Longrightarrow> list_all2 P (drop_nth i xs) (drop_nth i ys)"
  unfolding drop_nth_def by (intro list_all2_appendI list_all2_takeI list_all2_dropI)

text \<open>A change of one version.\<close>

lemma on_root_represents:
  assumes s: "represents env (roots, h) ms" and i: "i < length roots"
    and f: "\<And>X. good h (X + pres (roots ! i)) \<Longrightarrow> \<exists>p h'. f (roots ! i) h = Some (p, h') \<and> good h' (X + pres p) \<and> keeps h X h' \<and> avl_map env h' p m"
  shows "\<exists>s'. on_root i f (roots, h) = Some s' \<and> represents env s' (ms[i := m])"
proof -
  have g: "good h (held (drop_nth i roots) + pres (roots ! i))" using s unfolding represents_def held_nth(1) [OF i, symmetric] by simp
  obtain p h' where p: "f (roots ! i) h = Some (p, h')" "good h' (held (drop_nth i roots) + pres p)" "keeps h (held (drop_nth i roots)) h'"
    "avl_map env h' p m"
    using f [OF g] by blast
  have l: "list_all2 (avl_map env h) roots ms" "length ms = length roots" using s by (auto simp: represents_def list_all2_lengthD)
  have "list_all2 (avl_map env h') (drop_nth i roots) (drop_nth i ms)"
    by (rule avl_maps_keep [OF list_all2_drop_nth [OF l(1)] p(3)])
  then have "list_all2 (avl_map env h') (roots[i := p]) (ms[i := m])"
    using p(4) i l(2) unfolding drop_nth_def upd_conv_take_nth_drop [OF i] upd_conv_take_nth_drop [OF i [folded l(2)]]
    by (simp add: list_all2_append)
  moreover have "good h' (held (roots[i := p]))" using p(2) unfolding held_nth(2) [OF i, symmetric] .
  ultimately show ?thesis using p(1) i no_zombies [OF p(3)] s by (simp add: represents_def on_root_def)
qed

lemma good_new_entry:
  assumes "good h X"
  shows "good (new_entry k v h) (X + {#RKey k, RVal v#})" "ext h (new_entry k v h)"
  using assms keeps_look [of "new_entry k v h" h] by (auto simp: good_iff new_entry_def ext_def)

lemma map_step_represents:
  assumes env: "key_order (compare_keys env)" "fresh_malloc env" and s: "represents env (roots, h) ms"
  shows "\<exists>s'. map_step env x (roots, h) = Some s' \<and> represents env s' (spec_step x ms)"
proof -
  have len: "length ms = length roots" and all: "\<And>i. i < length roots \<Longrightarrow> avl_map env h (roots ! i) (ms ! i)"
    using s by (auto simp: represents_def list_all2_lengthD list_all2_nthD)
  show ?thesis
  proof (cases x)
    case Create
    then show ?thesis using s by (simp add: grpc_avl_create_def represents_def list_all2_appendI avl_map_None)
  next
    case (Ref i)
    show ?thesis
    proof (cases "i < length roots")
      case True
      have "good h (held roots)" using s by (simp add: represents_def)
      then obtain h' where h': "ref_node (roots ! i) h = Some h'" "good h' (held roots + pres (roots ! i))" "ext h h'"
        by (rule ref_node_ext [OF _ pres_reachp [OF held_member [OF nth_mem [OF True]]]])
      have l: "list_all2 (avl_map env h') roots ms"
        by (rule avl_maps_keep [OF _ ext_keeps [OF h'(3)]]) (use s in \<open>simp add: represents_def\<close>)
      then show ?thesis
        using Ref True len h'(1,2) no_zombies [OF ext_keeps [OF h'(3)]] s list_all2_nthD [OF l True]
        by (auto simp: represents_def grpc_avl_ref_def list_all2_append)
    qed (use Ref s len in simp)
  next
    case (Unref i)
    show ?thesis
    proof (cases "i < length roots")
      case True
      have "good h (held (drop_nth i roots) + pres (roots ! i))" using s unfolding represents_def held_nth(1) [OF True, symmetric] by simp
      then obtain h' where h': "unref_node (roots ! i) h = Some h'" "good h' (held (drop_nth i roots))" "keeps h (held (drop_nth i roots)) h'"
        using unref_node_good by blast
      have "list_all2 (avl_map env h') (drop_nth i roots) (drop_nth i ms)"
        by (rule avl_maps_keep [OF list_all2_drop_nth h'(3)]) (use s in \<open>simp add: represents_def\<close>)
      then show ?thesis
        using Unref True len h' no_zombies [OF h'(3)] s by (simp add: represents_def grpc_avl_unref_def)
    qed (use Unref s len in simp)
  next
    case (Add i k v)
    show ?thesis
    proof (cases "i < length roots")
      case True
      have "\<exists>s'. on_root i (\<lambda>p h. grpc_avl_add env p k v (new_entry k v h)) (roots, h) = Some s' \<and>
        represents env s' (ms[i := (ms ! i)(k \<mapsto> v)])"
      proof (rule on_root_represents [OF s True])
        fix X :: "('a, 'b) res multiset" assume g: "good h (X + pres (roots ! i))"
        have "good (new_entry k v h) (X + {#RKey k, RVal v#} + pres (roots ! i))"
          using good_new_entry(1) [OF g] by (rule good_eq) (simp add: add_mset_commute ac_simps)
        moreover have "avl_map env (new_entry k v h) (roots ! i) (ms ! i)"
          by (rule avl_map_keeps [where X = "X + pres (roots ! i)", OF all [OF True] ext_keeps [OF good_new_entry(2) [OF g]] pres_reachp]) simp
        ultimately show "\<exists>p h'. grpc_avl_add env (roots ! i) k v (new_entry k v h) = Some (p, h') \<and> good h' (X + pres p) \<and>
            keeps h X h' \<and> avl_map env h' p ((ms ! i)(k \<mapsto> v))"
          using grpc_avl_add_good [OF env] keeps_trans [OF ext_keeps [OF good_new_entry(2) [OF g]]] by meson
      qed
      then show ?thesis using Add True len by simp
    qed (use Add s len in \<open>simp add: on_root_def\<close>)
  next
    case (Remove i k)
    show ?thesis
    proof (cases "i < length roots")
      case True
      have "\<exists>s'. on_root i (\<lambda>p h. grpc_avl_remove env p k h) (roots, h) = Some s' \<and> represents env s' (ms[i := (ms ! i)(k := None)])"
        by (rule on_root_represents [OF s True], rule grpc_avl_remove_good [OF env _ all [OF True]])
      then show ?thesis using Remove True len by simp
    qed (use Remove s len in \<open>simp add: on_root_def\<close>)
  qed
qed

lemma map_run_represents:
  assumes "key_order (compare_keys env)" "fresh_malloc env" "represents env s ms"
  shows "\<exists>s'. map_run env ops s = Some s' \<and> represents env s' (fold spec_step ops ms)"
  using assms(3)
proof (induction ops arbitrary: s ms)
  case (Cons x xs)
  obtain roots h where "s = (roots, h)" by (cases s)
  then obtain s' where "map_step env x s = Some s'" "represents env s' (spec_step x ms)"
    using map_step_represents [OF assms(1,2)] Cons.prems by blast
  then show ?case using Cons.IH by simp
qed simp

lemma represents_empty: "represents env ([], empty_heap) []"
  by (auto simp: represents_def empty_heap_def good_def ranked_def refcount_def edges_def look_def split: res.splits)

lemma map_release_good:
  "good h (held roots) \<Longrightarrow> \<exists>h'. map_release roots h = Some h' \<and> good h' {#} \<and> keeps h {#} h'"
proof (induction roots arbitrary: h)
  case (Cons p ps)
  have "good h (held ps + pres p)" using Cons.prems by (simp add: ac_simps)
  then obtain h1 where h1: "unref_node p h = Some h1" "good h1 (held ps)" "keeps h (held ps) h1" using unref_node_good by blast
  obtain h2 where "map_release ps h1 = Some h2" "good h2 {#}" "keeps h1 {#} h2" using Cons.IH [OF h1(2)] by blast
  then show ?case using h1 keeps_trans [OF keeps_mono [OF h1(3)], of "{#}"] by (auto simp: grpc_avl_unref_def)
qed simp

lemma balanced_size: "balanced t \<Longrightarrow> 2 ^ (nat (ht t) div 2) \<le> length (entries t) + 1"
proof (induction t)
  case (Bin k v l r h)
  have b: "balanced l" "balanced r" "h = 1 + max (ht l) (ht r)" "\<bar>ht l - ht r\<bar> \<le> 1" using Bin.prems by simp_all
  note nn = balanced_ht_nonneg [OF b(1)] balanced_ht_nonneg [OF b(2)]
  have m: "nat h div 2 \<le> Suc (nat (ht l) div 2)" "nat h div 2 \<le> Suc (nat (ht r) div 2)" using b(3,4) nn by linarith+
  have "(2::nat) ^ (nat h div 2) \<le> 2 * 2 ^ (nat (ht l) div 2)" "(2::nat) ^ (nat h div 2) \<le> 2 * 2 ^ (nat (ht r) div 2)"
    using power_increasing [OF m(1), of "2::nat"] power_increasing [OF m(2), of "2::nat"] by simp_all
  then show ?case using Bin.IH(1) [OF b(1)] Bin.IH(2) [OF b(2)] by simp
qed simp


lemma history:
  assumes "key_order (compare_keys env)" "fresh_malloc env"
  obtains roots h where "map_run env ops ([], empty_heap) = Some (roots, h)" "represents env (roots, h) (spec_run ops)"
proof -
  obtain s where s: "map_run env ops ([], empty_heap) = Some s" "represents env s (spec_run ops)"
    using map_run_represents [OF assms represents_empty] unfolding spec_run_def by blast
  then show ?thesis using that by (cases s) blast
qed

text \<open>
  C11: the AVL maps are persistent finite maps.  Whatever versions a client creates, shares, changes
  and releases, the operations meet no freed memory, no null pointer and no failed assertion, and
  each version the client holds answers every lookup as the map of the specification does,
  however the other versions have changed since.
\<close>

theorem avl_refines_map:
  assumes "key_order (compare_keys env)" "fresh_malloc env"
  shows "\<exists>roots h. map_run env ops ([], empty_heap) = Some (roots, h) \<and>
    list_all2 (\<lambda>root m. \<forall>k d. grpc_avl_get env root k h = Some (m k) \<and>
      grpc_avl_maybe_get env root k d h = Some (case m k of None \<Rightarrow> (False, d) | Some v \<Rightarrow> (True, v)) \<and>
      grpc_avl_is_empty root = (m = Map.empty)) roots (spec_run ops)"
proof -
  obtain roots h where h: "map_run env ops ([], empty_heap) = Some (roots, h)" "represents env (roots, h) (spec_run ops)"
    by (rule history [OF assms])
  have e: "grpc_avl_is_empty root = (m = Map.empty)" if "avl_map env h root m" for root m
    using that by (cases root) (auto simp: grpc_avl_is_empty_def avl_map_None, auto simp: avl_map_def elim: tree.elims)
  show ?thesis
    using h grpc_avl_get_good [OF assms(1)] e unfolding represents_def by (auto elim!: list_all2_mono)
qed

text \<open>
  C12: reference counting neither leaks nor frees early.  After any history, releasing the versions
  that the client still holds succeeds and leaves nothing: every node has been freed, and every copy
  of a key or value that the maps have made or taken over has been destroyed, none of them twice.
\<close>

theorem avl_frees_everything:
  assumes "key_order (compare_keys env)" "fresh_malloc env"
  shows "\<exists>roots h h'. map_run env ops ([], empty_heap) = Some (roots, h) \<and> map_release roots h = Some h' \<and>
    (\<forall>a. look h' a = None) \<and> (\<forall>k. hkeys h' k = 0) \<and> (\<forall>v. hvalues h' v = 0)"
proof -
  obtain roots h where h: "map_run env ops ([], empty_heap) = Some (roots, h)" "represents env (roots, h) (spec_run ops)"
    by (rule history [OF assms])
  then obtain h' where h': "map_release roots h = Some h'" "good h' {#}" "keeps h {#} h'"
    using map_release_good unfolding represents_def by blast
  have "\<forall>a n. look h' a = Some n \<longrightarrow> 0 < nrefs n" using no_zombies [OF h'(3)] h(2) by (simp add: represents_def)
  then have "look h' a = None" for a using good_empty(1) [OF h'(2)] by (cases "look h' a") (auto simp: live_def)
  then show ?thesis using h(1) h'(1) good_empty(2,3) [OF h'(2)] by blast
qed

text \<open>
  C13: the maps stay balanced.  After any history, the height in the root of a version is the height
  of its tree and at most twice the binary logarithm of the number of its entries plus one, which is
  also the depth of the recursions of the operations.
\<close>

theorem avl_height_logarithmic:
  assumes "key_order (compare_keys env)" "fresh_malloc env"
  shows "\<exists>roots h. map_run env ops ([], empty_heap) = Some (roots, h) \<and>
    list_all2 (\<lambda>root m. \<exists>x. node_height root h = Some x \<and> calculate_height root h = Some x \<and> finite (dom m) \<and>
      2 ^ (nat x div 2) \<le> card (dom m) + 1) roots (spec_run ops)"
proof -
  obtain roots h where h: "map_run env ops ([], empty_heap) = Some (roots, h)" "represents env (roots, h) (spec_run ops)"
    by (rule history [OF assms])
  have "\<exists>x. node_height root h = Some x \<and> calculate_height root h = Some x \<and> finite (dom m) \<and> 2 ^ (nat x div 2) \<le> card (dom m) + 1"
    if m: "avl_map env h root m" for root m
  proof -
    obtain t where t: "tree h root t" "balanced t" "ordered (compare_keys env) (entries t)" "map_of (entries t) = m"
      using m by (auto simp: avl_map_def)
    have "card (dom m) = length (entries t)"
      using keys.ordered_distinct [OF keys.intro [OF assms(1)] t(3)] distinct_card [of "map fst (entries t)"]
      unfolding t(4) [symmetric] dom_map_of_conv_image_fst by simp
    moreover have "finite (dom m)" unfolding t(4) [symmetric] by (rule finite_dom_map_of)
    ultimately show ?thesis
      using node_height_tree [OF t(1)] calculate_height_tree [OF t(1)] balanced_true_height [OF t(2)] balanced_size [OF t(2)] by simp
  qed
  then show ?thesis using h unfolding represents_def by (auto elim!: list_all2_mono)
qed

section \<open>Examples\<close>

definition next_address :: "nat list \<Rightarrow> nat" where
  "next_address as = Suc (fold max as 0)"

definition server_env :: "u8 list avl_env" where
  "server_env = \<lparr>compare_keys = compare_server_name, gpr_malloc = next_address\<rparr>"

lemma server_env: "key_order (compare_keys server_env)" "fresh_malloc server_env"
proof -
  show "key_order (compare_keys server_env)" by (simp add: server_env_def key_order_server_name)
  have ge: "n \<le> fold max as n" for n :: nat and as
    by (induction as arbitrary: n) (auto intro: order_trans [OF max.cobounded2])
  have mem: "a \<in> set as \<Longrightarrow> a \<le> fold max as n" for a and as :: "nat list" and n
    by (induction as arbitrary: n) (auto intro: order_trans [OF max.cobounded1 ge])
  have "gpr_malloc server_env as \<notin> set as" for as
    using mem [of "Suc (fold max as 0)" as 0] by (auto simp: server_env_def next_address_def)
  then show "fresh_malloc server_env" by (simp add: fresh_malloc_def)
qed

definition server_history :: "(u8 list, nat) map_op list" where
  "server_history = [Create, Add 0 [97] 1, Add 0 [98] 2, Ref 0, Add 0 [99] 3, Remove 1 [97], Add 0 [97] 4, Unref 1]"

lemma spec_server_history: "spec_run server_history = [[[97] \<mapsto> 4, [98] \<mapsto> 2, [99] \<mapsto> 3]]"
  by (simp add: server_history_def spec_run_def drop_nth_def fun_upd_twist)

theorem avl_refines_map_witness:
  "\<exists>roots h. map_run server_env server_history ([], empty_heap) = Some (roots, h) \<and>
    list_all2 (\<lambda>root m. \<forall>k d. grpc_avl_get server_env root k h = Some (m k) \<and>
      grpc_avl_maybe_get server_env root k d h = Some (case m k of None \<Rightarrow> (False, d) | Some v \<Rightarrow> (True, v)) \<and>
      grpc_avl_is_empty root = (m = Map.empty)) roots [[[97] \<mapsto> 4, [98] \<mapsto> 2, [99] \<mapsto> 3]]"
  using avl_refines_map [OF server_env, of server_history] unfolding spec_server_history .

theorem avl_frees_everything_witness:
  "\<exists>roots h h'. map_run server_env server_history ([], empty_heap) = Some (roots, h) \<and> map_release roots h = Some h' \<and>
    (\<forall>a. look h' a = None) \<and> (\<forall>k. hkeys h' k = 0) \<and> (\<forall>v. hvalues h' v = 0)"
  by (rule avl_frees_everything [OF server_env])

theorem avl_height_logarithmic_witness:
  "\<exists>roots h. map_run server_env server_history ([], empty_heap) = Some (roots, h) \<and>
    list_all2 (\<lambda>root m. \<exists>x. node_height root h = Some x \<and> calculate_height root h = Some x \<and> finite (dom m) \<and>
      2 ^ (nat x div 2) \<le> card (dom m) + 1) roots [[[97 :: u8] \<mapsto> (4 :: nat), [98] \<mapsto> 2, [99] \<mapsto> 3]]"
  using avl_height_logarithmic [OF server_env, of server_history] unfolding spec_server_history .

end
