(* ===== verification/Spec2Isabelle.thy ===== *)
theory Spec2Isabelle
  imports Pb_Roundtrip Buf Stack Pool Cbb Base64 Sha_constants Kdf Table_reader Avl_maps
begin

text \<open>
  This library models the C and C++ code that the Arthius app builds from its pods and that is core
  logic rather than input and output: nanopb (Google's messages are encoded with it), BoringSSL's
  memory, containers, byte strings, digests and key derivation, LevelDB's log and table formats, and
  gRPC's persistent map.  Paths below are relative to \<open>src/Arthius/Pods\<close>; a definition carries the
  name of the C function it translates, and a theory lists its functions in the order of the file.

  \<^bold>\<open>How C is represented.\<close>  \<open>Prelude\<close> names the machine types: words of 8, 16, 32 and 64 bits, whose
  arithmetic wraps, and \<open>size_t\<close> as a natural number whose 64-bit arithmetic is written out
  (\<open>size_add\<close>, \<open>size_mul\<close>, \<open>size_sub\<close>).  Structures are records, unions and enumerations are
  datatypes.  Memory is a map from addresses to blocks or nodes wherever the code shares, frees or
  overflows it (\<open>Mem\<close>, \<open>Buf\<close>, \<open>Cbb\<close>, \<open>Pool\<close>, \<open>Avl\<close>, the message memories of nanopb), and a value
  elsewhere.  Two kinds of failure are kept apart: an error that the C function returns is a value
  of its result, whereas \<open>None\<close> outside of it means undefined behaviour, a failed assertion, or not
  returning.  Every property therefore states that the result is \<open>Some\<close>.

  \<^bold>\<open>Parameters.\<close>  Code that is not in the pods is an argument: whether each call of \<open>malloc\<close> succeeds
  and what address it gives (booleans, results with the contract \<open>malloc_ok\<close>, \<open>gpr_malloc\<close>), user callbacks and
  extension handlers of nanopb, comparison and hash functions of the containers, \<open>qsort\<close> and
  \<open>bsearch\<close> of the C library, the errors of the POSIX calls below LevelDB.  What the code relies on is
  a hypothesis or the law of a locale.

  \<^bold>\<open>nanopb\<close> (\<open>nanopb/pb*.c\<close>, built with 32-bit field descriptors, without packed structures and without
  malloc).  \<open>Pb_Stream\<close>: streams over memory, sizing streams and streams over callbacks; the locale
  \<open>pb_source\<close> is what decoders need of an input stream, and memory buffers are its instance.
  \<open>Pb_Varint\<close>: varints, zig-zag and fixed-width integers, tags, strings, substreams, skipping.
  \<open>Pb_Fields\<close>: field descriptors and the iterator over the fields of a message.  \<open>Pb_Encode\<close> and
  \<open>Pb_Decode\<close>: whole messages with submessages, arrays, oneofs, extensions and callbacks.  The encoder
  refines a reference encoder without streams (C2); a message that is encoded and decoded encodes to
  the same bytes again (C1); the smaller codecs have round trips and bounds, and the places where the
  code loses information or is undefined are properties too (sizes that wrap in a write, the check
  of 32 and of 64 or more required fields, cut tags, 32-bit varints of five bytes).
  Nested messages recurse on fuel, a bound on the nesting depth; C1 and C2 hold for every fuel in
  which the nesting of the descriptors fits.  The loops are partial functions, shown to return in these proofs.

  \<^bold>\<open>BoringSSL, memory and containers\<close> (\<open>BoringSSL/crypto\<close>).  \<open>Mem\<close> (\<open>mem.c\<close>): allocations that carry
  their length and are erased when freed.  \<open>Buf\<close> (\<open>buf/buf.c\<close>) and \<open>Stack\<close> (\<open>stack/stack.c\<close>) grow arrays
  on them.  \<open>Lhash\<close> (\<open>lhash/lhash.c\<close>): chained hash table; its operations refine a finite map through
  resizing, are atomic when an allocation fails, and a walk survives deletions by its callback (fuel:
  more than items and buckets together).  The locale \<open>dict\<close> is the contract, of which \<open>Lhash\<close> is the
  instance.  \<open>Refcount\<close> (\<open>refcount_lock.c\<close>, \<open>refcount_c11.c\<close>): the compare-and-swap loop is
  linearizable to the mutex version.  \<open>Pool\<close> (\<open>pool/pool.c\<close>) is a client of both, as an inductive step
  relation over threads with invariants by rule induction: no use after free, one pointer for equal
  contents.  \<open>Ct\<close> (\<open>internal.h\<close>): masks.  \<open>Base64\<close> (\<open>base64/base64.c\<close>).

  \<^bold>\<open>BoringSSL, DER\<close>.  \<open>Cbs\<close> (\<open>bytestring/cbs.c\<close>): the element parser accepts exactly the distinguished
  encodings.  \<open>Cbb\<close> (\<open>bytestring/cbb.c\<close>): builders with pending children on a shared buffer; flushing
  refines a tree whose children are closed at once, and what a tree writes \<open>Cbs\<close> reads back.

  \<^bold>\<open>BoringSSL, digests\<close> (\<open>crypto/fipsmodule\<close>, built with \<open>OPENSSL_NO_ASM\<close>).  \<open>Md32\<close>
  (\<open>digest/md32_common.h\<close>): buffering, counting and padding, proved once in the locales
  \<open>block_function\<close>, \<open>md32\<close>, \<open>compression\<close>, \<open>md32_digest\<close> and \<open>md32_spec\<close>; \<open>Sha2\<close>: the rounds of the SHA-2
  digests (locale \<open>sha2_rounds\<close>).  \<open>Md4\<close>, \<open>Md5\<close>, \<open>Sha1\<close>, \<open>Sha256\<close>, \<open>Sha512\<close> interpret them and prove the
  streaming code equal to the RFC or FIPS function, whatever the chunks; \<open>Sha_constants\<close> derives the
  tables from roots of primes.  \<open>Digest\<close>: contexts over a table of digests; the memory of
  a context keeps the size it was allocated with, and initialising, copying or erasing more or less
  than a structure of the digest leaves no context in it (locale \<open>digest\<close>, instance \<open>evp\<close>).  \<open>Hmac\<close> and \<open>Kdf\<close> (\<open>hmac/hmac.c\<close>, \<open>hkdf/hkdf.c\<close>,
  \<open>evp/pbkdf.c\<close>) rest on that contract and are equal to RFC 2104, 5869 and 8018, allocation failures and
  the limits of lengths and counters included.

  \<^bold>\<open>LevelDB\<close> (\<open>leveldb-library\<close>).  \<open>Coding\<close> (\<open>util/coding.cc\<close>).  \<open>Crc32c\<close> (\<open>util/crc32c.cc\<close>): the tables
  compute the polynomial remainder.  \<open>Ldb_log\<close> (\<open>db/log_writer.cc\<close>, \<open>db/log_reader.cc\<close>): every prefix
  of a log gives back the records it holds completely; the fuel of reading a whole log, one call more
  than there are records, is that of the statement.  \<open>Bloom\<close> (\<open>util/hash.cc\<close>, \<open>util/bloom.cc\<close>) and
  \<open>Filter_block\<close> (\<open>table/filter_block.cc\<close>), the latter on any policy of the locale \<open>filter_policy\<close>.
  \<open>Table_block\<close> and \<open>Block_iterator\<close> (\<open>table/block_builder.cc\<close>, \<open>table/block.cc\<close>): prefix-compressed
  sorted entries with restart points; the iterator moves between positions in the list of entries and
  its binary search is right for every comparator of the locale \<open>byte_keys\<close>.  \<open>Table_format\<close>
  (\<open>table/format.cc\<close>, \<open>util/comparator.cc\<close>, the random access files of \<open>util/env_posix.cc\<close>),
  \<open>Table_builder\<close> (\<open>table/table_builder.cc\<close>) and \<open>Table_reader\<close> (\<open>table/table.cc\<close>): whole tables.  The
  invariant of the builder relates its state to the data blocks in the file; the locale
  \<open>table_comparator\<close> says which keys the index may be given, with LevelDB's comparator as its instance.
  A table that was written without an error gives every key its value, through \<open>pread\<close> or \<open>mmap\<close>,
  with a Bloom filter and with a block cache that forgets what it likes; the size limit of 1 GB keeps
  the 32-bit offsets inside of blocks and filters exact.

  \<^bold>\<open>gRPC\<close> (\<open>gRPC-Core/src/core/lib/avl/avl.cc\<close>).  \<open>Avl_tree\<close>: the trees as values (locale \<open>keys\<close>, with
  \<open>strcmp\<close> as an instance).  \<open>Avl\<close>: the code with its nodes, counts and copies in a heap.  \<open>Avl_memory\<close>,
  \<open>Avl_rotate\<close>: every count is the number of references that exist, and what each primitive does to
  the references it consumes (a count is a natural number, so it cannot wrap as \<open>gpr_atm\<close> would).  \<open>Avl_maps\<close>: histories of several versions of maps refine finite
  maps, leak nothing and stay balanced.  All recursions are partial functions, shown to return.

  \<^bold>\<open>Not modelled.\<close>  The game itself is Swift; of the pods, Objective-C code and binaries are left out.  Of
  BoringSSL: TLS, X.509 and ASN.1 templates, big numbers and the public key algorithms, ciphers, error
  queues, randomness and threads, as they need system state, generated tables or theories of their
  own size.  Of LevelDB: the database with its threads, memory tables and compactions, the iterators
  that merge or chain those of blocks, the LRU cache beyond its contract, and the environment beyond
  the calls that logs and tables make.  Of gRPC: everything that is driven by sockets,
  timers and closures.  Within the modelled files: the two formatted output wrappers of \<open>mem.c\<close>; the
  functions that only release an empty or owned object (\<open>lh_free\<close>, \<open>CRYPTO_BUFFER_POOL_free\<close>,
  \<open>HMAC_CTX_free\<close>, \<open>EVP_MD_CTX_free\<close>); Bloom filters with a negative number of bits per key, whose size is
  negative in C; weak memory orders and timing.
\<close>

end
